(* ===== verification/Prelude.thy ===== *)
theory Prelude
  imports Main "HOL-Library.Signed_Division" "HOL-Library.While_Combinator"
begin

text \<open>
  Shared layer of the development: Go's fixed-width integers on a 64-bit machine
  (\<open>int\<close>, \<open>int64\<close>, \<open>time.Duration\<close>, \<open>uint64\<close>, \<open>uint32\<close>) as HOL integers with
  the wrap-around written out, Go's truncated division (the library's \<open>sdiv\<close> and
  \<open>smod\<close>), and the generic list and loop lemmas the components share.
\<close>

named_theorems wrap_simps \<open>range facts under which a wrapped operation is the exact one\<close>

subsection \<open>Two's complement wrap-around\<close>

text \<open>The value an integer has after it is stored in an \<open>int64\<close>, a \<open>uint64\<close>, a \<open>uint32\<close>.\<close>

definition i64 :: "int \<Rightarrow> int" where
  "i64 x = (x + 2 ^ 63) mod 2 ^ 64 - 2 ^ 63"

definition u64 :: "int \<Rightarrow> int" where
  "u64 x = x mod 2 ^ 64"

definition u32 :: "int \<Rightarrow> int" where
  "u32 x = x mod 2 ^ 32"

definition in_i64 :: "int \<Rightarrow> bool" where
  "in_i64 x \<longleftrightarrow> - (2 ^ 63) \<le> x \<and> x < 2 ^ 63"

abbreviation min_i64 :: int where "min_i64 \<equiv> - 9223372036854775808"
abbreviation max_i64 :: int where "max_i64 \<equiv> 9223372036854775807"

lemma i64_range [simp]: "min_i64 \<le> i64 x" "i64 x \<le> max_i64"
proof -
  have "0 \<le> (x + 2 ^ 63) mod 2 ^ 64" "(x + 2 ^ 63) mod 2 ^ 64 < (2 ^ 64 :: int)"
    by (simp_all add: pos_mod_bound)
  then show "min_i64 \<le> i64 x" "i64 x \<le> max_i64" by (simp_all add: i64_def)
qed

lemma in_i64_i64 [simp]: "in_i64 (i64 x)"
proof -
  have "i64 x < max_i64 + 1" using i64_range(2) [of x] by (rule zle_add1_eq_le [THEN iffD2])
  then show ?thesis using i64_range(1) [of x] by (simp add: in_i64_def)
qed

lemma i64_id [wrap_simps]: "in_i64 x \<Longrightarrow> i64 x = x"
  by (simp add: i64_def in_i64_def)

lemma i64_idem [simp]: "i64 (i64 x) = i64 x"
  by (rule i64_id) simp

lemma u64_range [simp]: "0 \<le> u64 x" "u64 x < 18446744073709551616"
  by (simp_all add: u64_def pos_mod_bound)

lemma u64_id [wrap_simps]: "0 \<le> x \<Longrightarrow> x < 18446744073709551616 \<Longrightarrow> u64 x = x"
  by (simp add: u64_def)

lemma u64_i64 [simp]: "u64 (i64 x) = u64 x"
proof -
  have "(x + 2 ^ 63) mod 2 ^ 64 mod 2 ^ 64 = (x + 2 ^ 63) mod (2 ^ 64 :: int)" by simp
  then have "((x + 2 ^ 63) mod 2 ^ 64 - 2 ^ 63) mod 2 ^ 64 = (x + 2 ^ 63 - 2 ^ 63) mod (2 ^ 64 :: int)"
    by (rule mod_diff_cong) simp
  then show ?thesis by (simp add: i64_def u64_def)
qed

lemma i64_u64 [simp]: "i64 (u64 x) = i64 x"
proof -
  have "(x mod 2 ^ 64 + 2 ^ 63) mod 2 ^ 64 = (x + 2 ^ 63) mod (2 ^ 64 :: int)"
    by (rule mod_add_left_eq)
  then show ?thesis by (simp add: i64_def u64_def)
qed

lemma i64_eqI: "u64 x = u64 y \<Longrightarrow> i64 x = i64 y"
  by (metis i64_u64)

lemma u64_add [simp]: "u64 (u64 x + y) = u64 (x + y)" "u64 (x + u64 y) = u64 (x + y)"
  by (simp_all add: u64_def mod_simps)

lemma u64_diff [simp]: "u64 (u64 x - y) = u64 (x - y)" "u64 (x - u64 y) = u64 (x - y)"
  by (simp_all add: u64_def mod_simps)

lemma u64_add_i64 [simp]: "u64 (i64 x + y) = u64 (x + y)" "u64 (x + i64 y) = u64 (x + y)"
  by (metis u64_add(1) u64_i64, metis u64_add(2) u64_i64)

lemma u64_diff_i64 [simp]: "u64 (i64 x - y) = u64 (x - y)" "u64 (x - i64 y) = u64 (x - y)"
  by (metis u64_diff(1) u64_i64, metis u64_diff(2) u64_i64)

lemma i64_add_i64 [simp]: "i64 (i64 x + y) = i64 (x + y)" "i64 (x + i64 y) = i64 (x + y)"
  by (rule i64_eqI, simp)+

lemma i64_diff_i64 [simp]: "i64 (i64 x - y) = i64 (x - y)" "i64 (x - i64 y) = i64 (x - y)"
  by (rule i64_eqI, simp)+

subsection \<open>Truncated division\<close>

text \<open>Go's \<open>/\<close> and \<open>%\<close> round towards zero; for operands of the same sign they are \<open>div\<close>/\<open>mod\<close>.\<close>

lemma sdiv_nonneg [simp]: "0 \<le> a \<Longrightarrow> 0 < b \<Longrightarrow> a sdiv b = a div (b :: int)"
  by (cases "a = 0") (simp_all add: signed_divide_int_def)

lemma smod_nonneg [simp]: "0 \<le> a \<Longrightarrow> 0 < b \<Longrightarrow> a smod b = a mod (b :: int)"
  by (cases "a = 0") (simp_all add: smod_int_alt_def)

lemma sdiv_smod_bounds:
  assumes "0 < (b :: int)"
  shows "\<bar>a smod b\<bar> < b" and "a = (a sdiv b) * b + a smod b"
proof -
  show "a = (a sdiv b) * b + a smod b" using sdiv_mult_smod_eq [of a b] by simp
  have "\<bar>a smod b\<bar> = \<bar>a\<bar> mod b"
    using assms by (simp add: smod_int_alt_def abs_mult sgn_if)
  then show "\<bar>a smod b\<bar> < b" using assms by (simp add: pos_mod_bound)
qed

subsection \<open>Lists\<close>

lemma map_upd_eq_filter_neq: "k \<notin> fst ` set xs \<Longrightarrow> filter (\<lambda>p. fst p \<noteq> k) xs = xs"
  by (induction xs) auto

lemma distinct_map_filter: "distinct (map f xs) \<Longrightarrow> distinct (map f (filter P xs))"
  by (induction xs) auto

end
