(* ===== verification/GoFloat.thy ===== *)
theory GoFloat
  imports Prelude Complex_Main "HOL-Library.Log_Nat"
begin

text \<open>
  Go's \<open>float64\<close>. A finite value is a rational number; the result of an operation is the
  exact result rounded to nearest, ties to even, at 53 bits of precision with the smallest
  exponent of the subnormal numbers, and overflow gives an infinity. The sign of zero is
  not kept: no code modelled here divides by a zero it computed. The conversion to an
  integer type truncates; where Go leaves the result to the platform (an infinity, a NaN or
  a value out of range) the model takes it from a parameter \<open>plat\<close>.
\<close>

datatype f64 = Fin rat | PInf | NInf | NaN

subsection \<open>Rounding\<close>

definition pow2 :: "int \<Rightarrow> rat" where
  "pow2 e = (if 0 \<le> e then 2 ^ nat e else 1 / 2 ^ nat (- e))"

definition rne :: "rat \<Rightarrow> int" where
  "rne x =
     (let f = \<lfloor>x\<rfloor>; d = x - of_int f
      in if d < 1 / 2 then f
         else if 1 / 2 < d then f + 1
         else if even f then f else f + 1)"

text \<open>The exponent of the leading bit of a positive rational.\<close>

definition ilog2 :: "rat \<Rightarrow> int" where
  "ilog2 x =
     (let (n, d) = quotient_of x; k = bitlen n - bitlen d
      in if pow2 k \<le> x then k else k - 1)"

text \<open>
  The exponent of the last place of the rounded value, and the rounding itself: the
  significand \<open>m\<close> is at most \<open>2 ^ 53\<close>, so the result overflows when it reaches \<open>2 ^ 1024\<close>,
  which is when \<open>e\<close> passes 971 or \<open>m\<close> is \<open>2 ^ 53\<close> at 971.
\<close>

definition ulp_exp :: "rat \<Rightarrow> int" where
  "ulp_exp x = max (ilog2 \<bar>x\<bar> - 52) (- 1074)"

definition f64_round :: "rat \<Rightarrow> f64" where
  "f64_round x =
     (if x = 0 then Fin 0
      else let e = ulp_exp x; m = rne (x / pow2 e)
           in if 971 < e \<or> e = 971 \<and> 2 ^ 53 \<le> \<bar>m\<bar>
              then (if 0 < m then PInf else NInf)
              else Fin (of_int m * pow2 e))"

subsection \<open>Operations\<close>

fun f_neg :: "f64 \<Rightarrow> f64" where
  "f_neg (Fin a) = Fin (- a)"
| "f_neg PInf = NInf"
| "f_neg NInf = PInf"
| "f_neg NaN = NaN"

fun f_add :: "f64 \<Rightarrow> f64 \<Rightarrow> f64" where
  "f_add (Fin a) (Fin b) = f64_round (a + b)"
| "f_add NaN _ = NaN"
| "f_add _ NaN = NaN"
| "f_add PInf NInf = NaN"
| "f_add NInf PInf = NaN"
| "f_add PInf _ = PInf"
| "f_add _ PInf = PInf"
| "f_add NInf _ = NInf"
| "f_add _ NInf = NInf"

definition f_sub :: "f64 \<Rightarrow> f64 \<Rightarrow> f64" where
  "f_sub x y = f_add x (f_neg y)"

text \<open>An infinity with the sign of a rational; zero times an infinity is not a number.\<close>

definition f_signed_inf :: "rat \<Rightarrow> f64" where
  "f_signed_inf s = (if s = 0 then NaN else if 0 < s then PInf else NInf)"

fun f_mul :: "f64 \<Rightarrow> f64 \<Rightarrow> f64" where
  "f_mul (Fin a) (Fin b) = f64_round (a * b)"
| "f_mul NaN _ = NaN"
| "f_mul _ NaN = NaN"
| "f_mul (Fin a) PInf = f_signed_inf a"
| "f_mul (Fin a) NInf = f_signed_inf (- a)"
| "f_mul PInf (Fin b) = f_signed_inf b"
| "f_mul NInf (Fin b) = f_signed_inf (- b)"
| "f_mul PInf PInf = PInf"
| "f_mul NInf NInf = PInf"
| "f_mul PInf NInf = NInf"
| "f_mul NInf PInf = NInf"

fun f_div :: "f64 \<Rightarrow> f64 \<Rightarrow> f64" where
  "f_div (Fin a) (Fin b) = (if b = 0 then f_signed_inf a else f64_round (a / b))"
| "f_div NaN _ = NaN"
| "f_div _ NaN = NaN"
| "f_div (Fin a) _ = Fin 0"
| "f_div PInf (Fin b) = (if b < 0 then NInf else PInf)"
| "f_div NInf (Fin b) = (if b < 0 then PInf else NInf)"
| "f_div _ _ = NaN"

fun f_less :: "f64 \<Rightarrow> f64 \<Rightarrow> bool" where
  "f_less (Fin a) (Fin b) = (a < b)"
| "f_less NaN _ = False"
| "f_less _ NaN = False"
| "f_less NInf b = (b \<noteq> NInf)"
| "f_less a PInf = (a \<noteq> PInf)"
| "f_less _ _ = False"

definition f_le :: "f64 \<Rightarrow> f64 \<Rightarrow> bool" where
  "f_le x y \<longleftrightarrow> f_less x y \<or> x = y \<and> x \<noteq> NaN"

text \<open>Equality of floats: a NaN is not equal to itself.\<close>

definition f_eq :: "f64 \<Rightarrow> f64 \<Rightarrow> bool" where
  "f_eq x y \<longleftrightarrow> x = y \<and> x \<noteq> NaN"

definition f_of_int :: "int \<Rightarrow> f64" where
  "f_of_int n = f64_round (of_int n)"

definition trunc_rat :: "rat \<Rightarrow> int" where
  "trunc_rat x = (if 0 \<le> x then \<lfloor>x\<rfloor> else - \<lfloor>- x\<rfloor>)"

definition f_to_i64 :: "(f64 \<Rightarrow> int) \<Rightarrow> f64 \<Rightarrow> int" where
  "f_to_i64 plat x =
     (case x of Fin a \<Rightarrow> (if in_i64 (trunc_rat a) then trunc_rat a else plat x)
      | _ \<Rightarrow> plat x)"

text \<open>What the conversion instruction of amd64 gives out of range.\<close>

definition amd64_cvt :: "f64 \<Rightarrow> int" where
  "amd64_cvt _ = min_i64"

definition max_float64 :: rat where
  "max_float64 = (2 ^ 53 - 1) * 2 ^ 971"

subsection \<open>Powers of two and the leading bit\<close>

lemma pow2_powi: "pow2 e = 2 powi e"
  by (simp add: pow2_def power_int_def power_one_over)

lemma pow2_pos [simp]: "0 < pow2 e"
  by (simp add: pow2_def)

lemma pow2_nonneg [simp]: "0 \<le> pow2 e"
  by (rule less_imp_le) simp

lemma pow2_not_neg [simp]: "\<not> pow2 e < 0"
  by (simp add: not_less)

lemma pow2_nonzero [simp]: "pow2 e \<noteq> 0"
  using pow2_pos [of e] by linarith

lemma pow2_add: "pow2 (a + b) = pow2 a * pow2 b"
  by (simp add: pow2_powi power_int_add)

lemma pow2_of_nat: "pow2 (int n) = 2 ^ n"
  by (simp add: pow2_def)

lemma pow2_mono: "a \<le> b \<Longrightarrow> pow2 a \<le> pow2 b"
  by (simp add: pow2_powi power_int_increasing)

lemma pow2_strict_mono: "a < b \<Longrightarrow> pow2 a < pow2 b"
  by (simp add: pow2_powi power_int_strict_increasing)

lemma pow2_less: "pow2 a < pow2 b \<Longrightarrow> a < b"
  using pow2_mono [of b a] by (meson linorder_not_less)

lemma pow2_diff: "pow2 (a - b) = pow2 a / pow2 b"
  using pow2_add [of "a - b" b] by (simp add: field_simps)

lemma bitlen_pow2_bounds:
  assumes "0 < n"
  shows "pow2 (bitlen n - 1) \<le> of_int n" and "of_int n < pow2 (bitlen n)"
proof -
  have b: "2 ^ nat (bitlen n - 1) \<le> n" "n < 2 ^ nat (bitlen n)"
    using bitlen_bounds [OF assms] by auto
  have pos: "0 < bitlen n"
    using assms bitlen_nonneg [of n] bitlen_eq_zero_iff [of n] by linarith
  have "of_int (2 ^ nat (bitlen n - 1)) \<le> (of_int n :: rat)" using b(1) by (rule of_int_le_iff [THEN iffD2])
  then show "pow2 (bitlen n - 1) \<le> of_int n" using pos by (simp add: pow2_def)
  have "(of_int n :: rat) < of_int (2 ^ nat (bitlen n))" using b(2) by (rule of_int_less_iff [THEN iffD2])
  then show "of_int n < pow2 (bitlen n)" using pos by (simp add: pow2_def)
qed

lemma ilog2_bounds:
  assumes "0 < x"
  shows "pow2 (ilog2 x) \<le> x" and "x < pow2 (ilog2 x + 1)"
proof -
  obtain n d where q: "quotient_of x = (n, d)" by (cases "quotient_of x")
  have d: "0 < d" using q by (rule quotient_of_denom_pos)
  have x: "x = of_int n / of_int d" using q by (rule quotient_of_div)
  have n: "0 < n" using assms d x by (simp add: zero_less_divide_iff)
  define k where "k = bitlen n - bitlen d"
  have up: "x < pow2 (k + 1)"
  proof -
    have "of_int n < pow2 (k + 1) * pow2 (bitlen d - 1)"
      using bitlen_pow2_bounds(2) [OF n] by (simp add: k_def flip: pow2_add)
    also have "\<dots> \<le> pow2 (k + 1) * of_int d"
      using bitlen_pow2_bounds(1) [OF d] by simp
    finally show ?thesis using d by (simp add: x pos_divide_less_eq)
  qed
  have lo: "pow2 (k - 1) \<le> x"
  proof -
    have "pow2 (k - 1) * of_int d \<le> pow2 (k - 1) * pow2 (bitlen d)"
      using bitlen_pow2_bounds(2) [OF d] by simp
    also have "\<dots> = pow2 (bitlen n - 1)" by (simp add: k_def flip: pow2_add)
    also have "\<dots> \<le> of_int n" by (rule bitlen_pow2_bounds(1) [OF n])
    finally show ?thesis using d by (simp add: x pos_le_divide_eq)
  qed
  have il: "ilog2 x = (if pow2 k \<le> x then k else k - 1)"
    by (simp add: ilog2_def q k_def)
  show "pow2 (ilog2 x) \<le> x" using lo by (simp add: il)
  show "x < pow2 (ilog2 x + 1)" using up by (simp add: il)
qed

lemma ilog2_eqI:
  assumes "pow2 k \<le> x" and "x < pow2 (k + 1)"
  shows "ilog2 x = k"
proof -
  have x: "0 < x" using pow2_pos [of k] assms(1) by linarith
  have "k < ilog2 x + 1"
    using assms(1) ilog2_bounds(2) [OF x] by (intro pow2_less) linarith
  moreover have "ilog2 x < k + 1"
    using assms(2) ilog2_bounds(1) [OF x] by (intro pow2_less) linarith
  ultimately show ?thesis by linarith
qed

lemma ilog2_mono:
  assumes "0 < x" and "x \<le> y"
  shows "ilog2 x \<le> ilog2 y"
proof -
  have "pow2 (ilog2 x) < pow2 (ilog2 y + 1)"
    using ilog2_bounds(1) [OF assms(1)] ilog2_bounds(2) [of y] assms by linarith
  then show ?thesis using pow2_less by fastforce
qed

subsection \<open>Rounding to nearest\<close>

lemma rne_of_int [simp]: "rne (of_int n) = n"
  by (simp add: rne_def)

lemma rne_bounds: "\<lfloor>x\<rfloor> \<le> rne x" "rne x \<le> \<lfloor>x\<rfloor> + 1"
  by (simp_all add: rne_def Let_def)

lemma rne_error: "\<bar>of_int (rne x) - x\<bar> \<le> 1 / 2"
proof -
  define f where "f = (of_int \<lfloor>x\<rfloor> :: rat)"
  have b: "f \<le> x" "x < f + 1" unfolding f_def by linarith+
  have "of_int (rne x) = f \<and> x - f \<le> 1 / 2 \<or> of_int (rne x) = f + 1 \<and> 1 / 2 \<le> x - f"
    by (auto simp: rne_def Let_def f_def not_less)
  then show ?thesis using b unfolding abs_le_iff by auto
qed

lemma rne_ge: "of_int n \<le> x \<Longrightarrow> n \<le> rne x"
  using rne_bounds(1) [of x] by (meson le_floor_iff order_trans)

lemma rne_le:
  assumes "x \<le> of_int n"
  shows "rne x \<le> n"
proof (cases "x = of_int n")
  case False
  then have "x < of_int n" using assms by simp
  then have "\<lfloor>x\<rfloor> < n" by (simp add: floor_less_iff)
  then show ?thesis using rne_bounds(2) [of x] by linarith
qed simp

lemma rne_mono:
  assumes "x \<le> y"
  shows "rne x \<le> rne y"
proof (cases "\<lfloor>x\<rfloor> = \<lfloor>y\<rfloor>")
  case True
  then have "x - of_int \<lfloor>x\<rfloor> \<le> y - of_int \<lfloor>x\<rfloor>" using assms by simp
  then show ?thesis using True by (auto simp: rne_def Let_def)
next
  case False
  then have "\<lfloor>x\<rfloor> + 1 \<le> \<lfloor>y\<rfloor>" using floor_mono [OF assms] by linarith
  then show ?thesis using rne_bounds(2) [of x] rne_bounds(1) [of y] by linarith
qed

text \<open>Between the exact value and any multiple of the last place, rounding stays on its side.\<close>

lemma rne_scaled_le: "x \<le> of_int n * pow2 e \<Longrightarrow> of_int (rne (x / pow2 e)) * pow2 e \<le> of_int n * pow2 e"
  by (rule mult_right_mono) (simp_all add: rne_le pos_divide_le_eq)

lemma rne_scaled_ge: "of_int n * pow2 e \<le> x \<Longrightarrow> of_int n * pow2 e \<le> of_int (rne (x / pow2 e)) * pow2 e"
  by (rule mult_right_mono) (simp_all add: rne_ge pos_le_divide_eq)

lemma rne_scaled_exact: "of_int (rne (of_int n * pow2 e / pow2 e)) = (of_int n :: rat)"
  by simp

subsection \<open>The rounded value before the overflow test\<close>

definition rval :: "rat \<Rightarrow> rat" where
  "rval x = (if x = 0 then 0 else of_int (rne (x / pow2 (ulp_exp x))) * pow2 (ulp_exp x))"

lemma ulp_exp_mono: "0 < x \<Longrightarrow> x \<le> y \<Longrightarrow> ulp_exp x \<le> ulp_exp y"
  by (simp add: ulp_exp_def) (use ilog2_mono [of x y] in linarith)

lemma ulp_exp_minus [simp]: "ulp_exp (- x) = ulp_exp x"
  by (simp add: ulp_exp_def)

lemma rne_minus: "rne (- x) = - rne x"
proof (cases "x = of_int \<lfloor>x\<rfloor>")
  case True
  then have "- x = of_int (- \<lfloor>x\<rfloor>)" by simp
  then show ?thesis using True by (metis rne_of_int)
next
  case False
  have f: "\<lfloor>- x\<rfloor> = - \<lfloor>x\<rfloor> - 1"
    using False by (intro floor_unique) (simp_all, linarith+)
  then show ?thesis by (auto simp: rne_def Let_def f)
qed

lemma rval_minus: "rval (- x) = - rval x"
  by (simp add: rval_def rne_minus flip: minus_divide_left)

lemma rval_nonneg: "0 \<le> x \<Longrightarrow> 0 \<le> rval x"
  using rne_scaled_ge [of 0 "ulp_exp x" x] by (simp add: rval_def)

text \<open>A positive value rounds to at least the power of two below it.\<close>

lemma rval_ge_pow2:
  assumes "0 < x" and "pow2 k \<le> x" and "- 1074 \<le> k"
  shows "pow2 k \<le> rval x"
proof (cases "ulp_exp x \<le> k")
  case True
  have "of_int (2 ^ nat (k - ulp_exp x)) * pow2 (ulp_exp x) = pow2 k"
    using True by (simp add: pow2_of_nat [symmetric] flip: pow2_add)
  then show ?thesis
    using rne_scaled_ge [of "2 ^ nat (k - ulp_exp x)" "ulp_exp x" x] assms
    by (simp add: rval_def)
next
  case False
  have "ilog2 x \<ge> ulp_exp x"
    using assms False by (auto simp: ulp_exp_def)
  then have "of_int 1 * pow2 (ulp_exp x) \<le> x"
    using ilog2_bounds(1) [OF assms(1)] pow2_mono [of "ulp_exp x" "ilog2 x"] by simp
  from rne_scaled_ge [OF this] have "pow2 (ulp_exp x) \<le> rval x"
    using assms(1) by (simp add: rval_def)
  moreover have "pow2 k \<le> pow2 (ulp_exp x)" using False by (intro pow2_mono) simp
  ultimately show ?thesis by linarith
qed

text \<open>Rounding never goes past a power of two above the value (above the subnormal grid).\<close>

lemma rval_le_pow2:
  assumes "0 < x" and "x \<le> pow2 k" and "- 1074 \<le> k" and "ilog2 x < k"
  shows "rval x \<le> pow2 k"
proof -
  have le: "ulp_exp x \<le> k" using assms by (simp add: ulp_exp_def)
  have "of_int (2 ^ nat (k - ulp_exp x)) * pow2 (ulp_exp x) = pow2 k"
    using le by (simp add: pow2_of_nat [symmetric] flip: pow2_add)
  then show ?thesis
    using rne_scaled_le [of x "2 ^ nat (k - ulp_exp x)" "ulp_exp x"] assms
    by (simp add: rval_def)
qed

lemma rval_mono_pos:
  assumes "0 < x" and "x \<le> y"
  shows "rval x \<le> rval y"
proof (cases "ulp_exp x = ulp_exp y")
  case True
  have "rne (x / pow2 (ulp_exp y)) \<le> rne (y / pow2 (ulp_exp y))"
    using assms by (intro rne_mono divide_right_mono) simp_all
  then show ?thesis using assms True by (simp add: rval_def mult_right_mono)
next
  case False
  then have less: "ulp_exp x < ulp_exp y" using ulp_exp_mono [OF assms] by simp
  then have k: "ulp_exp y = ilog2 y - 52" "- 1074 < ilog2 y - 52" "ilog2 x < ilog2 y"
    using assms by (auto simp: ulp_exp_def max_def split: if_splits)
  have "x \<le> pow2 (ilog2 y)"
    using ilog2_bounds(2) [OF assms(1)] pow2_mono [of "ilog2 x + 1" "ilog2 y"] k(3) by simp
  then have "rval x \<le> pow2 (ilog2 y)"
    using assms k by (intro rval_le_pow2) simp_all
  also have "\<dots> \<le> rval y"
    using assms k ilog2_bounds(1) [of y] by (intro rval_ge_pow2) simp_all
  finally show ?thesis .
qed

lemma rval_mono: "x \<le> y \<Longrightarrow> rval x \<le> rval y"
proof -
  assume le: "x \<le> y"
  consider "0 < x" | "x \<le> 0" "0 \<le> y" | "y < 0" by linarith
  then show ?thesis
  proof cases
    case 1 then show ?thesis using le by (rule rval_mono_pos)
  next
    case 2
    then have "0 \<le> rval (- x)" "0 \<le> rval y" by (simp_all add: rval_nonneg)
    then show ?thesis by (simp add: rval_minus)
  next
    case 3
    then have "rval (- y) \<le> rval (- x)" using le by (intro rval_mono_pos) simp_all
    then show ?thesis by (simp add: rval_minus)
  qed
qed

text \<open>The rounding of \<open>f64_round\<close> is \<open>rval\<close> clamped at \<open>2 ^ 1024\<close>.\<close>

lemma rne_significand:
  assumes "x \<noteq> 0"
  shows "\<bar>rne (x / pow2 (ulp_exp x))\<bar> \<le> 2 ^ 53"
proof -
  have pos: "0 < \<bar>x\<bar>" using assms by simp
  have "\<bar>x\<bar> \<le> pow2 (ilog2 \<bar>x\<bar> + 1)" using ilog2_bounds(2) [OF pos] by simp
  also have "\<dots> \<le> pow2 (53 + ulp_exp x)" by (rule pow2_mono) (simp add: ulp_exp_def)
  finally have "\<bar>x\<bar> \<le> 2 ^ 53 * pow2 (ulp_exp x)"
    using pow2_of_nat [of 53] by (simp add: pow2_add)
  then have "\<bar>x / pow2 (ulp_exp x)\<bar> \<le> 2 ^ 53" by (simp add: abs_divide pos_divide_le_eq)
  then have "x / pow2 (ulp_exp x) \<le> of_int (2 ^ 53)" "of_int (- (2 ^ 53)) \<le> x / pow2 (ulp_exp x)"
    unfolding abs_le_iff by simp_all
  from rne_le [OF this(1)] rne_ge [OF this(2)] show ?thesis by (simp add: abs_le_iff)
qed

text \<open>The largest power of two that is not a finite float.\<close>

abbreviation f64_top :: rat where "f64_top \<equiv> pow2 1024"

lemma rval_overflow_iff:
  assumes "x \<noteq> 0"
  defines "e \<equiv> ulp_exp x" and "m \<equiv> rne (x / pow2 (ulp_exp x))"
  shows "(971 < e \<or> e = 971 \<and> 2 ^ 53 \<le> \<bar>m\<bar>) \<longleftrightarrow> f64_top \<le> \<bar>rval x\<bar>"
proof -
  have rv: "\<bar>rval x\<bar> = of_int \<bar>m\<bar> * pow2 e"
    using assms by (simp add: rval_def abs_mult)
  have m53: "\<bar>m\<bar> \<le> 2 ^ 53" unfolding m_def by (rule rne_significand [OF assms(1)])
  have t: "f64_top = 2 ^ 53 * pow2 971"
    using pow2_add [of 53 971] pow2_of_nat [of 53] by simp
  consider "e < 971" | "e = 971" | "971 < e" by linarith
  then show ?thesis
  proof cases
    case 1
    have "of_int \<bar>m\<bar> * pow2 e \<le> 2 ^ 53 * pow2 e"
      using m53 of_int_le_iff [of "\<bar>m\<bar>" "2 ^ 53", where 'a = rat]
      by (intro mult_right_mono) (simp_all del: of_int_abs)
    also have "\<dots> \<le> 2 ^ 53 * pow2 970" using 1 by (intro mult_left_mono pow2_mono) simp_all
    also have "\<dots> < f64_top" unfolding t by (intro mult_strict_left_mono pow2_strict_mono) simp_all
    finally show ?thesis using 1 rv by simp
  next
    case 2
    then show ?thesis by (simp add: rv t) linarith
  next
    case 3
    have pos: "0 < \<bar>x\<bar>" using assms(1) by simp
    have "e = ilog2 \<bar>x\<bar> - 52" using 3 by (simp add: e_def ulp_exp_def max_def split: if_splits)
    then have k: "1024 \<le> ilog2 \<bar>x\<bar>" using 3 by simp
    have "pow2 (ilog2 \<bar>x\<bar>) \<le> rval \<bar>x\<bar>"
      using pos k ilog2_bounds(1) [OF pos] by (intro rval_ge_pow2) simp_all
    moreover have "rval \<bar>x\<bar> \<le> \<bar>rval x\<bar>" by (cases "0 \<le> x") (simp_all add: rval_minus)
    ultimately show ?thesis using 3 pow2_mono [OF k] by simp
  qed
qed

lemma f64_round_alt:
  "f64_round x =
     (if f64_top \<le> rval x then PInf else if rval x \<le> - f64_top then NInf else Fin (rval x))"
proof (cases "x = 0")
  case True
  then show ?thesis using pow2_pos [of 1024] by (simp add: f64_round_def rval_def not_le)
next
  case False
  have sgn: "0 < rne (x / pow2 (ulp_exp x)) \<longleftrightarrow> 0 < rval x"
    using False by (simp add: rval_def zero_less_mult_iff)
  have top: "0 < f64_top" by simp
  have val: "of_int (rne (x / pow2 (ulp_exp x))) * pow2 (ulp_exp x) = rval x"
    using False by (simp add: rval_def)
  have "f64_round x =
      (if f64_top \<le> \<bar>rval x\<bar> then (if 0 < rval x then PInf else NInf) else Fin (rval x))"
    using False unfolding f64_round_def Let_def rval_overflow_iff [OF False] sgn val by simp
  moreover have "\<not> f64_top \<le> r" if "r \<le> 0" for r using top that by linarith
  ultimately show ?thesis by (auto simp: abs_if)
qed

lemma rval_multiple: "x = of_int n * pow2 (ulp_exp x) \<Longrightarrow> rval x = x"
proof (cases "x = 0")
  case False
  assume x: "x = of_int n * pow2 (ulp_exp x)"
  then have "x / pow2 (ulp_exp x) = of_int n" by (simp add: field_simps)
  then have "rne (x / pow2 (ulp_exp x)) = n" by (metis rne_of_int)
  then show ?thesis using x False by (simp add: rval_def)
qed (simp add: rval_def)

lemma rval_exact_pos:
  assumes "0 < m" and "m \<le> 2 ^ 53" and "- 1074 \<le> e"
  shows "rval (of_int m * pow2 e) = of_int m * pow2 e"
proof -
  define x where "x = of_int m * pow2 e"
  define u where "u = ulp_exp x"
  have x: "0 < x" using assms by (simp add: x_def)
  have "x \<le> of_int (2 ^ 53) * pow2 e"
    unfolding x_def using assms(2) by (intro mult_right_mono of_int_le_iff [THEN iffD2]) simp_all
  then have xle: "x \<le> pow2 (53 + e)" using pow2_of_nat [of 53] by (simp add: pow2_add)
  have "\<exists>n. x = of_int n * pow2 u"
  proof (cases "u \<le> e")
    case True
    then have "pow2 e = of_int (2 ^ nat (e - u)) * pow2 u"
      by (simp add: pow2_of_nat [symmetric] flip: pow2_add)
    then show ?thesis unfolding x_def by (intro exI [of _ "m * 2 ^ nat (e - u)"]) simp
  next
    case False
    then have u: "u = ilog2 x - 52"
      using assms(3) x by (auto simp: u_def ulp_exp_def max_def split: if_splits)
    have lb: "pow2 (ilog2 x) \<le> x" by (rule ilog2_bounds(1) [OF x])
    have "pow2 (ilog2 x) < pow2 (53 + e + 1)"
      using lb xle pow2_strict_mono [of "53 + e" "53 + e + 1"] by linarith
    then have "ilog2 x < 53 + e + 1" by (rule pow2_less)
    then have eq: "ilog2 x = 53 + e" using False u by linarith
    then have "x = pow2 (52 + u)" using lb xle u by simp
    then have "x = of_int (2 ^ 52) * pow2 u" using pow2_of_nat [of 52] by (simp add: pow2_add)
    then show ?thesis by blast
  qed
  then show ?thesis unfolding x_def [symmetric] u_def by (auto intro: rval_multiple)
qed

lemma rval_exact:
  assumes "\<bar>m\<bar> \<le> 2 ^ 53" and "- 1074 \<le> e"
  shows "rval (of_int m * pow2 e) = of_int m * pow2 e"
proof -
  consider "m = 0" | "0 < m" | "0 < - m" by linarith
  then show ?thesis
  proof cases
    case 1 then show ?thesis by (simp add: rval_def)
  next
    case 2 then show ?thesis using assms by (intro rval_exact_pos) simp_all
  next
    case 3
    then have "rval (of_int (- m) * pow2 e) = of_int (- m) * pow2 e"
      using assms by (intro rval_exact_pos) simp_all
    then show ?thesis using rval_minus [of "of_int m * pow2 e"] by simp
  qed
qed

lemma rval_of_int: "\<bar>n\<bar> \<le> 2 ^ 53 \<Longrightarrow> rval (of_int n) = of_int n"
  using rval_exact [of n 0] by (simp add: pow2_def)

subsection \<open>Facts the components use\<close>

text \<open>Integers up to \<open>2 ^ 53\<close> are exact, and so is adding them.\<close>

lemma f64_round_rval: "\<bar>rval x\<bar> < f64_top \<Longrightarrow> f64_round x = Fin (rval x)"
  by (auto simp: f64_round_alt abs_less_iff)

lemma int_below_top: "\<bar>n\<bar> \<le> 2 ^ 53 \<Longrightarrow> \<bar>of_int n\<bar> < f64_top"
proof -
  assume n: "\<bar>n\<bar> \<le> 2 ^ 53"
  have "\<bar>of_int n\<bar> = (of_int \<bar>n\<bar> :: rat)" by simp
  also have "\<dots> \<le> of_int (2 ^ 53)" using n by (rule of_int_le_iff [THEN iffD2])
  also have "\<dots> = pow2 53" using pow2_of_nat [of 53] by simp
  also have "\<dots> < f64_top" by (rule pow2_strict_mono) simp
  finally show ?thesis .
qed

lemma f_of_int_exact: "\<bar>n\<bar> \<le> 2 ^ 53 \<Longrightarrow> f_of_int n = Fin (of_int n)"
  using f64_round_rval [of "of_int n"] int_below_top [of n] by (simp add: f_of_int_def rval_of_int)

lemma f_add_of_int:
  "\<bar>a + b\<bar> \<le> 2 ^ 53 \<Longrightarrow> f_add (Fin (of_int a)) (Fin (of_int b)) = Fin (of_int (a + b))"
  using f_of_int_exact [of "a + b"] by (simp add: f_of_int_def)

text \<open>Rounding is monotone in the order of the extended floats.\<close>

lemma f64_round_mono: "x \<le> y \<Longrightarrow> f_le (f64_round x) (f64_round y)"
  using rval_mono [of x y] pow2_pos [of 1024] by (auto simp: f64_round_alt f_le_def)

lemma f64_round_not_nan [simp]: "f64_round x \<noteq> NaN" "NaN \<noteq> f64_round x"
  by (simp_all add: f64_round_alt)

lemma f64_round_zero [simp]: "f64_round 0 = Fin 0"
  by (simp add: f64_round_def)

lemma f_less_irrefl [simp]: "\<not> f_less x x"
  by (cases x) simp_all

lemma f_le_refl [simp]: "f_le x x \<longleftrightarrow> x \<noteq> NaN"
  by (simp add: f_le_def)

lemma f_le_Fin [simp]: "f_le (Fin a) (Fin b) \<longleftrightarrow> a \<le> b"
  by (auto simp: f_le_def)

lemma f_le_trans: "f_le x y \<Longrightarrow> f_le y z \<Longrightarrow> f_le x z"
  by (cases x; cases y; cases z) (auto simp: f_le_def)

lemma f_less_le_not: "x \<noteq> NaN \<Longrightarrow> y \<noteq> NaN \<Longrightarrow> f_less x y \<longleftrightarrow> \<not> f_le y x"
  by (cases x; cases y) (auto simp: f_le_def)

text \<open>
  A certificate for evaluating a rounding: the leading-bit exponent, the last place and the
  rounded significand of a positive value.
\<close>

lemma f64_round_certificate:
  assumes "pow2 k \<le> x" and "x < pow2 (k + 1)" and "e = max (k - 52) (- 1074)" and "e \<le> 970"
    and "rne (x / pow2 e) = m"
  shows "f64_round x = Fin (of_int m * pow2 e)"
proof -
  have x: "0 < x" using assms(1) pow2_pos [of k] by linarith
  have "ilog2 \<bar>x\<bar> = k" using assms x by (simp add: ilog2_eqI)
  then have "ulp_exp x = e" by (simp add: ulp_exp_def assms(3))
  moreover have "\<not> (971 < e \<or> e = 971 \<and> 2 ^ 53 \<le> \<bar>m\<bar>)" using assms(4) by simp
  ultimately show ?thesis using assms(5) x unfolding f64_round_def Let_def by simp
qed

text \<open>The largest float as a literal, so that evaluation need not raise 2 to the 971.\<close>

lemma max_float64_code [code]:
  "max_float64 = of_int 0xfffffffffffff800000000000000000000000000000000000000000000000000000000000000000000000000000000000000000000000000000000000000000000000000000000000000000000000000000000000000000000000000000000000000000000000000000000000000000000000000000000000000000000000000"
  by (simp add: max_float64_def)

subsection \<open>Rounding twice, and the order of rounded differences\<close>

lemma f_less_PInf [simp]: "\<not> f_less PInf y"
  by (cases y) simp_all

lemma f_less_to_NInf [simp]: "\<not> f_less x NInf"
  by (cases x) simp_all

lemma rval_idem [simp]: "rval (rval x) = rval x"
proof (cases "x = 0")
  case False
  have "- 1074 \<le> ulp_exp x" by (simp add: ulp_exp_def)
  from rval_exact [OF rne_significand [OF False] this] show ?thesis
    using False by (simp add: rval_def)
qed (simp add: rval_def)

lemma f64_round_Fin: "f64_round x = Fin y \<Longrightarrow> y = rval x"
  by (auto simp: f64_round_alt split: if_splits)

lemma f64_round_idem: "f64_round x = Fin y \<Longrightarrow> f64_round y = Fin y"
  by (auto simp: f64_round_alt split: if_splits)

lemma f_le_not_less: "f_le x y \<Longrightarrow> \<not> f_less y x"
  by (cases x; cases y) (auto simp: f_le_def)

text \<open>Subtracting a non-negative count from a value not above \<open>B\<close> stays not above \<open>B\<close>.\<close>

lemma f_sub_not_above:
  assumes "\<not> f_less (f_of_int b) x" and "0 \<le> n"
  shows "\<not> f_less (f_of_int b) (f_sub x (f_of_int n))"
proof -
  have n: "f_le (Fin 0) (f_of_int n)"
    using f64_round_mono [of 0 "of_int n"] assms(2) by (simp add: f_of_int_def)
  show ?thesis
  proof (cases x)
    case (Fin a)
    show ?thesis
    proof (cases "f_of_int b")
      case (Fin B)
      have aB: "a \<le> B" using assms(1) by (simp add: \<open>x = Fin a\<close> Fin)
      show ?thesis
      proof (cases "f_of_int n")
        case f: (Fin m)
        have "0 \<le> m" using n by (simp add: f)
        then have "f_le (f64_round (a - m)) (f64_round B)" using aB by (intro f64_round_mono) simp
        moreover have "f64_round B = Fin B" using Fin unfolding f_of_int_def by (rule f64_round_idem)
        ultimately show ?thesis using f_le_not_less by (simp add: f_sub_def f Fin \<open>x = Fin a\<close>)
      qed (use n in \<open>auto simp: f_le_def f_sub_def \<open>x = Fin a\<close> Fin\<close>)
    qed (use assms(1) in \<open>auto simp: Fin f_sub_def\<close>)
  next
    case PInf
    then have "f_of_int b = PInf" using assms(1) by (cases "f_of_int b") (auto simp: f_of_int_def)
    then show ?thesis by (cases "f_sub x (f_of_int n)") auto
  next
    case NInf
    then have "f_sub x (f_of_int n) \<in> {NInf, NaN}"
      using n by (cases "f_of_int n") (auto simp: f_sub_def f_le_def)
    then show ?thesis by (cases "f_of_int b") auto
  next
    case NaN
    then show ?thesis by (cases "f_of_int b") (simp_all add: f_sub_def)
  qed
qed

subsection \<open>Rounding error\<close>

lemma rval_error: "\<bar>rval x - x\<bar> \<le> pow2 (ulp_exp x) / 2"
proof (cases "x = 0")
  case False
  define p where "p = pow2 (ulp_exp x)"
  have p: "0 < p" by (simp add: p_def)
  have "\<bar>rval x - x\<bar> = \<bar>of_int (rne (x / p)) - x / p\<bar> * p"
    using False p by (simp add: rval_def p_def [symmetric] abs_mult_pos left_diff_distrib)
  also have "\<dots> \<le> 1 / 2 * p" using p rne_error [of "x / p"] by (intro mult_right_mono) simp_all
  finally show ?thesis by (simp add: p_def)
qed (simp add: rval_def)

lemma rval_error_bound:
  assumes "\<bar>x\<bar> \<le> pow2 k" and "- 1022 \<le> k"
  shows "\<bar>rval x - x\<bar> \<le> pow2 (k - 53)"
proof (cases "x = 0")
  case False
  then have pos: "0 < \<bar>x\<bar>" by simp
  have "ilog2 (pow2 k) = k" by (rule ilog2_eqI) (simp_all add: pow2_strict_mono)
  then have "ilog2 \<bar>x\<bar> \<le> k" using ilog2_mono [OF pos assms(1)] by simp
  then have "ulp_exp x \<le> k - 52" using assms(2) by (simp add: ulp_exp_def)
  then have "pow2 (ulp_exp x) \<le> pow2 (k - 52)" by (rule pow2_mono)
  moreover have "pow2 (k - 52) = 2 * pow2 (k - 53)" using pow2_add [of 1 "k - 53"] pow2_of_nat [of 1] by simp
  ultimately show ?thesis using rval_error [of x] by linarith
qed (simp add: rval_def)

lemma f64_round_small: "\<bar>x\<bar> \<le> pow2 k \<Longrightarrow> k < 1024 \<Longrightarrow> f64_round x = Fin (rval x)"
proof -
  assume x: "\<bar>x\<bar> \<le> pow2 k" and k: "k < 1024"
  define j where "j = max k 0"
  have "\<bar>x\<bar> \<le> pow2 j" using x pow2_mono [of k j] by (simp add: j_def)
  moreover have "rval (pow2 j) = pow2 j" using rval_exact [of 1 j] by (simp add: j_def)
  ultimately have "rval x \<le> pow2 j" "rval (- x) \<le> pow2 j"
    using rval_mono [of x "pow2 j"] rval_mono [of "- x" "pow2 j"] by (simp_all add: abs_le_iff)
  moreover have "pow2 j < f64_top" using k by (intro pow2_strict_mono) (simp add: j_def)
  ultimately show ?thesis by (intro f64_round_rval) (simp add: rval_minus abs_less_iff)
qed

lemma pow2_neg: "0 \<le> k \<Longrightarrow> pow2 (- k) = 1 / 2 ^ nat k"
  by (auto simp: pow2_def)

lemma f64_round_near:
  assumes "\<bar>x\<bar> \<le> 2 ^ k" and "k < 1024"
  shows "f64_round x = Fin (rval x)" and "\<bar>rval x - x\<bar> \<le> pow2 (int k - 53)"
  using f64_round_small [of x "int k"] rval_error_bound [of x "int k"] assms by (simp_all add: pow2_of_nat)

text \<open>Integers of up to 53 bits are their own rounding: the equation evaluation uses first.\<close>

lemma f64_round_code [code]:
  "f64_round x =
     (if of_int \<lfloor>x\<rfloor> = x \<and> \<bar>\<lfloor>x\<rfloor>\<bar> \<le> 2 ^ 53 then Fin x
      else let e = ulp_exp x; m = rne (x / pow2 e)
           in if 971 < e \<or> e = 971 \<and> 2 ^ 53 \<le> \<bar>m\<bar>
              then (if 0 < m then PInf else NInf)
              else Fin (of_int m * pow2 e))"
proof (cases "of_int \<lfloor>x\<rfloor> = x \<and> \<bar>\<lfloor>x\<rfloor>\<bar> \<le> 2 ^ 53")
  case True
  then have "f64_round x = Fin x" using f_of_int_exact [of "\<lfloor>x\<rfloor>"] unfolding f_of_int_def by metis
  then show ?thesis using True by simp
next
  case False
  then have "x \<noteq> 0" by auto
  then show ?thesis unfolding f64_round_def by (simp only: False if_False)
qed

end
