(* ===== verification/GoTime.thy ===== *)
theory GoTime
  imports GoFloat
begin

text \<open>
  Package \<open>time\<close> (src/src/time/time.go, zoneinfo.go): instants, durations, locations and
  the calendar, as far as the rate limiter, the cron schedules and the circuit breaker use
  them. A \<open>Time\<close> keeps the instant (seconds since January 1 of year 1 and nanoseconds), the
  optional monotonic reading and the location; the packing of these into the words
  \<open>wall\<close> and \<open>ext\<close> is the only thing left out, except that its 33-bit range is kept where
  the code falls back from it (\<open>addSec\<close>). A \<open>*Location\<close> is one of UTC (the nil pointer and
  \<open>&utcLoc\<close>, which \<open>setLoc\<close> identifies), the system's local zone, whose data the environment
  gives, and any other zone.
\<close>

subsection \<open>Constants\<close>

named_theorems time_consts \<open>the calendar's constants, unfolded\<close>

definition secondsPerMinute :: int where [time_consts]: "secondsPerMinute = 60"
definition secondsPerHour :: int where [time_consts]: "secondsPerHour = 60 * 60"
definition secondsPerDay :: int where [time_consts]: "secondsPerDay = 24 * 3600"
definition secondsPerWeek :: int where [time_consts]: "secondsPerWeek = 7 * 86400"
definition daysPer400Years :: int where [time_consts]: "daysPer400Years = 365 * 400 + 97"
definition daysPer100Years :: int where [time_consts]: "daysPer100Years = 365 * 100 + 24"
definition daysPer4Years :: int where [time_consts]: "daysPer4Years = 365 * 4 + 1"

definition absoluteZeroYear :: int where [time_consts]: "absoluteZeroYear = - 292277022399"

text \<open>\<open>(absoluteZeroYear - internalYear) * 365.2425 * secondsPerDay\<close>, exact as a constant.\<close>

definition absoluteToInternal :: int where [time_consts]:
  "absoluteToInternal = (- 292277022399 - 1) * 3652425 * 86400 div 10000"

definition unixToInternal :: int where [time_consts]:
  "unixToInternal = (1969 * 365 + 1969 div 4 - 1969 div 100 + 1969 div 400) * 86400"

definition wallToInternal :: int where [time_consts]:
  "wallToInternal = (1884 * 365 + 1884 div 4 - 1884 div 100 + 1884 div 400) * 86400"

definition Nanosecond :: int where [time_consts]: "Nanosecond = 1"
definition Microsecond :: int where [time_consts]: "Microsecond = 1000 * 1"
definition Millisecond :: int where [time_consts]: "Millisecond = 1000 * 1000"
definition Second :: int where [time_consts]: "Second = 1000 * 1000000"
definition Minute :: int where [time_consts]: "Minute = 60 * 1000000000"
definition Hour :: int where [time_consts]: "Hour = 60 * 60000000000"

text \<open>\<open>alpha\<close> and \<open>omega\<close>, the beginning and end of time for zone transitions.\<close>

definition alpha :: int where "alpha = min_i64"
definition omega :: int where "omega = max_i64"

subsection \<open>Locations\<close>

record zone =
  zname :: string
  zoffset :: int
  zisDST :: bool

record zone_trans =
  tx_when :: int
  tx_index :: nat

record location =
  lname :: string
  lzone :: "zone list"
  ltx :: "zone_trans list"
  cacheStart :: int
  cacheEnd :: int
  cacheZone :: "zone option"

definition utcLoc :: location where
  "utcLoc = \<lparr>lname = ''UTC'', lzone = [], ltx = [], cacheStart = 0, cacheEnd = 0, cacheZone = None\<rparr>"

datatype loc = UTC | Local location | Zone location

fun loc_get :: "loc \<Rightarrow> location" where
  "loc_get UTC = utcLoc"
| "loc_get (Local l) = l"
| "loc_get (Zone l) = l"

definition FixedZone :: "string \<Rightarrow> int \<Rightarrow> loc" where
  "FixedZone name offset =
     (let z = \<lparr>zname = name, zoffset = offset, zisDST = False\<rparr>
      in Zone \<lparr>lname = name, lzone = [z], ltx = [\<lparr>tx_when = alpha, tx_index = 0\<rparr>],
               cacheStart = alpha, cacheEnd = omega, cacheZone = Some z\<rparr>)"

definition firstZoneUsed :: "location \<Rightarrow> bool" where
  "firstZoneUsed l = list_ex (\<lambda>tx. tx_index tx = 0) (ltx l)"

text \<open>The descending search of case 2: from the zone before the first transition's down to 0.\<close>

fun std_zone_below :: "zone list \<Rightarrow> nat \<Rightarrow> nat option" where
  "std_zone_below zs 0 = None"
| "std_zone_below zs (Suc zi) = (if \<not> zisDST (zs ! zi) then Some zi else std_zone_below zs zi)"

definition first_std_zone :: "zone list \<Rightarrow> nat" where
  "first_std_zone zs =
     (case find (\<lambda>zi. \<not> zisDST (zs ! zi)) [0..<length zs] of Some zi \<Rightarrow> zi | None \<Rightarrow> 0)"

definition lookupFirstZone :: "location \<Rightarrow> nat" where
  "lookupFirstZone l =
     (if \<not> firstZoneUsed l then 0
      else case (if ltx l \<noteq> [] \<and> zisDST (lzone l ! tx_index (hd (ltx l)))
                 then std_zone_below (lzone l) (tx_index (hd (ltx l))) else None) of
             Some zi \<Rightarrow> zi
           | None \<Rightarrow> first_std_zone (lzone l))"

text \<open>The binary search for the last transition at or before \<open>sec\<close>; \<open>en\<close> is the code's \<open>end\<close>.\<close>

function tx_search :: "zone_trans list \<Rightarrow> int \<Rightarrow> nat \<Rightarrow> nat \<Rightarrow> int \<Rightarrow> nat \<times> int" where
  "tx_search tx sec lo hi en =
     (if 1 < hi - lo
      then let m = lo + (hi - lo) div 2; lim = tx_when (tx ! m)
           in if sec < lim then tx_search tx sec lo m lim else tx_search tx sec m hi en
      else (lo, en))"
  by pat_completeness auto
termination
  by (relation "measure (\<lambda>(tx, sec, lo, hi, en). hi - lo)") auto

declare tx_search.simps [simp del]

text \<open>The zone in use at a Unix time: its name, offset, and the start and end of its period.\<close>

definition loc_lookup :: "location \<Rightarrow> int \<Rightarrow> string \<times> int \<times> int \<times> int" where
  "loc_lookup l sec =
     (if lzone l = [] then (''UTC'', 0, alpha, omega)
      else case (if cacheStart l \<le> sec \<and> sec < cacheEnd l then cacheZone l else None) of
        Some z \<Rightarrow> (zname z, zoffset z, cacheStart l, cacheEnd l)
      | None \<Rightarrow>
          if ltx l = [] \<or> sec < tx_when (hd (ltx l))
          then let z = lzone l ! lookupFirstZone l
               in (zname z, zoffset z, alpha, if ltx l \<noteq> [] then tx_when (hd (ltx l)) else omega)
          else let (lo, en) = tx_search (ltx l) sec 0 (length (ltx l)) omega;
                   z = lzone l ! tx_index (ltx l ! lo)
               in (zname z, zoffset z, tx_when (ltx l ! lo), en))"

definition lookup_offset :: "location \<Rightarrow> int \<Rightarrow> int" where
  "lookup_offset l sec = fst (snd (loc_lookup l sec))"

subsection \<open>Instants\<close>

record gtime =
  tsec :: int
  tnsec :: int
  tmono :: "int option"
  tloc :: loc

definition zero_time :: gtime where
  "zero_time = \<lparr>tsec = 0, tnsec = 0, tmono = None, tloc = UTC\<rparr>"

definition unixSec :: "gtime \<Rightarrow> int" where
  "unixSec t = i64 (tsec t - unixToInternal)"

definition stripMono :: "gtime \<Rightarrow> gtime" where
  "stripMono t = t\<lparr>tmono := None\<rparr>"

text \<open>With a monotonic reading the wall seconds live in 33 bits; outside them the reading is dropped.\<close>

definition addSec :: "gtime \<Rightarrow> int \<Rightarrow> gtime" where
  "addSec t d =
     (case tmono t of
        Some _ \<Rightarrow>
          (let dsec = i64 (tsec t - wallToInternal + d)
           in if 0 \<le> dsec \<and> dsec \<le> 2 ^ 33 - 1 then t\<lparr>tsec := wallToInternal + dsec\<rparr>
              else (stripMono t)\<lparr>tsec := i64 (tsec t + d)\<rparr>)
      | None \<Rightarrow> t\<lparr>tsec := i64 (tsec t + d)\<rparr>)"

definition setLoc :: "gtime \<Rightarrow> loc \<Rightarrow> gtime" where
  "setLoc t l = (stripMono t)\<lparr>tloc := l\<rparr>"

definition After :: "gtime \<Rightarrow> gtime \<Rightarrow> bool" where
  "After t u =
     (case (tmono t, tmono u) of
        (Some m, Some n) \<Rightarrow> m > n
      | _ \<Rightarrow> tsec t > tsec u \<or> tsec t = tsec u \<and> tnsec t > tnsec u)"

definition Before :: "gtime \<Rightarrow> gtime \<Rightarrow> bool" where
  "Before t u =
     (case (tmono t, tmono u) of
        (Some m, Some n) \<Rightarrow> m < n
      | _ \<Rightarrow> tsec t < tsec u \<or> tsec t = tsec u \<and> tnsec t < tnsec u)"

definition Equal :: "gtime \<Rightarrow> gtime \<Rightarrow> bool" where
  "Equal t u =
     (case (tmono t, tmono u) of
        (Some m, Some n) \<Rightarrow> m = n
      | _ \<Rightarrow> tsec t = tsec u \<and> tnsec t = tnsec u)"

definition IsZero :: "gtime \<Rightarrow> bool" where
  "IsZero t \<longleftrightarrow> tsec t = 0 \<and> tnsec t = 0"

subsection \<open>Arithmetic on instants\<close>

definition Time_Add :: "gtime \<Rightarrow> int \<Rightarrow> gtime" where
  "Time_Add t d =
     (let dsec = d sdiv 1000000000;
          nsec = tnsec t + d smod 1000000000;
          (dsec, nsec) =
            (if nsec \<ge> 1000000000 then (dsec + 1, nsec - 1000000000)
             else if nsec < 0 then (dsec - 1, nsec + 1000000000)
             else (dsec, nsec));
          t = addSec (t\<lparr>tnsec := nsec\<rparr>) dsec
      in case tmono t of
           None \<Rightarrow> t
         | Some m \<Rightarrow>
             (let te = i64 (m + d)
              in if d < 0 \<and> te > m \<or> d > 0 \<and> te < m then stripMono t
                 else t\<lparr>tmono := Some te\<rparr>))"

definition Time_Sub :: "gtime \<Rightarrow> gtime \<Rightarrow> int" where
  "Time_Sub t u =
     (case (tmono t, tmono u) of
        (Some te, Some ue) \<Rightarrow>
          (let d = i64 (te - ue)
           in if d < 0 \<and> te > ue then max_i64
              else if d > 0 \<and> te < ue then min_i64
              else d)
      | _ \<Rightarrow>
          (let d = i64 (i64 (i64 (tsec t - tsec u) * Second) + (tnsec t - tnsec u))
           in if Equal (Time_Add u d) t then d
              else if Before t u then min_i64
              else max_i64))"

text \<open>
  The general case of \<open>div\<close>: the nanoseconds as a 128-bit number \<open>u1:u0\<close>, reduced by
  subtracting \<open>d << k\<close> for decreasing \<open>k\<close>. The second exit of the loop (\<open>d1:d0\<close> is zero) is never
  taken for a positive \<open>d\<close>; it makes the recursion total.
\<close>

function div_top :: "int \<Rightarrow> int" where
  "div_top d1 = (if d1 \<le> 0 \<or> 2 ^ 63 \<le> d1 then d1 else div_top (2 * d1))"
  by pat_completeness auto
termination
  by (relation "measure (\<lambda>d1. nat (2 ^ 63 - d1))") auto

declare div_top.simps [simp del]

definition div_sub128 :: "int \<Rightarrow> int \<Rightarrow> int \<Rightarrow> int \<Rightarrow> int \<times> int" where
  "div_sub128 u1 u0 d1 d0 =
     (if u1 > d1 \<or> u1 = d1 \<and> u0 \<ge> d0
      then let u0x = u0; u0 = u64 (u0 - d0); u1 = (if u0 > u0x then u64 (u1 - 1) else u1)
           in (u64 (u1 - d1), u0)
      else (u1, u0))"

function div_loop :: "int \<Rightarrow> int \<Rightarrow> int \<Rightarrow> int \<Rightarrow> int \<Rightarrow> int" where
  "div_loop d u1 u0 d1 d0 =
     (let (u1', u0') = div_sub128 u1 u0 d1 d0
      in if d1 = 0 \<and> d0 = d \<or> d1 \<le> 0 \<and> d0 \<le> 0 \<or> d1 < 0 \<or> d0 < 0 then u0'
         else div_loop d u1' u0' (d1 div 2) (d0 div 2 + (d1 mod 2) * 2 ^ 63))"
  by pat_completeness auto
termination
proof (relation "measure (\<lambda>(d, u1, u0, d1, d0). nat (d1 * 2 ^ 64 + d0))", goal_cases)
  case (2 d u1 u0 d1 d0 x xa y)
  then have pos: "0 \<le> d1" "0 \<le> d0" "0 < d1 \<or> 0 < d0" by auto
  define a r b where "a = d1 div 2" and "r = d1 mod 2" and "b = d0 div 2"
  have d1: "d1 = 2 * a + r" by (simp add: a_def r_def)
  have nn: "0 \<le> a" "0 \<le> r" "0 \<le> b" "2 * b \<le> d0" using pos by (simp_all add: a_def r_def b_def)
  have "0 < a \<or> 0 < r \<or> 0 < d0" using pos d1 nn by linarith
  then have "a * 2 ^ 64 + (b + r * 2 ^ 63) < d1 * 2 ^ 64 + d0" using nn unfolding d1 by (elim disjE) simp_all
  moreover have "0 \<le> a * 2 ^ 64 + (b + r * 2 ^ 63)" using nn by simp
  ultimately show ?case by (simp add: a_def r_def b_def)
qed simp

declare div_loop.simps [simp del]

definition div_general :: "int \<Rightarrow> int \<Rightarrow> int \<Rightarrow> int" where
  "div_general sec nsec d =
     (let sec = u64 sec;
          tmp = u64 ((sec div 2 ^ 32) * 1000000000);
          u1 = tmp div 2 ^ 32;
          u0 = u64 (tmp * 2 ^ 32);
          tmp = u64 ((sec mod 2 ^ 32) * 1000000000);
          u0x = u0; u0 = u64 (u0 + tmp);
          u1 = (if u0 < u0x then u64 (u1 + 1) else u1);
          u0x = u0; u0 = u64 (u0 + u64 nsec);
          u1 = (if u0 < u0x then u64 (u1 + 1) else u1)
      in i64 (div_loop d u1 u0 (div_top d) 0))"

text \<open>The remainder \<open>div\<close> returns; the quotient parity it also computes is not used by any caller.\<close>

definition Time_div :: "gtime \<Rightarrow> int \<Rightarrow> int" where
  "Time_div t d =
     (let neg = tsec t < 0;
          (sec, nsec) =
            (if neg
             then (let sec = i64 (- tsec t); nsec = - tnsec t
                   in if nsec < 0 then (i64 (sec - 1), nsec + 1000000000) else (sec, nsec))
             else (tsec t, tnsec t));
          r = (if d < Second \<and> Second smod i64 (d + d) = 0 then nsec smod d
               else if d smod Second = 0
               then i64 (i64 ((sec smod (d sdiv Second)) * Second) + nsec)
               else div_general sec nsec d)
      in if neg \<and> r \<noteq> 0 then i64 (d - r) else r)"

definition Time_Truncate :: "gtime \<Rightarrow> int \<Rightarrow> gtime" where
  "Time_Truncate t d =
     (let t = stripMono t in if d \<le> 0 then t else Time_Add t (i64 (- Time_div t d)))"

subsection \<open>The presentation of an instant\<close>

definition abs_offset :: "gtime \<Rightarrow> int" where
  "abs_offset t =
     (let sec = unixSec t
      in case tloc t of
           UTC \<Rightarrow> 0
         | l \<Rightarrow>
             (case (if cacheStart (loc_get l) \<le> sec \<and> sec < cacheEnd (loc_get l)
                    then cacheZone (loc_get l) else None) of
                Some z \<Rightarrow> zoffset z
              | None \<Rightarrow> lookup_offset (loc_get l) sec))"

definition Time_abs :: "gtime \<Rightarrow> int" where
  "Time_abs t = u64 (i64 (unixSec t + abs_offset t) + (unixToInternal - absoluteToInternal))"

definition isLeap :: "int \<Rightarrow> bool" where
  "isLeap year \<longleftrightarrow> year smod 4 = 0 \<and> (year smod 100 \<noteq> 0 \<or> year smod 400 = 0)"

definition daysBefore :: "int list" where
  "daysBefore = [0, 31, 59, 90, 120, 151, 181, 212, 243, 273, 304, 334, 365]"

definition days_before :: "int \<Rightarrow> int" where
  "days_before m = daysBefore ! nat m"

text \<open>Month and day of month from the day of the year (the part of \<open>absDate\<close> after \<open>full\<close>).\<close>

definition absDate_full :: "bool \<Rightarrow> int \<Rightarrow> int \<times> int" where
  "absDate_full leap yday =
     (if leap \<and> yday = 31 + 29 - 1 then (2, 29)
      else let day = (if leap \<and> yday > 31 + 29 - 1 then yday - 1 else yday);
               month = day div 31;
               fin = days_before (month + 1);
               (month, begin') = (if day \<ge> fin then (month + 1, fin) else (month, days_before month))
           in (month + 1, day - begin' + 1))"

definition absDate_year :: "int \<Rightarrow> int \<times> int" where
  "absDate_year ab =
     (let d = ab div secondsPerDay;
          n = d div daysPer400Years; y = 400 * n; d = d - daysPer400Years * n;
          n = d div daysPer100Years; n = n - n div 4; y = y + 100 * n; d = d - daysPer100Years * n;
          n = d div daysPer4Years; y = y + 4 * n; d = d - daysPer4Years * n;
          n = d div 365; n = n - n div 4; y = y + n; d = d - 365 * n
      in (i64 (y + absoluteZeroYear), d))"

text \<open>Year, month, day and day of the year; month and day are 0 when \<open>full\<close> is false.\<close>

definition absDate :: "int \<Rightarrow> bool \<Rightarrow> int \<times> int \<times> int \<times> int" where
  "absDate ab full =
     (let (year, yday) = absDate_year ab
      in if \<not> full then (year, 0, 0, yday)
         else let (month, day) = absDate_full (isLeap year) yday in (year, month, day, yday))"

definition Time_date :: "gtime \<Rightarrow> int \<times> int \<times> int" where
  "Time_date t = (case absDate (Time_abs t) True of (y, m, d, _) \<Rightarrow> (y, m, d))"

definition Time_Year :: "gtime \<Rightarrow> int" where
  "Time_Year t = fst (absDate (Time_abs t) False)"

definition Time_Month :: "gtime \<Rightarrow> int" where
  "Time_Month t = (case absDate (Time_abs t) True of (_, m, _, _) \<Rightarrow> m)"

definition Time_Day :: "gtime \<Rightarrow> int" where
  "Time_Day t = (case absDate (Time_abs t) True of (_, _, d, _) \<Rightarrow> d)"

text \<open>\<open>absWeekday\<close>: January 1 of the absolute year was a Monday.\<close>

definition absWeekday :: "int \<Rightarrow> int" where
  "absWeekday ab = (u64 (ab + 1 * secondsPerDay) mod secondsPerWeek) div secondsPerDay"

definition Time_Weekday :: "gtime \<Rightarrow> int" where
  "Time_Weekday t = absWeekday (Time_abs t)"

definition Time_Hour :: "gtime \<Rightarrow> int" where
  "Time_Hour t = (Time_abs t mod secondsPerDay) div secondsPerHour"

definition Time_Minute :: "gtime \<Rightarrow> int" where
  "Time_Minute t = (Time_abs t mod secondsPerHour) div secondsPerMinute"

definition Time_Second :: "gtime \<Rightarrow> int" where
  "Time_Second t = Time_abs t mod secondsPerMinute"

definition absClock :: "int \<Rightarrow> int \<times> int \<times> int" where
  "absClock ab =
     (let sec = ab mod secondsPerDay;
          hour = sec div secondsPerHour; sec = sec - hour * secondsPerHour;
          minute = sec div secondsPerMinute; sec = sec - minute * secondsPerMinute
      in (hour, minute, sec))"

subsection \<open>Building an instant from a civil date\<close>

definition norm :: "int \<Rightarrow> int \<Rightarrow> int \<Rightarrow> int \<times> int" where
  "norm hi lo base =
     (let (hi, lo) =
            (if lo < 0
             then (let n = i64 (i64 (i64 (- lo) - 1) sdiv base + 1)
                   in (i64 (hi - n), i64 (lo + i64 (n * base))))
             else (hi, lo))
      in if lo \<ge> base
         then (let n = lo sdiv base in (i64 (hi + n), i64 (lo - i64 (n * base))))
         else (hi, lo))"

text \<open>
  Days since the absolute epoch of a normalised year and month and a day of the month. The
  code adds and multiplies in \<open>uint64\<close>; one reduction at the end (in \<open>Date\<close>) is the same.
\<close>

definition Date_days :: "int \<Rightarrow> int \<Rightarrow> int \<Rightarrow> int" where
  "Date_days year month day =
     (let y = u64 (i64 (year - absoluteZeroYear));
          n = y div 400; y = y - 400 * n; d = daysPer400Years * n;
          n = y div 100; y = y - 100 * n; d = d + daysPer100Years * n;
          n = y div 4; y = y - 4 * n; d = d + daysPer4Years * n;
          n = y; d = d + 365 * n;
          d = d + days_before (month - 1);
          d = (if isLeap year \<and> month \<ge> 3 then d + 1 else d)
      in d + (day - 1))"

definition Date :: "int \<Rightarrow> int \<Rightarrow> int \<Rightarrow> int \<Rightarrow> int \<Rightarrow> int \<Rightarrow> int \<Rightarrow> loc \<Rightarrow> gtime" where
  "Date year month day hour minute sec nsec l =
     (let m = i64 (month - 1);
          (year, m) = norm year m 12;
          month = m + 1;
          (sec, nsec) = norm sec nsec 1000000000;
          (minute, sec) = norm minute sec 60;
          (hour, minute) = norm hour minute 60;
          (day, hour) = norm day hour 24;
          ab = u64 (Date_days year month day * secondsPerDay
                     + (hour * secondsPerHour + minute * secondsPerMinute + sec));
          unix = i64 (ab + (absoluteToInternal - unixToInternal));
          (_, offset, start, en) = loc_lookup (loc_get l) unix;
          unix = (if offset \<noteq> 0
                  then (let utc = i64 (unix - offset);
                            offset = (if utc < start then lookup_offset (loc_get l) (i64 (start - 1))
                                      else if utc \<ge> en then lookup_offset (loc_get l) en
                                      else offset)
                        in i64 (unix - offset))
                  else unix)
      in \<lparr>tsec = i64 (unix + unixToInternal), tnsec = nsec, tmono = None, tloc = l\<rparr>)"

definition Time_AddDate :: "gtime \<Rightarrow> int \<Rightarrow> int \<Rightarrow> int \<Rightarrow> gtime" where
  "Time_AddDate t years months days =
     (let (year, month, day) = Time_date t;
          (hour, minute, sec) = absClock (Time_abs t)
      in Date (i64 (year + years)) (i64 (month + months)) (i64 (day + days)) hour minute sec (tnsec t) (tloc t))"

end
