(* ===== verification/GoInstant.thy ===== *)
theory GoInstant
  imports GoTime
begin

text \<open>
  Instants as numbers: a wall-clock time counts nanoseconds, \<open>Time_Add\<close> adds to that count
  and \<open>Time_Sub\<close> is the difference, saturated at the ends of \<open>Duration\<close>; both also for readings with a
  monotonic part, on a clock that nobody sets. The special cases
  of \<open>Time_div\<close> that \<open>Truncate\<close> takes for whole seconds are shown to be the remainder.
\<close>

definition inst :: "gtime \<Rightarrow> int" where
  "inst t = tsec t * 1000000000 + tnsec t"

text \<open>No monotonic reading, normalised nanoseconds, seconds away from the ends of \<open>int64\<close>.\<close>

definition wall_ok :: "gtime \<Rightarrow> bool" where
  "wall_ok t \<longleftrightarrow> tmono t = None \<and> 0 \<le> tnsec t \<and> tnsec t < 1000000000 \<and> \<bar>tsec t\<bar> \<le> 2 ^ 61"

lemma inst_eq_iff:
  assumes "0 \<le> tnsec t" "tnsec t < 1000000000" "0 \<le> tnsec u" "tnsec u < 1000000000"
  shows "inst t = inst u \<longleftrightarrow> tsec t = tsec u \<and> tnsec t = tnsec u"
    and "inst t < inst u \<longleftrightarrow> tsec t < tsec u \<or> tsec t = tsec u \<and> tnsec t < tnsec u"
proof -
  have "tsec t = tsec u" if "inst t = inst u" using that assms unfolding inst_def by linarith
  then show "inst t = inst u \<longleftrightarrow> tsec t = tsec u \<and> tnsec t = tnsec u" by (auto simp: inst_def)
  show "inst t < inst u \<longleftrightarrow> tsec t < tsec u \<or> tsec t = tsec u \<and> tnsec t < tnsec u"
    using assms unfolding inst_def by linarith
qed

lemma Before_inst: "wall_ok t \<Longrightarrow> wall_ok u \<Longrightarrow> Before t u \<longleftrightarrow> inst t < inst u"
  by (simp add: Before_def wall_ok_def inst_eq_iff(2))

lemma After_inst: "wall_ok t \<Longrightarrow> wall_ok u \<Longrightarrow> After t u \<longleftrightarrow> inst u < inst t"
  using Before_inst [of u t] by (auto simp: Before_def After_def wall_ok_def)

lemma duration_parts:
  assumes "in_i64 d"
  shows "d = (d sdiv 1000000000) * 1000000000 + d smod 1000000000"
    and "\<bar>d smod 1000000000\<bar> < 1000000000" and "\<bar>d sdiv 1000000000\<bar> \<le> 9223372037"
proof -
  show s: "d = (d sdiv 1000000000) * 1000000000 + d smod 1000000000"
    and m: "\<bar>d smod 1000000000\<bar> < 1000000000"
    using sdiv_smod_bounds [of 1000000000 d] by simp_all
  have "- 9223372036854775808 \<le> d" "d \<le> 9223372036854775807" using assms by (simp_all add: in_i64_def)
  then show "\<bar>d sdiv 1000000000\<bar> \<le> 9223372037" using s m by linarith
qed

lemma Time_Add_wall:
  assumes t: "tmono t = None" "0 \<le> tnsec t" "tnsec t < 1000000000" "\<bar>tsec t\<bar> \<le> 2 ^ 62"
    and d: "in_i64 d"
  shows "inst (Time_Add t d) = inst t + d" "tmono (Time_Add t d) = None"
    "0 \<le> tnsec (Time_Add t d)" "tnsec (Time_Add t d) < 1000000000" "tloc (Time_Add t d) = tloc t"
    "\<bar>tsec (Time_Add t d)\<bar> \<le> \<bar>tsec t\<bar> + 9223372038"
proof -
  define s n where "s = d sdiv 1000000000" and "n = d smod 1000000000"
  have d: "d = s * 1000000000 + n" "\<bar>n\<bar> < 1000000000" "\<bar>s\<bar> \<le> 9223372037"
    using duration_parts [OF d] by (simp_all add: s_def n_def)
  have T: "\<bar>tsec t\<bar> \<le> 4611686018427387904" using t by simp
  have i: "i64 (tsec t + (s + k)) = tsec t + (s + k)" if "k \<in> {-1, 0, 1}" for k
    using that d T by (intro i64_id) (auto simp: in_i64_def abs_le_iff)
  have nn: "\<bar>n\<bar> < 1000000000" by (rule d(2))
  note defs = Time_Add_def s_def [symmetric] n_def [symmetric] Let_def addSec_def inst_def
  consider "1000000000 \<le> tnsec t + n" | "tnsec t + n < 0" | "0 \<le> tnsec t + n" "tnsec t + n < 1000000000"
    by linarith
  then have "inst (Time_Add t d) = inst t + d \<and> tmono (Time_Add t d) = None \<and>
      0 \<le> tnsec (Time_Add t d) \<and> tnsec (Time_Add t d) < 1000000000 \<and> tloc (Time_Add t d) = tloc t \<and>
      \<bar>tsec (Time_Add t d)\<bar> \<le> \<bar>tsec t\<bar> + 9223372038"
  proof cases
    case 1 then show ?thesis using t i [of 1] d unfolding defs by simp
  next
    case 2 then show ?thesis using t i [of "-1"] d unfolding defs by simp
  next
    case 3 then show ?thesis using t i [of 0] d unfolding defs by simp
  qed
  then show "inst (Time_Add t d) = inst t + d" "tmono (Time_Add t d) = None"
    "0 \<le> tnsec (Time_Add t d)" "tnsec (Time_Add t d) < 1000000000" "tloc (Time_Add t d) = tloc t"
    "\<bar>tsec (Time_Add t d)\<bar> \<le> \<bar>tsec t\<bar> + 9223372038" by simp_all
qed

lemma stripMono_id: "tmono t = None \<Longrightarrow> stripMono t = t"
  by (cases t) (simp add: stripMono_def)

text \<open>The saturated difference.\<close>

definition clamp_i64 :: "int \<Rightarrow> int" where
  "clamp_i64 x = (if x < min_i64 then min_i64 else if max_i64 < x then max_i64 else x)"

lemma Time_Sub_wall:
  assumes t: "wall_ok t" and u: "wall_ok u"
  shows "Time_Sub t u = clamp_i64 (inst t - inst u)"
proof -
  define D where "D = inst t - inst u"
  have mult: "i64 (i64 (i64 x * Second) + y) = i64 (x * 1000000000 + y)" for x y
  proof (rule i64_eqI)
    have "u64 (i64 x * 1000000000) = u64 (x * 1000000000)"
      using u64_i64 [of x] unfolding u64_def by (metis mod_mult_cong)
    then show "u64 (i64 (i64 x * Second) + y) = u64 (x * 1000000000 + y)"
      by (simp add: time_consts) (metis u64_add(1))
  qed
  have d: "i64 (i64 (i64 (tsec t - tsec u) * Second) + (tnsec t - tnsec u)) = i64 D"
    unfolding mult by (simp add: D_def inst_def algebra_simps)
  have "inst (Time_Add u (i64 D)) = inst u + i64 D" "tmono (Time_Add u (i64 D)) = None"
    "0 \<le> tnsec (Time_Add u (i64 D))" "tnsec (Time_Add u (i64 D)) < 1000000000"
    using Time_Add_wall [of u "i64 D"] u by (simp_all add: wall_ok_def)
  then have eq: "Equal (Time_Add u (i64 D)) t \<longleftrightarrow> i64 D = D"
    using inst_eq_iff(1) [of "Time_Add u (i64 D)" t] t by (auto simp: Equal_def wall_ok_def D_def)
  have id: "i64 D = D \<longleftrightarrow> min_i64 \<le> D \<and> D \<le> max_i64"
  proof
    assume e: "i64 D = D"
    show "min_i64 \<le> D \<and> D \<le> max_i64" using i64_range [of D] unfolding e by simp
  qed (simp add: i64_id in_i64_def)
  have b: "Before t u \<longleftrightarrow> D < 0" using Before_inst [OF t u] by (simp add: D_def)
  have "Time_Sub t u = (if i64 D = D then D else if D < 0 then min_i64 else max_i64)"
    using t u unfolding Time_Sub_def d by (simp add: wall_ok_def Let_def eq b)
  then show ?thesis unfolding D_def [symmetric] by (auto simp: clamp_i64_def id)
qed

text \<open>
  A reading of a clock that nobody sets: the monotonic reading, when there is one, is the wall clock less
  a constant.
\<close>

definition steady :: "int \<Rightarrow> gtime \<Rightarrow> bool" where
  "steady base t \<longleftrightarrow> wall_ok (stripMono t) \<and>
     (tmono t = None \<or> tmono t = Some (inst t - base) \<and> in_i64 (inst t - base))"

lemma stripMono_simps [simp]:
  "tsec (stripMono t) = tsec t" "tnsec (stripMono t) = tnsec t" "tmono (stripMono t) = None"
  "inst (stripMono t) = inst t"
  by (simp_all add: stripMono_def inst_def)

lemma wall_clock: "wall_ok t \<Longrightarrow> steady base t"
  by (simp add: steady_def wall_ok_def)

lemma Before_clock: "steady base t \<Longrightarrow> steady base u \<Longrightarrow> Before t u \<longleftrightarrow> inst t < inst u"
  using Before_inst [of "stripMono t" "stripMono u"]
  by (auto simp: steady_def Before_def split: option.splits)

lemma Time_Add_strip:
  assumes "wall_ok (stripMono u)" and "in_i64 d"
  shows "stripMono (Time_Add u d) = Time_Add (stripMono u) d"
proof -
  define s n where "s = d sdiv 1000000000" and "n = d smod 1000000000"
  have d: "\<bar>s\<bar> \<le> 9223372037" using duration_parts(3) [OF assms(2)] by (simp add: s_def)
  have T: "\<bar>tsec u\<bar> \<le> 2305843009213693952" using assms(1) by (simp add: wall_ok_def)
  have i: "i64 (tsec u - wallToInternal + (s + k)) = tsec u - wallToInternal + (s + k)"
      "i64 (tsec u + (s + k)) = tsec u + (s + k)" if "k \<in> {-1, 0, 1}" for k
    using that d T by (auto intro!: i64_id simp: in_i64_def abs_le_iff wallToInternal_def)
  show ?thesis
    using i [of 1] i [of "- 1"] i [of 0]
    unfolding Time_Add_def s_def [symmetric] n_def [symmetric]
    by (auto simp: addSec_def stripMono_def Let_def algebra_simps split: option.split)
qed

lemma Time_Sub_clock:
  assumes t: "steady base t" and u: "steady base u"
  shows "Time_Sub t u = clamp_i64 (inst t - inst u)"
proof (cases "tmono t = None \<or> tmono u = None")
  case True
  define d where "d = i64 (i64 (i64 (tsec t - tsec u) * Second) + (tnsec t - tnsec u))"
  have w: "wall_ok (stripMono t)" "wall_ok (stripMono u)" using t u by (simp_all add: steady_def)
  have "in_i64 d" unfolding d_def by simp
  note s = Time_Add_strip [OF w(2) this]
  have m: "tmono u = None \<Longrightarrow> tmono (Time_Add u d) = None"
    by (simp add: Time_Add_def addSec_def Let_def)
  have wall: "Time_Sub x y = (if Equal (Time_Add y d) x then d else if Before x y then min_i64 else max_i64)"
    if "tmono x = None \<or> tmono y = None" "tsec x = tsec t" "tnsec x = tnsec t" "tsec y = tsec u" "tnsec y = tnsec u" for x y
    using that by (auto simp: Time_Sub_def d_def Let_def split: option.split)
  have "Equal (Time_Add u d) t \<longleftrightarrow> Equal (stripMono (Time_Add u d)) (stripMono t)"
    using True m by (auto simp: Equal_def split: option.splits)
  moreover have "Before t u \<longleftrightarrow> Before (stripMono t) (stripMono u)"
    using True by (auto simp: Before_def split: option.splits)
  ultimately have "Time_Sub t u = Time_Sub (stripMono t) (stripMono u)"
    using True unfolding s by (subst (1 2) wall) simp_all
  then show ?thesis using Time_Sub_wall [OF w] by simp
next
  case False
  then have m: "tmono t = Some (inst t - base)" "tmono u = Some (inst u - base)"
      "in_i64 (inst t - base)" "in_i64 (inst u - base)" using t u by (auto simp: steady_def)
  define D where "D = inst t - inst u"
  have D: "- (2 ^ 64) < D" "D < 2 ^ 64" using m(3,4) by (simp_all add: D_def in_i64_def)
  have e: "inst t - base - (inst u - base) = D" "inst u - base < inst t - base \<longleftrightarrow> 0 < D"
      "inst t - base < inst u - base \<longleftrightarrow> D < 0" by (simp_all add: D_def)
  have "i64 D = (if D < - (2 ^ 63) then D + 2 ^ 64 else if D \<ge> 2 ^ 63 then D - 2 ^ 64 else D)"
  proof -
    have "i64 (D + 2 ^ 64) = i64 D" "i64 (D - 2 ^ 64) = i64 D" by (rule i64_eqI; simp add: u64_def)+
    moreover have "i64 (D + 2 ^ 64) = D + 2 ^ 64" if "D < - (2 ^ 63)" using that D by (intro i64_id) (simp add: in_i64_def)
    moreover have "i64 (D - 2 ^ 64) = D - 2 ^ 64" if "D \<ge> 2 ^ 63" using that D by (intro i64_id) (simp add: in_i64_def)
    moreover have "i64 D = D" if "\<not> D < - (2 ^ 63)" "\<not> D \<ge> 2 ^ 63" using that by (intro i64_id) (simp add: in_i64_def)
    ultimately show ?thesis by auto
  qed
  then show ?thesis
    using D unfolding D_def [symmetric] by (auto simp: Time_Sub_def m e clamp_i64_def Let_def)
qed

text \<open>\<open>Truncate\<close> to a whole number of seconds goes down to a multiple of it.\<close>

lemma Time_Truncate_seconds:
  assumes t: "wall_ok t" "0 \<le> tsec t" and d: "d = k * 1000000000" "0 < k" "k \<le> 9223372036"
  shows "inst (Time_Truncate t d) = inst t - inst t mod d" "tloc (Time_Truncate t d) = tloc t"
    "tmono (Time_Truncate t d) = None" "0 \<le> tnsec (Time_Truncate t d)" "tnsec (Time_Truncate t d) < 1000000000"
proof -
  define r where "r = (tsec t mod k) * 1000000000 + tnsec t"
  have m: "0 \<le> tsec t mod k" "tsec t mod k < k" using d by simp_all
  have tn: "0 \<le> tnsec t" "tnsec t < 1000000000" "tmono t = None" "\<bar>tsec t\<bar> \<le> 2 ^ 62"
    using t by (auto simp: wall_ok_def)
  have "inst t = (tsec t div k) * d + r"
  proof -
    have "tsec t * 1000000000 = (tsec t div k * k + tsec t mod k) * 1000000000" by simp
    then show ?thesis by (simp only: inst_def r_def d distrib_right mult.assoc)
  qed
  moreover have "(tsec t mod k + 1) * 1000000000 \<le> k * 1000000000"
    using m by (intro mult_right_mono) simp_all
  then have "0 \<le> r" "r < d"
    using m tn d unfolding r_def by linarith+
  ultimately have rm: "r = inst t mod d" by (metis int_mod_pos_eq mult.commute)
  have "d smod Second = 0" "d sdiv Second = k"
    using d by (simp_all add: time_consts)
  moreover have "\<not> d < Second" using d by (simp add: time_consts)
  moreover have "i64 (i64 (tsec t mod k * Second) + tnsec t) = r" "i64 (- r) = - r" "in_i64 (- r)"
  proof -
    have "r \<le> 9223372036000000000" "0 \<le> r" "tsec t mod k * 1000000000 \<le> 9223372036000000000"
      using m tn d unfolding r_def by linarith+
    then show "i64 (- r) = - r" "in_i64 (- r)"
      by (simp_all add: i64_id in_i64_def)
    define x where "x = tsec t mod k"
    have "0 \<le> x" "x < k" using m by (simp_all add: x_def)
    then have "in_i64 (x * 1000000000)" "in_i64 (x * 1000000000 + tnsec t)"
      using tn d unfolding in_i64_def by simp_all
    then show "i64 (i64 (tsec t mod k * Second) + tnsec t) = r"
      by (simp add: time_consts x_def [symmetric] r_def i64_id)
  qed
  ultimately have dv: "Time_div t d = r" "in_i64 (- r)" "i64 (- r) = - r"
    using t(2) d(2) m by (simp_all add: Time_div_def Let_def)
  have tr: "Time_Truncate t d = Time_Add t (- r)"
    using d dv tn by (simp add: Time_Truncate_def Let_def stripMono_id)
  show "inst (Time_Truncate t d) = inst t - inst t mod d" "tloc (Time_Truncate t d) = tloc t"
    "tmono (Time_Truncate t d) = None" "0 \<le> tnsec (Time_Truncate t d)" "tnsec (Time_Truncate t d) < 1000000000"
    unfolding tr rm [symmetric] using Time_Add_wall [OF tn(3,1,2,4) dv(2)] by simp_all
qed

subsection \<open>Properties\<close>

text \<open>\<open>Add\<close> and \<open>Sub\<close> agree: a duration added to an instant is what \<open>Sub\<close> then measures, and between any two
  instants \<open>Sub\<close> gives their difference, saturated at the ends of the range of durations.\<close>

theorem sub_saturates:
  assumes "wall_ok t" and "wall_ok u" and "in_i64 d" and "wall_ok (Time_Add t d)"
  shows "Time_Sub t u =
      (if inst t - inst u < min_i64 then min_i64 else if max_i64 < inst t - inst u then max_i64 else inst t - inst u)
    \<and> Time_Sub (Time_Add t d) t = d"
proof
  show "Time_Sub t u =
    (if inst t - inst u < min_i64 then min_i64 else if max_i64 < inst t - inst u then max_i64 else inst t - inst u)"
    using Time_Sub_wall [OF assms(1,2)] by (simp add: clamp_i64_def)
  note d = assms(3)
  have "Time_Sub (Time_Add t d) t = clamp_i64 (inst (Time_Add t d) - inst t)"
    using Time_Sub_wall assms(1,4) by simp
  also have "inst (Time_Add t d) = inst t + d"
    using assms(1) d Time_Add_wall(1) [of t d] by (simp add: wall_ok_def)
  finally show "Time_Sub (Time_Add t d) t = d" using d by (simp add: clamp_i64_def in_i64_def)
qed

lemma sub_saturates_witness:
  "Time_Sub \<lparr>tsec = 2 ^ 40, tnsec = 5, tmono = None, tloc = UTC\<rparr> zero_time = max_i64
   \<and> Time_Sub (Time_Add \<lparr>tsec = 2 ^ 40, tnsec = 5, tmono = None, tloc = UTC\<rparr> (- 1500000000))
       \<lparr>tsec = 2 ^ 40, tnsec = 5, tmono = None, tloc = UTC\<rparr> = - 1500000000"
proof -
  define t where "t = \<lparr>tsec = 2 ^ 40, tnsec = 5, tmono = None, tloc = UTC\<rparr>"
  have w: "wall_ok t" "wall_ok zero_time" "in_i64 (- 1500000000)"
    by (simp_all add: t_def wall_ok_def zero_time_def in_i64_def)
  have "wall_ok (Time_Add t (- 1500000000))" unfolding t_def by code_simp
  from sub_saturates [OF w this] show ?thesis unfolding t_def [symmetric]
    by (simp add: t_def inst_def zero_time_def)
qed

end
