(* ===== verification/Rate.thy ===== *)
theory Rate
  imports GoInstant
begin

text \<open>
  The token-bucket rate limiter of rate/rate.go. A \<open>Limiter\<close> is a record, every method that
  changes it returns it updated, and the lock makes each method one step; \<open>WaitN\<close>, which
  releases the lock between its parts, is three steps and their composition. Tokens and
  limits are \<open>float64\<close> values, with the platform's out-of-range conversion as the parameter
  \<open>plat\<close>. Clock readings are arguments.
\<close>

subsection \<open>Data\<close>

text \<open>\<open>Inf\<close> is \<open>math.MaxFloat64\<close>, \<open>InfDuration\<close> the largest duration.\<close>

definition Inf :: f64 where
  "Inf = Fin max_float64"

definition InfDuration :: int where
  "InfDuration = max_i64"

record limiter =
  l_limit :: f64
  l_burst :: int
  l_tokens :: f64
  l_last :: gtime
  l_lastEvent :: gtime

record reservation =
  r_ok :: bool
  r_tokens :: int
  r_timeToAct :: gtime
  r_limit :: f64

definition NewLimiter :: "f64 \<Rightarrow> int \<Rightarrow> limiter" where
  "NewLimiter r b =
     \<lparr>l_limit = r, l_burst = b, l_tokens = Fin 0, l_last = zero_time, l_lastEvent = zero_time\<rparr>"

definition Duration_Seconds :: "int \<Rightarrow> f64" where
  "Duration_Seconds d =
     f_add (f_of_int (d sdiv Second)) (f_div (f_of_int (d smod Second)) (Fin 1000000000))"

definition Every :: "int \<Rightarrow> f64" where
  "Every interval = (if interval \<le> 0 then Inf else f_div (Fin 1) (Duration_Seconds interval))"

subsection \<open>Unit conversions\<close>

definition durationFromTokens :: "(f64 \<Rightarrow> int) \<Rightarrow> f64 \<Rightarrow> f64 \<Rightarrow> int" where
  "durationFromTokens plat limit tokens =
     (let seconds = f_div tokens limit
      in i64 (Nanosecond * f_to_i64 plat (f_mul (Fin 1000000000) seconds)))"

definition tokensFromDuration :: "f64 \<Rightarrow> int \<Rightarrow> f64" where
  "tokensFromDuration limit d =
     (let sec = f_mul (f_of_int (d sdiv Second)) limit;
          nsec = f_mul (f_of_int (d smod Second)) limit
      in f_add sec (f_div nsec (Fin 1000000000)))"

subsection \<open>Advancing, reserving\<close>

definition advance :: "(f64 \<Rightarrow> int) \<Rightarrow> limiter \<Rightarrow> gtime \<Rightarrow> gtime \<times> gtime \<times> f64" where
  "advance plat lm now =
     (let last = (if Before now (l_last lm) then now else l_last lm);
          maxElapsed = durationFromTokens plat (l_limit lm) (f_sub (f_of_int (l_burst lm)) (l_tokens lm));
          elapsed = Time_Sub now last;
          elapsed = (if elapsed > maxElapsed then maxElapsed else elapsed);
          delta = tokensFromDuration (l_limit lm) elapsed;
          tokens = f_add (l_tokens lm) delta;
          burst = f_of_int (l_burst lm);
          tokens = (if f_less burst tokens then burst else tokens)
      in (now, last, tokens))"

definition reserveN :: "(f64 \<Rightarrow> int) \<Rightarrow> limiter \<Rightarrow> gtime \<Rightarrow> int \<Rightarrow> int \<Rightarrow> reservation \<times> limiter" where
  "reserveN plat lm now n maxFutureReserve =
     (if f_eq (l_limit lm) Inf
      then (\<lparr>r_ok = True, r_tokens = n, r_timeToAct = now, r_limit = Fin 0\<rparr>, lm)
      else
        (let (now, last, tokens) = advance plat lm now;
             tokens = f_sub tokens (f_of_int n);
             waitDuration = (if f_less tokens (Fin 0)
                             then durationFromTokens plat (l_limit lm) (f_neg tokens) else 0);
             ok = (n \<le> l_burst lm \<and> waitDuration \<le> maxFutureReserve);
             r = \<lparr>r_ok = ok, r_tokens = (if ok then n else 0),
                  r_timeToAct = (if ok then Time_Add now waitDuration else zero_time),
                  r_limit = l_limit lm\<rparr>
         in (r, if ok then lm\<lparr>l_last := now, l_tokens := tokens, l_lastEvent := r_timeToAct r\<rparr>
                else lm\<lparr>l_last := last\<rparr>)))"

definition AllowN :: "(f64 \<Rightarrow> int) \<Rightarrow> limiter \<Rightarrow> gtime \<Rightarrow> int \<Rightarrow> bool \<times> limiter" where
  "AllowN plat lm now n = (let (r, lm) = reserveN plat lm now n 0 in (r_ok r, lm))"

definition ReserveN :: "(f64 \<Rightarrow> int) \<Rightarrow> limiter \<Rightarrow> gtime \<Rightarrow> int \<Rightarrow> reservation \<times> limiter" where
  "ReserveN plat lm now n = reserveN plat lm now n InfDuration"

definition DelayFrom :: "reservation \<Rightarrow> gtime \<Rightarrow> int" where
  "DelayFrom r now =
     (if \<not> r_ok r then InfDuration
      else let delay = Time_Sub (r_timeToAct r) now in if delay < 0 then 0 else delay)"

subsection \<open>Cancelling a reservation\<close>

definition CancelAt :: "(f64 \<Rightarrow> int) \<Rightarrow> reservation \<Rightarrow> limiter \<Rightarrow> gtime \<Rightarrow> limiter" where
  "CancelAt plat r lm now =
     (if \<not> r_ok r then lm
      else if f_eq (l_limit lm) Inf \<or> r_tokens r = 0 \<or> Before (r_timeToAct r) now then lm
      else
        let restoreTokens =
              f_sub (f_of_int (r_tokens r))
                (tokensFromDuration (r_limit r) (Time_Sub (l_lastEvent lm) (r_timeToAct r)))
        in if f_le restoreTokens (Fin 0) then lm
           else
             let (now, _, tokens) = advance plat lm now;
                 tokens = f_add tokens restoreTokens;
                 burst = f_of_int (l_burst lm);
                 tokens = (if f_less burst tokens then burst else tokens);
                 lm = lm\<lparr>l_last := now, l_tokens := tokens\<rparr>
             in if r_timeToAct r = l_lastEvent lm
                then let prevEvent = Time_Add (r_timeToAct r)
                           (durationFromTokens plat (r_limit r) (f_of_int (i64 (- r_tokens r))))
                     in if \<not> Before prevEvent now then lm\<lparr>l_lastEvent := prevEvent\<rparr> else lm
                else lm)"

subsection \<open>Changing the parameters\<close>

definition SetLimitAt :: "(f64 \<Rightarrow> int) \<Rightarrow> limiter \<Rightarrow> gtime \<Rightarrow> f64 \<Rightarrow> limiter" where
  "SetLimitAt plat lm now newLimit =
     (let (now, _, tokens) = advance plat lm now
      in lm\<lparr>l_last := now, l_tokens := tokens, l_limit := newLimit\<rparr>)"

definition SetBurstAt :: "(f64 \<Rightarrow> int) \<Rightarrow> limiter \<Rightarrow> gtime \<Rightarrow> int \<Rightarrow> limiter" where
  "SetBurstAt plat lm now newBurst =
     (let (now, _, tokens) = advance plat lm now
      in lm\<lparr>l_last := now, l_tokens := tokens, l_burst := newBurst\<rparr>)"

subsection \<open>Waiting\<close>

datatype wait_error = ExceedsBurst int int | WouldExceedDeadline int | CtxErr string

text \<open>The check before the reservation: the burst, then whether the context is already done.\<close>

definition WaitN_check :: "limiter \<Rightarrow> int \<Rightarrow> string option \<Rightarrow> wait_error option" where
  "WaitN_check lm n ctxErr =
     (if n > l_burst lm \<and> \<not> f_eq (l_limit lm) Inf then Some (ExceedsBurst n (l_burst lm))
      else map_option CtxErr ctxErr)"

definition WaitN_reserve ::
    "(f64 \<Rightarrow> int) \<Rightarrow> limiter \<Rightarrow> gtime \<Rightarrow> int \<Rightarrow> gtime option \<Rightarrow> (wait_error + reservation) \<times> limiter" where
  "WaitN_reserve plat lm now n deadline =
     (let waitLimit = (case deadline of None \<Rightarrow> InfDuration | Some dl \<Rightarrow> Time_Sub dl now);
          (r, lm) = reserveN plat lm now n waitLimit
      in (if r_ok r then Inr r else Inl (WouldExceedDeadline n), lm))"

text \<open>What the final \<open>select\<close> receives: the timer, or the context's end at a clock reading.\<close>

datatype wait_event = TimerFired | CtxDone string gtime

definition WaitN_finish ::
    "(f64 \<Rightarrow> int) \<Rightarrow> limiter \<Rightarrow> reservation \<Rightarrow> gtime \<Rightarrow> wait_event \<Rightarrow> wait_error option \<times> limiter" where
  "WaitN_finish plat lm r now ev =
     (if DelayFrom r now = 0 then (None, lm)
      else case ev of
             TimerFired \<Rightarrow> (None, lm)
           | CtxDone e t \<Rightarrow> (Some (CtxErr e), CancelAt plat r lm t))"

definition WaitN ::
    "(f64 \<Rightarrow> int) \<Rightarrow> limiter \<Rightarrow> int \<Rightarrow> string option \<Rightarrow> gtime \<Rightarrow> gtime option \<Rightarrow> wait_event
     \<Rightarrow> wait_error option \<times> limiter" where
  "WaitN plat lm n ctxErr now deadline ev =
     (case WaitN_check lm n ctxErr of
        Some e \<Rightarrow> (Some e, lm)
      | None \<Rightarrow>
          (case WaitN_reserve plat lm now n deadline of
             (Inl e, lm) \<Rightarrow> (Some e, lm)
           | (Inr r, lm) \<Rightarrow> WaitN_finish plat lm r now ev))"

subsection \<open>What a step keeps\<close>

text \<open>The bucket never holds more than the burst.\<close>

definition within_burst :: "limiter \<Rightarrow> bool" where
  "within_burst lm \<longleftrightarrow> \<not> f_less (f_of_int (l_burst lm)) (l_tokens lm)"

lemma advance_within_burst:
  "advance plat lm now = (now', last', tokens) \<Longrightarrow> \<not> f_less (f_of_int (l_burst lm)) tokens"
  by (auto simp: advance_def Let_def split: if_splits)

lemma advance_now: "advance plat lm now = (now', last', tokens) \<Longrightarrow>
    now' = now \<and> last' = (if Before now (l_last lm) then now else l_last lm)"
  by (auto simp: advance_def Let_def)

lemma reserveN_within_burst:
  assumes "within_burst lm" and "0 \<le> n"
  shows "within_burst (snd (reserveN plat lm now n m))"
proof (cases "advance plat lm now")
  case (fields now' last' tokens)
  then show ?thesis
    using assms f_sub_not_above [OF advance_within_burst [OF fields] assms(2)]
    by (simp add: reserveN_def within_burst_def fields Let_def)
qed

lemma CancelAt_within_burst:
  "within_burst lm \<Longrightarrow> within_burst (CancelAt plat r lm now)"
  by (auto simp: CancelAt_def within_burst_def Let_def split: prod.split)

lemma SetLimitAt_within_burst: "within_burst (SetLimitAt plat lm now l)"
  using advance_within_burst [of plat lm now]
  by (auto simp: SetLimitAt_def within_burst_def split: prod.split)

lemma SetBurstAt_within_burst:
  assumes "l_burst lm \<le> b"
  shows "within_burst (SetBurstAt plat lm now b)"
proof (cases "advance plat lm now")
  case (fields now' last' tokens)
  have "f_le (f_of_int (l_burst lm)) (f_of_int b)"
    using assms by (simp add: f_of_int_def f64_round_mono)
  with advance_within_burst [OF fields] show ?thesis
    by (cases tokens; cases "f_of_int (l_burst lm)"; cases "f_of_int b")
      (auto simp: SetBurstAt_def within_burst_def fields f_le_def)
qed

text \<open>A step of a limiter's life: any of the locked methods.\<close>

datatype lim_op =
    OpReserve gtime int int
  | OpCancel reservation gtime
  | OpSetLimit gtime f64
  | OpSetBurst gtime int

fun lim_step :: "(f64 \<Rightarrow> int) \<Rightarrow> limiter \<Rightarrow> lim_op \<Rightarrow> limiter" where
  "lim_step plat lm (OpReserve now n m) = snd (reserveN plat lm now n m)"
| "lim_step plat lm (OpCancel r now) = CancelAt plat r lm now"
| "lim_step plat lm (OpSetLimit now l) = SetLimitAt plat lm now l"
| "lim_step plat lm (OpSetBurst now b) = SetBurstAt plat lm now b"

text \<open>Requests for a non-negative number of events; the burst is only ever raised.\<close>

fun op_fair :: "limiter \<Rightarrow> lim_op \<Rightarrow> bool" where
  "op_fair lm (OpReserve now n m) \<longleftrightarrow> 0 \<le> n"
| "op_fair lm (OpSetBurst now b) \<longleftrightarrow> l_burst lm \<le> b"
| "op_fair lm _ \<longleftrightarrow> True"

fun lim_run :: "(f64 \<Rightarrow> int) \<Rightarrow> limiter \<Rightarrow> lim_op list \<Rightarrow> limiter" where
  "lim_run plat lm [] = lm"
| "lim_run plat lm (x # xs) = lim_run plat (lim_step plat lm x) xs"

fun ops_fair :: "(f64 \<Rightarrow> int) \<Rightarrow> limiter \<Rightarrow> lim_op list \<Rightarrow> bool" where
  "ops_fair plat lm [] \<longleftrightarrow> True"
| "ops_fair plat lm (x # xs) \<longleftrightarrow> op_fair lm x \<and> ops_fair plat (lim_step plat lm x) xs"

lemma lim_step_within_burst: "within_burst lm \<Longrightarrow> op_fair lm x \<Longrightarrow> within_burst (lim_step plat lm x)"
  by (cases x) (simp_all add: reserveN_within_burst CancelAt_within_burst SetLimitAt_within_burst
      SetBurstAt_within_burst)

lemma lim_run_within_burst:
  "within_burst lm \<Longrightarrow> ops_fair plat lm xs \<Longrightarrow> within_burst (lim_run plat lm xs)"
  by (induction xs arbitrary: lm) (auto intro: lim_step_within_burst)

lemma NewLimiter_within_burst: "0 \<le> b \<Longrightarrow> within_burst (NewLimiter r b)"
  using f64_round_mono [of 0 "of_int b"] f_le_not_less
  by (simp add: within_burst_def NewLimiter_def f_of_int_def)

subsection \<open>Functional behaviour\<close>

text \<open>A refusal changes nothing but \<open>last\<close>, and that only backwards.\<close>

lemma reserveN_refused:
  assumes "reserveN plat lm now n m = (r, lm')" and "\<not> r_ok r"
  shows "lm' = lm\<lparr>l_last := (if Before now (l_last lm) then now else l_last lm)\<rparr>"
    and "r_tokens r = 0"
proof -
  obtain now' last' tokens where a: "advance plat lm now = (now', last', tokens)" by (cases "advance plat lm now")
  show "lm' = lm\<lparr>l_last := (if Before now (l_last lm) then now else l_last lm)\<rparr>" "r_tokens r = 0"
    using assms advance_now [OF a] by (auto simp: reserveN_def Let_def a split: if_splits)
qed

lemma reserveN_granted:
  assumes "reserveN plat lm now n m = (r, lm')" and "r_ok r" and "\<not> f_eq (l_limit lm) Inf"
  obtains tokens where "advance plat lm now = (now, (if Before now (l_last lm) then now else l_last lm), tokens)"
    "n \<le> l_burst lm" "r_tokens r = n" "r_limit r = l_limit lm"
    "l_tokens lm' = f_sub tokens (f_of_int n)" "l_last lm' = now" "l_lastEvent lm' = r_timeToAct r"
    "l_limit lm' = l_limit lm" "l_burst lm' = l_burst lm"
    "r_timeToAct r = Time_Add now (if f_less (f_sub tokens (f_of_int n)) (Fin 0)
       then durationFromTokens plat (l_limit lm) (f_neg (f_sub tokens (f_of_int n))) else 0)"
    "(if f_less (f_sub tokens (f_of_int n)) (Fin 0)
       then durationFromTokens plat (l_limit lm) (f_neg (f_sub tokens (f_of_int n))) else 0) \<le> m"
proof -
  obtain now' last' tokens where a: "advance plat lm now = (now', last', tokens)" by (cases "advance plat lm now")
  note n = advance_now [OF a]
  show thesis
    using assms n by (intro that [of tokens]) (auto simp: reserveN_def Let_def a split: if_splits)
qed

text \<open>With the infinite limit everything is granted at once, whatever the burst.\<close>

lemma reserveN_Inf: "f_eq (l_limit lm) Inf \<Longrightarrow>
    reserveN plat lm now n m = (\<lparr>r_ok = True, r_tokens = n, r_timeToAct = now, r_limit = Fin 0\<rparr>, lm)"
  by (simp add: reserveN_def)

subsection \<open>A limit of zero\<close>

lemma tokensFromDuration_zero: "tokensFromDuration (Fin 0) d = Fin 0" if "in_i64 d"
proof -
  have s: "\<bar>d sdiv 1000000000\<bar> \<le> 9223372037" "\<bar>d smod 1000000000\<bar> < 1000000000"
    using duration_parts [OF that] by simp_all
  then have "f_of_int (d sdiv Second) = Fin (of_int (d sdiv 1000000000))"
    "f_of_int (d smod Second) = Fin (of_int (d smod 1000000000))"
    by (simp_all add: f_of_int_exact time_consts)
  then show ?thesis by (simp add: tokensFromDuration_def Let_def)
qed

lemma durationFromTokens_zero_amd64: "durationFromTokens amd64_cvt (Fin 0) (Fin a) = min_i64"
  by (simp add: durationFromTokens_def Let_def f_signed_inf_def f_to_i64_def amd64_cvt_def time_consts
      i64_id in_i64_def)

lemma in_i64_Sub [simp]: "in_i64 (Time_Sub t u)"
proof -
  have "in_i64 min_i64" "in_i64 max_i64" by (simp_all add: in_i64_def)
  then show ?thesis by (auto simp: Time_Sub_def Let_def split: option.split)
qed

lemma reserveN_zero_limit:
  assumes l: "l_limit lm = Fin 0" and t: "l_tokens lm = Fin (of_int k)" and k: "\<bar>k\<bar> \<le> 2 ^ 51"
    and n: "0 \<le> n" "n \<le> l_burst lm" and b: "l_burst lm \<le> 2 ^ 51"
  shows "fst (AllowN amd64_cvt lm now n)"
    and "l_limit (snd (AllowN amd64_cvt lm now n)) = Fin 0"
    and "l_tokens (snd (AllowN amd64_cvt lm now n)) = Fin (of_int (min k (l_burst lm) - n))"
    and "l_burst (snd (AllowN amd64_cvt lm now n)) = l_burst lm"
proof -
  have fb: "f_of_int (l_burst lm) = Fin (of_int (l_burst lm))"
    using n b by (intro f_of_int_exact) simp
  have s: "f_sub (f_of_int (l_burst lm)) (l_tokens lm) = Fin (of_int (l_burst lm - k))"
    using f_add_of_int [of "l_burst lm" "- k"] n b k by (simp add: fb f_sub_def t)
  have m: "durationFromTokens amd64_cvt (Fin 0) (f_sub (f_of_int (l_burst lm)) (l_tokens lm)) = min_i64"
    unfolding s by (rule durationFromTokens_zero_amd64)
  define e where "e last = (if Time_Sub now last > min_i64 then min_i64 else Time_Sub now last)" for last
  have e: "in_i64 (e last)" for last
    using in_i64_Sub [of now last] by (simp add: e_def in_i64_def)
  have k0: "f_add (l_tokens lm) (Fin 0) = Fin (of_int k)"
    using f_add_of_int [of k 0] k by (simp add: t)
  have "snd (snd (advance amd64_cvt lm now)) = Fin (of_int (min k (l_burst lm)))"
    unfolding advance_def Let_def l m e_def [symmetric]
    by (simp add: tokensFromDuration_zero [OF e] k0 fb min_def)
  then obtain now' last' where "advance amd64_cvt lm now = (now', last', Fin (of_int (min k (l_burst lm))))"
    by (cases "advance amd64_cvt lm now") simp
  define q where "q = min k (l_burst lm)"
  have a: "advance amd64_cvt lm now = (now, last', Fin (of_int q))"
    using \<open>advance amd64_cvt lm now = _\<close> advance_now unfolding q_def by blast
  have fn: "f_of_int n = Fin (of_int n)" using n b by (intro f_of_int_exact) simp
  have d: "f_sub (Fin (of_int q)) (Fin (of_int n)) = Fin (of_int (q - n))"
    using f_add_of_int [of q "- n"] n b k by (simp add: f_sub_def q_def)
  have i: "\<not> f_eq (Fin 0) Inf" by (simp add: f_eq_def Inf_def max_float64_def)
  show "fst (AllowN amd64_cvt lm now n)"
    "l_limit (snd (AllowN amd64_cvt lm now n)) = Fin 0"
    "l_tokens (snd (AllowN amd64_cvt lm now n)) = Fin (of_int (min k (l_burst lm) - n))"
    "l_burst (snd (AllowN amd64_cvt lm now n)) = l_burst lm"
    unfolding q_def [symmetric]
    using n i by (simp_all add: AllowN_def reserveN_def a fn d l Let_def durationFromTokens_zero_amd64
        del: of_int_diff)
qed

text \<open>Any number of single events, at any times.\<close>

fun allow_all :: "(f64 \<Rightarrow> int) \<Rightarrow> limiter \<Rightarrow> gtime list \<Rightarrow> bool list" where
  "allow_all plat lm [] = []"
| "allow_all plat lm (now # ts) = (let (ok, lm) = AllowN plat lm now 1 in ok # allow_all plat lm ts)"

lemma allow_all_zero_limit:
  assumes "l_limit lm = Fin 0" and "l_tokens lm = Fin (of_int k)" and "k \<le> 2 ^ 50"
    and "- (2 ^ 50) \<le> k - int (length ts)" and "int (length ts) \<le> 2 ^ 50"
    and "1 \<le> l_burst lm" and "l_burst lm \<le> 2 ^ 50"
  shows "list_all (\<lambda>ok. ok) (allow_all amd64_cvt lm ts)"
  using assms
proof (induction ts arbitrary: lm k)
  case (Cons now ts)
  note r = reserveN_zero_limit [OF Cons.prems(1,2), of 1 now]
  obtain ok lm' where a: "AllowN amd64_cvt lm now 1 = (ok, lm')" by (cases "AllowN amd64_cvt lm now 1")
  have k: "\<bar>k\<bar> \<le> 2 ^ 51" "(0 :: int) \<le> 1" "1 \<le> l_burst lm" "l_burst lm \<le> 2 ^ 51"
    using Cons.prems by simp_all
  have lm': "ok" "l_limit lm' = Fin 0" "l_tokens lm' = Fin (of_int (min k (l_burst lm) - 1))"
    "l_burst lm' = l_burst lm"
    using r [OF k] by (simp_all add: a)
  have "list_all (\<lambda>ok. ok) (allow_all amd64_cvt lm' ts)"
    using lm'(2,3) by (rule Cons.IH) (use Cons.prems lm' in auto)
  then show ?case using lm'(1) by (simp add: a)
qed simp

subsection \<open>Properties\<close>

text \<open>The bucket never overflows: from a new limiter, any sequence of reservations, cancellations and parameter
  changes leaves at most \<open>burst\<close> tokens in it, whatever the clock readings (the burst itself only ever raised).\<close>

theorem bucket_never_overflows:
  assumes "0 \<le> b" and "ops_fair plat (NewLimiter r b) xs"
  shows "\<not> f_less (f_of_int (l_burst (lim_run plat (NewLimiter r b) xs))) (l_tokens (lim_run plat (NewLimiter r b) xs))"
  using lim_run_within_burst [OF NewLimiter_within_burst [OF assms(1)] assms(2)] by (simp add: within_burst_def)

lemma bucket_never_overflows_witness:
  "\<not> f_less (f_of_int (l_burst (lim_run amd64_cvt (NewLimiter (Fin 4) 3)
        [OpSetBurst (zero_time\<lparr>tsec := 9\<rparr>) 8, OpReserve (zero_time\<lparr>tsec := 10\<rparr>) 2 0])))
      (l_tokens (lim_run amd64_cvt (NewLimiter (Fin 4) 3)
        [OpSetBurst (zero_time\<lparr>tsec := 9\<rparr>) 8, OpReserve (zero_time\<lparr>tsec := 10\<rparr>) 2 0]))"
proof -
  have "ops_fair amd64_cvt (NewLimiter (Fin 4) 3)
      [OpSetBurst (zero_time\<lparr>tsec := 9\<rparr>) 8, OpReserve (zero_time\<lparr>tsec := 10\<rparr>) 2 0]"
    by (simp add: NewLimiter_def)
  then show ?thesis by (intro bucket_never_overflows) simp_all
qed

text \<open>A request is granted exactly when it does not exceed the burst and the wait it needs is within the caller's
  bound; a refused request costs nothing: only the time of the last update may move back.\<close>

theorem reserve_decision:
  assumes "\<not> f_eq (l_limit lm) Inf" and "advance plat lm now = (now, last', tokens)"
    and "reserveN plat lm now n m = (r, lm')"
  shows "(r_ok r \<longleftrightarrow> n \<le> l_burst lm \<and>
        (if f_less (f_sub tokens (f_of_int n)) (Fin 0)
         then durationFromTokens plat (l_limit lm) (f_neg (f_sub tokens (f_of_int n))) else 0) \<le> m)
    \<and> (r_ok r \<longrightarrow> r_tokens r = n \<and> l_tokens lm' = f_sub tokens (f_of_int n) \<and> l_lastEvent lm' = r_timeToAct r)
    \<and> (\<not> r_ok r \<longrightarrow> r_tokens r = 0 \<and> lm' = lm\<lparr>l_last := last'\<rparr>)"
  using assms by (auto simp: reserveN_def Let_def split: if_splits)

lemma reserve_decision_witness:
  "r_ok (fst (reserveN amd64_cvt \<lparr>l_limit = Fin 2, l_burst = 5, l_tokens = Fin 4, l_last = zero_time,
      l_lastEvent = zero_time\<rparr> zero_time 3 0))"
proof -
  define lm where "lm = \<lparr>l_limit = Fin 2, l_burst = 5, l_tokens = Fin 4, l_last = zero_time, l_lastEvent = zero_time\<rparr>"
  have a: "advance amd64_cvt lm zero_time = (zero_time, zero_time, Fin 4)" unfolding lm_def by code_simp
  have i: "\<not> f_eq (l_limit lm) Inf" by (simp add: lm_def f_eq_def Inf_def max_float64_def)
  obtain r lm' where e: "reserveN amd64_cvt lm zero_time 3 0 = (r, lm')" by (cases "reserveN amd64_cvt lm zero_time 3 0")
  have "f_sub (Fin 4) (f_of_int 3) = Fin 1" by code_simp
  then have "r_ok r" using reserve_decision [OF i a e] by (simp add: lm_def)
  then show ?thesis unfolding lm_def [symmetric] e by simp
qed

text \<open>A limiter whose limit is zero does not refuse: where the conversion of an infinity to an integer gives the
  least 64-bit value, the wait is negative and every single event is granted, long after the burst is spent.\<close>

theorem zero_limit_grants:
  assumes "0 < b" "b \<le> 2 ^ 50" and "int (length ts) \<le> 2 ^ 50"
  shows "list_all (\<lambda>ok. ok) (allow_all amd64_cvt (NewLimiter (Fin 0) b) ts)"
  by (rule allow_all_zero_limit [of _ 0]) (use assms in \<open>simp_all add: NewLimiter_def\<close>)

lemma zero_limit_grants_witness:
  "list_all (\<lambda>ok. ok) (allow_all amd64_cvt (NewLimiter (Fin 0) 1) [zero_time, zero_time, zero_time])"
  by (rule zero_limit_grants) simp_all

end
