(* ===== verification/RateBound.thy ===== *)
theory RateBound
  imports Rate
begin

text \<open>
  What the limiter of rate/rate.go promises a caller, rounding included: for limits that refill the
  burst within the range of a \<open>Duration\<close> the events granted over a stretch of time exceed \<open>burst + rate * time\<close> by at
  most two tokens and a hundred-thousandth of a token per request; a reservation cancelled at once gives
  its tokens back; a wait that is granted ends before the deadline.
\<close>

subsection \<open>The conversions in a usual range of limits\<close>

text \<open>A limit of at most one event a nanosecond; at times one of at least one event a second.\<close>

definition rate_ok :: "rat \<Rightarrow> bool" where
  "rate_ok l \<longleftrightarrow> 0 < l \<and> l \<le> 1000000000"

definition usual_limit :: "rat \<Rightarrow> bool" where
  "usual_limit l \<longleftrightarrow> 1 \<le> l \<and> l \<le> 1000000000"

lemma usual_limitD:
  assumes "usual_limit l"
  shows "rate_ok l" and "x \<le> 2 ^ 32 \<Longrightarrow> x \<le> 2 ^ 32 * l"
  using assms by (simp_all add: usual_limit_def rate_ok_def)

lemma durationFromTokens_usual:
  assumes l: "rate_ok l" and x: "\<bar>x\<bar> \<le> 2 ^ 32 * l"
  shows "durationFromTokens plat (Fin l) (Fin x) = trunc_rat (rval (1000000000 * rval (x / l)))"
    and "\<bar>rval (1000000000 * rval (x / l)) - 1000000000 * (x / l)\<bar> \<le> 1000"
proof -
  have l0: "0 < l" using l by (simp add: rate_ok_def)
  define y where "y = x / l"
  have y: "\<bar>y\<bar> \<le> 2 ^ 32" using x l0 by (simp add: y_def abs_divide pos_divide_le_eq)
  then have a: "\<bar>y\<bar> \<le> pow2 32" using pow2_of_nat [of 32] by simp
  have e1: "\<bar>rval y - y\<bar> \<le> 1 / 2 ^ 21"
    using rval_error_bound [OF a] pow2_neg [of 21] by simp
  define w where "w = 1000000000 * rval y"
  have p62: "pow2 62 = 2 ^ 62" using pow2_of_nat [of 62] by simp
  have b: "\<bar>w\<bar> \<le> pow2 62"
    using y e1 unfolding p62 w_def abs_le_iff by simp
  have e2: "\<bar>rval w - w\<bar> \<le> 2 ^ 9"
    using rval_error_bound [OF b] pow2_of_nat [of 9] by simp
  have r1: "f64_round y = Fin (rval y)" using a by (rule f64_round_small) simp
  have r2: "f64_round w = Fin (rval w)"
    using b by (rule f64_round_small) simp
  show "\<bar>rval (1000000000 * rval (x / l)) - 1000000000 * (x / l)\<bar> \<le> 1000"
    using e1 e2 unfolding y_def [symmetric] w_def abs_le_iff by simp
  define v where "v = rval w"
  have v: "\<bar>v\<bar> \<le> 2 ^ 62 + 2 ^ 9"
    using b e2 pow2_of_nat [of 62] by (simp add: v_def [symmetric] abs_le_iff)
  have "in_i64 (trunc_rat v)"
  proof (cases "0 \<le> v")
    case True
    have "\<lfloor>v\<rfloor> < 2 ^ 63" using v by (simp add: floor_less_iff abs_le_iff)
    moreover have "0 \<le> \<lfloor>v\<rfloor>" using True by simp
    ultimately show ?thesis using True by (simp add: in_i64_def trunc_rat_def)
  next
    case False
    define k where "k = \<lfloor>- v\<rfloor>"
    have "k \<le> 2 ^ 63" using v by (simp add: k_def floor_le_iff abs_le_iff)
    moreover have "0 \<le> k" using False by (simp add: k_def)
    ultimately show ?thesis using False by (simp add: in_i64_def trunc_rat_def k_def [symmetric])
  qed
  then show "durationFromTokens plat (Fin l) (Fin x) = trunc_rat (rval (1000000000 * rval (x / l)))"
    using l0 by (simp add: durationFromTokens_def Let_def y_def [symmetric] w_def [symmetric] r1 r2 r2 [unfolded w_def] f_to_i64_def v_def [symmetric] time_consts i64_id)
qed

lemma trunc_rat_le: "0 \<le> x \<Longrightarrow> of_int (trunc_rat x) \<le> x"
  by (simp add: trunc_rat_def)


lemma tokensFromDuration_usual:
  assumes l: "rate_ok l" and d: "0 \<le> d" "d < 2 ^ 63" "l * of_int d \<le> 2 ^ 33 * 1000000000"
  obtains \<delta> where "tokensFromDuration (Fin l) d = Fin \<delta>" "0 \<le> \<delta>" "\<delta> \<le> 2 ^ 34"
    "\<delta> \<le> l * of_int d / 1000000000 + 1 / 250000"
proof -
  have l0: "0 < l" "l \<le> 1000000000" using l by (simp_all add: rate_ok_def)
  define s n where "s = d div 1000000000" and "n = d mod 1000000000"
  have sn: "d = s * 1000000000 + n" "0 \<le> n" "n < 1000000000"
    unfolding s_def n_def by simp_all
  have s: "0 \<le> s" "s \<le> 2 ^ 53" using sn d by simp_all
  have sd: "d sdiv 1000000000 = s" "d smod 1000000000 = n"
    using d by (simp_all add: s_def n_def sdiv_nonneg smod_nonneg)
  have fs: "f_of_int s = Fin (of_int s)" "f_of_int n = Fin (of_int n)"
    using s sn by (auto intro!: f_of_int_exact)
  define a b where "a = of_int s * l" and "b = of_int n * l"
  have ab: "l * of_int d = 1000000000 * a + b" unfolding a_def b_def sn(1) by (simp add: algebra_simps)
  have a0: "0 \<le> a" "0 \<le> b" using s sn l0 by (simp_all add: a_def b_def)
  have "b \<le> 1000000000 * 1000000000" using sn l0 unfolding b_def by (intro mult_mono) simp_all
  then have b: "\<bar>b\<bar> \<le> 2 ^ 60" using a0 by simp
  have a: "\<bar>a\<bar> \<le> 2 ^ 33" using d(3) a0 unfolding ab by simp
  note ra = f64_round_near [OF a] and rb = f64_round_near [OF b]
  have ea: "\<bar>rval a - a\<bar> \<le> 1 / 2 ^ 20" using ra(2) pow2_neg [of 20] by simp
  have eb: "\<bar>rval b - b\<bar> \<le> 128" using rb(2) pow2_of_nat [of 7] by simp
  define c where "c = rval b / 1000000000"
  have c0: "0 \<le> c" "0 \<le> rval a" using a0 rval_nonneg by (simp_all add: c_def)
  have cb: "c \<le> b / 1000000000 + 128 / 1000000000" using eb unfolding c_def by (simp add: abs_le_iff)
  have b2: "b / 1000000000 \<le> 1000000000" using \<open>b \<le> 1000000000 * 1000000000\<close> by simp
  have c: "\<bar>c\<bar> \<le> 2 ^ 31" using c0 cb b2 by simp
  note rc = f64_round_near [OF c]
  have ec: "\<bar>rval c - c\<bar> \<le> 1 / 2 ^ 22" using rc(2) pow2_neg [of 22] by simp
  define t where "t = rval a + rval c"
  have c1: "0 \<le> rval c" using c0 by (simp add: rval_nonneg)
  have t: "\<bar>t\<bar> \<le> 2 ^ 34 - 1" "0 \<le> t"
    using a ea c cb ec c0 c1 b2 unfolding t_def abs_le_iff by simp_all
  have "\<bar>t\<bar> \<le> 2 ^ 34" using t by simp
  note rt = f64_round_near [OF this]
  have et: "\<bar>rval t - t\<bar> \<le> 1 / 2 ^ 19" using rt(2) pow2_neg [of 19] by simp
  show thesis
  proof (rule that)
    show "tokensFromDuration (Fin l) d = Fin (rval t)"
      using ra(1) rb(1) rc(1) rt(1)
      by (simp add: tokensFromDuration_def time_consts sd fs a_def [symmetric] b_def [symmetric]
          c_def [symmetric] t_def [symmetric])
    show "0 \<le> rval t" using t(2) by (rule rval_nonneg)
    show "rval t \<le> 2 ^ 34" using t et unfolding abs_le_iff by simp
    have "t \<le> a + b / 1000000000 + 1 / 500000"
      using ea cb ec unfolding t_def abs_le_iff by simp
    then show "rval t \<le> l * of_int d / 1000000000 + 1 / 250000"
      using et unfolding ab abs_le_iff by (simp add: add_divide_distrib)
  qed
qed

text \<open>
  A limiter in the usual range: a burst of at most \<open>2 ^ 31\<close>, filled (with three tokens to spare) within
  \<open>2 ^ 32\<close> seconds, which is 136 years; its tokens finite, its clock one that nobody sets. A limit so low that
  filling the bucket takes longer than a \<open>Duration\<close> holds makes the conversion overflow.
\<close>

definition usual_limiter :: "int \<Rightarrow> limiter \<Rightarrow> rat \<Rightarrow> rat \<Rightarrow> bool" where
  "usual_limiter base lm l \<tau> \<longleftrightarrow> rate_ok l \<and> l_limit lm = Fin l \<and> l_tokens lm = Fin \<tau> \<and>
     0 \<le> l_burst lm \<and> l_burst lm \<le> 2 ^ 31 \<and> of_int (l_burst lm) + 3 \<le> 2 ^ 32 * l \<and>
     - 2 \<le> \<tau> \<and> \<tau> \<le> of_int (l_burst lm) \<and> steady base (l_last lm)"

lemma advance_usual:
  assumes u: "usual_limiter base lm l \<tau>" and now: "steady base now" and le: "inst (l_last lm) \<le> inst now"
  obtains \<tau>' where "advance plat lm now = (now, l_last lm, Fin \<tau>')" "- 2 \<le> \<tau>'" "\<tau>' \<le> of_int (l_burst lm)"
    "\<tau>' \<le> \<tau> + l * of_int (inst now - inst (l_last lm)) / 1000000000 + 1 / 125000"
proof -
  define b D where "b = l_burst lm" and "D = inst now - inst (l_last lm)"
  note u' = u [unfolded usual_limiter_def b_def [symmetric]]
  have l: "rate_ok l" "0 < l" using u' by (simp_all add: rate_ok_def)
  have \<tau>: "- 2 \<le> \<tau>" "\<tau> \<le> of_int b" and b: "0 \<le> b" "b \<le> 2 ^ 31" using u' by simp_all
  have fb: "f_of_int b = Fin (of_int b)" using b by (intro f_of_int_exact) simp
  define x where "x = of_int b - \<tau>"
  have bq: "(of_int b :: rat) \<le> 2 ^ 31" using b by (simp add: of_int_le_iff [of b "2 ^ 31", where 'a = rat, simplified])
  have x: "0 \<le> x" "x \<le> 2 ^ 31 + 2" using \<tau> bq unfolding x_def by simp_all
  then have "\<bar>x\<bar> \<le> 2 ^ 32" by simp
  note rx = f64_round_near [OF this]
  define y where "y = rval x"
  have ey: "\<bar>y - x\<bar> \<le> 1 / 2 ^ 21" using rx(2) pow2_neg [of 21] by (simp add: y_def)
  have y0: "0 \<le> y" "\<bar>y\<bar> \<le> 2 ^ 32" using x ey rval_nonneg [of x] unfolding y_def abs_le_iff by simp_all
  have yl: "\<bar>y\<bar> \<le> 2 ^ 32 * l" using u' \<tau>(1) ey y0(1) unfolding x_def abs_le_iff by simp
  define v where "v = rval (1000000000 * rval (y / l))"
  note dft = durationFromTokens_usual [OF l(1) yl, folded v_def]
  define e where "e = trunc_rat v"
  have "0 \<le> v" using y0 l unfolding v_def by (intro rval_nonneg mult_nonneg_nonneg) simp_all
  then have e0: "0 \<le> e" "of_int e \<le> v" by (simp_all add: e_def trunc_rat_le) (simp add: trunc_rat_def)
  define el where "el = (if e < clamp_i64 D then e else clamp_i64 D)"
  have D: "0 \<le> D" using le by (simp add: D_def)
  have cl: "0 \<le> clamp_i64 D" "clamp_i64 D \<le> D" "clamp_i64 D < 2 ^ 63" using D by (simp_all add: clamp_i64_def)
  have el: "0 \<le> el" "el < 2 ^ 63" "el \<le> D" "el \<le> e" using cl e0 by (simp_all add: el_def)
  have "l * of_int el \<le> l * v" using l el(4) e0(2) by (intro mult_left_mono) (linarith, simp)
  also have "\<dots> \<le> l * (1000000000 * (y / l) + 1000)"
    using l dft(2) by (intro mult_left_mono) (simp_all add: abs_le_iff)
  also have "\<dots> = 1000000000 * y + 1000 * l" using l(2) by (simp add: field_simps)
  also have "\<dots> \<le> 2 ^ 33 * 1000000000" using y0 l(1) unfolding rate_ok_def abs_le_iff by simp
  finally have "l * of_int el \<le> 2 ^ 33 * 1000000000" .
  from tokensFromDuration_usual [OF l(1) el(1,2) this] obtain \<delta> where
    \<delta>: "tokensFromDuration (Fin l) el = Fin \<delta>" "0 \<le> \<delta>" "\<delta> \<le> 2 ^ 34"
      "\<delta> \<le> l * of_int el / 1000000000 + 1 / 250000" .
  have "\<bar>\<tau> + \<delta>\<bar> \<le> 2 ^ 35" using \<tau> bq \<delta>(2,3) unfolding abs_le_iff by simp
  note rt = f64_round_near [OF this]
  define t where "t = rval (\<tau> + \<delta>)"
  have et: "t \<le> \<tau> + \<delta> + 1 / 2 ^ 18" using rt(2) pow2_neg [of 18] unfolding t_def abs_le_iff by simp
  have tl: "- 2 \<le> t" using rval_mono [of "- 2" "\<tau> + \<delta>"] \<tau>(1) \<delta>(2) rval_of_int [of "- 2"] by (simp add: t_def)
  define r where "r = (if of_int b < t then of_int b else t)"
  have nb: "\<not> Before now (l_last lm)" using le Before_clock [OF now, of "l_last lm"] u' by simp
  have sub: "Time_Sub now (l_last lm) = clamp_i64 D" using Time_Sub_clock [OF now] u' by (simp add: D_def)
  have elq: "(if e < Time_Sub now (l_last lm) then e else Time_Sub now (l_last lm)) = el"
    by (simp add: sub el_def)
  have "advance plat lm now = (now, l_last lm, Fin r)"
    using u' rx(1) rt(1) \<delta>(1) nb
    by (simp add: advance_def Let_def b_def [symmetric] fb f_sub_def x_def [symmetric] y_def [symmetric]
        dft(1) e_def [symmetric] elq t_def [symmetric] r_def if_distrib [of Fin]
        split del: if_split cong del: if_weak_cong)
  moreover have "l * of_int el \<le> l * of_int D" using l(2) el(3) by (intro mult_left_mono) simp_all
  then have "l * of_int el / 1000000000 \<le> l * of_int D / 1000000000" by (rule divide_right_mono) simp
  then have "r \<le> \<tau> + l * of_int D / 1000000000 + 1 / 125000"
    using et \<delta>(4) unfolding r_def by (auto split: if_splits)
  moreover have "- 2 \<le> r" "r \<le> of_int b" using tl b by (simp_all add: r_def)
  ultimately show thesis using that unfolding b_def D_def by blast
qed




text \<open>The requests are for non-negative numbers, at clock readings that never go back.\<close>

fun in_order :: "int \<Rightarrow> gtime \<Rightarrow> (gtime \<times> int) list \<Rightarrow> bool" where
  "in_order base t [] \<longleftrightarrow> True"
| "in_order base t ((now, n) # rs) \<longleftrightarrow> steady base now \<and> inst t \<le> inst now \<and> 0 \<le> n \<and> in_order base now rs"

lemma in_order_earlier: "inst t \<le> inst u \<Longrightarrow> in_order base u rs \<Longrightarrow> in_order base t rs"
  by (cases rs) auto

lemma in_order_last: "in_order base t rs \<Longrightarrow> inst t \<le> inst (fst (List.last ((t, 0) # rs)))"
proof (induction base t rs rule: in_order.induct)
  case (2 base t now n rs)
  then show ?case by (cases rs) auto
qed simp





subsection \<open>Cancelling and waiting\<close>

lemma durationFromTokens_nonneg:
  assumes l: "rate_ok l" and x: "0 \<le> x" "x \<le> 2 ^ 32 * l"
  shows "0 \<le> durationFromTokens plat (Fin l) (Fin x)" "in_i64 (durationFromTokens plat (Fin l) (Fin x))"
proof -
  have "\<bar>x\<bar> \<le> 2 ^ 32 * l" using x by simp
  note d = durationFromTokens_usual(1) [OF l this, of plat]
  have "0 \<le> rval (1000000000 * rval (x / l))"
    using x l by (intro rval_nonneg mult_nonneg_nonneg) (simp_all add: rate_ok_def)
  then show "0 \<le> durationFromTokens plat (Fin l) (Fin x)" unfolding d by (simp add: trunc_rat_def)
  show "in_i64 (durationFromTokens plat (Fin l) (Fin x))" by (simp add: durationFromTokens_def Let_def)
qed

text \<open>A second look at the same instant adds nothing.\<close>

lemma advance_again:
  assumes l: "usual_limit l" "l_limit lm = Fin l" and t: "l_tokens lm = Fin (of_int k)" "- (2 ^ 31) \<le> k" "k \<le> l_burst lm"
    and b: "0 \<le> l_burst lm" "l_burst lm \<le> 2 ^ 31" and now: "l_last lm = now" "wall_ok now"
  shows "advance plat lm now = (now, now, Fin (of_int k))"
proof -
  have fb: "f_of_int (l_burst lm) = Fin (of_int (l_burst lm))" using b by (intro f_of_int_exact) simp
  have x: "(0 :: rat) \<le> of_int (l_burst lm - k)" "(of_int (l_burst lm - k) :: rat) \<le> 2 ^ 32"
    using t b by (simp_all add: of_int_le_iff [of _ "2 ^ 32", where 'a = rat, simplified] del: of_int_diff)
  have fs: "f_sub (Fin (of_int (l_burst lm))) (Fin (of_int k)) = Fin (of_int (l_burst lm - k))"
    using f_add_of_int [of "l_burst lm" "- k"] t b by (simp add: f_sub_def)
  have "0 \<le> durationFromTokens plat (Fin l) (Fin (of_int (l_burst lm - k)))"
    using durationFromTokens_nonneg(1) [OF usual_limitD(1) [OF l(1)]] x usual_limitD(2) [OF l(1)] by blast
  moreover have "Time_Sub now now = 0" using Time_Sub_wall [OF now(2) now(2)] by (simp add: clamp_i64_def)
  moreover have "tokensFromDuration (Fin l) 0 = Fin 0"
    using f_of_int_exact [of 0] by (simp add: tokensFromDuration_def time_consts)
  moreover have "f_add (Fin (of_int k)) (Fin 0) = Fin (of_int k)"
    using f_add_of_int [of k 0] t b by simp
  moreover have "(0 :: rat) \<le> of_int (l_burst lm) - of_int k" using x(1) by simp
  ultimately show ?thesis
    using now l(2) t(1) by (simp add: advance_def Let_def fb fs Before_inst del: of_int_diff)
qed

text \<open>Reserving and cancelling at once gives the tokens back.\<close>

lemma Time_Add_ok:
  assumes "wall_ok now" "\<bar>tsec now\<bar> \<le> 2 ^ 60" "in_i64 d"
  shows "wall_ok (Time_Add now d)" "inst (Time_Add now d) = inst now + d"
proof -
  have t: "tmono now = None" "0 \<le> tnsec now" "tnsec now < 1000000000" "\<bar>tsec now\<bar> \<le> 2 ^ 62"
    using assms by (simp_all add: wall_ok_def)
  note a = Time_Add_wall [OF t assms(3)]
  show i: "inst (Time_Add now d) = inst now + d" by (rule a(1))
  have "\<bar>tsec (Time_Add now d)\<bar> \<le> 2 ^ 61"
    using i a(3,4) t(2,3) assms(2,3) by (simp add: inst_def in_i64_def abs_le_iff)
  then show "wall_ok (Time_Add now d)" using a by (simp add: wall_ok_def)
qed

lemma cancel_restores_tokens:
  assumes u: "usual_limit l" "l_limit lm = Fin l" "0 \<le> l_burst lm" "l_burst lm \<le> 2 ^ 31"
    and now: "wall_ok now" "\<bar>tsec now\<bar> \<le> 2 ^ 60"
    and adv: "advance plat lm now = (now, last0, Fin (of_int k))" "- (2 ^ 30) \<le> k" "k \<le> l_burst lm"
    and n: "0 < n" "n \<le> 2 ^ 30"
    and r: "reserveN plat lm now n m = (r, lm')" "r_ok r"
  shows "l_tokens (CancelAt plat r lm' now) = Fin (of_int k)" and "l_last (CancelAt plat r lm' now) = now"
    and "l_limit (CancelAt plat r lm' now) = Fin l" and "l_burst (CancelAt plat r lm' now) = l_burst lm"
proof -
  have i: "\<not> f_eq (l_limit lm) Inf"
    using u by (auto simp: f_eq_def Inf_def max_float64_def usual_limit_def)
  have q: "\<bar>k - n\<bar> \<le> 2 ^ 53" "n \<le> l_burst lm"
    using adv(2,3) n u r i by (auto simp: reserveN_def adv(1) Let_def split: if_splits)
  have fn: "f_of_int n = Fin (of_int n)" using n by (intro f_of_int_exact) simp
  have sub: "f_sub (Fin (of_int k)) (f_of_int n) = Fin (of_int (k - n))"
    using f_add_of_int [of k "- n"] q by (simp add: fn f_sub_def)
  define w where "w = (if k < n then durationFromTokens plat (Fin l) (Fin (of_int (n - k))) else 0)"
  have w: "0 \<le> w" "in_i64 w"
  proof -
    have "(of_int (n - k) :: rat) \<le> 2 ^ 32"
      using adv(2) n by (simp add: of_int_le_iff [of _ "2 ^ 32", where 'a = rat, simplified] del: of_int_diff)
    moreover have "(0 :: rat) \<le> of_int (n - k)" if "k < n" using that by simp
    ultimately show "0 \<le> w" "in_i64 w"
      using durationFromTokens_nonneg [OF usual_limitD(1) [OF u(1)], of "of_int (n - k)" plat] usual_limitD(2) [OF u(1)]
      by (auto simp: w_def in_i64_def)
  qed
  have weq: "(if f_less (Fin (of_int (k - n))) (Fin 0)
      then durationFromTokens plat (l_limit lm) (f_neg (Fin (of_int (k - n)))) else 0) = w"
    by (simp add: w_def u(2))
  note g = r(1) [unfolded reserveN_def if_not_P [OF i] adv(1) Let_def prod.case sub weq]
  have lm': "l_limit lm' = Fin l" "l_burst lm' = l_burst lm" "l_tokens lm' = Fin (of_int (k - n))"
    "l_last lm' = now" "l_lastEvent lm' = Time_Add now w" "r_timeToAct r = Time_Add now w" "r_tokens r = n"
    "r_limit r = Fin l"
    using g r(2) u(2) by (auto split: if_splits simp del: of_int_diff)
  note tw = Time_Add_ok [OF now w(2)]
  have nb: "\<not> Before (Time_Add now w) now" using Before_inst [OF tw(1) now(1)] tw(2) w(1) by simp
  have "Time_Sub (Time_Add now w) (Time_Add now w) = 0"
    using Time_Sub_wall [OF tw(1) tw(1)] by (simp add: clamp_i64_def)
  moreover have "tokensFromDuration (Fin l) 0 = Fin 0"
    using f_of_int_exact [of 0] by (simp add: tokensFromDuration_def time_consts)
  moreover have "f_sub (Fin (of_int n)) (Fin 0) = Fin (of_int n)"
    using f_add_of_int [of n 0] n by (simp add: f_sub_def)
  moreover have "advance plat lm' now = (now, now, Fin (of_int (k - n)))"
    using adv(2,3) n u lm' now by (intro advance_again) simp_all
  moreover have "f_add (Fin (of_int (k - n))) (Fin (of_int n)) = Fin (of_int k)"
    using f_add_of_int [of "k - n" n] adv(2,3) u by simp
  moreover have "\<not> f_less (f_of_int (l_burst lm)) (Fin (of_int k))"
    using f_of_int_exact [of "l_burst lm"] adv(3) u by simp
  ultimately show "l_tokens (CancelAt plat r lm' now) = Fin (of_int k)" "l_last (CancelAt plat r lm' now) = now"
    "l_limit (CancelAt plat r lm' now) = Fin l" "l_burst (CancelAt plat r lm' now) = l_burst lm"
    using r(2) i n nb u(2) by (simp_all add: CancelAt_def lm' fn Let_def del: of_int_diff)
qed

text \<open>A reservation of a usual limiter: it lies ahead, by the wait that was checked.\<close>

lemma reserveN_usual:
  assumes u: "usual_limiter base lm l \<tau>" and now: "wall_ok now" "\<bar>tsec now\<bar> \<le> 2 ^ 60" and le: "inst (l_last lm) \<le> inst now"
    and n: "0 \<le> n" and r: "reserveN plat lm now n m = (r, lm')" "r_ok r"
  obtains w where "0 \<le> w" "w \<le> m" "in_i64 w" "r_timeToAct r = Time_Add now w" "n \<le> l_burst lm"
proof -
  note u' = u [unfolded usual_limiter_def]
  obtain \<tau>1 where adv: "advance plat lm now = (now, l_last lm, Fin \<tau>1)" "- 2 \<le> \<tau>1" "\<tau>1 \<le> of_int (l_burst lm)"
    by (rule advance_usual [OF u wall_clock [OF now(1)] le])
  have i: "\<not> f_eq (l_limit lm) Inf" using u' by (auto simp: f_eq_def Inf_def max_float64_def rate_ok_def)
  note r' = r(1) [unfolded reserveN_def if_not_P [OF i] adv(1)]
  have nb: "n \<le> l_burst lm" using r' r(2) by (auto simp: Let_def split: if_splits)
  have q: "(of_int n :: rat) \<le> 2 ^ 31" "(0 :: rat) \<le> of_int n" "(of_int (l_burst lm) :: rat) \<le> 2 ^ 31"
    using nb n u' by (simp_all add: of_int_le_iff [of _ "2 ^ 31", where 'a = rat, simplified])
  have fn: "f_of_int n = Fin (of_int n)" using n nb u' by (intro f_of_int_exact) simp
  have "\<bar>\<tau>1 - of_int n\<bar> \<le> 2 ^ 32 - 1" using adv(2,3) q unfolding abs_le_iff by simp
  then have "\<bar>\<tau>1 - of_int n\<bar> \<le> 2 ^ 32" by simp
  note rt = f64_round_near [OF this]
  define t where "t = rval (\<tau>1 - of_int n)"
  have sub: "f_sub (Fin \<tau>1) (f_of_int n) = Fin t" using rt(1) by (simp add: f_sub_def fn t_def)
  define w where "w = (if t < 0 then durationFromTokens plat (Fin l) (Fin (- t)) else 0)"
  have "(of_int n :: rat) \<le> of_int (l_burst lm)" using nb by simp
  then have "- t \<le> 2 ^ 32 * l"
    using rt(2) pow2_neg [of 21] adv(2) u' unfolding t_def abs_le_iff by simp
  then have w: "0 \<le> w" "in_i64 w"
    using durationFromTokens_nonneg [of l "- t" plat] u' by (auto simp: w_def in_i64_def)
  have "w \<le> m" "r_timeToAct r = Time_Add now w"
    using r' r(2) u' by (auto simp: Let_def sub w_def split: if_splits)
  then show thesis using that w nb by blast
qed

lemma WaitN_within_deadline:
  assumes u: "usual_limiter base lm l \<tau>" and now: "wall_ok now" "\<bar>tsec now\<bar> \<le> 2 ^ 60" and le: "inst (l_last lm) \<le> inst now"
    and n: "0 \<le> n" and dl: "wall_ok dl" and r: "WaitN_reserve plat lm now n (Some dl) = (Inr r, lm')"
  shows "inst now \<le> inst (r_timeToAct r)" and "inst (r_timeToAct r) \<le> inst dl"
    and "DelayFrom r now = inst (r_timeToAct r) - inst now"
proof -
  obtain r0 where r0: "reserveN plat lm now n (Time_Sub dl now) = (r0, lm')" "r_ok r0" "r = r0"
    using r by (auto simp: WaitN_reserve_def split: prod.splits if_splits)
  from reserveN_usual [OF u now le n r0(1,2)] obtain w where
    w: "0 \<le> w" "w \<le> Time_Sub dl now" "in_i64 w" "r_timeToAct r = Time_Add now w" using r0(3) by auto
  note t = Time_Add_ok [OF now w(3)]
  show "inst now \<le> inst (r_timeToAct r)" using t w by simp
  have "w \<le> clamp_i64 (inst dl - inst now)" using w(2) Time_Sub_wall [OF dl now(1)] by simp
  then have "w \<le> inst dl - inst now" using w(1) by (auto simp: clamp_i64_def split: if_splits)
  then show "inst (r_timeToAct r) \<le> inst dl" using t w by simp
  have "Time_Sub (r_timeToAct r) now = w"
    using Time_Sub_wall [OF t(1) now(1)] t(2) w by (simp add: clamp_i64_def in_i64_def)
  then show "DelayFrom r now = inst (r_timeToAct r) - inst now"
    using r0 w t by (simp add: DelayFrom_def)
qed

subsection \<open>Properties\<close>





text \<open>A reservation of \<open>n\<close> events that is cancelled at the instant it was made leaves the bucket as it was: the
  tokens (a whole number after the clock has been brought up to date) are back, and the limit and burst are kept.\<close>

theorem cancel_restores:
  assumes "usual_limit l" and "l_limit lm = Fin l" and "0 \<le> l_burst lm" "l_burst lm \<le> 2 ^ 31"
    and "wall_ok now" "\<bar>tsec now\<bar> \<le> 2 ^ 60"
    and "advance plat lm now = (now, last0, Fin (of_int k))" "- (2 ^ 30) \<le> k" "k \<le> l_burst lm"
    and "0 < n" "n \<le> 2 ^ 30"
    and "reserveN plat lm now n m = (r, lm')" "r_ok r"
  shows "CancelAt plat r lm' now
    = lm'\<lparr>l_last := now, l_tokens := Fin (of_int k), l_lastEvent := l_lastEvent (CancelAt plat r lm' now)\<rparr>
    \<and> l_limit lm' = Fin l \<and> l_burst lm' = l_burst lm"
proof -
  note c = cancel_restores_tokens [OF assms]
  have i: "\<not> f_eq (l_limit lm) Inf"
    using assms(1,2) by (auto simp: f_eq_def Inf_def max_float64_def usual_limit_def)
  have "l_limit lm' = Fin l" "l_burst lm' = l_burst lm"
    using reserveN_granted [OF assms(12,13) i] assms(2) by auto
  then show ?thesis using c by simp
qed

lemma cancel_restores_witness:
  "let lm = \<lparr>l_limit = Fin 10, l_burst = 5, l_tokens = Fin 5, l_last = zero_time, l_lastEvent = zero_time\<rparr>;
       (r, lm') = reserveN amd64_cvt lm zero_time 3 InfDuration
   in l_tokens (CancelAt amd64_cvt r lm' zero_time) = Fin 5"
proof -
  define lm where "lm = \<lparr>l_limit = Fin 10, l_burst = 5, l_tokens = Fin 5, l_last = zero_time, l_lastEvent = zero_time\<rparr>"
  define r where "r = \<lparr>r_ok = True, r_tokens = 3, r_timeToAct = zero_time, r_limit = Fin 10\<rparr>"
  have e: "reserveN amd64_cvt lm zero_time 3 InfDuration = (r, lm\<lparr>l_tokens := Fin 2\<rparr>)"
    unfolding lm_def r_def by code_simp
  have a: "advance amd64_cvt lm zero_time = (zero_time, zero_time, Fin (of_int 5))"
    unfolding lm_def by code_simp
  have w: "wall_ok zero_time" "usual_limit 10" by (simp_all add: wall_ok_def zero_time_def usual_limit_def)
  have "CancelAt amd64_cvt r (lm\<lparr>l_tokens := Fin 2\<rparr>) zero_time
      = (lm\<lparr>l_tokens := Fin 2\<rparr>)\<lparr>l_last := zero_time, l_tokens := Fin (of_int 5),
          l_lastEvent := l_lastEvent (CancelAt amd64_cvt r (lm\<lparr>l_tokens := Fin 2\<rparr>) zero_time)\<rparr>"
    using cancel_restores [OF w(2) _ _ _ w(1) _ a _ _ _ _ e] by (simp add: lm_def r_def zero_time_def)
  then have "l_tokens (CancelAt amd64_cvt r (lm\<lparr>l_tokens := Fin 2\<rparr>) zero_time) = Fin 5"
    by (metis limiter.select_convs(3) limiter.surjective limiter.update_convs(3,4,5) of_int_numeral)
  then show ?thesis unfolding lm_def [symmetric] Let_def e by simp
qed

text \<open>A wait that is granted ends between now and the deadline, and the delay the caller sleeps for is exactly
  the time left until its reservation.\<close>

theorem wait_within_deadline:
  assumes "usual_limiter base lm l \<tau>" and "wall_ok now" "\<bar>tsec now\<bar> \<le> 2 ^ 60" "inst (l_last lm) \<le> inst now"
    and "0 \<le> n" and "wall_ok dl" and "WaitN_reserve plat lm now n (Some dl) = (Inr r, lm')"
  shows "inst now \<le> inst (r_timeToAct r) \<and> inst (r_timeToAct r) \<le> inst dl
    \<and> DelayFrom r now = inst (r_timeToAct r) - inst now"
  using WaitN_within_deadline [OF assms] by blast

lemma wait_within_deadline_witness:
  "case WaitN_reserve amd64_cvt
      \<lparr>l_limit = Fin 2, l_burst = 5, l_tokens = Fin 0, l_last = zero_time, l_lastEvent = zero_time\<rparr>
      zero_time 3 (Some (zero_time\<lparr>tsec := 2\<rparr>)) of
     (Inr r, _) \<Rightarrow> inst (r_timeToAct r) \<le> 2000000000
   | _ \<Rightarrow> False"
proof -
  define lm where "lm = \<lparr>l_limit = Fin 2, l_burst = 5, l_tokens = Fin 0, l_last = zero_time, l_lastEvent = zero_time\<rparr>"
  define r where "r = \<lparr>r_ok = True, r_tokens = 3,
    r_timeToAct = \<lparr>tsec = 1, tnsec = 500000000, tmono = None, tloc = UTC\<rparr>, r_limit = Fin 2\<rparr>"
  have e: "WaitN_reserve amd64_cvt lm zero_time 3 (Some (zero_time\<lparr>tsec := 2\<rparr>))
      = (Inr r, lm\<lparr>l_tokens := Fin (- 3), l_lastEvent := r_timeToAct r\<rparr>)"
    unfolding lm_def r_def by code_simp
  have u: "usual_limiter 0 lm 2 0" "wall_ok zero_time" "wall_ok (zero_time\<lparr>tsec := 2\<rparr>)"
    by (simp_all add: lm_def usual_limiter_def rate_ok_def wall_clock wall_ok_def zero_time_def)
  have "inst (r_timeToAct r) \<le> inst (zero_time\<lparr>tsec := 2\<rparr>)"
    using wait_within_deadline [OF u(1,2) _ _ _ u(3) e] by (simp add: lm_def zero_time_def)
  then show ?thesis unfolding lm_def [symmetric] e by (simp add: inst_def zero_time_def)
qed

end
