(* ===== verification/GoStrings.thy ===== *)
theory GoStrings
  imports Prelude
begin

text \<open>
  The string routines the parsers use: \<open>strings.Fields\<close>, \<open>FieldsFunc\<close>, \<open>Split\<close>, \<open>TrimSpace\<close>,
  \<open>ToLower\<close>, \<open>HasPrefix\<close> and \<open>Index\<close> (src/src/strings/strings.go) and \<open>strconv.Atoi\<close>,
  \<open>ParseInt\<close>, \<open>ParseUint\<close> (src/src/strconv/atoi.go). A Go string is a sequence of bytes, here the
  list of its characters; the routines that look at runes are modelled on their ASCII paths, where
  every byte is a rune. A separator is one byte, as at every call in the modelled code.
\<close>

unbundle bit_operations_syntax

definition byte :: "char \<Rightarrow> int" where
  "byte c = of_char c"

subsection \<open>Package strings\<close>

definition asciiSpace :: "char \<Rightarrow> bool" where
  "asciiSpace c \<longleftrightarrow> byte c \<in> {9, 10, 11, 12, 13, 32}"

definition HasPrefix :: "string \<Rightarrow> string \<Rightarrow> bool" where
  "HasPrefix s prefix \<longleftrightarrow> length s \<ge> length prefix \<and> take (length prefix) s = prefix"

text \<open>The position of a byte, \<open>None\<close> for the code's -1.\<close>

fun Index :: "string \<Rightarrow> char \<Rightarrow> nat option" where
  "Index [] sep = None"
| "Index (c # s) sep = (if c = sep then Some 0 else map_option Suc (Index s sep))"

lemma Index_bound: "Index s sep = Some m \<Longrightarrow> m < length s \<and> s ! m = sep \<and> sep \<notin> set (take m s)"
  by (induction s arbitrary: m) (auto split: if_splits)

lemma Index_None: "Index s sep = None \<longleftrightarrow> sep \<notin> set s"
  by (induction s) auto

function Split :: "string \<Rightarrow> char \<Rightarrow> string list" where
  "Split s sep =
     (case Index s sep of
        None \<Rightarrow> [s]
      | Some m \<Rightarrow> take m s # Split (drop (m + 1) s) sep)"
  by pat_completeness auto
termination
  by (relation "measure (\<lambda>(s, sep). length s)") (auto dest: Index_bound)

declare Split.simps [simp del]

text \<open>\<open>FieldsFunc\<close>: the field being read is \<open>None\<close> outside a field.\<close>

fun fields_from :: "(char \<Rightarrow> bool) \<Rightarrow> string option \<Rightarrow> string \<Rightarrow> string list" where
  "fields_from f None [] = []"
| "fields_from f (Some w) [] = [w]"
| "fields_from f None (c # s) = (if f c then fields_from f None s else fields_from f (Some [c]) s)"
| "fields_from f (Some w) (c # s) = (if f c then w # fields_from f None s else fields_from f (Some (w @ [c])) s)"

definition FieldsFunc :: "string \<Rightarrow> (char \<Rightarrow> bool) \<Rightarrow> string list" where
  "FieldsFunc s f = fields_from f None s"

text \<open>\<open>Fields\<close>, the ASCII path: skip spaces, then cut at the next space and skip again.\<close>

function fields_ascii :: "string \<Rightarrow> string list" where
  "fields_ascii s =
     (if s = [] then []
      else let field = takeWhile (\<lambda>c. \<not> asciiSpace c) s; rest = dropWhile (\<lambda>c. \<not> asciiSpace c) s
           in if rest = [] then [field] else field # fields_ascii (dropWhile asciiSpace (tl rest)))"
  by pat_completeness auto
termination
proof (relation "measure length", goal_cases)
  case (2 s f r)
  have "length (tl r) < length s"
    using 2 length_dropWhile_le [of "\<lambda>c. \<not> asciiSpace c" s] by (cases s) (auto simp: less_Suc_eq_le)
  then show ?case using length_dropWhile_le [of asciiSpace "tl r"] by simp
qed simp

declare fields_ascii.simps [simp del]

definition Fields :: "string \<Rightarrow> string list" where
  "Fields s = fields_ascii (dropWhile asciiSpace s)"

definition TrimSpace :: "string \<Rightarrow> string" where
  "TrimSpace s = rev (dropWhile asciiSpace (rev (dropWhile asciiSpace s)))"

definition to_lower :: "char \<Rightarrow> char" where
  "to_lower c = (if 65 \<le> byte c \<and> byte c \<le> 90 then char_of (of_char c + 32 :: nat) else c)"

definition ToLower :: "string \<Rightarrow> string" where
  "ToLower s = map to_lower s"

subsection \<open>Package strconv\<close>

datatype num_err = ErrSyntax | ErrRange | ErrBase | ErrBitSize

definition lower :: "int \<Rightarrow> int" where
  "lower c = c OR 32"

text \<open>The scan of \<open>underscoreOK\<close>, with the class of the last character seen.\<close>

fun underscore_scan :: "bool \<Rightarrow> char \<Rightarrow> string \<Rightarrow> bool" where
  "underscore_scan hex saw [] = (saw \<noteq> CHR ''_'')"
| "underscore_scan hex saw (c # s) =
     (if 48 \<le> byte c \<and> byte c \<le> 57 \<or> hex \<and> 97 \<le> lower (byte c) \<and> lower (byte c) \<le> 102
      then underscore_scan hex (CHR ''0'') s
      else if c = CHR ''_'' then (if saw \<noteq> CHR ''0'' then False else underscore_scan hex (CHR ''_'') s)
      else if saw = CHR ''_'' then False
      else underscore_scan hex (CHR ''!'') s)"

definition underscoreOK :: "string \<Rightarrow> bool" where
  "underscoreOK s =
     (let s = (if s \<noteq> [] \<and> (hd s = CHR ''-'' \<or> hd s = CHR ''+'') then tl s else s);
          pre = (length s \<ge> 2 \<and> hd s = CHR ''0'' \<and> lower (byte (s ! 1)) \<in> {98, 111, 120});
          hex = (pre \<and> lower (byte (s ! 1)) = 120)
      in underscore_scan hex (if pre then CHR ''0'' else CHR ''^'') (if pre then drop 2 s else s))"

text \<open>The loop of \<open>ParseUint\<close>: the value, the error, and whether an underscore was seen.\<close>

fun parse_digits :: "bool \<Rightarrow> int \<Rightarrow> int \<Rightarrow> int \<Rightarrow> string \<Rightarrow> int \<Rightarrow> bool \<Rightarrow> int \<times> num_err option \<times> bool" where
  "parse_digits base0 base cutoff maxVal [] n us = (n, None, us)"
| "parse_digits base0 base cutoff maxVal (ch # s) n us =
     (let c = byte ch
      in if c = 95 \<and> base0 then parse_digits base0 base cutoff maxVal s n True
         else if \<not> (48 \<le> c \<and> c \<le> 57) \<and> \<not> (97 \<le> lower c \<and> lower c \<le> 122) then (0, Some ErrSyntax, us)
         else
           let d = (if 48 \<le> c \<and> c \<le> 57 then c - 48 else lower c - 97 + 10)
           in if d \<ge> base then (0, Some ErrSyntax, us)
              else if n \<ge> cutoff then (maxVal, Some ErrRange, us)
              else
                let n = u64 (n * base); n1 = u64 (n + d)
                in if n1 < n \<or> n1 > maxVal then (maxVal, Some ErrRange, us)
                   else parse_digits base0 base cutoff maxVal s n1 us)"

text \<open>The base that a prefix selects when \<open>base\<close> is 0, and what is left of the string.\<close>

definition base_prefix :: "string \<Rightarrow> int \<times> string" where
  "base_prefix s =
     (if hd s \<noteq> CHR ''0'' then (10, s)
      else if length s \<ge> 3 \<and> lower (byte (s ! 1)) = 98 then (2, drop 2 s)
      else if length s \<ge> 3 \<and> lower (byte (s ! 1)) = 111 then (8, drop 2 s)
      else if length s \<ge> 3 \<and> lower (byte (s ! 1)) = 120 then (16, drop 2 s)
      else (8, tl s))"

definition ParseUint :: "string \<Rightarrow> int \<Rightarrow> int \<Rightarrow> int \<times> num_err option" where
  "ParseUint s base bitSize =
     (if s = [] then (0, Some ErrSyntax)
      else if \<not> (2 \<le> base \<and> base \<le> 36) \<and> base \<noteq> 0 then (0, Some ErrBase)
      else
        let base0 = (base = 0); s0 = s; (base, s) = (if base0 then base_prefix s else (base, s))
        in if bitSize < 0 \<or> bitSize > 64 then (0, Some ErrBitSize)
           else
             let bitSize = (if bitSize = 0 then 64 else bitSize);
                 cutoff = (2 ^ 64 - 1) div base + 1;
                 maxVal = 2 ^ nat bitSize - 1
             in case parse_digits base0 base cutoff maxVal s 0 False of
                  (n, Some e, _) \<Rightarrow> (n, Some e)
                | (n, None, us) \<Rightarrow> if us \<and> \<not> underscoreOK s0 then (0, Some ErrSyntax) else (n, None))"

definition ParseInt :: "string \<Rightarrow> int \<Rightarrow> int \<Rightarrow> int \<times> num_err option" where
  "ParseInt s base bitSize =
     (if s = [] then (0, Some ErrSyntax)
      else
        let neg = (hd s = CHR ''-'');
            s = (if hd s = CHR ''+'' \<or> neg then tl s else s);
            (un, err) = ParseUint s base bitSize
        in if err \<noteq> None \<and> err \<noteq> Some ErrRange then (0, err)
           else
             let bitSize = (if bitSize = 0 then 64 else bitSize);
                 cutoff = 2 ^ nat (bitSize - 1)
             in if \<not> neg \<and> un \<ge> cutoff then (cutoff - 1, Some ErrRange)
                else if neg \<and> un > cutoff then (- cutoff, Some ErrRange)
                else (let n = i64 un in (if neg then i64 (- n) else n, None)))"

text \<open>The fast path of \<open>Atoi\<close>, for strings of one to eighteen bytes.\<close>

fun atoi_digits :: "string \<Rightarrow> int \<Rightarrow> num_err + int" where
  "atoi_digits [] n = Inr n"
| "atoi_digits (c # s) n =
     (if (byte c - 48) mod 256 > 9 then Inl ErrSyntax else atoi_digits s (i64 (n * 10 + (byte c - 48) mod 256)))"

definition Atoi :: "string \<Rightarrow> num_err + int" where
  "Atoi s =
     (if 0 < length s \<and> length s < 19
      then
        let s0 = s;
            s = (if hd s = CHR ''-'' \<or> hd s = CHR ''+'' then tl s else s)
        in if s = [] then Inl ErrSyntax
           else case atoi_digits s 0 of
                  Inl e \<Rightarrow> Inl e
                | Inr n \<Rightarrow> Inr (if hd s0 = CHR ''-'' then i64 (- n) else n)
      else case ParseInt s 10 0 of (n, None) \<Rightarrow> Inr n | (n, Some e) \<Rightarrow> Inl e)"

subsection \<open>Splitting\<close>

text \<open>Putting the separator back.\<close>

fun join :: "string \<Rightarrow> string list \<Rightarrow> string" where
  "join sep [] = []"
| "join sep [w] = w"
| "join sep (w # ws) = w @ sep @ join sep ws"

lemma Split_not_Nil [simp]: "Split s sep \<noteq> []"
  by (subst Split.simps) (simp split: option.split)

lemma join_Cons: "ws \<noteq> [] \<Longrightarrow> join sep (w # ws) = w @ sep @ join sep ws"
  by (cases ws) simp_all

lemma Split_join: "join [sep] (Split s sep) = s"
proof (induction s sep rule: Split.induct)
  case (1 s sep)
  show ?case
  proof (cases "Index s sep")
    case None
    then show ?thesis by (subst Split.simps) simp
  next
    case (Some m)
    note b = Index_bound [OF Some]
    have "take m s @ [sep] @ drop (m + 1) s = s" using b id_take_nth_drop [of m s] by auto
    then show ?thesis using Some 1 [OF Some] by (subst Split.simps) (simp add: join_Cons)
  qed
qed

lemma Split_pieces: "w \<in> set (Split s sep) \<Longrightarrow> sep \<notin> set w"
proof (induction s sep arbitrary: w rule: Split.induct)
  case (1 s sep)
  show ?case
  proof (cases "Index s sep")
    case None
    then show ?thesis using 1(2) Index_None [of s sep] by (subst (asm) Split.simps) simp
  next
    case (Some m)
    then show ?thesis using 1 Index_bound [OF Some] by (subst (asm) (2) Split.simps) auto
  qed
qed

lemma Split_no_sep: "sep \<notin> set s \<Longrightarrow> Split s sep = [s]"
  using Index_None [of s sep] by (subst Split.simps) simp

lemma Split_first: "sep \<notin> set a \<Longrightarrow> Split (a @ sep # b) sep = a # Split b sep"
proof -
  assume a: "sep \<notin> set a"
  have "Index (a @ sep # b) sep = Some (length a)" using a by (induction a) auto
  then show ?thesis by (subst Split.simps) simp
qed

subsection \<open>Fields\<close>

text \<open>The ASCII path of \<open>Fields\<close> computes what \<open>FieldsFunc\<close> does with the space test.\<close>

lemma fields_from_word:
  "\<forall>c \<in> set v. \<not> f c \<Longrightarrow> fields_from f (Some w) (v @ s) = fields_from f (Some (w @ v)) s"
  by (induction v arbitrary: w) auto

lemma fields_from_spaces: "fields_from f None (dropWhile f s) = fields_from f None s"
  by (induction s) auto

lemma fields_ascii_from:
  "(s = [] \<or> \<not> asciiSpace (hd s)) \<Longrightarrow> fields_ascii s = fields_from asciiSpace None s"
proof (induction s rule: fields_ascii.induct)
  case (1 s)
  show ?case
  proof (cases "s = []")
    case True
    then show ?thesis by (subst fields_ascii.simps) simp
  next
    case False
    define w r where "w = takeWhile (\<lambda>c. \<not> asciiSpace c) s" and "r = dropWhile (\<lambda>c. \<not> asciiSpace c) s"
    have s: "s = w @ r" by (simp add: w_def r_def)
    have ns: "\<not> asciiSpace (hd s)" using 1(2) False by simp
    then obtain c v where w: "w = c # v" "\<not> asciiSpace c" using False unfolding w_def by (cases s) auto
    have v: "\<forall>c \<in> set v. \<not> asciiSpace c" using w set_takeWhileD unfolding w_def by (metis list.set_intros(2))
    have f: "fields_from asciiSpace None s = fields_from asciiSpace (Some w) r"
      using w fields_from_word [OF v, of "[c]" r] by (simp add: s)
    show ?thesis
    proof (cases "r = []")
      case True
      then have "fields_from asciiSpace None s = [w]" using f by simp
      then show ?thesis using False True by (subst fields_ascii.simps) (simp add: w_def [symmetric] r_def [symmetric] Let_def)
    next
      case ne: False
      then have sp: "asciiSpace (hd r)" using hd_dropWhile [of "\<lambda>c. \<not> asciiSpace c" s] by (auto simp: r_def)
      have "fields_ascii (dropWhile asciiSpace (tl r)) = fields_from asciiSpace None (dropWhile asciiSpace (tl r))"
        using 1(1) [OF False w_def r_def ne] hd_dropWhile [of asciiSpace "tl r"] by blast
      moreover have "fields_from asciiSpace (Some w) r = w # fields_from asciiSpace None (tl r)"
        using ne sp by (cases r) simp_all
      ultimately show ?thesis using False ne f
        by (subst fields_ascii.simps) (simp add: w_def [symmetric] r_def [symmetric] Let_def fields_from_spaces)
    qed
  qed
qed

lemma Fields_FieldsFunc: "Fields s = FieldsFunc s asciiSpace"
proof -
  have "dropWhile asciiSpace s = [] \<or> \<not> asciiSpace (hd (dropWhile asciiSpace s))"
    using hd_dropWhile [of asciiSpace s] by blast
  then show ?thesis by (simp add: Fields_def FieldsFunc_def fields_ascii_from fields_from_spaces)
qed

text \<open>No field is empty or holds a separator, and the fields hold every other byte in order.\<close>

lemma fields_from_pieces:
  "w \<in> set (fields_from f cur s) \<Longrightarrow> (\<forall>v. cur = Some v \<longrightarrow> v \<noteq> [] \<and> (\<forall>c \<in> set v. \<not> f c))
    \<Longrightarrow> w \<noteq> [] \<and> (\<forall>c \<in> set w. \<not> f c)"
  by (induction f cur s rule: fields_from.induct) (auto split: if_splits)

lemma fields_from_concat:
  "concat (fields_from f cur s) = (case cur of None \<Rightarrow> [] | Some w \<Rightarrow> w) @ filter (\<lambda>c. \<not> f c) s"
  by (induction f cur s rule: fields_from.induct) (auto split: option.split)

subsection \<open>Decimal numbers\<close>

definition is_digit :: "char \<Rightarrow> bool" where
  "is_digit c \<longleftrightarrow> 48 \<le> byte c \<and> byte c \<le> 57"

definition num_value :: "int \<Rightarrow> string \<Rightarrow> int" where
  "num_value n s = fold (\<lambda>c n. n * 10 + (byte c - 48)) s n"

definition unsigned_part :: "string \<Rightarrow> string" where
  "unsigned_part s = (if s \<noteq> [] \<and> (hd s = CHR ''-'' \<or> hd s = CHR ''+'') then tl s else s)"

text \<open>An optional sign and at least one digit; its value.\<close>

definition int_literal :: "string \<Rightarrow> bool" where
  "int_literal s \<longleftrightarrow> unsigned_part s \<noteq> [] \<and> list_all is_digit (unsigned_part s)"

definition literal_value :: "string \<Rightarrow> int" where
  "literal_value s =
     (if s \<noteq> [] \<and> hd s = CHR ''-'' then - num_value 0 (unsigned_part s) else num_value 0 (unsigned_part s))"

lemma byte_bounds: "0 \<le> byte c" "byte c < 256"
proof -
  have "byte c = byte c mod 256" by (simp add: byte_def)
  then show "0 \<le> byte c" "byte c < 256" by simp_all
qed

lemma num_value_Nil [simp]: "num_value n [] = n"
  and num_value_Cons [simp]: "num_value n (c # s) = num_value (n * 10 + (byte c - 48)) s"
  by (simp_all add: num_value_def)

lemma num_value_ge: "0 \<le> n \<Longrightarrow> list_all is_digit s \<Longrightarrow> n \<le> num_value n s"
proof (induction s arbitrary: n)
  case (Cons c s)
  have "n * 10 + (byte c - 48) \<le> num_value (n * 10 + (byte c - 48)) s"
    by (rule Cons.IH) (use Cons.prems in \<open>simp_all add: is_digit_def\<close>)
  then show ?case using Cons.prems by (simp add: is_digit_def)
qed simp

lemma num_value_less: "0 \<le> n \<Longrightarrow> n < 10 ^ k \<Longrightarrow> list_all is_digit s \<Longrightarrow> num_value n s < 10 ^ (k + length s)"
proof (induction s arbitrary: n k)
  case (Cons c s)
  have "n * 10 + (byte c - 48) < 10 ^ Suc k" using Cons.prems by (simp add: is_digit_def)
  then show ?case using Cons.IH [of "n * 10 + (byte c - 48)" "Suc k"] Cons.prems by (simp add: is_digit_def)
qed simp

lemma digit_byte: "(byte c - 48) mod 256 > 9 \<longleftrightarrow> \<not> is_digit c" "is_digit c \<Longrightarrow> (byte c - 48) mod 256 = byte c - 48"
proof -
  have "(byte c - 48) mod 256 = (if byte c < 48 then byte c + 208 else byte c - 48)"
    using byte_bounds [of c] by (auto simp: mod_pos_pos_trivial zmod_trivial_iff intro: int_mod_pos_eq [where q = "-1"])
  then show "(byte c - 48) mod 256 > 9 \<longleftrightarrow> \<not> is_digit c"
    "is_digit c \<Longrightarrow> (byte c - 48) mod 256 = byte c - 48"
    using byte_bounds [of c] by (auto simp: is_digit_def)
qed

lemma atoi_digits_value:
  "0 \<le> n \<Longrightarrow> n < 10 ^ k \<Longrightarrow> k + length s \<le> 18 \<Longrightarrow>
   atoi_digits s n = (if list_all is_digit s then Inr (num_value n s) else Inl ErrSyntax)"
proof (induction s arbitrary: n k)
  case (Cons c s)
  show ?case
  proof (cases "is_digit c")
    case True
    have b: "0 \<le> n * 10 + (byte c - 48)" "n * 10 + (byte c - 48) < 10 ^ Suc k"
      using Cons.prems True by (simp_all add: is_digit_def)
    have "(10 :: int) ^ Suc k \<le> 10 ^ 18" using Cons.prems(3) by (intro power_increasing) simp_all
    then have i: "i64 (n * 10 + (byte c - 48)) = n * 10 + (byte c - 48)"
      using b by (simp add: i64_id in_i64_def)
    have "\<not> (byte c - 48) mod 256 > 9" using digit_byte(1) [of c] True by blast
    then show ?thesis using Cons.IH [OF b] Cons.prems(3) True by (simp add: digit_byte(2) i)
  qed (simp add: digit_byte)
qed simp

text \<open>The slow path, at base 10 and 64 bits.\<close>

lemma parse_digits_value:
  assumes "0 \<le> n" "n < 2 ^ 64"
  shows "\<exists>w e. parse_digits False 10 1844674407370955162 18446744073709551615 s n us =
     (if list_all is_digit s \<and> num_value n s < 2 ^ 64 then (num_value n s, None, us) else (w, Some e, us))
     \<and> (e = ErrSyntax \<or> e = ErrRange \<and> w = 18446744073709551615)"
  using assms
proof (induction s arbitrary: n)
  case (Cons c s)
  show ?case
  proof (cases "is_digit c")
    case False
    then have "parse_digits False 10 1844674407370955162 18446744073709551615 (c # s) n us = (0, Some ErrSyntax, us)"
      by (auto simp: is_digit_def Let_def)
    then show ?thesis using False by auto
  next
    case True
    define d where "d = byte c - 48"
    have d: "0 \<le> d" "d \<le> 9" using True by (simp_all add: d_def is_digit_def)
    have big: "\<not> num_value n (c # s) < 2 ^ 64" if "list_all is_digit s" "2 ^ 64 \<le> n * 10 + d"
      using num_value_ge [OF _ that(1), of "n * 10 + d"] that(2) by (simp add: d_def)
    show ?thesis
    proof (cases "n * 10 + d < 2 ^ 64")
      case small: True
      then have "n < 1844674407370955162" using d by simp
      moreover have "u64 (n * 10) = n * 10" "u64 (n * 10 + d) = n * 10 + d"
        using small d Cons.prems by (simp_all add: u64_id)
      ultimately have step: "parse_digits False 10 1844674407370955162 18446744073709551615 (c # s) n us
          = parse_digits False 10 1844674407370955162 18446744073709551615 s (n * 10 + d) us"
        using True d small unfolding d_def by (simp add: is_digit_def Let_def)
      have "0 \<le> n * 10 + d" using d Cons.prems by simp
      moreover have nv: "num_value n (c # s) = num_value (n * 10 + d) s" by (simp add: d_def)
      moreover have la: "list_all is_digit (c # s) = list_all is_digit s" using True by simp
      ultimately show ?thesis unfolding step nv la using small by (intro Cons.IH)
    next
      case over: False
      have "parse_digits False 10 1844674407370955162 18446744073709551615 (c # s) n us
          = (18446744073709551615, Some ErrRange, us)"
      proof (cases "n \<ge> 1844674407370955162")
        case True
        then show ?thesis using \<open>is_digit c\<close> by (simp add: is_digit_def Let_def)
      next
        case lt: False
        then have u: "u64 (n * 10) = n * 10" using Cons.prems by (simp add: u64_id)
        have "u64 (n * 10 + d) = n * 10 + d - 2 ^ 64"
          using over lt d by (simp add: u64_def int_mod_pos_eq [where q = 1])
        then show ?thesis using lt over d \<open>is_digit c\<close> u unfolding d_def
          by (simp add: is_digit_def Let_def)
      qed
      then show ?thesis using big over by auto
    qed
  qed
qed auto

lemma Atoi_literal:
  "Atoi s = Inr v \<longleftrightarrow> int_literal s \<and> literal_value s = v \<and> in_i64 v"
proof (cases "0 < length s \<and> length s < 19")
  case True
  define t where "t = unsigned_part s"
  have s: "s \<noteq> []" "length s \<le> 18" using True by auto
  then have t: "t = (if hd s = CHR ''-'' \<or> hd s = CHR ''+'' then tl s else s)" "length t \<le> 18"
    by (auto simp: t_def unsigned_part_def)
  have a: "atoi_digits t 0 = (if list_all is_digit t then Inr (num_value 0 t) else Inl ErrSyntax)"
    by (rule atoi_digits_value [of _ 0]) (use t in simp_all)
  have A: "Atoi s = (if t = [] then Inl ErrSyntax
      else case atoi_digits t 0 of Inl e \<Rightarrow> Inl e | Inr n \<Rightarrow> Inr (if hd s = CHR ''-'' then i64 (- n) else n))"
    using True unfolding Atoi_def Let_def t(1) by (simp only: if_True simp_thms)
  have b: "0 \<le> num_value 0 t \<and> num_value 0 t < 10 ^ 18" if "list_all is_digit t"
  proof -
    have "num_value 0 t < 10 ^ (0 + length t)" by (rule num_value_less) (use that in simp_all)
    also have "(10 :: int) ^ (0 + length t) \<le> 10 ^ 18" using t(2) by (intro power_increasing) simp_all
    finally show ?thesis using num_value_ge [OF _ that, of 0] by simp
  qed
  have "Atoi s = (if int_literal s then Inr (literal_value s) else Inl ErrSyntax)"
    using b s by (auto simp: A a int_literal_def literal_value_def t_def [symmetric] i64_id in_i64_def)
  moreover have "int_literal s \<Longrightarrow> in_i64 (literal_value s)"
    using b by (auto simp: int_literal_def literal_value_def t_def [symmetric] in_i64_def)
  ultimately show ?thesis by auto
next
  case False
  show ?thesis
  proof (cases "s = []")
    case True
    then show ?thesis by (simp add: Atoi_def ParseInt_def int_literal_def unsigned_part_def)
  next
    case ne: False
    define t where "t = unsigned_part s"
    have t: "t = (if hd s = CHR ''+'' \<or> hd s = CHR ''-'' then tl s else s)"
      using ne by (auto simp: t_def unsigned_part_def)
    have "length t \<ge> 18" using False ne unfolding t by (cases s) auto
    then have tn: "t \<noteq> []" by auto
    obtain w e where p: "parse_digits False 10 1844674407370955162 18446744073709551615 t 0 False =
       (if list_all is_digit t \<and> num_value 0 t < 2 ^ 64 then (num_value 0 t, None, False) else (w, Some e, False))"
      "e = ErrSyntax \<or> e = ErrRange \<and> w = 18446744073709551615"
      using parse_digits_value [of 0 t False] by auto
    have U: "ParseUint t 10 0 =
       (if list_all is_digit t \<and> num_value 0 t < 2 ^ 64 then (num_value 0 t, None) else (w, Some e))"
      using p(1) tn by (simp add: ParseUint_def)
    have pos: "0 \<le> num_value 0 t" if "list_all is_digit t" using num_value_ge [OF _ that, of 0] by simp
    have "Atoi s = (case ParseInt s 10 0 of (n, None) \<Rightarrow> Inr n | (n, Some e) \<Rightarrow> Inl e)"
      using False unfolding Atoi_def by (simp only: if_False)
    moreover have "ParseInt s 10 0 =
      (let (un, err) = ParseUint t 10 0
       in if err \<noteq> None \<and> err \<noteq> Some ErrRange then (0, err)
          else if hd s \<noteq> CHR ''-'' \<and> un \<ge> 9223372036854775808 then (9223372036854775807, Some ErrRange)
          else if hd s = CHR ''-'' \<and> un > 9223372036854775808 then (- 9223372036854775808, Some ErrRange)
          else (let n = i64 un in (if hd s = CHR ''-'' then i64 (- n) else n, None)))"
      unfolding ParseInt_def t Let_def using ne by (simp cong: if_cong)
    ultimately have A: "Atoi s =
      (let (un, err) = ParseUint t 10 0
       in if err \<noteq> None \<and> err \<noteq> Some ErrRange then Inl (the err)
          else if hd s \<noteq> CHR ''-'' \<and> un \<ge> 9223372036854775808 then Inl ErrRange
          else if hd s = CHR ''-'' \<and> un > 9223372036854775808 then Inl ErrRange
          else (let n = i64 un in Inr (if hd s = CHR ''-'' then i64 (- n) else n)))"
      by (auto simp: Let_def split: prod.splits option.splits)
    have m: "i64 9223372036854775808 = min_i64" by (simp add: i64_def)
    have lv: "literal_value s = (if hd s = CHR ''-'' then - num_value 0 t else num_value 0 t)"
      and il: "int_literal s \<longleftrightarrow> list_all is_digit t"
      using ne tn by (simp_all add: literal_value_def int_literal_def t_def)
    show ?thesis
    proof (cases "list_all is_digit t \<and> num_value 0 t < 2 ^ 64")
      case True
      then have "ParseUint t 10 0 = (num_value 0 t, None)" by (simp add: U)
      moreover have "num_value 0 t = 9223372036854775808 \<or> num_value 0 t < 9223372036854775808
          \<or> 9223372036854775808 < num_value 0 t" by linarith
      ultimately show ?thesis using True pos m by (elim disjE) (auto simp: A lv il i64_id in_i64_def)
    next
      case no: False
      then have u: "ParseUint t 10 0 = (w, Some e)" using U by simp
      have "\<not> (int_literal s \<and> in_i64 (literal_value s))"
        using no pos by (auto simp: il lv in_i64_def)
      moreover have "\<exists>x. Atoi s = Inl x" using p(2) by (auto simp: A u)
      ultimately show ?thesis by auto
    qed
  qed
qed

subsection \<open>Properties\<close>

text \<open>C36: \<open>Atoi\<close> accepts exactly the decimal integers (an optional sign and at least one digit) that fit in 64 bits, and
  gives their value; both its fast and its slow path.\<close>

theorem Atoi_exact:
  "Atoi s = Inr v \<longleftrightarrow> int_literal s \<and> literal_value s = v \<and> in_i64 v"
  by (rule Atoi_literal)

text \<open>\<open>Split\<close> cuts a string at every separator and nowhere else: no piece contains the separator, and joining the
  pieces with it gives the string back.\<close>

theorem Split_roundtrip:
  "join [sep] (Split s sep) = s \<and> list_all (\<lambda>w. sep \<notin> set w) (Split s sep)"
  using Split_join Split_pieces by (auto simp: list_all_iff)

text \<open>The ASCII path of \<open>Fields\<close> is \<open>FieldsFunc\<close> with the space test; the fields are non-empty, free of spaces, and
  hold every other byte of the string in order.\<close>

theorem Fields_ascii_path:
  "Fields s = FieldsFunc s asciiSpace \<and> concat (Fields s) = filter (\<lambda>c. \<not> asciiSpace c) s
    \<and> list_all (\<lambda>w. w \<noteq> [] \<and> list_all (\<lambda>c. \<not> asciiSpace c) w) (Fields s)"
  using fields_from_pieces [of _ asciiSpace None s]
  by (auto simp: Fields_FieldsFunc FieldsFunc_def fields_from_concat list_all_iff)

end
