(* ===== verification/GoDuration.thy ===== *)
theory GoDuration
  imports GoStrings GoTime
begin

text \<open>
  \<open>time.ParseDuration\<close> (src/src/time/format.go), which \<open>@every\<close> descriptors go through. The
  loop over the components is a function on the rest of the string; a component consumes at least its
  unit. Fractions go through \<open>float64\<close>; \<open>plat\<close> is the platform's out-of-range conversion.
\<close>

subsection \<open>Leading digits\<close>

text \<open>\<open>None\<close> is \<open>errLeadingInt\<close>.\<close>

fun leadingInt_from :: "string \<Rightarrow> int \<Rightarrow> (int \<times> string) option" where
  "leadingInt_from [] x = Some (x, [])"
| "leadingInt_from (c # s) x =
     (if \<not> is_digit c then Some (x, c # s)
      else if x > max_i64 div 10 then None
      else let x = i64 (x * 10 + byte c - 48) in if x < 0 then None else leadingInt_from s x)"

definition leadingInt :: "string \<Rightarrow> (int \<times> string) option" where
  "leadingInt s = leadingInt_from s 0"

fun leadingFraction_from :: "string \<Rightarrow> int \<Rightarrow> f64 \<Rightarrow> bool \<Rightarrow> int \<times> f64 \<times> string" where
  "leadingFraction_from [] x scale overflow = (x, scale, [])"
| "leadingFraction_from (c # s) x scale overflow =
     (if \<not> is_digit c then (x, scale, c # s)
      else if overflow then leadingFraction_from s x scale True
      else if x > max_i64 div 10 then leadingFraction_from s x scale True
      else let y = i64 (x * 10 + byte c - 48)
           in if y < 0 then leadingFraction_from s x scale True
              else leadingFraction_from s y (f_mul scale (Fin 10)) False)"

definition leadingFraction :: "string \<Rightarrow> int \<times> f64 \<times> string" where
  "leadingFraction s = leadingFraction_from s 0 (Fin 1) False"

subsection \<open>Components\<close>

text \<open>The units; the two micro signs are their UTF-8 bytes.\<close>

definition unitMap :: "(string \<times> int) list" where
  "unitMap =
     [(''ns'', Nanosecond), (''us'', Microsecond), ([CHR 0xC2, CHR 0xB5, CHR ''s''], Microsecond),
      ([CHR 0xCE, CHR 0xBC, CHR ''s''], Microsecond), (''ms'', Millisecond), (''s'', Second), (''m'', Minute),
      (''h'', Hour)]"

datatype dur_error = InvalidDuration | MissingUnit | UnknownUnit string

definition unit_char :: "char \<Rightarrow> bool" where
  "unit_char c \<longleftrightarrow> c \<noteq> CHR ''.'' \<and> \<not> is_digit c"

text \<open>The value of one component and the rest of the string.\<close>

definition duration_part :: "(f64 \<Rightarrow> int) \<Rightarrow> string \<Rightarrow> dur_error + int \<times> string" where
  "duration_part plat s =
     (if \<not> (hd s = CHR ''.'' \<or> is_digit (hd s)) then Inl InvalidDuration
      else case leadingInt s of
        None \<Rightarrow> Inl InvalidDuration
      | Some (v, s1) \<Rightarrow>
          let pre = (length s \<noteq> length s1);
              (f, scale, s2, post) =
                (if s1 \<noteq> [] \<and> hd s1 = CHR ''.''
                 then (let (f, scale, r) = leadingFraction (tl s1) in (f, scale, r, length (tl s1) \<noteq> length r))
                 else (0, Fin 1, s1, False));
              u = takeWhile unit_char s2; s3 = dropWhile unit_char s2
          in if \<not> pre \<and> \<not> post then Inl InvalidDuration
             else if u = [] then Inl MissingUnit
             else case map_of unitMap u of
               None \<Rightarrow> Inl (UnknownUnit u)
             | Some unit \<Rightarrow>
                 if v > max_i64 div unit then Inl InvalidDuration
                 else
                   let v = i64 (v * unit);
                       v' = (if f > 0
                             then i64 (v + f_to_i64 plat (f_mul (f_of_int f) (f_div (f_of_int unit) scale)))
                             else v)
                   in if f > 0 \<and> v' < 0 then Inl InvalidDuration else Inr (v', s3))"

lemma leadingInt_from_rest: "leadingInt_from s x = Some (v, r) \<Longrightarrow> length r \<le> length s"
  by (induction s x rule: leadingInt_from.induct) (auto simp: Let_def split: if_splits)

lemma leadingFraction_from_rest: "leadingFraction_from s x sc ov = (f, g, r) \<Longrightarrow> length r \<le> length s"
  by (induction s x sc ov rule: leadingFraction_from.induct) (auto simp: Let_def split: if_splits)

lemma duration_part_shorter: "duration_part plat s = Inr (v, r) \<Longrightarrow> length r < length s"
proof -
  assume p: "duration_part plat s = Inr (v, r)"
  obtain w s1 where l: "leadingInt s = Some (w, s1)" "length s1 \<le> length s"
    using p leadingInt_from_rest unfolding duration_part_def leadingInt_def by (fastforce split: if_splits option.splits)
  obtain s2 where s2: "length s2 \<le> length s1" "takeWhile unit_char s2 \<noteq> []" "r = dropWhile unit_char s2"
  proof (cases "s1 \<noteq> [] \<and> hd s1 = CHR ''.''")
    case True
    obtain f g s2 where f: "leadingFraction (tl s1) = (f, g, s2)" by (cases "leadingFraction (tl s1)")
    then have "length s2 \<le> length (tl s1)" unfolding leadingFraction_def by (rule leadingFraction_from_rest)
    moreover have "takeWhile unit_char s2 \<noteq> []" "r = dropWhile unit_char s2"
      using p l True f by (auto simp: duration_part_def Let_def split: if_splits option.splits)
    ultimately show thesis using that [of s2] by simp
  next
    case False
    then have "takeWhile unit_char s1 \<noteq> []" "r = dropWhile unit_char s1"
      using p l by (auto simp: duration_part_def Let_def split: if_splits option.splits)
    then show thesis using that [of s1] by simp
  qed
  have "length s2 = length (takeWhile unit_char s2) + length r"
    unfolding s2(3) by (metis length_append takeWhile_dropWhile_id)
  moreover have "0 < length (takeWhile unit_char s2)" by (rule length_greater_0_conv [THEN iffD2, OF s2(2)])
  ultimately show "length r < length s" using s2(1) l(2) by linarith
qed

function duration_loop :: "(f64 \<Rightarrow> int) \<Rightarrow> string \<Rightarrow> int \<Rightarrow> dur_error + int" where
  "duration_loop plat s d =
     (if s = [] then Inr d
      else case duration_part plat s of
        Inl e \<Rightarrow> Inl e
      | Inr (v, s') \<Rightarrow>
          let d = i64 (d + v) in if d < 0 then Inl InvalidDuration else duration_loop plat s' d)"
  by pat_completeness auto
termination
  by (relation "measure (\<lambda>(plat, s, d). length s)") (auto dest: duration_part_shorter)

declare duration_loop.simps [simp del]

definition ParseDuration :: "(f64 \<Rightarrow> int) \<Rightarrow> string \<Rightarrow> dur_error + int" where
  "ParseDuration plat s =
     (let signed = (s \<noteq> [] \<and> (hd s = CHR ''-'' \<or> hd s = CHR ''+''));
          neg = (signed \<and> hd s = CHR ''-'');
          s = (if signed then tl s else s)
      in if s = ''0'' then Inr 0
         else if s = [] then Inl InvalidDuration
         else case duration_loop plat s 0 of
                Inl e \<Rightarrow> Inl e
              | Inr d \<Rightarrow> Inr (if neg then i64 (- d) else d))"

subsection \<open>Whole-number components\<close>

lemma leadingInt_from_digits:
  assumes "0 \<le> n" "n \<le> max_i64" and "list_all is_digit ds" and "r = [] \<or> \<not> is_digit (hd r)"
  shows "leadingInt_from (ds @ r) n = (if num_value n ds \<le> max_i64 then Some (num_value n ds, r) else None)"
  using assms
proof (induction ds arbitrary: n)
  case Nil
  then show ?case by (cases r) auto
next
  case (Cons c ds)
  define d where "d = byte c - 48"
  have d: "0 \<le> d" "d \<le> 9" "is_digit c" using Cons.prems by (simp_all add: d_def is_digit_def)
  have nv: "num_value n (c # ds) = num_value (n * 10 + d) ds" by (simp add: d_def)
  have e: "n * 10 + byte c - 48 = n * 10 + d" by (simp add: d_def)
  have ge: "n * 10 + d \<le> num_value (n * 10 + d) ds"
    by (rule num_value_ge) (use Cons.prems d in simp_all)
  consider "n > max_i64 div 10" | "n \<le> max_i64 div 10" "n * 10 + d > max_i64" | "n * 10 + d \<le> max_i64" "n \<le> max_i64 div 10"
    by linarith
  then show ?case
  proof cases
    case 1
    then show ?thesis unfolding nv using ge d by simp
  next
    case 2
    then have "i64 (n * 10 + d) < 0"
      using d Cons.prems(1) int_mod_pos_eq [of "n * 10 + d + 2 ^ 63" "2 ^ 64" 1 "n * 10 + d - 2 ^ 63"] by (simp add: i64_def)
    then show ?thesis unfolding nv using 2 ge d(3) by (simp add: e Let_def)
  next
    case 3
    then have "i64 (n * 10 + d) = n * 10 + d" using d Cons.prems(1) by (simp add: i64_id in_i64_def)
    then show ?thesis unfolding nv using 3 d Cons.IH [of "n * 10 + d"] Cons.prems by (simp add: e Let_def)
  qed
qed

lemma int_div_less_iff:
  assumes "0 < (u :: int)"
  shows "k div u < v \<longleftrightarrow> k < v * u"
proof -
  define q r where "q = k div u" and "r = k mod u"
  have k: "k = q * u + r" "0 \<le> r" "r < u" using assms by (simp_all add: q_def r_def)
  show ?thesis
  proof (cases "q < v")
    case True
    then have "(q + 1) * u \<le> v * u" using assms by (intro mult_right_mono) simp_all
    then show ?thesis using True k unfolding q_def [symmetric] distrib_right by linarith
  next
    case False
    then have "v * u \<le> q * u" using assms by (intro mult_right_mono) simp_all
    then show ?thesis using False k unfolding q_def [symmetric] by linarith
  qed
qed

lemma unitMap_name:
  assumes "map_of unitMap u = Some unit"
  shows "u \<noteq> []" "list_all unit_char u" "0 < unit"
proof -
  have m: "(u, unit) \<in> set unitMap" using assms by (rule map_of_SomeD)
  have "\<forall>(u, unit) \<in> set unitMap. u \<noteq> [] \<and> list_all unit_char u \<and> 0 < unit"
    by (simp add: unitMap_def unit_char_def is_digit_def byte_def time_consts)
  with m show "u \<noteq> []" "list_all unit_char u" "0 < unit" by auto
qed

lemma takeWhile_prefix:
  "list_all P u \<Longrightarrow> r = [] \<or> \<not> P (hd r) \<Longrightarrow> takeWhile P (u @ r) = u \<and> dropWhile P (u @ r) = r"
  by (cases r) (auto simp: list_all_iff)

definition digits :: "string \<Rightarrow> bool" where
  "digits ds \<longleftrightarrow> ds \<noteq> [] \<and> list_all is_digit ds"

lemma duration_part_whole:
  assumes ds: "digits ds" and u: "map_of unitMap u = Some unit" and r: "r = [] \<or> is_digit (hd r)"
  shows "duration_part plat (ds @ u @ r) =
    (if num_value 0 ds * unit \<le> max_i64 then Inr (num_value 0 ds * unit, r) else Inl InvalidDuration)"
proof -
  note un = unitMap_name [OF u]
  have d: "ds \<noteq> []" "list_all is_digit ds" using ds by (simp_all add: digits_def)
  have hu: "unit_char (hd u)" using un(1,2) by (cases u) auto
  then have nd: "\<not> is_digit (hd (u @ r))" "hd (u @ r) \<noteq> CHR ''.''" using un(1) by (simp_all add: unit_char_def)
  have li: "leadingInt (ds @ u @ r) = (if num_value 0 ds \<le> max_i64 then Some (num_value 0 ds, u @ r) else None)"
    unfolding leadingInt_def by (rule leadingInt_from_digits) (use d nd in simp_all)
  have tw: "takeWhile unit_char (u @ r) = u" "dropWhile unit_char (u @ r) = r"
    using takeWhile_prefix [OF un(2), of r] r by (auto simp: unit_char_def)
  have hd: "is_digit (hd (ds @ u @ r))" using d by (cases ds) simp_all
  define v where "v = num_value 0 ds"
  have v: "0 \<le> v" using num_value_ge [OF _ d(2), of 0] by (simp add: v_def)
  have le: "v \<le> v * unit" using v un(3) by (simp add: mult_le_cancel_left1)
  show ?thesis
  proof (cases "v \<le> max_i64")
    case False
    then have "\<not> v * unit \<le> max_i64" using le by linarith
    then show ?thesis using False hd by (simp add: duration_part_def li v_def [symmetric])
  next
    case True
    have iff: "9223372036854775807 div unit < v \<longleftrightarrow> 9223372036854775807 < v * unit"
      using un(3) by (rule int_div_less_iff)
    have i: "i64 (v * unit) = v * unit" if "v * unit \<le> max_i64"
    proof (rule i64_id)
      have "0 \<le> v * unit" using v un(3) by (intro mult_nonneg_nonneg) simp_all
      then show "in_i64 (v * unit)" using that unfolding in_i64_def by (intro conjI) simp_all
    qed
    moreover have "length (u @ r) \<noteq> length (ds @ u @ r)" using d by simp
    ultimately show ?thesis
      using True hd nd un(1) iff u i by (simp add: duration_part_def li v_def [symmetric] tw Let_def not_less)
  qed
qed

text \<open>A sequence of components with whole numbers, as a string and as its value.\<close>

definition parts_string :: "(string \<times> string) list \<Rightarrow> string" where
  "parts_string ps = concat (map (\<lambda>(ds, u). ds @ u) ps)"

definition parts_value :: "(string \<times> string) list \<Rightarrow> int" where
  "parts_value ps = sum_list (map (\<lambda>(ds, u). num_value 0 ds * the (map_of unitMap u)) ps)"

definition parts_ok :: "(string \<times> string) list \<Rightarrow> bool" where
  "parts_ok ps = list_all (\<lambda>(ds, u). digits ds \<and> map_of unitMap u \<noteq> None) ps"

lemma parts_head: "parts_ok ps \<Longrightarrow> parts_string ps = [] \<or> is_digit (hd (parts_string ps))"
  by (cases ps) (auto simp: parts_ok_def parts_string_def digits_def neq_Nil_conv)

lemma parts_value_nonneg: "parts_ok ps \<Longrightarrow> 0 \<le> parts_value ps"
proof (induction ps)
  case (Cons p ps)
  obtain ds u where p: "p = (ds, u)" by (cases p)
  obtain unit where u: "map_of unitMap u = Some unit" using Cons.prems by (auto simp: parts_ok_def p)
  have "0 \<le> num_value 0 ds" using Cons.prems num_value_ge [of 0 ds] by (simp add: parts_ok_def p digits_def)
  then show ?case using Cons unitMap_name(3) [OF u] by (simp add: parts_value_def parts_ok_def p u)
qed (simp add: parts_value_def)

lemma duration_loop_parts:
  "parts_ok ps \<Longrightarrow> 0 \<le> d \<Longrightarrow> d \<le> max_i64 \<Longrightarrow>
   duration_loop plat (parts_string ps) d =
     (if d + parts_value ps \<le> max_i64 then Inr (d + parts_value ps) else Inl InvalidDuration)"
proof (induction ps arbitrary: d)
  case Nil
  then show ?case by (subst duration_loop.simps) (simp add: parts_string_def parts_value_def)
next
  case (Cons p ps)
  obtain ds u where p: "p = (ds, u)" by (cases p)
  have ok: "parts_ok ps" "digits ds" using Cons.prems(1) by (simp_all add: parts_ok_def p)
  obtain unit where u: "map_of unitMap u = Some unit" using Cons.prems(1) by (auto simp: parts_ok_def p)
  define v where "v = num_value 0 ds * unit"
  have v: "0 \<le> v"
    using ok(2) num_value_ge [of 0 ds] unitMap_name(3) [OF u] by (simp add: v_def digits_def)
  have s: "parts_string (p # ps) = ds @ u @ parts_string ps" "parts_value (p # ps) = v + parts_value ps"
    by (simp_all add: parts_string_def parts_value_def p u v_def)
  note part = duration_part_whole [OF ok(2) u parts_head [OF ok(1)], of plat, folded v_def]
  note nn = parts_value_nonneg [OF ok(1)]
  have ne: "parts_string (p # ps) \<noteq> []" using ok(2) by (simp add: s digits_def)
  have L: "duration_loop plat (parts_string (p # ps)) d =
     (if v \<le> max_i64 then (let d = i64 (d + v) in if d < 0 then Inl InvalidDuration else duration_loop plat (parts_string ps) d)
      else Inl InvalidDuration)"
    by (subst duration_loop.simps) (simp only: ne if_False, simp add: s(1) part)
  consider "v > max_i64" | "v \<le> max_i64" "d + v > max_i64" | "v \<le> max_i64" "d + v \<le> max_i64" by linarith
  then show ?case
  proof cases
    case 1
    then show ?thesis using Cons.prems nn by (simp add: L s(2))
  next
    case 2
    then have "i64 (d + v) < 0"
      using Cons.prems int_mod_pos_eq [of "d + v + 2 ^ 63" "2 ^ 64" 1 "d + v - 2 ^ 63"] by (simp add: i64_def)
    then show ?thesis using 2 nn by (simp add: L s(2) Let_def)
  next
    case 3
    then have i: "i64 (d + v) = d + v" using Cons.prems v by (simp add: i64_id in_i64_def)
    show ?thesis using 3 v Cons.prems Cons.IH [OF ok(1), of "d + v"] by (simp add: L s(2) i Let_def add.assoc)
  qed
qed

lemma ParseDuration_parts:
  assumes "parts_ok ps" and "ps \<noteq> []"
  shows "ParseDuration plat (parts_string ps) =
      (if parts_value ps \<le> max_i64 then Inr (parts_value ps) else Inl InvalidDuration)"
    and "ParseDuration plat (CHR ''-'' # parts_string ps) =
      (if parts_value ps \<le> max_i64 then Inr (- parts_value ps) else Inl InvalidDuration)"
proof -
  have ne: "parts_string ps \<noteq> []"
    using assms by (cases ps) (auto simp: parts_string_def parts_ok_def digits_def)
  then have d: "is_digit (hd (parts_string ps))" using parts_head [OF assms(1)] by simp
  have l: "duration_loop plat (parts_string ps) 0 =
      (if parts_value ps \<le> max_i64 then Inr (parts_value ps) else Inl InvalidDuration)"
    using duration_loop_parts [OF assms(1), of 0 plat] by simp
  have h: "hd (parts_string ps) \<noteq> CHR ''-''" "hd (parts_string ps) \<noteq> CHR ''+''"
    using d by (auto simp: is_digit_def byte_def)
  have z: "parts_string ps \<noteq> ''0''"
  proof (cases ps)
    case (Cons p qs)
    obtain ds u where p: "p = (ds, u)" by (cases p)
    obtain unit where "map_of unitMap u = Some unit" using assms(1) by (auto simp: parts_ok_def p Cons)
    then have "u \<noteq> []" "ds \<noteq> []" using unitMap_name(1) assms(1) by (auto simp: parts_ok_def p Cons digits_def)
    then have "length (parts_string ps) \<ge> 2"
      by (cases ds; cases u) (simp_all add: parts_string_def p Cons)
    then show ?thesis by auto
  qed (use assms in simp)
  have "i64 (- parts_value ps) = - parts_value ps" if "parts_value ps \<le> max_i64"
    using that parts_value_nonneg [OF assms(1)] by (simp add: i64_id in_i64_def)
  then show "ParseDuration plat (parts_string ps) =
      (if parts_value ps \<le> max_i64 then Inr (parts_value ps) else Inl InvalidDuration)"
    "ParseDuration plat (CHR ''-'' # parts_string ps) =
      (if parts_value ps \<le> max_i64 then Inr (- parts_value ps) else Inl InvalidDuration)"
    using ne h z l by (simp_all add: ParseDuration_def)
qed

subsection \<open>Properties\<close>

text \<open>C35: a duration written as a sequence of whole numbers with units parses to their sum, with a minus sign to its
  negative, and to an error exactly when the sum does not fit in 64 bits.\<close>

theorem ParseDuration_sum:
  assumes "parts_ok ps" and "ps \<noteq> []"
  shows "ParseDuration plat (parts_string ps) =
      (if parts_value ps \<le> max_i64 then Inr (parts_value ps) else Inl InvalidDuration)
    \<and> ParseDuration plat (CHR ''-'' # parts_string ps) =
      (if parts_value ps \<le> max_i64 then Inr (- parts_value ps) else Inl InvalidDuration)"
  using ParseDuration_parts [OF assms] by simp

lemma ParseDuration_sum_witness:
  "ParseDuration amd64_cvt ''1h30m'' = Inr 5400000000000"
proof -
  have "parts_ok [(''1'', ''h''), (''30'', ''m'')]" by code_simp
  moreover have "parts_string [(''1'', ''h''), (''30'', ''m'')] = ''1h30m''" by code_simp
  moreover have "parts_value [(''1'', ''h''), (''30'', ''m'')] = 5400000000000" by code_simp
  ultimately show ?thesis using ParseDuration_sum [of "[(''1'', ''h''), (''30'', ''m'')]" amd64_cvt] by simp
qed

end
