(* ===== verification/CronSpec.thy ===== *)
theory CronSpec
  imports GoDuration "HOL-Library.Word"
begin

text \<open>
  The schedule data and the parser of robfig/cron (spec.go, constantdelay.go, parser.go). A
  schedule's fields are \<open>uint64\<close> bit sets, here 64-bit words; the bounds and the numbers of a
  range are \<open>uint\<close>, here \<open>nat\<close> (they come from a non-negative \<open>int\<close>, and a range is checked
  against its bounds before it is used, so no sum of them wraps). \<open>time.LoadLocation\<close> reads the
  system's zone files: it is the parameter \<open>load\<close>, and the local zone is the parameter \<open>lcl\<close>.
\<close>

unbundle bit_operations_syntax

subsection \<open>Schedules\<close>

record spec_schedule =
  s_Second :: "64 word"
  s_Minute :: "64 word"
  s_Hour :: "64 word"
  s_Dom :: "64 word"
  s_Month :: "64 word"
  s_Dow :: "64 word"
  s_Location :: loc

datatype schedule = Spec spec_schedule | ConstantDelay int

record bounds =
  b_min :: nat
  b_max :: nat
  b_names :: "(string \<times> nat) list"

definition seconds :: bounds where "seconds = \<lparr>b_min = 0, b_max = 59, b_names = []\<rparr>"
definition minutes :: bounds where "minutes = \<lparr>b_min = 0, b_max = 59, b_names = []\<rparr>"
definition hours :: bounds where "hours = \<lparr>b_min = 0, b_max = 23, b_names = []\<rparr>"
definition dom_bounds :: bounds where "dom_bounds = \<lparr>b_min = 1, b_max = 31, b_names = []\<rparr>"

definition months :: bounds where
  "months = \<lparr>b_min = 1, b_max = 12, b_names =
     [(''jan'', 1), (''feb'', 2), (''mar'', 3), (''apr'', 4), (''may'', 5), (''jun'', 6), (''jul'', 7),
      (''aug'', 8), (''sep'', 9), (''oct'', 10), (''nov'', 11), (''dec'', 12)]\<rparr>"

definition dow :: bounds where
  "dow = \<lparr>b_min = 0, b_max = 6, b_names =
     [(''sun'', 0), (''mon'', 1), (''tue'', 2), (''wed'', 3), (''thu'', 4), (''fri'', 5), (''sat'', 6)]\<rparr>"

definition starBit :: "64 word" where
  "starBit = push_bit 63 1"

text \<open>\<open>Every\<close>: delays below a second become a second, fractions of a second are cut off.\<close>

definition cron_Every :: "int \<Rightarrow> schedule" where
  "cron_Every duration =
     (let duration = (if duration < Second then Second else duration)
      in ConstantDelay (i64 (duration - duration smod Second)))"

subsection \<open>Errors\<close>

datatype cron_error =
    EmptySpec
  | BadLocation string
  | DescriptorsOff string
  | FailedInt string num_err
  | NegativeNumber int string
  | TooManyHyphens string
  | TooManySlashes string
  | BelowMinimum nat nat string
  | AboveMaximum nat nat string
  | BeyondEnd nat nat string
  | ZeroStep string
  | MultipleOptionals
  | FieldCount nat nat nat
  | UnknownOptional
  | FailedDuration string dur_error
  | Unrecognized string

text \<open>The outcome of a call that may also panic.\<close>

datatype 'a outcome = Ok 'a | Err cron_error | Panic string

fun of_sum :: "cron_error + 'a \<Rightarrow> 'a outcome" where
  "of_sum (Inl e) = Err e"
| "of_sum (Inr x) = Ok x"

subsection \<open>Ranges and fields\<close>

text \<open>The loop of \<open>getBits\<close>. \<open>getRange\<close> never passes a step of zero.\<close>

function getBits_loop :: "nat \<Rightarrow> nat \<Rightarrow> nat \<Rightarrow> 64 word \<Rightarrow> 64 word" where
  "getBits_loop i mx step bits =
     (if i \<le> mx \<and> 0 < step then getBits_loop (i + step) mx step (bits OR push_bit i 1) else bits)"
  by pat_completeness auto
termination
  by (relation "measure (\<lambda>(i, mx, step, bits). Suc mx - i)") auto

declare getBits_loop.simps [simp del]

definition getBits :: "nat \<Rightarrow> nat \<Rightarrow> nat \<Rightarrow> 64 word" where
  "getBits mn mx step =
     (if step = 1 then NOT (push_bit (mx + 1) (- 1)) AND push_bit mn (- 1)
      else getBits_loop mn mx step 0)"

definition all_bits :: "bounds \<Rightarrow> 64 word" where
  "all_bits r = getBits (b_min r) (b_max r) 1 OR starBit"

definition mustParseInt :: "string \<Rightarrow> cron_error + nat" where
  "mustParseInt expr =
     (case Atoi expr of
        Inl e \<Rightarrow> Inl (FailedInt expr e)
      | Inr num \<Rightarrow> if num < 0 then Inl (NegativeNumber num expr) else Inr (nat num))"

definition parseIntOrName :: "string \<Rightarrow> (string \<times> nat) list \<Rightarrow> cron_error + nat" where
  "parseIntOrName expr names =
     (case map_of names (ToLower expr) of Some n \<Rightarrow> Inr n | None \<Rightarrow> mustParseInt expr)"

text \<open>The first part of \<open>getRange\<close>: start, end and the extra star bit.\<close>

definition range_ends :: "string \<Rightarrow> string list \<Rightarrow> bounds \<Rightarrow> cron_error + nat \<times> nat \<times> 64 word" where
  "range_ends expr lowAndHigh r =
     (if lowAndHigh ! 0 = ''*'' \<or> lowAndHigh ! 0 = ''?'' then Inr (b_min r, b_max r, starBit)
      else case parseIntOrName (lowAndHigh ! 0) (b_names r) of
        Inl e \<Rightarrow> Inl e
      | Inr start \<Rightarrow>
          if length lowAndHigh = 1 then Inr (start, start, 0)
          else if length lowAndHigh = 2
          then (case parseIntOrName (lowAndHigh ! 1) (b_names r) of
                  Inl e \<Rightarrow> Inl e
                | Inr en \<Rightarrow> Inr (start, en, 0))
          else Inl (TooManyHyphens expr))"

text \<open>The second part: the step, and the end of the range when one number has a step.\<close>

definition range_step ::
    "string \<Rightarrow> string list \<Rightarrow> bool \<Rightarrow> bounds \<Rightarrow> nat \<Rightarrow> 64 word \<Rightarrow> cron_error + nat \<times> nat \<times> 64 word" where
  "range_step expr rangeAndStep singleDigit r en extra =
     (if length rangeAndStep = 1 then Inr (en, 1, extra)
      else if length rangeAndStep = 2
      then (case mustParseInt (rangeAndStep ! 1) of
              Inl e \<Rightarrow> Inl e
            | Inr step \<Rightarrow> Inr (if singleDigit then b_max r else en, step, if step > 1 then 0 else extra))
      else Inl (TooManySlashes expr))"

definition getRange :: "string \<Rightarrow> bounds \<Rightarrow> cron_error + 64 word" where
  "getRange expr r =
     (let rangeAndStep = Split expr CHR ''/'';
          lowAndHigh = Split (rangeAndStep ! 0) CHR ''-'';
          singleDigit = (length lowAndHigh = 1)
      in case range_ends expr lowAndHigh r of
           Inl e \<Rightarrow> Inl e
         | Inr (start, en, extra) \<Rightarrow>
             (case range_step expr rangeAndStep singleDigit r en extra of
                Inl e \<Rightarrow> Inl e
              | Inr (en, step, extra) \<Rightarrow>
                  if start < b_min r then Inl (BelowMinimum start (b_min r) expr)
                  else if en > b_max r then Inl (AboveMaximum en (b_max r) expr)
                  else if start > en then Inl (BeyondEnd start en expr)
                  else if step = 0 then Inl (ZeroStep expr)
                  else Inr (getBits start en step OR extra)))"

fun getField_loop :: "string list \<Rightarrow> bounds \<Rightarrow> 64 word \<Rightarrow> cron_error + 64 word" where
  "getField_loop [] r bits = Inr bits"
| "getField_loop (expr # ranges) r bits =
     (case getRange expr r of Inl e \<Rightarrow> Inl e | Inr b \<Rightarrow> getField_loop ranges r (bits OR b))"

definition getField :: "string \<Rightarrow> bounds \<Rightarrow> cron_error + 64 word" where
  "getField field r = getField_loop (FieldsFunc field (\<lambda>c. c = CHR '','')) r 0"

subsection \<open>Parser options\<close>

definition OptSecond :: int where "OptSecond = 1"
definition OptSecondOptional :: int where "OptSecondOptional = 2"
definition OptMinute :: int where "OptMinute = 4"
definition OptHour :: int where "OptHour = 8"
definition OptDom :: int where "OptDom = 16"
definition OptMonth :: int where "OptMonth = 32"
definition OptDow :: int where "OptDow = 64"
definition OptDowOptional :: int where "OptDowOptional = 128"
definition OptDescriptor :: int where "OptDescriptor = 256"

lemmas option_defs = OptSecond_def OptSecondOptional_def OptMinute_def OptHour_def OptDom_def OptMonth_def
  OptDow_def OptDowOptional_def OptDescriptor_def

definition places :: "int list" where
  "places = [OptSecond, OptMinute, OptHour, OptDom, OptMonth, OptDow]"

definition defaults :: "string list" where
  "defaults = [''0'', ''0'', ''0'', ''*'', ''*'', ''*'']"

text \<open>A parser is its options; more than one optional field panics.\<close>

definition NewParser :: "int \<Rightarrow> int outcome" where
  "NewParser options =
     (if (if options AND OptDowOptional > 0 then 1 else 0) + (if options AND OptSecondOptional > 0 then 1 else 0)
         > (1 :: nat)
      then Panic ''multiple optionals may not be configured''
      else Ok options)"

text \<open>The last loop of \<open>normalizeFields\<close>: a field for every place of the options, defaults elsewhere.\<close>

fun expand_fields :: "int list \<Rightarrow> string list \<Rightarrow> int \<Rightarrow> string list \<Rightarrow> string list" where
  "expand_fields (place # ps) (d # ds) options flds =
     (if options AND place > 0 then hd flds # expand_fields ps ds options (tl flds)
      else d # expand_fields ps ds options flds)"
| "expand_fields _ _ _ _ = []"

definition normalizeFields :: "string list \<Rightarrow> int \<Rightarrow> cron_error + string list" where
  "normalizeFields flds options0 =
     (let so = (options0 AND OptSecondOptional > 0);
          options = (if so then options0 OR OptSecond else options0);
          do' = (options AND OptDowOptional > 0);
          options = (if do' then options OR OptDow else options);
          optionals = (if so then 1 else 0) + (if do' then 1 else 0)
      in if optionals > (1 :: nat) then Inl MultipleOptionals
         else
           let mx = length (filter (\<lambda>place. options AND place > 0) places);
               mn = mx - optionals;
               count = length flds
           in if count < mn \<or> count > mx then Inl (FieldCount mn mx count)
              else
                let filled =
                      (if mn < mx \<and> count = mn
                       then (if options AND OptDowOptional > 0 then Some (flds @ [defaults ! 5])
                             else if options AND OptSecondOptional > 0 then Some (defaults ! 0 # flds)
                             else None)
                       else Some flds)
                in case filled of
                     None \<Rightarrow> Inl UnknownOptional
                   | Some flds \<Rightarrow> Inr (expand_fields places defaults options flds))"

subsection \<open>Descriptors\<close>

definition one_at :: "bounds \<Rightarrow> 64 word" where
  "one_at r = push_bit (b_min r) 1"

definition parseDescriptor :: "(f64 \<Rightarrow> int) \<Rightarrow> string \<Rightarrow> loc \<Rightarrow> cron_error + schedule" where
  "parseDescriptor plat descriptor l =
     (let spec = \<lparr>s_Second = one_at seconds, s_Minute = one_at minutes, s_Hour = one_at hours,
                  s_Dom = one_at dom_bounds, s_Month = one_at months, s_Dow = all_bits dow, s_Location = l\<rparr>
      in if descriptor = ''@yearly'' \<or> descriptor = ''@annually'' then Inr (Spec spec)
         else if descriptor = ''@monthly'' then Inr (Spec (spec\<lparr>s_Month := all_bits months\<rparr>))
         else if descriptor = ''@weekly''
         then Inr (Spec (spec\<lparr>s_Dom := all_bits dom_bounds, s_Month := all_bits months, s_Dow := one_at dow\<rparr>))
         else if descriptor = ''@daily'' \<or> descriptor = ''@midnight''
         then Inr (Spec (spec\<lparr>s_Dom := all_bits dom_bounds, s_Month := all_bits months\<rparr>))
         else if descriptor = ''@hourly''
         then Inr (Spec (spec\<lparr>s_Hour := all_bits hours, s_Dom := all_bits dom_bounds, s_Month := all_bits months\<rparr>))
         else if HasPrefix descriptor ''@every ''
         then (case ParseDuration plat (drop 7 descriptor) of
                 Inl e \<Rightarrow> Inl (FailedDuration descriptor e)
               | Inr duration \<Rightarrow> Inr (cron_Every duration))
         else Inl (Unrecognized descriptor))"

subsection \<open>Parsing\<close>

text \<open>
  The zone prefix: \<open>spec[eq+1 : i]\<close> is out of range when there is no space after it or the space comes
  before the equals sign.
\<close>

definition parse_zone :: "(string \<Rightarrow> loc option) \<Rightarrow> loc \<Rightarrow> string \<Rightarrow> (loc \<times> string) outcome" where
  "parse_zone load lcl spec =
     (if HasPrefix spec ''TZ='' \<or> HasPrefix spec ''CRON_TZ=''
      then case (Index spec CHR '' '', Index spec CHR ''='') of
             (Some i, Some eq) \<Rightarrow>
               if eq + 1 \<le> i
               then (let name = drop (eq + 1) (take i spec)
                     in case load name of
                          None \<Rightarrow> Err (BadLocation name)
                        | Some l \<Rightarrow> Ok (l, TrimSpace (drop i spec)))
               else Panic ''slice bounds out of range''
           | _ \<Rightarrow> Panic ''slice bounds out of range''
      else Ok (lcl, spec))"

text \<open>The six fields in order; the first error stops the rest.\<close>

definition parse_fields :: "string list \<Rightarrow> loc \<Rightarrow> cron_error + schedule" where
  "parse_fields flds l =
     (case getField (flds ! 0) seconds of Inl e \<Rightarrow> Inl e | Inr second \<Rightarrow>
      case getField (flds ! 1) minutes of Inl e \<Rightarrow> Inl e | Inr minute \<Rightarrow>
      case getField (flds ! 2) hours of Inl e \<Rightarrow> Inl e | Inr hour \<Rightarrow>
      case getField (flds ! 3) dom_bounds of Inl e \<Rightarrow> Inl e | Inr dayofmonth \<Rightarrow>
      case getField (flds ! 4) months of Inl e \<Rightarrow> Inl e | Inr month \<Rightarrow>
      case getField (flds ! 5) dow of Inl e \<Rightarrow> Inl e | Inr dayofweek \<Rightarrow>
        Inr (Spec \<lparr>s_Second = second, s_Minute = minute, s_Hour = hour, s_Dom = dayofmonth,
                   s_Month = month, s_Dow = dayofweek, s_Location = l\<rparr>))"

definition Parse ::
    "(f64 \<Rightarrow> int) \<Rightarrow> (string \<Rightarrow> loc option) \<Rightarrow> loc \<Rightarrow> int \<Rightarrow> string \<Rightarrow> schedule outcome" where
  "Parse plat load lcl options spec =
     (if spec = [] then Err EmptySpec
      else case parse_zone load lcl spec of
        Panic m \<Rightarrow> Panic m
      | Err e \<Rightarrow> Err e
      | Ok (l, spec) \<Rightarrow>
          if HasPrefix spec ''@''
          then (if options AND OptDescriptor = 0 then Err (DescriptorsOff spec)
                else of_sum (parseDescriptor plat spec l))
          else case normalizeFields (Fields spec) options of
                 Inl e \<Rightarrow> Err e
               | Inr flds \<Rightarrow> of_sum (parse_fields flds l))"

definition standard_options :: int where
  "standard_options = OptMinute OR OptHour OR OptDom OR OptMonth OR OptDow OR OptDescriptor"

definition ParseStandard ::
    "(f64 \<Rightarrow> int) \<Rightarrow> (string \<Rightarrow> loc option) \<Rightarrow> loc \<Rightarrow> string \<Rightarrow> schedule outcome" where
  "ParseStandard plat load lcl spec = Parse plat load lcl standard_options spec"

subsection \<open>Bit sets\<close>

lemma getBits_loop_bit:
  assumes "0 < step" and "mx \<le> 62"
  shows "bit (getBits_loop i mx step bits) k \<longleftrightarrow>
    bit bits k \<or> i \<le> k \<and> k \<le> mx \<and> step dvd (k - i)"
  using assms
proof (induction i mx step bits rule: getBits_loop.induct)
  case (1 i mx step bits)
  show ?case
  proof (cases "i \<le> mx")
    case False
    then show ?thesis by (subst getBits_loop.simps) auto
  next
    case True
    have "bit (getBits_loop i mx step bits) k \<longleftrightarrow>
      bit (bits OR push_bit i 1) k \<or> i + step \<le> k \<and> k \<le> mx \<and> step dvd (k - (i + step))"
      using 1 True by (subst getBits_loop.simps) simp
    also have "bit (bits OR push_bit i (1 :: 64 word)) k \<longleftrightarrow> bit bits k \<or> k = i"
      using True 1(3) by (auto simp: bit_simps)
    also have "(bit bits k \<or> k = i) \<or> i + step \<le> k \<and> k \<le> mx \<and> step dvd (k - (i + step))
      \<longleftrightarrow> bit bits k \<or> i \<le> k \<and> k \<le> mx \<and> step dvd (k - i)"
    proof -
      have "step dvd (k - (i + step)) \<longleftrightarrow> step dvd (k - i)" if "i + step \<le> k"
        using that dvd_minus_self [of step "k - i"] by (auto simp: diff_diff_left)
      moreover have "i + step \<le> k" if "i < k" "step dvd (k - i)"
        using dvd_imp_le [OF that(2)] that(1) by simp
      ultimately show ?thesis using True by (cases "k = i"; cases "i + step \<le> k") (auto simp: not_le)
    qed
    finally show ?thesis .
  qed
qed

text \<open>The shifts of the step-one case give the same set as the loop.\<close>

lemma getBits_bit:
  assumes "0 < step" and "mx \<le> 62"
  shows "bit (getBits mn mx step) k \<longleftrightarrow> mn \<le> k \<and> k \<le> mx \<and> step dvd (k - mn)"
proof (cases "step = 1")
  case True
  then show ?thesis using assms by (auto simp: getBits_def bit_simps)
next
  case False
  then show ?thesis using getBits_loop_bit [OF assms, of mn 0 k] by (simp add: getBits_def)
qed

lemma starBit_bit [simp]: "bit starBit k \<longleftrightarrow> k = 63"
  unfolding starBit_def bit_push_bit_iff by (auto simp: bit_1_iff)

text \<open>The bounds that occur, and a set that stays within its bounds (the star bit apart).\<close>

definition field_bounds :: "bounds list" where
  "field_bounds = [seconds, minutes, hours, dom_bounds, months, dow]"

definition bits_within :: "bounds \<Rightarrow> 64 word \<Rightarrow> bool" where
  "bits_within r w \<longleftrightarrow> (\<forall>k < 63. bit w k \<longrightarrow> b_min r \<le> k \<and> k \<le> b_max r)"

lemmas bounds_defs = seconds_def minutes_def hours_def dom_bounds_def months_def dow_def

lemma field_bounds_le: "r \<in> set field_bounds \<Longrightarrow> b_min r \<le> b_max r \<and> b_max r \<le> 59"
  by (auto simp: field_bounds_def bounds_defs)

lemma bits_within_zero [simp]: "bits_within r 0"
  by (simp add: bits_within_def)

lemma bits_within_or: "bits_within r v \<Longrightarrow> bits_within r w \<Longrightarrow> bits_within r (v OR w)"
  by (auto simp: bits_within_def bit_or_iff)

lemma bits_within_star [simp]: "bits_within r starBit"
  by (simp add: bits_within_def)

text \<open>A range that parses: its numbers are in the bounds, the star bit is the extra one.\<close>

lemma getRange_ok:
  assumes "getRange expr r = Inr w" and "b_max r \<le> 59"
  obtains start en step extra where "b_min r \<le> start" "start \<le> en" "en \<le> b_max r" "0 < step"
    "extra = 0 \<or> extra = starBit" "w = getBits start en step OR extra"
proof -
  obtain start en0 extra0 where a: "range_ends expr (Split (Split expr CHR ''/'' ! 0) CHR ''-'') r = Inr (start, en0, extra0)"
    using assms(1) by (fastforce simp: getRange_def Let_def split: sum.splits)
  define sd where "sd = (length (Split (Split expr CHR ''/'' ! 0) CHR ''-'') = 1)"
  obtain en step extra where b: "range_step expr (Split expr CHR ''/'') sd r en0 extra0 = Inr (en, step, extra)"
    using assms(1) a by (fastforce simp: getRange_def Let_def sd_def split: sum.splits)
  have "extra0 = 0 \<or> extra0 = starBit"
    using a by (auto simp: range_ends_def split: if_splits sum.splits)
  then have e: "extra = 0 \<or> extra = starBit"
    using b by (auto simp: range_step_def split: if_splits sum.splits)
  have "\<not> start < b_min r \<and> \<not> en > b_max r \<and> \<not> start > en \<and> step \<noteq> 0 \<and> w = getBits start en step OR extra"
    using assms(1) unfolding getRange_def Let_def sd_def [symmetric] by (simp add: a b split: if_splits)
  then show thesis using that e by (metis not_less bot_nat_0.not_eq_extremum)
qed

lemma getRange_within:
  assumes "getRange expr r = Inr w" and "b_max r \<le> 59"
  shows "bits_within r w" and "\<exists>k. b_min r \<le> k \<and> k \<le> b_max r \<and> bit w k"
proof -
  obtain start en step extra where g: "b_min r \<le> start" "start \<le> en" "en \<le> b_max r" "0 < step"
    "extra = 0 \<or> extra = starBit" "w = getBits start en step OR extra"
    by (rule getRange_ok [OF assms])
  have b: "bit (getBits start en step) k \<longleftrightarrow> start \<le> k \<and> k \<le> en \<and> step dvd (k - start)" for k
    by (rule getBits_bit) (use g assms(2) in simp_all)
  show "bits_within r w" using g b by (auto simp: bits_within_def bit_or_iff)
  show "\<exists>k. b_min r \<le> k \<and> k \<le> b_max r \<and> bit w k"
    using g b by (intro exI [of _ start]) (simp add: bit_or_iff)
qed

lemma getField_loop_within:
  assumes "b_max r \<le> 59"
  shows "getField_loop ranges r bits = Inr w \<Longrightarrow> bits_within r bits \<Longrightarrow> bits_within r w"
proof (induction ranges arbitrary: bits)
  case (Cons expr ranges)
  then obtain b where b: "getRange expr r = Inr b" "getField_loop ranges r (bits OR b) = Inr w"
    by (auto split: sum.splits)
  then show ?case using Cons.IH Cons.prems(2) getRange_within(1) [OF b(1) assms] bits_within_or by blast
qed simp

lemma getField_within: "getField field r = Inr w \<Longrightarrow> b_max r \<le> 59 \<Longrightarrow> bits_within r w"
  by (auto simp: getField_def intro: getField_loop_within)

text \<open>A field with a range in it has a bit in its bounds; one of commas only has none.\<close>

lemma getField_loop_mono: "getField_loop ranges r bits = Inr w \<Longrightarrow> bit bits k \<Longrightarrow> bit w k"
  by (induction ranges arbitrary: bits) (auto split: sum.splits simp: bit_or_iff)

lemma getField_nonempty:
  assumes "getField field r = Inr w" and "b_max r \<le> 59" and "\<exists>c \<in> set field. c \<noteq> CHR '',''"
  shows "\<exists>k. b_min r \<le> k \<and> k \<le> b_max r \<and> bit w k"
proof -
  have "concat (FieldsFunc field (\<lambda>c. c = CHR '','')) \<noteq> []"
    using assms(3) by (auto simp: FieldsFunc_def fields_from_concat filter_empty_conv)
  then obtain expr ranges where f: "FieldsFunc field (\<lambda>c. c = CHR '','') = expr # ranges"
    by (cases "FieldsFunc field (\<lambda>c. c = CHR '','')") auto
  obtain b where b: "getRange expr r = Inr b" "getField_loop ranges r b = Inr w"
    using assms(1) by (auto simp: getField_def f split: sum.splits)
  then show ?thesis using getRange_within(2) [OF b(1) assms(2)] getField_loop_mono by blast
qed

lemma getField_commas: "set field \<subseteq> {CHR '',''} \<Longrightarrow> getField field r = Inr 0"
proof -
  assume "set field \<subseteq> {CHR '',''}"
  then have "fields_from (\<lambda>c. c = CHR '','') None field = []" by (induction field) auto
  then show "getField field r = Inr 0" by (simp add: getField_def FieldsFunc_def)
qed

subsection \<open>A parsed schedule\<close>

definition spec_ok :: "spec_schedule \<Rightarrow> bool" where
  "spec_ok s \<longleftrightarrow> bits_within seconds (s_Second s) \<and> bits_within minutes (s_Minute s) \<and>
     bits_within hours (s_Hour s) \<and> bits_within dom_bounds (s_Dom s) \<and>
     bits_within months (s_Month s) \<and> bits_within dow (s_Dow s)"

fun schedule_ok :: "schedule \<Rightarrow> bool" where
  "schedule_ok (Spec s) \<longleftrightarrow> spec_ok s"
| "schedule_ok (ConstantDelay d) \<longleftrightarrow> Second \<le> d \<and> d \<le> max_i64 \<and> Second dvd d"

lemma one_at_bit: "b_min r \<le> 59 \<Longrightarrow> bit (one_at r) k \<longleftrightarrow> k = b_min r"
  unfolding one_at_def bit_push_bit_iff by (auto simp: bit_1_iff)

lemma one_at_within: "r \<in> set field_bounds \<Longrightarrow> bits_within r (one_at r)"
  using field_bounds_le [of r] one_at_bit [of r] by (simp add: bits_within_def)

lemma all_bits_within: "b_max r \<le> 59 \<Longrightarrow> bits_within r (all_bits r)"
  using getBits_bit [of 1 "b_max r" "b_min r"] by (auto simp: bits_within_def all_bits_def bit_or_iff)

lemma cron_Every_ok: "in_i64 d \<Longrightarrow> schedule_ok (cron_Every d)"
proof -
  assume d: "in_i64 d"
  define e where "e = (if d < Second then Second else d)"
  have e: "1000000000 \<le> e" "e \<le> max_i64" using d by (simp_all add: e_def time_consts in_i64_def)
  define q r where "q = e div 1000000000" and "r = e mod 1000000000"
  have qr: "e = 1000000000 * q + r" "0 \<le> r" "r < 1000000000" by (simp_all add: q_def r_def)
  then have q: "1 \<le> q" using e by linarith
  have "e smod Second = r" using e by (simp add: smod_nonneg time_consts r_def)
  moreover have "i64 (e - r) = e - r" using e qr by (simp add: i64_id in_i64_def)
  ultimately have "cron_Every d = ConstantDelay (1000000000 * q)"
    using qr by (simp add: cron_Every_def e_def [symmetric] Let_def)
  then show ?thesis using q e qr by (simp add: time_consts)
qed

lemma ParseDuration_range: "ParseDuration plat s = Inr d \<Longrightarrow> in_i64 d"
proof -
  have l: "duration_loop plat t e = Inr x \<Longrightarrow> in_i64 e \<Longrightarrow> in_i64 x" for t e x
  proof (induction plat t e rule: duration_loop.induct)
    case (1 plat t e)
    note e = duration_loop.simps [of plat t e]
    show ?case
    proof (cases "t = []")
      case True
      then show ?thesis using 1(2,3) e by simp
    next
      case False
      then obtain v t' where p: "duration_part plat t = Inr (v, t')"
        using 1(2) e by (auto split: sum.splits)
      then show ?thesis using 1(1) [OF False p refl refl] 1(2) False e
        by (auto simp: Let_def split: if_splits)
    qed
  qed
  assume "ParseDuration plat s = Inr d"
  moreover have "in_i64 0" by (simp add: in_i64_def)
  ultimately show "in_i64 d" using l by (auto simp: ParseDuration_def Let_def split: if_splits sum.splits)
qed

lemma parseDescriptor_ok:
  assumes "parseDescriptor plat descriptor l = Inr sched"
  shows "schedule_ok sched"
proof -
  have w: "bits_within seconds (one_at seconds)" "bits_within minutes (one_at minutes)"
    "bits_within hours (one_at hours)" "bits_within dom_bounds (one_at dom_bounds)"
    "bits_within months (one_at months)" "bits_within dow (one_at dow)"
    by (simp_all add: one_at_within field_bounds_def)
  have a: "bits_within hours (all_bits hours)" "bits_within dom_bounds (all_bits dom_bounds)"
    "bits_within months (all_bits months)" "bits_within dow (all_bits dow)"
    by (rule all_bits_within; simp add: bounds_defs)+
  have e: "schedule_ok (cron_Every d)" if "ParseDuration plat s = Inr d" for s d
    using that by (rule cron_Every_ok [OF ParseDuration_range])
  define sp where "sp = \<lparr>s_Second = one_at seconds, s_Minute = one_at minutes, s_Hour = one_at hours,
    s_Dom = one_at dom_bounds, s_Month = one_at months, s_Dow = all_bits dow, s_Location = l\<rparr>"
  have ok: "schedule_ok (Spec sp)" "schedule_ok (Spec (sp\<lparr>s_Month := all_bits months\<rparr>))"
    "schedule_ok (Spec (sp\<lparr>s_Dom := all_bits dom_bounds, s_Month := all_bits months, s_Dow := one_at dow\<rparr>))"
    "schedule_ok (Spec (sp\<lparr>s_Dom := all_bits dom_bounds, s_Month := all_bits months\<rparr>))"
    "schedule_ok (Spec (sp\<lparr>s_Hour := all_bits hours, s_Dom := all_bits dom_bounds, s_Month := all_bits months\<rparr>))"
    using w a by (simp_all add: sp_def spec_ok_def)
  have branch: "schedule_ok sched"
    if "(if P then Inr x else y) = Inr sched" "schedule_ok x" "y = Inr sched \<Longrightarrow> schedule_ok sched"
    for P x and y :: "cron_error + schedule"
    using that by (cases P) simp_all
  note p = assms [unfolded parseDescriptor_def Let_def, folded sp_def]
  show ?thesis
    apply (rule branch [OF p ok(1)])
    apply (erule branch [OF _ ok(2)])
    apply (erule branch [OF _ ok(3)])
    apply (erule branch [OF _ ok(4)])
    apply (erule branch [OF _ ok(5)])
    using e by (auto simp only: if_split_asm sum.split_asm sum.inject sum.distinct split: if_split_asm sum.split_asm)
qed
lemma parse_fields_ok: "parse_fields flds l = Inr sched \<Longrightarrow> schedule_ok sched"
proof -
  assume p: "parse_fields flds l = Inr sched"
  have g: "getField f r = Inr w \<Longrightarrow> r \<in> set field_bounds \<Longrightarrow> bits_within r w" for f r w
    using field_bounds_le [of r] by (intro getField_within) auto
  have b: "seconds \<in> set field_bounds" "minutes \<in> set field_bounds" "hours \<in> set field_bounds"
    "dom_bounds \<in> set field_bounds" "months \<in> set field_bounds" "dow \<in> set field_bounds"
    by (simp_all add: field_bounds_def)
  show ?thesis
    using p unfolding parse_fields_def
    by (simp only: split: sum.split_asm) (auto simp: spec_ok_def dest: g [OF _ b(1)] g [OF _ b(2)] g [OF _ b(3)] g [OF _ b(4)] g [OF _ b(5)] g [OF _ b(6)])
qed

lemma Parse_ok: "Parse plat load lcl options spec = Ok sched \<Longrightarrow> schedule_ok sched"
proof -
  assume p: "Parse plat load lcl options spec = Ok sched"
  have o: "of_sum x = Ok y \<Longrightarrow> x = Inr y" for x :: "cron_error + schedule" and y by (cases x) simp_all
  show ?thesis
    using p parseDescriptor_ok parse_fields_ok
    by (auto simp: Parse_def dest!: o split: if_splits outcome.splits sum.splits)
qed

subsection \<open>Counting fields\<close>

text \<open>Filling in defaults always gives the six fields the parser indexes.\<close>

lemma expand_fields_length:
  "length ps = length ds \<Longrightarrow> length (expand_fields ps ds options flds) = length ps"
  by (induction ps ds options flds rule: expand_fields.induct) auto

lemma normalizeFields_six: "normalizeFields flds options = Inr out \<Longrightarrow> length out = 6"
proof -
  assume "normalizeFields flds options = Inr out"
  then obtain o' fs where "out = expand_fields places defaults o' fs"
    by (auto simp: normalizeFields_def Let_def split: if_splits option.splits)
  then show ?thesis by (simp add: expand_fields_length places_def defaults_def)
qed

subsection \<open>The syntax of a range\<close>

lemma digits_Atoi:
  assumes "digits x" and "num_value 0 x \<le> max_i64"
  shows "Atoi x = Inr (num_value 0 x)"
proof -
  have h: "hd x \<noteq> CHR ''-''" "hd x \<noteq> CHR ''+''" "x \<noteq> []"
    using assms(1) by (cases x; auto simp: digits_def is_digit_def byte_def)+
  then have "int_literal x" "literal_value x = num_value 0 x"
    using assms(1) by (simp_all add: int_literal_def literal_value_def unsigned_part_def digits_def)
  moreover have "0 \<le> num_value 0 x" using num_value_ge [of 0 x] assms(1) by (simp add: digits_def)
  ultimately show ?thesis using assms(2) by (simp add: Atoi_literal in_i64_def)
qed

lemma digits_no_sep:
  assumes "digits x"
  shows "CHR ''/'' \<notin> set x" "CHR ''-'' \<notin> set x" "x \<noteq> ''*''" "x \<noteq> ''?''" "CHR '','' \<notin> set x"
  using assms by (auto simp: digits_def list_all_iff is_digit_def byte_def)

lemma to_lower_digit: "is_digit c \<Longrightarrow> to_lower c = c"
  by (simp add: is_digit_def to_lower_def)

lemma digits_not_name:
  assumes "digits x" and "r \<in> set field_bounds"
  shows "map_of (b_names r) (ToLower x) = None"
proof -
  have "ToLower x = x"
    using assms(1) by (auto simp: ToLower_def digits_def list_all_iff to_lower_digit intro: map_idI)
  moreover have "x \<notin> fst ` set (b_names r)"
  proof
    assume "x \<in> fst ` set (b_names r)"
    then have "\<not> is_digit (hd x)"
      using assms(2) by (auto simp: field_bounds_def bounds_defs is_digit_def byte_def)
    then show False using assms(1) by (cases x) (auto simp: digits_def)
  qed
  ultimately show ?thesis by (simp add: map_of_eq_None_iff)
qed

lemma digits_parse:
  assumes "digits x" and "num_value 0 x \<le> max_i64" and "r \<in> set field_bounds"
  shows "mustParseInt x = Inr (nat (num_value 0 x))" "parseIntOrName x (b_names r) = Inr (nat (num_value 0 x))"
proof -
  have "0 \<le> num_value 0 x" using num_value_ge [of 0 x] assms(1) by (simp add: digits_def)
  then show m: "mustParseInt x = Inr (nat (num_value 0 x))"
    using digits_Atoi [OF assms(1,2)] by (simp add: mustParseInt_def)
  show "parseIntOrName x (b_names r) = Inr (nat (num_value 0 x))"
    using m digits_not_name [OF assms(1,3)] by (simp add: parseIntOrName_def)
qed

lemma getRange_dashed:
  assumes d: "digits x" "digits y" "digits z" and r: "r \<in> set field_bounds"
    and v: "int (b_min r) \<le> num_value 0 x" "num_value 0 x \<le> num_value 0 y" "num_value 0 y \<le> int (b_max r)"
    and z: "0 < num_value 0 z" "num_value 0 z \<le> max_i64"
  shows "getRange (x @ ''-'' @ y @ ''/'' @ z) r =
    Inr (getBits (nat (num_value 0 x)) (nat (num_value 0 y)) (nat (num_value 0 z)))"
proof -
  note b = field_bounds_le [OF r]
  have s1: "Split (x @ ''-'' @ y @ ''/'' @ z) CHR ''/'' = [x @ ''-'' @ y, z]"
    using Split_first [of "CHR ''/''" "x @ ''-'' @ y" z] digits_no_sep(1) d Split_no_sep [of "CHR ''/''" z] by simp
  have s2: "Split (x @ ''-'' @ y) CHR ''-'' = [x, y]"
    using Split_first [of "CHR ''-''" x y] digits_no_sep(2) d Split_no_sep [of "CHR ''-''" y] by simp
  have p: "parseIntOrName x (b_names r) = Inr (nat (num_value 0 x))"
    "parseIntOrName y (b_names r) = Inr (nat (num_value 0 y))" "mustParseInt z = Inr (nat (num_value 0 z))"
    using digits_parse d r v z b by simp_all
  have e: "range_ends (x @ ''-'' @ y @ ''/'' @ z) [x, y] r = Inr (nat (num_value 0 x), nat (num_value 0 y), 0)"
    using digits_no_sep(3,4) [OF d(1)] p by (simp add: range_ends_def)
  have st: "range_step (x @ ''-'' @ y @ ''/'' @ z) [x @ ''-'' @ y, z] False r (nat (num_value 0 y)) 0
      = Inr (nat (num_value 0 y), nat (num_value 0 z), 0)"
    using p by (simp add: range_step_def)
  have c: "\<not> nat (num_value 0 x) < b_min r" "\<not> nat (num_value 0 y) > b_max r"
    "\<not> nat (num_value 0 x) > nat (num_value 0 y)" "nat (num_value 0 z) \<noteq> 0"
    using v z by simp_all
  show ?thesis
    unfolding getRange_def Let_def s1 nth_Cons_0 s2 e using st c by simp
qed

text \<open>What follows the hyphen after a star is not looked at.\<close>

lemma star_hyphen_ignored: "getRange ''*-5'' hours = Inr (all_bits hours)"
  by code_simp

subsection \<open>Properties\<close>

text \<open>C28: a specification that parses gives a schedule whose bit sets stay within the bounds of their fields, or a constant
  delay of a whole number of seconds, at least one; descriptors included.\<close>

theorem parsed_schedule_ok:
  assumes "Parse plat load lcl options spec = Ok sched"
  shows "schedule_ok sched"
  using assms by (rule Parse_ok)

lemma parsed_schedule_ok_witness:
  "schedule_ok (ConstantDelay 5400000000000)"
proof -
  have "Parse amd64_cvt (\<lambda>_. None) UTC standard_options ''@every 1h30m'' = Ok (ConstantDelay 5400000000000)"
    by code_simp
  then show ?thesis by (rule parsed_schedule_ok)
qed

text \<open>A range with a step, \<open>x-y/z\<close> in decimal within the bounds of its field, parses to exactly the numbers from
  \<open>x\<close> to \<open>y\<close> at distances of \<open>z\<close>.\<close>

theorem range_bits:
  assumes "digits x" "digits y" "digits z" and "r \<in> set field_bounds"
    and "int (b_min r) \<le> num_value 0 x" "num_value 0 x \<le> num_value 0 y" "num_value 0 y \<le> int (b_max r)"
    and "0 < num_value 0 z" "num_value 0 z \<le> max_i64"
  shows "\<exists>w. getRange (x @ ''-'' @ y @ ''/'' @ z) r = Inr w \<and>
    (\<forall>k. bit w k \<longleftrightarrow> nat (num_value 0 x) \<le> k \<and> k \<le> nat (num_value 0 y) \<and>
      nat (num_value 0 z) dvd (k - nat (num_value 0 x)))"
proof -
  have "bit (getBits (nat (num_value 0 x)) (nat (num_value 0 y)) (nat (num_value 0 z))) k \<longleftrightarrow>
      nat (num_value 0 x) \<le> k \<and> k \<le> nat (num_value 0 y) \<and> nat (num_value 0 z) dvd (k - nat (num_value 0 x))" for k
    by (rule getBits_bit) (use assms field_bounds_le [OF assms(4)] in simp_all)
  then show ?thesis using getRange_dashed [OF assms] by blast
qed

lemma range_bits_witness:
  "\<exists>w. getRange ''5-17/4'' hours = Inr w \<and> (\<forall>k. bit w k \<longleftrightarrow> 5 \<le> k \<and> k \<le> 17 \<and> 4 dvd (k - 5))"
proof -
  have "digits ''5''" "digits ''17''" "digits ''4''" by code_simp+
  moreover have "num_value 0 ''5'' = 5" "num_value 0 ''17'' = 17" "num_value 0 ''4'' = 4" by code_simp+
  moreover have "hours \<in> set field_bounds" by (simp add: field_bounds_def)
  ultimately show ?thesis
    using range_bits [of "''5''" "''17''" "''4''" hours] by (simp add: hours_def)
qed

text \<open>A field that holds only commas parses without an error to the empty set: the schedule is accepted and never
  fires.\<close>

theorem comma_field_is_empty:
  assumes "set field \<subseteq> {CHR '',''}"
  shows "getField field r = Inr 0"
  using assms by (rule getField_commas)

lemma comma_field_is_empty_witness: "getField '',,'' hours = Inr 0"
  by (rule comma_field_is_empty) simp

text \<open>A specification with a zone prefix and no space after it panics (the slice bounds are out of range) instead of
  giving an error.\<close>

theorem zone_without_space_panics:
  assumes "HasPrefix spec ''TZ='' \<or> HasPrefix spec ''CRON_TZ=''" and "CHR '' '' \<notin> set spec"
  shows "Parse plat load lcl options spec = Panic ''slice bounds out of range''"
proof -
  have "spec \<noteq> []" using assms(1) by (auto simp: HasPrefix_def)
  then show ?thesis using assms Index_None [of spec "CHR '' ''"] by (auto simp: Parse_def parse_zone_def)
qed

lemma zone_without_space_panics_witness:
  "ParseStandard amd64_cvt (\<lambda>_. None) UTC ''TZ=UTC'' = Panic ''slice bounds out of range''"
  unfolding ParseStandard_def by (rule zone_without_space_panics) code_simp+

end
