(* ===== verification/GoCalendar.thy ===== *)
theory GoCalendar
  imports GoTime
begin

text \<open>
  The calendar of package \<open>time\<close> against its specification: the days before a year and a
  month counted directly (\<open>year_start\<close>, \<open>month_start\<close>), the cycle arithmetic of \<open>absDate\<close>
  and \<open>Date\<close> shown equal to it, and the two shown inverse to each other.
\<close>

subsection \<open>The specification\<close>

text \<open>Days from the absolute epoch to January 1 of a year, and to the first of a month.\<close>

definition year_start :: "int \<Rightarrow> int" where
  "year_start year =
     (let y = year - absoluteZeroYear in 365 * y + y div 4 - y div 100 + y div 400)"

definition year_len :: "int \<Rightarrow> int" where
  "year_len year = (if isLeap year then 366 else 365)"

definition month_start :: "int \<Rightarrow> int \<Rightarrow> int" where
  "month_start year month =
     year_start year + days_before (month - 1) + (if isLeap year \<and> 3 \<le> month then 1 else 0)"

definition daysIn :: "int \<Rightarrow> int \<Rightarrow> int" where
  "daysIn m year = (if m = 2 \<and> isLeap year then 29 else days_before m - days_before (m - 1))"

definition valid_date :: "int \<Rightarrow> int \<Rightarrow> int \<Rightarrow> bool" where
  "valid_date y m d \<longleftrightarrow> 1 \<le> m \<and> m \<le> 12 \<and> 1 \<le> d \<and> d \<le> daysIn m y"

definition day_number :: "int \<Rightarrow> int \<Rightarrow> int \<Rightarrow> int" where
  "day_number y m d = month_start y m + d - 1"

subsection \<open>Leap years and year lengths\<close>

lemma smod_eq_0_iff: "a smod (b :: int) = 0 \<longleftrightarrow> b dvd a"
  by (cases "a = 0") (auto simp: smod_int_alt_def sgn_if dvd_eq_mod_eq_0 [symmetric])

lemma isLeap_iff: "isLeap y \<longleftrightarrow> 4 dvd y \<and> (\<not> 100 dvd y \<or> 400 dvd y)"
  by (simp add: isLeap_def smod_eq_0_iff)

lemma int_divI: "0 < k \<Longrightarrow> k * q \<le> n \<Longrightarrow> n < k * q + k \<Longrightarrow> n div k = (q :: int)"
  by (rule int_div_pos_eq [where r = "n - k * q"]) simp_all

lemma div_mod_succ:
  fixes k n :: int
  assumes k: "0 < k"
  shows div_succ: "(n + 1) div k = n div k + (if k dvd n + 1 then 1 else 0)"
    and dvd_succ_iff: "k dvd n + 1 \<longleftrightarrow> n mod k = k - 1"
proof -
  have n: "n = k * (n div k) + n mod k" and b: "0 \<le> n mod k" "n mod k < k" using k by simp_all
  have "(n + 1) div k = n div k + (if k dvd n + 1 then 1 else 0) \<and> (k dvd n + 1 \<longleftrightarrow> n mod k = k - 1)"
  proof (cases "n mod k + 1 = k")
    case True
    then have "n + 1 = k * (n div k) + k" using n by linarith
    then have e: "n + 1 = k * (n div k + 1)" by (simp add: distrib_left)
    have "k dvd n + 1" unfolding e by simp
    moreover have "(n + 1) div k = n div k + 1" unfolding e using k by simp
    ultimately show ?thesis using True by simp
  next
    case False
    then have r: "0 \<le> n mod k + 1" "n mod k + 1 < k" using b by auto
    have e: "n + 1 = k * (n div k) + (n mod k + 1)" using n by linarith
    have "(n + 1) div k = n div k" "(n + 1) mod k = n mod k + 1"
      using int_div_pos_eq [OF e r] int_mod_pos_eq [OF e r] by simp_all
    then show ?thesis using r False b by (simp add: dvd_eq_mod_eq_0)
  qed
  then show "(n + 1) div k = n div k + (if k dvd n + 1 then 1 else 0)"
    "k dvd n + 1 \<longleftrightarrow> n mod k = k - 1" by blast+
qed

lemma dvd_epoch: "k dvd 292277022400 \<Longrightarrow> k dvd y + 292277022400 \<longleftrightarrow> k dvd (y :: int)"
  by (simp add: dvd_add_left_iff)

lemma year_start_Suc: "year_start (y + 1) = year_start y + year_len y"
proof -
  define z where "z = y + 292277022399"
  define p4 p100 p400 where "p4 \<longleftrightarrow> 4 dvd y" and "p100 \<longleftrightarrow> 100 dvd y" and "p400 \<longleftrightarrow> 400 dvd y"
  have z: "z + 1 = y + 292277022400" by (simp add: z_def)
  have d: "(4 dvd z + 1) = p4" "(100 dvd z + 1) = p100" "(400 dvd z + 1) = p400"
    unfolding z p4_def p100_def p400_def by (rule dvd_epoch, simp)+
  have imp: "p100 \<Longrightarrow> p4" "p400 \<Longrightarrow> p100"
    unfolding p4_def p100_def p400_def by (simp_all add: dvd_trans [of 4 100 y] dvd_trans [of 100 400 y])
  have a: "year_start (y + 1) = 365 * (z + 1) + (z + 1) div 4 - (z + 1) div 100 + (z + 1) div 400"
    by (simp add: year_start_def z_def time_consts Let_def)
  have b: "year_start y = 365 * z + z div 4 - z div 100 + z div 400"
    by (simp add: year_start_def z_def time_consts Let_def)
  have l: "year_len y = (if p4 \<and> (\<not> p100 \<or> p400) then 366 else 365)"
    by (simp add: year_len_def isLeap_iff p4_def p100_def p400_def)
  have s: "(z + 1) div 4 = z div 4 + (if p4 then 1 else 0)"
    "(z + 1) div 100 = z div 100 + (if p100 then 1 else 0)"
    "(z + 1) div 400 = z div 400 + (if p400 then 1 else 0)"
    using div_succ [of 4 z] div_succ [of 100 z] div_succ [of 400 z] by (simp_all only: d)
  show ?thesis
    unfolding a b l s using imp by (cases p4; cases p100; cases p400) simp_all
qed

lemma year_len_bounds: "365 \<le> year_len y" "year_len y \<le> 366"
  by (simp_all add: year_len_def)

lemma year_start_mono: "y \<le> z \<Longrightarrow> year_start y \<le> year_start z"
proof (induction z rule: int_ge_induct)
  case (step z)
  then show ?case using year_start_Suc [of z] year_len_bounds(1) [of z] by linarith
qed simp

lemma year_start_less: "y < z \<Longrightarrow> year_start y + year_len y \<le> year_start z"
  using year_start_mono [of "y + 1" z] year_start_Suc [of y] by simp

lemma year_start_epoch: "year_start absoluteZeroYear = 0"
  by (simp add: year_start_def)

lemma year_start_nonneg: "absoluteZeroYear \<le> y \<Longrightarrow> 0 \<le> year_start y"
  using year_start_mono [of absoluteZeroYear y] year_start_epoch by simp

subsection \<open>The cycles of \<open>absDate\<close>\<close>

text \<open>A year in its 400, 100 and 4-year cycles.\<close>

lemma cycle_divs:
  fixes a b c e :: int
  assumes "0 \<le> b" "b < 4" "0 \<le> c" "c < 25" "0 \<le> e" "e < 4"
  defines "z \<equiv> 400 * a + 100 * b + 4 * c + e"
  shows "z div 4 = 100 * a + 25 * b + c" "z div 100 = 4 * a + b" "z div 400 = a"
    "z mod 4 = e" "z mod 100 = 4 * c + e" "z mod 400 = 100 * b + 4 * c + e"
proof -
  show d: "z div 4 = 100 * a + 25 * b + c" "z div 100 = 4 * a + b" "z div 400 = a"
    using assms by (auto intro!: int_divI)
  show "z mod 4 = e" "z mod 100 = 4 * c + e" "z mod 400 = 100 * b + 4 * c + e"
    unfolding minus_div_mult_eq_mod [symmetric] d by (simp_all add: z_def)
qed

lemma year_start_cycles:
  assumes "0 \<le> b" "b < 4" "0 \<le> c" "c < 25" "0 \<le> e" "e < (4 :: int)"
  shows "year_start (400 * a + 100 * b + 4 * c + e + absoluteZeroYear) =
         146097 * a + 36524 * b + 1461 * c + 365 * e"
  by (simp add: year_start_def Let_def cycle_divs(1-3) [OF assms])

lemma isLeap_cycles:
  assumes "0 \<le> b" "b < 4" "0 \<le> c" "c < 25" "0 \<le> e" "e < (4 :: int)"
  shows "isLeap (400 * a + 100 * b + 4 * c + e + absoluteZeroYear) \<longleftrightarrow> e = 3 \<and> (c \<noteq> 24 \<or> b = 3)"
proof -
  define z where "z = 400 * a + 100 * b + 4 * c + e"
  have y: "z + absoluteZeroYear + 292277022400 = z + 1" by (simp add: time_consts)
  have d: "k dvd z + absoluteZeroYear \<longleftrightarrow> k dvd z + 1" if "k dvd 292277022400" for k
    using dvd_epoch [OF that, of "z + absoluteZeroYear"] unfolding y by simp
  have "4 dvd z + 1 \<longleftrightarrow> e = 3" "100 dvd z + 1 \<longleftrightarrow> 4 * c + e = 99"
    "400 dvd z + 1 \<longleftrightarrow> 100 * b + 4 * c + e = 399"
    using cycle_divs(4-6) [OF assms, of a] by (simp_all add: dvd_succ_iff z_def)
  moreover have c: "4 * c + e = 99 \<longleftrightarrow> c = 24 \<and> e = 3"
  proof
    assume h: "4 * c + e = 99"
    then have "c = 24" using assms by arith
    then show "c = 24 \<and> e = 3" using h by simp
  qed simp
  moreover have "100 * b + 4 * c + e = 399 \<longleftrightarrow> b = 3 \<and> c = 24 \<and> e = 3"
  proof
    assume h: "100 * b + 4 * c + e = 399"
    then have "b = 3" using assms by arith
    then show "b = 3 \<and> c = 24 \<and> e = 3" using h c by simp
  qed simp
  ultimately show ?thesis
    unfolding z_def [symmetric] isLeap_iff by (simp add: d) blast
qed

text \<open>The quotients \<open>absDate\<close> cuts off, with the last partial cycle cut back to 3.\<close>

lemma cut_cycle:
  assumes "0 \<le> d" "d \<le> 4 * (k :: int)" "1 < k"
  defines "n \<equiv> d div k - (d div k) div 4"
  shows "0 \<le> n" "n < 4" "0 \<le> d - k * n" "d - k * n \<le> k"
    "n < 3 \<Longrightarrow> d - k * n < k" "d < 4 * k \<Longrightarrow> d - k * n < k"
proof -
  have q: "0 \<le> d div k" "d div k \<le> 4" and r: "d = k * (d div k) + d mod k" "0 \<le> d mod k" "d mod k < k"
    using assms zdiv_mono1 [of d "4 * k" k] by (simp_all add: pos_imp_zdiv_nonneg_iff)
  define q m where "q = d div k" and "m = d mod k"
  have q': "0 \<le> q" "q \<le> 4" and d: "d = k * q + m" and m: "0 \<le> m" "m < k"
    using q r by (simp_all add: q_def m_def)
  have n: "n = q - q div 4" by (simp add: n_def q_def)
  have "0 \<le> n \<and> n < 4 \<and> 0 \<le> d - k * n \<and> d - k * n \<le> k \<and>
      (n < 3 \<longrightarrow> d - k * n < k) \<and> (d < 4 * k \<longrightarrow> d - k * n < k)"
  proof (cases "q = 4")
    case True
    then have "m = 0" using assms(2) d m by simp
    then show ?thesis using True n d assms(3) by simp
  next
    case False
    then have "n = q" using q' n by simp
    then show ?thesis using False q' d m by simp
  qed
  then show "0 \<le> n" "n < 4" "0 \<le> d - k * n" "d - k * n \<le> k"
    "n < 3 \<Longrightarrow> d - k * n < k" "d < 4 * k \<Longrightarrow> d - k * n < k" by blast+
qed

definition in_abs :: "int \<Rightarrow> bool" where
  "in_abs ab \<longleftrightarrow> 0 \<le> ab \<and> ab < 2 ^ 64"

lemma in_abs_days:
  assumes "in_abs ab"
  shows "0 \<le> ab div 86400" "ab div 86400 \<le> 213503982334601"
proof -
  have "ab \<le> 18446744073709551615" using assms by (simp add: in_abs_def)
  then have "ab div 86400 \<le> 18446744073709551615 div 86400" by (rule zdiv_mono1) simp
  then show "ab div 86400 \<le> 213503982334601" by simp
  show "0 \<le> ab div 86400" using assms by (simp add: in_abs_def pos_imp_zdiv_nonneg_iff)
qed

lemma days_consts:
  "daysPer400Years = 146097" "daysPer100Years = 36524" "daysPer4Years = 1461"
  "secondsPerDay = 86400" "secondsPerHour = 3600" "secondsPerMinute = 60" "secondsPerWeek = 604800"
  by (simp_all add: time_consts)

lemma absDate_year_correct:
  assumes "absDate_year ab = (year, yday)" and "in_abs ab"
  shows "year_start year + yday = ab div 86400" and "0 \<le> yday" and "yday < year_len year"
    and "absoluteZeroYear \<le> year"
proof -
  define D where "D = ab div 86400"
  define a where "a = D div 146097"
  define d1 where "d1 = D - 146097 * a"
  define b where "b = d1 div 36524 - (d1 div 36524) div 4"
  define d2 where "d2 = d1 - 36524 * b"
  define c where "c = d2 div 1461"
  define d3 where "d3 = d2 - 1461 * c"
  define e where "e = d3 div 365 - (d3 div 365) div 4"
  define d4 where "d4 = d3 - 365 * e"
  define y where "y = 400 * a + 100 * b + 4 * c + e"
  have D: "0 \<le> D" "D \<le> 213503982334601" using in_abs_days [OF assms(2)] by (simp_all add: D_def)
  have d1m: "d1 = D mod 146097" unfolding d1_def a_def by (rule minus_mult_div_eq_mod)
  have d1: "0 \<le> d1" "d1 < 146097" unfolding d1m by simp_all
  have "D div 146097 \<le> 213503982334601 div 146097" using D(2) by (rule zdiv_mono1) simp
  then have a: "0 \<le> a" "a \<le> 1461385123"
    using D by (simp_all add: a_def pos_imp_zdiv_nonneg_iff)
  have b: "0 \<le> b" "b < 4" "0 \<le> d2" "d2 \<le> 36524" "b < 3 \<Longrightarrow> d2 < 36524"
  proof -
    have h: "0 \<le> d1" "d1 \<le> 4 * 36524" "1 < (36524 :: int)" using d1 by simp_all
    show "0 \<le> b" "b < 4" "0 \<le> d2" "d2 \<le> 36524" "b < 3 \<Longrightarrow> d2 < 36524"
      unfolding d2_def b_def by (rule cut_cycle [OF h], assumption?)+
  qed
  have c: "0 \<le> c" "c < 25" "0 \<le> d3" "d3 < 1461" "d3 = d2 mod 1461"
  proof -
    have "d2 div 1461 \<le> 36524 div 1461" using b(4) by (rule zdiv_mono1) simp
    then show "c < 25" by (simp add: c_def)
    show "0 \<le> c" using b(3) by (simp add: c_def pos_imp_zdiv_nonneg_iff)
    show m: "d3 = d2 mod 1461" unfolding d3_def c_def by (rule minus_mult_div_eq_mod)
    show "0 \<le> d3" "d3 < 1461" by (simp_all add: m)
  qed
  have d3: "c = 24 \<Longrightarrow> b < 3 \<Longrightarrow> d3 < 1460" using b c by (simp add: d3_def)
  have e: "0 \<le> e" "e < 4" "0 \<le> d4" "d4 \<le> 365" "e < 3 \<Longrightarrow> d4 < 365" "d3 < 1460 \<Longrightarrow> d4 < 365"
  proof -
    have h: "0 \<le> d3" "d3 \<le> 4 * 365" "1 < (365 :: int)" using c by simp_all
    show "0 \<le> e" "e < 4" "0 \<le> d4" "d4 \<le> 365" "e < 3 \<Longrightarrow> d4 < 365"
      unfolding d4_def e_def by (rule cut_cycle [OF h], assumption?)+
    show "d3 < 1460 \<Longrightarrow> d4 < 365"
      unfolding d4_def e_def by (rule cut_cycle(6) [OF h]) simp
  qed
  have "absDate_year ab = (i64 (y + absoluteZeroYear), d4)"
    unfolding absDate_year_def days_consts
    by (simp only: Let_def D_def [symmetric] a_def [symmetric] d1_def [symmetric] b_def [symmetric]
        d2_def [symmetric] c_def [symmetric] d3_def [symmetric] e_def [symmetric] d4_def [symmetric]
        y_def [symmetric])
  then have yv: "year = i64 (y + absoluteZeroYear)" "yday = d4" using assms(1) by simp_all
  have "in_i64 (y + absoluteZeroYear)"
    using a b c e by (simp add: in_i64_def y_def time_consts)
  then have year: "year = y + absoluteZeroYear" using yv by (simp add: i64_id)
  have ys: "year_start year = 146097 * a + 36524 * b + 1461 * c + 365 * e"
    unfolding year y_def using b c e by (intro year_start_cycles) simp_all
  have leap: "isLeap year \<longleftrightarrow> e = 3 \<and> (c \<noteq> 24 \<or> b = 3)"
    unfolding year y_def using b c e by (intro isLeap_cycles) simp_all
  show "year_start year + yday = ab div 86400"
    using ys yv by (simp add: d4_def d3_def d2_def d1_def D_def)
  show "0 \<le> yday" using e yv by simp
  show "yday < year_len year"
  proof (cases "isLeap year")
    case True then show ?thesis using e yv by (simp add: year_len_def)
  next
    case False
    then have "e < 3 \<or> d3 < 1460" using leap b c e d3 by linarith
    then show ?thesis using False e yv by (auto simp: year_len_def)
  qed
  show "absoluteZeroYear \<le> year" using a b c e by (simp add: year y_def)
qed

subsection \<open>Months\<close>

text \<open>Days of the year before a month, and its length, in a common or leap year.\<close>

definition mstart :: "bool \<Rightarrow> int \<Rightarrow> int" where
  "mstart leap m = days_before (m - 1) + (if leap \<and> 3 \<le> m then 1 else 0)"

definition mlen :: "bool \<Rightarrow> int \<Rightarrow> int" where
  "mlen leap m = (if m = 2 \<and> leap then 29 else days_before m - days_before (m - 1))"

lemma month_start_mstart: "month_start y m = year_start y + mstart (isLeap y) m"
  by (simp add: month_start_def mstart_def)

lemma daysIn_mlen: "daysIn m y = mlen (isLeap y) m"
  by (simp add: daysIn_def mlen_def)

lemma month_cases:
  assumes "1 \<le> m" "m \<le> (12 :: int)"
  shows "m \<in> set [1..12]"
  using assms by simp

lemma month_table:
  "list_all (\<lambda>m. mstart b m + mlen b m = mstart b (m + 1) \<and> 28 \<le> mlen b m \<and> mlen b m \<le> 31) [1..12]"
proof (cases b)
  case True
  then have b: "b = True" by simp
  show ?thesis unfolding b by code_simp
next
  case False
  then have b: "b = False" by simp
  show ?thesis unfolding b by code_simp
qed

lemma mstart_Suc: "1 \<le> m \<Longrightarrow> m \<le> 12 \<Longrightarrow> mstart b (m + 1) = mstart b m + mlen b m"
  using month_table [of b] month_cases [of m] unfolding list_all_iff by metis

lemma mlen_bounds: "1 \<le> m \<Longrightarrow> m \<le> 12 \<Longrightarrow> 28 \<le> mlen b m \<and> mlen b m \<le> 31"
  using month_table [of b] month_cases [of m] unfolding list_all_iff by metis

lemma mstart_1: "mstart b 1 = 0"
  by (simp add: mstart_def days_before_def daysBefore_def)

lemma mstart_13: "mstart b 13 = (if b then 366 else 365)"
  by (simp add: mstart_def days_before_def daysBefore_def)

lemma mstart_mono:
  assumes "1 \<le> m" "m < n" "n \<le> 13"
  shows "mstart b m + mlen b m \<le> mstart b n"
  using assms(2,3)
proof (induction n rule: int_gr_induct)
  case base
  then show ?case using assms(1) mstart_Suc [of m b] by simp
next
  case (step n)
  then show ?case using assms(1) mstart_Suc [of n b] mlen_bounds [of n b] by simp
qed

lemma date_table:
  "list_all (\<lambda>d. case absDate_full b d of (m, dd) \<Rightarrow>
      1 \<le> m \<and> m \<le> 12 \<and> 1 \<le> dd \<and> dd \<le> mlen b m \<and> mstart b m + dd - 1 = d)
    (if b then [0..365] else [0..364])"
proof (cases b)
  case True
  then have b: "b = True" by simp
  show ?thesis unfolding b by code_simp
next
  case False
  then have b: "b = False" by simp
  show ?thesis unfolding b by code_simp
qed

lemma absDate_full_correct:
  assumes "absDate_full b d = (m, dd)" and "0 \<le> d" and "d < (if b then 366 else 365)"
  shows "1 \<le> m" "m \<le> 12" "1 \<le> dd" "dd \<le> mlen b m" "mstart b m + dd - 1 = d"
proof -
  have mem: "d \<in> set (if b then [0..365] else [0..364])" using assms(2,3) by auto
  have "case absDate_full b d of (m, dd) \<Rightarrow>
      1 \<le> m \<and> m \<le> 12 \<and> 1 \<le> dd \<and> dd \<le> mlen b m \<and> mstart b m + dd - 1 = d"
    using date_table [of b] unfolding list_all_iff by (rule bspec) (rule mem)
  then show "1 \<le> m" "m \<le> 12" "1 \<le> dd" "dd \<le> mlen b m" "mstart b m + dd - 1 = d"
    using assms(1) by simp_all
qed

text \<open>\<open>absDate\<close> gives the valid date with the day number of the absolute time.\<close>

lemma absDate_correct:
  assumes "absDate ab True = (y, m, d, yd)" and "in_abs ab"
  shows "valid_date y m d" "day_number y m d = ab div 86400" "absoluteZeroYear \<le> y"
    "yd = ab div 86400 - year_start y"
proof -
  obtain y' yd' where yy: "absDate_year ab = (y', yd')" by (cases "absDate_year ab")
  note c = absDate_year_correct [OF yy assms(2)]
  obtain m' d' where md: "absDate_full (isLeap y') yd' = (m', d')" by (cases "absDate_full (isLeap y') yd'")
  have eq: "y = y'" "m = m'" "d = d'" "yd = yd'" using assms(1) by (simp_all add: absDate_def yy md)
  have "yd' < (if isLeap y' then 366 else 365)" using c(3) by (simp add: year_len_def)
  note f = absDate_full_correct [OF md c(2) this]
  show "valid_date y m d" using f by (simp add: valid_date_def daysIn_mlen eq)
  show "day_number y m d = ab div 86400"
    using f c(1) by (simp add: day_number_def month_start_mstart eq)
  show "absoluteZeroYear \<le> y" using c(4) by (simp add: eq)
  show "yd = ab div 86400 - year_start y" using c(1) by (simp add: eq)
qed

lemma absDate_year_part: "fst (absDate ab False) = fst (absDate ab True)"
  by (simp add: absDate_def split: prod.split)

subsection \<open>A day number has one date\<close>

lemma month_start_less:
  assumes "1 \<le> m" "m \<le> 12" "1 \<le> n" "n \<le> 12" and "y < z \<or> y = z \<and> m < n"
  shows "month_start y m + daysIn m y \<le> month_start z n"
proof -
  have year_end: "month_start y m + daysIn m y \<le> year_start y + year_len y"
    using mstart_mono [of m 13 "isLeap y"] assms(1,2)
    by (simp add: month_start_mstart daysIn_mlen year_len_def mstart_13)
  have "0 \<le> mstart (isLeap z) n"
    using mstart_mono [of 1 n "isLeap z"] mlen_bounds [of 1 "isLeap z"] assms(3,4)
    by (cases "n = 1") (simp_all add: mstart_1)
  then have z: "year_start z \<le> month_start z n" by (simp add: month_start_mstart)
  show ?thesis using assms(5)
  proof
    assume "y < z"
    then show ?thesis using year_start_less [of y z] year_end z by linarith
  next
    assume "y = z \<and> m < n"
    then show ?thesis
      using mstart_mono [of m n "isLeap y"] assms by (simp add: month_start_mstart daysIn_mlen)
  qed
qed

lemma day_number_less:
  assumes "valid_date y m d" "valid_date y' m' d'" and "y < y' \<or> y = y' \<and> m < m'"
  shows "day_number y m d < day_number y' m' d'"
  using assms month_start_less [of m m' y y'] by (auto simp: valid_date_def day_number_def)

lemma day_number_inj:
  assumes "valid_date y m d" "valid_date y' m' d'" and "day_number y m d = day_number y' m' d'"
  shows "y = y' \<and> m = m' \<and> d = d'"
proof -
  have "\<not> (y < y' \<or> y = y' \<and> m < m')" "\<not> (y' < y \<or> y' = y \<and> m' < m)"
    using day_number_less [OF assms(1,2)] day_number_less [OF assms(2,1)] assms(3) by auto
  then have "y = y'" "m = m'" by auto
  then show ?thesis using assms(3) by (simp add: day_number_def)
qed

text \<open>\<open>Date\<close> counts the days the way the specification does.\<close>

lemma Date_days_correct:
  assumes "absoluteZeroYear \<le> y" "y \<le> 292277022400"
  shows "Date_days y m d = day_number y m d"
proof -
  define z where "z = y - absoluteZeroYear"
  define a r1 where "a = z div 400" and "r1 = z mod 400"
  define b r2 where "b = r1 div 100" and "r2 = r1 mod 100"
  define c e where "c = r2 div 4" and "e = r2 mod 4"
  have z: "0 \<le> z" "z < 2 ^ 63" using assms by (simp_all add: z_def time_consts)
  have m: "z - 400 * a = r1" "r1 - 100 * b = r2" "r2 - 4 * c = e"
    unfolding a_def b_def c_def e_def r1_def r2_def by (rule minus_mult_div_eq_mod)+
  have zz: "z = 400 * a + 100 * b + 4 * c + e" using m by linarith
  have r: "0 \<le> r1" "r1 < 400" "0 \<le> r2" "r2 < 100" "0 \<le> e" "e < 4"
    unfolding r1_def r2_def e_def by simp_all
  have bc: "0 \<le> b" "b < 4" "0 \<le> c" "c < 25" "0 \<le> e" "e < 4"
    using m r by linarith+
  have u: "u64 (i64 (y - absoluteZeroYear)) = z" using z by (simp add: z_def [symmetric] u64_id)
  have ys: "year_start y = 146097 * a + 36524 * b + 1461 * c + 365 * e"
  proof -
    have "y = 400 * a + 100 * b + 4 * c + e + absoluteZeroYear" using zz by (simp add: z_def)
    then show ?thesis using year_start_cycles [OF bc, of a] by simp
  qed
  show ?thesis
    unfolding Date_days_def Let_def u days_consts
    by (simp only: a_def [symmetric] m b_def [symmetric] c_def [symmetric])
      (simp add: day_number_def month_start_def ys)
qed

subsection \<open>Instants in a zone of fixed offset\<close>

text \<open>UTC, or what \<open>FixedZone\<close> builds.\<close>

definition fixed_loc :: "loc \<Rightarrow> int \<Rightarrow> bool" where
  "fixed_loc l off \<longleftrightarrow> \<bar>off\<bar> \<le> 2 ^ 31 \<and> (l = UTC \<and> off = 0 \<or> (\<exists>n. l = FixedZone n off))"

lemma fixed_locE:
  assumes "fixed_loc l off"
  obtains "l = UTC" "off = 0" | n where "l = FixedZone n off"
  using assms by (auto simp: fixed_loc_def)

definition time_ok :: "gtime \<Rightarrow> bool" where
  "time_ok t \<longleftrightarrow> \<bar>tsec t\<bar> \<le> 2 ^ 62"

lemma time_numbers:
  "absoluteToInternal = - 9223371966579724800" "unixToInternal = 62135596800"
  "absoluteZeroYear = - 292277022399"
  by (simp_all add: time_consts)

lemma fixed_lookup:
  assumes "fixed_loc l off" and "in_i64 s"
  shows "\<exists>n e. loc_lookup (loc_get l) s = (n, off, alpha, e) \<and> e = omega"
  using assms(1)
proof (cases rule: fixed_locE)
  case 1
  then show ?thesis by (simp add: loc_lookup_def utcLoc_def)
next
  case (2 n)
  show ?thesis
  proof (cases "s < omega")
    case True
    then show ?thesis using assms(2)
      by (simp add: 2 FixedZone_def loc_lookup_def Let_def alpha_def in_i64_def)
  next
    case False
    have "tx_search [\<lparr>tx_when = alpha, tx_index = 0\<rparr>] s 0 1 omega = (0, omega)"
      by (subst tx_search.simps) simp
    then show ?thesis using assms(2) False
      by (simp add: 2 FixedZone_def loc_lookup_def Let_def alpha_def in_i64_def not_less)
  qed
qed

lemma fixed_lookup_offset: "fixed_loc l off \<Longrightarrow> in_i64 s \<Longrightarrow> lookup_offset (loc_get l) s = off"
  using fixed_lookup [of l off s] by (auto simp: lookup_offset_def)

lemma fixed_abs_offset:
  assumes "fixed_loc (tloc t) off"
  shows "abs_offset t = off"
  using assms
proof (cases rule: fixed_locE)
  case 1
  then show ?thesis by (simp add: abs_offset_def)
next
  case (2 n)
  have "lookup_offset (loc_get (tloc t)) (unixSec t) = off"
    using assms by (rule fixed_lookup_offset) (simp add: unixSec_def)
  then show ?thesis by (auto simp: abs_offset_def 2 FixedZone_def Let_def)
qed

text \<open>The absolute time of an instant, without wrap-around.\<close>

definition abs_of :: "gtime \<Rightarrow> int \<Rightarrow> int" where
  "abs_of t off = tsec t + off - absoluteToInternal"

lemma Time_abs_fixed:
  assumes "fixed_loc (tloc t) off" and "time_ok t"
  shows "Time_abs t = abs_of t off" and "in_abs (abs_of t off)"
proof -
  have o: "\<bar>off\<bar> \<le> 2147483648" using assms(1) by (simp add: fixed_loc_def)
  have s: "\<bar>tsec t\<bar> \<le> 4611686018427387904" using assms(2) by (simp add: time_ok_def)
  show in_abs: "in_abs (abs_of t off)"
    using o s unfolding in_abs_def abs_of_def time_numbers abs_le_iff by simp
  have "Time_abs t = u64 (tsec t - unixToInternal + off + (unixToInternal - absoluteToInternal))"
    unfolding Time_abs_def fixed_abs_offset [OF assms(1)] unixSec_def by (simp only: i64_add_i64 u64_add_i64)
  also have "tsec t - unixToInternal + off + (unixToInternal - absoluteToInternal) = abs_of t off"
    by (simp add: abs_of_def)
  finally have "Time_abs t = u64 (abs_of t off)" .
  then show "Time_abs t = abs_of t off"
    using in_abs by (simp add: u64_id in_abs_def)
qed

lemma norm_id: "0 \<le> lo \<Longrightarrow> lo < base \<Longrightarrow> norm hi lo base = (hi, lo)"
  by (simp add: norm_def)

lemma norm_month_13: "\<bar>y\<bar> \<le> 2 ^ 62 \<Longrightarrow> norm y 12 12 = (y + 1, 0)"
  by (simp add: norm_def i64_id in_i64_def abs_le_iff)

text \<open>A month number from 1 to 13; 13 is January of the next year.\<close>

definition next_norm :: "int \<Rightarrow> int \<Rightarrow> int \<times> int" where
  "next_norm y m = (if m = 13 then (y + 1, 1) else (y, m))"

lemma Date_fixed:
  fixes y m d h mi s ns off :: int
  assumes l: "fixed_loc l off"
    and m: "1 \<le> m" "m \<le> 13" "next_norm y m = (y', m')"
    and d: "1 \<le> d" "d \<le> 32" and h: "0 \<le> h" "h < 24" and mi: "0 \<le> mi" "mi < 60"
    and s: "0 \<le> s" "s < 60" and ns: "0 \<le> ns" "ns < 1000000000"
    and y: "absoluteZeroYear \<le> y'" "y' \<le> 146138511199"
  defines "a \<equiv> day_number y' m' d * 86400 + (h * 3600 + mi * 60 + s)"
  assumes a: "\<bar>a + absoluteToInternal\<bar> \<le> 2 ^ 62"
  shows "Date y m d h mi s ns l = \<lparr>tsec = a + absoluteToInternal - off, tnsec = ns, tmono = None, tloc = l\<rparr>"
proof -
  have o: "\<bar>off\<bar> \<le> 2147483648" using l by (simp add: fixed_loc_def)
  have yb: "\<bar>y\<bar> \<le> 2 ^ 62" using m y by (auto simp: next_norm_def time_numbers split: if_splits)
  have nm: "norm y (i64 (m - 1)) 12 = (y', m' - 1)"
    using m yb by (auto simp: next_norm_def i64_id in_i64_def norm_id norm_month_13 split: if_splits)
  have days: "Date_days y' m' d = day_number y' m' d" using y by (intro Date_days_correct) simp_all
  define u where "u = a + absoluteToInternal - unixToInternal"
  have ab: "u64 a = a" using a by (simp add: u64_id time_numbers)
  have u: "in_i64 u" "in_i64 (u - off)" using a o by (simp_all add: u_def in_i64_def time_numbers)
  have iu: "i64 (a + (absoluteToInternal - unixToInternal)) = u"
    using u(1) by (simp add: u_def i64_id algebra_simps)
  obtain n where lk: "loc_lookup (loc_get l) u = (n, off, alpha, omega)"
    using fixed_lookup [OF l u(1)] by blast
  have om: "lookup_offset (loc_get l) omega = off"
    using l by (rule fixed_lookup_offset) (simp add: omega_def in_i64_def)
  have al: "\<not> u - off < alpha" using u(2) by (simp add: alpha_def in_i64_def)
  have fin: "i64 (u - off + unixToInternal) = a + absoluteToInternal - off"
    using a o by (simp add: u_def i64_id in_i64_def time_numbers)
  have fin0: "off = 0 \<Longrightarrow> i64 (u + unixToInternal) = a + absoluteToInternal"
    using fin by simp
  show ?thesis
    using fin fin0 unfolding Date_def Let_def nm
    by (simp add: norm_id h mi s ns days days_consts a_def [symmetric] ab iu lk u i64_id om al)
qed

subsection \<open>The range of the day numbers\<close>

lemma year_start_bounds:
  assumes "absoluteZeroYear \<le> y"
  shows "365 * (y - absoluteZeroYear) \<le> year_start y" and "year_start y \<le> 366 * (y - absoluteZeroYear)"
proof -
  define z a b c where "z = y - absoluteZeroYear" and "a = z div 4" and "b = z div 100" and "c = z div 400"
  have z: "0 \<le> z" using assms by (simp add: z_def)
  have "b \<le> a" "4 * a \<le> z" "400 * c \<le> z" "0 \<le> c" "c \<le> b" "0 \<le> a" "0 \<le> b"
    using z by (simp_all add: a_def b_def c_def zdiv_mono2)
  moreover have "year_start y = 365 * z + a - b + c"
    unfolding year_start_def Let_def z_def a_def b_def c_def by simp
  ultimately show "365 * (y - absoluteZeroYear) \<le> year_start y" "year_start y \<le> 366 * (y - absoluteZeroYear)"
    unfolding z_def [symmetric] by linarith+
qed

text \<open>Years within a hundred billion of the epoch stay well inside the 64-bit seconds.\<close>

definition year_ok :: "int \<Rightarrow> bool" where
  "year_ok y \<longleftrightarrow> \<bar>y\<bar> \<le> 100000000000"

lemma day_number_bounds:
  assumes "valid_date y m d"
  shows "year_start y \<le> day_number y m d" "day_number y m d < year_start y + year_len y"
proof -
  have m: "1 \<le> m" "m \<le> 12" and d: "1 \<le> d" "d \<le> daysIn m y" using assms by (simp_all add: valid_date_def)
  have "month_start y m + daysIn m y \<le> year_start y + year_len y"
    using mstart_mono [of m 13 "isLeap y"] m
    by (simp add: month_start_mstart daysIn_mlen year_len_def mstart_13)
  moreover have "0 \<le> mstart (isLeap y) m"
    using mstart_mono [of 1 m "isLeap y"] mlen_bounds [of 1 "isLeap y"] m
    by (cases "m = 1") (simp_all add: mstart_1)
  ultimately show "year_start y \<le> day_number y m d" "day_number y m d < year_start y + year_len y"
    using d by (simp_all add: day_number_def month_start_mstart)
qed

lemma year_ok_seconds:
  assumes "year_ok y" and "valid_date y m d" and "0 \<le> s" "s < 86400"
  shows "\<bar>day_number y m d * 86400 + s + absoluteToInternal\<bar> \<le> 2 ^ 62 - 2 ^ 33"
    and "absoluteZeroYear \<le> y" "y \<le> 146138511199"
proof -
  have y: "absoluteZeroYear \<le> y" "y \<le> 100000000000" "- 100000000000 \<le> y"
    using assms(1) by (auto simp: year_ok_def time_numbers)
  note b = day_number_bounds [OF assms(2)] year_start_bounds [OF y(1)] year_len_bounds [of y]
  show "\<bar>day_number y m d * 86400 + s + absoluteToInternal\<bar> \<le> 2 ^ 62 - 2 ^ 33"
    using b y assms(3,4) unfolding time_numbers abs_le_iff by simp
  show "absoluteZeroYear \<le> y" "y \<le> 146138511199" using y by simp_all
qed

lemma valid_date_day: "valid_date y m d \<Longrightarrow> 1 \<le> m \<and> m \<le> 12 \<and> 1 \<le> d \<and> d \<le> 31"
  using mlen_bounds [of m "isLeap y"] by (auto simp: valid_date_def daysIn_mlen)

definition clock_ok :: "int \<Rightarrow> int \<Rightarrow> int \<Rightarrow> bool" where
  "clock_ok h mi s \<longleftrightarrow> 0 \<le> h \<and> h < 24 \<and> 0 \<le> mi \<and> mi < 60 \<and> 0 \<le> s \<and> s < 60"

text \<open>The fields of an instant built from a civil date.\<close>

lemma Date_abs:
  assumes l: "fixed_loc l off" and v: "valid_date y m d" "year_ok y" and c: "clock_ok h mi s"
    and ns: "0 \<le> ns" "ns < 1000000000"
  shows "Time_abs (Date y m d h mi s ns l) = day_number y m d * 86400 + (h * 3600 + mi * 60 + s)"
    and "in_abs (day_number y m d * 86400 + (h * 3600 + mi * 60 + s))"
proof -
  define a where "a = day_number y m d * 86400 + (h * 3600 + mi * 60 + s)"
  have "0 \<le> h * 3600 + mi * 60 + s" "h * 3600 + mi * 60 + s < 86400" using c by (simp_all add: clock_ok_def)
  note ok = year_ok_seconds [OF v(2,1) this]
  have md: "1 \<le> m" "m \<le> 13" "m \<le> 12" "1 \<le> d" "d \<le> 32" using valid_date_day [OF v(1)] by simp_all
  have a62: "\<bar>a + absoluteToInternal\<bar> \<le> 2 ^ 62" using ok(1) unfolding a_def add.assoc by simp
  have dt: "Date y m d h mi s ns l = \<lparr>tsec = a + absoluteToInternal - off, tnsec = ns, tmono = None, tloc = l\<rparr>"
    unfolding a_def
    by (rule Date_fixed [OF l md(1,2) _ md(4,5)])
      (use c ns ok a62 md in \<open>simp_all add: clock_ok_def next_norm_def a_def\<close>)
  have o: "\<bar>off\<bar> \<le> 2 ^ 31" using l by (simp add: fixed_loc_def)
  have t: "time_ok (Date y m d h mi s ns l)"
    using ok(1) o unfolding dt time_ok_def a_def abs_le_iff by simp
  have f: "fixed_loc (tloc (Date y m d h mi s ns l)) off" using l by (simp add: dt)
  have "abs_of (Date y m d h mi s ns l) off = a" by (simp add: dt abs_of_def)
  with Time_abs_fixed [OF f t] show
    "Time_abs (Date y m d h mi s ns l) = day_number y m d * 86400 + (h * 3600 + mi * 60 + s)"
    "in_abs (day_number y m d * 86400 + (h * 3600 + mi * 60 + s))" by (simp_all add: a_def)
qed

lemma absClock_correct:
  assumes "clock_ok h mi s"
  shows "absClock (D * 86400 + (h * 3600 + mi * 60 + s)) = (h, mi, s)"
proof -
  have b: "0 \<le> h * 3600 + mi * 60 + s" "h * 3600 + mi * 60 + s < 86400" using assms by (simp_all add: clock_ok_def)
  then have r: "(D * 86400 + (h * 3600 + mi * 60 + s)) mod secondsPerDay = h * 3600 + mi * 60 + s"
    by (simp add: time_consts mod_pos_pos_trivial)
  have h: "(h * 3600 + mi * 60 + s) div 3600 = h" using assms by (intro int_divI) (simp_all add: clock_ok_def)
  have m: "(mi * 60 + s) div 60 = mi" using assms by (intro int_divI) (simp_all add: clock_ok_def)
  have "h * 3600 + mi * 60 + s - h * secondsPerHour = mi * 60 + s" by (simp add: time_consts)
  then show ?thesis unfolding absClock_def Let_def r by (simp add: time_consts h m)
qed

subsection \<open>Properties\<close>

text \<open>C34: a civil date and clock time in a fixed zone survive the trip through the instant: \<open>Date\<close> followed by the
  date and the clock of the instant gives the year, month, day, hour, minute and second back.\<close>

theorem date_roundtrip:
  assumes "fixed_loc l off" and "valid_date y m d" and "year_ok y" and "clock_ok h mi s"
    and "0 \<le> ns" "ns < 1000000000"
  shows "Time_date (Date y m d h mi s ns l) = (y, m, d) \<and>
    absClock (Time_abs (Date y m d h mi s ns l)) = (h, mi, s)"
proof
  define a where "a = day_number y m d * 86400 + (h * 3600 + mi * 60 + s)"
  note ab = Date_abs [OF assms, folded a_def]
  obtain y' m' d' yd where e: "absDate a True = (y', m', d', yd)" by (cases "absDate a True")
  note c = absDate_correct [OF e ab(2)]
  have "a div 86400 = day_number y m d"
    using assms(4) unfolding a_def by (intro int_divI) (simp_all add: clock_ok_def)
  then have "y' = y \<and> m' = m \<and> d' = d"
    using day_number_inj [OF c(1) assms(2)] c(2) by simp
  then show "Time_date (Date y m d h mi s ns l) = (y, m, d)" by (simp add: Time_date_def ab(1) e)
  show "absClock (Time_abs (Date y m d h mi s ns l)) = (h, mi, s)"
    unfolding ab(1) unfolding a_def using assms(4) by (rule absClock_correct)
qed

lemma date_roundtrip_witness:
  "Time_date (Date 2024 2 29 23 59 58 7 (FixedZone ''CET'' 3600)) = (2024, 2, 29)
   \<and> absClock (Time_abs (Date 2024 2 29 23 59 58 7 (FixedZone ''CET'' 3600))) = (23, 59, 58)"
proof -
  have "fixed_loc (FixedZone ''CET'' 3600) 3600" "valid_date 2024 2 29" "year_ok 2024" "clock_ok 23 59 58"
    by (auto simp: fixed_loc_def valid_date_def year_ok_def clock_ok_def daysIn_def isLeap_iff days_before_def daysBefore_def)
  from date_roundtrip [OF this, of 7] show ?thesis by simp
qed

end
