(* ===== verification/CronNext.thy ===== *)
theory CronNext
  imports CronSpec GoInstant GoCalendar
begin

text \<open>
  \<open>SpecSchedule.Next\<close> and \<open>ConstantDelaySchedule.Next\<close> of robfig/cron (spec.go,
  constantdelay.go). The search of \<open>SpecSchedule.Next\<close> jumps back to the label \<open>WRAP\<close>: it is a
  machine whose program counter names the loop it is in, one step being one test of a loop's
  condition and, when it fails, one increment. \<open>while_option\<close> runs it, so that a search that does
  not end is \<open>None\<close>.
\<close>

subsection \<open>Matching\<close>

text \<open>\<open>1 << uint(k) & w\<close>.\<close>

definition field_bit :: "64 word \<Rightarrow> int \<Rightarrow> 64 word" where
  "field_bit w k = push_bit (nat k) 1 AND w"

definition dayMatches :: "spec_schedule \<Rightarrow> gtime \<Rightarrow> bool" where
  "dayMatches s t =
     (let domMatch = field_bit (s_Dom s) (Time_Day t) > 0;
          dowMatch = field_bit (s_Dow s) (Time_Weekday t) > 0
      in if s_Dom s AND starBit > 0 \<or> s_Dow s AND starBit > 0 then domMatch \<and> dowMatch
         else domMatch \<or> dowMatch)"

definition is_local :: "loc \<Rightarrow> bool" where
  "is_local l = (case l of Local _ \<Rightarrow> True | _ \<Rightarrow> False)"

subsection \<open>The search\<close>

datatype next_pc = WRAP | MONTH | DAY | HOUR | MINUTE | SECOND | FOUND | NONE

record next_state =
  n_pc :: next_pc
  n_t :: gtime
  n_added :: bool

text \<open>Midnight that does not exist: back to it, or on to the next one.\<close>

definition adjust_midnight :: "gtime \<Rightarrow> gtime" where
  "adjust_midnight t =
     (if Time_Hour t \<noteq> 0
      then if Time_Hour t > 12 then Time_Add t (i64 ((24 - Time_Hour t) * Hour))
           else Time_Add t (i64 (- Time_Hour t * Hour))
      else t)"

definition next_step :: "spec_schedule \<Rightarrow> loc \<Rightarrow> int \<Rightarrow> next_state \<Rightarrow> next_state" where
  "next_step s l yearLimit st =
     (let t = n_t st
      in case n_pc st of
        WRAP \<Rightarrow> (if Time_Year t > yearLimit then st\<lparr>n_pc := NONE\<rparr> else st\<lparr>n_pc := MONTH\<rparr>)
      | MONTH \<Rightarrow>
          if field_bit (s_Month s) (Time_Month t) = 0
          then let t = (if \<not> n_added st then Date (Time_Year t) (Time_Month t) 1 0 0 0 0 l else t);
                   t = Time_AddDate t 0 1 0
               in \<lparr>n_pc = (if Time_Month t = 1 then WRAP else MONTH), n_t = t, n_added = True\<rparr>
          else st\<lparr>n_pc := DAY\<rparr>
      | DAY \<Rightarrow>
          if \<not> dayMatches s t
          then let t = (if \<not> n_added st then Date (Time_Year t) (Time_Month t) (Time_Day t) 0 0 0 0 l else t);
                   t = adjust_midnight (Time_AddDate t 0 0 1)
               in \<lparr>n_pc = (if Time_Day t = 1 then WRAP else DAY), n_t = t, n_added = True\<rparr>
          else st\<lparr>n_pc := HOUR\<rparr>
      | HOUR \<Rightarrow>
          if field_bit (s_Hour s) (Time_Hour t) = 0
          then let t = (if \<not> n_added st
                        then Date (Time_Year t) (Time_Month t) (Time_Day t) (Time_Hour t) 0 0 0 l else t);
                   t = Time_Add t (1 * Hour)
               in \<lparr>n_pc = (if Time_Hour t = 0 then WRAP else HOUR), n_t = t, n_added = True\<rparr>
          else st\<lparr>n_pc := MINUTE\<rparr>
      | MINUTE \<Rightarrow>
          if field_bit (s_Minute s) (Time_Minute t) = 0
          then let t = (if \<not> n_added st then Time_Truncate t Minute else t);
                   t = Time_Add t (1 * Minute)
               in \<lparr>n_pc = (if Time_Minute t = 0 then WRAP else MINUTE), n_t = t, n_added = True\<rparr>
          else st\<lparr>n_pc := SECOND\<rparr>
      | SECOND \<Rightarrow>
          if field_bit (s_Second s) (Time_Second t) = 0
          then let t = (if \<not> n_added st then Time_Truncate t Second else t);
                   t = Time_Add t (1 * Second)
               in \<lparr>n_pc = (if Time_Second t = 0 then WRAP else SECOND), n_t = t, n_added = True\<rparr>
          else st\<lparr>n_pc := FOUND\<rparr>
      | _ \<Rightarrow> st)"

definition next_done :: "next_state \<Rightarrow> bool" where
  "next_done st \<longleftrightarrow> n_pc st = FOUND \<or> n_pc st = NONE"

text \<open>The upcoming second, and the state the search starts in.\<close>

definition upcoming :: "gtime \<Rightarrow> gtime" where
  "upcoming t = Time_Add t (i64 (1 * Second - i64 (tnsec t * Nanosecond)))"

definition next_search :: "spec_schedule \<Rightarrow> loc \<Rightarrow> int \<Rightarrow> gtime \<Rightarrow> next_state option" where
  "next_search s l yearLimit t =
     while_option (\<lambda>st. \<not> next_done st) (next_step s l yearLimit) \<lparr>n_pc = WRAP, n_t = t, n_added = False\<rparr>"

definition SpecSchedule_Next :: "spec_schedule \<Rightarrow> gtime \<Rightarrow> gtime option" where
  "SpecSchedule_Next s t =
     (let origLocation = tloc t;
          l = (if is_local (s_Location s) then tloc t else s_Location s);
          t = (if \<not> is_local (s_Location s) then setLoc t (s_Location s) else t);
          t = upcoming t;
          yearLimit = i64 (Time_Year t + 5)
      in case next_search s l yearLimit t of
           None \<Rightarrow> None
         | Some st \<Rightarrow> Some (if n_pc st = NONE then zero_time else setLoc (n_t st) origLocation))"

definition ConstantDelay_Next :: "int \<Rightarrow> gtime \<Rightarrow> gtime" where
  "ConstantDelay_Next delay t = Time_Add t (i64 (delay - i64 (tnsec t * Nanosecond)))"

text \<open>The method \<open>Next\<close> of the interface \<open>Schedule\<close>.\<close>

fun Schedule_Next :: "schedule \<Rightarrow> gtime \<Rightarrow> gtime option" where
  "Schedule_Next (Spec s) t = SpecSchedule_Next s t"
| "Schedule_Next (ConstantDelay d) t = Some (ConstantDelay_Next d t)"

end
