(* ===== verification/Civil.thy ===== *)
theory Civil
  imports CronNext
begin

text \<open>
  Civil time as the schedule search sees it, in a zone of a fixed offset: the fields of a count of
  local seconds (year, month, day, hour, minute, second, weekday), the periods around it, and
  the instants of package \<open>time\<close> that stand for it, with what \<open>Date\<close>, \<open>AddDate\<close>, \<open>Add\<close> and
  \<open>Truncate\<close> do on them.
\<close>

subsection \<open>Civil fields of a count of local seconds\<close>

text \<open>The fields of \<open>a\<close>, a number of seconds of local time since the absolute epoch.\<close>

definition ymd :: "int \<Rightarrow> int \<times> int \<times> int" where
  "ymd a = (case absDate a True of (y, m, d, _) \<Rightarrow> (y, m, d))"

definition yr :: "int \<Rightarrow> int" where "yr a = fst (ymd a)"
definition mo :: "int \<Rightarrow> int" where "mo a = fst (snd (ymd a))"
definition dy :: "int \<Rightarrow> int" where "dy a = snd (snd (ymd a))"
definition hh :: "int \<Rightarrow> int" where "hh a = (a mod 86400) div 3600"
definition mi :: "int \<Rightarrow> int" where "mi a = (a mod 3600) div 60"
definition ss :: "int \<Rightarrow> int" where "ss a = a mod 60"

lemma ymd_parts: "ymd a = (yr a, mo a, dy a)"
  by (simp add: yr_def mo_def dy_def)

lemma ymd_correct:
  assumes "in_abs a"
  shows "valid_date (yr a) (mo a) (dy a)" "day_number (yr a) (mo a) (dy a) = a div 86400" "absoluteZeroYear \<le> yr a"
proof -
  obtain y m d yd where e: "absDate a True = (y, m, d, yd)" by (cases "absDate a True")
  then have f: "yr a = y" "mo a = m" "dy a = d" by (simp_all add: yr_def mo_def dy_def ymd_def)
  show "valid_date (yr a) (mo a) (dy a)" "day_number (yr a) (mo a) (dy a) = a div 86400" "absoluteZeroYear \<le> yr a"
    using absDate_correct [OF e assms] by (simp_all add: f)
qed

lemma ymd_unique:
  assumes "in_abs a" and "valid_date y m d" and "day_number y m d = a div 86400"
  shows "yr a = y" "mo a = m" "dy a = d"
  using day_number_inj [OF ymd_correct(1) [OF assms(1)] assms(2)] ymd_correct(2) [OF assms(1)] assms(3) by auto

lemma same_day: "x div 86400 = a div 86400 \<Longrightarrow> ymd x = ymd a"
proof -
  assume e: "x div 86400 = a div 86400"
  have d: "secondsPerDay = 86400" by (simp add: secondsPerDay_def)
  have "absDate_year x = absDate_year a" unfolding absDate_year_def d e ..
  then show "ymd x = ymd a" by (simp add: ymd_def absDate_def)
qed

subsection \<open>The periods around it\<close>

definition month_lo :: "int \<Rightarrow> int" where "month_lo a = month_start (yr a) (mo a) * 86400"
definition month_hi :: "int \<Rightarrow> int" where
  "month_hi a = (month_start (yr a) (mo a) + daysIn (mo a) (yr a)) * 86400"

definition lo_of :: "int \<Rightarrow> int \<Rightarrow> int" where "lo_of k a = k * (a div k)"

lemma lo_of_bounds: "0 < k \<Longrightarrow> lo_of k a \<le> a \<and> a < lo_of k a + k"
  using mult_div_mod_eq [of k a] pos_mod_bound [of k a] pos_mod_sign [of k a]
  unfolding lo_of_def by linarith

lemma lo_of_same: "0 < k \<Longrightarrow> lo_of k a \<le> x \<Longrightarrow> x < lo_of k a + k \<Longrightarrow> x div k = a div k"
  unfolding lo_of_def by (rule int_divI)

lemma lo_of_next: "0 < k \<Longrightarrow> lo_of k (lo_of k a + k) = lo_of k a + k"
proof -
  assume "0 < k"
  then have "(k * (a div k) + k) div k = a div k + 1" by (simp add: mult.commute [of k] div_mult_self1)
  then show ?thesis by (simp add: lo_of_def algebra_simps)
qed

lemma lo_of_le:
  assumes "0 < k" "0 < n" and "b = lo_of k b" and "a < b"
  shows "k = n * j \<Longrightarrow> lo_of n a + n \<le> b"
proof -
  assume k: "k = n * j"
  define q where "q = j * (b div k)"
  have b: "b = n * q" using assms(3) by (simp add: lo_of_def k q_def mult.assoc)
  have "n * (a div n) \<le> a" using lo_of_bounds [OF assms(2), of a] by (simp add: lo_of_def)
  then have "n * (a div n) < n * q" using assms(4) b by linarith
  then have "a div n < q" using assms(2) by simp
  then have "n * (a div n + 1) \<le> n * q" using assms(2) by (intro mult_left_mono) simp_all
  then show ?thesis by (simp add: b lo_of_def algebra_simps)
qed

lemma coarser: "0 < n \<Longrightarrow> 0 < j \<Longrightarrow> x div n = a div n \<Longrightarrow> x div (n * j) = a div (n * (j :: int))"
  by (simp add: zdiv_zmult2_eq)

lemma month_bounds:
  assumes "in_abs a"
  shows "month_lo a \<le> lo_of 86400 a" "lo_of 86400 a + 86400 \<le> month_hi a" "month_lo a \<le> a" "a < month_hi a"
proof -
  note c = ymd_correct [OF assms]
  have d: "1 \<le> dy a" "dy a \<le> daysIn (mo a) (yr a)" using c(1) by (simp_all add: valid_date_def)
  have "a div 86400 = month_start (yr a) (mo a) + dy a - 1" using c(2) by (simp add: day_number_def)
  then show b: "month_lo a \<le> lo_of 86400 a" "lo_of 86400 a + 86400 \<le> month_hi a"
    using d by (simp_all add: month_lo_def month_hi_def lo_of_def)
  show "month_lo a \<le> a" "a < month_hi a" using b lo_of_bounds [of 86400 a] by simp_all
qed

lemma same_month:
  assumes a: "in_abs a" and x: "in_abs x" "month_lo a \<le> x" "x < month_hi a"
  shows "yr x = yr a" "mo x = mo a" "dy x = x div 86400 - month_start (yr a) (mo a) + 1"
proof -
  define M where "M = month_start (yr a) (mo a)"
  have "M \<le> x div 86400" using zdiv_mono1 [OF x(2), of 86400] by (simp add: month_lo_def M_def)
  moreover have "x div 86400 < M + daysIn (mo a) (yr a)"
    using x(3) by (intro int_div_less_iff [THEN iffD2]) (simp_all add: month_hi_def M_def)
  ultimately have v: "valid_date (yr a) (mo a) (x div 86400 - M + 1)"
    using ymd_correct(1) [OF a] by (simp add: valid_date_def)
  have "day_number (yr a) (mo a) (x div 86400 - M + 1) = x div 86400" by (simp add: day_number_def M_def)
  from ymd_unique [OF x(1) v this] show "yr x = yr a" "mo x = mo a" "dy x = x div 86400 - month_start (yr a) (mo a) + 1"
    by (simp_all add: M_def)
qed

lemma month_hi_next:
  assumes a: "in_abs a" and n: "next_norm (yr a) (mo a + 1) = (y', m')"
  shows "month_hi a = month_start y' m' * 86400" "valid_date y' m' 1"
    and "in_abs (month_hi a) \<Longrightarrow> yr (month_hi a) = y' \<and> mo (month_hi a) = m' \<and> dy (month_hi a) = 1"
proof -
  have m: "1 \<le> mo a" "mo a \<le> 12" using ymd_correct(1) [OF a] by (simp_all add: valid_date_def)
  have "month_start (yr a) (mo a) + daysIn (mo a) (yr a) = month_start y' m'"
  proof (cases "mo a = 12")
    case True
    then have "y' = yr a + 1" "m' = 1" using n by (simp_all add: next_norm_def)
    then show ?thesis
      using mstart_Suc [of 12 "isLeap (yr a)"] True year_start_Suc [of "yr a"]
      by (simp add: month_start_mstart daysIn_mlen mstart_1 mstart_13 year_len_def)
  next
    case False
    then have "y' = yr a" "m' = mo a + 1" using n by (simp_all add: next_norm_def split: if_splits)
    then show ?thesis using mstart_Suc [OF m, of "isLeap (yr a)"] by (simp add: month_start_mstart daysIn_mlen)
  qed
  then show h: "month_hi a = month_start y' m' * 86400" by (simp add: month_hi_def)
  have m': "1 \<le> m'" "m' \<le> 12" using n m by (auto simp: next_norm_def split: if_splits)
  then show v: "valid_date y' m' 1" using mlen_bounds [of m' "isLeap y'"] by (simp add: valid_date_def daysIn_mlen)
  assume "in_abs (month_hi a)"
  moreover have "day_number y' m' 1 = month_hi a div 86400" by (simp add: h day_number_def)
  ultimately show "yr (month_hi a) = y' \<and> mo (month_hi a) = m' \<and> dy (month_hi a) = 1"
    using ymd_unique [OF _ v] by blast
qed

lemma month_hi_lo: "in_abs a \<Longrightarrow> in_abs (month_hi a) \<Longrightarrow> month_lo (month_hi a) = month_hi a"
  using month_hi_next [of a] by (cases "next_norm (yr a) (mo a + 1)") (simp add: month_lo_def)

text \<open>The end of a year, and the years before it.\<close>

definition year_hi :: "int \<Rightarrow> int" where "year_hi y = year_start (y + 1) * 86400"

lemma year_hi_iff: "in_abs a \<Longrightarrow> yr a \<le> y \<longleftrightarrow> a < year_hi y"
proof -
  assume a: "in_abs a"
  note c = ymd_correct [OF a] and b = day_number_bounds [OF ymd_correct(1) [OF a]]
  have "a div 86400 < year_start (y + 1) \<longleftrightarrow> yr a \<le> y"
  proof
    assume "yr a \<le> y"
    then have "year_start (yr a) + year_len (yr a) \<le> year_start (y + 1)" by (intro year_start_less) simp
    then show "a div 86400 < year_start (y + 1)" using b c(2) by linarith
  next
    assume l: "a div 86400 < year_start (y + 1)"
    show "yr a \<le> y"
    proof (rule ccontr)
      assume "\<not> yr a \<le> y"
      then have "year_start (y + 1) \<le> year_start (yr a)" by (intro year_start_mono) simp
      then show False using b c(2) l by linarith
    qed
  qed
  then show ?thesis using int_div_less_iff [of 86400 a "year_start (y + 1)"] by (simp add: year_hi_def)
qed

lemma month_hi_year: "in_abs a \<Longrightarrow> yr a \<le> y \<Longrightarrow> month_hi a \<le> year_hi y"
proof -
  assume a: "in_abs a" and y: "yr a \<le> y"
  have m: "1 \<le> mo a" "mo a \<le> 12" using ymd_correct(1) [OF a] by (simp_all add: valid_date_def)
  have "month_start (yr a) (mo a) + daysIn (mo a) (yr a) \<le> year_start (yr a) + year_len (yr a)"
    using mstart_mono [of "mo a" 13 "isLeap (yr a)"] m
    by (simp add: month_start_mstart daysIn_mlen year_len_def mstart_13)
  also have "\<dots> \<le> year_start (y + 1)" using y by (intro year_start_less) simp
  finally show ?thesis by (simp add: month_hi_def year_hi_def)
qed

subsection \<open>The instant of a count of local seconds\<close>

definition tm :: "loc \<Rightarrow> int \<Rightarrow> int \<Rightarrow> gtime" where
  "tm l off a = \<lparr>tsec = a + absoluteToInternal - off, tnsec = 0, tmono = None, tloc = l\<rparr>"

text \<open>The seconds are those of an instant from year 1 on, within \<open>2 ^ 61\<close> seconds.\<close>

definition tm_ok :: "int \<Rightarrow> int \<Rightarrow> bool" where
  "tm_ok off a \<longleftrightarrow> 0 \<le> a + absoluteToInternal - off \<and> a + absoluteToInternal - off \<le> 2 ^ 61"

lemma tm_ok_between: "tm_ok off a \<Longrightarrow> tm_ok off c \<Longrightarrow> a \<le> b \<Longrightarrow> b \<le> c \<Longrightarrow> tm_ok off b"
  by (simp add: tm_ok_def)

lemma tm_abs:
  assumes "fixed_loc l off" and "tm_ok off a"
  shows "Time_abs (tm l off a) = a" "in_abs a"
proof -
  have "abs_of (tm l off a) off = a" by (simp add: abs_of_def tm_def)
  moreover have "time_ok (tm l off a)" using assms(2) by (simp add: time_ok_def tm_def tm_ok_def)
  ultimately show "Time_abs (tm l off a) = a" "in_abs a"
    using Time_abs_fixed [of "tm l off a" off] assms(1) by (simp_all add: tm_def)
qed

definition wd :: "int \<Rightarrow> int" where "wd a = (a div 86400 + 1) mod 7"

lemma absWeekday_wd:
  assumes "in_abs a" "in_abs (a + 86400)"
  shows "absWeekday a = wd a"
proof -
  have "absWeekday a = (a + 86400) mod (86400 * 7) div 86400"
    using assms(2) by (simp add: absWeekday_def time_consts u64_id in_abs_def)
  also have "\<dots> = ((a + 86400) div 86400) mod 7"
  proof -
    define q r where "q = (a + 86400) div 86400" and "r = (a + 86400) mod 86400"
    have "(a + 86400) mod (86400 * 7) = 86400 * (q mod 7) + r"
      unfolding q_def r_def by (rule zmod_zmult2_eq) simp
    then show ?thesis unfolding q_def [symmetric] by (simp add: r_def)
  qed
  finally show ?thesis by (simp add: wd_def)
qed

lemma tm_fields:
  assumes "fixed_loc l off" and "tm_ok off a"
  shows "Time_Year (tm l off a) = yr a" "Time_Month (tm l off a) = mo a" "Time_Day (tm l off a) = dy a"
    "Time_Hour (tm l off a) = hh a" "Time_Minute (tm l off a) = mi a" "Time_Second (tm l off a) = ss a"
    "Time_Weekday (tm l off a) = wd a"
proof -
  note t = tm_abs [OF assms]
  have "absDate_year a = (fst (absDate a True), snd (snd (snd (absDate a True))))"
    by (simp add: absDate_def split: prod.split)
  then show "Time_Year (tm l off a) = yr a"
    unfolding Time_Year_def t(1) absDate_year_part yr_def ymd_def by (simp split: prod.split)
  show "Time_Month (tm l off a) = mo a" "Time_Day (tm l off a) = dy a"
    unfolding Time_Month_def Time_Day_def t(1) mo_def dy_def ymd_def by (simp_all split: prod.split)
  show "Time_Hour (tm l off a) = hh a" "Time_Minute (tm l off a) = mi a" "Time_Second (tm l off a) = ss a"
    unfolding Time_Hour_def Time_Minute_def Time_Second_def t(1) hh_def mi_def ss_def by (simp_all add: time_consts)
  have "\<bar>off\<bar> \<le> 2 ^ 31" using assms(1) by (simp add: fixed_loc_def)
  then have "in_abs (a + 86400)"
    using assms(2) unfolding tm_ok_def in_abs_def time_numbers abs_le_iff by simp
  with t(2) show "Time_Weekday (tm l off a) = wd a"
    unfolding Time_Weekday_def t(1) by (rule absWeekday_wd)
qed

lemma tm_Add:
  assumes "tm_ok off a" and "in_i64 (k * 1000000000)"
  shows "Time_Add (tm l off a) (k * 1000000000) = tm l off (a + k)"
proof -
  have t: "tmono (tm l off a) = None" "0 \<le> tnsec (tm l off a)" "tnsec (tm l off a) < 1000000000"
    "\<bar>tsec (tm l off a)\<bar> \<le> 2 ^ 62" using assms(1) by (simp_all add: tm_def tm_ok_def)
  note r = Time_Add_wall [OF t assms(2)]
  have "inst (Time_Add (tm l off a) (k * 1000000000)) = inst (tm l off (a + k))"
    unfolding r(1) by (simp add: inst_def tm_def)
  then have "tsec (Time_Add (tm l off a) (k * 1000000000)) = tsec (tm l off (a + k))"
    "tnsec (Time_Add (tm l off a) (k * 1000000000)) = 0"
    using inst_eq_iff(1) [of "Time_Add (tm l off a) (k * 1000000000)" "tm l off (a + k)"] r(3,4)
    by (simp_all add: tm_def)
  then show ?thesis using r(2,5) by (intro gtime.equality) (simp_all add: tm_def)
qed

lemma tm_Truncate_Minute:
  assumes "tm_ok off a" and "60 dvd off"
  shows "Time_Truncate (tm l off a) Minute = tm l off (lo_of 60 a)"
proof -
  have w: "wall_ok (tm l off a)" "0 \<le> tsec (tm l off a)" using assms(1) by (simp_all add: wall_ok_def tm_def tm_ok_def)
  have M: "Minute = 60 * 1000000000" by (simp add: time_consts)
  note r = Time_Truncate_seconds [OF w M]
  have i: "inst (tm l off a) = (a + absoluteToInternal - off) * 1000000000" by (simp add: inst_def tm_def)
  have "(a + absoluteToInternal - off) mod 60 = a mod 60"
  proof -
    obtain k where "off = 60 * k" using assms(2) by auto
    then have "a + absoluteToInternal - off = a + 60 * (- 153722866109662080 - k)" by (simp add: time_numbers)
    then show ?thesis by (simp only: mod_mult_self2)
  qed
  then have "inst (tm l off a) mod (60 * 1000000000) = (a mod 60) * 1000000000"
    unfolding i by (simp only: mult_mod_left [symmetric])
  then have eq: "inst (Time_Truncate (tm l off a) Minute) = inst (tm l off (lo_of 60 a))"
    using r(1) unfolding i M by (simp add: inst_def tm_def lo_of_def left_diff_distrib minus_mult_div_eq_mod [symmetric])
  have "tsec (Time_Truncate (tm l off a) Minute) = tsec (tm l off (lo_of 60 a))"
    "tnsec (Time_Truncate (tm l off a) Minute) = 0"
    using inst_eq_iff(1) [of "Time_Truncate (tm l off a) Minute" "tm l off (lo_of 60 a)"] r(4,5) eq
    by (simp_all add: tm_def)
  then show ?thesis using r(2,3) by (intro gtime.equality) (simp_all add: tm_def)
qed

lemma tm_Truncate_Second:
  assumes "tm_ok off a"
  shows "Time_Truncate (tm l off a) Second = tm l off a"
proof -
  have w: "wall_ok (tm l off a)" "0 \<le> tsec (tm l off a)" using assms(1) by (simp_all add: wall_ok_def tm_def tm_ok_def)
  have M: "Second = 1 * 1000000000" by (simp add: time_consts)
  note r = Time_Truncate_seconds [OF w M]
  have eq: "inst (Time_Truncate (tm l off a) Second) = inst (tm l off a)"
    using r(1) by (simp add: inst_def tm_def time_consts)
  have "tsec (Time_Truncate (tm l off a) Second) = tsec (tm l off a)"
    "tnsec (Time_Truncate (tm l off a) Second) = 0"
    using inst_eq_iff(1) [of "Time_Truncate (tm l off a) Second" "tm l off a"] r(4,5) eq
    by (simp_all add: tm_def)
  then show ?thesis using r(2,3) by (intro gtime.equality) (simp_all add: tm_def)
qed

subsection \<open>Building the start of a period\<close>

lemma Date_tm:
  assumes l: "fixed_loc l off" and y: "absoluteZeroYear \<le> y'" "y' \<le> 146138511199" and m: "1 \<le> m" "m \<le> 13" "next_norm y m = (y', m')"
    and d: "1 \<le> d" "d \<le> 32" and h: "0 \<le> h" "h < 24"
    and b: "b = day_number y' m' d * 86400 + h * 3600" and ok: "tm_ok off b"
  shows "Date y m d h 0 0 0 l = tm l off b"
proof -
  have "\<bar>off\<bar> \<le> 2 ^ 31" using l by (simp add: fixed_loc_def)
  then have "\<bar>day_number y' m' d * 86400 + (h * 3600 + 0 * 60 + 0) + absoluteToInternal\<bar> \<le> 2 ^ 62"
    using ok unfolding b tm_ok_def abs_le_iff by simp
  from Date_fixed [OF l m d h _ _ _ _ _ _ y this] show ?thesis by (simp add: tm_def b)
qed

lemma Date_month:
  assumes l: "fixed_loc l off" and a: "tm_ok off a" "in_abs a" "tm_ok off (month_lo a)" and y: "yr a \<le> 100000000000"
  shows "Date (yr a) (mo a) 1 0 0 0 0 l = tm l off (month_lo a)"
proof -
  note c = ymd_correct [OF a(2)]
  have "1 \<le> mo a" "mo a \<le> 12" using c(1) by (simp_all add: valid_date_def)
  then show ?thesis
    using c(3) y a(3) by (intro Date_tm [OF l, of "yr a" _ _ "mo a"]) (simp_all add: next_norm_def month_lo_def day_number_def)
qed

lemma Date_day:
  assumes l: "fixed_loc l off" and a: "in_abs a" "tm_ok off (lo_of 86400 a)" and y: "yr a \<le> 100000000000"
  shows "Date (yr a) (mo a) (dy a) 0 0 0 0 l = tm l off (lo_of 86400 a)"
proof -
  note c = ymd_correct [OF a(1)] and v = valid_date_day [OF ymd_correct(1) [OF a(1)]]
  show ?thesis
    using c v y a(2) by (intro Date_tm [OF l, of "yr a" _ _ "mo a"]) (simp_all add: next_norm_def lo_of_def)
qed

lemma Date_hour:
  assumes l: "fixed_loc l off" and a: "in_abs a" "tm_ok off (lo_of 3600 a)" and y: "yr a \<le> 100000000000"
  shows "Date (yr a) (mo a) (dy a) (hh a) 0 0 0 l = tm l off (lo_of 3600 a)"
proof -
  note c = ymd_correct [OF a(1)] and v = valid_date_day [OF ymd_correct(1) [OF a(1)]]
  define D r where "D = a div 86400" and "r = a mod 86400"
  have r: "0 \<le> r" "r < 86400" by (simp_all add: r_def)
  have ad: "a = r + D * (24 * 3600)" by (simp add: r_def D_def)
  have "a div 3600 = D * 24 + r div 3600"
    unfolding ad by (simp only: mult.assoc [symmetric])
  then have "lo_of 3600 a = day_number (yr a) (mo a) (dy a) * 86400 + hh a * 3600"
    unfolding c(2) by (simp add: lo_of_def hh_def D_def [symmetric] r_def [symmetric])
  moreover have "0 \<le> hh a" "hh a < 24" using r unfolding hh_def r_def [symmetric]
    by (simp add: pos_imp_zdiv_nonneg_iff, intro int_div_less_iff [THEN iffD2], simp_all)
  ultimately show ?thesis
    using c v y a(2) by (intro Date_tm [OF l, of "yr a" _ _ "mo a"]) (simp_all add: next_norm_def)
qed

lemma month_lo_midnight: "a = month_lo a \<Longrightarrow> a = lo_of 86400 a"
  by (simp add: month_lo_def lo_of_def) (metis nonzero_mult_div_cancel_right mult.commute zero_neq_numeral)

lemma midnight_clock: "a = lo_of 86400 a \<Longrightarrow> absClock a = (0, 0, 0)"
proof -
  assume a: "a = lo_of 86400 a"
  have "a mod 86400 = 0" by (subst a) (simp add: lo_of_def)
  then show ?thesis by (simp add: absClock_def secondsPerDay_def secondsPerHour_def secondsPerMinute_def)
qed

lemma yr_i64: "in_abs a \<Longrightarrow> yr a \<le> 100000000000 \<Longrightarrow> i64 (yr a) = yr a"
  using ymd_correct(3) [of a] by (simp add: i64_id in_i64_def time_numbers)

lemma AddDate_month:
  assumes l: "fixed_loc l off" and a: "tm_ok off a" "a = month_lo a" and y: "yr a \<le> 100000000000"
    and ok: "tm_ok off (month_hi a)"
  shows "Time_AddDate (tm l off a) 0 1 0 = tm l off (month_hi a)"
proof -
  note t = tm_abs [OF l a(1)] and v = valid_date_day [OF ymd_correct(1)]
  have c: "absoluteZeroYear \<le> yr a" by (rule ymd_correct(3) [OF t(2)])
  obtain y' m' where n: "next_norm (yr a) (mo a + 1) = (y', m')" by (cases "next_norm (yr a) (mo a + 1)")
  note h = month_hi_next [OF t(2) n]
  have lo: "a = lo_of 86400 a" using a(2) by (rule month_lo_midnight)
  have d: "dy a = 1" using same_month(3) [OF t(2) t(2)] month_bounds [OF t(2)] a(2)
    by (simp add: month_lo_def)
  have yb: "absoluteZeroYear \<le> y'" "y' \<le> 146138511199"
    using n c y by (auto simp: next_norm_def time_numbers split: if_splits)
  have "Time_AddDate (tm l off a) 0 1 0 = Date (yr a) (mo a + 1) 1 0 0 0 0 l"
    using v [OF t(2)] yr_i64 [OF t(2) y] d
    by (simp add: Time_AddDate_def Time_date_def t(1) ymd_def [symmetric] ymd_parts midnight_clock [OF lo]
        i64_id in_i64_def) (simp add: tm_def)
  also have "\<dots> = tm l off (month_hi a)"
    using v [OF t(2)] yb n ok by (intro Date_tm [OF l yb]) (simp_all add: h(1) day_number_def)
  finally show ?thesis .
qed

lemma AddDate_day:
  assumes l: "fixed_loc l off" and a: "tm_ok off a" "a = lo_of 86400 a" and y: "yr a \<le> 100000000000"
    and ok: "tm_ok off (a + 86400)"
  shows "Time_AddDate (tm l off a) 0 0 1 = tm l off (a + 86400)"
proof -
  note t = tm_abs [OF l a(1)] and v = valid_date_day [OF ymd_correct(1)]
  note c = ymd_correct [OF t(2)]
  have "Time_AddDate (tm l off a) 0 0 1 = Date (yr a) (mo a) (dy a + 1) 0 0 0 0 l"
    using v [OF t(2)] yr_i64 [OF t(2) y]
    by (simp add: Time_AddDate_def Time_date_def t(1) ymd_def [symmetric] ymd_parts midnight_clock [OF a(2)]
        i64_id in_i64_def) (simp add: tm_def)
  also have "\<dots> = tm l off (a + 86400)"
  proof -
    have "a + 86400 = (a div 86400 + 1) * 86400" by (subst (1) a(2)) (simp add: lo_of_def)
    then have "a + 86400 = day_number (yr a) (mo a) (dy a + 1) * 86400 + 0 * 3600"
      unfolding c(2) [symmetric] by (simp add: day_number_def)
    then show ?thesis
      using v [OF t(2)] c(3) y ok by (intro Date_tm [OF l c(3)]) (simp_all add: next_norm_def)
  qed
  finally show ?thesis .
qed

end
