(* ===== verification/CronSearch.thy ===== *)
theory CronSearch
  imports Civil
begin

text \<open>
  Correctness of \<open>SpecSchedule.Next\<close> (robfig/cron spec.go) in a zone whose offset is fixed and a whole
  number of minutes: the search ends, and finds the first second after the given time at which all six
  fields match, or none up to the end of the fifth year. The invariant of the search: no match since the
  start, and, once a field has been incremented, the beginning of the period of the first field that
  does not match. A zone that skips a day shows that the search need not end elsewhere, and zones where a midnight is
  missing that it can miss a day or answer the wrong one.
\<close>

subsection \<open>What matches\<close>

definition day_bits :: "spec_schedule \<Rightarrow> int \<Rightarrow> int \<Rightarrow> bool" where
  "day_bits s day weekday =
     (if s_Dom s AND starBit > 0 \<or> s_Dow s AND starBit > 0
      then field_bit (s_Dom s) day > 0 \<and> field_bit (s_Dow s) weekday > 0
      else field_bit (s_Dom s) day > 0 \<or> field_bit (s_Dow s) weekday > 0)"

definition month_ok :: "spec_schedule \<Rightarrow> int \<Rightarrow> bool" where
  "month_ok s a \<longleftrightarrow> field_bit (s_Month s) (mo a) \<noteq> 0"
definition day_ok :: "spec_schedule \<Rightarrow> int \<Rightarrow> bool" where
  "day_ok s a \<longleftrightarrow> day_bits s (dy a) (wd a)"
definition hour_ok :: "spec_schedule \<Rightarrow> int \<Rightarrow> bool" where
  "hour_ok s a \<longleftrightarrow> field_bit (s_Hour s) (hh a) \<noteq> 0"
definition minute_ok :: "spec_schedule \<Rightarrow> int \<Rightarrow> bool" where
  "minute_ok s a \<longleftrightarrow> field_bit (s_Minute s) (mi a) \<noteq> 0"
definition second_ok :: "spec_schedule \<Rightarrow> int \<Rightarrow> bool" where
  "second_ok s a \<longleftrightarrow> field_bit (s_Second s) (ss a) \<noteq> 0"

text \<open>All six fields match the local second \<open>a\<close>.\<close>

definition spec_match :: "spec_schedule \<Rightarrow> int \<Rightarrow> bool" where
  "spec_match s a \<longleftrightarrow> month_ok s a \<and> day_ok s a \<and> hour_ok s a \<and> minute_ok s a \<and> second_ok s a"

lemma tm_day_ok: "fixed_loc l off \<Longrightarrow> tm_ok off a \<Longrightarrow> dayMatches s (tm l off a) \<longleftrightarrow> day_ok s a"
  by (simp add: dayMatches_def day_ok_def day_bits_def tm_fields Let_def)

lemma same_day_ok: "x div 86400 = a div 86400 \<Longrightarrow> month_ok s x = month_ok s a \<and> day_ok s x = day_ok s a"
  using same_day [of x a] by (simp add: month_ok_def day_ok_def mo_def dy_def wd_def)

lemma same_hour_ok:
  assumes "x div 3600 = a div 3600"
  shows "x div 86400 = a div 86400" "hh x = hh a" "hour_ok s x = hour_ok s a"
proof -
  show d: "x div 86400 = a div 86400" using coarser [of 3600 24 x a] assms by simp
  have h: "hh y = y div 3600 - 24 * (y div 86400)" for y
  proof -
    define D r where "D = y div 86400" and "r = y mod 86400"
    have "y = r + D * (24 * 3600)" by (simp add: r_def D_def)
    then have "y div 3600 = D * 24 + r div 3600" by (simp only: mult.assoc [symmetric])
    then show ?thesis by (simp add: hh_def D_def [symmetric] r_def [symmetric])
  qed
  show "hh x = hh a" using assms d by (simp add: h)
  then show "hour_ok s x = hour_ok s a" by (simp add: hour_ok_def)
qed

lemma same_minute_ok:
  assumes "x div 60 = a div 60"
  shows "x div 3600 = a div 3600" "mi x = mi a" "minute_ok s x = minute_ok s a"
proof -
  show d: "x div 3600 = a div 3600" using coarser [of 60 60 x a] assms by simp
  have h: "mi y = y div 60 - 60 * (y div 3600)" for y
  proof -
    define D r where "D = y div 3600" and "r = y mod 3600"
    have "y = r + D * (60 * 60)" by (simp add: r_def D_def)
    then have "y div 60 = D * 60 + r div 60" by (simp only: mult.assoc [symmetric])
    then show ?thesis by (simp add: mi_def D_def [symmetric] r_def [symmetric])
  qed
  show "mi x = mi a" using assms d by (simp add: h)
  then show "minute_ok s x = minute_ok s a" by (simp add: minute_ok_def)
qed

text \<open>Where the search stands once it has incremented a field: at the start of the period of its first mismatch.\<close>

definition aligned :: "spec_schedule \<Rightarrow> int \<Rightarrow> bool" where
  "aligned s a \<longleftrightarrow> a = month_lo a \<or> month_ok s a \<and>
     (a = lo_of 86400 a \<or> day_ok s a \<and>
       (a = lo_of 3600 a \<or> hour_ok s a \<and> (a = lo_of 60 a \<or> minute_ok s a)))"

lemma lo_of_coarse: "a = lo_of (n * j) a \<Longrightarrow> 0 < n \<Longrightarrow> a = lo_of n (a :: int)"
proof -
  assume a: "a = lo_of (n * j) a" and n: "0 < n"
  then have "a = n * (j * (a div (n * j)))" by (simp add: lo_of_def mult.assoc)
  then have "a div n = j * (a div (n * j))" using n by (metis nonzero_mult_div_cancel_left less_irrefl)
  then show ?thesis using a by (simp add: lo_of_def mult.assoc)
qed

lemma midnight_hour: "a = lo_of 86400 a \<Longrightarrow> a = lo_of 3600 a"
  using lo_of_coarse [of a 3600 24] by simp

lemma hour_minute: "a = lo_of 3600 a \<Longrightarrow> a = lo_of 60 a"
  using lo_of_coarse [of a 60 60] by simp

subsection \<open>Moving to the next period\<close>

lemma next_month:
  assumes a: "in_abs a" and b: "in_abs (month_hi a)"
  shows "aligned s (month_hi a)" and "mo (month_hi a) = 1 \<or> yr (month_hi a) = yr a"
    and "\<not> month_ok s a \<Longrightarrow> \<forall>x. a \<le> x \<and> x < month_hi a \<longrightarrow> \<not> spec_match s x"
proof -
  show "aligned s (month_hi a)" using month_hi_lo [OF a b] by (simp add: aligned_def)
  obtain y' m' where n: "next_norm (yr a) (mo a + 1) = (y', m')" by (cases "next_norm (yr a) (mo a + 1)")
  show "mo (month_hi a) = 1 \<or> yr (month_hi a) = yr a"
    using month_hi_next(3) [OF a n b] n by (auto simp: next_norm_def split: if_splits)
  assume m: "\<not> month_ok s a"
  show "\<forall>x. a \<le> x \<and> x < month_hi a \<longrightarrow> \<not> spec_match s x"
  proof (intro allI impI)
    fix x assume x: "a \<le> x \<and> x < month_hi a"
    then have "in_abs x" using a b by (simp add: in_abs_def)
    moreover have "month_lo a \<le> x" using month_bounds [OF a] x by simp
    ultimately have "mo x = mo a" using same_month(2) [OF a] x by blast
    then show "\<not> spec_match s x" using m by (simp add: spec_match_def month_ok_def)
  qed
qed

lemma next_day:
  assumes a: "in_abs a" and m: "month_ok s a" and b: "b = lo_of 86400 a + 86400" "in_abs b"
  shows "aligned s b" and "dy b = 1 \<or> yr b = yr a \<and> month_ok s b" and "b \<le> month_hi a"
    and "\<not> day_ok s a \<Longrightarrow> \<forall>x. a \<le> x \<and> x < b \<longrightarrow> \<not> spec_match s x"
proof -
  note mb = month_bounds [OF a]
  show le: "b \<le> month_hi a" using mb(2) b(1) by simp
  have mid: "b = lo_of 86400 b" unfolding b(1) by (rule lo_of_next [symmetric]) simp
  have "aligned s b \<and> (dy b = 1 \<or> yr b = yr a \<and> month_ok s b)"
  proof (cases "b = month_hi a")
    case True
    obtain y' m' where n: "next_norm (yr a) (mo a + 1) = (y', m')" by (cases "next_norm (yr a) (mo a + 1)")
    show ?thesis using month_hi_next(3) [OF a n] next_month(1) [OF a] b(2) True by simp
  next
    case False
    then have lt: "month_lo a \<le> b" "b < month_hi a" using le mb(1) b(1) lo_of_bounds [of 86400 a] by simp_all
    note sm = same_month [OF a b(2) lt]
    have "month_ok s b" using m sm(2) by (simp add: month_ok_def)
    then show ?thesis using sm(1) mid unfolding aligned_def by blast
  qed
  then show "aligned s b" "dy b = 1 \<or> yr b = yr a \<and> month_ok s b" by simp_all
  assume d: "\<not> day_ok s a"
  show "\<forall>x. a \<le> x \<and> x < b \<longrightarrow> \<not> spec_match s x"
  proof (intro allI impI)
    fix x assume "a \<le> x \<and> x < b"
    then have "x div 86400 = a div 86400" using lo_of_bounds [of 86400 a] b(1) by (intro lo_of_same) simp_all
    then show "\<not> spec_match s x" using d same_day_ok [of x a s] by (simp add: spec_match_def)
  qed
qed

lemma hh_midnight: "b = lo_of 86400 b \<Longrightarrow> hh b = 0"
  unfolding hh_def lo_of_def by (metis mod_mult_self1_is_0 div_0)

lemma mi_hour: "b = lo_of 3600 b \<Longrightarrow> mi b = 0"
  unfolding mi_def lo_of_def by (metis mod_mult_self1_is_0 div_0)

lemma ss_minute: "b = lo_of 60 b \<Longrightarrow> ss b = 0"
  unfolding ss_def lo_of_def by (metis mod_mult_self1_is_0)

lemma next_hour:
  assumes a: "in_abs a" and m: "month_ok s a" "day_ok s a" and b: "b = lo_of 3600 a + 3600" "in_abs b"
  shows "aligned s b" and "hh b = 0 \<or> yr b = yr a \<and> month_ok s b \<and> day_ok s b"
    and "b \<le> lo_of 86400 a + 86400"
    and "\<not> hour_ok s a \<Longrightarrow> \<forall>x. a \<le> x \<and> x < b \<longrightarrow> \<not> spec_match s x"
proof -
  note lb = lo_of_bounds [of 86400 a, simplified] lo_of_bounds [of 3600 a, simplified]
  have mid: "lo_of 86400 a + 86400 = lo_of 86400 (lo_of 86400 a + 86400)" by (rule lo_of_next [symmetric]) simp
  show le: "b \<le> lo_of 86400 a + 86400"
    unfolding b(1) using lb by (intro lo_of_le [of 86400 3600 _ _ 24, OF _ _ mid]) simp_all
  have hr: "b = lo_of 3600 b" unfolding b(1) by (rule lo_of_next [symmetric]) simp
  have "aligned s b \<and> (hh b = 0 \<or> yr b = yr a \<and> month_ok s b \<and> day_ok s b)"
  proof (cases "b = lo_of 86400 a + 86400")
    case True
    then have "b = lo_of 86400 b" using mid by simp
    then show ?thesis using next_day(1) [OF a m(1) True b(2)] hh_midnight by blast
  next
    case False
    then have d: "b div 86400 = a div 86400" using le lb b(1) by (intro lo_of_same) simp_all
    have "yr b = yr a" using same_day [OF d] by (simp add: yr_def)
    then show ?thesis using same_day_ok [OF d, of s] m hr unfolding aligned_def by blast
  qed
  then show "aligned s b" "hh b = 0 \<or> yr b = yr a \<and> month_ok s b \<and> day_ok s b" by simp_all
  assume h: "\<not> hour_ok s a"
  show "\<forall>x. a \<le> x \<and> x < b \<longrightarrow> \<not> spec_match s x"
  proof (intro allI impI)
    fix x assume "a \<le> x \<and> x < b"
    then have "x div 3600 = a div 3600" using lb b(1) by (intro lo_of_same) simp_all
    then show "\<not> spec_match s x" using h same_hour_ok(3) [of x a s] by (simp add: spec_match_def)
  qed
qed

lemma next_minute:
  assumes a: "in_abs a" and m: "month_ok s a" "day_ok s a" "hour_ok s a" and b: "b = lo_of 60 a + 60" "in_abs b"
  shows "aligned s b" and "mi b = 0 \<or> yr b = yr a \<and> month_ok s b \<and> day_ok s b \<and> hour_ok s b"
    and "b \<le> lo_of 3600 a + 3600"
    and "\<not> minute_ok s a \<Longrightarrow> \<forall>x. a \<le> x \<and> x < b \<longrightarrow> \<not> spec_match s x"
proof -
  note lb = lo_of_bounds [of 3600 a, simplified] lo_of_bounds [of 60 a, simplified]
  have mid: "lo_of 3600 a + 3600 = lo_of 3600 (lo_of 3600 a + 3600)" by (rule lo_of_next [symmetric]) simp
  show le: "b \<le> lo_of 3600 a + 3600"
    unfolding b(1) using lb by (intro lo_of_le [of 3600 60 _ _ 60, OF _ _ mid]) simp_all
  have hr: "b = lo_of 60 b" unfolding b(1) by (rule lo_of_next [symmetric]) simp
  have "aligned s b \<and> (mi b = 0 \<or> yr b = yr a \<and> month_ok s b \<and> day_ok s b \<and> hour_ok s b)"
  proof (cases "b = lo_of 3600 a + 3600")
    case True
    then have "b = lo_of 3600 b" using mid by simp
    then show ?thesis using next_hour(1) [OF a m(1,2) True b(2)] mi_hour by blast
  next
    case False
    then have h: "b div 3600 = a div 3600" using le lb b(1) by (intro lo_of_same) simp_all
    note d = same_hour_ok(1) [OF h]
    have "yr b = yr a" using same_day [OF d] by (simp add: yr_def)
    then show ?thesis using same_day_ok [OF d, of s] same_hour_ok(3) [OF h, of s] m hr unfolding aligned_def by blast
  qed
  then show "aligned s b" "mi b = 0 \<or> yr b = yr a \<and> month_ok s b \<and> day_ok s b \<and> hour_ok s b" by simp_all
  assume h: "\<not> minute_ok s a"
  show "\<forall>x. a \<le> x \<and> x < b \<longrightarrow> \<not> spec_match s x"
  proof (intro allI impI)
    fix x assume "a \<le> x \<and> x < b"
    then have "x div 60 = a div 60" using lb b(1) by (intro lo_of_same) simp_all
    then show "\<not> spec_match s x" using h same_minute_ok(3) [of x a s] by (simp add: spec_match_def)
  qed
qed

lemma next_second:
  assumes a: "in_abs a" and m: "month_ok s a" "day_ok s a" "hour_ok s a" "minute_ok s a"
    and b: "b = a + 1" "in_abs b"
  shows "aligned s b"
    and "ss b = 0 \<or> yr b = yr a \<and> month_ok s b \<and> day_ok s b \<and> hour_ok s b \<and> minute_ok s b"
    and "b \<le> lo_of 60 a + 60"
    and "\<not> second_ok s a \<Longrightarrow> \<forall>x. a \<le> x \<and> x < b \<longrightarrow> \<not> spec_match s x"
proof -
  note lb = lo_of_bounds [of 60 a, simplified]
  show le: "b \<le> lo_of 60 a + 60" using lb b(1) by simp
  have "aligned s b \<and> (ss b = 0 \<or> yr b = yr a \<and> month_ok s b \<and> day_ok s b \<and> hour_ok s b \<and> minute_ok s b)"
  proof (cases "b = lo_of 60 a + 60")
    case True
    then have "b = lo_of 60 b" using lo_of_next [of 60 a] by simp
    then show ?thesis using next_minute(1) [OF a m(1-3) True b(2)] ss_minute by blast
  next
    case False
    then have h: "b div 60 = a div 60" using le lb b(1) by (intro lo_of_same) simp_all
    note d = same_hour_ok(1) [OF same_minute_ok(1) [OF h]]
    have "yr b = yr a" using same_day [OF d] by (simp add: yr_def)
    then show ?thesis
      using same_day_ok [OF d, of s] same_hour_ok(3) [OF same_minute_ok(1) [OF h], of s]
        same_minute_ok(3) [OF h, of s] m by (simp add: aligned_def)
  qed
  then show "aligned s b"
    "ss b = 0 \<or> yr b = yr a \<and> month_ok s b \<and> day_ok s b \<and> hour_ok s b \<and> minute_ok s b" by simp_all
  assume "\<not> second_ok s a"
  moreover have "x = a" if "a \<le> x \<and> x < b" for x using that b(1) by simp
  ultimately show "\<forall>x. a \<le> x \<and> x < b \<longrightarrow> \<not> spec_match s x" by (auto simp: spec_match_def)
qed

subsection \<open>The search, one increment at a time\<close>

text \<open>The zone's offset is a whole number of minutes; the seconds from 31 days before the start
  to the end of the last year are in range.\<close>

definition search_ok :: "loc \<Rightarrow> int \<Rightarrow> int \<Rightarrow> int \<Rightarrow> bool" where
  "search_ok l off a0 y \<longleftrightarrow> fixed_loc l off \<and> 60 dvd off \<and> tm_ok off (a0 - 2678400) \<and> tm_ok off (year_hi y) \<and>
     y \<le> 10000000000 \<and> a0 \<le> year_hi y"

lemma search_ok_at:
  assumes "search_ok l off a0 y" and "a0 - 2678400 \<le> a" "a \<le> year_hi y"
  shows "tm_ok off a" "in_abs a" "fixed_loc l off"
proof -
  show l: "fixed_loc l off" using assms(1) by (simp add: search_ok_def)
  show t: "tm_ok off a" using assms unfolding search_ok_def by (blast intro: tm_ok_between)
  show "in_abs a" by (rule tm_abs(2) [OF l t])
qed

lemma search_ok_year: "search_ok l off a0 y \<Longrightarrow> in_abs a \<Longrightarrow> a < year_hi y \<Longrightarrow> yr a \<le> 100000000000"
  using year_hi_iff [of a y] by (simp add: search_ok_def)

lemma month_lo_bound: "in_abs a \<Longrightarrow> a - 2678400 \<le> month_lo a"
proof -
  assume a: "in_abs a"
  have "daysIn (mo a) (yr a) \<le> 31"
    using ymd_correct(1) [OF a] mlen_bounds [of "mo a" "isLeap (yr a)"] by (simp add: valid_date_def daysIn_mlen)
  then show ?thesis using month_bounds(4) [OF a] by (simp add: month_lo_def month_hi_def algebra_simps)
qed

text \<open>What is true of the second the search stands at.\<close>

definition found_none :: "spec_schedule \<Rightarrow> int \<Rightarrow> int \<Rightarrow> bool" where
  "found_none s a0 a \<longleftrightarrow> (\<forall>x. a0 \<le> x \<and> x < a \<longrightarrow> \<not> spec_match s x)"

fun pc_inv :: "spec_schedule \<Rightarrow> int \<Rightarrow> next_pc \<Rightarrow> int \<Rightarrow> bool" where
  "pc_inv s y WRAP a \<longleftrightarrow> True"
| "pc_inv s y NONE a \<longleftrightarrow> year_hi y \<le> a"
| "pc_inv s y MONTH a \<longleftrightarrow> a < year_hi y"
| "pc_inv s y DAY a \<longleftrightarrow> a < year_hi y \<and> month_ok s a"
| "pc_inv s y HOUR a \<longleftrightarrow> a < year_hi y \<and> month_ok s a \<and> day_ok s a"
| "pc_inv s y MINUTE a \<longleftrightarrow> a < year_hi y \<and> month_ok s a \<and> day_ok s a \<and> hour_ok s a"
| "pc_inv s y SECOND a \<longleftrightarrow> a < year_hi y \<and> month_ok s a \<and> day_ok s a \<and> hour_ok s a \<and> minute_ok s a"
| "pc_inv s y FOUND a \<longleftrightarrow> a < year_hi y \<and> spec_match s a"

definition at_second :: "spec_schedule \<Rightarrow> loc \<Rightarrow> int \<Rightarrow> int \<Rightarrow> int \<Rightarrow> next_state \<Rightarrow> int \<Rightarrow> bool" where
  "at_second s l off a0 y st a \<longleftrightarrow> n_t st = tm l off a \<and> a0 \<le> a \<and> a \<le> year_hi y \<and> found_none s a0 a \<and>
     (if n_added st then aligned s a else a = a0) \<and> pc_inv s y (n_pc st) a"

lemma at_second_move:
  assumes "at_second s l off a0 y st a" and "\<forall>x. a \<le> x \<and> x < b \<longrightarrow> \<not> spec_match s x"
    and "a \<le> b" "b \<le> year_hi y" "aligned s b" "pc_inv s y pc b"
  shows "at_second s l off a0 y \<lparr>n_pc = pc, n_t = tm l off b, n_added = True\<rparr> b"
  using assms by (auto simp: at_second_def found_none_def) (meson not_less)

text \<open>The counter that decreases: seconds to go, then the loops before this one.\<close>

fun pc_rank :: "next_pc \<Rightarrow> nat" where
  "pc_rank WRAP = 6" | "pc_rank MONTH = 5" | "pc_rank DAY = 4" | "pc_rank HOUR = 3" | "pc_rank MINUTE = 2"
| "pc_rank SECOND = 1" | "pc_rank FOUND = 0" | "pc_rank NONE = 0"

definition search_measure :: "int \<Rightarrow> int \<Rightarrow> next_state \<Rightarrow> nat" where
  "search_measure off y st =
     7 * nat (year_hi y - (tsec (n_t st) - absoluteToInternal + off)) + pc_rank (n_pc st)"

lemma measure_tm: "search_measure off y \<lparr>n_pc = pc, n_t = tm l off b, n_added = ad\<rparr> = 7 * nat (year_hi y - b) + pc_rank pc"
  by (simp add: search_measure_def tm_def)

lemma measure_at: "at_second s l off a0 y st a \<Longrightarrow> search_measure off y st = 7 * nat (year_hi y - a) + pc_rank (n_pc st)"
  by (simp add: search_measure_def at_second_def tm_def)

lemma measure_less: "a < b \<Longrightarrow> b \<le> Y \<Longrightarrow> 7 * nat (Y - b) + pc_rank pc < 7 * nat (Y - a) + k"
  by (cases pc) simp_all

text \<open>Every step keeps the invariant and lowers the counter.\<close>

definition step_ok :: "spec_schedule \<Rightarrow> loc \<Rightarrow> int \<Rightarrow> int \<Rightarrow> int \<Rightarrow> next_state \<Rightarrow> bool" where
  "step_ok s l off a0 y st \<longleftrightarrow>
     (\<exists>b. at_second s l off a0 y (next_step s l y st) b) \<and>
     search_measure off y (next_step s l y st) < search_measure off y st"

lemma step_okI:
  assumes at: "at_second s l off a0 y st a"
    and e: "next_step s l y st = \<lparr>n_pc = pc, n_t = tm l off b, n_added = True\<rparr>"
    and "\<forall>x. a \<le> x \<and> x < b \<longrightarrow> \<not> spec_match s x" "a < b" "b \<le> year_hi y" "aligned s b" "pc_inv s y pc b"
  shows "step_ok s l off a0 y st"
proof -
  have "at_second s l off a0 y (next_step s l y st) b"
    unfolding e by (rule at_second_move [OF at assms(3)]) (use assms in simp_all)
  moreover have "search_measure off y (next_step s l y st) < search_measure off y st"
    unfolding measure_at [OF at] e measure_tm using assms(4,5) by (rule measure_less)
  ultimately show ?thesis unfolding step_ok_def by blast
qed

lemma step_ok_pc:
  assumes at: "at_second s l off a0 y st a" and e: "next_step s l y st = st\<lparr>n_pc := pc\<rparr>"
    and "pc_inv s y pc a" and "pc_rank pc < pc_rank (n_pc st)"
  shows "step_ok s l off a0 y st"
proof -
  have "at_second s l off a0 y (next_step s l y st) a" using at assms(3) by (simp add: e at_second_def)
  moreover have "search_measure off y (next_step s l y st) < search_measure off y st"
    using assms(4) by (simp add: e search_measure_def)
  ultimately show ?thesis unfolding step_ok_def by blast
qed

lemma step_WRAP:
  assumes ok: "search_ok l off a0 y" and at: "at_second s l off a0 y st a" and pc: "n_pc st = WRAP"
  shows "step_ok s l off a0 y st"
proof -
  have a: "n_t st = tm l off a" "a0 - 2678400 \<le> a" "a \<le> year_hi y" using at by (simp_all add: at_second_def)
  note t = search_ok_at [OF ok a(2,3)]
  have "Time_Year (n_t st) > y \<longleftrightarrow> \<not> a < year_hi y"
    using tm_fields(1) [OF t(3,1)] year_hi_iff [OF t(2)] by (simp add: a(1) not_le [symmetric])
  then show ?thesis
    by (cases "a < year_hi y") (auto simp: next_step_def pc intro!: step_ok_pc [OF at])
qed

lemma step_MONTH:
  assumes ok: "search_ok l off a0 y" and at: "at_second s l off a0 y st a" and pc: "n_pc st = MONTH"
  shows "step_ok s l off a0 y st"
proof -
  have a: "n_t st = tm l off a" "a0 - 2678400 \<le> a" "a \<le> year_hi y" "a0 \<le> a" "a < year_hi y"
    using at pc by (simp_all add: at_second_def)
  note t = search_ok_at [OF ok a(2,3)] and f = tm_fields [OF search_ok_at(3,1) [OF ok a(2,3)]]
  show ?thesis
  proof (cases "month_ok s a")
    case True
    then have "next_step s l y st = st\<lparr>n_pc := DAY\<rparr>"
      by (simp add: next_step_def pc a(1) f(2) month_ok_def Let_def)
    then show ?thesis by (rule step_ok_pc [OF at]) (use True a(5) in \<open>simp_all add: pc\<close>)
  next
    case False
    define c b where "c = month_lo a" and "b = month_hi a"
    have yr: "yr a \<le> 100000000000" by (rule search_ok_year [OF ok t(2) a(5)])
    note mb = month_bounds [OF t(2)]
    have b: "b \<le> year_hi y" using month_hi_year [OF t(2)] year_hi_iff [OF t(2)] a(5) by (simp add: b_def)
    then have tb: "tm_ok off b" "in_abs b" using search_ok_at [OF ok, of b] mb a(2) by (simp_all add: b_def)
    have tc: "tm_ok off c" "in_abs c"
    proof -
      have "n_added st \<Longrightarrow> a = c" using at False by (simp add: at_second_def aligned_def c_def)
      moreover have "\<not> n_added st \<Longrightarrow> a = a0" using at by (simp add: at_second_def)
      ultimately have "a0 - 2678400 \<le> c" using month_lo_bound [OF t(2)] a(4) unfolding c_def by (cases "n_added st") auto
      then show "tm_ok off c" "in_abs c" using search_ok_at [OF ok, of c] mb a(3) by (simp_all add: c_def)
    qed
    have sc: "yr c = yr a" "mo c = mo a" using same_month [OF t(2) tc(2)] mb by (simp_all add: c_def)
    then have lc: "c = month_lo c" "month_hi c = b" by (simp_all add: month_lo_def month_hi_def c_def b_def)
    have base: "(if \<not> n_added st then Date (yr a) (mo a) 1 0 0 0 0 l else tm l off a) = tm l off c"
      using at False a(1) Date_month [OF t(3) t(1,2) _ yr] tc(1) by (auto simp: at_second_def aligned_def c_def)
    have ad: "Time_AddDate (tm l off c) 0 1 0 = tm l off b"
      using AddDate_month [OF t(3) tc(1) lc(1)] yr tb(1) by (simp add: sc lc(2))
    have no: "field_bit (s_Month s) (mo a) = 0" using False by (simp add: month_ok_def)
    have e: "next_step s l y st = \<lparr>n_pc = (if mo b = 1 then WRAP else MONTH), n_t = tm l off b, n_added = True\<rparr>"
      unfolding next_step_def Let_def pc next_pc.case a(1) f base ad tm_fields(2) [OF t(3) tb(1)]
      by (simp only: no if_True simp_thms)
    have "mo b \<noteq> 1 \<Longrightarrow> b < year_hi y"
      using next_month(2) [OF t(2)] tb(2) year_hi_iff [OF tb(2), of y] year_hi_iff [OF t(2), of y] a(5)
      by (simp add: b_def)
    then show ?thesis
      using next_month(1,3) [OF t(2), of s] tb(2) False mb b
      by (intro step_okI [OF at e]) (simp_all add: b_def)
  qed
qed

lemma lo_of_idem: "0 < k \<Longrightarrow> lo_of k (lo_of k a) = lo_of k a"
  by (simp add: lo_of_def)

text \<open>The start of the period the search is about to leave is in range.\<close>

lemma lo_ok:
  assumes ok: "search_ok l off a0 y" and a: "a0 \<le> a" "a < year_hi y" and k: "0 < k" "k \<le> 86400"
  shows "tm_ok off (lo_of k a)" "in_abs (lo_of k a)" "tm_ok off a" "in_abs a" "fixed_loc l off" "yr a \<le> 100000000000"
proof -
  note b = lo_of_bounds [OF k(1), of a]
  show "tm_ok off (lo_of k a)" "in_abs (lo_of k a)" using search_ok_at [OF ok, of "lo_of k a"] a k b by simp_all
  show "tm_ok off a" "in_abs a" "fixed_loc l off" using search_ok_at [OF ok, of a] a by simp_all
  then show "yr a \<le> 100000000000" using search_ok_year [OF ok] a(2) by simp
qed

lemma step_DAY:
  assumes ok: "search_ok l off a0 y" and at: "at_second s l off a0 y st a" and pc: "n_pc st = DAY"
  shows "step_ok s l off a0 y st"
proof -
  have a: "n_t st = tm l off a" "a0 \<le> a" "a < year_hi y" "month_ok s a" using at pc by (simp_all add: at_second_def)
  note t = lo_ok [OF ok a(2,3), of 86400, simplified] and f = tm_fields [OF search_ok_at(3,1) [OF ok]]
  note f = f [of a] and dm = tm_day_ok [OF t(5,3), of s]
  show ?thesis
  proof (cases "day_ok s a")
    case True
    have "next_step s l y st = st\<lparr>n_pc := HOUR\<rparr>" by (simp add: next_step_def pc a(1) dm True Let_def)
    then show ?thesis by (rule step_ok_pc [OF at]) (use True a in \<open>simp_all add: pc\<close>)
  next
    case False
    define c b where "c = lo_of 86400 a" and "b = lo_of 86400 a + 86400"
    note mb = month_bounds [OF t(4)] and lb = lo_of_bounds [of 86400 a, simplified]
    have "b \<le> month_hi a" using mb(2) by (simp add: b_def)
    then have b: "b \<le> year_hi y" using month_hi_year [OF t(4)] year_hi_iff [OF t(4)] a(3) by fastforce
    have tb: "tm_ok off b" "in_abs b" using search_ok_at [OF ok, of b] b a(2) lb by (simp_all add: b_def)
    have mid: "b = lo_of 86400 b" unfolding b_def by (rule lo_of_next [symmetric]) simp
    have "n_added st \<Longrightarrow> a = c"
      using at False month_lo_midnight [of a] by (auto simp: at_second_def aligned_def c_def)
    then have base: "(if \<not> n_added st then Date (yr a) (mo a) (dy a) 0 0 0 0 l else tm l off a) = tm l off c"
      using Date_day [OF t(5,4,1,6)] by (simp add: c_def)
    have "c div 86400 = a div 86400" by (simp add: c_def lo_of_def)
    then have "yr c = yr a" using same_day [of c a] by (simp add: yr_def)
    then have ad: "Time_AddDate (tm l off c) 0 0 1 = tm l off b"
      using AddDate_day [OF t(5), of c] t(1,6) tb(1) by (simp add: c_def b_def lo_of_idem)
    have adj: "adjust_midnight (tm l off b) = tm l off b"
      using tm_fields(4) [OF t(5) tb(1)] hh_midnight [OF mid] by (simp add: adjust_midnight_def)
    have e: "next_step s l y st = \<lparr>n_pc = (if dy b = 1 then WRAP else DAY), n_t = tm l off b, n_added = True\<rparr>"
      unfolding next_step_def Let_def pc next_pc.case a(1) dm tm_fields(1-3) [OF t(5,3)] base ad adj
        tm_fields(3) [OF t(5) tb(1)]
      by (simp only: False if_True not_False_eq_True)
    note nd = next_day [OF t(4) a(4) b_def tb(2)]
    have "dy b \<noteq> 1 \<Longrightarrow> b < year_hi y"
      using nd(2) year_hi_iff [OF tb(2), of y] year_hi_iff [OF t(4), of y] a(3) by simp
    then show ?thesis
      using nd False lb b by (intro step_okI [OF at e]) (auto simp: b_def)
  qed
qed

lemma step_HOUR:
  assumes ok: "search_ok l off a0 y" and at: "at_second s l off a0 y st a" and pc: "n_pc st = HOUR"
  shows "step_ok s l off a0 y st"
proof -
  have a: "n_t st = tm l off a" "a0 \<le> a" "a < year_hi y" "month_ok s a" "day_ok s a"
    using at pc by (simp_all add: at_second_def)
  note t = lo_ok [OF ok a(2,3), of 3600, simplified]
  show ?thesis
  proof (cases "hour_ok s a")
    case True
    then have "next_step s l y st = st\<lparr>n_pc := MINUTE\<rparr>"
      by (simp add: next_step_def pc a(1) tm_fields(4) [OF t(5,3)] hour_ok_def Let_def)
    then show ?thesis by (rule step_ok_pc [OF at]) (use True a in \<open>simp_all add: pc\<close>)
  next
    case False
    define c b where "c = lo_of 3600 a" and "b = lo_of 3600 a + 3600"
    note mb = month_bounds [OF t(4)] and lb = lo_of_bounds [of 3600 a, simplified]
    have "lo_of 86400 a + 86400 \<le> year_hi y"
      using mb(2) month_hi_year [OF t(4)] year_hi_iff [OF t(4)] a(3) by fastforce
    moreover have "b \<le> lo_of 86400 a + 86400"
      unfolding b_def using lo_of_bounds [of 86400 a, simplified]
      by (intro lo_of_le [of 86400 3600 _ _ 24, OF _ _ lo_of_next [symmetric]]) simp_all
    ultimately have b: "b \<le> year_hi y" by simp
    have tb: "tm_ok off b" "in_abs b" using search_ok_at [OF ok, of b] b a(2) lb by (simp_all add: b_def)
    have "n_added st \<Longrightarrow> a = c"
      using at False a month_lo_midnight [of a] midnight_hour [of a]
      by (auto simp: at_second_def aligned_def c_def)
    then have base: "(if \<not> n_added st then Date (yr a) (mo a) (dy a) (hh a) 0 0 0 l else tm l off a) = tm l off c"
      using Date_hour [OF t(5,4,1,6)] by (simp add: c_def)
    have ad: "Time_Add (tm l off c) (1 * Hour) = tm l off b"
      using tm_Add [of off c 3600 l] t(1) by (simp add: c_def b_def time_consts in_i64_def)
    have no: "field_bit (s_Hour s) (hh a) = 0" using False by (simp add: hour_ok_def)
    have e: "next_step s l y st = \<lparr>n_pc = (if hh b = 0 then WRAP else HOUR), n_t = tm l off b, n_added = True\<rparr>"
      unfolding next_step_def Let_def pc next_pc.case a(1) tm_fields(1-4) [OF t(5,3)] base ad
        tm_fields(4) [OF t(5) tb(1)]
      by (simp only: no if_True simp_thms)
    note nd = next_hour [OF t(4) a(4,5) b_def tb(2)]
    have "hh b \<noteq> 0 \<Longrightarrow> b < year_hi y"
      using nd(2) year_hi_iff [OF tb(2), of y] year_hi_iff [OF t(4), of y] a(3) by simp
    then show ?thesis
      using nd False lb b by (intro step_okI [OF at e]) (auto simp: b_def)
  qed
qed

lemma step_MINUTE:
  assumes ok: "search_ok l off a0 y" and at: "at_second s l off a0 y st a" and pc: "n_pc st = MINUTE"
  shows "step_ok s l off a0 y st"
proof -
  have a: "n_t st = tm l off a" "a0 \<le> a" "a < year_hi y" "month_ok s a" "day_ok s a" "hour_ok s a"
    using at pc by (simp_all add: at_second_def)
  note t = lo_ok [OF ok a(2,3), of 60, simplified]
  show ?thesis
  proof (cases "minute_ok s a")
    case True
    then have "next_step s l y st = st\<lparr>n_pc := SECOND\<rparr>"
      by (simp add: next_step_def pc a(1) tm_fields(5) [OF t(5,3)] minute_ok_def Let_def)
    then show ?thesis by (rule step_ok_pc [OF at]) (use True a in \<open>simp_all add: pc\<close>)
  next
    case False
    define c b where "c = lo_of 60 a" and "b = lo_of 60 a + 60"
    note mb = month_bounds [OF t(4)] and lb = lo_of_bounds [of 60 a, simplified]
    have "lo_of 86400 a + 86400 \<le> year_hi y"
      using mb(2) month_hi_year [OF t(4)] year_hi_iff [OF t(4)] a(3) by fastforce
    moreover have "b \<le> lo_of 86400 a + 86400"
      unfolding b_def using lo_of_bounds [of 86400 a, simplified]
      by (intro lo_of_le [of 86400 60 _ _ 1440, OF _ _ lo_of_next [symmetric]]) simp_all
    ultimately have b: "b \<le> year_hi y" by simp
    have tb: "tm_ok off b" "in_abs b" using search_ok_at [OF ok, of b] b a(2) lb by (simp_all add: b_def)
    have "n_added st \<Longrightarrow> a = c"
      using at False a month_lo_midnight [of a] midnight_hour [of a] hour_minute [of a]
      by (auto simp: at_second_def aligned_def c_def)
    then have base: "(if \<not> n_added st then Time_Truncate (tm l off a) Minute else tm l off a) = tm l off c"
      using tm_Truncate_Minute [OF t(3)] ok by (simp add: c_def search_ok_def)
    have ad: "Time_Add (tm l off c) (1 * Minute) = tm l off b"
      using tm_Add [of off c 60 l] t(1) by (simp add: c_def b_def time_consts in_i64_def)
    have no: "field_bit (s_Minute s) (mi a) = 0" using False by (simp add: minute_ok_def)
    have e: "next_step s l y st = \<lparr>n_pc = (if mi b = 0 then WRAP else MINUTE), n_t = tm l off b, n_added = True\<rparr>"
      unfolding next_step_def Let_def pc next_pc.case a(1) tm_fields(5) [OF t(5,3)] base ad
        tm_fields(5) [OF t(5) tb(1)]
      by (simp only: no if_True simp_thms)
    note nd = next_minute [OF t(4) a(4,5,6) b_def tb(2)]
    have "mi b \<noteq> 0 \<Longrightarrow> b < year_hi y"
      using nd(2) year_hi_iff [OF tb(2), of y] year_hi_iff [OF t(4), of y] a(3) by simp
    then show ?thesis
      using nd False lb b by (intro step_okI [OF at e]) (auto simp: b_def)
  qed
qed

lemma step_SECOND:
  assumes ok: "search_ok l off a0 y" and at: "at_second s l off a0 y st a" and pc: "n_pc st = SECOND"
  shows "step_ok s l off a0 y st"
proof -
  have a: "n_t st = tm l off a" "a0 \<le> a" "a < year_hi y" "month_ok s a" "day_ok s a" "hour_ok s a" "minute_ok s a"
    using at pc by (simp_all add: at_second_def)
  note t = lo_ok [OF ok a(2,3), of 60, simplified]
  show ?thesis
  proof (cases "second_ok s a")
    case True
    then have "next_step s l y st = st\<lparr>n_pc := FOUND\<rparr>"
      by (simp add: next_step_def pc a(1) tm_fields(6) [OF t(5,3)] second_ok_def Let_def)
    then show ?thesis by (rule step_ok_pc [OF at]) (use True a in \<open>simp_all add: pc spec_match_def\<close>)
  next
    case False
    define b where "b = a + 1"
    have b: "b \<le> year_hi y" using a(3) by (simp add: b_def)
    have tb: "tm_ok off b" "in_abs b" using search_ok_at [OF ok, of b] b a(2) by (simp_all add: b_def)
    have base: "(if \<not> n_added st then Time_Truncate (tm l off a) Second else tm l off a) = tm l off a"
      using tm_Truncate_Second [OF t(3)] by simp
    have ad: "Time_Add (tm l off a) (1 * Second) = tm l off b"
      using tm_Add [of off a 1 l] t(3) by (simp add: b_def time_consts in_i64_def)
    have no: "field_bit (s_Second s) (ss a) = 0" using False by (simp add: second_ok_def)
    have e: "next_step s l y st = \<lparr>n_pc = (if ss b = 0 then WRAP else SECOND), n_t = tm l off b, n_added = True\<rparr>"
      unfolding next_step_def Let_def pc next_pc.case a(1) tm_fields(6) [OF t(5,3)] base ad
        tm_fields(6) [OF t(5) tb(1)]
      by (simp only: no if_True simp_thms)
    note nd = next_second [OF t(4) a(4-7) b_def tb(2)]
    have "ss b \<noteq> 0 \<Longrightarrow> b < year_hi y"
      using nd(2) year_hi_iff [OF tb(2), of y] year_hi_iff [OF t(4), of y] a(3) by simp
    then show ?thesis
      using nd False b by (intro step_okI [OF at e]) (auto simp: b_def)
  qed
qed

lemma next_step_ok:
  assumes "search_ok l off a0 y" and "at_second s l off a0 y st a" and "\<not> next_done st"
  shows "step_ok s l off a0 y st"
  using assms(3)
proof (cases "n_pc st")
  case WRAP then show ?thesis by (rule step_WRAP [OF assms(1,2)])
next
  case MONTH then show ?thesis by (rule step_MONTH [OF assms(1,2)])
next
  case DAY then show ?thesis by (rule step_DAY [OF assms(1,2)])
next
  case HOUR then show ?thesis by (rule step_HOUR [OF assms(1,2)])
next
  case MINUTE then show ?thesis by (rule step_MINUTE [OF assms(1,2)])
next
  case SECOND then show ?thesis by (rule step_SECOND [OF assms(1,2)])
qed (simp_all add: next_done_def)

text \<open>The search ends, at the first match or, when there is none up to the year limit, with none.\<close>

lemma next_search_correct:
  assumes ok: "search_ok l off a0 y"
  obtains st a where "next_search s l y (tm l off a0) = Some st" "at_second s l off a0 y st a" "next_done st"
proof -
  define I where "I st \<longleftrightarrow> (\<exists>a. at_second s l off a0 y st a)" for st
  define st0 where "st0 = \<lparr>n_pc = WRAP, n_t = tm l off a0, n_added = False\<rparr>"
  have i0: "I st0"
    using ok by (auto simp: I_def at_second_def st0_def found_none_def search_ok_def)
  have step: "I (next_step s l y st) \<and> search_measure off y (next_step s l y st) < search_measure off y st"
    if "I st" "\<not> next_done st" for st
    using that next_step_ok [OF ok] by (auto simp: I_def step_ok_def)
  obtain st where st: "while_option (\<lambda>st. \<not> next_done st) (next_step s l y) st0 = Some st"
    using measure_while_option_Some [of I "\<lambda>st. \<not> next_done st" "next_step s l y" "search_measure off y" st0] step i0
    by blast
  have "I st" by (rule while_option_rule [where P = I, OF _ st i0]) (use step in blast)
  moreover have "next_done st" using while_option_stop [OF st] by simp
  ultimately show thesis using that st by (auto simp: I_def next_search_def st0_def)
qed

subsection \<open>Next\<close>

text \<open>The zone a schedule is read in, and the local second of an instant in it.\<close>

definition next_zone :: "spec_schedule \<Rightarrow> gtime \<Rightarrow> loc" where
  "next_zone s t = (if is_local (s_Location s) then tloc t else s_Location s)"

definition local_second :: "int \<Rightarrow> gtime \<Rightarrow> int" where
  "local_second off t = tsec t + off - absoluteToInternal"

text \<open>Instants from the second month of year 1 to about nine billion years later.\<close>

definition time_range :: "gtime \<Rightarrow> bool" where
  "time_range t \<longleftrightarrow> wall_ok t \<and> 2764800 \<le> tsec t \<and> tsec t \<le> 2 ^ 58"

lemma upcoming_tm:
  assumes t: "time_range t" and l: "tloc t = l"
  shows "upcoming t = tm l off (local_second off t + 1)"
proof -
  have n: "tmono t = None" "0 \<le> tnsec t" "tnsec t < 1000000000" "\<bar>tsec t\<bar> \<le> 2 ^ 62"
    using t by (auto simp: time_range_def wall_ok_def)
  have d: "in_i64 (1000000000 - tnsec t)" using n by (simp add: in_i64_def)
  have e: "i64 (1 * Second - i64 (tnsec t * Nanosecond)) = 1000000000 - tnsec t"
    using n by (simp add: time_consts i64_id in_i64_def)
  note r = Time_Add_wall [OF n d]
  define u where "u = Time_Add t (1000000000 - tnsec t)"
  have "inst u = inst (tm l off (local_second off t + 1))"
    unfolding u_def r(1) by (simp add: inst_def tm_def local_second_def)
  then have "tsec u = tsec (tm l off (local_second off t + 1))" "tnsec u = 0"
    using inst_eq_iff(1) [of u "tm l off (local_second off t + 1)"] r(3,4) by (simp_all add: tm_def u_def)
  then have "u = tm l off (local_second off t + 1)"
    using r(2,5) l by (intro gtime.equality) (simp_all add: tm_def u_def)
  then show ?thesis unfolding upcoming_def e u_def .
qed

lemma time_range_search:
  assumes t: "time_range t" and l: "fixed_loc l off" "60 dvd off"
  defines "a0 \<equiv> local_second off t + 1"
  shows "search_ok l off a0 (yr a0 + 5)" and "in_abs a0" and "\<bar>yr a0\<bar> \<le> 2 ^ 62"
proof -
  have o: "off \<le> 2147483648" "- 2147483648 \<le> off" using l(1) by (auto simp: fixed_loc_def)
  have ts: "2764800 \<le> tsec t" "tsec t \<le> 288230376151711744" using t by (simp_all add: time_range_def)
  have ok: "tm_ok off a0" "tm_ok off (a0 - 2678400)"
    using ts by (simp_all add: tm_ok_def a0_def local_second_def)
  show abs: "in_abs a0" by (rule tm_abs(2) [OF l(1) ok(1)])
  note c = ymd_correct [OF abs]
  define Y where "Y = yr a0 + 5"
  have y: "yr a0 \<le> 9999999990"
  proof -
    have "365 * (9999999990 + 1 - absoluteZeroYear) \<le> year_start (9999999990 + 1)"
      by (rule year_start_bounds(1)) (simp add: time_numbers)
    then have "a0 < year_hi 9999999990"
      using ts o unfolding a0_def local_second_def year_hi_def time_numbers by simp
    then show ?thesis using year_hi_iff [OF abs] by simp
  qed
  have b: "year_hi Y \<le> 366 * (Y + 1 - absoluteZeroYear) * 86400" "a0 \<le> year_hi Y"
    using year_start_bounds(2) [of "Y + 1"] c(3) year_hi_iff [OF abs, of Y] by (simp_all add: year_hi_def Y_def)
  then have "tm_ok off (year_hi Y)"
    using y o ts unfolding tm_ok_def Y_def a0_def local_second_def time_numbers by simp
  then show "search_ok l off a0 (yr a0 + 5)"
    using l ok(2) y b(2) by (simp add: search_ok_def Y_def)
  show "\<bar>yr a0\<bar> \<le> 2 ^ 62" using y c(3) by (simp add: time_numbers abs_le_iff)
qed

text \<open>The answer: the first match after \<open>t\<close>, or the zero time when there is none to the end of the fifth year.\<close>

lemma SpecSchedule_Next_correct:
  assumes t: "time_range t" and l: "fixed_loc (next_zone s t) off" "60 dvd off"
  defines "a0 \<equiv> local_second off t + 1"
  obtains (found) a where "SpecSchedule_Next s t = Some (setLoc (tm (next_zone s t) off a) (tloc t))"
      "a0 \<le> a" "a < year_hi (yr a0 + 5)" "spec_match s a" "found_none s a0 a"
  | (none) "SpecSchedule_Next s t = Some zero_time" "found_none s a0 (year_hi (yr a0 + 5))"
proof -
  define z where "z = next_zone s t"
  note sr = time_range_search [OF t l, folded a0_def z_def]
  define t' where "t' = (if \<not> is_local (s_Location s) then setLoc t (s_Location s) else t)"
  have t': "time_range t'" "tloc t' = z" "local_second off t' = local_second off t"
    using t by (auto simp: t'_def time_range_def wall_ok_def setLoc_def stripMono_def z_def next_zone_def local_second_def)
  have u: "upcoming t' = tm z off a0" using upcoming_tm [OF t'(1,2), of off] by (simp add: t'(3) a0_def)
  have ok: "tm_ok off a0" using search_ok_at(1) [OF sr(1)] sr(1) by (simp add: search_ok_def)
  have y: "i64 (Time_Year (tm z off a0) + 5) = yr a0 + 5"
    using tm_fields(1) [OF _ ok] l(1) sr(3) by (simp add: z_def i64_id in_i64_def abs_le_iff)
  obtain st a where st: "next_search s z (yr a0 + 5) (tm z off a0) = Some st"
    "at_second s z off a0 (yr a0 + 5) st a" "next_done st"
    by (rule next_search_correct [OF sr(1)])
  have N: "SpecSchedule_Next s t = Some (if n_pc st = NONE then zero_time else setLoc (n_t st) (tloc t))"
    unfolding SpecSchedule_Next_def Let_def t'_def [symmetric] u y next_zone_def [symmetric] z_def [symmetric] st(1)
    by simp
  have "n_pc st = FOUND \<or> n_pc st = NONE" using st(3) by (simp add: next_done_def)
  then show thesis
  proof
    assume "n_pc st = FOUND"
    then show thesis using st(2) N by (intro found [of a]) (simp_all add: at_second_def z_def)
  next
    assume "n_pc st = NONE"
    moreover from this have "a = year_hi (yr a0 + 5)" using st(2) by (simp add: at_second_def)
    ultimately show thesis using st(2) N by (intro none) (simp_all add: at_second_def)
  qed
qed

subsection \<open>A zone that skips a day\<close>

text \<open>Pacific/Apia moved across the date line at the end of December 29, 2011: December 30 does not exist there.\<close>

definition apia :: loc where
  "apia = Zone \<lparr>lname = ''Pacific/Apia'',
     lzone = [\<lparr>zname = ''-10'', zoffset = - 36000, zisDST = True\<rparr>, \<lparr>zname = ''+14'', zoffset = 50400, zisDST = True\<rparr>],
     ltx = [\<lparr>tx_when = alpha, tx_index = 0\<rparr>, \<lparr>tx_when = 1325239200, tx_index = 1\<rparr>],
     cacheStart = 0, cacheEnd = 0, cacheZone = None\<rparr>"

text \<open>Midnight of the last day of the year, every month.\<close>

definition month_end :: spec_schedule where
  "month_end = \<lparr>s_Second = 1, s_Minute = 1, s_Hour = 1, s_Dom = push_bit 31 1, s_Month = all_bits months,
     s_Dow = all_bits dow, s_Location = apia\<rparr>"

lemma while_option_stuck: "b x \<Longrightarrow> c x = x \<Longrightarrow> while_option b c x = None"
proof -
  assume b: "b x" and c: "c x = x"
  have "(c ^^ k) x = x" for k using c by (induction k) simp_all
  then show ?thesis using b by (simp add: while_option_def)
qed

lemma while_option_step: "b x \<Longrightarrow> while_option b c x = while_option b c (c x)"
  by (subst while_option_unfold) simp

definition apia_start :: gtime where
  "apia_start = \<lparr>tsec = 1325179800 + unixToInternal, tnsec = 0, tmono = None, tloc = apia\<rparr>"

definition stuck :: next_state where
  "stuck = \<lparr>n_pc = DAY, n_t = \<lparr>tsec = 1325152800 + unixToInternal, tnsec = 0, tmono = None, tloc = apia\<rparr>, n_added = True\<rparr>"

lemma stuck_step: "next_step month_end apia 2016 stuck = stuck"
  by code_simp

definition apia_at :: "next_pc \<Rightarrow> next_state" where
  "apia_at pc =
     \<lparr>n_pc = pc, n_t = \<lparr>tsec = 1325179801 + unixToInternal, tnsec = 0, tmono = None, tloc = apia\<rparr>, n_added = False\<rparr>"

lemma apia_upcoming: "\<lparr>n_pc = WRAP, n_t = upcoming apia_start, n_added = False\<rparr> = apia_at WRAP"
  by code_simp

lemma apia_wrap: "next_step month_end apia 2016 (apia_at WRAP) = apia_at MONTH"
  by code_simp

lemma apia_month: "next_step month_end apia 2016 (apia_at MONTH) = apia_at DAY"
  by code_simp

lemma apia_day: "next_step month_end apia 2016 (apia_at DAY) = stuck"
  by code_simp

lemma apia_year: "i64 (Time_Year (upcoming apia_start) + 5) = 2016"
  by code_simp

lemma apia_search: "next_search month_end apia 2016 (upcoming apia_start) = None"
proof -
  have "\<not> next_done stuck" by (simp add: stuck_def next_done_def)
  then have "while_option (\<lambda>st. \<not> next_done st) (next_step month_end apia 2016) stuck = None"
    using stuck_step by (rule while_option_stuck)
  moreover have "\<not> next_done (apia_at pc)" if "pc \<in> {WRAP, MONTH, DAY}" for pc
    using that by (auto simp: apia_at_def next_done_def)
  ultimately show ?thesis
    unfolding next_search_def apia_upcoming by (simp add: while_option_step apia_wrap apia_month apia_day)
qed

lemma apia_Next: "SpecSchedule_Next month_end apia_start = None"
proof -
  have "tloc apia_start = apia" "s_Location month_end = apia" "\<not> is_local apia" "setLoc apia_start apia = apia_start"
    by (simp_all add: apia_start_def month_end_def is_local_def apia_def setLoc_def stripMono_def)
  then show ?thesis by (simp add: SpecSchedule_Next_def Let_def apia_year apia_search)
qed

subsection \<open>Zones where a midnight is missing\<close>

text \<open>
  On November 4, 2018 clocks in Sao Paulo went from midnight to one, west of Greenwich; on March 31, 2024 those in Beirut
  did, east of it.
\<close>

definition zone_of :: "string \<Rightarrow> int \<Rightarrow> int \<Rightarrow> loc" where
  "zone_of name off start = Zone \<lparr>lname = name,
     lzone = [\<lparr>zname = ''std'', zoffset = off, zisDST = False\<rparr>, \<lparr>zname = ''dst'', zoffset = off + 3600, zisDST = True\<rparr>],
     ltx = [\<lparr>tx_when = alpha, tx_index = 0\<rparr>, \<lparr>tx_when = start, tx_index = 1\<rparr>],
     cacheStart = 0, cacheEnd = 0, cacheZone = None\<rparr>"

definition sao_paulo :: loc where "sao_paulo = zone_of ''America/Sao_Paulo'' (- 10800) 1541300400"
definition beirut :: loc where "beirut = zone_of ''Asia/Beirut'' 7200 1711836000"

text \<open>Every week on a weekday, at an hour.\<close>

definition weekly :: "nat \<Rightarrow> nat \<Rightarrow> loc \<Rightarrow> spec_schedule" where
  "weekly hour weekday l = \<lparr>s_Second = 1, s_Minute = 1, s_Hour = push_bit hour 1, s_Dom = all_bits dom_bounds, s_Month = all_bits months,
     s_Dow = push_bit weekday 1, s_Location = l\<rparr>"

text \<open>The bit sets of the stars as numbers, for evaluation.\<close>

lemma weekly_eq:
  "weekly hour weekday l = \<lparr>s_Second = 1, s_Minute = 1, s_Hour = push_bit hour 1, s_Dom = 9223372041149743102, s_Month = 9223372036854783998,
     s_Dow = push_bit weekday 1, s_Location = l\<rparr>"
proof -
  have "all_bits dom_bounds = 9223372041149743102" "all_bits months = 9223372036854783998" by code_simp+
  then show ?thesis by (simp add: weekly_def)
qed

definition unix_in :: "loc \<Rightarrow> int \<Rightarrow> gtime" where
  "unix_in l sec = \<lparr>tsec = sec + unixToInternal, tnsec = 0, tmono = None, tloc = l\<rparr>"

definition fields_match :: "spec_schedule \<Rightarrow> gtime \<Rightarrow> bool" where
  "fields_match s t \<longleftrightarrow> field_bit (s_Month s) (Time_Month t) \<noteq> 0 \<and> dayMatches s t \<and> field_bit (s_Hour s) (Time_Hour t) \<noteq> 0 \<and>
     field_bit (s_Minute s) (Time_Minute t) \<noteq> 0 \<and> field_bit (s_Second s) (Time_Second t) \<noteq> 0"

lemma sao_paulo_sunday: "SpecSchedule_Next (weekly 2 0 sao_paulo) (unix_in sao_paulo 1541250000) = Some (unix_in sao_paulo 1541304000)"
  unfolding weekly_eq by code_simp

subsection \<open>Constant delays\<close>

lemma ConstantDelay_Next_inst:
  assumes t: "wall_ok t" and d: "Second \<le> d" "d \<le> max_i64" "Second dvd d"
  shows "inst (ConstantDelay_Next d t) = (tsec t + d div Second) * 1000000000"
    and "tnsec (ConstantDelay_Next d t) = 0" "tsec (ConstantDelay_Next d t) = tsec t + d div Second"
    "tloc (ConstantDelay_Next d t) = tloc t" "tmono (ConstantDelay_Next d t) = None"
proof -
  obtain k where k: "d = 1000000000 * k" using d(3) by (auto simp: time_consts)
  have n: "tmono t = None" "0 \<le> tnsec t" "tnsec t < 1000000000" "\<bar>tsec t\<bar> \<le> 2 ^ 62"
    using t by (auto simp: wall_ok_def)
  have i: "in_i64 (d - tnsec t)" "i64 (tnsec t * Nanosecond) = tnsec t"
    using n d by (simp_all add: in_i64_def time_consts i64_id)
  then have e: "ConstantDelay_Next d t = Time_Add t (d - tnsec t)" by (simp add: ConstantDelay_Next_def i64_id)
  note r = Time_Add_wall [OF n i(1)]
  define u where "u = Time_Add t (d - tnsec t)"
  have dk: "d div Second = k" using k by (simp add: time_consts)
  have iu: "inst u = (tsec t + k) * 1000000000" unfolding u_def r(1) by (simp add: inst_def k algebra_simps)
  have "tsec u = tsec t + k \<and> tnsec u = 0"
    using inst_eq_iff(1) [of u "\<lparr>tsec = tsec t + k, tnsec = 0, tmono = None, tloc = tloc t\<rparr>"] iu r(3,4)
    by (simp add: u_def inst_def)
  then show "inst (ConstantDelay_Next d t) = (tsec t + d div Second) * 1000000000"
    "tnsec (ConstantDelay_Next d t) = 0" "tsec (ConstantDelay_Next d t) = tsec t + d div Second"
    "tloc (ConstantDelay_Next d t) = tloc t" "tmono (ConstantDelay_Next d t) = None"
    using iu r(2,5) unfolding e dk u_def [symmetric] by (simp_all add: u_def)
qed

text \<open>The answer in a fixed zone.\<close>

lemma next_first_match:
  assumes "time_range t" and "fixed_loc (next_zone s t) off" and "60 dvd off"
  shows "\<exists>r. SpecSchedule_Next s t = Some r \<and>
    (spec_match s (local_second off r) \<and> tsec t < tsec r \<and> tnsec r = 0 \<and> tloc r = tloc t \<and>
       (\<forall>a. local_second off t < a \<and> a < local_second off r \<longrightarrow> \<not> spec_match s a)
     \<or> r = zero_time \<and>
       (\<forall>a. local_second off t < a \<and> a < year_hi (yr (local_second off t + 1) + 5) \<longrightarrow> \<not> spec_match s a))"
proof (cases rule: SpecSchedule_Next_correct [OF assms])
  case (1 a)
  have "local_second off (setLoc (tm (next_zone s t) off a) (tloc t)) = a"
    by (simp add: local_second_def setLoc_def stripMono_def tm_def)
  moreover have "tsec (setLoc (tm (next_zone s t) off a) (tloc t)) = a + absoluteToInternal - off"
    "tnsec (setLoc (tm (next_zone s t) off a) (tloc t)) = 0" "tloc (setLoc (tm (next_zone s t) off a) (tloc t)) = tloc t"
    by (simp_all add: setLoc_def stripMono_def tm_def)
  ultimately show ?thesis
    using 1 by (intro exI [of _ "setLoc (tm (next_zone s t) off a) (tloc t)"]) (simp add: found_none_def local_second_def)
next
  case 2
  then show ?thesis by (intro exI [of _ zero_time]) (simp add: found_none_def)
qed

subsection \<open>Properties\<close>

text \<open>
  C7: in a zone of a fixed offset, a whole number of minutes, from an instant without a monotonic reading in the range
  of the calendar, \<open>Next\<close> returns, and returns the first second after the given time at which all six fields match; if
  there is none to the end of the fifth year it returns the zero time. And where daylight saving time removes a
  midnight west of Greenwich, the case the code adjusts for (Sao Paulo, Sunday November 4, 2018), the day is found: at two
  on Sundays, asked for on the Saturday before.
\<close>

theorem next_is_first_match:
  assumes "time_range t" and "fixed_loc (next_zone s t) off" and "60 dvd off"
  shows "(\<exists>r. SpecSchedule_Next s t = Some r \<and>
    (spec_match s (local_second off r) \<and> tsec t < tsec r \<and> tnsec r = 0 \<and> tloc r = tloc t \<and>
       (\<forall>a. local_second off t < a \<and> a < local_second off r \<longrightarrow> \<not> spec_match s a)
     \<or> r = zero_time \<and>
       (\<forall>a. local_second off t < a \<and> a < year_hi (yr (local_second off t + 1) + 5) \<longrightarrow> \<not> spec_match s a)))
   \<and> SpecSchedule_Next (weekly 2 0 sao_paulo) (unix_in sao_paulo 1541250000) = Some (unix_in sao_paulo 1541304000)"
  using next_first_match [OF assms] sao_paulo_sunday by blast

lemma next_is_first_match_witness:
  "\<exists>r. SpecSchedule_Next (month_end\<lparr>s_Location := UTC\<rparr>) \<lparr>tsec = 63000000000, tnsec = 5, tmono = None, tloc = UTC\<rparr> = Some r"
proof -
  have "time_range \<lparr>tsec = 63000000000, tnsec = 5, tmono = None, tloc = UTC\<rparr>"
    by (simp add: time_range_def wall_ok_def)
  moreover have "fixed_loc (next_zone (month_end\<lparr>s_Location := UTC\<rparr>)
      \<lparr>tsec = 63000000000, tnsec = 5, tmono = None, tloc = UTC\<rparr>) 0"
    by (simp add: next_zone_def is_local_def fixed_loc_def)
  ultimately show ?thesis
    using next_is_first_match [of "\<lparr>tsec = 63000000000, tnsec = 5, tmono = None, tloc = UTC\<rparr>"
        "month_end\<lparr>s_Location := UTC\<rparr>" 0] by blast
qed

text \<open>In a zone that skips a whole day the search need not end: asked in Pacific/Apia on December 29, 2011 for the
  last day of the month, it adds a day to that day's midnight and gets the same instant back, for ever.\<close>

theorem next_diverges_in_apia:
  "SpecSchedule_Next month_end apia_start = None"
  by (rule apia_Next)

text \<open>
  The loop over the hours looks for midnight to notice a new day, and a missing midnight hides it: asked on a Saturday
  night in Sao Paulo for one o'clock on Saturdays, \<open>Next\<close> answers one o'clock on Sunday.
\<close>

theorem next_on_the_wrong_day:
  "SpecSchedule_Next (weekly 1 6 sao_paulo) (unix_in sao_paulo 1541298600) = Some (unix_in sao_paulo 1541300400) \<and>
   \<not> dayMatches (weekly 1 6 sao_paulo) (unix_in sao_paulo 1541300400)"
  unfolding weekly_eq by (intro conjI; code_simp)

text \<open>
  East of Greenwich the day after comes out at one o'clock, and the adjustment takes it back to eleven in the evening of
  the day before; the next turn of the loop is past the day. Asked on the Saturday in Beirut for one o'clock on
  Sundays, \<open>Next\<close> misses Sunday March 31 and answers the Sunday after.
\<close>

theorem next_misses_a_day:
  "SpecSchedule_Next (weekly 1 0 beirut) (unix_in beirut 1711785600) = Some (unix_in beirut 1712440800) \<and>
   fields_match (weekly 1 0 beirut) (unix_in beirut 1711836000) \<and> (1711785600 :: int) < 1711836000 \<and> (1711836000 :: int) < 1712440800"
  unfolding weekly_eq by (intro conjI; code_simp)

text \<open>A constant delay fires on whole seconds, each time a delay after the second the given time is in.\<close>

theorem constant_delay_next:
  assumes "wall_ok t" and "schedule_ok (ConstantDelay d)"
  shows "Schedule_Next (ConstantDelay d) t = Some (t\<lparr>tsec := tsec t + d div Second, tnsec := 0\<rparr>)"
  using ConstantDelay_Next_inst [OF assms(1), of d] assms by (simp add: wall_ok_def)

lemma constant_delay_next_witness:
  "Schedule_Next (ConstantDelay 5000000000) \<lparr>tsec = 100, tnsec = 7, tmono = None, tloc = UTC\<rparr>
    = Some \<lparr>tsec = 105, tnsec = 0, tmono = None, tloc = UTC\<rparr>"
  using constant_delay_next [of "\<lparr>tsec = 100, tnsec = 7, tmono = None, tloc = UTC\<rparr>" 5000000000]
  by (simp add: wall_ok_def time_consts)

end
