(* ===== verification/GoSort.thy ===== *)
theory GoSort
  imports Prelude "HOL-Library.Multiset"
begin

text \<open>
  Package \<open>sort\<close> (src/src/sort/sort.go). \<open>sort.Interface\<close> on a
  slice is a list with a comparison: \<open>Less(i, j)\<close> compares the elements at two indices, \<open>Swap\<close>
  exchanges them. This theory holds the insertion sort, the order that \<open>Less\<close> has to be, and what
  \<open>sort.Sort\<close> promises a client, the locale \<open>sorter\<close>; the rest of the sort is in GoQuickSort.
\<close>

definition swap :: "'a list \<Rightarrow> nat \<Rightarrow> nat \<Rightarrow> 'a list" where
  "swap xs i j = xs[i := xs ! j, j := xs ! i]"

subsection \<open>Insertion sort\<close>

text \<open>The inner loop: sift the element at \<open>j\<close> down to its place, not below \<open>a\<close>.\<close>

fun sift_left :: "('a \<Rightarrow> 'a \<Rightarrow> bool) \<Rightarrow> nat \<Rightarrow> nat \<Rightarrow> 'a list \<Rightarrow> 'a list" where
  "sift_left lt a j xs =
     (if a < j \<and> lt (xs ! j) (xs ! (j - 1)) then sift_left lt a (j - 1) (swap xs j (j - 1)) else xs)"

declare sift_left.simps [simp del]

text \<open>The outer loop, from \<open>i\<close> on.\<close>

function insertion_from :: "('a \<Rightarrow> 'a \<Rightarrow> bool) \<Rightarrow> nat \<Rightarrow> nat \<Rightarrow> nat \<Rightarrow> 'a list \<Rightarrow> 'a list" where
  "insertion_from lt a b i xs =
     (if i < b then insertion_from lt a b (i + 1) (sift_left lt a i xs) else xs)"
  by pat_completeness auto
termination
  by (relation "measure (\<lambda>(lt, a, b, i, xs). b - i)") auto

declare insertion_from.simps [simp del]

definition insertionSort :: "('a \<Rightarrow> 'a \<Rightarrow> bool) \<Rightarrow> 'a list \<Rightarrow> nat \<Rightarrow> nat \<Rightarrow> 'a list" where
  "insertionSort lt xs a b = insertion_from lt a b (a + 1) xs"

subsection \<open>Permutation\<close>

lemma length_swap [simp]: "length (swap xs i j) = length xs"
  by (simp add: swap_def)

lemma mset_swap [simp]: "i < length xs \<Longrightarrow> j < length xs \<Longrightarrow> mset (swap xs i j) = mset xs"
  by (simp add: swap_def mset_swap)

lemma sift_left_mset: "j < length xs \<Longrightarrow> mset (sift_left lt a j xs) = mset xs \<and> length (sift_left lt a j xs) = length xs"
proof (induction lt a j xs rule: sift_left.induct)
  case (1 lt a j xs)
  then show ?case by (subst (1 2) sift_left.simps) auto
qed

lemma insertion_from_mset:
  "b \<le> length xs \<Longrightarrow> mset (insertion_from lt a b i xs) = mset xs \<and> length (insertion_from lt a b i xs) = length xs"
proof (induction lt a b i xs rule: insertion_from.induct)
  case (1 lt a b i xs)
  show ?case
  proof (cases "i < b")
    case True
    then have "mset (sift_left lt a i xs) = mset xs \<and> length (sift_left lt a i xs) = length xs"
      using 1(2) by (intro sift_left_mset) simp
    then show ?thesis using 1(1) [OF True] 1(2) True by (subst (1 2) insertion_from.simps) simp
  next
    case False
    then show ?thesis by (subst (1 2) insertion_from.simps) simp
  qed
qed

subsection \<open>Order\<close>

text \<open>A strict weak order on the elements that occur: \<open>Less\<close> as sort.go asks for it.\<close>

definition weak_order :: "'a set \<Rightarrow> ('a \<Rightarrow> 'a \<Rightarrow> bool) \<Rightarrow> bool" where
  "weak_order S lt \<longleftrightarrow> (\<forall>x \<in> S. \<forall>y \<in> S. lt x y \<longrightarrow> \<not> lt y x) \<and>
     (\<forall>x \<in> S. \<forall>y \<in> S. \<forall>z \<in> S. \<not> lt y x \<and> \<not> lt z y \<longrightarrow> \<not> lt z x)"

text \<open>In the positions from \<open>a\<close> up to \<open>n\<close> no element comes after a greater one, but for the one at \<open>j\<close>.\<close>

definition sorted_but :: "('a \<Rightarrow> 'a \<Rightarrow> bool) \<Rightarrow> 'a list \<Rightarrow> nat \<Rightarrow> nat \<Rightarrow> nat \<Rightarrow> bool" where
  "sorted_but lt xs a n j \<longleftrightarrow>
     (\<forall>p q. a \<le> p \<and> p < q \<and> q < n \<and> q \<noteq> j \<longrightarrow> \<not> lt (xs ! q) (xs ! p))"

definition sorted_in :: "('a \<Rightarrow> 'a \<Rightarrow> bool) \<Rightarrow> 'a list \<Rightarrow> nat \<Rightarrow> nat \<Rightarrow> bool" where
  "sorted_in lt xs a n \<longleftrightarrow> (\<forall>p q. a \<le> p \<and> p < q \<and> q < n \<longrightarrow> \<not> lt (xs ! q) (xs ! p))"

lemma swap_nth:
  "i < length xs \<Longrightarrow> j < length xs \<Longrightarrow> swap xs i j ! k = (if k = j then xs ! i else if k = i then xs ! j else xs ! k)"
  by (auto simp: swap_def nth_list_update)

lemma sift_left_sorted:
  assumes "weak_order S lt"
  shows "a \<le> j \<Longrightarrow> j < n \<Longrightarrow> n \<le> length xs \<Longrightarrow> set xs \<subseteq> S \<Longrightarrow> sorted_but lt xs a n j \<Longrightarrow> sorted_in lt (sift_left lt a j xs) a n"
proof (induction j arbitrary: xs)
  case 0
  then show ?case by (subst sift_left.simps) (auto simp: sorted_but_def sorted_in_def)
next
  case (Suc j)
  note irr = assms [unfolded weak_order_def]
  have mem: "xs ! k \<in> S" if "k < n" for k using Suc.prems(3,4) that by (meson nth_mem order_less_le_trans subsetD)
  show ?case
  proof (cases "a < Suc j \<and> lt (xs ! Suc j) (xs ! j)")
    case True
    have sb: "\<not> lt (xs ! q) (xs ! p)" if "a \<le> p" "p < q" "q < n" "q \<noteq> Suc j" for p q
      using Suc.prems(5) that unfolding sorted_but_def by blast
    have "sorted_but lt (swap xs (Suc j) j) a n j"
      unfolding sorted_but_def
    proof (intro allI impI)
      fix p q assume pq: "a \<le> p \<and> p < q \<and> q < n \<and> q \<noteq> j"
      have sw: "swap xs (Suc j) j ! k = (if k = j then xs ! Suc j else if k = Suc j then xs ! j else xs ! k)" for k
        using Suc.prems by (intro swap_nth) simp_all
      have j: "\<not> lt (xs ! j) (xs ! Suc j)" 
        using True mem [of j] mem [of "Suc j"] Suc.prems(2) irr [THEN conjunct1, rule_format, of "xs ! Suc j" "xs ! j"] by simp
      show "\<not> lt (swap xs (Suc j) j ! q) (swap xs (Suc j) j ! p)"
      proof (cases "q = Suc j")
        case q: True
        then show ?thesis using pq j sb [of p j] Suc.prems(2) by (cases "p = j") (simp_all add: sw)
      next
        case False
        then have "swap xs (Suc j) j ! q = xs ! q" using pq by (simp add: sw)
        moreover have "\<not> lt (xs ! q) (xs ! j)" if "p = Suc j" using sb [of j q] that pq True False by simp
        moreover have "\<not> lt (xs ! q) (xs ! Suc j)" if "p = j" using sb [of "Suc j" q] that pq True False by simp
        ultimately show ?thesis using sb [of p q] pq False by (simp add: sw)
      qed
    qed
    moreover have "set (swap xs (Suc j) j) \<subseteq> S"
      using Suc.prems mset_swap [of "Suc j" xs j] by (metis Suc_lessD order_less_le_trans set_mset_mset)
    ultimately show ?thesis using True Suc.IH [of "swap xs (Suc j) j"] Suc.prems by (subst sift_left.simps) simp
  next
    case False
    then have e: "sift_left lt a (Suc j) xs = xs" by (subst sift_left.simps) auto
    show ?thesis
      unfolding e sorted_in_def
    proof (intro allI impI)
      fix p q assume pq: "a \<le> p \<and> p < q \<and> q < n"
      show "\<not> lt (xs ! q) (xs ! p)"
      proof (cases "q = Suc j")
        case True
        then have l: "\<not> lt (xs ! Suc j) (xs ! j)" using False pq by simp
        show ?thesis
        proof (cases "p = j")
          case True then show ?thesis using l \<open>q = Suc j\<close> by simp
        next
          case ne: False
          then have "\<not> lt (xs ! j) (xs ! p)" using Suc.prems(5) pq True unfolding sorted_but_def by simp
          moreover have "xs ! p \<in> S" "xs ! j \<in> S" "xs ! Suc j \<in> S" using mem pq True Suc.prems(2) by simp_all
          ultimately show ?thesis using l irr True by blast
        qed
      next
        case ne: False
        then show ?thesis using Suc.prems(5) pq unfolding sorted_but_def by blast
      qed
    qed
  qed
qed

lemma insertion_from_sorted:
  assumes "weak_order S lt"
  shows "a < i \<Longrightarrow> b \<le> length xs \<Longrightarrow> set xs \<subseteq> S \<Longrightarrow> sorted_in lt xs a i \<Longrightarrow> sorted_in lt (insertion_from lt a b i xs) a b"
proof (induction "b - i" arbitrary: i xs)
  case 0
  then show ?case by (subst insertion_from.simps) (auto simp: sorted_in_def)
next
  case (Suc n)
  then have i: "i < b" by simp
  have "sorted_but lt xs a (i + 1) i" using Suc.prems(4) by (auto simp: sorted_in_def sorted_but_def)
  then have "sorted_in lt (sift_left lt a i xs) a (i + 1)"
    using Suc.prems i by (intro sift_left_sorted [OF assms]) simp_all
  moreover have "length (sift_left lt a i xs) = length xs" "set (sift_left lt a i xs) = set xs"
    using sift_left_mset [of i xs lt a] Suc.prems i by (simp_all flip: set_mset_mset)
  ultimately show ?case
    using Suc.hyps Suc.prems i by (subst insertion_from.simps) simp
qed

lemma insertionSort_sorted: "weak_order S lt \<Longrightarrow> b \<le> length xs \<Longrightarrow> set xs \<subseteq> S \<Longrightarrow> sorted_in lt (insertionSort lt xs a b) a b"
  unfolding insertionSort_def by (rule insertion_from_sorted) (auto simp: sorted_in_def)

lemma insertionSort_mset: "b \<le> length xs \<Longrightarrow> mset (insertionSort lt xs a b) = mset xs"
  using insertion_from_mset [of b xs lt a "a + 1"] by (simp add: insertionSort_def)

text \<open>A list that no later element is less than an earlier one of.\<close>

lemma sorted_in_wrt: "sorted_in lt xs 0 (length xs) \<longleftrightarrow> sorted_wrt (\<lambda>x y. \<not> lt y x) xs"
  by (auto simp: sorted_in_def sorted_wrt_iff_nth_less)

subsection \<open>What a sort promises\<close>

locale sorter =
  fixes srt :: "'a list \<Rightarrow> 'a list" and lt :: "'a \<Rightarrow> 'a \<Rightarrow> bool" and ok :: "'a \<Rightarrow> bool"
  assumes srt_mset: "mset (srt xs) = mset xs"
    and srt_sorted: "(\<And>x. x \<in> set xs \<Longrightarrow> ok x) \<Longrightarrow> sorted_wrt (\<lambda>x y. \<not> lt y x) (srt xs)"
begin

lemma srt_set: "set (srt xs) = set xs"
  using srt_mset by (metis set_mset_mset)

lemma srt_length: "length (srt xs) = length xs"
  using srt_mset by (metis size_mset)

lemma srt_distinct: "distinct (map f (srt xs)) \<longleftrightarrow> distinct (map f xs)"
proof -
  have "mset (map f (srt xs)) = mset (map f xs)" using srt_mset by simp
  then show ?thesis by (metis mset_eq_imp_distinct_iff)
qed

text \<open>The first element is not greater than any other.\<close>

lemma srt_hd_least: "(\<And>x. x \<in> set xs \<Longrightarrow> ok x) \<Longrightarrow> srt xs = x # ys \<Longrightarrow> y \<in> set ys \<Longrightarrow> \<not> lt y x"
  using srt_sorted [of xs] by simp

end

end
