(* ===== verification/GoQuickSort.thy ===== *)
theory GoQuickSort
  imports GoSort
begin

text \<open>
  \<open>sort.Sort\<close> of src/src/sort/sort.go in full: heap sort, the median of three, the pivot, quicksort with its
  depth limit and the pass with gap 6 before the insertion sort. The operations work on one list by
  \<open>Less\<close> and \<open>Swap\<close> at indices, as the code does on its \<open>Interface\<close>. The theory proves that the result is a
  permutation of the elements, that nothing outside the range moves, and that it is sorted whenever
  \<open>Less\<close> is a strict weak order on the elements.
\<close>

subsection \<open>Heap sort\<close>

text \<open>\<open>siftDown\<close>: the loop goes down from \<open>root\<close>.\<close>

function siftDown :: "('a \<Rightarrow> 'a \<Rightarrow> bool) \<Rightarrow> 'a list \<Rightarrow> nat \<Rightarrow> nat \<Rightarrow> nat \<Rightarrow> 'a list" where
  "siftDown lt xs root hi first =
     (let child = 2 * root + 1
      in if child \<ge> hi then xs
         else
           let child = (if child + 1 < hi \<and> lt (xs ! (first + child)) (xs ! (first + child + 1)) then child + 1 else child)
           in if \<not> lt (xs ! (first + root)) (xs ! (first + child)) then xs
              else siftDown lt (swap xs (first + root) (first + child)) child hi first)"
  by pat_completeness auto
termination
  by (relation "measure (\<lambda>(lt, xs, root, hi, first). hi - root)") (auto simp: Let_def)

declare siftDown.simps [simp del]

text \<open>The two loops of \<open>heapSort\<close>; the argument is one more than the loop's index.\<close>

fun build_heap :: "('a \<Rightarrow> 'a \<Rightarrow> bool) \<Rightarrow> nat \<Rightarrow> nat \<Rightarrow> nat \<Rightarrow> 'a list \<Rightarrow> 'a list" where
  "build_heap lt hi first 0 xs = xs"
| "build_heap lt hi first (Suc i) xs = build_heap lt hi first i (siftDown lt xs i hi first)"

fun pop_heap :: "('a \<Rightarrow> 'a \<Rightarrow> bool) \<Rightarrow> nat \<Rightarrow> nat \<Rightarrow> 'a list \<Rightarrow> 'a list" where
  "pop_heap lt first 0 xs = xs"
| "pop_heap lt first (Suc i) xs = pop_heap lt first i (siftDown lt (swap xs first (first + i)) 0 i first)"

text \<open>Go's division rounds towards zero, so for an empty range the first loop starts at 0.\<close>

definition heapSort :: "('a \<Rightarrow> 'a \<Rightarrow> bool) \<Rightarrow> 'a list \<Rightarrow> nat \<Rightarrow> nat \<Rightarrow> 'a list" where
  "heapSort lt xs a b =
     (let first = a; hi = b - a
      in pop_heap lt first hi (build_heap lt hi first ((hi - 1) div 2 + 1) xs))"

subsection \<open>The pivot\<close>

definition medianOfThree :: "('a \<Rightarrow> 'a \<Rightarrow> bool) \<Rightarrow> 'a list \<Rightarrow> nat \<Rightarrow> nat \<Rightarrow> nat \<Rightarrow> 'a list" where
  "medianOfThree lt xs m1 m0 m2 =
     (let xs = (if lt (xs ! m1) (xs ! m0) then swap xs m1 m0 else xs)
      in if lt (xs ! m2) (xs ! m1)
         then let xs = swap xs m2 m1 in if lt (xs ! m1) (xs ! m0) then swap xs m1 m0 else xs
         else xs)"

text \<open>Scans up while a condition holds and the bound is not reached, and down.\<close>

function scan_up :: "(nat \<Rightarrow> bool) \<Rightarrow> nat \<Rightarrow> nat \<Rightarrow> nat" where
  "scan_up P c b = (if b < c \<and> P b then scan_up P c (b + 1) else b)"
  by pat_completeness auto
termination
  by (relation "measure (\<lambda>(P, c, b). c - b)") auto

fun scan_down :: "(nat \<Rightarrow> bool) \<Rightarrow> nat \<Rightarrow> nat \<Rightarrow> nat" where
  "scan_down P b 0 = 0"
| "scan_down P b (Suc c) = (if b < Suc c \<and> P c then scan_down P b c else Suc c)"

declare scan_up.simps [simp del]

text \<open>The main loop: elements above the pivot to the right of \<open>c\<close>.\<close>

function split_loop :: "('a \<Rightarrow> 'a \<Rightarrow> bool) \<Rightarrow> nat \<Rightarrow> 'a list \<Rightarrow> nat \<Rightarrow> nat \<Rightarrow> 'a list \<times> nat \<times> nat" where
  "split_loop lt pivot xs b c =
     (let b' = scan_up (\<lambda>k. \<not> lt (xs ! pivot) (xs ! k)) c b;
          c' = scan_down (\<lambda>k. lt (xs ! pivot) (xs ! k)) b' c
      in if b' \<ge> c' then (xs, b', c') else split_loop lt pivot (swap xs b' (c' - 1)) (b' + 1) (c' - 1))"
  by pat_completeness auto

lemma scan_up_ge: "b \<le> scan_up P c b"
proof (induction P c b rule: scan_up.induct)
  case (1 P c b)
  then show ?case by (subst scan_up.simps) auto
qed

lemma scan_down_le: "scan_down P b c \<le> c"
  by (induction P b c rule: scan_down.induct) auto

termination split_loop
proof (relation "measure (\<lambda>(lt, pivot, xs, b, c). c - b)", goal_cases)
  case (2 lt pivot xs b c b' c')
  then show ?case
    using scan_up_ge [of b "\<lambda>k. \<not> lt (xs ! pivot) (xs ! k)" c]
      scan_down_le [of "\<lambda>k. lt (xs ! pivot) (xs ! k)" b' c] by simp
qed simp

text \<open>The loop that protects against duplicates: elements equal to the pivot to the right of \<open>b\<close>.\<close>

function protect_loop :: "('a \<Rightarrow> 'a \<Rightarrow> bool) \<Rightarrow> nat \<Rightarrow> 'a list \<Rightarrow> nat \<Rightarrow> nat \<Rightarrow> 'a list \<times> nat" where
  "protect_loop lt pivot xs a b =
     (let b' = scan_down (\<lambda>k. \<not> lt (xs ! k) (xs ! pivot)) a b;
          a' = scan_up (\<lambda>k. lt (xs ! k) (xs ! pivot)) b' a
      in if a' \<ge> b' then (xs, b') else protect_loop lt pivot (swap xs a' (b' - 1)) (a' + 1) (b' - 1))"
  by pat_completeness auto
termination
proof (relation "measure (\<lambda>(lt, pivot, xs, a, b). b - a)", goal_cases)
  case (2 lt pivot xs a b b' a')
  then show ?case
    using scan_up_ge [of a "\<lambda>k. lt (xs ! k) (xs ! pivot)" b']
      scan_down_le [of "\<lambda>k. \<not> lt (xs ! k) (xs ! pivot)" a b] by simp
qed simp

declare split_loop.simps [simp del] protect_loop.simps [simp del]

definition choose_pivot :: "('a \<Rightarrow> 'a \<Rightarrow> bool) \<Rightarrow> 'a list \<Rightarrow> nat \<Rightarrow> nat \<Rightarrow> 'a list" where
  "choose_pivot lt xs lo hi =
     (let m = (lo + hi) div 2;
          xs = (if hi - lo > 40
                then let s = (hi - lo) div 8;
                         xs = medianOfThree lt xs lo (lo + s) (lo + 2 * s);
                         xs = medianOfThree lt xs m (m - s) (m + s)
                     in medianOfThree lt xs (hi - 1) (hi - 1 - s) (hi - 1 - 2 * s)
                else xs)
      in medianOfThree lt xs lo m (hi - 1))"

text \<open>The three tests for elements equal to the pivot: the list, \<open>b\<close>, \<open>c\<close> and how many were found.\<close>

definition test_dups :: "('a \<Rightarrow> 'a \<Rightarrow> bool) \<Rightarrow> nat \<Rightarrow> nat \<Rightarrow> nat \<Rightarrow> 'a list \<Rightarrow> nat \<Rightarrow> nat \<Rightarrow> 'a list \<times> nat \<times> nat \<times> nat" where
  "test_dups lt pivot m hi xs b c =
     (let (xs, c, dups) = (if \<not> lt (xs ! pivot) (xs ! (hi - 1)) then (swap xs c (hi - 1), c + 1, 1) else (xs, c, 0));
          (b, dups) = (if \<not> lt (xs ! (b - 1)) (xs ! pivot) then (b - 1, dups + 1) else (b, dups))
      in if \<not> lt (xs ! m) (xs ! pivot) then (swap xs m (b - 1), b - 1, c, dups + 1) else (xs, b, c, dups))"

definition doPivot :: "('a \<Rightarrow> 'a \<Rightarrow> bool) \<Rightarrow> 'a list \<Rightarrow> nat \<Rightarrow> nat \<Rightarrow> 'a list \<times> nat \<times> nat" where
  "doPivot lt xs lo hi =
     (let m = (lo + hi) div 2;
          xs = choose_pivot lt xs lo hi;
          pivot = lo;
          a = scan_up (\<lambda>k. lt (xs ! k) (xs ! pivot)) (hi - 1) (lo + 1);
          (xs, b, c) = split_loop lt pivot xs a (hi - 1);
          protect = (hi - c < 5);
          (xs, b, c, protect) =
            (if \<not> protect \<and> hi - c < (hi - lo) div 4
             then let (xs, b, c, dups) = test_dups lt pivot m hi xs b c in (xs, b, c, dups > 1)
             else (xs, b, c, protect));
          (xs, b) = (if protect then protect_loop lt pivot xs a b else (xs, b))
      in (swap xs pivot (b - 1), b - 1, c))"

subsection \<open>Quicksort\<close>

text \<open>The pass with gap 6.\<close>

function gap_pass :: "('a \<Rightarrow> 'a \<Rightarrow> bool) \<Rightarrow> nat \<Rightarrow> nat \<Rightarrow> 'a list \<Rightarrow> 'a list" where
  "gap_pass lt b i xs =
     (if i < b then gap_pass lt b (i + 1) (if lt (xs ! i) (xs ! (i - 6)) then swap xs i (i - 6) else xs) else xs)"
  by pat_completeness auto
termination
  by (relation "measure (\<lambda>(lt, b, i, xs). b - i)") auto

declare gap_pass.simps [simp del]

text \<open>The loop of \<open>quickSort\<close> gives up one unit of \<open>maxDepth\<close> in every turn: the turn and the recursive call both get the rest.\<close>

fun quickSort :: "('a \<Rightarrow> 'a \<Rightarrow> bool) \<Rightarrow> 'a list \<Rightarrow> nat \<Rightarrow> nat \<Rightarrow> nat \<Rightarrow> 'a list" where
  "quickSort lt xs a b maxDepth =
     (if b - a > 12
      then (case maxDepth of
              0 \<Rightarrow> heapSort lt xs a b
            | Suc d \<Rightarrow>
                let (xs, mlo, mhi) = doPivot lt xs a b
                in if mlo - a < b - mhi then quickSort lt (quickSort lt xs a mlo d) mhi b d
                   else quickSort lt (quickSort lt xs mhi b d) a mlo d)
      else if b - a > 1 then insertionSort lt (gap_pass lt b (a + 6) xs) a b
      else xs)"

declare quickSort.simps [simp del]

function depth_loop :: "nat \<Rightarrow> nat" where
  "depth_loop i = (if i > 0 then depth_loop (i div 2) + 1 else 0)"
  by pat_completeness auto
termination
  by (relation "measure id") auto

declare depth_loop.simps [simp del]

definition maxDepth :: "nat \<Rightarrow> nat" where
  "maxDepth n = depth_loop n * 2"

definition Sort :: "('a \<Rightarrow> 'a \<Rightarrow> bool) \<Rightarrow> 'a list \<Rightarrow> 'a list" where
  "Sort lt data = quickSort lt data 0 (length data) (maxDepth (length data))"

fun sorted_scan :: "('a \<Rightarrow> 'a \<Rightarrow> bool) \<Rightarrow> 'a list \<Rightarrow> nat \<Rightarrow> bool" where
  "sorted_scan lt data 0 = True"
| "sorted_scan lt data (Suc i) = (if lt (data ! Suc i) (data ! i) then False else sorted_scan lt data i)"

definition IsSorted :: "('a \<Rightarrow> 'a \<Rightarrow> bool) \<Rightarrow> 'a list \<Rightarrow> bool" where
  "IsSorted lt data = sorted_scan lt data (length data - 1)"


subsection \<open>Rearrangement of a range\<close>

text \<open>The same elements, and the same element at every position outside the range.\<close>

definition rearr :: "nat \<Rightarrow> nat \<Rightarrow> 'a list \<Rightarrow> 'a list \<Rightarrow> bool" where
  "rearr lo hi xs ys \<longleftrightarrow> mset ys = mset xs \<and> (\<forall>k. k < lo \<or> hi \<le> k \<longrightarrow> ys ! k = xs ! k)"

lemma rearr_length: "rearr lo hi xs ys \<Longrightarrow> length ys = length xs"
  unfolding rearr_def by (metis size_mset)

lemma rearr_refl [simp]: "rearr lo hi xs xs"
  by (simp add: rearr_def)

lemma rearr_trans: "rearr lo hi xs ys \<Longrightarrow> rearr lo hi ys zs \<Longrightarrow> rearr lo hi xs zs"
  by (simp add: rearr_def)

lemma rearr_mono: "rearr lo hi xs ys \<Longrightarrow> lo' \<le> lo \<Longrightarrow> hi \<le> hi' \<Longrightarrow> rearr lo' hi' xs ys"
  by (auto simp: rearr_def)

lemma rearr_outside: "rearr lo hi xs ys \<Longrightarrow> k < lo \<or> hi \<le> k \<Longrightarrow> ys ! k = xs ! k"
  by (auto simp: rearr_def)

lemma rearr_swap: "lo \<le> i \<Longrightarrow> i < hi \<Longrightarrow> lo \<le> j \<Longrightarrow> j < hi \<Longrightarrow> hi \<le> length xs \<Longrightarrow> rearr lo hi xs (swap xs i j)"
  by (auto simp: rearr_def swap_nth)

lemma rearr_set: "rearr lo hi xs ys \<Longrightarrow> set ys = set xs"
  unfolding rearr_def by (metis set_mset_mset)

text \<open>What holds of every element in the range still does.\<close>

lemma rearr_slice:
  assumes "rearr lo hi xs ys" and "lo \<le> hi" "hi \<le> length xs"
  shows "mset (take (hi - lo) (drop lo ys)) = mset (take (hi - lo) (drop lo xs))"
proof -
  have l: "length ys = length xs" by (rule rearr_length [OF assms(1)])
  have "take lo ys = take lo xs" using assms l by (intro nth_equalityI) (auto simp: rearr_def)
  moreover have "drop hi ys = drop hi xs" using assms l by (intro nth_equalityI) (auto simp: rearr_def)
  moreover have "zs = take lo zs @ take (hi - lo) (drop lo zs) @ drop hi zs" for zs :: "'a list"
    using assms(2) by (metis append_take_drop_id drop_drop le_add_diff_inverse2)
  ultimately have "mset (take lo xs) + mset (take (hi - lo) (drop lo ys)) + mset (drop hi xs)
      = mset (take lo xs) + mset (take (hi - lo) (drop lo xs)) + mset (drop hi xs)"
    using assms(1) unfolding rearr_def by (metis add.assoc mset_append)
  then show ?thesis by simp
qed

lemma slice_set: "lo \<le> hi \<Longrightarrow> hi \<le> length xs \<Longrightarrow> set (take (hi - lo) (drop lo xs)) = (!) xs ` {lo..<hi}"
proof -
  assume "lo \<le> hi" "hi \<le> length xs"
  then have "take (hi - lo) (drop lo xs) = map ((!) xs) [lo..<hi]" by (intro nth_equalityI) auto
  then show ?thesis by simp
qed

lemma rearr_all:
  assumes "rearr lo hi xs ys" and "hi \<le> length xs" and "\<And>k. lo \<le> k \<Longrightarrow> k < hi \<Longrightarrow> P (xs ! k)" and "lo \<le> k" "k < hi"
  shows "P (ys ! k)"
proof -
  have h: "lo \<le> hi" using assms(4,5) by simp
  have l: "length ys = length xs" by (rule rearr_length [OF assms(1)])
  have "ys ! k \<in> set (take (hi - lo) (drop lo ys))" using slice_set [of lo hi ys] h assms(2,4,5) l by auto
  also have "\<dots> = set (take (hi - lo) (drop lo xs))" using rearr_slice [OF assms(1) h assms(2)] by (rule mset_eq_setD)
  also have "\<dots> = (!) xs ` {lo..<hi}" by (rule slice_set [OF h assms(2)])
  finally show ?thesis using assms(3) by auto
qed

subsection \<open>Every step rearranges its range\<close>

named_theorems rearr_intros \<open>operations that rearrange a range\<close>

lemma siftDown_rearr [rearr_intros]:
  "first + hi \<le> length xs \<Longrightarrow> rearr (first + root) (first + hi) xs (siftDown lt xs root hi first)"
proof (induction lt xs root hi first rule: siftDown.induct)
  case (1 lt xs root hi first)
  show ?case
  proof (cases "2 * root + 1 \<ge> hi")
    case True
    then show ?thesis by (subst siftDown.simps) (simp add: Let_def)
  next
    case False
    define child where "child = (if 2 * root + 1 + 1 < hi \<and> lt (xs ! (first + (2 * root + 1))) (xs ! (first + (2 * root + 1) + 1))
      then 2 * root + 1 + 1 else 2 * root + 1)"
    have c: "root < child" "child < hi" using False by (auto simp: child_def)
    have e: "siftDown lt xs root hi first = (if \<not> lt (xs ! (first + root)) (xs ! (first + child)) then xs
        else siftDown lt (swap xs (first + root) (first + child)) child hi first)"
      using False by (subst siftDown.simps) (simp add: Let_def child_def)
    show ?thesis
    proof (cases "\<not> lt (xs ! (first + root)) (xs ! (first + child))")
      case False': False
      define ys where "ys = swap xs (first + root) (first + child)"
      have s: "rearr (first + root) (first + hi) xs ys" using c 1(2) unfolding ys_def by (intro rearr_swap) auto
      have "rearr (first + child) (first + hi) ys (siftDown lt ys child hi first)"
        using 1(1) [OF refl False child_def False'] 1(2) by (simp add: ys_def)
      then show ?thesis using rearr_trans [OF s rearr_mono] c False' unfolding e ys_def by simp
    qed (simp add: e)
  qed
qed

lemma build_heap_rearr [rearr_intros]:
  "first + hi \<le> length xs \<Longrightarrow> rearr first (first + hi) xs (build_heap lt hi first i xs)"
proof (induction i arbitrary: xs)
  case (Suc i)
  have r: "rearr first (first + hi) xs (siftDown lt xs i hi first)"
    by (rule rearr_mono [OF siftDown_rearr [OF Suc.prems]]) simp_all
  then show ?case using Suc.IH [of "siftDown lt xs i hi first"] Suc.prems rearr_length [OF r] rearr_trans [OF r] by simp
qed simp

lemma pop_heap_rearr [rearr_intros]:
  "first + i \<le> length xs \<Longrightarrow> rearr first (first + i) xs (pop_heap lt first i xs)"
proof (induction i arbitrary: xs)
  case (Suc i)
  define ys where "ys = swap xs first (first + i)"
  have s: "rearr first (first + Suc i) xs ys" using Suc.prems unfolding ys_def by (intro rearr_swap) auto
  have d: "rearr first (first + i) ys (siftDown lt ys 0 i first)"
    using siftDown_rearr [of first i ys 0 lt] Suc.prems rearr_length [OF s] by simp
  have p: "rearr first (first + i) (siftDown lt ys 0 i first) (pop_heap lt first i (siftDown lt ys 0 i first))"
    using Suc.prems rearr_length [OF s] rearr_length [OF d] by (intro Suc.IH) simp
  have "rearr first (first + Suc i) ys (pop_heap lt first i (siftDown lt ys 0 i first))"
    by (rule rearr_mono [OF rearr_trans [OF d p]]) simp_all
  then show ?case using rearr_trans [OF s] by (simp add: ys_def)
qed simp

lemma heapSort_rearr [rearr_intros]: "a \<le> b \<Longrightarrow> b \<le> length xs \<Longrightarrow> rearr a b xs (heapSort lt xs a b)"
proof -
  assume h: "a \<le> b" "b \<le> length xs"
  define ys where "ys = build_heap lt (b - a) a ((b - a - 1) div 2 + 1) xs"
  have r: "rearr a (a + (b - a)) xs ys" unfolding ys_def using h by (intro build_heap_rearr) simp
  have "rearr a (a + (b - a)) ys (pop_heap lt a (b - a) ys)"
    using h rearr_length [OF r] by (intro pop_heap_rearr) simp
  from rearr_trans [OF r this] h show ?thesis by (simp add: heapSort_def Let_def ys_def)
qed

lemma medianOfThree_rearr [rearr_intros]:
  "m1 \<in> {lo..<hi} \<Longrightarrow> m0 \<in> {lo..<hi} \<Longrightarrow> m2 \<in> {lo..<hi} \<Longrightarrow> hi \<le> length xs \<Longrightarrow> rearr lo hi xs (medianOfThree lt xs m1 m0 m2)"
proof -
  assume m: "m1 \<in> {lo..<hi}" "m0 \<in> {lo..<hi}" "m2 \<in> {lo..<hi}" and h: "hi \<le> length xs"
  define ys where "ys = (if lt (xs ! m1) (xs ! m0) then swap xs m1 m0 else xs)"
  define zs where "zs = swap ys m2 m1"
  have y: "rearr lo hi xs ys" unfolding ys_def using m h by (auto intro: rearr_swap)
  have z: "rearr lo hi xs zs" unfolding zs_def using m h rearr_length [OF y] by (intro rearr_trans [OF y rearr_swap]) auto
  have "rearr lo hi xs (swap zs m1 m0)" using m h rearr_length [OF z] by (intro rearr_trans [OF z rearr_swap]) auto
  then show ?thesis using y z by (simp add: medianOfThree_def Let_def ys_def [symmetric] zs_def [symmetric])
qed

lemma length_medianOfThree [simp]: "length (medianOfThree lt xs m1 m0 m2) = length xs"
  by (simp add: medianOfThree_def Let_def)

lemma scan_up_spec:
  "b \<le> c \<Longrightarrow> b \<le> scan_up P c b \<and> scan_up P c b \<le> c \<and> (\<forall>k. b \<le> k \<and> k < scan_up P c b \<longrightarrow> P k)
    \<and> (scan_up P c b < c \<longrightarrow> \<not> P (scan_up P c b))"
proof (induction P c b rule: scan_up.induct)
  case (1 P c b)
  show ?case
  proof (cases "b < c \<and> P b")
    case True
    then have e: "scan_up P c b = scan_up P c (b + 1)" by (subst scan_up.simps) simp
    have "P k" if "b \<le> k" "k < scan_up P c (b + 1)" for k using 1(1) [OF True] True that by (cases "k = b") auto
    then show ?thesis using 1(1) [OF True] True unfolding e by auto
  next
    case False
    then have "scan_up P c b = b" by (subst scan_up.simps) auto
    then show ?thesis using False 1(2) by auto
  qed
qed

lemma scan_down_spec:
  "b \<le> c \<Longrightarrow> b \<le> scan_down P b c \<and> scan_down P b c \<le> c \<and> (\<forall>k. scan_down P b c \<le> k \<and> k < c \<longrightarrow> P k)
    \<and> (b < scan_down P b c \<longrightarrow> \<not> P (scan_down P b c - 1))"
proof (induction P b c rule: scan_down.induct)
  case (2 P b c)
  show ?case
  proof (cases "b < Suc c \<and> P c")
    case True
    then have "P k" if "scan_down P b c \<le> k" "k < Suc c" for k using 2(1) [OF True] that by (cases "k = c") auto
    then show ?thesis using 2(1) [OF True] True by auto
  qed (use 2 in auto)
qed simp

text \<open>The main loop of \<open>doPivot\<close>, with the pivot at \<open>lo\<close>.\<close>

lemma split_loop_spec:
  assumes "split_loop lt lo xs b c = (ys, b', c')" and "lo < b" "b \<le> c" "c \<le> h" "h \<le> length xs"
    and "\<forall>k. lo < k \<and> k < b \<longrightarrow> \<not> lt (xs ! lo) (xs ! k)" and "\<forall>k. c \<le> k \<and> k < h \<longrightarrow> lt (xs ! lo) (xs ! k)"
  shows "rearr b c xs ys \<and> b \<le> b' \<and> b' = c' \<and> c' \<le> c
    \<and> (\<forall>k. lo < k \<and> k < b' \<longrightarrow> \<not> lt (xs ! lo) (ys ! k)) \<and> (\<forall>k. c' \<le> k \<and> k < h \<longrightarrow> lt (xs ! lo) (ys ! k))"
  using assms
proof (induction lt lo xs b c rule: split_loop.induct)
  case (1 lt lo xs b c)
  define b1 where "b1 = scan_up (\<lambda>k. \<not> lt (xs ! lo) (xs ! k)) c b"
  define c1 where "c1 = scan_down (\<lambda>k. lt (xs ! lo) (xs ! k)) b1 c"
  note B = scan_up_spec [OF 1(4), of "\<lambda>k. \<not> lt (xs ! lo) (xs ! k)", folded b1_def]
  have bc: "b1 \<le> c" using B by blast
  note C = scan_down_spec [OF bc, of "\<lambda>k. lt (xs ! lo) (xs ! k)", folded c1_def]
  have low: "\<not> lt (xs ! lo) (xs ! k)" if "lo < k" "k < b1" for k using B 1(7) that by (cases "k < b") auto
  have high: "lt (xs ! lo) (xs ! k)" if "c1 \<le> k" "k < h" for k using C 1(8) that by (cases "k < c") auto
  show ?case
  proof (cases "b1 \<ge> c1")
    case True
    then have "ys = xs" "b' = b1" "c' = c1"
      using 1(2) by (subst (asm) split_loop.simps, simp add: Let_def b1_def [symmetric] c1_def [symmetric])+
    then show ?thesis using B C low high True by auto
  next
    case False
    then have s: "split_loop lt lo (swap xs b1 (c1 - 1)) (b1 + 1) (c1 - 1) = (ys, b', c')"
      using 1(2) by (subst (asm) split_loop.simps) (simp add: Let_def b1_def [symmetric] c1_def [symmetric])
    have ne: "b1 \<noteq> c1 - 1" using B C False by fastforce
    define zs where "zs = swap xs b1 (c1 - 1)"
    have l: "b1 < length xs" "c1 - 1 < length xs" using B C False 1(5,6) by auto
    have z: "zs ! k = (if k = c1 - 1 then xs ! b1 else if k = b1 then xs ! (c1 - 1) else xs ! k)" for k
      unfolding zs_def by (rule swap_nth [OF l])
    have "lo < b1" "lo < c1 - 1" using B 1(3) False ne by auto
    then have p: "zs ! lo = xs ! lo" by (simp add: z)
    have r: "rearr b c xs zs" unfolding zs_def using B C False 1(5,6) by (intro rearr_swap) auto
    have up: "lt (xs ! lo) (xs ! b1)" and down: "\<not> lt (xs ! lo) (xs ! (c1 - 1))" using B C False by auto
    have "rearr (b1 + 1) (c1 - 1) zs ys \<and> b1 + 1 \<le> b' \<and> b' = c' \<and> c' \<le> c1 - 1
      \<and> (\<forall>k. lo < k \<and> k < b' \<longrightarrow> \<not> lt (zs ! lo) (ys ! k)) \<and> (\<forall>k. c' \<le> k \<and> k < h \<longrightarrow> lt (zs ! lo) (ys ! k))"
    proof (rule 1(1) [OF b1_def c1_def False, folded zs_def])
      show "split_loop lt lo zs (b1 + 1) (c1 - 1) = (ys, b', c')" using s by (simp add: zs_def)
      show "lo < b1 + 1" using B 1(3) by simp
      show "b1 + 1 \<le> c1 - 1" using ne False by simp
      show "c1 - 1 \<le> h" using C 1(5) by linarith
      show "h \<le> length zs" using 1(6) by (simp add: zs_def)
      show "\<forall>k. lo < k \<and> k < b1 + 1 \<longrightarrow> \<not> lt (zs ! lo) (zs ! k)" using low down ne False by (auto simp: z p less_Suc_eq)
      show "\<forall>k. c1 - 1 \<le> k \<and> k < h \<longrightarrow> lt (zs ! lo) (zs ! k)"
        using high up ne False unfolding p by (auto simp: z)
    qed
    moreover have "rearr b c zs ys" if "rearr (b1 + 1) (c1 - 1) zs ys" using B C by (intro rearr_mono [OF that]) auto
    ultimately show ?thesis using rearr_trans [OF r] B C unfolding p by auto
  qed
qed

text \<open>The protection against duplicates: everything from \<open>b\<close> to \<open>c\<close> is equal to the pivot.\<close>

lemma protect_loop_spec:
  assumes "protect_loop lt lo xs a b = (ys, b')" and "lo < a" "lo < b" "b \<le> c" "c \<le> length xs"
    and "\<forall>k. lo < k \<and> k < b \<longrightarrow> \<not> lt (xs ! lo) (xs ! k)"
    and "\<forall>k. b \<le> k \<and> k < c \<longrightarrow> \<not> lt (xs ! lo) (xs ! k) \<and> \<not> lt (xs ! k) (xs ! lo)"
  shows "rearr (lo + 1) b xs ys \<and> lo < b' \<and> b' \<le> b \<and> (\<forall>k. lo < k \<and> k < b' \<longrightarrow> \<not> lt (xs ! lo) (ys ! k))
    \<and> (\<forall>k. b' \<le> k \<and> k < c \<longrightarrow> \<not> lt (xs ! lo) (ys ! k) \<and> \<not> lt (ys ! k) (xs ! lo))"
  using assms
proof (induction lt lo xs a b rule: protect_loop.induct)
  case (1 lt lo xs a b)
  define b1 where "b1 = scan_down (\<lambda>k. \<not> lt (xs ! k) (xs ! lo)) a b"
  define a1 where "a1 = scan_up (\<lambda>k. lt (xs ! k) (xs ! lo)) b1 a"
  have B: "lo < b1" "b1 \<le> b" "\<And>k. b1 \<le> k \<Longrightarrow> k < b \<Longrightarrow> \<not> lt (xs ! k) (xs ! lo)" "a < b1 \<Longrightarrow> lt (xs ! (b1 - 1)) (xs ! lo)"
  proof (atomize (full), cases "b < a")
    case True
    then have "b1 = b" unfolding b1_def by (cases b) auto
    then show "(lo < b1 \<and> b1 \<le> b) \<and> (\<forall>k. b1 \<le> k \<longrightarrow> k < b \<longrightarrow> \<not> lt (xs ! k) (xs ! lo)) \<and> (a < b1 \<longrightarrow> lt (xs ! (b1 - 1)) (xs ! lo))"
      using 1(4) True by simp
  next
    case False
    then have "a \<le> b" by simp
    from scan_down_spec [OF this, of "\<lambda>k. \<not> lt (xs ! k) (xs ! lo)", folded b1_def]
    show "(lo < b1 \<and> b1 \<le> b) \<and> (\<forall>k. b1 \<le> k \<longrightarrow> k < b \<longrightarrow> \<not> lt (xs ! k) (xs ! lo)) \<and> (a < b1 \<longrightarrow> lt (xs ! (b1 - 1)) (xs ! lo))"
      using 1(3) by (auto intro: order_less_le_trans)
  qed
  have A: "a \<le> a1" "a1 < b1 \<Longrightarrow> \<not> lt (xs ! a1) (xs ! lo)"
  proof -
    have "a1 = a" if "b1 < a" using that unfolding a1_def by (subst scan_up.simps) simp
    moreover note scan_up_spec [of a b1 "\<lambda>k. lt (xs ! k) (xs ! lo)", folded a1_def]
    ultimately show "a \<le> a1" "a1 < b1 \<Longrightarrow> \<not> lt (xs ! a1) (xs ! lo)" by (auto simp: not_less [symmetric])
  qed
  have eq: "\<not> lt (xs ! lo) (xs ! k) \<and> \<not> lt (xs ! k) (xs ! lo)" if "b1 \<le> k" "k < c" for k
    using that B(1) B(3) [of k] 1(7) [rule_format, of k] 1(8) [rule_format, of k] by (cases "k < b") auto
  show ?case
  proof (cases "a1 \<ge> b1")
    case True
    then have "ys = xs" "b' = b1"
      using 1(2) by (subst (asm) protect_loop.simps, simp add: Let_def b1_def [symmetric] a1_def [symmetric])+
    then show ?thesis using B 1(7) eq by auto
  next
    case False
    then have s: "protect_loop lt lo (swap xs a1 (b1 - 1)) (a1 + 1) (b1 - 1) = (ys, b')"
      using 1(2) by (subst (asm) protect_loop.simps) (simp add: Let_def b1_def [symmetric] a1_def [symmetric])
    have ne: "a1 \<noteq> b1 - 1" using A B(4) False by fastforce
    define zs where "zs = swap xs a1 (b1 - 1)"
    have l: "a1 < length xs" "b1 - 1 < length xs" using B(2) False 1(5,6) by auto
    have z: "zs ! k = (if k = b1 - 1 then xs ! a1 else if k = a1 then xs ! (b1 - 1) else xs ! k)" for k
      unfolding zs_def by (rule swap_nth [OF l])
    have lo: "lo < a1" "lo < b1 - 1" "a1 < b1 - 1" "b1 - 1 < b" using A(1) 1(3) False ne B(1,2) by auto
    then have p: "zs ! lo = xs ! lo" by (simp add: z)
    have r: "rearr (lo + 1) b xs zs" unfolding zs_def using lo 1(5,6) by (intro rearr_swap) auto
    have "rearr (lo + 1) (b1 - 1) zs ys \<and> lo < b' \<and> b' \<le> b1 - 1 \<and> (\<forall>k. lo < k \<and> k < b' \<longrightarrow> \<not> lt (zs ! lo) (ys ! k))
      \<and> (\<forall>k. b' \<le> k \<and> k < c \<longrightarrow> \<not> lt (zs ! lo) (ys ! k) \<and> \<not> lt (ys ! k) (zs ! lo))"
    proof (rule 1(1) [OF b1_def a1_def False, folded zs_def])
      show "protect_loop lt lo zs (a1 + 1) (b1 - 1) = (ys, b')" using s by (simp add: zs_def)
      show "lo < a1 + 1" "lo < b1 - 1" "b1 - 1 \<le> c" "c \<le> length zs" using lo 1(5,6) by (auto simp: zs_def)
      show "\<forall>k. lo < k \<and> k < b1 - 1 \<longrightarrow> \<not> lt (zs ! lo) (zs ! k)"
        using 1(7) lo unfolding p by (auto simp: z)
      have a: "\<not> lt (xs ! lo) (xs ! a1)" "\<not> lt (xs ! a1) (xs ! lo)" using 1(7) lo A(2) False by auto
      show "\<forall>k. b1 - 1 \<le> k \<and> k < c \<longrightarrow> \<not> lt (zs ! lo) (zs ! k) \<and> \<not> lt (zs ! k) (zs ! lo)"
      proof (intro allI impI)
        fix k assume k: "b1 - 1 \<le> k \<and> k < c"
        show "\<not> lt (zs ! lo) (zs ! k) \<and> \<not> lt (zs ! k) (zs ! lo)"
        proof (cases "k = b1 - 1")
          case False
          then have "b1 \<le> k" using k by linarith
          then show ?thesis using eq [of k] k lo False unfolding p by (simp add: z)
        qed (use a p in \<open>simp add: z\<close>)
      qed
    qed
    moreover have "rearr (lo + 1) b zs ys" if "rearr (lo + 1) (b1 - 1) zs ys" using lo by (intro rearr_mono [OF that]) auto
    ultimately show ?thesis using rearr_trans [OF r] lo unfolding p by auto
  qed
qed

text \<open>The tests for duplicates keep the three parts: up to the pivot, equal to it, not below it.\<close>

definition parted :: "('a \<Rightarrow> 'a \<Rightarrow> bool) \<Rightarrow> 'a \<Rightarrow> 'a list \<Rightarrow> nat \<Rightarrow> nat \<Rightarrow> nat \<Rightarrow> nat \<Rightarrow> bool" where
  "parted lt p xs lo b c hi \<longleftrightarrow>
     (\<forall>k. lo < k \<and> k < b \<longrightarrow> \<not> lt p (xs ! k)) \<and>
     (\<forall>k. b \<le> k \<and> k < c \<longrightarrow> \<not> lt p (xs ! k) \<and> \<not> lt (xs ! k) p) \<and>
     (\<forall>k. c \<le> k \<and> k < hi \<longrightarrow> \<not> lt (xs ! k) p)"

lemma test_dups_spec:
  assumes "test_dups lt lo m hi xs b c = (ys, b', c', d)" and "lo + 4 < b" "b \<le> c" "c < hi - 1" "hi \<le> length xs" "lo < m" "m + 4 < b"
    and "parted lt (xs ! lo) xs lo b c hi"
  shows "rearr (lo + 1) hi xs ys \<and> lo < b' \<and> b' \<le> c' \<and> c' \<le> hi \<and> b' \<le> b \<and> parted lt (xs ! lo) ys lo b' c' hi"
proof -
  define p where "p = xs ! lo"
  have P: "\<not> lt p (xs ! k)" if "lo < k" "k < c" for k
    using assms(8) that unfolding parted_def p_def by (cases "k < b") auto
  have H: "\<not> lt (xs ! k) p" if "b \<le> k" "k < hi" for k
    using assms(8) that unfolding parted_def p_def by (cases "k < c") auto
  define s1 where "s1 \<longleftrightarrow> \<not> lt p (xs ! (hi - 1))"
  define xs1 where "xs1 = (if s1 then swap xs c (hi - 1) else xs)"
  define c1 where "c1 = (if s1 then c + 1 else c)"
  have n1: "xs1 ! k = (if s1 \<and> k = hi - 1 then xs ! c else if s1 \<and> k = c then xs ! (hi - 1) else xs ! k)" for k
  proof -
    have "c < length xs" "hi - 1 < length xs" using assms(4,5) by linarith+
    from swap_nth [OF this, of k] show ?thesis unfolding xs1_def by (cases s1) (simp_all del: One_nat_def)
  qed
  have r1: "rearr (lo + 1) hi xs xs1" using assms unfolding xs1_def by (auto intro!: rearr_swap)
  have p1: "xs1 ! lo = p" using assms by (simp add: n1 p_def)
  have q1: "parted lt p xs1 lo b c1 hi" and c1: "c \<le> c1" "c1 < hi"
    using assms(2-4) P H s1_def by (auto simp: parted_def n1 c1_def)
  define s2 where "s2 \<longleftrightarrow> \<not> lt (xs1 ! (b - 1)) p"
  define b1 where "b1 = (if s2 then b - 1 else b)"
  have q2: "parted lt p xs1 lo b1 c1 hi"
  proof (cases s2)
    case True
    have "\<not> lt p (xs1 ! (b - 1))" using q1 assms(2) unfolding parted_def by simp
    moreover have "k = b - 1 \<or> b \<le> k" if "b - 1 \<le> k" for k using that by linarith
    ultimately show ?thesis using q1 True s2_def unfolding parted_def b1_def by auto
  qed (use q1 in \<open>simp add: b1_def\<close>)
  have b1: "b - 1 \<le> b1" "b1 \<le> b" by (auto simp: b1_def)
  define s3 where "s3 \<longleftrightarrow> \<not> lt (xs1 ! m) p"
  define xs2 where "xs2 = (if s3 then swap xs1 m (b1 - 1) else xs1)"
  define b2 where "b2 = (if s3 then b1 - 1 else b1)"
  have l1: "length xs1 = length xs" using r1 by (rule rearr_length)
  have m: "m < b1 - 1" "b1 - 1 < length xs" using b1 assms by auto
  have n2: "xs2 ! k = (if s3 \<and> k = b1 - 1 then xs1 ! m else if s3 \<and> k = m then xs1 ! (b1 - 1) else xs1 ! k)" for k
  proof -
    have "m < length xs1" "b1 - 1 < length xs1" using m l1 by linarith+
    from swap_nth [OF this, of k] show ?thesis unfolding xs2_def by (cases s3) (simp_all del: One_nat_def)
  qed
  have r2: "rearr (lo + 1) hi xs1 xs2" using assms m b1 l1 unfolding xs2_def by (auto intro!: rearr_swap)
  have q3: "parted lt p xs2 lo b2 c1 hi"
  proof (cases s3)
    case True
    have e: "\<not> lt p (xs1 ! m)" "\<not> lt (xs1 ! m) p" using q2 True s3_def assms(6) m unfolding parted_def by auto
    have "k = b1 - 1 \<or> b1 \<le> k" if "b1 - 1 \<le> k" for k using that by linarith
    then show ?thesis using q2 e True m c1 b1 assms(3) unfolding parted_def by (auto simp: n2 b2_def)
  qed (use q2 in \<open>simp add: b2_def xs2_def\<close>)
  have e1: "(if \<not> lt (xs ! lo) (xs ! (hi - 1)) then (swap xs c (hi - 1), c + 1, 1) else (xs, c, 0)) = (xs1, c1, of_bool s1 :: nat)"
    by (simp add: s1_def xs1_def c1_def p_def)
  have e2: "(if \<not> lt (xs1 ! (b - 1)) (xs1 ! lo) then (b - 1, of_bool s1 + 1) else (b, of_bool s1))
      = (b1, of_bool s1 + of_bool s2 :: nat)"
    by (simp add: s2_def b1_def p1)
  have e3: "(if \<not> lt (xs1 ! m) (xs1 ! lo) then (swap xs1 m (b1 - 1), b1 - 1, c1, of_bool s1 + of_bool s2 + 1)
      else (xs1, b1, c1, of_bool s1 + of_bool s2)) = (xs2, b2, c1, of_bool s1 + of_bool s2 + of_bool s3 :: nat)"
    by (simp add: s3_def xs2_def b2_def p1)
  have "(ys, b', c') = (xs2, b2, c1)"
    using assms(1) unfolding test_dups_def e1 Let_def prod.case e2 e3 by simp
  then show ?thesis
    using rearr_trans [OF r1 r2] q3 b1 m c1 assms(2,3) unfolding p_def by (auto simp: b2_def)
qed

lemma gap_pass_rearr [rearr_intros]:
  "a + 6 \<le> i \<Longrightarrow> b \<le> length xs \<Longrightarrow> rearr a b xs (gap_pass lt b i xs)"
proof (induction lt b i xs rule: gap_pass.induct)
  case (1 lt b i xs)
  define ys where "ys = (if lt (xs ! i) (xs ! (i - 6)) then swap xs i (i - 6) else xs)"
  show ?case
  proof (cases "i < b")
    case True
    have r: "rearr a b xs ys" using True 1(2,3) unfolding ys_def by (auto intro!: rearr_swap)
    moreover have "rearr a b ys (gap_pass lt b (i + 1) ys)"
      using 1(1) [OF True, folded ys_def] 1(2,3) rearr_length [OF r] by simp
    ultimately have "rearr a b xs (gap_pass lt b (i + 1) ys)" by (rule rearr_trans)
    then show ?thesis using True by (subst gap_pass.simps) (simp add: ys_def)
  qed (subst gap_pass.simps, simp)
qed

lemma sift_left_rearr:
  "j < b \<Longrightarrow> b \<le> length xs \<Longrightarrow> rearr a b xs (sift_left lt a j xs)"
proof (induction lt a j xs rule: sift_left.induct)
  case (1 lt a j xs)
  show ?case
  proof (cases "a < j \<and> lt (xs ! j) (xs ! (j - 1))")
    case True
    have r: "rearr a b xs (swap xs j (j - 1))" using True 1(2,3) by (intro rearr_swap) auto
    have "rearr a b (swap xs j (j - 1)) (sift_left lt a (j - 1) (swap xs j (j - 1)))"
      using 1(1) [OF True] 1(2,3) rearr_length [OF r] by simp
    from rearr_trans [OF r this] show ?thesis using True by (subst sift_left.simps) simp
  next
    case False
    then show ?thesis by (subst sift_left.simps) auto
  qed
qed

lemma insertion_from_rearr: "b \<le> length xs \<Longrightarrow> rearr a b xs (insertion_from lt a b i xs)"
proof (induction lt a b i xs rule: insertion_from.induct)
  case (1 lt a b i xs)
  show ?case
  proof (cases "i < b")
    case True
    have r: "rearr a b xs (sift_left lt a i xs)" by (rule sift_left_rearr [OF True 1(2)])
    have "rearr a b (sift_left lt a i xs) (insertion_from lt a b (i + 1) (sift_left lt a i xs))"
      using 1(1) [OF True] 1(2) rearr_length [OF r] by simp
    from rearr_trans [OF r this] show ?thesis using True by (subst insertion_from.simps) simp
  qed (subst insertion_from.simps, simp)
qed

lemma insertionSort_rearr [rearr_intros]: "b \<le> length xs \<Longrightarrow> rearr a b xs (insertionSort lt xs a b)"
  unfolding insertionSort_def by (rule insertion_from_rearr)

lemma choose_pivot_rearr [rearr_intros]:
  assumes "lo + 12 < hi" "hi \<le> length xs"
  shows "rearr lo hi xs (choose_pivot lt xs lo hi)"
proof -
  define m where "m = (lo + hi) div 2"
  define s where "s = (hi - lo) div 8"
  have m: "lo + s \<le> m" "m + s < hi" "lo + 2 * s < hi" "lo \<le> hi - 1 - 2 * s" "lo \<le> m - s" unfolding m_def s_def using assms(1) by linarith+
  define x1 where "x1 = medianOfThree lt xs lo (lo + s) (lo + 2 * s)"
  define x2 where "x2 = medianOfThree lt x1 m (m - s) (m + s)"
  define x3 where "x3 = medianOfThree lt x2 (hi - 1) (hi - 1 - s) (hi - 1 - 2 * s)"
  have r1: "rearr lo hi xs x1" unfolding x1_def using m assms by (intro medianOfThree_rearr) auto
  have r2: "rearr lo hi x1 x2" unfolding x2_def using m assms rearr_length [OF r1] by (intro medianOfThree_rearr) auto
  have r3: "rearr lo hi x2 x3" unfolding x3_def using m assms rearr_length [OF r1] rearr_length [OF r2] by (intro medianOfThree_rearr) auto
  have r: "rearr lo hi xs (if hi - lo > 40 then x3 else xs)" using rearr_trans [OF r1 rearr_trans [OF r2 r3]] by simp
  have "rearr lo hi (if hi - lo > 40 then x3 else xs) (medianOfThree lt (if hi - lo > 40 then x3 else xs) lo m (hi - 1))"
    using m assms rearr_length [OF r] by (intro medianOfThree_rearr) auto
  from rearr_trans [OF r this] show ?thesis
    unfolding choose_pivot_def Let_def x3_def x2_def x1_def m_def s_def .
qed

text \<open>The loops and the tests of \<open>doPivot\<close> keep to their range whatever \<open>Less\<close> is.\<close>

lemma split_loop_rearr:
  assumes "split_loop lt lo xs b c = (ys, b', c')" and "b \<le> c" "c \<le> length xs"
  shows "rearr b c xs ys \<and> b \<le> b' \<and> b' = c' \<and> c' \<le> c"
  using assms
proof (induction lt lo xs b c rule: split_loop.induct)
  case (1 lt lo xs b c)
  define b1 where "b1 = scan_up (\<lambda>k. \<not> lt (xs ! lo) (xs ! k)) c b"
  define c1 where "c1 = scan_down (\<lambda>k. lt (xs ! lo) (xs ! k)) b1 c"
  note B = scan_up_spec [OF 1(3), of "\<lambda>k. \<not> lt (xs ! lo) (xs ! k)", folded b1_def]
  have bc: "b1 \<le> c" using B by blast
  note C = scan_down_spec [OF bc, of "\<lambda>k. lt (xs ! lo) (xs ! k)", folded c1_def]
  show ?case
  proof (cases "b1 \<ge> c1")
    case True
    then have "ys = xs" "b' = b1" "c' = c1"
      using 1(2) by (subst (asm) split_loop.simps, simp add: Let_def b1_def [symmetric] c1_def [symmetric])+
    then show ?thesis using B C True by auto
  next
    case False
    then have s: "split_loop lt lo (swap xs b1 (c1 - 1)) (b1 + 1) (c1 - 1) = (ys, b', c')"
      using 1(2) by (subst (asm) split_loop.simps) (simp add: Let_def b1_def [symmetric] c1_def [symmetric])
    have "b1 \<noteq> c1 - 1" using B C False by fastforce
    then have bc: "b \<le> b1" "b1 + 1 \<le> c1 - 1" "c1 - 1 < c" using B C False by auto
    have r: "rearr b c xs (swap xs b1 (c1 - 1))" using bc 1(4) by (intro rearr_swap) auto
    have "rearr (b1 + 1) (c1 - 1) (swap xs b1 (c1 - 1)) ys \<and> b1 + 1 \<le> b' \<and> b' = c' \<and> c' \<le> c1 - 1"
      using 1(1) [OF b1_def c1_def False s] bc 1(4) by simp
    then show ?thesis using rearr_trans [OF r rearr_mono] bc by auto
  qed
qed

lemma protect_loop_rearr:
  assumes "protect_loop lt lo xs a b = (ys, b')" and "lo < a" "lo < b" "b \<le> length xs"
  shows "rearr (lo + 1) b xs ys \<and> lo < b' \<and> b' \<le> b"
  using assms
proof (induction lt lo xs a b rule: protect_loop.induct)
  case (1 lt lo xs a b)
  define b1 where "b1 = scan_down (\<lambda>k. \<not> lt (xs ! k) (xs ! lo)) a b"
  define a1 where "a1 = scan_up (\<lambda>k. lt (xs ! k) (xs ! lo)) b1 a"
  have B: "lo < b1 \<and> b1 \<le> b \<and> (a < b1 \<longrightarrow> lt (xs ! (b1 - 1)) (xs ! lo))"
  proof (cases "b < a")
    case True
    then have "b1 = b" unfolding b1_def by (cases b) auto
    then show ?thesis using 1(4) True by simp
  next
    case False
    then show ?thesis
      using scan_down_spec [of a b "\<lambda>k. \<not> lt (xs ! k) (xs ! lo)", folded b1_def] 1(3) by auto
  qed
  have A: "a \<le> a1" "a1 < b1 \<longrightarrow> \<not> lt (xs ! a1) (xs ! lo)"
    using scan_up_ge [of a "\<lambda>k. lt (xs ! k) (xs ! lo)" b1] scan_up_spec [of a b1 "\<lambda>k. lt (xs ! k) (xs ! lo)"]
    unfolding a1_def by (auto simp: not_less [symmetric])
  show ?case
  proof (cases "a1 \<ge> b1")
    case True
    then have "ys = xs" "b' = b1"
      using 1(2) by (subst (asm) protect_loop.simps, simp add: Let_def b1_def [symmetric] a1_def [symmetric])+
    then show ?thesis using B by auto
  next
    case False
    then have s: "protect_loop lt lo (swap xs a1 (b1 - 1)) (a1 + 1) (b1 - 1) = (ys, b')"
      using 1(2) by (subst (asm) protect_loop.simps) (simp add: Let_def b1_def [symmetric] a1_def [symmetric])
    have "a1 \<noteq> b1 - 1" using A B False by fastforce
    then have l: "lo < a1" "a1 + 1 \<le> b1 - 1" "b1 - 1 < b" using A 1(3) False B by auto
    have r: "rearr (lo + 1) b xs (swap xs a1 (b1 - 1))" using l 1(5) by (intro rearr_swap) auto
    have "rearr (lo + 1) (b1 - 1) (swap xs a1 (b1 - 1)) ys \<and> lo < b' \<and> b' \<le> b1 - 1"
      using 1(1) [OF b1_def a1_def False s] l 1(5) by simp
    then show ?thesis using rearr_trans [OF r rearr_mono] l by auto
  qed
qed

lemma test_dups_rearr:
  assumes "test_dups lt lo m hi xs b c = (ys, b', c', d)" and "lo + 4 < b" "b \<le> c" "c < hi - 1" "hi \<le> length xs" "lo < m" "m < hi"
  shows "rearr (lo + 1) hi xs ys \<and> lo < b' \<and> b' \<le> c' \<and> c' \<le> hi"
proof -
  define xs1 where "xs1 = (if \<not> lt (xs ! lo) (xs ! (hi - 1)) then swap xs c (hi - 1) else xs)"
  define b1 where "b1 = (if \<not> lt (xs1 ! (b - 1)) (xs1 ! lo) then b - 1 else b)"
  have r1: "rearr (lo + 1) hi xs xs1" using assms unfolding xs1_def by (auto intro!: rearr_swap)
  have b1: "lo + 3 < b1" "b1 \<le> b" using assms(2) by (auto simp: b1_def)
  have r2: "rearr (lo + 1) hi xs1 (swap xs1 m (b1 - 1))"
    using assms b1 rearr_length [OF r1] by (intro rearr_swap) auto
  have "ys = (if \<not> lt (xs1 ! m) (xs1 ! lo) then swap xs1 m (b1 - 1) else xs1)"
      "b' = (if \<not> lt (xs1 ! m) (xs1 ! lo) then b1 - 1 else b1)" "c' = c \<or> c' = c + 1"
    using assms(1) by (auto simp: test_dups_def Let_def xs1_def b1_def split: if_splits)
  then show ?thesis using r1 rearr_trans [OF r1 r2] b1 assms(3,4) by auto
qed

lemma doPivot_rearr:
  assumes "lo + 12 < hi" "hi \<le> length xs" and "doPivot lt xs lo hi = (ys, ml, mh)"
  shows "rearr lo hi xs ys \<and> lo \<le> ml \<and> ml < mh \<and> mh \<le> hi"
proof -
  define m where "m = (lo + hi) div 2"
  have m: "lo < m" "m < hi" unfolding m_def using assms(1) by linarith+
  define x1 where "x1 = choose_pivot lt xs lo hi"
  have r1: "rearr lo hi xs x1" unfolding x1_def by (rule choose_pivot_rearr [OF assms(1,2)])
  define a where "a = scan_up (\<lambda>k. lt (x1 ! k) (x1 ! lo)) (hi - 1) (lo + 1)"
  have a: "lo < a" "a \<le> hi - 1"
  proof -
    have "lo + 1 \<le> hi - 1" using assms(1) by linarith
    from scan_up_spec [OF this, of "\<lambda>k. lt (x1 ! k) (x1 ! lo)", folded a_def] show "lo < a" "a \<le> hi - 1" by simp_all
  qed
  obtain x2 b c where s2: "split_loop lt lo x1 a (hi - 1) = (x2, b, c)" by (metis surj_pair)
  have B: "rearr a (hi - 1) x1 x2 \<and> a \<le> b \<and> b = c \<and> c \<le> hi - 1"
  proof -
    have "hi - 1 \<le> length x1" using assms(2) rearr_length [OF r1] by linarith
    from split_loop_rearr [OF s2 a(2) this] show ?thesis .
  qed
  have r2: "rearr lo hi x1 x2" by (rule rearr_mono [OF B [THEN conjunct1]]) (use a in simp_all)
  define t where "t = (\<not> hi - c < 5 \<and> hi - c < (hi - lo) div 4)"
  obtain x3 b3 c3 d where td: "test_dups lt lo m hi x2 b c = (x3, b3, c3, d)" by (metis surj_pair)
  define x4 where "x4 = (if t then x3 else x2)"
  define b4 where "b4 = (if t then b3 else b)"
  define c4 where "c4 = (if t then c3 else c)"
  have Q4: "rearr (lo + 1) hi x2 x4 \<and> lo < b4 \<and> b4 \<le> c4 \<and> c4 \<le> hi"
  proof (cases t)
    case True
    then have c: "5 \<le> hi - c" "hi - c < (hi - lo) div 4" by (auto simp: t_def)
    have bc: "b = c" using B by simp
    have "lo + 4 < b" "c < hi - 1" using c assms(1) unfolding bc by linarith+
    then show ?thesis
      using test_dups_rearr [OF td _ _ _ _ m] bc assms(2) rearr_length [OF r1] rearr_length [OF r2] True
      by (simp add: x4_def b4_def c4_def)
  qed (use a B in \<open>auto simp: x4_def b4_def c4_def\<close>)
  define u where "u = (if t then d > 1 else hi - c < 5)"
  obtain x5 b5 where pl: "protect_loop lt lo x4 a b4 = (x5, b5)" by (metis surj_pair)
  define x6 where "x6 = (if u then x5 else x4)"
  define b6 where "b6 = (if u then b5 else b4)"
  have l4: "length x4 = length xs" using Q4 rearr_length r1 r2 by metis
  have "rearr (lo + 1) b4 x4 x5 \<and> lo < b5 \<and> b5 \<le> b4"
    using protect_loop_rearr [OF pl a(1)] Q4 assms(2) l4 by simp
  then have Q6: "rearr lo hi x4 x6 \<and> lo < b6 \<and> b6 \<le> c4"
    using Q4 rearr_mono [of "lo + 1" b4 x4 x5 lo hi] by (auto simp: x6_def b6_def)
  have e1: "(if \<not> hi - c < 5 \<and> hi - c < (hi - lo) div 4
      then (case test_dups lt lo m hi x2 b c of (xs, b, c, dups) \<Rightarrow> (xs, b, c, dups > 1)) else (x2, b, c, hi - c < 5))
      = (x4, b4, c4, u)"
    unfolding td prod.case t_def [symmetric] by (simp add: x4_def b4_def c4_def u_def)
  have e2: "(if u then protect_loop lt lo x4 a b4 else (x4, b4)) = (x6, b6)"
    unfolding pl by (simp add: x6_def b6_def)
  have res: "(ys, ml, mh) = (swap x6 lo (b6 - 1), b6 - 1, c4)"
    using assms(3) unfolding doPivot_def Let_def m_def [symmetric] x1_def [symmetric] a_def [symmetric] s2 prod.case e1 e2
    by (rule sym)
  have "length x6 = length xs" using Q6 l4 rearr_length by metis
  then have "rearr lo hi x6 ys" using res Q6 Q4 assms(2) m by (auto intro!: rearr_swap)
  moreover have "rearr lo hi x2 x4" using Q4 by (auto intro: rearr_mono)
  ultimately have "rearr lo hi xs ys" using rearr_trans r1 r2 Q6 by metis
  then show ?thesis using res Q6 Q4 by auto
qed

lemma quickSort_rearr:
  "a \<le> b \<Longrightarrow> b \<le> length xs \<Longrightarrow> rearr a b xs (quickSort lt xs a b d)"
proof (induction d arbitrary: xs a b rule: less_induct)
  case (less d)
  consider "b - a > 12" "d = 0" | d' where "b - a > 12" "d = Suc d'" | "\<not> b - a > 12"
    by (cases d) auto
  then show ?case
  proof cases
    case 1
    then show ?thesis using heapSort_rearr [OF less.prems] by (subst quickSort.simps) simp
  next
    case (2 d')
    obtain ys ml mh where dp: "doPivot lt xs a b = (ys, ml, mh)" by (metis surj_pair)
    have P: "rearr a b xs ys" "a \<le> ml" "ml < mh" "mh \<le> b"
      using doPivot_rearr [OF _ less.prems(2) dp] 2(1) by auto
    have step: "rearr a b us (quickSort lt us a ml d')" "rearr a b us (quickSort lt us mh b d')" if "length us = length xs" for us
      using rearr_mono [OF less.IH [of d' a ml us]] rearr_mono [OF less.IH [of d' mh b us]] that P less.prems 2(2) by auto
    have l: "length ys = length xs" by (rule rearr_length [OF P(1)])
    note s = step(1) [OF l] step(2) [OF l]
    have l': "length (quickSort lt ys a ml d') = length xs" "length (quickSort lt ys mh b d') = length xs"
      using rearr_length [OF s(1)] rearr_length [OF s(2)] l by simp_all
    have "rearr a b ys (quickSort lt xs a b d)"
      using 2 dp rearr_trans [OF s(1) step(2) [OF l'(1)]] rearr_trans [OF s(2) step(1) [OF l'(2)]]
      by (subst quickSort.simps) simp
    then show ?thesis by (rule rearr_trans [OF P(1)])
  next
    case 3
    define ys where "ys = gap_pass lt b (a + 6) xs"
    have r: "rearr a b xs ys" unfolding ys_def using less.prems(2) by (intro gap_pass_rearr) simp_all
    have "rearr a b ys (insertionSort lt ys a b)" using less.prems(2) rearr_length [OF r] by (intro insertionSort_rearr) simp
    then show ?thesis using 3 rearr_trans [OF r] by (subst quickSort.simps) (simp add: ys_def)
  qed
qed

lemma Sort_mset: "mset (Sort lt xs) = mset xs"
  using quickSort_rearr [of 0 "length xs" xs lt "maxDepth (length xs)"] by (simp add: Sort_def rearr_def)

subsection \<open>Putting sorted parts together\<close>

lemma sorted_in_outside: "rearr lo hi xs ys \<Longrightarrow> b \<le> lo \<or> hi \<le> a \<Longrightarrow> sorted_in lt ys a b = sorted_in lt xs a b"
proof -
  assume r: "rearr lo hi xs ys" and d: "b \<le> lo \<or> hi \<le> a"
  have "ys ! k = xs ! k" if "a \<le> k" "k < b" for k using rearr_outside [OF r, of k] d that by auto
  then show ?thesis unfolding sorted_in_def by auto
qed

subsection \<open>Order\<close>

text \<open>No element from position \<open>i\<close> on is less than a child of its.\<close>

definition heap_from :: "('a \<Rightarrow> 'a \<Rightarrow> bool) \<Rightarrow> 'a list \<Rightarrow> nat \<Rightarrow> nat \<Rightarrow> nat \<Rightarrow> bool" where
  "heap_from lt xs first i hi \<longleftrightarrow>
     (\<forall>k c. i \<le> k \<and> (c = 2 * k + 1 \<or> c = 2 * k + 2) \<and> c < hi \<longrightarrow> \<not> lt (xs ! (first + k)) (xs ! (first + c)))"

text \<open>Two disjoint ranges rearranged one after the other.\<close>

lemma rearr_two:
  assumes "rearr l1 h1 ys us" and "rearr l2 h2 us ws" and "h1 \<le> l2 \<or> h2 \<le> l1" and "a \<le> l1" "a \<le> l2" "h1 \<le> b" "h2 \<le> b"
    and "b \<le> length ys"
  shows rearr_two_all: "rearr a b ys ws"
    and rearr_two_first: "\<forall>P k. (\<forall>k. l1 \<le> k \<and> k < h1 \<longrightarrow> P (ys ! k)) \<and> l1 \<le> k \<and> k < h1 \<longrightarrow> P (ws ! k)"
    and rearr_two_second: "\<forall>P k. (\<forall>k. l2 \<le> k \<and> k < h2 \<longrightarrow> P (ys ! k)) \<and> l2 \<le> k \<and> k < h2 \<longrightarrow> P (ws ! k)"
    and rearr_two_rest: "k < l1 \<or> h1 \<le> k \<Longrightarrow> k < l2 \<or> h2 \<le> k \<Longrightarrow> ws ! k = ys ! k"
proof -
  have l: "length us = length ys" by (rule rearr_length [OF assms(1)])
  show "rearr a b ys ws"
    by (rule rearr_trans [OF rearr_mono [OF assms(1)] rearr_mono [OF assms(2)]]) (use assms in simp_all)
  show "\<forall>P k. (\<forall>k. l1 \<le> k \<and> k < h1 \<longrightarrow> P (ys ! k)) \<and> l1 \<le> k \<and> k < h1 \<longrightarrow> P (ws ! k)"
  proof (intro allI impI, elim conjE)
    fix P :: "'a \<Rightarrow> bool" and k
    assume p: "\<forall>k. l1 \<le> k \<and> k < h1 \<longrightarrow> P (ys ! k)" and k: "l1 \<le> k" "k < h1"
    have "P (us ! k)" by (rule rearr_all [OF assms(1), of P k]) (use assms p k in simp_all)
    moreover have "ws ! k = us ! k" by (rule rearr_outside [OF assms(2)]) (use assms k in auto)
    ultimately show "P (ws ! k)" by simp
  qed
  show "\<forall>P k. (\<forall>k. l2 \<le> k \<and> k < h2 \<longrightarrow> P (ys ! k)) \<and> l2 \<le> k \<and> k < h2 \<longrightarrow> P (ws ! k)"
  proof (intro allI impI, elim conjE)
    fix P :: "'a \<Rightarrow> bool" and k
    assume p: "\<forall>k. l2 \<le> k \<and> k < h2 \<longrightarrow> P (ys ! k)" and k: "l2 \<le> k" "k < h2"
    show "P (ws ! k)"
    proof (rule rearr_all [OF assms(2), of P k])
      show "P (us ! k)" if "l2 \<le> k" "k < h2" for k
      proof -
        have "us ! k = ys ! k" by (rule rearr_outside [OF assms(1)]) (use assms that in auto)
        then show ?thesis using p that by simp
      qed
    qed (use assms l k in simp_all)
  qed
  show "ws ! k = ys ! k" if "k < l1 \<or> h1 \<le> k" "k < l2 \<or> h2 \<le> k"
    using rearr_outside [OF assms(1) that(1)] rearr_outside [OF assms(2) that(2)] by simp
qed

text \<open>What \<open>Less\<close> has to be on the elements: a strict weak order.\<close>

locale less_contract =
  fixes S :: "'a set" and lt :: "'a \<Rightarrow> 'a \<Rightarrow> bool"
  assumes weak: "weak_order S lt"
begin

lemma asym: "x \<in> S \<Longrightarrow> y \<in> S \<Longrightarrow> lt x y \<Longrightarrow> \<not> lt y x"
  using weak unfolding weak_order_def by blast

lemma irrefl: "x \<in> S \<Longrightarrow> \<not> lt x x"
  using asym by blast

lemma le_trans: "x \<in> S \<Longrightarrow> y \<in> S \<Longrightarrow> z \<in> S \<Longrightarrow> \<not> lt y x \<Longrightarrow> \<not> lt z y \<Longrightarrow> \<not> lt z x"
  using weak unfolding weak_order_def by blast

lemma less_le_trans: "x \<in> S \<Longrightarrow> y \<in> S \<Longrightarrow> z \<in> S \<Longrightarrow> lt x y \<Longrightarrow> \<not> lt z y \<Longrightarrow> lt x z"
  using le_trans asym by blast

text \<open>The last median leaves a value not above the last element in front.\<close>

lemma medianOfThree_order:
  assumes "set xs \<subseteq> S" "m1 < length xs" "m0 < length xs" "m2 < length xs" "m1 \<noteq> m0" "m2 \<noteq> m1" "m2 \<noteq> m0"
  defines "ys \<equiv> medianOfThree lt xs m1 m0 m2"
  shows "\<not> lt (ys ! m1) (ys ! m0) \<and> \<not> lt (ys ! m2) (ys ! m1)"
proof -
  have mem: "xs ! m1 \<in> S" "xs ! m0 \<in> S" "xs ! m2 \<in> S" using assms(1-4) by auto
  define zs where "zs = (if lt (xs ! m1) (xs ! m0) then swap xs m1 m0 else xs)"
  have z: "zs ! m1 = (if lt (xs ! m1) (xs ! m0) then xs ! m0 else xs ! m1)"
      "zs ! m0 = (if lt (xs ! m1) (xs ! m0) then xs ! m1 else xs ! m0)" "zs ! m2 = xs ! m2" "length zs = length xs"
    using assms(2-7) by (simp_all add: zs_def swap_nth)
  have le: "\<not> lt (zs ! m1) (zs ! m0)" using asym mem by (simp add: z)
  have zm: "zs ! m1 \<in> S" "zs ! m0 \<in> S" "zs ! m2 \<in> S" using mem by (simp_all add: z)
  show ?thesis
  proof (cases "lt (zs ! m2) (zs ! m1)")
    case False
    then show ?thesis using le by (simp add: ys_def medianOfThree_def Let_def zs_def [symmetric])
  next
    case True
    define ws where "ws = swap zs m2 m1"
    have w: "ws ! m1 = zs ! m2" "ws ! m2 = zs ! m1" "ws ! m0 = zs ! m0" "length ws = length xs"
      using assms(2-7) z(4) by (simp_all add: ws_def swap_nth)
    have y: "ys = (if lt (ws ! m1) (ws ! m0) then swap ws m1 m0 else ws)"
      using True by (simp add: ys_def medianOfThree_def Let_def zs_def [symmetric] ws_def [symmetric])
    show ?thesis
    proof (cases "lt (ws ! m1) (ws ! m0)")
      case c: True
      then have "ys ! m1 = zs ! m0" "ys ! m0 = zs ! m2" "ys ! m2 = zs ! m1"
        using assms(2-7) w by (simp_all add: y swap_nth)
      then show ?thesis using c w le asym zm by simp
    next
      case False
      then show ?thesis using True w asym zm by (simp add: y)
    qed
  qed
qed

lemma doPivot_spec:
  assumes "set xs \<subseteq> S" and "lo + 12 < hi" "hi \<le> length xs" and "doPivot lt xs lo hi = (ys, ml, mh)"
  shows "rearr lo hi xs ys \<and> lo \<le> ml \<and> ml < mh \<and> mh \<le> hi \<and>
    (\<exists>p \<in> S. (\<forall>k. lo \<le> k \<and> k < ml \<longrightarrow> \<not> lt p (ys ! k)) \<and> (\<forall>k. ml \<le> k \<and> k < mh \<longrightarrow> \<not> lt p (ys ! k) \<and> \<not> lt (ys ! k) p) \<and>
       (\<forall>k. mh \<le> k \<and> k < hi \<longrightarrow> \<not> lt (ys ! k) p))"
proof -
  define m where "m = (lo + hi) div 2"
  have m: "lo < m" "m < hi - 1" unfolding m_def using assms(2) by linarith+
  define x1 where "x1 = choose_pivot lt xs lo hi"
  have r1: "rearr lo hi xs x1" unfolding x1_def by (rule choose_pivot_rearr [OF assms(2,3)])
  have l1: "length x1 = length xs" by (rule rearr_length [OF r1])
  have S1: "x1 ! k \<in> S" if "k < hi" for k using that assms(1,3) rearr_set [OF r1] l1 by (metis nth_mem order_less_le_trans subsetD)
  define p where "p = x1 ! lo"
  have p: "p \<in> S" using S1 assms(2) by (simp add: p_def)
  have top: "\<not> lt (x1 ! (hi - 1)) p"
  proof -
    define z where "z = (if hi - lo > 40
        then let s = (hi - lo) div 8; xs = medianOfThree lt xs lo (lo + s) (lo + 2 * s);
                 xs = medianOfThree lt xs m (m - s) (m + s) in medianOfThree lt xs (hi - 1) (hi - 1 - s) (hi - 1 - 2 * s)
        else xs)"
    have x1: "x1 = medianOfThree lt z lo m (hi - 1)" unfolding x1_def choose_pivot_def z_def m_def Let_def by (rule refl)
    have "rearr lo hi z x1" if "length z = length xs"
      unfolding x1 using m that assms(2,3) by (intro medianOfThree_rearr) auto
    moreover have "length z = length xs" by (simp add: z_def Let_def)
    ultimately have "set z \<subseteq> S" "length z = length xs" using rearr_set [of lo hi z x1] rearr_set [OF r1] assms(1) by auto
    then show ?thesis
      using medianOfThree_order [of z lo m "hi - 1"] m assms(2,3) unfolding p_def x1 by simp
  qed
  define a where "a = scan_up (\<lambda>k. lt (x1 ! k) (x1 ! lo)) (hi - 1) (lo + 1)"
  have "lo + 1 \<le> hi - 1" using assms(2) by simp
  note A = scan_up_spec [OF this, of "\<lambda>k. lt (x1 ! k) (x1 ! lo)", folded a_def p_def]
  obtain x2 b c where s2: "split_loop lt lo x1 a (hi - 1) = (x2, b, c)" by (metis surj_pair)
  have low1: "\<not> lt p (x1 ! k)" if "lo < k" "k < a" for k
    using that A asym [of "x1 ! k" p] S1 [of k] p by auto
  have B: "rearr a (hi - 1) x1 x2 \<and> a \<le> b \<and> b = c \<and> c \<le> hi - 1
    \<and> (\<forall>k. lo < k \<and> k < b \<longrightarrow> \<not> lt p (x2 ! k)) \<and> (\<forall>k. c \<le> k \<and> k < hi - 1 \<longrightarrow> lt p (x2 ! k))"
    unfolding p_def
  proof (rule split_loop_spec [OF s2])
    show "lo < a" "a \<le> hi - 1" "hi - 1 \<le> hi - 1" "hi - 1 \<le> length x1" using A assms(2,3) l1 by auto
  qed (use low1 in \<open>auto simp: p_def\<close>)
  have a: "lo < a" "a \<le> hi - 1" using A by simp_all
  have r2: "rearr lo hi x1 x2" by (rule rearr_mono [OF B [THEN conjunct1]]) (use a in simp_all)
  have l2: "length x2 = length xs" using rearr_length [OF r2] l1 by simp
  have S2: "x2 ! k \<in> S" if "k < hi" for k
    using that assms(1,3) rearr_set [OF r2] rearr_set [OF r1] l2 by (metis nth_mem order_less_le_trans subsetD)
  have p2: "x2 ! lo = p" "x2 ! (hi - 1) = x1 ! (hi - 1)" using rearr_outside [OF B [THEN conjunct1]] a by (auto simp: p_def)
  have q2: "parted lt (x2 ! lo) x2 lo b c hi"
    unfolding parted_def p2(1)
  proof (intro conjI allI impI)
    fix k assume k: "c \<le> k \<and> k < hi"
    show "\<not> lt (x2 ! k) p"
    proof (cases "k = hi - 1")
      case False
      then have "lt p (x2 ! k)" using B k by auto
      then show ?thesis using asym p S2 k by blast
    qed (use top p2 in simp)
  qed (use B in auto)
  define t where "t = (\<not> hi - c < 5 \<and> hi - c < (hi - lo) div 4)"
  obtain x3 b3 c3 d where td: "test_dups lt lo m hi x2 b c = (x3, b3, c3, d)" by (metis surj_pair)
  define x4 where "x4 = (if t then x3 else x2)"
  define b4 where "b4 = (if t then b3 else b)"
  define c4 where "c4 = (if t then c3 else c)"
  have Q4: "rearr (lo + 1) hi x2 x4 \<and> lo < b4 \<and> b4 \<le> c4 \<and> c4 \<le> hi \<and> parted lt p x4 lo b4 c4 hi"
  proof (cases t)
    case True
    then have c: "5 \<le> hi - c" "hi - c < (hi - lo) div 4" by (auto simp: t_def)
    have bc: "b = c" using B by simp
    have "lo + 4 < b" "c < hi - 1" "m + 4 < b" using c assms(2) unfolding bc m_def by linarith+
    then show ?thesis
      using test_dups_spec [OF td _ _ _ _ m(1) _ q2] bc assms(3) l2 True p2 by (simp add: x4_def b4_def c4_def)
  next
    case False
    then show ?thesis using A B q2 p2 by (auto simp: x4_def b4_def c4_def)
  qed
  have l4: "length x4 = length xs" using Q4 rearr_length l2 by metis
  have p4: "x4 ! lo = p" using rearr_outside [OF Q4 [THEN conjunct1], of lo] p2 by simp
  define u where "u = (if t then d > 1 else hi - c < 5)"
  obtain x5 b5 where pl: "protect_loop lt lo x4 a b4 = (x5, b5)" by (metis surj_pair)
  define x6 where "x6 = (if u then x5 else x4)"
  define b6 where "b6 = (if u then b5 else b4)"
  have Q6: "rearr (lo + 1) hi x4 x6 \<and> lo < b6 \<and> b6 \<le> c4 \<and> parted lt p x6 lo b6 c4 hi"
  proof (cases u)
    case True
    have "rearr (lo + 1) b4 x4 x5 \<and> lo < b5 \<and> b5 \<le> b4 \<and> (\<forall>k. lo < k \<and> k < b5 \<longrightarrow> \<not> lt p (x5 ! k))
      \<and> (\<forall>k. b5 \<le> k \<and> k < c4 \<longrightarrow> \<not> lt p (x5 ! k) \<and> \<not> lt (x5 ! k) p)"
      using protect_loop_spec [OF pl, of c4] A Q4 assms(3) l4 p4 unfolding parted_def by auto
    moreover have "x5 ! k = x4 ! k" if "rearr (lo + 1) b4 x4 x5" "c4 \<le> k" for k
      using rearr_outside [OF that(1), of k] that(2) Q4 by auto
    ultimately show ?thesis
      using True Q4 rearr_mono [of "lo + 1" b4 x4 x5 "lo + 1" hi] by (auto simp: x6_def b6_def parted_def)
  qed (use Q4 in \<open>simp add: x6_def b6_def\<close>)
  have l6: "length x6 = length xs" using Q6 rearr_length l4 by metis
  have p6: "x6 ! lo = p" using rearr_outside [OF Q6 [THEN conjunct1], of lo] p4 by simp
  have e1: "(if \<not> hi - c < 5 \<and> hi - c < (hi - lo) div 4
      then (case test_dups lt lo m hi x2 b c of (xs, b, c, dups) \<Rightarrow> (xs, b, c, dups > 1)) else (x2, b, c, hi - c < 5))
      = (x4, b4, c4, u)"
    unfolding td prod.case t_def [symmetric] by (simp add: x4_def b4_def c4_def u_def)
  have e2: "(if u then protect_loop lt lo x4 a b4 else (x4, b4)) = (x6, b6)"
    unfolding pl by (simp add: x6_def b6_def)
  have res: "(ys, ml, mh) = (swap x6 lo (b6 - 1), b6 - 1, c4)"
    using assms(4) unfolding doPivot_def Let_def m_def [symmetric] x1_def [symmetric] a_def [symmetric] s2 prod.case e1 e2
    by (rule sym)
  have b6: "lo \<le> b6 - 1" "b6 - 1 < c4" "b6 - 1 < hi" "lo < length x6" "b6 - 1 < length x6" using Q6 Q4 assms(2,3) l6 by auto
  have n: "ys ! k = (if k = b6 - 1 then p else if k = lo then x6 ! (b6 - 1) else x6 ! k)" for k
    using res swap_nth [OF b6(4,5), of k] by (simp add: p6)
  have "rearr lo hi x6 ys" using res b6 assms(2,3) l6 by (auto intro: rearr_swap)
  moreover have "rearr lo hi x2 x4" "rearr lo hi x4 x6" using Q4 Q6 by (auto intro: rearr_mono)
  ultimately have "rearr lo hi xs ys" using rearr_trans r1 r2 by metis
  moreover have "\<not> lt p (ys ! k)" if "lo \<le> k" "k < b6 - 1" for k
    using that Q6 unfolding parted_def by (simp add: n)
  moreover have "\<not> lt p (ys ! k) \<and> \<not> lt (ys ! k) p" if "b6 - 1 \<le> k" "k < c4" for k
    using that Q6 irrefl [OF p] b6(1) unfolding parted_def by (auto simp: n)
  moreover have "\<not> lt (ys ! k) p" if "c4 \<le> k" "k < hi" for k
    using that Q6 b6(1,2) unfolding parted_def by (auto simp: n)
  ultimately show ?thesis using res b6 Q4 p by auto
qed

lemma siftDown_heap:
  assumes "set xs \<subseteq> S" and "first + hi \<le> length xs" and "lo \<le> root"
    and "\<forall>k c. lo \<le> k \<and> k \<noteq> root \<and> (c = 2 * k + 1 \<or> c = 2 * k + 2) \<and> c < hi \<longrightarrow> \<not> lt (xs ! (first + k)) (xs ! (first + c))"
    and "\<forall>k c. lo \<le> k \<and> (root = 2 * k + 1 \<or> root = 2 * k + 2) \<and> (c = 2 * root + 1 \<or> c = 2 * root + 2) \<and> c < hi
      \<longrightarrow> \<not> lt (xs ! (first + k)) (xs ! (first + c))"
  shows "heap_from lt (siftDown lt xs root hi first) first lo hi"
  using assms
proof (induction "hi - root" arbitrary: xs root rule: less_induct)
  case less
  have mem: "xs ! (first + k) \<in> S" if "k < hi" for k using less(2,3) that by auto
  show ?case
  proof (cases "2 * root + 1 \<ge> hi")
    case True
    then have e: "siftDown lt xs root hi first = xs" by (subst siftDown.simps) (simp add: Let_def)
    show ?thesis
      unfolding e heap_from_def
    proof (intro allI impI)
      fix k c assume kc: "lo \<le> k \<and> (c = 2 * k + 1 \<or> c = 2 * k + 2) \<and> c < hi"
      then have "k \<noteq> root" using True by auto
      then show "\<not> lt (xs ! (first + k)) (xs ! (first + c))" using less(5) kc by blast
    qed
  next
    case False
    define ch where "ch = (if 2 * root + 1 + 1 < hi \<and> lt (xs ! (first + (2 * root + 1))) (xs ! (first + (2 * root + 1) + 1))
      then 2 * root + 1 + 1 else 2 * root + 1)"
    have ch: "ch = 2 * root + 1 \<or> ch = 2 * root + 2" "ch < hi" "root < ch" using False by (auto simp: ch_def)
    have e: "siftDown lt xs root hi first = (if \<not> lt (xs ! (first + root)) (xs ! (first + ch)) then xs
        else siftDown lt (swap xs (first + root) (first + ch)) ch hi first)"
      using False by (subst siftDown.simps) (simp add: Let_def ch_def)
    have other: "\<not> lt (xs ! (first + ch)) (xs ! (first + c))" if "c = 2 * root + 1 \<or> c = 2 * root + 2" "c < hi" for c
      using that ch(2) mem [of "2 * root + 1"] mem [of "2 * root + 2"] irrefl [of "xs ! (first + c)"]
        asym [of "xs ! (first + (2 * root + 1))" "xs ! (first + (2 * root + 2))"]
      by (auto simp: ch_def split: if_splits)
    show ?thesis
    proof (cases "lt (xs ! (first + root)) (xs ! (first + ch))")
      case stop: False
      have top: "\<not> lt (xs ! (first + root)) (xs ! (first + c))" if "c = 2 * root + 1 \<or> c = 2 * root + 2" "c < hi" for c
        using le_trans [of "xs ! (first + c)" "xs ! (first + ch)" "xs ! (first + root)"] other [OF that] stop mem that ch by auto
      have "heap_from lt xs first lo hi"
        unfolding heap_from_def
      proof (intro allI impI)
        fix k c assume kc: "lo \<le> k \<and> (c = 2 * k + 1 \<or> c = 2 * k + 2) \<and> c < hi"
        show "\<not> lt (xs ! (first + k)) (xs ! (first + c))"
          by (cases "k = root") (use kc top [of c] less(5) in blast)+
      qed
      then show ?thesis using stop unfolding e by simp
    next
      case True
      define ys where "ys = swap xs (first + root) (first + ch)"
      have l: "first + root < length xs" "first + ch < length xs" using ch less(3) by auto
      have y: "ys ! (first + k) = (if k = ch then xs ! (first + root) else if k = root then xs ! (first + ch) else xs ! (first + k))" for k
        unfolding ys_def swap_nth [OF l] by simp
      have "set ys = set xs" unfolding ys_def using mset_swap [OF l] by (metis set_mset_mset)
      then have 1: "set ys \<subseteq> S" using less(2) by simp
      have 2: "first + hi \<le> length ys" using less(3) by (simp add: ys_def)
      have 3: "\<not> lt (ys ! (first + k)) (ys ! (first + c))"
        if kc: "lo \<le> k" "k \<noteq> ch" "c = 2 * k + 1 \<or> c = 2 * k + 2" "c < hi" for k c
      proof (cases "k = root")
        case k: True
        have "\<not> lt (xs ! (first + ch)) (xs ! (first + root))" using asym [OF _ _ True] mem ch by auto
        then show ?thesis using other [of c] kc k ch by (auto simp: y)
      next
        case k: False
        have "c \<noteq> ch" using kc(3) ch(1) k by arith
        moreover have "\<not> lt (xs ! (first + k)) (xs ! (first + ch))" if "c = root"
          using less(6) kc(1,3) that ch by blast
        ultimately show ?thesis using less(5) kc k by (auto simp: y)
      qed
      have 4: "\<not> lt (ys ! (first + k)) (ys ! (first + c))"
        if kc: "lo \<le> k" "ch = 2 * k + 1 \<or> ch = 2 * k + 2" "c = 2 * ch + 1 \<or> c = 2 * ch + 2" "c < hi" for k c
      proof -
        have k: "k = root" using kc(2) ch(1) by arith
        have "\<not> lt (xs ! (first + ch)) (xs ! (first + c))" using less(4,5) ch kc(3,4) by auto
        then show ?thesis using ch kc(3) k by (auto simp: y)
      qed
      have "heap_from lt (siftDown lt ys ch hi first) first lo hi"
        using ch less(4) 3 4 by (intro less(1) [OF _ 1 2]) auto
      then show ?thesis using True unfolding e by (simp add: ys_def)
    qed
  qed
qed

lemma build_heap_heap:
  "set xs \<subseteq> S \<Longrightarrow> first + hi \<le> length xs \<Longrightarrow> heap_from lt xs first i hi \<Longrightarrow> heap_from lt (build_heap lt hi first i xs) first 0 hi"
proof (induction i arbitrary: xs)
  case (Suc i)
  have r: "rearr (first + i) (first + hi) xs (siftDown lt xs i hi first)" by (rule siftDown_rearr [OF Suc.prems(2)])
  have "heap_from lt (siftDown lt xs i hi first) first i hi"
    using Suc.prems(3) by (intro siftDown_heap [OF Suc.prems(1,2)]) (auto simp: heap_from_def)
  then show ?case using Suc.IH Suc.prems(1,2) rearr_set [OF r] rearr_length [OF r] by simp
qed simp

lemma heap_max:
  assumes "set xs \<subseteq> S" and "first + hi \<le> length xs" and "heap_from lt xs first 0 hi" and "k < hi"
  shows "\<not> lt (xs ! first) (xs ! (first + k))"
  using assms(4)
proof (induction k rule: less_induct)
  case (less k)
  have mem: "xs ! (first + k) \<in> S" if "k < hi" for k using assms(1,2) that by auto
  show ?case
  proof (cases "k = 0")
    case True
    then show ?thesis using irrefl mem [of 0] less.prems by simp
  next
    case False
    define q where "q = (k - 1) div 2"
    have q: "q < k" "k = 2 * q + 1 \<or> k = 2 * q + 2" using False unfolding q_def by presburger+
    have "\<not> lt (xs ! (first + q)) (xs ! (first + k))" using assms(3) q less.prems unfolding heap_from_def by blast
    moreover have "\<not> lt (xs ! first) (xs ! (first + q))" using less.IH [OF q(1)] q less.prems by simp
    ultimately show ?thesis
      using le_trans [of "xs ! (first + k)" "xs ! (first + q)" "xs ! first"] mem [of 0] mem [of q] mem [of k] q less.prems by simp
  qed
qed

lemma pop_heap_sorted:
  assumes "set xs \<subseteq> S" and "first + hi \<le> length xs" and "i \<le> hi" and "heap_from lt xs first 0 i"
    and "\<forall>p q. p < i \<and> i \<le> q \<and> q < hi \<longrightarrow> \<not> lt (xs ! (first + q)) (xs ! (first + p))"
    and "sorted_in lt xs (first + i) (first + hi)"
  shows "sorted_in lt (pop_heap lt first i xs) first (first + hi)"
  using assms
proof (induction i arbitrary: xs)
  case 0
  then show ?case by simp
next
  case (Suc i)
  define ys where "ys = swap xs first (first + i)"
  define zs where "zs = siftDown lt ys 0 i first"
  have l: "first < length xs" "first + i < length xs" using Suc.prems(2,3) by auto
  have y: "ys ! k = (if k = first + i then xs ! first else if k = first then xs ! (first + i) else xs ! k)" for k
    unfolding ys_def by (rule swap_nth [OF l])
  have "set ys = set xs" unfolding ys_def using mset_swap [OF l] by (metis set_mset_mset)
  then have sy: "set ys \<subseteq> S" "length ys = length xs" using Suc.prems(1) by (simp_all add: ys_def)
  have r: "rearr first (first + i) ys zs"
    using siftDown_rearr [of first i ys 0 lt] Suc.prems(2,3) sy(2) by (simp add: zs_def)
  have h: "heap_from lt zs first 0 i"
    unfolding zs_def
    by (rule siftDown_heap [OF sy(1)]) (use Suc.prems(2,3,4) sy(2) in \<open>auto simp: heap_from_def y\<close>)
  have mx: "\<not> lt (xs ! first) (xs ! (first + k))" if "k < Suc i" for k
    using heap_max [OF Suc.prems(1) _ Suc.prems(4) that] Suc.prems(2,3) by simp
  have low: "P (zs ! (first + p))" if "p < i" "\<And>k. k < Suc i \<Longrightarrow> P (xs ! (first + k))" for P p
  proof (rule rearr_all [OF r])
    show "P (ys ! k)" if "first \<le> k" "k < first + i" for k
      using that \<open>\<And>k. k < Suc i \<Longrightarrow> P (xs ! (first + k))\<close> [of "k - first"] \<open>\<And>k. k < Suc i \<Longrightarrow> P (xs ! (first + k))\<close> [of i]
      by (auto simp: y)
  qed (use that Suc.prems(2,3) sy(2) in auto)
  have out: "zs ! (first + q) = (if q = i then xs ! first else xs ! (first + q))" if "i \<le> q" for q
    using rearr_outside [OF r, of "first + q"] that by (auto simp: y)
  have sorted: "sorted_in lt zs (first + i) (first + hi)"
    unfolding sorted_in_def
  proof (intro allI impI)
    fix p q assume pq: "first + i \<le> p \<and> p < q \<and> q < first + hi"
    define p' q' where "p' = p - first" and "q' = q - first"
    have e: "p = first + p'" "q = first + q'" "i \<le> p'" "p' < q'" "q' < hi" using pq by (auto simp: p'_def q'_def)
    have "\<not> lt (xs ! (first + q')) (xs ! first)" using Suc.prems(5) [rule_format, of 0 q'] e by simp
    moreover have "\<not> lt (xs ! (first + q')) (xs ! (first + p'))" if "p' \<noteq> i"
      using Suc.prems(6) e that unfolding sorted_in_def by simp
    ultimately show "\<not> lt (zs ! q) (zs ! p)" using e by (simp add: out)
  qed
  have bound: "\<forall>p q. p < i \<and> i \<le> q \<and> q < hi \<longrightarrow> \<not> lt (zs ! (first + q)) (zs ! (first + p))"
  proof (intro allI impI)
    fix p q assume pq: "p < i \<and> i \<le> q \<and> q < hi"
    show "\<not> lt (zs ! (first + q)) (zs ! (first + p))"
      using pq mx Suc.prems(5) by (intro low [of p "\<lambda>x. \<not> lt (zs ! (first + q)) x"]) (auto simp: out)
  qed
  have "set zs \<subseteq> S" "first + hi \<le> length zs" "i \<le> hi"
    using rearr_set [OF r] rearr_length [OF r] sy Suc.prems(2,3) by auto
  from Suc.IH [OF this h bound sorted] show ?case by (simp add: zs_def ys_def)
qed

lemma heapSort_sorted:
  assumes "set xs \<subseteq> S" "a \<le> b" "b \<le> length xs"
  shows "sorted_in lt (heapSort lt xs a b) a b"
proof -
  define hi where "hi = b - a"
  define i where "i = (hi - 1) div 2 + 1"
  have b: "a + hi = b" using assms(2) by (simp add: hi_def)
  define ys where "ys = build_heap lt hi a i xs"
  have r: "rearr a (a + hi) xs ys" unfolding ys_def using assms(3) b by (intro build_heap_rearr) simp
  have "hi \<le> 2 * i" unfolding i_def by presburger
  then have "heap_from lt xs a i hi" by (auto simp: heap_from_def)
  then have "heap_from lt ys a 0 hi" unfolding ys_def using assms b by (intro build_heap_heap) simp_all
  then have "sorted_in lt (pop_heap lt a hi ys) a (a + hi)"
    using assms(1,3) rearr_set [OF r] rearr_length [OF r] b by (intro pop_heap_sorted) (auto simp: sorted_in_def)
  then show ?thesis by (simp add: heapSort_def Let_def ys_def i_def hi_def assms(2))
qed

lemma sorted_parts:
  assumes "sorted_in lt xs a m" "sorted_in lt xs n b" and "p \<in> S" and "\<And>k. a \<le> k \<Longrightarrow> k < b \<Longrightarrow> xs ! k \<in> S" and "m \<le> n"
    and "\<And>k. a \<le> k \<Longrightarrow> k < n \<Longrightarrow> \<not> lt p (xs ! k)" and "\<And>k. m \<le> k \<Longrightarrow> k < b \<Longrightarrow> \<not> lt (xs ! k) p"
  shows "sorted_in lt xs a b"
  unfolding sorted_in_def
proof (intro allI impI)
  fix i j assume ij: "a \<le> i \<and> i < j \<and> j < b"
  consider "j < m" | "n \<le> i" | "i < n" "m \<le> j" using ij by linarith
  then show "\<not> lt (xs ! j) (xs ! i)"
  proof cases
    case 3
    then show ?thesis
      using le_trans [of "xs ! i" p "xs ! j"] assms(3) assms(4) [of i] assms(4) [of j] assms(6) [of i] assms(7) [of j] ij by auto
  qed (use assms(1,2) ij in \<open>auto simp: sorted_in_def\<close>)
qed

lemma quickSort_correct:
  assumes "set xs \<subseteq> S" and "a \<le> b" "b \<le> length xs"
  shows "rearr a b xs (quickSort lt xs a b d) \<and> sorted_in lt (quickSort lt xs a b d) a b"
  using assms
proof (induction d arbitrary: xs a b rule: less_induct)
  case (less d)
  consider "b - a > 12" "d = 0" | d' where "b - a > 12" "d = Suc d'" | "\<not> b - a > 12" "b - a > 1" | "\<not> b - a > 12" "\<not> b - a > 1"
    by (cases d) auto
  then show ?case
  proof cases
    case 1
    then have "quickSort lt xs a b d = heapSort lt xs a b" by (subst quickSort.simps) simp
    then show ?thesis using heapSort_rearr less.prems heapSort_sorted by metis
  next
    case (2 d')
    obtain ys ml mh where dp: "doPivot lt xs a b = (ys, ml, mh)" by (metis surj_pair)
    obtain p where P: "rearr a b xs ys" "a \<le> ml" "ml < mh" "mh \<le> b" "p \<in> S"
        "\<And>k. a \<le> k \<Longrightarrow> k < ml \<Longrightarrow> \<not> lt p (ys ! k)" "\<And>k. ml \<le> k \<Longrightarrow> k < mh \<Longrightarrow> \<not> lt p (ys ! k) \<and> \<not> lt (ys ! k) p"
        "\<And>k. mh \<le> k \<Longrightarrow> k < b \<Longrightarrow> \<not> lt (ys ! k) p"
    proof -
      have ab: "a + 12 < b" using 2(1) by simp
      note D = doPivot_spec [OF less.prems(1) ab less.prems(3) dp]
      then obtain p where "p \<in> S" "\<forall>k. a \<le> k \<and> k < ml \<longrightarrow> \<not> lt p (ys ! k)" "\<forall>k. ml \<le> k \<and> k < mh \<longrightarrow> \<not> lt p (ys ! k) \<and> \<not> lt (ys ! k) p"
        "\<forall>k. mh \<le> k \<and> k < b \<longrightarrow> \<not> lt (ys ! k) p" by blast
      with D show thesis by (intro that [of p]) simp_all
    qed
    have y: "set ys \<subseteq> S" "length ys = length xs" using rearr_set [OF P(1)] rearr_length [OF P(1)] less.prems(1) by simp_all
    have lt: "d' < d" using 2 by simp
    define zs where "zs = (if ml - a < b - mh then quickSort lt ys a ml d' else quickSort lt ys mh b d')"
    define ws where "ws = (if ml - a < b - mh then quickSort lt zs mh b d' else quickSort lt zs a ml d')"
    have left: "rearr a ml us (quickSort lt us a ml d') \<and> sorted_in lt (quickSort lt us a ml d') a ml"
      if "set us \<subseteq> S" "length us = length xs" for us
      using that P less.prems(3) by (intro less.IH [OF lt]) auto
    have right: "rearr mh b us (quickSort lt us mh b d') \<and> sorted_in lt (quickSort lt us mh b d') mh b"
      if "set us \<subseteq> S" "length us = length xs" for us
      using that P less.prems(3) by (intro less.IH [OF lt]) auto
    have "rearr a ml ys zs \<or> rearr mh b ys zs" using left [OF y] right [OF y] by (simp add: zs_def)
    then have "set zs = set ys" "length zs = length ys" by (auto dest: rearr_set rearr_length)
    then have z: "set zs \<subseteq> S" "length zs = length xs" using y by simp_all
    have w: "rearr a b ys ws" "sorted_in lt ws a ml" "sorted_in lt ws mh b"
      and part: "\<forall>P k. (\<forall>k. a \<le> k \<and> k < ml \<longrightarrow> P (ys ! k)) \<and> a \<le> k \<and> k < ml \<longrightarrow> P (ws ! k)"
        "\<forall>P k. (\<forall>k. mh \<le> k \<and> k < b \<longrightarrow> P (ys ! k)) \<and> mh \<le> k \<and> k < b \<longrightarrow> P (ws ! k)"
        "\<forall>k. ml \<le> k \<and> k < mh \<longrightarrow> ws ! k = ys ! k"
    proof -
      have m: "ml \<le> mh" "a \<le> mh" "ml \<le> b" "b \<le> length ys" using P(2-4) y(2) less.prems(3) by simp_all
      consider (fwd) "rearr a ml ys zs" "rearr mh b zs ws" "sorted_in lt zs a ml" "sorted_in lt ws mh b"
        | (bwd) "rearr mh b ys zs" "rearr a ml zs ws" "sorted_in lt zs mh b" "sorted_in lt ws a ml"
        using left [OF y] right [OF y] left [OF z] right [OF z] by (cases "ml - a < b - mh") (simp_all add: zs_def ws_def)
      then have "rearr a b ys ws \<and> sorted_in lt ws a ml \<and> sorted_in lt ws mh b
        \<and> (\<forall>P k. (\<forall>k. a \<le> k \<and> k < ml \<longrightarrow> P (ys ! k)) \<and> a \<le> k \<and> k < ml \<longrightarrow> P (ws ! k))
        \<and> (\<forall>P k. (\<forall>k. mh \<le> k \<and> k < b \<longrightarrow> P (ys ! k)) \<and> mh \<le> k \<and> k < b \<longrightarrow> P (ws ! k))
        \<and> (\<forall>k. ml \<le> k \<and> k < mh \<longrightarrow> ws ! k = ys ! k)"
      proof cases
        case fwd
        have s: "sorted_in lt ws a ml" using sorted_in_outside [OF fwd(2), of ml a lt] fwd(3) m(1) by simp
        note t = rearr_two [OF fwd(1,2) disjI1 [OF m(1)] order_refl m(2,3) order_refl m(4)]
        have "\<forall>k. ml \<le> k \<and> k < mh \<longrightarrow> ws ! k = ys ! k" using t(4) by simp
        then show ?thesis using s fwd(4) t(1-3) by (intro conjI)
      next
        case bwd
        have s: "sorted_in lt ws mh b" using sorted_in_outside [OF bwd(2), of b mh lt] bwd(3) m(1) by simp
        note t = rearr_two [OF bwd(1,2) disjI2 [OF m(1)] m(2) order_refl order_refl m(3,4)]
        have "\<forall>k. ml \<le> k \<and> k < mh \<longrightarrow> ws ! k = ys ! k" using t(4) by simp
        then show ?thesis using s bwd(4) t(1-3) by (intro conjI)
      qed
      note all = this
      show "rearr a b ys ws" using all by (elim conjE)
      show "sorted_in lt ws a ml" using all by (elim conjE)
      show "sorted_in lt ws mh b" using all by (elim conjE)
      show "\<forall>P k. (\<forall>k. a \<le> k \<and> k < ml \<longrightarrow> P (ys ! k)) \<and> a \<le> k \<and> k < ml \<longrightarrow> P (ws ! k)"
        using all by (elim conjE)
      show "\<forall>P k. (\<forall>k. mh \<le> k \<and> k < b \<longrightarrow> P (ys ! k)) \<and> mh \<le> k \<and> k < b \<longrightarrow> P (ws ! k)"
        using all by (elim conjE)
      show "\<forall>k. ml \<le> k \<and> k < mh \<longrightarrow> ws ! k = ys ! k" using all by (elim conjE)
    qed
    have lo: "\<not> lt p (ws ! k)" if k: "a \<le> k" "k < mh" for k
      using part(1) [THEN spec [of _ "\<lambda>x. \<not> lt p x"], THEN spec [of _ k]] part(3) [THEN spec [of _ k]] P(6,7) k
      by (cases "k < ml") auto
    have hi: "\<not> lt (ws ! k) p" if k: "ml \<le> k" "k < b" for k
      using part(2) [THEN spec [of _ "\<lambda>x. \<not> lt x p"], THEN spec [of _ k]] part(3) [THEN spec [of _ k]] P(7,8) k
      by (cases "mh \<le> k") auto
    have r: "rearr a b xs ws" by (rule rearr_trans [OF P(1) w(1)])
    have "ws ! k \<in> S" if "k < b" for k
      using rearr_set [OF r] rearr_length [OF r] less.prems(1,3) that by (metis nth_mem order_less_le_trans subsetD)
    then have "sorted_in lt ws a b" using w(2,3) P(3,5) lo hi by (intro sorted_parts [of ws a ml mh b p]) auto
    moreover have "quickSort lt xs a b d = ws"
      using 2 dp by (subst quickSort.simps) (simp add: zs_def ws_def)
    ultimately show ?thesis using r by simp
  next
    case 3
    define ys where "ys = gap_pass lt b (a + 6) xs"
    have r: "rearr a b xs ys" unfolding ys_def using less.prems(3) by (intro gap_pass_rearr) simp_all
    have e: "quickSort lt xs a b d = insertionSort lt ys a b" using 3 by (subst quickSort.simps) (simp add: ys_def)
    have "rearr a b ys (insertionSort lt ys a b)" using less.prems(3) rearr_length [OF r] by (intro insertionSort_rearr) simp
    moreover have "sorted_in lt (insertionSort lt ys a b) a b"
      using less.prems rearr_length [OF r] rearr_set [OF r] by (intro insertionSort_sorted [OF weak]) simp_all
    ultimately show ?thesis using rearr_trans [OF r] unfolding e by simp
  next
    case 4
    then have "quickSort lt xs a b d = xs" by (subst quickSort.simps) auto
    moreover have "sorted_in lt xs a b" using 4 unfolding sorted_in_def by auto
    ultimately show ?thesis by simp
  qed
qed

lemma Sort_sorted: "set xs \<subseteq> S \<Longrightarrow> sorted_wrt (\<lambda>x y. \<not> lt y x) (Sort lt xs)"
  using quickSort_correct [of xs 0 "length xs" "maxDepth (length xs)"] rearr_length
  unfolding Sort_def by (metis order_refl sorted_in_wrt zero_le)

end

subsection \<open>Integers\<close>

text \<open>The contract holds of \<open>IntSlice\<close> and of the durations of the circuit breaker.\<close>

interpretation int_less: less_contract UNIV "(<) :: int \<Rightarrow> int \<Rightarrow> bool"
  by unfold_locales (auto simp: weak_order_def)

lemma Sort_int: "Sort (<) xs = sort (xs :: int list)"
proof -
  have "sorted (Sort (<) xs)" using int_less.Sort_sorted [of xs] by (simp add: not_less)
  then show ?thesis using Sort_mset [of "(<)" xs] by (metis properties_for_sort)
qed

lemma sorted_scan_iff: "sorted_scan lt xs n \<longleftrightarrow> (\<forall>i < n. \<not> lt (xs ! Suc i) (xs ! i))"
  by (induction n) (auto simp: less_Suc_eq)

lemma IsSorted_sorted: "sorted_wrt (\<lambda>x y. \<not> lt y x) xs \<Longrightarrow> IsSorted lt xs"
  by (auto simp: IsSorted_def sorted_scan_iff sorted_wrt_iff_nth_less)

subsection \<open>Properties\<close>

text \<open>C24: \<open>Sort\<close> (quicksort with its median, its protection against duplicates, its fall-back to heap sort and its last
  passes) returns a permutation of the data in which no element is less than an earlier one, whenever \<open>Less\<close> is a strict
  weak order on the data; \<open>IsSorted\<close> agrees.\<close>

theorem sort_sorts:
  assumes "weak_order (set data) lt"
  shows "mset (Sort lt data) = mset data \<and> sorted_wrt (\<lambda>x y. \<not> lt y x) (Sort lt data) \<and> IsSorted lt (Sort lt data)"
proof -
  have "sorted_wrt (\<lambda>x y. \<not> lt y x) (Sort lt data)"
    using less_contract.Sort_sorted [OF less_contract.intro [OF assms] order_refl] .
  then show ?thesis using Sort_mset IsSorted_sorted by blast
qed

lemma sort_sorts_witness:
  "sorted_wrt (\<lambda>x y. \<not> y < x) (Sort (<) [5, 3, 14, 1, 9, 2, 6, 13, 8, 7, 12, 4, 11, 10 :: int])"
proof -
  have "weak_order (set [5, 3, 14, 1, 9, 2, 6, 13, 8, 7, 12, 4, 11, 10]) ((<) :: int \<Rightarrow> int \<Rightarrow> bool)"
    by (auto simp: weak_order_def)
  from sort_sorts [OF this] show ?thesis by blast
qed

end
