(* ===== verification/CronRun.thy ===== *)
theory CronRun
  imports CronSearch GoQuickSort
begin

text \<open>
  The runner of robfig/cron (cron.go) with its options (option.go) and the chain of wrappers
  (chain.go). A \<open>Cron\<close> is a record; its entries are a list of records (the code's slice of
  pointers, no two of which are equal). The goroutine of \<open>run\<close> owns the entries while it runs: a
  method sends it a message on an unbuffered channel, so sending and handling are one step, here
  \<open>run_event\<close>. Clock readings are arguments, in the location of the \<open>Cron\<close>. A job is any
  type; what has been started is the list \<open>c_started\<close>, oldest first. \<open>Schedule\<close> is an interface:
  the method \<open>Next\<close> is the argument \<open>nxt\<close>, \<open>None\<close> where a call does not return.
\<close>

subsection \<open>Entries\<close>

record ('s, 'j) entry =
  e_ID :: int
  e_Schedule :: 's
  e_Next :: gtime
  e_Prev :: gtime
  e_WrappedJob :: 'j
  e_Job :: 'j

definition Entry_Valid :: "('s, 'j) entry \<Rightarrow> bool" where
  "Entry_Valid e \<longleftrightarrow> e_ID e \<noteq> 0"

text \<open>\<open>byTime.Less\<close>: by the next time, the zero time last.\<close>

definition entry_less :: "('s, 'j) entry \<Rightarrow> ('s, 'j) entry \<Rightarrow> bool" where
  "entry_less x y =
     (if IsZero (e_Next x) then False
      else if IsZero (e_Next y) then True
      else Before (e_Next x) (e_Next y))"

subsection \<open>The chain of wrappers\<close>

text \<open>\<open>Then\<close>: the loop over the wrappers, from the last to the first.\<close>

fun then_loop :: "('j \<Rightarrow> 'j) list \<Rightarrow> nat \<Rightarrow> nat \<Rightarrow> 'j \<Rightarrow> 'j" where
  "then_loop wrappers i 0 j = j"
| "then_loop wrappers i (Suc k) j = then_loop wrappers (i + 1) k ((wrappers ! (length wrappers - i - 1)) j)"

definition Chain_Then :: "('j \<Rightarrow> 'j) list \<Rightarrow> 'j \<Rightarrow> 'j" where
  "Chain_Then wrappers j = then_loop wrappers 0 (length wrappers) j"

subsection \<open>The Cron\<close>

record ('s, 'j, 'p) cron =
  c_entries :: "('s, 'j) entry list"
  c_chain :: "('j \<Rightarrow> 'j) list"
  c_running :: bool
  c_location :: loc
  c_parser :: 'p
  c_nextID :: int
  c_started :: "'j list"
  c_jobs :: nat

type_synonym ('s, 'j, 'p) cron_option = "('s, 'j, 'p) cron \<Rightarrow> ('s, 'j, 'p) cron"

definition WithLocation :: "loc \<Rightarrow> ('s, 'j, 'p) cron_option" where
  "WithLocation l c = c\<lparr>c_location := l\<rparr>"

definition WithParser :: "'p \<Rightarrow> ('s, 'j, 'p) cron_option" where
  "WithParser p c = c\<lparr>c_parser := p\<rparr>"

definition WithChain :: "('j \<Rightarrow> 'j) list \<Rightarrow> ('s, 'j, 'p) cron_option" where
  "WithChain wrappers c = c\<lparr>c_chain := wrappers\<rparr>"

text \<open>\<open>New\<close>: the defaults, then the options in order. \<open>lcl\<close> is \<open>time.Local\<close>.\<close>

definition cron_New :: "loc \<Rightarrow> 'p \<Rightarrow> ('s, 'j, 'p) cron_option list \<Rightarrow> ('s, 'j, 'p) cron" where
  "cron_New lcl standardParser opts =
     fold (\<lambda>opt c. opt c) opts
       \<lparr>c_entries = [], c_chain = [], c_running = False, c_location = lcl, c_parser = standardParser,
        c_nextID = 0, c_started = [], c_jobs = 0\<rparr>"

text \<open>A clock reading in the location of the \<open>Cron\<close>.\<close>

definition cron_now :: "('s, 'j, 'p) cron \<Rightarrow> gtime \<Rightarrow> gtime" where
  "cron_now c clock = setLoc clock (c_location c)"

subsection \<open>Operations on entries\<close>

definition entrySnapshot :: "('s, 'j, 'p) cron \<Rightarrow> ('s, 'j) entry list" where
  "entrySnapshot c = c_entries c"

definition removeEntry :: "int \<Rightarrow> ('s, 'j, 'p) cron \<Rightarrow> ('s, 'j, 'p) cron" where
  "removeEntry i c = c\<lparr>c_entries := filter (\<lambda>e. e_ID e \<noteq> i) (c_entries c)\<rparr>"

definition startJob :: "'j \<Rightarrow> ('s, 'j, 'p) cron \<Rightarrow> ('s, 'j, 'p) cron" where
  "startJob j c = c\<lparr>c_started := c_started c @ [j], c_jobs := c_jobs c + 1\<rparr>"

text \<open>The end of a job: \<open>jobWaiter.Done\<close>.\<close>

definition finishJob :: "('s, 'j, 'p) cron \<Rightarrow> ('s, 'j, 'p) cron" where
  "finishJob c = c\<lparr>c_jobs := c_jobs c - 1\<rparr>"

text \<open>\<open>Entry\<close>: the entry with an id, or the zero entry.\<close>

definition cron_Entry :: "int \<Rightarrow> ('s, 'j, 'p) cron \<Rightarrow> ('s, 'j) entry option" where
  "cron_Entry i c = find (\<lambda>e. i = e_ID e) (entrySnapshot c)"

subsection \<open>The run loop\<close>

text \<open>The activation times at the start.\<close>

fun schedule_all :: "('s \<Rightarrow> gtime \<Rightarrow> gtime option) \<Rightarrow> gtime \<Rightarrow> ('s, 'j) entry list \<Rightarrow> ('s, 'j) entry list option" where
  "schedule_all nxt now [] = Some []"
| "schedule_all nxt now (e # es) =
     (case nxt (e_Schedule e) now of
        None \<Rightarrow> None
      | Some t \<Rightarrow> map_option (\<lambda>es. e\<lparr>e_Next := t\<rparr> # es) (schedule_all nxt now es))"

text \<open>The head of the loop: sort, and the time to sleep.\<close>

definition sort_entries :: "(('s, 'j) entry list \<Rightarrow> ('s, 'j) entry list) \<Rightarrow> ('s, 'j, 'p) cron \<Rightarrow> ('s, 'j, 'p) cron" where
  "sort_entries srt c = c\<lparr>c_entries := srt (c_entries c)\<rparr>"

definition sleep_time :: "('s, 'j, 'p) cron \<Rightarrow> gtime \<Rightarrow> int" where
  "sleep_time c now =
     (if c_entries c = [] \<or> IsZero (e_Next (hd (c_entries c))) then 100000 * Hour
      else Time_Sub (e_Next (hd (c_entries c))) now)"

text \<open>The timer: run the entries that are due, up to the first that is not; the jobs started, and the entries after.\<close>

fun run_due :: "('s \<Rightarrow> gtime \<Rightarrow> gtime option) \<Rightarrow> gtime \<Rightarrow> ('s, 'j) entry list
    \<Rightarrow> ('j list \<times> ('s, 'j) entry list) option" where
  "run_due nxt now [] = Some ([], [])"
| "run_due nxt now (e # es) =
     (if After (e_Next e) now \<or> IsZero (e_Next e) then Some ([], e # es)
      else case nxt (e_Schedule e) now of
        None \<Rightarrow> None
      | Some t \<Rightarrow>
          map_option (\<lambda>(js, es). (e_WrappedJob e # js, e\<lparr>e_Prev := e_Next e, e_Next := t\<rparr> # es)) (run_due nxt now es))"

datatype ('s, 'j) run_event =
    TimerEv gtime
  | AddEv "('s, 'j) entry" gtime
  | SnapshotEv
  | StopEv
  | RemoveEv int gtime

text \<open>
  One turn of the inner loop: the new state and the loop's \<open>now\<close>. The loop head sorts again after
  every event but a snapshot and a stop.
\<close>

definition run_event ::
    "('s \<Rightarrow> gtime \<Rightarrow> gtime option) \<Rightarrow> (('s, 'j) entry list \<Rightarrow> ('s, 'j) entry list) \<Rightarrow>
     ('s, 'j, 'p) cron \<Rightarrow> gtime \<Rightarrow> ('s, 'j) run_event \<Rightarrow> (('s, 'j, 'p) cron \<times> gtime) option" where
  "run_event nxt srt c now ev =
     (case ev of
        TimerEv clock \<Rightarrow>
          (let now = setLoc clock (c_location c)
           in case run_due nxt now (c_entries c) of
                None \<Rightarrow> None
              | Some (js, es) \<Rightarrow> Some (sort_entries srt (fold startJob js (c\<lparr>c_entries := es\<rparr>)), now))
      | AddEv e clock \<Rightarrow>
          (let now = cron_now c clock
           in case nxt (e_Schedule e) now of
                None \<Rightarrow> None
              | Some t \<Rightarrow> Some (sort_entries srt (c\<lparr>c_entries := c_entries c @ [e\<lparr>e_Next := t\<rparr>]\<rparr>), now))
      | SnapshotEv \<Rightarrow> Some (c, now)
      | StopEv \<Rightarrow> Some (c\<lparr>c_running := False\<rparr>, now)
      | RemoveEv i clock \<Rightarrow> Some (sort_entries srt (removeEntry i c), cron_now c clock))"

subsection \<open>The methods\<close>

text \<open>\<open>Start\<close> and \<open>Run\<close>: nothing when running; otherwise up to the first sleep.\<close>

definition cron_Start ::
    "('s \<Rightarrow> gtime \<Rightarrow> gtime option) \<Rightarrow> (('s, 'j) entry list \<Rightarrow> ('s, 'j) entry list) \<Rightarrow>
     ('s, 'j, 'p) cron \<Rightarrow> gtime \<Rightarrow> ('s, 'j, 'p) cron option" where
  "cron_Start nxt srt c clock =
     (if c_running c then Some c
      else map_option (\<lambda>es. sort_entries srt (c\<lparr>c_running := True, c_entries := es\<rparr>))
             (schedule_all nxt (cron_now c clock) (c_entries c)))"

text \<open>\<open>Schedule\<close>: a new id and entry, appended or sent to the loop.\<close>

definition new_entry :: "('s, 'j, 'p) cron \<Rightarrow> 's \<Rightarrow> 'j \<Rightarrow> ('s, 'j) entry" where
  "new_entry c sched cmd =
     \<lparr>e_ID = i64 (c_nextID c + 1), e_Schedule = sched, e_Next = zero_time, e_Prev = zero_time,
      e_WrappedJob = Chain_Then (c_chain c) cmd, e_Job = cmd\<rparr>"

definition cron_Schedule ::
    "('s \<Rightarrow> gtime \<Rightarrow> gtime option) \<Rightarrow> (('s, 'j) entry list \<Rightarrow> ('s, 'j) entry list) \<Rightarrow>
     ('s, 'j, 'p) cron \<Rightarrow> 's \<Rightarrow> 'j \<Rightarrow> gtime \<Rightarrow> (int \<times> ('s, 'j, 'p) cron) option" where
  "cron_Schedule nxt srt c sched cmd clock =
     (let e = new_entry c sched cmd;
          c = c\<lparr>c_nextID := e_ID e\<rparr>
      in if \<not> c_running c then Some (e_ID e, c\<lparr>c_entries := c_entries c @ [e]\<rparr>)
         else map_option (\<lambda>(c, now). (e_ID e, c)) (run_event nxt srt c zero_time (AddEv e clock)))"

text \<open>\<open>AddJob\<close>, with the parser of the \<open>Cron\<close> as a function.\<close>

datatype ('e, 'a) add_result = AddErr 'e | AddDone 'a

definition AddJob ::
    "('p \<Rightarrow> string \<Rightarrow> 'e + 's) \<Rightarrow> ('s \<Rightarrow> gtime \<Rightarrow> gtime option) \<Rightarrow> (('s, 'j) entry list \<Rightarrow> ('s, 'j) entry list) \<Rightarrow>
     ('s, 'j, 'p) cron \<Rightarrow> string \<Rightarrow> 'j \<Rightarrow> gtime \<Rightarrow> ('e, (int \<times> ('s, 'j, 'p) cron) option) add_result" where
  "AddJob parse nxt srt c spec cmd clock =
     (case parse (c_parser c) spec of
        Inl e \<Rightarrow> AddErr e
      | Inr sched \<Rightarrow> AddDone (cron_Schedule nxt srt c sched cmd clock))"

definition cron_Remove ::
    "('s \<Rightarrow> gtime \<Rightarrow> gtime option) \<Rightarrow> (('s, 'j) entry list \<Rightarrow> ('s, 'j) entry list) \<Rightarrow>
     ('s, 'j, 'p) cron \<Rightarrow> int \<Rightarrow> gtime \<Rightarrow> ('s, 'j, 'p) cron option" where
  "cron_Remove nxt srt c i clock =
     (if c_running c then map_option fst (run_event nxt srt c zero_time (RemoveEv i clock))
      else Some (removeEntry i c))"

definition cron_Stop :: "('s, 'j, 'p) cron \<Rightarrow> ('s, 'j, 'p) cron" where
  "cron_Stop c = (if c_running c then c\<lparr>c_running := False\<rparr> else c)"

subsection \<open>The chain\<close>

lemma then_loop_foldr:
  "i + k = length ws \<Longrightarrow> then_loop ws i k (foldr (\<lambda>w. w) (drop k ws) j) = foldr (\<lambda>w. w) ws j"
proof (induction k arbitrary: i)
  case (Suc k)
  have n: "length ws - i - 1 = k" using Suc.prems by simp
  have "drop k ws = ws ! k # drop (Suc k) ws" using Suc.prems by (intro Cons_nth_drop_Suc [symmetric]) simp
  then have "(ws ! k) (foldr (\<lambda>w. w) (drop (Suc k) ws) j) = foldr (\<lambda>w. w) (drop k ws) j" by simp
  then show ?case using Suc.IH [of "i + 1"] Suc.prems n by (simp del: drop_Suc)
qed simp

lemma Chain_Then_foldr: "Chain_Then ws j = foldr (\<lambda>w. w) ws j"
  using then_loop_foldr [of 0 "length ws" ws j] by (simp add: Chain_Then_def)

subsection \<open>The order of entries\<close>

text \<open>Next times without a monotonic reading; \<open>setLoc\<close> strips it from every clock reading.\<close>

definition stripped :: "gtime \<Rightarrow> bool" where
  "stripped t \<longleftrightarrow> tmono t = None"

lemma stripped_setLoc [simp]: "stripped (setLoc t l)"
  by (simp add: stripped_def setLoc_def stripMono_def)

lemma stripped_cron_now [simp]: "stripped (cron_now c t)"
  by (simp add: cron_now_def)

definition wall_entry :: "('s, 'j) entry \<Rightarrow> bool" where
  "wall_entry e \<longleftrightarrow> stripped (e_Next e)"

lemma Before_stripped: "stripped t \<Longrightarrow> stripped u \<Longrightarrow>
    Before t u \<longleftrightarrow> tsec t < tsec u \<or> tsec t = tsec u \<and> tnsec t < tnsec u"
  by (simp add: Before_def stripped_def)

lemma After_stripped: "stripped t \<Longrightarrow> stripped u \<Longrightarrow> After t u \<longleftrightarrow> Before u t"
  by (auto simp: Before_def After_def stripped_def)

lemma entry_less_order: "weak_order {e. wall_entry e} entry_less"
  unfolding weak_order_def by (auto simp: entry_less_def wall_entry_def Before_stripped split: if_splits)

interpretation next_order: less_contract "{e. wall_entry e}" entry_less
  by unfold_locales (rule entry_less_order)

text \<open>\<open>sort.Sort(byTime(entries))\<close>.\<close>

definition sort_by_time :: "('s, 'j) entry list \<Rightarrow> ('s, 'j) entry list" where
  "sort_by_time es = Sort entry_less es"

locale entry_sorter = sorter srt entry_less wall_entry for srt :: "('s, 'j) entry list \<Rightarrow> ('s, 'j) entry list"

interpretation by_time: entry_sorter sort_by_time
proof
  fix es :: "('s, 'j) entry list"
  show "mset (sort_by_time es) = mset es" by (simp add: sort_by_time_def Sort_mset)
  assume "\<And>e. e \<in> set es \<Longrightarrow> wall_entry e"
  then show "sorted_wrt (\<lambda>x y. \<not> entry_less y x) (sort_by_time es)"
    unfolding sort_by_time_def by (intro next_order.Sort_sorted) auto
qed

subsection \<open>What runs\<close>

text \<open>Due at \<open>now\<close>, and what running does to the entry.\<close>

definition due :: "gtime \<Rightarrow> ('s, 'j) entry \<Rightarrow> bool" where
  "due now e \<longleftrightarrow> \<not> After (e_Next e) now \<and> \<not> IsZero (e_Next e)"

definition ran :: "('s \<Rightarrow> gtime \<Rightarrow> gtime option) \<Rightarrow> gtime \<Rightarrow> ('s, 'j) entry \<Rightarrow> ('s, 'j) entry" where
  "ran nxt now e = (if due now e then e\<lparr>e_Prev := e_Next e, e_Next := the (nxt (e_Schedule e) now)\<rparr> else e)"

lemma not_due_later:
  assumes "\<not> due now x" and "\<not> entry_less y x" and "wall_entry x" "wall_entry y" "stripped now"
  shows "\<not> due now y"
  using assms by (auto simp: due_def entry_less_def wall_entry_def After_stripped Before_stripped split: if_splits)

lemma run_due_exact:
  assumes "sorted_wrt (\<lambda>x y. \<not> entry_less y x) es" and "\<forall>e \<in> set es. wall_entry e" and "stripped now"
    and "run_due nxt now es = Some (js, es')"
  shows "js = map e_WrappedJob (filter (due now) es) \<and> es' = map (ran nxt now) es"
  using assms
proof (induction es arbitrary: js es')
  case (Cons e es)
  show ?case
  proof (cases "due now e")
    case False
    have "\<not> due now x" if "x \<in> set es" for x
      using not_due_later [OF False, of x] Cons.prems(1-3) that by simp
    then have "filter (due now) (e # es) = []" "map (ran nxt now) (e # es) = e # es"
      using False by (auto simp: filter_empty_conv ran_def intro: map_idI)
    moreover have "js = [] \<and> es' = e # es" using Cons.prems(4) False by (auto simp: due_def split: if_splits)
    ultimately show ?thesis by simp
  next
    case True
    then obtain t js1 es1 where r: "nxt (e_Schedule e) now = Some t" "run_due nxt now es = Some (js1, es1)"
      "js = e_WrappedJob e # js1" "es' = e\<lparr>e_Prev := e_Next e, e_Next := t\<rparr> # es1"
      using Cons.prems(4) by (auto simp: due_def split: option.splits)
    then show ?thesis using Cons.IH [OF _ _ _ r(2)] Cons.prems(1-3) True by (simp add: ran_def)
  qed
qed simp

lemma run_due_returns:
  "\<forall>e \<in> set es. nxt (e_Schedule e) now \<noteq> None \<Longrightarrow> run_due nxt now es \<noteq> None"
  by (induction es) auto

lemma schedule_all_exact:
  "schedule_all nxt now es = Some es' \<Longrightarrow>
   es' = map (\<lambda>e. e\<lparr>e_Next := the (nxt (e_Schedule e) now)\<rparr>) es \<and> (\<forall>e \<in> set es. nxt (e_Schedule e) now \<noteq> None)"
  by (induction es arbitrary: es') (auto split: option.splits)

lemma schedule_all_returns:
  "\<forall>e \<in> set es. nxt (e_Schedule e) now \<noteq> None \<Longrightarrow> schedule_all nxt now es \<noteq> None"
  by (induction es) auto

lemma fold_startJob: "fold startJob js c = c\<lparr>c_started := c_started c @ js, c_jobs := c_jobs c + length js\<rparr>"
  by (induction js arbitrary: c) (simp_all add: startJob_def)

subsection \<open>The interface Schedule\<close>

text \<open>
  What the runner relies on: where \<open>ok\<close> holds, \<open>Next\<close> returns, and what it returns is the zero time or later
  than the time given.
\<close>

locale cron_schedule =
  fixes nxt :: "'s \<Rightarrow> gtime \<Rightarrow> gtime option" and ok :: "'s \<Rightarrow> gtime \<Rightarrow> bool"
  assumes nxt_returns: "ok s t \<Longrightarrow> nxt s t \<noteq> None"
    and nxt_later: "ok s t \<Longrightarrow> nxt s t = Some r \<Longrightarrow> stripped r \<and> (IsZero r \<or> After r t)"
begin

lemma nxt_not_due: "ok s t \<Longrightarrow> \<not> due t (e\<lparr>e_Next := the (nxt s t)\<rparr>)"
  using nxt_returns nxt_later by (fastforce simp: due_def)

text \<open>After the timer nothing is due any more, and the entries still have stripped times.\<close>

lemma nxt_obtain:
  assumes "ok s t"
  obtains r where "nxt s t = Some r" "stripped r" "IsZero r \<or> After r t"
  using nxt_returns [OF assms] nxt_later [OF assms] by blast

lemma ran_not_due: "ok (e_Schedule e) now \<Longrightarrow> \<not> due now (ran nxt now e)"
  by (erule nxt_obtain) (auto simp: due_def ran_def)

lemma ran_wall: "ok (e_Schedule e) now \<Longrightarrow> wall_entry e \<Longrightarrow> wall_entry (ran nxt now e)"
  by (erule nxt_obtain) (auto simp: wall_entry_def ran_def)

lemma timer_event:
  assumes "sorted_wrt (\<lambda>x y. \<not> entry_less y x) (c_entries c)" and "\<forall>e \<in> set (c_entries c). wall_entry e"
    and "\<forall>e \<in> set (c_entries c). ok (e_Schedule e) (setLoc clock (c_location c))"
  defines "t \<equiv> setLoc clock (c_location c)"
  shows "run_event nxt srt c now (TimerEv clock) = Some (
      c\<lparr>c_entries := srt (map (ran nxt t) (c_entries c)),
        c_started := c_started c @ map e_WrappedJob (filter (due t) (c_entries c)),
        c_jobs := c_jobs c + length (filter (due t) (c_entries c))\<rparr>, t)"
proof -
  have "run_due nxt t (c_entries c) \<noteq> None" using assms(3) nxt_returns by (intro run_due_returns) (simp add: t_def)
  then obtain js es where r: "run_due nxt t (c_entries c) = Some (js, es)" by auto
  have "stripped t" by (simp add: t_def)
  from run_due_exact [OF assms(1,2) this r] show ?thesis
    by (simp add: run_event_def t_def [symmetric] Let_def r fold_startJob sort_entries_def)
qed

end

text \<open>The two schedules of the package keep that contract: a specification in a zone of a fixed, whole-minute
  offset, and a constant delay.\<close>

fun schedule_in_range :: "schedule \<Rightarrow> gtime \<Rightarrow> bool" where
  "schedule_in_range (Spec s) t \<longleftrightarrow> time_range t \<and> (\<exists>off. fixed_loc (next_zone s t) off \<and> 60 dvd off)"
| "schedule_in_range (ConstantDelay d) t \<longleftrightarrow> wall_ok t \<and> Second \<le> d \<and> d \<le> max_i64 \<and> Second dvd d"

interpretation schedules: cron_schedule Schedule_Next schedule_in_range
proof
  have spec: "\<exists>r. SpecSchedule_Next s t = Some r \<and> stripped r \<and> (IsZero r \<or> After r t)"
    if ok: "schedule_in_range (Spec s) t" for s t
  proof -
    obtain off where t: "time_range t" and l: "fixed_loc (next_zone s t) off" "60 dvd off" using ok by auto
    have n: "tmono t = None" using t by (simp add: time_range_def wall_ok_def)
    show ?thesis
    proof (cases rule: SpecSchedule_Next_correct [OF t l])
      case (1 a)
      then show ?thesis using n
        by (simp add: stripped_def setLoc_def stripMono_def After_def tm_def local_second_def)
    next
      case 2
      then show ?thesis by (simp add: stripped_def zero_time_def IsZero_def)
    qed
  qed
  have delay: "stripped (ConstantDelay_Next d t) \<and> After (ConstantDelay_Next d t) t"
    if "schedule_in_range (ConstantDelay d) t" for d t
  proof -
    have d: "wall_ok t" "Second \<le> d" "d \<le> max_i64" "Second dvd d" using that by simp_all
    then have "0 < d div Second" by (simp add: time_consts pos_imp_zdiv_pos_iff)
    with ConstantDelay_Next_inst [OF d] show ?thesis using d(1)
      by (simp add: stripped_def After_def wall_ok_def)
  qed
  fix s t
  show "schedule_in_range s t \<Longrightarrow> Schedule_Next s t \<noteq> None" using spec by (cases s) fastforce+
  fix r
  show "schedule_in_range s t \<Longrightarrow> Schedule_Next s t = Some r \<Longrightarrow> stripped r \<and> (IsZero r \<or> After r t)"
    using spec delay by (cases s) fastforce+
qed

subsection \<open>Reachable states\<close>

text \<open>A call of a method, a turn of the loop or the end of a job; \<open>n\<close> counts them.\<close>

inductive cron_reach ::
    "('s \<Rightarrow> gtime \<Rightarrow> gtime option) \<Rightarrow> (('s, 'j) entry list \<Rightarrow> ('s, 'j) entry list) \<Rightarrow>
     nat \<Rightarrow> ('s, 'j, 'p) cron \<Rightarrow> bool" for nxt srt where
  New: "(\<And>opt c. opt \<in> set opts \<Longrightarrow> c_entries (opt c) = c_entries c \<and> c_nextID (opt c) = c_nextID c)
    \<Longrightarrow> cron_reach nxt srt 0 (cron_New lcl p opts)"
| Start: "cron_reach nxt srt n c \<Longrightarrow> cron_Start nxt srt c clock = Some c' \<Longrightarrow> cron_reach nxt srt (n + 1) c'"
| Schedule: "cron_reach nxt srt n c \<Longrightarrow> cron_Schedule nxt srt c s cmd clock = Some (i, c') \<Longrightarrow> cron_reach nxt srt (n + 1) c'"
| Remove: "cron_reach nxt srt n c \<Longrightarrow> cron_Remove nxt srt c i clock = Some c' \<Longrightarrow> cron_reach nxt srt (n + 1) c'"
| Timer: "cron_reach nxt srt n c \<Longrightarrow> c_running c \<Longrightarrow> run_event nxt srt c now (TimerEv clock) = Some (c', now')
    \<Longrightarrow> cron_reach nxt srt (n + 1) c'"
| Stop: "cron_reach nxt srt n c \<Longrightarrow> cron_reach nxt srt (n + 1) (cron_Stop c)"
| Finish: "cron_reach nxt srt n c \<Longrightarrow> cron_reach nxt srt (n + 1) (finishJob c)"

text \<open>Ids are distinct, positive and not above the counter.\<close>

definition ids_ok :: "nat \<Rightarrow> ('s, 'j, 'p) cron \<Rightarrow> bool" where
  "ids_ok n c \<longleftrightarrow> 0 \<le> c_nextID c \<and> c_nextID c \<le> int n \<and> distinct (map e_ID (c_entries c)) \<and>
     (\<forall>e \<in> set (c_entries c). 1 \<le> e_ID e \<and> e_ID e \<le> c_nextID c)"

lemma ids_ok_sub:
  assumes "ids_ok n c" and "c_nextID c' = c_nextID c" and "distinct (map e_ID (c_entries c'))"
    and "e_ID ` set (c_entries c') \<subseteq> e_ID ` set (c_entries c)" and "n \<le> n'"
  shows "ids_ok n' c'"
proof -
  have "1 \<le> e_ID e \<and> e_ID e \<le> c_nextID c" if "e \<in> set (c_entries c')" for e
  proof -
    have "e_ID e \<in> e_ID ` set (c_entries c)" by (rule subsetD [OF assms(4) imageI [OF that]])
    then obtain d where d: "e_ID e = e_ID d" "d \<in> set (c_entries c)" by (rule imageE)
    have "1 \<le> e_ID d \<and> e_ID d \<le> c_nextID c" using assms(1) d(2) unfolding ids_ok_def by blast
    then show ?thesis unfolding d(1) .
  qed
  moreover have "0 \<le> c_nextID c" "c_nextID c \<le> int n'" using assms(1,5) by (simp_all add: ids_ok_def)
  ultimately show ?thesis using assms(2,3) by (simp add: ids_ok_def)
qed

lemma ran_ID [simp]: "e_ID (ran nxt now e) = e_ID e"
  by (simp add: ran_def)

lemma run_due_IDs: "run_due nxt now es = Some (js, es') \<Longrightarrow> map e_ID es' = map e_ID es"
  by (induction es arbitrary: js es') (auto split: if_splits option.splits)

lemma schedule_all_IDs: "schedule_all nxt now es = Some es' \<Longrightarrow> map e_ID es' = map e_ID es"
  by (drule schedule_all_exact) simp

lemma distinct_map_filter_ID: "distinct (map f xs) \<Longrightarrow> distinct (map f (filter P xs))"
  by (simp add: distinct_map_filter)

context entry_sorter
begin

lemma sort_entries_ids:
  "distinct (map e_ID (c_entries (sort_entries srt c))) \<longleftrightarrow> distinct (map e_ID (c_entries c))"
  "set (c_entries (sort_entries srt c)) = set (c_entries c)" "c_nextID (sort_entries srt c) = c_nextID c"
  by (simp_all add: sort_entries_def srt_distinct srt_set)

lemma same_ids_ok:
  assumes "ids_ok n c" and "map e_ID es = map e_ID (c_entries c)" and "c_nextID c' = c_nextID c"
    and "c_entries c' = srt es"
  shows "ids_ok (n + 1) c'"
proof (rule ids_ok_sub [OF assms(1,3)])
  show "distinct (map e_ID (c_entries c'))" using assms(1,2) by (simp add: assms(4) srt_distinct ids_ok_def)
  show "e_ID ` set (c_entries c') \<subseteq> e_ID ` set (c_entries c)"
    using assms(2) by (simp add: assms(4) srt_set) (metis image_set order_refl)
qed simp

lemma new_id_ok:
  assumes "ids_ok n c" and "int n < max_i64" and "e_ID e = i64 (c_nextID c + 1)"
    and "c_nextID c' = e_ID e" and "set (c_entries c') = insert e (set (c_entries c))"
    and "distinct (map e_ID (c_entries c')) \<longleftrightarrow> distinct (map e_ID (c_entries c @ [e]))"
  shows "ids_ok (n + 1) c'"
proof -
  have "i64 (c_nextID c + 1) = c_nextID c + 1" using assms(1,2) by (simp add: i64_id in_i64_def ids_ok_def)
  then show ?thesis using assms by (fastforce simp: ids_ok_def)
qed

lemma reach_ids_ok: "cron_reach nxt srt n c \<Longrightarrow> int n \<le> max_i64 \<Longrightarrow> ids_ok n c"
proof (induction rule: cron_reach.induct)
  case (New opts lcl p)
  have "c_entries (fold (\<lambda>opt c. opt c) opts c) = c_entries c \<and> c_nextID (fold (\<lambda>opt c. opt c) opts c) = c_nextID c" for c
    using New by (induction opts arbitrary: c) simp_all
  then show ?case by (simp add: ids_ok_def cron_New_def)
next
  case (Start n c clock c')
  then have ok: "ids_ok n c" by simp
  show ?case
  proof (cases "c_running c")
    case True
    then show ?thesis using Start.hyps(2) ok by (simp add: cron_Start_def ids_ok_def)
  next
    case False
    then obtain es where "schedule_all nxt (cron_now c clock) (c_entries c) = Some es"
      "c' = sort_entries srt (c\<lparr>c_running := True, c_entries := es\<rparr>)"
      using Start.hyps(2) by (auto simp: cron_Start_def)
    then show ?thesis using schedule_all_IDs by (intro same_ids_ok [OF ok]) (auto simp: sort_entries_def)
  qed
next
  case (Schedule n c s cmd clock i c')
  then have ok: "ids_ok n c" "int n < max_i64" by simp_all
  show ?case
  proof (cases "c_running c")
    case False
    then have "c' = c\<lparr>c_nextID := e_ID (new_entry c s cmd), c_entries := c_entries c @ [new_entry c s cmd]\<rparr>"
      using Schedule.hyps(2) by (auto simp: cron_Schedule_def Let_def)
    then show ?thesis by (intro new_id_ok [OF ok, of "new_entry c s cmd"]) (simp_all add: new_entry_def)
  next
    case True
    define c1 where "c1 = c\<lparr>c_nextID := e_ID (new_entry c s cmd)\<rparr>"
    obtain t where "c' = sort_entries srt (c1\<lparr>c_entries := c_entries c @ [(new_entry c s cmd)\<lparr>e_Next := t\<rparr>]\<rparr>)"
      using Schedule.hyps(2) True
      by (auto simp: cron_Schedule_def c1_def Let_def run_event_def split: option.splits)
    then show ?thesis
      by (intro new_id_ok [OF ok, of "(new_entry c s cmd)\<lparr>e_Next := t\<rparr>"])
        (simp_all add: sort_entries_def srt_set srt_distinct c1_def new_entry_def)
  qed
next
  case (Remove n c i clock c')
  then have ok: "ids_ok n c" by simp
  have "c' = removeEntry i c \<or> c' = sort_entries srt (removeEntry i c)"
    using Remove.hyps(2) by (auto simp: cron_Remove_def run_event_def split: if_splits)
  then have "distinct (map e_ID (c_entries c')) \<and> set (c_entries c') \<subseteq> set (c_entries c) \<and> c_nextID c' = c_nextID c"
    using ok by (auto simp: sort_entries_ids removeEntry_def ids_ok_def distinct_map_filter_ID)
  then show ?case by (intro ids_ok_sub [OF ok]) auto
next
  case (Timer n c now clock c' now')
  then have ok: "ids_ok n c" by simp
  obtain js es where "run_due nxt (setLoc clock (c_location c)) (c_entries c) = Some (js, es)"
    "c' = sort_entries srt (fold startJob js (c\<lparr>c_entries := es\<rparr>))"
    using Timer.hyps(3) by (auto simp: run_event_def Let_def split: option.splits)
  then show ?case using run_due_IDs by (intro same_ids_ok [OF ok]) (auto simp: sort_entries_def fold_startJob)
next
  case (Stop n c)
  then show ?case by (auto simp: ids_ok_def cron_Stop_def)
next
  case (Finish n c)
  then show ?case by (auto simp: ids_ok_def finishJob_def)
qed

end

inductive_cases cron_reachE: "cron_reach nxt srt n c"

subsection \<open>Properties\<close>

text \<open>C27: when the timer fires, the runner starts exactly the jobs whose time has come, in the order of their times, moves
  each of their entries on to a later time (or to never), leaves the others alone, and nothing is due any more.\<close>

theorem timer_runs_due:
  assumes "sorted_wrt (\<lambda>x y. \<not> entry_less y x) (c_entries c)" and "\<forall>e \<in> set (c_entries c). wall_entry e"
    and "now = setLoc clock (c_location c)" and "\<forall>e \<in> set (c_entries c). schedule_in_range (e_Schedule e) now"
  shows "\<exists>c'. run_event Schedule_Next sort_by_time c now0 (TimerEv clock) = Some (c', now)
    \<and> c_started c' = c_started c @ map e_WrappedJob (filter (due now) (c_entries c))
    \<and> c_jobs c' = c_jobs c + length (filter (due now) (c_entries c))
    \<and> mset (c_entries c') = mset (map (ran Schedule_Next now) (c_entries c))
    \<and> sorted_wrt (\<lambda>x y. \<not> entry_less y x) (c_entries c') \<and> (\<forall>e \<in> set (c_entries c'). \<not> due now e)"
proof -
  note r = schedules.timer_event [of c clock sort_by_time now0, OF assms(1,2), folded assms(3), OF assms(4)]
  have "\<forall>e \<in> set (map (ran Schedule_Next now) (c_entries c)). wall_entry e \<and> \<not> due now e"
  proof
    fix x assume "x \<in> set (map (ran Schedule_Next now) (c_entries c))"
    then obtain e where e: "e \<in> set (c_entries c)" "x = ran Schedule_Next now e" by auto
    then have "schedule_in_range (e_Schedule e) now" "wall_entry e" using assms(2,4) by simp_all
    then show "wall_entry x \<and> \<not> due now x"
      unfolding e(2) by (intro conjI schedules.ran_wall schedules.ran_not_due)
  qed
  then have "sorted_wrt (\<lambda>x y. \<not> entry_less y x) (sort_by_time (map (ran Schedule_Next now) (c_entries c)))"
    "\<forall>e \<in> set (sort_by_time (map (ran Schedule_Next now) (c_entries c))). \<not> due now e"
    by (auto simp: by_time.srt_set intro!: by_time.srt_sorted)
  then show ?thesis by (simp add: r by_time.srt_mset)
qed

lemma timer_runs_due_witness:
  "let t = \<lparr>tsec = 63000000000, tnsec = 0, tmono = None, tloc = UTC\<rparr>;
       e = \<lparr>e_ID = 1, e_Schedule = ConstantDelay 5000000000, e_Next = t, e_Prev = zero_time,
            e_WrappedJob = ''job'', e_Job = ''job''\<rparr>;
       c = \<lparr>c_entries = [e], c_chain = [], c_running = True, c_location = UTC, c_parser = (),
            c_nextID = 1, c_started = [], c_jobs = 0\<rparr>
   in \<exists>c'. run_event Schedule_Next sort_by_time c t (TimerEv t) = Some (c', t) \<and> c_started c' = [''job'']"
proof -
  define t where "t = \<lparr>tsec = 63000000000, tnsec = 0, tmono = None, tloc = UTC\<rparr>"
  define e where "e = \<lparr>e_ID = 1, e_Schedule = ConstantDelay 5000000000, e_Next = t, e_Prev = zero_time,
    e_WrappedJob = ''job'', e_Job = ''job''\<rparr>"
  define c where "c = \<lparr>c_entries = [e], c_chain = [], c_running = True, c_location = UTC, c_parser = (),
    c_nextID = 1, c_started = [], c_jobs = 0\<rparr>"
  have t: "setLoc t UTC = t" "stripped t" "wall_ok t" "due t e"
    by (simp_all add: t_def setLoc_def stripMono_def stripped_def wall_ok_def due_def e_def After_def IsZero_def)
  have "schedule_in_range (ConstantDelay 5000000000) t" using t(3) by (simp add: time_consts)
  then have "\<exists>c'. run_event Schedule_Next sort_by_time c t (TimerEv t) = Some (c', t)
      \<and> c_started c' = c_started c @ map e_WrappedJob (filter (due t) (c_entries c))"
    using timer_runs_due [of c t t t] t by (auto simp: c_def wall_entry_def e_def)
  then show ?thesis
    unfolding t_def [symmetric] e_def [symmetric] Let_def c_def [symmetric]
    using t(4) by (simp add: c_def e_def)
qed

text \<open>The ids the runner hands out are never shared: whatever calls, timers and removals come in whatever order
  (fewer than \<open>2 ^ 63\<close> of them), the entries have distinct ids between 1 and the last one given.\<close>

theorem ids_distinct:
  assumes "cron_reach nxt sort_by_time n c" and "int n \<le> max_i64"
  shows "distinct (map e_ID (c_entries c)) \<and> list_all (\<lambda>e. 1 \<le> e_ID e \<and> e_ID e \<le> c_nextID c) (c_entries c)"
  using by_time.reach_ids_ok [OF assms] by (auto simp: ids_ok_def list_all_iff)

lemma ids_distinct_witness:
  "distinct (map e_ID (c_entries (snd (the (cron_Schedule Schedule_Next sort_by_time
      (cron_New UTC () []) (ConstantDelay 1000000000) ''job'' zero_time)))))"
proof -
  define c0 :: "(schedule, string, unit) cron" where "c0 = cron_New UTC () []"
  obtain i c1 where s: "cron_Schedule Schedule_Next sort_by_time c0 (ConstantDelay 1000000000) ''job'' zero_time = Some (i, c1)"
    by (simp add: c0_def cron_New_def cron_Schedule_def Let_def)
  have "cron_reach Schedule_Next sort_by_time 0 c0" unfolding c0_def by (rule cron_reach.New) simp
  from cron_reach.Schedule [OF this s] have "cron_reach Schedule_Next sort_by_time 1 c1" by simp
  from ids_distinct [OF this] show ?thesis by (simp add: c0_def [symmetric] s)
qed

text \<open>The chain applies its wrappers in the order they were given: the first is the outermost.\<close>

theorem chain_order:
  "Chain_Then [] j = j \<and> Chain_Then (w # ws) j = w (Chain_Then ws j)"
  by (simp add: Chain_Then_foldr)

end
