(* ===== verification/CronChain.thy ===== *)
theory CronChain
  imports Prelude
begin

text \<open>
  The job wrappers of robfig/cron chain.go as the invocations of one wrapped job see them, and the
  format strings of logger.go. A job ends by returning or by a panic. \<open>SkipIfStillRunning\<close> keeps a
  token in a channel of capacity one, \<open>DelayIfStillRunning\<close> a mutex; invocations come from different
  goroutines, so a wrapper is a step relation on what it keeps and on the invocations under way.
\<close>

datatype job_end = Returned | Panicked string

subsection \<open>Recover\<close>

text \<open>The deferred function turns a panic into an error in the log.\<close>

definition Recover :: "job_end \<Rightarrow> job_end \<times> string list" where
  "Recover r = (case r of Returned \<Rightarrow> (Returned, []) | Panicked m \<Rightarrow> (Returned, [m]))"

subsection \<open>SkipIfStillRunning\<close>

record skip_state =
  sk_token :: bool
  sk_running :: nat
  sk_runs :: nat
  sk_skips :: nat

definition skip_init :: skip_state where
  "skip_init = \<lparr>sk_token = True, sk_running = 0, sk_runs = 0, sk_skips = 0\<rparr>"

datatype skip_event = SkInvoke | SkEnd job_end

text \<open>An invocation takes the token and runs the job, or skips; the token is put back after \<open>Run\<close> returns.\<close>

inductive skip_step :: "skip_state \<Rightarrow> skip_event \<Rightarrow> skip_state \<Rightarrow> bool" where
  SkRun: "sk_token s \<Longrightarrow>
    skip_step s SkInvoke (s\<lparr>sk_token := False, sk_running := sk_running s + 1, sk_runs := sk_runs s + 1\<rparr>)"
| SkSkip: "\<not> sk_token s \<Longrightarrow> skip_step s SkInvoke (s\<lparr>sk_skips := sk_skips s + 1\<rparr>)"
| SkReturn: "0 < sk_running s \<Longrightarrow> \<not> sk_token s \<Longrightarrow>
    skip_step s (SkEnd Returned) (s\<lparr>sk_token := True, sk_running := sk_running s - 1\<rparr>)"
| SkPanic: "0 < sk_running s \<Longrightarrow> skip_step s (SkEnd (Panicked m)) (s\<lparr>sk_running := sk_running s - 1\<rparr>)"

inductive_cases skip_InvokeE: "skip_step s SkInvoke s'"
inductive_cases skip_EndE: "skip_step s (SkEnd r) s'"

inductive skip_run :: "skip_state \<Rightarrow> skip_event list \<Rightarrow> skip_state \<Rightarrow> bool" where
  SkNil: "skip_run s [] s"
| SkCons: "skip_step s ev s' \<Longrightarrow> skip_run s' evs s'' \<Longrightarrow> skip_run s (ev # evs) s''"

inductive_cases skip_run_NilE: "skip_run s [] s'"
inductive_cases skip_run_ConsE: "skip_run s (ev # evs) s'"

text \<open>The token and the running invocation exclude each other.\<close>

definition skip_inv :: "skip_state \<Rightarrow> bool" where
  "skip_inv s \<longleftrightarrow> (if sk_token s then sk_running s = 0 else sk_running s \<le> 1)"

lemma skip_step_inv: "skip_step s ev s' \<Longrightarrow> skip_inv s \<Longrightarrow> skip_inv s'"
  by (induction rule: skip_step.induct) (auto simp: skip_inv_def)

lemma skip_run_inv: "skip_run s evs s' \<Longrightarrow> skip_inv s \<Longrightarrow> skip_inv s'"
  by (induction rule: skip_run.induct) (auto intro: skip_step_inv)

text \<open>A lost token never comes back.\<close>

definition token_lost :: "skip_state \<Rightarrow> bool" where
  "token_lost s \<longleftrightarrow> \<not> sk_token s \<and> sk_running s = 0"

lemma skip_step_lost: "skip_step s ev s' \<Longrightarrow> token_lost s \<Longrightarrow> token_lost s' \<and> sk_runs s' = sk_runs s"
  by (induction rule: skip_step.induct) (auto simp: token_lost_def)

lemma skip_run_lost: "skip_run s evs s' \<Longrightarrow> token_lost s \<Longrightarrow> token_lost s' \<and> sk_runs s' = sk_runs s"
  by (induction rule: skip_run.induct) (auto dest: skip_step_lost)

lemma skip_panic_loses: "skip_inv s \<Longrightarrow> skip_step s (SkEnd (Panicked m)) s' \<Longrightarrow> token_lost s'"
  by (erule skip_EndE) (auto simp: skip_inv_def token_lost_def split: if_splits)

subsection \<open>DelayIfStillRunning\<close>

text \<open>Invocations wait for the mutex with the time they started; the holder runs the job. The unlock is deferred.\<close>

record delay_state =
  dl_waiting :: "(nat \<times> int) list"
  dl_holder :: "(nat \<times> int) option"
  dl_done :: "nat list"
  dl_logged :: "(nat \<times> int) list"

definition delay_init :: delay_state where
  "delay_init = \<lparr>dl_waiting = [], dl_holder = None, dl_done = [], dl_logged = []\<rparr>"

inductive delay_step :: "delay_state \<Rightarrow> delay_state \<Rightarrow> bool" where
  DlInvoke: "delay_step s (s\<lparr>dl_waiting := dl_waiting s @ [(i, start)]\<rparr>)"
| DlLock: "dl_holder s = None \<Longrightarrow> dl_waiting s = us @ (i, start) # vs \<Longrightarrow>
    delay_step s (s\<lparr>dl_waiting := us @ vs, dl_holder := Some (i, start),
      dl_logged := (if now - start > 60000000000 then dl_logged s @ [(i, now - start)] else dl_logged s)\<rparr>)"
| DlEnd: "dl_holder s = Some (i, start) \<Longrightarrow>
    delay_step s (s\<lparr>dl_holder := None, dl_done := dl_done s @ [i]\<rparr>)"

inductive delay_reach :: "delay_state \<Rightarrow> bool" where
  DlInit: "delay_reach delay_init"
| DlStep: "delay_reach s \<Longrightarrow> delay_step s s' \<Longrightarrow> delay_reach s'"

text \<open>An invocation is waiting, running, or done: none is dropped.\<close>

definition invocations :: "delay_state \<Rightarrow> nat list" where
  "invocations s = map fst (dl_waiting s) @ (case dl_holder s of None \<Rightarrow> [] | Some (i, _) \<Rightarrow> [i]) @ dl_done s"

text \<open>One that waits can run as soon as nothing holds the mutex.\<close>

lemma delay_progress:
  assumes "dl_waiting s \<noteq> []"
  shows "\<exists>s'. delay_step s s' \<and> (dl_holder s \<noteq> None \<and> dl_holder s' = None \<and> dl_waiting s' = dl_waiting s
    \<or> dl_holder s = None \<and> dl_holder s' = Some (hd (dl_waiting s)) \<and> dl_waiting s' = tl (dl_waiting s))"
proof (cases "dl_holder s")
  case None
  obtain i start vs where w: "dl_waiting s = [] @ (i, start) # vs" using assms by (cases "dl_waiting s") auto
  from DlLock [OF None w, of start] None w show ?thesis by fastforce
next
  case (Some p)
  then obtain i start where "dl_holder s = Some (i, start)" by (cases p) auto
  from DlEnd [OF this] this show ?thesis by fastforce
qed

subsection \<open>Format strings\<close>

fun format_pairs :: "nat \<Rightarrow> nat \<Rightarrow> string" where
  "format_pairs i 0 = []"
| "format_pairs i (Suc k) = (if i > 0 then '', '' else []) @ ''%v=%v'' @ format_pairs (i + 1) k"

definition formatString :: "nat \<Rightarrow> string" where
  "formatString numKeysAndValues =
     ''%s'' @ (if numKeysAndValues > 0 then '', '' else []) @ format_pairs 0 (numKeysAndValues div 2)"

lemma format_pairs_verbs: "length (filter (\<lambda>c. c = CHR ''%'') (format_pairs i k)) = 2 * k"
  by (induction i k rule: format_pairs.induct) auto

lemma formatString_verbs:
  "length (filter (\<lambda>c. c = CHR ''%'') (formatString n)) = 1 + 2 * (n div 2)"
  by (simp add: formatString_def format_pairs_verbs)

subsection \<open>Properties\<close>

text \<open>Under \<open>SkipIfStillRunning\<close> a job never runs twice at the same time, whatever the order in which invocations
  come and end; the token is in the channel only while nothing runs.\<close>

theorem skip_runs_alone:
  assumes "skip_run skip_init evs s"
  shows "sk_running s \<le> 1 \<and> (sk_token s \<longrightarrow> sk_running s = 0)"
  using skip_run_inv [OF assms] by (auto simp: skip_inv_def skip_init_def split: if_splits)

lemma skip_runs_alone_witness:
  "sk_running \<lparr>sk_token = False, sk_running = 1, sk_runs = 1, sk_skips = 1\<rparr> \<le> 1"
proof -
  have "skip_run skip_init [SkInvoke, SkInvoke] \<lparr>sk_token = False, sk_running = 1, sk_runs = 1, sk_skips = 1\<rparr>"
    using SkCons [OF SkRun SkCons [OF SkSkip SkNil], of skip_init] by (simp add: skip_init_def)
  from skip_runs_alone [OF this] show ?thesis by simp
qed

text \<open>A job that panics under \<open>SkipIfStillRunning\<close> takes the token with it: from then on every invocation is
  skipped, for good.\<close>

theorem skip_panic_is_final:
  assumes "skip_run skip_init evs s" and "skip_step s (SkEnd (Panicked m)) s'" and "skip_run s' evs' s''"
  shows "sk_runs s'' = sk_runs s' \<and> \<not> sk_token s''"
proof -
  have "skip_inv s" using skip_run_inv [OF assms(1)] by (simp add: skip_inv_def skip_init_def)
  from skip_run_lost [OF assms(3) skip_panic_loses [OF this assms(2)]] show ?thesis by (simp add: token_lost_def)
qed

lemma skip_panic_is_final_witness:
  "\<not> sk_token \<lparr>sk_token = False, sk_running = 0, sk_runs = 1, sk_skips = 1\<rparr>"
proof -
  have a: "skip_run skip_init [SkInvoke] \<lparr>sk_token = False, sk_running = 1, sk_runs = 1, sk_skips = 0\<rparr>"
    using SkCons [OF SkRun SkNil, of skip_init] by (simp add: skip_init_def)
  have b: "skip_step \<lparr>sk_token = False, sk_running = 1, sk_runs = 1, sk_skips = 0\<rparr> (SkEnd (Panicked ''boom''))
      \<lparr>sk_token = False, sk_running = 0, sk_runs = 1, sk_skips = 0\<rparr>"
    using SkPanic [of "\<lparr>sk_token = False, sk_running = 1, sk_runs = 1, sk_skips = 0\<rparr>" "''boom''"] by simp
  have c: "skip_run \<lparr>sk_token = False, sk_running = 0, sk_runs = 1, sk_skips = 0\<rparr> [SkInvoke]
      \<lparr>sk_token = False, sk_running = 0, sk_runs = 1, sk_skips = 1\<rparr>"
    using SkCons [OF SkSkip SkNil, of "\<lparr>sk_token = False, sk_running = 0, sk_runs = 1, sk_skips = 0\<rparr>"] by simp
  from skip_panic_is_final [OF a b c] show ?thesis by simp
qed

end
