(* ===== verification/Rolling.thy ===== *)
theory Rolling
  imports GoFloat GoTime "HOL-Library.AList" "HOL-Library.Multiset"
begin

text \<open>
  The rolling counter of hystrix-go (rolling/rolling.go). The Go map of buckets is an association
  list with distinct keys, in the order one loop over the map visits them; Go leaves that order
  open, so what depends on it is stated for every order. An operation locks the mutex, so it is one
  step. Every reading of the clock is an argument of its own, in seconds since 1970: the code reads
  it once to find the bucket and once more to drop old ones.
\<close>

subsection \<open>The counter\<close>

record rolling_number =
  r_Buckets :: "(int \<times> f64) list"

definition NewNumber :: rolling_number where
  "NewNumber = \<lparr>r_Buckets = []\<rparr>"

text \<open>The value of the bucket at a reading, and the counter with that bucket in place.\<close>

definition number_getCurrentBucket :: "int \<Rightarrow> rolling_number \<Rightarrow> f64 \<times> rolling_number" where
  "number_getCurrentBucket now r =
     (case map_of (r_Buckets r) now of
        Some bucket \<Rightarrow> (bucket, r)
      | None \<Rightarrow> (Fin 0, r\<lparr>r_Buckets := AList.update now (Fin 0) (r_Buckets r)\<rparr>))"

definition number_removeOldBuckets :: "int \<Rightarrow> rolling_number \<Rightarrow> rolling_number" where
  "number_removeOldBuckets clock r =
     (let now = i64 (clock - 10)
      in r\<lparr>r_Buckets := filter (\<lambda>(timestamp, _). \<not> timestamp \<le> now) (r_Buckets r)\<rparr>)"

definition Increment :: "int \<Rightarrow> int \<Rightarrow> f64 \<Rightarrow> rolling_number \<Rightarrow> rolling_number" where
  "Increment now1 now2 i r =
     (if f_eq i (Fin 0) then r
      else
        let (b, r) = number_getCurrentBucket now1 r;
            r = r\<lparr>r_Buckets := AList.update now1 (f_add b i) (r_Buckets r)\<rparr>
        in number_removeOldBuckets now2 r)"

definition UpdateMax :: "int \<Rightarrow> int \<Rightarrow> f64 \<Rightarrow> rolling_number \<Rightarrow> rolling_number" where
  "UpdateMax now1 now2 n r =
     (let (b, r) = number_getCurrentBucket now1 r;
          r = (if f_less b n then r\<lparr>r_Buckets := AList.update now1 n (r_Buckets r)\<rparr> else r)
      in number_removeOldBuckets now2 r)"

fun sum_from :: "int \<Rightarrow> (int \<times> f64) list \<Rightarrow> f64 \<Rightarrow> f64" where
  "sum_from limit [] s = s"
| "sum_from limit ((timestamp, bucket) # bs) s =
     sum_from limit bs (if timestamp \<ge> limit then f_add s bucket else s)"

definition Sum :: "int \<Rightarrow> rolling_number \<Rightarrow> f64" where
  "Sum now r = sum_from (i64 (now - 10)) (r_Buckets r) (Fin 0)"

fun max_from :: "int \<Rightarrow> (int \<times> f64) list \<Rightarrow> f64 \<Rightarrow> f64" where
  "max_from limit [] mx = mx"
| "max_from limit ((timestamp, bucket) # bs) mx =
     max_from limit bs (if timestamp \<ge> limit \<and> f_less mx bucket then bucket else mx)"

definition Max_value :: "int \<Rightarrow> rolling_number \<Rightarrow> f64" where
  "Max_value now r = max_from (i64 (now - 10)) (r_Buckets r) (Fin 0)"

definition Avg :: "int \<Rightarrow> rolling_number \<Rightarrow> f64" where
  "Avg now r = f_div (Sum now r) (Fin 10)"


subsection \<open>The history a counter stands for\<close>

text \<open>
  The abstract counter is the list of what was recorded and when, oldest first; recording drops what
  is ten seconds old. An event is the two clock readings and the amount.
\<close>

type_synonym rolling_event = "int \<times> int \<times> int"

fun record_event :: "rolling_event \<Rightarrow> (int \<times> int) list \<Rightarrow> (int \<times> int) list" where
  "record_event (t1, t2, n) h = (if n = 0 then h else filter (\<lambda>(t, _). t > t2 - 10) (h @ [(t1, n)]))"

fun increment_event :: "rolling_event \<Rightarrow> rolling_number \<Rightarrow> rolling_number" where
  "increment_event (t1, t2, n) r = Increment t1 t2 (f_of_int n) r"

definition total :: "(int \<Rightarrow> bool) \<Rightarrow> (int \<times> int) list \<Rightarrow> int" where
  "total P h = sum_list (map snd (filter (\<lambda>(t, _). P t) h))"

fun event_ok :: "rolling_event \<Rightarrow> bool" where
  "event_ok (t1, t2, n) \<longleftrightarrow> 0 \<le> n \<and> in_i64 (t2 - 10)"

fun amount :: "rolling_event \<Rightarrow> int" where
  "amount (t1, t2, n) = n"

lemma total_simps [simp]:
  "total P [] = 0"
  "total P ((t, n) # h) = (if P t then n else 0) + total P h"
  "total P (h @ h') = total P h + total P h'"
  by (simp_all add: total_def)

lemma total_filter: "total P (filter (\<lambda>(t, _). Q t) h) = total (\<lambda>t. P t \<and> Q t) h"
  by (induction h) auto

lemma total_nonneg: "\<forall>(t, n) \<in> set h. 0 \<le> n \<Longrightarrow> 0 \<le> total P h"
  by (induction h) auto

lemma total_mono: "\<forall>(t, n) \<in> set h. 0 \<le> n \<Longrightarrow> (\<And>t. P t \<Longrightarrow> Q t) \<Longrightarrow> total P h \<le> total Q h"
  by (induction h) (auto simp: add_mono)

lemma total_none: "k \<notin> fst ` set h \<Longrightarrow> total (\<lambda>t. t = k) h = 0"
  by (induction h) auto

lemma total_update:
  "distinct (map fst bs) \<Longrightarrow>
   total P (AList.update k v bs) = total P bs + (if P k then v - (case map_of bs k of Some x \<Rightarrow> x | None \<Rightarrow> 0) else 0)"
proof (induction bs)
  case (Cons b bs)
  obtain t n where b: "b = (t, n)" by (cases b)
  show ?case using Cons by (auto simp: b)
qed simp

text \<open>The buckets of a counter that hold whole numbers.\<close>

definition whole :: "(int \<times> int) list \<Rightarrow> (int \<times> f64) list" where
  "whole bs = map (\<lambda>(t, n). (t, Fin (of_int n))) bs"

lemma whole_simps [simp]:
  "whole [] = []" "whole ((t, n) # bs) = (t, Fin (of_int n)) # whole bs"
  by (simp_all add: whole_def)

lemma map_of_whole: "map_of (whole bs) t = map_option (\<lambda>n. Fin (of_int n)) (map_of bs t)"
  by (induction bs) auto

lemma whole_update: "AList.update t (Fin (of_int n)) (whole bs) = whole (AList.update t n bs)"
  by (induction bs) auto

lemma whole_filter: "filter (\<lambda>(t, _). Q t) (whole bs) = whole (filter (\<lambda>(t, _). Q t) bs)"
  by (induction bs) auto

lemma sum_from_whole:
  assumes "\<forall>(t, n) \<in> set bs. 0 \<le> n" and "0 \<le> s" and "s + total (\<lambda>t. limit \<le> t) bs \<le> 2 ^ 53"
  shows "sum_from limit (whole bs) (Fin (of_int s)) = Fin (of_int (s + total (\<lambda>t. limit \<le> t) bs))"
  using assms
proof (induction bs arbitrary: s)
  case (Cons b bs)
  obtain t n where b: "b = (t, n)" by (cases b)
  have n: "0 \<le> n" and bs: "\<forall>(t, n) \<in> set bs. 0 \<le> n" using Cons.prems(1) by (auto simp: b)
  have pos: "0 \<le> total (\<lambda>t. limit \<le> t) bs" by (rule total_nonneg [OF bs])
  show ?case
  proof (cases "limit \<le> t")
    case True
    have "\<bar>s + n\<bar> \<le> 2 ^ 53" using Cons.prems(2,3) n pos True unfolding b by (simp add: abs_le_iff)
    then have "f_add (Fin (of_int s)) (Fin (of_int n)) = Fin (of_int (s + n))" by (rule f_add_of_int)
    then show ?thesis using Cons.IH [OF bs, of "s + n"] Cons.prems(2,3) n True by (simp add: b add.assoc)
  qed (use Cons.IH [OF bs, of s] Cons.prems in \<open>simp add: b\<close>)
qed simp

definition represents :: "rolling_number \<Rightarrow> (int \<times> int) list \<Rightarrow> bool" where
  "represents r h \<longleftrightarrow> (\<exists>bs. r_Buckets r = whole bs \<and> distinct (map fst bs) \<and> (\<forall>(t, n) \<in> set bs. 0 \<le> n) \<and>
     (\<forall>P. total P bs = total P h))"

lemma represents_New: "represents NewNumber []"
  unfolding represents_def NewNumber_def by (intro exI [of _ "[]"]) simp

lemma map_of_total:
  "distinct (map fst bs) \<Longrightarrow> (case map_of bs k of Some x \<Rightarrow> x | None \<Rightarrow> 0) = total (\<lambda>t. t = k) bs"
proof (induction bs)
  case (Cons b bs)
  then show ?case by (cases b) (auto simp: total_none)
qed simp

lemma set_update_val: "p \<in> set (AList.update k v bs) \<Longrightarrow> p = (k, v) \<or> p \<in> set bs"
  by (induction bs) (auto split: if_splits)

lemma represents_Increment:
  assumes "represents r h" and "0 \<le> n" and "in_i64 (t2 - 10)" and "\<forall>(t, n) \<in> set h. 0 \<le> n"
    and "total (\<lambda>_. True) h + n \<le> 2 ^ 53"
  shows "represents (Increment t1 t2 (f_of_int n) r) (record_event (t1, t2, n) h)"
proof (cases "n = 0")
  case True
  then show ?thesis using assms(1) by (simp add: Increment_def f_of_int_def f64_round_def f_eq_def)
next
  case False
  obtain bs where bs: "r_Buckets r = whole bs" "distinct (map fst bs)" "\<forall>(t, n) \<in> set bs. 0 \<le> n"
      "\<And>P. total P bs = total P h"
    using assms(1) unfolding represents_def by auto
  define m where "m = (case map_of bs t1 of Some x \<Rightarrow> x | None \<Rightarrow> 0)"
  have m: "m = total (\<lambda>t. t = t1) bs" unfolding m_def by (rule map_of_total [OF bs(2)])
  have m0: "0 \<le> m" unfolding m by (rule total_nonneg [OF bs(3)])
  have "m \<le> total (\<lambda>_. True) h" unfolding m bs(4) by (rule total_mono [OF assms(4)]) simp
  then have s: "\<bar>m + n\<bar> \<le> 2 ^ 53" and nb: "\<bar>n\<bar> \<le> 2 ^ 53" using m0 assms(2,5) unfolding abs_le_iff by simp_all
  have i: "f_of_int n = Fin (of_int n)" using nb by (rule f_of_int_exact)
  have add: "f_add (Fin (of_int m)) (Fin (of_int n)) = Fin (of_int (m + n))" using s by (rule f_add_of_int)
  define bs' where "bs' = AList.update t1 (m + n) bs"
  have "r_Buckets (Increment t1 t2 (f_of_int n) r)
      = filter (\<lambda>(t, _). \<not> t \<le> t2 - 10) (whole bs')"
  proof (cases "map_of bs t1")
    case None
    then have "m = 0" by (simp add: m_def)
    then show ?thesis
      using None False add
      by (simp add: Increment_def number_getCurrentBucket_def number_removeOldBuckets_def i f_eq_def bs(1) map_of_whole
          i64_id [OF assms(3)] bs'_def whole_update [symmetric] Let_def)
  next
    case (Some x)
    then have "m = x" by (simp add: m_def)
    then show ?thesis
      using Some False add
      by (simp add: Increment_def number_getCurrentBucket_def number_removeOldBuckets_def i f_eq_def bs(1) map_of_whole
          i64_id [OF assms(3)] bs'_def whole_update [symmetric] Let_def)
  qed
  also have "\<dots> = whole (filter (\<lambda>(t, _). \<not> t \<le> t2 - 10) bs')" by (rule whole_filter)
  finally have e: "r_Buckets (Increment t1 t2 (f_of_int n) r) = whole (filter (\<lambda>(t, _). \<not> t \<le> t2 - 10) bs')" .
  have d: "distinct (map fst bs')" unfolding bs'_def by (rule distinct_update [OF bs(2)])
  have v: "\<forall>(t, n) \<in> set bs'. 0 \<le> n" using bs(3) m0 assms(2) unfolding bs'_def by (auto dest!: set_update_val)
  have "total P bs' = total P h + (if P t1 then n else 0)" for P
    using total_update [OF bs(2), of P t1 "m + n"] by (simp add: bs'_def m_def [symmetric] bs(4))
  then have "total P (filter (\<lambda>(t, _). \<not> t \<le> t2 - 10) bs') = total P (record_event (t1, t2, n) h)" for P
    using False total_filter [of P "\<lambda>t. \<not> t \<le> t2 - 10" bs'] total_filter [of P "\<lambda>t. t2 - 10 < t" "h @ [(t1, n)]"]
    by (simp add: not_le)
  then show ?thesis
    unfolding represents_def using e distinct_map_filter [OF d] v
    by (intro exI [of _ "filter (\<lambda>(t, _). \<not> t \<le> t2 - 10) bs'"]) (auto simp del: record_event.simps)
qed

lemma record_event_total: "0 \<le> amount e \<Longrightarrow> \<forall>(t, n) \<in> set h. 0 \<le> n \<Longrightarrow>
    total (\<lambda>_. True) (record_event e h) \<le> total (\<lambda>_. True) h + amount e"
proof (cases e)
  case (fields t1 t2 n)
  assume "0 \<le> amount e" "\<forall>(t, n) \<in> set h. 0 \<le> n"
  then show ?thesis
    using total_mono [of "h @ [(t1, n)]" "\<lambda>t. t2 - 10 < t" "\<lambda>_. True"]
      total_filter [of "\<lambda>_. True" "\<lambda>t. t2 - 10 < t" "h @ [(t1, n)]"]
    by (simp add: fields)
qed

lemma record_event_nonneg: "0 \<le> amount e \<Longrightarrow> \<forall>(t, n) \<in> set h. 0 \<le> n \<Longrightarrow> \<forall>(t, n) \<in> set (record_event e h). 0 \<le> n"
  by (cases e) auto

lemma event_ok_amount: "event_ok e \<Longrightarrow> 0 \<le> amount e"
  by (cases e) auto

lemma represents_fold:
  assumes "represents r h" and "\<forall>(t, n) \<in> set h. 0 \<le> n" and "list_all event_ok es"
    and "total (\<lambda>_. True) h + sum_list (map amount es) \<le> 2 ^ 53"
  shows "represents (fold increment_event es r) (fold record_event es h)
    \<and> (\<forall>(t, n) \<in> set (fold record_event es h). 0 \<le> n) \<and> total (\<lambda>_. True) (fold record_event es h) \<le> 2 ^ 53"
  using assms
proof (induction es arbitrary: r h)
  case (Cons e es)
  obtain t1 t2 n where e: "e = (t1, t2, n)" by (cases e)
  have n: "0 \<le> n" "in_i64 (t2 - 10)" "list_all event_ok es" using Cons.prems(3) by (simp_all add: e)
  then have m: "0 \<le> sum_list (map amount es)"
    by (intro sum_list_nonneg) (auto simp: list_all_iff dest: event_ok_amount)
  have h: "\<forall>(t, n) \<in> set (record_event e h). 0 \<le> n" using Cons.prems(2) n(1) by (intro record_event_nonneg) (simp_all add: e)
  have t: "total (\<lambda>_. True) (record_event e h) \<le> total (\<lambda>_. True) h + n"
    using record_event_total [of e h] Cons.prems(2) n(1) by (simp add: e)
  have sum: "total (\<lambda>_. True) h + (n + sum_list (map amount es)) \<le> 2 ^ 53" using Cons.prems(4) by (simp add: e)
  have rep: "represents (increment_event e r) (record_event e h)"
    using represents_Increment [OF Cons.prems(1) n(1,2) Cons.prems(2), of t1] sum m
    by (simp add: e del: record_event.simps)
  have tot: "total (\<lambda>_. True) (record_event e h) + sum_list (map amount es) \<le> 2 ^ 53" using t sum by linarith
  show ?case unfolding fold_Cons comp_def by (rule Cons.IH [OF rep h n(3) tot])
qed simp

lemma total_perm: "mset bs = mset bs' \<Longrightarrow> total P bs = total P bs'"
proof -
  assume "mset bs = mset bs'"
  then have "mset (map snd (filter (\<lambda>(t, _). P t) bs)) = mset (map snd (filter (\<lambda>(t, _). P t) bs'))" by simp
  then have "sum_list (map snd (filter (\<lambda>(t, _). P t) bs)) = sum_list (map snd (filter (\<lambda>(t, _). P t) bs'))"
    by (metis sum_mset_sum_list)
  then show ?thesis unfolding total_def .
qed

lemma whole_perm:
  assumes "mset bs' = mset (whole bs)"
  shows "\<exists>cs. bs' = whole cs \<and> mset cs = mset bs"
proof -
  define g where "g = (\<lambda>(t :: int, x). (t, case x of Fin q \<Rightarrow> \<lfloor>q\<rfloor> | _ \<Rightarrow> 0))"
  have "map g (whole bs) = bs" unfolding whole_def g_def by (induction bs) auto
  then have m: "mset (map g bs') = mset bs" using assms by (metis mset_map)
  have "set bs' = set (whole bs)" using assms by (rule mset_eq_setD)
  then have "whole (map g bs') = bs'"
    unfolding whole_def g_def by (intro map_idI [of bs', unfolded] trans [OF map_map]) auto
  then show ?thesis using m by metis
qed

lemma Sum_represents:
  assumes "represents r h" and "\<forall>(t, n) \<in> set h. 0 \<le> n" and "total (\<lambda>_. True) h \<le> 2 ^ 53" and "in_i64 (now - 10)"
    and "mset bs' = mset (r_Buckets r)"
  shows "sum_from (i64 (now - 10)) bs' (Fin 0) = Fin (of_int (total (\<lambda>t. now - 10 \<le> t) h))"
proof -
  obtain bs where bs: "r_Buckets r = whole bs" "\<forall>(t, n) \<in> set bs. 0 \<le> n" "\<And>P. total P bs = total P h"
    using assms(1) unfolding represents_def by auto
  obtain cs where cs: "bs' = whole cs" "mset cs = mset bs" using whole_perm [of bs' bs] assms(5) bs(1) by metis
  have "\<forall>(t, n) \<in> set cs. 0 \<le> n" using bs(2) mset_eq_setD [OF cs(2)] by simp
  moreover have t: "total P cs = total P h" for P using total_perm [OF cs(2)] bs(3) by simp
  moreover have "total (\<lambda>t. now - 10 \<le> t) h \<le> 2 ^ 53" using total_mono [OF assms(2), of "\<lambda>t. now - 10 \<le> t" "\<lambda>_. True"] assms(3) by simp
  ultimately show ?thesis
    using sum_from_whole [of cs 0 "now - 10"] by (simp add: cs(1) i64_id [OF assms(4)] t)
qed

text \<open>What is left of a history when the clock never runs backwards: everything after the cut of the last event.\<close>

fun in_order_from :: "int \<Rightarrow> rolling_event list \<Rightarrow> bool" where
  "in_order_from t [] = True"
| "in_order_from t ((t1, t2, n) # es) \<longleftrightarrow> t \<le> t1 \<and> t1 \<le> t2 \<and> 0 < n \<and> in_order_from t2 es"

fun stamps :: "rolling_event list \<Rightarrow> (int \<times> int) list" where
  "stamps [] = []"
| "stamps ((t1, t2, n) # es) = (t1, n) # stamps es"

fun last_reading :: "int \<Rightarrow> rolling_event list \<Rightarrow> int" where
  "last_reading t [] = t"
| "last_reading t ((t1, t2, n) # es) = last_reading t2 es"

lemma last_reading_ge: "in_order_from t es \<Longrightarrow> t \<le> last_reading t es"
  by (induction t es rule: last_reading.induct) auto

lemma record_in_order:
  assumes "in_order_from t es" and "\<forall>(s, n) \<in> set h. s \<le> t"
  shows "total P (fold record_event es h)
    = total (\<lambda>s. P s \<and> (es \<noteq> [] \<longrightarrow> last_reading t es - 10 < s)) (h @ stamps es)"
  using assms
proof (induction t es arbitrary: h rule: in_order_from.induct)
  case (2 t t1 t2 n es)
  have o: "in_order_from t2 es" using 2(2) by simp
  have l: "t2 \<le> last_reading t2 es" by (rule last_reading_ge [OF o])
  have n: "n \<noteq> 0" using 2(2) by auto
  have h: "\<forall>(s, n) \<in> set (record_event (t1, t2, n) h). s \<le> t2" using 2(2,3) n by (auto split: prod.splits dest!: bspec)
  have "total P (fold record_event ((t1, t2, n) # es) h)
      = total (\<lambda>s. P s \<and> (es \<noteq> [] \<longrightarrow> last_reading t2 es - 10 < s)) (record_event (t1, t2, n) h @ stamps es)"
    using 2(1) [OF o h] by (simp del: record_event.simps)
  also have "\<dots> = total (\<lambda>s. (P s \<and> (es \<noteq> [] \<longrightarrow> last_reading t2 es - 10 < s)) \<and> t2 - 10 < s) (h @ [(t1, n)])
      + total (\<lambda>s. P s \<and> (es \<noteq> [] \<longrightarrow> last_reading t2 es - 10 < s)) (stamps es)"
    using n total_filter [of "\<lambda>s. P s \<and> (es \<noteq> [] \<longrightarrow> last_reading t2 es - 10 < s)" "\<lambda>s. t2 - 10 < s" "h @ [(t1, n)]"]
    by simp
  also have "(\<lambda>s. (P s \<and> (es \<noteq> [] \<longrightarrow> last_reading t2 es - 10 < s)) \<and> t2 - 10 < s)
      = (\<lambda>s. P s \<and> last_reading t2 es - 10 < s)"
    using l by (cases es) auto
  also have "total (\<lambda>s. P s \<and> (es \<noteq> [] \<longrightarrow> last_reading t2 es - 10 < s)) (stamps es)
      = total (\<lambda>s. P s \<and> last_reading t2 es - 10 < s) (stamps es)"
    by (cases es) auto
  finally show ?case by simp
qed simp

subsection \<open>The number of buckets\<close>

definition keys :: "rolling_number \<Rightarrow> int set" where
  "keys r = fst ` set (r_Buckets r)"

definition buckets_ok :: "int \<Rightarrow> rolling_number \<Rightarrow> bool" where
  "buckets_ok t r \<longleftrightarrow> distinct (map fst (r_Buckets r)) \<and> keys r \<subseteq> {t - 10<..t}"

lemma keys_current: "keys (snd (number_getCurrentBucket now r)) = insert now (keys r)"
  by (force simp: number_getCurrentBucket_def keys_def dom_update split: option.split dest: map_of_SomeD)

lemma distinct_current:
  "distinct (map fst (r_Buckets r)) \<Longrightarrow> distinct (map fst (r_Buckets (snd (number_getCurrentBucket now r))))"
  by (auto simp: number_getCurrentBucket_def distinct_update split: option.split)

lemma keys_update: "keys (r\<lparr>r_Buckets := AList.update k v (r_Buckets r)\<rparr>) = insert k (keys r)"
  by (simp add: keys_def dom_update)

lemma buckets_ok_remove:
  assumes "distinct (map fst (r_Buckets r))" and "keys r \<subseteq> {..t}" and "in_i64 (t - 10)"
  shows "buckets_ok t (number_removeOldBuckets t r)"
  using assms
  by (auto simp: buckets_ok_def keys_def number_removeOldBuckets_def i64_id distinct_map_filter Let_def)

text \<open>Both operations that record something leave the counter with the buckets of the last ten seconds.\<close>

lemma buckets_ok_later: "buckets_ok t r \<Longrightarrow> t \<le> t1 \<Longrightarrow> keys r \<subseteq> {..t1}"
  by (auto simp: buckets_ok_def)

lemma Increment_buckets:
  assumes "buckets_ok t r" and "t \<le> t1" "t1 \<le> t2" and "in_i64 (t2 - 10)" and "\<not> f_eq i (Fin 0)"
  shows "buckets_ok t2 (Increment t1 t2 i r)"
proof -
  obtain b r' where g: "number_getCurrentBucket t1 r = (b, r')" by (cases "number_getCurrentBucket t1 r")
  have k: "keys r' = insert t1 (keys r)" "distinct (map fst (r_Buckets r'))"
    using keys_current [of t1 r] distinct_current [of r t1] assms(1) by (simp_all add: g buckets_ok_def)
  have "buckets_ok t2 (number_removeOldBuckets t2 (r'\<lparr>r_Buckets := AList.update t1 (f_add b i) (r_Buckets r')\<rparr>))"
    by (rule buckets_ok_remove [OF _ _ assms(4)])
      (use k buckets_ok_later [OF assms(1,2)] assms(3) in \<open>auto simp: keys_update distinct_update\<close>)
  then show ?thesis using assms(5) by (simp add: Increment_def g)
qed

lemma UpdateMax_buckets:
  assumes "buckets_ok t r" and "t \<le> t1" "t1 \<le> t2" and "in_i64 (t2 - 10)"
  shows "buckets_ok t2 (UpdateMax t1 t2 n r)"
proof -
  obtain b r' where g: "number_getCurrentBucket t1 r = (b, r')" by (cases "number_getCurrentBucket t1 r")
  have k: "keys r' = insert t1 (keys r)" "distinct (map fst (r_Buckets r'))"
    using keys_current [of t1 r] distinct_current [of r t1] assms(1) by (simp_all add: g buckets_ok_def)
  have "buckets_ok t2 (number_removeOldBuckets t2
      (if f_less b n then r'\<lparr>r_Buckets := AList.update t1 n (r_Buckets r')\<rparr> else r'))"
    by (rule buckets_ok_remove [OF _ _ assms(4)])
      (use k buckets_ok_later [OF assms(1,2)] assms(3) in \<open>auto simp: keys_update distinct_update\<close>)
  then show ?thesis by (simp add: UpdateMax_def g)
qed

lemma buckets_ok_New [simp]: "buckets_ok t NewNumber"
  by (simp add: buckets_ok_def NewNumber_def keys_def)

lemma buckets_ok_count: "buckets_ok t r \<Longrightarrow> length (r_Buckets r) \<le> 10"
proof -
  assume o: "buckets_ok t r"
  then have "length (r_Buckets r) = card (keys r)"
    using distinct_card [of "map fst (r_Buckets r)"] by (simp add: buckets_ok_def keys_def)
  also have "\<dots> \<le> card {t - 10<..t}" using o by (intro card_mono) (auto simp: buckets_ok_def)
  finally show ?thesis by simp
qed

subsection \<open>The maximum\<close>

lemma max_from_spec:
  assumes "\<forall>(t, v) \<in> set bs. v \<noteq> NaN" and "mx \<noteq> NaN"
  shows "max_from limit bs mx \<noteq> NaN \<and> f_le mx (max_from limit bs mx)
    \<and> (\<forall>(t, v) \<in> set bs. limit \<le> t \<longrightarrow> f_le v (max_from limit bs mx))
    \<and> (max_from limit bs mx = mx \<or> (\<exists>t \<ge> limit. (t, max_from limit bs mx) \<in> set bs))"
  using assms
proof (induction bs arbitrary: mx)
  case Nil
  then show ?case by (cases mx) (auto simp: f_le_def)
next
  case (Cons b bs)
  obtain t v where b: "b = (t, v)" by (cases b)
  define m where "m = (if t \<ge> limit \<and> f_less mx v then v else mx)"
  have m: "m \<noteq> NaN" "f_le mx m" "limit \<le> t \<longrightarrow> f_le v m" "m = mx \<or> limit \<le> t \<and> m = v"
    using Cons.prems by (cases mx; cases v; auto simp: b m_def f_le_def)+
  have r: "max_from limit (b # bs) mx = max_from limit bs m" by (simp add: b m_def)
  define x where "x = max_from limit bs m"
  have ih: "x \<noteq> NaN \<and> f_le m x
    \<and> (\<forall>(t, v) \<in> set bs. limit \<le> t \<longrightarrow> f_le v x)
    \<and> (x = m \<or> (\<exists>t \<ge> limit. (t, x) \<in> set bs))"
    using Cons.IH [of m] Cons.prems(1) m(1) by (simp add: b x_def)
  then have "f_le mx x" "limit \<le> t \<longrightarrow> f_le v x"
    using m(2,3) f_le_trans by blast+
  then show ?case using ih m(4) unfolding r x_def [symmetric] by (auto simp: b)
qed

lemma fold_increment_buckets:
  assumes "in_order_from t es" and "buckets_ok t r" and "list_all event_ok es" and "\<forall>e \<in> set es. amount e \<le> 2 ^ 53"
  shows "buckets_ok (last_reading t es) (fold increment_event es r)"
  using assms
proof (induction t es arbitrary: r rule: in_order_from.induct)
  case (2 t t1 t2 n es)
  have n: "0 < n" "\<bar>n\<bar> \<le> 2 ^ 53" using 2(2,5) by (auto simp: abs_le_iff)
  have "\<not> f_eq (f_of_int n) (Fin 0)" using n(1) by (simp add: f_of_int_exact [OF n(2)] f_eq_def)
  then have "buckets_ok t2 (Increment t1 t2 (f_of_int n) r)" using 2(2-4) by (intro Increment_buckets [of t]) auto
  then show ?case using 2(1) [of "Increment t1 t2 (f_of_int n) r"] 2(2,4,5) by simp
qed simp

lemma amount_le_sum: "list_all event_ok es \<Longrightarrow> e \<in> set es \<Longrightarrow> amount e \<le> sum_list (map amount es)"
  by (intro member_le_sum_list) (auto simp: list_all_iff dest: event_ok_amount)

subsection \<open>Properties\<close>

text \<open>C30: the rolling counter implements a timed history: after any increments by whole numbers (at any clock readings),
  \<open>Sum\<close> is the total of what the history keeps from ten seconds back, in whatever order the map of buckets is
  visited.\<close>

theorem rolling_sum_refines:
  assumes "list_all event_ok es" and "sum_list (map amount es) \<le> 2 ^ 53" and "in_i64 (now - 10)"
    and "mset bs = mset (r_Buckets (fold increment_event es NewNumber))"
  shows "sum_from (i64 (now - 10)) bs (Fin 0) = Sum now (fold increment_event es NewNumber)
    \<and> Sum now (fold increment_event es NewNumber) = Fin (of_int (total (\<lambda>t. now - 10 \<le> t) (fold record_event es [])))"
proof -
  have r: "represents (fold increment_event es NewNumber) (fold record_event es [])"
      "\<forall>(t, n) \<in> set (fold record_event es []). 0 \<le> n" "total (\<lambda>_. True) (fold record_event es []) \<le> 2 ^ 53"
    using represents_fold [OF represents_New _ assms(1)] assms(2) by simp_all
  note s = Sum_represents [OF r assms(3)]
  show ?thesis using s [OF assms(4)] s [OF refl] by (simp add: Sum_def)
qed

lemma rolling_sum_refines_witness:
  "Sum 110 (fold increment_event [(100, 100, 3), (105, 106, 4)] NewNumber) = Fin 7"
proof -
  have "list_all event_ok [(100, 100, 3), (105, 106, 4)]" by (simp add: in_i64_def)
  from rolling_sum_refines [OF this _ _ refl, of 110] show ?thesis by (simp add: in_i64_def)
qed

text \<open>When the clock does not run backwards, \<open>Sum\<close> counts what was recorded no earlier than ten seconds before now and
  less than ten seconds before the last record, and never more than ten buckets are kept.\<close>

theorem rolling_window:
  assumes "in_order_from t es" and "es \<noteq> []" and "list_all event_ok es" and "sum_list (map amount es) \<le> 2 ^ 53"
    and "in_i64 (now - 10)"
  shows "Sum now (fold increment_event es NewNumber)
      = Fin (of_int (total (\<lambda>s. now - 10 \<le> s \<and> last_reading t es - 10 < s) (stamps es)))
    \<and> length (r_Buckets (fold increment_event es NewNumber)) \<le> 10"
proof
  have r: "represents (fold increment_event es NewNumber) (fold record_event es [])"
      "\<forall>(t, n) \<in> set (fold record_event es []). 0 \<le> n" "total (\<lambda>_. True) (fold record_event es []) \<le> 2 ^ 53"
    using represents_fold [OF represents_New _ assms(3)] assms(4) by simp_all
  show "Sum now (fold increment_event es NewNumber)
      = Fin (of_int (total (\<lambda>s. now - 10 \<le> s \<and> last_reading t es - 10 < s) (stamps es)))"
    using Sum_represents [OF r assms(5) refl] record_in_order [OF assms(1), of "[]" "\<lambda>s. now - 10 \<le> s"] assms(2)
    by (simp add: Sum_def)
  have "\<forall>e \<in> set es. amount e \<le> 2 ^ 53" using amount_le_sum [OF assms(3)] assms(4) by fastforce
  then show "length (r_Buckets (fold increment_event es NewNumber)) \<le> 10"
    by (intro buckets_ok_count [OF fold_increment_buckets [OF assms(1) buckets_ok_New assms(3)]])
qed

lemma rolling_window_witness:
  "Sum 110 (fold increment_event [(100, 100, 3), (105, 106, 4)] NewNumber) = Fin 7
    \<and> Sum 110 (fold increment_event [(100, 100, 3), (110, 110, 4)] NewNumber) = Fin 4"
proof -
  have "list_all event_ok [(100, 100, 3), (105, 106, 4)]" "list_all event_ok [(100, 100, 3), (110, 110, 4)]"
    by (simp_all add: in_i64_def)
  with rolling_window [of 100 "[(100, 100, 3), (105, 106, 4)]" 110] rolling_window [of 100 "[(100, 100, 3), (110, 110, 4)]" 110]
  show ?thesis by (simp add: in_i64_def)
qed

end
