(* ===== verification/RollingTiming.thy ===== *)
theory RollingTiming
  imports GoFloat GoTime GoQuickSort "HOL-Library.AList"
begin

text \<open>
  The rolling timings of hystrix-go (rolling/rolling_timing.go): durations per second, the cached
  sorted slice, percentiles and the mean. As in Rolling, the Go map is an association list in the
  order a loop visits it. A clock reading is in nanoseconds since 1970; every call of \<open>time.Now\<close> is
  an argument of its own. A panic (an index out of range) is \<open>None\<close>.
\<close>

record timing =
  t_Buckets :: "(int \<times> int list) list"
  t_CachedSortedDurations :: "int list"
  t_LastCachedTime :: int

definition NewTiming :: timing where
  "NewTiming = \<lparr>t_Buckets = [], t_CachedSortedDurations = [], t_LastCachedTime = 0\<rparr>"

text \<open>\<open>Time.Unix\<close> and \<open>Time.UnixNano\<close> of a reading.\<close>

definition Unix :: "int \<Rightarrow> int" where
  "Unix n = n div 1000000000"

definition UnixNano :: "int \<Rightarrow> int" where
  "UnixNano n = i64 n"

text \<open>The durations of the buckets that are not too old.\<close>

fun collect :: "int \<Rightarrow> (int \<times> int list) list \<Rightarrow> int list \<Rightarrow> int list" where
  "collect limit [] durations = durations"
| "collect limit ((timestamp, b) # bs) durations =
     collect limit bs (if timestamp \<ge> limit then durations @ b else durations)"

definition SortedDurations :: "int \<Rightarrow> int \<Rightarrow> int \<Rightarrow> timing \<Rightarrow> int list \<times> timing" where
  "SortedDurations now1 now2 now3 r =
     (if i64 (t_LastCachedTime r + Second) > UnixNano now1 then (t_CachedSortedDurations r, r)
      else
        let durations = Sort (<) (collect (i64 (Unix now2 - 60)) (t_Buckets r) []);
            r = r\<lparr>t_CachedSortedDurations := durations, t_LastCachedTime := UnixNano now3\<rparr>
        in (durations, r))"

definition timing_getCurrentBucket :: "int \<Rightarrow> timing \<Rightarrow> int list \<times> timing" where
  "timing_getCurrentBucket now r =
     (case map_of (t_Buckets r) (Unix now) of
        Some bucket \<Rightarrow> (bucket, r)
      | None \<Rightarrow> ([], r\<lparr>t_Buckets := AList.update (Unix now) [] (t_Buckets r)\<rparr>))"

definition timing_removeOldBuckets :: "int \<Rightarrow> timing \<Rightarrow> timing" where
  "timing_removeOldBuckets now r =
     r\<lparr>t_Buckets := filter (\<lambda>(timestamp, _). \<not> timestamp \<le> i64 (Unix now - 60)) (t_Buckets r)\<rparr>"

definition timing_Add :: "int \<Rightarrow> int \<Rightarrow> int \<Rightarrow> timing \<Rightarrow> timing" where
  "timing_Add now1 now2 duration r =
     (let (b, r) = timing_getCurrentBucket now1 r;
          r = r\<lparr>t_Buckets := AList.update (Unix now1) (b @ [duration]) (t_Buckets r)\<rparr>
      in timing_removeOldBuckets now2 r)"

subsection \<open>Statistics\<close>

text \<open>\<open>math.Ceil\<close>.\<close>

fun f_ceil :: "f64 \<Rightarrow> f64" where
  "f_ceil (Fin a) = Fin (of_int \<lceil>a\<rceil>)"
| "f_ceil x = x"

definition ordinal :: "(f64 \<Rightarrow> int) \<Rightarrow> int \<Rightarrow> f64 \<Rightarrow> int" where
  "ordinal plat len percentile =
     (if f_eq percentile (Fin 0) \<and> len > 0 then 1
      else f_to_i64 plat (f_ceil (f_mul (f_div percentile (f_of_int 100)) (f_of_int len))))"

text \<open>An element by a Go index, which panics out of range.\<close>

definition go_index :: "'a list \<Rightarrow> int \<Rightarrow> 'a option" where
  "go_index xs i = (if 0 \<le> i \<and> i < int (length xs) then Some (xs ! nat i) else None)"

definition percentile_of :: "(f64 \<Rightarrow> int) \<Rightarrow> f64 \<Rightarrow> int list \<Rightarrow> int option" where
  "percentile_of plat p sortedDurations =
     (if length sortedDurations = 0 then Some 0
      else
        let pos = i64 (ordinal plat (int (length sortedDurations)) p - 1)
        in map_option (\<lambda>d. u32 (d sdiv 1000000)) (go_index sortedDurations pos))"

definition Percentile :: "(f64 \<Rightarrow> int) \<Rightarrow> int \<Rightarrow> int \<Rightarrow> int \<Rightarrow> f64 \<Rightarrow> timing \<Rightarrow> int option \<times> timing" where
  "Percentile plat now1 now2 now3 p r =
     (let (sortedDurations, r) = SortedDurations now1 now2 now3 r in (percentile_of plat p sortedDurations, r))"

definition mean_of :: "int list \<Rightarrow> int" where
  "mean_of sortedDurations =
     (let s = fold (\<lambda>d s. i64 (s + d)) sortedDurations 0; len = int (length sortedDurations)
      in if len = 0 then 0 else u32 (i64 (s sdiv len)) div 1000000)"

definition Mean :: "int \<Rightarrow> int \<Rightarrow> int \<Rightarrow> timing \<Rightarrow> int \<times> timing" where
  "Mean now1 now2 now3 r =
     (let (sortedDurations, r) = SortedDurations now1 now2 now3 r in (mean_of sortedDurations, r))"


subsection \<open>Percentiles\<close>

lemma in_i64_small: "0 \<le> k \<Longrightarrow> k \<le> 2 ^ 53 \<Longrightarrow> in_i64 k"
  by (simp add: in_i64_def)

lemma f_of_int_100: "f_of_int 100 = Fin 100"
  using f_of_int_exact [of 100] by simp

lemma ordinal_value:
  assumes "1 \<le> q" "q \<le> 100" and "0 < n" "n \<le> 2 ^ 53"
  shows "ordinal plat n (Fin q) = \<lceil>rval (rval (q / 100) * of_int n)\<rceil>"
    and "0 < rval (rval (q / 100) * of_int n)" "rval (rval (q / 100) * of_int n) \<le> of_int n"
proof -
  define r where "r = rval (q / 100)"
  define x where "x = rval (r * of_int n)"
  have one: "rval 1 = 1" using rval_of_int [of 1] by simp
  have tiny: "rval (pow2 (- 7)) = pow2 (- 7)" using rval_exact [of 1 "- 7"] by simp
  have nn: "rval (of_int n) = of_int n" using assms(3,4) by (intro rval_of_int) simp
  have "q / 100 \<le> 1" "pow2 (- 7) \<le> q / 100" using assms(1,2) by (simp_all add: pow2_def)
  then have r: "r \<le> 1" "pow2 (- 7) \<le> r"
    using rval_mono [of "q / 100" 1] rval_mono [of "pow2 (- 7)" "q / 100"] one tiny by (simp_all add: r_def)
  have p: "0 < pow2 (- 7)" by (rule pow2_pos)
  have r0: "0 \<le> r" using p r(2) by linarith
  have n1: "(1 :: rat) \<le> of_int n" using assms(3) by simp
  have "r * of_int n \<le> 1 * of_int n" using r(1) n1 by (intro mult_right_mono) simp_all
  moreover have "pow2 (- 7) * 1 \<le> r * of_int n" using r(2) n1 p r0 by (intro mult_mono) simp_all
  ultimately have b: "r * of_int n \<le> of_int n" "pow2 (- 7) \<le> r * of_int n" by simp_all
  then have x: "x \<le> of_int n" "pow2 (- 7) \<le> x"
    using rval_mono [of "r * of_int n" "of_int n"] rval_mono [of "pow2 (- 7)" "r * of_int n"] nn tiny by (simp_all add: x_def)
  then show "0 < rval (rval (q / 100) * of_int n)" "rval (rval (q / 100) * of_int n) \<le> of_int n"
    using p unfolding x_def r_def by linarith+
  have "f64_round (q / 100) = Fin r"
    using f64_round_small [of "q / 100" 0] assms(1,2) by (simp add: r_def pow2_def)
  moreover have "f64_round (r * of_int n) = Fin x"
  proof -
    have "\<bar>r * of_int n\<bar> \<le> pow2 53"
    proof -
      have "r * of_int n \<le> of_int (2 ^ 53)" using b(1) assms(4) by (meson of_int_le_iff order_trans)
      then show ?thesis using b(2) p by (simp add: pow2_def)
    qed
    then show ?thesis using f64_round_small [of "r * of_int n" 53] by (simp add: x_def)
  qed
  moreover have "f_of_int n = Fin (of_int n)" using assms(3,4) by (intro f_of_int_exact) simp
  moreover have "trunc_rat (of_int \<lceil>x\<rceil>) = \<lceil>x\<rceil>" by (simp add: trunc_rat_def)
  moreover have "in_i64 \<lceil>x\<rceil>"
  proof -
    have "0 < x" using x(2) p by linarith
    then have "0 \<le> \<lceil>x\<rceil>" by simp
    moreover have "\<lceil>x\<rceil> \<le> n" using x(1) by (simp add: ceiling_le_iff)
    ultimately show ?thesis using assms(4) by (rule in_i64_small [OF _ order_trans])
  qed
  ultimately show "ordinal plat n (Fin q) = \<lceil>rval (rval (q / 100) * of_int n)\<rceil>"
    using assms(1) by (simp add: ordinal_def f_eq_def f_of_int_100 f_to_i64_def x_def [symmetric] r_def [symmetric])
qed

lemma ordinal_bounds:
  assumes "1 \<le> q" "q \<le> 100" and "0 < n" "n \<le> 2 ^ 53"
  shows "1 \<le> ordinal plat n (Fin q) \<and> ordinal plat n (Fin q) \<le> n"
proof -
  have "0 < \<lceil>rval (rval (q / 100) * of_int n)\<rceil>" "\<lceil>rval (rval (q / 100) * of_int n)\<rceil> \<le> n"
    using ordinal_value(2,3) [OF assms] by (simp_all add: ceiling_le_iff)
  then show ?thesis using ordinal_value(1) [OF assms, of plat] by linarith
qed

lemma ordinal_mono:
  assumes "1 \<le> q" "q \<le> q'" "q' \<le> 100" and "0 < n" "n \<le> 2 ^ 53"
  shows "ordinal plat n (Fin q) \<le> ordinal plat n (Fin q')"
proof -
  have "rval (q / 100) \<le> rval (q' / 100)" using assms(2) by (intro rval_mono) simp
  then have "rval (q / 100) * of_int n \<le> rval (q' / 100) * of_int n" using assms(4) by (intro mult_right_mono) simp_all
  then have "\<lceil>rval (rval (q / 100) * of_int n)\<rceil> \<le> \<lceil>rval (rval (q' / 100) * of_int n)\<rceil>" by (intro ceiling_mono rval_mono)
  then show ?thesis using ordinal_value(1) [of _ n plat] assms by simp
qed

lemma ordinal_100: "0 < n \<Longrightarrow> n \<le> 2 ^ 53 \<Longrightarrow> ordinal plat n (Fin 100) = n"
  using ordinal_value(1) [of 100 n plat] rval_of_int [of 1] rval_of_int [of n] by simp

lemma percentile_rank:
  assumes "ordinal plat (int (length ds)) p = k" "1 \<le> k" "k \<le> int (length ds)" and "length ds \<le> 2 ^ 53"
  shows "percentile_of plat p ds = Some (u32 (ds ! nat (k - 1) sdiv 1000000))"
proof -
  have "int (length ds) \<le> 2 ^ 53" using assms(4) by (metis of_nat_le_iff of_nat_numeral of_nat_power)
  then have "in_i64 (k - 1)" using assms(2,3) by (simp add: in_i64_def)
  moreover have "ds \<noteq> []" using assms(2,3) by auto
  ultimately show ?thesis using assms(1-3) by (simp add: percentile_of_def go_index_def i64_id)
qed

text \<open>A millisecond value that fits.\<close>

definition fits_ms :: "int \<Rightarrow> bool" where
  "fits_ms d \<longleftrightarrow> 0 \<le> d \<and> d div 1000000 < 2 ^ 32"

lemma fits_ms_value: "fits_ms d \<Longrightarrow> u32 (d sdiv 1000000) = d div 1000000"
  by (simp add: fits_ms_def u32_def pos_imp_zdiv_nonneg_iff mod_pos_pos_trivial)

subsection \<open>The mean\<close>

lemma fold_sum_i64: "fold (\<lambda>d s. i64 (s + d)) ds (i64 s) = i64 (s + sum_list ds)"
  by (induction ds arbitrary: s) (simp_all add: add.assoc)

lemma mean_of_value:
  assumes "ds \<noteq> []" and "\<forall>d \<in> set ds. 0 \<le> d" and "in_i64 (sum_list ds)"
  shows "mean_of ds = (sum_list ds div int (length ds)) mod 2 ^ 32 div 1000000"
proof -
  have s: "fold (\<lambda>d s. i64 (s + d)) ds 0 = sum_list ds"
    using fold_sum_i64 [of ds 0] i64_id [of 0] i64_id [OF assms(3)] by (simp add: in_i64_def)
  have n: "0 < int (length ds)" "0 \<le> sum_list ds" using assms(1,2) by (simp_all add: sum_list_nonneg)
  have "sum_list ds div int (length ds) \<le> sum_list ds" using zdiv_mono2 [of "sum_list ds" 1 "int (length ds)"] n by simp
  then have "in_i64 (sum_list ds div int (length ds))"
    using n assms(3) pos_imp_zdiv_nonneg_iff [OF n(1), of "sum_list ds"] by (simp add: in_i64_def)
  then show ?thesis using n assms(1) by (simp add: mean_of_def s i64_id u32_def)
qed

lemma wrapped_ms_iff:
  assumes "0 \<le> (a :: int)"
  shows "a mod 2 ^ 32 div 1000000 = a div 1000000 \<longleftrightarrow> a < 2 ^ 32"
proof
  assume e: "a mod 2 ^ 32 div 1000000 = a div 1000000"
  show "a < 2 ^ 32"
  proof (rule ccontr)
    assume "\<not> a < 2 ^ 32"
    then have l: "4294 \<le> a div 1000000" by simp
    have "a mod 4294967296 \<le> 4294967295" using pos_mod_bound [of 4294967296 a] by simp
    then have u: "a mod 4294967296 div 1000000 \<le> 4294" by simp
    with e l have "a div 1000000 = 4294" by simp
    then have "a < 4295000000" by simp
    moreover have "4294967296 \<le> a" using \<open>\<not> a < 2 ^ 32\<close> by simp
    ultimately have "(a - 4294967296) mod 4294967296 = a - 4294967296" by (intro mod_pos_pos_trivial) simp_all
    then have "a mod 4294967296 = a - 4294967296" by simp
    then have "a mod 4294967296 div 1000000 = 0" using \<open>a < 4295000000\<close> \<open>4294967296 \<le> a\<close> by simp
    then show False using e l by simp
  qed
qed (use assms in simp)

subsection \<open>The history the timings stand for\<close>

type_synonym timing_event = "int \<times> int \<times> int"

fun add_event :: "timing_event \<Rightarrow> timing \<Rightarrow> timing" where
  "add_event (t1, t2, d) r = timing_Add t1 t2 d r"

fun record_timing :: "timing_event \<Rightarrow> (int \<times> int) list \<Rightarrow> (int \<times> int) list" where
  "record_timing (t1, t2, d) h = filter (\<lambda>(s, _). Unix t2 - 60 < s) (h @ [(Unix t1, d)])"

definition timing_ok :: "timing_event \<Rightarrow> bool" where
  "timing_ok e \<longleftrightarrow> in_i64 (Unix (fst (snd e)) - 60)"

text \<open>The durations in the buckets of a map whose seconds satisfy \<open>P\<close>, in no order.\<close>

definition kept :: "(int \<Rightarrow> bool) \<Rightarrow> (int \<times> int list) list \<Rightarrow> int multiset" where
  "kept P bs = sum_mset (image_mset (\<lambda>(t, b). if P t then mset b else {#}) (mset bs))"

lemma kept_simps [simp]:
  "kept P [] = {#}" "kept P ((t, b) # bs) = (if P t then mset b else {#}) + kept P bs"
  by (simp_all add: kept_def)

lemma kept_perm: "mset bs = mset bs' \<Longrightarrow> kept P bs = kept P bs'"
  by (simp add: kept_def)

lemma kept_filter: "kept P (filter (\<lambda>(t, _). Q t) bs) = kept (\<lambda>t. P t \<and> Q t) bs"
  by (induction bs) auto

lemma kept_update:
  "distinct (map fst bs) \<Longrightarrow> kept P (AList.update k ((case map_of bs k of Some b \<Rightarrow> b | None \<Rightarrow> []) @ [d]) bs)
    = kept P bs + (if P k then {#d#} else {#})"
proof (induction bs)
  case (Cons b bs)
  obtain t c where b: "b = (t, c)" by (cases b)
  show ?case using Cons by (auto simp: b)
qed simp

lemma collect_mset: "mset (collect limit bs ds) = mset ds + kept (\<lambda>t. limit \<le> t) bs"
  by (induction limit bs ds rule: collect.induct) auto

definition history :: "(int \<Rightarrow> bool) \<Rightarrow> (int \<times> int) list \<Rightarrow> int multiset" where
  "history P h = mset (map snd (filter (\<lambda>(t, _). P t) h))"

lemma history_simps [simp]:
  "history P [] = {#}" "history P ((t, d) # h) = (if P t then {#d#} else {#}) + history P h"
  "history P (h @ h') = history P h + history P h'"
  by (simp_all add: history_def)

lemma history_filter: "history P (filter (\<lambda>(t, _). Q t) h) = history (\<lambda>t. P t \<and> Q t) h"
  by (induction h) auto

definition stands_for :: "timing \<Rightarrow> (int \<times> int) list \<Rightarrow> bool" where
  "stands_for r h \<longleftrightarrow> distinct (map fst (t_Buckets r)) \<and> (\<forall>P. kept P (t_Buckets r) = history P h)"

lemma timing_Add_buckets:
  "t_Buckets (timing_Add t1 t2 d r) = filter (\<lambda>(t, _). \<not> t \<le> i64 (Unix t2 - 60))
     (AList.update (Unix t1) ((case map_of (t_Buckets r) (Unix t1) of Some b \<Rightarrow> b | None \<Rightarrow> []) @ [d]) (t_Buckets r))"
proof (cases "map_of (t_Buckets r) (Unix t1)")
  case None
  have "AList.update k v (AList.update k v' bs) = AList.update k v bs" for k and v v' :: "int list" and bs :: "(int \<times> int list) list"
    by (induction bs) auto
  then show ?thesis using None by (simp add: timing_Add_def timing_getCurrentBucket_def timing_removeOldBuckets_def Let_def)
qed (simp add: timing_Add_def timing_getCurrentBucket_def timing_removeOldBuckets_def Let_def)

lemma stands_for_Add:
  assumes "stands_for r h" and "timing_ok e"
  shows "stands_for (add_event e r) (record_timing e h)"
proof -
  obtain t1 t2 d where e: "e = (t1, t2, d)" by (cases e)
  have i: "i64 (Unix t2 - 60) = Unix t2 - 60" using assms(2) by (intro i64_id) (simp add: e timing_ok_def)
  define bs where "bs = AList.update (Unix t1) ((case map_of (t_Buckets r) (Unix t1) of Some b \<Rightarrow> b | None \<Rightarrow> []) @ [d]) (t_Buckets r)"
  have bs: "distinct (map fst bs)" "\<And>P. kept P bs = history P (h @ [(Unix t1, d)])"
    using assms(1) kept_update [of "t_Buckets r" _ "Unix t1" d] distinct_update [of "t_Buckets r" "Unix t1"]
    by (auto simp: bs_def stands_for_def)
  then show ?thesis
    unfolding e stands_for_def add_event.simps record_timing.simps timing_Add_buckets bs_def [symmetric] i kept_filter
      history_filter not_le
    using distinct_map_filter [OF bs(1)] by blast
qed

lemma stands_for_fold:
  "stands_for r h \<Longrightarrow> list_all timing_ok es \<Longrightarrow> stands_for (fold add_event es r) (fold record_timing es h)"
proof (induction es arbitrary: r h)
  case (Cons e es)
  then have "stands_for (add_event e r) (record_timing e h)" by (intro stands_for_Add) simp_all
  then show ?case using Cons.IH Cons.prems(2) by simp
qed simp

lemma stands_for_New: "stands_for NewTiming []"
  by (simp add: stands_for_def NewTiming_def)

lemma LastCached_Add: "t_LastCachedTime (add_event e r) = t_LastCachedTime r"
  by (cases e) (simp add: timing_Add_def timing_getCurrentBucket_def timing_removeOldBuckets_def Let_def split: option.split)

lemma LastCached_fold: "t_LastCachedTime (fold add_event es r) = t_LastCachedTime r"
  by (induction es arbitrary: r) (simp_all add: LastCached_Add del: add_event.simps)

lemma sort_mset_eq: "mset xs = mset ys \<Longrightarrow> sort xs = sort (ys :: int list)"
  by (metis sorted_list_of_multiset_mset)

subsection \<open>Concurrent calls of Add\<close>

text \<open>
  \<open>Add\<close> looks a bucket up under the read lock, creates it under the write lock when it was missing, and appends
  under the write lock again; other calls may come in between. Buckets are shared, so the store has an
  address for each of them. A call is the second its clock reading falls in and its duration; the calls
  are of one second, in which nothing is old enough to be removed.
\<close>

datatype add_pc = AddStart | AddMissed | AddBucket nat | AddDone

record add_store =
  a_heap :: "int list list"
  a_map :: "int \<rightharpoonup> nat"
  a_pcs :: "add_pc list"

inductive add_step :: "(int \<times> int) list \<Rightarrow> add_store \<Rightarrow> add_store \<Rightarrow> bool" for calls where
  AddHit: "i < length calls \<Longrightarrow> a_pcs s ! i = AddStart \<Longrightarrow> a_map s (fst (calls ! i)) = Some a \<Longrightarrow>
    add_step calls s (s\<lparr>a_pcs := (a_pcs s)[i := AddBucket a]\<rparr>)"
| AddMiss: "i < length calls \<Longrightarrow> a_pcs s ! i = AddStart \<Longrightarrow> a_map s (fst (calls ! i)) = None \<Longrightarrow>
    add_step calls s (s\<lparr>a_pcs := (a_pcs s)[i := AddMissed]\<rparr>)"
| AddCreate: "i < length calls \<Longrightarrow> a_pcs s ! i = AddMissed \<Longrightarrow>
    add_step calls s (s\<lparr>a_heap := a_heap s @ [[]], a_map := (a_map s)(fst (calls ! i) \<mapsto> length (a_heap s)),
      a_pcs := (a_pcs s)[i := AddBucket (length (a_heap s))]\<rparr>)"
| AddAppend: "i < length calls \<Longrightarrow> a_pcs s ! i = AddBucket a \<Longrightarrow>
    add_step calls s (s\<lparr>a_heap := (a_heap s)[a := a_heap s ! a @ [snd (calls ! i)]], a_pcs := (a_pcs s)[i := AddDone]\<rparr>)"

inductive_cases add_stepE: "add_step calls s s'"

definition add_init :: "nat \<Rightarrow> add_store" where
  "add_init n = \<lparr>a_heap = [], a_map = Map.empty, a_pcs = replicate n AddStart\<rparr>"

definition recorded :: "add_store \<Rightarrow> int \<Rightarrow> int list" where
  "recorded s t = (case a_map s t of None \<Rightarrow> [] | Some a \<Rightarrow> a_heap s ! a)"

lemma add_race_run:
  "rtranclp (add_step [(t, d1), (t, d2)]) (add_init 2)
    \<lparr>a_heap = [[d1], [d2]], a_map = Map.empty(t \<mapsto> 1), a_pcs = [AddDone, AddDone]\<rparr>"
proof -
  let ?s = "\<lambda>h m p. \<lparr>a_heap = h, a_map = m, a_pcs = p\<rparr>"
  note run = rtranclp.rtrancl_into_rtrancl
  have s0: "add_init 2 = ?s [] Map.empty [AddStart, AddStart]" by (simp add: add_init_def numeral_2_eq_2)
  have s1: "add_step [(t, d1), (t, d2)] (?s [] Map.empty [AddStart, AddStart]) (?s [] Map.empty [AddMissed, AddStart])"
    using AddMiss [of 0 "[(t, d1), (t, d2)]" "?s [] Map.empty [AddStart, AddStart]"] by simp
  have s2: "add_step [(t, d1), (t, d2)] (?s [] Map.empty [AddMissed, AddStart]) (?s [] Map.empty [AddMissed, AddMissed])"
    using AddMiss [of 1 "[(t, d1), (t, d2)]" "?s [] Map.empty [AddMissed, AddStart]"] by simp
  have s3: "add_step [(t, d1), (t, d2)] (?s [] Map.empty [AddMissed, AddMissed]) (?s [[]] (Map.empty(t \<mapsto> 0)) [AddBucket 0, AddMissed])"
    using AddCreate [of 0 "[(t, d1), (t, d2)]" "?s [] Map.empty [AddMissed, AddMissed]"] by simp
  have s4: "add_step [(t, d1), (t, d2)] (?s [[]] (Map.empty(t \<mapsto> 0)) [AddBucket 0, AddMissed])
      (?s [[d1]] (Map.empty(t \<mapsto> 0)) [AddDone, AddMissed])"
    using AddAppend [of 0 "[(t, d1), (t, d2)]" "?s [[]] (Map.empty(t \<mapsto> 0)) [AddBucket 0, AddMissed]" 0] by simp
  have s5: "add_step [(t, d1), (t, d2)] (?s [[d1]] (Map.empty(t \<mapsto> 0)) [AddDone, AddMissed])
      (?s [[d1], []] (Map.empty(t \<mapsto> 1)) [AddDone, AddBucket 1])"
    using AddCreate [of 1 "[(t, d1), (t, d2)]" "?s [[d1]] (Map.empty(t \<mapsto> 0)) [AddDone, AddMissed]"] by simp
  have s6: "add_step [(t, d1), (t, d2)] (?s [[d1], []] (Map.empty(t \<mapsto> 1)) [AddDone, AddBucket 1])
      (?s [[d1], [d2]] (Map.empty(t \<mapsto> 1)) [AddDone, AddDone])"
    using AddAppend [of 1 "[(t, d1), (t, d2)]" "?s [[d1], []] (Map.empty(t \<mapsto> 1)) [AddDone, AddBucket 1]" 1] by simp
  show ?thesis
    unfolding s0 by (rule run [OF run [OF run [OF run [OF run [OF r_into_rtranclp [of "add_step [(t, d1), (t, d2)]"]]]]]])
      (rule s1 s2 s3 s4 s5 s6)+
qed

subsection \<open>Properties\<close>

text \<open>C31: the timings implement a timed history: after any calls of \<open>Add\<close> \<open>SortedDurations\<close>, when its cache is a second
  old, is the sorted list of the durations the history keeps from sixty seconds back, in whatever order the map is
  visited.\<close>

theorem timings_refine:
  assumes "list_all timing_ok es" and "in_i64 (Unix now2 - 60)" and "r = fold add_event es NewTiming"
    and "mset bs = mset (t_Buckets r)" and "1000000000 \<le> UnixNano now1"
  shows "Sort (<) (collect (i64 (Unix now2 - 60)) bs []) = fst (SortedDurations now1 now2 now3 r)
    \<and> fst (SortedDurations now1 now2 now3 r)
        = sort (map snd (filter (\<lambda>(t, _). Unix now2 - 60 \<le> t) (fold record_timing es [])))"
proof -
  have "stands_for r (fold record_timing es [])" unfolding assms(3) by (rule stands_for_fold [OF stands_for_New assms(1)])
  then have "kept P (t_Buckets r) = history P (fold record_timing es [])" for P by (simp add: stands_for_def)
  then have "Sort (<) (collect (i64 (Unix now2 - 60)) cs [])
      = sort (map snd (filter (\<lambda>(t, _). Unix now2 - 60 \<le> t) (fold record_timing es [])))" if "mset cs = mset (t_Buckets r)" for cs
    unfolding Sort_int i64_id [OF assms(2)]
    by (intro sort_mset_eq) (simp add: collect_mset kept_perm [OF that] history_def)
  moreover have "t_LastCachedTime r = 0" unfolding assms(3) by (simp add: LastCached_fold NewTiming_def)
  ultimately show ?thesis
    using assms(4,5) i64_id [of 1000000000] by (simp add: SortedDurations_def Let_def time_consts in_i64_def)
qed

lemma timings_refine_witness:
  "fst (SortedDurations 70000000000 70000000000 70000000000
      (fold add_event [(8000000000, 8000000000, 5), (12000000000, 12000000000, 7), (12000000000, 12000000000, 3)] NewTiming)) = [3, 7]"
proof -
  have "list_all timing_ok [(8000000000, 8000000000, 5), (12000000000, 12000000000, 7), (12000000000, 12000000000, 3)]"
    by (simp add: timing_ok_def Unix_def in_i64_def)
  from timings_refine [OF this _ refl refl, of 70000000000 70000000000 70000000000] show ?thesis
    by (simp add: Unix_def UnixNano_def in_i64_def i64_def)
qed

text \<open>On sorted durations a percentile never falls out of the slice and grows with the percentage, from the shortest at
  0 to the longest at 100; percentages below 1 are left out (the division by 100 can underflow to 0).\<close>

theorem percentiles_ordered:
  assumes "sorted ds" and "ds \<noteq> []" and "length ds \<le> 2 ^ 53" and "list_all fits_ms ds" and "1 \<le> q" "q \<le> q'" "q' \<le> 100"
  shows "\<exists>v v'. percentile_of plat (Fin q) ds = Some v \<and> percentile_of plat (Fin q') ds = Some v' \<and> v \<le> v'
    \<and> percentile_of plat (Fin 0) ds = Some (hd ds div 1000000) \<and> percentile_of plat (Fin 100) ds = Some (last ds div 1000000)
    \<and> hd ds div 1000000 \<le> v \<and> v' \<le> last ds div 1000000"
proof -
  define n where "n = int (length ds)"
  have n: "0 < n" "n \<le> 2 ^ 53" using assms(2,3) unfolding n_def by (simp, metis of_nat_le_iff of_nat_numeral of_nat_power)
  define k k' where "k = nat (ordinal plat n (Fin q) - 1)" and "k' = nat (ordinal plat n (Fin q') - 1)"
  have b: "1 \<le> ordinal plat n (Fin q)" "ordinal plat n (Fin q) \<le> n" "1 \<le> ordinal plat n (Fin q')" "ordinal plat n (Fin q') \<le> n"
    using ordinal_bounds [of q n plat] ordinal_bounds [of q' n plat] assms(5-7) n by simp_all
  have "ordinal plat n (Fin q) \<le> ordinal plat n (Fin q')" by (rule ordinal_mono [OF assms(5-7) n])
  then have k: "k \<le> k'" "k' < length ds" using b unfolding k_def k'_def n_def by linarith+
  have val: "percentile_of plat p ds = Some (ds ! nat (ordinal plat n p - 1) div 1000000)"
    if "1 \<le> ordinal plat n p" "ordinal plat n p \<le> n" for p
  proof -
    have "nat (ordinal plat n p - 1) < length ds" using that unfolding n_def by linarith
    then have "fits_ms (ds ! nat (ordinal plat n p - 1))" using assms(4) by (simp add: list_all_length)
    then show ?thesis using percentile_rank [OF refl _ _ assms(3), of plat p] that by (simp add: n_def fits_ms_value)
  qed
  have "ordinal plat n (Fin 0) = 1" using n by (simp add: ordinal_def f_eq_def)
  then have 0: "percentile_of plat (Fin 0) ds = Some (hd ds div 1000000)" using val [of "Fin 0"] n assms(2) by (simp add: hd_conv_nth)
  have 1: "percentile_of plat (Fin 100) ds = Some (last ds div 1000000)"
    using val [of "Fin 100"] ordinal_100 [OF n] n assms(2)
    by (simp add: last_conv_nth n_def nat_diff_distrib Suc_le_eq)
  have "hd ds \<le> ds ! k" using sorted_nth_mono [OF assms(1), of 0 k] k assms(2) by (simp add: hd_conv_nth)
  moreover have "ds ! k \<le> ds ! k'" using sorted_nth_mono [OF assms(1) k] .
  moreover have "ds ! k' \<le> last ds" using sorted_nth_mono [OF assms(1), of k' "length ds - 1"] k assms(2) by (simp add: last_conv_nth)
  ultimately show ?thesis
    using val [OF b(1,2)] val [OF b(3,4)] 0 1 by (auto simp: k_def [symmetric] k'_def [symmetric] intro: zdiv_mono1)
qed

lemma percentiles_ordered_witness:
  "\<exists>v. percentile_of amd64_cvt (Fin 50) [1000000, 7000000, 9000000] = Some v \<and> 1 \<le> v \<and> v \<le> 9"
  using percentiles_ordered [of "[1000000, 7000000, 9000000]" 50 50 amd64_cvt] by (auto simp: fits_ms_def)

text \<open>\<open>Mean\<close> is the average in milliseconds exactly when the average is below \<open>2 ^ 32\<close> nanoseconds: it is cut to 32 bits
  before the division, so averages from 4.3 seconds on are reported wrong.\<close>

theorem mean_exact_iff:
  assumes "ds \<noteq> []" and "list_all (\<lambda>d. 0 \<le> d) ds" and "in_i64 (sum_list ds)"
  shows "mean_of ds = sum_list ds div int (length ds) div 1000000 \<longleftrightarrow> sum_list ds div int (length ds) < 2 ^ 32"
proof -
  have "\<forall>d \<in> set ds. 0 \<le> d" using assms(2) by (simp add: list_all_iff)
  moreover have "0 \<le> sum_list ds div int (length ds)"
    using calculation assms(1) by (simp add: sum_list_nonneg pos_imp_zdiv_nonneg_iff)
  ultimately show ?thesis using mean_of_value [OF assms(1) _ assms(3)] wrapped_ms_iff by simp
qed

lemma mean_exact_iff_witness: "mean_of [5000000000] \<noteq> 5000 \<and> mean_of [4000000000] = 4000"
  using mean_exact_iff [of "[5000000000]"] mean_exact_iff [of "[4000000000]"] by (simp add: in_i64_def)

text \<open>Two concurrent calls of \<open>Add\<close> in a second without a bucket can lose a duration: both find no bucket, and the
  second to create one replaces the first.\<close>

theorem concurrent_adds_lose:
  "\<exists>s. rtranclp (add_step [(t, d1), (t, d2)]) (add_init 2) s \<and> a_pcs s = [AddDone, AddDone] \<and> recorded s t = [d2]"
  using add_race_run by (fastforce simp: recorded_def)

end
