(* ===== verification/HystrixSettings.thy ===== *)
theory HystrixSettings
  imports GoTime "HOL-Library.Multiset"
begin

text \<open>
  The settings of hystrix-go (settings.go). The map from command names to settings is a partial
  function that the operations thread through; a pointer to settings is never written after it is
  stored, so a value stands for it. The mutex makes every operation one step.
\<close>

definition DefaultTimeout :: int where "DefaultTimeout = 1000"
definition DefaultMaxConcurrent :: int where "DefaultMaxConcurrent = 10"
definition DefaultVolumeThreshold :: int where "DefaultVolumeThreshold = 20"
definition DefaultSleepWindow :: int where "DefaultSleepWindow = 5000"
definition DefaultErrorPercentThreshold :: int where "DefaultErrorPercentThreshold = 50"

lemmas default_settings = DefaultTimeout_def DefaultMaxConcurrent_def DefaultVolumeThreshold_def DefaultSleepWindow_def
  DefaultErrorPercentThreshold_def

record settings =
  s_Timeout :: int
  s_MaxConcurrentRequests :: int
  s_RequestVolumeThreshold :: int
  s_SleepWindow :: int
  s_ErrorPercentThreshold :: int

record command_config =
  cc_Timeout :: int
  cc_MaxConcurrentRequests :: int
  cc_RequestVolumeThreshold :: int
  cc_SleepWindow :: int
  cc_ErrorPercentThreshold :: int

type_synonym settings_map = "string \<rightharpoonup> settings"

text \<open>The zero value \<open>CommandConfig{}\<close>.\<close>

definition no_config :: command_config where
  "no_config = \<lparr>cc_Timeout = 0, cc_MaxConcurrentRequests = 0, cc_RequestVolumeThreshold = 0, cc_SleepWindow = 0,
     cc_ErrorPercentThreshold = 0\<rparr>"

definition ConfigureCommand :: "string \<Rightarrow> command_config \<Rightarrow> settings_map \<Rightarrow> settings_map" where
  "ConfigureCommand name config m =
     (let timeout = (if cc_Timeout config \<noteq> 0 then cc_Timeout config else DefaultTimeout);
          mx = (if cc_MaxConcurrentRequests config \<noteq> 0 then cc_MaxConcurrentRequests config else DefaultMaxConcurrent);
          volume = (if cc_RequestVolumeThreshold config \<noteq> 0 then cc_RequestVolumeThreshold config else DefaultVolumeThreshold);
          sleep = (if cc_SleepWindow config \<noteq> 0 then cc_SleepWindow config else DefaultSleepWindow);
          errorPercent = (if cc_ErrorPercentThreshold config \<noteq> 0 then cc_ErrorPercentThreshold config
                          else DefaultErrorPercentThreshold)
      in m(name \<mapsto> \<lparr>s_Timeout = i64 (timeout * Millisecond), s_MaxConcurrentRequests = mx,
                    s_RequestVolumeThreshold = u64 volume, s_SleepWindow = i64 (sleep * Millisecond),
                    s_ErrorPercentThreshold = errorPercent\<rparr>))"

text \<open>\<open>Configure\<close>: the commands in the order one loop over the map visits them.\<close>

definition Configure :: "(string \<times> command_config) list \<Rightarrow> settings_map \<Rightarrow> settings_map" where
  "Configure cmds m = fold (\<lambda>(k, v) m. ConfigureCommand k v m) cmds m"

text \<open>\<open>getSettings\<close> configures a command that is not there and calls itself.\<close>

function getSettings :: "string \<Rightarrow> settings_map \<Rightarrow> settings \<times> settings_map" where
  "getSettings name m =
     (case m name of
        Some s \<Rightarrow> (s, m)
      | None \<Rightarrow> getSettings name (ConfigureCommand name no_config m))"
  by pat_completeness auto
termination
  by (relation "measure (\<lambda>(name, m). if m name = None then 1 else 0)") (auto simp: ConfigureCommand_def Let_def)

declare getSettings.simps [simp del]

definition GetCircuitSettings :: "settings_map \<Rightarrow> settings_map" where
  "GetCircuitSettings m = (\<lambda>key. m key)"

subsection \<open>Lemmas\<close>

definition default_of :: settings where
  "default_of = \<lparr>s_Timeout = 1000000000, s_MaxConcurrentRequests = 10, s_RequestVolumeThreshold = 20,
     s_SleepWindow = 5000000000, s_ErrorPercentThreshold = 50\<rparr>"

lemma ConfigureCommand_default: "ConfigureCommand name no_config m = m(name \<mapsto> default_of)"
  by (simp add: ConfigureCommand_def no_config_def default_settings default_of_def time_consts i64_def u64_def)

lemma getSettings_alt: "getSettings name m = (case m name of Some s \<Rightarrow> (s, m) | None \<Rightarrow> (default_of, m(name \<mapsto> default_of)))"
proof (cases "m name")
  case None
  have "getSettings name m = getSettings name (m(name \<mapsto> default_of))"
    using None by (subst getSettings.simps) (simp add: ConfigureCommand_default)
  also have "\<dots> = (default_of, m(name \<mapsto> default_of))" by (subst getSettings.simps) simp
  finally show ?thesis using None by simp
qed (subst getSettings.simps, simp)

lemma ConfigureCommand_other: "k \<noteq> name \<Longrightarrow> ConfigureCommand name c m k = m k"
  by (simp add: ConfigureCommand_def Let_def)

lemma ConfigureCommand_same: "ConfigureCommand name c m name = ConfigureCommand name c Map.empty name"
  by (simp add: ConfigureCommand_def Let_def)

lemma Configure_lookup:
  "distinct (map fst cmds) \<Longrightarrow> Configure cmds m k
    = (case map_of cmds k of Some v \<Rightarrow> ConfigureCommand k v Map.empty k | None \<Rightarrow> m k)"
proof (induction cmds arbitrary: m)
  case Nil
  then show ?case by (simp add: Configure_def)
next
  case (Cons c cmds)
  obtain n v where c: "c = (n, v)" by (cases c)
  have "Configure (c # cmds) m k = Configure cmds (ConfigureCommand n v m) k" by (simp add: Configure_def c)
  also have "\<dots> = (case map_of cmds k of Some v \<Rightarrow> ConfigureCommand k v Map.empty k | None \<Rightarrow> ConfigureCommand n v m k)"
    using Cons by simp
  finally have e: "Configure (c # cmds) m k
      = (case map_of cmds k of Some v \<Rightarrow> ConfigureCommand k v Map.empty k | None \<Rightarrow> ConfigureCommand n v m k)" .
  show ?case
  proof (cases "k = n")
    case True
    have "n \<notin> fst ` set cmds" using Cons.prems by (simp add: c)
    then have "map_of cmds k = None" using True map_of_eq_None_iff [of cmds n] by simp
    then show ?thesis unfolding e using True ConfigureCommand_same [of n v m] by (simp add: c)
  next
    case False
    show ?thesis unfolding e using False ConfigureCommand_other [of k n v m] by (simp add: c split: option.split)
  qed
qed

lemma map_of_any_order:
  assumes "distinct (map fst xs)" and "mset ys = mset xs"
  shows "distinct (map fst ys) \<and> map_of ys = map_of xs"
proof -
  have "mset (map fst ys) = mset (map fst xs)" using assms(2) by simp
  then have d: "distinct (map fst ys)" using assms(1) mset_eq_imp_distinct_iff by blast
  have "set ys = set xs" using assms(2) by (rule mset_eq_setD)
  then have "map_of ys = map_of xs" using map_of_inject_set [OF d assms(1)] by simp
  with d show ?thesis by simp
qed

subsection \<open>Properties\<close>

text \<open>\<open>Configure\<close> does not depend on the order in which it visits its map, and gives each command of the map its own
  settings and leaves the others alone.\<close>

theorem configure_any_order:
  assumes "distinct (map fst cmds)" and "mset cmds' = mset cmds"
  shows "Configure cmds' m = Configure cmds m
    \<and> Configure cmds m k = (case map_of cmds k of Some v \<Rightarrow> ConfigureCommand k v Map.empty k | None \<Rightarrow> m k)"
proof -
  have d: "distinct (map fst cmds')" and e: "map_of cmds' = map_of cmds" using map_of_any_order [OF assms] by auto
  have "Configure cmds' m j = Configure cmds m j" for j
    unfolding Configure_lookup [OF assms(1)] Configure_lookup [OF d] e ..
  then show ?thesis using Configure_lookup [OF assms(1)] by auto
qed

theorem configure_any_order_witness:
  "\<exists>cmds cmds'. length cmds = 2 \<and> cmds' \<noteq> cmds
    \<and> Configure cmds' Map.empty = Configure cmds Map.empty
    \<and> map_option s_MaxConcurrentRequests (Configure cmds Map.empty ''b'') = Some 7"
  using configure_any_order [of "[(''a'', no_config), (''b'', no_config\<lparr>cc_MaxConcurrentRequests := 7\<rparr>)]"
      "[(''b'', no_config\<lparr>cc_MaxConcurrentRequests := 7\<rparr>), (''a'', no_config)]" Map.empty "''b''"]
  by (intro exI [of _ "[(''a'', no_config), (''b'', no_config\<lparr>cc_MaxConcurrentRequests := 7\<rparr>)]"]
      exI [of _ "[(''b'', no_config\<lparr>cc_MaxConcurrentRequests := 7\<rparr>), (''a'', no_config)]"])
    (simp add: ConfigureCommand_def no_config_def add_mset_commute)

text \<open>Reading the settings of a command returns what is configured, or the documented defaults (1000 ms, 10 at a time, 20
  requests, 5000 ms, 50 percent) when nothing is; a second read returns the same settings and changes nothing; no other
  command is touched.\<close>

theorem getSettings_reads:
  "snd (getSettings name m) name = Some (fst (getSettings name m))
    \<and> fst (getSettings name m) = (case m name of Some s \<Rightarrow> s
        | None \<Rightarrow> \<lparr>s_Timeout = 1000 * Millisecond, s_MaxConcurrentRequests = 10, s_RequestVolumeThreshold = 20,
            s_SleepWindow = 5000 * Millisecond, s_ErrorPercentThreshold = 50\<rparr>)
    \<and> getSettings name (snd (getSettings name m)) = (fst (getSettings name m), snd (getSettings name m))
    \<and> snd (getSettings name m) |` (- {name}) = m |` (- {name})"
  by (auto simp: getSettings_alt default_of_def time_consts restrict_map_def split: option.splits)

end
