(* ===== verification/HystrixMetrics.thy ===== *)
theory HystrixMetrics
  imports Rolling RollingTiming HystrixSettings "HOL-Library.Monad_Syntax"
begin

text \<open>
  The metrics of a circuit: the collectors (metric_collector/metric_collector.go and
  default_metric_collector.go) and the exchange that feeds them (metrics.go). A collector of the user's own is a
  value of a type parameter with its two methods as an argument; the default collector is modelled whole. The clock
  readings of one \<open>Update\<close> are a function from the call site to a reading in nanoseconds. A panic is \<open>None\<close>.
\<close>

subsection \<open>The default collector\<close>

record metric_result =
  mr_Attempts :: f64
  mr_Errors :: f64
  mr_Successes :: f64
  mr_Failures :: f64
  mr_Rejects :: f64
  mr_ShortCircuits :: f64
  mr_Timeouts :: f64
  mr_FallbackSuccesses :: f64
  mr_FallbackFailures :: f64
  mr_ContextCanceled :: f64
  mr_ContextDeadlineExceeded :: f64
  mr_TotalDuration :: int
  mr_RunDuration :: int
  mr_ConcurrencyInUse :: f64

record default_collector =
  d_numRequests :: rolling_number
  d_errors :: rolling_number
  d_successes :: rolling_number
  d_failures :: rolling_number
  d_rejects :: rolling_number
  d_shortCircuits :: rolling_number
  d_timeouts :: rolling_number
  d_contextCanceled :: rolling_number
  d_contextDeadlineExceeded :: rolling_number
  d_fallbackSuccesses :: rolling_number
  d_fallbackFailures :: rolling_number
  d_totalDuration :: timing
  d_runDuration :: timing

definition NumRequests :: "default_collector \<Rightarrow> rolling_number" where "NumRequests d = d_numRequests d"
definition Errors :: "default_collector \<Rightarrow> rolling_number" where "Errors d = d_errors d"
definition Successes :: "default_collector \<Rightarrow> rolling_number" where "Successes d = d_successes d"
definition Failures :: "default_collector \<Rightarrow> rolling_number" where "Failures d = d_failures d"
definition Rejects :: "default_collector \<Rightarrow> rolling_number" where "Rejects d = d_rejects d"
definition ShortCircuits :: "default_collector \<Rightarrow> rolling_number" where "ShortCircuits d = d_shortCircuits d"
definition Timeouts :: "default_collector \<Rightarrow> rolling_number" where "Timeouts d = d_timeouts d"
definition FallbackSuccesses :: "default_collector \<Rightarrow> rolling_number" where "FallbackSuccesses d = d_fallbackSuccesses d"
definition FallbackFailures :: "default_collector \<Rightarrow> rolling_number" where "FallbackFailures d = d_fallbackFailures d"
definition ContextCanceled :: "default_collector \<Rightarrow> rolling_number" where "ContextCanceled d = d_contextCanceled d"
definition ContextDeadlineExceeded :: "default_collector \<Rightarrow> rolling_number" where
  "ContextDeadlineExceeded d = d_contextDeadlineExceeded d"
definition TotalDuration :: "default_collector \<Rightarrow> timing" where "TotalDuration d = d_totalDuration d"
definition RunDuration :: "default_collector \<Rightarrow> timing" where "RunDuration d = d_runDuration d"

lemmas collector_accessors = NumRequests_def Errors_def Successes_def Failures_def Rejects_def ShortCircuits_def Timeouts_def
  FallbackSuccesses_def FallbackFailures_def ContextCanceled_def ContextDeadlineExceeded_def TotalDuration_def RunDuration_def

text \<open>\<open>Reset\<close> overwrites every field, so the result does not depend on the collector.\<close>

definition collector_Reset :: "default_collector \<Rightarrow> default_collector" where
  "collector_Reset d = \<lparr>d_numRequests = NewNumber, d_errors = NewNumber, d_successes = NewNumber, d_failures = NewNumber,
     d_rejects = NewNumber, d_shortCircuits = NewNumber, d_timeouts = NewNumber, d_contextCanceled = NewNumber,
     d_contextDeadlineExceeded = NewNumber, d_fallbackSuccesses = NewNumber, d_fallbackFailures = NewNumber,
     d_totalDuration = NewTiming, d_runDuration = NewTiming\<rparr>"

text \<open>The k-th call in \<open>Update\<close> reads the clock at the sites \<open>2 * k\<close> and \<open>2 * k + 1\<close>.\<close>

definition inc :: "(nat \<Rightarrow> int) \<Rightarrow> nat \<Rightarrow> f64 \<Rightarrow> rolling_number \<Rightarrow> rolling_number" where
  "inc clk k i r = Increment (Unix (clk (2 * k))) (Unix (clk (2 * k + 1))) i r"

definition collector_Update :: "(nat \<Rightarrow> int) \<Rightarrow> metric_result \<Rightarrow> default_collector \<Rightarrow> default_collector" where
  "collector_Update clk r d =
     d\<lparr>d_numRequests := inc clk 0 (mr_Attempts r) (d_numRequests d),
       d_errors := inc clk 1 (mr_Errors r) (d_errors d),
       d_successes := inc clk 2 (mr_Successes r) (d_successes d),
       d_failures := inc clk 3 (mr_Failures r) (d_failures d),
       d_rejects := inc clk 4 (mr_Rejects r) (d_rejects d),
       d_shortCircuits := inc clk 5 (mr_ShortCircuits r) (d_shortCircuits d),
       d_timeouts := inc clk 6 (mr_Timeouts r) (d_timeouts d),
       d_fallbackSuccesses := inc clk 7 (mr_FallbackSuccesses r) (d_fallbackSuccesses d),
       d_fallbackFailures := inc clk 8 (mr_FallbackFailures r) (d_fallbackFailures d),
       d_contextCanceled := inc clk 9 (mr_ContextCanceled r) (d_contextCanceled d),
       d_contextDeadlineExceeded := inc clk 10 (mr_ContextDeadlineExceeded r) (d_contextDeadlineExceeded d),
       d_totalDuration := timing_Add (clk 22) (clk 23) (mr_TotalDuration r) (d_totalDuration d),
       d_runDuration := timing_Add (clk 24) (clk 25) (mr_RunDuration r) (d_runDuration d)\<rparr>"

subsection \<open>Collectors and their registry\<close>

datatype 'c metric_collector = DefaultMC default_collector | CustomMC 'c

record 'c collector_methods =
  cm_Update :: "metric_result \<Rightarrow> 'c \<Rightarrow> 'c"
  cm_Reset :: "'c \<Rightarrow> 'c"

fun mc_Update :: "'c collector_methods \<Rightarrow> (nat \<Rightarrow> int) \<Rightarrow> metric_result \<Rightarrow> 'c metric_collector \<Rightarrow> 'c metric_collector" where
  "mc_Update ops clk r (DefaultMC d) = DefaultMC (collector_Update clk r d)"
| "mc_Update ops clk r (CustomMC c) = CustomMC (cm_Update ops r c)"

fun mc_Reset :: "'c collector_methods \<Rightarrow> 'c metric_collector \<Rightarrow> 'c metric_collector" where
  "mc_Reset ops (DefaultMC d) = DefaultMC (collector_Reset d)"
| "mc_Reset ops (CustomMC c) = CustomMC (cm_Reset ops c)"

type_synonym 'c registry = "(string \<Rightarrow> 'c metric_collector) list"

text \<open>The zero collector has nil pointers, which \<open>Reset\<close> overwrites before anything reads them.\<close>

definition zero_collector :: default_collector where
  "zero_collector = \<lparr>d_numRequests = NewNumber, d_errors = NewNumber, d_successes = NewNumber, d_failures = NewNumber,
     d_rejects = NewNumber, d_shortCircuits = NewNumber, d_timeouts = NewNumber, d_contextCanceled = NewNumber,
     d_contextDeadlineExceeded = NewNumber, d_fallbackSuccesses = NewNumber, d_fallbackFailures = NewNumber,
     d_totalDuration = NewTiming, d_runDuration = NewTiming\<rparr>"

definition newDefaultMetricCollector :: "string \<Rightarrow> 'c metric_collector" where
  "newDefaultMetricCollector name = DefaultMC (collector_Reset zero_collector)"

definition default_registry :: "'c registry" where
  "default_registry = [newDefaultMetricCollector]"

definition InitializeMetricCollectors :: "string \<Rightarrow> 'c registry \<Rightarrow> 'c metric_collector list" where
  "InitializeMetricCollectors name reg = map (\<lambda>initializer. initializer name) reg"

definition Register :: "(string \<Rightarrow> 'c metric_collector) \<Rightarrow> 'c registry \<Rightarrow> 'c registry" where
  "Register initializer reg = reg @ [initializer]"

subsection \<open>The exchange\<close>

record command_execution =
  ce_Types :: "string list"
  ce_Start :: gtime
  ce_RunDuration :: int
  ce_ConcurrencyInUse :: f64

record 'c metric_exchange =
  x_Name :: string
  x_Updates :: "command_execution list"
  x_metricCollectors :: "'c metric_collector list"

definition updates_capacity :: nat where "updates_capacity = 2000"

definition exchange_Reset :: "'c collector_methods \<Rightarrow> 'c metric_exchange \<Rightarrow> 'c metric_exchange" where
  "exchange_Reset ops m = m\<lparr>x_metricCollectors := map (mc_Reset ops) (x_metricCollectors m)\<rparr>"

definition newMetricExchange :: "'c collector_methods \<Rightarrow> 'c registry \<Rightarrow> string \<Rightarrow> 'c metric_exchange" where
  "newMetricExchange ops reg name =
     exchange_Reset ops \<lparr>x_Name = name, x_Updates = [], x_metricCollectors = InitializeMetricCollectors name reg\<rparr>"

definition DefaultCollector :: "'c metric_exchange \<Rightarrow> default_collector option" where
  "DefaultCollector m =
     (case x_metricCollectors m of
        [] \<Rightarrow> None
      | DefaultMC d # _ \<Rightarrow> Some d
      | CustomMC _ # _ \<Rightarrow> None)"

text \<open>The result \<open>IncrementMetrics\<close> builds from an update; \<open>Types[0]\<close> panics when there is none.\<close>

definition result_of :: "command_execution \<Rightarrow> int \<Rightarrow> metric_result option" where
  "result_of update totalDuration =
     (let r = \<lparr>mr_Attempts = Fin 1, mr_Errors = Fin 0, mr_Successes = Fin 0, mr_Failures = Fin 0, mr_Rejects = Fin 0,
                mr_ShortCircuits = Fin 0, mr_Timeouts = Fin 0, mr_FallbackSuccesses = Fin 0, mr_FallbackFailures = Fin 0,
                mr_ContextCanceled = Fin 0, mr_ContextDeadlineExceeded = Fin 0, mr_TotalDuration = totalDuration,
                mr_RunDuration = ce_RunDuration update, mr_ConcurrencyInUse = ce_ConcurrencyInUse update\<rparr>
      in case ce_Types update of
           [] \<Rightarrow> None
         | ty # rest \<Rightarrow>
             (let r = (if ty = ''success'' then r\<lparr>mr_Successes := Fin 1\<rparr>
                       else if ty = ''failure'' then r\<lparr>mr_Failures := Fin 1, mr_Errors := Fin 1\<rparr>
                       else if ty = ''rejected'' then r\<lparr>mr_Rejects := Fin 1, mr_Errors := Fin 1\<rparr>
                       else if ty = ''short-circuit'' then r\<lparr>mr_ShortCircuits := Fin 1, mr_Errors := Fin 1\<rparr>
                       else if ty = ''timeout'' then r\<lparr>mr_Timeouts := Fin 1, mr_Errors := Fin 1\<rparr>
                       else if ty = ''context_canceled'' then r\<lparr>mr_ContextCanceled := Fin 1\<rparr>
                       else if ty = ''context_deadline_exceeded'' then r\<lparr>mr_ContextDeadlineExceeded := Fin 1\<rparr>
                       else r)
              in Some (case rest of
                   [] \<Rightarrow> r
                 | ty1 # _ \<Rightarrow>
                     (if ty1 = ''fallback-success'' then r\<lparr>mr_FallbackSuccesses := Fin 1\<rparr>
                      else if ty1 = ''fallback-failure'' then r\<lparr>mr_FallbackFailures := Fin 1\<rparr>
                      else r))))"

definition IncrementMetrics ::
    "'c collector_methods \<Rightarrow> (nat \<Rightarrow> int) \<Rightarrow> command_execution \<Rightarrow> int \<Rightarrow> 'c metric_collector \<Rightarrow> 'c metric_collector option" where
  "IncrementMetrics ops clk update totalDuration collector =
     do { r \<leftarrow> result_of update totalDuration; Some (mc_Update ops clk r collector) }"

text \<open>\<open>time.Since\<close>: with a monotonic reading in the start only the monotonic reading of now counts.\<close>

definition Since :: "gtime \<Rightarrow> gtime \<Rightarrow> int" where
  "Since t now = Time_Sub (if tmono t \<noteq> None then zero_time\<lparr>tmono := tmono now\<rparr> else now) t"

text \<open>
  One turn of the loop of \<open>Monitor\<close>: the goroutines of one update each change their own collector, so the turn is a
  map over the collectors; \<open>clks i\<close> are the readings in the goroutine of the i-th.
\<close>

definition Monitor_step ::
    "'c collector_methods \<Rightarrow> gtime \<Rightarrow> (nat \<Rightarrow> nat \<Rightarrow> int) \<Rightarrow> 'c metric_exchange \<Rightarrow> 'c metric_exchange option" where
  "Monitor_step ops now clks m =
     (case x_Updates m of
        [] \<Rightarrow> Some m
      | update # rest \<Rightarrow>
          do { cs \<leftarrow> those (map (\<lambda>(i, c). IncrementMetrics ops (clks i) update (Since (ce_Start update) now) c)
                 (enumerate 0 (x_metricCollectors m)));
               Some (m\<lparr>x_Updates := rest, x_metricCollectors := cs\<rparr>) })"

fun Monitor :: "'c collector_methods \<Rightarrow> (gtime \<times> (nat \<Rightarrow> nat \<Rightarrow> int)) list \<Rightarrow> 'c metric_exchange \<Rightarrow> 'c metric_exchange option" where
  "Monitor ops [] m = Some m"
| "Monitor ops ((now, clks) # rs) m = do { m \<leftarrow> Monitor_step ops now clks m; Monitor ops rs m }"

definition requestsLocked :: "'c metric_exchange \<Rightarrow> rolling_number option" where
  "requestsLocked m = do { d \<leftarrow> DefaultCollector m; Some (NumRequests d) }"

definition Requests :: "'c metric_exchange \<Rightarrow> rolling_number option" where
  "Requests m = requestsLocked m"

definition ErrorPercent :: "(f64 \<Rightarrow> int) \<Rightarrow> int \<Rightarrow> 'c metric_exchange \<Rightarrow> int option" where
  "ErrorPercent plat now m =
     do { q \<leftarrow> requestsLocked m;
          let reqs = Sum now q;
          d \<leftarrow> DefaultCollector m;
          let errs = Sum now (Errors d);
          let errPct = (if f_less (Fin 0) reqs then f_mul (f_div errs reqs) (Fin 100) else Fin 0);
          Some (f_to_i64 plat (f_add errPct (Fin (1 / 2)))) }"

definition IsHealthy :: "(f64 \<Rightarrow> int) \<Rightarrow> int \<Rightarrow> settings_map \<Rightarrow> 'c metric_exchange \<Rightarrow> (bool \<times> settings_map) option" where
  "IsHealthy plat now sm m =
     do { p \<leftarrow> ErrorPercent plat now m;
          let (s, sm) = getSettings (x_Name m) sm;
          Some (p < s_ErrorPercentThreshold s, sm) }"

subsection \<open>The error percentage as a number\<close>

lemma f_div_Fin: "0 < r \<Longrightarrow> f_div (Fin e) (Fin r) = f64_round (e / r)"
  by simp

lemma floor_between:
  fixes w c :: rat
  assumes "\<bar>c - w\<bar> < 1 / of_int q" and "0 < q" and "w * of_int q \<in> \<int>"
  shows "of_int \<lfloor>c\<rfloor> \<le> w \<and> w \<le> of_int \<lfloor>c\<rfloor> + 1"
proof -
  define p where "p = \<lfloor>c\<rfloor>"
  have p: "of_int p \<le> c" "c < of_int p + 1" unfolding p_def by linarith+
  obtain k where k: "w * of_int q = of_int k" using assms(3) by (auto elim: Ints_cases)
  have q: "(0 :: rat) < of_int q" using assms(2) by simp
  have "\<bar>c - w\<bar> * of_int q < 1" using assms(1) q by (simp add: pos_less_divide_eq)
  then have "\<bar>c * of_int q - of_int k\<bar> < 1" using q by (simp add: k [symmetric] abs_mult left_diff_distrib [symmetric])
  moreover have "of_int (p * q) \<le> c * of_int q" "c * of_int q < of_int ((p + 1) * q)" using p q by simp_all
  ultimately have "(of_int (p * q) :: rat) < of_int (k + 1)" "(of_int k :: rat) < of_int ((p + 1) * q + 1)"
    unfolding of_int_add [of k] of_int_add [of "(p + 1) * q"] of_int_1 by linarith+
  then have "p * q \<le> k" "k \<le> (p + 1) * q" unfolding of_int_less_iff by linarith+
  then have "of_int p * of_int q \<le> w * of_int q" "w * of_int q \<le> (of_int p + 1) * of_int q"
    unfolding k by (metis of_int_le_iff of_int_mult, metis of_int_1 of_int_add of_int_le_iff of_int_mult)
  then show ?thesis using q unfolding p_def [symmetric] by simp
qed

definition percent_of :: "(f64 \<Rightarrow> int) \<Rightarrow> f64 \<Rightarrow> f64 \<Rightarrow> int" where
  "percent_of plat reqs errs =
     (let errPct = (if f_less (Fin 0) reqs then f_mul (f_div errs reqs) (Fin 100) else Fin 0)
      in f_to_i64 plat (f_add errPct (Fin (1 / 2))))"

lemma percent_none [simp]: "percent_of plat (Fin 0) errs = 0"
proof -
  have "f64_round (1 / 2) = Fin (1 / 2)" by (rule f64_round_certificate [of "- 1" _ "- 53" "2 ^ 52", THEN trans]) (auto simp: pow2_def rne_def)
  moreover have "\<lfloor>1 / 2 :: rat\<rfloor> = 0" by (simp add: floor_eq_iff)
  ultimately show ?thesis by (simp add: percent_of_def f_to_i64_def trunc_rat_def in_i64_def)
qed

text \<open>The power of two above a number, at most twice the number unless it is one.\<close>

lemma power_above:
  fixes x :: rat
  assumes "x \<le> 2 ^ n"
  obtains k where "x \<le> 2 ^ k" "2 ^ k \<le> max 1 (2 * x)" "k \<le> n"
proof
  define k where "k = (LEAST k. x \<le> 2 ^ k)"
  show "x \<le> 2 ^ k" unfolding k_def using assms by (rule LeastI)
  show "k \<le> n" unfolding k_def using assms by (rule Least_le)
  show "2 ^ k \<le> max 1 (2 * x)"
  proof (cases k)
    case (Suc j)
    then have "\<not> x \<le> 2 ^ j" using not_less_Least [of j "\<lambda>k. x \<le> 2 ^ k"] by (simp add: k_def)
    then show ?thesis using Suc by simp
  qed simp
qed

lemma percent_value:
  assumes "0 \<le> e" and "e \<le> 2 ^ 40" and "0 < r" and "r \<le> 2 ^ 40"
  shows "\<bar>2 * r * percent_of plat (Fin (of_int r)) (Fin (of_int e)) - 200 * e\<bar> \<le> r
    \<and> 0 \<le> percent_of plat (Fin (of_int r)) (Fin (of_int e))
    \<and> (e \<le> r \<longrightarrow> percent_of plat (Fin (of_int r)) (Fin (of_int e)) \<le> 100)"
proof -
  define x :: rat where "x = of_int e / of_int r"
  have r: "(0 :: rat) < of_int r" "(1 :: rat) \<le> of_int r" using assms(3) by simp_all
  have e: "(0 :: rat) \<le> of_int e" "(of_int e :: rat) \<le> 2 ^ 40"
    using assms(1,2) by (simp_all add: of_int_le_iff [of e "2 ^ 40", where 'a = rat, simplified])
  have x: "0 \<le> x" "x \<le> of_int e" using e(1) r by (simp_all add: x_def divide_le_eq mult_le_cancel_left1)
  then have "x \<le> 2 ^ 40" using e(2) by linarith
  then obtain k where k: "x \<le> 2 ^ k" "2 ^ k \<le> max 1 (2 * x)" "k \<le> 40" by (rule power_above)
  define M :: rat where "M = 2 ^ k"
  have M: "1 \<le> M" "M \<le> 2 ^ 40"
    unfolding M_def by (rule one_le_power, simp, rule power_increasing [OF k(3)], simp)
  have pM: "pow2 (int (k + j) - 53) = M * pow2 (int j - 53)" for j
    using pow2_add [of "int k" "int j - 53"] by (simp add: M_def pow2_of_nat algebra_simps)
  have exact: "rval (of_int m * M) = of_int m * M" if "0 \<le> m" "m \<le> 2 ^ 7" for m
  proof -
    have "(2 :: int) ^ k \<le> 2 ^ 40" using k(3) by (intro power_increasing) simp_all
    then have "m * 2 ^ k \<le> 2 ^ 7 * 2 ^ 40" using that by (intro mult_mono) simp_all
    then show ?thesis using rval_of_int [of "m * 2 ^ k"] that(1) by (simp add: M_def)
  qed
  define a where "a = rval x"
  have a: "f64_round x = Fin a" "\<bar>a - x\<bar> \<le> M * pow2 (- 53)" "0 \<le> a"
    using f64_round_near [of x k] x(1) k(1,3) rval_nonneg [of x] pM [of 0] by (simp_all add: a_def)
  have a1: "a \<le> M" using rval_mono [of x M] k(1) exact [of 1] by (simp add: a_def M_def)
  define b where "b = rval (a * 100)"
  have y: "\<bar>a * 100\<bar> \<le> 2 ^ (k + 7)" using a(3) a1 M(1) by (simp add: power_add M_def [symmetric])
  have b: "f64_round (a * 100) = Fin b" "\<bar>b - a * 100\<bar> \<le> M * pow2 (- 46)" "0 \<le> b"
    using f64_round_near [OF y] k(3) rval_nonneg [of "a * 100"] a(3) pM [of 7] by (simp_all add: b_def)
  have b1: "b \<le> 100 * M" using rval_mono [of "a * 100" "100 * M"] exact [of 100] a1 by (simp add: b_def)
  define c where "c = rval (b + 1 / 2)"
  have z: "\<bar>b + 1 / 2\<bar> \<le> 2 ^ (k + 7)" using b(3) b1 M(1) by (simp add: power_add M_def [symmetric])
  have c: "f64_round (b + 1 / 2) = Fin c" "\<bar>c - (b + 1 / 2)\<bar> \<le> M * pow2 (- 46)" "0 \<le> c"
    using f64_round_near [OF z] k(3) rval_nonneg [of "b + 1 / 2"] b(3) pM [of 7] by (simp_all add: c_def)
  have "M * pow2 (- 46) \<le> 1" using M by (simp add: pow2_def)
  then have c1: "c \<le> 2 ^ 50" using c(2) b1 M(2) by (simp add: abs_le_iff)
  have "0 \<le> \<lfloor>c\<rfloor>" "\<lfloor>c\<rfloor> \<le> 2 ^ 50" using c(3) c1 by (simp_all add: floor_le_iff)
  then have "in_i64 \<lfloor>c\<rfloor>" unfolding in_i64_def by simp
  moreover have "trunc_rat c = \<lfloor>c\<rfloor>" using c(3) by (simp add: trunc_rat_def)
  ultimately have p: "percent_of plat (Fin (of_int r)) (Fin (of_int e)) = \<lfloor>c\<rfloor>"
    using r a(1) b(1) c(1) by (simp add: percent_of_def f_to_i64_def x_def)
  define w where "w = 100 * x + 1 / 2"
  have "a - x \<le> M * pow2 (- 53)" "x - a \<le> M * pow2 (- 53)" "b - a * 100 \<le> M * pow2 (- 46)"
      "a * 100 - b \<le> M * pow2 (- 46)" "c - (b + 1 / 2) \<le> M * pow2 (- 46)" "(b + 1 / 2) - c \<le> M * pow2 (- 46)"
    using a(2) b(2) c(2) unfolding abs_le_iff by linarith+
  then have "\<bar>c - w\<bar> \<le> M * pow2 (- 46) + M * pow2 (- 46) + 100 * (M * pow2 (- 53))"
    unfolding w_def by (intro abs_leI) linarith+
  also have "\<dots> < M / 2 ^ 44" using M(1) by (simp add: pow2_def)
  also have "\<dots> \<le> 1 / of_int (2 * r)"
  proof -
    have "M * (2 * of_int r) \<le> 2 ^ 44"
    proof (cases "2 * x \<le> 1")
      case True
      then have "M \<le> 1" using k(2) by (simp add: M_def)
      moreover have "(of_int r :: rat) \<le> 2 ^ 40"
        using assms(4) by (simp add: of_int_le_iff [of r "2 ^ 40", where 'a = rat, simplified])
      ultimately show ?thesis using M(1) r(1) mult_mono [of M 1 "2 * of_int r" "2 * 2 ^ 40"] by simp
    next
      case False
      then have "M \<le> 2 * x" using k(2) by (simp add: M_def)
      then have "M * (2 * of_int r) \<le> 2 * x * (2 * of_int r)" using r(1) by (intro mult_right_mono) simp_all
      also have "\<dots> = 4 * of_int e" using r(1) by (simp add: x_def)
      finally show ?thesis using e(2) by simp
    qed
    then show ?thesis using r(1) by (simp add: divide_le_eq pos_le_divide_eq mult.commute)
  qed
  finally have d: "\<bar>c - w\<bar> < 1 / of_int (2 * r)" .
  have wr: "w * of_int (2 * r) = of_int (200 * e + r)" using r by (simp add: w_def x_def field_simps)
  then have "w * of_int (2 * r) \<in> \<int>" by (metis Ints_of_int)
  from floor_between [OF d _ this] have f: "of_int \<lfloor>c\<rfloor> \<le> w" "w \<le> of_int \<lfloor>c\<rfloor> + 1" using assms(3) by simp_all
  have "of_int \<lfloor>c\<rfloor> * of_int (2 * r) \<le> w * of_int (2 * r)" "w * of_int (2 * r) \<le> (of_int \<lfloor>c\<rfloor> + 1) * of_int (2 * r)"
    using f r by (auto intro: mult_right_mono)
  then have "(of_int (\<lfloor>c\<rfloor> * (2 * r)) :: rat) \<le> of_int (200 * e + r)" "(of_int (200 * e + r) :: rat) \<le> of_int ((\<lfloor>c\<rfloor> + 1) * (2 * r))"
    unfolding wr by simp_all
  then have g: "\<lfloor>c\<rfloor> * (2 * r) \<le> 200 * e + r" "200 * e + r \<le> (\<lfloor>c\<rfloor> + 1) * (2 * r)" unfolding of_int_le_iff by this+
  have m: "(\<lfloor>c\<rfloor> + 1) * (2 * r) = 2 * r * \<lfloor>c\<rfloor> + 2 * r" "\<lfloor>c\<rfloor> * (2 * r) = 2 * r * \<lfloor>c\<rfloor>" by (simp_all add: algebra_simps)
  have "\<lfloor>c\<rfloor> \<le> 100" if "e \<le> r"
  proof (rule ccontr)
    assume "\<not> \<lfloor>c\<rfloor> \<le> 100"
    then have "101 * (2 * r) \<le> \<lfloor>c\<rfloor> * (2 * r)" using assms(3) by (intro mult_right_mono) simp_all
    then show False using g(1) that assms(3) by linarith
  qed
  moreover have "0 \<le> \<lfloor>c\<rfloor>" using c(3) by simp
  moreover have "\<bar>2 * r * \<lfloor>c\<rfloor> - 200 * e\<bar> \<le> r" using g unfolding m by linarith
  ultimately show ?thesis unfolding p by simp
qed


subsection \<open>What the exchange asks of its collector\<close>

text \<open>
  The exchange reads the requests and the errors of the collector and tells it of each execution; it relies on a fresh
  collector having recorded nothing and on an update being recorded in both counters. A counter is known by the two
  seconds of each increment: the one whose bucket it went to, and the one at which old buckets were dropped.
\<close>

definition ones :: "(int \<times> int) list \<Rightarrow> rolling_event list" where
  "ones rs = map (\<lambda>(s, t). (s, t, 1)) rs"

text \<open>
  How many increments a counter still shows at \<open>now\<close>: those less than ten seconds old, and those exactly ten
  seconds old unless the counter was incremented again in the current second, which dropped their bucket.
\<close>

definition still_counted :: "int \<Rightarrow> (int \<times> int) list \<Rightarrow> int" where
  "still_counted now rs =
     int (length (filter (\<lambda>(s, _). now - 10 < s \<or> s = now - 10 \<and> (\<forall>(_, t) \<in> set rs. t < now)) rs))"

lemma still_counted_recent:
  "(\<forall>(s, _) \<in> set rs. s \<noteq> now - 10) \<Longrightarrow> still_counted now rs = int (length (filter (\<lambda>(s, _). now - 10 < s) rs))"
  unfolding still_counted_def by (intro arg_cong [where f = int] arg_cong [where f = length] filter_cong) auto

lemma still_counted_bounds: "0 \<le> still_counted now rs" "still_counted now rs \<le> int (length rs)"
  by (simp_all add: still_counted_def)

lemma ones_total: "total P (stamps (ones rs)) = int (length (filter (\<lambda>(s, _). P s) rs))"
  by (induction rs) (auto simp: ones_def)

lemma ones_amount: "sum_list (map amount (ones rs)) = int (length rs)"
  by (induction rs) (auto simp: ones_def)

lemma ones_ok: "list_all (\<lambda>(_, t). in_i64 (t - 10)) rs \<Longrightarrow> list_all event_ok (ones rs)"
  by (induction rs) (auto simp: ones_def)

text \<open>The last reading is the latest.\<close>

lemma last_reading_max:
  "in_order_from a (ones rs) \<Longrightarrow> list_all (\<lambda>(_, t). t \<le> now) rs \<Longrightarrow> rs \<noteq> [] \<Longrightarrow>
   last_reading a (ones rs) \<le> now \<and> (last_reading a (ones rs) < now \<longleftrightarrow> (\<forall>(_, t) \<in> set rs. t < now))"
proof (induction rs arbitrary: a)
  case (Cons p rs)
  obtain s t where p: "p = (s, t)" by (cases p)
  show ?case
  proof (cases "rs = []")
    case False
    have o: "in_order_from t (ones rs)" using Cons.prems(1) by (simp add: p ones_def)
    have "t \<le> last_reading t (ones rs)" by (rule last_reading_ge [OF o])
    with Cons.IH [OF o _ False] Cons.prems(2) show ?thesis by (simp add: p ones_def) fastforce
  qed (use Cons.prems in \<open>simp add: p ones_def\<close>)
qed simp

lemma counter_window:
  assumes "in_order_from a (ones rs)" and "list_all (\<lambda>(_, t). t \<le> now \<and> in_i64 (t - 10)) rs" and "length rs \<le> 2 ^ 40"
    and "in_i64 (now - 10)"
  shows "Sum now (fold increment_event (ones rs) NewNumber) = Fin (of_int (still_counted now rs))"
proof -
  have ok: "list_all event_ok (ones rs)" using assms(2) by (intro ones_ok) (auto simp: list_all_iff)
  have "int (length rs) \<le> 2 ^ 53" using assms(3) by simp
  then have r: "represents (fold increment_event (ones rs) NewNumber) (fold record_event (ones rs) [])"
      "\<forall>(t, n) \<in> set (fold record_event (ones rs) []). 0 \<le> n" "total (\<lambda>_. True) (fold record_event (ones rs) []) \<le> 2 ^ 53"
    using represents_fold [OF represents_New _ ok] by (simp_all add: ones_amount)
  have l: "last_reading a (ones rs) \<le> now \<and> (last_reading a (ones rs) < now \<longleftrightarrow> (\<forall>(_, t) \<in> set rs. t < now))" if "rs \<noteq> []"
    using last_reading_max [OF assms(1) _ that, of now] assms(2) by (auto simp: list_all_iff)
  have "total (\<lambda>s. now - 10 \<le> s) (fold record_event (ones rs) [])
      = int (length (filter (\<lambda>(s, _). now - 10 \<le> s \<and> (ones rs \<noteq> [] \<longrightarrow> last_reading a (ones rs) - 10 < s)) rs))"
    using record_in_order [OF assms(1), of "[]" "\<lambda>s. now - 10 \<le> s"] by (simp add: ones_total)
  also have "filter (\<lambda>(s, _). now - 10 \<le> s \<and> (ones rs \<noteq> [] \<longrightarrow> last_reading a (ones rs) - 10 < s)) rs
      = filter (\<lambda>(s, _). now - 10 < s \<or> s = now - 10 \<and> (\<forall>(_, t) \<in> set rs. t < now)) rs"
  proof (intro filter_cong refl)
    fix p assume p: "p \<in> set rs"
    then have "rs \<noteq> []" "ones rs \<noteq> []" by (auto simp: ones_def)
    with l show "(case p of (s, _) \<Rightarrow> now - 10 \<le> s \<and> (ones rs \<noteq> [] \<longrightarrow> last_reading a (ones rs) - 10 < s))
        = (case p of (s, _) \<Rightarrow> now - 10 < s \<or> s = now - 10 \<and> (\<forall>(_, t) \<in> set rs. t < now))"
      by (cases p) auto
  qed
  finally show ?thesis using Sum_represents [OF r assms(4) refl] by (simp add: Sum_def still_counted_def)
qed

locale metric_source =
  fixes fresh :: 'd
    and upd :: "(nat \<Rightarrow> int) \<Rightarrow> metric_result \<Rightarrow> 'd \<Rightarrow> 'd"
    and requests errors :: "'d \<Rightarrow> rolling_number"
  assumes fresh_requests: "requests fresh = NewNumber"
    and fresh_errors: "errors fresh = NewNumber"
    and upd_requests: "requests (upd clk r d) = Increment (Unix (clk 0)) (Unix (clk 1)) (mr_Attempts r) (requests d)"
    and upd_errors: "errors (upd clk r d) = Increment (Unix (clk 2)) (Unix (clk 3)) (mr_Errors r) (errors d)"
begin

definition observe :: "((nat \<Rightarrow> int) \<times> metric_result) list \<Rightarrow> 'd \<Rightarrow> 'd" where
  "observe us d = fold (\<lambda>(clk, r). upd clk r) us d"

definition requested :: "((nat \<Rightarrow> int) \<times> metric_result) list \<Rightarrow> (int \<times> int) list" where
  "requested us = map (\<lambda>(clk, r). (Unix (clk 0), Unix (clk 1))) us"

definition failed :: "((nat \<Rightarrow> int) \<times> metric_result) list \<Rightarrow> (int \<times> int) list" where
  "failed us = map (\<lambda>(clk, r). (Unix (clk 2), Unix (clk 3))) (filter (\<lambda>(clk, r). mr_Errors r = Fin 1) us)"

definition plain :: "(nat \<Rightarrow> int) \<times> metric_result \<Rightarrow> bool" where
  "plain u \<longleftrightarrow> mr_Attempts (snd u) = Fin 1 \<and> mr_Errors (snd u) \<in> {Fin 0, Fin 1}"

lemma observe_requests:
  "list_all plain us \<Longrightarrow> requests (observe us d) = fold increment_event (ones (requested us)) (requests d)"
proof (induction us arbitrary: d)
  case (Cons u us)
  have "f_of_int 1 = Fin 1" using f_of_int_exact [of 1] by simp
  then show ?case using Cons
    by (cases u) (simp add: observe_def ones_def requested_def plain_def upd_requests)
qed (simp add: observe_def ones_def requested_def)

lemma observe_errors:
  "list_all plain us \<Longrightarrow> errors (observe us d) = fold increment_event (ones (failed us)) (errors d)"
proof (induction us arbitrary: d)
  case (Cons u us)
  have "f_of_int 1 = Fin 1" using f_of_int_exact [of 1] by simp
  then show ?case using Cons
    by (cases u) (auto simp: observe_def ones_def failed_def plain_def upd_errors Increment_def f_eq_def)
qed (simp add: observe_def ones_def failed_def)

lemma counts:
  assumes "list_all plain us" and "in_order_from a (ones (requested us))" "in_order_from b (ones (failed us))"
    and "list_all (\<lambda>(clk, _). \<forall>i \<in> {1, 3}. Unix (clk i) \<le> now \<and> in_i64 (Unix (clk i) - 10)) us"
    and "length us \<le> 2 ^ 40" and "in_i64 (now - 10)"
  shows "Sum now (requests (observe us fresh)) = Fin (of_int (still_counted now (requested us)))"
    and "Sum now (errors (observe us fresh)) = Fin (of_int (still_counted now (failed us)))"
proof -
  show "Sum now (requests (observe us fresh)) = Fin (of_int (still_counted now (requested us)))"
    unfolding observe_requests [OF assms(1)] fresh_requests
    by (rule counter_window [OF assms(2) _ _ assms(6)]) (use assms(4,5) in \<open>auto simp: requested_def list_all_iff\<close>)
  have "length (failed us) \<le> length us" by (simp add: failed_def)
  then have "length (failed us) \<le> 2 ^ 40" using assms(5) by (rule le_trans)
  then show "Sum now (errors (observe us fresh)) = Fin (of_int (still_counted now (failed us)))"
    unfolding observe_errors [OF assms(1)] fresh_errors
    by (intro counter_window [OF assms(3) _ _ assms(6)]) (use assms(4) in \<open>auto simp: failed_def list_all_iff\<close>)
qed

end

interpretation default_source: metric_source "collector_Reset d" collector_Update NumRequests Errors for d
  by unfold_locales (simp_all add: collector_Reset_def collector_Update_def collector_accessors inc_def)


subsection \<open>The exchange drains its queue into the collector\<close>

definition is_error :: "command_execution \<Rightarrow> bool" where
  "is_error u \<longleftrightarrow> (case ce_Types u of [] \<Rightarrow> False
     | ty # _ \<Rightarrow> ty \<in> {''failure'', ''rejected'', ''short-circuit'', ''timeout''})"

text \<open>
  A history: for each update the reading of \<open>Monitor\<close>, the readings in the goroutine of the default collector, and the
  execution. The first four readings there are those of the two counters.
\<close>

type_synonym metric_history = "(gtime \<times> (nat \<Rightarrow> int) \<times> command_execution) list"

definition updates :: "metric_history \<Rightarrow> command_execution list" where
  "updates us = map (\<lambda>(now, clk, u). u) us"

definition readings :: "metric_history \<Rightarrow> (gtime \<times> (nat \<Rightarrow> nat \<Rightarrow> int)) list" where
  "readings us = map (\<lambda>(now, clk, u). (now, \<lambda>_. clk)) us"

definition counter_readings :: "metric_history \<Rightarrow> int list" where
  "counter_readings us = concat (map (\<lambda>(now, clk, u). map clk [0, 1, 2, 3]) us)"

definition request_times :: "metric_history \<Rightarrow> (int \<times> int) list" where
  "request_times us = map (\<lambda>(now, clk, u). (Unix (clk 0), Unix (clk 1))) us"

definition error_times :: "metric_history \<Rightarrow> (int \<times> int) list" where
  "error_times us = map (\<lambda>(now, clk, u). (Unix (clk 2), Unix (clk 3))) (filter (\<lambda>(now, clk, u). is_error u) us)"

text \<open>The clock does not run backwards from one reading to the next, and stays away from the ends of \<open>int64\<close>.\<close>

definition history_ok :: "metric_history \<Rightarrow> bool" where
  "history_ok us \<longleftrightarrow> list_all (\<lambda>(now, clk, u). ce_Types u \<noteq> []) us \<and> sorted (counter_readings us) \<and>
     (\<forall>t \<in> set (counter_readings us). in_i64 (Unix t - 10)) \<and> length us \<le> 2 ^ 40"

definition results :: "metric_history \<Rightarrow> ((nat \<Rightarrow> int) \<times> metric_result) list" where
  "results us = map (\<lambda>(now, clk, u). (clk, the (result_of u (Since (ce_Start u) now)))) us"

lemma result_of_Some: "ce_Types u \<noteq> [] \<Longrightarrow> \<exists>r. result_of u d = Some r \<and> mr_Attempts r = Fin 1
    \<and> mr_Errors r \<in> {Fin 0, Fin 1} \<and> (mr_Errors r = Fin 1 \<longleftrightarrow> is_error u)"
  by (cases "ce_Types u"; cases "tl (ce_Types u)") (auto simp: result_of_def is_error_def Let_def)

lemma results_plain:
  assumes "list_all (\<lambda>(now, clk, u). ce_Types u \<noteq> []) us"
  shows "list_all default_source.plain (results us)" "default_source.requested (results us) = request_times us"
    "default_source.failed (results us) = error_times us"
proof -
  have p: "default_source.plain (clk, the (result_of u d)) \<and> (mr_Errors (the (result_of u d)) = Fin 1 \<longleftrightarrow> is_error u)"
    if "ce_Types u \<noteq> []" for clk u d
    using result_of_Some [OF that, of d] by (auto simp: default_source.plain_def)
  show "list_all default_source.plain (results us)" using assms p by (auto simp: results_def list_all_iff)
  show "default_source.requested (results us) = request_times us"
    by (simp add: default_source.requested_def results_def request_times_def split_beta comp_def)
  show "default_source.failed (results us) = error_times us"
    using assms
  proof (induction us)
    case (Cons v us)
    then show ?case using p by (cases v) (simp add: default_source.failed_def results_def error_times_def)
  qed (simp add: default_source.failed_def results_def error_times_def)
qed

lemma Monitor_drains:
  "list_all (\<lambda>(now, clk, u). ce_Types u \<noteq> []) us \<Longrightarrow> x_Updates m = updates us \<Longrightarrow> x_metricCollectors m = [DefaultMC d]
   \<Longrightarrow> Monitor ops (readings us) m
     = Some (m\<lparr>x_Updates := [], x_metricCollectors := [DefaultMC (default_source.observe (results us) d)]\<rparr>)"
proof (induction us arbitrary: m d)
  case Nil
  then show ?case by (cases m) (simp add: readings_def updates_def results_def default_source.observe_def)
next
  case (Cons v us)
  obtain now clk u where v: "v = (now, clk, u)" by (cases v)
  obtain r where r: "result_of u (Since (ce_Start u) now) = Some r" using result_of_Some [of u] Cons.prems(1) by (auto simp: v)
  define m' where "m' = m\<lparr>x_Updates := updates us, x_metricCollectors := [DefaultMC (collector_Update clk r d)]\<rparr>"
  have "Monitor_step ops now (\<lambda>_. clk) m = Some m'"
    using Cons.prems(2,3) r by (simp add: Monitor_step_def IncrementMetrics_def v m'_def updates_def)
  then have "Monitor ops (readings (v # us)) m = Monitor ops (readings us) m'" by (simp add: readings_def v)
  also have "\<dots> = Some (m'\<lparr>x_Updates := [], x_metricCollectors := [DefaultMC (default_source.observe (results us) (collector_Update clk r d))]\<rparr>)"
    using Cons.prems(1) by (intro Cons.IH) (simp_all add: m'_def)
  finally show ?case using r by (simp add: m'_def results_def v default_source.observe_def)
qed

lemma Unix_mono: "a \<le> b \<Longrightarrow> Unix a \<le> Unix b"
  by (simp add: Unix_def zdiv_mono1)

lemma in_order_from_earlier: "a \<le> b \<Longrightarrow> in_order_from b es \<Longrightarrow> in_order_from a es"
  by (cases es) auto

lemma counter_orders:
  "sorted (t0 # counter_readings us) \<Longrightarrow>
   in_order_from (Unix t0) (ones (request_times us)) \<and> in_order_from (Unix t0) (ones (error_times us))"
proof (induction us arbitrary: t0)
  case (Cons v us)
  obtain now clk u where v: "v = (now, clk, u)" by (cases v)
  have s: "t0 \<le> clk 0" "clk 0 \<le> clk 1" "clk 1 \<le> clk 2" "clk 2 \<le> clk 3" "sorted (clk 3 # counter_readings us)"
    using Cons.prems by (auto simp: counter_readings_def v)
  have "Unix t0 \<le> Unix (clk 0)" "Unix (clk 0) \<le> Unix (clk 1)" "Unix (clk 1) \<le> Unix (clk 2)" "Unix (clk 2) \<le> Unix (clk 3)"
    using s(1-4) by (simp_all add: Unix_mono)
  then show ?case
    using Cons.IH [OF s(5)] in_order_from_earlier [of _ "Unix (clk 3)"]
    by (auto simp: ones_def request_times_def error_times_def v)
qed (simp add: ones_def request_times_def error_times_def)

text \<open>An exchange that took in a history: its collector shows what its two counters still count, whenever it is asked.\<close>

lemma monitored_counts:
  assumes "history_ok us" and "m = (newMetricExchange ops default_registry name)\<lparr>x_Updates := updates us\<rparr>"
  obtains m' d where "Monitor ops (readings us) m = Some m'" "x_Updates m' = []" "x_Name m' = name" "DefaultCollector m' = Some d"
    "\<And>now. \<forall>t \<in> set (counter_readings us). Unix t \<le> now \<Longrightarrow> in_i64 (now - 10) \<Longrightarrow>
       Sum now (NumRequests d) = Fin (of_int (still_counted now (request_times us))) \<and>
       Sum now (Errors d) = Fin (of_int (still_counted now (error_times us)))"
proof -
  define d where "d = default_source.observe (results us) (collector_Reset (collector_Reset zero_collector))"
  define m' where "m' = m\<lparr>x_Updates := [], x_metricCollectors := [DefaultMC d]\<rparr>"
  have ty: "list_all (\<lambda>(now, clk, u). ce_Types u \<noteq> []) us" using assms(1) by (simp add: history_ok_def)
  have run: "Monitor ops (readings us) m = Some m'"
    unfolding m'_def d_def by (rule Monitor_drains [OF ty])
      (simp_all add: assms(2) newMetricExchange_def exchange_Reset_def InitializeMetricCollectors_def default_registry_def
        newDefaultMetricCollector_def)
  define t0 where "t0 = (case counter_readings us of [] \<Rightarrow> 0 | t # _ \<Rightarrow> t)"
  have "sorted (t0 # counter_readings us)"
    using assms(1) by (auto simp: history_ok_def t0_def split: list.split)
  note o = counter_orders [OF this]
  have bound: "list_all (\<lambda>(clk, _). \<forall>i \<in> {1, 3}. Unix (clk i) \<le> now \<and> in_i64 (Unix (clk i) - 10)) (results us)"
    if "\<forall>t \<in> set (counter_readings us). Unix t \<le> now" for now
    using that assms(1) by (fastforce simp: history_ok_def counter_readings_def results_def list_all_iff)
  have len: "length (results us) \<le> 2 ^ 40" using assms(1) by (simp add: history_ok_def results_def)
  show thesis
  proof (rule that [OF run])
    show "x_Updates m' = []" "x_Name m' = name" "DefaultCollector m' = Some d"
      by (simp_all add: m'_def assms(2) newMetricExchange_def exchange_Reset_def DefaultCollector_def)
    fix now assume now: "\<forall>t \<in> set (counter_readings us). Unix t \<le> now" "in_i64 (now - 10)"
    from default_source.counts [OF results_plain(1) [OF ty], unfolded results_plain [OF ty], OF o [THEN conjunct1]
        o [THEN conjunct2] bound [OF now(1)] len now(2)]
    show "Sum now (NumRequests d) = Fin (of_int (still_counted now (request_times us))) \<and>
       Sum now (Errors d) = Fin (of_int (still_counted now (error_times us)))"
      unfolding d_def by blast
  qed
qed

text \<open>The percentage as the nearest integer.\<close>

lemma ErrorPercent_counts:
  assumes "DefaultCollector m = Some d" and "Sum now (NumRequests d) = Fin (of_int r)" "Sum now (Errors d) = Fin (of_int e)"
    and "0 \<le> r" "r \<le> 2 ^ 40" "0 \<le> e" "e \<le> 2 ^ 40"
  obtains p where "ErrorPercent plat now m = Some p" "0 \<le> p" "e \<le> r \<longrightarrow> p \<le> 100"
    "if r = 0 then p = 0 else \<bar>2 * r * p - 200 * e\<bar> \<le> r"
proof
  define p where "p = percent_of plat (Fin (of_int r)) (Fin (of_int e))"
  show "ErrorPercent plat now m = Some p"
    using assms(1-3) by (simp add: ErrorPercent_def requestsLocked_def percent_of_def Let_def p_def)
  have v: "0 < r \<Longrightarrow> \<bar>2 * r * p - 200 * e\<bar> \<le> r \<and> 0 \<le> p \<and> (e \<le> r \<longrightarrow> p \<le> 100)"
    unfolding p_def using assms(5-7) by (intro percent_value)
  have z: "r = 0 \<Longrightarrow> p = 0" by (simp add: p_def)
  show "0 \<le> p" "e \<le> r \<longrightarrow> p \<le> 100" "if r = 0 then p = 0 else \<bar>2 * r * p - 200 * e\<bar> \<le> r"
    using v z assms(4) by (cases "r = 0"; auto)+
qed

lemma history_counts:
  assumes "history_ok us"
  shows "0 \<le> still_counted now (request_times us)" "still_counted now (request_times us) \<le> 2 ^ 40"
    "0 \<le> still_counted now (error_times us)" "still_counted now (error_times us) \<le> 2 ^ 40"
proof -
  have "length us \<le> 2 ^ 40" using assms by (simp add: history_ok_def)
  then have "int (length us) \<le> 2 ^ 40" by simp
  moreover have "length (request_times us) = length us" "length (error_times us) \<le> length us"
    by (simp_all add: request_times_def error_times_def)
  ultimately show "0 \<le> still_counted now (request_times us)" "still_counted now (request_times us) \<le> 2 ^ 40"
    "0 \<le> still_counted now (error_times us)" "still_counted now (error_times us) \<le> 2 ^ 40"
    using still_counted_bounds [of now "request_times us"] still_counted_bounds [of now "error_times us"] by linarith+
qed

subsection \<open>Properties\<close>

text \<open>
  C29: a new exchange that takes in a history of executions, on a clock that does not run backwards but may tick between
  any two readings, empties its queue into its collector without a panic. Then, with \<open>r\<close> requests and \<open>e\<close> errors that the
  two counters still count, \<open>ErrorPercent\<close> is \<open>100 * e / r\<close> to the nearest integer, and 0 when \<open>r\<close> is 0. Each counter counts
  on its own what is less than ten seconds old, and what is exactly ten seconds old unless that counter was incremented
  again in the current second; so \<open>e\<close> can exceed \<open>r\<close>, and only then can the percentage exceed 100.
\<close>

theorem error_percent_window:
  assumes "history_ok us" and "\<forall>t \<in> set (counter_readings us). Unix t \<le> now" and "in_i64 (now - 10)"
    and "r = still_counted now (request_times us)" and "e = still_counted now (error_times us)"
  shows "\<exists>m p. Monitor ops (readings us) ((newMetricExchange ops default_registry name)\<lparr>x_Updates := updates us\<rparr>) = Some m
    \<and> x_Updates m = [] \<and> ErrorPercent plat now m = Some p
    \<and> 0 \<le> p \<and> (if r = 0 then p = 0 else \<bar>2 * r * p - 200 * e\<bar> \<le> r) \<and> (e \<le> r \<longrightarrow> p \<le> 100)"
proof -
  obtain m d where m: "Monitor ops (readings us) ((newMetricExchange ops default_registry name)\<lparr>x_Updates := updates us\<rparr>) = Some m"
      "x_Updates m = []" "DefaultCollector m = Some d" "Sum now (NumRequests d) = Fin (of_int r)" "Sum now (Errors d) = Fin (of_int e)"
    using monitored_counts [OF assms(1) refl, of ops name] assms(2-5) by metis
  obtain p where "ErrorPercent plat now m = Some p" "0 \<le> p" "e \<le> r \<longrightarrow> p \<le> 100"
      "if r = 0 then p = 0 else \<bar>2 * r * p - 200 * e\<bar> \<le> r"
    using ErrorPercent_counts [OF m(3-5), of plat] history_counts [OF assms(1), of now, folded assms(4,5)] by blast
  with m(1,2) show ?thesis by blast
qed

definition no_methods :: "unit collector_methods" where
  "no_methods = \<lparr>cm_Update = \<lambda>_ c. c, cm_Reset = \<lambda>c. c\<rparr>"

definition execution :: "string list \<Rightarrow> command_execution" where
  "execution tys = \<lparr>ce_Types = tys, ce_Start = zero_time\<lparr>tmono := Some 0\<rparr>, ce_RunDuration = 0, ce_ConcurrencyInUse = Fin 0\<rparr>"

definition executed :: "int \<Rightarrow> string list \<Rightarrow> gtime \<times> (nat \<Rightarrow> int) \<times> command_execution" where
  "executed s tys = (zero_time\<lparr>tmono := Some 0\<rparr>, \<lambda>_. s * 1000000000, execution tys)"

text \<open>One execution exactly ten seconds old, and nothing since in the current second: it still counts.\<close>

definition demo_history :: metric_history where
  "demo_history = [executed 90 [''timeout''], executed 100 [''failure'', ''fallback-success''], executed 104 [''success'']]"

lemma demo_history_facts:
  "history_ok demo_history" "\<forall>t \<in> set (counter_readings demo_history). Unix t \<le> 110"
  "still_counted 110 (request_times demo_history) = 2" "still_counted 110 (error_times demo_history) = 1"
  by (simp_all add: demo_history_def history_ok_def counter_readings_def executed_def execution_def Unix_def in_i64_def
      still_counted_def request_times_def error_times_def is_error_def)

lemma error_percent_window_witness:
  "\<exists>m p. Monitor no_methods (readings demo_history)
        ((newMetricExchange no_methods default_registry ''c'')\<lparr>x_Updates := updates demo_history\<rparr>) = Some m
    \<and> ErrorPercent amd64_cvt 110 m = Some p \<and> \<bar>4 * p - 200\<bar> \<le> 2"
  using error_percent_window [OF demo_history_facts(1,2) _ demo_history_facts(3,4) [symmetric], of no_methods "''c''" amd64_cvt]
  by (auto simp: in_i64_def)

text \<open>The percentage can leave 0 to 100: after three errors in one second and one success exactly ten seconds later, the
  success drops the requests of the first second but not its errors, and \<open>ErrorPercent\<close> is 300.\<close>

theorem error_percent_over_100:
  "(let us = [executed 100 [''failure''], executed 100 [''failure''], executed 100 [''timeout''], executed 110 [''success'']]
    in do { m \<leftarrow> Monitor no_methods (readings us)
              ((newMetricExchange no_methods default_registry ''c'')\<lparr>x_Updates := updates us\<rparr>);
            ErrorPercent amd64_cvt 110 m }) = Some 300"
  by code_simp

text \<open>With 99 errors in 200 requests, 49.5 percent, a circuit with a threshold of 50 percent is unhealthy.\<close>

lemma unhealthy_below_threshold:
  "map_option fst (IsHealthy amd64_cvt 110 Map.empty
     \<lparr>x_Name = ''c'', x_Updates = [], x_metricCollectors = [DefaultMC (zero_collector
        \<lparr>d_numRequests := \<lparr>r_Buckets = [(105, Fin 200)]\<rparr>, d_errors := \<lparr>r_Buckets = [(105, Fin 99)]\<rparr>\<rparr>) :: unit metric_collector]\<rparr>) = Some False"
proof -
  have "ErrorPercent amd64_cvt 110
     \<lparr>x_Name = ''c'', x_Updates = [], x_metricCollectors = [DefaultMC (zero_collector
        \<lparr>d_numRequests := \<lparr>r_Buckets = [(105, Fin 200)]\<rparr>, d_errors := \<lparr>r_Buckets = [(105, Fin 99)]\<rparr>\<rparr>) :: unit metric_collector]\<rparr> = Some 50"
    by code_simp
  then show ?thesis by (simp add: IsHealthy_def getSettings_alt default_of_def)
qed

end
