(* ===== verification/HystrixPool.thy ===== *)
theory HystrixPool
  imports HystrixMetrics
begin

text \<open>
  The executor pool of a circuit (pool.go) and its metrics (pool_metrics.go). The tickets are pointers to zero-size
  values; here each has a number of its own, so that a ticket returned twice can be told from two tickets. The channel of
  the pool's metrics has no buffer: a send hands its update to the goroutine of \<open>Monitor\<close>, which must be waiting
  (\<open>pm_Received\<close> is the update it works on).
\<close>

record pool_metrics =
  pm_Name :: string
  pm_Received :: "int option"
  pm_MaxActiveRequests :: rolling_number
  pm_Executed :: rolling_number

definition poolMetrics_Reset :: "pool_metrics \<Rightarrow> pool_metrics" where
  "poolMetrics_Reset m = m\<lparr>pm_MaxActiveRequests := NewNumber, pm_Executed := NewNumber\<rparr>"

definition newPoolMetrics :: "string \<Rightarrow> pool_metrics" where
  "newPoolMetrics name = poolMetrics_Reset \<lparr>pm_Name = name, pm_Received = None, pm_MaxActiveRequests = NewNumber, pm_Executed = NewNumber\<rparr>"

text \<open>The send blocks (\<open>None\<close>) while the monitor works on an earlier update.\<close>

definition send_update :: "int \<Rightarrow> pool_metrics \<Rightarrow> pool_metrics option" where
  "send_update activeCount m = (if pm_Received m = None then Some (m\<lparr>pm_Received := Some activeCount\<rparr>) else None)"

text \<open>The body of the loop of \<open>Monitor\<close>, with the readings of the clock in seconds.\<close>

definition poolMonitor_step :: "(nat \<Rightarrow> int) \<Rightarrow> pool_metrics \<Rightarrow> pool_metrics" where
  "poolMonitor_step clk m =
     (case pm_Received m of
        None \<Rightarrow> m
      | Some activeCount \<Rightarrow>
          m\<lparr>pm_Executed := Increment (clk 0) (clk 1) (Fin 1) (pm_Executed m),
            pm_MaxActiveRequests := UpdateMax (clk 2) (clk 3) (f_of_int activeCount) (pm_MaxActiveRequests m),
            pm_Received := None\<rparr>)"

record executor_pool =
  p_Name :: string
  p_Metrics :: pool_metrics
  p_Max :: int
  p_Tickets :: "nat list"

text \<open>\<open>make(chan, Max)\<close> panics for a negative capacity. The loop that fills the channel adds one ticket a turn.\<close>

definition newExecutorPool :: "string \<Rightarrow> settings_map \<Rightarrow> (executor_pool \<times> settings_map) option" where
  "newExecutorPool name sm =
     (let (s, sm) = getSettings name sm; mx = s_MaxConcurrentRequests s
      in if mx < 0 then None
         else Some (\<lparr>p_Name = name, p_Metrics = newPoolMetrics name, p_Max = mx,
                     p_Tickets = fold (\<lambda>i ts. ts @ [i]) [0 ..< nat mx] []\<rparr>, sm))"

definition ActiveCount :: "executor_pool \<Rightarrow> int" where
  "ActiveCount p = i64 (p_Max p - int (length (p_Tickets p)))"

text \<open>
  \<open>Return\<close> in its two steps: the send of the active count, and the send of the ticket, which blocks when the channel is
  full. A nil ticket is not returned.
\<close>

definition Return_report :: "executor_pool \<Rightarrow> executor_pool option" where
  "Return_report p = do { m \<leftarrow> send_update (ActiveCount p) (p_Metrics p); Some (p\<lparr>p_Metrics := m\<rparr>) }"

definition Return_ticket :: "nat \<Rightarrow> executor_pool \<Rightarrow> executor_pool option" where
  "Return_ticket t p = (if int (length (p_Tickets p)) < p_Max p then Some (p\<lparr>p_Tickets := p_Tickets p @ [t]\<rparr>) else None)"

definition Return :: "nat option \<Rightarrow> executor_pool \<Rightarrow> executor_pool option" where
  "Return ticket p =
     (case ticket of
        None \<Rightarrow> Some p
      | Some t \<Rightarrow> do { p \<leftarrow> Return_report p; Return_ticket t p })"

text \<open>The receive of \<open>GoC\<close>: a ticket, or the default case when the channel is empty.\<close>

definition take_ticket :: "executor_pool \<Rightarrow> nat option \<times> executor_pool" where
  "take_ticket p =
     (case p_Tickets p of
        [] \<Rightarrow> (None, p)
      | t # ts \<Rightarrow> (Some t, p\<lparr>p_Tickets := ts\<rparr>))"

subsection \<open>Lemmas\<close>

lemma fold_snoc: "fold (\<lambda>i ts. ts @ [i]) xs ys = ys @ xs"
  by (induction xs arbitrary: ys) simp_all

text \<open>Tickets are never in the channel twice, and the channel never exceeds its capacity.\<close>

definition pool_ok :: "executor_pool \<Rightarrow> bool" where
  "pool_ok p \<longleftrightarrow> 0 \<le> p_Max p \<and> distinct (p_Tickets p) \<and> set (p_Tickets p) \<subseteq> {..< nat (p_Max p)}"

lemma newExecutorPool_ok:
  "newExecutorPool name sm = Some (p, sm') \<Longrightarrow>
   pool_ok p \<and> p_Max p = s_MaxConcurrentRequests (fst (getSettings name sm)) \<and> p_Tickets p = [0 ..< nat (p_Max p)]
   \<and> sm' = snd (getSettings name sm)"
  by (auto simp: newExecutorPool_def pool_ok_def fold_snoc Let_def split: prod.splits if_splits)

lemma take_ticket_ok: "pool_ok p \<Longrightarrow> pool_ok (snd (take_ticket p))"
  by (auto simp: take_ticket_def pool_ok_def split: list.splits)

lemma pool_ok_length: "pool_ok p \<Longrightarrow> int (length (p_Tickets p)) \<le> p_Max p"
proof -
  assume p: "pool_ok p"
  then have "length (p_Tickets p) = card (set (p_Tickets p))" by (simp add: pool_ok_def distinct_card)
  also have "\<dots> \<le> card {..< nat (p_Max p)}" using p by (intro card_mono) (simp_all add: pool_ok_def)
  finally show ?thesis using p by (simp add: pool_ok_def le_nat_iff)
qed

text \<open>A ticket that is out always finds room, so \<open>Return\<close> never blocks on the ticket channel.\<close>

lemma Return_ticket_room:
  assumes "pool_ok p" and "t < nat (p_Max p)" and "t \<notin> set (p_Tickets p)"
  shows "Return_ticket t p = Some (p\<lparr>p_Tickets := p_Tickets p @ [t]\<rparr>)" and "pool_ok (p\<lparr>p_Tickets := p_Tickets p @ [t]\<rparr>)"
proof -
  have ok: "pool_ok (p\<lparr>p_Tickets := p_Tickets p @ [t]\<rparr>)" using assms by (auto simp: pool_ok_def)
  then show "pool_ok (p\<lparr>p_Tickets := p_Tickets p @ [t]\<rparr>)" .
  from pool_ok_length [OF ok] show "Return_ticket t p = Some (p\<lparr>p_Tickets := p_Tickets p @ [t]\<rparr>)"
    by (simp add: Return_ticket_def)
qed

subsection \<open>Tickets and their holders\<close>

text \<open>
  \<open>m\<close> tickets, those in the channel and those the holders \<open>h\<close> have: each is in exactly one place.
\<close>

definition owners_ok :: "nat \<Rightarrow> nat list \<Rightarrow> (nat \<Rightarrow> nat option) \<Rightarrow> bool" where
  "owners_ok m ts h \<longleftrightarrow> distinct ts \<and> (\<forall>t. t < m \<longleftrightarrow> t \<in> set ts \<or> (\<exists>i. h i = Some t)) \<and> (\<forall>i t. h i = Some t \<longrightarrow> t \<notin> set ts)
     \<and> (\<forall>i j t. h i = Some t \<longrightarrow> h j = Some t \<longrightarrow> i = j)"

lemma owners_take:
  assumes "owners_ok m (t # ts) h" and "h i = None"
  shows "owners_ok m ts (h(i := Some t))"
proof -
  have "(\<exists>j. (h(i := Some t)) j = Some x) \<longleftrightarrow> x = t \<or> (\<exists>j. h j = Some x)" for x
    using assms(2) by (metis fun_upd_apply option.distinct(1) option.inject)
  then show ?thesis using assms unfolding owners_ok_def by (auto split: if_splits)
qed

lemma owners_put:
  assumes "owners_ok m ts h" and "h i = Some t"
  shows "owners_ok m (ts @ [t]) (h(i := None))"
proof -
  have u: "h j = Some t \<Longrightarrow> j = i" for j using assms unfolding owners_ok_def by blast
  have "(\<exists>j. (h(i := None)) j = Some x) \<longleftrightarrow> x \<noteq> t \<and> (\<exists>j. h j = Some x)" for x
  proof
    assume "\<exists>j. (h(i := None)) j = Some x"
    then obtain j where "j \<noteq> i" "h j = Some x" by (auto split: if_splits)
    then show "x \<noteq> t \<and> (\<exists>j. h j = Some x)" using u by blast
  next
    assume "x \<noteq> t \<and> (\<exists>j. h j = Some x)"
    then obtain j where "h j = Some x" "x \<noteq> t" by blast
    then have "(h(i := None)) j = Some x" using assms(2) by auto
    then show "\<exists>j. (h(i := None)) j = Some x" ..
  qed
  moreover have "t \<notin> set ts" "t < m" using assms unfolding owners_ok_def by blast+
  ultimately show ?thesis using assms(1) u unfolding owners_ok_def by (auto split: if_splits)
qed

lemma owners_count:
  assumes "owners_ok m ts h"
  shows "finite {i. h i \<noteq> None} \<and> length ts + card {i. h i \<noteq> None} = m"
proof -
  have inj: "inj_on (\<lambda>i. the (h i)) {i. h i \<noteq> None}" using assms by (auto simp: inj_on_def owners_ok_def)
  have img: "(\<lambda>i. the (h i)) ` {i. h i \<noteq> None} = {..< m} - set ts" using assms by (force simp: owners_ok_def image_iff)
  have fin: "finite {i. h i \<noteq> None}" using inj img by (metis finite_Diff finite_lessThan finite_imageD)
  have sub: "set ts \<subseteq> {..< m}" using assms by (auto simp: owners_ok_def)
  have "card {i. h i \<noteq> None} = card ({..< m} - set ts)" using card_image [OF inj] img by simp
  also have "\<dots> = m - card (set ts)" using sub by (simp add: card_Diff_subset)
  also have "card (set ts) = length ts" using assms by (simp add: owners_ok_def distinct_card)
  finally show ?thesis using fin sub assms card_mono [OF finite_lessThan sub] by (simp add: owners_ok_def distinct_card)
qed

text \<open>What an execution asks of its pool: the channel of tickets is a queue that gives its first ticket and takes one back as long
  as it is not full.\<close>

locale ticket_pool =
  fixes cap :: "'p \<Rightarrow> int" and free :: "'p \<Rightarrow> nat list" and take1 :: "'p \<Rightarrow> nat option \<times> 'p" and give :: "nat \<Rightarrow> 'p \<Rightarrow> 'p option"
  assumes take_some: "take1 p = (Some t, p') \<Longrightarrow> free p = t # free p' \<and> cap p' = cap p"
    and take_none: "take1 p = (None, p') \<Longrightarrow> free p = [] \<and> p' = p"
    and give_some: "give t p = Some p' \<Longrightarrow> free p' = free p @ [t] \<and> cap p' = cap p"
    and give_room: "int (length (free p)) < cap p \<Longrightarrow> \<exists>p'. give t p = Some p'"
begin

definition conserved :: "'p \<Rightarrow> (nat \<Rightarrow> nat option) \<Rightarrow> bool" where
  "conserved p h \<longleftrightarrow> 0 \<le> cap p \<and> owners_ok (nat (cap p)) (free p) h"

lemma conserved_take: "conserved p h \<Longrightarrow> take1 p = (Some t, p') \<Longrightarrow> h i = None \<Longrightarrow> conserved p' (h(i := Some t))"
  using take_some [of p t p'] by (simp add: conserved_def owners_take)

lemma conserved_give: "conserved p h \<Longrightarrow> give t p = Some p' \<Longrightarrow> h i = Some t \<Longrightarrow> conserved p' (h(i := None))"
  using give_some [of t p p'] by (simp add: conserved_def owners_put)

lemma conserved_count: "conserved p h \<Longrightarrow> finite {i. h i \<noteq> None} \<and> int (length (free p)) + int (card {i. h i \<noteq> None}) = cap p"
  using owners_count [of "nat (cap p)" "free p" h] by (auto simp: conserved_def)

text \<open>Who holds a ticket never waits to give it back.\<close>

lemma holder_can_give: "conserved p h \<Longrightarrow> h i = Some t \<Longrightarrow> \<exists>p'. give t p = Some p'"
proof -
  assume c: "conserved p h" and i: "h i = Some t"
  have "card {i. h i \<noteq> None} \<noteq> 0" using conserved_count [OF c] i by auto
  then show ?thesis using conserved_count [OF c] by (intro give_room) linarith
qed

text \<open>When there is no ticket to take, the holders have all of them.\<close>

lemma none_left: "conserved p h \<Longrightarrow> take1 p = (None, p') \<Longrightarrow> int (card {i. h i \<noteq> None}) = cap p"
  using conserved_count [of p h] take_none [of p p'] by auto

end

interpretation tickets: ticket_pool p_Max p_Tickets take_ticket Return_ticket
  by unfold_locales (auto simp: take_ticket_def Return_ticket_def split: list.splits if_splits)

end
