(* ===== verification/HystrixCircuit.thy ===== *)
theory HystrixCircuit
  imports HystrixPool "HOL-Library.AList"
begin

text \<open>
  Circuit breakers (circuit.go). Circuits are shared through pointers, so they live in a store from addresses to
  circuits, and the package's map takes a name to an address. A method that returns at once is a function of the circuit;
  the readings of the clock it makes are arguments in nanoseconds since 1970. \<open>None\<close> is a panic. The methods that race
  with each other without a lock around the whole (\<open>GetCircuit\<close>, \<open>allowSingleTest\<close>) are given in their atomic parts, and
  step relations below interleave the parts.
\<close>

subsection \<open>Data\<close>

datatype go_error = CircuitError string | FmtError string | ContextCanceledErr | DeadlineExceededErr | UserError string

record 'c circuit =
  c_Name :: string
  c_open :: bool
  c_forceOpen :: bool
  c_openedOrLastTestedTime :: int
  c_executorPool :: executor_pool
  c_metrics :: "'c metric_exchange"

record 'c world =
  w_settings :: settings_map
  w_registry :: "'c registry"
  w_circuitBreakers :: "(string \<times> nat) list"
  w_heap :: "'c circuit list"

definition f_to_u64 :: "(f64 \<Rightarrow> int) \<Rightarrow> f64 \<Rightarrow> int" where
  "f_to_u64 plat x =
     (case x of Fin a \<Rightarrow> (if 0 \<le> trunc_rat a \<and> trunc_rat a < 2 ^ 64 then trunc_rat a else plat x)
      | _ \<Rightarrow> plat x)"

subsection \<open>The circuits of the package\<close>

definition newCircuitBreaker ::
    "'c collector_methods \<Rightarrow> 'c registry \<Rightarrow> string \<Rightarrow> settings_map \<Rightarrow> ('c circuit \<times> settings_map) option" where
  "newCircuitBreaker ops reg name sm =
     do { (p, sm) \<leftarrow> newExecutorPool name sm;
          Some (\<lparr>c_Name = name, c_open = False, c_forceOpen = False, c_openedOrLastTestedTime = 0, c_executorPool = p,
                 c_metrics = newMetricExchange ops reg name\<rparr>, sm) }"

text \<open>The part of \<open>GetCircuit\<close> under the read lock, and the part under the write lock with its second check.\<close>

definition GetCircuit_lookup :: "string \<Rightarrow> 'c world \<Rightarrow> nat option" where
  "GetCircuit_lookup name w = map_of (w_circuitBreakers w) name"

definition GetCircuit_create :: "'c collector_methods \<Rightarrow> string \<Rightarrow> 'c world \<Rightarrow> ((nat \<times> bool) \<times> 'c world) option" where
  "GetCircuit_create ops name w =
     (case map_of (w_circuitBreakers w) name of
        Some cb \<Rightarrow> Some ((cb, False), w)
      | None \<Rightarrow>
          do { (c, sm) \<leftarrow> newCircuitBreaker ops (w_registry w) name (w_settings w);
               let cb = length (w_heap w);
               Some ((cb, True), w\<lparr>w_settings := sm, w_heap := w_heap w @ [c],
                                    w_circuitBreakers := w_circuitBreakers w @ [(name, cb)]\<rparr>) })"

definition GetCircuit :: "'c collector_methods \<Rightarrow> string \<Rightarrow> 'c world \<Rightarrow> ((nat \<times> bool) \<times> 'c world) option" where
  "GetCircuit ops name w =
     (case GetCircuit_lookup name w of
        Some cb \<Rightarrow> Some ((cb, False), w)
      | None \<Rightarrow> GetCircuit_create ops name w)"

definition flush_circuit :: "'c collector_methods \<Rightarrow> 'c circuit \<Rightarrow> 'c circuit" where
  "flush_circuit ops cb =
     cb\<lparr>c_metrics := exchange_Reset ops (c_metrics cb),
        c_executorPool := (c_executorPool cb)\<lparr>p_Metrics := poolMetrics_Reset (p_Metrics (c_executorPool cb))\<rparr>\<rparr>"

definition Flush :: "'c collector_methods \<Rightarrow> 'c world \<Rightarrow> 'c world" where
  "Flush ops w =
     fold (\<lambda>(name, cb) w. w\<lparr>w_heap := (w_heap w)[cb := flush_circuit ops (w_heap w ! cb)],
                             w_circuitBreakers := AList.delete name (w_circuitBreakers w)\<rparr>)
       (w_circuitBreakers w) w"

definition toggleForceOpen :: "'c collector_methods \<Rightarrow> bool \<Rightarrow> nat \<Rightarrow> 'c world \<Rightarrow> 'c world option" where
  "toggleForceOpen ops toggle cb w =
     do { ((cb, created), w) \<leftarrow> GetCircuit ops (c_Name (w_heap w ! cb)) w;
          Some (w\<lparr>w_heap := (w_heap w)[cb := (w_heap w ! cb)\<lparr>c_forceOpen := toggle\<rparr>]\<rparr>) }"

subsection \<open>Opening and closing\<close>

definition setOpen :: "int \<Rightarrow> 'c circuit \<Rightarrow> 'c circuit" where
  "setOpen now circuit =
     (if c_open circuit then circuit
      else circuit\<lparr>c_openedOrLastTestedTime := UnixNano now, c_open := True\<rparr>)"

definition setClose :: "'c collector_methods \<Rightarrow> 'c circuit \<Rightarrow> 'c circuit" where
  "setClose ops circuit =
     (if \<not> c_open circuit then circuit
      else circuit\<lparr>c_open := False, c_metrics := exchange_Reset ops (c_metrics circuit)\<rparr>)"

definition IsOpen ::
    "(f64 \<Rightarrow> int) \<Rightarrow> int \<Rightarrow> int \<Rightarrow> int \<Rightarrow> settings_map \<Rightarrow> 'c circuit \<Rightarrow> (bool \<times> settings_map \<times> 'c circuit) option" where
  "IsOpen plat now1 now2 now3 sm circuit =
     (let opn = c_forceOpen circuit \<or> c_open circuit
      in if opn then Some (True, sm, circuit)
         else
           do { q \<leftarrow> Requests (c_metrics circuit);
                let (s, sm) = getSettings (c_Name circuit) sm;
                if f_to_u64 plat (Sum (Unix now1) q) < s_RequestVolumeThreshold s then Some (False, sm, circuit)
                else
                  do { (healthy, sm) \<leftarrow> IsHealthy plat (Unix now2) sm (c_metrics circuit);
                       if \<not> healthy then Some (True, sm, setOpen now3 circuit)
                       else Some (False, sm, circuit) } })"

text \<open>The test of \<open>allowSingleTest\<close> on the reading and the time it loaded, and its compare-and-swap.\<close>

definition test_due :: "int \<Rightarrow> int \<Rightarrow> settings_map \<Rightarrow> 'c circuit \<Rightarrow> bool" where
  "test_due now openedOrLastTestedTime sm circuit \<longleftrightarrow>
     c_open circuit \<and> now > i64 (openedOrLastTestedTime + s_SleepWindow (fst (getSettings (c_Name circuit) sm)))"

definition swap_time :: "int \<Rightarrow> int \<Rightarrow> 'c circuit \<Rightarrow> bool \<times> 'c circuit" where
  "swap_time old new circuit =
     (if c_openedOrLastTestedTime circuit = old then (True, circuit\<lparr>c_openedOrLastTestedTime := new\<rparr>) else (False, circuit))"

definition allowSingleTest :: "int \<Rightarrow> settings_map \<Rightarrow> 'c circuit \<Rightarrow> bool \<times> settings_map \<times> 'c circuit" where
  "allowSingleTest now sm circuit =
     (let now = UnixNano now; openedOrLastTestedTime = c_openedOrLastTestedTime circuit;
          sm' = (if c_open circuit then snd (getSettings (c_Name circuit) sm) else sm)
      in if test_due now openedOrLastTestedTime sm circuit
         then (let (swapped, circuit) = swap_time openedOrLastTestedTime now circuit in (swapped, sm', circuit))
         else (False, sm', circuit))"

definition AllowRequest ::
    "(f64 \<Rightarrow> int) \<Rightarrow> (nat \<Rightarrow> int) \<Rightarrow> settings_map \<Rightarrow> 'c circuit \<Rightarrow> (bool \<times> settings_map \<times> 'c circuit) option" where
  "AllowRequest plat clk sm circuit =
     do { (opn, sm, circuit) \<leftarrow> IsOpen plat (clk 0) (clk 1) (clk 2) sm circuit;
          if \<not> opn then Some (True, sm, circuit)
          else Some (allowSingleTest (clk 3) sm circuit) }"

definition ReportEvent ::
    "'c collector_methods \<Rightarrow> string list \<Rightarrow> gtime \<Rightarrow> int \<Rightarrow> 'c circuit \<Rightarrow> go_error option \<times> 'c circuit" where
  "ReportEvent ops eventTypes start runDuration circuit =
     (case eventTypes of
        [] \<Rightarrow> (Some (FmtError ''no event types sent for metrics''), circuit)
      | ty # _ \<Rightarrow>
          (let opn = c_open circuit;
               circuit = (if ty = ''success'' \<and> opn then setClose ops circuit else circuit);
               pool = c_executorPool circuit;
               concurrencyInUse = (if p_Max pool > 0 then f_div (f_of_int (ActiveCount pool)) (f_of_int (p_Max pool)) else Fin 0);
               m = c_metrics circuit
           in if length (x_Updates m) < updates_capacity
              then (None, circuit\<lparr>c_metrics := m\<lparr>x_Updates := x_Updates m @
                      [\<lparr>ce_Types = eventTypes, ce_Start = start, ce_RunDuration = runDuration,
                        ce_ConcurrencyInUse = concurrencyInUse\<rparr>]\<rparr>\<rparr>)
              else (Some (CircuitError (''metrics channel ('' @ c_Name circuit @ '') is at capacity'')), circuit)))"

subsection \<open>Single tests under interleaving\<close>

text \<open>
  Any number of goroutines run \<open>allowSingleTest\<close> on one circuit: each takes the read lock and reads the clock, then
  loads the time of the last test, then tries the swap and gives the lock back. \<open>setOpen\<close> and \<open>setClose\<close> need the write
  lock, so all goroutines must be outside. Everything else may happen at any time. The log has the newest event first.
\<close>

datatype test_pc = TOutside | TNow int | TLoaded int int

datatype test_event = Opened int | Tested int

record 'c test_state =
  ts_circuit :: "'c circuit"
  ts_clock :: int
  ts_pc :: "nat \<Rightarrow> test_pc"
  ts_log :: "test_event list"

inductive test_step :: "'c collector_methods \<Rightarrow> settings_map \<Rightarrow> 'c test_state \<Rightarrow> 'c test_state \<Rightarrow> bool" for ops sm where
  test_tick: "0 \<le> t \<Longrightarrow> test_step ops sm s (s\<lparr>ts_clock := ts_clock s + t\<rparr>)"
| test_now: "ts_pc s i = TOutside \<Longrightarrow> test_step ops sm s (s\<lparr>ts_pc := (ts_pc s)(i := TNow (UnixNano (ts_clock s)))\<rparr>)"
| test_load: "ts_pc s i = TNow now \<Longrightarrow> old = c_openedOrLastTestedTime (ts_circuit s) \<Longrightarrow>
    test_step ops sm s
      (s\<lparr>ts_pc := (ts_pc s)(i := if test_due now old sm (ts_circuit s) then TLoaded now old else TOutside)\<rparr>)"
| test_swap: "ts_pc s i = TLoaded now old \<Longrightarrow> swap_time old now (ts_circuit s) = (swapped, c) \<Longrightarrow>
    test_step ops sm s
      (s\<lparr>ts_circuit := c, ts_pc := (ts_pc s)(i := TOutside), ts_log := (if swapped then Tested now # ts_log s else ts_log s)\<rparr>)"
| test_open: "(\<And>i. ts_pc s i = TOutside) \<Longrightarrow> c = setOpen (ts_clock s) (ts_circuit s) \<Longrightarrow>
    test_step ops sm s
      (s\<lparr>ts_circuit := c, ts_log := (if c_open (ts_circuit s) then ts_log s else Opened (UnixNano (ts_clock s)) # ts_log s)\<rparr>)"
| test_close: "(\<And>i. ts_pc s i = TOutside) \<Longrightarrow> test_step ops sm s (s\<lparr>ts_circuit := setClose ops (ts_circuit s)\<rparr>)"
| test_other: "c_Name c = c_Name (ts_circuit s) \<Longrightarrow> c_open c = c_open (ts_circuit s) \<Longrightarrow>
    c_openedOrLastTestedTime c = c_openedOrLastTestedTime (ts_circuit s) \<Longrightarrow> test_step ops sm s (s\<lparr>ts_circuit := c\<rparr>)"

inductive_cases test_stepE: "test_step ops sm s s'"

inductive test_reach :: "'c collector_methods \<Rightarrow> settings_map \<Rightarrow> 'c test_state \<Rightarrow> 'c test_state \<Rightarrow> bool" for ops sm s0 where
  test_refl: "test_reach ops sm s0 s0"
| test_more: "test_reach ops sm s0 s \<Longrightarrow> test_step ops sm s s' \<Longrightarrow> test_reach ops sm s0 s'"

fun event_time :: "test_event \<Rightarrow> int" where
  "event_time (Opened t) = t"
| "event_time (Tested t) = t"

text \<open>Every test comes more than a window after the event before it, the opening or the last test.\<close>

fun spaced :: "int \<Rightarrow> test_event list \<Rightarrow> bool" where
  "spaced w [] = True"
| "spaced w (Opened t # evs) \<longleftrightarrow> (case evs of [] \<Rightarrow> True | e # _ \<Rightarrow> event_time e \<le> t) \<and> spaced w evs"
| "spaced w (Tested t # evs) \<longleftrightarrow> (case evs of [] \<Rightarrow> False | e # _ \<Rightarrow> event_time e + w < t) \<and> spaced w evs"

text \<open>The circuit holds the time of the last event.\<close>

fun logged :: "bool \<Rightarrow> int \<Rightarrow> test_event list \<Rightarrow> bool" where
  "logged opn t [] \<longleftrightarrow> \<not> opn \<and> t = 0"
| "logged opn t (e # _) \<longleftrightarrow> t = event_time e"

definition test_start :: "'c test_state \<Rightarrow> bool" where
  "test_start s \<longleftrightarrow> \<not> c_open (ts_circuit s) \<and> c_openedOrLastTestedTime (ts_circuit s) = 0 \<and> 0 \<le> ts_clock s
     \<and> (\<forall>i. ts_pc s i = TOutside) \<and> ts_log s = []"

fun pc_ok :: "int \<Rightarrow> int \<Rightarrow> bool \<Rightarrow> test_pc \<Rightarrow> bool" where
  "pc_ok w clock opn TOutside = True"
| "pc_ok w clock opn (TNow n) \<longleftrightarrow> 0 \<le> n \<and> n \<le> clock"
| "pc_ok w clock opn (TLoaded n old) \<longleftrightarrow> opn \<and> 0 \<le> old \<and> old + w < n \<and> n \<le> clock"

definition test_inv :: "settings_map \<Rightarrow> 'c test_state \<Rightarrow> bool" where
  "test_inv sm s \<longleftrightarrow>
     (let c = ts_circuit s; w = s_SleepWindow (fst (getSettings (c_Name c) sm))
      in 0 \<le> c_openedOrLastTestedTime c \<and> c_openedOrLastTestedTime c \<le> ts_clock s
         \<and> (\<forall>i. pc_ok w (ts_clock s) (c_open c) (ts_pc s i)) \<and> spaced w (ts_log s)
         \<and> logged (c_open c) (c_openedOrLastTestedTime c) (ts_log s))"

lemma pc_ok_later: "pc_ok w clock opn pc \<Longrightarrow> clock \<le> clock' \<Longrightarrow> pc_ok w clock' opn pc"
  by (cases pc) auto

lemma setOpen_simps [simp]:
  "c_open (setOpen now c)" "c_Name (setOpen now c) = c_Name c"
  "c_openedOrLastTestedTime (setOpen now c) = (if c_open c then c_openedOrLastTestedTime c else UnixNano now)"
  by (simp_all add: setOpen_def)

lemma setClose_simps [simp]:
  "\<not> c_open (setClose ops c)" "c_Name (setClose ops c) = c_Name c"
  "c_openedOrLastTestedTime (setClose ops c) = c_openedOrLastTestedTime c"
  by (simp_all add: setClose_def)

lemma test_step_window:
  assumes "test_step ops sm s s'"
  shows "c_Name (ts_circuit s') = c_Name (ts_circuit s)" and "ts_clock s \<le> ts_clock s'"
  using assms by (induction rule: test_step.induct) (auto simp: swap_time_def split: if_splits)

lemma test_step_inv:
  assumes "test_step ops sm s s'" and inv: "test_inv sm s" and "0 \<le> s_SleepWindow (fst (getSettings (c_Name (ts_circuit s)) sm))"
    and "ts_clock s + s_SleepWindow (fst (getSettings (c_Name (ts_circuit s)) sm)) < 2 ^ 63"
  shows "test_inv sm s'"
proof -
  define c w where "c = ts_circuit s" and "w = s_SleepWindow (fst (getSettings (c_Name c) sm))"
  have w: "0 \<le> w" "ts_clock s + w < 2 ^ 63" using assms(3,4) by (simp_all add: w_def c_def)
  have i: "0 \<le> c_openedOrLastTestedTime c" "c_openedOrLastTestedTime c \<le> ts_clock s"
      "\<And>i. pc_ok w (ts_clock s) (c_open c) (ts_pc s i)" "spaced w (ts_log s)"
      "logged (c_open c) (c_openedOrLastTestedTime c) (ts_log s)"
    using inv unfolding test_inv_def Let_def c_def w_def by auto
  have clock: "UnixNano (ts_clock s) = ts_clock s" unfolding UnixNano_def using i(1,2) w by (intro i64_id) (simp add: in_i64_def)
  have goal: "test_inv sm s'"
    if "c_Name (ts_circuit s') = c_Name c" "0 \<le> c_openedOrLastTestedTime (ts_circuit s')"
      "c_openedOrLastTestedTime (ts_circuit s') \<le> ts_clock s'"
      "\<And>i. pc_ok w (ts_clock s') (c_open (ts_circuit s')) (ts_pc s' i)" "spaced w (ts_log s')"
      "logged (c_open (ts_circuit s')) (c_openedOrLastTestedTime (ts_circuit s')) (ts_log s')"
    unfolding test_inv_def Let_def that(1) w_def [symmetric] using that by blast
  show ?thesis
    using assms(1)
  proof cases
    case (test_tick t)
    then show ?thesis using i pc_ok_later [OF i(3), of "ts_clock s + t"] by (intro goal) (simp_all add: c_def)
  next
    case (test_now j)
    then show ?thesis using i clock by (intro goal) (simp_all add: c_def)
  next
    case (test_load j now old)
    have n: "0 \<le> now" "now \<le> ts_clock s" using i(3) [of j] test_load(2) by simp_all
    have "i64 (old + w) = old + w" using i(1,2) w test_load(3) by (intro i64_id) (simp add: in_i64_def c_def)
    then have "pc_ok w (ts_clock s) (c_open c) (TLoaded now old)" if "test_due now old sm c"
      using that n i(1) test_load(3) by (simp add: test_due_def w_def c_def)
    then show ?thesis using test_load i by (intro goal) (simp_all add: c_def)
  next
    case (test_swap j now old swapped c')
    show ?thesis
    proof (cases "c_openedOrLastTestedTime c = old")
      case True
      have n: "c_open c" "old + w < now" "now \<le> ts_clock s" "0 \<le> old" using i(3) [of j] test_swap(2) by simp_all
      have e: "c' = c\<lparr>c_openedOrLastTestedTime := now\<rparr>" "swapped" using True test_swap(3) by (simp_all add: swap_time_def c_def)
      have "case ts_log s of [] \<Rightarrow> False | e # _ \<Rightarrow> event_time e + w < now" using i(5) n True by (cases "ts_log s") auto
      then show ?thesis using i n e w(1) by (intro goal) (simp_all add: test_swap(1))
    next
      case False
      then have "c' = c" "\<not> swapped" using test_swap(3) by (simp_all add: swap_time_def c_def)
      then show ?thesis using i by (intro goal) (simp_all add: test_swap(1))
    qed
  next
    case (test_open c')
    have "case ts_log s of [] \<Rightarrow> True | e # _ \<Rightarrow> event_time e \<le> ts_clock s" using i(2,5) by (cases "ts_log s") auto
    moreover have "ts_log s \<noteq> []" if "c_open c" using that i(5) by (cases "ts_log s") auto
    ultimately show ?thesis
      using i clock test_open(2)
      by (intro goal) ((cases "c_open c"; cases "ts_log s"), simp_all add: test_open(1,3) c_def)+
  next
    case test_close
    then show ?thesis using i by (intro goal) (cases "ts_log s", simp_all add: c_def)+
  next
    case (test_other c')
    then show ?thesis using i by (intro goal) (simp_all add: c_def)
  qed
qed

lemma test_reach_inv:
  assumes "test_reach ops sm s0 s" and "test_start s0" and "0 \<le> s_SleepWindow (fst (getSettings (c_Name (ts_circuit s0)) sm))"
    and "ts_clock s + s_SleepWindow (fst (getSettings (c_Name (ts_circuit s0)) sm)) < 2 ^ 63"
  shows "test_inv sm s \<and> c_Name (ts_circuit s) = c_Name (ts_circuit s0)"
  using assms
proof (induction rule: test_reach.induct)
  case test_refl
  then show ?case by (simp add: test_start_def test_inv_def Let_def)
next
  case (test_more s s')
  have "ts_clock s \<le> ts_clock s'" by (rule test_step_window(2) [OF test_more.hyps(2)])
  then show ?case
    using test_more test_step_window(1) [OF test_more.hyps(2)] test_step_inv [OF test_more.hyps(2)] by simp
qed


subsection \<open>One circuit per name\<close>

text \<open>
  Any number of goroutines call \<open>GetCircuit\<close>, the i-th for the command \<open>nm i\<close>; between its two critical sections others
  may run.
\<close>

datatype get_pc = GetStart | GetMissed | GetDone nat bool

inductive get_step :: "'c collector_methods \<Rightarrow> (nat \<Rightarrow> string) \<Rightarrow> 'c world \<times> (nat \<Rightarrow> get_pc) \<Rightarrow> 'c world \<times> (nat \<Rightarrow> get_pc) \<Rightarrow> bool"
  for ops nm where
  get_hit: "pc i = GetStart \<Longrightarrow> GetCircuit_lookup (nm i) w = Some cb \<Longrightarrow> get_step ops nm (w, pc) (w, pc(i := GetDone cb False))"
| get_miss: "pc i = GetStart \<Longrightarrow> GetCircuit_lookup (nm i) w = None \<Longrightarrow> get_step ops nm (w, pc) (w, pc(i := GetMissed))"
| get_create: "pc i = GetMissed \<Longrightarrow> GetCircuit_create ops (nm i) w = Some ((cb, created), w') \<Longrightarrow>
    get_step ops nm (w, pc) (w', pc(i := GetDone cb created))"

inductive get_reach :: "'c collector_methods \<Rightarrow> (nat \<Rightarrow> string) \<Rightarrow> 'c world \<Rightarrow> 'c world \<times> (nat \<Rightarrow> get_pc) \<Rightarrow> bool" for ops nm w0 where
  get_refl: "get_reach ops nm w0 (w0, \<lambda>_. GetStart)"
| get_more: "get_reach ops nm w0 s \<Longrightarrow> get_step ops nm s s' \<Longrightarrow> get_reach ops nm w0 s'"

text \<open>The map of a world: no name twice, no address twice, every address in the store under its own name.\<close>

definition world_ok :: "'c world \<Rightarrow> bool" where
  "world_ok w \<longleftrightarrow> distinct (map fst (w_circuitBreakers w)) \<and> distinct (map snd (w_circuitBreakers w))
     \<and> (\<forall>(name, cb) \<in> set (w_circuitBreakers w). cb < length (w_heap w) \<and> c_Name (w_heap w ! cb) = name)"

lemma newCircuitBreaker_Some:
  "newCircuitBreaker ops reg name sm = Some (c, sm') \<Longrightarrow> c_Name c = name \<and> \<not> c_open c \<and> \<not> c_forceOpen c
    \<and> c_openedOrLastTestedTime c = 0 \<and> pool_ok (c_executorPool c) \<and> c_metrics c = newMetricExchange ops reg name"
  by (auto simp: newCircuitBreaker_def split: Option.bind_splits prod.splits dest: newExecutorPool_ok)

lemma GetCircuit_create_ok:
  assumes "GetCircuit_create ops name w = Some ((cb, created), w')" and "world_ok w"
  shows "world_ok w' \<and> map_of (w_circuitBreakers w') name = Some cb
    \<and> (created \<longleftrightarrow> map_of (w_circuitBreakers w) name = None)
    \<and> (\<forall>n. n \<noteq> name \<or> \<not> created \<longrightarrow> map_of (w_circuitBreakers w') n = map_of (w_circuitBreakers w) n)"
proof (cases "map_of (w_circuitBreakers w) name")
  case (Some x)
  then show ?thesis using assms by (simp add: GetCircuit_create_def)
next
  case None
  then obtain c sm where c: "newCircuitBreaker ops (w_registry w) name (w_settings w) = Some (c, sm)"
    and w': "cb = length (w_heap w)" "created"
      "w' = w\<lparr>w_settings := sm, w_heap := w_heap w @ [c], w_circuitBreakers := w_circuitBreakers w @ [(name, cb)]\<rparr>"
    using assms(1) by (auto simp: GetCircuit_create_def Let_def split: Option.bind_splits prod.splits)
  have new: "name \<notin> fst ` set (w_circuitBreakers w)" using None by (simp add: map_of_eq_None_iff)
  have "length (w_heap w) \<notin> snd ` set (w_circuitBreakers w)" using assms(2) by (force simp: world_ok_def)
  then have "world_ok w'"
    using assms(2) new newCircuitBreaker_Some [OF c] by (auto simp: w' world_ok_def nth_append)
  then show ?thesis using None w' by (auto simp: map_add_def split: option.split)
qed

definition get_inv :: "(nat \<Rightarrow> string) \<Rightarrow> 'c world \<times> (nat \<Rightarrow> get_pc) \<Rightarrow> bool" where
  "get_inv nm s \<longleftrightarrow> world_ok (fst s)
     \<and> (\<forall>i cb b. snd s i = GetDone cb b \<longrightarrow> map_of (w_circuitBreakers (fst s)) (nm i) = Some cb)
     \<and> (\<forall>i j cb cb'. snd s i = GetDone cb True \<longrightarrow> snd s j = GetDone cb' True \<longrightarrow> nm i = nm j \<longrightarrow> i = j)"

lemma get_step_inv: "get_step ops nm s s' \<Longrightarrow> get_inv nm s \<Longrightarrow> get_inv nm s'"
proof (induction rule: get_step.induct)
  case (get_create pc i w cb created w')
  have ok: "world_ok w" and got: "\<And>j cb b. pc j = GetDone cb b \<Longrightarrow> map_of (w_circuitBreakers w) (nm j) = Some cb"
    and one: "\<And>i j cb cb'. pc i = GetDone cb True \<Longrightarrow> pc j = GetDone cb' True \<Longrightarrow> nm i = nm j \<Longrightarrow> i = j"
    using get_create.prems unfolding get_inv_def by auto
  note c = GetCircuit_create_ok [OF get_create.hyps(2) ok]
  have keep: "map_of (w_circuitBreakers w') (nm j) = Some cb'" if "pc j = GetDone cb' b" for j cb' b
    using c got [OF that] by (cases "nm j = nm i \<and> created") auto
  have "nm j \<noteq> nm i \<or> \<not> created" if "pc j = GetDone cb' True" for j cb'
    using c got [OF that] by auto
  then show ?case unfolding get_inv_def using c keep one by (auto split: if_splits)
qed (auto simp: get_inv_def GetCircuit_lookup_def split: if_splits)

lemma get_reach_inv: "get_reach ops nm w0 s \<Longrightarrow> world_ok w0 \<Longrightarrow> get_inv nm s"
proof (induction rule: get_reach.induct)
  case get_refl
  then show ?case by (simp add: get_inv_def)
next
  case (get_more s s')
  then show ?case using get_step_inv by blast
qed


subsection \<open>Open circuits\<close>

lemma f_to_u64_zero: "f_to_u64 plat (Fin 0) = 0"
  by (simp add: f_to_u64_def trunc_rat_def)

lemma f_to_u64_nat: "0 \<le> n \<Longrightarrow> n < 2 ^ 64 \<Longrightarrow> f_to_u64 plat (Fin (of_int n)) = n"
  by (simp add: f_to_u64_def trunc_rat_def)

lemma Sum_New [simp]: "Sum now NewNumber = Fin 0"
  by (simp add: Sum_def NewNumber_def)

lemma IsOpen_open: "c_open c \<or> c_forceOpen c \<Longrightarrow> IsOpen plat now1 now2 now3 sm c = Some (True, sm, c)"
  by (auto simp: IsOpen_def)

lemma allowSingleTest_open:
  assumes "c_open c" and "in_i64 (clk 3)" and "sm (c_Name c) = Some s" and "in_i64 (c_openedOrLastTestedTime c + s_SleepWindow s)"
  shows "AllowRequest plat clk sm c =
     Some (c_openedOrLastTestedTime c + s_SleepWindow s < clk 3, sm,
           if c_openedOrLastTestedTime c + s_SleepWindow s < clk 3 then c\<lparr>c_openedOrLastTestedTime := clk 3\<rparr> else c)"
  using assms
  by (simp add: AllowRequest_def IsOpen_open allowSingleTest_def test_due_def swap_time_def getSettings_alt UnixNano_def i64_id)

lemma IsOpen_closed:
  assumes "\<not> c_open c" and "\<not> c_forceOpen c" and "DefaultCollector (c_metrics c) = Some d" and "sm (c_Name c) = Some s"
    and "x_Name (c_metrics c) = c_Name c" and "ErrorPercent plat (Unix now2) (c_metrics c) = Some p"
    and "f_to_u64 plat (Sum (Unix now1) (NumRequests d)) = n"
  shows "IsOpen plat now1 now2 now3 sm c =
     (if s_RequestVolumeThreshold s \<le> n \<and> s_ErrorPercentThreshold s \<le> p then Some (True, sm, setOpen now3 c) else Some (False, sm, c))"
  using assms
  by (auto simp: IsOpen_def Requests_def requestsLocked_def getSettings_alt IsHealthy_def Let_def not_less)

subsection \<open>Properties\<close>

text \<open>C25: however goroutines interleave \<open>allowSingleTest\<close>, \<open>setOpen\<close> and \<open>setClose\<close> on one circuit, every admitted test
  comes more than the sleep window after the opening or the test before it.\<close>

theorem single_tests_spaced:
  assumes "test_reach ops sm s0 s" and "test_start s0" and "w = s_SleepWindow (fst (getSettings (c_Name (ts_circuit s0)) sm))"
    and "0 \<le> w" and "ts_clock s + w < 2 ^ 63"
  shows "spaced w (ts_log s)"
  using test_reach_inv [OF assms(1,2)] assms(3-5) by (auto simp: test_inv_def Let_def)

definition some_circuit :: "string \<Rightarrow> unit circuit" where
  "some_circuit name = \<lparr>c_Name = name, c_open = False, c_forceOpen = False, c_openedOrLastTestedTime = 0,
     c_executorPool = \<lparr>p_Name = name, p_Metrics = newPoolMetrics name, p_Max = 1, p_Tickets = [0]\<rparr>,
     c_metrics = newMetricExchange no_methods default_registry name\<rparr>"

lemma single_tests_spaced_witness:
  "\<exists>s :: unit test_state. ts_log s = [Tested 5000000011, Opened 10] \<and> spaced 5000000000 (ts_log s)
    \<and> c_openedOrLastTestedTime (ts_circuit s) = 5000000011"
proof -
  define c where "c = some_circuit ''c''"
  define out where "out = (\<lambda>_ :: nat. TOutside)"
  define s0 where "s0 = \<lparr>ts_circuit = c, ts_clock = 10, ts_pc = out, ts_log = []\<rparr>"
  define co where "co = c\<lparr>c_openedOrLastTestedTime := 10, c_open := True\<rparr>"
  define s1 where "s1 = s0\<lparr>ts_circuit := co, ts_log := [Opened 10]\<rparr>"
  define s2 where "s2 = s1\<lparr>ts_clock := 5000000011\<rparr>"
  define s3 where "s3 = s2\<lparr>ts_pc := out(7 := TNow 5000000011)\<rparr>"
  define s4 where "s4 = s2\<lparr>ts_pc := out(7 := TLoaded 5000000011 10)\<rparr>"
  define s5 where "s5 = s2\<lparr>ts_circuit := co\<lparr>c_openedOrLastTestedTime := 5000000011\<rparr>, ts_pc := out(7 := TOutside), ts_log := [Tested 5000000011, Opened 10]\<rparr>"
  note d = s0_def s1_def s2_def s3_def s4_def s5_def co_def out_def
  have c: "c_Name c = ''c''" "\<not> c_open c" "c_openedOrLastTestedTime c = 0" by (simp_all add: c_def some_circuit_def)
  have u: "UnixNano 10 = 10" "UnixNano 5000000011 = 5000000011" by (simp_all add: UnixNano_def i64_def)
  have st1: "test_step no_methods Map.empty s0 s1"
    using test_open [of s0 "setOpen 10 c"] c u by (simp add: d setOpen_def)
  have st2: "test_step no_methods Map.empty s1 s2" using test_tick [of 5000000001 no_methods Map.empty s1] by (simp add: d)
  have st3: "test_step no_methods Map.empty s2 s3" using test_now [of s2 7] u by (simp add: d)
  have st4: "test_step no_methods Map.empty s3 s4"
  proof -
    have circ: "ts_circuit s3 = co" by (simp add: d)
    have "test_due 5000000011 10 Map.empty co"
      by (simp add: test_due_def d c getSettings_alt default_of_def i64_def)
    then have e: "s4 = s3\<lparr>ts_pc := (ts_pc s3)(7 := if test_due 5000000011 10 Map.empty (ts_circuit s3)
        then TLoaded 5000000011 10 else TOutside)\<rparr>"
      unfolding circ by (simp add: s4_def s3_def)
    show ?thesis unfolding e by (rule test_load) (simp_all add: d)
  qed
  have st5: "test_step no_methods Map.empty s4 s5"
  proof -
    have e: "s5 = s4\<lparr>ts_circuit := co\<lparr>c_openedOrLastTestedTime := 5000000011\<rparr>, ts_pc := (ts_pc s4)(7 := TOutside),
        ts_log := (if True then Tested 5000000011 # ts_log s4 else ts_log s4)\<rparr>"
      unfolding s5_def s4_def s2_def s1_def by simp
    have circ: "ts_circuit s4 = co" "ts_pc s4 7 = TLoaded 5000000011 10" by (simp_all add: s4_def s2_def s1_def)
    have "swap_time 10 5000000011 co = (True, co\<lparr>c_openedOrLastTestedTime := 5000000011\<rparr>)" by (simp add: swap_time_def co_def)
    then have "swap_time 10 5000000011 (ts_circuit s4) = (True, co\<lparr>c_openedOrLastTestedTime := 5000000011\<rparr>)" unfolding circ .
    from test_swap [OF circ(2) this] show ?thesis unfolding e .
  qed
  note r = test_more [OF test_more [OF test_more [OF test_more [OF test_more [OF test_refl st1] st2] st3] st4] st5]
  have "test_start s0" using c by (simp add: test_start_def d)
  from single_tests_spaced [OF r this refl] have "spaced 5000000000 (ts_log s5)"
    by (simp add: d c getSettings_alt default_of_def)
  then show ?thesis by (intro exI [of _ s5]) (simp add: d)
qed

text \<open>A default collector that shows no execution: no bucket in any counter, no duration in either timing.\<close>

definition nothing_recorded :: "default_collector \<Rightarrow> bool" where
  "nothing_recorded d \<longleftrightarrow>
     list_all (\<lambda>n. r_Buckets n = []) [NumRequests d, Errors d, Successes d, Failures d, Rejects d, ShortCircuits d,
       Timeouts d, ContextCanceled d, ContextDeadlineExceeded d, FallbackSuccesses d, FallbackFailures d] \<and>
     list_all (\<lambda>t. t_Buckets t = [] \<and> t_CachedSortedDurations t = []) [TotalDuration d, RunDuration d]"

text \<open>
  C33: an open circuit, forced or not, refuses until the sleep window has passed and then admits one request, whose
  reading starts the next window. When a request reports success the circuit closes, its default collector shows no
  execution in any counter or timing, and every other collector has been reset; unless it is forced open, it then admits
  the next request, whatever the clock reads.
\<close>

theorem open_circuit_recovers:
  assumes "c_open c" and "sm (c_Name c) = Some s" and "0 < s_RequestVolumeThreshold s" and "in_i64 (clk 3)"
    and "in_i64 (c_openedOrLastTestedTime c + s_SleepWindow s)" and "x_metricCollectors (c_metrics c) = DefaultMC d # cs"
    and "c' = snd (ReportEvent ops (''success'' # tys) start dur c)"
  shows "AllowRequest plat clk sm c = Some (clk 3 > c_openedOrLastTestedTime c + s_SleepWindow s, sm,
          if clk 3 > c_openedOrLastTestedTime c + s_SleepWindow s then c\<lparr>c_openedOrLastTestedTime := clk 3\<rparr> else c)
    \<and> \<not> c_open c'
    \<and> (\<exists>d'. x_metricCollectors (c_metrics c') = DefaultMC d' # map (mc_Reset ops) cs \<and> nothing_recorded d')
    \<and> (c_forceOpen c \<or> AllowRequest plat clk' sm c' = Some (True, sm, c'))"
proof -
  have c': "c_Name c' = c_Name c" "\<not> c_open c'" "c_forceOpen c' = c_forceOpen c"
      "x_metricCollectors (c_metrics c') = DefaultMC (collector_Reset d) # map (mc_Reset ops) cs"
    using assms(1,6) by (auto simp: assms(7) ReportEvent_def setClose_def exchange_Reset_def Let_def)
  have "nothing_recorded (collector_Reset d)"
    by (simp add: nothing_recorded_def collector_Reset_def collector_accessors NewNumber_def NewTiming_def)
  moreover have "Sum t (NumRequests (collector_Reset d)) = Fin 0" for t by (simp add: NumRequests_def collector_Reset_def)
  then have "c_forceOpen c \<or> AllowRequest plat clk' sm c' = Some (True, sm, c')"
    using c' assms(2,3)
    by (simp add: AllowRequest_def IsOpen_def Requests_def requestsLocked_def DefaultCollector_def getSettings_alt f_to_u64_zero)
  ultimately show ?thesis
    using allowSingleTest_open [where sm = sm and clk = clk, OF assms(1,4,2,5)] c'(2,4) by simp
qed

lemma open_circuit_recovers_witness:
  "\<exists>c c' :: unit circuit. c_open c \<and> fst (the (AllowRequest amd64_cvt (\<lambda>_. 5000000011) [''c'' \<mapsto> default_of] c))
    \<and> \<not> fst (the (AllowRequest amd64_cvt (\<lambda>_. 5000000010) [''c'' \<mapsto> default_of] c))
    \<and> c' = snd (ReportEvent no_methods [''success''] zero_time 0 c) \<and> \<not> c_open c'
    \<and> fst (the (AllowRequest amd64_cvt (\<lambda>_. 0) [''c'' \<mapsto> default_of] c'))"
proof -
  define c where "c = some_circuit ''c'' \<lparr>c_openedOrLastTestedTime := 10, c_open := True\<rparr>"
  have c: "c_open c" "c_Name c = ''c''" "c_openedOrLastTestedTime c = 10" "\<not> c_forceOpen c"
      "x_metricCollectors (c_metrics c) = [DefaultMC (collector_Reset (collector_Reset zero_collector))]"
    by (simp_all add: c_def some_circuit_def newMetricExchange_def exchange_Reset_def InitializeMetricCollectors_def
        default_registry_def newDefaultMetricCollector_def)
  have "[''c'' \<mapsto> default_of] (c_Name c) = Some default_of" by (simp add: c)
  note t = open_circuit_recovers [where sm = "[''c'' \<mapsto> default_of]", OF c(1) this _ _ _ c(5) refl]
  have n: "0 < s_RequestVolumeThreshold default_of" "s_SleepWindow default_of = 5000000000" by (simp_all add: default_of_def)
  define c' where "c' = snd (ReportEvent no_methods [''success''] zero_time 0 c)"
  have "fst (the (AllowRequest amd64_cvt (\<lambda>_. 5000000011) [''c'' \<mapsto> default_of] c)) \<and> \<not> c_open c'
      \<and> fst (the (AllowRequest amd64_cvt (\<lambda>_. 0) [''c'' \<mapsto> default_of] c'))"
    using t [where ops = no_methods and tys = "[]" and start = zero_time and dur = 0 and clk = "\<lambda>_. 5000000011" and clk' = "\<lambda>_. 0"
        and plat = amd64_cvt] n c(3,4) by (simp add: c'_def in_i64_def)
  moreover have "\<not> fst (the (AllowRequest amd64_cvt (\<lambda>_. 5000000010) [''c'' \<mapsto> default_of] c))"
    using t [where ops = no_methods and tys = "[]" and start = zero_time and dur = 0 and clk = "\<lambda>_. 5000000010" and clk' = "\<lambda>_. 0"
        and plat = amd64_cvt] n c(3,4) by (simp add: in_i64_def)
  ultimately show ?thesis using c(1) c'_def by blast
qed

text \<open>Goroutines that call \<open>GetCircuit\<close> for the same name, in any interleaving, all get the same circuit, and at most
  one of them is told that it created it.\<close>

theorem one_circuit_per_name:
  assumes "get_reach ops nm w0 (w, pc)" and "world_ok w0" and "pc i = GetDone cb b" and "pc j = GetDone cb' b'" and "nm i = nm j"
  shows "cb = cb' \<and> (b \<and> b' \<longrightarrow> i = j) \<and> cb < length (w_heap w) \<and> c_Name (w_heap w ! cb) = nm i"
proof -
  have inv: "world_ok w" "map_of (w_circuitBreakers w) (nm i) = Some cb" "map_of (w_circuitBreakers w) (nm j) = Some cb'"
    using get_reach_inv [OF assms(1,2)] assms(3,4) by (auto simp: get_inv_def)
  have "b \<and> b' \<longrightarrow> i = j" using get_reach_inv [OF assms(1,2)] assms(3-5) by (auto simp: get_inv_def)
  moreover have "(nm i, cb) \<in> set (w_circuitBreakers w)" using inv(2) by (rule map_of_SomeD)
  ultimately show ?thesis using inv assms(5) by (auto simp: world_ok_def)
qed

lemma one_circuit_per_name_witness:
  "\<exists>(w :: unit world) pc cb. get_reach no_methods (\<lambda>_. ''c'')
      \<lparr>w_settings = Map.empty, w_registry = default_registry, w_circuitBreakers = [], w_heap = []\<rparr> (w, pc)
    \<and> pc 0 = GetDone cb False \<and> pc 1 = GetDone cb True \<and> c_Name (w_heap w ! cb) = ''c''"
proof -
  define w0 :: "unit world" where "w0 = \<lparr>w_settings = Map.empty, w_registry = default_registry, w_circuitBreakers = [], w_heap = []\<rparr>"
  define st where "st = (\<lambda>_ :: nat. GetStart)"
  obtain c sm where c: "newCircuitBreaker no_methods default_registry ''c'' Map.empty = Some (c, sm)"
    by (simp add: newCircuitBreaker_def newExecutorPool_def getSettings_alt default_of_def)
  define w1 where "w1 = w0\<lparr>w_settings := sm, w_heap := [c], w_circuitBreakers := [(''c'', 0)]\<rparr>"
  define p1 p2 p3 p4 where "p1 = st(0 := GetMissed)" and "p2 = p1(1 := GetMissed)" and "p3 = p2(1 := GetDone 0 True)"
    and "p4 = p3(0 := GetDone 0 False)"
  have "get_reach no_methods (\<lambda>_. ''c'') w0 (w0, st)" unfolding st_def by (rule get_refl)
  also have "get_step no_methods (\<lambda>_. ''c'') (w0, st) (w0, p1)"
    unfolding p1_def by (rule get_miss) (simp_all add: st_def w0_def GetCircuit_lookup_def)
  finally (get_more) have "get_reach no_methods (\<lambda>_. ''c'') w0 (w0, p1)" .
  also have "get_step no_methods (\<lambda>_. ''c'') (w0, p1) (w0, p2)"
    unfolding p2_def by (rule get_miss) (simp_all add: p1_def st_def w0_def GetCircuit_lookup_def)
  finally (get_more) have "get_reach no_methods (\<lambda>_. ''c'') w0 (w0, p2)" .
  also have "get_step no_methods (\<lambda>_. ''c'') (w0, p2) (w1, p3)"
    unfolding p3_def by (rule get_create) (simp_all add: p2_def w0_def w1_def GetCircuit_create_def c)
  finally (get_more) have "get_reach no_methods (\<lambda>_. ''c'') w0 (w1, p3)" .
  also have "get_step no_methods (\<lambda>_. ''c'') (w1, p3) (w1, p4)"
    unfolding p4_def by (rule get_create) (simp_all add: p3_def p2_def p1_def w1_def GetCircuit_create_def)
  finally (get_more) have r: "get_reach no_methods (\<lambda>_. ''c'') w0 (w1, p4)" .
  have "world_ok w0" by (simp add: world_ok_def w0_def)
  from one_circuit_per_name [OF r this, of 0 0 False 1 0 True]
  show ?thesis using r unfolding w0_def by (intro exI [of _ w1] exI [of _ p4] exI [of _ 0]) (simp add: p4_def p3_def)
qed

text \<open>
  C26: a closed circuit whose metrics are those of a new exchange that took in a history of executions opens exactly when
  the requests its counter still counts reach the volume threshold and the error percentage, which is that of the counted
  errors among the counted requests to the nearest integer (as in C29), is at least the threshold; the time it
  opened is then the last reading. Otherwise it stays as it was.
\<close>

theorem circuit_trips:
  assumes "history_ok us" and "\<forall>t \<in> set (counter_readings us). Unix t \<le> Unix now1 \<and> Unix t \<le> Unix now2"
    and "in_i64 (Unix now1 - 10)" "in_i64 (Unix now2 - 10)"
    and "Monitor ops (readings us) ((newMetricExchange ops default_registry name)\<lparr>x_Updates := updates us\<rparr>) = Some (c_metrics c)"
    and "\<not> c_open c" and "\<not> c_forceOpen c" and "c_Name c = name" and "sm name = Some s"
    and "r = still_counted (Unix now2) (request_times us)" and "e = still_counted (Unix now2) (error_times us)"
  shows "\<exists>p c'. IsOpen plat now1 now2 now3 sm c = Some (c_open c', sm, c')
    \<and> (if r = 0 then p = 0 else \<bar>2 * r * p - 200 * e\<bar> \<le> r)
    \<and> (c_open c' \<longleftrightarrow> s_RequestVolumeThreshold s \<le> still_counted (Unix now1) (request_times us) \<and> s_ErrorPercentThreshold s \<le> p)
    \<and> c' = (if c_open c' then c\<lparr>c_openedOrLastTestedTime := UnixNano now3, c_open := True\<rparr> else c)"
proof -
  obtain d where d: "x_Name (c_metrics c) = name" "DefaultCollector (c_metrics c) = Some d"
      "Sum (Unix now1) (NumRequests d) = Fin (of_int (still_counted (Unix now1) (request_times us)))"
      "Sum (Unix now2) (NumRequests d) = Fin (of_int r)" "Sum (Unix now2) (Errors d) = Fin (of_int e)"
    using monitored_counts [OF assms(1) refl, of ops name] assms(2-5,10,11) by (metis option.inject)
  note b = history_counts [OF assms(1)]
  obtain p where p: "ErrorPercent plat (Unix now2) (c_metrics c) = Some p" "if r = 0 then p = 0 else \<bar>2 * r * p - 200 * e\<bar> \<le> r"
    using ErrorPercent_counts [OF d(2,4,5), of plat] b [of "Unix now2", folded assms(10,11)] by blast
  define n where "n = still_counted (Unix now1) (request_times us)"
  have n: "f_to_u64 plat (Sum (Unix now1) (NumRequests d)) = n"
    using b(1,2) [of "Unix now1"] by (simp add: d(3) n_def f_to_u64_nat)
  have nm: "x_Name (c_metrics c) = c_Name c" "sm (c_Name c) = Some s" by (simp_all add: d(1) assms(8,9))
  have "IsOpen plat now1 now2 now3 sm c = (if s_RequestVolumeThreshold s \<le> n \<and> s_ErrorPercentThreshold s \<le> p
      then Some (True, sm, setOpen now3 c) else Some (False, sm, c))"
    using IsOpen_closed [where sm = sm, OF assms(6,7) d(2) nm(2,1) p(1) n] .
  then show ?thesis
    using p(2) assms(6) unfolding n_def [symmetric]
    by (intro exI [of _ p] exI [of _ "if s_RequestVolumeThreshold s \<le> n \<and> s_ErrorPercentThreshold s \<le> p then setOpen now3 c else c"])
      (auto simp: setOpen_def)
qed

lemma circuit_trips_witness:
  "\<exists>c c' :: unit circuit. \<not> c_open c
    \<and> IsOpen amd64_cvt 110000000000 110999999999 111000000000 [''c'' \<mapsto> default_of\<lparr>s_RequestVolumeThreshold := 2\<rparr>] c
      = Some (True, [''c'' \<mapsto> default_of\<lparr>s_RequestVolumeThreshold := 2\<rparr>], c') \<and> c_openedOrLastTestedTime c' = 111000000000"
proof -
  obtain m where m: "Monitor no_methods (readings demo_history)
      ((newMetricExchange no_methods default_registry ''c'')\<lparr>x_Updates := updates demo_history\<rparr>) = Some m"
    using monitored_counts [OF demo_history_facts(1) refl, of no_methods "''c''"] by blast
  define c where "c = some_circuit ''c'' \<lparr>c_metrics := m\<rparr>"
  have c: "\<not> c_open c" "\<not> c_forceOpen c" "c_Name c = ''c''" "c_metrics c = m" by (simp_all add: c_def some_circuit_def)
  have u: "Unix 110000000000 = 110" "Unix 110999999999 = 110" "UnixNano 111000000000 = 111000000000"
    by (simp_all add: Unix_def UnixNano_def i64_def)
  have sm: "[''c'' \<mapsto> default_of\<lparr>s_RequestVolumeThreshold := 2\<rparr>] ''c'' = Some (default_of\<lparr>s_RequestVolumeThreshold := 2\<rparr>)" by simp
  have b: "\<forall>t \<in> set (counter_readings demo_history). Unix t \<le> Unix 110000000000 \<and> Unix t \<le> Unix 110999999999"
    "in_i64 (Unix 110000000000 - 10)" "in_i64 (Unix 110999999999 - 10)"
    using demo_history_facts(2) by (simp_all add: u in_i64_def)
  have "2 = still_counted (Unix 110999999999) (request_times demo_history)" "1 = still_counted (Unix 110999999999) (error_times demo_history)"
    by (simp_all add: u demo_history_facts)
  from circuit_trips [where sm = "[''c'' \<mapsto> default_of\<lparr>s_RequestVolumeThreshold := 2\<rparr>]", OF demo_history_facts(1) b m [folded c(4)] c(1-3) sm this, of amd64_cvt 111000000000]
  obtain p c' where o: "IsOpen amd64_cvt 110000000000 110999999999 111000000000 [''c'' \<mapsto> default_of\<lparr>s_RequestVolumeThreshold := 2\<rparr>] c
      = Some (c_open c', [''c'' \<mapsto> default_of\<lparr>s_RequestVolumeThreshold := 2\<rparr>], c')"
      and p: "if (2 :: int) = 0 then p = 0 else \<bar>2 * 2 * p - 200 * 1\<bar> \<le> 2"
      and t: "c_open c' \<longleftrightarrow> s_RequestVolumeThreshold (default_of\<lparr>s_RequestVolumeThreshold := 2\<rparr>)
          \<le> still_counted (Unix 110000000000) (request_times demo_history)
          \<and> s_ErrorPercentThreshold (default_of\<lparr>s_RequestVolumeThreshold := 2\<rparr>) \<le> p"
      and c': "c' = (if c_open c' then c\<lparr>c_openedOrLastTestedTime := UnixNano 111000000000, c_open := True\<rparr> else c)"
    by blast
  have "50 \<le> p" using p by (simp add: abs_le_iff)
  then have op: "c_open c'" unfolding t by (simp add: u demo_history_facts default_of_def)
  then have "c' = c\<lparr>c_openedOrLastTestedTime := UnixNano 111000000000, c_open := True\<rparr>" using c' by (simp only: if_True)
  then have "c_openedOrLastTestedTime c' = 111000000000" by (simp add: u)
  then show ?thesis using o op c(1) by (intro exI [of _ c] exI [of _ c']) simp
qed

text \<open>A circuit that is forced open while its metrics have it open still admits a test after the sleep window, and the
  success of that test closes it under the force.\<close>

theorem forced_open_still_tests:
  "(let c = some_circuit ''c'' \<lparr>c_open := True, c_forceOpen := True, c_openedOrLastTestedTime := 10\<rparr>;
        c' = snd (ReportEvent no_methods [''success''] zero_time 0 c)
    in AllowRequest amd64_cvt (\<lambda>_. 5000000011) [''c'' \<mapsto> default_of] c
         = Some (True, [''c'' \<mapsto> default_of], c\<lparr>c_openedOrLastTestedTime := 5000000011\<rparr>)
       \<and> \<not> c_open c' \<and> fst (the (AllowRequest amd64_cvt (\<lambda>_. 5000000011) [''c'' \<mapsto> default_of] c')) = False)"
  by (simp add: some_circuit_def AllowRequest_def IsOpen_def allowSingleTest_def test_due_def swap_time_def getSettings_alt
      default_of_def UnixNano_def i64_def ReportEvent_def setClose_def Let_def)

end
