(* ===== verification/HystrixCommand.thy ===== *)
theory HystrixCommand
  imports HystrixCircuit
begin

text \<open>
  One execution of a command (hystrix.go) and the system of all executions on one circuit. \<open>GoC\<close> starts two goroutines, the
  worker and the watcher, that share the command; \<open>returnOnce\<close> lets the faster one run its body, which is a list of the
  actions it has left. The user's run function and fallback return when they like and what they like, the timer and the
  context fire when they like, and the pool's and the circuit's monitors work in between: all are steps of a relation. The
  fields after \<open>k_caller\<close> are history: they record what happened and no step depends on them.
\<close>

subsection \<open>Errors and events\<close>

definition ErrMaxConcurrency :: go_error where "ErrMaxConcurrency = CircuitError ''max concurrency''"
definition ErrCircuitOpen :: go_error where "ErrCircuitOpen = CircuitError ''circuit open''"
definition ErrTimeout :: go_error where "ErrTimeout = CircuitError ''timeout''"

lemmas command_errors = ErrMaxConcurrency_def ErrCircuitOpen_def ErrTimeout_def

text \<open>The \<open>Error\<close> methods.\<close>

fun error_text :: "go_error \<Rightarrow> string" where
  "error_text (CircuitError m) = ''hystrix: '' @ m"
| "error_text (FmtError m) = m"
| "error_text ContextCanceledErr = ''context canceled''"
| "error_text DeadlineExceededErr = ''context deadline exceeded''"
| "error_text (UserError m) = m"

definition event_type :: "go_error \<Rightarrow> string" where
  "event_type err =
     (if err = ErrCircuitOpen then ''short-circuit''
      else if err = ErrMaxConcurrency then ''rejected''
      else if err = ErrTimeout then ''timeout''
      else if err = ContextCanceledErr then ''context_canceled''
      else if err = DeadlineExceededErr then ''context_deadline_exceeded''
      else ''failure'')"

definition fallback_failed :: "go_error \<Rightarrow> go_error \<Rightarrow> go_error" where
  "fallback_failed fallbackErr err =
     FmtError (''fallback failed with '' @ [CHR 0x27] @ error_text fallbackErr @ [CHR 0x27] @ ''. run error was ''
       @ [CHR 0x27] @ error_text err @ [CHR 0x27])"

subsection \<open>The state of one execution\<close>

datatype action = ASetDuration | AReturn | APush | AEvent string | AFallback go_error | ADone | ASend go_error | AReport

datatype once = OnceNew | OnceRunning bool | OnceDone

datatype worker_pc = WStart | WRefused | WTicket | WRun | WPush | WDo "action list" | WInDo | WFinish | WDone

datatype watcher_pc = TSelect | TDo "action list" | TInDo | TDone

datatype caller_pc = CWait | CReturned "go_error option"

record command =
  k_hasFallback :: bool
  k_sync :: bool
  k_start :: gtime
  k_locked :: bool
  k_ticket :: "nat option"
  k_ticketChecked :: bool
  k_runDuration :: int
  k_events :: "string list"
  k_errChan :: "go_error list"
  k_finished :: nat
  k_done :: nat
  k_once :: once
  k_body :: "action list"
  k_worker :: worker_pc
  k_watcher :: watcher_pc
  k_caller :: caller_pc
  k_returned :: bool
  k_sent :: "go_error list"
  k_reports :: "string list list"
  k_runDone :: bool
  k_fallbackDone :: bool

text \<open>
  What \<open>GoC\<close> sets up, with a fallback or without. \<open>Do\<close> and \<open>DoC\<close> (\<open>sync\<close>) wrap the two functions so that a success is
  also sent to the channel \<open>done\<close>, and wait for it or for an error.
\<close>

definition new_command :: "bool \<Rightarrow> bool \<Rightarrow> gtime \<Rightarrow> command" where
  "new_command fallback sync start =
     \<lparr>k_hasFallback = fallback, k_sync = sync, k_start = start, k_locked = False, k_ticket = None, k_ticketChecked = False,
      k_runDuration = 0, k_events = [], k_errChan = [], k_finished = 0, k_done = 0, k_once = OnceNew, k_body = [],
      k_worker = WStart, k_watcher = TSelect, k_caller = CWait,
      k_returned = False, k_sent = [], k_reports = [], k_runDone = False, k_fallbackDone = False\<rparr>"

text \<open>The bodies the goroutines hand to \<open>returnOnce\<close>: on an error, and after the run function returned.\<close>

definition errorWithFallback :: "go_error \<Rightarrow> action list" where
  "errorWithFallback err = [AEvent (event_type err), AFallback err]"

definition error_body :: "go_error \<Rightarrow> action list" where
  "error_body err = [AReturn] @ errorWithFallback err @ [AReport]"

definition run_body :: "go_error option \<Rightarrow> action list" where
  "run_body runErr =
     [ASetDuration, AReturn] @ (case runErr of Some e \<Rightarrow> errorWithFallback e | None \<Rightarrow> [AEvent ''success'']) @ [AReport]"

text \<open>What \<open>tryFallback\<close> and the end of \<open>errorWithFallback\<close> do, given what the fallback returned.\<close>

definition after_fallback :: "bool \<Rightarrow> bool \<Rightarrow> go_error \<Rightarrow> go_error option \<Rightarrow> action list" where
  "after_fallback fallback sync err res =
     (if \<not> fallback then [ASend err]
      else case res of
             Some fe \<Rightarrow> [AEvent ''fallback-failure'', ASend (fallback_failed fe err)]
           | None \<Rightarrow> (if sync then [ADone] else []) @ [AEvent ''fallback-success''])"

subsection \<open>The system of executions on one circuit\<close>

record 'c system =
  y_settings :: settings_map
  y_circuit :: "'c circuit"
  y_cmds :: "nat \<Rightarrow> command"

definition put :: "nat \<Rightarrow> command \<Rightarrow> 'c system \<Rightarrow> 'c system" where
  "put i c s = s\<lparr>y_cmds := (y_cmds s)(i := c)\<rparr>"

definition pool :: "'c system \<Rightarrow> executor_pool" where
  "pool s = c_executorPool (y_circuit s)"

definition set_pool :: "executor_pool \<Rightarrow> 'c system \<Rightarrow> 'c system" where
  "set_pool p s = s\<lparr>y_circuit := (y_circuit s)\<lparr>c_executorPool := p\<rparr>\<rparr>"

text \<open>The steps of the i-th execution: its worker, its watcher, the body that runs, its caller.\<close>

inductive cmd_step :: "'c collector_methods \<Rightarrow> (f64 \<Rightarrow> int) \<Rightarrow> nat \<Rightarrow> 'c system \<Rightarrow> 'c system \<Rightarrow> bool" for ops plat i where
  w_allow: "c = y_cmds s i \<Longrightarrow> k_worker c = WStart \<Longrightarrow>
    AllowRequest plat clk (y_settings s) (y_circuit s) = Some (allowed, sm, circuit) \<Longrightarrow>
    cmd_step ops plat i s (put i (c\<lparr>k_worker := (if allowed then WTicket else WRefused)\<rparr>) (s\<lparr>y_settings := sm, y_circuit := circuit\<rparr>))"
| w_refused: "c = y_cmds s i \<Longrightarrow> k_worker c = WRefused \<Longrightarrow> \<not> k_locked c \<Longrightarrow>
    cmd_step ops plat i s (put i (c\<lparr>k_ticketChecked := True, k_worker := WDo (error_body ErrCircuitOpen)\<rparr>) s)"
| w_ticket: "c = y_cmds s i \<Longrightarrow> k_worker c = WTicket \<Longrightarrow> \<not> k_locked c \<Longrightarrow> take_ticket (pool s) = (Some t, p) \<Longrightarrow>
    cmd_step ops plat i s (put i (c\<lparr>k_ticket := Some t, k_ticketChecked := True, k_worker := WRun\<rparr>) (set_pool p s))"
| w_full: "c = y_cmds s i \<Longrightarrow> k_worker c = WTicket \<Longrightarrow> \<not> k_locked c \<Longrightarrow> take_ticket (pool s) = (None, p) \<Longrightarrow>
    cmd_step ops plat i s (put i (c\<lparr>k_ticketChecked := True, k_worker := WDo (error_body ErrMaxConcurrency)\<rparr>) s)"
| w_run: "c = y_cmds s i \<Longrightarrow> k_worker c = WRun \<Longrightarrow>
    cmd_step ops plat i s (put i (c\<lparr>k_worker := (if runErr = None \<and> k_sync c then WPush else WDo (run_body runErr))\<rparr>) s)"
| w_push: "c = y_cmds s i \<Longrightarrow> k_worker c = WPush \<Longrightarrow> k_done c < 1 \<Longrightarrow>
    cmd_step ops plat i s (put i (c\<lparr>k_done := k_done c + 1, k_runDone := True, k_worker := WDo (run_body None)\<rparr>) s)"
| w_do: "c = y_cmds s i \<Longrightarrow> k_worker c = WDo b \<Longrightarrow> k_once c = OnceNew \<Longrightarrow>
    cmd_step ops plat i s (put i (c\<lparr>k_once := OnceRunning True, k_body := b, k_worker := WInDo\<rparr>) s)"
| w_skip: "c = y_cmds s i \<Longrightarrow> k_worker c = WDo b \<Longrightarrow> k_once c = OnceDone \<Longrightarrow>
    cmd_step ops plat i s (put i (c\<lparr>k_worker := WFinish\<rparr>) s)"
| w_out: "c = y_cmds s i \<Longrightarrow> k_worker c = WInDo \<Longrightarrow> k_body c = [] \<Longrightarrow>
    cmd_step ops plat i s (put i (c\<lparr>k_once := OnceDone, k_worker := WFinish\<rparr>) s)"
| w_finish: "c = y_cmds s i \<Longrightarrow> k_worker c = WFinish \<Longrightarrow> k_finished c < 1 \<Longrightarrow>
    cmd_step ops plat i s (put i (c\<lparr>k_finished := k_finished c + 1, k_worker := WDone\<rparr>) s)"
| t_finished: "c = y_cmds s i \<Longrightarrow> k_watcher c = TSelect \<Longrightarrow> 0 < k_finished c \<Longrightarrow>
    cmd_step ops plat i s (put i (c\<lparr>k_finished := k_finished c - 1, k_watcher := TDone\<rparr>) s)"
| t_context: "c = y_cmds s i \<Longrightarrow> k_watcher c = TSelect \<Longrightarrow> e = ContextCanceledErr \<or> e = DeadlineExceededErr \<Longrightarrow>
    cmd_step ops plat i s (put i (c\<lparr>k_watcher := TDo (error_body e)\<rparr>) s)"
| t_timeout: "c = y_cmds s i \<Longrightarrow> k_watcher c = TSelect \<Longrightarrow>
    cmd_step ops plat i s (put i (c\<lparr>k_watcher := TDo (error_body ErrTimeout)\<rparr>) s)"
| t_do: "c = y_cmds s i \<Longrightarrow> k_watcher c = TDo b \<Longrightarrow> k_once c = OnceNew \<Longrightarrow>
    cmd_step ops plat i s (put i (c\<lparr>k_once := OnceRunning False, k_body := b, k_watcher := TInDo\<rparr>) s)"
| t_skip: "c = y_cmds s i \<Longrightarrow> k_watcher c = TDo b \<Longrightarrow> k_once c = OnceDone \<Longrightarrow>
    cmd_step ops plat i s (put i (c\<lparr>k_watcher := TDone\<rparr>) s)"
| t_out: "c = y_cmds s i \<Longrightarrow> k_watcher c = TInDo \<Longrightarrow> k_body c = [] \<Longrightarrow>
    cmd_step ops plat i s (put i (c\<lparr>k_once := OnceDone, k_watcher := TDone\<rparr>) s)"
| b_duration: "c = y_cmds s i \<Longrightarrow> k_body c = ASetDuration # b \<Longrightarrow>
    cmd_step ops plat i s (put i (c\<lparr>k_runDuration := d, k_body := b\<rparr>) s)"
| b_return_nil: "c = y_cmds s i \<Longrightarrow> k_body c = AReturn # b \<Longrightarrow> k_ticketChecked c \<Longrightarrow> \<not> k_locked c \<Longrightarrow> k_ticket c = None \<Longrightarrow>
    cmd_step ops plat i s (put i (c\<lparr>k_returned := True, k_body := b\<rparr>) s)"
| b_return: "c = y_cmds s i \<Longrightarrow> k_body c = AReturn # b \<Longrightarrow> k_ticketChecked c \<Longrightarrow> \<not> k_locked c \<Longrightarrow> k_ticket c = Some t \<Longrightarrow>
    Return_report (pool s) = Some p \<Longrightarrow>
    cmd_step ops plat i s (put i (c\<lparr>k_locked := True, k_body := APush # b\<rparr>) (set_pool p s))"
| b_push: "c = y_cmds s i \<Longrightarrow> k_body c = APush # b \<Longrightarrow> k_ticket c = Some t \<Longrightarrow> Return_ticket t (pool s) = Some p \<Longrightarrow>
    cmd_step ops plat i s (put i (c\<lparr>k_locked := False, k_returned := True, k_body := b\<rparr>) (set_pool p s))"
| b_event: "c = y_cmds s i \<Longrightarrow> k_body c = AEvent e # b \<Longrightarrow> \<not> k_locked c \<Longrightarrow>
    cmd_step ops plat i s (put i (c\<lparr>k_events := k_events c @ [e], k_body := b\<rparr>) s)"
| b_fallback: "c = y_cmds s i \<Longrightarrow> k_body c = AFallback err # b \<Longrightarrow>
    cmd_step ops plat i s (put i (c\<lparr>k_body := after_fallback (k_hasFallback c) (k_sync c) err res @ b\<rparr>) s)"
| b_done: "c = y_cmds s i \<Longrightarrow> k_body c = ADone # b \<Longrightarrow> k_done c < 1 \<Longrightarrow>
    cmd_step ops plat i s (put i (c\<lparr>k_done := k_done c + 1, k_fallbackDone := True, k_body := b\<rparr>) s)"
| b_send: "c = y_cmds s i \<Longrightarrow> k_body c = ASend e # b \<Longrightarrow> length (k_errChan c) < 1 \<Longrightarrow>
    cmd_step ops plat i s (put i (c\<lparr>k_errChan := k_errChan c @ [e], k_sent := k_sent c @ [e], k_body := b\<rparr>) s)"
| b_report: "c = y_cmds s i \<Longrightarrow> k_body c = AReport # b \<Longrightarrow>
    ReportEvent ops (k_events c) (k_start c) (k_runDuration c) (y_circuit s) = (r, circuit) \<Longrightarrow>
    cmd_step ops plat i s (put i (c\<lparr>k_reports := k_reports c @ [k_events c], k_body := b\<rparr>) (s\<lparr>y_circuit := circuit\<rparr>))"
| c_nil: "c = y_cmds s i \<Longrightarrow> k_sync c \<Longrightarrow> k_caller c = CWait \<Longrightarrow> 0 < k_done c \<Longrightarrow>
    cmd_step ops plat i s (put i (c\<lparr>k_done := k_done c - 1, k_caller := CReturned None\<rparr>) s)"
| c_error: "c = y_cmds s i \<Longrightarrow> k_caller c = CWait \<Longrightarrow> k_errChan c = e # es \<Longrightarrow>
    cmd_step ops plat i s (put i (c\<lparr>k_errChan := es, k_caller := CReturned (Some e)\<rparr>) s)"

text \<open>The steps of everything else: the two monitors, a reconfiguration, the force toggle.\<close>

inductive env_step :: "'c collector_methods \<Rightarrow> 'c system \<Rightarrow> 'c system \<Rightarrow> bool" for ops where
  e_pool: "env_step ops s (set_pool ((pool s)\<lparr>p_Metrics := poolMonitor_step clk (p_Metrics (pool s))\<rparr>) s)"
| e_metrics: "Monitor_step ops now clks (c_metrics (y_circuit s)) = Some m \<Longrightarrow>
    env_step ops s (s\<lparr>y_circuit := (y_circuit s)\<lparr>c_metrics := m\<rparr>\<rparr>)"
| e_configure: "env_step ops s (s\<lparr>y_settings := ConfigureCommand name config (y_settings s)\<rparr>)"
| e_force: "env_step ops s (s\<lparr>y_circuit := (y_circuit s)\<lparr>c_forceOpen := toggle\<rparr>\<rparr>)"

inductive sys_reach :: "'c collector_methods \<Rightarrow> (f64 \<Rightarrow> int) \<Rightarrow> 'c system \<Rightarrow> 'c system \<Rightarrow> bool" for ops plat s0 where
  sys_refl: "sys_reach ops plat s0 s0"
| sys_cmd: "sys_reach ops plat s0 s \<Longrightarrow> cmd_step ops plat i s s' \<Longrightarrow> sys_reach ops plat s0 s'"
| sys_env: "sys_reach ops plat s0 s \<Longrightarrow> env_step ops s s' \<Longrightarrow> sys_reach ops plat s0 s'"

text \<open>A start: fresh executions on a circuit whose pool has all its tickets and whose first collector is the default one.\<close>

definition default_first :: "'c metric_exchange \<Rightarrow> bool" where
  "default_first m \<longleftrightarrow> DefaultCollector m \<noteq> None"

definition sys_start :: "'c system \<Rightarrow> bool" where
  "sys_start s \<longleftrightarrow> default_first (c_metrics (y_circuit s)) \<and> 0 \<le> p_Max (pool s) \<and> p_Tickets (pool s) = [0 ..< nat (p_Max (pool s))]
     \<and> (\<forall>i. \<exists>fallback sync start. y_cmds s i = new_command fallback sync start)"

subsection \<open>The stages of a body\<close>

text \<open>How an execution can end: the events, the error sent, and whether the fallback reported to \<open>done\<close>.\<close>

definition outcome_ok :: "bool \<Rightarrow> bool \<Rightarrow> bool \<Rightarrow> string list \<Rightarrow> go_error list \<Rightarrow> bool \<Rightarrow> bool" where
  "outcome_ok fb sync rd evs sent fd \<longleftrightarrow>
     evs = [''success''] \<and> sent = [] \<and> \<not> fd \<and> (sync \<longrightarrow> rd)
   \<or> (\<exists>e. evs = [event_type e] \<and> \<not> fb \<and> sent = [e] \<and> \<not> fd)
   \<or> (\<exists>e fe. evs = [event_type e, ''fallback-failure''] \<and> fb \<and> sent = [fallback_failed fe e] \<and> \<not> fd)
   \<or> (\<exists>e. evs = [event_type e, ''fallback-success''] \<and> fb \<and> sent = [] \<and> fd = sync)"

text \<open>What can be left of a body once the ticket is back.\<close>

inductive rest :: "bool \<Rightarrow> bool \<Rightarrow> bool \<Rightarrow> action list \<Rightarrow> string list \<Rightarrow> go_error list \<Rightarrow> bool \<Rightarrow> string list list \<Rightarrow> bool"
  for fb sync rd where
  rest_success: "(sync \<longrightarrow> rd) \<Longrightarrow> rest fb sync rd [AEvent ''success'', AReport] [] [] False []"
| rest_error: "rest fb sync rd [AEvent (event_type e), AFallback e, AReport] [] [] False []"
| rest_fallback: "rest fb sync rd [AFallback e, AReport] [event_type e] [] False []"
| rest_none: "\<not> fb \<Longrightarrow> rest fb sync rd [ASend e, AReport] [event_type e] [] False []"
| rest_failed: "fb \<Longrightarrow> rest fb sync rd [AEvent ''fallback-failure'', ASend (fallback_failed fe e), AReport] [event_type e] [] False []"
| rest_failure: "fb \<Longrightarrow> rest fb sync rd [ASend (fallback_failed fe e), AReport] [event_type e, ''fallback-failure''] [] False []"
| rest_done: "fb \<Longrightarrow> sync \<Longrightarrow> rest fb sync rd [ADone, AEvent ''fallback-success'', AReport] [event_type e] [] False []"
| rest_worked: "fb \<Longrightarrow> fd = sync \<Longrightarrow> rest fb sync rd [AEvent ''fallback-success'', AReport] [event_type e] [] fd []"
| rest_report: "outcome_ok fb sync rd evs sent fd \<Longrightarrow> rest fb sync rd [AReport] evs sent fd []"
| rest_end: "outcome_ok fb sync rd evs sent fd \<Longrightarrow> rest fb sync rd [] evs sent fd [evs]"

inductive_cases rest_eventE: "rest fb sync rd (AEvent x # b) evs sent fd reps"
inductive_cases rest_fallbackE: "rest fb sync rd (AFallback x # b) evs sent fd reps"
inductive_cases rest_doneE: "rest fb sync rd (ADone # b) evs sent fd reps"
inductive_cases rest_sendE: "rest fb sync rd (ASend x # b) evs sent fd reps"
inductive_cases rest_reportE: "rest fb sync rd (AReport # b) evs sent fd reps"
inductive_cases rest_nilE: "rest fb sync rd [] evs sent fd reps"
inductive_simps rest_no_return: "rest fb sync rd (AReturn # b) evs sent fd reps"
inductive_simps rest_no_push: "rest fb sync rd (APush # b) evs sent fd reps"
inductive_simps rest_no_duration: "rest fb sync rd (ASetDuration # b) evs sent fd reps"

lemmas rest_heads = rest_no_return rest_no_push rest_no_duration

lemma outcome_run: "outcome_ok fb sync rd evs sent fd \<Longrightarrow> rd \<longrightarrow> rd' \<Longrightarrow> outcome_ok fb sync rd' evs sent fd"
  by (auto simp: outcome_ok_def)

lemma rest_run: "rest fb sync rd b evs sent fd reps \<Longrightarrow> rd \<longrightarrow> rd' \<Longrightarrow> rest fb sync rd' b evs sent fd reps"
  by (induction rule: rest.induct) (auto intro: rest.intros outcome_run)

lemma outcome_intros:
  "(sync \<longrightarrow> rd) \<Longrightarrow> outcome_ok fb sync rd [''success''] [] False"
  "\<not> fb \<Longrightarrow> outcome_ok fb sync rd [event_type e] [e] False"
  "fb \<Longrightarrow> outcome_ok fb sync rd [event_type e, ''fallback-failure''] [fallback_failed fe e] False"
  "fb \<Longrightarrow> outcome_ok fb sync rd [event_type e, ''fallback-success''] [] sync"
  unfolding outcome_ok_def by blast+

lemma rest_event: "rest fb sync rd (AEvent x # b) evs sent fd reps \<Longrightarrow> rest fb sync rd b (evs @ [x]) sent fd reps"
  by (erule rest_eventE) (auto intro: rest.intros outcome_intros rest_report [OF outcome_intros(4) [of _ True], simplified]
      rest_report [OF outcome_intros(4) [of _ False], simplified])

lemma rest_after_fallback:
  "rest fb sync rd (AFallback x # b) evs sent fd reps \<Longrightarrow> rest fb sync rd (after_fallback fb sync x res @ b) evs sent fd reps"
  by (erule rest_fallbackE) (cases res; cases sync; auto simp: after_fallback_def intro: rest.intros)

lemma rest_after_done: "rest fb sync rd (ADone # b) evs sent fd reps \<Longrightarrow> rest fb sync rd b evs sent True reps"
  by (erule rest_doneE) (auto intro: rest_worked)

lemma rest_after_send: "rest fb sync rd (ASend x # b) evs sent fd reps \<Longrightarrow> rest fb sync rd b evs (sent @ [x]) fd reps"
  by (erule rest_sendE) (auto intro!: rest_report outcome_intros)

lemma rest_after_report: "rest fb sync rd (AReport # b) evs sent fd reps \<Longrightarrow> rest fb sync rd b evs sent fd (reps @ [evs])"
  by (erule rest_reportE) (auto intro: rest_end)

lemma rest_sent: "rest fb sync rd b evs sent fd reps \<Longrightarrow> length sent \<le> 1 \<and> (sent \<noteq> [] \<longrightarrow> \<not> fd) \<and> (fd \<longrightarrow> sync) \<and> length reps \<le> 1"
  by (induction rule: rest.induct) (auto simp: outcome_ok_def)

lemma rest_clean_start: "b = errorWithFallback e @ [AReport] \<Longrightarrow> rest fb sync rd b [] [] False []"
  by (auto simp: errorWithFallback_def intro: rest_error)

text \<open>A body before the ticket is back: from its start, or from the send of the ticket.\<close>

definition tail_ok :: "bool \<Rightarrow> bool \<Rightarrow> action list \<Rightarrow> bool" where
  "tail_ok sync rd b \<longleftrightarrow> b = [AEvent ''success'', AReport] \<and> (sync \<longrightarrow> rd) \<or> (\<exists>e. b = [AEvent (event_type e), AFallback e, AReport])"

lemma tail_rest: "tail_ok sync rd b \<Longrightarrow> rest fb sync rd b [] [] False []"
  by (auto simp: tail_ok_def intro: rest_success rest_error)

definition do_ok :: "bool \<Rightarrow> bool \<Rightarrow> action list \<Rightarrow> bool" where
  "do_ok sync rd b \<longleftrightarrow> (\<exists>t. tail_ok sync rd t \<and> (b = AReturn # t \<or> b = ASetDuration # AReturn # t))"

lemma do_ok_error: "do_ok sync rd (error_body e)"
  by (auto simp: do_ok_def tail_ok_def error_body_def errorWithFallback_def)

lemma do_ok_run: "(r = None \<and> sync \<longrightarrow> rd) \<Longrightarrow> do_ok sync rd (run_body r)"
  by (cases r) (auto simp: do_ok_def tail_ok_def run_body_def errorWithFallback_def)

subsection \<open>The invariant of one execution\<close>

definition untouched :: "command \<Rightarrow> bool" where
  "untouched c \<longleftrightarrow> k_events c = [] \<and> k_sent c = [] \<and> k_reports c = [] \<and> \<not> k_fallbackDone c \<and> \<not> k_returned c"

definition body_ok :: "command \<Rightarrow> bool" where
  "body_ok c \<longleftrightarrow>
     (case k_once c of
        OnceNew \<Rightarrow> untouched c \<and> \<not> k_locked c \<and> k_body c = []
      | OnceRunning who \<Rightarrow>
          untouched c \<and> \<not> k_locked c \<and> do_ok (k_sync c) (k_runDone c) (k_body c)
          \<or> untouched c \<and> k_locked c \<and> k_ticket c \<noteq> None \<and> (\<exists>t. k_body c = APush # t \<and> tail_ok (k_sync c) (k_runDone c) t)
          \<or> k_returned c \<and> \<not> k_locked c \<and> k_ticketChecked c
            \<and> rest (k_hasFallback c) (k_sync c) (k_runDone c) (k_body c) (k_events c) (k_sent c) (k_fallbackDone c) (k_reports c)
      | OnceDone \<Rightarrow> k_returned c \<and> \<not> k_locked c \<and> k_ticketChecked c \<and> k_body c = []
          \<and> rest (k_hasFallback c) (k_sync c) (k_runDone c) [] (k_events c) (k_sent c) (k_fallbackDone c) (k_reports c))"

fun worker_ok :: "command \<Rightarrow> worker_pc \<Rightarrow> bool" where
  "worker_ok c WStart \<longleftrightarrow> \<not> k_ticketChecked c \<and> k_ticket c = None \<and> \<not> k_runDone c \<and> k_once c \<noteq> OnceRunning True"
| "worker_ok c WRefused \<longleftrightarrow> \<not> k_ticketChecked c \<and> k_ticket c = None \<and> \<not> k_runDone c \<and> k_once c \<noteq> OnceRunning True"
| "worker_ok c WTicket \<longleftrightarrow> \<not> k_ticketChecked c \<and> k_ticket c = None \<and> \<not> k_runDone c \<and> k_once c \<noteq> OnceRunning True"
| "worker_ok c WRun \<longleftrightarrow> k_ticketChecked c \<and> \<not> k_runDone c \<and> k_once c \<noteq> OnceRunning True"
| "worker_ok c WPush \<longleftrightarrow> k_ticketChecked c \<and> k_sync c \<and> \<not> k_runDone c \<and> k_once c \<noteq> OnceRunning True"
| "worker_ok c (WDo b) \<longleftrightarrow> k_ticketChecked c \<and> do_ok (k_sync c) (k_runDone c) b \<and> k_once c \<noteq> OnceRunning True"
| "worker_ok c WInDo \<longleftrightarrow> k_ticketChecked c \<and> k_once c = OnceRunning True"
| "worker_ok c WFinish \<longleftrightarrow> k_ticketChecked c \<and> k_once c = OnceDone"
| "worker_ok c WDone \<longleftrightarrow> k_ticketChecked c \<and> k_once c = OnceDone"

fun watcher_ok :: "command \<Rightarrow> watcher_pc \<Rightarrow> bool" where
  "watcher_ok c TSelect \<longleftrightarrow> k_once c \<noteq> OnceRunning False \<and> k_finished c = (if k_worker c = WDone then 1 else 0)"
| "watcher_ok c (TDo b) \<longleftrightarrow> do_ok (k_sync c) (k_runDone c) b \<and> k_once c \<noteq> OnceRunning False
     \<and> k_finished c = (if k_worker c = WDone then 1 else 0)"
| "watcher_ok c TInDo \<longleftrightarrow> k_once c = OnceRunning False \<and> k_finished c = 0"
| "watcher_ok c TDone \<longleftrightarrow> k_once c = OnceDone \<and> k_finished c \<le> (if k_worker c = WDone then 1 else 0)"

definition pushes :: "command \<Rightarrow> nat" where
  "pushes c = (if k_runDone c then 1 else 0) + (if k_fallbackDone c then 1 else 0)"

fun caller_ok :: "command \<Rightarrow> caller_pc \<Rightarrow> bool" where
  "caller_ok c CWait \<longleftrightarrow> k_errChan c = k_sent c \<and> k_done c = pushes c"
| "caller_ok c (CReturned None) \<longleftrightarrow> k_errChan c = k_sent c \<and> k_done c + 1 = pushes c"
| "caller_ok c (CReturned (Some e)) \<longleftrightarrow> k_errChan c = [] \<and> k_sent c = [e] \<and> k_done c = pushes c"

definition cmd_ok :: "command \<Rightarrow> bool" where
  "cmd_ok c \<longleftrightarrow> body_ok c \<and> worker_ok c (k_worker c) \<and> watcher_ok c (k_watcher c) \<and> caller_ok c (k_caller c) \<and> k_done c \<le> 1
     \<and> (k_runDone c \<longrightarrow> k_sync c)"

lemma cmd_ok_new: "cmd_ok (new_command fallback sync start)"
  by (simp add: cmd_ok_def new_command_def body_ok_def untouched_def pushes_def)


lemma worker_ok_same:
  "k_ticketChecked c' = k_ticketChecked c \<Longrightarrow> k_ticket c' = k_ticket c \<Longrightarrow> k_runDone c' = k_runDone c \<Longrightarrow> k_once c' = k_once c
   \<Longrightarrow> k_sync c' = k_sync c \<Longrightarrow> worker_ok c' w \<longleftrightarrow> worker_ok c w"
  by (cases w) simp_all

lemma watcher_ok_same:
  "k_runDone c' = k_runDone c \<Longrightarrow> k_once c' = k_once c \<Longrightarrow> k_sync c' = k_sync c \<Longrightarrow> k_finished c' = k_finished c
   \<Longrightarrow> k_worker c' = WDone \<longleftrightarrow> k_worker c = WDone \<Longrightarrow> watcher_ok c' w \<longleftrightarrow> watcher_ok c w"
  by (cases w) simp_all

lemma caller_ok_same:
  "k_errChan c' = k_errChan c \<Longrightarrow> k_sent c' = k_sent c \<Longrightarrow> k_done c' = k_done c \<Longrightarrow> k_runDone c' = k_runDone c
   \<Longrightarrow> k_fallbackDone c' = k_fallbackDone c \<Longrightarrow> caller_ok c' w \<longleftrightarrow> caller_ok c w"
  by (cases "(c, w)" rule: caller_ok.cases) (simp_all add: pushes_def)

lemma body_ok_same:
  "k_once c' = k_once c \<Longrightarrow> k_body c' = k_body c \<Longrightarrow> k_locked c' = k_locked c \<Longrightarrow> k_ticket c' = k_ticket c
   \<Longrightarrow> k_ticketChecked c' = k_ticketChecked c \<Longrightarrow> k_sync c' = k_sync c \<Longrightarrow> k_hasFallback c' = k_hasFallback c
   \<Longrightarrow> k_runDone c' = k_runDone c \<Longrightarrow> k_events c' = k_events c \<Longrightarrow> k_sent c' = k_sent c \<Longrightarrow> k_reports c' = k_reports c
   \<Longrightarrow> k_fallbackDone c' = k_fallbackDone c \<Longrightarrow> k_returned c' = k_returned c \<Longrightarrow> body_ok c' \<longleftrightarrow> body_ok c"
  by (simp add: body_ok_def untouched_def split: once.split)

lemmas same_fields = worker_ok_same watcher_ok_same caller_ok_same body_ok_same

text \<open>The bodies at an action: what the invariant says when the body starts with it.\<close>

lemma body_running: "body_ok c \<Longrightarrow> k_body c = a # b \<Longrightarrow> \<exists>who. k_once c = OnceRunning who"
  by (cases "k_once c") (auto simp: body_ok_def)

lemma body_at_duration:
  "body_ok c \<Longrightarrow> k_body c = ASetDuration # b \<Longrightarrow> untouched c \<and> \<not> k_locked c \<and> do_ok (k_sync c) (k_runDone c) b"
  by (auto simp: body_ok_def do_ok_def rest_heads tail_ok_def split: once.splits)

lemma body_at_return:
  "body_ok c \<Longrightarrow> k_body c = AReturn # b \<Longrightarrow> untouched c \<and> \<not> k_locked c \<and> tail_ok (k_sync c) (k_runDone c) b"
  by (auto simp: body_ok_def do_ok_def rest_heads tail_ok_def split: once.splits)

lemma body_at_push:
  "body_ok c \<Longrightarrow> k_body c = APush # b \<Longrightarrow> untouched c \<and> k_locked c \<and> k_ticket c \<noteq> None \<and> tail_ok (k_sync c) (k_runDone c) b"
  by (auto simp: body_ok_def do_ok_def rest_heads tail_ok_def split: once.splits)

lemma body_at_rest:
  "body_ok c \<Longrightarrow> k_body c = a # b \<Longrightarrow> a \<noteq> ASetDuration \<Longrightarrow> a \<noteq> AReturn \<Longrightarrow> a \<noteq> APush \<Longrightarrow>
   k_returned c \<and> \<not> k_locked c \<and> k_ticketChecked c
   \<and> rest (k_hasFallback c) (k_sync c) (k_runDone c) (a # b) (k_events c) (k_sent c) (k_fallbackDone c) (k_reports c)"
  by (auto simp: body_ok_def do_ok_def split: once.splits)

lemma body_ok_restI:
  "k_once c = OnceRunning who \<Longrightarrow> k_returned c \<Longrightarrow> \<not> k_locked c \<Longrightarrow> k_ticketChecked c \<Longrightarrow>
   rest (k_hasFallback c) (k_sync c) (k_runDone c) (k_body c) (k_events c) (k_sent c) (k_fallbackDone c) (k_reports c) \<Longrightarrow> body_ok c"
  by (simp add: body_ok_def)

text \<open>An action of the body changes nothing the goroutines look at.\<close>

lemma action_ok:
  assumes "cmd_ok c" and "body_ok c'" and "caller_ok c' (k_caller c')" and "k_done c' \<le> 1"
    and "k_ticketChecked c' = k_ticketChecked c" "k_ticket c' = k_ticket c" "k_runDone c' = k_runDone c" "k_once c' = k_once c"
      "k_sync c' = k_sync c" "k_finished c' = k_finished c" "k_worker c' = k_worker c" "k_watcher c' = k_watcher c"
  shows "cmd_ok c'"
  using assms(1-4) worker_ok_same [OF assms(5-9), of "k_worker c"]
    watcher_ok_same [OF assms(7-10), of "k_watcher c"] assms(7,9,11,12)
  by (simp add: cmd_ok_def)

lemma pushes_run: "\<not> k_runDone c \<Longrightarrow> pushes (c\<lparr>k_done := d, k_runDone := True, k_worker := w\<rparr>) = pushes c + 1"
  by (simp add: pushes_def)

lemma caller_ok_push:
  "caller_ok c (k_caller c) \<Longrightarrow> k_errChan c' = k_errChan c \<Longrightarrow> k_sent c' = k_sent c \<Longrightarrow> k_done c' = k_done c + 1 \<Longrightarrow>
   pushes c' = pushes c + 1 \<Longrightarrow> caller_ok c' (k_caller c)"
  by (cases "(c, k_caller c)" rule: caller_ok.cases) simp_all

lemma body_ok_run: "body_ok c \<Longrightarrow> k_runDone c \<longrightarrow> rd \<Longrightarrow> body_ok (c\<lparr>k_done := d, k_runDone := rd, k_worker := w\<rparr>)"
  unfolding body_ok_def untouched_def do_ok_def tail_ok_def by (auto split: once.splits intro: rest_run)

lemma watcher_ok_run:
  "watcher_ok c w \<Longrightarrow> k_runDone c \<longrightarrow> rd \<Longrightarrow> k_worker c \<noteq> WDone \<Longrightarrow> v \<noteq> WDone \<Longrightarrow> watcher_ok (c\<lparr>k_done := d, k_runDone := rd, k_worker := v\<rparr>) w"
  by (cases w) (auto simp: do_ok_def tail_ok_def)


lemma y_cmds_put [simp]: "y_cmds (put i c s) = (y_cmds s)(i := c)"
  by (simp add: put_def)

lemma y_cmds_set_pool [simp]: "y_cmds (set_pool p s) = y_cmds s"
  by (simp add: set_pool_def)

lemma cmd_step_other: "cmd_step ops plat i s s' \<Longrightarrow> j \<noteq> i \<Longrightarrow> y_cmds s' j = y_cmds s j"
  by (induction rule: cmd_step.induct) simp_all

lemma env_step_cmds: "env_step ops s s' \<Longrightarrow> y_cmds s' = y_cmds s"
  by (induction rule: env_step.induct) simp_all

lemma cmd_okD:
  assumes "cmd_ok c"
  shows "body_ok c" "worker_ok c (k_worker c)" "watcher_ok c (k_watcher c)" "caller_ok c (k_caller c)" "k_done c \<le> 1"
    "k_runDone c \<Longrightarrow> k_sync c"
  using assms by (auto simp: cmd_ok_def)

text \<open>A step of the worker that only moves it along before the body.\<close>

lemma worker_move_ok:
  assumes "cmd_ok c" and "c' = c\<lparr>k_ticket := t, k_ticketChecked := b, k_worker := w\<rparr>" and "k_worker c \<noteq> WDone" "w \<noteq> WDone"
    and "worker_ok c' w" and "b \<or> \<not> k_ticketChecked c" and "k_ticket c = None \<or> t = k_ticket c" and "k_ticketChecked c \<longrightarrow> b"
  shows "cmd_ok c'"
proof -
  have "body_ok c'"
    using cmd_okD(1) [OF assms(1)] assms(6-8) unfolding assms(2) body_ok_def untouched_def by (auto split: once.splits)
  moreover have "watcher_ok c' (k_watcher c)"
    using cmd_okD(3) [OF assms(1)] assms(3,4) watcher_ok_same [of c' c] unfolding assms(2) by simp
  moreover have "caller_ok c' (k_caller c)"
    using cmd_okD(4) [OF assms(1)] caller_ok_same [of c' c] unfolding assms(2) by simp
  ultimately show ?thesis using cmd_okD [OF assms(1)] assms(5) by (simp add: cmd_ok_def assms(2))
qed

lemma cmd_step_ok: "cmd_step ops plat i s s' \<Longrightarrow> cmd_ok (y_cmds s i) \<Longrightarrow> cmd_ok (y_cmds s' i)"
proof (induction rule: cmd_step.induct)
  case (w_allow c s clk allowed sm circuit)
  then show ?case using worker_move_ok [of c _ "if allowed then WTicket else WRefused" "k_ticketChecked c" "k_ticket c"] cmd_okD(2) [of c] by simp
next
  case (w_refused c s)
  then show ?case
    using worker_move_ok [of c _ "WDo (error_body ErrCircuitOpen)" True "k_ticket c"] cmd_okD(2) [of c] do_ok_error by simp
next
  case (w_ticket c s t p)
  then show ?case using worker_move_ok [of c _ WRun True "Some t"] cmd_okD(2) [of c] by simp
next
  case (w_full c s p)
  then show ?case
    using worker_move_ok [of c _ "WDo (error_body ErrMaxConcurrency)" True "k_ticket c"] cmd_okD(2) [of c] do_ok_error by simp
next
  case (w_run c s runErr)
  then show ?case
    using worker_move_ok [of c _ "if runErr = None \<and> k_sync c then WPush else WDo (run_body runErr)" "k_ticketChecked c" "k_ticket c"]
      cmd_okD(2) [of c] do_ok_run [of runErr "k_sync c" "k_runDone c"] by auto
next
  case (w_push c s)
  let ?c = "c\<lparr>k_done := k_done c + 1, k_runDone := True, k_worker := WDo (run_body None)\<rparr>"
  have ok: "cmd_ok c" using w_push by simp
  have w: "k_ticketChecked c" "k_sync c" "\<not> k_runDone c" "k_once c \<noteq> OnceRunning True" using cmd_okD(2) [OF ok] w_push(2) by simp_all
  have "caller_ok ?c (k_caller c)" by (rule caller_ok_push [OF cmd_okD(4) [OF ok]]) (simp_all add: pushes_def w(3))
  then show ?case
    using w w_push body_ok_run [OF cmd_okD(1) [OF ok], of True] watcher_ok_run [OF cmd_okD(3) [OF ok], of True "WDo (run_body None)"]
      do_ok_run [of None "k_sync c" True] by (simp add: cmd_ok_def)
next
  case (w_do c s b)
  have ok: "cmd_ok c" using w_do by simp
  show ?case
    using cmd_okD [OF ok] w_do caller_ok_same [of "c\<lparr>k_once := OnceRunning True, k_body := b, k_worker := WInDo\<rparr>" c]
    by (cases "k_watcher c") (auto simp: cmd_ok_def body_ok_def untouched_def)
next
  case (w_skip c s b)
  have ok: "cmd_ok c" using w_skip by simp
  show ?case
    using cmd_okD [OF ok] w_skip caller_ok_same [of "c\<lparr>k_worker := WFinish\<rparr>" c] body_ok_same [of "c\<lparr>k_worker := WFinish\<rparr>" c]
    by (cases "k_watcher c") (auto simp: cmd_ok_def)
next
  case (w_out c s)
  have ok: "cmd_ok c" using w_out by simp
  have once: "k_once c = OnceRunning True" using cmd_okD(2) [OF ok] w_out by simp
  show ?case
    using cmd_okD [OF ok] w_out once caller_ok_same [of "c\<lparr>k_once := OnceDone, k_worker := WFinish\<rparr>" c]
    by (cases "k_watcher c") (auto simp: cmd_ok_def body_ok_def do_ok_def)
next
  case (w_finish c s)
  have ok: "cmd_ok c" using w_finish by simp
  show ?case
    using cmd_okD [OF ok] w_finish caller_ok_same [of "c\<lparr>k_finished := k_finished c + 1, k_worker := WDone\<rparr>" c]
      body_ok_same [of "c\<lparr>k_finished := k_finished c + 1, k_worker := WDone\<rparr>" c]
    by (cases "k_watcher c") (auto simp: cmd_ok_def)
next
  case (t_finished c s)
  let ?c = "c\<lparr>k_finished := k_finished c - 1, k_watcher := TDone\<rparr>"
  have ok: "cmd_ok c" using t_finished by simp
  have w: "k_worker c = WDone" "k_finished c = 1" using cmd_okD(3) [OF ok] t_finished by (auto split: if_splits)
  show ?case
    using cmd_okD [OF ok] t_finished w caller_ok_same [of ?c c] body_ok_same [of ?c c] by (simp add: cmd_ok_def)
next
  case (t_context c s e)
  let ?c = "c\<lparr>k_watcher := TDo (error_body e)\<rparr>"
  have ok: "cmd_ok c" using t_context by simp
  show ?case
    using cmd_okD [OF ok] t_context(1,2) caller_ok_same [of ?c c] body_ok_same [of ?c c] worker_ok_same [of ?c c] do_ok_error
    by (simp add: cmd_ok_def)
next
  case (t_timeout c s)
  let ?c = "c\<lparr>k_watcher := TDo (error_body ErrTimeout)\<rparr>"
  have ok: "cmd_ok c" using t_timeout by simp
  show ?case
    using cmd_okD [OF ok] t_timeout(1,2) caller_ok_same [of ?c c] body_ok_same [of ?c c] worker_ok_same [of ?c c] do_ok_error
    by (simp add: cmd_ok_def)
next
  case (t_do c s b)
  have ok: "cmd_ok c" using t_do by simp
  show ?case
    using cmd_okD [OF ok] t_do caller_ok_same [of "c\<lparr>k_once := OnceRunning False, k_body := b, k_watcher := TInDo\<rparr>" c]
    by (cases "k_worker c") (auto simp: cmd_ok_def body_ok_def untouched_def)
next
  case (t_skip c s b)
  have ok: "cmd_ok c" using t_skip by simp
  show ?case
    using cmd_okD [OF ok] t_skip caller_ok_same [of "c\<lparr>k_watcher := TDone\<rparr>" c] body_ok_same [of "c\<lparr>k_watcher := TDone\<rparr>" c]
      worker_ok_same [of "c\<lparr>k_watcher := TDone\<rparr>" c]
    by (auto simp: cmd_ok_def)
next
  case (t_out c s)
  have ok: "cmd_ok c" using t_out by simp
  have once: "k_once c = OnceRunning False" using cmd_okD(3) [OF ok] t_out by simp
  show ?case
    using cmd_okD [OF ok] t_out once caller_ok_same [of "c\<lparr>k_once := OnceDone, k_watcher := TDone\<rparr>" c]
    by (cases "k_worker c") (auto simp: cmd_ok_def body_ok_def do_ok_def)
next
  case (b_duration c s b d)
  have ok: "cmd_ok c" using b_duration by simp
  note body = body_at_duration [OF cmd_okD(1) [OF ok] b_duration(2)]
  obtain who where once: "k_once c = OnceRunning who" using body_running [OF cmd_okD(1) [OF ok] b_duration(2)] by blast
  have "cmd_ok (c\<lparr>k_runDuration := d, k_body := b\<rparr>)"
    using caller_ok_same [of "c\<lparr>k_runDuration := d, k_body := b\<rparr>" c] cmd_okD [OF ok] body once by (intro action_ok [OF ok]) (simp_all add: body_ok_def untouched_def)
  then show ?case by simp
next
  case (b_return_nil c s b)
  have ok: "cmd_ok c" using b_return_nil by simp
  note body = body_at_return [OF cmd_okD(1) [OF ok] b_return_nil(2)]
  obtain who where once: "k_once c = OnceRunning who" using body_running [OF cmd_okD(1) [OF ok] b_return_nil(2)] by blast
  have r: "rest (k_hasFallback c) (k_sync c) (k_runDone c) b [] [] False []" using tail_rest body by blast
  have "cmd_ok (c\<lparr>k_returned := True, k_body := b\<rparr>)"
    using caller_ok_same [of "c\<lparr>k_returned := True, k_body := b\<rparr>" c] cmd_okD [OF ok] body once b_return_nil(3) r
    by (intro action_ok [OF ok]) (simp_all add: body_ok_restI untouched_def)
  then show ?case by simp
next
  case (b_return c s b t p)
  have ok: "cmd_ok c" using b_return by simp
  note body = body_at_return [OF cmd_okD(1) [OF ok] b_return(2)]
  obtain who where once: "k_once c = OnceRunning who" using body_running [OF cmd_okD(1) [OF ok] b_return(2)] by blast
  have "cmd_ok (c\<lparr>k_locked := True, k_body := APush # b\<rparr>)"
    using caller_ok_same [of "c\<lparr>k_locked := True, k_body := APush # b\<rparr>" c] cmd_okD [OF ok] body once b_return(5)
    by (intro action_ok [OF ok]) (simp_all add: body_ok_def untouched_def)
  then show ?case by simp
next
  case (b_push c s b t p)
  have ok: "cmd_ok c" using b_push by simp
  note body = body_at_push [OF cmd_okD(1) [OF ok] b_push(2)]
  obtain who where once: "k_once c = OnceRunning who" using body_running [OF cmd_okD(1) [OF ok] b_push(2)] by blast
  have r: "rest (k_hasFallback c) (k_sync c) (k_runDone c) b [] [] False []" using tail_rest body by blast
  have checked: "k_ticketChecked c" using cmd_okD(2) [OF ok] b_push(3) by (cases "k_worker c") auto
  have "cmd_ok (c\<lparr>k_locked := False, k_returned := True, k_body := b\<rparr>)"
    using caller_ok_same [of "c\<lparr>k_locked := False, k_returned := True, k_body := b\<rparr>" c] cmd_okD [OF ok] body once checked r
    by (intro action_ok [OF ok]) (simp_all add: body_ok_restI untouched_def)
  then show ?case by simp
next
  case (b_event c s e b)
  have ok: "cmd_ok c" using b_event by simp
  note body = body_at_rest [OF cmd_okD(1) [OF ok] b_event(2), simplified]
  obtain who where once: "k_once c = OnceRunning who" using body_running [OF cmd_okD(1) [OF ok] b_event(2)] by blast
  have "cmd_ok (c\<lparr>k_events := k_events c @ [e], k_body := b\<rparr>)"
    using caller_ok_same [of "c\<lparr>k_events := k_events c @ [e], k_body := b\<rparr>" c] cmd_okD [OF ok] body once
    by (intro action_ok [OF ok]) (simp_all add: body_ok_restI rest_event)
  then show ?case by simp
next
  case (b_fallback c s err b res)
  have ok: "cmd_ok c" using b_fallback by simp
  note body = body_at_rest [OF cmd_okD(1) [OF ok] b_fallback(2), simplified]
  obtain who where once: "k_once c = OnceRunning who" using body_running [OF cmd_okD(1) [OF ok] b_fallback(2)] by blast
  have "cmd_ok (c\<lparr>k_body := after_fallback (k_hasFallback c) (k_sync c) err res @ b\<rparr>)"
    using caller_ok_same [of "c\<lparr>k_body := after_fallback (k_hasFallback c) (k_sync c) err res @ b\<rparr>" c] cmd_okD [OF ok] body once
    by (intro action_ok [OF ok]) (simp_all add: body_ok_restI rest_after_fallback)
  then show ?case by simp
next
  case (b_done c s b)
  let ?c = "c\<lparr>k_done := k_done c + 1, k_fallbackDone := True, k_body := b\<rparr>"
  have ok: "cmd_ok c" using b_done by simp
  note body = body_at_rest [OF cmd_okD(1) [OF ok] b_done(2), simplified]
  obtain who where once: "k_once c = OnceRunning who" using body_running [OF cmd_okD(1) [OF ok] b_done(2)] by blast
  have nf: "\<not> k_fallbackDone c" using body by (auto elim: rest_doneE)
  have "caller_ok ?c (k_caller c)" by (rule caller_ok_push [OF cmd_okD(4) [OF ok]]) (simp_all add: pushes_def nf)
  moreover have "rest (k_hasFallback c) (k_sync c) (k_runDone c) b (k_events c) (k_sent c) True (k_reports c)"
    using body rest_after_done by blast
  ultimately have "cmd_ok ?c"
    using cmd_okD [OF ok] body once b_done(3) by (intro action_ok [OF ok]) (simp_all add: body_ok_restI)
  then show ?case by simp
next
  case (b_send c s e b)
  let ?c = "c\<lparr>k_errChan := k_errChan c @ [e], k_sent := k_sent c @ [e], k_body := b\<rparr>"
  have ok: "cmd_ok c" using b_send by simp
  note body = body_at_rest [OF cmd_okD(1) [OF ok] b_send(2), simplified]
  obtain who where once: "k_once c = OnceRunning who" using body_running [OF cmd_okD(1) [OF ok] b_send(2)] by blast
  have "k_sent c = []" using body by (auto elim: rest_sendE)
  then have "caller_ok ?c (k_caller c)"
    using cmd_okD(4) [OF ok] by (cases "(c, k_caller c)" rule: caller_ok.cases) (simp_all add: pushes_def)
  then have "cmd_ok ?c"
    using cmd_okD [OF ok] body once
    by (intro action_ok [OF ok]) (simp_all add: body_ok_restI rest_after_send)
  then show ?case by simp
next
  case (b_report c s b r circuit)
  have ok: "cmd_ok c" using b_report by simp
  note body = body_at_rest [OF cmd_okD(1) [OF ok] b_report(2), simplified]
  obtain who where once: "k_once c = OnceRunning who" using body_running [OF cmd_okD(1) [OF ok] b_report(2)] by blast
  have "cmd_ok (c\<lparr>k_reports := k_reports c @ [k_events c], k_body := b\<rparr>)"
    using caller_ok_same [of "c\<lparr>k_reports := k_reports c @ [k_events c], k_body := b\<rparr>" c] cmd_okD [OF ok] body once
    by (intro action_ok [OF ok]) (simp_all add: body_ok_restI rest_after_report)
  then show ?case by simp
next
  case (c_nil c s)
  let ?c = "c\<lparr>k_done := k_done c - 1, k_caller := CReturned None\<rparr>"
  have ok: "cmd_ok c" using c_nil by simp
  have "pushes ?c = pushes c" by (simp add: pushes_def)
  then show ?case
    using cmd_okD [OF ok] c_nil body_ok_same [of ?c c] worker_ok_same [of ?c c] watcher_ok_same [of ?c c]
    by (simp add: cmd_ok_def)
next
  case (c_error c s e es)
  let ?c = "c\<lparr>k_errChan := es, k_caller := CReturned (Some e)\<rparr>"
  have ok: "cmd_ok c" using c_error by simp
  have "k_sent c = e # es" using cmd_okD(4) [OF ok] c_error by simp
  moreover have "length (k_sent c) \<le> 1"
    using cmd_okD(1) [OF ok] rest_sent by (fastforce simp: body_ok_def untouched_def split: once.splits)
  ultimately have "k_sent c = [e]" "es = []" by simp_all
  then show ?case
    using cmd_okD [OF ok] c_error body_ok_same [of ?c c] worker_ok_same [of ?c c] watcher_ok_same [of ?c c]
    by (simp add: cmd_ok_def pushes_def)
qed

lemma sys_reach_ok:
  assumes "sys_reach ops plat s0 s" and "sys_start s0"
  shows "cmd_ok (y_cmds s i)"
  using assms
proof (induction arbitrary: i rule: sys_reach.induct)
  case sys_refl
  then show ?case using cmd_ok_new by (metis sys_start_def)
next
  case (sys_cmd s j s')
  then show ?case using cmd_step_ok [OF sys_cmd.hyps(2)] cmd_step_other [OF sys_cmd.hyps(2), of i] by (cases "i = j") auto
next
  case (sys_env s s')
  then show ?case using env_step_cmds [OF sys_env.hyps(2)] by simp
qed

end
