(* ===== verification/HystrixRuns.thy ===== *)
theory HystrixRuns
  imports HystrixCommand
begin

text \<open>
  What holds in every run of the executions on one circuit: the tickets of the pool are conserved, every execution has
  exactly one outcome and ends, and the run functions themselves may outnumber the tickets.
\<close>

subsection \<open>Tickets\<close>

text \<open>The ticket an execution has out: taken, and not yet pushed back.\<close>

definition held :: "command \<Rightarrow> nat option" where
  "held c = (if k_returned c then None else k_ticket c)"

lemma setOpen_pool [simp]: "c_executorPool (setOpen now c) = c_executorPool c"
  by (simp add: setOpen_def)

lemma setClose_pool [simp]: "c_executorPool (setClose ops c) = c_executorPool c"
  by (simp add: setClose_def)

lemma IsOpen_pool: "IsOpen plat now1 now2 now3 sm c = Some (b, sm', c') \<Longrightarrow> c_executorPool c' = c_executorPool c \<and> c_metrics c' = c_metrics c"
  by (auto simp: IsOpen_def Let_def setOpen_def split: if_splits Option.bind_splits prod.splits)

lemma allowSingleTest_pool:
  "allowSingleTest now sm c = (b, sm', c') \<Longrightarrow> c_executorPool c' = c_executorPool c \<and> c_metrics c' = c_metrics c"
  by (auto simp: allowSingleTest_def swap_time_def Let_def split: if_splits)

lemma AllowRequest_pool:
  "AllowRequest plat clk sm c = Some (b, sm', c') \<Longrightarrow> c_executorPool c' = c_executorPool c \<and> c_metrics c' = c_metrics c"
  by (auto simp: AllowRequest_def split: if_splits Option.bind_splits prod.splits dest!: IsOpen_pool allowSingleTest_pool)

lemma ReportEvent_pool: "ReportEvent ops tys start d c = (r, c') \<Longrightarrow> c_executorPool c' = c_executorPool c"
  by (auto simp: ReportEvent_def Let_def split: if_splits list.splits)

lemma pool_simps [simp]:
  "pool (put i c s) = pool s" "pool (set_pool p s) = p" "pool (s\<lparr>y_settings := sm\<rparr>) = pool s"
  "pool (s\<lparr>y_circuit := circuit\<rparr>) = c_executorPool circuit"
  by (simp_all add: pool_def put_def set_pool_def)

text \<open>What a step does to the tickets: nothing, or it takes one, or it puts the held one back.\<close>

lemma held_simps [simp]:
  "held (c\<lparr>k_locked := v_k_locked\<rparr>) = held c"
  "held (c\<lparr>k_ticketChecked := v_k_ticketChecked\<rparr>) = held c"
  "held (c\<lparr>k_runDuration := v_k_runDuration\<rparr>) = held c"
  "held (c\<lparr>k_events := v_k_events\<rparr>) = held c"
  "held (c\<lparr>k_errChan := v_k_errChan\<rparr>) = held c"
  "held (c\<lparr>k_finished := v_k_finished\<rparr>) = held c"
  "held (c\<lparr>k_done := v_k_done\<rparr>) = held c"
  "held (c\<lparr>k_once := v_k_once\<rparr>) = held c"
  "held (c\<lparr>k_body := v_k_body\<rparr>) = held c"
  "held (c\<lparr>k_worker := v_k_worker\<rparr>) = held c"
  "held (c\<lparr>k_watcher := v_k_watcher\<rparr>) = held c"
  "held (c\<lparr>k_caller := v_k_caller\<rparr>) = held c"
  "held (c\<lparr>k_sent := v_k_sent\<rparr>) = held c"
  "held (c\<lparr>k_reports := v_k_reports\<rparr>) = held c"
  "held (c\<lparr>k_runDone := v_k_runDone\<rparr>) = held c"
  "held (c\<lparr>k_fallbackDone := v_k_fallbackDone\<rparr>) = held c"
  by (simp_all add: held_def)

lemma held_same: "(\<lambda>j. held ((f(i := c)) j)) = (\<lambda>j. held (f j))" if "held c = held (f i)"
  using that by (intro ext) simp

lemma held_upd: "(\<lambda>j. held ((f(i := c)) j)) = (\<lambda>j. held (f j))(i := held c)"
  by (intro ext) simp

lemma conserved_same:
  "tickets.conserved p h \<Longrightarrow> p_Max p' = p_Max p \<Longrightarrow> p_Tickets p' = p_Tickets p \<Longrightarrow> tickets.conserved p' h"
  by (simp add: tickets.conserved_def)

lemma cmd_step_tickets:
  "cmd_step ops plat i s s' \<Longrightarrow> cmd_ok (y_cmds s i) \<Longrightarrow> tickets.conserved (pool s) (\<lambda>j. held (y_cmds s j)) \<Longrightarrow>
   p_Max (pool s') = p_Max (pool s) \<and> tickets.conserved (pool s') (\<lambda>j. held (y_cmds s' j))"
proof (induction rule: cmd_step.induct)
  case (w_allow c s clk allowed sm circuit)
  then show ?case using AllowRequest_pool [OF w_allow(3)] by (cases allowed) (simp_all add: pool_def put_def held_same del: fun_upd_apply)
next
  case (w_ticket c s t p)
  have ok: "cmd_ok c" using w_ticket by simp
  have k: "k_ticket c = None" "\<not> k_ticketChecked c" using cmd_okD(2) [OF ok] w_ticket(2) by simp_all
  have "\<not> k_returned c" using cmd_okD(1) [OF ok] k(2) by (auto simp: body_ok_def untouched_def split: once.splits)
  then have "held c = None" "held (c\<lparr>k_ticket := Some t, k_ticketChecked := True, k_worker := WRun\<rparr>) = Some t"
    using k(1) by (simp_all add: held_def)
  then show ?case
    using tickets.conserved_take [OF w_ticket(6,4), of i] tickets.take_some [OF w_ticket(4)] w_ticket(1)
    by (simp add: held_upd del: fun_upd_apply)
next
  case (b_return c s b t p)
  then have "p_Max p = p_Max (pool s)" "p_Tickets p = p_Tickets (pool s)" by (auto simp: Return_report_def split: Option.bind_splits)
  then show ?case using b_return conserved_same [of "pool s" _ p] by (simp add: held_same del: fun_upd_apply)
next
  case (b_push c s b t p)
  have "\<not> k_returned c" using body_at_push [OF cmd_okD(1)] b_push by (simp add: untouched_def)
  then have "held c = Some t" "held (c\<lparr>k_locked := False, k_returned := True, k_body := b\<rparr>) = None"
    using b_push(3) by (simp_all add: held_def)
  then show ?case
    using tickets.conserved_give [OF b_push(6,4), of i] tickets.give_some [OF b_push(4)] b_push(1)
    by (simp add: held_upd del: fun_upd_apply)
next
  case (b_report c s b r circuit)
  then show ?case using ReportEvent_pool [OF b_report(3)] by (simp add: pool_def put_def held_same del: fun_upd_apply)
next
  case (b_return_nil c s b)
  then have "held (c\<lparr>k_returned := True, k_body := b\<rparr>) = held c" by (simp add: held_def)
  then show ?case using b_return_nil by (simp add: held_same del: fun_upd_apply)
qed (simp_all add: held_same del: fun_upd_apply)

lemma env_step_tickets: "env_step ops s s' \<Longrightarrow> p_Max (pool s') = p_Max (pool s) \<and> p_Tickets (pool s') = p_Tickets (pool s)"
  by (induction rule: env_step.induct) (simp_all add: pool_def set_pool_def)

lemma sys_reach_tickets:
  assumes "sys_reach ops plat s0 s" and "sys_start s0"
  shows "p_Max (pool s) = p_Max (pool s0) \<and> tickets.conserved (pool s) (\<lambda>i. held (y_cmds s i))"
  using assms
proof (induction rule: sys_reach.induct)
  case sys_refl
  have "held (new_command fb sync start) = None" for fb sync start by (simp add: held_def new_command_def)
  then have "held (y_cmds s0 i) = None" for i using sys_refl unfolding sys_start_def by metis
  then show ?case using sys_refl by (auto simp: sys_start_def owners_ok_def tickets.conserved_def)
next
  case (sys_cmd s i s')
  then show ?case using cmd_step_tickets [OF sys_cmd.hyps(2) sys_reach_ok [OF sys_cmd.hyps(1) sys_cmd.prems]] by simp
next
  case (sys_env s s')
  then show ?case
    using env_step_tickets [OF sys_env.hyps(2)] env_step_cmds [OF sys_env.hyps(2)] conserved_same [of "pool s" _ "pool s'"] by simp
qed

subsection \<open>Progress\<close>

fun worker_left :: "worker_pc \<Rightarrow> nat" where
  "worker_left WStart = 7"
| "worker_left WRefused = 6"
| "worker_left WTicket = 6"
| "worker_left WRun = 5"
| "worker_left WPush = 4"
| "worker_left (WDo _) = 3"
| "worker_left WInDo = 2"
| "worker_left WFinish = 1"
| "worker_left WDone = 0"

fun watcher_left :: "watcher_pc \<Rightarrow> nat" where
  "watcher_left TSelect = 3"
| "watcher_left (TDo _) = 2"
| "watcher_left TInDo = 1"
| "watcher_left TDone = 0"

fun action_left :: "action \<Rightarrow> nat" where
  "action_left AReturn = 2"
| "action_left (AFallback _) = 3"
| "action_left _ = 1"

fun once_left :: "once \<Rightarrow> action list \<Rightarrow> nat" where
  "once_left OnceNew _ = 9"
| "once_left (OnceRunning _) b = sum_list (map action_left b)"
| "once_left OnceDone _ = 0"

text \<open>The steps an execution can still take.\<close>

definition effort :: "command \<Rightarrow> nat" where
  "effort c = worker_left (k_worker c) + watcher_left (k_watcher c) + once_left (k_once c) (k_body c) + (if k_caller c = CWait then 1 else 0)"

lemma do_ok_left: "do_ok sync rd b \<Longrightarrow> sum_list (map action_left b) \<le> 8"
  by (auto simp: do_ok_def tail_ok_def)

lemma cmd_step_effort: "cmd_step ops plat i s s' \<Longrightarrow> cmd_ok (y_cmds s i) \<Longrightarrow> effort (y_cmds s' i) < effort (y_cmds s i)"
proof (induction rule: cmd_step.induct)
  case (w_do c s b)
  then have "do_ok (k_sync c) (k_runDone c) b" using cmd_okD(2) [of c] by simp
  from do_ok_left [OF this] show ?case using w_do by (simp add: effort_def)
next
  case (t_do c s b)
  then have "do_ok (k_sync c) (k_runDone c) b" using cmd_okD(3) [of c] by simp
  from do_ok_left [OF this] show ?case using t_do by (simp add: effort_def)
next
  case (w_out c s)
  then have "k_once c = OnceRunning True" using cmd_okD(2) [of c] by simp
  then show ?case using w_out by (simp add: effort_def)
next
  case (t_out c s)
  then have "k_once c = OnceRunning False" using cmd_okD(3) [of c] by simp
  then show ?case using t_out by (simp add: effort_def)
next
  case (b_duration c s b d)
  then obtain who where "k_once c = OnceRunning who" using body_running [OF cmd_okD(1)] by blast
  then show ?case using b_duration by (simp add: effort_def)
next
  case (b_return_nil c s b)
  then obtain who where "k_once c = OnceRunning who" using body_running [OF cmd_okD(1)] by blast
  then show ?case using b_return_nil by (simp add: effort_def)
next
  case (b_return c s b t p)
  then obtain who where "k_once c = OnceRunning who" using body_running [OF cmd_okD(1)] by blast
  then show ?case using b_return by (simp add: effort_def)
next
  case (b_push c s b t p)
  then obtain who where "k_once c = OnceRunning who" using body_running [OF cmd_okD(1)] by blast
  then show ?case using b_push by (simp add: effort_def)
next
  case (b_event c s e b)
  then obtain who where "k_once c = OnceRunning who" using body_running [OF cmd_okD(1)] by blast
  then show ?case using b_event by (simp add: effort_def)
next
  case (b_fallback c s err b res)
  then obtain who where "k_once c = OnceRunning who" using body_running [OF cmd_okD(1)] by blast
  moreover have "sum_list (map action_left (after_fallback fb sync err res)) \<le> 2" for fb sync
    by (cases res) (simp_all add: after_fallback_def)
  ultimately show ?case using b_fallback by (simp add: effort_def le_imp_less_Suc order.strict_trans1 numeral_3_eq_3)
next
  case (b_done c s b)
  then obtain who where "k_once c = OnceRunning who" using body_running [OF cmd_okD(1)] by blast
  then show ?case using b_done by (simp add: effort_def)
next
  case (b_send c s e b)
  then obtain who where "k_once c = OnceRunning who" using body_running [OF cmd_okD(1)] by blast
  then show ?case using b_send by (simp add: effort_def)
next
  case (b_report c s b r circuit)
  then obtain who where "k_once c = OnceRunning who" using body_running [OF cmd_okD(1)] by blast
  then show ?case using b_report by (simp add: effort_def)
qed (auto simp: effort_def)

text \<open>The first collector stays the default one, so no step panics.\<close>

lemma default_first_iff: "default_first m \<longleftrightarrow> (\<exists>d cs. x_metricCollectors m = DefaultMC d # cs)"
  by (auto simp: default_first_def DefaultCollector_def split: list.splits metric_collector.splits)

lemma default_first_Reset [simp]: "default_first (exchange_Reset ops m) \<longleftrightarrow> default_first m"
proof (cases "x_metricCollectors m")
  case (Cons c cs)
  then show ?thesis by (cases c) (simp_all add: default_first_iff exchange_Reset_def)
qed (simp add: default_first_iff exchange_Reset_def)

lemma default_first_Monitor:
  assumes "Monitor_step ops now clks m = Some m'" and "default_first m"
  shows "default_first m'"
proof -
  obtain d cs where m: "x_metricCollectors m = DefaultMC d # cs" using assms(2) by (auto simp: default_first_iff)
  show ?thesis
  proof (cases "x_Updates m")
    case Nil
    then show ?thesis using assms by (simp add: Monitor_step_def)
  next
    case (Cons u us)
    then show ?thesis
      using assms(1) by (auto simp: Monitor_step_def m IncrementMetrics_def default_first_iff split: Option.bind_splits option.splits)
  qed
qed

lemma default_first_Report: "ReportEvent ops tys start d c = (r, c') \<Longrightarrow> default_first (c_metrics c') \<longleftrightarrow> default_first (c_metrics c)"
  by (auto simp: ReportEvent_def setClose_def default_first_def DefaultCollector_def Let_def exchange_Reset_def
      split: if_splits list.splits metric_collector.splits dest: sym)

lemma c_metrics_put [simp]:
  "y_circuit (put i c s) = y_circuit s" "c_metrics (y_circuit (set_pool p s)) = c_metrics (y_circuit s)"
  by (simp_all add: put_def set_pool_def)

lemma cmd_step_default:
  "cmd_step ops plat i s s' \<Longrightarrow> default_first (c_metrics (y_circuit s')) \<longleftrightarrow> default_first (c_metrics (y_circuit s))"
proof (induction rule: cmd_step.induct)
  case (w_allow c s clk allowed sm circuit)
  then show ?case using AllowRequest_pool [OF w_allow(3)] by simp
next
  case (b_report c s b r circuit)
  then show ?case using default_first_Report [OF b_report(3)] by simp
qed simp_all

lemma env_step_default: "env_step ops s s' \<Longrightarrow> default_first (c_metrics (y_circuit s)) \<Longrightarrow> default_first (c_metrics (y_circuit s'))"
  by (induction rule: env_step.induct) (auto intro: default_first_Monitor)

lemma sys_reach_default: "sys_reach ops plat s0 s \<Longrightarrow> sys_start s0 \<Longrightarrow> default_first (c_metrics (y_circuit s))"
  by (induction rule: sys_reach.induct) (auto simp: sys_start_def cmd_step_default env_step_default)

lemma AllowRequest_Some:
  assumes "default_first (c_metrics c)"
  shows "\<exists>r. AllowRequest plat clk sm c = Some r"
proof -
  obtain d where d: "DefaultCollector (c_metrics c) = Some d" using assms by (auto simp: default_first_def)
  have p: "\<exists>p. ErrorPercent plat t (c_metrics c) = Some p" for t by (simp add: ErrorPercent_def requestsLocked_def d Let_def)
  have h: "\<exists>h. IsHealthy plat t m (c_metrics c) = Some h" for t m
    using p [of t] by (auto simp: IsHealthy_def split: prod.split)
  have "\<exists>r. IsOpen plat t1 t2 t3 sm c = Some r" for t1 t2 t3
  proof (cases "getSettings (c_Name c) sm")
    case (Pair s m)
    obtain h m' where "IsHealthy plat (Unix t2) m (c_metrics c) = Some (h, m')" using h [of "Unix t2" m] by auto
    then show ?thesis by (simp add: IsOpen_def Requests_def requestsLocked_def d Pair ex_bool_eq)
  qed
  then obtain b m c' where "IsOpen plat (clk 0) (clk 1) (clk 2) sm c = Some (b, m, c')" by (metis prod_cases3)
  then show ?thesis by (cases "allowSingleTest (clk 3) m c'") (simp add: AllowRequest_def ex_bool_eq)
qed

text \<open>An execution that is over: both goroutines have ended, and the caller of \<open>Do\<close> has its answer.\<close>

definition finished :: "command \<Rightarrow> bool" where
  "finished c \<longleftrightarrow> k_worker c = WDone \<and> k_watcher c = TDone \<and> (k_sync c \<longrightarrow> k_caller c \<noteq> CWait)"

lemma worker_enabled:
  assumes ok: "cmd_ok c" and c: "c = y_cmds s i" and m: "default_first (c_metrics (y_circuit s))"
    and w: "k_worker c \<in> {WStart, WRefused, WTicket, WRun}"
  shows "\<exists>s'. cmd_step ops plat i s s'"
proof -
  have w2: "worker_ok c (k_worker c)" by (rule cmd_okD(2) [OF ok])
  have locked: "k_locked c \<Longrightarrow> k_ticket c \<noteq> None" using cmd_okD(1) [OF ok] by (auto simp: body_ok_def split: once.splits)
  consider "k_worker c = WStart" | "k_worker c = WRefused" | "k_worker c = WTicket" | "k_worker c = WRun" using w by auto
  then show ?thesis
  proof cases
    case 1
    obtain r where r: "AllowRequest plat (\<lambda>_. 0) (y_settings s) (y_circuit s) = Some r" using AllowRequest_Some [OF m] by blast
    then show ?thesis using w_allow [OF c 1] by (cases r) blast
  next
    case 2
    then have "\<not> k_locked c" using w2 locked by auto
    then show ?thesis using w_refused [OF c 2] by blast
  next
    case 3
    then have n: "\<not> k_locked c" using w2 locked by auto
    show ?thesis
    proof (cases "take_ticket (pool s)")
      case (Pair t p)
      then show ?thesis using w_ticket [OF c 3 n] w_full [OF c 3 n] by (cases t) blast+
    qed
  next
    case 4
    then show ?thesis using w_run [OF c 4] by blast
  qed
qed

text \<open>Whoever must send to \<open>done\<close> finds room, or its caller can make room.\<close>

lemma done_enabled:
  assumes ok: "cmd_ok c" and c: "c = y_cmds s i" and sync: "k_sync c" and p: "pushes c \<le> 1" and sent: "k_sent c = []"
    and "k_done c \<noteq> 0"
  shows "\<exists>s'. cmd_step ops plat i s s'"
proof -
  have "k_caller c = CWait"
    using cmd_okD(4) [OF ok] p sent assms(6) by (cases "(c, k_caller c)" rule: caller_ok.cases) auto
  then show ?thesis using c_nil [OF c sync] assms(6) by blast
qed

lemma body_enabled:
  assumes ok: "cmd_ok c" and c: "c = y_cmds s i" and m: "default_first (c_metrics (y_circuit s))"
    and own: "tickets.conserved (pool s) (\<lambda>i. held (y_cmds s i))"
    and free: "pm_Received (p_Metrics (pool s)) = None" and b: "k_body c = a # b"
  shows "\<exists>s'. cmd_step ops plat i s s'"
proof -
  note bok = cmd_okD(1) [OF ok]
  show ?thesis
  proof (cases a)
    case ASetDuration
    then show ?thesis using b_duration [OF c] b by blast
  next
    case AReturn
    then have n: "\<not> k_locked c" using body_at_return [OF bok] b by simp
    show ?thesis
    proof (cases "k_ticketChecked c")
      case True
      have "Return_report (pool s) \<noteq> None" using free by (simp add: Return_report_def send_update_def)
      then show ?thesis
        using b_return_nil [OF c _ True n] b_return [OF c _ True n] b AReturn by (cases "k_ticket c") blast+
    next
      case False
      then have "k_worker c \<in> {WStart, WRefused, WTicket, WRun}" using cmd_okD(2) [OF ok] by (cases "k_worker c") auto
      then show ?thesis by (rule worker_enabled [OF ok c m])
    qed
  next
    case APush
    then obtain t where t: "k_ticket c = Some t" "untouched c" using body_at_push [OF bok] b by auto
    then have "held (y_cmds s i) = Some t" unfolding c [symmetric] by (simp add: held_def untouched_def)
    then have "Return_ticket t (pool s) \<noteq> None" using tickets.holder_can_give [OF own, of i t] by auto
    then show ?thesis using b_push [OF c _ t(1)] b APush by blast
  next
    case (AEvent e)
    then show ?thesis using b_event [OF c] b body_at_rest [OF bok] by blast
  next
    case (AFallback e)
    then show ?thesis using b_fallback [OF c] b by blast
  next
    case ADone
    then have r: "rest (k_hasFallback c) (k_sync c) (k_runDone c) (ADone # b) (k_events c) (k_sent c) (k_fallbackDone c) (k_reports c)"
      using body_at_rest [OF bok b] by simp
    then have "k_sync c" "k_sent c = []" "\<not> k_fallbackDone c" by (auto elim: rest_doneE)
    then show ?thesis
      using done_enabled [OF ok c] b_done [OF c] b ADone by (cases "k_done c = 0") (auto simp: pushes_def)
  next
    case (ASend e)
    then have r: "rest (k_hasFallback c) (k_sync c) (k_runDone c) (ASend e # b) (k_events c) (k_sent c) (k_fallbackDone c) (k_reports c)"
      using body_at_rest [OF bok b] by simp
    then have "k_sent c = []" by (auto elim: rest_sendE)
    then have "k_errChan c = []" using cmd_okD(4) [OF ok] by (cases "(c, k_caller c)" rule: caller_ok.cases) auto
    then show ?thesis using b_send [OF c] b ASend by fastforce
  next
    case AReport
    then show ?thesis
      using b_report [OF c] b by (cases "ReportEvent ops (k_events c) (k_start c) (k_runDuration c) (y_circuit s)") blast
  qed
qed

lemma command_enabled:
  assumes ok: "cmd_ok c" and c: "c = y_cmds s i" and m: "default_first (c_metrics (y_circuit s))"
    and own: "tickets.conserved (pool s) (\<lambda>i. held (y_cmds s i))"
    and free: "pm_Received (p_Metrics (pool s)) = None" and unf: "\<not> finished c"
  shows "\<exists>s'. cmd_step ops plat i s s'"
proof (cases "k_body c")
  case (Cons a b)
  then show ?thesis by (rule body_enabled [OF ok c m own free])
next
  case Nil
  have w: "worker_ok c (k_worker c)" and t: "watcher_ok c (k_watcher c)" using cmd_okD [OF ok] by simp_all
  show ?thesis
  proof (cases "k_worker c")
    case WPush
    then have nr: "\<not> k_runDone c" and sync: "k_sync c" using w by simp_all
    have "k_sent c = []" if "k_fallbackDone c"
      using that cmd_okD(1) [OF ok] rest_sent by (fastforce simp: body_ok_def untouched_def split: once.splits)
    moreover have "k_done c = 0" if "k_sent c \<noteq> []" "\<not> k_fallbackDone c"
      using that nr cmd_okD(4) [OF ok] by (cases "(c, k_caller c)" rule: caller_ok.cases) (auto simp: pushes_def)
    ultimately have "k_done c \<noteq> 0 \<longrightarrow> k_sent c = []" by (cases "k_fallbackDone c"; cases "k_sent c = []") auto
    moreover have "pushes c \<le> 1" using nr by (simp add: pushes_def)
    ultimately show ?thesis
      using w_push [OF c WPush] done_enabled [OF ok c sync, of ops plat] by (cases "k_done c = 0") auto
  next
    case (WDo b)
    show ?thesis
    proof (cases "k_once c")
      case OnceNew
      then show ?thesis using w_do [OF c WDo] by blast
    next
      case (OnceRunning who)
      then have "k_watcher c = TInDo" using w t WDo by (cases who; cases "k_watcher c") auto
      then show ?thesis using t_out [OF c] Nil by blast
    next
      case OnceDone
      then show ?thesis using w_skip [OF c WDo] by blast
    qed
  next
    case WInDo
    then show ?thesis using w_out [OF c WInDo Nil] by blast
  next
    case WFinish
    then have "k_finished c < 1" using t w by (cases "k_watcher c") auto
    then show ?thesis using w_finish [OF c WFinish] by blast
  next
    case WDone
    then have once: "k_once c = OnceDone" using w by simp
    show ?thesis
    proof (cases "k_watcher c")
      case TSelect
      then show ?thesis using t_timeout [OF c] by blast
    next
      case (TDo b)
      then show ?thesis using t_skip [OF c _ once] by blast
    next
      case TInDo
      then show ?thesis using t once by simp
    next
      case TDone
      then have s: "k_sync c" "k_caller c = CWait" using unf WDone by (simp_all add: finished_def)
      have "outcome_ok (k_hasFallback c) (k_sync c) (k_runDone c) (k_events c) (k_sent c) (k_fallbackDone c)"
        using cmd_okD(1) [OF ok] once by (auto simp: body_ok_def elim: rest_nilE)
      then have "k_sent c \<noteq> [] \<or> k_runDone c \<or> k_fallbackDone c" using s(1) by (auto simp: outcome_ok_def)
      then have "k_errChan c \<noteq> [] \<or> 0 < k_done c" using cmd_okD(4) [OF ok] s(2) by (auto simp: pushes_def)
      then show ?thesis using c_nil [OF c s] c_error [OF c s(2)] by (cases "k_errChan c") blast+
    qed
  qed (use worker_enabled [OF ok c m] in auto)
qed

text \<open>A run of the system that counts the steps of the i-th execution.\<close>

inductive sys_run :: "'c collector_methods \<Rightarrow> (f64 \<Rightarrow> int) \<Rightarrow> nat \<Rightarrow> nat \<Rightarrow> 'c system \<Rightarrow> 'c system \<Rightarrow> bool" for ops plat i where
  run_start: "sys_run ops plat i 0 s s"
| run_mine: "sys_run ops plat i n s0 s \<Longrightarrow> cmd_step ops plat i s s' \<Longrightarrow> sys_run ops plat i (Suc n) s0 s'"
| run_other: "sys_run ops plat i n s0 s \<Longrightarrow> cmd_step ops plat j s s' \<Longrightarrow> j \<noteq> i \<Longrightarrow> sys_run ops plat i n s0 s'"
| run_env: "sys_run ops plat i n s0 s \<Longrightarrow> env_step ops s s' \<Longrightarrow> sys_run ops plat i n s0 s'"

lemma sys_run_reach: "sys_run ops plat i n s0 s \<Longrightarrow> sys_reach ops plat s0 s"
  by (induction rule: sys_run.induct) (auto intro: sys_reach.intros)

lemma sys_run_trans: "sys_run ops plat i m s1 s2 \<Longrightarrow> sys_run ops plat i n s0 s1 \<Longrightarrow> sys_run ops plat i (n + m) s0 s2"
  by (induction rule: sys_run.induct) (auto intro: sys_run.intros)

lemma sys_run_effort: "sys_run ops plat i n s0 s \<Longrightarrow> sys_start s0 \<Longrightarrow> n + effort (y_cmds s i) \<le> effort (y_cmds s0 i)"
proof (induction rule: sys_run.induct)
  case (run_mine n s0 s s')
  have "cmd_ok (y_cmds s i)" by (rule sys_reach_ok [OF sys_run_reach [OF run_mine.hyps(1)] run_mine.prems])
  from cmd_step_effort [OF run_mine.hyps(2) this] show ?case using run_mine by simp
qed (simp_all add: cmd_step_other env_step_cmds)

lemma effort_start: "sys_start s \<Longrightarrow> effort (y_cmds s i) = 20"
proof -
  assume "sys_start s"
  then obtain fb sync start where "y_cmds s i = new_command fb sync start" unfolding sys_start_def by blast
  then show ?thesis by (simp add: effort_def new_command_def)
qed

lemma can_finish:
  assumes "sys_reach ops plat s0 s" and "sys_start s0"
  shows "\<exists>m s'. sys_run ops plat i m s s' \<and> finished (y_cmds s' i)"
  using assms(1)
proof (induction "effort (y_cmds s i)" arbitrary: s rule: less_induct)
  case less
  show ?case
  proof (cases "finished (y_cmds s i)")
    case True
    then show ?thesis using run_start by blast
  next
    case False
    define s1 where "s1 = set_pool ((pool s)\<lparr>p_Metrics := poolMonitor_step (\<lambda>_. 0) (p_Metrics (pool s))\<rparr>) s"
    have e1: "env_step ops s s1" unfolding s1_def by (rule e_pool)
    have r1: "sys_reach ops plat s0 s1" by (rule sys_env [OF less.prems e1])
    have c1: "y_cmds s1 i = y_cmds s i" by (simp add: s1_def)
    have free: "pm_Received (p_Metrics (pool s1)) = None" by (simp add: s1_def poolMonitor_step_def split: option.split)
    have own: "tickets.conserved (pool s1) (\<lambda>i. held (y_cmds s1 i))"
      using sys_reach_tickets [OF r1 assms(2)] by blast
    have unf: "\<not> finished (y_cmds s1 i)" using False c1 by simp
    obtain s2 where s2: "cmd_step ops plat i s1 s2"
      using command_enabled [OF sys_reach_ok [OF r1 assms(2)] refl sys_reach_default [OF r1 assms(2)] own free unf] by blast
    have "effort (y_cmds s2 i) < effort (y_cmds s i)" using cmd_step_effort [OF s2 sys_reach_ok [OF r1 assms(2)]] c1 by simp
    then obtain m s' where m: "sys_run ops plat i m s2 s'" "finished (y_cmds s' i)"
      using less.hyps [of s2] sys_cmd [OF r1 s2] by blast
    have "sys_run ops plat i 1 s s2" using run_mine [OF run_env [OF run_start e1] s2] by simp
    then show ?thesis using sys_run_trans [OF m(1)] m(2) by blast
  qed
qed

subsection \<open>A run in which a timed-out function keeps running\<close>

text \<open>The first execution gets the only ticket and times out, which returns the ticket; the second gets it.\<close>

definition nc :: command where "nc = new_command False False zero_time"

definition over_start :: "unit system" where
  "over_start = \<lparr>y_settings = [''c'' \<mapsto> default_of], y_circuit = some_circuit ''c'', y_cmds = \<lambda>_. nc\<rparr>"

lemma new_circuit_allows:
  "c_open c = False \<Longrightarrow> c_forceOpen c = False \<Longrightarrow> c_Name c = ''c'' \<Longrightarrow> c_metrics c = newMetricExchange no_methods default_registry ''c''
   \<Longrightarrow> AllowRequest amd64_cvt clk [''c'' \<mapsto> default_of] c = Some (True, [''c'' \<mapsto> default_of], c)"
  by (simp add: AllowRequest_def IsOpen_def Requests_def requestsLocked_def DefaultCollector_def newMetricExchange_def
      exchange_Reset_def InitializeMetricCollectors_def default_registry_def newDefaultMetricCollector_def NumRequests_def
      collector_Reset_def getSettings_alt f_to_u64_zero default_of_def)

lemma over_start_ok: "sys_start over_start"
  by (auto simp: sys_start_def over_start_def pool_def some_circuit_def default_first_def DefaultCollector_def newMetricExchange_def
      exchange_Reset_def InitializeMetricCollectors_def default_registry_def newDefaultMetricCollector_def nc_def)

lemma over_run:
  "\<exists>s. sys_run no_methods amd64_cvt 0 6 over_start s \<and> p_Max (pool s) = 1 \<and> p_Tickets (pool s) = []
    \<and> k_worker (y_cmds s 0) = WRun \<and> k_worker (y_cmds s 2) = WRun \<and> k_returned (y_cmds s 0) \<and> held (y_cmds s 2) = Some 0"
proof -
  define sm where "sm = [''c'' \<mapsto> default_of]"
  define c where "c = some_circuit ''c''"
  have c: "c_open c = False" "c_forceOpen c = False" "c_Name c = ''c''" "c_metrics c = newMetricExchange no_methods default_registry ''c''"
    "c_executorPool c = \<lparr>p_Name = ''c'', p_Metrics = newPoolMetrics ''c'', p_Max = 1, p_Tickets = [0]\<rparr>"
    by (simp_all add: c_def some_circuit_def)
  have n: "k_worker nc = WStart" "k_watcher nc = TSelect" "k_once nc = OnceNew" "\<not> k_locked nc" "k_ticket nc = None" "\<not> k_returned nc"
    by (simp_all add: nc_def new_command_def)
  define a1 a2 a3 a4 a5 a6 where "a1 = nc\<lparr>k_worker := WTicket\<rparr>"
    and "a2 = a1\<lparr>k_ticket := Some 0, k_ticketChecked := True, k_worker := WRun\<rparr>"
    and "a3 = a2\<lparr>k_watcher := TDo (error_body ErrTimeout)\<rparr>"
    and "a4 = a3\<lparr>k_once := OnceRunning False, k_body := error_body ErrTimeout, k_watcher := TInDo\<rparr>"
    and "a5 = a4\<lparr>k_locked := True, k_body := APush # errorWithFallback ErrTimeout @ [AReport]\<rparr>"
    and "a6 = a5\<lparr>k_locked := False, k_returned := True, k_body := errorWithFallback ErrTimeout @ [AReport]\<rparr>"
  note a = a1_def a2_def a3_def a4_def a5_def a6_def
  define p1 p2 p3 p4 where "p1 = (c_executorPool c)\<lparr>p_Tickets := []\<rparr>"
    and "p2 = p1\<lparr>p_Metrics := (newPoolMetrics ''c'')\<lparr>pm_Received := Some 1\<rparr>\<rparr>"
    and "p3 = p2\<lparr>p_Tickets := [0]\<rparr>" and "p4 = p3\<lparr>p_Tickets := []\<rparr>"
  note p = p1_def p2_def p3_def p4_def
  define s1 where "s1 = put 0 a1 (over_start\<lparr>y_settings := sm, y_circuit := c\<rparr>)"
  define s2 s3 s4 s5 s6 where "s2 = put 0 a2 (set_pool p1 s1)" and "s3 = put 0 a3 s2" and "s4 = put 0 a4 s3"
    and "s5 = put 0 a5 (set_pool p2 s4)" and "s6 = put 0 a6 (set_pool p3 s5)"
  define s7 where "s7 = put 2 a1 (s6\<lparr>y_settings := sm, y_circuit := c\<lparr>c_executorPool := p3\<rparr>\<rparr>)"
  define s8 where "s8 = put 2 a2 (set_pool p4 s7)"
  note s = s1_def s2_def s3_def s4_def s5_def s6_def s7_def s8_def
  have cmds: "y_cmds s1 0 = a1" "y_cmds s2 0 = a2" "y_cmds s3 0 = a3" "y_cmds s4 0 = a4" "y_cmds s5 0 = a5" "y_cmds s6 0 = a6"
      "y_cmds s6 2 = nc" "y_cmds s7 2 = a1" "y_cmds over_start i = nc" for i
    by (simp_all add: s over_start_def)
  have pools: "pool s1 = c_executorPool c" "pool s4 = p1" "pool s5 = p2" "pool s7 = p3" by (simp_all add: s)
  have circ: "y_settings over_start = sm" "y_circuit over_start = c" "y_settings s6 = sm" "y_circuit s6 = c\<lparr>c_executorPool := p3\<rparr>"
    by (simp_all add: s over_start_def sm_def c_def put_def set_pool_def)
  note step = cmd_step.intros [where ops = no_methods and plat = amd64_cvt]
  have 1: "cmd_step no_methods amd64_cvt 0 over_start s1"
    using step(1) [of nc over_start 0 "\<lambda>_. 0" True sm c] cmds(9) n(1) new_circuit_allows [OF c(1-4)]
    by (simp add: circ s1_def a1_def sm_def)
  have 2: "cmd_step no_methods amd64_cvt 0 s1 s2"
    using step(3) [of a1 s1 0 0 p1] n by (simp add: cmds pools c(5) s2_def a2_def a1_def p1_def take_ticket_def)
  have 3: "cmd_step no_methods amd64_cvt 0 s2 s3"
    using step(13) [of a2 s2 0] n by (simp add: cmds s3_def a3_def a2_def a1_def)
  have 4: "cmd_step no_methods amd64_cvt 0 s3 s4"
    using step(14) [of a3 s3 0 "error_body ErrTimeout"] n by (simp add: cmds s4_def a4_def a3_def a2_def a1_def)
  have "Return_report p1 = Some p2"
    by (simp add: Return_report_def send_update_def ActiveCount_def p c(5) newPoolMetrics_def poolMetrics_Reset_def i64_def)
  then have 5: "cmd_step no_methods amd64_cvt 0 s4 s5"
    using step(19) [of a4 s4 0 "errorWithFallback ErrTimeout @ [AReport]" 0 p2] n
    by (simp add: cmds pools s5_def a error_body_def)
  have "Return_ticket 0 p2 = Some p3" by (simp add: Return_ticket_def p c(5))
  then have 6: "cmd_step no_methods amd64_cvt 0 s5 s6"
    using step(20) [of a5 s5 0 "errorWithFallback ErrTimeout @ [AReport]" 0 p3] n by (simp add: cmds pools s6_def a)
  have 7: "cmd_step no_methods amd64_cvt 2 s6 s7"
    using step(1) [of nc s6 2 "\<lambda>_. 0" True sm "c\<lparr>c_executorPool := p3\<rparr>"] cmds(7) n(1)
      new_circuit_allows [of "c\<lparr>c_executorPool := p3\<rparr>"] c
    by (simp add: circ s7_def a1_def sm_def)
  have 8: "cmd_step no_methods amd64_cvt 2 s7 s8"
    using step(3) [of a1 s7 2 0 p4] n by (simp add: cmds pools c(5) s8_def a2_def a1_def p take_ticket_def)
  note r = run_mine [OF run_mine [OF run_mine [OF run_mine [OF run_mine [OF run_mine [OF run_start 1] 2] 3] 4] 5] 6]
  have "sys_run no_methods amd64_cvt 0 6 over_start s8"
    using run_other [OF run_other [OF r 7] 8] by (simp add: numeral_eq_Suc)
  moreover have "y_cmds s8 0 = a6" "y_cmds s8 2 = a2" "pool s8 = p4" by (simp_all add: s)
  ultimately show ?thesis using n by (intro exI [of _ s8]) (simp add: a p c(5) held_def)
qed

subsection \<open>Properties\<close>

text \<open>C11: the tickets of a pool are conserved: in every reachable state of the executions on a circuit each ticket is in the
  channel or held by exactly one execution, no ticket is there twice, and \<open>ActiveCount\<close> is the number of holders.\<close>

theorem tickets_conserved:
  assumes "sys_reach ops plat s0 s" and "sys_start s0" and "in_i64 (p_Max (pool s0))"
  shows "p_Max (pool s) = p_Max (pool s0) \<and> distinct (p_Tickets (pool s))
    \<and> (t \<in> set (p_Tickets (pool s)) \<longleftrightarrow> int t < p_Max (pool s) \<and> (\<forall>i. held (y_cmds s i) \<noteq> Some t))
    \<and> (held (y_cmds s i) = Some t \<and> held (y_cmds s j) = Some t \<longrightarrow> i = j)
    \<and> finite {i. held (y_cmds s i) \<noteq> None}
    \<and> ActiveCount (pool s) = int (card {i. held (y_cmds s i) \<noteq> None}) \<and> ActiveCount (pool s) \<le> p_Max (pool s)"
proof -
  have con: "tickets.conserved (pool s) (\<lambda>i. held (y_cmds s i))" and mx: "p_Max (pool s) = p_Max (pool s0)"
    using sys_reach_tickets [OF assms(1,2)] by auto
  have own: "owners_ok (nat (p_Max (pool s))) (p_Tickets (pool s)) (\<lambda>i. held (y_cmds s i))" and pos: "0 \<le> p_Max (pool s)"
    using con by (simp_all add: tickets.conserved_def)
  have count: "finite {i. held (y_cmds s i) \<noteq> None}" "int (length (p_Tickets (pool s))) + int (card {i. held (y_cmds s i) \<noteq> None}) = p_Max (pool s)"
    using tickets.conserved_count [OF con] by blast+
  then have "i64 (p_Max (pool s) - int (length (p_Tickets (pool s)))) = p_Max (pool s) - int (length (p_Tickets (pool s)))"
    using assms(3) pos mx by (intro i64_id) (simp add: in_i64_def)
  moreover have "t \<in> set (p_Tickets (pool s)) \<longleftrightarrow> t < nat (p_Max (pool s)) \<and> (\<forall>i. held (y_cmds s i) \<noteq> Some t)"
    using own unfolding owners_ok_def by blast
  moreover have "distinct (p_Tickets (pool s))" "held (y_cmds s i) = Some t \<and> held (y_cmds s j) = Some t \<longrightarrow> i = j"
    using own unfolding owners_ok_def by blast+
  ultimately show ?thesis using count mx by (simp add: ActiveCount_def zless_nat_eq_int_zless)
qed

lemma tickets_conserved_witness:
  "\<exists>s :: unit system. held (y_cmds s 0) = None \<and> held (y_cmds s 2) = Some 0 \<and> ActiveCount (pool s) = int (card {i. held (y_cmds s i) \<noteq> None})
    \<and> 0 \<notin> set (p_Tickets (pool s))"
proof -
  obtain s where s: "sys_run no_methods amd64_cvt 0 6 over_start s" "k_returned (y_cmds s 0)" "held (y_cmds s 2) = Some 0" using over_run by blast
  have "in_i64 (p_Max (pool over_start))" by (simp add: over_start_def pool_def some_circuit_def in_i64_def)
  from tickets_conserved [OF sys_run_reach [OF s(1)] over_start_ok this, of 0 2 2]
  have "0 \<notin> set (p_Tickets (pool s))" "ActiveCount (pool s) = int (card {i. held (y_cmds s i) \<noteq> None})" using s(3) by blast+
  moreover have "held (y_cmds s 0) = None" using s(2) by (simp add: held_def)
  ultimately show ?thesis using s(3) by blast
qed

text \<open>C10: an execution has one outcome: at most one error is ever sent and one report made, never an error before the ticket
  is back, and once \<open>returnOnce\<close> has run the report lists the events of exactly one of the documented outcomes and matches the
  error sent; a caller of \<open>Do\<close> that got nil had its run function or fallback succeed, and one that got an error got that one.\<close>

theorem one_outcome:
  assumes "sys_reach ops plat s0 s" and "sys_start s0" and "c = y_cmds s i"
  shows "length (k_sent c) \<le> 1 \<and> length (k_reports c) \<le> 1 \<and> (k_sent c \<noteq> [] \<longrightarrow> k_returned c)
    \<and> (k_once c = OnceDone \<longrightarrow> k_returned c \<and> k_reports c = [k_events c]
        \<and> outcome_ok (k_hasFallback c) (k_sync c) (k_runDone c) (k_events c) (k_sent c) (k_fallbackDone c))
    \<and> (k_caller c = CReturned None \<longrightarrow> k_runDone c \<or> k_fallbackDone c)
    \<and> (\<forall>e. k_caller c = CReturned (Some e) \<longrightarrow> k_sent c = [e])"
proof -
  have ok: "cmd_ok c" unfolding assms(3) by (rule sys_reach_ok [OF assms(1,2)])
  have b: "body_ok c" by (rule cmd_okD(1) [OF ok])
  have "length (k_sent c) \<le> 1 \<and> length (k_reports c) \<le> 1"
    using b rest_sent by (cases "k_once c") (fastforce simp: body_ok_def untouched_def)+
  moreover have "k_sent c \<noteq> [] \<longrightarrow> k_returned c" using b by (auto simp: body_ok_def untouched_def split: once.splits)
  moreover have "k_once c = OnceDone \<longrightarrow> k_returned c \<and> k_reports c = [k_events c]
        \<and> outcome_ok (k_hasFallback c) (k_sync c) (k_runDone c) (k_events c) (k_sent c) (k_fallbackDone c)"
    using b by (auto simp: body_ok_def elim: rest_nilE)
  moreover have "k_caller c = CReturned None \<longrightarrow> k_runDone c \<or> k_fallbackDone c"
    using cmd_okD(4) [OF ok] by (auto simp: pushes_def split: if_splits)
  moreover have "\<forall>e. k_caller c = CReturned (Some e) \<longrightarrow> k_sent c = [e]" using cmd_okD(4) [OF ok] by auto
  ultimately show ?thesis by blast
qed

lemma one_outcome_witness:
  "\<exists>s :: unit system. k_returned (y_cmds s 0) \<and> length (k_sent (y_cmds s 0)) \<le> 1 \<and> length (k_reports (y_cmds s 0)) \<le> 1"
proof -
  obtain s where s: "sys_run no_methods amd64_cvt 0 6 over_start s" "k_returned (y_cmds s 0)" using over_run by blast
  from one_outcome [OF sys_run_reach [OF s(1)] over_start_ok refl, of 0] s(2) show ?thesis by (intro exI [of _ s]) simp
qed

text \<open>C23: an execution ends: in no schedule of all executions does it take more than twenty steps, and from every reachable
  state there is a continuation in which both its goroutines end and the caller of \<open>Do\<close> returns; nothing blocks for good.\<close>

theorem execution_ends:
  assumes "sys_run ops plat i n s0 s" and "sys_start s0"
  shows "n \<le> 20 \<and> (\<exists>m s'. sys_run ops plat i (n + m) s0 s' \<and> n + m \<le> 20 \<and> finished (y_cmds s' i))"
proof -
  have bound: "k \<le> 20" if "sys_run ops plat i k s0 s'" for k s'
    using sys_run_effort [OF that assms(2)] effort_start [OF assms(2)] by simp
  obtain m s' where m: "sys_run ops plat i m s s'" "finished (y_cmds s' i)"
    using can_finish [OF sys_run_reach [OF assms(1)] assms(2)] by blast
  then show ?thesis using bound [OF assms(1)] bound [OF sys_run_trans [OF m(1) assms(1)]] sys_run_trans [OF m(1) assms(1)] by blast
qed

lemma execution_ends_witness:
  "\<exists>(s :: unit system) (s' :: unit system) m. k_worker (y_cmds s 0) = WRun \<and> k_worker (y_cmds s 2) = WRun \<and> sys_run no_methods amd64_cvt 0 m over_start s'
    \<and> m \<le> 20 \<and> finished (y_cmds s' 0)"
proof -
  obtain s where s: "sys_run no_methods amd64_cvt 0 6 over_start s" "k_worker (y_cmds s 0) = WRun" "k_worker (y_cmds s 2) = WRun"
    using over_run by blast
  obtain m s' where "sys_run no_methods amd64_cvt 0 (6 + m) over_start s'" "6 + m \<le> 20" "finished (y_cmds s' 0)"
    using execution_ends [OF s(1) over_start_ok] by blast
  then show ?thesis using s(2,3) by blast
qed

text \<open>The limit on concurrent requests bounds the tickets and not the functions that run: with a limit of one, a timeout
  gives the ticket of a function that is still running to a second execution, and both functions run at once.\<close>

theorem timeout_exceeds_limit:
  "\<exists>s0 s :: unit system. sys_start s0 \<and> sys_reach no_methods amd64_cvt s0 s \<and> p_Max (pool s) = 1
    \<and> k_worker (y_cmds s 0) = WRun \<and> k_worker (y_cmds s 2) = WRun"
proof -
  obtain s where "sys_run no_methods amd64_cvt 0 6 over_start s" "p_Max (pool s) = 1" "k_worker (y_cmds s 0) = WRun" "k_worker (y_cmds s 2) = WRun"
    using over_run by blast
  then show ?thesis using over_start_ok sys_run_reach by blast
qed

end
