(* ===== verification/HystrixStream.thy ===== *)
theory HystrixStream
  imports HystrixCircuit Rate "HOL-Library.Sublist"
begin

text \<open>
  The event stream of hystrix-go (eventstream.go): what is published about a circuit and its pool once a second, and the
  queues of the clients it is published to. The JSON encoder is a parameter from the fields to a text or an error; the HTTP
  connection of a client is the steps that take an event from its queue. A map of requests is an association list in the
  order a loop visits it.
\<close>

subsection \<open>What is published\<close>

record stream_latency =
  l_Timing0 :: int
  l_Timing25 :: int
  l_Timing50 :: int
  l_Timing75 :: int
  l_Timing90 :: int
  l_Timing95 :: int
  l_Timing99 :: int
  l_Timing995 :: int
  l_Timing100 :: int

record stream_cmd_metric =
  sm_Type :: string
  sm_Name :: string
  sm_Group :: string
  sm_Time :: int
  sm_ReportingHosts :: int
  sm_RequestCount :: int
  sm_ErrorCount :: int
  sm_ErrorPct :: int
  sm_CircuitBreakerOpen :: bool
  sm_RollingCountCollapsedRequests :: int
  sm_RollingCountExceptionsThrown :: int
  sm_RollingCountFailure :: int
  sm_RollingCountFallbackFailure :: int
  sm_RollingCountFallbackRejection :: int
  sm_RollingCountFallbackSuccess :: int
  sm_RollingCountResponsesFromCache :: int
  sm_RollingCountSemaphoreRejected :: int
  sm_RollingCountShortCircuited :: int
  sm_RollingCountSuccess :: int
  sm_RollingCountThreadPoolRejected :: int
  sm_RollingCountTimeout :: int
  sm_CurrentConcurrentExecutionCount :: int
  sm_LatencyExecuteMean :: int
  sm_LatencyExecute :: stream_latency
  sm_LatencyTotalMean :: int
  sm_LatencyTotal :: stream_latency
  sm_CircuitBreakerRequestVolumeThreshold :: int
  sm_CircuitBreakerSleepWindow :: int
  sm_CircuitBreakerErrorThresholdPercent :: int
  sm_CircuitBreakerForceOpen :: bool
  sm_CircuitBreakerForceClosed :: bool
  sm_CircuitBreakerEnabled :: bool
  sm_ExecutionIsolationStrategy :: string
  sm_ExecutionIsolationThreadTimeout :: int
  sm_ExecutionIsolationThreadInterruptOnTimeout :: bool
  sm_ExecutionIsolationThreadPoolKeyOverride :: string
  sm_ExecutionIsolationSemaphoreMaxConcurrentRequests :: int
  sm_FallbackIsolationSemaphoreMaxConcurrentRequests :: int
  sm_RollingStatsWindow :: int
  sm_RequestCacheEnabled :: bool
  sm_RequestLogEnabled :: bool

record stream_thread_pool_metric =
  st_Type :: string
  st_Name :: string
  st_ReportingHosts :: int
  st_CurrentActiveCount :: int
  st_CurrentCompletedTaskCount :: int
  st_CurrentCorePoolSize :: int
  st_CurrentLargestPoolSize :: int
  st_CurrentMaximumPoolSize :: int
  st_CurrentPoolSize :: int
  st_CurrentQueueSize :: int
  st_CurrentTaskCount :: int
  st_RollingMaxActiveThreads :: int
  st_RollingCountThreadsExecuted :: int
  st_RollingStatsWindow :: int
  st_QueueSizeRejectionThreshold :: int

definition f_to_u32 :: "(f64 \<Rightarrow> int) \<Rightarrow> f64 \<Rightarrow> int" where
  "f_to_u32 plat x =
     (case x of Fin a \<Rightarrow> (if 0 \<le> trunc_rat a \<and> trunc_rat a < 2 ^ 32 then trunc_rat a else u32 (plat x))
      | _ \<Rightarrow> u32 (plat x))"

definition currentTime :: "int \<Rightarrow> int" where
  "currentTime now = UnixNano now sdiv 1000000"

text \<open>The percentiles of a timing in order; each call reads the clock at up to three sites and may refresh the cache.\<close>

fun percentiles :: "(f64 \<Rightarrow> int) \<Rightarrow> (nat \<Rightarrow> int) \<Rightarrow> nat \<Rightarrow> f64 list \<Rightarrow> timing \<Rightarrow> (int list \<times> timing) option" where
  "percentiles plat clk k [] r = Some ([], r)"
| "percentiles plat clk k (p # ps) r =
     (let (v, r) = Percentile plat (clk k) (clk (k + 1)) (clk (k + 2)) p r
      in do { v \<leftarrow> v; (vs, r) \<leftarrow> percentiles plat clk (k + 3) ps r; Some (v # vs, r) })"

definition latency_percentages :: "f64 list" where
  "latency_percentages = [Fin 0, Fin 25, Fin 50, Fin 75, Fin 90, Fin 95, Fin 99, Fin (199 / 2), Fin 100]"

definition generateLatencyTimings :: "(f64 \<Rightarrow> int) \<Rightarrow> (nat \<Rightarrow> int) \<Rightarrow> timing \<Rightarrow> (stream_latency \<times> timing) option" where
  "generateLatencyTimings plat clk r =
     do { (vs, r) \<leftarrow> percentiles plat clk 0 latency_percentages r;
          Some (\<lparr>l_Timing0 = vs ! 0, l_Timing25 = vs ! 1, l_Timing50 = vs ! 2, l_Timing75 = vs ! 3, l_Timing90 = vs ! 4, l_Timing95 = vs ! 5, l_Timing99 = vs ! 6, l_Timing995 = vs ! 7, l_Timing100 = vs ! 8\<rparr>, r) }"

text \<open>
  The fields of \<open>publishMetrics\<close>, evaluated in the order of the literal: \<open>IsOpen\<close> can open the circuit on the way. The
  second part of the result is what the calls leave behind.
\<close>

definition command_metric ::
    "(f64 \<Rightarrow> int) \<Rightarrow> (nat \<Rightarrow> int) \<Rightarrow> settings_map \<Rightarrow> 'c circuit \<Rightarrow> (stream_cmd_metric \<times> settings_map \<times> 'c circuit) option" where
  "command_metric plat clk sm cb =
     do { let now = Unix (clk 0);
          requests \<leftarrow> Requests (c_metrics cb);
          let reqCount = Sum now requests;
          d \<leftarrow> DefaultCollector (c_metrics cb);
          let errCount = Sum now (Errors d);
          errPct \<leftarrow> ErrorPercent plat now (c_metrics cb);
          let time1 = clk 1;
          (isOpen, sm, cb) \<leftarrow> IsOpen plat (clk 2) (clk 3) (clk 4) sm cb;
          let count = (\<lambda>f. f_to_u32 plat (Sum now (f d)));
          (latencyTotal, t) \<leftarrow> generateLatencyTimings plat (\<lambda>k. clk (5 + k)) (TotalDuration d);
          let (totalMean, t) = Mean (clk 32) (clk 33) (clk 34) t;
          (latencyExecute, u) \<leftarrow> generateLatencyTimings plat (\<lambda>k. clk (35 + k)) (RunDuration d);
          let (executeMean, u) = Mean (clk 62) (clk 63) (clk 64) u;
          let (st, sm) = getSettings (c_Name cb) sm;
          let cb = cb\<lparr>c_metrics := (c_metrics cb)\<lparr>x_metricCollectors :=
                     DefaultMC (d\<lparr>d_totalDuration := t, d_runDuration := u\<rparr>) # tl (x_metricCollectors (c_metrics cb))\<rparr>\<rparr>;
          Some (\<lparr>sm_Type = ''HystrixCommand'',
            sm_Name = c_Name cb,
            sm_Group = c_Name cb,
            sm_Time = currentTime time1,
            sm_ReportingHosts = 1,
            sm_RequestCount = f_to_u32 plat reqCount,
            sm_ErrorCount = f_to_u32 plat errCount,
            sm_ErrorPct = u32 errPct,
            sm_CircuitBreakerOpen = isOpen,
            sm_RollingCountCollapsedRequests = 0,
            sm_RollingCountExceptionsThrown = 0,
            sm_RollingCountFailure = count Failures,
            sm_RollingCountFallbackFailure = count FallbackFailures,
            sm_RollingCountFallbackRejection = 0,
            sm_RollingCountFallbackSuccess = count FallbackSuccesses,
            sm_RollingCountResponsesFromCache = 0,
            sm_RollingCountSemaphoreRejected = 0,
            sm_RollingCountShortCircuited = count ShortCircuits,
            sm_RollingCountSuccess = count Successes,
            sm_RollingCountThreadPoolRejected = count Rejects,
            sm_RollingCountTimeout = count Timeouts,
            sm_CurrentConcurrentExecutionCount = 0,
            sm_LatencyExecuteMean = executeMean,
            sm_LatencyExecute = latencyExecute,
            sm_LatencyTotalMean = totalMean,
            sm_LatencyTotal = latencyTotal,
            sm_CircuitBreakerRequestVolumeThreshold = u32 (s_RequestVolumeThreshold st),
            sm_CircuitBreakerSleepWindow = f_to_u32 plat (f_mul (Duration_Seconds (s_SleepWindow st)) (Fin 1000)),
            sm_CircuitBreakerErrorThresholdPercent = u32 (s_ErrorPercentThreshold st),
            sm_CircuitBreakerForceOpen = c_forceOpen cb,
            sm_CircuitBreakerForceClosed = False,
            sm_CircuitBreakerEnabled = True,
            sm_ExecutionIsolationStrategy = ''THREAD'',
            sm_ExecutionIsolationThreadTimeout = 0,
            sm_ExecutionIsolationThreadInterruptOnTimeout = False,
            sm_ExecutionIsolationThreadPoolKeyOverride = '''',
            sm_ExecutionIsolationSemaphoreMaxConcurrentRequests = 0,
            sm_FallbackIsolationSemaphoreMaxConcurrentRequests = 0,
            sm_RollingStatsWindow = 10000,
            sm_RequestCacheEnabled = False,
            sm_RequestLogEnabled = False\<rparr>, sm, cb) }"

definition thread_pool_metric :: "(f64 \<Rightarrow> int) \<Rightarrow> int \<Rightarrow> executor_pool \<Rightarrow> stream_thread_pool_metric" where
  "thread_pool_metric plat now p =
     \<lparr>st_Type = ''HystrixThreadPool'',
            st_Name = p_Name p,
            st_ReportingHosts = 1,
            st_CurrentActiveCount = u32 (ActiveCount p),
            st_CurrentCompletedTaskCount = 0,
            st_CurrentCorePoolSize = u32 (p_Max p),
            st_CurrentLargestPoolSize = u32 (p_Max p),
            st_CurrentMaximumPoolSize = u32 (p_Max p),
            st_CurrentPoolSize = u32 (p_Max p),
            st_CurrentQueueSize = 0,
            st_CurrentTaskCount = 0,
            st_RollingMaxActiveThreads = f_to_u32 plat (Max_value now (pm_MaxActiveRequests (p_Metrics p))),
            st_RollingCountThreadsExecuted = f_to_u32 plat (Sum now (pm_Executed (p_Metrics p))),
            st_RollingStatsWindow = 10000,
            st_QueueSizeRejectionThreshold = 0\<rparr>"

subsection \<open>The clients\<close>

definition streamEventBufferSize :: nat where "streamEventBufferSize = 10"

record stream_handler =
  sh_requests :: "(nat \<times> string list) list"
  sh_done :: bool

definition Start :: stream_handler where
  "Start = \<lparr>sh_requests = [], sh_done = False\<rparr>"

text \<open>Closing a closed channel panics.\<close>

definition Stop :: "stream_handler \<Rightarrow> stream_handler option" where
  "Stop sh = (if sh_done sh then None else Some (sh\<lparr>sh_done := True\<rparr>))"

text \<open>A send with a default case: a full queue loses the event.\<close>

definition offer :: "string \<Rightarrow> string list \<Rightarrow> string list" where
  "offer dataBytes requestEvents = (if length requestEvents < streamEventBufferSize then requestEvents @ [dataBytes] else requestEvents)"

definition frame :: "string \<Rightarrow> string" where
  "frame eventBytes = ''data:'' @ eventBytes @ [CHR 0x0A, CHR 0x0A]"

definition writeToRequests :: "string \<Rightarrow> stream_handler \<Rightarrow> stream_handler" where
  "writeToRequests eventBytes sh =
     (let dataBytes = frame eventBytes in sh\<lparr>sh_requests := map (\<lambda>(req, events). (req, offer dataBytes events)) (sh_requests sh)\<rparr>)"

definition register :: "nat \<Rightarrow> stream_handler \<Rightarrow> stream_handler" where
  "register req sh =
     (case map_of (sh_requests sh) req of
        Some events \<Rightarrow> sh
      | None \<Rightarrow> sh\<lparr>sh_requests := sh_requests sh @ [(req, [])]\<rparr>)"

definition unregister :: "nat \<Rightarrow> stream_handler \<Rightarrow> stream_handler" where
  "unregister req sh = sh\<lparr>sh_requests := AList.delete req (sh_requests sh)\<rparr>"

text \<open>The receive in the loop of \<open>ServeHTTP\<close>.\<close>

definition receive :: "nat \<Rightarrow> stream_handler \<Rightarrow> (string \<times> stream_handler) option" where
  "receive req sh =
     (case map_of (sh_requests sh) req of
        Some (event # events) \<Rightarrow> Some (event, sh\<lparr>sh_requests := AList.update req events (sh_requests sh)\<rparr>)
      | _ \<Rightarrow> None)"

text \<open>\<open>publishMetrics\<close> and \<open>publishThreadPools\<close>: the first returns the error of the encoder, the second drops it.\<close>

definition publishMetrics ::
    "(stream_cmd_metric \<Rightarrow> go_error + string) \<Rightarrow> (f64 \<Rightarrow> int) \<Rightarrow> (nat \<Rightarrow> int) \<Rightarrow> settings_map \<Rightarrow> 'c circuit \<Rightarrow> stream_handler
     \<Rightarrow> (go_error option \<times> settings_map \<times> 'c circuit \<times> stream_handler) option" where
  "publishMetrics marshal plat clk sm cb sh =
     do { (m, sm, cb) \<leftarrow> command_metric plat clk sm cb;
          Some (case marshal m of
             Inl err \<Rightarrow> (Some err, sm, cb, sh)
           | Inr eventBytes \<Rightarrow> (None, sm, cb, writeToRequests eventBytes sh)) }"

definition publishThreadPools ::
    "(stream_thread_pool_metric \<Rightarrow> go_error + string) \<Rightarrow> (f64 \<Rightarrow> int) \<Rightarrow> int \<Rightarrow> executor_pool \<Rightarrow> stream_handler
     \<Rightarrow> go_error option \<times> stream_handler" where
  "publishThreadPools marshal plat now p sh =
     (case marshal (thread_pool_metric plat (Unix now) p) of
        Inl err \<Rightarrow> (Some err, sh)
      | Inr eventBytes \<Rightarrow> (None, writeToRequests eventBytes sh))"

text \<open>One tick of \<open>loop\<close>: every circuit of the map, then its pool; the errors are dropped. \<open>clk i\<close> are the readings for the i-th.\<close>

fun loop_tick ::
    "(stream_cmd_metric \<Rightarrow> go_error + string) \<Rightarrow> (stream_thread_pool_metric \<Rightarrow> go_error + string) \<Rightarrow> (f64 \<Rightarrow> int) \<Rightarrow> (nat \<Rightarrow> nat \<Rightarrow> int)
     \<Rightarrow> nat list \<Rightarrow> 'c world \<Rightarrow> stream_handler \<Rightarrow> ('c world \<times> stream_handler) option" where
  "loop_tick marshal marshal' plat clk [] w sh = Some (w, sh)"
| "loop_tick marshal marshal' plat clk (cb # cbs) w sh =
     do { (err, sm, c, sh) \<leftarrow> publishMetrics marshal plat (clk cb) (w_settings w) (w_heap w ! cb) sh;
          let w = w\<lparr>w_settings := sm, w_heap := (w_heap w)[cb := c]\<rparr>;
          let (err, sh) = publishThreadPools marshal' plat (clk cb 65) (c_executorPool c) sh;
          loop_tick marshal marshal' plat clk cbs w sh }"

subsection \<open>The clients over time\<close>

text \<open>
  The history of the stream: everything published, what each client was sent since it registered and from which event on it
  was registered, and whether an event met its queue full.
\<close>

record stream_state =
  ss_handler :: stream_handler
  ss_published :: "string list"
  ss_delivered :: "nat \<Rightarrow> string list"
  ss_since :: "nat \<Rightarrow> nat"
  ss_lost :: "nat \<Rightarrow> bool"

definition full :: "stream_handler \<Rightarrow> nat \<Rightarrow> bool" where
  "full sh req \<longleftrightarrow> (case map_of (sh_requests sh) req of Some events \<Rightarrow> \<not> length events < streamEventBufferSize | None \<Rightarrow> False)"

inductive stream_step :: "stream_state \<Rightarrow> stream_state \<Rightarrow> bool" where
  s_write: "stream_step s
    (s\<lparr>ss_handler := writeToRequests e (ss_handler s), ss_published := ss_published s @ [frame e],
       ss_lost := \<lambda>req. ss_lost s req \<or> full (ss_handler s) req\<rparr>)"
| s_receive: "receive req (ss_handler s) = Some (e, sh) \<Longrightarrow>
    stream_step s (s\<lparr>ss_handler := sh, ss_delivered := (ss_delivered s)(req := ss_delivered s req @ [e])\<rparr>)"
| s_register: "map_of (sh_requests (ss_handler s)) req = None \<Longrightarrow>
    stream_step s (s\<lparr>ss_handler := register req (ss_handler s), ss_delivered := (ss_delivered s)(req := []),
                     ss_since := (ss_since s)(req := length (ss_published s)), ss_lost := (ss_lost s)(req := False)\<rparr>)"
| s_again: "map_of (sh_requests (ss_handler s)) req = Some events \<Longrightarrow> stream_step s (s\<lparr>ss_handler := register req (ss_handler s)\<rparr>)"
| s_unregister: "stream_step s (s\<lparr>ss_handler := unregister req (ss_handler s)\<rparr>)"

definition stream_start :: stream_state where
  "stream_start = \<lparr>ss_handler = Start, ss_published = [], ss_delivered = \<lambda>_. [], ss_since = \<lambda>_. 0, ss_lost = \<lambda>_. False\<rparr>"

inductive stream_reach :: "stream_state \<Rightarrow> bool" where
  stream_init: "stream_reach stream_start"
| stream_more: "stream_reach s \<Longrightarrow> stream_step s s' \<Longrightarrow> stream_reach s'"

text \<open>A client with a queue: bounded, a subsequence of what was published since, and all of it unless an event met a full queue.\<close>

definition client_ok :: "string list \<Rightarrow> string list \<Rightarrow> bool \<Rightarrow> string list \<Rightarrow> bool" where
  "client_ok published delivered lost events \<longleftrightarrow> length events \<le> streamEventBufferSize \<and> subseq (delivered @ events) published
     \<and> (\<not> lost \<longrightarrow> delivered @ events = published)"

lemma client_ok_offer:
  assumes "client_ok published delivered lost events"
  shows "client_ok (published @ [d]) delivered (lost \<or> \<not> length events < streamEventBufferSize) (offer d events)"
proof (cases "length events < streamEventBufferSize")
  case True
  have "subseq ((delivered @ events) @ [d]) (published @ [d])" using assms by (intro list_emb_append_mono) (simp_all add: client_ok_def)
  then show ?thesis using assms True by (auto simp: client_ok_def offer_def)
next
  case False
  have "subseq ((delivered @ events) @ []) (published @ [d])" using assms by (intro list_emb_append_mono) (simp_all add: client_ok_def)
  then show ?thesis using assms False by (simp add: client_ok_def offer_def)
qed

definition stream_inv :: "stream_state \<Rightarrow> bool" where
  "stream_inv s \<longleftrightarrow> (\<forall>req events. map_of (sh_requests (ss_handler s)) req = Some events \<longrightarrow>
     ss_since s req \<le> length (ss_published s)
     \<and> client_ok (drop (ss_since s req) (ss_published s)) (ss_delivered s req) (ss_lost s req) events)"

lemma map_of_write: "map_of (sh_requests (writeToRequests e sh)) req = map_option (offer (frame e)) (map_of (sh_requests sh) req)"
proof -
  have "map_of (map (\<lambda>(req, events). (req, f events)) xs) req = map_option f (map_of xs req)" for f :: "string list \<Rightarrow> string list" and xs
    by (induction xs) auto
  then show ?thesis by (simp add: writeToRequests_def)
qed

lemma stream_step_inv: "stream_step s s' \<Longrightarrow> stream_inv s \<Longrightarrow> stream_inv s'"
proof (induction rule: stream_step.induct)
  case (s_write s e)
  let ?s = "s\<lparr>ss_handler := writeToRequests e (ss_handler s), ss_published := ss_published s @ [frame e],
    ss_lost := \<lambda>req. ss_lost s req \<or> full (ss_handler s) req\<rparr>"
  show ?case
    unfolding stream_inv_def
  proof (intro allI impI)
    fix req events
    assume "map_of (sh_requests (ss_handler ?s)) req = Some events"
    then obtain old where old: "map_of (sh_requests (ss_handler s)) req = Some old" "events = offer (frame e) old"
      by (auto simp: map_of_write)
    have i: "ss_since s req \<le> length (ss_published s)"
        "client_ok (drop (ss_since s req) (ss_published s)) (ss_delivered s req) (ss_lost s req) old"
      using s_write old(1) unfolding stream_inv_def by blast+
    show "ss_since ?s req \<le> length (ss_published ?s)
      \<and> client_ok (drop (ss_since ?s req) (ss_published ?s)) (ss_delivered ?s req) (ss_lost ?s req) events"
      using i(1) client_ok_offer [OF i(2), of "frame e"] old by (simp add: full_def)
  qed
next
  case (s_receive req s e sh)
  obtain events where ev: "map_of (sh_requests (ss_handler s)) req = Some (e # events)"
      "sh = (ss_handler s)\<lparr>sh_requests := AList.update req events (sh_requests (ss_handler s))\<rparr>"
    using s_receive.hyps by (auto simp: receive_def split: option.splits list.splits)
  have "client_ok p d l (e # events) \<Longrightarrow> client_ok p (d @ [e]) l events" for p d l by (simp add: client_ok_def)
  then show ?case using s_receive.prems ev by (simp add: stream_inv_def update_conv')
next
  case (s_register s req)
  then show ?case
    by (auto simp: stream_inv_def register_def client_ok_def streamEventBufferSize_def map_of_append map_add_def split: option.splits if_splits)
next
  case (s_again s req events)
  then show ?case by (simp add: register_def)
next
  case (s_unregister s req)
  then show ?case by (auto simp: stream_inv_def unregister_def delete_conv' split: if_splits)
qed

lemma stream_reach_inv: "stream_reach s \<Longrightarrow> stream_inv s"
proof (induction rule: stream_reach.induct)
  case stream_init
  then show ?case by (simp add: stream_inv_def stream_start_def Start_def)
next
  case (stream_more s s')
  then show ?case using stream_step_inv by blast
qed

subsection \<open>Publishing does not panic\<close>

definition small :: "timing \<Rightarrow> bool" where
  "small r \<longleftrightarrow> length (t_CachedSortedDurations r) \<le> 2 ^ 53 \<and> sum_list (map (length \<circ> snd) (t_Buckets r)) \<le> 2 ^ 53"

lemma collect_length: "length (collect limit bs ds) \<le> length ds + sum_list (map (length \<circ> snd) bs)"
  by (induction limit bs ds rule: collect.induct) (auto split: if_splits)

lemma SortedDurations_small:
  assumes "small r" and "SortedDurations t1 t2 t3 r = (ds, r')"
  shows "length ds \<le> 2 ^ 53 \<and> small r'"
proof -
  have len: "length (Sort (<) xs) = length xs" for xs :: "int list"
    using arg_cong [OF Sort_mset [of "(<)" xs], of size] by simp
  have "length (Sort (<) (collect limit (t_Buckets r) [])) \<le> 2 ^ 53" for limit
    using collect_length [of limit "t_Buckets r" "[]"] assms(1) unfolding len small_def by simp
  then show ?thesis using assms by (auto simp: SortedDurations_def small_def Let_def split: if_splits)
qed

lemma percentile_some:
  assumes "q = 0 \<or> 1 \<le> q \<and> q \<le> 100" and "length ds \<le> 2 ^ 53"
  shows "\<exists>v. percentile_of plat (Fin q) ds = Some v"
proof (cases "ds = []")
  case True
  then show ?thesis by (simp add: percentile_of_def)
next
  case False
  have n: "0 < int (length ds)" "int (length ds) \<le> 2 ^ 53" using False assms(2) by simp_all
  have "1 \<le> ordinal plat (int (length ds)) (Fin q) \<and> ordinal plat (int (length ds)) (Fin q) \<le> int (length ds)"
  proof (cases "q = 0")
    case True
    then show ?thesis using n(1) by (simp add: ordinal_def f_eq_def Suc_le_eq)
  next
    case False
    then show ?thesis using assms(1) ordinal_bounds [OF _ _ n] by blast
  qed
  then show ?thesis using percentile_rank [OF refl _ _ assms(2)] by blast
qed

fun percentage :: "f64 \<Rightarrow> bool" where
  "percentage (Fin q) \<longleftrightarrow> q = 0 \<or> 1 \<le> q \<and> q \<le> 100"
| "percentage _ = False"

lemma percentiles_some:
  "list_all percentage ps \<Longrightarrow> small r \<Longrightarrow>
   \<exists>vs r'. percentiles plat clk k ps r = Some (vs, r') \<and> small r'"
proof (induction ps arbitrary: k r)
  case (Cons p ps)
  obtain q where q: "p = Fin q" "q = 0 \<or> 1 \<le> q \<and> q \<le> 100" using Cons.prems(1) by (cases p) auto
  obtain ds r1 where ds: "SortedDurations (clk k) (clk (k + 1)) (clk (k + 2)) r = (ds, r1)" by (metis surj_pair)
  have s: "length ds \<le> 2 ^ 53" "small r1" using SortedDurations_small [OF Cons.prems(2) ds] by simp_all
  obtain v where "percentile_of plat p ds = Some v" using percentile_some [OF q(2) s(1)] q(1) by blast
  moreover obtain vs r2 where "percentiles plat clk (k + 3) ps r1 = Some (vs, r2)" "small r2"
    using Cons.IH [OF _ s(2)] Cons.prems(1) by fastforce
  ultimately show ?case using ds by (simp add: Percentile_def)
qed simp

lemma generateLatencyTimings_some: "small r \<Longrightarrow> \<exists>l r'. generateLatencyTimings plat clk r = Some (l, r') \<and> small r'"
proof -
  assume r: "small r"
  have "list_all percentage latency_percentages" by (simp add: latency_percentages_def)
  from percentiles_some [OF this r] obtain vs r' where "percentiles plat clk 0 latency_percentages r = Some (vs, r')" "small r'" by blast
  then show ?thesis by (simp add: generateLatencyTimings_def)
qed

lemma IsOpen_some:
  assumes "DefaultCollector (c_metrics c) = Some d"
  shows "\<exists>b sm' c'. IsOpen plat t1 t2 t3 sm c = Some (b, sm', c') \<and> c_metrics c' = c_metrics c \<and> c_executorPool c' = c_executorPool c
    \<and> (c_open c \<longrightarrow> c_open c')"
proof (cases "c_forceOpen c \<or> c_open c")
  case True
  then show ?thesis by (simp add: IsOpen_def ex_bool_eq)
next
  case False
  have "\<exists>p. ErrorPercent plat (Unix t2) (c_metrics c) = Some p" by (simp add: ErrorPercent_def requestsLocked_def assms Let_def)
  then obtain p where p: "ErrorPercent plat (Unix t2) (c_metrics c) = Some p" ..
  obtain s sm1 where s: "getSettings (c_Name c) sm = (s, sm1)" by (metis surj_pair)
  obtain s' sm2 where s': "getSettings (x_Name (c_metrics c)) sm1 = (s', sm2)" by (metis surj_pair)
  have h: "IsHealthy plat (Unix t2) sm1 (c_metrics c) = Some (p < s_ErrorPercentThreshold s', sm2)"
    by (simp add: IsHealthy_def p s')
  define low where "low \<longleftrightarrow> f_to_u64 plat (Sum (Unix t1) (NumRequests d)) < s_RequestVolumeThreshold s"
  define well where "well \<longleftrightarrow> p < s_ErrorPercentThreshold s'"
  have "IsOpen plat t1 t2 t3 sm c = (if low then Some (False, sm1, c) else if \<not> well then Some (True, sm2, setOpen t3 c) else Some (False, sm2, c))"
    using False h by (simp add: IsOpen_def Requests_def requestsLocked_def assms s low_def well_def)
  then show ?thesis by (auto simp: setOpen_def)
qed

subsection \<open>Properties\<close>

text \<open>Publishing the metrics of a circuit never panics, whatever the encoder answers, and it leaves the tickets of the pool
  alone and never closes the circuit; it can open it.\<close>

theorem publishing_is_safe:
  assumes "DefaultCollector (c_metrics cb) = Some d" and "small (TotalDuration d)" and "small (RunDuration d)"
  shows "\<exists>err sm' cb' sh'. publishMetrics marshal plat clk sm cb sh = Some (err, sm', cb', sh')
    \<and> c_executorPool cb' = c_executorPool cb \<and> (c_open cb \<longrightarrow> c_open cb') \<and> DefaultCollector (c_metrics cb') \<noteq> None
    \<and> (sh' = sh \<or> (\<exists>e. sh' = writeToRequests e sh))"
proof -
  have "\<exists>p. ErrorPercent plat (Unix (clk 0)) (c_metrics cb) = Some p" by (simp add: ErrorPercent_def requestsLocked_def assms(1) Let_def)
  then obtain p where p: "ErrorPercent plat (Unix (clk 0)) (c_metrics cb) = Some p" ..
  obtain b sm1 cb1 where o: "IsOpen plat (clk 2) (clk 3) (clk 4) sm cb = Some (b, sm1, cb1)" "c_metrics cb1 = c_metrics cb"
      "c_executorPool cb1 = c_executorPool cb" "c_open cb \<longrightarrow> c_open cb1"
    using IsOpen_some [OF assms(1)] by blast
  obtain l1 t where t: "generateLatencyTimings plat (\<lambda>k. clk (5 + k)) (TotalDuration d) = Some (l1, t)"
    using generateLatencyTimings_some [OF assms(2)] by blast
  obtain l2 u where u: "generateLatencyTimings plat (\<lambda>k. clk (35 + k)) (RunDuration d) = Some (l2, u)"
    using generateLatencyTimings_some [OF assms(3)] by blast
  obtain m1 t' where m1: "Mean (clk 32) (clk 33) (clk 34) t = (m1, t')" by (metis surj_pair)
  obtain m2 u' where m2: "Mean (clk 62) (clk 63) (clk 64) u = (m2, u')" by (metis surj_pair)
  obtain s sm2 where s: "getSettings (c_Name cb1) sm1 = (s, sm2)" by (metis surj_pair)
  define cb2 where "cb2 = cb1\<lparr>c_metrics := (c_metrics cb1)\<lparr>x_metricCollectors :=
     DefaultMC (d\<lparr>d_totalDuration := t', d_runDuration := u'\<rparr>) # tl (x_metricCollectors (c_metrics cb1))\<rparr>\<rparr>"
  have "\<exists>m. command_metric plat clk sm cb = Some (m, sm2, cb2)"
    by (simp add: command_metric_def Requests_def requestsLocked_def assms(1) p o(1,2) t u m1 m2 s cb2_def Let_def)
  then obtain m where m: "command_metric plat clk sm cb = Some (m, sm2, cb2)" ..
  have c: "c_executorPool cb2 = c_executorPool cb1" "c_open cb2 = c_open cb1" "DefaultCollector (c_metrics cb2) \<noteq> None"
    by (simp_all add: cb2_def DefaultCollector_def)
  show ?thesis using m c o(3,4) by (cases "marshal m") (auto simp: publishMetrics_def)
qed

lemma publishing_is_safe_witness:
  "\<exists>err sm' cb' sh'. publishMetrics (\<lambda>_. Inr ''{}'') amd64_cvt (\<lambda>k. int k) Map.empty (some_circuit ''c'') Start = Some (err, sm', cb', sh')
    \<and> p_Tickets (c_executorPool cb') = [0]"
proof -
  have d: "DefaultCollector (c_metrics (some_circuit ''c'')) = Some (collector_Reset (collector_Reset zero_collector))"
    by (simp add: some_circuit_def newMetricExchange_def exchange_Reset_def InitializeMetricCollectors_def default_registry_def
        newDefaultMetricCollector_def DefaultCollector_def)
  have "small (TotalDuration (collector_Reset e))" "small (RunDuration (collector_Reset e))" for e
    by (simp_all add: small_def TotalDuration_def RunDuration_def collector_Reset_def NewTiming_def)
  then show ?thesis
    using publishing_is_safe [OF d, of "\<lambda>_. Inr ''{}''" amd64_cvt "\<lambda>k. int k" Map.empty Start] by (auto simp: some_circuit_def)
qed


text \<open>C32: the stream refines a lossy bounded queue for each client: what a client has been sent followed by what waits for it is a
  subsequence, in order and without repetition, of what was published since it registered; at most ten events wait; and nothing
  is missing unless an event was published while ten waited.\<close>

theorem client_stream:
  assumes "stream_reach s" and "map_of (sh_requests (ss_handler s)) req = Some events"
  shows "length events \<le> 10 \<and> subseq (ss_delivered s req @ events) (drop (ss_since s req) (ss_published s))
    \<and> (\<not> ss_lost s req \<longrightarrow> ss_delivered s req @ events = drop (ss_since s req) (ss_published s))"
  using stream_reach_inv [OF assms(1)] assms(2) by (auto simp: stream_inv_def client_ok_def streamEventBufferSize_def)

lemma client_stream_witness:
  "\<exists>s. stream_reach s \<and> ss_published s = [frame ''a'', frame ''b''] \<and> ss_delivered s 7 = [frame ''b'']
    \<and> map_of (sh_requests (ss_handler s)) 7 = Some [] \<and> subseq (ss_delivered s 7) (drop (ss_since s 7) (ss_published s))"
proof -
  define s1 where "s1 = stream_start\<lparr>ss_published := [frame ''a'']\<rparr>"
  define s2 where "s2 = s1\<lparr>ss_handler := Start\<lparr>sh_requests := [(7, [])]\<rparr>, ss_since := (\<lambda>_. 0)(7 := 1)\<rparr>"
  define s3 where "s3 = s2\<lparr>ss_handler := Start\<lparr>sh_requests := [(7, [frame ''b''])]\<rparr>, ss_published := [frame ''a'', frame ''b''],
    ss_lost := \<lambda>req. ss_lost s2 req \<or> full (ss_handler s2) req\<rparr>"
  define s4 where "s4 = s3\<lparr>ss_handler := Start\<lparr>sh_requests := [(7, [])]\<rparr>, ss_delivered := (\<lambda>_. [])(7 := [frame ''b''])\<rparr>"
  note d = stream_start_def s1_def s2_def s3_def s4_def Start_def
  have "stream_step stream_start s1" using s_write [of stream_start "''a''"] by (simp add: d writeToRequests_def full_def)
  from stream_more [OF stream_init this] have 1: "stream_reach s1" .
  have "stream_step s1 s2" using s_register [of s1 7] by (simp add: d register_def fun_upd_idem)
  from stream_more [OF 1 this] have 2: "stream_reach s2" .
  have "stream_step s2 s3" using s_write [of s2 "''b''"]
    by (simp add: d writeToRequests_def offer_def streamEventBufferSize_def)
  from stream_more [OF 2 this] have 3: "stream_reach s3" .
  have "stream_step s3 s4" using s_receive [of 7 s3 "frame ''b''" "Start\<lparr>sh_requests := [(7, [])]\<rparr>"] by (simp add: d receive_def)
  from stream_more [OF 3 this] have 4: "stream_reach s4" .
  have m: "map_of (sh_requests (ss_handler s4)) 7 = Some []" by (simp add: d)
  from client_stream [OF 4 m] show ?thesis using 4 m by (intro exI [of _ s4]) (simp add: d)
qed

end
