(* ===== verification/GoContext.thy ===== *)
theory GoContext
  imports GoTime
begin

text \<open>
  \<open>src/src/context/context.go\<close>: contexts, their cancellation and their deadlines, for the contexts
  the package itself makes (\<open>Background\<close>, \<open>TODO\<close>, \<open>WithCancel\<close>, \<open>WithDeadline\<close>,
  \<open>WithTimeout\<close>, \<open>WithValue\<close>). A \<open>ctx_store\<close> is the store the calls share: the contexts, by
  address in the order they were made; the channels, by number, each open or closed (number 0 is
  \<open>closedchan\<close>); the timers \<open>time.AfterFunc\<close> has pending; the goroutines \<open>propagateCancel\<close> has
  started. A call is modelled as one step of the store, and a pending timer may fire between any two
  of them; what other goroutines could do between the critical sections of one call is not modelled.
  A panic, and a recursion that does not return, is the left side of the result.
\<close>

subsection \<open>Contexts and the store\<close>

datatype ctx_error = Canceled | DeadlineExceeded

fun Error :: "ctx_error \<Rightarrow> string" where
  "Error Canceled = ''context canceled''"
| "Error DeadlineExceeded = ''context deadline exceeded''"

fun is_timeout :: "ctx_error \<Rightarrow> bool" where
  "is_timeout Canceled = False"
| "is_timeout DeadlineExceeded = True"

datatype ctx_panic = NilKey | KeyNotComparable | MissingCancelError | CloseOfClosedChannel | NoReturn

text \<open>
  The keys and values of the clients are the parameters \<open>'k\<close> and \<open>'v\<close>; \<open>CancelCtxKey\<close> is
  the address \<open>&cancelCtxKey\<close>, under which a \<open>cancelCtx\<close> answers with itself.
\<close>

datatype 'k ctx_key = CancelCtxKey | UserKey 'k

datatype 'v ctx_value = Nil | TheCtx nat | UserVal 'v

record cancelCtx =
  embedded :: nat
  done_ch :: "nat option"
  children :: "nat list"
  cerr :: "ctx_error option"

datatype ('k, 'v) ctx =
    EmptyCtx
  | CancelCtx cancelCtx
  | TimerCtx cancelCtx bool gtime
  | ValueCtx nat 'k 'v

record ('k, 'v) ctx_store =
  ctxs :: "('k, 'v) ctx list"
  chans :: "bool list"
  armed :: "(nat \<times> int) list"
  watchers :: "(nat \<times> nat) list"
  goroutines :: int

definition background :: nat where "background = 0"

definition todo :: nat where "todo = 1"

definition closedchan :: nat where "closedchan = 0"

definition world_init :: "('k, 'v) ctx_store" where
  "world_init = \<lparr>ctxs = [EmptyCtx, EmptyCtx], chans = [True], armed = [], watchers = [], goroutines = 0\<rparr>"

fun core :: "('k, 'v) ctx \<Rightarrow> cancelCtx option" where
  "core (CancelCtx k) = Some k"
| "core (TimerCtx k _ _) = Some k"
| "core _ = None"

fun with_core :: "(cancelCtx \<Rightarrow> cancelCtx) \<Rightarrow> ('k, 'v) ctx \<Rightarrow> ('k, 'v) ctx" where
  "with_core f (CancelCtx k) = CancelCtx (f k)"
| "with_core f (TimerCtx k t d) = TimerCtx (f k) t d"
| "with_core f x = x"

definition upd_core :: "nat \<Rightarrow> (cancelCtx \<Rightarrow> cancelCtx) \<Rightarrow> ('k, 'v) ctx_store \<Rightarrow> ('k, 'v) ctx_store" where
  "upd_core c f w = w\<lparr>ctxs := (ctxs w)[c := with_core f (ctxs w ! c)]\<rparr>"

text \<open>
  The context a context embeds. It was made earlier, so its address is smaller: the test
  \<open>p < c\<close>, on which the recursions below rest, always holds in a store the calls build.
\<close>

fun embeds :: "('k, 'v) ctx \<Rightarrow> nat option" where
  "embeds EmptyCtx = None"
| "embeds (CancelCtx k) = Some (embedded k)"
| "embeds (TimerCtx k _ _) = Some (embedded k)"
| "embeds (ValueCtx p _ _) = Some p"

definition above :: "('k, 'v) ctx_store \<Rightarrow> nat \<Rightarrow> nat option" where
  "above w c = (case embeds (ctxs w ! c) of Some p \<Rightarrow> if p < c then Some p else None | None \<Rightarrow> None)"

lemma above_less [dest]: "above w c = Some p \<Longrightarrow> p < c"
  by (simp add: above_def split: option.splits if_splits)

subsection \<open>The methods of a context\<close>

function ctx_Deadline :: "('k, 'v) ctx_store \<Rightarrow> nat \<Rightarrow> gtime option" where
  "ctx_Deadline w c =
     (case ctxs w ! c of
        TimerCtx _ _ d \<Rightarrow> Some d
      | _ \<Rightarrow> (case above w c of Some p \<Rightarrow> ctx_Deadline w p | None \<Rightarrow> None))"
  by pat_completeness auto
termination by (relation "measure snd") auto

text \<open>\<open>cancelCtx.Done\<close> makes the channel on its first call.\<close>

definition cancelCtx_Done :: "('k, 'v) ctx_store \<Rightarrow> nat \<Rightarrow> cancelCtx \<Rightarrow> nat option \<times> ('k, 'v) ctx_store" where
  "cancelCtx_Done w c k =
     (case done_ch k of
        Some ch \<Rightarrow> (Some ch, w)
      | None \<Rightarrow>
          (let ch = length (chans w)
           in (Some ch, upd_core c (\<lambda>k. k\<lparr>done_ch := Some ch\<rparr>) (w\<lparr>chans := chans w @ [False]\<rparr>))))"

function ctx_Done :: "('k, 'v) ctx_store \<Rightarrow> nat \<Rightarrow> nat option \<times> ('k, 'v) ctx_store" where
  "ctx_Done w c =
     (case core (ctxs w ! c) of
        Some k \<Rightarrow> cancelCtx_Done w c k
      | None \<Rightarrow> (case above w c of Some p \<Rightarrow> ctx_Done w p | None \<Rightarrow> (None, w)))"
  by pat_completeness auto
termination by (relation "measure snd") auto

function ctx_Err :: "('k, 'v) ctx_store \<Rightarrow> nat \<Rightarrow> ctx_error option" where
  "ctx_Err w c =
     (case core (ctxs w ! c) of
        Some k \<Rightarrow> cerr k
      | None \<Rightarrow> (case above w c of Some p \<Rightarrow> ctx_Err w p | None \<Rightarrow> None))"
  by pat_completeness auto
termination by (relation "measure snd") auto

text \<open>\<open>None\<close> is the nil key.\<close>

function ctx_Value :: "('k, 'v) ctx_store \<Rightarrow> nat \<Rightarrow> 'k ctx_key option \<Rightarrow> 'v ctx_value" where
  "ctx_Value w c key =
     (let rest = (case above w c of Some p \<Rightarrow> ctx_Value w p key | None \<Rightarrow> Nil)
      in case ctxs w ! c of
           EmptyCtx \<Rightarrow> Nil
         | ValueCtx _ k v \<Rightarrow> if key = Some (UserKey k) then UserVal v else rest
         | _ \<Rightarrow> if key = Some CancelCtxKey then TheCtx c else rest)"
  by pat_completeness auto
termination by (relation "measure (\<lambda>(w, c, key). c)") auto

declare ctx_Deadline.simps [simp del] ctx_Done.simps [simp del] ctx_Err.simps [simp del] ctx_Value.simps [simp del]

definition is_closed :: "('k, 'v) ctx_store \<Rightarrow> nat \<Rightarrow> bool" where
  "is_closed w ch \<longleftrightarrow> ch < length (chans w) \<and> chans w ! ch"

subsection \<open>Parents and children\<close>

definition done_of :: "('k, 'v) ctx_store \<Rightarrow> nat \<Rightarrow> nat option" where
  "done_of w c = (case core (ctxs w ! c) of Some k \<Rightarrow> done_ch k | None \<Rightarrow> None)"

definition err_of :: "('k, 'v) ctx_store \<Rightarrow> nat \<Rightarrow> ctx_error option" where
  "err_of w c = (case core (ctxs w ! c) of Some k \<Rightarrow> cerr k | None \<Rightarrow> None)"

definition kids_of :: "('k, 'v) ctx_store \<Rightarrow> nat \<Rightarrow> nat list" where
  "kids_of w c = (case core (ctxs w ! c) of Some k \<Rightarrow> children k | None \<Rightarrow> [])"

definition parent_of :: "('k, 'v) ctx_store \<Rightarrow> nat \<Rightarrow> nat" where
  "parent_of w c = (case core (ctxs w ! c) of Some k \<Rightarrow> embedded k | None \<Rightarrow> c)"

definition parentCancelCtx :: "('k, 'v) ctx_store \<Rightarrow> nat \<Rightarrow> nat option \<times> ('k, 'v) ctx_store" where
  "parentCancelCtx w parent =
     (let (d, w) = ctx_Done w parent
      in if d = Some closedchan \<or> d = None then (None, w)
         else case ctx_Value w parent (Some CancelCtxKey) of
                TheCtx p \<Rightarrow> if done_of w p = d then (Some p, w) else (None, w)
              | _ \<Rightarrow> (None, w))"

definition removeChild :: "nat \<Rightarrow> nat \<Rightarrow> ('k, 'v) ctx_store \<Rightarrow> ('k, 'v) ctx_store" where
  "removeChild parent child w =
     (case parentCancelCtx w parent of
        (None, w) \<Rightarrow> w
      | (Some p, w) \<Rightarrow> upd_core p (\<lambda>k. k\<lparr>children := removeAll child (children k)\<rparr>) w)"

subsection \<open>Cancelling\<close>

type_synonym ('k, 'v) ctx_outcome = "ctx_panic + ('k, 'v) ctx_store"

fun next_call :: "('k, 'v) ctx_outcome \<Rightarrow> (('k, 'v) ctx_store \<Rightarrow> ('k, 'v) ctx_outcome) \<Rightarrow> ('k, 'v) ctx_outcome" where
  "next_call (Inl p) f = Inl p"
| "next_call (Inr w) f = f w"

text \<open>The loop over the children: Go's order of a map is any; the list's order stands for it.\<close>

fun each :: "(nat \<Rightarrow> ('k, 'v) ctx_store \<Rightarrow> ('k, 'v) ctx_outcome) \<Rightarrow> nat list \<Rightarrow> ('k, 'v) ctx_store \<Rightarrow> ('k, 'v) ctx_outcome" where
  "each f [] w = Inr w"
| "each f (c # cs) w = next_call (f c w) (each f cs)"

definition close_done :: "nat \<Rightarrow> ('k, 'v) ctx_store \<Rightarrow> ('k, 'v) ctx_outcome" where
  "close_done c w =
     (case done_of w c of
        None \<Rightarrow> Inr (upd_core c (\<lambda>k. k\<lparr>done_ch := Some closedchan\<rparr>) w)
      | Some ch \<Rightarrow>
          if is_closed w ch then Inl CloseOfClosedChannel else Inr (w\<lparr>chans := (chans w)[ch := True]\<rparr>))"

text \<open>\<open>c.timer.Stop(); c.timer = nil\<close>.\<close>

definition stop_timer :: "nat \<Rightarrow> ('k, 'v) ctx_store \<Rightarrow> ('k, 'v) ctx_store" where
  "stop_timer c w =
     (case ctxs w ! c of
        TimerCtx k True d \<Rightarrow>
          w\<lparr>ctxs := (ctxs w)[c := TimerCtx k False d], armed := filter (\<lambda>p. fst p \<noteq> c) (armed w)\<rparr>
      | _ \<Rightarrow> w)"

text \<open>
  \<open>cancelCtx.cancel\<close> up to its removal from the parent, and \<open>child.cancel(false, err)\<close> for each
  child, which for a \<open>timerCtx\<close> also stops its timer. The fuel bounds the depth of the calls.
\<close>

primrec cancel_locked :: "nat \<Rightarrow> ctx_error option \<Rightarrow> nat \<Rightarrow> ('k, 'v) ctx_store \<Rightarrow> ('k, 'v) ctx_outcome" where
  "cancel_locked 0 err c w = Inl NoReturn"
| "cancel_locked (Suc n) err c w =
     (if err = None then Inl MissingCancelError
      else if err_of w c \<noteq> None then Inr w
      else next_call (close_done c (upd_core c (\<lambda>k. k\<lparr>cerr := err\<rparr>) w))
             (\<lambda>w. next_call
                (each (\<lambda>child w. next_call (cancel_locked n err child w) (\<lambda>w. Inr (stop_timer child w)))
                   (kids_of w c) w)
                (\<lambda>w. Inr (upd_core c (\<lambda>k. k\<lparr>children := []\<rparr>) w))))"

definition depth :: "('k, 'v) ctx_store \<Rightarrow> nat" where
  "depth w = length (ctxs w)"

definition cancelCtx_cancel :: "nat \<Rightarrow> bool \<Rightarrow> ctx_error option \<Rightarrow> ('k, 'v) ctx_store \<Rightarrow> ('k, 'v) ctx_outcome" where
  "cancelCtx_cancel c removeFromParent err w =
     next_call (cancel_locked (depth w) err c w)
       (\<lambda>w'. Inr (if removeFromParent \<and> err_of w c = None then removeChild (parent_of w c) c w' else w'))"

definition timerCtx_cancel :: "nat \<Rightarrow> bool \<Rightarrow> ctx_error option \<Rightarrow> ('k, 'v) ctx_store \<Rightarrow> ('k, 'v) ctx_outcome" where
  "timerCtx_cancel c removeFromParent err w =
     next_call (cancelCtx_cancel c False err w)
       (\<lambda>w. Inr (stop_timer c (if removeFromParent then removeChild (parent_of w c) c w else w)))"

text \<open>The method of the interface \<open>canceler\<close>.\<close>

definition ctx_cancel :: "nat \<Rightarrow> bool \<Rightarrow> ctx_error option \<Rightarrow> ('k, 'v) ctx_store \<Rightarrow> ('k, 'v) ctx_outcome" where
  "ctx_cancel c removeFromParent err w =
     (case ctxs w ! c of
        TimerCtx _ _ _ \<Rightarrow> timerCtx_cancel c removeFromParent err w
      | _ \<Rightarrow> cancelCtx_cancel c removeFromParent err w)"

subsection \<open>Making contexts\<close>

definition new_ctx :: "('k, 'v) ctx \<Rightarrow> ('k, 'v) ctx_store \<Rightarrow> ('k, 'v) ctx_store" where
  "new_ctx x w = w\<lparr>ctxs := ctxs w @ [x]\<rparr>"

definition newCancelCtx :: "nat \<Rightarrow> cancelCtx" where
  "newCancelCtx parent = \<lparr>embedded = parent, done_ch = None, children = [], cerr = None\<rparr>"

definition propagateCancel :: "nat \<Rightarrow> nat \<Rightarrow> ('k, 'v) ctx_store \<Rightarrow> ('k, 'v) ctx_outcome" where
  "propagateCancel parent child w =
     (case ctx_Done w parent of
        (None, w) \<Rightarrow> Inr w
      | (Some ch, w) \<Rightarrow>
          if is_closed w ch then ctx_cancel child False (ctx_Err w parent) w
          else (case parentCancelCtx w parent of
                  (Some p, w) \<Rightarrow>
                    if err_of w p \<noteq> None then ctx_cancel child False (err_of w p) w
                    else Inr (upd_core p (\<lambda>k. k\<lparr>children := List.insert child (children k)\<rparr>) w)
                | (None, w) \<Rightarrow>
                    Inr (w\<lparr>goroutines := goroutines w + 1, watchers := (parent, child) # watchers w\<rparr>)))"

text \<open>A \<open>CancelFunc\<close> is the context it cancels and its \<open>removeFromParent\<close>.\<close>

type_synonym cancelFunc = "nat \<times> bool"

definition run_CancelFunc :: "cancelFunc \<Rightarrow> ('k, 'v) ctx_store \<Rightarrow> ('k, 'v) ctx_outcome" where
  "run_CancelFunc f w = ctx_cancel (fst f) (snd f) (Some Canceled) w"

type_synonym ('k, 'v) made_ctx = "ctx_panic + (nat \<times> cancelFunc \<times> ('k, 'v) ctx_store)"

fun returning :: "nat \<Rightarrow> cancelFunc \<Rightarrow> ('k, 'v) ctx_outcome \<Rightarrow> ('k, 'v) made_ctx" where
  "returning c f (Inl p) = Inl p"
| "returning c f (Inr w) = Inr (c, f, w)"

definition WithCancel :: "nat \<Rightarrow> ('k, 'v) ctx_store \<Rightarrow> ('k, 'v) made_ctx" where
  "WithCancel parent w =
     (let c = length (ctxs w)
      in returning c (c, True) (propagateCancel parent c (new_ctx (CancelCtx (newCancelCtx parent)) w)))"

text \<open>\<open>time.Until\<close>: a time with a monotonic reading is compared with the monotonic clock alone.\<close>

definition Time_Until :: "gtime \<Rightarrow> gtime \<Rightarrow> int" where
  "Time_Until t now =
     Time_Sub t (if tmono t \<noteq> None then \<lparr>tsec = 0, tnsec = 0, tmono = tmono now, tloc = UTC\<rparr> else now)"

definition arm_timer :: "nat \<Rightarrow> int \<Rightarrow> ('k, 'v) ctx_store \<Rightarrow> ('k, 'v) ctx_store" where
  "arm_timer c dur w =
     (case ctxs w ! c of
        TimerCtx k _ d \<Rightarrow>
          if cerr k = None then w\<lparr>ctxs := (ctxs w)[c := TimerCtx k True d], armed := (c, dur) # armed w\<rparr> else w
      | _ \<Rightarrow> w)"

definition WithDeadline :: "gtime \<Rightarrow> nat \<Rightarrow> gtime \<Rightarrow> ('k, 'v) ctx_store \<Rightarrow> ('k, 'v) made_ctx" where
  "WithDeadline now parent d w =
     (if case ctx_Deadline w parent of Some cur \<Rightarrow> Before cur d | None \<Rightarrow> False
      then WithCancel parent w
      else let c = length (ctxs w); dur = Time_Until d now;
               w = propagateCancel parent c (new_ctx (TimerCtx (newCancelCtx parent) False d) w)
           in if dur \<le> 0
              then returning c (c, False) (next_call w (ctx_cancel c True (Some DeadlineExceeded)))
              else returning c (c, True) (next_call w (\<lambda>w. Inr (arm_timer c dur w))))"

definition WithTimeout :: "gtime \<Rightarrow> gtime \<Rightarrow> nat \<Rightarrow> int \<Rightarrow> ('k, 'v) ctx_store \<Rightarrow> ('k, 'v) made_ctx" where
  "WithTimeout now later parent timeout w = WithDeadline later parent (Time_Add now timeout) w"

text \<open>\<open>comparable\<close> is \<open>reflectlite\<close>'s answer for the type of the key; \<open>None\<close> is the nil key.\<close>

definition WithValue :: "('k \<Rightarrow> bool) \<Rightarrow> nat \<Rightarrow> 'k option \<Rightarrow> 'v \<Rightarrow> ('k, 'v) ctx_store \<Rightarrow> ctx_panic + (nat \<times> ('k, 'v) ctx_store)" where
  "WithValue comparable parent key val w =
     (case key of
        None \<Rightarrow> Inl NilKey
      | Some k \<Rightarrow>
          if \<not> comparable k then Inl KeyNotComparable
          else Inr (length (ctxs w), new_ctx (ValueCtx parent k val) w))"

text \<open>A pending timer fires: the runtime drops it and calls the function \<open>AfterFunc\<close> was given.\<close>

definition timer_fires :: "nat \<Rightarrow> ('k, 'v) ctx_store \<Rightarrow> ('k, 'v) ctx_outcome" where
  "timer_fires c w = ctx_cancel c True (Some DeadlineExceeded) (w\<lparr>armed := filter (\<lambda>p. fst p \<noteq> c) (armed w)\<rparr>)"

end
