(* ===== verification/GoContextTree.thy ===== *)
theory GoContextTree
  imports GoContext
begin

text \<open>
  The tree the contexts of \<open>GoContext\<close> form, what cancelling does to it as one function on
  the store (\<open>kill\<close>), and the proof that the recursion of \<open>cancel\<close> computes it.
\<close>

subsection \<open>The tree of the contexts that can be cancelled\<close>

text \<open>
  \<open>owner w c\<close> is the innermost \<open>cancelCtx\<close> at or above \<open>c\<close>, \<open>upper w c\<close> the one next above
  a context that is itself one; \<open>under w c x\<close>: \<open>c\<close> is \<open>x\<close> or above it in that order.
\<close>

function owner :: "('k, 'v) ctx_store \<Rightarrow> nat \<Rightarrow> nat option" where
  "owner w c =
     (if core (ctxs w ! c) \<noteq> None then Some c
      else case above w c of Some p \<Rightarrow> owner w p | None \<Rightarrow> None)"
  by pat_completeness auto
termination by (relation "measure snd") auto

declare owner.simps [simp del]

definition upper :: "('k, 'v) ctx_store \<Rightarrow> nat \<Rightarrow> nat option" where
  "upper w c = (case above w c of Some p \<Rightarrow> owner w p | None \<Rightarrow> None)"

inductive under :: "('k, 'v) ctx_store \<Rightarrow> nat \<Rightarrow> nat \<Rightarrow> bool" for w c where
  self: "under w c c"
| climb: "upper w x = Some y \<Longrightarrow> under w c y \<Longrightarrow> under w c x"

definition live :: "('k, 'v) ctx_store \<Rightarrow> nat \<Rightarrow> bool" where
  "live w x \<longleftrightarrow> x < length (ctxs w) \<and> core (ctxs w ! x) \<noteq> None \<and> err_of w x = None"

definition live_under :: "('k, 'v) ctx_store \<Rightarrow> nat \<Rightarrow> nat set" where
  "live_under w c = {x. live w x \<and> under w c x}"

lemma owner_le: "owner w c = Some p \<Longrightarrow> p \<le> c \<and> core (ctxs w ! p) \<noteq> None"
  by (induction w c rule: owner.induct)
    (subst (asm) (2) owner.simps, force split: if_splits option.splits dest: above_less)

lemma upper_less: "upper w x = Some y \<Longrightarrow> y < x \<and> core (ctxs w ! y) \<noteq> None"
  by (auto simp: upper_def split: option.splits dest!: owner_le above_less)

lemma under_le: "under w c x \<Longrightarrow> c \<le> x"
  by (induction rule: under.induct) (auto dest: upper_less)

lemma under_trans: "under w b x \<Longrightarrow> under w a b \<Longrightarrow> under w a x"
  by (induction rule: under.induct) (auto intro: under.intros)

text \<open>The subtrees of two children of one context have nothing in common.\<close>

lemma siblings_disjoint:
  assumes "under w a x" "under w b x" "upper w a = Some c" "upper w b = Some c"
  shows "a = b"
  using assms
proof (induction rule: under.induct)
  case self
  from self(1) show ?case
  proof cases
    case (climb y)
    then have "b \<le> c" using self by (auto dest: under_le)
    then show ?thesis using self upper_less by fastforce
  qed simp
next
  case (climb x y)
  from climb(4) show ?case
  proof cases
    case self
    then have "a \<le> c" using climb by (auto dest: under_le)
    then show ?thesis using climb(5) upper_less by fastforce
  next
    case (climb y')
    then show ?thesis using climb.IH climb.prems \<open>upper w x = Some y\<close> by simp
  qed
qed

lemma under_child:
  assumes "under w c x" "x \<noteq> c"
  obtains k where "upper w k = Some c" "under w k x"
proof -
  have "x = c \<or> (\<exists>k. upper w k = Some c \<and> under w k x)"
    using assms(1) by (induction rule: under.induct) (auto intro: under.intros)
  then show ?thesis using assms(2) that by blast
qed

text \<open>What the store looks like after a set of contexts is cancelled.\<close>

definition closed_core :: "ctx_error \<Rightarrow> cancelCtx \<Rightarrow> cancelCtx" where
  "closed_core e k =
     k\<lparr>done_ch := (case done_ch k of None \<Rightarrow> Some closedchan | Some ch \<Rightarrow> Some ch), cerr := Some e\<rparr>"

fun untimed :: "('k, 'v) ctx \<Rightarrow> ('k, 'v) ctx" where
  "untimed (TimerCtx k t d) = TimerCtx k False d"
| "untimed x = x"

definition killed :: "ctx_error \<Rightarrow> bool \<Rightarrow> bool \<Rightarrow> bool \<Rightarrow> ('k, 'v) ctx \<Rightarrow> ('k, 'v) ctx" where
  "killed e s k t x =
     (if t then untimed else id)
       (with_core (\<lambda>m. (if k then children_update (\<lambda>_. []) else id) ((if s then closed_core e else id) m)) x)"

text \<open>Err and Done of the contexts in \<open>S\<close>, the children of those in \<open>K\<close>, the timers of those in \<open>T\<close>.\<close>

definition kill :: "ctx_error \<Rightarrow> nat set \<Rightarrow> nat set \<Rightarrow> nat set \<Rightarrow> ('k, 'v) ctx_store \<Rightarrow> ('k, 'v) ctx_store" where
  "kill e S K T w =
     w\<lparr>ctxs := map (\<lambda>x. killed e (x \<in> S) (x \<in> K) (x \<in> T) (ctxs w ! x)) [0..<length (ctxs w)],
       chans := map (\<lambda>ch. chans w ! ch \<or> (\<exists>x\<in>S. x < length (ctxs w) \<and> done_of w x = Some ch)) [0..<length (chans w)],
       armed := filter (\<lambda>p. fst p \<notin> T) (armed w)\<rparr>"

lemma length_kill [simp]:
  "length (ctxs (kill e S K T w)) = length (ctxs w)" "length (chans (kill e S K T w)) = length (chans w)"
  by (simp_all add: kill_def)

lemma nth_kill [simp]:
  "x < length (ctxs w) \<Longrightarrow> ctxs (kill e S K T w) ! x = killed e (x \<in> S) (x \<in> K) (x \<in> T) (ctxs w ! x)"
  by (simp add: kill_def)

lemma chans_kill [simp]:
  "ch < length (chans w) \<Longrightarrow>
   chans (kill e S K T w) ! ch \<longleftrightarrow> chans w ! ch \<or> (\<exists>x\<in>S. x < length (ctxs w) \<and> done_of w x = Some ch)"
  by (simp add: kill_def)

lemma kill_frame [simp]:
  "armed (kill e S K T w) = filter (\<lambda>p. fst p \<notin> T) (armed w)"
  "watchers (kill e S K T w) = watchers w" "goroutines (kill e S K T w) = goroutines w"
  by (simp_all add: kill_def)

lemma killed_none [simp]: "killed e False False False x = x"
  by (cases x) (simp_all add: killed_def)

lemma core_killed [simp]:
  "core (killed e s k t x) =
   map_option (\<lambda>m. (if k then children_update (\<lambda>_. []) else id) ((if s then closed_core e else id) m)) (core x)"
  by (cases x) (simp_all add: killed_def)

lemma embeds_killed [simp]: "embeds (killed e s k t x) = embeds x"
  by (cases x) (simp_all add: killed_def closed_core_def)

lemma killed_killed:
  "\<not> (s1 \<and> s2) \<Longrightarrow> killed e s2 k2 t2 (killed e s1 k1 t1 x) = killed e (s1 \<or> s2) (k1 \<or> k2) (t1 \<or> t2) x"
  by (cases x) (auto simp: killed_def closed_core_def)

lemma above_kill [simp]: "c < length (ctxs w) \<Longrightarrow> above (kill e S K T w) c = above w c"
  by (simp add: above_def)

lemma owner_kill [simp]: "c < length (ctxs w) \<Longrightarrow> owner (kill e S K T w) c = owner w c"
proof (induction c rule: less_induct)
  case (less c)
  then show ?case
    by (subst (1 2) owner.simps) (auto split: option.splits dest!: above_less)
qed

lemma upper_kill [simp]: "c < length (ctxs w) \<Longrightarrow> upper (kill e S K T w) c = upper w c"
  by (auto simp: upper_def split: option.splits dest!: above_less)

lemma under_kill_imp: "under w c x \<Longrightarrow> x < length (ctxs w) \<Longrightarrow> under (kill e S K T w) c x"
proof (induction rule: under.induct)
  case (climb x y)
  then have "y < length (ctxs w)" using upper_less [OF climb(1)] by simp
  then show ?case using climb by (intro under.climb [of _ x y]) auto
qed (rule under.self)

lemma under_kill [simp]: "x < length (ctxs w) \<Longrightarrow> under (kill e S K T w) c x \<longleftrightarrow> under w c x"
proof
  assume x: "x < length (ctxs w)"
  show "under w c x" if "under (kill e S K T w) c x" using that x
  proof (induction rule: under.induct)
    case (climb x y)
    then have "upper w x = Some y" by simp
    then show ?case using upper_less [of w x y] climb by (intro under.climb [of _ x y]) auto
  qed (rule under.self)
qed (rule under_kill_imp)

lemma err_kill [simp]:
  "x < length (ctxs w) \<Longrightarrow> core (ctxs w ! x) \<noteq> None \<Longrightarrow>
   err_of (kill e S K T w) x = (if x \<in> S then Some e else err_of w x)"
  by (auto simp: err_of_def closed_core_def)

lemma done_kill [simp]:
  "x < length (ctxs w) \<Longrightarrow> core (ctxs w ! x) \<noteq> None \<Longrightarrow>
   done_of (kill e S K T w) x = (if x \<in> S \<and> done_of w x = None then Some closedchan else done_of w x)"
  by (auto simp: done_of_def closed_core_def)

lemma kids_kill [simp]:
  "x < length (ctxs w) \<Longrightarrow> kids_of (kill e S K T w) x = (if x \<in> K then [] else kids_of w x)"
  by (auto simp: kids_of_def closed_core_def split: option.splits)

lemma core_kill: "x < length (ctxs w) \<Longrightarrow> core (ctxs (kill e S K T w) ! x) = None \<longleftrightarrow> core (ctxs w ! x) = None"
  by simp

lemma live_kill [simp]: "live (kill e S K T w) x \<longleftrightarrow> live w x \<and> x \<notin> S"
  by (auto simp: live_def split: if_splits)

lemma live_under_kill: "live_under (kill e S K T w) c = live_under w c - S"
  by (auto simp: live_under_def live_def split: if_splits)

lemma done_of_none: "core (ctxs w ! x) = None \<Longrightarrow> done_of w x = None"
  by (simp add: done_of_def)

text \<open>Cancelling one set after another is cancelling both.\<close>

lemma kill_kill:
  assumes "S1 \<inter> S2 = {}"
  shows "kill e S2 K2 T2 (kill e S1 K1 T1 w) = kill e (S1 \<union> S2) (K1 \<union> K2) (T1 \<union> T2) w"
proof -
  have d: "done_of (kill e S1 K1 T1 w) x = done_of w x" if "x \<in> S2" "x < length (ctxs w)" for x
  proof (cases "core (ctxs w ! x) = None")
    case False
    then show ?thesis using that assms by auto
  qed (use that in \<open>simp add: done_of_def\<close>)
  have "ctxs (kill e S2 K2 T2 (kill e S1 K1 T1 w)) = ctxs (kill e (S1 \<union> S2) (K1 \<union> K2) (T1 \<union> T2) w)"
  proof (rule nth_equalityI, goal_cases)
    case (2 i)
    then have "\<not> (i \<in> S1 \<and> i \<in> S2)" "i < length (ctxs w)" using assms by auto
    then show ?case by (simp add: killed_killed)
  qed simp
  moreover have "chans (kill e S2 K2 T2 (kill e S1 K1 T1 w)) = chans (kill e (S1 \<union> S2) (K1 \<union> K2) (T1 \<union> T2) w)"
    using d by (auto intro!: nth_equalityI)
  ultimately show ?thesis by (intro ctx_store.equality) (auto intro!: filter_cong)
qed

lemma kill_empty [simp]: "kill e {} {} {} w = w"
  by (intro ctx_store.equality) (auto intro!: nth_equalityI)

lemma kids_killed: "with_core (\<lambda>k. k\<lparr>children := []\<rparr>) (killed e s k t x) = killed e s True t x"
  by (cases x) (auto simp: killed_def closed_core_def)

lemma upd_core_kids_kill:
  assumes "c < length (ctxs w)"
  shows "upd_core c (\<lambda>k. k\<lparr>children := []\<rparr>) (kill e S K T w) = kill e S (insert c K) T w"
proof -
  have "ctxs (upd_core c (\<lambda>k. k\<lparr>children := []\<rparr>) (kill e S K T w)) = ctxs (kill e S (insert c K) T w)"
    using assms by (intro nth_equalityI) (auto simp: upd_core_def nth_list_update kids_killed)
  then show ?thesis by (intro ctx_store.equality) (auto simp: upd_core_def kill_def)
qed

definition timers_ok :: "('k, 'v) ctx_store \<Rightarrow> bool" where
  "timers_ok w \<longleftrightarrow> (\<forall>p\<in>set (armed w). \<exists>k d. fst p < length (ctxs w) \<and> ctxs w ! fst p = TimerCtx k True d)"

lemma timers_ok_kill: "timers_ok w \<Longrightarrow> timers_ok (kill e S K T w)"
  by (fastforce simp: timers_ok_def killed_def)

lemma stop_timer_kill:
  assumes "c < length (ctxs w)" "timers_ok w"
  shows "stop_timer c (kill e S K T w) = kill e S K (insert c T) w"
proof -
  have f: "filter (\<lambda>p. fst p \<noteq> c) (armed (kill e S K T w)) = armed (kill e S K (insert c T) w)"
    by (auto intro!: filter_cong)
  show ?thesis
  proof (cases "\<exists>k d. ctxs (kill e S K T w) ! c = TimerCtx k True d")
    case True
    then obtain k d where x: "ctxs (kill e S K T w) ! c = TimerCtx k True d" by blast
    then have y: "ctxs (kill e S K (insert c T) w) ! c = TimerCtx k False d" using assms
      by (cases "ctxs w ! c") (auto simp: killed_def split: if_splits)
    have "(ctxs (kill e S K T w))[c := TimerCtx k False d] = ctxs (kill e S K (insert c T) w)"
      using assms y by (intro nth_equalityI) (auto simp: nth_list_update)
    then show ?thesis using x f by (intro ctx_store.equality) (auto simp: stop_timer_def kill_def)
  next
    case False
    then have s: "stop_timer c (kill e S K T w) = kill e S K T w"
      by (auto simp: stop_timer_def split: ctx.splits bool.splits)
    have "ctxs (kill e S K T w) = ctxs (kill e S K (insert c T) w)"
    proof (rule nth_equalityI, goal_cases)
      case (2 i)
      then show ?case using False assms
        by (cases "i = c"; cases "ctxs w ! c") (auto simp: killed_def split: if_splits)
    qed simp
    moreover have "armed (kill e S K T w) = armed (kill e S K (insert c T) w)"
    proof -
      have "fst p \<noteq> c" if "p \<in> set (armed (kill e S K T w))" for p
        using False timers_ok_kill [OF assms(2), of e S K T] that by (auto simp: timers_ok_def simp del: kill_frame)
      then show ?thesis unfolding f [symmetric] by (simp add: filter_id_conv del: kill_frame)
    qed
    ultimately show ?thesis unfolding s by (intro ctx_store.equality) (auto simp: kill_def)
  qed
qed

definition chans_ok :: "('k, 'v) ctx_store \<Rightarrow> bool" where
  "chans_ok w \<longleftrightarrow>
     is_closed w closedchan \<and>
     (\<forall>x < length (ctxs w). \<forall>ch. done_of w x = Some ch \<longrightarrow> ch < length (chans w)) \<and>
     (\<forall>x < length (ctxs w). \<forall>y < length (ctxs w). \<forall>ch.
        done_of w x = Some ch \<longrightarrow> done_of w y = Some ch \<longrightarrow> ch \<noteq> closedchan \<longrightarrow> x = y)"

text \<open>What holds of a live context: its channel is open and its children are the live ones next below it.\<close>

definition tree_at :: "('k, 'v) ctx_store \<Rightarrow> nat \<Rightarrow> bool" where
  "tree_at w x \<longleftrightarrow>
     (\<forall>ch. done_of w x = Some ch \<longrightarrow> \<not> is_closed w ch) \<and>
     distinct (kids_of w x) \<and>
     (\<forall>k. k \<in> set (kids_of w x) \<longleftrightarrow> live w k \<and> upper w k = Some x)"

definition subtree_ok :: "('k, 'v) ctx_store \<Rightarrow> nat \<Rightarrow> bool" where
  "subtree_ok w c \<longleftrightarrow>
     (\<forall>x \<in> live_under w c. tree_at w x \<and> (x \<noteq> c \<longrightarrow> (\<exists>y. upper w x = Some y \<and> live w y)))"

lemma chans_okD:
  assumes "chans_ok w"
  shows "is_closed w closedchan"
    and "x < length (ctxs w) \<Longrightarrow> done_of w x = Some ch \<Longrightarrow> ch < length (chans w)"
    and "x < length (ctxs w) \<Longrightarrow> y < length (ctxs w) \<Longrightarrow> done_of w x = Some ch \<Longrightarrow>
         done_of w y = Some ch \<Longrightarrow> ch \<noteq> closedchan \<Longrightarrow> x = y"
  using assms unfolding chans_ok_def by blast+

lemma done_kill_some:
  "x < length (ctxs w) \<Longrightarrow> done_of (kill e S K T w) x = Some ch \<Longrightarrow> done_of w x = Some ch \<or> ch = closedchan"
  by (cases "core (ctxs w ! x) = None") (auto split: if_splits simp: done_of_none)

lemma chans_ok_kill: "chans_ok w \<Longrightarrow> chans_ok (kill e S K T w)"
proof -
  assume ok: "chans_ok w"
  have "is_closed (kill e S K T w) closedchan" using chans_okD(1) [OF ok] by (auto simp: is_closed_def)
  moreover have "ch < length (chans w)"
    if "x < length (ctxs w)" "done_of (kill e S K T w) x = Some ch" for x ch
    using done_kill_some [OF that] chans_okD(1,2) [OF ok] that(1) by (auto simp: is_closed_def)
  moreover have "x = y"
    if "x < length (ctxs w)" "y < length (ctxs w)" "done_of (kill e S K T w) x = Some ch"
      "done_of (kill e S K T w) y = Some ch" "ch \<noteq> closedchan" for x y ch
    using done_kill_some [OF that(1,3)] done_kill_some [OF that(2,4)] chans_okD(3) [OF ok] that by blast
  ultimately show ?thesis unfolding chans_ok_def by simp
qed

text \<open>Cancelling contexts outside a subtree leaves the subtree as it is.\<close>

lemma tree_at_kill:
  assumes "tree_at w x" "live w x" "x \<notin> S" "x \<notin> K" "chans_ok w"
    "\<And>k. k \<in> set (kids_of w x) \<Longrightarrow> k \<notin> S"
  shows "tree_at (kill e S K T w) x"
proof -
  have x: "x < length (ctxs w)" "core (ctxs w ! x) \<noteq> None" using assms(2) by (auto simp: live_def)
  have "\<not> is_closed (kill e S K T w) ch" if "done_of (kill e S K T w) x = Some ch" for ch
  proof -
    have d: "done_of w x = Some ch" using that x assms(3) by simp
    then have ch: "\<not> chans w ! ch" "ch < length (chans w)"
      using assms(1) chans_okD(2) [OF assms(5)] x by (auto simp: tree_at_def is_closed_def)
    then have "ch \<noteq> closedchan" using chans_okD(1) [OF assms(5)] by (auto simp: is_closed_def)
    then have "done_of w y \<noteq> Some ch" if "y \<in> S" "y < length (ctxs w)" for y
      using chans_okD(3) [OF assms(5) x(1) that(2) d] that assms(3) by blast
    then show ?thesis using ch by (auto simp: is_closed_def)
  qed
  moreover have "k \<in> set (kids_of (kill e S K T w) x) \<longleftrightarrow>
      live (kill e S K T w) k \<and> upper (kill e S K T w) k = Some x" for k
    using assms x by (cases "k < length (ctxs w)") (auto simp: tree_at_def live_def split: if_splits)
  ultimately show ?thesis using assms x by (simp add: tree_at_def)
qed

lemma live_under_self: "live w c \<Longrightarrow> c \<in> live_under w c"
  by (simp add: live_under_def under.self)

lemma live_under_kid: "x \<in> live_under w c \<Longrightarrow> live w k \<Longrightarrow> upper w k = Some x \<Longrightarrow> k \<in> live_under w c"
  by (auto simp: live_under_def intro: under.climb)

lemma subtree_kill:
  assumes "subtree_ok w c" "chans_ok w" "S \<inter> live_under w c = {}" "K \<inter> live_under w c = {}"
  shows "subtree_ok (kill e S K T w) c" "live_under (kill e S K T w) c = live_under w c"
proof -
  show lu: "live_under (kill e S K T w) c = live_under w c" using assms(3) by (auto simp: live_under_kill)
  show "subtree_ok (kill e S K T w) c"
    unfolding subtree_ok_def lu
  proof
    fix x assume x: "x \<in> live_under w c"
    then have t: "tree_at w x" "live w x" and u: "x \<noteq> c \<Longrightarrow> \<exists>y. upper w x = Some y \<and> live w y"
      using assms(1) by (auto simp: subtree_ok_def live_under_def)
    have "k \<notin> S" if "k \<in> set (kids_of w x)" for k
      using live_under_kid [OF x, of k] that t(1) assms(3) by (auto simp: tree_at_def)
    then have "tree_at (kill e S K T w) x" using assms x t by (intro tree_at_kill) auto
    moreover have "\<exists>y. upper (kill e S K T w) x = Some y \<and> live (kill e S K T w) y" if "x \<noteq> c"
    proof -
      from u [OF that] obtain y where y: "upper w x = Some y" "live w y" by blast
      have "under w c y" using x that y(1) by (auto simp: live_under_def elim: under.cases)
      then have "y \<notin> S" using y assms(3) by (auto simp: live_under_def)
      then show ?thesis using y t by (auto simp: live_def)
    qed
    ultimately show "tree_at (kill e S K T w) x \<and>
        (x \<noteq> c \<longrightarrow> (\<exists>y. upper (kill e S K T w) x = Some y \<and> live (kill e S K T w) y))" by blast
  qed
qed

text \<open>The subtree of a context: itself and the subtrees of its children.\<close>

lemma live_up:
  assumes "subtree_ok w c" "under w k x" "live w x" "under w c k" "k \<noteq> c"
  shows "live w k"
  using assms(2-5)
proof (induction rule: under.induct)
  case (climb x y)
  have "under w c x" using climb by (meson under.climb under_trans)
  moreover have "x \<noteq> c"
    using under_le [OF climb(2)] under_le [OF climb.prems(2)] upper_less [OF climb(1)] climb.prems(3) by auto
  ultimately have "live w y" using assms(1) climb by (auto simp: subtree_ok_def live_under_def)
  then show ?case using climb by blast
qed

lemma live_under_split:
  assumes "live w c" "subtree_ok w c"
  shows "live_under w c = insert c (\<Union>k\<in>set (kids_of w c). live_under w k)"
proof -
  have t: "tree_at w c" using assms by (auto simp: subtree_ok_def dest: live_under_self)
  have "x \<in> (\<Union>k\<in>set (kids_of w c). live_under w k)" if "x \<in> live_under w c" "x \<noteq> c" for x
  proof -
    from that obtain k where k: "upper w k = Some c" "under w k x"
      by (auto simp: live_under_def elim: under_child)
    then have "live w k" using live_up [OF assms(2) k(2), unfolded live_under_def] that under.climb [OF k(1) under.self]
        upper_less [OF k(1)] by (auto simp: live_under_def)
    then show ?thesis using k t that by (auto simp: tree_at_def live_under_def)
  qed
  moreover have "x \<in> live_under w c" if "k \<in> set (kids_of w c)" "x \<in> live_under w k" for x k
  proof -
    have "under w c k" using t that(1) by (auto simp: tree_at_def intro: under.intros)
    then show ?thesis using that(2) by (auto simp: live_under_def intro: under_trans)
  qed
  ultimately show ?thesis using live_under_self [OF assms(1)] by blast
qed

lemma subtree_child:
  assumes "live w c" "subtree_ok w c" "k \<in> set (kids_of w c)"
  shows "live w k" "upper w k = Some c" "subtree_ok w k" "live_under w k \<subseteq> live_under w c - {c}"
proof -
  have t: "tree_at w c" using assms by (auto simp: subtree_ok_def dest: live_under_self)
  then show k: "live w k" "upper w k = Some c" using assms(3) by (auto simp: tree_at_def)
  have "c \<notin> live_under w k" using under_le upper_less [OF k(2)] by (fastforce simp: live_under_def)
  then show sub: "live_under w k \<subseteq> live_under w c - {c}" using live_under_split [OF assms(1,2)] assms(3) by blast
  show "subtree_ok w k"
    using assms(2) sub by (auto simp: subtree_ok_def)
qed

text \<open>The first half of \<open>cancelCtx.cancel\<close>: the error is set and the channel closed.\<close>

lemma killed_self: "killed e True False False x = with_core (closed_core e) x"
  by (cases x) (simp_all add: killed_def)

lemma kill_self:
  assumes "c < length (ctxs w)"
  shows "kill e {c} {} {} w =
    (upd_core c (closed_core e) w)
      \<lparr>chans := (case done_of w c of None \<Rightarrow> chans w | Some ch \<Rightarrow> (chans w)[ch := True])\<rparr>"
proof (intro ctx_store.equality)
  show "ctxs (kill e {c} {} {} w) = ctxs ((upd_core c (closed_core e) w)
      \<lparr>chans := (case done_of w c of None \<Rightarrow> chans w | Some ch \<Rightarrow> (chans w)[ch := True])\<rparr>)"
    using assms by (intro nth_equalityI) (auto simp: upd_core_def nth_list_update killed_self)
  show "chans (kill e {c} {} {} w) = chans ((upd_core c (closed_core e) w)
      \<lparr>chans := (case done_of w c of None \<Rightarrow> chans w | Some ch \<Rightarrow> (chans w)[ch := True])\<rparr>)"
  proof (rule nth_equalityI, goal_cases)
    case (2 i)
    then show ?case
      using assms by (cases "done_of w c"; cases "done_of w c = Some i") (auto simp: nth_list_update_eq)
  qed (simp split: option.splits)
qed (simp_all add: upd_core_def)

lemma close_done_kill:
  assumes "live w c" "chans_ok w" "\<And>ch. done_of w c = Some ch \<Longrightarrow> \<not> is_closed w ch"
  shows "close_done c (upd_core c (\<lambda>k. k\<lparr>cerr := Some e\<rparr>) w) = Inr (kill e {c} {} {} w)"
proof -
  from assms(1) obtain k where k: "core (ctxs w ! c) = Some k" "c < length (ctxs w)" by (auto simp: live_def)
  let ?w = "upd_core c (\<lambda>k. k\<lparr>cerr := Some e\<rparr>) w"
  have c: "with_core (\<lambda>k. k\<lparr>done_ch := d\<rparr>) (with_core (\<lambda>k. k\<lparr>cerr := Some e\<rparr>) x) =
      with_core (\<lambda>k. k\<lparr>done_ch := d, cerr := Some e\<rparr>) x" for d x
    by (cases x) simp_all
  have d: "done_of ?w c = done_of w c" using k by (cases "ctxs w ! c") (auto simp: done_of_def upd_core_def)
  show ?thesis
  proof (cases "done_of w c")
    case None
    then have "upd_core c (\<lambda>k. k\<lparr>done_ch := Some closedchan\<rparr>) ?w = upd_core c (closed_core e) w"
      using k by (cases "ctxs w ! c"; cases k) (auto simp: upd_core_def done_of_def closed_core_def)
    then show ?thesis using None d k by (simp add: close_done_def kill_self upd_core_def)
  next
    case (Some ch)
    then have "?w = upd_core c (closed_core e) w"
      using k by (cases "ctxs w ! c"; cases k) (auto simp: upd_core_def done_of_def closed_core_def)
    moreover have "\<not> is_closed ?w ch" using assms(3) [OF Some] by (simp add: is_closed_def upd_core_def)
    ultimately show ?thesis using Some d k by (simp add: close_done_def kill_self upd_core_def)
  qed
qed

text \<open>Cancelling the children one after the other cancels their subtrees.\<close>

lemma each_kill:
  assumes "\<And>k v. \<lbrakk>k \<in> set ks; live v k; subtree_ok v k; chans_ok v; timers_ok v;
      length (ctxs v) = length (ctxs w)\<rbrakk> \<Longrightarrow>
      f k v = Inr (kill e (live_under v k) (live_under v k) (live_under v k) v)"
    and "distinct ks" "chans_ok w" "timers_ok w"
    and "\<And>k. k \<in> set ks \<Longrightarrow> live w k \<and> subtree_ok w k \<and> upper w k = Some c"
  defines "U \<equiv> \<Union>k\<in>set ks. live_under w k"
  shows "each f ks w = Inr (kill e U U U w)"
  using assms(1-5) unfolding U_def
proof (induction ks arbitrary: w)
  case (Cons k ks)
  let ?S = "live_under w k"
  let ?w = "kill e ?S ?S ?S w"
  let ?U = "\<Union>k\<in>set ks. live_under w k"
  have dis: "?S \<inter> live_under w k' = {}" if "k' \<in> set ks" for k'
    using that Cons.prems(2) Cons.prems(5) [of k] Cons.prems(5) [of k']
    by (auto simp: live_under_def dest: siblings_disjoint)
  have sub: "live_under ?w k' = live_under w k'" "subtree_ok ?w k'" if "k' \<in> set ks" for k'
    using that dis [OF that] Cons.prems(3) Cons.prems(5) [of k'] by (intro subtree_kill; auto)+
  have prem: "live ?w k' \<and> subtree_ok ?w k' \<and> upper ?w k' = Some c" if "k' \<in> set ks" for k'
  proof -
    have "live w k'" "upper w k' = Some c" using that Cons.prems(5) by auto
    moreover have "k' \<notin> ?S" using dis [OF that] live_under_self \<open>live w k'\<close> by blast
    ultimately show ?thesis using sub(2) [OF that] by (auto simp: live_def)
  qed
  have "each f ks ?w = Inr (kill e (\<Union>k\<in>set ks. live_under ?w k) (\<Union>k\<in>set ks. live_under ?w k)
      (\<Union>k\<in>set ks. live_under ?w k) ?w)"
  proof (rule Cons.IH, goal_cases)
    case (1 k v)
    then show ?case using Cons.prems(1) by simp
  qed (use Cons.prems prem in \<open>auto intro: chans_ok_kill timers_ok_kill\<close>)
  moreover have "(\<Union>k\<in>set ks. live_under ?w k) = ?U" using sub(1) by simp
  moreover have "kill e ?U ?U ?U ?w = kill e (?S \<union> ?U) (?S \<union> ?U) (?S \<union> ?U) w"
    using dis by (intro kill_kill) blast
  moreover have "f k w = Inr ?w" using Cons.prems by simp
  ultimately show ?case by simp
qed simp

text \<open>
  Cancelling a live context cancels its live subtree, stopping the timers below it, and
  changes nothing else; the fuel need only exceed the number of contexts made after it.
\<close>

lemma cancel_locked_kill:
  assumes "live w c" "subtree_ok w c" "chans_ok w" "timers_ok w" "length (ctxs w) - c \<le> n"
  shows "cancel_locked n (Some e) c w = Inr (kill e (live_under w c) (live_under w c) (live_under w c - {c}) w)"
  using assms
proof (induction n arbitrary: w c)
  case 0
  then show ?case by (simp add: live_def)
next
  case (Suc n)
  let ?w = "kill e {c} {} {} w"
  let ?f = "\<lambda>child w. next_call (cancel_locked n (Some e) child w) (\<lambda>w. Inr (stop_timer child w))"
  let ?U = "\<Union>k\<in>set (kids_of w c). live_under w k"
  have t: "tree_at w c" using Suc.prems by (auto simp: subtree_ok_def dest: live_under_self)
  have c: "c < length (ctxs w)" "err_of w c = None" using Suc.prems(1) by (auto simp: live_def)
  note ch = subtree_child [OF Suc.prems(1,2)]
  have sub: "live_under ?w k = live_under w k" "subtree_ok ?w k" if "k \<in> set (kids_of w c)" for k
    using ch(3,4) [OF that] Suc.prems(3) by (intro subtree_kill; auto)+
  have "each ?f (kids_of w c) ?w = Inr (kill e (\<Union>k\<in>set (kids_of w c). live_under ?w k)
      (\<Union>k\<in>set (kids_of w c). live_under ?w k) (\<Union>k\<in>set (kids_of w c). live_under ?w k) ?w)"
  proof (rule each_kill [where c = c], goal_cases)
    case (1 k v)
    have "c < k" using upper_less [OF ch(2) [OF 1(1)]] by simp
    then have "cancel_locked n (Some e) k v = Inr (kill e (live_under v k) (live_under v k) (live_under v k - {k}) v)"
      using Suc.prems(5) 1 by (intro Suc.IH) auto
    moreover have "insert k (live_under v k - {k}) = live_under v k" using live_under_self [OF 1(2)] by blast
    ultimately show ?case using 1 by (simp add: stop_timer_kill live_def)
  next
    case 2
    then show ?case using t by (simp add: tree_at_def)
  next
    case (5 k)
    then have "c < k" "live w k" "upper w k = Some c" using ch upper_less by blast+
    then show ?case using sub(2) [OF 5] by (auto simp: live_def)
  qed (use Suc.prems in \<open>auto intro: chans_ok_kill timers_ok_kill\<close>)
  moreover have "(\<Union>k\<in>set (kids_of w c). live_under ?w k) = ?U" using sub(1) by simp
  moreover have "kill e ?U ?U ?U ?w = kill e (insert c ?U) ?U ?U w"
    using ch(4) by (subst kill_kill) auto
  moreover have "live_under w c = insert c ?U" by (rule live_under_split [OF Suc.prems(1,2)])
  moreover have "c \<notin> ?U" using ch(4) by blast
  moreover have "close_done c (upd_core c (\<lambda>k. k\<lparr>cerr := Some e\<rparr>) w) = Inr ?w"
    using t Suc.prems by (intro close_done_kill) (auto simp: tree_at_def)
  ultimately show ?case using c by (simp add: upd_core_kids_kill)
qed

end
