(* ===== verification/GoContextInv.thy ===== *)
theory GoContextInv
  imports GoContextTree
begin

text \<open>
  The invariant of the store of contexts (\<open>ctx_inv\<close>) and the proof that every operation of
  \<open>GoContext\<close> keeps it; the result of \<open>cancel\<close> seen from outside.
\<close>

subsection \<open>What never changes\<close>

text \<open>The parts of a context no operation changes: what it embeds, its deadline, its key and value.\<close>

fun shape :: "('k, 'v) ctx \<Rightarrow> ('k, 'v) ctx" where
  "shape (CancelCtx k) = CancelCtx (newCancelCtx (embedded k))"
| "shape (TimerCtx k t d) = TimerCtx (newCancelCtx (embedded k)) False d"
| "shape x = x"

definition same_shape :: "nat \<Rightarrow> ('k, 'v) ctx_store \<Rightarrow> ('k, 'v) ctx_store \<Rightarrow> bool" where
  "same_shape n w w' \<longleftrightarrow> (\<forall>i<n. shape (ctxs w' ! i) = shape (ctxs w ! i))"

lemma shape_facts:
  assumes "shape x' = shape x"
  shows "embeds x' = embeds x" "(core x' = None) = (core x = None)"
  using assms by (cases x; cases x'; simp add: newCancelCtx_def)+

lemma shape_with_core: "(\<And>k. embedded (f k) = embedded k) \<Longrightarrow> shape (with_core f x) = shape x"
  by (cases x) simp_all

lemma same_shapeD: "same_shape n w w' \<Longrightarrow> i < n \<Longrightarrow> shape (ctxs w' ! i) = shape (ctxs w ! i)"
  by (simp add: same_shape_def)

lemma above_shape: "same_shape n w w' \<Longrightarrow> c < n \<Longrightarrow> above w' c = above w c"
  by (auto simp: above_def dest!: same_shapeD shape_facts(1))

lemma owner_shape: "same_shape n w w' \<Longrightarrow> c < n \<Longrightarrow> owner w' c = owner w c"
proof (induction c rule: less_induct)
  case (less c)
  show ?case
    using less above_shape [OF less(2,3)] shape_facts(2) [OF same_shapeD [OF less(2,3)]]
    by (subst (1 2) owner.simps) (auto split: option.splits dest!: above_less)
qed

lemma upper_shape: "same_shape n w w' \<Longrightarrow> c < n \<Longrightarrow> upper w' c = upper w c"
  by (cases "above w c")
    (auto simp: upper_def above_shape split: option.splits dest!: above_less intro!: owner_shape [of n w w'])

lemma Deadline_shape: "same_shape n w w' \<Longrightarrow> c < n \<Longrightarrow> ctx_Deadline w' c = ctx_Deadline w c"
proof (induction c rule: less_induct)
  case (less c)
  show ?case
    using less above_shape [OF less(2,3)] same_shapeD [OF less(2,3)]
    by (subst (1 2) ctx_Deadline.simps)
      (cases "ctxs w ! c"; cases "ctxs w' ! c"; auto split: option.splits dest!: above_less)
qed

lemma Value_shape: "same_shape n w w' \<Longrightarrow> c < n \<Longrightarrow> ctx_Value w' c key = ctx_Value w c key"
proof (induction c rule: less_induct)
  case (less c)
  show ?case
    using less above_shape [OF less(2,3)] same_shapeD [OF less(2,3)]
    by (subst (1 2) ctx_Value.simps)
      (cases "ctxs w ! c"; cases "ctxs w' ! c"; auto split: option.splits dest!: above_less)
qed

lemma shape_killed [simp]: "shape (killed e s k t x) = shape x"
  by (cases x) (simp_all add: killed_def closed_core_def)

lemma shape_kill: "same_shape (length (ctxs w)) w (kill e S K T w)"
  by (simp add: same_shape_def)

lemma shape_upd_core: "(\<And>k. embedded (f k) = embedded k) \<Longrightarrow> same_shape n w (upd_core c f w)"
  by (cases "c < length (ctxs w)")
    (auto simp: same_shape_def upd_core_def nth_list_update shape_with_core list_update_beyond)

lemma shape_new: "same_shape (length (ctxs w)) w (new_ctx x w)"
  by (simp add: same_shape_def new_ctx_def nth_append)

subsection \<open>The methods in terms of the owner\<close>

lemma Err_owner: "ctx_Err w c = (case owner w c of Some p \<Rightarrow> err_of w p | None \<Rightarrow> None)"
  by (induction w c rule: ctx_Err.induct)
    (subst ctx_Err.simps, subst owner.simps, auto simp: err_of_def split: option.splits)

lemma Value_owner: "ctx_Value w c (Some CancelCtxKey) = (case owner w c of Some p \<Rightarrow> TheCtx p | None \<Rightarrow> Nil)"
proof (induction c rule: less_induct)
  case (less c)
  then show ?case
    by (subst ctx_Value.simps, subst owner.simps)
      (cases "ctxs w ! c"; auto simp: above_def split: option.splits dest!: above_less)
qed

lemma Done_owner:
  "ctx_Done w c =
     (case owner w c of Some p \<Rightarrow> cancelCtx_Done w p (the (core (ctxs w ! p))) | None \<Rightarrow> (None, w))"
proof (induction c rule: less_induct)
  case (less c)
  then show ?case
    by (subst ctx_Done.simps, subst owner.simps) (auto split: option.splits dest!: above_less)
qed

lemma Done_some:
  "owner w c = Some p \<Longrightarrow> done_of w p = Some ch \<Longrightarrow> ctx_Done w c = (Some ch, w)"
  by (auto simp: Done_owner cancelCtx_Done_def done_of_def split: option.splits dest: owner_le)

lemma Done_new:
  "owner w c = Some p \<Longrightarrow> done_of w p = None \<Longrightarrow>
   ctx_Done w c = (Some (length (chans w)),
     upd_core p (\<lambda>k. k\<lparr>done_ch := Some (length (chans w))\<rparr>) (w\<lparr>chans := chans w @ [False]\<rparr>))"
  using owner_le [of w c p] by (auto simp: Done_owner cancelCtx_Done_def done_of_def Let_def split: option.splits)

lemma Done_none: "owner w c = None \<Longrightarrow> ctx_Done w c = (None, w)"
  by (simp add: Done_owner)

lemma parent_none: "owner w parent = None \<Longrightarrow> parentCancelCtx w parent = (None, w)"
  by (simp add: parentCancelCtx_def Done_none)

lemma parent_some:
  "owner w parent = Some p \<Longrightarrow> done_of w p = Some ch \<Longrightarrow>
   parentCancelCtx w parent = (if ch = closedchan then None else Some p, w)"
  by (simp add: parentCancelCtx_def Done_some Value_owner)

lemma removeChild_none: "owner w parent = None \<Longrightarrow> removeChild parent c w = w"
  by (simp add: removeChild_def parent_none)

lemma removeChild_some:
  "owner w parent = Some p \<Longrightarrow> done_of w p = Some ch \<Longrightarrow>
   removeChild parent c w =
     (if ch = closedchan then w else upd_core p (\<lambda>k. k\<lparr>children := removeAll c (children k)\<rparr>) w)"
  by (simp add: removeChild_def parent_some)

subsection \<open>The invariant of the store\<close>

text \<open>
  \<open>ctx_inv D w\<close>: the invariant, except that the contexts in \<open>D\<close> may be missing from their
  parent's children, or may still be among them. \<open>ctx_inv {} w\<close> holds between two calls.
\<close>

definition older :: "('k, 'v) ctx_store \<Rightarrow> bool" where
  "older w \<longleftrightarrow> (\<forall>c < length (ctxs w). \<forall>p. embeds (ctxs w ! c) = Some p \<longrightarrow> p < c)"

definition dead_ok :: "('k, 'v) ctx_store \<Rightarrow> nat \<Rightarrow> bool" where
  "dead_ok w x \<longleftrightarrow>
     (\<exists>ch. done_of w x = Some ch \<and> is_closed w ch) \<and> kids_of w x = [] \<and> untimed (ctxs w ! x) = ctxs w ! x"

definition live_ok :: "nat set \<Rightarrow> ('k, 'v) ctx_store \<Rightarrow> nat \<Rightarrow> bool" where
  "live_ok D w x \<longleftrightarrow>
     (\<forall>ch. done_of w x = Some ch \<longrightarrow> \<not> is_closed w ch) \<and>
     distinct (kids_of w x) \<and>
     (\<forall>k. k \<notin> D \<longrightarrow> (k \<in> set (kids_of w x) \<longleftrightarrow> live w k \<and> upper w k = Some x)) \<and>
     (\<forall>k \<in> D. k \<in> set (kids_of w x) \<longrightarrow> k < length (ctxs w) \<and> upper w k = Some x) \<and>
     (x \<notin> D \<longrightarrow> (\<forall>y. upper w x = Some y \<longrightarrow> live w y))"

definition attached :: "('k, 'v) ctx_store \<Rightarrow> nat \<Rightarrow> bool" where
  "attached w x \<longleftrightarrow> (core (ctxs w ! x) \<noteq> None \<longrightarrow> (\<forall>y. upper w x = Some y \<longrightarrow> done_of w y \<noteq> None))"

definition deadline_ok :: "('k, 'v) ctx_store \<Rightarrow> nat \<Rightarrow> bool" where
  "deadline_ok w x \<longleftrightarrow>
     (case ctxs w ! x of
        TimerCtx k t d \<Rightarrow> (case ctx_Deadline w (embedded k) of Some cur \<Rightarrow> \<not> Before cur d | None \<Rightarrow> True)
      | _ \<Rightarrow> True)"

definition ctx_inv :: "nat set \<Rightarrow> ('k, 'v) ctx_store \<Rightarrow> bool" where
  "ctx_inv D w \<longleftrightarrow>
     older w \<and> chans_ok w \<and> timers_ok w \<and> watchers w = [] \<and> goroutines w = 0 \<and>
     (\<forall>x < length (ctxs w). (core (ctxs w ! x) \<noteq> None \<longrightarrow> err_of w x \<noteq> None \<longrightarrow> dead_ok w x) \<and>
        (live w x \<longrightarrow> live_ok D w x) \<and> (x \<notin> D \<longrightarrow> attached w x) \<and> deadline_ok w x)"

lemma ctx_invD:
  assumes "ctx_inv D w"
  shows "older w" "chans_ok w" "timers_ok w" "watchers w = []" "goroutines w = 0"
    and "x < length (ctxs w) \<Longrightarrow> core (ctxs w ! x) \<noteq> None \<Longrightarrow> err_of w x \<noteq> None \<Longrightarrow> dead_ok w x"
    and "live w x \<Longrightarrow> live_ok D w x"
    and "x < length (ctxs w) \<Longrightarrow> x \<notin> D \<Longrightarrow> attached w x"
    and "x < length (ctxs w) \<Longrightarrow> deadline_ok w x"
  using assms by (auto simp: ctx_inv_def live_def)

lemma ctx_invI:
  assumes "older w" "chans_ok w" "timers_ok w" "watchers w = []" "goroutines w = 0"
    and "\<And>x. x < length (ctxs w) \<Longrightarrow> core (ctxs w ! x) \<noteq> None \<Longrightarrow> err_of w x \<noteq> None \<Longrightarrow> dead_ok w x"
    and "\<And>x. live w x \<Longrightarrow> live_ok D w x"
    and "\<And>x. x < length (ctxs w) \<Longrightarrow> x \<notin> D \<Longrightarrow> attached w x"
    and "\<And>x. x < length (ctxs w) \<Longrightarrow> deadline_ok w x"
  shows "ctx_inv D w"
  using assms by (simp add: ctx_inv_def)

lemma above_older: "older w \<Longrightarrow> c < length (ctxs w) \<Longrightarrow> above w c = embeds (ctxs w ! c)"
  by (auto simp: older_def above_def split: option.splits)

lemma upper_parent:
  "older w \<Longrightarrow> c < length (ctxs w) \<Longrightarrow> core (ctxs w ! c) \<noteq> None \<Longrightarrow> upper w c = owner w (parent_of w c)"
  by (cases "ctxs w ! c") (auto simp: upper_def above_older parent_of_def)

lemma deadline_shape:
  assumes "older w" "same_shape n w w'" "x < n" "n \<le> length (ctxs w)" "deadline_ok w x"
  shows "deadline_ok w' x"
proof -
  have s: "shape (ctxs w' ! x) = shape (ctxs w ! x)" using assms by (auto dest: same_shapeD)
  show ?thesis
  proof (cases "ctxs w ! x")
    case (TimerCtx k t d)
    then obtain k' t' where x': "ctxs w' ! x = TimerCtx k' t' d" "embedded k' = embedded k"
      using s by (cases "ctxs w' ! x") (auto simp: newCancelCtx_def)
    have "embedded k < x" using assms TimerCtx by (auto simp: older_def)
    then have "ctx_Deadline w' (embedded k) = ctx_Deadline w (embedded k)" using assms by (intro Deadline_shape [OF assms(2)]) simp
    then show ?thesis using assms(5) TimerCtx x' by (simp add: deadline_ok_def)
  qed (use s in \<open>cases "ctxs w' ! x"; auto simp: deadline_ok_def\<close>)+
qed

lemma older_shape:
  assumes "older w" "same_shape (length (ctxs w)) w w'" "length (ctxs w') = length (ctxs w)"
  shows "older w'"
  using assms by (auto simp: older_def dest!: same_shapeD shape_facts(1))

text \<open>The subtree of a context whose link to its parent is the only one in doubt.\<close>

lemma inv_subtree:
  assumes "ctx_inv D w" "D \<subseteq> {c}"
  shows "subtree_ok w c"
  unfolding subtree_ok_def
proof
  fix x assume x: "x \<in> live_under w c"
  then have l: "live w x" "under w c x" by (auto simp: live_under_def)
  have ok: "live_ok D w x" using ctx_invD(7) [OF assms(1) l(1)] .
  have c: "upper w c \<noteq> Some x" using upper_less [of w c x] under_le [OF l(2)] by auto
  have "k \<in> set (kids_of w x) \<longleftrightarrow> live w k \<and> upper w k = Some x" for k
    using ok c assms(2) by (cases "k \<in> D") (auto simp: live_ok_def)
  then have "tree_at w x" using ok by (simp add: tree_at_def live_ok_def)
  moreover have "\<exists>y. upper w x = Some y \<and> live w y" if n: "x \<noteq> c"
  proof -
    from l(2) n obtain y where "upper w x = Some y" by (auto elim: under.cases)
    then show ?thesis using ok assms(2) n by (auto simp: live_ok_def)
  qed
  ultimately show "tree_at w x \<and> (x \<noteq> c \<longrightarrow> (\<exists>y. upper w x = Some y \<and> live w y))" by blast
qed

lemma dead_ok_killed:
  assumes "x \<in> S" "x \<in> K" "x \<in> T" "x < length (ctxs w)" "core (ctxs w ! x) \<noteq> None" "chans_ok w"
  shows "dead_ok (kill e S K T w) x"
proof -
  have "untimed (killed e True True True y) = killed e True True True y" for y :: "('a, 'b) ctx"
    by (cases y) (simp_all add: killed_def)
  moreover have "\<exists>ch. done_of (kill e S K T w) x = Some ch \<and> is_closed (kill e S K T w) ch"
  proof (cases "done_of w x")
    case None
    then show ?thesis using assms chans_okD(1) [OF assms(6)] by (auto simp: is_closed_def)
  next
    case (Some ch)
    then show ?thesis using assms chans_okD(2) [OF assms(6,4) Some] by (auto simp: is_closed_def)
  qed
  ultimately show ?thesis using assms by (simp add: dead_ok_def)
qed

lemma is_closed_kill: "is_closed w ch \<Longrightarrow> is_closed (kill e S K T w) ch"
  by (simp add: is_closed_def)

lemma dead_ok_kill:
  assumes "x \<notin> S" "x < length (ctxs w)" "core (ctxs w ! x) \<noteq> None" "dead_ok w x"
  shows "dead_ok (kill e S K T w) x"
proof -
  have "untimed (killed e False k t y) = killed e False k t y" if "untimed y = y" for k t and y :: "('a, 'b) ctx"
    using that by (cases y) (simp_all add: killed_def)
  then show ?thesis using assms by (auto simp: dead_ok_def intro: is_closed_kill)
qed

text \<open>Cancelling a context leaves the invariant, but for its place among its parent's children.\<close>

lemma inv_kill:
  assumes inv: "ctx_inv D w" "D \<subseteq> {c}" and c: "live w c"
  defines "L \<equiv> live_under w c"
  shows "ctx_inv {c} (kill e L L L w)"
proof (rule ctx_invI)
  note I = ctx_invD [OF inv(1)]
  let ?w = "kill e L L L w"
  show "older ?w" by (rule older_shape [OF I(1) shape_kill]) simp
  show "chans_ok ?w" "timers_ok ?w" using I by (auto intro: chans_ok_kill timers_ok_kill)
  show "watchers ?w = []" "goroutines ?w = 0" using I by simp_all
  have L: "x < length (ctxs w)" "core (ctxs w ! x) \<noteq> None" if "x \<in> L" for x
    using that by (auto simp: L_def live_under_def live_def)
  show "dead_ok ?w x" if "x < length (ctxs ?w)" "core (ctxs ?w ! x) \<noteq> None" "err_of ?w x \<noteq> None" for x
  proof (cases "x \<in> L")
    case True
    then show ?thesis using L [OF True] I(2) by (intro dead_ok_killed) auto
  next
    case False
    then have "x < length (ctxs w)" "core (ctxs w ! x) \<noteq> None" "err_of w x \<noteq> None" using that by auto
    then show ?thesis using False I(6) [of x] by (intro dead_ok_kill)
  qed
  show "deadline_ok ?w x" if "x < length (ctxs ?w)" for x
    using that I by (intro deadline_shape [OF I(1) shape_kill]) auto
  show "attached ?w x" if "x < length (ctxs ?w)" "x \<notin> {c}" for x
  proof -
    have "x \<notin> D" using inv(2) that(2) by blast
    then have a: "attached w x" using I(8) that by simp
    show ?thesis
    proof (cases "upper w x")
      case (Some y)
      then have "y < length (ctxs w)" "core (ctxs w ! y) \<noteq> None" using that upper_less by fastforce+
      then show ?thesis using a that Some by (auto simp: attached_def)
    qed (use that in \<open>simp add: attached_def\<close>)
  qed
  show "live_ok {c} ?w x" if "live ?w x" for x
  proof -
    from that have x: "live w x" "x \<notin> L" by auto
    then have xl: "x < length (ctxs w)" "core (ctxs w ! x) \<noteq> None" by (auto simp: live_def)
    have ok: "live_ok D w x" using I(7) [OF x(1)] .
    have up: "y \<notin> L" if "upper w x = Some y" for y
      using x that by (auto simp: L_def live_under_def intro: under.climb)
    have kid: "k \<notin> L" if "live w k" "upper w k = Some x" "k \<noteq> c" for k
    proof
      assume "k \<in> L"
      then have "under w c x" using that by (auto simp: L_def live_under_def elim: under.cases)
      then show False using x by (simp add: L_def live_under_def)
    qed
    have "\<not> is_closed ?w ch" if d: "done_of ?w x = Some ch" for ch
    proof -
      have d: "done_of w x = Some ch" using d x xl by simp
      then have n: "\<not> is_closed w ch" using ok by (auto simp: live_ok_def)
      then have "done_of w y \<noteq> Some ch" if "y \<in> L" for y
        using chans_okD(1) [OF I(2)] chans_okD(3) [OF I(2) xl(1) L(1) [OF that] d] x(2) that by metis
      then show ?thesis using n by (auto simp: is_closed_def)
    qed
    moreover have "k \<in> set (kids_of ?w x) \<longleftrightarrow> live ?w k \<and> upper ?w k = Some x" if "k \<noteq> c" for k
    proof -
      have "k \<in> set (kids_of w x) \<longleftrightarrow> live w k \<and> upper w k = Some x"
        using ok that inv(2) by (auto simp: live_ok_def)
      moreover have "upper ?w k = upper w k" if "live w k" using that by (simp add: live_def)
      ultimately show ?thesis using kid [of k] that x xl by auto
    qed
    moreover have "c \<in> set (kids_of ?w x) \<longrightarrow> c < length (ctxs ?w) \<and> upper ?w c = Some x"
    proof
      assume k: "c \<in> set (kids_of ?w x)"
      have cl: "c < length (ctxs w)" using c by (simp add: live_def)
      have "c \<in> set (kids_of w x)" using k x xl by (simp split: if_splits)
      then have "upper w c = Some x" using ok by (cases "c \<in> D") (simp_all add: live_ok_def)
      then show "c < length (ctxs ?w) \<and> upper ?w c = Some x" using cl by simp
    qed
    moreover have "live ?w y" if "x \<noteq> c" "upper ?w x = Some y" for y
      using ok that inv(2) x xl up by (auto simp: live_ok_def)
    ultimately show ?thesis using ok x xl by (auto simp: live_ok_def)
  qed
qed

subsection \<open>Changing the children of a context\<close>

definition upd_kids :: "nat \<Rightarrow> (nat list \<Rightarrow> nat list) \<Rightarrow> ('k, 'v) ctx_store \<Rightarrow> ('k, 'v) ctx_store" where
  "upd_kids p f = upd_core p (\<lambda>k. k\<lparr>children := f (children k)\<rparr>)"

lemma upd_kids_frame [simp]:
  "length (ctxs (upd_kids p f w)) = length (ctxs w)" "chans (upd_kids p f w) = chans w"
  "armed (upd_kids p f w) = armed w" "watchers (upd_kids p f w) = watchers w"
  "goroutines (upd_kids p f w) = goroutines w"
  by (simp_all add: upd_kids_def upd_core_def)

lemma shape_upd_kids: "same_shape n w (upd_kids p f w)"
  unfolding upd_kids_def by (rule shape_upd_core) simp

lemma upper_upd_kids [simp]: "upper (upd_kids p f w) x = upper w x"
  using upper_shape [OF shape_upd_kids [of "Suc x" w p f], of x] by simp

lemma nth_upd_kids: "x < length (ctxs w) \<Longrightarrow> ctxs (upd_kids p f w) ! x =
    (if x = p then with_core (\<lambda>k. k\<lparr>children := f (children k)\<rparr>) (ctxs w ! x) else ctxs w ! x)"
  by (auto simp: upd_kids_def upd_core_def nth_list_update)

lemma core_with_core [simp]: "core (with_core f x) = map_option f (core x)"
  by (cases x) simp_all

lemma core_upd_kids [simp]:
  "x < length (ctxs w) \<Longrightarrow> core (ctxs (upd_kids p f w) ! x) = None \<longleftrightarrow> core (ctxs w ! x) = None"
  "x < length (ctxs w) \<Longrightarrow> done_of (upd_kids p f w) x = done_of w x"
  "x < length (ctxs w) \<Longrightarrow> err_of (upd_kids p f w) x = err_of w x"
  "x < length (ctxs w) \<Longrightarrow> kids_of (upd_kids p f w) x =
     (if x = p \<and> core (ctxs w ! x) \<noteq> None then f (kids_of w x) else kids_of w x)"
  by (auto simp: nth_upd_kids done_of_def err_of_def kids_of_def split: option.splits)

lemma live_upd_kids [simp]: "live (upd_kids p f w) x \<longleftrightarrow> live w x"
  by (cases "x < length (ctxs w)") (simp_all add: live_def del: not_None_eq)

lemma is_closed_upd_kids [simp]: "is_closed (upd_kids p f w) ch \<longleftrightarrow> is_closed w ch"
  by (simp add: is_closed_def)

lemma upd_kids_id: "p < length (ctxs w) \<Longrightarrow> f (kids_of w p) = kids_of w p \<Longrightarrow> upd_kids p f w = w"
  by (cases "ctxs w ! p") (auto simp: upd_kids_def upd_core_def kids_of_def list_update_same_conv)

lemma removeChild_kids:
  "owner w parent = Some p \<Longrightarrow> done_of w p = Some ch \<Longrightarrow> ch \<noteq> closedchan \<Longrightarrow>
   removeChild parent c w = upd_kids p (removeAll c) w"
  by (simp add: removeChild_some upd_kids_def)

lemma attached_upd_kids:
  assumes "x < length (ctxs v)" "attached v x"
  shows "attached (upd_kids p f v) x"
proof (cases "upper v x")
  case (Some y)
  then have "y < length (ctxs v)" using upper_less [OF Some] assms(1) by simp
  then show ?thesis using assms Some by (simp add: attached_def)
qed (simp add: attached_def)

text \<open>Once its place among its parent's children is right, the context is like the others.\<close>

lemma inv_settle:
  assumes "ctx_inv {c} v" "c < length (ctxs v)" "attached v c"
    and "\<And>x. live v x \<Longrightarrow> c \<in> set (kids_of v x) \<longleftrightarrow> live v c \<and> upper v c = Some x"
    and "\<And>p. live v c \<Longrightarrow> upper v c = Some p \<Longrightarrow> live v p"
  shows "ctx_inv {} v"
proof (rule ctx_invI)
  note I = ctx_invD [OF assms(1)]
  show "live_ok {} v x" if "live v x" for x
    using I(7) [OF that] assms(4) [OF that] assms(5) that by (fastforce simp: live_ok_def)
  show "attached v x" if "x < length (ctxs v)" for x using I(8) [OF that] assms(3) by blast
qed (use ctx_invD [OF assms(1)] in auto)

lemma inv_upd_kids:
  assumes inv: "ctx_inv {c} v" and p: "live v p" and c: "c < length (ctxs v)" "upper v c = Some p" "attached v c"
    and f: "distinct (f (kids_of v p))" "\<And>k. k \<noteq> c \<Longrightarrow> k \<in> set (f (kids_of v p)) \<longleftrightarrow> k \<in> set (kids_of v p)"
      "c \<in> set (f (kids_of v p)) \<longleftrightarrow> live v c"
  shows "ctx_inv {} (upd_kids p f v)"
proof (rule inv_settle)
  note I = ctx_invD [OF inv]
  let ?v = "upd_kids p f v"
  have p': "p < length (ctxs v)" "core (ctxs v ! p) \<noteq> None" "err_of v p = None" using p by (auto simp: live_def)
  show "ctx_inv {c} ?v"
  proof (rule ctx_invI)
    show "older ?v" by (rule older_shape [OF I(1) shape_upd_kids]) simp
    show "chans_ok ?v" using I(2) by (simp add: chans_ok_def)
    show "timers_ok ?v" unfolding timers_ok_def
    proof
      fix q assume "q \<in> set (armed ?v)"
      then obtain k d where "fst q < length (ctxs v)" "ctxs v ! fst q = TimerCtx k True d"
        using I(3) by (auto simp: timers_ok_def)
      then show "\<exists>k d. fst q < length (ctxs ?v) \<and> ctxs ?v ! fst q = TimerCtx k True d" by (cases "fst q = p") (auto simp: nth_upd_kids)
    qed
    show "dead_ok ?v x" if "x < length (ctxs ?v)" "core (ctxs ?v ! x) \<noteq> None" "err_of ?v x \<noteq> None" for x
      using that I(6) [of x] p' by (auto simp: dead_ok_def nth_upd_kids)
    show "live_ok {c} ?v x" if "live ?v x" for x
    proof -
      have x: "live v x" using that by simp
      then have xl: "x < length (ctxs v)" "core (ctxs v ! x) \<noteq> None" by (auto simp: live_def)
      show ?thesis
      proof (cases "x = p")
        case True
        then show ?thesis using I(7) [OF x] xl f c by (simp add: live_ok_def)
      next
        case False
        then show ?thesis using I(7) [OF x] xl by (simp add: live_ok_def)
      qed
    qed
    show "attached ?v x" if "x < length (ctxs ?v)" "x \<notin> {c}" for x
      using that I(8) [of x] by (intro attached_upd_kids) auto
    show "deadline_ok ?v x" if "x < length (ctxs ?v)" for x
      using that I by (intro deadline_shape [OF I(1) shape_upd_kids]) auto
  qed (use I in auto)
  show "attached ?v c" using c upper_less [OF c(2)] by (auto simp: attached_def)
  show "c \<in> set (kids_of ?v x) \<longleftrightarrow> live ?v c \<and> upper ?v c = Some x" if "live ?v x" for x
  proof (cases "x = p")
    case False
    then have "c \<notin> set (kids_of v x)" using I(7) [of x] that c by (auto simp: live_ok_def)
    then show ?thesis using False that c by (auto simp: live_def)
  qed (use p' f c in auto)
qed (use p c in auto)

subsection \<open>Cancelling, from outside\<close>

lemma cancel_locked_dead:
  "c < length (ctxs w) \<Longrightarrow> err_of w c \<noteq> None \<Longrightarrow> cancel_locked (depth w) (Some e) c w = Inr w"
  by (cases "depth w") (auto simp: depth_def)

lemma stop_timer_untimed: "c < length (ctxs w) \<Longrightarrow> untimed (ctxs w ! c) = ctxs w ! c \<Longrightarrow> stop_timer c w = w"
  by (cases "ctxs w ! c") (auto simp: stop_timer_def split: bool.splits)

text \<open>Removing a context from its parent's children, through whatever lies between.\<close>

definition unlink :: "nat \<Rightarrow> ('k, 'v) ctx_store \<Rightarrow> ('k, 'v) ctx_store" where
  "unlink c w = (case upper w c of Some p \<Rightarrow> upd_kids p (removeAll c) w | None \<Rightarrow> w)"

lemma removeChild_unlink:
  assumes "ctx_inv D w" "c < length (ctxs w)" "core (ctxs w ! c) \<noteq> None" "attached w c"
  shows "removeChild (parent_of w c) c w = unlink c w"
proof -
  note I = ctx_invD [OF assms(1)]
  have u: "owner w (parent_of w c) = upper w c" using upper_parent [OF I(1) assms(2,3)] by simp
  show ?thesis
  proof (cases "upper w c")
    case None
    then show ?thesis using u by (simp add: removeChild_none unlink_def)
  next
    case (Some p)
    then obtain ch where ch: "done_of w p = Some ch" using assms by (auto simp: attached_def)
    have p: "p < length (ctxs w)" "core (ctxs w ! p) \<noteq> None" using upper_less [OF Some] assms(2) by auto
    show ?thesis
    proof (cases "ch = closedchan")
      case True
      then have "\<not> live w p" using I(7) [of p] ch chans_okD(1) [OF I(2)] by (auto simp: live_ok_def)
      then have "kids_of w p = []" using I(6) [OF p] p by (auto simp: live_def dead_ok_def)
      then show ?thesis using u Some ch True p by (simp add: removeChild_some unlink_def upd_kids_id)
    next
      case False
      then show ?thesis using u Some ch by (simp add: removeChild_kids unlink_def)
    qed
  qed
qed

lemma unlink_noop:
  assumes "ctx_inv D w" "c < length (ctxs w)" "core (ctxs w ! c) \<noteq> None" "c \<notin> D" "\<not> live w c"
  shows "unlink c w = w"
proof (cases "upper w c")
  case (Some p)
  note I = ctx_invD [OF assms(1)]
  have p: "p < length (ctxs w)" "core (ctxs w ! p) \<noteq> None" using upper_less [OF Some] assms(2) by auto
  have "c \<notin> set (kids_of w p)"
    using I(6) [OF p] I(7) [of p] assms p by (cases "live w p") (auto simp: live_ok_def dead_ok_def live_def)
  then show ?thesis using Some p by (simp add: unlink_def upd_kids_id removeAll_id)
qed (simp add: unlink_def)

theorem cancel_dead:
  assumes "ctx_inv D w" "c < length (ctxs w)" "core (ctxs w ! c) \<noteq> None" "err_of w c \<noteq> None" "rm \<longrightarrow> c \<notin> D"
  shows "ctx_cancel c rm (Some e) w = Inr w"
proof -
  note I = ctx_invD [OF assms(1)]
  have s: "stop_timer c w = w" using I(6) [OF assms(2-4)] assms by (auto simp: dead_ok_def intro: stop_timer_untimed)
  have "removeChild (parent_of w c) c w = w" if rm
  proof -
    have "c \<notin> D" using assms(5) that by blast
    then show ?thesis using assms removeChild_unlink [OF assms(1-3)] I(8) unlink_noop [OF assms(1-3)]
      by (auto simp: live_def)
  qed
  then show ?thesis using assms s
    by (auto simp: ctx_cancel_def cancelCtx_cancel_def timerCtx_cancel_def cancel_locked_dead split: ctx.splits)
qed

lemma kill_not_timer:
  assumes "c < length (ctxs w)" "timers_ok w" "\<And>k t d. ctxs w ! c \<noteq> TimerCtx k t d"
  shows "kill e S K (insert c T) w = kill e S K T w"
proof -
  have "\<And>k t d. killed e a b x (ctxs w ! c) \<noteq> TimerCtx k t d" for a b x
    using assms(3) by (cases "ctxs w ! c") (auto simp: killed_def)
  then have "stop_timer c (kill e S K T w) = kill e S K T w"
    using assms(1) by (auto simp: stop_timer_def split: ctx.splits)
  then show ?thesis using stop_timer_kill [OF assms(1,2), of e S K T] by simp
qed

lemma stop_timer_upd_kids:
  assumes "c \<noteq> p"
  shows "stop_timer c (upd_kids p f w) = upd_kids p f (stop_timer c w)"
proof -
  have "ctxs (upd_kids p f w) ! c = ctxs w ! c" using assms by (simp add: upd_kids_def upd_core_def)
  then show ?thesis using assms
    by (auto simp: stop_timer_def upd_kids_def upd_core_def list_update_swap split: ctx.splits bool.splits)
qed

lemma unlink_stop_timer:
  assumes "c < length (ctxs w)" "timers_ok w"
  shows "stop_timer c (unlink c (kill e S K T w)) = unlink c (kill e S K (insert c T) w)"
  using assms upper_less [of w c]
  by (auto simp: unlink_def stop_timer_upd_kids stop_timer_kill split: option.splits)

lemma cancel_locked_live:
  assumes "ctx_inv D w" "D \<subseteq> {c}" "live w c"
  shows "cancel_locked (depth w) (Some e) c w =
    Inr (kill e (live_under w c) (live_under w c) (live_under w c - {c}) w)"
  using assms inv_subtree [OF assms(1,2)] ctx_invD(2,3) [OF assms(1)]
  by (intro cancel_locked_kill) (auto simp: depth_def)

lemma live_kill_timer:
  assumes "live w c" "timers_ok w"
  shows "stop_timer c (kill e S K (live_under w c - {c}) w) = kill e S K (live_under w c) w"
    "(\<And>k t d. ctxs w ! c \<noteq> TimerCtx k t d) \<Longrightarrow> kill e S K (live_under w c - {c}) w = kill e S K (live_under w c) w"
  using assms live_under_self [OF assms(1)] stop_timer_kill [of c w e S K "live_under w c - {c}"]
    kill_not_timer [of c w e S K "live_under w c - {c}"]
  by (auto simp: live_def insert_absorb)

theorem cancel_live_False:
  assumes "ctx_inv D w" "D \<subseteq> {c}" "live w c"
  shows "ctx_cancel c False (Some e) w = Inr (kill e (live_under w c) (live_under w c) (live_under w c) w)"
  using cancel_locked_live [OF assms, of e] live_kill_timer [OF assms(3) ctx_invD(3) [OF assms(1)]]
  by (auto simp: ctx_cancel_def cancelCtx_cancel_def timerCtx_cancel_def split: ctx.splits)

lemma attached_kill:
  assumes "ctx_inv {} w" "live w c"
  shows "attached (kill e S K T w) c"
proof -
  have c: "c < length (ctxs w)" "attached w c" using assms ctx_invD(8) [OF assms(1)] by (auto simp: live_def)
  then show ?thesis using upper_less [of w c] by (fastforce simp: attached_def)
qed

theorem cancel_live_True:
  assumes "ctx_inv {} w" "live w c"
  shows "ctx_cancel c True (Some e) w =
    Inr (unlink c (kill e (live_under w c) (live_under w c) (live_under w c) w))"
proof -
  let ?L = "live_under w c"
  let ?v = "kill e ?L ?L (?L - {c}) w"
  let ?w = "kill e ?L ?L ?L w"
  have c: "c < length (ctxs w)" "core (ctxs w ! c) \<noteq> None" "err_of w c = None" using assms(2) by (auto simp: live_def)
  note T = ctx_invD(3) [OF assms(1)]
  have u: "owner v (parent_of v c) = upper v c" if "same_shape (length (ctxs w)) w v"
    "length (ctxs v) = length (ctxs w)" for v :: "('a, 'b) ctx_store"
  proof -
    have "older v" using older_shape [OF ctx_invD(1) [OF assms(1)] that] .
    then show ?thesis using c that shape_facts(2) [OF same_shapeD [OF that(1) c(1)]] by (simp add: upper_parent)
  qed
  have p: "parent_of ?v c = parent_of w c"
    using c by (cases "ctxs w ! c") (auto simp: parent_of_def killed_def closed_core_def)
  have rem: "removeChild (parent_of w c) c ?v = unlink c ?v"
  proof (cases "upper w c")
    case None
    then have "owner ?v (parent_of w c) = None" using u [OF shape_kill, of e ?L ?L "?L - {c}"] p c by simp
    then show ?thesis using None c by (simp add: removeChild_none unlink_def)
  next
    case (Some y)
    then have y: "live w y" using ctx_invD(7) [OF assms] by (simp add: live_ok_def)
    then have yl: "y < length (ctxs w)" "core (ctxs w ! y) \<noteq> None" by (auto simp: live_def)
    obtain ch where ch: "done_of w y = Some ch"
      using ctx_invD(8) [OF assms(1) c(1)] c Some by (auto simp: attached_def)
    have "ch \<noteq> closedchan"
      using ctx_invD(7) [OF assms(1) y] ch chans_okD(1) [OF ctx_invD(2) [OF assms(1)]] by (auto simp: live_ok_def)
    moreover have "done_of ?v y = Some ch" using ch yl by simp
    moreover have "owner ?v (parent_of w c) = Some y" using u [OF shape_kill, of e ?L ?L "?L - {c}"] p c Some by simp
    ultimately show ?thesis using Some c by (simp add: removeChild_kids unlink_def)
  qed
  show ?thesis
  proof (cases "\<exists>k t d. ctxs w ! c = TimerCtx k t d")
    case True
    then show ?thesis
      using rem p cancel_locked_live [OF assms(1) _ assms(2), of e] unlink_stop_timer [OF c(1) T, of e ?L ?L "?L - {c}"]
        insert_absorb [OF live_under_self [OF assms(2)]]
      by (auto simp: ctx_cancel_def cancelCtx_cancel_def timerCtx_cancel_def)
  next
    case False
    then show ?thesis
      using rem c cancel_locked_live [OF assms(1) _ assms(2), of e] live_kill_timer(2) [OF assms(2) T, of e ?L ?L]
      by (auto simp: ctx_cancel_def cancelCtx_cancel_def split: ctx.splits)
  qed
qed

theorem inv_cancel_live:
  assumes "ctx_inv {} w" "live w c"
  shows "ctx_inv {} (unlink c (kill e (live_under w c) (live_under w c) (live_under w c) w))"
proof -
  let ?L = "live_under w c"
  let ?w = "kill e ?L ?L ?L w"
  have inv: "ctx_inv {c} ?w" using inv_kill [OF assms(1) _ assms(2)] by simp
  have c: "c < length (ctxs w)" using assms(2) by (auto simp: live_def)
  have att: "attached ?w c" using attached_kill [OF assms] .
  have dead: "\<not> live ?w c" using live_under_self [OF assms(2)] by simp
  show ?thesis
  proof (cases "upper w c")
    case None
    have "c \<notin> set (kids_of ?w x)" if "live ?w x" for x
      using ctx_invD(7) [OF inv that] None c by (auto simp: live_ok_def)
    then have "ctx_inv {} ?w" using dead c by (intro inv_settle [OF inv _ att]) auto
    then show ?thesis using None c by (simp add: unlink_def)
  next
    case (Some p)
    then have "live w p" using ctx_invD(7) [OF assms] by (simp add: live_ok_def)
    moreover have "p \<notin> ?L" using upper_less [OF Some] under_le [of w c p] by (auto simp: live_under_def)
    ultimately have p: "live ?w p" by simp
    have "distinct (kids_of ?w p)" using ctx_invD(7) [OF inv p] by (simp add: live_ok_def)
    then show ?thesis using Some c inv p att dead
      by (auto simp: unlink_def distinct_removeAll simp del: live_kill intro!: inv_upd_kids [OF inv p _ _ att])
  qed
qed

end
