(* ===== verification/GoContextRuns.thy ===== *)
theory GoContextRuns
  imports GoContextInv
begin

text \<open>
  Making contexts, runs of a program that uses them (\<open>ctx_step\<close>), the contract of cancellation
  as a locale, and the properties of \<open>src/src/context/context.go\<close>.
\<close>

subsection \<open>Timers\<close>

text \<open>Changing timers alone: every core is as it was.\<close>

lemma inv_same_core:
  assumes inv: "ctx_inv D w"
    and len: "length (ctxs v) = length (ctxs w)" and sh: "same_shape (length (ctxs w)) w v"
    and core: "\<And>x. x < length (ctxs w) \<Longrightarrow> core (ctxs v ! x) = core (ctxs w ! x)"
    and rest: "chans v = chans w" "watchers v = watchers w" "goroutines v = goroutines w"
    and t: "timers_ok v"
      "\<And>x. \<lbrakk>x < length (ctxs w); err_of w x \<noteq> None; untimed (ctxs w ! x) = ctxs w ! x\<rbrakk> \<Longrightarrow> untimed (ctxs v ! x) = ctxs v ! x"
  shows "ctx_inv D v"
proof (rule ctx_invI)
  note I = ctx_invD [OF inv]
  have eq: "done_of v x = done_of w x" "err_of v x = err_of w x" "kids_of v x = kids_of w x"
    "upper v x = upper w x" if "x < length (ctxs w)" for x
    using core [OF that] upper_shape [OF sh that] by (simp_all add: done_of_def err_of_def kids_of_def)
  have cl: "is_closed v = is_closed w" using rest by (simp add: is_closed_def fun_eq_iff)
  have lv: "live v x \<longleftrightarrow> live w x" for x using eq core len by (cases "x < length (ctxs w)") (simp_all add: live_def)
  have up: "y < length (ctxs w)" if "x < length (ctxs w)" "upper w x = Some y" for x y
    using upper_less [OF that(2)] that(1) by simp
  show "older v" by (rule older_shape [OF I(1) sh len])
  show "chans_ok v" using I(2) eq cl rest len by (simp add: chans_ok_def)
  show "timers_ok v" "watchers v = []" "goroutines v = 0" using t I rest by simp_all
  show "dead_ok v x" if "x < length (ctxs v)" "core (ctxs v ! x) \<noteq> None" "err_of v x \<noteq> None" for x
    using I(6) [of x] t(2) [of x] that eq cl core len by (simp add: dead_ok_def)
  show "live_ok D v x" if "live v x" for x
  proof -
    have x: "live w x" "x < length (ctxs w)" using that lv by (auto simp: live_def)
    have k: "(live w k \<and> upper v k = Some x) = (live w k \<and> upper w k = Some x)" for k
      using eq(4) [of k] by (auto simp: live_def)
    have l: "(k < length (ctxs v) \<and> upper v k = Some x) = (k < length (ctxs w) \<and> upper w k = Some x)" for k
      using eq(4) [of k] len by auto
    show ?thesis using I(7) [OF x(1)] eq [OF x(2)] unfolding live_ok_def cl lv k l by simp
  qed
  show "attached v x" if "x < length (ctxs v)" "x \<notin> D" for x
  proof (cases "upper w x")
    case (Some y)
    then show ?thesis using I(8) [of x] that len eq core up by (auto simp: attached_def)
  qed (use that len eq in \<open>simp add: attached_def\<close>)
  show "deadline_ok v x" if "x < length (ctxs v)" for x
    using that len I by (intro deadline_shape [OF I(1) sh]) auto
qed

lemma inv_arm:
  assumes "ctx_inv {} w" "c < length (ctxs w)"
  shows "ctx_inv {} (arm_timer c dur w)"
proof (cases "arm_timer c dur w = w")
  case False
  then obtain k t d where x: "ctxs w ! c = TimerCtx k t d" "cerr k = None"
    by (auto simp: arm_timer_def split: ctx.splits if_splits)
  then have a: "arm_timer c dur w = w\<lparr>ctxs := (ctxs w)[c := TimerCtx k True d], armed := (c, dur) # armed w\<rparr>"
    by (simp add: arm_timer_def)
  show ?thesis
  proof (rule inv_same_core [OF assms(1)])
    show "timers_ok (arm_timer c dur w)"
      using ctx_invD(3) [OF assms(1)] assms(2) unfolding a by (auto simp: timers_ok_def nth_list_update)
    show "same_shape (length (ctxs w)) w (arm_timer c dur w)"
      using x assms(2) unfolding a by (auto simp: same_shape_def nth_list_update)
  qed (use x assms(2) in \<open>auto simp: a nth_list_update err_of_def\<close>)
qed (use assms in simp)

lemma inv_disarm: "ctx_inv D w \<Longrightarrow> ctx_inv D (w\<lparr>armed := filter P (armed w)\<rparr>)"
  by (rule inv_same_core) (use ctx_invD(3) [of D w] in \<open>auto simp: same_shape_def timers_ok_def\<close>)

subsection \<open>The channel of a context is made when it is first asked for\<close>

lemma inv_Done:
  assumes inv: "ctx_inv D w" and c: "c < length (ctxs w)"
  shows "ctx_inv D (snd (ctx_Done w c))"
proof -
  consider "snd (ctx_Done w c) = w" | p where "owner w c = Some p" "done_of w p = None"
    using Done_none [of w c] Done_some [of w c] by (metis not_None_eq snd_conv)
  then show ?thesis
  proof cases
    case (2 p)
    let ?n = "length (chans w)"
    let ?v = "upd_core p (\<lambda>k. k\<lparr>done_ch := Some ?n\<rparr>) (w\<lparr>chans := chans w @ [False]\<rparr>)"
    note I = ctx_invD [OF inv]
    have p: "p < length (ctxs w)" "core (ctxs w ! p) \<noteq> None" using owner_le [OF 2(1)] c by auto
    have nth: "ctxs ?v ! x = (if x = p then with_core (\<lambda>k. k\<lparr>done_ch := Some ?n\<rparr>) (ctxs w ! x) else ctxs w ! x)"
      if "x < length (ctxs w)" for x using that by (simp add: upd_core_def nth_list_update)
    have len [simp]: "length (ctxs ?v) = length (ctxs w)" by (simp add: upd_core_def)
    have ch [simp]: "chans ?v = chans w @ [False]" "armed ?v = armed w" "watchers ?v = watchers w" "goroutines ?v = goroutines w"
      by (simp_all add: upd_core_def)
    have sh: "same_shape (length (ctxs w)) w ?v"
      by (auto simp: same_shape_def nth shape_with_core)
    have eq: "done_of ?v x = (if x = p then Some ?n else done_of w x)" "err_of ?v x = err_of w x"
      "kids_of ?v x = kids_of w x" "core (ctxs ?v ! x) = None \<longleftrightarrow> core (ctxs w ! x) = None"
      "upper ?v x = upper w x" if "x < length (ctxs w)" for x
      using that p upper_shape [OF sh that] by (auto simp: nth done_of_def err_of_def kids_of_def split: option.splits)
    have d: "ch < ?n" if "x < length (ctxs w)" "done_of w x = Some ch" for x ch using chans_okD(2) [OF I(2) that] .
    have cl: "is_closed ?v ch' \<longleftrightarrow> is_closed w ch'" for ch' by (auto simp: is_closed_def nth_append)
    have lv: "live ?v x \<longleftrightarrow> live w x" for x using eq(2,4) by (cases "x < length (ctxs w)") (simp_all add: live_def)
    have ul: "upper ?v k = upper w k \<or> \<not> k < length (ctxs w)" for k using eq(5) by blast
    have "ctx_inv D ?v"
    proof (rule ctx_invI)
      show "older ?v" by (rule older_shape [OF I(1) sh len])
      show "chans_ok ?v"
        unfolding chans_ok_def len
      proof (intro conjI allI impI)
        show "is_closed ?v closedchan" using chans_okD(1) [OF I(2)] cl by simp
        show "ch < length (chans ?v)" if "x < length (ctxs w)" "done_of ?v x = Some ch" for x ch
          using that d [OF that(1), of ch] by (auto simp: eq(1) split: if_splits)
        show "x = y" if "x < length (ctxs w)" "y < length (ctxs w)" "done_of ?v x = Some ch"
          "done_of ?v y = Some ch" "ch \<noteq> closedchan" for x y ch
          using that d [OF that(1), of ch] d [OF that(2), of ch] chans_okD(3) [OF I(2) that(1,2), of ch]
          by (simp add: eq(1) split: if_splits)
      qed
      show "timers_ok ?v" using I(3) unfolding timers_ok_def by (fastforce simp: nth)
      show "dead_ok ?v x" if "x < length (ctxs ?v)" "core (ctxs ?v ! x) \<noteq> None" "err_of ?v x \<noteq> None" for x
        using I(6) [of x] that 2(2) by (cases "x = p") (auto simp: eq cl dead_ok_def nth)
      show "live_ok D ?v x" if "live ?v x" for x
      proof -
        have x: "live w x" "x < length (ctxs w)" using that lv by (auto simp: live_def)
        have n: "\<not> is_closed w ?n" by (simp add: is_closed_def)
        have k: "(live w k \<and> upper ?v k = Some x) = (live w k \<and> upper w k = Some x)" for k
          using eq(5) [of k] by (auto simp: live_def)
        have l: "(k < length (ctxs ?v) \<and> upper ?v k = Some x) = (k < length (ctxs w) \<and> upper w k = Some x)" for k
          using eq(5) [of k] len by auto
        have o: "(\<forall>ch. done_of ?v x = Some ch \<longrightarrow> \<not> is_closed w ch)"
          using I(7) [OF x(1)] n by (simp add: eq(1) [OF x(2)] live_ok_def)
        show ?thesis
          using I(7) [OF x(1)] o eq(3,5) [OF x(2)] unfolding live_ok_def cl lv k l by simp
      qed
      show "attached ?v x" if "x < length (ctxs ?v)" "x \<notin> D" for x
      proof (cases "upper w x")
        case (Some y)
        have "y < length (ctxs w)" using upper_less [OF Some] that by simp
        then show ?thesis using I(8) [of x] that Some by (auto simp: attached_def eq)
      qed (use that eq in \<open>simp add: attached_def\<close>)
      show "deadline_ok ?v x" if "x < length (ctxs ?v)" for x
        using that I by (intro deadline_shape [OF I(1) sh]) auto
    qed (use I in auto)
    then show ?thesis using Done_new [OF 2] by simp
  qed (use inv in simp)
qed

subsection \<open>New contexts\<close>

definition fresh_ctx :: "('k, 'v) ctx_store \<Rightarrow> ('k, 'v) ctx \<Rightarrow> bool" where
  "fresh_ctx w x \<longleftrightarrow>
     untimed x = x \<and>
     (\<exists>p < length (ctxs w). embeds x = Some p \<and> (core x = None \<or> core x = Some (newCancelCtx p)))"

lemma nth_new: "i < length (ctxs w) \<Longrightarrow> ctxs (new_ctx x w) ! i = ctxs w ! i"
  "ctxs (new_ctx x w) ! length (ctxs w) = x"
  by (simp_all add: new_ctx_def nth_append)

lemma new_frame [simp]:
  "length (ctxs (new_ctx x w)) = Suc (length (ctxs w))" "chans (new_ctx x w) = chans w"
  "armed (new_ctx x w) = armed w" "watchers (new_ctx x w) = watchers w" "goroutines (new_ctx x w) = goroutines w"
  by (simp_all add: new_ctx_def)

lemma new_old [simp]:
  "i < length (ctxs w) \<Longrightarrow> done_of (new_ctx x w) i = done_of w i"
  "i < length (ctxs w) \<Longrightarrow> err_of (new_ctx x w) i = err_of w i"
  "i < length (ctxs w) \<Longrightarrow> kids_of (new_ctx x w) i = kids_of w i"
  "i < length (ctxs w) \<Longrightarrow> upper (new_ctx x w) i = upper w i"
  "i < length (ctxs w) \<Longrightarrow> owner (new_ctx x w) i = owner w i"
  by (simp_all add: done_of_def err_of_def kids_of_def nth_new upper_shape [OF shape_new] owner_shape [OF shape_new])

lemma is_closed_new [simp]: "is_closed (new_ctx x w) ch \<longleftrightarrow> is_closed w ch"
  by (simp add: is_closed_def)

lemma live_new: "i < length (ctxs w) \<Longrightarrow> live (new_ctx x w) i \<longleftrightarrow> live w i"
  by (simp add: live_def nth_new)

lemma new_new:
  assumes "fresh_ctx w x"
  shows "done_of (new_ctx x w) (length (ctxs w)) = None" "err_of (new_ctx x w) (length (ctxs w)) = None"
    "kids_of (new_ctx x w) (length (ctxs w)) = []" "live (new_ctx x w) (length (ctxs w)) \<longleftrightarrow> core x \<noteq> None"
  using assms by (auto simp: fresh_ctx_def done_of_def err_of_def kids_of_def live_def nth_new newCancelCtx_def)

lemma upper_new_new:
  assumes "embeds x = Some p" "p < length (ctxs w)"
  shows "upper (new_ctx x w) (length (ctxs w)) = owner w p"
  using assms by (simp add: upper_def above_def nth_new)

lemma inv_new:
  assumes inv: "ctx_inv {} w" and x: "fresh_ctx w x"
    and d: "deadline_ok (new_ctx x w) (length (ctxs w))"
  shows "ctx_inv {length (ctxs w)} (new_ctx x w)"
proof (rule ctx_invI)
  note I = ctx_invD [OF inv]
  let ?w = "new_ctx x w" and ?c = "length (ctxs w)"
  note N = new_new [OF x]
  have old: "y < ?c" if "y < length (ctxs ?w)" "y \<noteq> ?c" for y using that by simp
  show "older ?w"
    using I(1) x by (auto simp: older_def nth_new fresh_ctx_def less_Suc_eq)
  show "chans_ok ?w"
    unfolding chans_ok_def
  proof (intro conjI allI impI)
    show "is_closed ?w closedchan" using chans_okD(1) [OF I(2)] by simp
    show "ch < length (chans ?w)" if "y < length (ctxs ?w)" "done_of ?w y = Some ch" for y ch
      using that N chans_okD(2) [OF I(2), of y ch] by (cases "y = ?c") auto
    show "y = z" if "y < length (ctxs ?w)" "z < length (ctxs ?w)" "done_of ?w y = Some ch"
      "done_of ?w z = Some ch" "ch \<noteq> closedchan" for y z ch
      using that N chans_okD(3) [OF I(2), of y z ch] by (cases "y = ?c"; cases "z = ?c") auto
  qed
  show "timers_ok ?w" using I(3) by (fastforce simp: timers_ok_def nth_new)
  show "dead_ok ?w y" if "y < length (ctxs ?w)" "core (ctxs ?w ! y) \<noteq> None" "err_of ?w y \<noteq> None" for y
    using that N I(6) [of y] by (cases "y = ?c") (auto simp: dead_ok_def nth_new)
  show "live_ok {?c} ?w y" if y: "live ?w y" for y
  proof (cases "y = ?c")
    case True
    have "live ?w k \<longrightarrow> upper ?w k \<noteq> Some ?c" if "k \<noteq> ?c" for k
    proof (intro impI notI)
      assume "live ?w k" "upper ?w k = Some ?c"
      then show False using upper_less [of ?w k ?c] that by (simp add: live_def)
    qed
    then show ?thesis using True N by (simp add: live_ok_def)
  next
    case False
    then have l: "live w y" "y < ?c" using y live_new by (auto simp: live_def nth_new)
    have k: "live ?w k \<longleftrightarrow> live w k" "live w k \<Longrightarrow> upper ?w k = upper w k" if "k \<noteq> ?c" for k
      using that old [of k] live_new [of k w x] by (auto simp: live_def)
    have "?c \<notin> set (kids_of w y)" using I(7) [OF l(1)] by (auto simp: live_ok_def live_def)
    moreover have "live ?w z" if "upper w y = Some z" for z
    proof -
      have "live w z" using I(7) [OF l(1)] that by (simp add: live_ok_def)
      moreover have "z \<noteq> ?c" using upper_less [OF that] l(2) by simp
      ultimately show ?thesis using k by simp
    qed
    moreover have "j \<in> set (kids_of w y) \<longleftrightarrow> live ?w j \<and> upper ?w j = Some y" if "j \<noteq> ?c" for j
    proof -
      have "j \<in> set (kids_of w y) \<longleftrightarrow> live w j \<and> upper w j = Some y" using I(7) [OF l(1)] by (simp add: live_ok_def)
      then show ?thesis using k(1) [OF that] k(2) [OF that] by (cases "live w j") simp_all
    qed
    moreover have "\<not> live w ?c" by (simp add: live_def)
    ultimately show ?thesis using I(7) [OF l(1)] l(2) by (simp add: live_ok_def)
  qed
  show "attached ?w y" if "y < length (ctxs ?w)" "y \<notin> {?c}" for y
  proof (cases "upper w y")
    case (Some z)
    have "y < ?c" using that by simp
    moreover have "z < ?c" using upper_less [OF Some] \<open>y < ?c\<close> by simp
    ultimately show ?thesis using I(8) [of y] Some by (simp add: attached_def nth_new)
  qed (use that in \<open>simp add: attached_def\<close>)
  show "deadline_ok ?w y" if "y < length (ctxs ?w)" for y
    using that d I by (cases "y = ?c") (auto intro: deadline_shape [OF I(1) shape_new])
qed (use ctx_invD [OF inv] in auto)

text \<open>A context that cannot be cancelled has no place among children.\<close>

lemma inv_new_value:
  assumes "ctx_inv {} w" "p < length (ctxs w)"
  shows "ctx_inv {} (new_ctx (ValueCtx p k v) w)"
proof (rule inv_settle)
  let ?x = "ValueCtx p k v" and ?c = "length (ctxs w)"
  let ?w = "new_ctx ?x w"
  have x: "fresh_ctx w ?x" using assms by (simp add: fresh_ctx_def)
  show inv: "ctx_inv {?c} ?w" by (rule inv_new [OF assms(1) x]) (simp add: deadline_ok_def nth_new)
  show "?c \<in> set (kids_of ?w y) \<longleftrightarrow> live ?w ?c \<and> upper ?w ?c = Some y" if y: "live ?w y" for y
  proof -
    have n: "\<not> live ?w ?c" using new_new(4) [OF x] by simp
    then have c: "y < ?c" using y by (cases "y = ?c") (simp_all add: live_def)
    then have "live_ok {} w y" using y live_new [OF c] ctx_invD(7) [OF assms(1)] by blast
    then have "?c \<notin> set (kids_of w y)" by (simp add: live_ok_def live_def)
    then show ?thesis using c n by simp
  qed
qed (use new_new [of w "ValueCtx p k v"] assms in \<open>auto simp: attached_def nth_new fresh_ctx_def\<close>)

text \<open>
  What a call leaves alone: every context that was there is still there and what it embeds is
  unchanged, and an error that is set stays.
\<close>

definition extends :: "('k, 'v) ctx_store \<Rightarrow> ('k, 'v) ctx_store \<Rightarrow> bool" where
  "extends w v \<longleftrightarrow>
     length (ctxs w) \<le> length (ctxs v) \<and> same_shape (length (ctxs w)) w v \<and>
     (\<forall>x < length (ctxs w). err_of w x \<noteq> None \<longrightarrow> err_of v x = err_of w x)"

lemma extends_refl [simp]: "extends w w"
  by (simp add: extends_def same_shape_def)

lemma extends_trans [trans]: "extends u v \<Longrightarrow> extends v w \<Longrightarrow> extends u w"
  unfolding extends_def same_shape_def by (auto 4 4)

text \<open>Two stores with the same contexts in the same state, but for channels, timers and children.\<close>

definition same_errs :: "('k, 'v) ctx_store \<Rightarrow> ('k, 'v) ctx_store \<Rightarrow> bool" where
  "same_errs w v \<longleftrightarrow>
     length (ctxs v) = length (ctxs w) \<and> same_shape (length (ctxs w)) w v \<and>
     (\<forall>x < length (ctxs w). err_of v x = err_of w x)"

lemma same_errs_refl [simp]: "same_errs w w"
  by (simp add: same_errs_def same_shape_def)

lemma same_errs_trans: "same_errs u v \<Longrightarrow> same_errs v w \<Longrightarrow> same_errs u w"
  unfolding same_errs_def same_shape_def by auto

lemma same_errs_upd_kids: "same_errs w (upd_kids p f w)"
  by (simp add: same_errs_def shape_upd_kids)

lemma same_errs_unlink: "same_errs w (unlink c w)"
  by (simp add: unlink_def same_errs_upd_kids split: option.splits)

lemma same_errs_arm: "c < length (ctxs w) \<Longrightarrow> same_errs w (arm_timer c dur w)"
  by (auto simp: same_errs_def same_shape_def arm_timer_def nth_list_update err_of_def split: ctx.splits)

lemma same_errs_Done:
  assumes "c < length (ctxs w)"
  shows "same_errs w (snd (ctx_Done w c))"
proof -
  have "same_errs w (upd_core p (\<lambda>k. k\<lparr>done_ch := d\<rparr>) (w\<lparr>chans := ch\<rparr>))" if "p < length (ctxs w)" for p d ch
    using that by (auto simp: same_errs_def same_shape_def upd_core_def nth_list_update shape_with_core err_of_def
        split: option.splits)
  then show ?thesis using Done_none [of w c] Done_some [of w c] Done_new [of w c] owner_le [of w c] assms
    by (cases "owner w c"; cases "done_of w (the (owner w c))") force+
qed

text \<open>The result of cancelling \<open>c\<close>: exactly the live contexts under \<open>c\<close> get the error.\<close>

definition cancels :: "nat \<Rightarrow> ctx_error \<Rightarrow> ('k, 'v) ctx_store \<Rightarrow> ('k, 'v) ctx_store \<Rightarrow> bool" where
  "cancels c e w v \<longleftrightarrow>
     length (ctxs v) = length (ctxs w) \<and> same_shape (length (ctxs w)) w v \<and>
     (\<forall>x < length (ctxs w). core (ctxs w ! x) \<noteq> None \<longrightarrow>
        err_of v x = (if live w x \<and> under w c x then Some e else err_of w x))"

lemma cancels_kill: "cancels c e w (kill e (live_under w c) K T w)"
  by (auto simp: cancels_def shape_kill live_under_def)

lemma cancels_same_errs: "cancels c e w u \<Longrightarrow> same_errs u v \<Longrightarrow> cancels c e w v"
  by (simp add: cancels_def same_errs_def same_shape_def)

lemma cancels_extends: "cancels c e w v \<Longrightarrow> extends w v"
  by (auto simp: cancels_def extends_def live_def err_of_def [of w] split: option.splits)

lemma same_errs_extends: "same_errs w v \<Longrightarrow> extends w v"
  by (simp add: same_errs_def extends_def)

lemma live_under_dead:
  assumes "ctx_inv {} w" "\<not> live w c" "under w c x"
  shows "\<not> live w x"
  using assms(3,2)
proof (induction rule: under.induct)
  case (climb x y)
  then show ?case using ctx_invD(7) [OF assms(1), of x] by (auto simp: live_ok_def)
qed

text \<open>\<open>cancel\<close> called from outside, in any state between two calls.\<close>

theorem cancel_total:
  assumes "ctx_inv {} w" "c < length (ctxs w)" "core (ctxs w ! c) \<noteq> None" "rm \<or> err_of w c \<noteq> None"
  shows "\<exists>v. ctx_cancel c rm (Some e) w = Inr v \<and> ctx_inv {} v \<and> cancels c e w v"
proof (cases "live w c")
  case True
  then have rm using assms by (auto simp: live_def)
  let ?L = "live_under w c"
  have "cancels c e w (unlink c (kill e ?L ?L ?L w))"
    by (rule cancels_same_errs [OF cancels_kill same_errs_unlink])
  then show ?thesis
    using \<open>rm\<close> cancel_live_True [OF assms(1) True] inv_cancel_live [OF assms(1) True] by auto
next
  case False
  then have "err_of w c \<noteq> None" using assms by (simp add: live_def)
  moreover have "cancels c e w w"
    using live_under_dead [OF assms(1) False] by (auto simp: cancels_def same_shape_def)
  ultimately show ?thesis using cancel_dead [OF assms(1-3)] assms(1) by auto
qed

text \<open>The goroutine of \<open>propagateCancel\<close> is never needed for the package's own contexts.\<close>

theorem propagate_total:
  assumes inv: "ctx_inv {} w" and x: "fresh_ctx w x" "embeds x = Some p" "p < length (ctxs w)" "core x \<noteq> None"
    and d: "deadline_ok (new_ctx x w) (length (ctxs w))"
  shows "\<exists>v. propagateCancel p (length (ctxs w)) (new_ctx x w) = Inr v \<and> ctx_inv {} v \<and>
     length (ctxs v) = Suc (length (ctxs w)) \<and> same_shape (Suc (length (ctxs w))) (new_ctx x w) v \<and>
     (\<forall>y < length (ctxs w). err_of v y = err_of w y) \<and> err_of v (length (ctxs w)) = ctx_Err w p"
proof -
  let ?c = "length (ctxs w)" and ?w = "new_ctx x w"
  have inv1: "ctx_inv {?c} ?w" by (rule inv_new [OF inv x(1) d])
  have cl: "?c < length (ctxs ?w)" "p < length (ctxs ?w)" using x by simp_all
  have own: "owner ?w p = owner w p" using x by simp
  have up: "upper ?w ?c = owner w p" by (rule upper_new_new [OF x(2,3)])
  have live: "live ?w ?c" using new_new(4) [OF x(1)] x(4) by simp
  have errs: "\<forall>y < ?c. err_of ?w y = err_of w y" "err_of ?w ?c = None" using new_new [OF x(1)] by simp_all
  note N = new_new [OF x(1)]
  show ?thesis
  proof (cases "owner w p")
    case None
    have "ctx_inv {} ?w"
    proof (rule inv_settle [OF inv1 cl(1)])
      show "attached ?w ?c" using up None by (simp add: attached_def)
      show "?c \<in> set (kids_of ?w y) \<longleftrightarrow> live ?w ?c \<and> upper ?w ?c = Some y" if "live ?w y" for y
        using ctx_invD(7) [OF inv1 that] up None by (auto simp: live_ok_def)
    qed (use up None in simp)
    then show ?thesis using None own errs by (simp add: propagateCancel_def Done_none Err_owner same_shape_def)
  next
    case (Some q)
    define v where "v = snd (ctx_Done ?w p)"
    have q: "q < ?c" "core (ctxs w ! q) \<noteq> None" using owner_le [OF Some] x(3) by auto
    have inv2: "ctx_inv {?c} v" unfolding v_def by (rule inv_Done [OF inv1 cl(2)])
    have se: "same_errs ?w v" unfolding v_def by (rule same_errs_Done [OF cl(2)])
    then have len: "length (ctxs v) = Suc ?c" and sh: "same_shape (Suc ?c) ?w v"
      and er: "\<And>y. y < Suc ?c \<Longrightarrow> err_of v y = err_of ?w y" by (simp_all add: same_errs_def)
    obtain ch where D: "ctx_Done ?w p = (Some ch, v)" and ch: "done_of v q = Some ch"
    proof (cases "done_of ?w q")
      case (Some ch)
      then show ?thesis using that Done_some [of ?w p q ch] own \<open>owner w p = Some q\<close> by (simp add: v_def)
    next
      case None
      then have "ctx_Done ?w p = (Some (length (chans ?w)), v)"
        using Done_new [of ?w p q] own \<open>owner w p = Some q\<close> by (simp add: v_def)
      moreover have "done_of v q = Some (length (chans ?w))"
        using None Done_new [of ?w p q] own \<open>owner w p = Some q\<close> q
        by (cases "ctxs ?w ! q") (auto simp: v_def done_of_def upd_core_def nth_new)
      ultimately show ?thesis using that by blast
    qed
    have ownv: "owner v p = Some q" "upper v ?c = Some q"
      using owner_shape [OF sh, of p] upper_shape [OF sh, of ?c] own up Some x(3) by auto
    have att: "attached v ?c" using ownv ch by (simp add: attached_def)
    have corev: "core (ctxs v ! y) \<noteq> None \<longleftrightarrow> core (ctxs ?w ! y) \<noteq> None" if "y < Suc ?c" for y
      using shape_facts(2) [OF same_shapeD [OF sh that]] by simp
    have livev: "live v ?c" using live er [of ?c] corev [of ?c] len by (simp add: live_def)
    have qv: "q < length (ctxs v)" "core (ctxs v ! q) \<noteq> None" using q corev [of q] len by (simp_all add: nth_new)
    have Ev: "ctx_Err v p = err_of w q" "ctx_Err w p = err_of w q"
      using ownv Some er [of q] errs q by (simp_all add: Err_owner)
    show ?thesis
    proof (cases "err_of w q")
      case (Some e)
      have "is_closed v ch" using ctx_invD(6) [OF inv2 qv] Some er [of q] errs q ch by (auto simp: dead_ok_def)
      let ?L = "live_under v ?c"
      let ?u = "kill e ?L ?L ?L v"
      have P: "propagateCancel p ?c ?w = Inr ?u"
        using D \<open>is_closed v ch\<close> Ev Some cancel_live_False [OF inv2 _ livev, of e] by (simp add: propagateCancel_def)
      have inv3: "ctx_inv {?c} ?u" using inv_kill [OF inv2 _ livev] by simp
      have only: "?L = {?c}"
        using livev len by (auto simp: live_under_def live_def less_Suc_eq intro: under.self dest: under_le)
      have "ctx_inv {} ?u"
      proof (rule inv_settle [OF inv3])
        show "attached ?u ?c" using ownv ch qv len by (simp add: attached_def)
        show "?c \<in> set (kids_of ?u y) \<longleftrightarrow> live ?u ?c \<and> upper ?u ?c = Some y" if y: "live ?u y" for y
        proof -
          have "live v y" using y by simp
          then have "y \<noteq> q" using Some er [of q] errs q by (auto simp: live_def)
          moreover have "upper ?u ?c = Some q" using ownv len by simp
          ultimately show ?thesis using ctx_invD(7) [OF inv3 y] only by (auto simp: live_ok_def)
        qed
      qed (use only len in auto)
      moreover have "same_shape (Suc ?c) ?w ?u"
        using sh shape_kill [of v e ?L ?L ?L] len by (simp add: same_shape_def)
      moreover have "err_of ?u y = err_of w y" if "y < ?c" for y
        using that er [of y] errs only len by (cases "core (ctxs v ! y) = None") (auto simp: err_of_def)
      moreover have "err_of ?u ?c = Some e" using only livev by (simp add: live_def)
      ultimately show ?thesis using P len Ev Some by auto
    next
      case None
      have lq: "live v q" using qv None er [of q] errs q by (simp add: live_def)
      then have open_ch: "\<not> is_closed v ch" using ctx_invD(7) [OF inv2 lq] ch by (simp add: live_ok_def)
      then have "ch \<noteq> closedchan" using chans_okD(1) [OF ctx_invD(2) [OF inv2]] by blast
      then have P: "propagateCancel p ?c ?w = Inr (upd_kids q (List.insert ?c) v)"
        using D open_ch parent_some [OF ownv(1) ch] None er [of q] errs q
        by (simp add: propagateCancel_def upd_kids_def)
      have "distinct (kids_of v q)" using ctx_invD(7) [OF inv2 lq] by (simp add: live_ok_def)
      then have "ctx_inv {} (upd_kids q (List.insert ?c) v)"
        using inv_upd_kids [OF inv2 lq _ ownv(2) att, of "List.insert ?c"] len livev by simp
      moreover have "same_shape (Suc ?c) ?w (upd_kids q (List.insert ?c) v)"
        using sh shape_upd_kids [of "Suc ?c" v q "List.insert ?c"] by (simp add: same_shape_def)
      ultimately show ?thesis using P len Ev None er errs by simp
    qed
  qed
qed

subsection \<open>Each call returns and keeps the invariant\<close>

lemma fresh_cancelCtx: "p < length (ctxs w) \<Longrightarrow> fresh_ctx w (CancelCtx (newCancelCtx p))"
  by (simp add: fresh_ctx_def newCancelCtx_def)

lemma fresh_timerCtx: "p < length (ctxs w) \<Longrightarrow> fresh_ctx w (TimerCtx (newCancelCtx p) False d)"
  by (simp add: fresh_ctx_def newCancelCtx_def)

lemma new_deadline_ok:
  assumes "p < length (ctxs w)"
    "\<not> (case ctx_Deadline w p of Some cur \<Rightarrow> Before cur d | None \<Rightarrow> False)"
  shows "deadline_ok (new_ctx (TimerCtx (newCancelCtx p) t d) w) (length (ctxs w))"
  using assms Deadline_shape [OF shape_new assms(1)]
  by (simp add: deadline_ok_def nth_new newCancelCtx_def split: option.splits)

text \<open>What making a context gives: the next address, the parent it was given, the parent's error.\<close>

definition made :: "nat \<Rightarrow> ('k, 'v) ctx_store \<Rightarrow> ctx_error option \<Rightarrow> ('k, 'v) ctx_store \<Rightarrow> bool" where
  "made p w err v \<longleftrightarrow>
     ctx_inv {} v \<and> extends w v \<and> length (ctxs v) = Suc (length (ctxs w)) \<and>
     core (ctxs v ! length (ctxs w)) \<noteq> None \<and> above v (length (ctxs w)) = Some p \<and>
     (\<forall>y < length (ctxs w). err_of v y = err_of w y) \<and> err_of v (length (ctxs w)) = err"

lemma propagate_made:
  assumes "ctx_inv {} w" "fresh_ctx w x" "embeds x = Some p" "p < length (ctxs w)" "core x \<noteq> None"
    "deadline_ok (new_ctx x w) (length (ctxs w))"
  obtains v where "propagateCancel p (length (ctxs w)) (new_ctx x w) = Inr v" "made p w (ctx_Err w p) v"
    "same_shape (Suc (length (ctxs w))) (new_ctx x w) v"
proof -
  let ?c = "length (ctxs w)"
  obtain v where v: "propagateCancel p ?c (new_ctx x w) = Inr v" "ctx_inv {} v" "length (ctxs v) = Suc ?c"
      "same_shape (Suc ?c) (new_ctx x w) v" "\<forall>y < ?c. err_of v y = err_of w y" "err_of v ?c = ctx_Err w p"
    using propagate_total [OF assms] by blast
  have "same_shape ?c w v" using v(4) by (auto simp: same_shape_def nth_new)
  moreover have "shape (ctxs v ! ?c) = shape x" using same_shapeD [OF v(4), of ?c] by (simp add: nth_new)
  ultimately have "made p w (ctx_Err w p) v"
    using v assms shape_facts [of "ctxs v ! ?c" x] by (simp add: made_def extends_def above_def)
  then show ?thesis using that v by blast
qed

theorem WithCancel_total:
  assumes "ctx_inv {} w" "p < length (ctxs w)"
  shows "\<exists>v. WithCancel p w = Inr (length (ctxs w), (length (ctxs w), True), v) \<and> made p w (ctx_Err w p) v"
proof -
  let ?x = "CancelCtx (newCancelCtx p)"
  have "deadline_ok (new_ctx ?x w) (length (ctxs w))" by (simp add: deadline_ok_def nth_new)
  then obtain v where "propagateCancel p (length (ctxs w)) (new_ctx ?x w) = Inr v" "made p w (ctx_Err w p) v"
    using propagate_made [OF assms(1) fresh_cancelCtx [OF assms(2)] _ assms(2)] by (auto simp: newCancelCtx_def)
  then show ?thesis by (simp add: WithCancel_def Let_def)
qed

lemma made_cancels:
  assumes m: "made p w err v" and c: "cancels (length (ctxs w)) e v u" "ctx_inv {} u"
  shows "made p w (Some (case err of None \<Rightarrow> e | Some e' \<Rightarrow> e')) u"
proof -
  let ?c = "length (ctxs w)"
  have core: "core (ctxs u ! y) = None \<longleftrightarrow> core (ctxs v ! y) = None" if "y < length (ctxs v)" for y
    using shape_facts(2) [OF same_shapeD [of _ v u y]] c that by (auto simp: cancels_def)
  have "err_of u y = err_of v y" if "y < ?c" for y
  proof (cases "core (ctxs v ! y) = None")
    case True
    then show ?thesis using core [of y] that m by (simp add: made_def err_of_def)
  next
    case False
    have "\<not> under v ?c y" using under_le that by fastforce
    then show ?thesis using c that m False by (auto simp: cancels_def made_def)
  qed
  moreover have "err_of u ?c = Some (case err of None \<Rightarrow> e | Some e' \<Rightarrow> e')"
    using m c by (auto simp: made_def cancels_def live_def under.self split: option.splits)
  moreover have "above u ?c = Some p"
    using above_shape [of "length (ctxs v)" v u ?c] m c by (simp add: made_def cancels_def)
  ultimately show ?thesis
    using m c core [of ?c] extends_trans [OF _ cancels_extends [OF c(1)], of w] by (simp add: made_def cancels_def)
qed

lemma made_arm:
  assumes m: "made p w err v"
  shows "made p w err (arm_timer (length (ctxs w)) dur v)"
proof -
  let ?c = "length (ctxs w)" and ?u = "arm_timer (length (ctxs w)) dur v"
  have c: "?c < length (ctxs v)" using m by (simp add: made_def)
  have s: "same_errs v ?u" by (rule same_errs_arm [OF c])
  have "core (ctxs ?u ! ?c) \<noteq> None"
    using m c s shape_facts(2) [OF same_shapeD [of _ v ?u ?c]] by (auto simp: made_def same_errs_def)
  moreover have "above ?u ?c = Some p" using above_shape [of _ v ?u ?c] s c m by (auto simp: same_errs_def made_def)
  ultimately show ?thesis
    using m s c inv_arm [of v ?c dur] extends_trans [OF _ same_errs_extends [OF s], of w]
    by (simp add: made_def same_errs_def)
qed

text \<open>The error a context made with a deadline starts with, and how its \<open>CancelFunc\<close> cancels.\<close>

definition sooner :: "('k, 'v) ctx_store \<Rightarrow> nat \<Rightarrow> gtime \<Rightarrow> bool" where
  "sooner w p d \<longleftrightarrow> (case ctx_Deadline w p of Some cur \<Rightarrow> Before cur d | None \<Rightarrow> False)"

definition deadline_err :: "gtime \<Rightarrow> nat \<Rightarrow> gtime \<Rightarrow> ('k, 'v) ctx_store \<Rightarrow> ctx_error option" where
  "deadline_err now p d w =
     (if \<not> sooner w p d \<and> Time_Until d now \<le> 0
      then Some (case ctx_Err w p of None \<Rightarrow> DeadlineExceeded | Some e \<Rightarrow> e) else ctx_Err w p)"

theorem WithDeadline_total:
  assumes "ctx_inv {} w" "p < length (ctxs w)"
  shows "\<exists>v rm. WithDeadline now p d w = Inr (length (ctxs w), (length (ctxs w), rm), v) \<and>
    made p w (deadline_err now p d w) v \<and> (\<not> rm \<longrightarrow> deadline_err now p d w \<noteq> None)"
proof (cases "sooner w p d")
  case True
  moreover obtain v where "WithCancel p w = Inr (length (ctxs w), (length (ctxs w), True), v)" "made p w (ctx_Err w p) v"
    using WithCancel_total [OF assms] by blast
  ultimately show ?thesis by (auto simp: WithDeadline_def sooner_def deadline_err_def)
next
  case False
  let ?c = "length (ctxs w)" and ?x = "TimerCtx (newCancelCtx p) False d"
  have "deadline_ok (new_ctx ?x w) ?c" using new_deadline_ok [OF assms(2)] False by (simp add: sooner_def)
  then obtain v where v: "propagateCancel p ?c (new_ctx ?x w) = Inr v" "made p w (ctx_Err w p) v"
    using propagate_made [OF assms(1) fresh_timerCtx [OF assms(2)] _ assms(2)] by (auto simp: newCancelCtx_def)
  show ?thesis
  proof (cases "Time_Until d now \<le> 0")
    case True
    obtain u where "ctx_cancel ?c True (Some DeadlineExceeded) v = Inr u" "ctx_inv {} u" "cancels ?c DeadlineExceeded v u"
      using cancel_total [of v ?c True DeadlineExceeded] v(2) by (auto simp: made_def)
    moreover from this have "made p w (deadline_err now p d w) u"
      using made_cancels [OF v(2)] True False by (simp add: deadline_err_def)
    ultimately show ?thesis using v True False by (auto simp: WithDeadline_def sooner_def deadline_err_def Let_def)
  next
    case False
    then show ?thesis using v \<open>\<not> sooner w p d\<close> made_arm [OF v(2)]
      by (auto simp: WithDeadline_def sooner_def deadline_err_def Let_def)
  qed
qed

text \<open>In a store the calls build, every pending timer belongs to a live context.\<close>

lemma armed_live:
  assumes "ctx_inv {} w" "q \<in> set (armed w)"
  shows "live w (fst q)"
proof -
  obtain k d where x: "fst q < length (ctxs w)" "ctxs w ! fst q = TimerCtx k True d"
    using ctx_invD(3) [OF assms(1)] assms(2) by (auto simp: timers_ok_def)
  then show ?thesis using ctx_invD(6) [OF assms(1) x(1)]
    by (cases "err_of w (fst q)") (simp_all add: live_def dead_ok_def)
qed

theorem timer_total:
  assumes "ctx_inv {} w" "q \<in> set (armed w)"
  shows "\<exists>v. timer_fires (fst q) w = Inr v \<and> ctx_inv {} v \<and> cancels (fst q) DeadlineExceeded w v"
proof -
  let ?w = "w\<lparr>armed := filter (\<lambda>p. fst p \<noteq> fst q) (armed w)\<rparr>"
  have l: "live w (fst q)" by (rule armed_live [OF assms])
  have s: "same_errs w ?w" by (simp add: same_errs_def same_shape_def err_of_def)
  have "live ?w x = live w x" for x by (simp add: live_def err_of_def)
  moreover have "under ?w (fst q) x = under w (fst q) x" for x
  proof -
    have u: "upper ?w = upper w"
      using upper_shape [of _ w ?w] by (auto simp: same_shape_def fun_eq_iff)
    have "\<And>x. under ?w (fst q) x \<Longrightarrow> under w (fst q) x" "\<And>x. under w (fst q) x \<Longrightarrow> under ?w (fst q) x"
      by (erule under.induct; use u in \<open>auto intro: under.intros\<close>)+
    then show ?thesis by blast
  qed
  ultimately have t: "cancels (fst q) e ?w v \<Longrightarrow> cancels (fst q) e w v" for e v
    by (simp add: cancels_def same_shape_def err_of_def)
  show ?thesis
    using cancel_total [OF inv_disarm [OF assms(1), of "\<lambda>p. fst p \<noteq> fst q"], of "fst q" True DeadlineExceeded] l t
    by (auto simp: timer_fires_def live_def err_of_def)
qed

subsection \<open>Runs of a program that uses contexts\<close>

text \<open>
  The store and the \<open>CancelFunc\<close>s the calls have returned. Every step is one call, or the firing
  of a pending timer, in any order and from any goroutine.
\<close>

type_synonym ('k, 'v) session = "('k, 'v) ctx_store \<times> cancelFunc list"

inductive ctx_step :: "('k \<Rightarrow> bool) \<Rightarrow> ('k, 'v) session \<Rightarrow> ('k, 'v) session \<Rightarrow> bool" for comparable where
  step_WithCancel:
    "p < length (ctxs w) \<Longrightarrow> WithCancel p w = Inr (c, f, v) \<Longrightarrow> ctx_step comparable (w, fs) (v, f # fs)"
| step_WithDeadline:
    "p < length (ctxs w) \<Longrightarrow> WithDeadline now p d w = Inr (c, f, v) \<Longrightarrow> ctx_step comparable (w, fs) (v, f # fs)"
| step_WithTimeout:
    "p < length (ctxs w) \<Longrightarrow> WithTimeout now later p t w = Inr (c, f, v) \<Longrightarrow>
     ctx_step comparable (w, fs) (v, f # fs)"
| step_WithValue:
    "p < length (ctxs w) \<Longrightarrow> WithValue comparable p key val w = Inr (c, v) \<Longrightarrow> ctx_step comparable (w, fs) (v, fs)"
| step_Done: "c < length (ctxs w) \<Longrightarrow> ctx_step comparable (w, fs) (snd (ctx_Done w c), fs)"
| step_CancelFunc: "f \<in> set fs \<Longrightarrow> run_CancelFunc f w = Inr v \<Longrightarrow> ctx_step comparable (w, fs) (v, fs)"
| step_timer: "q \<in> set (armed w) \<Longrightarrow> timer_fires (fst q) w = Inr v \<Longrightarrow> ctx_step comparable (w, fs) (v, fs)"

definition reach :: "('k \<Rightarrow> bool) \<Rightarrow> ('k, 'v) session \<Rightarrow> bool" where
  "reach comparable s \<longleftrightarrow> (ctx_step comparable)\<^sup>*\<^sup>* (world_init, []) s"

definition func_ok :: "('k, 'v) ctx_store \<Rightarrow> cancelFunc \<Rightarrow> bool" where
  "func_ok w f \<longleftrightarrow>
     fst f < length (ctxs w) \<and> core (ctxs w ! fst f) \<noteq> None \<and> (snd f \<or> err_of w (fst f) \<noteq> None)"

fun session_ok :: "('k, 'v) session \<Rightarrow> bool" where
  "session_ok (w, fs) \<longleftrightarrow> ctx_inv {} w \<and> (\<forall>f \<in> set fs. func_ok w f)"

lemma func_ok_extends: "extends w v \<Longrightarrow> func_ok w f \<Longrightarrow> func_ok v f"
  using shape_facts(2) [OF same_shapeD [of _ w v "fst f"]] by (auto simp: func_ok_def extends_def)

lemma init_ok: "ctx_inv {} world_init"
proof -
  have c: "c = 0 \<or> c = 1" if "c < length (ctxs world_init)" for c using that by (auto simp: world_init_def)
  have e: "ctxs (world_init :: ('a, 'b) ctx_store) ! c = EmptyCtx" if "c < length (ctxs (world_init :: ('a, 'b) ctx_store))" for c
    using c [OF that] by (auto simp: world_init_def)
  show ?thesis
    by (rule ctx_invI)
      (use e in \<open>auto simp: older_def chans_ok_def timers_ok_def live_def attached_def deadline_ok_def done_of_def\<close>,
       auto simp: world_init_def is_closed_def closedchan_def)
qed

lemma made_func_ok: "made p w err v \<Longrightarrow> rm \<or> err \<noteq> None \<Longrightarrow> func_ok v (length (ctxs w), rm)"
  by (auto simp: made_def func_ok_def)

lemma cancel_func_total:
  assumes "ctx_inv {} w" "func_ok w f"
  shows "\<exists>v. run_CancelFunc f w = Inr v \<and> ctx_inv {} v \<and> cancels (fst f) Canceled w v"
  using assms cancel_total [of w "fst f" "snd f" Canceled] by (auto simp: func_ok_def run_CancelFunc_def)

lemma WithValue_new:
  "WithValue comparable p key val w = Inr (c, v) \<Longrightarrow>
   \<exists>k. key = Some k \<and> comparable k \<and> c = length (ctxs w) \<and> v = new_ctx (ValueCtx p k val) w"
  by (auto simp: WithValue_def split: option.splits if_splits)

lemma extends_new: "extends w (new_ctx x w)"
  by (simp add: extends_def shape_new)

lemma ctx_step_ok:
  assumes "ctx_step comparable s t" "session_ok s"
  shows "session_ok t \<and> extends (fst s) (fst t)"
  using assms
proof cases
  case (step_WithCancel p w c f v fs)
  then have i: "ctx_inv {} w" using assms(2) by simp
  obtain u where u: "WithCancel p w = Inr (length (ctxs w), (length (ctxs w), True), u)" "made p w (ctx_Err w p) u"
    using WithCancel_total [OF i step_WithCancel(3)] by blast
  then have "extends w u" "ctx_inv {} u" "func_ok u (length (ctxs w), True)"
    using made_func_ok [OF u(2)] by (simp_all add: made_def)
  then show ?thesis using step_WithCancel u assms(2) func_ok_extends [of w u] by auto
next
  case (step_WithDeadline p w now d c f v fs)
  then have i: "ctx_inv {} w" using assms(2) by simp
  obtain u rm where u: "WithDeadline now p d w = Inr (length (ctxs w), (length (ctxs w), rm), u)"
      "made p w (deadline_err now p d w) u" "\<not> rm \<longrightarrow> deadline_err now p d w \<noteq> None"
    using WithDeadline_total [OF i step_WithDeadline(3), of now d] by blast
  then have "extends w u" "ctx_inv {} u" by (simp_all add: made_def)
  moreover have "func_ok u (length (ctxs w), rm)" by (rule made_func_ok [OF u(2)]) (use u(3) in blast)
  ultimately show ?thesis using step_WithDeadline u assms(2) func_ok_extends [of w u] by auto
next
  case (step_WithTimeout p w now later t c f v fs)
  then have i: "ctx_inv {} w" using assms(2) by simp
  obtain u rm where u: "WithTimeout now later p t w = Inr (length (ctxs w), (length (ctxs w), rm), u)"
      "made p w (deadline_err later p (Time_Add now t) w) u" "\<not> rm \<longrightarrow> deadline_err later p (Time_Add now t) w \<noteq> None"
    unfolding WithTimeout_def using WithDeadline_total [OF i step_WithTimeout(3), of later "Time_Add now t"] by blast
  then have "extends w u" "ctx_inv {} u" by (simp_all add: made_def)
  moreover have "func_ok u (length (ctxs w), rm)" by (rule made_func_ok [OF u(2)]) (use u(3) in blast)
  ultimately show ?thesis using step_WithTimeout u assms(2) func_ok_extends [of w u] by auto
next
  case (step_WithValue p w key val c v fs)
  then obtain k where v: "v = new_ctx (ValueCtx p k val) w"
    using WithValue_new [OF step_WithValue(4)] by auto
  then show ?thesis
    using step_WithValue assms(2) inv_new_value [of w p k val] func_ok_extends [OF extends_new, of w]
      extends_new [of w] by auto
next
  case (step_Done c w fs)
  then have e: "extends w (snd (ctx_Done w c))" using same_errs_extends [OF same_errs_Done] by blast
  then show ?thesis using step_Done assms(2) inv_Done [of "{}" w c] func_ok_extends [OF e] by auto
next
  case (step_CancelFunc f fs w v)
  then obtain u where u: "run_CancelFunc f w = Inr u" "ctx_inv {} u" "cancels (fst f) Canceled w u"
    using cancel_func_total [of w f] assms(2) by auto
  then show ?thesis using step_CancelFunc assms(2) cancels_extends [OF u(3)] func_ok_extends [of w u] by auto
next
  case (step_timer q w v fs)
  then obtain u where u: "timer_fires (fst q) w = Inr u" "ctx_inv {} u" "cancels (fst q) DeadlineExceeded w u"
    using timer_total [of w q] assms(2) by auto
  then show ?thesis using step_timer assms(2) cancels_extends [OF u(3)] func_ok_extends [of w u] by auto
qed

lemma steps_ok:
  assumes "(ctx_step comparable)\<^sup>*\<^sup>* s t" "session_ok s"
  shows "session_ok t \<and> extends (fst s) (fst t)"
  using assms(1)
proof (induction rule: rtranclp_induct)
  case (step t u)
  then show ?case using ctx_step_ok [OF step(2)] extends_trans by blast
qed (use assms in simp)

lemma reach_ok: "reach comparable (w, fs) \<Longrightarrow> ctx_inv {} w \<and> (\<forall>f \<in> set fs. func_ok w f)"
proof -
  assume "reach comparable (w, fs)"
  moreover have "session_ok ((world_init, []) :: ('a, 'b) session)" using init_ok by simp
  ultimately show ?thesis using steps_ok [of comparable "(world_init, [])" "(w, fs)"] by (simp add: reach_def)
qed

subsection \<open>Derived contexts\<close>

inductive derived :: "('k, 'v) ctx_store \<Rightarrow> nat \<Rightarrow> nat \<Rightarrow> bool" for w c where
  derived_self: "derived w c c"
| derived_step: "above w x = Some y \<Longrightarrow> derived w c y \<Longrightarrow> derived w c x"

lemma derived_le: "derived w c x \<Longrightarrow> c \<le> x"
  by (induction rule: derived.induct) (auto dest: above_less)

lemma owner_step: "core (ctxs w ! x) = None \<Longrightarrow> above w x = Some y \<Longrightarrow> owner w x = owner w y"
  by (subst owner.simps) simp

lemma owner_self: "core (ctxs w ! x) \<noteq> None \<Longrightarrow> owner w x = Some x"
  by (subst owner.simps) simp

lemma owner_root: "core (ctxs w ! x) = None \<Longrightarrow> above w x = None \<Longrightarrow> owner w x = None"
  by (subst owner.simps) simp

text \<open>A context derived from a \<open>cancelCtx\<close> is cancelled with it: its owner is under it.\<close>

lemma derived_under:
  assumes "core (ctxs w ! c) \<noteq> None"
  shows "derived w c x \<longleftrightarrow> (\<exists>q. owner w x = Some q \<and> under w c q)"
proof (induction x rule: less_induct)
  case (less x)
  show ?case
  proof (cases "x = c")
    case True
    then show ?thesis using assms by (auto simp: owner_self intro: derived.intros under.self)
  next
    case False
    have d: "derived w c x \<longleftrightarrow> (\<exists>y. above w x = Some y \<and> derived w c y)"
      using False by (auto intro: derived.intros elim: derived.cases)
    show ?thesis
    proof (cases "above w x")
      case None
      then have "\<not> (core (ctxs w ! x) \<noteq> None \<and> under w c x)"
        using False by (auto simp: upper_def elim: under.cases)
      then show ?thesis using None d by (cases "core (ctxs w ! x) = None") (auto simp: owner_self owner_root)
    next
      case (Some y)
      have IH: "derived w c y \<longleftrightarrow> (\<exists>q. owner w y = Some q \<and> under w c q)" using less Some by auto
      show ?thesis
      proof (cases "core (ctxs w ! x) = None")
        case True
        then show ?thesis using Some d IH by (simp add: owner_step)
      next
        case False
        have "under w c x \<longleftrightarrow> (\<exists>q. owner w y = Some q \<and> under w c q)"
          using \<open>x \<noteq> c\<close> Some by (auto simp: upper_def intro: under.climb elim: under.cases)
        then show ?thesis using Some d IH False by (simp add: owner_self)
      qed
    qed
  qed
qed

lemma derived_shape: "same_shape n w v \<Longrightarrow> x < n \<Longrightarrow> derived v c x \<longleftrightarrow> derived w c x"
proof (induction x rule: less_induct)
  case (less x)
  have a: "above v x = above w x" using above_shape [OF less(2,3)] .
  have d: "derived u c x \<longleftrightarrow> x = c \<or> (\<exists>y. above u x = Some y \<and> derived u c y)" for u :: "('a, 'b) ctx_store"
    by (auto intro: derived.intros elim: derived.cases)
  have "derived v c y \<longleftrightarrow> derived w c y" if "above w x = Some y" for y
    using less(1) [OF above_less [OF that] less(2)] above_less [OF that] less(3) by simp
  then show ?case using a d [of v] d [of w] by auto
qed

text \<open>An error reaches every derived context.\<close>

lemma inv_Err_derived:
  assumes "ctx_inv {} w" "x < length (ctxs w)" "derived w p x" "ctx_Err w p \<noteq> None"
  shows "ctx_Err w x \<noteq> None"
  using assms(3,2,4)
proof (induction rule: derived.induct)
  case (derived_step x y)
  then have y: "ctx_Err w y \<noteq> None" using above_less by fastforce
  show ?case
  proof (cases "core (ctxs w ! x) = None")
    case True
    then show ?thesis using y derived_step by (simp add: Err_owner owner_step)
  next
    case False
    have "\<not> live w x"
    proof
      assume l: "live w x"
      obtain q where q: "owner w y = Some q" "err_of w q \<noteq> None" using y by (auto simp: Err_owner split: option.splits)
      then have "upper w x = Some q" using derived_step by (simp add: upper_def)
      then show False using ctx_invD(7) [OF assms(1) l] q by (simp add: live_ok_def live_def)
    qed
    then show ?thesis using False derived_step by (simp add: Err_owner owner_self live_def)
  qed
qed simp

text \<open>What cancelling does to \<open>Err\<close>.\<close>

lemma cancels_Err:
  assumes "cancels c e w v" "core (ctxs w ! c) \<noteq> None" "x < length (ctxs w)"
  shows "ctx_Err v x = (if ctx_Err w x = None \<and> derived w c x then Some e else ctx_Err w x)"
proof -
  have s: "same_shape (length (ctxs w)) w v" using assms(1) by (simp add: cancels_def)
  show ?thesis
  proof (cases "owner w x")
    case None
    then show ?thesis using owner_shape [OF s assms(3)] derived_under [OF assms(2), of x] by (simp add: Err_owner)
  next
    case (Some q)
    then have q: "q < length (ctxs w)" "core (ctxs w ! q) \<noteq> None" using owner_le [OF Some] assms(3) by auto
    then show ?thesis
      using assms(1) Some owner_shape [OF s assms(3)] derived_under [OF assms(2), of x]
      by (auto simp: Err_owner cancels_def live_def)
  qed
qed

text \<open>\<open>Done\<close> returns a closed channel exactly when \<open>Err\<close> is not nil.\<close>

lemma inv_Done_Err:
  assumes "ctx_inv {} w" "c < length (ctxs w)"
  shows "case ctx_Done w c of (None, v) \<Rightarrow> ctx_Err w c = None
           | (Some ch, v) \<Rightarrow> is_closed v ch \<longleftrightarrow> ctx_Err w c \<noteq> None"
proof (cases "owner w c")
  case None
  then show ?thesis by (simp add: Done_none Err_owner)
next
  case (Some q)
  note I = ctx_invD [OF assms(1)]
  have q: "q < length (ctxs w)" "core (ctxs w ! q) \<noteq> None" using owner_le [OF Some] assms(2) by auto
  show ?thesis
  proof (cases "done_of w q")
    case None
    then have "err_of w q = None" using I(6) [OF q] by (cases "err_of w q") (simp_all add: dead_ok_def)
    then show ?thesis using None Some Done_new [OF Some None] by (simp add: Err_owner is_closed_def upd_core_def)
  next
    case (Some ch)
    have "is_closed w ch \<longleftrightarrow> err_of w q \<noteq> None"
    proof (cases "err_of w q")
      case None
      then have "live_ok {} w q" using I(7) q by (simp add: live_def)
      then show ?thesis using None \<open>done_of w q = Some ch\<close> by (simp add: live_ok_def)
    next
      case (Some e)
      then show ?thesis using I(6) [OF q] \<open>done_of w q = Some ch\<close> by (simp add: dead_ok_def)
    qed
    then show ?thesis using \<open>owner w c = Some q\<close> Done_some [OF \<open>owner w c = Some q\<close> Some] by (simp add: Err_owner)
  qed
qed

text \<open>A cancelled context is in no parent's children, has none, and no timer of it is pending.\<close>

lemma inv_released:
  assumes "ctx_inv {} w" "c < length (ctxs w)" "core (ctxs w ! c) \<noteq> None" "err_of w c \<noteq> None"
  shows "kids_of w c = []" "c \<notin> fst ` set (armed w)" "p < length (ctxs w) \<Longrightarrow> c \<notin> set (kids_of w p)"
proof -
  note I = ctx_invD [OF assms(1)]
  show "kids_of w c = []" using I(6) [OF assms(2-4)] by (simp add: dead_ok_def)
  show "c \<notin> fst ` set (armed w)" using armed_live [OF assms(1)] assms(4) by (auto simp: live_def)
  show "c \<notin> set (kids_of w p)" if p: "p < length (ctxs w)"
  proof (cases "core (ctxs w ! p) = None")
    case True
    then show ?thesis by (simp add: kids_of_def)
  next
    case False
    then show ?thesis
      using I(6) [OF p] I(7) [of p] p assms(4) by (cases "live w p") (auto simp: live_ok_def dead_ok_def live_def)
  qed
qed

text \<open>No context has a later deadline than the one it was derived from.\<close>

lemma Before_irrefl [simp]: "\<not> Before t t"
  by (simp add: Before_def split: option.splits)

theorem deadline_not_later:
  assumes "reach comparable (w, fs)" "c < length (ctxs w)" "above w c = Some p" "ctx_Deadline w p = Some cur"
  shows "\<exists>d. ctx_Deadline w c = Some d \<and> \<not> Before cur d"
proof -
  note I = ctx_invD [OF reach_ok [OF assms(1), THEN conjunct1]]
  show ?thesis
  proof (cases "ctxs w ! c")
    case (TimerCtx k t d)
    then have "p = embedded k" using above_older [OF I(1) assms(2)] assms(3) by simp
    then show ?thesis using I(9) [OF assms(2)] TimerCtx assms(4)
      by (subst ctx_Deadline.simps) (simp add: deadline_ok_def)
  qed (use assms in \<open>subst ctx_Deadline.simps; simp add: above_def\<close>)+
qed

text \<open>\<open>WithValue\<close>: the innermost binding of a key wins, and no other lookup changes.\<close>

theorem value_lookup:
  assumes "WithValue comparable p (Some k) val w = Inr (c, v)" "p < length (ctxs w)"
  shows "ctx_Value v c key = (if key = Some (UserKey k) then UserVal val else ctx_Value w p key)"
    and "x < length (ctxs w) \<Longrightarrow> ctx_Value v x key = ctx_Value w x key"
proof -
  have v: "c = length (ctxs w)" "v = new_ctx (ValueCtx p k val) w" using WithValue_new [OF assms(1)] by auto
  show o: "ctx_Value v x key = ctx_Value w x key" if "x < length (ctxs w)" for x
    unfolding v by (rule Value_shape [OF shape_new that])
  have "above v c = Some p" using assms(2) by (simp add: v above_def nth_new)
  then show "ctx_Value v c key = (if key = Some (UserKey k) then UserVal val else ctx_Value w p key)"
    using o [OF assms(2)] by (subst ctx_Value.simps) (simp add: v nth_new Let_def)
qed

theorem value_errors:
  "WithValue comparable p None val w = Inl NilKey"
  "\<not> comparable k \<Longrightarrow> WithValue comparable p (Some k) val w = Inl KeyNotComparable"
  by (simp_all add: WithValue_def)

text \<open>A deadline that has passed: the context is cancelled when it is returned.\<close>

theorem deadline_passed:
  assumes "reach comparable (w, fs)" "p < length (ctxs w)" "Time_Until d now \<le> 0"
    "ctx_Deadline w p = None" "ctx_Err w p = None"
  shows "\<exists>v. WithDeadline now p d w = Inr (length (ctxs w), (length (ctxs w), False), v) \<and>
    ctx_Err v (length (ctxs w)) = Some DeadlineExceeded"
proof -
  obtain v rm where v: "WithDeadline now p d w = Inr (length (ctxs w), (length (ctxs w), rm), v)"
      "made p w (deadline_err now p d w) v"
    using WithDeadline_total [OF reach_ok [OF assms(1), THEN conjunct1] assms(2)] by blast
  have "\<not> rm" using v(1) assms(3,4)
    by (cases "propagateCancel p (length (ctxs w)) (new_ctx (TimerCtx (newCancelCtx p) False d) w)")
      (auto simp: WithDeadline_def Let_def elim: returning.elims)
  moreover have "deadline_err now p d w = Some DeadlineExceeded"
    using assms by (simp add: deadline_err_def sooner_def)
  ultimately show ?thesis using v by (auto simp: made_def Err_owner owner_self)
qed

subsection \<open>What a client may rely on\<close>

text \<open>
  The contract of cancellation, for a client that sees only \<open>Err\<close> and which context was derived
  from which: an error is final, and it reaches every derived context.
\<close>

locale cancellation =
  fixes step :: "'s \<Rightarrow> 's \<Rightarrow> bool" and ok :: "'s \<Rightarrow> bool" and known :: "'s \<Rightarrow> nat \<Rightarrow> bool"
    and err :: "'s \<Rightarrow> nat \<Rightarrow> 'e option" and below :: "'s \<Rightarrow> nat \<Rightarrow> nat \<Rightarrow> bool"
  assumes keeps: "step s t \<Longrightarrow> ok s \<Longrightarrow> ok t"
    and known_keeps: "step s t \<Longrightarrow> ok s \<Longrightarrow> known s x \<Longrightarrow> known t x"
    and err_keeps: "step s t \<Longrightarrow> ok s \<Longrightarrow> known s x \<Longrightarrow> err s x = Some e \<Longrightarrow> err t x = Some e"
    and below_keeps: "step s t \<Longrightarrow> ok s \<Longrightarrow> known s x \<Longrightarrow> below t p x \<longleftrightarrow> below s p x"
    and inherits: "ok s \<Longrightarrow> known s x \<Longrightarrow> below s p x \<Longrightarrow> err s p \<noteq> None \<Longrightarrow> err s x \<noteq> None"
begin

lemma steps_keep:
  assumes "step\<^sup>*\<^sup>* s t" "ok s" "known s x"
  shows "ok t \<and> known t x \<and> (below t p x \<longleftrightarrow> below s p x) \<and> (err s x = Some e \<longrightarrow> err t x = Some e)"
  using assms(1)
proof (induction rule: rtranclp_induct)
  case (step t u)
  then show ?case using keeps known_keeps below_keeps err_keeps by blast
qed (use assms in simp)

lemma final: "step\<^sup>*\<^sup>* s t \<Longrightarrow> ok s \<Longrightarrow> known s x \<Longrightarrow> err s x = Some e \<Longrightarrow> err t x = Some e"
  using steps_keep by blast

lemma stays_cancelled:
  assumes "step\<^sup>*\<^sup>* s t" "ok s" "known s x" "below s p x" "err s p \<noteq> None"
  shows "\<exists>e. err s x = Some e \<and> err t x = Some e"
  using inherits [OF assms(2-5)] final [OF assms(1-3)] by auto

end

lemma extends_Err:
  assumes "extends w v" "x < length (ctxs w)" "ctx_Err w x = Some e"
  shows "ctx_Err v x = Some e"
proof -
  obtain q where q: "owner w x = Some q" "err_of w q = Some e"
    using assms(3) by (auto simp: Err_owner split: option.splits)
  then have "err_of v q = Some e" using owner_le [OF q(1)] assms(1,2) by (simp add: extends_def)
  moreover have "owner v x = Some q" using owner_shape [of "length (ctxs w)" w v x] q(1) assms(1,2) by (simp add: extends_def)
  ultimately show ?thesis by (simp add: Err_owner)
qed

interpretation cancelling: cancellation
  "ctx_step comparable" session_ok "\<lambda>s x. x < length (ctxs (fst s))"
  "\<lambda>s. ctx_Err (fst s)" "\<lambda>s. derived (fst s)"
  for comparable :: "'k \<Rightarrow> bool"
proof
  show "session_ok t" if "ctx_step comparable s t" "session_ok s" for s t :: "('k, 'v) session"
    using ctx_step_ok [OF that] by blast
  show "x < length (ctxs (fst t))" if "ctx_step comparable s t" "session_ok s" "x < length (ctxs (fst s))"
    for s t :: "('k, 'v) session" and x
    using ctx_step_ok [OF that(1,2)] that(3) by (simp add: extends_def)
  show "ctx_Err (fst t) x = Some e" if "ctx_step comparable s t" "session_ok s" "x < length (ctxs (fst s))"
    "ctx_Err (fst s) x = Some e" for s t :: "('k, 'v) session" and x e
    using ctx_step_ok [OF that(1,2)] extends_Err that(3,4) by blast
  show "derived (fst t) p x \<longleftrightarrow> derived (fst s) p x" if "ctx_step comparable s t" "session_ok s"
    "x < length (ctxs (fst s))" for s t :: "('k, 'v) session" and x p
    using ctx_step_ok [OF that(1,2)] derived_shape [of "length (ctxs (fst s))" "fst s" "fst t" x p] that(3)
    by (simp add: extends_def)
  show "ctx_Err (fst s) x \<noteq> None" if "session_ok s" "x < length (ctxs (fst s))" "derived (fst s) p x"
    "ctx_Err (fst s) p \<noteq> None" for s :: "('k, 'v) session" and x p
    using that inv_Err_derived [of "fst s" x p] by (cases s) simp
qed

subsection \<open>A run, for the witnesses\<close>

text \<open>
  A context that can be cancelled (2), a value below it (3), a deadline below the value (4), whose
  timer is pending; then the first one is cancelled.
\<close>

fun made_world :: "('k, 'v) made_ctx \<Rightarrow> ('k, 'v) ctx_store" where
  "made_world (Inr (c, f, w)) = w"
| "made_world (Inl _) = world_init"

fun world_of :: "('k, 'v) ctx_outcome \<Rightarrow> ('k, 'v) ctx_store" where
  "world_of (Inr w) = w"
| "world_of (Inl _) = world_init"

definition demo_deadline :: gtime where
  "demo_deadline = \<lparr>tsec = 100, tnsec = 0, tmono = None, tloc = UTC\<rparr>"

definition demo_now :: gtime where
  "demo_now = \<lparr>tsec = 40, tnsec = 0, tmono = None, tloc = UTC\<rparr>"

definition demo1 :: "(nat, nat) ctx_store" where
  "demo1 = made_world (WithCancel 0 world_init)"

definition demo2 :: "(nat, nat) ctx_store" where
  "demo2 = new_ctx (ValueCtx 2 7 9) demo1"

definition demo3 :: "(nat, nat) ctx_store" where
  "demo3 = made_world (WithDeadline demo_now 3 demo_deadline demo2)"

definition demo4 :: "(nat, nat) ctx_store" where
  "demo4 = world_of (run_CancelFunc (2, True) demo3)"

lemma demo_steps:
  "ctx_step (\<lambda>_. True) (world_init, []) (demo1, [(2, True)])"
  "ctx_step (\<lambda>_. True) (demo1, [(2, True)]) (demo2, [(2, True)])"
  "ctx_step (\<lambda>_. True) (demo2, [(2, True)]) (demo3, [(4, True), (2, True)])"
  "ctx_step (\<lambda>_. True) (demo3, [(4, True), (2, True)]) (demo4, [(4, True), (2, True)])"
proof -
  have a: "WithCancel 0 (world_init :: (nat, nat) ctx_store) = Inr (2, (2, True), demo1)" by code_simp
  have b: "WithValue (\<lambda>_. True) 2 (Some 7) 9 demo1 = Inr (3, demo2)"
    by (simp add: WithValue_def demo2_def) code_simp
  have c: "WithDeadline demo_now 3 demo_deadline demo2 = Inr (4, (4, True), demo3)" by code_simp
  have d: "run_CancelFunc (2, True) demo3 = Inr demo4" by code_simp
  have l: "0 < length (ctxs (world_init :: (nat, nat) ctx_store))" "2 < length (ctxs demo1)" "3 < length (ctxs demo2)"
    by code_simp+
  show "ctx_step (\<lambda>_. True) (world_init, []) (demo1, [(2, True)])" by (rule step_WithCancel [OF l(1) a])
  show "ctx_step (\<lambda>_. True) (demo1, [(2, True)]) (demo2, [(2, True)])" by (rule step_WithValue [OF l(2) b])
  show "ctx_step (\<lambda>_. True) (demo2, [(2, True)]) (demo3, [(4, True), (2, True)])"
    by (rule step_WithDeadline [OF l(3) c])
  show "ctx_step (\<lambda>_. True) (demo3, [(4, True), (2, True)]) (demo4, [(4, True), (2, True)])"
    by (rule step_CancelFunc [OF _ d]) simp
qed

lemma demo3_reach: "reach (\<lambda>_. True) (demo3, [(4, True), (2, True)])"
  unfolding reach_def using demo_steps(1-3)
  by (meson converse_rtranclp_into_rtranclp rtranclp.rtrancl_refl)

lemma demo4_steps: "(ctx_step (\<lambda>_. True))\<^sup>*\<^sup>* (demo3, [(4, True), (2, True)]) (demo4, [(4, True), (2, True)])"
  using demo_steps(4) by blast

lemma demo4_reach: "reach (\<lambda>_. True) (demo4, [(4, True), (2, True)])"
  using demo3_reach demo4_steps unfolding reach_def by (rule rtranclp_trans)

lemma demo_len: "length (ctxs demo3) = 5" "length (ctxs demo4) = 5"
  by code_simp+

lemma demo_derived: "derived demo3 2 4" "derived demo4 2 4"
proof -
  have "above demo3 4 = Some 3" "above demo3 3 = Some 2" "above demo4 4 = Some 3" "above demo4 3 = Some 2"
    by code_simp+
  then show "derived demo3 2 4" "derived demo4 2 4" by (meson derived.intros)+
qed

subsection \<open>Properties\<close>

text \<open>
  C14: In every store a run of the package can reach, every reference is well typed: a context
  embeds an older one, a channel a context holds exists, a child is a younger context that can be
  cancelled and is not, and a pending timer belongs to such a \<open>timerCtx\<close>.
\<close>

theorem contexts_well_typed:
  assumes "reach comparable (w, fs)" "c < length (ctxs w)"
  shows "(\<forall>p. embeds (ctxs w ! c) = Some p \<longrightarrow> p < c) \<and>
    (\<forall>ch. done_of w c = Some ch \<longrightarrow> ch < length (chans w)) \<and>
    (\<forall>k \<in> set (kids_of w c). c < k \<and> k < length (ctxs w) \<and> core (ctxs w ! k) \<noteq> None \<and> err_of w k = None) \<and>
    (\<forall>q \<in> set (armed w). \<exists>k d. ctxs w ! fst q = TimerCtx k True d \<and> cerr k = None)"
proof (intro conjI)
  have i: "ctx_inv {} w" using reach_ok [OF assms(1)] by blast
  note I = ctx_invD [OF i]
  show "\<forall>p. embeds (ctxs w ! c) = Some p \<longrightarrow> p < c" using I(1) assms(2) by (simp add: older_def)
  show "\<forall>ch. done_of w c = Some ch \<longrightarrow> ch < length (chans w)" using chans_okD(2) [OF I(2) assms(2)] by blast
  show "\<forall>k \<in> set (kids_of w c). c < k \<and> k < length (ctxs w) \<and> core (ctxs w ! k) \<noteq> None \<and> err_of w k = None"
  proof
    fix k assume k: "k \<in> set (kids_of w c)"
    then have "core (ctxs w ! c) \<noteq> None" by (cases "core (ctxs w ! c)") (auto simp: kids_of_def)
    then have "live w c"
      using k inv_released(1) [OF i assms(2)] assms(2) by (cases "err_of w c") (auto simp: live_def)
    then have "live w k" "upper w k = Some c" using k I(7) [of c] by (auto simp: live_ok_def)
    then show "c < k \<and> k < length (ctxs w) \<and> core (ctxs w ! k) \<noteq> None \<and> err_of w k = None"
      using upper_less by (auto simp: live_def)
  qed
  show "\<forall>q \<in> set (armed w). \<exists>k d. ctxs w ! fst q = TimerCtx k True d \<and> cerr k = None"
    using I(3) armed_live [OF i] by (fastforce simp: timers_ok_def live_def err_of_def)
qed

lemma contexts_well_typed_witness:
  "4 \<in> set (kids_of demo3 2) \<and> (2 :: nat) < 4 \<and> err_of demo3 4 = None"
proof -
  have "4 \<in> set (kids_of demo3 2)" by code_simp
  then show ?thesis using contexts_well_typed [OF demo3_reach, of 2] demo_len by simp
qed

text \<open>
  C22: In every store that calls and timers can reach, taken one at a time, \<open>WithCancel\<close>, \<open>WithDeadline\<close>,
  \<open>WithTimeout\<close>, every \<open>CancelFunc\<close> given out and every pending timer return without a panic: the
  channel of a context is never closed twice, \<open>cancel\<close> is never called without an error, the recursion over the
  children ends. \<open>WithValue\<close> panics exactly for a nil key and for one that is not comparable. And
  \<open>propagateCancel\<close> never starts a goroutine for the contexts of the package itself.
\<close>

theorem only_bad_keys_panic:
  assumes "reach comparable (w, fs)" "p < length (ctxs w)"
  shows "(\<exists>r. WithCancel p w = Inr r) \<and> (\<exists>r. WithDeadline now p d w = Inr r) \<and> (\<exists>r. WithTimeout now later p dur w = Inr r) \<and>
    ((\<exists>r. WithValue comparable p key val w = Inr r) \<longleftrightarrow> (\<exists>k. key = Some k \<and> comparable k)) \<and>
    (\<forall>f \<in> set fs. \<exists>v. run_CancelFunc f w = Inr v) \<and>
    (\<forall>q \<in> set (armed w). \<exists>v. timer_fires (fst q) w = Inr v) \<and>
    goroutines w = 0 \<and> watchers w = []"
proof -
  have i: "ctx_inv {} w" "\<forall>f \<in> set fs. func_ok w f" using reach_ok [OF assms(1)] by blast+
  have "\<exists>r. WithTimeout now later p dur w = Inr r"
    unfolding WithTimeout_def using WithDeadline_total [OF i(1) assms(2), of later "Time_Add now dur"] by blast
  moreover have "(\<exists>r. WithValue comparable p key val w = Inr r) \<longleftrightarrow> (\<exists>k. key = Some k \<and> comparable k)"
    by (auto simp: WithValue_def split: option.split)
  ultimately show ?thesis
    using WithCancel_total [OF i(1) assms(2)] WithDeadline_total [OF i(1) assms(2), of now d]
      cancel_func_total [OF i(1)] timer_total [OF i(1)] ctx_invD(4,5) [OF i(1)] i(2) by blast
qed

lemma only_bad_keys_panic_witness:
  "(\<exists>v. run_CancelFunc (2, True) demo3 = Inr v) \<and> goroutines demo3 = 0 \<and> (\<exists>r. WithValue (\<lambda>_. True) 4 (Some 5) 6 demo3 = Inr r)"
  using only_bad_keys_panic [OF demo3_reach, of 4] demo_len by simp

text \<open>
  C8: Calling a \<open>CancelFunc\<close> cancels its context and every context derived from it, through
  any chain of \<open>cancelCtx\<close>, \<open>timerCtx\<close> and \<open>valueCtx\<close>, with \<open>Canceled\<close>; a context that already
  had an error keeps it, and the error of every other context is what it was.
\<close>

theorem cancel_reaches_exactly_the_derived:
  assumes "reach comparable (w, fs)" "f \<in> set fs"
  shows "\<exists>v. run_CancelFunc f w = Inr v \<and> length (ctxs v) = length (ctxs w) \<and>
    (\<forall>x < length (ctxs w). ctx_Err v x =
       (if ctx_Err w x = None \<and> derived w (fst f) x then Some Canceled else ctx_Err w x))"
proof -
  have i: "ctx_inv {} w" "func_ok w f" using reach_ok [OF assms(1)] assms(2) by blast+
  then obtain v where v: "run_CancelFunc f w = Inr v" "cancels (fst f) Canceled w v"
    using cancel_func_total by blast
  then show ?thesis using cancels_Err [OF v(2)] i(2) by (auto simp: func_ok_def cancels_def)
qed

lemma cancel_reaches_exactly_the_derived_witness:
  "\<exists>v. run_CancelFunc (2, True) demo3 = Inr v \<and> ctx_Err v 4 = Some Canceled \<and> ctx_Err v 1 = None"
proof -
  obtain v where v: "run_CancelFunc (2, True) demo3 = Inr v"
    "\<forall>x < 5. ctx_Err v x = (if ctx_Err demo3 x = None \<and> derived demo3 2 x then Some Canceled else ctx_Err demo3 x)"
    using cancel_reaches_exactly_the_derived [OF demo3_reach, of "(2, True)"] demo_len by auto
  have "ctx_Err demo3 4 = None" "ctx_Err demo3 1 = None" by code_simp+
  moreover have "\<not> derived demo3 2 1" using derived_le by fastforce
  ultimately show ?thesis using v demo_derived by auto
qed

text \<open>
  C37: In every reachable store a context derived from a cancelled one is cancelled, and
  \<open>Done\<close> returns a closed channel exactly when \<open>Err\<close> is not nil.
\<close>

theorem cancellation_is_inherited:
  assumes "reach comparable (w, fs)" "x < length (ctxs w)"
  shows "(derived w p x \<longrightarrow> ctx_Err w p \<noteq> None \<longrightarrow> ctx_Err w x \<noteq> None) \<and>
    (case ctx_Done w x of (None, v) \<Rightarrow> ctx_Err w x = None
       | (Some ch, v) \<Rightarrow> is_closed v ch \<longleftrightarrow> ctx_Err w x \<noteq> None)"
proof -
  have i: "ctx_inv {} w" using reach_ok [OF assms(1)] by blast
  show ?thesis using inv_Err_derived [OF i assms(2)] inv_Done_Err [OF i assms(2)] by blast
qed

lemma cancellation_is_inherited_witness: "ctx_Err demo4 4 \<noteq> None"
proof -
  have "ctx_Err demo4 2 = Some Canceled" by code_simp
  then show ?thesis using cancellation_is_inherited [OF demo4_reach, of 4 2] demo_derived demo_len by simp
qed

text \<open>
  C38: Once a context has an error it keeps that error through every later call and timer, and
  its deadline and its values never change.
\<close>

theorem errors_and_values_are_final:
  assumes "reach comparable s" "(ctx_step comparable)\<^sup>*\<^sup>* s t" "x < length (ctxs (fst s))"
  shows "(ctx_Err (fst s) x = Some e \<longrightarrow> ctx_Err (fst t) x = Some e) \<and>
    ctx_Deadline (fst t) x = ctx_Deadline (fst s) x \<and> ctx_Value (fst t) x key = ctx_Value (fst s) x key"
proof -
  have ok: "session_ok s" using reach_ok [of comparable "fst s" "snd s"] assms(1) by (cases s) simp
  then have "same_shape (length (ctxs (fst s))) (fst s) (fst t)" using steps_ok [OF assms(2)] by (simp add: extends_def)
  then show ?thesis
    using cancelling.final [OF assms(2) ok assms(3)] Deadline_shape [OF _ assms(3)] Value_shape [OF _ assms(3)] by blast
qed

lemma errors_and_values_are_final_witness: "ctx_Value demo4 4 (Some (UserKey 7)) = UserVal 9"
proof -
  have "ctx_Value demo3 4 (Some (UserKey 7)) = UserVal 9" by code_simp
  then show ?thesis
    using errors_and_values_are_final [OF demo3_reach demo4_steps, of 4 _ "Some (UserKey 7)"] demo_len by simp
qed

text \<open>
  Cancelling a context releases what it held: it is among no context's children, it has no
  children, and no timer of it is pending.
\<close>

theorem cancelled_context_is_released:
  assumes "reach comparable (w, fs)" "c < length (ctxs w)" "core (ctxs w ! c) \<noteq> None" "ctx_Err w c \<noteq> None"
  shows "kids_of w c = [] \<and> c \<notin> fst ` set (armed w) \<and> list_all (\<lambda>p. c \<notin> set (kids_of w p)) [0..<length (ctxs w)]"
proof -
  have i: "ctx_inv {} w" using reach_ok [OF assms(1)] by blast
  have "err_of w c \<noteq> None" using assms(3,4) by (simp add: Err_owner owner_self)
  then show ?thesis using inv_released [OF i assms(2,3)] by (auto simp: list_all_iff)
qed

lemma cancelled_context_is_released_witness: "kids_of demo4 2 = [] \<and> 2 \<notin> fst ` set (armed demo4)"
proof -
  have "core (ctxs demo4 ! 2) \<noteq> None" "ctx_Err demo4 2 \<noteq> None" by code_simp+
  then show ?thesis using cancelled_context_is_released [OF demo4_reach, of 2] demo_len by simp
qed

end
