(* ===== verification/GoThreads.thy ===== *)
theory GoThreads
  imports Prelude
begin

text \<open>
  What the models of \<open>sync\<close> share: 32-bit integers, and goroutines as the list of their program
  points, with the count of those at a point kept up to date when one goroutine moves.
\<close>

definition i32 :: "int \<Rightarrow> int" where
  "i32 x = (x + 2 ^ 31) mod 2 ^ 32 - 2 ^ 31"

lemma i32_id [wrap_simps]: "- (2 ^ 31) \<le> x \<Longrightarrow> x < 2 ^ 31 \<Longrightarrow> i32 x = x"
  by (simp add: i32_def)

lemma i32_range: "- 2147483648 \<le> i32 x" "i32 x < 2147483648"
  by (simp_all add: i32_def pos_mod_bound)

lemma i32_half:
  assumes "0 \<le> x" "x < 2 ^ 32"
  shows "i32 x = (if x < 2 ^ 31 then x else x - 2 ^ 32)"
proof (cases "x < 2 ^ 31")
  case False
  have "(x - 2 ^ 31 + 2 ^ 32) mod 2 ^ 32 = (x - 2 ^ 31) mod 2 ^ 32" by (rule mod_add_self2)
  moreover have "(x - 2 ^ 31) mod 2 ^ 32 = x - 2 ^ 31" using assms False by (intro mod_pos_pos_trivial) auto
  moreover have "x - 2 ^ 31 + 2 ^ 32 = x + 2 ^ 31" by simp
  ultimately have "(x + 2 ^ 31) mod 2 ^ 32 = x - 2 ^ 31" by metis
  then have "i32 x = x - 2 ^ 31 - 2 ^ 31" unfolding i32_def by (rule arg_cong)
  then show ?thesis using False by simp
qed (use assms in \<open>simp add: i32_def\<close>)

lemma i32_eq_0: "0 \<le> x \<Longrightarrow> x < 2 ^ 32 \<Longrightarrow> i32 x = 0 \<longleftrightarrow> x = 0"
  by (auto simp: i32_half)

lemma i32_mod: "i32 (x mod 2 ^ 32) = i32 x"
  by (simp add: i32_def mod_simps)

text \<open>The sum of a weight over the goroutines.\<close>

definition tally :: "('p \<Rightarrow> nat) \<Rightarrow> 'p list \<Rightarrow> nat" where
  "tally f ps = sum_list (map f ps)"

lemma tally_move: "g < length ps \<Longrightarrow> tally f (ps[g := p]) + f (ps ! g) = tally f ps + f p"
proof (induction ps arbitrary: g)
  case (Cons q ps)
  then show ?case by (cases g) (auto simp: tally_def)
qed simp

lemma tally_ge: "g < length ps \<Longrightarrow> f (ps ! g) \<le> tally f ps"
  by (induction ps arbitrary: g) (auto simp: tally_def nth_Cons less_Suc_eq_0_disj intro: trans_le_add2)

lemma tally_pos: "0 < tally f ps \<Longrightarrow> \<exists>g < length ps. 0 < f (ps ! g)"
  by (metis tally_def gr_zeroI in_set_conv_nth list.set_map imageE not_gr_zero sum_list_eq_0_iff)

lemma tally_zero: "tally f ps = 0 \<Longrightarrow> g < length ps \<Longrightarrow> f (ps ! g) = 0"
  using tally_ge [of g ps f] by simp

lemma tally_bound: "(\<And>p. f p \<le> 1) \<Longrightarrow> tally f ps \<le> length ps"
  by (induction ps) (auto simp: tally_def intro: add_le_mono [of _ 1, simplified])

lemma tally_replicate: "tally f (replicate n p) = n * f p"
  by (simp add: tally_def sum_list_replicate)

end
