(* ===== verification/GoWaitGroup.thy ===== *)
theory GoWaitGroup
  imports GoThreads
begin

text \<open>
  \<open>src/src/sync/waitgroup.go\<close>: a \<open>WaitGroup\<close> shared by goroutines. The state is the 64-bit
  word of the code (counter in the high half, waiters in the low half) and the semaphore's
  count; a step is one atomic operation of one goroutine, or what it does with the value it has
  read. The race detector's calls (\<open>race.Enabled\<close>) have no effect on the state.
\<close>

subsection \<open>The operations\<close>

record wait_group =
  wstate :: int
  sema :: nat

definition wg_counter :: "int \<Rightarrow> int" where
  "wg_counter s = i32 (s div 2 ^ 32)"

definition wg_waiters :: "int \<Rightarrow> nat" where
  "wg_waiters s = nat (u32 s)"

datatype wg_panic = NegativeCounter | AddConcurrentWithWait | ReusedBeforeReturn

text \<open>
  Where a goroutine is: outside the calls; in \<open>Add\<close>, with waiters to wake, before it compares
  the state, before it clears it, and with semaphore units left to release; in \<open>Wait\<close>, at the
  head of its loop, before its compare-and-swap, asleep, and woken; or stopped by a panic.
\<close>

datatype wg_pc =
    WgIdle
  | AddCheck int
  | AddClear nat
  | Releasing nat
  | WaitLoad
  | WaitCas int
  | WaitAsleep
  | WaitWoken
  | WgPanic wg_panic

definition Add :: "int \<Rightarrow> wait_group \<Rightarrow> wg_pc \<times> wait_group" where
  "Add delta wg =
     (let state = u64 (wstate wg + u64 (u64 delta * 2 ^ 32));
          v = wg_counter state; w = wg_waiters state
      in (if v < 0 then WgPanic NegativeCounter
          else if w \<noteq> 0 \<and> delta > 0 \<and> v = i32 delta then WgPanic AddConcurrentWithWait
          else if v > 0 \<or> w = 0 then WgIdle
          else AddCheck state,
          wg\<lparr>wstate := state\<rparr>))"

definition Add_check :: "int \<Rightarrow> wait_group \<Rightarrow> wg_pc" where
  "Add_check state wg = (if wstate wg \<noteq> state then WgPanic AddConcurrentWithWait else AddClear (wg_waiters state))"

definition Add_clear :: "nat \<Rightarrow> wait_group \<Rightarrow> wg_pc \<times> wait_group" where
  "Add_clear w wg = (Releasing w, wg\<lparr>wstate := 0\<rparr>)"

fun Add_release :: "nat \<Rightarrow> wait_group \<Rightarrow> wg_pc \<times> wait_group" where
  "Add_release 0 wg = (WgIdle, wg)"
| "Add_release (Suc w) wg = (Releasing w, wg\<lparr>sema := sema wg + 1\<rparr>)"

definition wg_Done :: "wait_group \<Rightarrow> wg_pc \<times> wait_group" where
  "wg_Done wg = Add (- 1) wg"

definition Wait_load :: "wait_group \<Rightarrow> wg_pc" where
  "Wait_load wg = (if wg_counter (wstate wg) = 0 then WgIdle else WaitCas (wstate wg))"

definition Wait_cas :: "int \<Rightarrow> wait_group \<Rightarrow> wg_pc \<times> wait_group" where
  "Wait_cas state wg =
     (if wstate wg = state then (WaitAsleep, wg\<lparr>wstate := u64 (state + 1)\<rparr>) else (WaitLoad, wg))"

definition Wait_return :: "wait_group \<Rightarrow> wg_pc" where
  "Wait_return wg = (if wstate wg \<noteq> 0 then WgPanic ReusedBeforeReturn else WgIdle)"

text \<open>
  One step of goroutine \<open>g\<close>, among \<open>ps\<close>. The semaphore is the runtime's: \<open>runtime_Semrelease\<close>
  adds a unit, \<open>runtime_Semacquire\<close> returns when it has taken one.
\<close>

inductive wg_step :: "wait_group \<times> wg_pc list \<Rightarrow> (nat \<times> int option) \<Rightarrow> wait_group \<times> wg_pc list \<Rightarrow> bool" where
  Add_step:
    "g < length ps \<Longrightarrow> ps ! g = WgIdle \<Longrightarrow> Add delta wg = (p, wg') \<Longrightarrow>
     wg_step (wg, ps) (g, Some delta) (wg', ps[g := p])"
| check_step:
    "g < length ps \<Longrightarrow> ps ! g = AddCheck s \<Longrightarrow> wg_step (wg, ps) (g, None) (wg, ps[g := Add_check s wg])"
| clear_step:
    "g < length ps \<Longrightarrow> ps ! g = AddClear w \<Longrightarrow> Add_clear w wg = (p, wg') \<Longrightarrow>
     wg_step (wg, ps) (g, None) (wg', ps[g := p])"
| release_step:
    "g < length ps \<Longrightarrow> ps ! g = Releasing w \<Longrightarrow> Add_release w wg = (p, wg') \<Longrightarrow>
     wg_step (wg, ps) (g, None) (wg', ps[g := p])"
| Wait_step: "g < length ps \<Longrightarrow> ps ! g = WgIdle \<Longrightarrow> wg_step (wg, ps) (g, None) (wg, ps[g := WaitLoad])"
| load_step:
    "g < length ps \<Longrightarrow> ps ! g = WaitLoad \<Longrightarrow> wg_step (wg, ps) (g, None) (wg, ps[g := Wait_load wg])"
| cas_step:
    "g < length ps \<Longrightarrow> ps ! g = WaitCas s \<Longrightarrow> Wait_cas s wg = (p, wg') \<Longrightarrow>
     wg_step (wg, ps) (g, None) (wg', ps[g := p])"
| acquire_step:
    "g < length ps \<Longrightarrow> ps ! g = WaitAsleep \<Longrightarrow> 0 < sema wg \<Longrightarrow>
     wg_step (wg, ps) (g, None) (wg\<lparr>sema := sema wg - 1\<rparr>, ps[g := WaitWoken])"
| return_step:
    "g < length ps \<Longrightarrow> ps ! g = WaitWoken \<Longrightarrow> wg_step (wg, ps) (g, None) (wg, ps[g := Wait_return wg])"

definition wg_init :: wait_group where
  "wg_init = \<lparr>wstate = 0, sema = 0\<rparr>"

text \<open>
  Runs of \<open>n\<close> goroutines in which every \<open>Add\<close> has a delta that \<open>ok\<close> allows, with the sum of
  the deltas so far.
\<close>

fun allowed :: "(int \<Rightarrow> bool) \<Rightarrow> int option \<Rightarrow> bool" where
  "allowed ok None = True"
| "allowed ok (Some delta) = ok delta"

inductive wg_run :: "(int \<Rightarrow> bool) \<Rightarrow> nat \<Rightarrow> wait_group \<times> wg_pc list \<Rightarrow> int \<Rightarrow> bool" for ok n where
  run_init: "wg_run ok n (wg_init, replicate n WgIdle) 0"
| run_step:
    "wg_run ok n s tot \<Longrightarrow> wg_step s (g, d) t \<Longrightarrow> allowed ok d \<Longrightarrow>
     wg_run ok n t (tot + (case d of Some delta \<Rightarrow> delta | None \<Rightarrow> 0))"

text \<open>The same step as a function: the goroutine and the delta decide it.\<close>

definition wg_next :: "wait_group \<times> wg_pc list \<Rightarrow> nat \<times> int option \<Rightarrow> (wait_group \<times> wg_pc list) option" where
  "wg_next s l =
     (case (s, l) of ((wg, ps), (g, d)) \<Rightarrow>
        if length ps \<le> g then None
        else case (ps ! g, d) of
          (WgIdle, Some delta) \<Rightarrow> (case Add delta wg of (p, wg') \<Rightarrow> Some (wg', ps[g := p]))
        | (WgIdle, None) \<Rightarrow> Some (wg, ps[g := WaitLoad])
        | (AddCheck st, None) \<Rightarrow> Some (wg, ps[g := Add_check st wg])
        | (AddClear w, None) \<Rightarrow> (case Add_clear w wg of (p, wg') \<Rightarrow> Some (wg', ps[g := p]))
        | (Releasing w, None) \<Rightarrow> (case Add_release w wg of (p, wg') \<Rightarrow> Some (wg', ps[g := p]))
        | (WaitLoad, None) \<Rightarrow> Some (wg, ps[g := Wait_load wg])
        | (WaitCas st, None) \<Rightarrow> (case Wait_cas st wg of (p, wg') \<Rightarrow> Some (wg', ps[g := p]))
        | (WaitAsleep, None) \<Rightarrow>
            if 0 < sema wg then Some (wg\<lparr>sema := sema wg - 1\<rparr>, ps[g := WaitWoken]) else None
        | (WaitWoken, None) \<Rightarrow> Some (wg, ps[g := Wait_return wg])
        | _ \<Rightarrow> None)"

lemma wg_next_step: "wg_next s (g, d) = Some t \<Longrightarrow> wg_step s (g, d) t"
  by (cases s; cases t)
    (auto simp: wg_next_def not_le split: if_splits prod.splits wg_pc.splits option.splits
      intro: wg_step.intros acquire_step [unfolded One_nat_def])

subsection \<open>The two halves of the state\<close>

definition pack :: "int \<Rightarrow> nat \<Rightarrow> int" where
  "pack c w = c * 2 ^ 32 + int w"

lemma pack_halves:
  assumes "w < 2 ^ 32" "0 \<le> c" "c < 2 ^ 32"
  shows "wg_counter (pack c w) = i32 c" "wg_waiters (pack c w) = w" "0 \<le> pack c w" "pack c w < 2 ^ 64"
proof -
  have w: "0 \<le> int w" "int w < 4294967296" using assms(1) by simp_all
  show "wg_counter (pack c w) = i32 c" using w by (simp add: wg_counter_def pack_def)
  show "wg_waiters (pack c w) = w" using w by (simp add: wg_waiters_def pack_def u32_def)
  show "0 \<le> pack c w" "pack c w < 2 ^ 64" using w assms by (simp_all add: pack_def)
qed

lemma unpack:
  assumes "0 \<le> s" "s < 2 ^ 64"
  shows "s = pack (s div 2 ^ 32) (wg_waiters s)" "0 \<le> s div 2 ^ 32" "s div 2 ^ 32 < 2 ^ 32" "wg_waiters s < 2 ^ 32"
proof -
  have m: "0 \<le> s mod 4294967296" "s mod 4294967296 < 4294967296" by simp_all
  show "s = pack (s div 2 ^ 32) (wg_waiters s)" using m by (simp add: pack_def wg_waiters_def u32_def)
  show "0 \<le> s div 2 ^ 32" using assms by simp
  show "s div 2 ^ 32 < 2 ^ 32" using assms by (simp add: div_less_iff_less_mult)
  show "wg_waiters s < 2 ^ 32" using m by (simp add: wg_waiters_def u32_def)
qed

lemma pack_add:
  assumes "w < 2 ^ 32"
  shows "u64 (pack c w + u64 (u64 d * 2 ^ 32)) = pack ((c + d) mod 2 ^ 32) w"
proof -
  have "u64 (pack c w + u64 (u64 d * 2 ^ 32)) = (pack c w + d * 2 ^ 32) mod 2 ^ 64"
    by (simp add: u64_def mod_simps)
  also have "pack c w + d * 2 ^ 32 = (c + d) * 2 ^ 32 + int w" by (simp add: pack_def algebra_simps)
  also have "\<dots> mod 2 ^ 64 = pack ((c + d) mod 2 ^ 32) w"
  proof -
    have "((c + d) * 2 ^ 32 + int w) mod (2 ^ 32 * 2 ^ 32) =
        2 ^ 32 * (((c + d) * 2 ^ 32 + int w) div 2 ^ 32 mod 2 ^ 32) + ((c + d) * 2 ^ 32 + int w) mod 2 ^ 32"
      by (rule zmod_zmult2_eq) simp
    also have "((c + d) * 2 ^ 32 + int w) div 2 ^ 32 = c + d" using assms by simp
    also have "((c + d) * 2 ^ 32 + int w) mod 2 ^ 32 = int w"
      using assms mod_mult_self3 [of "c + d" "2 ^ 32" "int w"] by simp
    finally show ?thesis by (simp add: pack_def)
  qed
  finally show ?thesis .
qed


lemma pack_succ:
  assumes "w + 1 < 2 ^ 32" "0 \<le> c" "c < 2 ^ 32"
  shows "u64 (pack c w + 1) = pack c (w + 1)"
proof -
  have "pack c w + 1 = pack c (w + 1)" by (simp add: pack_def)
  then show ?thesis using pack_halves(3,4) [OF assms] by (simp add: u64_id)
qed

lemma Add_state:
  assumes "0 \<le> wstate wg" "wstate wg < 2 ^ 64" "Add d wg = (p, wg')"
  shows "wg_counter (wstate wg') = i32 (wstate wg div 2 ^ 32 + d)" "wg_waiters (wstate wg') = wg_waiters (wstate wg)"
    "0 \<le> wstate wg'" "wstate wg' < 2 ^ 64" "sema wg' = sema wg"
proof -
  let ?c = "wstate wg div 2 ^ 32" and ?w = "wg_waiters (wstate wg)"
  note u = unpack [OF assms(1,2)]
  have "wstate wg' = u64 (wstate wg + u64 (u64 d * 2 ^ 32))" using assms(3) by (auto simp: Add_def Let_def)
  also have "\<dots> = pack ((?c + d) mod 2 ^ 32) ?w" using pack_add [OF u(4), of ?c d] u(1) by simp
  finally have st: "wstate wg' = pack ((?c + d) mod 2 ^ 32) ?w" .
  have m: "0 \<le> (?c + d) mod 2 ^ 32" "(?c + d) mod 2 ^ 32 < 2 ^ 32" by simp_all
  show "wg_counter (wstate wg') = i32 (?c + d)" "wg_waiters (wstate wg') = ?w" "0 \<le> wstate wg'" "wstate wg' < 2 ^ 64"
    using pack_halves [OF u(4) m] i32_mod [of "?c + d"] unfolding st by simp_all
  show "sema wg' = sema wg" using assms(3) by (auto simp: Add_def Let_def)
qed

lemma counter_half:
  assumes "0 \<le> s" "s < 2 ^ 64"
  shows "wg_counter s = 0 \<longleftrightarrow> s div 2 ^ 32 = 0"
  using unpack(2,3) [OF assms] by (simp add: wg_counter_def i32_eq_0)

subsection \<open>Waiters, wake-ups and the semaphore\<close>

fun asleep :: "wg_pc \<Rightarrow> nat" where
  "asleep WaitAsleep = 1" | "asleep _ = 0"

lemma asleep_le: "asleep p \<le> 1"
  by (cases p) simp_all

fun waking :: "wg_pc \<Rightarrow> nat" where
  "waking (AddCheck _) = 1" | "waking (AddClear _) = 1" | "waking _ = 0"

fun owed :: "wg_pc \<Rightarrow> nat" where
  "owed (Releasing w) = w" | "owed _ = 0"

fun wg_pc_ok :: "int \<Rightarrow> wg_pc \<Rightarrow> bool" where
  "wg_pc_ok st (AddCheck s) \<longleftrightarrow> s = st"
| "wg_pc_ok st (AddClear w) \<longleftrightarrow> w = wg_waiters st"
| "wg_pc_ok st (WaitCas s) \<longleftrightarrow> wg_counter s \<noteq> 0"
| "wg_pc_ok st _ \<longleftrightarrow> True"

fun panicked :: "wg_pc \<Rightarrow> bool" where
  "panicked (WgPanic _) = True" | "panicked _ = False"

text \<open>
  The deltas of the contract: within 32 bits and not zero. What breaks for zero is shown below.
\<close>

definition delta_ok :: "int \<Rightarrow> bool" where
  "delta_ok d \<longleftrightarrow> d \<noteq> 0 \<and> - (2 ^ 31) \<le> d \<and> d < 2 ^ 31"

text \<open>
  Every goroutine asleep in \<open>Wait\<close> is accounted for: in the waiters of the state, or by a unit of
  the semaphore, released or still to be; and as soon as the counter is zero with waiters left,
  exactly one goroutine is on its way to wake them.
\<close>

definition wg_inv :: "wait_group \<Rightarrow> wg_pc list \<Rightarrow> bool" where
  "wg_inv wg ps \<longleftrightarrow>
     0 \<le> wstate wg \<and> wstate wg < 2 ^ 64 \<and>
     tally asleep ps = wg_waiters (wstate wg) + tally owed ps + sema wg \<and>
     tally waking ps = (if wg_counter (wstate wg) = 0 \<and> wg_waiters (wstate wg) \<noteq> 0 then 1 else 0) \<and>
     (\<forall>g < length ps. wg_pc_ok (wstate wg) (ps ! g))"

lemma wg_pc_ok_calm: "waking p = 0 \<Longrightarrow> wg_pc_ok st p \<Longrightarrow> wg_pc_ok st' p"
  by (cases p) simp_all

lemma others_calm:
  assumes "tally waking ps \<le> waking (ps ! g)" "g < length ps" "h < length ps" "h \<noteq> g"
  shows "waking (ps ! h) = 0"
proof -
  have "tally waking (ps[g := WgIdle]) + waking (ps ! g) = tally waking ps" using tally_move [OF assms(2), of waking WgIdle] by simp
  then have "tally waking (ps[g := WgIdle]) = 0" using assms(1) by simp
  then show ?thesis using tally_zero [of waking "ps[g := WgIdle]" h] assms by simp
qed

text \<open>Moving one goroutine: the sums change by its weights, the others must be left right.\<close>

lemma wg_inv_move:
  assumes "g < length ps"
    and "0 \<le> wstate wg'" "wstate wg' < 2 ^ 64"
    and "tally asleep ps + asleep p + owed (ps ! g) =
      wg_waiters (wstate wg') + tally owed ps + owed p + sema wg' + asleep (ps ! g)"
    and "tally waking ps + waking p =
      (if wg_counter (wstate wg') = 0 \<and> wg_waiters (wstate wg') \<noteq> 0 then 1 else 0) + waking (ps ! g)"
    and "wg_pc_ok (wstate wg') p" "\<And>h. h < length ps \<Longrightarrow> h \<noteq> g \<Longrightarrow> wg_pc_ok (wstate wg') (ps ! h)"
  shows "wg_inv wg' (ps[g := p])"
  using assms tally_move [OF assms(1), of asleep p] tally_move [OF assms(1), of waking p] tally_move [OF assms(1), of owed p]
  by (auto simp: wg_inv_def nth_list_update)

lemma wg_step_inv:
  assumes step: "wg_step (wg, ps) (g, d) (wg', ps')" and inv: "wg_inv wg ps"
    and d: "allowed delta_ok d" and n: "length ps < 2 ^ 32" and calm: "\<not> list_ex panicked ps'"
  shows "wg_inv wg' ps'"
proof -
  from inv have I: "0 \<le> wstate wg" "wstate wg < 2 ^ 64"
    and sl: "tally asleep ps = wg_waiters (wstate wg) + tally owed ps + sema wg"
    and wk: "tally waking ps = (if wg_counter (wstate wg) = 0 \<and> wg_waiters (wstate wg) \<noteq> 0 then 1 else 0)"
    and ok: "\<And>h. h < length ps \<Longrightarrow> wg_pc_ok (wstate wg) (ps ! h)" by (simp_all add: wg_inv_def)
  have np: "\<not> panicked (ps' ! h)" if "h < length ps'" for h using calm that by (simp add: list_ex_length)
  from step show ?thesis
  proof cases
    case (Add_step delta p)
    let ?c = "wg_counter (wstate wg)" and ?w = "wg_waiters (wstate wg)"
    note A = Add_state [OF I Add_step(5)]
    have p: "\<not> panicked p" using np [of g] Add_step by simp
    have dl: "delta \<noteq> 0" "i32 delta = delta" using d Add_step by (auto simp: delta_ok_def i32_id)
    have st: "p = (if wg_counter (wstate wg') > 0 \<or> ?w = 0 then WgIdle else AddCheck (wstate wg'))"
      "0 \<le> wg_counter (wstate wg')" "\<not> (?w \<noteq> 0 \<and> 0 < delta \<and> wg_counter (wstate wg') = i32 delta)"
      using Add_step(5) p A(2) by (auto simp: Add_def Let_def split: if_splits)
    have "\<not> (?c = 0 \<and> ?w \<noteq> 0)"
    proof
      assume z: "?c = 0 \<and> ?w \<noteq> 0"
      then have "wg_counter (wstate wg') = delta" using A(1) counter_half [OF I] dl by simp
      then show False using st(2,3) z dl by auto
    qed
    then have w0: "tally waking ps = 0" using wk by simp
    have "ps' = ps[g := p]" using Add_step by simp
    show ?thesis unfolding \<open>ps' = ps[g := p]\<close>
    proof (rule wg_inv_move [OF Add_step(3)])
      show "tally waking ps + waking p =
          (if wg_counter (wstate wg') = 0 \<and> wg_waiters (wstate wg') \<noteq> 0 then 1 else 0) + waking (ps ! g)"
        using w0 st Add_step A(2) by auto
      show "wg_pc_ok (wstate wg') (ps ! h)" if "h < length ps" "h \<noteq> g" for h
        using ok that tally_zero [OF w0] wg_pc_ok_calm by blast
    qed (use A sl st Add_step in auto)
  next
    case (check_step s)
    then have "s = wstate wg" using ok [of g] by simp
    then have p: "Add_check s wg = AddClear (wg_waiters (wstate wg))" by (simp add: Add_check_def)
    show ?thesis unfolding check_step p
      by (rule wg_inv_move [OF check_step(4)]) (use check_step I sl wk ok in simp_all)
  next
    case (clear_step w p)
    then have w: "w = wg_waiters (wstate wg)" "p = Releasing w" "wg' = wg\<lparr>wstate := 0\<rparr>"
      using ok [of g] by (auto simp: Add_clear_def)
    have t: "tally waking ps = 1" using tally_ge [OF clear_step(3), of waking] wk clear_step by (simp split: if_splits)
    show ?thesis unfolding clear_step w(2)
    proof (rule wg_inv_move [OF clear_step(3)])
      show "wg_pc_ok (wstate wg') (ps ! h)" if "h < length ps" "h \<noteq> g" for h
        using ok [OF that(1)] others_calm [OF _ clear_step(3) that] t clear_step(4) wg_pc_ok_calm by simp
    qed (use w sl t clear_step in \<open>auto simp: wg_waiters_def wg_counter_def u32_def\<close>)
  next
    case (release_step w p)
    show ?thesis
    proof (cases w)
      case 0
      then have p: "p = WgIdle" "wg' = wg" using release_step by auto
      have "ps' = ps[g := p]" using release_step by simp
      show ?thesis unfolding \<open>ps' = ps[g := p]\<close> p(2)
        by (rule wg_inv_move [OF release_step(3)]) (use release_step 0 p I sl wk ok in auto)
    next
      case (Suc n)
      then have p: "p = Releasing n" "wg' = wg\<lparr>sema := sema wg + 1\<rparr>" using release_step by auto
      have "ps' = ps[g := p]" using release_step by simp
      show ?thesis unfolding \<open>ps' = ps[g := p]\<close> p(2)
        by (rule wg_inv_move [OF release_step(3)]) (use release_step Suc p I sl wk ok in auto)
    qed
  next
    case Wait_step
    show ?thesis unfolding Wait_step
      by (rule wg_inv_move [OF Wait_step(4)]) (use Wait_step I sl wk ok in simp_all)
  next
    case load_step
    show ?thesis unfolding load_step
      by (rule wg_inv_move [OF load_step(4)]) (use load_step I sl wk ok in \<open>simp_all add: Wait_load_def\<close>)
  next
    case (cas_step s p)
    show ?thesis
    proof (cases "wstate wg = s")
      case False
      then have p: "p = WaitLoad" "wg' = wg" using cas_step by (auto simp: Wait_cas_def)
      show ?thesis unfolding cas_step p
        by (rule wg_inv_move [OF cas_step(3)]) (use cas_step p I sl wk ok in simp_all)
    next
      case True
      let ?c = "wstate wg div 2 ^ 32" and ?w = "wg_waiters (wstate wg)"
      have p: "p = WaitAsleep" "wg' = wg\<lparr>wstate := u64 (wstate wg + 1)\<rparr>" using True cas_step by (auto simp: Wait_cas_def)
      have cn: "wg_counter (wstate wg) \<noteq> 0" using ok [OF cas_step(3)] cas_step True by simp
      have "tally asleep (ps[g := WaitAsleep]) \<le> length ps"
        using tally_bound [of asleep "ps[g := WaitAsleep]"] asleep_le by simp
      then have "tally asleep ps + 1 \<le> length ps" using tally_move [OF cas_step(3), of asleep WaitAsleep] cas_step by simp
      then have b: "?w + 1 < 2 ^ 32" using sl n by simp
      note u = unpack [OF I]
      have st: "wstate wg' = pack ?c (?w + 1)" using p pack_succ [OF b u(2,3)] u(1) by simp
      note h = pack_halves [OF b u(2,3)]
      have w0: "tally waking ps = 0" using wk cn by simp
      have c': "wg_counter (wstate wg') \<noteq> 0" unfolding st h(1) using cn by (simp add: wg_counter_def)
      show ?thesis unfolding cas_step p(1)
      proof (rule wg_inv_move [OF cas_step(3)])
        show "wg_pc_ok (wstate wg') (ps ! h)" if "h < length ps" "h \<noteq> g" for h
          using ok that tally_zero [OF w0] wg_pc_ok_calm by blast
        show "0 \<le> wstate wg'" "wstate wg' < 2 ^ 64" unfolding st using h by simp_all
        show "tally asleep ps + asleep WaitAsleep + owed (ps ! g) =
            wg_waiters (wstate wg') + tally owed ps + owed WaitAsleep + sema wg' + asleep (ps ! g)"
          using sl cas_step p(2) unfolding st h(2) by simp
      qed (use c' w0 cas_step in simp_all)
    qed
  next
    case acquire_step
    show ?thesis unfolding acquire_step
      by (rule wg_inv_move [OF acquire_step(4)]) (use acquire_step I sl wk ok in simp_all)
  next
    case return_step
    have "\<not> panicked (Wait_return wg)" using np [of g] return_step by simp
    then have p: "Wait_return wg = WgIdle" by (simp add: Wait_return_def split: if_splits)
    show ?thesis unfolding return_step p
      by (rule wg_inv_move [OF return_step(4)]) (use return_step I sl wk ok in simp_all)
  qed
qed


text \<open>A panic is never undone: a run without one has had none.\<close>

lemma wg_step_panicked:
  assumes "wg_step (wg, ps) l (wg', ps')" "list_ex panicked ps"
  shows "list_ex panicked ps'" "length ps' = length ps"
proof -
  obtain h where h: "h < length ps" "panicked (ps ! h)" using assms(2) by (auto simp: list_ex_length)
  have "\<exists>g p. ps' = ps[g := p] \<and> \<not> panicked (ps ! g)" using assms(1) by cases auto
  then obtain g p where ps': "ps' = ps[g := p]" "\<not> panicked (ps ! g)" by blast
  then have "ps' ! h = ps ! h" using h by (cases "h = g") auto
  then show "list_ex panicked ps'" using h ps' by (auto simp: list_ex_length)
  show "length ps' = length ps" using ps' by simp
qed

lemma wg_step_length: "wg_step (wg, ps) l (wg', ps') \<Longrightarrow> length ps' = length ps"
  by (erule wg_step.cases) auto

text \<open>The counter is the sum of the deltas, as long as no half of it is lost.\<close>

lemma wg_step_total:
  assumes step: "wg_step (wg, ps) (g, d) (wg', ps')" and inv: "wg_inv wg ps" and n: "length ps < 2 ^ 32"
    and t: "wg_counter (wstate wg) = i32 tot"
  shows "wg_counter (wstate wg') = i32 (tot + (case d of Some delta \<Rightarrow> delta | None \<Rightarrow> 0))"
proof -
  from inv have I: "0 \<le> wstate wg" "wstate wg < 2 ^ 64"
    and sl: "tally asleep ps = wg_waiters (wstate wg) + tally owed ps + sema wg"
    and wk: "tally waking ps = (if wg_counter (wstate wg) = 0 \<and> wg_waiters (wstate wg) \<noteq> 0 then 1 else 0)"
    and ok: "\<And>h. h < length ps \<Longrightarrow> wg_pc_ok (wstate wg) (ps ! h)" by (simp_all add: wg_inv_def)
  from step show ?thesis
  proof cases
    case (Add_step delta p)
    have "i32 (wstate wg div 2 ^ 32 + delta) = i32 (tot + delta)"
    proof -
      have m: "(wstate wg div 2 ^ 32 + 2 ^ 31) mod 2 ^ 32 = (tot + 2 ^ 31) mod 2 ^ 32"
        using t by (simp add: wg_counter_def i32_def)
      have "(wstate wg div 2 ^ 32 + 2 ^ 31 + delta) mod 2 ^ 32 = (tot + 2 ^ 31 + delta) mod 2 ^ 32"
        by (rule mod_add_cong [OF m refl])
      moreover have "wstate wg div 2 ^ 32 + 2 ^ 31 + delta = wstate wg div 2 ^ 32 + delta + 2 ^ 31"
        "tot + 2 ^ 31 + delta = tot + delta + 2 ^ 31" by simp_all
      ultimately show ?thesis unfolding i32_def by metis
    qed
    then show ?thesis using Add_state(1) [OF I Add_step(5)] Add_step by simp
  next
    case (clear_step w p)
    have "0 < tally waking ps" using tally_ge [OF clear_step(3), of waking] clear_step by simp
    then have "wg_counter (wstate wg) = 0" using wk by (simp split: if_splits)
    then show ?thesis using t clear_step by (auto simp: Add_clear_def wg_counter_def i32_def)
  next
    case (release_step w p)
    then show ?thesis using t by (cases w) auto
  next
    case (cas_step s p)
    show ?thesis
    proof (cases "wstate wg = s")
      case True
      have "tally asleep (ps[g := WaitAsleep]) \<le> length ps"
        using tally_bound [of asleep "ps[g := WaitAsleep]"] asleep_le by simp
      then have "tally asleep ps + 1 \<le> length ps" using tally_move [OF cas_step(3), of asleep WaitAsleep] cas_step by simp
      then have b: "wg_waiters (wstate wg) + 1 < 2 ^ 32" using sl n by simp
      note u = unpack [OF I]
      have "wstate wg' = pack (wstate wg div 2 ^ 32) (wg_waiters (wstate wg) + 1)"
        using True cas_step pack_succ [OF b u(2,3)] u(1) by (auto simp: Wait_cas_def)
      then have "wg_counter (wstate wg') = wg_counter (wstate wg)"
        using pack_halves(1) [OF b u(2,3)] by (simp add: wg_counter_def)
      then show ?thesis using t cas_step by simp
    qed (use t cas_step in \<open>auto simp: Wait_cas_def\<close>)
  qed (use t in auto)
qed

lemma wg_run_inv:
  assumes "wg_run delta_ok n s tot" "n < 2 ^ 32"
  shows "length (snd s) = n \<and> (\<not> list_ex panicked (snd s) \<longrightarrow>
    wg_inv (fst s) (snd s) \<and> wg_counter (wstate (fst s)) = i32 tot)"
  using assms(1)
proof (induction rule: wg_run.induct)
  case run_init
  show ?case
    by (auto simp: wg_init_def wg_inv_def tally_replicate wg_counter_def wg_waiters_def u32_def i32_def)
next
  case (run_step s tot g d t)
  obtain wg ps wg' ps' where st: "s = (wg, ps)" "t = (wg', ps')" by fastforce
  have step: "wg_step (wg, ps) (g, d) (wg', ps')" using run_step.hyps(2) st by simp
  have len: "length ps' = length ps" by (rule wg_step_length [OF step])
  have "wg_inv wg' ps' \<and> wg_counter (wstate wg') = i32 (tot + (case d of Some delta \<Rightarrow> delta | None \<Rightarrow> 0))"
    if "\<not> list_ex panicked ps'"
  proof -
    have "\<not> list_ex panicked ps" using wg_step_panicked(1) [OF step] that by blast
    then have I: "wg_inv wg ps" "wg_counter (wstate wg) = i32 tot" "length ps < 2 ^ 32"
      using run_step.IH st assms(2) by simp_all
    show ?thesis using wg_step_inv [OF step I(1) run_step.hyps(3) I(3) that] wg_step_total [OF step I(1,3,2)] by blast
  qed
  then show ?case using run_step.IH st len by simp
qed

subsection \<open>Properties\<close>

text \<open>A run given by the goroutines and deltas of its steps, for the witnesses.\<close>

fun wg_steps :: "(nat \<times> int option) list \<Rightarrow> wait_group \<times> wg_pc list \<Rightarrow> (wait_group \<times> wg_pc list) option" where
  "wg_steps [] s = Some s"
| "wg_steps (l # ls) s = (case wg_next s l of Some t \<Rightarrow> wg_steps ls t | None \<Rightarrow> None)"

fun total_of :: "(nat \<times> int option) list \<Rightarrow> int" where
  "total_of [] = 0"
| "total_of ((g, d) # ls) = (case d of Some delta \<Rightarrow> delta | None \<Rightarrow> 0) + total_of ls"

lemma wg_steps_run:
  "wg_run ok n s tot \<Longrightarrow> wg_steps ls s = Some t \<Longrightarrow> list_all (\<lambda>l. allowed ok (snd l)) ls \<Longrightarrow>
   wg_run ok n t (tot + total_of ls)"
proof (induction ls arbitrary: s tot)
  case (Cons l ls)
  obtain g d where l: "l = (g, d)" by fastforce
  from Cons.prems(2) obtain u where u: "wg_next s l = Some u" "wg_steps ls u = Some t"
    by (auto split: option.splits)
  have "wg_run ok n u (tot + (case d of Some delta \<Rightarrow> delta | None \<Rightarrow> 0))"
    using run_step [OF Cons.prems(1) wg_next_step, of g d u] u l Cons.prems(3) by simp
  from Cons.IH [OF this u(2)] show ?case using Cons.prems(3) l by (simp add: algebra_simps)
qed simp

definition wg_demo :: "(nat \<times> int option) list" where
  "wg_demo = [(0, Some 1), (1, None), (1, None), (1, None), (0, Some (- 1))]"

definition wg_demo_state :: "wait_group \<times> wg_pc list" where
  "wg_demo_state = (\<lparr>wstate = 1, sema = 0\<rparr>, [AddCheck 1, WaitAsleep])"

lemma wg_demo_run: "wg_run delta_ok 2 wg_demo_state 0"
proof -
  have "wg_steps wg_demo (wg_init, replicate 2 WgIdle) = Some wg_demo_state" by code_simp
  moreover have "list_all (\<lambda>l. allowed delta_ok (snd l)) wg_demo" by code_simp
  moreover have "total_of wg_demo = 0" by code_simp
  ultimately show ?thesis using wg_steps_run [OF run_init, where n = 2 and ls = wg_demo and ok = delta_ok] by simp
qed

text \<open>
  C13: No wake-up of a \<open>WaitGroup\<close> is lost, as long as \<open>Add\<close> is called with deltas other than zero that fit 32
  bits, by fewer than \<open>2 ^ 32\<close> goroutines. In every such run without a panic, the goroutines asleep in
  \<open>Wait\<close> are exactly those counted in the state plus the semaphore's units, released and still
  owed; so when the counter is zero and one is asleep, a unit is there for it to take, or a
  goroutine in \<open>Add\<close> is about to release one. A delta of zero is treated below.
\<close>

theorem no_wakeup_is_lost:
  assumes "wg_run delta_ok n (wg, ps) tot" "n < 2 ^ 32" "\<not> list_ex panicked ps"
  shows "tally asleep ps = wg_waiters (wstate wg) + tally owed ps + sema wg \<and>
    (wg_counter (wstate wg) = 0 \<longrightarrow> 0 < tally asleep ps \<longrightarrow>
      0 < sema wg \<or> (\<exists>g < length ps. 0 < waking (ps ! g) \<or> 0 < owed (ps ! g)))"
proof -
  have inv: "wg_inv wg ps" using wg_run_inv [OF assms(1,2)] assms(3) by simp
  then have sl: "tally asleep ps = wg_waiters (wstate wg) + tally owed ps + sema wg"
    and wk: "tally waking ps = (if wg_counter (wstate wg) = 0 \<and> wg_waiters (wstate wg) \<noteq> 0 then 1 else 0)"
    by (simp_all add: wg_inv_def)
  have "0 < sema wg \<or> (\<exists>g < length ps. 0 < waking (ps ! g) \<or> 0 < owed (ps ! g))"
    if "wg_counter (wstate wg) = 0" "0 < tally asleep ps"
  proof -
    from that sl wk consider "0 < sema wg" | "0 < tally owed ps" | "0 < tally waking ps" by fastforce
    then show ?thesis using tally_pos by cases blast+
  qed
  with sl show ?thesis by blast
qed

lemma no_wakeup_is_lost_witness: "tally asleep [AddCheck 1, WaitAsleep] = wg_waiters 1"
proof -
  have "\<not> list_ex panicked [AddCheck 1, WaitAsleep]" by simp
  then show ?thesis
    using no_wakeup_is_lost [of 2 "\<lparr>wstate = 1, sema = 0\<rparr>" "[AddCheck 1, WaitAsleep]" 0] wg_demo_run
    by (simp add: wg_demo_state_def tally_def)
qed

text \<open>
  \<open>Wait\<close> returns only when every unit added has been taken away: in a run without a panic
  in which the sum of the deltas stays below \<open>2 ^ 31\<close>, a step that ends a \<open>Wait\<close> is one at
  which that sum is zero.
\<close>

theorem Wait_returns_at_zero:
  assumes "wg_run delta_ok n (wg, ps) tot" "n < 2 ^ 32" "\<not> list_ex panicked ps"
    "- (2 ^ 31) \<le> tot" "tot < 2 ^ 31"
    "wg_step (wg, ps) (g, None) (wg', ps')" "ps ! g \<in> {WaitLoad, WaitWoken}" "ps' ! g = WgIdle" "g < length ps"
  shows "tot = 0"
proof -
  have c: "wg_counter (wstate wg) = tot"
    using wg_run_inv [OF assms(1,2)] assms(3-5) by (simp add: i32_id)
  from assms(6) have "wg_counter (wstate wg) = 0"
  proof cases
    case load_step
    then show ?thesis using assms(8,9) by (simp add: Wait_load_def split: if_splits)
  next
    case return_step
    then show ?thesis using assms(8,9) by (simp add: Wait_return_def wg_counter_def i32_def split: if_splits)
  qed (use assms(7-9) in auto)
  then show ?thesis using c by simp
qed

definition wg_woken :: "(nat \<times> int option) list" where
  "wg_woken = wg_demo @ [(0, None), (0, None), (0, None), (0, None), (1, None)]"

lemma Wait_returns_at_zero_witness: "total_of wg_woken = 0"
proof -
  let ?wg = "\<lparr>wstate = 0, sema = 0\<rparr>"
  have "wg_steps wg_woken (wg_init, replicate 2 WgIdle) = Some (?wg, [WgIdle, WaitWoken])" by code_simp
  moreover have "list_all (\<lambda>l. allowed delta_ok (snd l)) wg_woken" by code_simp
  ultimately have "wg_run delta_ok 2 (?wg, [WgIdle, WaitWoken]) (total_of wg_woken)"
    using wg_steps_run [OF run_init, where n = 2 and ls = wg_woken and ok = delta_ok] by simp
  moreover have "wg_step (?wg, [WgIdle, WaitWoken]) (1, None) (?wg, [WgIdle, WgIdle])"
    by (rule wg_next_step) code_simp
  moreover have "- (2 ^ 31) \<le> total_of wg_woken" "total_of wg_woken < 2 ^ 31" by code_simp+
  ultimately show ?thesis
    using Wait_returns_at_zero [of 2 ?wg "[WgIdle, WaitWoken]" "total_of wg_woken" 1 ?wg "[WgIdle, WgIdle]"] by simp
qed

text \<open>
  C39: \<open>Add(0)\<close> is not harmless. Called while the last \<open>Done\<close> is about to wake a waiter, it makes a run in which
  every call has returned and the counter is zero, but a unit is left in the semaphore: the waiter was woken
  twice. The next round, an \<open>Add(1)\<close> and then a \<open>Wait\<close>, takes that unit at once and panics as if the
  \<open>WaitGroup\<close> had been reused too early. In a run whose deltas are not zero and fit 32 bits no unit is ever left
  when every call has returned without a panic.
\<close>

definition add_zero_race :: "(nat \<times> int option) list" where
  "add_zero_race = wg_demo @
     [(2, Some 0), (0, None), (2, None), (0, None), (2, None), (0, None), (2, None), (0, None), (2, None),
      (1, None), (1, None)]"

theorem Add_zero_wakes_twice:
  "(\<exists>wg wg'. wg_run (\<lambda>d. d \<in> {1, 0, - 1}) 3 (wg, replicate 3 WgIdle) 0 \<and> wg_counter (wstate wg) = 0 \<and> sema wg = 1 \<and>
      wg_steps [(0, Some 1), (1, None), (1, None), (1, None), (1, None), (1, None)] (wg, replicate 3 WgIdle)
        = Some (wg', [WgIdle, WgPanic ReusedBeforeReturn, WgIdle]) \<and> wg_counter (wstate wg') = 1)
   \<and> (\<forall>n wg tot. wg_run delta_ok n (wg, replicate n WgIdle) tot \<longrightarrow> n < 2 ^ 32 \<longrightarrow> sema wg = 0)"
proof (intro conjI allI impI)
  let ?wg = "\<lparr>wstate = 0, sema = 1\<rparr>"
  have "wg_steps add_zero_race (wg_init, replicate 3 WgIdle) = Some (?wg, replicate 3 WgIdle)" by code_simp
  moreover have "list_all (\<lambda>l. allowed (\<lambda>d. d \<in> {1, 0, - 1}) (snd l)) add_zero_race"
    by (simp add: add_zero_race_def wg_demo_def)
  moreover have "total_of add_zero_race = 0" by code_simp
  ultimately have "wg_run (\<lambda>d. d \<in> {1, 0, - 1}) 3 (?wg, replicate 3 WgIdle) 0"
    using wg_steps_run [OF run_init, where n = 3 and ls = add_zero_race and ok = "\<lambda>d. d \<in> {1, 0, - 1}"] by simp
  moreover have "wg_steps [(0, Some 1), (1, None), (1, None), (1, None), (1, None), (1, None)] (?wg, replicate 3 WgIdle)
      = Some (\<lparr>wstate = 2 ^ 32 + 1, sema = 0\<rparr>, [WgIdle, WgPanic ReusedBeforeReturn, WgIdle])" by code_simp
  moreover have "wg_counter 0 = 0" "wg_counter (2 ^ 32 + 1) = 1" by code_simp+
  ultimately show "\<exists>wg wg'. wg_run (\<lambda>d. d \<in> {1, 0, - 1}) 3 (wg, replicate 3 WgIdle) 0 \<and> wg_counter (wstate wg) = 0 \<and> sema wg = 1 \<and>
      wg_steps [(0, Some 1), (1, None), (1, None), (1, None), (1, None), (1, None)] (wg, replicate 3 WgIdle)
        = Some (wg', [WgIdle, WgPanic ReusedBeforeReturn, WgIdle]) \<and> wg_counter (wstate wg') = 1"
    by (intro exI [of _ ?wg] exI [of _ "\<lparr>wstate = 2 ^ 32 + 1, sema = 0\<rparr>"]) simp
next
  fix n wg tot assume "wg_run delta_ok n (wg, replicate n WgIdle) tot" "n < 2 ^ 32"
  from wg_run_inv [OF this] have "wg_inv wg (replicate n WgIdle)" by (simp add: list_ex_iff)
  then show "sema wg = 0" by (auto simp: wg_inv_def tally_replicate)
qed

lemma Add_zero_wakes_twice_witness: "\<exists>wg. wg_run delta_ok 2 (wg, replicate 2 WgIdle) 0 \<and> sema wg = 0"
proof -
  define ls where "ls = wg_woken @ [(1, None)]"
  obtain wg where "wg_steps ls (wg_init, replicate 2 WgIdle) = Some (wg, replicate 2 WgIdle)"
  proof
    show "wg_steps ls (wg_init, replicate 2 WgIdle) = Some (\<lparr>wstate = 0, sema = 0\<rparr>, replicate 2 WgIdle)"
      unfolding ls_def by code_simp
  qed
  moreover have "list_all (\<lambda>l. allowed delta_ok (snd l)) ls" "total_of ls = 0" unfolding ls_def by code_simp+
  ultimately have r: "wg_run delta_ok 2 (wg, replicate 2 WgIdle) 0"
    using wg_steps_run [OF run_init, where n = 2 and ls = ls and ok = delta_ok] by simp
  moreover have "(2 :: nat) < 2 ^ 32" by simp
  ultimately have "sema wg = 0" using Add_zero_wakes_twice [THEN conjunct2] by blast
  then show ?thesis using r by blast
qed

text \<open>The shift drops the high half of the delta: adding a multiple of \<open>2 ^ 32\<close> adds nothing.\<close>

theorem Add_drops_high_bits:
  assumes "0 \<le> wstate wg" "wstate wg < 2 ^ 64"
  shows "wg_counter (wstate (snd (Add (k * 2 ^ 32) wg))) = wg_counter (wstate wg)"
proof -
  obtain p wg' where a: "Add (k * 2 ^ 32) wg = (p, wg')" by fastforce
  have "i32 (wstate wg div 2 ^ 32 + k * 2 ^ 32) = i32 (wstate wg div 2 ^ 32)"
    using i32_mod [of "wstate wg div 2 ^ 32 + k * 2 ^ 32"] i32_mod [of "wstate wg div 2 ^ 32"]
      mod_mult_self1 [of "wstate wg div 2 ^ 32" k "2 ^ 32"] by (metis)
  then show ?thesis using Add_state(1) [OF assms a] a by (simp add: wg_counter_def)
qed

end
