(* ===== verification/GoMutex.thy ===== *)
theory GoMutex
  imports GoThreads
begin

unbundle bit_operations_syntax

text \<open>
  \<open>src/src/sync/mutex.go\<close>: a \<open>Mutex\<close> and the goroutines that lock and unlock it. A step is one
  atomic operation on the state, or what a goroutine does with the value it has read. The
  semaphore is the runtime's (a count of units; the order of its queue is not modelled), whether
  the runtime lets a goroutine spin, and whether a waiter has waited longer than the starvation
  threshold, are choices of the environment. The state is the code's \<open>int32\<close>.
\<close>

subsection \<open>The operations\<close>

record mutex =
  mstate :: int
  msema :: nat

definition mutexLocked :: int where "mutexLocked = 1"
definition mutexWoken :: int where "mutexWoken = 2"
definition mutexStarving :: int where "mutexStarving = 4"
definition mutexWaiterShift :: nat where "mutexWaiterShift = 3"

datatype mutex_throw = InconsistentState | UnlockOfUnlocked

text \<open>
  Where a goroutine is. In \<open>lockSlow\<close> its locals are whether it has waited (\<open>waitStartTime\<close> is
  not zero), \<open>starving\<close>, \<open>awoke\<close> and \<open>old\<close>.
\<close>

datatype mu_pc =
    MuIdle
  | LockReread bool bool bool
  | LockLoop bool bool bool int
  | LockAsleep bool
  | LockWoken bool
  | LockHandoff int
  | MuHold
  | UnlockTry int
  | UnlockReread
  | UnlockWake
  | UnlockHandoff
  | MuThrow mutex_throw

definition Lock :: "mutex \<Rightarrow> mu_pc \<times> mutex" where
  "Lock m = (if mstate m = 0 then (MuHold, m\<lparr>mstate := mutexLocked\<rparr>) else (LockReread False False False, m))"

text \<open>Active spinning: perhaps the woken flag is set, then the state is read again.\<close>

definition spins :: "int \<Rightarrow> bool" where
  "spins old \<longleftrightarrow> old AND (mutexLocked OR mutexStarving) = mutexLocked"

definition lock_spin :: "bool \<Rightarrow> bool \<Rightarrow> bool \<Rightarrow> int \<Rightarrow> mutex \<Rightarrow> mu_pc \<times> mutex" where
  "lock_spin waited starving awoke old m =
     (if \<not> awoke \<and> old AND mutexWoken = 0 \<and> drop_bit mutexWaiterShift old \<noteq> 0 \<and> mstate m = old
      then (LockReread waited starving True, m\<lparr>mstate := old OR mutexWoken\<rparr>)
      else (LockReread waited starving awoke, m))"

definition lock_new :: "bool \<Rightarrow> int \<Rightarrow> int" where
  "lock_new starving old =
     (let new = (if old AND mutexStarving = 0 then old OR mutexLocked else old);
          new = (if old AND (mutexLocked OR mutexStarving) \<noteq> 0 then i32 (new + push_bit mutexWaiterShift 1) else new)
      in if starving \<and> old AND mutexLocked \<noteq> 0 then new OR mutexStarving else new)"

definition lock_cas :: "bool \<Rightarrow> bool \<Rightarrow> bool \<Rightarrow> int \<Rightarrow> mutex \<Rightarrow> mu_pc \<times> mutex" where
  "lock_cas waited starving awoke old m =
     (let new = lock_new starving old
      in if awoke \<and> new AND mutexWoken = 0 then (MuThrow InconsistentState, m)
         else if mstate m = old
         then (if old AND (mutexLocked OR mutexStarving) = 0 then MuHold else LockAsleep starving,
               m\<lparr>mstate := (if awoke then new AND NOT mutexWoken else new)\<rparr>)
         else (LockReread waited starving awoke, m))"

definition lock_woken :: "bool \<Rightarrow> mutex \<Rightarrow> mu_pc" where
  "lock_woken starving m =
     (let old = mstate m
      in if old AND mutexStarving \<noteq> 0
         then if old AND (mutexLocked OR mutexWoken) \<noteq> 0 \<or> drop_bit mutexWaiterShift old = 0
              then MuThrow InconsistentState
              else let delta = mutexLocked - push_bit mutexWaiterShift 1
                   in LockHandoff (if \<not> starving \<or> drop_bit mutexWaiterShift old = 1
                                   then delta - mutexStarving else delta)
         else LockLoop True starving True old)"

definition lock_handoff :: "int \<Rightarrow> mutex \<Rightarrow> mu_pc \<times> mutex" where
  "lock_handoff delta m = (MuHold, m\<lparr>mstate := i32 (mstate m + delta)\<rparr>)"

definition Unlock :: "mutex \<Rightarrow> mu_pc \<times> mutex" where
  "Unlock m =
     (let new = i32 (mstate m - mutexLocked)
      in (if new = 0 then MuIdle
          else if (new + mutexLocked) AND mutexLocked = 0 then MuThrow UnlockOfUnlocked
          else if new AND mutexStarving = 0 then UnlockTry new
          else UnlockHandoff,
          m\<lparr>mstate := new\<rparr>))"

definition unlock_try :: "int \<Rightarrow> mutex \<Rightarrow> mu_pc \<times> mutex" where
  "unlock_try old m =
     (if drop_bit mutexWaiterShift old = 0 \<or> old AND (mutexLocked OR mutexWoken OR mutexStarving) \<noteq> 0
      then (MuIdle, m)
      else if mstate m = old
      then (UnlockWake, m\<lparr>mstate := i32 (old - push_bit mutexWaiterShift 1) OR mutexWoken\<rparr>)
      else (UnlockReread, m))"

definition unlock_release :: "mutex \<Rightarrow> mu_pc \<times> mutex" where
  "unlock_release m = (MuIdle, m\<lparr>msema := msema m + 1\<rparr>)"

inductive mu_step :: "mutex \<times> mu_pc list \<Rightarrow> nat \<Rightarrow> mutex \<times> mu_pc list \<Rightarrow> bool" where
  mu_Lock: "g < length ps \<Longrightarrow> ps ! g = MuIdle \<Longrightarrow> Lock m = (p, m') \<Longrightarrow> mu_step (m, ps) g (m', ps[g := p])"
| mu_reread:
    "g < length ps \<Longrightarrow> ps ! g = LockReread wt st aw \<Longrightarrow>
     mu_step (m, ps) g (m, ps[g := LockLoop wt st aw (mstate m)])"
| mu_spin:
    "g < length ps \<Longrightarrow> ps ! g = LockLoop wt st aw old \<Longrightarrow> spins old \<Longrightarrow> lock_spin wt st aw old m = (p, m') \<Longrightarrow>
     mu_step (m, ps) g (m', ps[g := p])"
| mu_cas:
    "g < length ps \<Longrightarrow> ps ! g = LockLoop wt st aw old \<Longrightarrow> lock_cas wt st aw old m = (p, m') \<Longrightarrow>
     mu_step (m, ps) g (m', ps[g := p])"
| mu_acquire:
    "g < length ps \<Longrightarrow> ps ! g = LockAsleep st \<Longrightarrow> 0 < msema m \<Longrightarrow>
     mu_step (m, ps) g (m\<lparr>msema := msema m - 1\<rparr>, ps[g := LockWoken (st \<or> late)])"
| mu_woken: "g < length ps \<Longrightarrow> ps ! g = LockWoken st \<Longrightarrow> mu_step (m, ps) g (m, ps[g := lock_woken st m])"
| mu_handoff:
    "g < length ps \<Longrightarrow> ps ! g = LockHandoff d \<Longrightarrow> lock_handoff d m = (p, m') \<Longrightarrow>
     mu_step (m, ps) g (m', ps[g := p])"
| mu_Unlock: "g < length ps \<Longrightarrow> ps ! g = MuHold \<Longrightarrow> Unlock m = (p, m') \<Longrightarrow> mu_step (m, ps) g (m', ps[g := p])"
| mu_try:
    "g < length ps \<Longrightarrow> ps ! g = UnlockTry old \<Longrightarrow> unlock_try old m = (p, m') \<Longrightarrow>
     mu_step (m, ps) g (m', ps[g := p])"
| mu_unlock_reread:
    "g < length ps \<Longrightarrow> ps ! g = UnlockReread \<Longrightarrow> mu_step (m, ps) g (m, ps[g := UnlockTry (mstate m)])"
| mu_wake:
    "g < length ps \<Longrightarrow> ps ! g \<in> {UnlockWake, UnlockHandoff} \<Longrightarrow> unlock_release m = (p, m') \<Longrightarrow>
     mu_step (m, ps) g (m', ps[g := p])"

definition mu_init :: mutex where
  "mu_init = \<lparr>mstate = 0, msema = 0\<rparr>"

inductive mu_run :: "nat \<Rightarrow> mutex \<times> mu_pc list \<Rightarrow> bool" for n where
  mu_start: "mu_run n (mu_init, replicate n MuIdle)"
| mu_next: "mu_run n s \<Longrightarrow> mu_step s g t \<Longrightarrow> mu_run n t"

subsection \<open>The fields of the state\<close>

definition enc :: "bool \<Rightarrow> bool \<Rightarrow> bool \<Rightarrow> nat \<Rightarrow> int" where
  "enc l w s n = of_bool l + 2 * of_bool w + 4 * of_bool s + 8 * int n"

lemma and_bit: "(of_bool a + 2 * x) AND (of_bool b + 2 * y) = of_bool (a \<and> b) + 2 * (x AND (y :: int))"
  by (subst and_rec) (cases a; cases b; simp)

lemma or_bit: "(of_bool a + 2 * x) OR (of_bool b + 2 * y) = of_bool (a \<or> b) + 2 * (x OR (y :: int))"
  by (subst or_rec) (cases a; cases b; simp)

lemma and_not_bit: "(of_bool a + 2 * x) AND NOT (of_bool b + 2 * y) = of_bool (a \<and> \<not> b) + 2 * (x AND NOT (y :: int))"
proof -
  have "NOT (of_bool b + 2 * y) = of_bool (\<not> b) + 2 * NOT y" by (cases b) (simp_all add: not_int_def)
  then show ?thesis by (simp add: and_bit)
qed

lemma enc_bits: "enc l w s n = of_bool l + 2 * (of_bool w + 2 * (of_bool s + 2 * int n))"
  by (simp add: enc_def)

lemma enc_and: "enc l w s n AND enc l' w' s' 0 = enc (l \<and> l') (w \<and> w') (s \<and> s') 0"
  unfolding enc_bits and_bit by simp

lemma enc_or: "enc l w s n OR enc l' w' s' 0 = enc (l \<or> l') (w \<or> w') (s \<or> s') n"
  unfolding enc_bits or_bit by simp

lemma enc_and_not: "enc l w s n AND NOT (enc l' w' s' 0) = enc (l \<and> \<not> l') (w \<and> \<not> w') (s \<and> \<not> s') n"
  unfolding enc_bits and_not_bit by simp

lemma enc_shift: "drop_bit mutexWaiterShift (enc l w s n) = int n"
proof -
  have "enc l w s n div 8 = int n" by (cases l; cases w; cases s) (simp_all add: enc_def)
  then show ?thesis by (simp add: mutexWaiterShift_def drop_bit_eq_div)
qed

lemma enc_zero: "enc l w s n = 0 \<longleftrightarrow> \<not> l \<and> \<not> w \<and> \<not> s \<and> n = 0"
  by (cases l; cases w; cases s) (auto simp: enc_def)

lemma enc_eq: "enc l w s n = enc l' w' s' n' \<longleftrightarrow> l = l' \<and> w = w' \<and> s = s' \<and> n = n'"
proof
  assume e: "enc l w s n = enc l' w' s' n'"
  then have "int n = int n'" by (metis enc_shift)
  moreover have "enc l w s n AND enc True False False 0 = enc l' w' s' n' AND enc True False False 0"
    "enc l w s n AND enc False True False 0 = enc l' w' s' n' AND enc False True False 0"
    "enc l w s n AND enc False False True 0 = enc l' w' s' n' AND enc False False True 0"
    using e by simp_all
  ultimately show "l = l' \<and> w = w' \<and> s = s' \<and> n = n'"
    unfolding enc_and by (simp add: enc_def of_bool_eq_iff)
qed simp

lemma mutex_bits:
  "mutexLocked = enc True False False 0" "mutexWoken = enc False True False 0" "mutexStarving = enc False False True 0"
  by (simp_all add: mutexLocked_def mutexWoken_def mutexStarving_def enc_def)

lemma enc_i32: "n < 2 ^ 28 \<Longrightarrow> i32 (enc l w s n) = enc l w s n"
  by (rule i32_id) (cases l; cases w; cases s; simp add: enc_def)+

lemma waiter: "push_bit mutexWaiterShift (1 :: int) = 8" "(2 :: int) ^ mutexWaiterShift = 8"
  by (simp_all add: mutexWaiterShift_def push_bit_eq_mult)

lemma enc_arith:
  "enc l w s n + 8 = enc l w s (Suc n)" "enc l w s (Suc n) - 8 = enc l w s n"
  "enc True w s n - enc True False False 0 = enc False w s n"
  "enc False w s n + enc True False False 0 = enc True w s n"
  by (simp_all add: enc_def)

lemmas enc_simps = mutex_bits enc_and enc_or enc_and_not enc_shift enc_zero waiter

text \<open>The code's tests and updates, in terms of the fields.\<close>

lemma lock_new_enc:
  assumes "n + 1 < 2 ^ 28"
  shows "lock_new st (enc l w s n) =
    (if s then enc l w s (Suc n) else if l then enc True w st (Suc n) else enc True w False n)"
  using assms enc_i32 [of "Suc n" l w s] enc_i32 [of "Suc n" True w False]
  by (cases l; cases s; cases st) (simp_all add: lock_new_def Let_def enc_simps enc_arith)

lemma lock_cas_enc:
  assumes "n + 1 < 2 ^ 28" "aw \<longrightarrow> w" "mstate m = enc l' w' s' n'"
  shows "lock_cas wt st aw (enc l w s n) m =
    (if enc l' w' s' n' = enc l w s n
     then (if \<not> l \<and> \<not> s then MuHold else LockAsleep st,
           m\<lparr>mstate := (if s then enc l (w \<and> \<not> aw) s (Suc n) else if l then enc True (w \<and> \<not> aw) st (Suc n)
             else enc True (w \<and> \<not> aw) False n)\<rparr>)
     else (LockReread wt st aw, m))"
  using assms by (cases aw) (auto simp: lock_cas_def lock_new_enc Let_def enc_simps)

lemma lock_spin_enc:
  assumes "mstate m = enc l' w' s' n'"
  shows "lock_spin wt st aw (enc l w s n) m =
    (if \<not> aw \<and> \<not> w \<and> n \<noteq> 0 \<and> enc l' w' s' n' = enc l w s n
     then (LockReread wt st True, m\<lparr>mstate := enc l True s n\<rparr>) else (LockReread wt st aw, m))"
  using assms by (auto simp: lock_spin_def enc_simps)

lemma spins_enc: "spins (enc l w s n) \<longleftrightarrow> l \<and> \<not> s"
  by (cases l; cases s) (simp_all add: spins_def enc_simps enc_eq)

lemma lock_woken_enc:
  "mstate m = enc l w s n \<Longrightarrow> lock_woken st m =
    (if s then if l \<or> w \<or> n = 0 then MuThrow InconsistentState
       else LockHandoff (if \<not> st \<or> n = 1 then - 11 else - 7)
     else LockLoop True st True (enc l w s n))"
  by (simp add: lock_woken_def Let_def enc_simps) (simp add: enc_def)

lemma Unlock_enc:
  assumes "mstate m = enc True w s n" "n < 2 ^ 28"
  shows "Unlock m =
    (if \<not> w \<and> \<not> s \<and> n = 0 then MuIdle else if s then UnlockHandoff else UnlockTry (enc False w s n),
     m\<lparr>mstate := enc False w s n\<rparr>)"
  using assms by (simp add: Unlock_def Let_def enc_i32 enc_arith enc_simps)

lemma unlock_try_enc:
  assumes "n < 2 ^ 28" "mstate m = enc l' w' s' n'"
  shows "unlock_try (enc l w s n) m =
    (if n = 0 \<or> l \<or> w \<or> s then (MuIdle, m)
     else if enc l' w' s' n' = enc l w s n then (UnlockWake, m\<lparr>mstate := enc False True False (n - 1)\<rparr>)
     else (UnlockReread, m))"
proof (cases n)
  case (Suc k)
  then show ?thesis using assms enc_i32 [of k l w s] by (auto simp: unlock_try_def enc_simps enc_arith)
qed (use assms in \<open>simp add: unlock_try_def enc_simps\<close>)


subsection \<open>The invariant\<close>

fun hold :: "mu_pc \<Rightarrow> nat" where
  "hold MuHold = 1" | "hold _ = 0"

fun slept :: "mu_pc \<Rightarrow> nat" where
  "slept (LockAsleep _) = 1" | "slept _ = 0"

fun woke :: "mu_pc \<Rightarrow> nat" where
  "woke (LockWoken _) = 1" | "woke _ = 0"

fun awake :: "mu_pc \<Rightarrow> nat" where
  "awake (LockReread _ _ aw) = of_bool aw" | "awake (LockLoop _ _ aw _) = of_bool aw" | "awake _ = 0"

fun handing :: "mu_pc \<Rightarrow> nat" where
  "handing (LockHandoff _) = 1" | "handing _ = 0"

fun waker :: "mu_pc \<Rightarrow> nat" where
  "waker UnlockWake = 1" | "waker _ = 0"

fun giver :: "mu_pc \<Rightarrow> nat" where
  "giver UnlockHandoff = 1" | "giver _ = 0"

text \<open>
  In normal mode the woken flag stands for the one goroutine that is being woken or is awake, and
  a waiter leaves the count when it is to be woken. In starvation mode the lock passes from the
  holder through the semaphore to one waiter, who is counted until it has taken it; and there
  always is one.
\<close>

fun mode_ok :: "bool \<Rightarrow> bool \<Rightarrow> bool \<Rightarrow> nat \<Rightarrow> nat \<Rightarrow> mu_pc list \<Rightarrow> bool" where
  "mode_ok l w False n u ps \<longleftrightarrow>
     tally hold ps = of_bool l \<and> tally giver ps = 0 \<and> tally handing ps = 0 \<and>
     tally waker ps + u + tally woke ps + tally awake ps = of_bool w \<and> tally slept ps = n + tally waker ps + u"
| "mode_ok l w True n u ps \<longleftrightarrow>
     tally hold ps = of_bool l \<and> tally waker ps = 0 \<and> tally awake ps = 0 \<and> \<not> w \<and> 0 < n \<and>
     tally hold ps + tally giver ps + u + tally woke ps + tally handing ps = 1 \<and>
     tally slept ps + tally woke ps + tally handing ps = n"

text \<open>What a goroutine knows: it holds an old state, and what it has seen of the flags.\<close>

fun mu_pc_ok :: "nat \<Rightarrow> mu_pc \<Rightarrow> bool" where
  "mu_pc_ok n (LockReread wt st aw) \<longleftrightarrow> (st \<longrightarrow> aw)"
| "mu_pc_ok n (LockLoop wt st aw old) \<longleftrightarrow>
     (st \<longrightarrow> aw) \<and> (\<exists>l w s k. old = enc l w s k \<and> k < 2 ^ 27 \<and> (aw \<longrightarrow> w \<and> \<not> s))"
| "mu_pc_ok n (LockHandoff d) \<longleftrightarrow> d = - 11 \<or> d = - 7 \<and> 2 \<le> n"
| "mu_pc_ok n (UnlockTry old) \<longleftrightarrow> (\<exists>l w s k. old = enc l w s k \<and> k < 2 ^ 27)"
| "mu_pc_ok n (MuThrow _) \<longleftrightarrow> False"
| "mu_pc_ok n _ \<longleftrightarrow> True"

definition mu_inv :: "mutex \<Rightarrow> mu_pc list \<Rightarrow> bool" where
  "mu_inv m ps \<longleftrightarrow>
     (\<exists>l w s n. mstate m = enc l w s n \<and> n \<le> length ps \<and> mode_ok l w s n (msema m) ps \<and>
        (\<forall>g < length ps. mu_pc_ok n (ps ! g)))"

lemma slept_le: "slept p + woke p + handing p \<le> 1"
  by (cases p) simp_all

lemma mode_count:
  assumes "mode_ok l w s n u ps"
  shows "n \<le> length ps"
proof -
  have "tally slept ps + tally woke ps + tally handing ps \<le> length ps"
  proof (induction ps)
    case (Cons p ps)
    then show ?case using slept_le [of p] by (simp add: tally_def)
  qed (simp add: tally_def)
  then show ?thesis using assms by (cases s) auto
qed

lemma mu_invI:
  assumes "mstate m = enc l w s n" "mode_ok l w s n (msema m) ps" "\<And>g. g < length ps \<Longrightarrow> mu_pc_ok n (ps ! g)"
  shows "mu_inv m ps"
  using assms mode_count [OF assms(2)] unfolding mu_inv_def by blast

text \<open>The weights of a program point, all at once.\<close>

lemmas moves = tally_move [where f = hold] tally_move [where f = slept] tally_move [where f = woke]
  tally_move [where f = awake] tally_move [where f = handing] tally_move [where f = waker]
  tally_move [where f = giver]

text \<open>The others keep what they know when the number of waiters changes and no lock is handed over.\<close>

lemma mu_pc_ok_other:
  "mu_pc_ok n p \<Longrightarrow> handing p = 0 \<or> n \<le> n' \<Longrightarrow> mu_pc_ok n' p"
  by (cases p) auto

lemma mu_inv_move:
  assumes "g < length ps" "mstate m' = enc l w s n'" "mode_ok l w s n' (msema m') (ps[g := p])"
    and "\<forall>h < length ps. mu_pc_ok n (ps ! h)" "tally handing ps = handing (ps ! g) \<or> n \<le> n'" "mu_pc_ok n' p"
  shows "mu_inv m' (ps[g := p])"
proof (rule mu_invI [OF assms(2,3)])
  fix h assume h: "h < length (ps[g := p])"
  show "mu_pc_ok n' (ps[g := p] ! h)"
  proof (cases "h = g")
    case False
    have "handing (ps ! h) = 0 \<or> n \<le> n'"
    proof (rule disjE [OF assms(5)])
      assume t: "tally handing ps = handing (ps ! g)"
      have "tally handing (ps[g := MuIdle]) = 0" using tally_move [OF assms(1), of handing MuIdle] t by simp
      then show ?thesis using tally_zero [of handing "ps[g := MuIdle]" h] False h by simp
    qed simp
    then show ?thesis using False h assms(4) mu_pc_ok_other [of n "ps ! h" n'] by simp
  qed (use h assms(6) in simp)
qed

lemma tally_hold_le: "mode_ok l w s n u ps \<Longrightarrow> tally hold ps \<le> 1"
  by (cases s) auto

lemma mu_step_inv:
  assumes step: "mu_step (m, ps) g (m', ps')" and inv: "mu_inv m ps" and N: "length ps < 2 ^ 27"
  shows "mu_inv m' ps'"
proof -
  from inv obtain l w s n where st: "mstate m = enc l w s n" and n: "n \<le> length ps"
    and M: "mode_ok l w s n (msema m) ps" and all: "\<forall>h < length ps. mu_pc_ok n (ps ! h)"
    unfolding mu_inv_def by blast
  have n27: "n < 2 ^ 27" "n + 1 < 2 ^ 28" "n < 2 ^ 28" using n N by simp_all
  note ok = all [rule_format] and go = mu_inv_move [OF _ _ _ all]
  from step show ?thesis
  proof cases
    case (mu_Lock p)
    note mv = moves [OF mu_Lock(2), of p]
    have ps': "ps' = ps[g := p]" using mu_Lock by simp
    show ?thesis
    proof (cases "mstate m = 0")
      case True
      then have z: "\<not> l" "\<not> w" "\<not> s" "n = 0" "p = MuHold" "m' = m\<lparr>mstate := mutexLocked\<rparr>"
        using st mu_Lock by (auto simp: Lock_def enc_zero)
      show ?thesis unfolding ps'
        by (rule go [of g m' True False False 0])
          (use z mu_Lock(2,3) M mv in \<open>auto simp: mutex_bits\<close>)
    next
      case False
      then have z: "p = LockReread False False False" "m' = m" using mu_Lock by (auto simp: Lock_def)
      show ?thesis unfolding ps'
        by (rule go [of g m' l w s n]) (use z mu_Lock(2,3) M mv st in \<open>cases s; auto\<close>)+
    qed
  next
    case (mu_reread wt sv aw)
    note mv = moves [OF mu_reread(3), of "LockLoop wt sv aw (mstate m)"]
    have "mu_pc_ok n (LockReread wt sv aw)" using ok [OF mu_reread(3)] mu_reread by simp
    moreover have "aw \<longrightarrow> w \<and> \<not> s"
    proof
      assume aw
      then have "0 < tally awake ps" using tally_ge [OF mu_reread(3), of awake] mu_reread by simp
      then show "w \<and> \<not> s" using M by (cases s; cases w) auto
    qed
    ultimately have k: "mu_pc_ok n (LockLoop wt sv aw (mstate m))" using st n27 by auto
    show ?thesis unfolding mu_reread
      by (rule go [OF mu_reread(3) st _ _ k]) (use mu_reread(3,4) M mv in \<open>cases s; auto\<close>)+
  next
    case (mu_spin wt sv aw old p)
    note mv = moves [OF mu_spin(2), of p]
    have ps': "ps' = ps[g := p]" using mu_spin by simp
    have pk: "mu_pc_ok n (LockLoop wt sv aw old)" using ok [OF mu_spin(2)] mu_spin by simp
    then obtain l' w' s' k where old: "old = enc l' w' s' k" "k < 2 ^ 27" "sv \<longrightarrow> aw" by auto
    have sp: "l'" "\<not> s'" using mu_spin(4) unfolding old(1) spins_enc by blast+
    show ?thesis
    proof (cases "\<not> aw \<and> \<not> w' \<and> k \<noteq> 0 \<and> enc l w s n = enc l' w' s' k")
      case True
      then have e: "p = LockReread wt sv True" "m' = m\<lparr>mstate := enc l True s n\<rparr>" "\<not> w" "\<not> s" "l"
        using mu_spin(5) lock_spin_enc [OF st, of wt sv aw l' w' s' k] sp unfolding old(1) by (auto simp: enc_eq)
      show ?thesis unfolding ps'
        by (rule go [of g m' l True s n]) (use e True mu_spin(2,3) M mv in auto)
    next
      case False
      then have e: "p = LockReread wt sv aw" "m' = m"
        using mu_spin(5) lock_spin_enc [OF st, of wt sv aw l' w' s' k] unfolding old(1) by auto
      show ?thesis unfolding ps'
        by (rule go [of g m' l w s n]) (use e old(3) mu_spin(2,3) M mv st in \<open>cases s; auto\<close>)+
    qed
  next
    case (mu_cas wt sv aw old p)
    note mv = moves [OF mu_cas(2), of p]
    have ps': "ps' = ps[g := p]" using mu_cas by simp
    have pk: "mu_pc_ok n (LockLoop wt sv aw old)" using ok [OF mu_cas(2)] mu_cas by simp
    then obtain l' w' s' k where old: "old = enc l' w' s' k" "k + 1 < 2 ^ 28" "sv \<longrightarrow> aw" "aw \<longrightarrow> w' \<and> \<not> s'" by auto
    have r: "lock_cas wt sv aw (enc l' w' s' k) m = (p, m')" using mu_cas(4) old(1) by simp
    have aw': "aw \<longrightarrow> w'" using old(4) by blast
    note E = lock_cas_enc [OF old(2) aw' st, of wt sv]
    show ?thesis
    proof (cases "enc l w s n = enc l' w' s' k")
      case False
      then have e: "p = LockReread wt sv aw" "m' = m" using r E by auto
      show ?thesis unfolding ps'
        by (rule go [of g m' l w s n]) (use e old(3) mu_cas(2,3) M mv st in \<open>cases s; auto\<close>)+
    next
      case True
      then have f: "l' = l" "w' = w" "s' = s" "k = n" by (auto simp: enc_eq)
      show ?thesis
      proof (cases s)
        case True
        then have e: "p = LockAsleep sv" "m' = m\<lparr>mstate := enc l w True (Suc n)\<rparr>" "\<not> aw"
          using r E f old(4) by auto
        show ?thesis unfolding ps'
          by (rule go [of g m' l w True "Suc n"]) (use e True mu_cas(2,3) M mv in auto)
      next
        case sf: False
        have a: "w" "tally waker ps = 0" "msema m = 0" "tally woke ps = 0" "tally awake ps = 1" if aw
          using tally_ge [OF mu_cas(2), of awake] mu_cas(3) that M sf by (cases w; auto)+
        show ?thesis
        proof (cases l)
          case True
          then have e: "p = LockAsleep sv" "m' = m\<lparr>mstate := enc True (w \<and> \<not> aw) sv (Suc n)\<rparr>"
            using r E f sf by auto
          show ?thesis
          proof (cases aw)
            case aw: True
            show ?thesis unfolding ps'
              by (rule go [of g m' True False sv "Suc n"])
                (use e True sf aw a [OF aw] mu_cas(2,3) M mv in \<open>cases sv; auto\<close>)+
          next
            case aw: False
            then have "\<not> sv" using old(3) by blast
            show ?thesis unfolding ps'
              by (rule go [of g m' True w False "Suc n"])
                (use e True sf aw \<open>\<not> sv\<close> mu_cas(2,3) M mv in auto)
          qed
        next
          case False
          then have e: "p = MuHold" "m' = m\<lparr>mstate := enc True (w \<and> \<not> aw) False n\<rparr>"
            using r E f sf by auto
          show ?thesis
          proof (cases aw)
            case aw: True
            show ?thesis unfolding ps'
              by (rule go [of g m' True False False n]) (use e False sf aw a [OF aw] mu_cas(2,3) M mv in auto)
          next
            case aw: False
            show ?thesis unfolding ps'
              by (rule go [of g m' True w False n]) (use e False sf aw mu_cas(2,3) M mv in auto)
          qed
        qed
      qed
    qed
  next
    case (mu_acquire sv late)
    note mv = moves [OF mu_acquire(3), of "LockWoken (sv \<or> late)"]
    show ?thesis unfolding mu_acquire
      by (rule go [of g _ l w s n]) (use mu_acquire(3-5) M mv st in \<open>cases s; auto\<close>)+
  next
    case (mu_woken sv)
    note mv = moves [OF mu_woken(3), of "lock_woken sv m"]
    have t: "0 < tally woke ps" using tally_ge [OF mu_woken(3), of woke] mu_woken by simp
    show ?thesis
    proof (cases s)
      case True
      have "\<not> l" "\<not> w" using M t True by (cases l; auto)+
      moreover have "0 < n" using M True by simp
      ultimately have e: "lock_woken sv m = LockHandoff (if \<not> sv \<or> n = 1 then - 11 else - 7)"
        using lock_woken_enc [OF st, of sv] True by simp
      show ?thesis unfolding mu_woken
        by (rule go [of g _ l w s n]) (use e \<open>0 < n\<close> True mu_woken(3,4) M mv st in auto)
    next
      case False
      then have e: "lock_woken sv m = LockLoop True sv True (enc l w s n)" using lock_woken_enc [OF st, of sv] by simp
      have "w" using M t False by (cases w) auto
      then have k: "mu_pc_ok n (LockLoop True sv True (enc l w s n))" using n27 False by auto
      show ?thesis unfolding mu_woken e
        by (rule go [OF mu_woken(3) st _ _ k]) (use e False mu_woken(3,4) M mv in auto)
    qed
  next
    case (mu_handoff d p)
    note mv = moves [OF mu_handoff(2), of p]
    have ps': "ps' = ps[g := p]" using mu_handoff by simp
    have "0 < tally handing ps" using tally_ge [OF mu_handoff(2), of handing] mu_handoff by simp
    then have s: s and f: "\<not> l" "\<not> w" "0 < n" "tally handing ps = 1" using M by (cases s; cases l; auto)+
    obtain k where k: "n = Suc k" using f(3) by (cases n) auto
    have dk: "d = - 11 \<or> d = - 7 \<and> 2 \<le> n" using ok [OF mu_handoff(2)] mu_handoff by simp
    then have "mstate m + d = enc True False (d = - 7) k" using st s f k by (auto simp: enc_def)
    then have e: "p = MuHold" "m' = m\<lparr>mstate := enc True False (d = - 7) k\<rparr>"
      using mu_handoff(4) enc_i32 [of k True False "d = - 7"] n27 k by (auto simp: lock_handoff_def)
    show ?thesis unfolding ps'
      by (rule go [of g m' True False "d = - 7" k])
        (use e s f k dk mu_handoff(2,3) M mv in \<open>cases "d = - 7"; auto\<close>)+
  next
    case (mu_Unlock p)
    note mv = moves [OF mu_Unlock(2), of p]
    have ps': "ps' = ps[g := p]" using mu_Unlock by simp
    have "0 < tally hold ps" using tally_ge [OF mu_Unlock(2), of hold] mu_Unlock by simp
    then have l: l using M by (cases s; cases l; auto)
    then have e: "p = (if \<not> w \<and> \<not> s \<and> n = 0 then MuIdle else if s then UnlockHandoff else UnlockTry (enc False w s n))"
      "m' = m\<lparr>mstate := enc False w s n\<rparr>"
      using Unlock_enc [of m w s n] st n27 mu_Unlock(4) by auto
    have k: "mu_pc_ok n (UnlockTry (enc False w s n))" using n27 by auto
    consider "p = UnlockHandoff" s | "p = MuIdle" "\<not> s" | "p = UnlockTry (enc False w s n)" "\<not> s"
      using e(1) M by (cases s) (auto split: if_splits)
    then show ?thesis
    proof cases
      case 1
      show ?thesis unfolding ps'
        by (rule go [of g m' False w s n]) (use e(2) 1 l mu_Unlock(2,3) M mv in auto)
    next
      case 2
      show ?thesis unfolding ps'
        by (rule go [of g m' False w s n]) (use e(2) 2 l mu_Unlock(2,3) M mv in auto)
    next
      case 3
      show ?thesis unfolding ps' 3(1)
        by (rule go [of g m' False w s n, OF _ _ _ _ k]) (use e(2) 3 l mu_Unlock(2,3) M mv in auto)
    qed
  next
    case (mu_try old p)
    note mv = moves [OF mu_try(2), of p]
    have ps': "ps' = ps[g := p]" using mu_try by simp
    obtain l' w' s' k where old: "old = enc l' w' s' k" "k < 2 ^ 28" using ok [OF mu_try(2)] mu_try by auto
    have r: "unlock_try (enc l' w' s' k) m = (p, m')" using mu_try old(1) by simp
    note E = unlock_try_enc [OF old(2) st, of l' w' s']
    show ?thesis
    proof (cases "k = 0 \<or> l' \<or> w' \<or> s' \<or> enc l w s n \<noteq> enc l' w' s' k")
      case True
      then have e: "p = MuIdle \<or> p = UnlockReread" "m' = m" using r E by (auto split: if_splits)
      from e(1) show ?thesis
      proof
        assume p: "p = MuIdle"
        show ?thesis unfolding ps'
          by (rule go [of g m' l w s n]) (use e(2) p mu_try(2,3) M mv st in \<open>cases s; auto\<close>)+
      next
        assume p: "p = UnlockReread"
        show ?thesis unfolding ps'
          by (rule go [of g m' l w s n]) (use e(2) p mu_try(2,3) M mv st in \<open>cases s; auto\<close>)+
      qed
    next
      case False
      then have f: "\<not> l" "\<not> w" "\<not> s" "k = n" "0 < n" by (auto simp: enc_eq)
      have "unlock_try (enc l' w' s' k) m = (UnlockWake, m\<lparr>mstate := enc False True False (k - 1)\<rparr>)"
      proof -
        have "(k = 0 \<or> l' \<or> w' \<or> s') = False" "(enc l w s n = enc l' w' s' k) = True" using False by blast+
        then show ?thesis unfolding E by (simp only: if_False if_True)
      qed
      then have e: "p = UnlockWake" "m' = m\<lparr>mstate := enc False True False (n - 1)\<rparr>" using r f(4) by simp_all
      show ?thesis unfolding ps'
        by (rule go [of g m' False True False "n - 1"]) (use e f mu_try(2,3) M mv in auto)
    qed
  next
    case mu_unlock_reread
    note mv = moves [OF mu_unlock_reread(3), of "UnlockTry (mstate m)"]
    have k: "mu_pc_ok n (UnlockTry (mstate m))" using st n27 by auto
    show ?thesis unfolding mu_unlock_reread
      by (rule go [OF mu_unlock_reread(3) st _ _ k]) (use mu_unlock_reread(3,4) M mv in \<open>cases s; auto\<close>)+
  next
    case (mu_wake p)
    note mv = moves [OF mu_wake(2), of p]
    have ps': "ps' = ps[g := p]" using mu_wake by simp
    have e: "p = MuIdle" "m' = m\<lparr>msema := msema m + 1\<rparr>" using mu_wake(4) by (auto simp: unlock_release_def)
    from mu_wake(3) consider "ps ! g = UnlockWake" "\<not> s" | "ps ! g = UnlockHandoff" s
      using tally_ge [OF mu_wake(2), of waker] tally_ge [OF mu_wake(2), of giver] M by (cases s) auto
    then show ?thesis
    proof cases
      case 1
      show ?thesis unfolding ps'
        by (rule go [of g m' l w s n]) (use e 1 mu_wake(2) M mv st in auto)
    next
      case 2
      show ?thesis unfolding ps'
        by (rule go [of g m' l w s n]) (use e 2 mu_wake(2) M mv st in auto)
    qed
  qed
qed

end
