(* ===== verification/GoMutexRuns.thy ===== *)
theory GoMutexRuns
  imports GoMutex
begin

text \<open>Runs of the goroutines that share a \<open>Mutex\<close>: mutual exclusion, no lost waiter.\<close>

text \<open>
  When the mutex is free, in normal mode, with waiters and nobody woken, the goroutine that has
  just unlocked it is still there, and has seen the very state.
\<close>

definition mu_fresh :: "mutex \<Rightarrow> mu_pc list \<Rightarrow> bool" where
  "mu_fresh m ps \<longleftrightarrow> (\<forall>n > 0. mstate m = enc False False False n \<longrightarrow> UnlockTry (mstate m) \<in> set ps)"

lemma mu_fresh_busy: "mstate m = enc l w s n \<Longrightarrow> l \<or> w \<or> s \<or> n = 0 \<Longrightarrow> mu_fresh m ps"
  by (auto simp: mu_fresh_def enc_eq)

lemma mu_fresh_kept:
  assumes "mu_fresh m ps" "mstate m' = mstate m" "g < length ps" "\<And>old. ps ! g = UnlockTry old \<Longrightarrow> old \<noteq> mstate m"
  shows "mu_fresh m' (ps[g := p])"
proof -
  have "UnlockTry (mstate m) \<in> set (ps[g := p])" if in_ps: "UnlockTry (mstate m) \<in> set ps"
  proof -
    obtain h where h: "h < length ps" "ps ! h = UnlockTry (mstate m)" using in_ps by (auto simp: in_set_conv_nth)
    then have "h \<noteq> g" using assms(4) by blast
    then have "ps[g := p] ! h = UnlockTry (mstate m)" using h by simp
    then show ?thesis using h(1) by (metis length_list_update nth_mem)
  qed
  then show ?thesis using assms(1,2) unfolding mu_fresh_def by metis
qed

lemma mu_step_fresh:
  assumes step: "mu_step (m, ps) g (m', ps')" and inv: "mu_inv m ps" and N: "length ps < 2 ^ 27" and fr: "mu_fresh m ps"
  shows "mu_fresh m' ps'"
proof -
  from inv obtain l w s n where st: "mstate m = enc l w s n" and n: "n \<le> length ps"
    and M: "mode_ok l w s n (msema m) ps" and ok: "\<And>h. h < length ps \<Longrightarrow> mu_pc_ok n (ps ! h)"
    unfolding mu_inv_def by blast
  have n27: "n < 2 ^ 27" "n + 1 < 2 ^ 28" "n < 2 ^ 28" using n N by simp_all
  note keep = mu_fresh_kept [OF fr]
  from step show ?thesis
  proof cases
    case (mu_Lock p)
    show ?thesis
    proof (cases "mstate m = 0")
      case True
      then have "mstate m' = enc True False False 0" using mu_Lock by (auto simp: Lock_def mutex_bits)
      then show ?thesis by (rule mu_fresh_busy) simp
    qed (use mu_Lock keep [of m' g p] in \<open>auto simp: Lock_def\<close>)
  next
    case (mu_spin wt sv aw old p)
    then obtain l' w' s' k where old: "old = enc l' w' s' k" using ok [OF mu_spin(2)] by auto
    show ?thesis
    proof (cases "mstate m' = mstate m")
      case False
      then have "mstate m' = enc l' True s' k"
        using mu_spin(5) lock_spin_enc [OF st, of wt sv aw l' w' s' k] st unfolding old by (auto split: if_splits)
      then show ?thesis by (rule mu_fresh_busy) simp
    qed (use mu_spin(1-3) keep [of m' g p] in auto)
  next
    case (mu_cas wt sv aw old p)
    then obtain l' w' s' k where old: "old = enc l' w' s' k" "k + 1 < 2 ^ 28" "aw \<longrightarrow> w'"
      using ok [OF mu_cas(2)] by auto
    have r: "lock_cas wt sv aw (enc l' w' s' k) m = (p, m')" using mu_cas(4) old(1) by simp
    consider "mstate m' = mstate m" | w'' where "mstate m' = enc l' w'' True (Suc k)"
      | w'' s'' j where "mstate m' = enc True w'' s'' j"
      using r lock_cas_enc [OF old(2,3) st, of wt sv l' s'] by (cases s'; cases l'; simp split: if_splits; blast)
    then show ?thesis
    proof cases
      case 1
      then show ?thesis using mu_cas(1-3) keep [of m' g p] by simp
    next
      case 2
      then show ?thesis by (rule mu_fresh_busy) simp
    next
      case 3
      then show ?thesis by (rule mu_fresh_busy) simp
    qed
  next
    case (mu_handoff d p)
    have "0 < tally handing ps" using tally_ge [OF mu_handoff(2), of handing] mu_handoff by simp
    then have s: s and f: "\<not> l" "\<not> w" "0 < n" using M by (cases s; cases l; auto)+
    obtain k where k: "n = Suc k" using f(3) by (cases n) auto
    have dk: "d = - 11 \<or> d = - 7" using ok [OF mu_handoff(2)] mu_handoff by auto
    then have "mstate m + d = enc True False (d = - 7) k" using st s f k by (auto simp: enc_def)
    then have "mstate m' = enc True False (d = - 7) k"
      using mu_handoff(4) enc_i32 [of k True False "d = - 7"] n27 k by (auto simp: lock_handoff_def)
    then show ?thesis by (rule mu_fresh_busy) simp
  next
    case (mu_Unlock p)
    have "0 < tally hold ps" using tally_ge [OF mu_Unlock(2), of hold] mu_Unlock by simp
    then have l: l using M by (cases s; cases l; auto)
    then have e: "p = (if \<not> w \<and> \<not> s \<and> n = 0 then MuIdle else if s then UnlockHandoff else UnlockTry (enc False w s n))"
      "mstate m' = enc False w s n"
      using Unlock_enc [of m w s n] st n27 mu_Unlock(4) by auto
    have "UnlockTry (enc False w s n) \<in> set (ps[g := p])" if "\<not> w" "\<not> s" "0 < n"
      using e that mu_Unlock(2) set_update_memI [of g ps p] by simp
    then show ?thesis using mu_Unlock(1) e(2) by (auto simp: mu_fresh_def enc_eq)
  next
    case (mu_try old p)
    then obtain l' w' s' k where old: "old = enc l' w' s' k" "k < 2 ^ 28" using ok [OF mu_try(2)] by auto
    note E = unlock_try_enc [OF old(2) st, of l' w' s']
    show ?thesis
    proof (cases "old = mstate m")
      case True
      then have f: "l' = l" "w' = w" "s' = s" "k = n" using old st by (auto simp: enc_eq)
      show ?thesis
      proof (cases "n = 0 \<or> l \<or> w \<or> s")
        case True
        then have "mstate m' = enc l w s n" using mu_try(4) E f st unfolding old(1) by auto
        then show ?thesis using True by (rule_tac mu_fresh_busy) auto
      next
        case False
        have "unlock_try old m = (UnlockWake, m\<lparr>mstate := enc False True False (k - 1)\<rparr>)"
          unfolding old(1) E using False f by (auto simp: enc_eq)
        then have "mstate m' = enc False True False (k - 1)" using mu_try(4) by auto
        then show ?thesis by (rule mu_fresh_busy) simp
      qed
    next
      case False
      then have "mstate m' = mstate m" using mu_try(4) by (auto simp: unlock_try_def split: if_splits)
      then show ?thesis using mu_try(1-3) keep [of m' g p] False by auto
    qed
  next
    case (mu_wake p)
    then show ?thesis using keep [of m' g p] by (auto simp: unlock_release_def)
  qed (auto intro!: keep)
qed

lemma mu_run_inv:
  assumes "mu_run n s" "n < 2 ^ 27"
  shows "length (snd s) = n \<and> mu_inv (fst s) (snd s) \<and> mu_fresh (fst s) (snd s)"
  using assms(1)
proof (induction rule: mu_run.induct)
  case mu_start
  have e: "mstate mu_init = enc False False False 0" by (simp add: mu_init_def enc_def)
  have "mu_inv mu_init (replicate n MuIdle)"
    by (rule mu_invI [OF e]) (simp_all add: tally_replicate mu_init_def)
  then show ?case using mu_fresh_busy [OF e] by simp
next
  case (mu_next s g t)
  obtain m ps m' ps' where st: "s = (m, ps)" "t = (m', ps')" by fastforce
  have step: "mu_step (m, ps) g (m', ps')" using mu_next.hyps(2) st by simp
  have "length ps' = length ps" using step by cases auto
  then show ?case using mu_next.IH st assms(2) mu_step_inv [OF step] mu_step_fresh [OF step] by simp
qed

lemma holds_one:
  assumes "mu_inv m ps" "g < length ps" "h < length ps" "ps ! g = MuHold" "ps ! h = MuHold"
  shows "g = h"
proof (rule ccontr)
  assume "g \<noteq> h"
  have "tally hold ps \<le> 1" using assms(1) tally_hold_le by (auto simp: mu_inv_def)
  moreover have "tally hold (ps[g := MuIdle]) + 1 = tally hold ps"
    using tally_move [OF assms(2), of hold MuIdle] assms(4) by simp
  moreover have "1 \<le> tally hold (ps[g := MuIdle])"
    using tally_ge [of h "ps[g := MuIdle]" hold] assms(3,5) \<open>g \<noteq> h\<close> by simp
  ultimately show False by simp
qed

text \<open>The step as a function, for the witnesses: \<open>b\<close> is the choice of the environment.\<close>

definition mu_exec :: "bool \<Rightarrow> nat \<Rightarrow> mutex \<times> mu_pc list \<Rightarrow> (mutex \<times> mu_pc list) option" where
  "mu_exec b g s =
     (case s of (m, ps) \<Rightarrow>
        let set = (\<lambda>r. case r of (p, m') \<Rightarrow> Some (m', ps[g := p]))
        in if length ps \<le> g then None
           else case ps ! g of
             MuIdle \<Rightarrow> set (Lock m)
           | LockReread wt st aw \<Rightarrow> set (LockLoop wt st aw (mstate m), m)
           | LockLoop wt st aw old \<Rightarrow>
               if b then (if spins old then set (lock_spin wt st aw old m) else None) else set (lock_cas wt st aw old m)
           | LockAsleep st \<Rightarrow> if 0 < msema m then set (LockWoken (st \<or> b), m\<lparr>msema := msema m - 1\<rparr>) else None
           | LockWoken st \<Rightarrow> set (lock_woken st m, m)
           | LockHandoff d \<Rightarrow> set (lock_handoff d m)
           | MuHold \<Rightarrow> set (Unlock m)
           | UnlockTry old \<Rightarrow> set (unlock_try old m)
           | UnlockReread \<Rightarrow> set (UnlockTry (mstate m), m)
           | UnlockWake \<Rightarrow> set (unlock_release m)
           | UnlockHandoff \<Rightarrow> set (unlock_release m)
           | MuThrow _ \<Rightarrow> None)"

lemma mu_exec_step: "mu_exec b g s = Some t \<Longrightarrow> mu_step s g t"
  by (cases s; cases t)
    (auto simp: mu_exec_def Let_def not_le split: if_splits prod.splits mu_pc.splits
      intro: mu_step.intros mu_acquire [unfolded One_nat_def])

fun mu_execs :: "(nat \<times> bool) list \<Rightarrow> mutex \<times> mu_pc list \<Rightarrow> (mutex \<times> mu_pc list) option" where
  "mu_execs [] s = Some s"
| "mu_execs ((g, b) # ls) s = (case mu_exec b g s of Some t \<Rightarrow> mu_execs ls t | None \<Rightarrow> None)"

lemma mu_execs_run: "mu_run n s \<Longrightarrow> mu_execs ls s = Some t \<Longrightarrow> mu_run n t"
proof (induction ls arbitrary: s)
  case (Cons l ls)
  obtain g b where l: "l = (g, b)" by fastforce
  obtain u where u: "mu_exec b g s = Some u" "mu_execs ls u = Some t"
    using Cons.prems(2) l by (auto split: option.splits)
  show ?case by (rule Cons.IH [OF mu_next [OF Cons.prems(1) mu_exec_step [OF u(1)]] u(2)])
qed simp

text \<open>
  Goroutine 0 locks; 1 and 2 queue; 0 unlocks and wakes 1, which has waited too long; 0 locks
  again before it, so 1 switches the mutex to starvation mode; then 0 unlocks and hands over.
\<close>

definition mu_demo :: "(nat \<times> bool) list" where
  "mu_demo = [(0, False), (1, False), (1, False), (1, False), (2, False), (2, False), (2, False),
     (0, False), (0, False), (0, False), (1, True), (1, False), (0, False), (0, False), (0, False),
     (1, False), (1, False), (1, False)]"

definition mu_demo_state :: "mutex \<times> mu_pc list" where
  "mu_demo_state = (\<lparr>mstate = 21, msema = 0\<rparr>, [MuHold, LockAsleep True, LockAsleep False])"

lemma mu_demo_run: "mu_run 3 mu_demo_state"
proof -
  have "mu_execs mu_demo (mu_init, replicate 3 MuIdle) = Some mu_demo_state" by code_simp
  then show ?thesis by (rule mu_execs_run [OF mu_start])
qed


subsection \<open>Properties\<close>

fun thrown :: "mu_pc \<Rightarrow> bool" where
  "thrown (MuThrow _) = True" | "thrown _ = False"

text \<open>A goroutine that is not outside the calls and not asleep: it can take a step.\<close>

fun moving :: "mu_pc \<Rightarrow> bool" where
  "moving MuIdle = False" | "moving (LockAsleep _) = False" | "moving _ = True"

lemma moving_weights:
  "0 < hold p \<or> 0 < woke p \<or> 0 < awake p \<or> 0 < handing p \<or> 0 < waker p \<or> 0 < giver p \<Longrightarrow> moving p"
  by (cases p) auto

text \<open>
  C1: A \<open>Mutex\<close> excludes: in every run of fewer than \<open>2 ^ 27\<close> goroutines, through the fast
  path, spinning, waking in normal mode and handing over in starvation mode, at most one of them
  holds the lock; and none of the \<open>throw\<close>s (inconsistent state, unlock of an unlocked mutex) is
  reached.
\<close>

theorem mutex_excludes:
  assumes "mu_run n (m, ps)" "n < 2 ^ 27"
  shows "length (filter (\<lambda>p. p = MuHold) ps) \<le> 1 \<and> \<not> list_ex thrown ps"
proof
  have inv: "mu_inv m ps" using mu_run_inv [OF assms] by simp
  have "length (filter (\<lambda>p. p = MuHold) qs) = tally hold qs" for qs
  proof (induction qs)
    case (Cons q qs)
    then show ?case by (cases q) (simp_all add: tally_def)
  qed (simp add: tally_def)
  moreover have "tally hold ps \<le> 1" using inv tally_hold_le by (auto simp: mu_inv_def)
  ultimately show "length (filter (\<lambda>p. p = MuHold) ps) \<le> 1" by simp
  have "\<not> thrown p" if "mu_pc_ok k p" for k p using that by (cases p) auto
  then show "\<not> list_ex thrown ps" using inv by (auto simp: mu_inv_def list_ex_length)
qed

lemma mutex_excludes_witness: "\<not> list_ex thrown (snd mu_demo_state)"
  using mutex_excludes [of 3 "fst mu_demo_state" "snd mu_demo_state"] mu_demo_run by simp

text \<open>
  C40: No waiter of a \<open>Mutex\<close> is forgotten: as long as a goroutine sleeps in \<open>Lock\<close>, a unit of
  the semaphore is there for it, or another goroutine holds the lock, is locking or unlocking it,
  or has been woken, and can take a step.
\<close>

theorem no_waiter_is_forgotten:
  assumes "mu_run n (m, ps)" "n < 2 ^ 27" "0 < tally slept ps"
  shows "0 < msema m \<or> list_ex moving ps"
proof (rule ccontr)
  assume a: "\<not> (0 < msema m \<or> list_ex moving ps)"
  then have z: "tally f ps = 0" if "\<And>p. 0 < f p \<Longrightarrow> moving p" for f
    using tally_pos [of f ps] that by (auto simp: list_ex_length)
  have t: "tally hold ps = 0" "tally woke ps = 0" "tally awake ps = 0" "tally handing ps = 0" "tally waker ps = 0"
    "tally giver ps = 0" by (rule z; use moving_weights in blast)+
  obtain l w s k where st: "mstate m = enc l w s k" "mode_ok l w s k (msema m) ps"
    using mu_run_inv [OF assms(1,2)] by (auto simp: mu_inv_def)
  have "\<not> l \<and> \<not> w \<and> \<not> s \<and> 0 < k" using st(2) t a assms(3) by (cases s; cases l; cases w) auto
  then have "UnlockTry (mstate m) \<in> set ps"
    using mu_run_inv [OF assms(1,2)] st(1) by (auto simp: mu_fresh_def)
  then have "list_ex moving ps" by (auto simp: list_ex_iff intro!: bexI [of _ "UnlockTry (mstate m)"])
  then show False using a by blast
qed

lemma no_waiter_is_forgotten_witness: "0 < msema (fst mu_demo_state) \<or> list_ex moving (snd mu_demo_state)"
proof -
  have "0 < tally slept (snd mu_demo_state)" by (simp add: mu_demo_state_def tally_def)
  then show ?thesis using no_waiter_is_forgotten [of 3 "fst mu_demo_state" "snd mu_demo_state"] mu_demo_run by simp
qed

end
