(* ===== verification/GoOnce.thy ===== *)
theory GoOnce
  imports GoMutexRuns
begin

text \<open>
  \<open>src/src/sync/once.go\<close>: \<open>Once\<close>, over any mutex that excludes, and over the \<open>Mutex\<close> of
  \<open>GoMutex\<close>. A step is one atomic operation of one goroutine; while it locks or unlocks, the steps
  are the mutex's own.
\<close>

record once_state =
  once_done :: nat
  starts :: nat
  finishes :: nat

text \<open>
  Where a call of \<open>Do\<close> is: not made yet; in \<open>o.m.Lock()\<close>; inside, before the second test; in
  \<open>f\<close>; before the deferred \<open>StoreUint32\<close>; in the deferred \<open>Unlock\<close>; returned. \<open>starts\<close> and
  \<open>finishes\<close> count the calls of \<open>f\<close> that have begun and that have ended, by a return or a panic.
\<close>

datatype once_pc = OnceCall | OnceLock | OnceInside | OnceInF | OnceStore | OnceUnlock | OnceReturned

definition once_load :: "once_state \<Rightarrow> once_pc" where
  "once_load o1 = (if once_done o1 = 0 then OnceLock else OnceReturned)"

definition once_test :: "once_state \<Rightarrow> once_pc \<times> once_state" where
  "once_test o1 = (if once_done o1 = 0 then (OnceInF, o1\<lparr>starts := starts o1 + 1\<rparr>) else (OnceUnlock, o1))"

definition once_store :: "once_state \<Rightarrow> once_state" where
  "once_store o1 = o1\<lparr>once_done := 1\<rparr>"

text \<open>
  The mutex is a parameter: its steps, who holds it, who is neither locking nor unlocking it.
\<close>

inductive once_step ::
  "('s \<Rightarrow> nat \<Rightarrow> 's \<Rightarrow> bool) \<Rightarrow> ('s \<Rightarrow> nat \<Rightarrow> bool) \<Rightarrow> ('s \<Rightarrow> nat \<Rightarrow> bool) \<Rightarrow>
   once_state \<times> 's \<times> once_pc list \<Rightarrow> once_state \<times> 's \<times> once_pc list \<Rightarrow> bool"
  for lstep holds idle where
  o_load: "g < length ps \<Longrightarrow> ps ! g = OnceCall \<Longrightarrow> once_step lstep holds idle (w, s, ps) (w, s, ps[g := once_load w])"
| o_locking:
    "g < length ps \<Longrightarrow> ps ! g = OnceLock \<Longrightarrow> \<not> holds s g \<Longrightarrow> lstep s g t \<Longrightarrow>
     once_step lstep holds idle (w, s, ps) (w, t, ps)"
| o_locked:
    "g < length ps \<Longrightarrow> ps ! g = OnceLock \<Longrightarrow> holds s g \<Longrightarrow>
     once_step lstep holds idle (w, s, ps) (w, s, ps[g := OnceInside])"
| o_test:
    "g < length ps \<Longrightarrow> ps ! g = OnceInside \<Longrightarrow> once_test w = (p, w') \<Longrightarrow>
     once_step lstep holds idle (w, s, ps) (w', s, ps[g := p])"
| o_end:
    "g < length ps \<Longrightarrow> ps ! g = OnceInF \<Longrightarrow>
     once_step lstep holds idle (w, s, ps) (w\<lparr>finishes := finishes w + 1\<rparr>, s, ps[g := OnceStore])"
| o_store:
    "g < length ps \<Longrightarrow> ps ! g = OnceStore \<Longrightarrow>
     once_step lstep holds idle (w, s, ps) (once_store w, s, ps[g := OnceUnlock])"
| o_unlocking:
    "g < length ps \<Longrightarrow> ps ! g = OnceUnlock \<Longrightarrow> \<not> idle s g \<Longrightarrow> lstep s g t \<Longrightarrow>
     once_step lstep holds idle (w, s, ps) (w, t, ps)"
| o_return:
    "g < length ps \<Longrightarrow> ps ! g = OnceUnlock \<Longrightarrow> idle s g \<Longrightarrow>
     once_step lstep holds idle (w, s, ps) (w, s, ps[g := OnceReturned])"

definition once_init :: once_state where
  "once_init = \<lparr>once_done = 0, starts = 0, finishes = 0\<rparr>"

inductive once_run ::
  "('s \<Rightarrow> nat \<Rightarrow> 's \<Rightarrow> bool) \<Rightarrow> ('s \<Rightarrow> nat \<Rightarrow> bool) \<Rightarrow> ('s \<Rightarrow> nat \<Rightarrow> bool) \<Rightarrow> 's \<Rightarrow> nat \<Rightarrow>
   once_state \<times> 's \<times> once_pc list \<Rightarrow> bool"
  for lstep holds idle s0 n where
  once_start: "once_run lstep holds idle s0 n (once_init, s0, replicate n OnceCall)"
| once_next:
    "once_run lstep holds idle s0 n x \<Longrightarrow> once_step lstep holds idle x y \<Longrightarrow> once_run lstep holds idle s0 n y"

subsection \<open>What \<open>Once\<close> asks of the mutex\<close>

fun inside :: "once_pc \<Rightarrow> nat" where
  "inside OnceInside = 1" | "inside OnceInF = 1" | "inside OnceStore = 1" | "inside _ = 0"

fun in_f :: "once_pc \<Rightarrow> nat" where
  "in_f OnceInF = 1" | "in_f _ = 0"

fun storing :: "once_pc \<Rightarrow> nat" where
  "storing OnceStore = 1" | "storing _ = 0"

fun past :: "once_pc \<Rightarrow> bool" where
  "past OnceUnlock = True" | "past OnceReturned = True" | "past _ = False"

definition once_inv :: "('s \<Rightarrow> nat \<Rightarrow> bool) \<Rightarrow> once_state \<times> 's \<times> once_pc list \<Rightarrow> bool" where
  "once_inv holds x \<longleftrightarrow>
     (case x of (w, s, ps) \<Rightarrow>
       (\<forall>g < length ps. inside (ps ! g) \<noteq> 0 \<longrightarrow> holds s g) \<and> tally inside ps \<le> 1 \<and>
       (if once_done w = 0
        then starts w = tally in_f ps + tally storing ps \<and> finishes w = tally storing ps \<and>
          (\<forall>g < length ps. \<not> past (ps ! g))
        else starts w = 1 \<and> finishes w = 1 \<and> tally in_f ps = 0 \<and> tally storing ps = 0))"

lemma inside_le: "in_f p + storing p \<le> inside p"
  by (cases p) simp_all

lemma tally_inside: "tally in_f ps + tally storing ps \<le> tally inside ps"
proof (induction ps)
  case (Cons p ps)
  then show ?case using inside_le [of p] by (simp add: tally_def)
qed (simp add: tally_def)

locale mutual_exclusion =
  fixes lstep :: "'s \<Rightarrow> nat \<Rightarrow> 's \<Rightarrow> bool" and ok :: "'s \<Rightarrow> bool"
    and holds :: "'s \<Rightarrow> nat \<Rightarrow> bool" and idle :: "'s \<Rightarrow> nat \<Rightarrow> bool"
  assumes ok_step: "lstep s g t \<Longrightarrow> ok s \<Longrightarrow> ok t"
    and excl: "ok s \<Longrightarrow> holds s g \<Longrightarrow> holds s h \<Longrightarrow> g = h"
    and others: "lstep s g t \<Longrightarrow> h \<noteq> g \<Longrightarrow> holds t h \<longleftrightarrow> holds s h"
begin

lemma enter:
  assumes "ok s" "once_inv holds (w, s, ps)" "g < length ps" "ps ! g = OnceLock" "holds s g"
  shows "tally inside ps = 0"
proof (rule ccontr)
  assume "tally inside ps \<noteq> 0"
  then obtain h where h: "h < length ps" "0 < inside (ps ! h)" using tally_pos by blast
  then have "holds s h" using assms(2) by (auto simp: once_inv_def)
  then have "h = g" using excl assms(1,5) by blast
  then show False using h assms(4) by simp
qed

lemma step_inv:
  assumes step: "once_step lstep holds idle (w, s, ps) (w', s', ps')" and ok: "ok s" and inv: "once_inv holds (w, s, ps)"
  shows "ok s' \<and> once_inv holds (w', s', ps')"
proof -
  have I: "\<And>g. g < length ps \<Longrightarrow> inside (ps ! g) \<noteq> 0 \<Longrightarrow> holds s g" "tally inside ps \<le> 1"
    and C: "if once_done w = 0
        then starts w = tally in_f ps + tally storing ps \<and> finishes w = tally storing ps \<and>
          (\<forall>g < length ps. \<not> past (ps ! g))
        else starts w = 1 \<and> finishes w = 1 \<and> tally in_f ps = 0 \<and> tally storing ps = 0"
    using inv by (auto simp: once_inv_def)
  note T = tally_move [where f = inside] tally_move [where f = in_f] tally_move [where f = storing]
  from step show ?thesis
  proof cases
    case (o_load g)
    then show ?thesis using I C ok T [OF o_load(4), of "once_load w"]
      by (auto simp: once_inv_def once_load_def nth_list_update split: if_splits)
  next
    case (o_locking g)
    have "holds s' h" if "h < length ps" "inside (ps ! h) \<noteq> 0" for h
      using I(1) [OF that] others [OF o_locking(6), of h] o_locking that by (cases "h = g") auto
    then show ?thesis using I C ok ok_step [OF o_locking(6)] o_locking by (auto simp: once_inv_def)
  next
    case (o_locked g)
    have "tally inside ps = 0" by (rule enter [OF ok inv o_locked(4-6)])
    then show ?thesis using I C ok o_locked T [OF o_locked(4), of OnceInside]
      by (auto simp: once_inv_def nth_list_update split: if_splits)
  next
    case (o_test g p)
    have t: "tally inside ps = 1" using tally_ge [OF o_test(3), of inside] I(2) o_test by simp
    have "tally inside (ps[g := OnceReturned]) = 0" using T(1) [OF o_test(3), of OnceReturned] t o_test by simp
    then have z: "tally in_f ps = 0" "tally storing ps = 0"
      using tally_inside [of "ps[g := OnceReturned]"] T(2,3) [OF o_test(3), of OnceReturned] o_test by simp_all
    show ?thesis
    proof (cases "once_done w = 0")
      case True
      then have e: "p = OnceInF" "w' = w\<lparr>starts := starts w + 1\<rparr>" using o_test by (auto simp: once_test_def)
      show ?thesis using I C ok o_test(1-4) e True z T [OF o_test(3), of p]
        by (auto simp: once_inv_def nth_list_update)
    next
      case False
      then have e: "p = OnceUnlock" "w' = w" using o_test by (auto simp: once_test_def)
      show ?thesis using I C ok o_test(1-4) e False z T [OF o_test(3), of p]
        by (auto simp: once_inv_def nth_list_update)
    qed
  next
    case (o_end g)
    have "1 \<le> tally in_f ps" using tally_ge [OF o_end(4), of in_f] o_end by simp
    then show ?thesis using I C ok o_end T [OF o_end(4), of OnceStore]
      by (auto simp: once_inv_def nth_list_update split: if_splits)
  next
    case (o_store g)
    have "1 \<le> tally storing ps" using tally_ge [OF o_store(4), of storing] o_store by simp
    then show ?thesis using I C ok o_store T [OF o_store(4), of OnceUnlock] tally_inside [of ps]
      by (auto simp: once_inv_def once_store_def nth_list_update split: if_splits)
  next
    case (o_unlocking g)
    have "holds s' h" if "h < length ps" "inside (ps ! h) \<noteq> 0" for h
      using I(1) [OF that] others [OF o_unlocking(6), of h] o_unlocking that by (cases "h = g") auto
    then show ?thesis using I C ok ok_step [OF o_unlocking(6)] o_unlocking by (auto simp: once_inv_def)
  next
    case (o_return g)
    have "once_done w \<noteq> 0" using C o_return by (auto split: if_splits)
    then show ?thesis using I C ok o_return T [OF o_return(4), of OnceReturned]
      by (auto simp: once_inv_def nth_list_update)
  qed
qed

lemma run_inv:
  assumes "once_run lstep holds idle s0 n x" "ok s0"
  shows "ok (fst (snd x)) \<and> once_inv holds x"
  using assms(1)
proof (induction rule: once_run.induct)
  case once_start
  then show ?case using assms(2) by (simp add: once_inv_def once_init_def tally_replicate)
next
  case (once_next x y)
  then show ?case using step_inv by (cases x; cases y) (auto dest!: step_inv)
qed

text \<open>\<open>f\<close> runs at most once, and no call returns before it has ended.\<close>

lemma exactly_once:
  assumes "once_run lstep holds idle s0 n (w, s, ps)" "ok s0"
  shows "starts w \<le> 1" "g < length ps \<Longrightarrow> ps ! g = OnceReturned \<Longrightarrow> starts w = 1 \<and> finishes w = 1"
proof -
  have inv: "once_inv holds (w, s, ps)" using run_inv [OF assms] by simp
  show "starts w \<le> 1" using inv tally_inside [of ps] by (auto simp: once_inv_def split: if_splits)
  show "starts w = 1 \<and> finishes w = 1" if "g < length ps" "ps ! g = OnceReturned"
    using inv that by (auto simp: once_inv_def split: if_splits)
qed

end

subsection \<open>The mutex of the package provides it\<close>

definition mu_ok :: "mutex \<times> mu_pc list \<Rightarrow> bool" where
  "mu_ok s \<longleftrightarrow> length (snd s) < 2 ^ 27 \<and> mu_inv (fst s) (snd s)"

definition mu_holds :: "mutex \<times> mu_pc list \<Rightarrow> nat \<Rightarrow> bool" where
  "mu_holds s g \<longleftrightarrow> g < length (snd s) \<and> snd s ! g = MuHold"

definition mu_idle :: "mutex \<times> mu_pc list \<Rightarrow> nat \<Rightarrow> bool" where
  "mu_idle s g \<longleftrightarrow> g < length (snd s) \<and> snd s ! g = MuIdle"

interpretation package_mutex: mutual_exclusion mu_step mu_ok mu_holds mu_idle
proof
  fix s t :: "mutex \<times> mu_pc list" and g h :: nat
  obtain m ps m' ps' where st: "s = (m, ps)" "t = (m', ps')" by fastforce
  show "mu_ok t" if "mu_step s g t" "mu_ok s"
  proof -
    have step: "mu_step (m, ps) g (m', ps')" using that st by simp
    then have "length ps' = length ps" by cases auto
    then show ?thesis using that(2) st mu_step_inv [OF step] by (simp add: mu_ok_def)
  qed
  show "g = h" if "mu_ok s" "mu_holds s g" "mu_holds s h"
    using that holds_one by (auto simp: mu_ok_def mu_holds_def)
  show "mu_holds t h \<longleftrightarrow> mu_holds s h" if "mu_step s g t" "h \<noteq> g"
  proof -
    have "\<exists>p. ps' = ps[g := p]" using that(1) unfolding st by cases auto
    then show ?thesis using that(2) st by (auto simp: mu_holds_def)
  qed
qed

lemma mu_init_ok: "n < 2 ^ 27 \<Longrightarrow> mu_ok (mu_init, replicate n MuIdle)"
  using mu_run_inv [OF mu_start] by (simp add: mu_ok_def)


subsection \<open>Properties\<close>

text \<open>
  C12: \<open>Once\<close>, over the package's own \<open>Mutex\<close>, runs \<open>f\<close> exactly once: however many goroutines
  call \<open>Do\<close> and however their steps interleave, \<open>f\<close> is never started twice, and when any of the
  calls has returned, \<open>f\<close> has been run to its end.
\<close>

theorem once_runs_exactly_once:
  assumes "once_run mu_step mu_holds mu_idle (mu_init, replicate n MuIdle) n (w, s, ps)" "n < 2 ^ 27"
  shows "starts w \<le> 1 \<and> (OnceReturned \<in> set ps \<longrightarrow> starts w = 1 \<and> finishes w = 1)"
  using package_mutex.exactly_once [OF assms(1) mu_init_ok [OF assms(2)]] by (auto simp: in_set_conv_nth)

lemma once_demo_run:
  "once_run mu_step mu_holds mu_idle (mu_init, replicate 1 MuIdle) 1
     (\<lparr>once_done = 1, starts = 1, finishes = 1\<rparr>, (\<lparr>mstate = 0, msema = 0\<rparr>, [MuIdle]), [OnceReturned])"
proof -
  let ?R = "once_run mu_step mu_holds mu_idle (mu_init, replicate 1 MuIdle) 1"
  let ?u = "(\<lparr>mstate = 0, msema = 0\<rparr>, [MuIdle])" and ?l = "(\<lparr>mstate = 1, msema = 0\<rparr>, [MuHold])"
  have lock: "mu_step ?u 0 ?l" "mu_step ?l 0 ?u" by (rule mu_exec_step [of False], code_simp)+
  have s: "?R (once_init, ?u, [OnceCall])"
    using once_start [of mu_step mu_holds mu_idle "(mu_init, replicate 1 MuIdle)" 1] by (simp add: mu_init_def)
  have "?R (once_init, ?u, [OnceLock])"
    using once_next [OF s o_load [of 0]] by (simp add: once_load_def once_init_def)
  from once_next [OF this o_locking [of 0 _ _ _ _ ?l]] have "?R (once_init, ?l, [OnceLock])"
    using lock by (simp add: mu_holds_def)
  from once_next [OF this o_locked [of 0]] have "?R (once_init, ?l, [OnceInside])" by (simp add: mu_holds_def)
  from once_next [OF this o_test [of 0 _ _ OnceInF "once_init\<lparr>starts := 1\<rparr>"]]
  have "?R (once_init\<lparr>starts := 1\<rparr>, ?l, [OnceInF])" by (simp add: once_test_def once_init_def)
  from once_next [OF this o_end [of 0]] have "?R (once_init\<lparr>starts := 1, finishes := 1\<rparr>, ?l, [OnceStore])"
    by (simp add: once_init_def)
  from once_next [OF this o_store [of 0]] have "?R (\<lparr>once_done = 1, starts = 1, finishes = 1\<rparr>, ?l, [OnceUnlock])"
    by (simp add: once_init_def once_store_def)
  from once_next [OF this o_unlocking [of 0 _ _ _ _ ?u]]
  have "?R (\<lparr>once_done = 1, starts = 1, finishes = 1\<rparr>, ?u, [OnceUnlock])" using lock by (simp add: mu_idle_def)
  from once_next [OF this o_return [of 0]] show ?thesis by (simp add: mu_idle_def)
qed

lemma once_runs_exactly_once_witness: "finishes \<lparr>once_done = 1, starts = 1, finishes = 1\<rparr> = 1"
  using once_runs_exactly_once [OF once_demo_run] by simp

end
