(* ===== verification/GoRand.thy ===== *)
theory GoRand
  imports Prelude "HOL-Library.Word"
begin

text \<open>\<open>src/src/runtime/stubs.go\<close>: the random numbers of a thread.\<close>

unbundle bit_operations_syntax

type_synonym rand_state = "32 word \<times> 32 word"

definition fastrand :: "rand_state \<Rightarrow> nat \<times> rand_state" where
  "fastrand r =
     (let (s1, s0) = r;
          s1 = s1 XOR push_bit 17 s1;
          s1 = s1 XOR s0 XOR drop_bit 7 s1 XOR drop_bit 16 s0
      in (unat (s0 + s1), (s0, s1)))"

definition fastrandn :: "nat \<Rightarrow> rand_state \<Rightarrow> nat \<times> rand_state" where
  "fastrandn n r = (case fastrand r of (x, r) \<Rightarrow> (x * n mod 2 ^ 64 div 2 ^ 32 mod 2 ^ 32, r))"

lemma fastrandn_less:
  assumes "0 < n" "n < 2 ^ 32"
  shows "fst (fastrandn n r) < n"
proof -
  obtain x r' where x: "fastrand r = (x, r')" by (cases "fastrand r")
  obtain y :: "32 word" where "x = unat y" using x by (auto simp: fastrand_def Let_def split: prod.splits)
  then have lt: "x < 2 ^ 32" using unsigned_less [of y, where 'a = nat] by simp
  then have "x * n < 2 ^ 32 * n" using assms(1) by simp
  then have "x * n div 2 ^ 32 < n" by (simp add: less_mult_imp_div_less mult.commute)
  moreover have "x * n mod 2 ^ 64 div 2 ^ 32 mod 2 ^ 32 \<le> x * n div 2 ^ 32"
    by (meson div_le_mono le_trans mod_less_eq_dividend)
  ultimately show ?thesis using x by (simp add: fastrandn_def)
qed

end
