(* ===== verification/GoMap.thy ===== *)
theory GoMap
  imports GoRand
begin

unbundle bit_operations_syntax

text \<open>
  \<open>src/src/runtime/map.go\<close>: Go's hash map. A bucket and its overflow buckets are one list of
  cells, eight to a bucket, in the order the code walks them; a cell is its \<open>tophash\<close> and the
  key and element stored there. The hash function of the key type is the parameter \<open>hasher\<close>
  (seed and key), its \<open>equal\<close> is equality: the keys for which Go's \<open>==\<close> is not (NaN, the two
  zeros) are not modelled, nor are hash functions that panic. The memory side (preallocated
  overflow buckets, the lists in \<open>mapextra\<close> that keep them alive) is left out, and so are the
  calls of the race and memory sanitizers.
\<close>

subsection \<open>Cells, buckets and the header\<close>

definition bucketCnt :: nat where "bucketCnt = 8"
definition emptyRest :: nat where "emptyRest = 0"
definition emptyOne :: nat where "emptyOne = 1"
definition evacuatedX :: nat where "evacuatedX = 2"
definition evacuatedY :: nat where "evacuatedY = 3"
definition evacuatedEmpty :: nat where "evacuatedEmpty = 4"
definition minTopHash :: nat where "minTopHash = 5"

lemmas top_defs = emptyRest_def emptyOne_def evacuatedX_def evacuatedY_def evacuatedEmpty_def minTopHash_def

type_synonym ('k, 'v) cell = "nat \<times> ('k \<times> 'v) option"

type_synonym ('k, 'v) bmap = "('k, 'v) cell list"

datatype map_throw = ConcurrentReadAndWrite | ConcurrentWrites | AssignToNilMap | BadMapState | TriedAgain

text \<open>The state of \<open>fastrand\<close>, of the thread that runs the operation, goes with the map.\<close>

record ('k, 'v) hmap =
  hcount :: nat
  iterator :: bool
  oldIterator :: bool
  hashWriting :: bool
  sameSizeFlag :: bool
  hB :: nat
  noverflow :: nat
  hash0 :: nat
  buckets :: "('k, 'v) bmap list option"
  oldbuckets :: "('k, 'v) bmap list option"
  nevacuate :: nat
  rng :: rand_state

record 'k maptype =
  hasher :: "nat \<Rightarrow> 'k \<Rightarrow> nat"
  hasPointers :: bool

definition isEmpty :: "nat \<Rightarrow> bool" where
  "isEmpty x \<longleftrightarrow> x \<le> emptyOne"

definition bucketShift :: "nat \<Rightarrow> nat" where
  "bucketShift b = 2 ^ b"

definition tophash :: "nat \<Rightarrow> nat" where
  "tophash hash = (let tp = hash div 2 ^ 56 mod 256 in if tp < minTopHash then tp + minTopHash else tp)"

definition evacuated :: "('k, 'v) bmap \<Rightarrow> bool" where
  "evacuated b \<longleftrightarrow> (let h = fst (hd b) in emptyOne < h \<and> h < minTopHash)"

definition empty_bucket :: "('k, 'v) bmap" where
  "empty_bucket = replicate bucketCnt (emptyRest, None)"

definition makeBucketArray :: "nat \<Rightarrow> ('k, 'v) bmap list" where
  "makeBucketArray b = replicate (bucketShift b) empty_bucket"

definition incrnoverflow :: "('k, 'v) hmap \<Rightarrow> ('k, 'v) hmap" where
  "incrnoverflow h =
     (if hB h < 16 then h\<lparr>noverflow := (noverflow h + 1) mod 2 ^ 16\<rparr>
      else let (r, g) = fastrand (rng h); h = h\<lparr>rng := g\<rparr>
           in if r mod 2 ^ (hB h - 15) = 0 then h\<lparr>noverflow := (noverflow h + 1) mod 2 ^ 16\<rparr> else h)"

text \<open>A new overflow bucket at the end of a bucket's chain.\<close>

definition newoverflow :: "('k, 'v) hmap \<Rightarrow> ('k, 'v) bmap \<Rightarrow> ('k, 'v) bmap \<times> ('k, 'v) hmap" where
  "newoverflow h b = (b @ empty_bucket, incrnoverflow h)"

definition overLoadFactor :: "nat \<Rightarrow> nat \<Rightarrow> bool" where
  "overLoadFactor n b \<longleftrightarrow> bucketCnt < n \<and> 13 * (bucketShift b div 2) < n"

definition tooManyOverflowBuckets :: "nat \<Rightarrow> nat \<Rightarrow> bool" where
  "tooManyOverflowBuckets n b \<longleftrightarrow> 2 ^ (if 15 < b then 15 else b) \<le> n"

definition growing :: "('k, 'v) hmap \<Rightarrow> bool" where
  "growing h \<longleftrightarrow> oldbuckets h \<noteq> None"

definition noldbuckets :: "('k, 'v) hmap \<Rightarrow> nat" where
  "noldbuckets h = bucketShift (if sameSizeFlag h then hB h else hB h - 1)"

subsection \<open>Making a map\<close>

definition new_hmap :: "rand_state \<Rightarrow> ('k, 'v) hmap" where
  "new_hmap g =
     \<lparr>hcount = 0, iterator = False, oldIterator = False, hashWriting = False, sameSizeFlag = False,
      hB = 0, noverflow = 0, hash0 = fst (fastrand g), buckets = None, oldbuckets = None, nevacuate = 0,
      rng = snd (fastrand g)\<rparr>"

definition makemap_small :: "rand_state \<Rightarrow> ('k, 'v) hmap" where
  "makemap_small g = new_hmap g"

function load_B :: "nat \<Rightarrow> nat \<Rightarrow> nat" where
  "load_B hint b = (if overLoadFactor hint b then load_B hint (b + 1) else b)"
  by pat_completeness auto
termination
proof (relation "measure (\<lambda>(hint, b). hint - b)")
  fix hint b :: nat
  assume "overLoadFactor hint b"
  then have "13 * (2 ^ b div 2) < hint" "8 < hint" by (simp_all add: overLoadFactor_def bucketShift_def bucketCnt_def)
  moreover have "b \<le> 13 * (2 ^ b div 2) \<or> b = 0"
  proof (cases b)
    case (Suc c)
    have "c < 2 ^ c" by (rule less_exp)
    then have "Suc c \<le> 13 * 2 ^ c" by linarith
    then show ?thesis using Suc by simp
  qed simp
  ultimately show "((hint, b + 1), hint, b) \<in> measure (\<lambda>(hint, b). hint - b)" by auto
qed simp

declare load_B.simps [simp del]

text \<open>
  \<open>bucket_size\<close> is the size of a bucket of the type and \<open>maxAlloc\<close> the largest allocation: a
  hint too large for either is taken as 0.
\<close>

definition makemap :: "nat \<Rightarrow> nat \<Rightarrow> int \<Rightarrow> rand_state \<Rightarrow> ('k, 'v) hmap" where
  "makemap bucket_size maxAlloc hint g =
     (let mem = nat (u64 hint) * bucket_size;
          hint = (if 2 ^ 64 \<le> mem \<or> maxAlloc < mem then 0 else hint);
          h = new_hmap g;
          b = (if hint < 0 then 0 else load_B (nat hint) 0)
      in if b = 0 then h else h\<lparr>hB := b, buckets := Some (makeBucketArray b)\<rparr>)"

subsection \<open>Looking up\<close>

text \<open>The bucket a hash belongs to: the old one as long as it has not been evacuated.\<close>

definition bucket_of :: "('k, 'v) hmap \<Rightarrow> nat \<Rightarrow> ('k, 'v) bmap" where
  "bucket_of h hash =
     (let b = the (buckets h) ! (hash mod bucketShift (hB h))
      in case oldbuckets h of
           None \<Rightarrow> b
         | Some c \<Rightarrow> let oldb = c ! (hash mod noldbuckets h) in if evacuated oldb then b else oldb)"

fun find_cell :: "nat \<Rightarrow> 'k \<Rightarrow> ('k, 'v) bmap \<Rightarrow> ('k \<times> 'v) option" where
  "find_cell tp key [] = None"
| "find_cell tp key ((t, e) # cs) =
     (if t \<noteq> tp then if t = emptyRest then None else find_cell tp key cs
      else case e of
             Some (k, v) \<Rightarrow> if k = key then Some (k, v) else find_cell tp key cs
           | None \<Rightarrow> find_cell tp key cs)"

text \<open>\<open>None\<close> for the header is the nil map.\<close>

definition mapaccessK :: "'k maptype \<Rightarrow> ('k, 'v) hmap option \<Rightarrow> 'k \<Rightarrow> ('k \<times> 'v) option" where
  "mapaccessK t h key =
     (case h of
        None \<Rightarrow> None
      | Some h \<Rightarrow>
          if hcount h = 0 then None
          else let hash = hasher t (hash0 h) key in find_cell (tophash hash) key (bucket_of h hash))"

definition mapaccess2 :: "'k maptype \<Rightarrow> ('k, 'v) hmap option \<Rightarrow> 'k \<Rightarrow> map_throw + 'v option" where
  "mapaccess2 t h key =
     (case h of
        None \<Rightarrow> Inr None
      | Some h \<Rightarrow>
          if hcount h = 0 then Inr None
          else if hashWriting h then Inl ConcurrentReadAndWrite
          else let hash = hasher t (hash0 h) key
               in Inr (map_option snd (find_cell (tophash hash) key (bucket_of h hash))))"

definition mapaccess1 :: "'v \<Rightarrow> 'k maptype \<Rightarrow> ('k, 'v) hmap option \<Rightarrow> 'k \<Rightarrow> map_throw + 'v" where
  "mapaccess1 zeroVal t h key =
     (case mapaccess2 t h key of
        Inl e \<Rightarrow> Inl e
      | Inr r \<Rightarrow> Inr (case r of Some v \<Rightarrow> v | None \<Rightarrow> zeroVal))"

subsection \<open>Growing\<close>

definition hashGrow :: "('k, 'v) hmap \<Rightarrow> ('k, 'v) hmap" where
  "hashGrow h =
     (let bigger = overLoadFactor (hcount h + 1) (hB h); b = (if bigger then hB h + 1 else hB h)
      in h\<lparr>sameSizeFlag := sameSizeFlag h \<or> \<not> bigger,
           iterator := False, oldIterator := iterator h,
           hB := b, oldbuckets := buckets h, buckets := Some (makeBucketArray b),
           nevacuate := 0, noverflow := 0\<rparr>)"

text \<open>An evacuation destination: the chain filled so far and the index of the next cell.\<close>

type_synonym ('k, 'v) evacDst = "('k, 'v) bmap \<times> nat"

definition evac_put ::
  "('k, 'v) cell \<Rightarrow> ('k, 'v) evacDst \<Rightarrow> ('k, 'v) hmap \<Rightarrow> ('k, 'v) evacDst \<times> ('k, 'v) hmap" where
  "evac_put c dst h =
     (let (b, i) = dst;
          (b, h) = (if i = length b then newoverflow h b else (b, h))
      in ((b[i := c], i + 1), h))"

text \<open>
  The loop over the cells of an old bucket: each is marked, and a full one is copied to the low
  (\<open>x\<close>) or the high (\<open>y\<close>) half. The result has the marks, in order.
\<close>

fun evac_cells ::
  "'k maptype \<Rightarrow> nat \<Rightarrow> ('k, 'v) bmap \<Rightarrow> ('k, 'v) evacDst \<Rightarrow> ('k, 'v) evacDst \<Rightarrow> ('k, 'v) hmap \<Rightarrow>
   map_throw + (nat list \<times> ('k, 'v) evacDst \<times> ('k, 'v) evacDst \<times> ('k, 'v) hmap)" where
  "evac_cells t newbit [] x y h = Inr ([], x, y, h)"
| "evac_cells t newbit ((tp, e) # cs) x y h =
     (if isEmpty tp
      then (case evac_cells t newbit cs x y h of
              Inl err \<Rightarrow> Inl err
            | Inr (ms, r) \<Rightarrow> Inr (evacuatedEmpty # ms, r))
      else if tp < minTopHash then Inl BadMapState
      else let useY = (\<not> sameSizeFlag h \<and>
                       (case e of Some (k, v) \<Rightarrow> odd (hasher t (hash0 h) k div newbit) | None \<Rightarrow> False));
               (x, y, h) = (if useY then case evac_put (tp, e) y h of (y, h) \<Rightarrow> (x, y, h)
                            else case evac_put (tp, e) x h of (x, h) \<Rightarrow> (x, y, h))
           in case evac_cells t newbit cs x y h of
                Inl err \<Rightarrow> Inl err
              | Inr (ms, r) \<Rightarrow> Inr ((if useY then evacuatedY else evacuatedX) # ms, r))"

fun evac_mark :: "('k, 'v) bmap list \<Rightarrow> nat \<Rightarrow> nat \<Rightarrow> nat" where
  "evac_mark old nev 0 = nev"
| "evac_mark old nev (Suc n) =
     (if nev < length old \<and> evacuated (old ! nev) then evac_mark old (nev + 1) n else nev)"

definition advanceEvacuationMark :: "('k, 'v) hmap \<Rightarrow> nat \<Rightarrow> ('k, 'v) hmap" where
  "advanceEvacuationMark h newbit =
     (let nev = nevacuate h + 1;
          stop = (if newbit < nev + 1024 then newbit else nev + 1024);
          nev = evac_mark (the (oldbuckets h)) nev (stop - nev)
      in if nev = newbit then h\<lparr>nevacuate := nev, oldbuckets := None, sameSizeFlag := False\<rparr>
         else h\<lparr>nevacuate := nev\<rparr>)"

text \<open>
  Copying one old bucket. The old bucket keeps its marks; unless an iterator is using it, its keys
  and elements are cleared and its overflow buckets unlinked (so that they can be collected).
\<close>

definition evacuate_bucket :: "'k maptype \<Rightarrow> nat \<Rightarrow> ('k, 'v) hmap \<Rightarrow> map_throw + ('k, 'v) hmap" where
  "evacuate_bucket t oldbucket h =
     (let old = the (oldbuckets h); b = old ! oldbucket; newbit = noldbuckets h; bs = the (buckets h)
      in case evac_cells t newbit b (bs ! oldbucket, 0)
                (if sameSizeFlag h then ([], 0) else (bs ! (oldbucket + newbit), 0)) h of
           Inl err \<Rightarrow> Inl err
         | Inr (ms, (x, _), (y, _), h) \<Rightarrow>
             let b = (if \<not> oldIterator h \<and> hasPointers t
                      then map (\<lambda>m. (m, None)) (take bucketCnt ms)
                      else map (\<lambda>(m, c). (m, snd c)) (zip ms b));
                 bs = bs[oldbucket := x];
                 bs = (if sameSizeFlag h then bs else bs[oldbucket + newbit := y])
             in Inr (h\<lparr>buckets := Some bs, oldbuckets := Some (old[oldbucket := b])\<rparr>))"

definition evacuate :: "'k maptype \<Rightarrow> nat \<Rightarrow> ('k, 'v) hmap \<Rightarrow> map_throw + ('k, 'v) hmap" where
  "evacuate t oldbucket h =
     (case if evacuated (the (oldbuckets h) ! oldbucket) then Inr h else evacuate_bucket t oldbucket h of
        Inl err \<Rightarrow> Inl err
      | Inr h \<Rightarrow> Inr (if oldbucket = nevacuate h then advanceEvacuationMark h (noldbuckets h) else h))"

definition growWork :: "'k maptype \<Rightarrow> nat \<Rightarrow> ('k, 'v) hmap \<Rightarrow> map_throw + ('k, 'v) hmap" where
  "growWork t bucket h =
     (case evacuate t (bucket mod noldbuckets h) h of
        Inl err \<Rightarrow> Inl err
      | Inr h \<Rightarrow> if growing h then evacuate t (nevacuate h) h else Inr h)"

subsection \<open>Assigning\<close>

datatype slot = Found nat | NotFound "nat option"

fun assign_scan :: "nat \<Rightarrow> 'k \<Rightarrow> ('k, 'v) bmap \<Rightarrow> nat \<Rightarrow> nat option \<Rightarrow> slot" where
  "assign_scan tp key [] i ins = NotFound ins"
| "assign_scan tp key ((t, e) # cs) i ins =
     (if t \<noteq> tp
      then let ins = (if isEmpty t \<and> ins = None then Some i else ins)
           in if t = emptyRest then NotFound ins else assign_scan tp key cs (i + 1) ins
      else case e of
             Some (k, _) \<Rightarrow> if k = key then Found i else assign_scan tp key cs (i + 1) ins
           | None \<Rightarrow> assign_scan tp key cs (i + 1) ins)"

definition set_bucket :: "nat \<Rightarrow> ('k, 'v) bmap \<Rightarrow> ('k, 'v) hmap \<Rightarrow> ('k, 'v) hmap" where
  "set_bucket i b h = h\<lparr>buckets := Some ((the (buckets h))[i := b])\<rparr>"

definition grow_if_growing :: "'k maptype \<Rightarrow> nat \<Rightarrow> ('k, 'v) hmap \<Rightarrow> map_throw + ('k, 'v) hmap" where
  "grow_if_growing t bucket h = (if growing h then growWork t bucket h else Inr h)"

text \<open>The key was not found: it goes to the cell \<open>inserti\<close>, or to a new overflow bucket.\<close>

definition insert_new :: "nat \<Rightarrow> nat \<Rightarrow> 'k \<Rightarrow> 'v \<Rightarrow> nat option \<Rightarrow> ('k, 'v) hmap \<Rightarrow> ('k, 'v) hmap" where
  "insert_new bucket tp key v inserti h =
     (let b = the (buckets h) ! bucket;
          (b, i, h) = (case inserti of
                         Some i \<Rightarrow> (b, i, h)
                       | None \<Rightarrow> case newoverflow h b of (newb, h) \<Rightarrow> (newb, length b, h))
      in (set_bucket bucket (b[i := (tp, Some (key, v))]) h)\<lparr>hcount := hcount h + 1\<rparr>)"

text \<open>
  From the label \<open>again\<close>; \<open>n\<close> bounds the jumps back to it. The store of the value through the
  pointer the code returns is part of the step.
\<close>

primrec assign_again :: "nat \<Rightarrow> 'k maptype \<Rightarrow> 'k \<Rightarrow> 'v \<Rightarrow> ('k, 'v) hmap \<Rightarrow> map_throw + ('k, 'v) hmap" where
  "assign_again 0 t key v h = Inl TriedAgain"
| "assign_again (Suc n) t key v h =
     (let hash = hasher t (hash0 h) key; bucket = hash mod bucketShift (hB h); tp = tophash hash
      in case grow_if_growing t bucket h of
           Inl err \<Rightarrow> Inl err
         | Inr h \<Rightarrow>
             let b = the (buckets h) ! bucket
             in case assign_scan tp key b 0 None of
                  Found i \<Rightarrow> Inr (set_bucket bucket (b[i := (tp, Some (key, v))]) h)
                | NotFound ins \<Rightarrow>
                    if \<not> growing h \<and>
                       (overLoadFactor (hcount h + 1) (hB h) \<or> tooManyOverflowBuckets (noverflow h) (hB h))
                    then assign_again n t key v (hashGrow h)
                    else Inr (insert_new bucket tp key v ins h))"

definition mapassign :: "'k maptype \<Rightarrow> 'k \<Rightarrow> 'v \<Rightarrow> ('k, 'v) hmap option \<Rightarrow> map_throw + ('k, 'v) hmap" where
  "mapassign t key v h =
     (case h of
        None \<Rightarrow> Inl AssignToNilMap
      | Some h \<Rightarrow>
          if hashWriting h then Inl ConcurrentWrites
          else let h = h\<lparr>hashWriting := True\<rparr>;
                   h = (if buckets h = None then h\<lparr>buckets := Some [empty_bucket]\<rparr> else h)
               in case assign_again 2 t key v h of
                    Inl err \<Rightarrow> Inl err
                  | Inr h \<Rightarrow> if hashWriting h then Inr (h\<lparr>hashWriting := False\<rparr>) else Inl ConcurrentWrites)"

subsection \<open>Deleting\<close>

fun del_find :: "nat \<Rightarrow> 'k \<Rightarrow> ('k, 'v) bmap \<Rightarrow> nat \<Rightarrow> nat option" where
  "del_find tp key [] i = None"
| "del_find tp key ((t, e) # cs) i =
     (if t \<noteq> tp then if t = emptyRest then None else del_find tp key cs (i + 1)
      else case e of
             Some (k, _) \<Rightarrow> if k = key then Some i else del_find tp key cs (i + 1)
           | None \<Rightarrow> del_find tp key cs (i + 1))"

text \<open>Trailing empty cells become \<open>emptyRest\<close>, from \<open>i\<close> backwards.\<close>

fun rest_back :: "nat \<Rightarrow> ('k, 'v) bmap \<Rightarrow> ('k, 'v) bmap" where
  "rest_back 0 b = b[0 := (emptyRest, None)]"
| "rest_back (Suc i) b =
     (let b = b[Suc i := (emptyRest, None)]
      in if fst (b ! i) = emptyOne then rest_back i b else b)"

definition del_cell :: "nat \<Rightarrow> ('k, 'v) bmap \<Rightarrow> ('k, 'v) bmap" where
  "del_cell i b =
     (let b = b[i := (emptyOne, None)]
      in if i + 1 < length b \<and> fst (b ! (i + 1)) \<noteq> emptyRest then b else rest_back i b)"

definition mapdelete :: "'k maptype \<Rightarrow> 'k \<Rightarrow> ('k, 'v) hmap option \<Rightarrow> map_throw + ('k, 'v) hmap option" where
  "mapdelete t key m =
     (case m of
        None \<Rightarrow> Inr None
      | Some h \<Rightarrow>
          if hcount h = 0 then Inr (Some h)
          else if hashWriting h then Inl ConcurrentWrites
          else let hash = hasher t (hash0 h) key; bucket = hash mod bucketShift (hB h)
               in case grow_if_growing t bucket (h\<lparr>hashWriting := True\<rparr>) of
                    Inl err \<Rightarrow> Inl err
                  | Inr h \<Rightarrow>
                      let b = the (buckets h) ! bucket;
                          h = (case del_find (tophash hash) key b 0 of
                                 None \<Rightarrow> h
                               | Some i \<Rightarrow> (set_bucket bucket (del_cell i b) h)\<lparr>hcount := hcount h - 1\<rparr>)
                      in if hashWriting h then Inr (Some (h\<lparr>hashWriting := False\<rparr>)) else Inl ConcurrentWrites)"

definition mapclear :: "('k, 'v) hmap option \<Rightarrow> map_throw + ('k, 'v) hmap option" where
  "mapclear m =
     (case m of
        None \<Rightarrow> Inr None
      | Some h \<Rightarrow>
          if hcount h = 0 then Inr (Some h)
          else if hashWriting h then Inl ConcurrentWrites
          else Inr (Some (h\<lparr>sameSizeFlag := False, oldbuckets := None, nevacuate := 0, noverflow := 0,
                            hcount := 0, buckets := Some (makeBucketArray (hB h))\<rparr>)))"

definition reflect_maplen :: "('k, 'v) hmap option \<Rightarrow> nat" where
  "reflect_maplen h = (case h of None \<Rightarrow> 0 | Some h \<Rightarrow> hcount h)"

end
