(* ===== verification/GoMapCells.thy ===== *)
theory GoMapCells
  imports GoMap
begin

text \<open>
  The cells of \<open>GoMap\<close>: what is stored in a chain of buckets, the well-formed chains, and what
  looking up, inserting into, deleting from and evacuating one chain do.
\<close>

subsection \<open>What a chain holds\<close>

fun items :: "('k, 'v) bmap \<Rightarrow> ('k \<times> 'v) list" where
  "items [] = []"
| "items ((t, e) # cs) = (if minTopHash \<le> t then case e of Some p \<Rightarrow> [p] | None \<Rightarrow> [] else []) @ items cs"

lemma items_append [simp]: "items (b @ c) = items b @ items c"
  by (induction b rule: items.induct) simp_all

lemma items_low: "list_all (\<lambda>c. fst c < minTopHash) b \<Longrightarrow> items b = []"
  by (induction b rule: items.induct) auto

lemma items_empties [simp]: "items (replicate n (emptyRest, None)) = []"
  by (rule items_low) (simp add: list_all_length top_defs)

lemma items_empty_bucket [simp]: "items empty_bucket = []"
  by (simp add: empty_bucket_def)

text \<open>A cell is empty, or holds a key with its \<open>tophash\<close> whose hash (\<open>H\<close>) belongs here.\<close>

fun cell_ok :: "('k \<Rightarrow> nat) \<Rightarrow> nat \<Rightarrow> nat \<Rightarrow> ('k, 'v) cell \<Rightarrow> bool" where
  "cell_ok H n i (t, e) \<longleftrightarrow>
     isEmpty t \<or> (case e of Some (k, v) \<Rightarrow> t = tophash (H k) \<and> H k mod n = i | None \<Rightarrow> False)"

text \<open>After \<open>emptyRest\<close> every cell is \<open>emptyRest\<close>.\<close>

fun rest_ok :: "('k, 'v) bmap \<Rightarrow> bool" where
  "rest_ok [] = True"
| "rest_ok ((t, e) # cs) = (if t = emptyRest then list_all (\<lambda>c. fst c = emptyRest) cs else rest_ok cs)"

definition chain_ok :: "('k \<Rightarrow> nat) \<Rightarrow> nat \<Rightarrow> nat \<Rightarrow> ('k, 'v) bmap \<Rightarrow> bool" where
  "chain_ok H n i b \<longleftrightarrow>
     b \<noteq> [] \<and> bucketCnt dvd length b \<and> list_all (cell_ok H n i) b \<and> rest_ok b \<and> distinct (map fst (items b))"

lemma tophash_ge: "minTopHash \<le> tophash h"
  by (simp add: tophash_def Let_def)

lemma tophash_not_empty [simp]: "\<not> isEmpty (tophash h)" "tophash h \<noteq> emptyRest" "tophash h \<noteq> emptyOne"
  using tophash_ge [of h] by (auto simp: isEmpty_def top_defs)

lemma isEmpty_iff: "isEmpty t \<longleftrightarrow> t = emptyRest \<or> t = emptyOne"
  by (auto simp: isEmpty_def top_defs)

lemma cell_okD:
  "cell_ok H n i (t, e) \<Longrightarrow> \<not> isEmpty t \<Longrightarrow> \<exists>k v. e = Some (k, v) \<and> t = tophash (H k) \<and> H k mod n = i"
  by (cases e) auto

lemma items_cell:
  assumes "cell_ok H n i (t, e)"
  shows "items ((t, e) # cs) = (if isEmpty t then [] else [the e]) @ items cs"
proof (cases "isEmpty t")
  case True
  then have "\<not> minTopHash \<le> t" by (auto simp: isEmpty_def top_defs)
  then show ?thesis using True by simp
next
  case False
  then show ?thesis using cell_okD [OF assms] tophash_ge by auto
qed

lemma items_empty [simp]: "items ((emptyRest, e) # cs) = items cs" "items ((emptyOne, e) # cs) = items cs"
  by (simp_all add: top_defs)

lemma items_full [simp]: "items ((tophash h, Some p) # cs) = p # items cs"
  using tophash_ge [of h] by simp

declare items.simps(2) [simp del]

lemma items_hash:
  "list_all (cell_ok H n i) b \<Longrightarrow> (k, v) \<in> set (items b) \<Longrightarrow> H k mod n = i"
proof (induction b)
  case (Cons c b)
  obtain t e where c: "c = (t, e)" by fastforce
  then have ok: "cell_ok H n i (t, e)" "list_all (cell_ok H n i) b" using Cons.prems by simp_all
  then show ?case using Cons c cell_okD [OF ok(1)] by (cases "isEmpty t") (auto simp: items_cell)
qed simp

lemma empty_bucket_ok: "chain_ok H n i empty_bucket"
proof -
  have "rest_ok (replicate k (emptyRest, None))" for k
    by (cases k) (simp_all add: list_all_length)
  then show ?thesis
    by (simp add: chain_ok_def empty_bucket_def bucketCnt_def list_all_length isEmpty_iff)
qed

lemma cell_not_evacuated: "cell_ok H n i (t, e) \<Longrightarrow> \<not> (emptyOne < t \<and> t < minTopHash)"
  using cell_okD [of H n i t e] tophash_ge by (cases "isEmpty t") (auto simp: isEmpty_def not_less)

lemma chain_not_evacuated:
  assumes "chain_ok H n i b"
  shows "\<not> evacuated b"
proof -
  obtain t e cs where b: "b = (t, e) # cs" using assms by (cases b) (auto simp: chain_ok_def)
  then show ?thesis using assms cell_not_evacuated [of H n i t e] by (simp add: chain_ok_def evacuated_def Let_def)
qed

definition evac_ok :: "('k, 'v) bmap \<Rightarrow> bool" where
  "evac_ok b \<longleftrightarrow> b \<noteq> [] \<and> list_all (\<lambda>c. emptyOne < fst c \<and> fst c < minTopHash) b"

lemma evac_ok_evacuated: "evac_ok b \<Longrightarrow> evacuated b"
  by (cases b) (auto simp: evac_ok_def evacuated_def Let_def)

lemma evac_ok_items: "evac_ok b \<Longrightarrow> items b = []"
  by (rule items_low) (auto simp: evac_ok_def list_all_iff)

subsection \<open>Looking up in a chain\<close>

lemma items_rest: "list_all (\<lambda>c. fst c = emptyRest) b \<Longrightarrow> items b = []"
  by (rule items_low) (auto simp: list_all_iff top_defs)

lemma find_cell_items:
  "list_all (cell_ok H n i) b \<Longrightarrow> rest_ok b \<Longrightarrow>
   find_cell (tophash (H k)) k b = map_option (Pair k) (map_of (items b) k)"
proof (induction b)
  case (Cons c b)
  obtain t e where c: "c = (t, e)" by fastforce
  have ok: "cell_ok H n i (t, e)" "list_all (cell_ok H n i) b" using Cons.prems c by simp_all
  show ?case
  proof (cases "isEmpty t")
    case True
    then have t: "t \<noteq> tophash (H k)" using tophash_not_empty by metis
    show ?thesis
    proof (cases "t = emptyRest")
      case True
      then show ?thesis using t Cons.prems c items_rest [of b] by (simp add: items_cell [OF ok(1)] isEmpty_iff)
    next
      case False
      then show ?thesis using t Cons c ok \<open>isEmpty t\<close> by (simp add: items_cell [OF ok(1)])
    qed
  next
    case False
    then obtain k' v where e: "e = Some (k', v)" "t = tophash (H k')" using cell_okD [OF ok(1)] by blast
    have "rest_ok b" using Cons.prems c e tophash_not_empty(2) by simp
    then show ?thesis
      using Cons.IH ok e False c tophash_not_empty(2) [of "H k'"] by (auto simp: items_cell)
  qed
qed simp

subsection \<open>Inserting into a chain\<close>

lemma scan_hit:
  "assign_scan tp k b i ins = Found j \<Longrightarrow> i \<le> j \<and> j < i + length b \<and> (\<exists>v. b ! (j - i) = (tp, Some (k, v)))"
proof (induction b arbitrary: i ins)
  case (Cons c b)
  obtain t e where c: "c = (t, e)" by fastforce
  show ?case
  proof (cases "t = tp \<and> (\<exists>v. e = Some (k, v))")
    case True
    then show ?thesis using Cons.prems c by auto
  next
    case False
    then have "\<exists>ins. assign_scan tp k b (i + 1) ins = Found j"
      using Cons.prems c by (auto simp: Let_def split: if_splits option.splits)
    then obtain ins' where "assign_scan tp k b (i + 1) ins' = Found j" ..
    from Cons.IH [OF this] have j: "i + 1 \<le> j" "j < i + 1 + length b" "\<exists>v. b ! (j - (i + 1)) = (tp, Some (k, v))" by auto
    moreover have "j - i = Suc (j - (i + 1))" using j(1) by simp
    ultimately show ?thesis by auto
  qed
qed simp

lemma scan_miss_some:
  "assign_scan (tophash (H k)) k b i (Some j0) = NotFound ins \<Longrightarrow> list_all (cell_ok H n m) b \<Longrightarrow> rest_ok b \<Longrightarrow>
   ins = Some j0 \<and> k \<notin> fst ` set (items b)"
proof (induction b arbitrary: i)
  case (Cons c b)
  obtain t e where c: "c = (t, e)" by fastforce
  have ok: "cell_ok H n m (t, e)" "list_all (cell_ok H n m) b" using Cons.prems c by simp_all
  show ?case
  proof (cases "t = emptyRest")
    case True
    then show ?thesis using Cons.prems c items_rest [of b] tophash_not_empty(2) [of "H k"] by auto
  next
    case nr: False
    show ?thesis
    proof (cases "isEmpty t")
      case True
      then have "t \<noteq> tophash (H k)" using tophash_not_empty by metis
      then show ?thesis using Cons.IH [OF _ ok(2)] Cons.prems c nr True
        by (auto simp: Let_def items_cell [OF ok(1)])
    next
      case False
      then obtain k' v where e: "e = Some (k', v)" "t = tophash (H k')" using cell_okD [OF ok(1)] by blast
      then show ?thesis using Cons.IH [OF _ ok(2)] Cons.prems c nr False
        by (auto simp: Let_def items_cell [OF ok(1)] split: if_splits)
    qed
  qed
qed auto

lemma scan_miss:
  "assign_scan (tophash (H k)) k b i None = NotFound ins \<Longrightarrow> list_all (cell_ok H n m) b \<Longrightarrow> rest_ok b \<Longrightarrow>
   k \<notin> fst ` set (items b) \<and>
   (case ins of
      None \<Rightarrow> \<not> list_ex (\<lambda>c. isEmpty (fst c)) b
    | Some j \<Rightarrow> i \<le> j \<and> j < i + length b \<and> isEmpty (fst (b ! (j - i))) \<and>
        \<not> list_ex (\<lambda>c. isEmpty (fst c)) (take (j - i) b))"
proof (induction b arbitrary: i)
  case (Cons c b)
  obtain t e where c: "c = (t, e)" by fastforce
  have ok: "cell_ok H n m (t, e)" "list_all (cell_ok H n m) b" using Cons.prems c by simp_all
  show ?case
  proof (cases "isEmpty t")
    case em: True
    then have t: "t \<noteq> tophash (H k)" using tophash_not_empty by metis
    show ?thesis
    proof (cases "t = emptyRest")
      case True
      then show ?thesis using Cons.prems c items_rest [of b] t em by auto
    next
      case False
      then have "assign_scan (tophash (H k)) k b (i + 1) (Some i) = NotFound ins" "rest_ok b"
        using Cons.prems c t em by (auto simp: Let_def)
      then show ?thesis using scan_miss_some [of H k b "i + 1" i ins n m] ok(2) c em by (auto simp: items_cell [OF ok(1)])
    qed
  next
    case False
    then obtain k' v where e: "e = Some (k', v)" "t = tophash (H k')" using cell_okD [OF ok(1)] by blast
    then have r: "assign_scan (tophash (H k)) k b (i + 1) None = NotFound ins" "rest_ok b" "k' \<noteq> k"
      using Cons.prems c False by (auto simp: Let_def isEmpty_iff split: if_splits)
    note IH = Cons.IH [OF r(1) ok(2) r(2)]
    show ?thesis
    proof (cases ins)
      case None
      then show ?thesis using IH e False c r(3) by (auto simp: items_cell [OF ok(1)])
    next
      case (Some j)
      then have "j - i = Suc (j - (i + 1))" using IH by auto
      then show ?thesis using IH e False c Some r(3) by (auto simp: items_cell [OF ok(1)])
    qed
  qed
qed auto

text \<open>Writing a cell: the items before and after it stay.\<close>

lemma items_upd:
  "i < length b \<Longrightarrow> items (b[i := c]) = items (take i b) @ items [c] @ items (drop (Suc i) b)"
  by (simp add: upd_conv_take_nth_drop flip: items_append)

lemma items_split: "i < length b \<Longrightarrow> items b = items (take i b) @ items [b ! i] @ items (drop (Suc i) b)"
  using items_upd [of i b "b ! i"] by simp

lemma items_single: "items [(tophash h, Some p)] = [p]" "isEmpty t \<Longrightarrow> items [(t, e)] = []"
  using tophash_ge by (auto simp: items.simps(2) isEmpty_iff top_defs)

lemma rest_upd:
  "rest_ok b \<Longrightarrow> i < length b \<Longrightarrow> \<not> list_ex (\<lambda>c. fst c = emptyRest) (take i b) \<Longrightarrow> t \<noteq> emptyRest \<Longrightarrow>
   rest_ok (b[i := (t, e)])"
proof (induction b arbitrary: i)
  case (Cons c b)
  obtain t' e' where c: "c = (t', e')" by fastforce
  show ?case
  proof (cases i)
    case 0
    have "list_all (\<lambda>c. fst c = emptyRest) b \<Longrightarrow> rest_ok b" by (induction b) (auto split: prod.splits)
    then show ?thesis using Cons.prems 0 c by (auto split: if_splits)
  next
    case (Suc j)
    then show ?thesis using Cons c by auto
  qed
qed simp

lemma map_of_insert_mid:
  assumes "k \<notin> fst ` set l"
  shows "map_of (l @ (k, v) # r) = (map_of (l @ r))(k \<mapsto> v)"
proof -
  have "map_of l k = None" using assms by (simp add: map_of_eq_None_iff)
  then show ?thesis by (auto simp: map_add_def fun_eq_iff split: option.split)
qed

lemma map_of_delete_mid:
  assumes "k \<notin> fst ` set l" "k \<notin> fst ` set r"
  shows "map_of (l @ r) = (map_of (l @ (k, v) # r))(k := None)"
proof -
  have "map_of (l @ r) k = None" using assms by (auto simp: map_of_eq_None_iff)
  then show ?thesis unfolding map_of_insert_mid [OF assms(1)] by (simp add: fun_upd_idem)
qed

text \<open>Both ways of storing a pair give a well-formed chain with the pair in it.\<close>

lemma assign_chain:
  assumes ok: "chain_ok H n m b" and hm: "H k mod n = m" and i: "i < length b"
    and fr: "\<not> list_ex (\<lambda>c. fst c = emptyRest) (take i b)"
    and old: "isEmpty (fst (b ! i)) \<and> k \<notin> fst ` set (items b) \<or> (\<exists>v. b ! i = (tophash (H k), Some (k, v)))"
  shows "chain_ok H n m (b[i := (tophash (H k), Some (k, v))])"
    "map_of (items (b[i := (tophash (H k), Some (k, v))])) = (map_of (items b)) (k \<mapsto> v)"
    "length (items (b[i := (tophash (H k), Some (k, v))])) = length (items b) + (if isEmpty (fst (b ! i)) then 1 else 0)"
proof -
  let ?b = "b[i := (tophash (H k), Some (k, v))]"
  let ?l = "items (take i b)" and ?r = "items (drop (Suc i) b)"
  have new: "items ?b = ?l @ (k, v) # ?r" using items_upd [OF i] by (simp add: items_single)
  have was: "items b = ?l @ (if isEmpty (fst (b ! i)) then [] else [(k, snd (the (snd (b ! i))))]) @ ?r"
    using items_split [OF i] old
    by (cases "b ! i") (auto simp: items_single)
  have kk: "k \<notin> fst ` set ?l" "k \<notin> fst ` set ?r" "distinct (map fst (?l @ ?r))" "fst ` set ?l \<inter> fst ` set ?r = {}"
    using ok old was by (auto simp: chain_ok_def split: if_splits)
  show "chain_ok H n m ?b"
    using ok kk hm i rest_upd [OF _ i fr] new
    by (auto simp: chain_ok_def list_all_length nth_list_update)
  show "map_of (items ?b) = (map_of (items b)) (k \<mapsto> v)"
    unfolding new was map_of_insert_mid [OF kk(1)] by (simp add: map_of_insert_mid [OF kk(1)] del: map_of_append)
  show "length (items ?b) = length (items b) + (if isEmpty (fst (b ! i)) then 1 else 0)"
    unfolding new was by simp
qed

subsection \<open>Deleting from a chain\<close>

lemma rest_append: "\<not> list_ex (\<lambda>c. fst c = emptyRest) a \<Longrightarrow> rest_ok (a @ b) = rest_ok b"
  by (induction a rule: rest_ok.induct) auto

lemma rest_all: "list_all (\<lambda>c. fst c = emptyRest) b \<Longrightarrow> rest_ok b"
  by (cases b) auto

lemma rest_before: "rest_ok b \<Longrightarrow> i < length b \<Longrightarrow> fst (b ! i) \<noteq> emptyRest \<Longrightarrow> \<not> list_ex (\<lambda>c. fst c = emptyRest) (take i b)"
proof (induction b arbitrary: i)
  case (Cons c b)
  obtain t e where c: "c = (t, e)" by fastforce
  show ?case
  proof (cases i)
    case (Suc j)
    then have "t \<noteq> emptyRest" using Cons.prems c by (auto simp: list_all_length)
    then show ?thesis using Cons.IH [of j] Cons.prems c Suc by auto
  qed simp
qed simp

lemma rest_after: "rest_ok b \<Longrightarrow> i < length b \<Longrightarrow> fst (b ! i) = emptyRest \<Longrightarrow> list_all (\<lambda>c. fst c = emptyRest) (drop i b)"
proof (induction b arbitrary: i)
  case (Cons c b)
  obtain t e where c: "c = (t, e)" by fastforce
  show ?case
  proof (cases i)
    case 0
    then show ?thesis using Cons.prems c by simp
  next
    case (Suc j)
    have "rest_ok b" using Cons.prems c rest_all by (auto split: if_splits)
    then show ?thesis using Cons.IH [of j] Cons.prems Suc by simp
  qed
qed simp

lemma find_hit:
  "del_find tp k b i = Some j \<Longrightarrow> i \<le> j \<and> j < i + length b \<and> (\<exists>v. b ! (j - i) = (tp, Some (k, v)))"
proof (induction b arbitrary: i)
  case (Cons c b)
  obtain t e where c: "c = (t, e)" by fastforce
  show ?case
  proof (cases "t = tp \<and> (\<exists>v. e = Some (k, v))")
    case True
    then show ?thesis using Cons.prems c by auto
  next
    case False
    then have "del_find tp k b (i + 1) = Some j"
      using Cons.prems c by (auto split: if_splits option.splits)
    from Cons.IH [OF this] have j: "i + 1 \<le> j" "j < i + 1 + length b" "\<exists>v. b ! (j - (i + 1)) = (tp, Some (k, v))" by auto
    moreover have "j - i = Suc (j - (i + 1))" using j(1) by simp
    ultimately show ?thesis by auto
  qed
qed simp

lemma find_miss:
  "del_find (tophash (H k)) k b i = None \<Longrightarrow> list_all (cell_ok H n m) b \<Longrightarrow> rest_ok b \<Longrightarrow> k \<notin> fst ` set (items b)"
proof (induction b arbitrary: i)
  case (Cons c b)
  obtain t e where c: "c = (t, e)" by fastforce
  have ok: "cell_ok H n m (t, e)" "list_all (cell_ok H n m) b" using Cons.prems c by simp_all
  show ?case
  proof (cases "isEmpty t")
    case True
    then have "t \<noteq> tophash (H k)" using tophash_not_empty by metis
    then show ?thesis using Cons.IH [OF _ ok(2)] Cons.prems c items_rest [of b] True
      by (auto simp: items_cell [OF ok(1)] split: if_splits)
  next
    case False
    then obtain k' v where e: "e = Some (k', v)" "t = tophash (H k')" using cell_okD [OF ok(1)] by blast
    then show ?thesis using Cons.IH [OF _ ok(2)] Cons.prems c False by (auto split: if_splits)
  qed
qed simp

lemma items_erase: "i < length b \<Longrightarrow> isEmpty (fst (b ! i)) \<Longrightarrow> items (b[i := (emptyRest, None)]) = items b"
  using items_upd [of i b] items_split [of i b] items_single(2) [of "fst (b ! i)" "snd (b ! i)"] by simp

lemma rest_back_ok:
  "i < length b \<Longrightarrow> isEmpty (fst (b ! i)) \<Longrightarrow> list_all (\<lambda>c. fst c = emptyRest) (drop (Suc i) b) \<Longrightarrow>
   \<not> list_ex (\<lambda>c. fst c = emptyRest) (take i b) \<Longrightarrow> list_all (cell_ok H n m) b \<Longrightarrow>
   rest_ok (rest_back i b) \<and> items (rest_back i b) = items b \<and> length (rest_back i b) = length b \<and>
   list_all (cell_ok H n m) (rest_back i b)"
proof (induction i arbitrary: b)
  case 0
  then show ?case using items_erase [of 0 b]
    by (cases b) (auto simp: isEmpty_iff)
next
  case (Suc i)
  let ?b = "b[Suc i := (emptyRest, None)]"
  have len: "i < length ?b" using Suc.prems(1) by simp
  have cells: "list_all (cell_ok H n m) ?b" using Suc.prems(1,5)
    by (auto simp: list_all_length nth_list_update isEmpty_iff)
  have its: "items ?b = items b" by (rule items_erase [OF Suc.prems(1,2)])
  have split: "?b = take (Suc i) b @ (emptyRest, None) # drop (Suc (Suc i)) b"
    by (rule upd_conv_take_nth_drop [OF Suc.prems(1)])
  have rest: "rest_ok ?b" unfolding split rest_append [OF Suc.prems(4)] using Suc.prems(3) by simp
  show ?case
  proof (cases "fst (?b ! i) = emptyOne")
    case True
    have "drop (Suc i) ?b = (emptyRest, None) # drop (Suc (Suc i)) b" unfolding split using Suc.prems(1) by simp
    then have "list_all (\<lambda>c. fst c = emptyRest) (drop (Suc i) ?b)" using Suc.prems(3) by simp
    moreover have "\<not> list_ex (\<lambda>c. fst c = emptyRest) (take i ?b)"
      using Suc.prems(1,4) by (auto simp: list_ex_length)
    ultimately show ?thesis using Suc.IH [OF len _ _ _ cells] True its by (simp add: Let_def isEmpty_iff)
  next
    case False
    then show ?thesis using rest its cells by (simp add: Let_def)
  qed
qed

text \<open>Deleting removes the key and nothing else, and keeps the \<open>emptyRest\<close> cells at the end.\<close>

lemma delete_chain:
  assumes ok: "chain_ok H n m b" and i: "i < length b" and at: "b ! i = (tophash (H k), Some (k, v))"
  shows "chain_ok H n m (del_cell i b)" "map_of (items (del_cell i b)) = (map_of (items b))(k := None)"
    "k \<in> fst ` set (items b)"
proof -
  let ?b = "b[i := (emptyOne, None)]"
  let ?l = "items (take i b)" and ?r = "items (drop (Suc i) b)"
  have was: "items b = ?l @ (k, v) # ?r" using items_split [OF i] at by simp
  then show "k \<in> fst ` set (items b)" by force
  have new: "items ?b = ?l @ ?r" using items_upd [OF i] by simp
  have nr: "\<not> list_ex (\<lambda>c. fst c = emptyRest) (take i b)"
    using rest_before [OF _ i] ok at by (simp add: chain_ok_def)
  have cells: "list_all (cell_ok H n m) ?b" using ok i
    by (auto simp: chain_ok_def list_all_length nth_list_update isEmpty_iff)
  have rest: "rest_ok ?b" using rest_upd [OF _ i nr, of emptyOne None] ok by (simp add: chain_ok_def top_defs)
  have d: "rest_ok (del_cell i b) \<and> items (del_cell i b) = ?l @ ?r \<and> length (del_cell i b) = length b \<and>
      list_all (cell_ok H n m) (del_cell i b)"
  proof (cases "i + 1 < length ?b \<and> fst (?b ! (i + 1)) \<noteq> emptyRest")
    case True
    then show ?thesis using rest new cells by (simp add: del_cell_def Let_def)
  next
    case False
    have "list_all (\<lambda>c. fst c = emptyRest) (drop (Suc i) b)"
    proof (cases "Suc i < length b")
      case True
      then show ?thesis using False rest_after [of b "Suc i"] ok by (simp add: chain_ok_def)
    qed simp
    then show ?thesis
      using rest_back_ok [of i ?b H n m] i nr cells new False by (auto simp: del_cell_def Let_def isEmpty_iff)
  qed
  have dist: "distinct (map fst (?l @ (k, v) # ?r))" using ok was by (simp add: chain_ok_def)
  then show "chain_ok H n m (del_cell i b)"
    using d ok i by (auto simp: chain_ok_def)
  show "map_of (items (del_cell i b)) = (map_of (items b))(k := None)"
    using d dist map_of_delete_mid [of k ?l ?r v] was by (auto simp del: map_of_append)
qed

end
