(* ===== verification/GoMapGrow.thy ===== *)
theory GoMapGrow
  imports GoMapCells
begin

text \<open>
  Growing a map of \<open>GoMap\<close>: what \<open>evacuate\<close> does to one old bucket, the invariant of a map that
  may be growing, and that evacuating keeps it and what the map holds.
\<close>

subsection \<open>One old bucket\<close>

text \<open>A destination: the cells copied so far, and then empty cells up to the end of a bucket.\<close>

definition dst_ok :: "('k, 'v) bmap \<Rightarrow> ('k, 'v) evacDst \<Rightarrow> bool" where
  "dst_ok l d \<longleftrightarrow> (\<exists>r \<le> bucketCnt. fst d = l @ replicate r (emptyRest, None)) \<and> snd d = length l \<and> bucketCnt dvd length (fst d)"

definition same_hdr :: "('k, 'v) hmap \<Rightarrow> ('k, 'v) hmap \<Rightarrow> bool" where
  "same_hdr h h' \<longleftrightarrow> h' = h\<lparr>noverflow := noverflow h', rng := rng h'\<rparr>"

lemma same_hdr_refl [simp]: "same_hdr h h" by (simp add: same_hdr_def)

lemma same_hdr_eqs:
  assumes "same_hdr h h'"
  shows "hcount h' = hcount h" "iterator h' = iterator h" "oldIterator h' = oldIterator h" "hashWriting h' = hashWriting h"
    "sameSizeFlag h' = sameSizeFlag h" "hB h' = hB h" "hash0 h' = hash0 h" "buckets h' = buckets h"
    "oldbuckets h' = oldbuckets h" "nevacuate h' = nevacuate h"
  using assms by (cases h; cases h'; simp add: same_hdr_def)+

lemma same_hdr_trans: "same_hdr h h1 \<Longrightarrow> same_hdr h1 h2 \<Longrightarrow> same_hdr h h2"
  by (cases h; cases h1; cases h2) (simp add: same_hdr_def)

lemma incrnoverflow_hdr: "same_hdr h (incrnoverflow h) \<and> noverflow (incrnoverflow h) \<le> noverflow h + 1"
  by (simp add: incrnoverflow_def same_hdr_def Let_def split: prod.split)

lemma empty_bucket_Cons: "empty_bucket = (emptyRest, None) # replicate 7 (emptyRest, None)"
  by (simp add: empty_bucket_def bucketCnt_def numeral_eq_Suc)

lemma evac_put_ok:
  assumes "dst_ok l d" "evac_put c d h = (d', h')"
  shows "dst_ok (l @ [c]) d' \<and> same_hdr h h' \<and> length (fst d) \<le> length (fst d') \<and>
    8 * noverflow h' + length (fst d) \<le> 8 * noverflow h + length (fst d')"
proof -
  obtain b i where d: "d = (b, i)" by fastforce
  obtain r where r: "b = l @ replicate r (emptyRest, None)" "i = length l" "8 dvd length b" "r \<le> 8"
    using assms(1) d by (auto simp: dst_ok_def bucketCnt_def)
  show ?thesis
  proof (cases r)
    case 0
    then have "d' = (l @ [c] @ replicate 7 (emptyRest, None), length l + 1)" "h' = incrnoverflow h"
      using assms(2) d r by (auto simp: evac_put_def newoverflow_def empty_bucket_Cons)
    then show ?thesis
      using r 0 d incrnoverflow_hdr [of h] by (auto simp: dst_ok_def bucketCnt_def intro!: exI [of _ 7])
  next
    case (Suc m)
    then have "d' = (l @ [c] @ replicate m (emptyRest, None), length l + 1)" "h' = h"
      using assms(2) d r by (auto simp: evac_put_def)
    then show ?thesis using r d Suc by (auto simp: dst_ok_def bucketCnt_def)
  qed
qed

text \<open>The cells of an old bucket that go to the low and to the high half.\<close>

definition goes_y :: "('k, 'v) hmap \<Rightarrow> ('k \<Rightarrow> nat) \<Rightarrow> nat \<Rightarrow> 'k \<Rightarrow> bool" where
  "goes_y h H newbit k \<longleftrightarrow> \<not> sameSizeFlag h \<and> odd (H k div newbit)"

definition cells_of :: "('k \<Rightarrow> nat) \<Rightarrow> ('k \<times> 'v) list \<Rightarrow> ('k, 'v) cell list" where
  "cells_of H ps = map (\<lambda>p. (tophash (H (fst p)), Some p)) ps"

lemma items_cells_of [simp]: "items (cells_of H ps) = ps"
  by (induction ps) (simp_all add: cells_of_def)

lemma cells_of_simps [simp]:
  "cells_of H [] = []" "cells_of H (p # ps) = (tophash (H (fst p)), Some p) # cells_of H ps"
  "length (cells_of H ps) = length ps"
  by (simp_all add: cells_of_def)

lemma evac_cells_ok:
  assumes "list_all (cell_ok (hasher t (hash0 h)) n i) b" "dst_ok lx x" "dst_ok ly y"
  shows "\<exists>ms x' y' h'. evac_cells t newbit b x y h = Inr (ms, x', y', h') \<and> length ms = length b \<and>
    list_all (\<lambda>m. emptyOne < m \<and> m < minTopHash) ms \<and> same_hdr h h' \<and>
    dst_ok (lx @ cells_of (hasher t (hash0 h))
      (filter (\<lambda>p. \<not> goes_y h (hasher t (hash0 h)) newbit (fst p)) (items b))) x' \<and>
    dst_ok (ly @ cells_of (hasher t (hash0 h))
      (filter (\<lambda>p. goes_y h (hasher t (hash0 h)) newbit (fst p)) (items b))) y' \<and>
    8 * noverflow h' + length (fst x) + length (fst y) \<le> 8 * noverflow h + length (fst x') + length (fst y') \<and>
    length (fst x) \<le> length (fst x') \<and> length (fst y) \<le> length (fst y') \<and>
    ((\<forall>p \<in> set (items b). \<not> goes_y h (hasher t (hash0 h)) newbit (fst p)) \<longrightarrow> y' = y)"
  using assms
proof (induction b arbitrary: x y h lx ly)
  case Nil
  then show ?case by simp
next
  case (Cons c b)
  let ?H = "hasher t (hash0 h)" and ?Y = "goes_y h (hasher t (hash0 h)) newbit"
  obtain tp e where c: "c = (tp, e)" by fastforce
  have ok: "cell_ok ?H n i (tp, e)" "list_all (cell_ok ?H n i) b" using Cons.prems(1) c by simp_all
  show ?case
  proof (cases "isEmpty tp")
    case True
    from Cons.IH [OF ok(2) Cons.prems(2,3)] obtain ms x' y' h' where
      "evac_cells t newbit b x y h = Inr (ms, x', y', h')" "length ms = length b"
      "list_all (\<lambda>m. emptyOne < m \<and> m < minTopHash) ms" "same_hdr h h'"
      "dst_ok (lx @ cells_of ?H (filter (\<lambda>p. \<not> ?Y (fst p)) (items b))) x'"
      "dst_ok (ly @ cells_of ?H (filter (\<lambda>p. ?Y (fst p)) (items b))) y'"
      "8 * noverflow h' + length (fst x) + length (fst y) \<le> 8 * noverflow h + length (fst x') + length (fst y')"
      "length (fst x) \<le> length (fst x')" "length (fst y) \<le> length (fst y')"
      "(\<forall>p \<in> set (items b). \<not> ?Y (fst p)) \<longrightarrow> y' = y" by blast
    moreover have "items (c # b) = items b" using c True by (auto simp: isEmpty_iff)
    ultimately show ?thesis using c True by (simp add: top_defs)
  next
    case False
    then obtain k v where e: "e = Some (k, v)" "tp = tophash (?H k)" using cell_okD [OF ok(1)] by blast
    have tp: "\<not> tp < minTopHash" using tophash_ge [of "?H k"] e by simp
    have its: "items (c # b) = (k, v) # items b" using c e by simp
    show ?thesis
    proof (cases "?Y k")
      case True
      obtain y1 h1 where p: "evac_put (tp, e) y h = (y1, h1)" by fastforce
      note q = evac_put_ok [OF Cons.prems(3) p]
      have hdr: "hash0 h1 = hash0 h" "sameSizeFlag h1 = sameSizeFlag h" using same_hdr_eqs q by blast+
      then have Yeq: "goes_y h1 = goes_y h" by (simp add: goes_y_def fun_eq_iff)
      have ok1: "list_all (cell_ok (hasher t (hash0 h1)) n i) b" using ok(2) hdr by simp
      from Cons.IH [OF ok1 Cons.prems(2) conjunct1 [OF q]] obtain ms x' y' h' where
        r: "evac_cells t newbit b x y1 h1 = Inr (ms, x', y', h')" "length ms = length b"
        "list_all (\<lambda>m. emptyOne < m \<and> m < minTopHash) ms" "same_hdr h1 h'"
        "dst_ok (lx @ cells_of ?H (filter (\<lambda>p. \<not> ?Y (fst p)) (items b))) x'"
        "dst_ok ((ly @ [(tp, e)]) @ cells_of ?H (filter (\<lambda>p. ?Y (fst p)) (items b))) y'"
        "8 * noverflow h' + length (fst x) + length (fst y1) \<le> 8 * noverflow h1 + length (fst x') + length (fst y')"
        "length (fst x) \<le> length (fst x')" "length (fst y1) \<le> length (fst y')"
        unfolding Yeq hdr(1) by blast
      have "evac_cells t newbit (c # b) x y h = Inr (evacuatedY # ms, x', y', h')"
        using False tp True c e p r(1) by (simp add: goes_y_def Let_def)
      moreover have "same_hdr h h'" using q r(4) same_hdr_trans by blast
      ultimately show ?thesis using r q True its e by (auto simp: top_defs)
    next
      case False
      obtain x1 h1 where p: "evac_put (tp, e) x h = (x1, h1)" by fastforce
      note q = evac_put_ok [OF Cons.prems(2) p]
      have hdr: "hash0 h1 = hash0 h" "sameSizeFlag h1 = sameSizeFlag h" using same_hdr_eqs q by blast+
      then have Yeq: "goes_y h1 = goes_y h" by (simp add: goes_y_def fun_eq_iff)
      have ok1: "list_all (cell_ok (hasher t (hash0 h1)) n i) b" using ok(2) hdr by simp
      from Cons.IH [OF ok1 conjunct1 [OF q] Cons.prems(3)] obtain ms x' y' h' where
        r: "evac_cells t newbit b x1 y h1 = Inr (ms, x', y', h')" "length ms = length b"
        "list_all (\<lambda>m. emptyOne < m \<and> m < minTopHash) ms" "same_hdr h1 h'"
        "dst_ok ((lx @ [(tp, e)]) @ cells_of ?H (filter (\<lambda>p. \<not> ?Y (fst p)) (items b))) x'"
        "dst_ok (ly @ cells_of ?H (filter (\<lambda>p. ?Y (fst p)) (items b))) y'"
        "8 * noverflow h' + length (fst x1) + length (fst y) \<le> 8 * noverflow h1 + length (fst x') + length (fst y')"
        "length (fst x1) \<le> length (fst x')" "length (fst y) \<le> length (fst y')"
        "(\<forall>p \<in> set (items b). \<not> ?Y (fst p)) \<longrightarrow> y' = y"
        unfolding Yeq hdr(1) by blast
      have "evac_cells t newbit (c # b) x y h = Inr (evacuatedX # ms, x', y', h')"
        using \<open>\<not> isEmpty tp\<close> tp False c e p r(1) by (auto simp: goes_y_def Let_def)
      moreover have "same_hdr h h'" using q r(4) same_hdr_trans by blast
      ultimately show ?thesis using r q False its e by (auto simp: top_defs)
    qed
  qed
qed

text \<open>A filled destination is a well-formed chain that holds what was copied.\<close>

lemma dst_chain:
  assumes "dst_ok (cells_of H ps) d" "fst d \<noteq> []" "distinct (map fst ps)" "\<forall>p \<in> set ps. H (fst p) mod n = i"
  shows "chain_ok H n i (fst d)" "items (fst d) = ps" "length (fst d) \<le> length ps + 8"
proof -
  obtain r where r: "fst d = cells_of H ps @ replicate r (emptyRest, None)" "8 dvd length (fst d)" "r \<le> 8"
    using assms(1) by (auto simp: dst_ok_def bucketCnt_def)
  then show it: "items (fst d) = ps" "length (fst d) \<le> length ps + 8" by simp_all
  have "\<not> list_ex (\<lambda>c. fst c = emptyRest) (cells_of H ps)" by (auto simp: cells_of_def list_ex_iff)
  then have "rest_ok (fst d)" unfolding r(1) by (subst rest_append) (auto intro: rest_all simp: list_all_iff)
  moreover have "list_all (cell_ok H n i) (fst d)"
    unfolding r(1) using assms(4) by (auto simp: cells_of_def list_all_iff isEmpty_iff)
  ultimately show "chain_ok H n i (fst d)" using assms(2,3) r(2) it by (simp add: chain_ok_def bucketCnt_def)
qed

lemma mod_double: "(n :: nat) mod (2 * m) = n mod m + (if odd (n div m) then m else 0)"
  using mod_mult2_eq [of n m 2] by (auto simp: mult.commute mod_2_eq_odd)

end
