(* ===== verification/GoMapInv.thy ===== *)
theory GoMapInv
  imports GoMapGrow
begin

text \<open>
  The invariant of a map of \<open>GoMap\<close>, whether it is growing or not, and what it holds
  (\<open>stored\<close>); evacuating old buckets keeps both.
\<close>

subsection \<open>The invariant\<close>

definition stored :: "'k maptype \<Rightarrow> ('k, 'v) hmap \<Rightarrow> 'k \<Rightarrow> 'v option" where
  "stored t h k = (if buckets h = None then None else map_of (items (bucket_of h (hasher t (hash0 h) k))) k)"

definition new_ok :: "'k maptype \<Rightarrow> ('k, 'v) hmap \<Rightarrow> bool" where
  "new_ok t h \<longleftrightarrow> (\<exists>bs. buckets h = Some bs \<and> length bs = 2 ^ hB h \<and>
     (\<forall>i < 2 ^ hB h. chain_ok (hasher t (hash0 h)) (2 ^ hB h) i (bs ! i)))"

text \<open>An old bucket has been evacuated, or is whole and the buckets it will go to are empty.\<close>

definition pending_ok :: "'k maptype \<Rightarrow> ('k, 'v) hmap \<Rightarrow> ('k, 'v) bmap list \<Rightarrow> nat \<Rightarrow> bool" where
  "pending_ok t h old j \<longleftrightarrow>
     evac_ok (old ! j) \<or>
     chain_ok (hasher t (hash0 h)) (noldbuckets h) j (old ! j) \<and> the (buckets h) ! j = empty_bucket \<and>
     (\<not> sameSizeFlag h \<longrightarrow> the (buckets h) ! (j + noldbuckets h) = empty_bucket)"

definition old_part :: "'k maptype \<Rightarrow> ('k, 'v) hmap \<Rightarrow> bool" where
  "old_part t h \<longleftrightarrow> (\<exists>old. oldbuckets h = Some old \<and> length old = noldbuckets h \<and>
     (\<not> sameSizeFlag h \<longrightarrow> 0 < hB h) \<and> (\<forall>j < noldbuckets h. pending_ok t h old j))"

definition old_ok :: "'k maptype \<Rightarrow> ('k, 'v) hmap \<Rightarrow> bool" where
  "old_ok t h \<longleftrightarrow>
     (if growing h then old_part t h \<and> nevacuate h < noldbuckets h \<and> (\<forall>j < nevacuate h. evac_ok (the (oldbuckets h) ! j))
      else \<not> sameSizeFlag h)"

text \<open>The entries in the new buckets.\<close>

definition filled :: "('k, 'v) hmap \<Rightarrow> nat" where
  "filled h = sum_list (map (\<lambda>b. length (items b)) (the (buckets h)))"

lemma sum_list_fill:
  "i < length bs \<Longrightarrow> f (bs ! i) = (0 :: nat) \<Longrightarrow> sum_list (map f (bs[i := x])) = sum_list (map f bs) + f x"
proof (induction bs arbitrary: i)
  case (Cons b bs)
  then show ?case by (cases i) simp_all
qed simp

lemma map_of_filter_key: "Q k \<Longrightarrow> map_of (filter (\<lambda>p. Q (fst p)) ps) k = map_of ps k"
  by (induction ps) auto

lemma power_buckets:
  assumes "\<not> sameSizeFlag h \<longrightarrow> 0 < hB h"
  shows "2 ^ hB h = (if sameSizeFlag h then noldbuckets h else 2 * noldbuckets h)"
  using assms by (cases "hB h") (simp_all add: noldbuckets_def bucketShift_def)

lemma nold_pos [simp]: "0 < noldbuckets h" "noldbuckets h \<noteq> 0"
  by (simp_all add: noldbuckets_def bucketShift_def)

lemma hash_mod_nold:
  assumes "\<not> sameSizeFlag h \<longrightarrow> 0 < hB h"
  shows "n mod 2 ^ hB h mod noldbuckets h = n mod noldbuckets h"
  using power_buckets [OF assms] by (simp add: mod_mod_cancel)

text \<open>What the parts of the invariant and the contents depend on.\<close>

lemma stored_cong:
  assumes "hash0 h' = hash0 h" "hB h' = hB h" "buckets h' = buckets h" "oldbuckets h' = oldbuckets h" "sameSizeFlag h' = sameSizeFlag h"
  shows "stored t h' = stored t h"
proof -
  have n: "noldbuckets h' = noldbuckets h" using assms by (simp add: noldbuckets_def)
  show ?thesis by (rule ext) (unfold stored_def bucket_of_def assms n, rule refl)
qed

lemma new_ok_cong:
  assumes "hash0 h' = hash0 h" "hB h' = hB h" "buckets h' = buckets h"
  shows "new_ok t h' = new_ok t h"
  using assms by (simp add: new_ok_def)

lemma old_part_cong:
  assumes "hash0 h' = hash0 h" "hB h' = hB h" "buckets h' = buckets h" "oldbuckets h' = oldbuckets h" "sameSizeFlag h' = sameSizeFlag h"
  shows "old_part t h' = old_part t h"
proof -
  have "noldbuckets h' = noldbuckets h" using assms by (simp add: noldbuckets_def)
  then show ?thesis using assms by (simp add: old_part_def pending_ok_def)
qed

subsection \<open>Evacuating one bucket\<close>

text \<open>What all the evacuations leave alone.\<close>

definition same_map :: "('k, 'v) hmap \<Rightarrow> ('k, 'v) hmap \<Rightarrow> bool" where
  "same_map h h' \<longleftrightarrow> hcount h' = hcount h \<and> hashWriting h' = hashWriting h \<and> hB h' = hB h \<and> hash0 h' = hash0 h"

lemma evacuate_bucket_ok:
  assumes nw: "new_ok t h" and od: "old_part t h" and j: "j < noldbuckets h" and ne: "\<not> evacuated (the (oldbuckets h) ! j)"
  shows "\<exists>h'. evacuate_bucket t j h = Inr h' \<and> same_map h h' \<and> sameSizeFlag h' = sameSizeFlag h \<and>
    nevacuate h' = nevacuate h \<and> new_ok t h' \<and> old_part t h' \<and> evac_ok (the (oldbuckets h') ! j) \<and>
    (\<forall>i. i \<noteq> j \<longrightarrow> the (oldbuckets h') ! i = the (oldbuckets h) ! i) \<and> stored t h' = stored t h \<and>
    (8 * noverflow h \<le> filled h \<longrightarrow> 8 * noverflow h' \<le> filled h')"
proof -
  let ?H = "hasher t (hash0 h)" and ?m = "noldbuckets h" and ?Y = "goes_y h (hasher t (hash0 h)) (noldbuckets h)"
  obtain bs where bs: "buckets h = Some bs" "length bs = 2 ^ hB h" "\<And>i. i < 2 ^ hB h \<Longrightarrow> chain_ok ?H (2 ^ hB h) i (bs ! i)"
    using nw by (auto simp: new_ok_def)
  obtain old where old: "oldbuckets h = Some old" "length old = ?m" "\<not> sameSizeFlag h \<longrightarrow> 0 < hB h"
    "\<And>i. i < ?m \<Longrightarrow> pending_ok t h old i"
    using od by (auto simp: old_part_def)
  have pw: "2 ^ hB h = (if sameSizeFlag h then ?m else 2 * ?m)" by (rule power_buckets [OF old(3)])
  define b where "b = old ! j"
  have b: "chain_ok ?H ?m j b" "bs ! j = empty_bucket" "\<not> sameSizeFlag h \<longrightarrow> bs ! (j + ?m) = empty_bucket"
    using old(4) [OF j] ne evac_ok_evacuated by (auto simp: pending_ok_def b_def old(1) bs(1))
  have cells: "list_all (cell_ok ?H ?m j) b" "distinct (map fst (items b))" using b(1) by (simp_all add: chain_ok_def)
  let ?x = "(empty_bucket, 0) :: ('a, 'b) evacDst"
  let ?y = "(if sameSizeFlag h then ([], 0) else (empty_bucket, 0)) :: ('a, 'b) evacDst"
  let ?px = "filter (\<lambda>p. \<not> ?Y (fst p)) (items b)" and ?py = "filter (\<lambda>p. ?Y (fst p)) (items b)"
  have dst: "dst_ok [] ?x" "dst_ok [] ?y"
    by (auto simp: dst_ok_def empty_bucket_def)
  from evac_cells_ok [OF cells(1) dst, where newbit = ?m, unfolded append_Nil] obtain ms x' y' h1 where
    ev: "evac_cells t ?m b ?x ?y h = Inr (ms, x', y', h1)" "length ms = length b"
      "list_all (\<lambda>m. emptyOne < m \<and> m < minTopHash) ms" "same_hdr h h1"
      "dst_ok (cells_of ?H ?px) x'" "dst_ok (cells_of ?H ?py) y'"
      "8 * noverflow h1 + length (fst ?x) + length (fst ?y) \<le> 8 * noverflow h + length (fst x') + length (fst y')"
      "length (fst ?x) \<le> length (fst x')" "length (fst ?y) \<le> length (fst y')"
      "(\<forall>p \<in> set (items b). \<not> ?Y (fst p)) \<longrightarrow> y' = ?y"
    by blast
  have eb: "length (empty_bucket :: ('a, 'b) bmap) = 8" by (simp add: empty_bucket_def bucketCnt_def)
  have hm: "?H (fst p) mod ?m = j" if "p \<in> set (items b)" for p
    using items_hash [OF cells(1), of "fst p" "snd p"] that by simp
  have xne: "fst x' \<noteq> []" using ev(8) eb by auto
  have dx: "distinct (map fst ?px)" "distinct (map fst ?py)" using cells(2) by (simp_all add: distinct_map_filter)
  have hx: "\<forall>p \<in> set ?px. ?H (fst p) mod 2 ^ hB h = j"
    unfolding pw using hm by (auto simp: goes_y_def mod_double)
  have x: "chain_ok ?H (2 ^ hB h) j (fst x')" "items (fst x') = ?px" "length (fst x') \<le> length ?px + 8"
    using dst_chain [OF ev(5) xne dx(1) hx] by simp_all
  have y: "chain_ok ?H (2 ^ hB h) (j + ?m) (fst y') \<and> items (fst y') = ?py \<and> length (fst y') \<le> length ?py + 8" if s: "\<not> sameSizeFlag h"
  proof -
    have "\<forall>p \<in> set ?py. ?H (fst p) mod 2 ^ hB h = j + ?m"
      unfolding pw using hm s by (auto simp: goes_y_def mod_double)
    moreover have "fst y' \<noteq> []" using ev(9) eb s by auto
    ultimately show ?thesis using dst_chain [OF ev(6) _ dx(2)] by blast
  qed
  have ysame: "y' = ?y" "?py = []" if "sameSizeFlag h" using ev(10) that by (auto simp: goes_y_def)
  define b1 where "b1 = (if \<not> oldIterator h1 \<and> hasPointers t then map (\<lambda>m. (m, None)) (take bucketCnt ms)
                        else map (\<lambda>(m, c). (m, snd c)) (zip ms b))"
  define bs1 where "bs1 = (if sameSizeFlag h then bs[j := fst x'] else bs[j := fst x', j + ?m := fst y'])"
  define h' where "h' = h1\<lparr>buckets := Some bs1, oldbuckets := Some (old[j := b1])\<rparr>"
  note hdr = same_hdr_eqs [OF ev(4)]
  have run: "evacuate_bucket t j h = Inr h'"
  proof -
    have yd: "(if sameSizeFlag h then ([], 0) else (bs ! (j + ?m), 0)) = ?y" using b(3) by simp
    obtain xb xi yb yi where xy: "x' = (xb, xi)" "y' = (yb, yi)" by fastforce
    show ?thesis
      unfolding evacuate_bucket_def Let_def old(1) bs(1) option.sel b_def [symmetric] b(2) yd ev(1) xy
      by (simp add: h'_def bs1_def b1_def xy hdr(5))
  qed
  have flds: "same_map h h'" "sameSizeFlag h' = sameSizeFlag h" "nevacuate h' = nevacuate h" "noldbuckets h' = ?m" "hash0 h' = hash0 h" "hB h' = hB h"
    by (simp_all add: same_map_def h'_def hdr noldbuckets_def)
  have nbs: "buckets h' = Some bs1" by (simp add: h'_def)
  have lens: "j < 2 ^ hB h" "\<not> sameSizeFlag h \<Longrightarrow> j + ?m < 2 ^ hB h" using j pw by auto
  have at: "bs1 ! i = (if i = j then fst x' else if \<not> sameSizeFlag h \<and> i = j + ?m then fst y' else bs ! i)" if "i < 2 ^ hB h" for i
    using that lens j bs(2) by (auto simp: bs1_def nth_list_update)
  have lbs1: "length bs1 = 2 ^ hB h" by (simp add: bs1_def bs(2))
  have new': "new_ok t h'"
    unfolding new_ok_def using lbs1 at x(1) y bs(3) by (auto simp: flds h'_def hdr)
  have eb1: "evac_ok b1"
  proof -
    have "b1 \<noteq> []" using ev(2) b(1) by (auto simp: b1_def chain_ok_def bucketCnt_def)
    moreover have "fst ` set b1 \<subseteq> set ms" by (auto simp: b1_def dest: in_set_takeD set_zip_leftD)
    ultimately show ?thesis using ev(3) by (auto simp: evac_ok_def list_all_iff)
  qed
  have old': "oldbuckets h' = Some (old[j := b1])" by (simp add: h'_def)
  have part': "old_part t h'"
  proof -
    have "pending_ok t h' (old[j := b1]) i" if i: "i < ?m" for i
    proof (cases "i = j")
      case True
      then show ?thesis using eb1 j old(2) by (simp add: pending_ok_def)
    next
      case False
      have "i < 2 ^ hB h" "\<not> sameSizeFlag h \<Longrightarrow> i + ?m < 2 ^ hB h" using i pw by auto
      then have "bs1 ! i = bs ! i" "\<not> sameSizeFlag h \<Longrightarrow> bs1 ! (i + ?m) = bs ! (i + ?m)" using False i j at by auto
      then show ?thesis using old(4) [OF i] False flds bs(1) by (auto simp: pending_ok_def h'_def)
    qed
    then show ?thesis unfolding old_part_def using old(2,3) by (simp add: old' flds)
  qed
  have st: "stored t h' k = stored t h k" for k
  proof -
    let ?n = "?H k mod 2 ^ hB h"
    have nm: "?n mod ?m = ?H k mod ?m" by (rule hash_mod_nold [OF old(3)])
    have n: "?n < 2 ^ hB h" by simp
    show ?thesis
    proof (cases "?H k mod ?m = j")
      case False
      then have "?n \<noteq> j" "?n \<noteq> j + ?m" using nm j by auto
      then have "bs1 ! ?n = bs ! ?n" using at [OF n] by simp
      then show ?thesis
        using False by (simp add: stored_def bucket_of_def flds nbs old' bs(1) old(1) Let_def bucketShift_def)
    next
      case True
      have "stored t h k = map_of (items b) k"
        using True ne by (simp add: stored_def bucket_of_def bs(1) old(1) b_def Let_def)
      moreover have "stored t h' k = map_of (items (bs1 ! ?n)) k"
        using True eb1 j old(2) evac_ok_evacuated [of b1]
        by (simp add: stored_def bucket_of_def flds nbs old' Let_def bucketShift_def)
      moreover have "map_of (items (bs1 ! ?n)) k = map_of (items b) k"
      proof (cases "?Y k")
        case Y: True
        then have "?n = j + ?m" "\<not> sameSizeFlag h" using True pw by (auto simp: goes_y_def mod_double)
        then show ?thesis using at [OF n] y map_of_filter_key [of ?Y k "items b"] Y by simp
      next
        case Y: False
        then have "?n = j" using True pw by (auto simp: goes_y_def mod_double)
        then show ?thesis using at [OF n] x(2) map_of_filter_key [of "\<lambda>k. \<not> ?Y k" k "items b"] Y by simp
      qed
      ultimately show ?thesis by simp
    qed
  qed
  have fl: "filled h' = filled h + length (items b)"
  proof -
    let ?f = "\<lambda>b. length (items b)"
    have z: "?f (bs ! j) = 0" using b(2) by simp
    have split: "length ?px + length ?py = length (items b)"
      using sum_length_filter_compl [of "\<lambda>p. ?Y (fst p)" "items b"] by simp
    have 1: "sum_list (map ?f (bs[j := fst x'])) = sum_list (map ?f bs) + length ?px"
      using sum_list_fill [of j bs ?f, OF _ z] lens(1) bs(2) x(2) by simp
    show ?thesis
    proof (cases "sameSizeFlag h")
      case True
      then show ?thesis using 1 split ysame(2) by (simp add: filled_def h'_def bs(1) bs1_def)
    next
      case False
      have "?f (bs[j := fst x'] ! (j + ?m)) = 0" using b(3) False by simp
      from sum_list_fill [of "j + ?m" "bs[j := fst x']" ?f, OF _ this] show ?thesis
        using 1 split y [OF False] False lens(2) bs(2) by (simp add: filled_def h'_def bs(1) bs1_def)
    qed
  qed
  have nv: "8 * noverflow h' \<le> 8 * noverflow h + length (items b)"
  proof -
    have split: "length ?px + length ?py = length (items b)"
      using sum_length_filter_compl [of "\<lambda>p. ?Y (fst p)" "items b"] by simp
    have "noverflow h' = noverflow h1" by (simp add: h'_def)
    then show ?thesis using ev(7) x(3) y ysame split eb by (cases "sameSizeFlag h") auto
  qed
  show ?thesis
    using run flds new' part' eb1 old' old(1,2) j st fl nv by (intro exI [of _ h']) (auto simp: fun_eq_iff)
qed

subsection \<open>The mark, and the two evacuations of \<open>growWork\<close>\<close>

lemma evac_mark_ok:
  "nev \<le> evac_mark old nev n \<and> evac_mark old nev n \<le> nev + n \<and>
   (\<forall>i. nev \<le> i \<longrightarrow> i < evac_mark old nev n \<longrightarrow> i < length old \<and> evacuated (old ! i)) \<and>
   (evac_mark old nev n < nev + n \<longrightarrow> evac_mark old nev n < length old \<longrightarrow> \<not> evacuated (old ! evac_mark old nev n))"
proof (induction n arbitrary: nev)
  case (Suc n)
  show ?case
  proof (cases "nev < length old \<and> evacuated (old ! nev)")
    case True
    have "i < length old \<and> evacuated (old ! i)" if "nev \<le> i" "i < evac_mark old (nev + 1) n" for i
      using that True Suc.IH [of "nev + 1"] by (cases "i = nev") auto
    then show ?thesis using True Suc.IH [of "nev + 1"] by auto
  qed auto
qed simp

lemma pending_evacuated: "pending_ok t h old j \<Longrightarrow> evacuated (old ! j) \<Longrightarrow> evac_ok (old ! j)"
  using chain_not_evacuated by (auto simp: pending_ok_def)

lemma advance_ok:
  assumes od: "old_part t h" and nw: "new_ok t h" and nev: "nevacuate h < noldbuckets h"
    and dn: "\<forall>i \<le> nevacuate h. evac_ok (the (oldbuckets h) ! i)"
    and h': "h' = advanceEvacuationMark h (noldbuckets h)"
  shows "same_map h h'" "new_ok t h'" "old_ok t h'" "stored t h' = stored t h" "filled h' = filled h" "noverflow h' = noverflow h"
    "growing h' \<Longrightarrow> sameSizeFlag h' = sameSizeFlag h \<and> oldbuckets h' = oldbuckets h \<and> nevacuate h < nevacuate h' \<and>
       (noldbuckets h \<le> 1024 \<longrightarrow> \<not> evac_ok (the (oldbuckets h) ! nevacuate h'))"
    "\<not> growing h' \<Longrightarrow> \<forall>i < noldbuckets h. evac_ok (the (oldbuckets h) ! i)"
proof -
  let ?m = "noldbuckets h"
  obtain old where old: "oldbuckets h = Some old" "length old = ?m" "\<not> sameSizeFlag h \<longrightarrow> 0 < hB h"
    "\<And>i. i < ?m \<Longrightarrow> pending_ok t h old i"
    using od by (auto simp: old_part_def)
  define stp where "stp = (if ?m < nevacuate h + 1 + 1024 then ?m else nevacuate h + 1 + 1024)"
  define nv where "nv = evac_mark old (nevacuate h + 1) (stp - (nevacuate h + 1))"
  have s: "nevacuate h + 1 \<le> stp" "stp \<le> ?m" using nev by (auto simp: stp_def)
  have nv: "nevacuate h + 1 \<le> nv" "nv \<le> stp" "\<And>i. nevacuate h + 1 \<le> i \<Longrightarrow> i < nv \<Longrightarrow> evacuated (old ! i)"
    "nv < stp \<Longrightarrow> \<not> evacuated (old ! nv)"
    using evac_mark_ok [of "nevacuate h + 1" old "stp - (nevacuate h + 1)"] s old(2) by (auto simp: nv_def)
  have ev: "evac_ok (old ! i)" if "i < nv" for i
  proof (cases "i \<le> nevacuate h")
    case True
    then show ?thesis using dn old(1) by simp
  next
    case False
    then show ?thesis using nv(3) [of i] that pending_evacuated [OF old(4)] nv(2) s(2) by simp
  qed
  have r: "h' = (if nv = ?m then h\<lparr>nevacuate := nv, oldbuckets := None, sameSizeFlag := False\<rparr> else h\<lparr>nevacuate := nv\<rparr>)"
    unfolding h' by (simp add: advanceEvacuationMark_def old(1) Let_def nv_def stp_def)
  show "same_map h h'" "new_ok t h'" "filled h' = filled h" "noverflow h' = noverflow h"
    using nw by (auto simp: r same_map_def new_ok_def filled_def)
  show "old_ok t h'"
  proof (cases "nv = ?m")
    case True
    then show ?thesis by (simp add: r old_ok_def growing_def)
  next
    case False
    then have e: "h' = h\<lparr>nevacuate := nv\<rparr>" by (simp add: r)
    have "noldbuckets h' = ?m" by (simp add: e noldbuckets_def)
    moreover have "old_part t h'" using od old_part_cong [of h' h] by (simp add: e)
    ultimately show ?thesis using False nv(2) s(2) ev old(1) by (simp add: e old_ok_def growing_def)
  qed
  show "stored t h' = stored t h"
  proof (cases "nv = ?m")
    case True
    have "evacuated (old ! (n mod ?m))" for n
      using ev [of "n mod ?m"] True evac_ok_evacuated by simp
    then show ?thesis using True nw by (auto simp: r stored_def bucket_of_def old(1) Let_def new_ok_def fun_eq_iff)
  next
    case False
    then show ?thesis using stored_cong [of h' h] by (simp add: r)
  qed
  show "growing h' \<Longrightarrow> sameSizeFlag h' = sameSizeFlag h \<and> oldbuckets h' = oldbuckets h \<and> nevacuate h < nevacuate h' \<and>
       (?m \<le> 1024 \<longrightarrow> \<not> evac_ok (the (oldbuckets h) ! nevacuate h'))"
    using nv s old(1) evac_ok_evacuated by (auto simp: r growing_def stp_def split: if_splits)
  show "\<not> growing h' \<Longrightarrow> \<forall>i < ?m. evac_ok (the (oldbuckets h) ! i)"
    using ev old(1) by (auto simp: r growing_def split: if_splits)
qed

lemma evacuate_ok:
  assumes nw: "new_ok t h" and od: "old_ok t h" and gr: "growing h" and j: "j < noldbuckets h"
  shows "\<exists>h'. evacuate t j h = Inr h' \<and> same_map h h' \<and> new_ok t h' \<and> old_ok t h' \<and> stored t h' = stored t h \<and>
    (8 * noverflow h \<le> filled h \<longrightarrow> 8 * noverflow h' \<le> filled h') \<and>
    (growing h' \<longrightarrow> sameSizeFlag h' = sameSizeFlag h \<and> evac_ok (the (oldbuckets h') ! j) \<and>
       (\<forall>i. i \<noteq> j \<longrightarrow> the (oldbuckets h') ! i = the (oldbuckets h) ! i) \<and> nevacuate h \<le> nevacuate h' \<and>
       (j = nevacuate h \<longrightarrow> nevacuate h < nevacuate h' \<and>
          (noldbuckets h \<le> 1024 \<longrightarrow> \<not> evac_ok (the (oldbuckets h') ! nevacuate h')))) \<and>
    (\<not> growing h' \<longrightarrow> (\<forall>i < noldbuckets h. i \<noteq> j \<longrightarrow> evac_ok (the (oldbuckets h) ! i)))"
proof -
  have op: "old_part t h" "nevacuate h < noldbuckets h" "\<forall>i < nevacuate h. evac_ok (the (oldbuckets h) ! i)"
    using od gr by (simp_all add: old_ok_def)
  have "\<exists>h1. (if evacuated (the (oldbuckets h) ! j) then Inr h else evacuate_bucket t j h) = Inr h1 \<and> same_map h h1 \<and>
    sameSizeFlag h1 = sameSizeFlag h \<and> nevacuate h1 = nevacuate h \<and> new_ok t h1 \<and> old_part t h1 \<and>
    evac_ok (the (oldbuckets h1) ! j) \<and> (\<forall>i. i \<noteq> j \<longrightarrow> the (oldbuckets h1) ! i = the (oldbuckets h) ! i) \<and>
    stored t h1 = stored t h \<and> (8 * noverflow h \<le> filled h \<longrightarrow> 8 * noverflow h1 \<le> filled h1)"
  proof (cases "evacuated (the (oldbuckets h) ! j)")
    case True
    then have "evac_ok (the (oldbuckets h) ! j)" using op(1) j pending_evacuated by (fastforce simp: old_part_def)
    then show ?thesis using True nw op by (simp add: same_map_def)
  next
    case False
    then show ?thesis using evacuate_bucket_ok [OF nw op(1) j False] by simp
  qed
  then obtain h1 where h1: "(if evacuated (the (oldbuckets h) ! j) then Inr h else evacuate_bucket t j h) = Inr h1"
    "same_map h h1" "sameSizeFlag h1 = sameSizeFlag h" "nevacuate h1 = nevacuate h" "new_ok t h1" "old_part t h1"
    "evac_ok (the (oldbuckets h1) ! j)" "\<And>i. i \<noteq> j \<Longrightarrow> the (oldbuckets h1) ! i = the (oldbuckets h) ! i"
    "stored t h1 = stored t h" "8 * noverflow h \<le> filled h \<longrightarrow> 8 * noverflow h1 \<le> filled h1" by blast
  have m: "noldbuckets h1 = noldbuckets h" using h1(2,3) by (simp add: noldbuckets_def same_map_def)
  have ev: "\<forall>i < nevacuate h. evac_ok (the (oldbuckets h1) ! i)" using op(3) h1(7,8) by metis
  show ?thesis
  proof (cases "j = nevacuate h")
    case False
    then have run: "evacuate t j h = Inr h1" unfolding evacuate_def h1(1) using h1(4) by simp
    have g: "growing h1" using h1(6) by (auto simp: old_part_def growing_def)
    then have "old_ok t h1" using h1(4,6) op(2) m ev by (simp add: old_ok_def)
    then show ?thesis using run h1 False g by (intro exI [of _ h1]) simp
  next
    case True
    let ?h = "advanceEvacuationMark h1 (noldbuckets h1)"
    have run: "evacuate t j h = Inr ?h" unfolding evacuate_def h1(1) using h1(4) True by simp
    have "\<forall>i \<le> nevacuate h1. evac_ok (the (oldbuckets h1) ! i)"
      using ev h1(4,7) True le_neq_implies_less by metis
    note A = advance_ok [OF h1(6,5) _ this refl]
    have lt: "nevacuate h1 < noldbuckets h1" using h1(4) op(2) m by simp
    have "same_map h ?h" using A(1) [OF lt] h1(2) by (simp add: same_map_def)
    then show ?thesis
      using run A(2-8) [OF lt] h1 m by (intro exI [of _ ?h]) (auto, metis+)
  qed
qed

end
