(* ===== verification/GoMapOps.thy ===== *)
theory GoMapOps
  imports GoMapInv
begin

text \<open>
  The operations of a map of \<open>GoMap\<close> keep its invariant and act on what it holds as the
  operations of a finite map do; an assignment grows the map at most once.
\<close>

subsection \<open>Growing\<close>

lemma nold_cong: "same_map h h' \<Longrightarrow> sameSizeFlag h' = sameSizeFlag h \<Longrightarrow> noldbuckets h' = noldbuckets h"
  by (simp add: same_map_def noldbuckets_def)

lemma growWork_ok:
  assumes nw: "new_ok t h" and od: "old_ok t h" and gr: "growing h"
  shows "\<exists>h'. growWork t bucket h = Inr h' \<and> same_map h h' \<and> new_ok t h' \<and> old_ok t h' \<and> stored t h' = stored t h \<and>
    (8 * noverflow h \<le> filled h \<longrightarrow> 8 * noverflow h' \<le> filled h') \<and>
    (growing h' \<longrightarrow> sameSizeFlag h' = sameSizeFlag h \<and> evac_ok (the (oldbuckets h') ! (bucket mod noldbuckets h)) \<and>
       (nevacuate h = 0 \<longrightarrow> 2 < noldbuckets h)) \<and>
    (\<not> growing h' \<longrightarrow> (\<forall>i < noldbuckets h. \<not> evac_ok (the (oldbuckets h) ! i)) \<longrightarrow> noldbuckets h \<le> 2)"
proof -
  let ?j = "bucket mod noldbuckets h"
  have j: "?j < noldbuckets h" by simp
  from evacuate_ok [OF nw od gr j] obtain h1 where h1: "evacuate t ?j h = Inr h1" "same_map h h1" "new_ok t h1" "old_ok t h1"
    "stored t h1 = stored t h" "8 * noverflow h \<le> filled h \<longrightarrow> 8 * noverflow h1 \<le> filled h1"
    "growing h1 \<longrightarrow> sameSizeFlag h1 = sameSizeFlag h \<and> evac_ok (the (oldbuckets h1) ! ?j) \<and>
       (\<forall>i. i \<noteq> ?j \<longrightarrow> the (oldbuckets h1) ! i = the (oldbuckets h) ! i) \<and> nevacuate h \<le> nevacuate h1 \<and>
       (?j = nevacuate h \<longrightarrow> nevacuate h < nevacuate h1 \<and>
          (noldbuckets h \<le> 1024 \<longrightarrow> \<not> evac_ok (the (oldbuckets h1) ! nevacuate h1)))"
    "\<not> growing h1 \<longrightarrow> (\<forall>i < noldbuckets h. i \<noteq> ?j \<longrightarrow> evac_ok (the (oldbuckets h) ! i))" by blast
  have few: "noldbuckets h \<le> 2" if "\<forall>i < noldbuckets h. i = ?j \<or> i = a" for a
  proof -
    have "{..<noldbuckets h} \<subseteq> {?j, a}" using that by auto
    then have "card {..<noldbuckets h} \<le> card {?j, a}" by (intro card_mono) auto
    also have "\<dots> \<le> 2" by (simp add: card_insert_if)
    finally show ?thesis by simp
  qed
  show ?thesis
  proof (cases "growing h1")
    case False
    have "growWork t bucket h = Inr h1" using h1(1) False by (simp add: growWork_def)
    then show ?thesis using h1 False few [of ?j] by (intro exI [of _ h1]) auto
  next
    case g1: True
    have m: "noldbuckets h1 = noldbuckets h" using nold_cong [OF h1(2)] h1(7) g1 by simp
    have lt: "nevacuate h1 < noldbuckets h1" using h1(4) g1 by (simp add: old_ok_def)
    from evacuate_ok [OF h1(3,4) g1 lt] obtain h2 where h2: "evacuate t (nevacuate h1) h1 = Inr h2" "same_map h1 h2"
      "new_ok t h2" "old_ok t h2" "stored t h2 = stored t h1" "8 * noverflow h1 \<le> filled h1 \<longrightarrow> 8 * noverflow h2 \<le> filled h2"
      "growing h2 \<longrightarrow> sameSizeFlag h2 = sameSizeFlag h1 \<and> evac_ok (the (oldbuckets h2) ! nevacuate h1) \<and>
         (\<forall>i. i \<noteq> nevacuate h1 \<longrightarrow> the (oldbuckets h2) ! i = the (oldbuckets h1) ! i) \<and> nevacuate h1 < nevacuate h2 \<and>
            (noldbuckets h1 \<le> 1024 \<longrightarrow> \<not> evac_ok (the (oldbuckets h2) ! nevacuate h2))"
      "\<not> growing h2 \<longrightarrow> (\<forall>i < noldbuckets h1. i \<noteq> nevacuate h1 \<longrightarrow> evac_ok (the (oldbuckets h1) ! i))" by auto
    have run: "growWork t bucket h = Inr h2" using h1(1) h2(1) g1 by (simp add: growWork_def)
    have same: "same_map h h2" using h1(2) h2(2) by (simp add: same_map_def)
    have hit: "evac_ok (the (oldbuckets h2) ! ?j)" if "growing h2"
      using h1(7) h2(7) g1 that by (cases "?j = nevacuate h1") auto
    have big: "2 < noldbuckets h" if g2: "growing h2" and z: "nevacuate h = 0"
    proof (rule ccontr)
      assume "\<not> 2 < noldbuckets h"
      moreover have "nevacuate h2 < noldbuckets h2" using h2(4) g2 by (simp add: old_ok_def)
      moreover have "noldbuckets h2 = noldbuckets h" using nold_cong [OF h2(2)] h2(7) g2 m by simp
      moreover have "nevacuate h1 < nevacuate h2" using h2(7) g2 by simp
      ultimately have v: "nevacuate h1 = 0" "nevacuate h2 = 1" "noldbuckets h = 2" by linarith+
      then have "?j \<noteq> 0" using h1(7) g1 z by auto
      then have "?j = 1" using v(3) by auto
      then show False using hit [OF g2] h2(7) g2 v m by auto
    qed
    have small: "noldbuckets h \<le> 2" if ng: "\<not> growing h2" and none: "\<forall>i < noldbuckets h. \<not> evac_ok (the (oldbuckets h) ! i)"
    proof (rule few)
      show "\<forall>i < noldbuckets h. i = ?j \<or> i = nevacuate h1"
        using h2(8) ng none h1(7) g1 m by metis
    qed
    show ?thesis
      using run same h2 h1(5-7) g1 hit big small by (intro exI [of _ h2]) auto
  qed
qed

lemma hashGrow_ok:
  assumes nw: "new_ok t h" and od: "old_ok t h" and ng: "\<not> growing h"
  defines "h' \<equiv> hashGrow h"
  shows "new_ok t h'" "old_ok t h'" "growing h'" "stored t h' = stored t h" "nevacuate h' = 0" "8 * noverflow h' \<le> filled h'"
    "noldbuckets h' = 2 ^ hB h" "hcount h' = hcount h" "hash0 h' = hash0 h" "hashWriting h' = hashWriting h"
    "hB h' = (if overLoadFactor (hcount h + 1) (hB h) then hB h + 1 else hB h)"
    "\<forall>i < noldbuckets h'. \<not> evac_ok (the (oldbuckets h') ! i)"
proof -
  let ?H = "hasher t (hash0 h)"
  obtain bs where bs: "buckets h = Some bs" "length bs = 2 ^ hB h" "\<And>i. i < 2 ^ hB h \<Longrightarrow> chain_ok ?H (2 ^ hB h) i (bs ! i)"
    using nw by (auto simp: new_ok_def)
  have ns: "\<not> sameSizeFlag h" using od ng by (simp add: old_ok_def)
  show flds: "nevacuate h' = 0" "hcount h' = hcount h" "hash0 h' = hash0 h" "hashWriting h' = hashWriting h"
    "hB h' = (if overLoadFactor (hcount h + 1) (hB h) then hB h + 1 else hB h)" "8 * noverflow h' \<le> filled h'"
    by (simp_all add: h'_def hashGrow_def Let_def)
  have f: "buckets h' = Some (makeBucketArray (hB h'))" "oldbuckets h' = Some bs"
    "sameSizeFlag h' \<longleftrightarrow> \<not> overLoadFactor (hcount h + 1) (hB h)"
    using bs(1) ns by (simp_all add: h'_def hashGrow_def Let_def)
  show m: "noldbuckets h' = 2 ^ hB h" using f(3) flds(5) by (simp add: noldbuckets_def bucketShift_def)
  show "growing h'" by (simp add: growing_def f(2))
  have nev: "\<not> evacuated (bs ! i)" if "i < 2 ^ hB h" for i using chain_not_evacuated [OF bs(3) [OF that]] .
  then show "\<forall>i < noldbuckets h'. \<not> evac_ok (the (oldbuckets h') ! i)" using evac_ok_evacuated by (auto simp: m f(2))
  have at: "makeBucketArray (hB h') ! i = empty_bucket" if "i < 2 ^ hB h'" for i
    using that by (simp add: makeBucketArray_def bucketShift_def)
  show "new_ok t h'"
    unfolding new_ok_def f(1) using at empty_bucket_ok by (auto simp: makeBucketArray_def bucketShift_def)
  have "pending_ok t h' bs i" if i: "i < 2 ^ hB h" for i
  proof -
    have "\<not> sameSizeFlag h' \<Longrightarrow> i + 2 ^ hB h < 2 ^ hB h'" "i < 2 ^ hB h'" using i f(3) flds(5) by auto
    then show ?thesis using bs(3) [OF i] at by (auto simp: pending_ok_def m flds(3) f(1))
  qed
  then show "old_ok t h'"
    using bs(2) f(3) flds(5) by (simp add: old_ok_def growing_def f(2) old_part_def m flds(1))
  show "stored t h' = stored t h"
    using nev bs(1) ng by (simp add: stored_def bucket_of_def f(1,2) m flds(3) Let_def fun_eq_iff bucketShift_def growing_def)
qed

text \<open>When the map is not growing the buckets hold exactly what the map holds.\<close>

lemma stored_dom:
  assumes nw: "new_ok t h" and ng: "\<not> growing h"
  shows "finite (dom (stored t h))" "filled h = card (dom (stored t h))"
proof -
  let ?H = "hasher t (hash0 h)" and ?n = "(2 :: nat) ^ hB h"
  obtain bs where bs: "buckets h = Some bs" "length bs = ?n" "\<And>i. i < ?n \<Longrightarrow> chain_ok ?H ?n i (bs ! i)"
    using nw by (auto simp: new_ok_def)
  let ?K = "\<lambda>i. fst ` set (items (bs ! i))"
  have st: "stored t h k = map_of (items (bs ! (?H k mod ?n))) k" for k
    using ng by (simp add: stored_def bucket_of_def bs(1) growing_def bucketShift_def Let_def)
  have hm: "?H k mod ?n = i" if "k \<in> ?K i" "i < ?n" for k i
    using bs(3) [OF that(2)] items_hash that(1) by (fastforce simp: chain_ok_def)
  have dm: "dom (stored t h) = (\<Union>i < ?n. ?K i)"
  proof -
    have "k \<in> dom (stored t h) \<longleftrightarrow> k \<in> ?K (?H k mod ?n)" for k
      by (simp add: domIff st map_of_eq_None_iff del: not_None_eq)
    moreover have "k \<in> (\<Union>i < ?n. ?K i) \<longleftrightarrow> k \<in> ?K (?H k mod ?n)" for k
    proof
      assume "k \<in> (\<Union>i < ?n. ?K i)"
      then obtain i where "k \<in> ?K i" "i < ?n" by blast
      then show "k \<in> ?K (?H k mod ?n)" using hm by metis
    next
      assume "k \<in> ?K (?H k mod ?n)"
      moreover have "?H k mod ?n \<in> {..<?n}" by simp
      ultimately show "k \<in> (\<Union>i < ?n. ?K i)" by blast
    qed
    ultimately show ?thesis by blast
  qed
  then show "finite (dom (stored t h))" by simp
  have "\<forall>i \<in> {..<?n}. \<forall>j \<in> {..<?n}. i \<noteq> j \<longrightarrow> ?K i \<inter> ?K j = {}"
    using hm by (metis disjoint_iff lessThan_iff)
  then have "card (dom (stored t h)) = (\<Sum>i < ?n. card (?K i))"
    unfolding dm by (intro card_UN_disjoint) simp_all
  also have "\<dots> = (\<Sum>i < ?n. length (items (bs ! i)))"
  proof (rule sum.cong)
    fix i assume "i \<in> {..<?n}"
    then have "distinct (map fst (items (bs ! i)))" using bs(3) by (simp add: chain_ok_def)
    then show "card (?K i) = length (items (bs ! i))" using distinct_card by fastforce
  qed simp
  also have "\<dots> = filled h" by (simp add: filled_def bs(1,2) sum_list_sum_nth atLeast0LessThan)
  finally show "filled h = card (dom (stored t h))" by simp
qed

subsection \<open>Writing one bucket\<close>

text \<open>The old bucket a key would be in has been evacuated.\<close>

definition moved :: "('k, 'v) hmap \<Rightarrow> nat \<Rightarrow> bool" where
  "moved h n \<longleftrightarrow> (growing h \<longrightarrow> evac_ok (the (oldbuckets h) ! (n mod noldbuckets h)))"

lemma old_okD:
  assumes "old_ok t h" "growing h"
  shows "\<not> sameSizeFlag h \<longrightarrow> 0 < hB h" "length (the (oldbuckets h)) = noldbuckets h"
    "\<And>j. j < noldbuckets h \<Longrightarrow> pending_ok t h (the (oldbuckets h)) j"
  using assms by (auto simp: old_ok_def old_part_def)

lemma stored_bucket:
  assumes "new_ok t h" "old_ok t h" "moved h n" "hasher t (hash0 h) k mod 2 ^ hB h = n" "n < 2 ^ hB h"
  shows "stored t h k = map_of (items (the (buckets h) ! n)) k"
proof (cases "growing h")
  case True
  have "hasher t (hash0 h) k mod noldbuckets h = n mod noldbuckets h"
    using hash_mod_nold [OF old_okD(1) [OF assms(2) True], of "hasher t (hash0 h) k"] assms(4) by simp
  then have "evacuated (the (oldbuckets h) ! (hasher t (hash0 h) k mod noldbuckets h))"
    using assms(3) True evac_ok_evacuated by (simp add: moved_def)
  then show ?thesis using assms(1,4) True
    by (auto simp: stored_def bucket_of_def new_ok_def bucketShift_def Let_def growing_def)
next
  case False
  then show ?thesis using assms(1,4)
    by (auto simp: stored_def bucket_of_def new_ok_def bucketShift_def Let_def growing_def)
qed

lemma set_bucket_ok:
  assumes nw: "new_ok t h" and od: "old_ok t h" and mv: "moved h n" and n: "n < 2 ^ hB h"
    and b: "chain_ok (hasher t (hash0 h)) (2 ^ hB h) n b"
  shows "new_ok t (set_bucket n b h)" "old_ok t (set_bucket n b h)"
    "stored t (set_bucket n b h) k = (if hasher t (hash0 h) k mod 2 ^ hB h = n then map_of (items b) k else stored t h k)"
proof -
  let ?h = "set_bucket n b h" and ?H = "hasher t (hash0 h)"
  obtain bs where bs: "buckets h = Some bs" "length bs = 2 ^ hB h" "\<And>i. i < 2 ^ hB h \<Longrightarrow> chain_ok ?H (2 ^ hB h) i (bs ! i)"
    using nw by (auto simp: new_ok_def)
  have f: "buckets ?h = Some (bs[n := b])" "hB ?h = hB h" "hash0 ?h = hash0 h" "oldbuckets ?h = oldbuckets h"
    "sameSizeFlag ?h = sameSizeFlag h" "nevacuate ?h = nevacuate h" "growing ?h = growing h" "noldbuckets ?h = noldbuckets h"
    by (simp_all add: set_bucket_def bs(1) growing_def noldbuckets_def)
  show nw': "new_ok t ?h" unfolding new_ok_def using f(1-3) bs(2,3) b n by (auto simp: nth_list_update)
  show od': "old_ok t ?h"
  proof (cases "growing h")
    case True
    have "pending_ok t ?h (the (oldbuckets h)) j" if j: "j < noldbuckets h" for j
    proof (cases "evac_ok (the (oldbuckets h) ! j)")
      case False
      then have "n mod noldbuckets h \<noteq> j" using mv True by (auto simp: moved_def)
      then have "n \<noteq> j" "n \<noteq> j + noldbuckets h" using j by auto
      then show ?thesis using old_okD(3) [OF od True j] False f bs(1) by (simp add: pending_ok_def)
    qed (simp add: pending_ok_def)
    then show ?thesis using od True f by (auto simp: old_ok_def old_part_def)
  next
    case False
    then show ?thesis using od f by (simp add: old_ok_def)
  qed
  show "stored t ?h k = (if ?H k mod 2 ^ hB h = n then map_of (items b) k else stored t h k)"
  proof (cases "?H k mod 2 ^ hB h = n")
    case True
    have "moved ?h n" using mv f by (simp add: moved_def)
    then show ?thesis using stored_bucket [OF nw' od', of n k] True n f bs(2) by simp
  next
    case False
    then have "bs[n := b] ! (?H k mod 2 ^ hB h) = bs ! (?H k mod 2 ^ hB h)" by simp
    then show ?thesis using False
      by (simp add: stored_def bucket_of_def f bs(1) bucketShift_def Let_def split: option.split)
  qed
qed

lemma write_ok:
  assumes nw: "new_ok t h" and od: "old_ok t h" and mv: "moved h n" and n: "n = hasher t (hash0 h) k mod 2 ^ hB h"
    and b: "chain_ok (hasher t (hash0 h)) (2 ^ hB h) n b"
    and its: "map_of (items b) = (map_of (items (the (buckets h) ! n)))(k := r)"
  shows "new_ok t (set_bucket n b h)" "old_ok t (set_bucket n b h)" "stored t (set_bucket n b h) = (stored t h)(k := r)"
proof -
  have lt: "n < 2 ^ hB h" using n by simp
  note S = set_bucket_ok [OF nw od mv lt b]
  show "new_ok t (set_bucket n b h)" "old_ok t (set_bucket n b h)" by (rule S)+
  show "stored t (set_bucket n b h) = (stored t h)(k := r)"
  proof
    fix k'
    show "stored t (set_bucket n b h) k' = ((stored t h)(k := r)) k'"
      using S(3) [of k'] stored_bucket [OF nw od mv _ lt, of k'] n its by auto
  qed
qed

lemma bucket_chain: "new_ok t h \<Longrightarrow> chain_ok (hasher t (hash0 h)) (2 ^ hB h) (m mod 2 ^ hB h) (the (buckets h) ! (m mod 2 ^ hB h))"
  by (auto simp: new_ok_def)

lemma found_ok:
  fixes v :: 'v
  assumes nw: "new_ok t h" and od: "old_ok t h" and mv: "moved h n" and n: "n = hasher t (hash0 h) k mod 2 ^ hB h"
    and sc: "assign_scan (tophash (hasher t (hash0 h) k)) k (the (buckets h) ! n) 0 None = Found i"
  defines "h' \<equiv> set_bucket n ((the (buckets h) ! n)[i := (tophash (hasher t (hash0 h) k), Some (k, v))]) h"
  shows "new_ok t h'" "old_ok t h'" "stored t h' = (stored t h)(k \<mapsto> v)" "stored t h k \<noteq> None"
proof -
  let ?b = "the (buckets h) ! n" and ?H = "hasher t (hash0 h)"
  have c: "chain_ok ?H (2 ^ hB h) n ?b" using bucket_chain [OF nw] n by simp
  obtain w where i: "i < length ?b" "?b ! i = (tophash (?H k), Some (k, w))" using scan_hit [OF sc] by auto
  have fr: "\<not> list_ex (\<lambda>c. fst c = emptyRest) (take i ?b)" using rest_before [OF _ i(1)] c i(2) by (simp add: chain_ok_def)
  note A = assign_chain [OF c n [symmetric] i(1) fr, where v = v]
  have old: "isEmpty (fst (?b ! i)) \<and> k \<notin> fst ` set (items ?b) \<or> (\<exists>v. ?b ! i = (tophash (?H k), Some (k, v)))" using i(2) by blast
  show "new_ok t h'" "old_ok t h'" "stored t h' = (stored t h)(k \<mapsto> v)"
    unfolding h'_def by (rule write_ok [OF nw od mv n A(1,2) [OF old]])+
  have "k \<in> fst ` set (items ?b)" using delete_chain(3) [OF c i] .
  then have "map_of (items ?b) k \<noteq> None" by (simp add: map_of_eq_None_iff del: not_None_eq)
  then show "stored t h k \<noteq> None" using stored_bucket [OF nw od mv n [symmetric]] n by simp
qed

lemma insert_new_ok:
  fixes v :: 'v
  assumes nw: "new_ok t h" and od: "old_ok t h" and mv: "moved h n" and n: "n = hasher t (hash0 h) k mod 2 ^ hB h"
    and sc: "assign_scan (tophash (hasher t (hash0 h) k)) k (the (buckets h) ! n) 0 None = NotFound ins"
  defines "h' \<equiv> insert_new n (tophash (hasher t (hash0 h) k)) k v ins h"
  shows "new_ok t h'" "old_ok t h'" "stored t h' = (stored t h)(k \<mapsto> v)" "stored t h k = None" "hcount h' = hcount h + 1"
    "hB h' = hB h" "hash0 h' = hash0 h" "hashWriting h' = hashWriting h" "growing h' = growing h" "noldbuckets h' = noldbuckets h"
proof -
  let ?b = "the (buckets h) ! n" and ?H = "hasher t (hash0 h)"
  have c: "chain_ok ?H (2 ^ hB h) n ?b" using bucket_chain [OF nw] n by simp
  have miss: "k \<notin> fst ` set (items ?b)"
    "case ins of None \<Rightarrow> \<not> list_ex (\<lambda>c. isEmpty (fst c)) ?b
     | Some j \<Rightarrow> j < length ?b \<and> isEmpty (fst (?b ! j)) \<and> \<not> list_ex (\<lambda>c. isEmpty (fst c)) (take j ?b)"
    using scan_miss [of ?H k ?b 0 ins "2 ^ hB h" n] sc c by (auto simp: chain_ok_def split: option.splits)
  show "stored t h k = None"
    using stored_bucket [OF nw od mv n [symmetric]] n miss(1) by (simp add: map_of_eq_None_iff)
  have "\<exists>b i g. h' = (set_bucket n (b[i := (tophash (?H k), Some (k, v))]) g)\<lparr>hcount := hcount g + 1\<rparr> \<and> same_hdr h g \<and>
    chain_ok ?H (2 ^ hB h) n b \<and> items b = items ?b \<and> i < length b \<and> isEmpty (fst (b ! i)) \<and>
    \<not> list_ex (\<lambda>c. fst c = emptyRest) (take i b)"
  proof (cases ins)
    case (Some i)
    then show ?thesis using miss(2) c
      by (intro exI [of _ ?b] exI [of _ i] exI [of _ h]) (auto simp: h'_def insert_new_def list_ex_iff isEmpty_iff)
  next
    case None
    let ?c = "?b @ empty_bucket"
    have ne: "\<not> list_ex (\<lambda>c. fst c = emptyRest) ?b" using miss(2) None by (auto simp: list_ex_iff isEmpty_iff)
    have "chain_ok ?H (2 ^ hB h) n ?c"
      using c empty_bucket_ok [of ?H "2 ^ hB h" n] rest_append [OF ne, of empty_bucket] by (auto simp: chain_ok_def)
    moreover have "?c ! length ?b = (emptyRest, None)" by (simp add: empty_bucket_Cons)
    ultimately show ?thesis using ne None incrnoverflow_hdr [of h]
      by (intro exI [of _ ?c] exI [of _ "length ?b"] exI [of _ "incrnoverflow h"])
        (auto simp: h'_def insert_new_def newoverflow_def isEmpty_iff empty_bucket_Cons)
  qed
  then obtain b i g where g: "h' = (set_bucket n (b[i := (tophash (?H k), Some (k, v))]) g)\<lparr>hcount := hcount g + 1\<rparr>" "same_hdr h g"
    and b: "chain_ok ?H (2 ^ hB h) n b" "items b = items ?b" "i < length b" "isEmpty (fst (b ! i))"
      "\<not> list_ex (\<lambda>c. fst c = emptyRest) (take i b)" by blast
  note e = same_hdr_eqs [OF g(2)]
  have m: "noldbuckets g = noldbuckets h" "growing g = growing h" by (simp_all add: e noldbuckets_def growing_def)
  have g': "new_ok t g" "stored t g = stored t h"
    using nw new_ok_cong [of g h] stored_cong [of g h] e by simp_all
  have "old_part t g = old_part t h" by (rule old_part_cong) (simp_all add: e)
  then have og: "old_ok t g" using od e m by (simp add: old_ok_def)
  have mg: "moved g n" using mv e m by (simp add: moved_def)
  have ng: "n = hasher t (hash0 g) k mod 2 ^ hB g" using n e by simp
  have old: "isEmpty (fst (b ! i)) \<and> k \<notin> fst ` set (items b) \<or> (\<exists>v. b ! i = (tophash (?H k), Some (k, v)))"
    using b(2,4) miss(1) by simp
  note A = assign_chain [OF b(1) n [symmetric] b(3,5) old, where v = v]
  let ?w = "set_bucket n (b[i := (tophash (?H k), Some (k, v))]) g"
  have w: "new_ok t ?w" "old_ok t ?w" "stored t ?w = (stored t g)(k \<mapsto> v)"
    by (rule write_ok [OF g'(1) og mg ng]; use A(1,2) b(2) e in simp)+
  have f: "buckets h' = buckets ?w" "oldbuckets h' = oldbuckets ?w" "hash0 h' = hash0 ?w" "hB h' = hB ?w"
    "sameSizeFlag h' = sameSizeFlag ?w" "nevacuate h' = nevacuate ?w" "noldbuckets h' = noldbuckets ?w" "growing h' = growing ?w"
    by (simp_all add: g(1) noldbuckets_def growing_def)
  show "new_ok t h'" using w(1) new_ok_cong [of h' ?w] f by simp
  have "old_part t h' = old_part t ?w" by (rule old_part_cong) (simp_all add: f)
  then show "old_ok t h'" using w(2) f by (simp add: old_ok_def)
  show "stored t h' = (stored t h)(k \<mapsto> v)" using w(3) g'(2) stored_cong [of h' ?w] f by simp
  show "hcount h' = hcount h + 1" "hB h' = hB h" "hash0 h' = hash0 h" "hashWriting h' = hashWriting h" "growing h' = growing h"
    "noldbuckets h' = noldbuckets h"
    by (simp_all add: g(1) e set_bucket_def noldbuckets_def growing_def)
qed

end
