(* ===== verification/GoMapRuns.thy ===== *)
theory GoMapRuns
  imports GoMapOps
begin

text \<open>
  The invariant of a whole map, the operations as operations on a finite map, and sequences of
  operations from a map just made.
\<close>

subsection \<open>The invariant of a map between two operations\<close>

text \<open>
  While a map grows it has at least four old buckets, and a map of one or two buckets is within
  its load: this is why one round of \<open>growWork\<close> after \<open>hashGrow\<close> never asks for another growth.
\<close>

definition sized :: "('k, 'v) hmap \<Rightarrow> bool" where
  "sized h \<longleftrightarrow> (growing h \<longrightarrow> 4 \<le> noldbuckets h) \<and> (hB h \<le> 1 \<longrightarrow> \<not> overLoadFactor (hcount h) (hB h))"

definition counted :: "'k maptype \<Rightarrow> ('k, 'v) hmap \<Rightarrow> bool" where
  "counted t h \<longleftrightarrow> finite (dom (stored t h)) \<and> hcount h = card (dom (stored t h))"

definition whole :: "'k maptype \<Rightarrow> ('k, 'v) hmap \<Rightarrow> bool" where
  "whole t h \<longleftrightarrow> new_ok t h \<and> old_ok t h \<and> sized h \<and> counted t h"

definition map_inv :: "'k maptype \<Rightarrow> ('k, 'v) hmap \<Rightarrow> bool" where
  "map_inv t h \<longleftrightarrow> \<not> hashWriting h \<and>
     (if buckets h = None then hB h = 0 \<and> hcount h = 0 \<and> oldbuckets h = None \<and> \<not> sameSizeFlag h else whole t h)"

lemma load_simps: "overLoadFactor n 0 \<longleftrightarrow> 8 < n" "overLoadFactor n (Suc 0) \<longleftrightarrow> 13 < n" "overLoadFactor n 2 \<longleftrightarrow> 26 < n"
  by (auto simp: overLoadFactor_def bucketShift_def bucketCnt_def)

lemma growing_B:
  assumes "4 \<le> noldbuckets h"
  shows "2 \<le> hB h"
proof (rule ccontr)
  assume "\<not> 2 \<le> hB h"
  then have "noldbuckets h \<le> 2 ^ 1" unfolding noldbuckets_def bucketShift_def by (intro power_increasing) auto
  then show False using assms by simp
qed

lemma same_map_cong:
  assumes "same_map h h'" "stored t h' = stored t h"
  shows "counted t h' = counted t h"
  using assms by (simp add: counted_def same_map_def)

lemma grow_step:
  assumes nw: "new_ok t h" and od: "old_ok t h" and sz: "sized h"
  shows "\<exists>h'. grow_if_growing t bucket h = Inr h' \<and> same_map h h' \<and> new_ok t h' \<and> old_ok t h' \<and> stored t h' = stored t h \<and>
    moved h' bucket \<and> sized h'"
proof (cases "growing h")
  case False
  then show ?thesis using nw od sz by (intro exI [of _ h]) (simp add: grow_if_growing_def same_map_def moved_def)
next
  case True
  from growWork_ok [OF nw od True, of bucket] obtain h' where h': "growWork t bucket h = Inr h'" "same_map h h'" "new_ok t h'" "old_ok t h'"
    "stored t h' = stored t h"
    "growing h' \<longrightarrow> sameSizeFlag h' = sameSizeFlag h \<and> evac_ok (the (oldbuckets h') ! (bucket mod noldbuckets h))" by blast
  have "growing h' \<Longrightarrow> noldbuckets h' = noldbuckets h" using nold_cong [OF h'(2)] h'(6) by blast
  then show ?thesis using h' True sz by (intro exI [of _ h']) (auto simp: grow_if_growing_def moved_def sized_def same_map_def)
qed

subsection \<open>Assigning\<close>

definition assigned :: "'k maptype \<Rightarrow> 'k \<Rightarrow> 'v \<Rightarrow> ('k, 'v) hmap \<Rightarrow> ('k, 'v) hmap \<Rightarrow> bool" where
  "assigned t k v h h' \<longleftrightarrow> whole t h' \<and> stored t h' = (stored t h)(k \<mapsto> v) \<and> hash0 h' = hash0 h \<and> hashWriting h' = hashWriting h"

lemma counted_upd:
  assumes "counted t h" "stored t h' = (stored t h)(k \<mapsto> v)" "hcount h' = hcount h + (if stored t h k = None then 1 else 0)"
  shows "counted t h'"
  using assms by (auto simp: counted_def card_insert_if domIff insert_absorb)

lemma assign_place:
  assumes g: "grow_if_growing t (hasher t (hash0 h) k mod 2 ^ hB h) h = Inr h1" "same_map h h1" "new_ok t h1" "old_ok t h1"
      "stored t h1 = stored t h" "moved h1 (hasher t (hash0 h) k mod 2 ^ hB h)" "sized h1" "counted t h1"
    and fits: "growing h1 \<or> \<not> (overLoadFactor (hcount h1 + 1) (hB h1) \<or> tooManyOverflowBuckets (noverflow h1) (hB h1)) \<or>
      (\<exists>i. assign_scan (tophash (hasher t (hash0 h) k)) k (the (buckets h1) ! (hasher t (hash0 h) k mod 2 ^ hB h)) 0 None = Found i)"
  shows "\<exists>h'. assign_again (Suc n) t k v h = Inr h' \<and> assigned t k v h h'"
proof -
  let ?hash = "hasher t (hash0 h) k"
  let ?b = "?hash mod 2 ^ hB h"
  have f: "hB h1 = hB h" "hash0 h1 = hash0 h" "hashWriting h1 = hashWriting h" using g(2) by (simp_all add: same_map_def)
  have n: "?b = hasher t (hash0 h1) k mod 2 ^ hB h1" by (simp add: f)
  note run = assign_again.simps(2) [of n t k v h, unfolded Let_def bucketShift_def g(1)]
  show ?thesis
  proof (cases "assign_scan (tophash (hasher t (hash0 h1) k)) k (the (buckets h1) ! ?b) 0 None")
    case (Found i)
    let ?h = "set_bucket ?b ((the (buckets h1) ! ?b)[i := (tophash (hasher t (hash0 h1) k), Some (k, v))]) h1"
    note F = found_ok(1-3) [OF g(3,4,6) n Found, of v] found_ok(4) [OF g(3,4,6) n Found]
    have "assign_again (Suc n) t k v h = Inr ?h" using run Found f(2) by simp
    moreover have "hB ?h = hB h1" "hcount ?h = hcount h1" "growing ?h = growing h1" "noldbuckets ?h = noldbuckets h1"
      "hash0 ?h = hash0 h" "hashWriting ?h = hashWriting h"
      using f by (simp_all add: set_bucket_def growing_def noldbuckets_def)
    moreover from this have "sized ?h" using g(7) by (simp add: sized_def)
    moreover have "counted t ?h" using counted_upd [OF g(8) F(3)] F(4) by (simp add: set_bucket_def)
    ultimately show ?thesis using F g(5) by (intro exI [of _ ?h]) (simp add: assigned_def whole_def)
  next
    case (NotFound ins)
    let ?h = "insert_new ?b (tophash (hasher t (hash0 h1) k)) k v ins h1"
    note I = insert_new_ok(1-3) [OF g(3,4,6) n NotFound, of v] insert_new_ok(4) [OF g(3,4,6) n NotFound]
      insert_new_ok(5-10) [OF g(3,4,6) n NotFound, of v]
    have fit: "growing h1 \<or> \<not> (overLoadFactor (hcount h1 + 1) (hB h1) \<or> tooManyOverflowBuckets (noverflow h1) (hB h1))"
      using fits NotFound f(2) by auto
    then have "assign_again (Suc n) t k v h = Inr ?h" using run NotFound f(2) by auto
    moreover have "counted t ?h" using counted_upd [OF g(8) I(3)] I(4,5) by simp
    moreover have "sized ?h"
    proof (cases "growing h1")
      case True
      then show ?thesis using g(7) growing_B [of h1] I(6,9,10) by (simp add: sized_def)
    next
      case False
      then show ?thesis using fit I(5,6,9) by (simp add: sized_def)
    qed
    ultimately show ?thesis using I f g(5) by (intro exI [of _ ?h]) (simp add: assigned_def whole_def)
  qed
qed

text \<open>At most one growth: the second attempt always finds room.\<close>

lemma assign_again_ok:
  assumes "whole t h"
  shows "\<exists>h'. assign_again 2 t k v h = Inr h' \<and> assigned t k v h h'"
proof -
  let ?hash = "hasher t (hash0 h) k"
  have w: "new_ok t h" "old_ok t h" "sized h" "counted t h" using assms by (simp_all add: whole_def)
  from grow_step [OF w(1-3), of "?hash mod 2 ^ hB h"] obtain h1 where
    h1: "grow_if_growing t (?hash mod 2 ^ hB h) h = Inr h1" "same_map h h1" "new_ok t h1" "old_ok t h1"
      "stored t h1 = stored t h" "moved h1 (?hash mod 2 ^ hB h)" "sized h1" by blast
  have c1: "counted t h1" using same_map_cong [OF h1(2,5)] w(4) by simp
  have f1: "hB h1 = hB h" "hash0 h1 = hash0 h" "hcount h1 = hcount h" "hashWriting h1 = hashWriting h"
    using h1(2) by (simp_all add: same_map_def)
  let ?over = "overLoadFactor (hcount h1 + 1) (hB h1)" and ?many = "tooManyOverflowBuckets (noverflow h1) (hB h1)"
  let ?scan = "\<lambda>g. assign_scan (tophash ?hash) k (the (buckets g) ! (?hash mod 2 ^ hB g)) 0 None"
  show ?thesis
  proof (cases "growing h1 \<or> \<not> (?over \<or> ?many) \<or> (\<exists>i. ?scan h1 = Found i)")
    case True
    then show ?thesis using assign_place [OF h1 c1, of "Suc 0" v] f1(1) by (simp add: numeral_2_eq_2)
  next
    case False
    then obtain ins where ins: "?scan h1 = NotFound ins" by (cases "?scan h1") auto
    define g where "g = hashGrow h1"
    have ng: "\<not> growing h1" and need: "?over \<or> ?many" using False by auto
    note H = hashGrow_ok [OF h1(3,4) ng, folded g_def]
    have again: "assign_again 2 t k v h = assign_again (Suc 0) t k v g"
      using h1(1) ins ng need f1 by (simp add: numeral_2_eq_2 Let_def bucketShift_def g_def)
    let ?b = "hasher t (hash0 g) k mod 2 ^ hB g"
    from growWork_ok [OF H(1,2,3), of ?b] obtain h2 where
      h2: "growWork t ?b g = Inr h2" "same_map g h2" "new_ok t h2" "old_ok t h2" "stored t h2 = stored t g"
        "8 * noverflow g \<le> filled g \<longrightarrow> 8 * noverflow h2 \<le> filled h2"
        "growing h2 \<longrightarrow> sameSizeFlag h2 = sameSizeFlag g \<and> evac_ok (the (oldbuckets h2) ! (?b mod noldbuckets g)) \<and>
           (nevacuate g = 0 \<longrightarrow> 2 < noldbuckets g)"
        "\<not> growing h2 \<longrightarrow> (\<forall>i < noldbuckets g. \<not> evac_ok (the (oldbuckets g) ! i)) \<longrightarrow> noldbuckets g \<le> 2" by (elim exE conjE) (rule that)
    have g2: "grow_if_growing t ?b g = Inr h2" using h2(1) H(3) by (simp add: grow_if_growing_def)
    have f2: "hB h2 = (if ?over then hB h1 + 1 else hB h1)" "hcount h2 = hcount h1" "hash0 h2 = hash0 h" "hashWriting h2 = hashWriting h"
      using h2(2) H(8-11) f1 by (simp_all add: same_map_def)
    have st: "stored t h2 = stored t h" using h2(5) H(4) h1(5) by simp
    have c2: "counted t h2" using w(4) st f2(2) f1(3) by (simp add: counted_def)
    have nold: "noldbuckets h2 = noldbuckets g" if "growing h2" using nold_cong [OF h2(2)] h2(7) that by blast
    have mv: "moved h2 ?b" using h2(7) nold by (simp add: moved_def)
    have small: "hB h1 \<le> 1 \<and> 8 * noverflow h2 \<le> hcount h2" if ng2: "\<not> growing h2"
    proof
      have "(2 :: nat) ^ hB h1 \<le> 2" using h2(8) ng2 H(7,12) by simp
      then show "hB h1 \<le> 1" using power_increasing [of 2 "hB h1" "2 :: nat"] by (cases "2 \<le> hB h1") auto
      have "filled h2 = hcount h2" using stored_dom(2) [OF h2(3) ng2] c2 by (simp add: counted_def)
      then show "8 * noverflow h2 \<le> hcount h2" using h2(6) H(6) by simp
    qed
    have light: "\<not> overLoadFactor (hcount h1) (hB h1)" if "\<not> growing h2" using h1(7) small [OF that] by (simp add: sized_def)
    have B: "hB h1 = 0 \<or> hB h1 = Suc 0" if "\<not> growing h2" using small [OF that] by auto
    have room: "\<not> (overLoadFactor (hcount h2 + 1) (hB h2) \<or> tooManyOverflowBuckets (noverflow h2) (hB h2))" if ng2: "\<not> growing h2"
    proof (cases ?over)
      case True
      then show ?thesis using B [OF ng2] light [OF ng2] small [OF ng2] f2(1,2)
        by (auto simp: load_simps tooManyOverflowBuckets_def numeral_2_eq_2 [symmetric])
    next
      case False
      then show ?thesis using B [OF ng2] small [OF ng2] f2(1,2)
        by (auto simp: load_simps tooManyOverflowBuckets_def)
    qed
    have sz: "sized h2"
    proof (cases "growing h2")
      case True
      have "2 < (2 :: nat) ^ hB h1" using h2(7) True H(5,7) by simp
      then have "2 \<le> hB h1" using power_increasing [of "hB h1" 1 "2 :: nat"] by (cases "hB h1 \<le> 1") auto
      then have "4 \<le> (2 :: nat) ^ hB h1" using power_increasing [of 2 "hB h1" "2 :: nat"] by simp
      then show ?thesis using nold [OF True] H(7) f2(1) \<open>2 \<le> hB h1\<close> by (simp add: sized_def)
    next
      case False
      then show ?thesis using room [OF False] B [OF False] f2(1,2) light [OF False]
        by (auto simp: sized_def load_simps split: if_splits)
    qed
    have st2: "stored t h2 = stored t g" by (rule h2(5))
    from assign_place [OF g2 h2(2-5) mv sz c2, of 0 v] room obtain h' where
      "assign_again (Suc 0) t k v g = Inr h'" "assigned t k v g h'" by blast
    then show ?thesis using again H(4,9,10) h1(5) f1 by (intro exI [of _ h']) (simp add: assigned_def)
  qed
qed

lemma whole_flag [simp]: "whole t (h\<lparr>hashWriting := x\<rparr>) = whole t h" "stored t (h\<lparr>hashWriting := x\<rparr>) = stored t h"
proof -
  have "stored t (h\<lparr>hashWriting := x\<rparr>) = stored t h" by (rule stored_cong) simp_all
  moreover have "old_part t (h\<lparr>hashWriting := x\<rparr>) = old_part t h" by (rule old_part_cong) simp_all
  moreover have "noldbuckets (h\<lparr>hashWriting := x\<rparr>) = noldbuckets h" by (simp add: noldbuckets_def)
  ultimately show "whole t (h\<lparr>hashWriting := x\<rparr>) = whole t h" "stored t (h\<lparr>hashWriting := x\<rparr>) = stored t h"
    by (simp_all add: whole_def new_ok_def old_ok_def sized_def counted_def growing_def)
qed

lemma whole_buckets: "whole t h \<Longrightarrow> buckets h \<noteq> None"
  by (auto simp: whole_def new_ok_def)

lemma whole_inv: "whole t h \<Longrightarrow> map_inv t (h\<lparr>hashWriting := False\<rparr>)"
  using whole_buckets [of t h] by (auto simp: map_inv_def)

lemma map_invD: "map_inv t h \<Longrightarrow> \<not> hashWriting h" "map_inv t h \<Longrightarrow> buckets h \<noteq> None \<Longrightarrow> whole t h"
  by (simp_all add: map_inv_def)

lemma empty_stored: "map_inv t h \<Longrightarrow> buckets h = None \<Longrightarrow> stored t h = Map.empty"
  by (simp add: stored_def fun_eq_iff)

text \<open>New buckets, nothing in them.\<close>

lemma fresh_whole:
  fixes h :: "('k, 'v) hmap"
  assumes "buckets h = Some (makeBucketArray (hB h))" "oldbuckets h = None" "\<not> sameSizeFlag h" "hcount h = 0"
  shows "whole t h" "stored t h = Map.empty"
proof -
  have at: "(makeBucketArray (hB h) :: ('k, 'v) bmap list) ! i = empty_bucket" if "i < 2 ^ hB h" for i
    using that by (simp add: makeBucketArray_def bucketShift_def)
  have atm: "(makeBucketArray (hB h) :: ('k, 'v) bmap list) ! (m mod 2 ^ hB h) = empty_bucket" for m by (rule at) simp
  show st: "stored t h = Map.empty"
    using assms(1,2) atm by (auto simp: stored_def bucket_of_def fun_eq_iff Let_def bucketShift_def)
  have "new_ok t h" unfolding new_ok_def assms(1) using at empty_bucket_ok by (auto simp: makeBucketArray_def bucketShift_def)
  moreover have "\<not> overLoadFactor 0 (hB h)" by (simp add: overLoadFactor_def)
  ultimately show "whole t h" using assms st by (simp add: whole_def old_ok_def growing_def sized_def counted_def)
qed

lemma mapassign_ok:
  assumes "map_inv t h"
  shows "\<exists>h'. mapassign t k v (Some h) = Inr h' \<and> map_inv t h' \<and> stored t h' = (stored t h)(k \<mapsto> v)"
proof -
  let ?w = "h\<lparr>hashWriting := True\<rparr>"
  define g where "g = (if buckets ?w = None then ?w\<lparr>buckets := Some [empty_bucket]\<rparr> else ?w)"
  have "whole t g \<and> stored t g = stored t h"
  proof (cases "buckets h = None")
    case True
    have "[empty_bucket] = makeBucketArray 0" by (simp add: makeBucketArray_def bucketShift_def)
    then have "buckets g = Some (makeBucketArray (hB g))" "oldbuckets g = None" "\<not> sameSizeFlag g" "hcount g = 0"
      using assms True by (simp_all add: g_def map_inv_def)
    from fresh_whole [OF this] show ?thesis using empty_stored [OF assms True] by simp
  next
    case False
    then show ?thesis using map_invD(2) [OF assms] by (auto simp: g_def)
  qed
  then obtain h1 where h1: "assign_again 2 t k v g = Inr h1" "assigned t k v g h1" "stored t g = stored t h"
    using assign_again_ok [of t g k v] by blast
  have "hashWriting h1" using h1(2) by (simp add: assigned_def g_def)
  then have "mapassign t k v (Some h) = Inr (h1\<lparr>hashWriting := False\<rparr>)"
    unfolding mapassign_def Let_def option.case g_def [symmetric] h1(1) using map_invD(1) [OF assms] by simp
  then show ?thesis using h1(2,3) whole_inv [of t h1] by (simp add: assigned_def)
qed

subsection \<open>Looking up, deleting, clearing, making\<close>

lemma bucket_of_chain:
  assumes w: "whole t h"
  shows "\<exists>n i. chain_ok (hasher t (hash0 h)) n i (bucket_of h (hasher t (hash0 h) k))"
proof -
  let ?hash = "hasher t (hash0 h) k"
  have nw: "new_ok t h" and od: "old_ok t h" using w by (simp_all add: whole_def)
  show ?thesis
  proof (cases "growing h \<and> \<not> evacuated (the (oldbuckets h) ! (?hash mod noldbuckets h))")
    case True
    then have b: "bucket_of h ?hash = the (oldbuckets h) ! (?hash mod noldbuckets h)"
      by (auto simp: bucket_of_def growing_def Let_def)
    have "pending_ok t h (the (oldbuckets h)) (?hash mod noldbuckets h)" using old_okD(3) [OF od] True by simp
    then show ?thesis using True b evac_ok_evacuated by (auto simp: pending_ok_def)
  next
    case False
    then have "bucket_of h ?hash = the (buckets h) ! (?hash mod 2 ^ hB h)"
      by (auto simp: bucket_of_def growing_def Let_def bucketShift_def split: option.split)
    then show ?thesis using bucket_chain [OF nw] by metis
  qed
qed

lemma count_zero: "map_inv t h \<Longrightarrow> hcount h = 0 \<Longrightarrow> stored t h = Map.empty"
proof (cases "buckets h = None")
  case False
  assume "map_inv t h" "hcount h = 0"
  then have "finite (dom (stored t h))" "card (dom (stored t h)) = 0" using False by (simp_all add: map_inv_def whole_def counted_def)
  then show ?thesis by simp
qed (simp add: empty_stored)

lemma mapaccess2_ok:
  assumes "map_inv t h"
  shows "mapaccess2 t (Some h) k = Inr (stored t h k)"
proof (cases "hcount h = 0")
  case True
  then show ?thesis using count_zero [OF assms] by (simp add: mapaccess2_def)
next
  case False
  then have b: "buckets h \<noteq> None" using assms by (auto simp: map_inv_def split: if_splits)
  obtain n i where c: "chain_ok (hasher t (hash0 h)) n i (bucket_of h (hasher t (hash0 h) k))"
    using bucket_of_chain [OF map_invD(2) [OF assms b]] by blast
  have "find_cell (tophash (hasher t (hash0 h) k)) k (bucket_of h (hasher t (hash0 h) k)) =
      map_option (Pair k) (map_of (items (bucket_of h (hasher t (hash0 h) k))) k)"
    using c find_cell_items [of "hasher t (hash0 h)" n i "bucket_of h (hasher t (hash0 h) k)" k] by (simp add: chain_ok_def)
  then show ?thesis using False b map_invD(1) [OF assms] by (auto simp: mapaccess2_def stored_def option.map_comp comp_def option.map_ident)
qed

lemma overLoad_mono: "overLoadFactor m b \<Longrightarrow> m \<le> n \<Longrightarrow> overLoadFactor n b"
  by (simp add: overLoadFactor_def)

lemma counted_del:
  assumes "counted t h" "stored t h' = (stored t h)(k := None)" "k \<in> dom (stored t h)" "hcount h' = hcount h - 1"
  shows "counted t h'"
  using assms by (simp add: counted_def card_Diff_singleton)

lemma mapdelete_ok:
  assumes inv: "map_inv t h"
  shows "\<exists>h'. mapdelete t k (Some h) = Inr (Some h') \<and> map_inv t h' \<and> stored t h' = (stored t h)(k := None)"
proof (cases "hcount h = 0")
  case True
  then show ?thesis using count_zero [OF inv] inv by (simp add: mapdelete_def)
next
  case False
  then have "buckets h \<noteq> None" using inv by (auto simp: map_inv_def split: if_splits)
  then have w: "whole t h" by (rule map_invD(2) [OF inv])
  define g where "g = h\<lparr>hashWriting := True\<rparr>"
  have wg: "whole t g" "stored t g = stored t h" "hash0 g = hash0 h" "hB g = hB h" "hashWriting g" using w by (simp_all add: g_def)
  let ?hash = "hasher t (hash0 h) k"
  let ?n = "?hash mod 2 ^ hB h"
  from grow_step [of t g ?n] wg(1) obtain h1 where
    h1: "grow_if_growing t ?n g = Inr h1" "same_map g h1" "new_ok t h1" "old_ok t h1" "stored t h1 = stored t g"
      "moved h1 ?n" "sized h1" by (auto simp: whole_def)
  have f: "hB h1 = hB h" "hash0 h1 = hash0 h" "hashWriting h1" using h1(2) wg by (simp_all add: same_map_def)
  have c1: "counted t h1" using same_map_cong [OF h1(2,5)] wg(1) by (simp add: whole_def)
  let ?b = "the (buckets h1) ! ?n"
  have n: "?n = hasher t (hash0 h1) k mod 2 ^ hB h1" by (simp add: f)
  have c: "chain_ok (hasher t (hash0 h1)) (2 ^ hB h1) ?n ?b" using bucket_chain [OF h1(3)] n by simp
  define h2 where "h2 = (case del_find (tophash ?hash) k ?b 0 of
      None \<Rightarrow> h1 | Some i \<Rightarrow> (set_bucket ?n (del_cell i ?b) h1)\<lparr>hcount := hcount h1 - 1\<rparr>)"
  have "whole t h2 \<and> stored t h2 = (stored t h)(k := None) \<and> hashWriting h2"
  proof (cases "del_find (tophash ?hash) k ?b 0")
    case None
    then have "k \<notin> fst ` set (items ?b)"
      using find_miss [of "hasher t (hash0 h1)" k ?b 0 "2 ^ hB h1" ?n] None c f(2) by (simp add: chain_ok_def)
    then have "stored t h1 k = None"
      using stored_bucket [OF h1(3,4,6) n [symmetric]] f(1) by (simp add: map_of_eq_None_iff)
    then have "(stored t h)(k := None) = stored t h1" using h1(5) wg(2) by (simp add: fun_upd_idem)
    then show ?thesis using None h1 c1 f(3) by (simp add: h2_def whole_def)
  next
    case (Some i)
    obtain v where i: "i < length ?b" "?b ! i = (tophash (hasher t (hash0 h1) k), Some (k, v))"
      using find_hit [OF Some] f(2) by auto
    note D = delete_chain [OF c i]
    let ?w = "set_bucket ?n (del_cell i ?b) h1"
    note W = write_ok [OF h1(3,4,6) n D(1,2)]
    have "map_of (items ?b) k \<noteq> None" using D(3) by (simp add: map_of_eq_None_iff del: not_None_eq)
    then have k: "k \<in> dom (stored t h1)"
      using stored_bucket [OF h1(3,4,6) n [symmetric]] f(1) by (simp add: domIff del: not_None_eq)
    have e: "h2 = ?w\<lparr>hcount := hcount h1 - 1\<rparr>" using Some by (simp add: h2_def)
    have g2: "growing h2 = growing h1" "noldbuckets h2 = noldbuckets h1" "hB h2 = hB h1" "hcount h2 = hcount h1 - 1" "hashWriting h2"
      using f(3) by (simp_all add: e set_bucket_def growing_def noldbuckets_def)
    have st: "stored t h2 = stored t ?w" "new_ok t h2 = new_ok t ?w"
      by (rule stored_cong new_ok_cong; simp add: e)+
    have "old_part t h2 = old_part t ?w" by (rule old_part_cong) (simp_all add: e)
    moreover have "growing h2 = growing ?w" "noldbuckets h2 = noldbuckets ?w" "nevacuate h2 = nevacuate ?w"
      "oldbuckets h2 = oldbuckets ?w" "sameSizeFlag h2 = sameSizeFlag ?w"
      by (simp_all add: e growing_def noldbuckets_def)
    ultimately have od: "old_ok t h2" using W(2) by (simp add: old_ok_def)
    have "counted t h2" using counted_del [OF c1 _ k g2(4)] st W(3) by simp
    moreover have "sized h2" using h1(7) g2 overLoad_mono [of "hcount h1 - 1" "hB h1" "hcount h1"] by (auto simp: sized_def)
    ultimately show ?thesis using st od W(1,3) g2(5) h1(5) wg(2) by (simp add: whole_def)
  qed
  moreover have "mapdelete t k (Some h) = (if hashWriting h2 then Inr (Some (h2\<lparr>hashWriting := False\<rparr>)) else Inl ConcurrentWrites)"
    using False map_invD(1) [OF inv] h1(1)
    by (simp add: mapdelete_def Let_def bucketShift_def h2_def [symmetric] g_def [symmetric])
  ultimately show ?thesis using whole_inv [of t h2] by simp
qed

lemma mapclear_ok:
  assumes inv: "map_inv t h"
  shows "\<exists>h'. mapclear (Some h) = Inr (Some h') \<and> map_inv t h' \<and> stored t h' = Map.empty"
proof (cases "hcount h = 0")
  case True
  then show ?thesis using count_zero [OF inv] inv by (simp add: mapclear_def)
next
  case False
  let ?h = "h\<lparr>sameSizeFlag := False, oldbuckets := None, nevacuate := 0, noverflow := 0,
                            hcount := 0, buckets := Some (makeBucketArray (hB h))\<rparr>"
  have "whole t ?h" "stored t ?h = Map.empty" by (rule fresh_whole; simp)+
  then show ?thesis using False map_invD(1) [OF inv] by (simp add: mapclear_def map_inv_def)
qed

lemma makemap_ok:
  fixes t :: "'k maptype" and h :: "('k, 'v) hmap"
  assumes "h = makemap sz maxAlloc hint g"
  shows "map_inv t h" "stored t h = Map.empty"
proof -
  obtain b where b: "h = (if b = 0 then new_hmap g else (new_hmap g)\<lparr>hB := b, buckets := Some (makeBucketArray b)\<rparr>)"
    using assms by (simp add: makemap_def Let_def)
  show "map_inv t h"
  proof (cases "b = 0")
    case True
    then show ?thesis by (simp add: b map_inv_def new_hmap_def)
  next
    case False
    have "whole t h" by (rule fresh_whole) (simp_all add: b False new_hmap_def)
    then show ?thesis by (simp add: map_inv_def b False new_hmap_def)
  qed
  show "stored t h = Map.empty"
  proof (cases "b = 0")
    case True
    then show ?thesis by (simp add: b stored_def new_hmap_def fun_eq_iff)
  next
    case False
    show ?thesis by (rule fresh_whole) (simp_all add: b False new_hmap_def)
  qed
qed

subsection \<open>Sequences of operations\<close>

datatype ('k, 'v) map_op = OpAssign 'k 'v | OpDelete 'k | OpClear

text \<open>What an operation means, and what the code does for it.\<close>

fun map_spec :: "('k, 'v) map_op \<Rightarrow> ('k \<Rightarrow> 'v option) \<Rightarrow> 'k \<Rightarrow> 'v option" where
  "map_spec (OpAssign k v) m = m(k \<mapsto> v)"
| "map_spec (OpDelete k) m = m(k := None)"
| "map_spec OpClear m = Map.empty"

fun not_nil :: "map_throw + ('k, 'v) hmap option \<Rightarrow> map_throw + ('k, 'v) hmap" where
  "not_nil (Inr (Some h)) = Inr h"
| "not_nil (Inr None) = Inl AssignToNilMap"
| "not_nil (Inl e) = Inl e"

fun map_do :: "'k maptype \<Rightarrow> ('k, 'v) map_op \<Rightarrow> ('k, 'v) hmap \<Rightarrow> map_throw + ('k, 'v) hmap" where
  "map_do t (OpAssign k v) h = mapassign t k v (Some h)"
| "map_do t (OpDelete k) h = not_nil (mapdelete t k (Some h))"
| "map_do t OpClear h = not_nil (mapclear (Some h))"

fun run_ops :: "('op \<Rightarrow> 's \<Rightarrow> 'e + 's) \<Rightarrow> 'op list \<Rightarrow> 's \<Rightarrow> 'e + 's" where
  "run_ops act [] s = Inr s"
| "run_ops act (x # xs) s = (case act x s of Inl e \<Rightarrow> Inl e | Inr s \<Rightarrow> run_ops act xs s)"

text \<open>What a program relies on when it uses a map: no operation fails, and each acts as its meaning.\<close>

locale finite_map =
  fixes good :: "'s \<Rightarrow> bool" and view :: "'s \<Rightarrow> 'k \<Rightarrow> 'v option" and act :: "('k, 'v) map_op \<Rightarrow> 's \<Rightarrow> 'e + 's"
  assumes act_ok: "good s \<Longrightarrow> \<exists>s'. act x s = Inr s' \<and> good s' \<and> view s' = map_spec x (view s)"
begin

lemma run: "good s \<Longrightarrow> \<exists>s'. run_ops act xs s = Inr s' \<and> good s' \<and> view s' = fold map_spec xs (view s)"
proof (induction xs arbitrary: s)
  case (Cons x xs)
  from act_ok [OF Cons.prems, of x] obtain s' where "act x s = Inr s'" "good s'" "view s' = map_spec x (view s)" by blast
  then show ?case using Cons.IH [of s'] by simp
qed simp

end

lemma map_do_ok:
  assumes "map_inv t h"
  shows "\<exists>h'. map_do t x h = Inr h' \<and> map_inv t h' \<and> stored t h' = map_spec x (stored t h)"
proof (cases x)
  case (OpAssign k v)
  then show ?thesis using mapassign_ok [OF assms, of k v] by simp
next
  case (OpDelete k)
  then show ?thesis using mapdelete_ok [OF assms, of k] by auto
next
  case OpClear
  then show ?thesis using mapclear_ok [OF assms] by auto
qed

interpretation hash_map: finite_map "map_inv t" "stored t" "map_do t" for t :: "'k maptype"
  by unfold_locales (rule map_do_ok)

lemma map_len: "map_inv t h \<Longrightarrow> hcount h = card (dom (stored t h))"
  by (cases "buckets h = None") (auto simp: map_inv_def whole_def counted_def stored_def dom_def)

lemma assign_more_fuel: "assign_again n t k v h = Inr h' \<Longrightarrow> n \<le> m \<Longrightarrow> assign_again m t k v h = Inr h'"
proof (induction n arbitrary: m h)
  case (Suc n)
  then obtain m' where m: "m = Suc m'" "n \<le> m'" by (cases m) auto
  show ?case using Suc.prems(1) Suc.IH [OF _ m(2)] m(1)
    by (auto simp: Let_def split: sum.splits slot.splits if_splits)
qed simp

subsection \<open>Properties\<close>

text \<open>
  C2: Go's hash map is a finite map. Whatever the hash function, after any sequence of assignments,
  deletions and clearings of a map just made, through any growth and with old buckets still to
  evacuate, no operation has thrown, a look-up finds exactly what a finite map would hold, and the
  count is the number of keys.
\<close>

theorem map_implements_finite_map:
  "\<exists>h. run_ops (map_do t) ops (makemap bucket_size maxAlloc hint g) = Inr h \<and>
     (\<forall>k. mapaccess2 t (Some h) k = Inr (fold map_spec ops Map.empty k) \<and>
          mapaccess1 zero t (Some h) k = Inr (case fold map_spec ops Map.empty k of Some v \<Rightarrow> v | None \<Rightarrow> zero)) \<and>
     reflect_maplen (Some h) = card (dom (fold map_spec ops Map.empty))"
proof -
  from hash_map.run [OF makemap_ok(1) [OF refl], of t ops bucket_size maxAlloc hint g, unfolded makemap_ok(2) [OF refl]]
  obtain h where h: "run_ops (map_do t) ops (makemap bucket_size maxAlloc hint g) = Inr h" "map_inv t h"
      "stored t h = fold map_spec ops Map.empty" by blast
  then show ?thesis
    using mapaccess2_ok [OF h(2)] map_len [OF h(2)]
    by (intro exI [of _ h]) (simp add: mapaccess1_def reflect_maplen_def split: option.split)
qed

text \<open>
  C15: Growth is invisible. While a map grows, a round of \<open>growWork\<close> for any bucket moves old buckets
  to the new ones, perhaps ends the growth, and leaves every look-up and the count as they were.
\<close>

theorem growth_is_invisible:
  assumes "map_inv t h" "growing h"
  shows "\<exists>h'. growWork t bucket h = Inr h' \<and> map_inv t h' \<and> reflect_maplen (Some h') = reflect_maplen (Some h) \<and>
    (\<forall>k. mapaccess2 t (Some h') k = mapaccess2 t (Some h) k)"
proof -
  have "buckets h \<noteq> None" using assms by (auto simp: map_inv_def growing_def split: if_splits)
  then have w: "whole t h" by (rule map_invD(2) [OF assms(1)])
  from grow_step [of t h bucket] w assms(2) obtain h' where
    h': "growWork t bucket h = Inr h'" "same_map h h'" "new_ok t h'" "old_ok t h'" "stored t h' = stored t h" "sized h'"
    by (auto simp: whole_def grow_if_growing_def)
  have w': "whole t h'" using h'(3,4,6) w same_map_cong [OF h'(2,5)] by (simp add: whole_def)
  then have inv: "map_inv t h'" using whole_buckets [OF w'] h'(2) map_invD(1) [OF assms(1)] by (auto simp: map_inv_def same_map_def)
  then show ?thesis
    using h'(1,2,5) mapaccess2_ok [OF inv] mapaccess2_ok [OF assms(1)] by (simp add: reflect_maplen_def same_map_def)
qed

text \<open>
  C21: An assignment ends, and jumps back to \<open>again\<close> at most once: one growth always makes room, so
  more attempts change nothing.
\<close>

theorem assign_grows_at_most_once:
  assumes "map_inv t h" "buckets h \<noteq> None" "2 \<le> n"
  shows "\<exists>h'. assign_again n t k v h = Inr h' \<and> assign_again 2 t k v h = Inr h'"
proof -
  obtain h' where r: "assign_again 2 t k v h = Inr h'" using assign_again_ok [OF map_invD(2) [OF assms(1,2)], of k v] by blast
  show ?thesis using assign_more_fuel [OF r assms(3)] r by simp
qed

subsection \<open>A map in the middle of a growth\<close>

definition demo_type :: "nat maptype" where
  "demo_type = \<lparr>hasher = (\<lambda>seed k. k), hasPointers = False\<rparr>"

definition demo_made :: "(nat, nat) hmap" where
  "demo_made = makemap 272 (2 ^ 47) 20 (1, 2)"

definition demo_one :: "(nat, nat) hmap" where
  "demo_one = insert_new 1 (tophash 1) 1 10 (Some 0) demo_made"

definition demo_map :: "(nat, nat) hmap" where
  "demo_map = hashGrow demo_one"

lemma demo_fields: "hB demo_made = 2" "\<not> growing demo_made" "hcount demo_made = 0" "\<not> hashWriting demo_made"
  "buckets demo_made = Some (makeBucketArray 2)" "oldbuckets demo_made = None" "\<not> sameSizeFlag demo_made"
proof -
  have "load_B 20 0 = 2" by (simp add: load_B.simps load_simps numeral_2_eq_2 [symmetric] Suc_1)
  then show "hB demo_made = 2" "\<not> growing demo_made" "hcount demo_made = 0" "\<not> hashWriting demo_made"
    "buckets demo_made = Some (makeBucketArray 2)" "oldbuckets demo_made = None" "\<not> sameSizeFlag demo_made"
    by (simp_all add: demo_made_def makemap_def u64_def Let_def growing_def new_hmap_def)
qed

lemma demo_inv: "map_inv demo_type demo_map" "growing demo_map" "stored demo_type demo_map = [1 \<mapsto> 10]"
proof -
  note F = demo_fields
  have w: "whole demo_type demo_made" "stored demo_type demo_made = Map.empty" by (rule fresh_whole; simp add: F)+
  have nw: "new_ok demo_type demo_made" "old_ok demo_type demo_made" using w(1) by (simp_all add: whole_def)
  have mv: "moved demo_made 1" using F(2) by (simp add: moved_def)
  have n: "1 = hasher demo_type (hash0 demo_made) 1 mod 2 ^ hB demo_made" by (simp add: demo_type_def F(1))
  have "the (buckets demo_made) ! 1 = empty_bucket" by (simp add: F(5) makeBucketArray_def bucketShift_def)
  then have sc: "assign_scan (tophash (hasher demo_type (hash0 demo_made) 1)) 1 (the (buckets demo_made) ! 1) 0 None = NotFound (Some 0)"
    using tophash_not_empty(2) [symmetric] by (simp add: empty_bucket_Cons isEmpty_iff)
  have tp: "tophash (hasher demo_type (hash0 demo_made) 1) = tophash 1" by (simp add: demo_type_def)
  note I = insert_new_ok(1-3,5-10) [OF nw mv n sc, of 10, unfolded tp, folded demo_one_def]
  have ng: "\<not> growing demo_one" using I F(2) by simp
  note H = hashGrow_ok [OF I(1,2) ng, folded demo_map_def]
  show "growing demo_map" by (rule H(3))
  show st: "stored demo_type demo_map = [1 \<mapsto> 10]" using H(4) I(3) w(2) by simp
  have "sized demo_map" using H(7,11) I(5) F(1) by (simp add: sized_def)
  moreover have "counted demo_type demo_map" using st H(8) I(4) F(3) by (simp add: counted_def)
  ultimately have wd: "whole demo_type demo_map" using H(1,2) by (simp add: whole_def)
  have "\<not> hashWriting demo_map" using H(10) I(7) F(4) by simp
  then show "map_inv demo_type demo_map" using wd whole_buckets [OF wd] by (auto simp: map_inv_def)
qed

lemma growth_is_invisible_witness:
  "\<exists>h'. growWork demo_type 1 demo_map = Inr h' \<and> mapaccess2 demo_type (Some h') 1 = Inr (Some 10) \<and>
     mapaccess2 demo_type (Some h') 5 = Inr None"
  using growth_is_invisible [OF demo_inv(1,2), of 1] mapaccess2_ok [OF demo_inv(1)] demo_inv(3) by auto

lemma assign_grows_at_most_once_witness: "\<exists>h'. assign_again 9 demo_type 2 20 demo_map = Inr h'"
proof -
  have "buckets demo_map \<noteq> None" by (simp add: demo_map_def hashGrow_def Let_def)
  then show ?thesis using assign_grows_at_most_once [OF demo_inv(1), of 9 2 20] by auto
qed

end
