(* ===== verification/GoChan.thy ===== *)
theory GoChan
  imports Prelude
begin

text \<open>
  \<open>src/src/runtime/chan.go\<close>: a channel and the goroutines that use it. Every operation but the
  two fast paths runs under the channel's lock and is one step; a fast path is its two reads, one
  step each. A goroutine blocked in a \<open>select\<close> may have cases on other channels too: what it does
  to this channel and what happens elsewhere are steps of an environment here, so that the channel is
  modelled among any others; GoSelect runs \<open>selectgo\<close> over all of them. Elements are values of \<open>'v\<close>: their memory, the profiler's
  and the race detector's calls are left out.
\<close>

subsection \<open>The channel\<close>

text \<open>
  A waiting goroutine: its number, the element it wants to send (a receiver has none), whether it
  waits in a \<open>select\<close>, and which of its cases there (what tells one \<open>sudog\<close> of a goroutine from another).
\<close>

record 'v sudog =
  sg_g :: nat
  sg_elem :: "'v option"
  isSelect :: bool
  sg_case :: nat

record 'v hchan =
  qcount :: nat
  dataqsiz :: nat
  buf :: "'v option list"
  closed :: bool
  sendx :: nat
  recvx :: nat
  recvq :: "'v sudog list"
  sendq :: "'v sudog list"

datatype chan_error = SendOnClosed | CloseOfNil | CloseOfClosed | SizeOutOfRange | InvalidElementType | BadAlignment | SpuriousWakeup

definition maxAlign :: nat where "maxAlign = 8"
definition hchanSize :: nat where "hchanSize = 96"

text \<open>What \<open>makechan\<close> reads of the element's type. \<open>maxAlloc\<close> is the largest allocation of the platform.\<close>

record elem_type =
  elem_size :: nat
  elem_align :: nat

definition makechan :: "nat \<Rightarrow> elem_type \<Rightarrow> int \<Rightarrow> chan_error + 'v hchan" where
  "makechan maxAlloc elem sz =
     (if 2 ^ 16 \<le> elem_size elem then Inl InvalidElementType
      else if hchanSize mod maxAlign \<noteq> 0 \<or> maxAlign < elem_align elem then Inl BadAlignment
      else let mem = elem_size elem * nat (u64 sz)
           in if 2 ^ 64 \<le> mem \<or> maxAlloc - hchanSize < mem \<or> sz < 0 then Inl SizeOutOfRange
              else Inr \<lparr>qcount = 0, dataqsiz = nat sz, buf = replicate (nat sz) None, closed = False,
                        sendx = 0, recvx = 0, recvq = [], sendq = []\<rparr>)"

definition next_index :: "'v hchan \<Rightarrow> nat \<Rightarrow> nat" where
  "next_index c i = (if i + 1 = dataqsiz c then 0 else i + 1)"

subsection \<open>Goroutines\<close>

datatype 'v chan_ret = NoCall | Sent | NotSent | Got 'v | GotZero | NotReady | Closed

text \<open>
  Where a goroutine is: outside the calls, with what the last one returned; in a fast path, between
  its reads, or past it and before the lock; parked in \<open>chansend\<close> or \<open>chanrecv\<close>, woken there (for
  a sender, whether \<open>gp.param\<close> is set; for a receiver, what it was given); parked in a \<open>select\<close>,
  with its \<open>selectDone\<close>, woken there, with the case that \<open>gp.param\<close> is of and what it was given; or stopped.
\<close>

datatype 'v chan_pc =
    ChRet "'v chan_ret"
  | NbSendOpen 'v
  | NbSendLock 'v
  | NbRecvEmpty
  | NbRecvLock
  | SendParked
  | SendWoken bool
  | RecvParked
  | RecvWoken "'v option"
  | SelParked bool
  | SelWoken "nat option" "'v option"
  | ParkedForever
  | ChPanic chan_error
  | ChThrow chan_error

text \<open>\<open>accepted\<close> and \<open>delivered\<close> are history: the elements in the order they went in and came out.\<close>

record 'v chan_world =
  ch :: "'v hchan"
  pcs :: "'v chan_pc list"
  accepted :: "'v list"
  delivered :: "'v list"

definition goto :: "nat \<Rightarrow> 'v chan_pc \<Rightarrow> 'v chan_world \<Rightarrow> 'v chan_world" where
  "goto g p w = w\<lparr>pcs := (pcs w)[g := p]\<rparr>"

text \<open>The compare-and-swap on \<open>selectDone\<close> succeeds.\<close>

definition wakeable :: "'v chan_pc list \<Rightarrow> 'v sudog \<Rightarrow> bool" where
  "wakeable ps sg \<longleftrightarrow> \<not> isSelect sg \<or> (case ps ! sg_g sg of SelParked d \<Rightarrow> \<not> d | _ \<Rightarrow> False)"

definition enqueue :: "'v sudog \<Rightarrow> 'v sudog list \<Rightarrow> 'v sudog list" where
  "enqueue sgp q = q @ [sgp]"

fun dequeue :: "'v chan_pc list \<Rightarrow> 'v sudog list \<Rightarrow> 'v sudog option \<times> 'v sudog list" where
  "dequeue ps [] = (None, [])"
| "dequeue ps (sgp # q) = (if wakeable ps sgp then (Some sgp, q) else dequeue ps q)"

definition recv_woken :: "'v sudog \<Rightarrow> 'v option \<Rightarrow> 'v chan_pc" where
  "recv_woken sg x = (if isSelect sg then SelWoken (map_option (\<lambda>_. sg_case sg) x) x else RecvWoken x)"

definition send_woken :: "'v sudog \<Rightarrow> bool \<Rightarrow> 'v chan_pc" where
  "send_woken sg param = (if isSelect sg then SelWoken (if param then Some (sg_case sg) else None) None else SendWoken param)"

subsection \<open>Sending\<close>

definition chansend_nil :: "nat \<Rightarrow> bool \<Rightarrow> 'v chan_world \<Rightarrow> 'v chan_world" where
  "chansend_nil g block w = goto g (if block then ParkedForever else ChRet NotSent) w"

text \<open>The fast path of a send that does not block: the read of \<open>closed\<close>, then that of the queue.\<close>

definition nbsend_open :: "nat \<Rightarrow> 'v \<Rightarrow> 'v chan_world \<Rightarrow> 'v chan_world" where
  "nbsend_open g v w = goto g (if \<not> closed (ch w) then NbSendOpen v else NbSendLock v) w"

definition chan_full :: "'v hchan \<Rightarrow> bool" where
  "chan_full c \<longleftrightarrow> dataqsiz c = 0 \<and> recvq c = [] \<or> 0 < dataqsiz c \<and> qcount c = dataqsiz c"

definition nbsend_full :: "nat \<Rightarrow> 'v \<Rightarrow> 'v chan_world \<Rightarrow> 'v chan_world" where
  "nbsend_full g v w = goto g (if chan_full (ch w) then ChRet NotSent else NbSendLock v) w"

text \<open>The element goes straight to a receiver that waits.\<close>

definition send :: "'v sudog \<Rightarrow> 'v \<Rightarrow> 'v chan_world \<Rightarrow> 'v chan_world" where
  "send sg v w =
     (goto (sg_g sg) (recv_woken sg (Some v)) w)\<lparr>accepted := accepted w @ [v], delivered := delivered w @ [v]\<rparr>"

definition put_buf :: "'v \<Rightarrow> 'v hchan \<Rightarrow> 'v hchan" where
  "put_buf v c = c\<lparr>buf := (buf c)[sendx c := Some v], sendx := next_index c (sendx c), qcount := qcount c + 1\<rparr>"

definition chansend :: "nat \<Rightarrow> 'v \<Rightarrow> bool \<Rightarrow> 'v chan_world \<Rightarrow> 'v chan_world" where
  "chansend g v block w =
     (let c = ch w
      in if closed c then goto g (ChPanic SendOnClosed) w
         else case dequeue (pcs w) (recvq c) of
                (Some sg, q) \<Rightarrow> goto g (ChRet Sent) (send sg v (w\<lparr>ch := c\<lparr>recvq := q\<rparr>\<rparr>))
              | (None, q) \<Rightarrow>
                  let c = c\<lparr>recvq := q\<rparr>
                  in if qcount c < dataqsiz c
                     then goto g (ChRet Sent) (w\<lparr>ch := put_buf v c, accepted := accepted w @ [v]\<rparr>)
                     else if \<not> block then goto g (ChRet NotSent) (w\<lparr>ch := c\<rparr>)
                     else goto g SendParked
                            (w\<lparr>ch := c\<lparr>sendq := enqueue \<lparr>sg_g = g, sg_elem = Some v, isSelect = False, sg_case = 0\<rparr> (sendq c)\<rparr>\<rparr>))"

text \<open>After \<open>gopark\<close>.\<close>

definition send_resumed :: "nat \<Rightarrow> bool \<Rightarrow> 'v chan_world \<Rightarrow> 'v chan_world" where
  "send_resumed g param w =
     goto g (if \<not> param then if \<not> closed (ch w) then ChThrow SpuriousWakeup else ChPanic SendOnClosed
             else ChRet Sent) w"

subsection \<open>Receiving\<close>

definition chanrecv_nil :: "nat \<Rightarrow> bool \<Rightarrow> 'v chan_world \<Rightarrow> 'v chan_world" where
  "chanrecv_nil g block w = goto g (if block then ParkedForever else ChRet NotReady) w"

definition chan_empty :: "'v hchan \<Rightarrow> bool" where
  "chan_empty c \<longleftrightarrow> dataqsiz c = 0 \<and> sendq c = [] \<or> 0 < dataqsiz c \<and> qcount c = 0"

definition nbrecv_empty :: "nat \<Rightarrow> 'v chan_world \<Rightarrow> 'v chan_world" where
  "nbrecv_empty g w = goto g (if chan_empty (ch w) then NbRecvEmpty else NbRecvLock) w"

definition nbrecv_open :: "nat \<Rightarrow> 'v chan_world \<Rightarrow> 'v chan_world" where
  "nbrecv_open g w = goto g (if \<not> closed (ch w) then ChRet NotReady else NbRecvLock) w"

text \<open>
  A sender waits: an unbuffered channel takes its element, a full one the element at the head of
  the ring, whose slot then takes the sender's.
\<close>

definition recv :: "'v sudog \<Rightarrow> 'v chan_world \<Rightarrow> 'v \<times> 'v chan_world" where
  "recv sg w =
     (let c = ch w; e = the (sg_elem sg);
          (v, c) = (if dataqsiz c = 0 then (e, c)
                    else let i = next_index c (recvx c)
                         in (the (buf c ! recvx c), c\<lparr>buf := (buf c)[recvx c := Some e], recvx := i, sendx := i\<rparr>))
      in (v, (goto (sg_g sg) (send_woken sg True) w)\<lparr>ch := c, accepted := accepted w @ [e], delivered := delivered w @ [v]\<rparr>))"

definition take_buf :: "'v hchan \<Rightarrow> 'v \<times> 'v hchan" where
  "take_buf c =
     (the (buf c ! recvx c),
      c\<lparr>buf := (buf c)[recvx c := None], recvx := next_index c (recvx c), qcount := qcount c - 1\<rparr>)"

definition chanrecv :: "nat \<Rightarrow> bool \<Rightarrow> 'v chan_world \<Rightarrow> 'v chan_world" where
  "chanrecv g block w =
     (let c = ch w
      in if closed c \<and> qcount c = 0 then goto g (ChRet GotZero) w
         else case dequeue (pcs w) (sendq c) of
                (Some sg, q) \<Rightarrow> (case recv sg (w\<lparr>ch := c\<lparr>sendq := q\<rparr>\<rparr>) of (v, w) \<Rightarrow> goto g (ChRet (Got v)) w)
              | (None, q) \<Rightarrow>
                  let c = c\<lparr>sendq := q\<rparr>
                  in if 0 < qcount c
                     then case take_buf c of
                            (v, c) \<Rightarrow> goto g (ChRet (Got v)) (w\<lparr>ch := c, delivered := delivered w @ [v]\<rparr>)
                     else if \<not> block then goto g (ChRet NotReady) (w\<lparr>ch := c\<rparr>)
                     else goto g RecvParked
                            (w\<lparr>ch := c\<lparr>recvq := enqueue \<lparr>sg_g = g, sg_elem = None, isSelect = False, sg_case = 0\<rparr> (recvq c)\<rparr>\<rparr>))"

definition recv_resumed :: "nat \<Rightarrow> 'v option \<Rightarrow> 'v chan_world \<Rightarrow> 'v chan_world" where
  "recv_resumed g x w = goto g (ChRet (case x of Some v \<Rightarrow> Got v | None \<Rightarrow> GotZero)) w"

subsection \<open>Closing\<close>

text \<open>Every waiter is woken: those of the list that can be, in its order.\<close>

fun wake_all :: "('v sudog \<Rightarrow> 'v chan_pc) \<Rightarrow> 'v sudog list \<Rightarrow> 'v chan_pc list \<Rightarrow> 'v chan_pc list" where
  "wake_all f [] ps = ps"
| "wake_all f (sg # q) ps = wake_all f q (if wakeable ps sg then ps[sg_g sg := f sg] else ps)"

definition closechan :: "nat \<Rightarrow> 'v chan_world \<Rightarrow> 'v chan_world" where
  "closechan g w =
     (let c = ch w
      in if closed c then goto g (ChPanic CloseOfClosed) w
         else let ps = wake_all (\<lambda>sg. recv_woken sg None) (recvq c) (pcs w);
                  ps = wake_all (\<lambda>sg. send_woken sg False) (sendq c) ps
              in goto g (ChRet Closed) (w\<lparr>ch := c\<lparr>closed := True, recvq := [], sendq := []\<rparr>, pcs := ps\<rparr>))"

definition closechan_nil :: "nat \<Rightarrow> 'v chan_world \<Rightarrow> 'v chan_world" where
  "closechan_nil g w = goto g (ChPanic CloseOfNil) w"

definition reflect_chanlen :: "'v hchan option \<Rightarrow> nat" where
  "reflect_chanlen c = (case c of None \<Rightarrow> 0 | Some c \<Rightarrow> qcount c)"

definition reflect_chancap :: "'v hchan option \<Rightarrow> nat" where
  "reflect_chancap c = (case c of None \<Rightarrow> 0 | Some c \<Rightarrow> dataqsiz c)"

subsection \<open>The environment: goroutines in a \<open>select\<close>\<close>

text \<open>
  A goroutine looks at a case on this channel, which takes stale waiters off the other queue, and
  finds it not ready; it waits here among other channels, with cases to receive and to send; another
  channel wins it; it has run again and takes its cases off this channel.
\<close>

definition recv_ready :: "'v chan_world \<Rightarrow> bool" where
  "recv_ready w \<longleftrightarrow> closed (ch w) \<or> 0 < qcount (ch w) \<or> list_ex (wakeable (pcs w)) (sendq (ch w))"

definition send_ready :: "'v chan_world \<Rightarrow> bool" where
  "send_ready w \<longleftrightarrow> closed (ch w) \<or> qcount (ch w) < dataqsiz (ch w) \<or> list_ex (wakeable (pcs w)) (recvq (ch w))"

definition look_recv :: "'v chan_world \<Rightarrow> 'v chan_world" where
  "look_recv w = w\<lparr>ch := (ch w)\<lparr>sendq := snd (dequeue (pcs w) (sendq (ch w)))\<rparr>\<rparr>"

definition look_send :: "'v chan_world \<Rightarrow> 'v chan_world" where
  "look_send w = w\<lparr>ch := (ch w)\<lparr>recvq := snd (dequeue (pcs w) (recvq (ch w)))\<rparr>\<rparr>"

definition sel_sudog :: "nat \<Rightarrow> 'v option \<Rightarrow> nat \<Rightarrow> 'v sudog" where
  "sel_sudog g x i = \<lparr>sg_g = g, sg_elem = x, isSelect = True, sg_case = i\<rparr>"

definition select_park :: "nat \<Rightarrow> nat list \<Rightarrow> (nat \<times> 'v) list \<Rightarrow> 'v chan_world \<Rightarrow> 'v chan_world" where
  "select_park g rs ss w =
     goto g (SelParked False)
       (w\<lparr>ch := (ch w)\<lparr>recvq := fold (\<lambda>i. enqueue (sel_sudog g None i)) rs (recvq (ch w)),
                        sendq := fold (\<lambda>(i, v). enqueue (sel_sudog g (Some v) i)) ss (sendq (ch w))\<rparr>\<rparr>)"

definition left_ret :: "'v chan_pc \<Rightarrow> 'v chan_ret" where
  "left_ret p = (case p of SelWoken (Some i) (Some v) \<Rightarrow> Got v | SelWoken (Some i) None \<Rightarrow> Sent | _ \<Rightarrow> NoCall)"

definition select_leave :: "nat \<Rightarrow> 'v chan_world \<Rightarrow> 'v chan_world" where
  "select_leave g w =
     goto g (ChRet (left_ret (pcs w ! g)))
       (w\<lparr>ch := (ch w)\<lparr>recvq := filter (\<lambda>sg. sg_g sg \<noteq> g) (recvq (ch w)),
                        sendq := filter (\<lambda>sg. sg_g sg \<noteq> g) (sendq (ch w))\<rparr>\<rparr>)"

subsection \<open>Steps\<close>

text \<open>Those of the operations, and with them those of a \<open>select\<close> and a goroutine that goes on to other things.\<close>

inductive chan_op :: "'v chan_world \<Rightarrow> nat \<Rightarrow> 'v chan_world \<Rightarrow> bool" where
  c_send: "g < length (pcs w) \<Longrightarrow> pcs w ! g = ChRet r \<Longrightarrow> chan_op w g (chansend g v True w)"
| c_nbsend: "g < length (pcs w) \<Longrightarrow> pcs w ! g = ChRet r \<Longrightarrow> chan_op w g (nbsend_open g v w)"
| c_nbsend_full: "g < length (pcs w) \<Longrightarrow> pcs w ! g = NbSendOpen v \<Longrightarrow> chan_op w g (nbsend_full g v w)"
| c_nbsend_lock: "g < length (pcs w) \<Longrightarrow> pcs w ! g = NbSendLock v \<Longrightarrow> chan_op w g (chansend g v False w)"
| c_send_resumed: "g < length (pcs w) \<Longrightarrow> pcs w ! g = SendWoken b \<Longrightarrow> chan_op w g (send_resumed g b w)"
| c_recv: "g < length (pcs w) \<Longrightarrow> pcs w ! g = ChRet r \<Longrightarrow> chan_op w g (chanrecv g True w)"
| c_nbrecv: "g < length (pcs w) \<Longrightarrow> pcs w ! g = ChRet r \<Longrightarrow> chan_op w g (nbrecv_empty g w)"
| c_nbrecv_open: "g < length (pcs w) \<Longrightarrow> pcs w ! g = NbRecvEmpty \<Longrightarrow> chan_op w g (nbrecv_open g w)"
| c_nbrecv_lock: "g < length (pcs w) \<Longrightarrow> pcs w ! g = NbRecvLock \<Longrightarrow> chan_op w g (chanrecv g False w)"
| c_recv_resumed: "g < length (pcs w) \<Longrightarrow> pcs w ! g = RecvWoken x \<Longrightarrow> chan_op w g (recv_resumed g x w)"
| c_close: "g < length (pcs w) \<Longrightarrow> pcs w ! g = ChRet r \<Longrightarrow> chan_op w g (closechan g w)"

inductive chan_step :: "'v chan_world \<Rightarrow> nat \<Rightarrow> 'v chan_world \<Rightarrow> bool" where
  c_op: "chan_op w g w' \<Longrightarrow> chan_step w g w'"
| c_look_recv: "\<not> recv_ready w \<Longrightarrow> chan_step w g (look_recv w)"
| c_look_send: "\<not> send_ready w \<Longrightarrow> chan_step w g (look_send w)"
| c_select:
    "g < length (pcs w) \<Longrightarrow> pcs w ! g = ChRet r \<Longrightarrow> (rs \<noteq> [] \<longrightarrow> \<not> recv_ready w \<and> sendq (ch w) = []) \<Longrightarrow>
     (ss \<noteq> [] \<longrightarrow> \<not> send_ready w \<and> recvq (ch w) = []) \<Longrightarrow> chan_step w g (select_park g rs ss w)"
| c_elsewhere: "g < length (pcs w) \<Longrightarrow> pcs w ! g = SelParked False \<Longrightarrow> chan_step w g (goto g (SelParked True) w)"
| c_leave:
    "g < length (pcs w) \<Longrightarrow> pcs w ! g = SelParked True \<or> (\<exists>i x. pcs w ! g = SelWoken i x) \<Longrightarrow>
     chan_step w g (select_leave g w)"
| c_other: "g < length (pcs w) \<Longrightarrow> pcs w ! g = ChRet r \<Longrightarrow> chan_step w g (goto g (ChRet NoCall) w)"

definition chan_init :: "nat \<Rightarrow> 'v hchan \<Rightarrow> 'v chan_world" where
  "chan_init n c = \<lparr>ch = c, pcs = replicate n (ChRet NoCall), accepted = [], delivered = []\<rparr>"

inductive chan_run :: "nat \<Rightarrow> 'v hchan \<Rightarrow> 'v chan_world \<Rightarrow> bool" for n c where
  chan_start: "chan_run n c (chan_init n c)"
| chan_next: "chan_run n c w \<Longrightarrow> chan_step w g w' \<Longrightarrow> chan_run n c w'"

text \<open>Any number of steps.\<close>

inductive chan_steps :: "'v chan_world \<Rightarrow> 'v chan_world \<Rightarrow> bool" where
  no_step: "chan_steps w w"
| more_steps: "chan_steps w w' \<Longrightarrow> chan_step w' g w'' \<Longrightarrow> chan_steps w w''"

end
