(* ===== verification/GoSelectOrder.thy ===== *)
theory GoSelectOrder
  imports GoRand "HOL-Library.Multiset"
begin

text \<open>
  \<open>src/src/runtime/select.go\<close>: the cases of a \<open>select\<close>, the two orders \<open>selectgo\<close> puts them in,
  a random one to poll and the order of the channels' addresses to lock, and the locking.
\<close>

subsection \<open>Cases\<close>

datatype case_kind = caseNil | caseRecv | caseSend | caseDefault

text \<open>A channel is its address; \<open>nil\<close> is 0.\<close>

record 'v scase =
  sc_c :: nat
  sc_elem :: "'v option"
  sc_kind :: case_kind

definition nil_case :: "'v scase \<Rightarrow> 'v scase" where
  "nil_case cas =
     (if sc_c cas = 0 \<and> sc_kind cas \<noteq> caseDefault then \<lparr>sc_c = 0, sc_elem = None, sc_kind = caseNil\<rparr> else cas)"

definition sortkey :: "nat \<Rightarrow> nat" where
  "sortkey c = c"

definition key_of :: "'v scase list \<Rightarrow> nat \<Rightarrow> nat" where
  "key_of scases i = sortkey (sc_c (scases ! i))"

subsection \<open>The order to poll\<close>

function poll_from :: "nat \<Rightarrow> nat \<Rightarrow> rand_state \<Rightarrow> nat list \<Rightarrow> nat list" where
  "poll_from ncases i r pollorder =
     (if i < ncases
      then let (j, r) = fastrandn (i + 1) r;
               pollorder = pollorder[i := pollorder ! j];
               pollorder = pollorder[j := i]
           in poll_from ncases (i + 1) r pollorder
      else pollorder)"
  by pat_completeness auto
termination by (relation "measure (\<lambda>(n, i, r, po). n - i)") auto

declare poll_from.simps [simp del]

text \<open>The array comes zeroed.\<close>

definition poll_order :: "nat \<Rightarrow> rand_state \<Rightarrow> nat list" where
  "poll_order ncases r = poll_from ncases 1 r (replicate ncases 0)"

subsection \<open>The order to lock: a heap sort by address\<close>

function up_hole :: "'v scase list \<Rightarrow> nat \<Rightarrow> nat list \<Rightarrow> nat \<Rightarrow> nat list \<times> nat" where
  "up_hole scases c lockorder j =
     (if 0 < j \<and> key_of scases (lockorder ! ((j - 1) div 2)) < sortkey c
      then let k = (j - 1) div 2 in up_hole scases c (lockorder[j := lockorder ! k]) k
      else (lockorder, j))"
  by pat_completeness auto
termination by (relation "measure (\<lambda>(sc, c, lo, j). j)") auto

declare up_hole.simps [simp del]

definition heap_in :: "'v scase list \<Rightarrow> nat list \<Rightarrow> nat \<Rightarrow> nat list \<Rightarrow> nat list" where
  "heap_in scases pollorder i lockorder =
     (case up_hole scases (sc_c (scases ! (pollorder ! i))) lockorder i of (lockorder, j) \<Rightarrow> lockorder[j := pollorder ! i])"

function down_hole :: "'v scase list \<Rightarrow> nat \<Rightarrow> nat \<Rightarrow> nat list \<Rightarrow> nat \<Rightarrow> nat list \<times> nat" where
  "down_hole scases c i lockorder j =
     (let k = j * 2 + 1
      in if i \<le> k then (lockorder, j)
         else let k = (if k + 1 < i \<and> key_of scases (lockorder ! k) < key_of scases (lockorder ! (k + 1)) then k + 1 else k)
              in if sortkey c < key_of scases (lockorder ! k) then down_hole scases c i (lockorder[j := lockorder ! k]) k
                 else (lockorder, j))"
  by pat_completeness auto
termination by (relation "measure (\<lambda>(sc, c, i, lo, j). i - j)") (auto split: if_splits)

declare down_hole.simps [simp del]

definition heap_out :: "'v scase list \<Rightarrow> nat \<Rightarrow> nat list \<Rightarrow> nat list" where
  "heap_out scases i lockorder =
     (let x = lockorder ! i;
          c = sc_c (scases ! x);
          lockorder = lockorder[i := lockorder ! 0]
      in case down_hole scases c i lockorder 0 of (lockorder, j) \<Rightarrow> lockorder[j := x])"

definition lock_order :: "'v scase list \<Rightarrow> nat list \<Rightarrow> nat list" where
  "lock_order scases pollorder =
     (let ncases = length scases
      in fold (heap_out scases) (rev [0..<ncases]) (fold (heap_in scases pollorder) [0..<ncases] (replicate ncases 0)))"

subsection \<open>Locking\<close>

text \<open>The addresses locked, and those unlocked, in that order.\<close>

fun sel_lock :: "'v scase list \<Rightarrow> nat \<Rightarrow> nat list \<Rightarrow> nat list" where
  "sel_lock scases c [] = []"
| "sel_lock scases c (x # xs) =
     (let c0 = sc_c (scases ! x) in if c0 \<noteq> 0 \<and> c0 \<noteq> c then c0 # sel_lock scases c0 xs else sel_lock scases c xs)"

definition sellock :: "'v scase list \<Rightarrow> nat list \<Rightarrow> nat list" where
  "sellock scases lockorder = sel_lock scases 0 lockorder"

fun sel_unlock :: "'v scase list \<Rightarrow> nat list \<Rightarrow> nat list" where
  "sel_unlock scases [] = []"
| "sel_unlock scases (x # xs) =
     (let c = sc_c (scases ! x)
      in if c = 0 then [] else if xs \<noteq> [] \<and> c = sc_c (scases ! hd xs) then sel_unlock scases xs else c # sel_unlock scases xs)"

definition selunlock :: "'v scase list \<Rightarrow> nat list \<Rightarrow> nat list" where
  "selunlock scases lockorder = sel_unlock scases (rev lockorder)"

text \<open>\<open>selparkcommit\<close>: over the channels of \<open>gp.waiting\<close>.\<close>

fun park_unlock :: "nat \<Rightarrow> nat list \<Rightarrow> nat list" where
  "park_unlock lastc [] = (if lastc \<noteq> 0 then [lastc] else [])"
| "park_unlock lastc (c # cs) = (if c \<noteq> lastc \<and> lastc \<noteq> 0 then lastc # park_unlock c cs else park_unlock c cs)"

definition selparkcommit :: "'v scase list \<Rightarrow> nat list \<Rightarrow> nat list" where
  "selparkcommit scases lockorder =
     park_unlock 0 (map (\<lambda>x. sc_c (scases ! x)) (filter (\<lambda>x. sc_kind (scases ! x) \<noteq> caseNil) lockorder))"

subsection \<open>The poll order is a permutation\<close>

lemma nth_upds: "xs[i := x] ! j = (if i = j \<and> i < length xs then x else xs ! j)"
  by (cases "i < length xs") (auto simp: list_update_beyond)

lemma poll_step:
  assumes "mset (take i po) = mset [0..<i]" "i < length po" "j \<le> i"
  shows "mset (take (i + 1) (po[i := po ! j, j := i])) = mset [0..<i + 1]"
proof (cases "j = i")
  case True
  then show ?thesis using assms by (simp add: take_Suc_conv_app_nth)
next
  case False
  then have j: "j < i" using assms(3) by simp
  have "take (i + 1) (po[i := po ! j, j := i]) = (take i po)[j := i] @ [po ! j]"
    using assms(2) j by (simp add: take_Suc_conv_app_nth take_update_swap list_update_append nth_upds)
  moreover have "mset ((take i po)[j := i] @ [po ! j]) = mset (take i po @ [i])"
    using j assms(2) nth_mem_mset [of j "take i po"] by (simp add: mset_update insert_DiffM)
  ultimately show ?thesis using assms(1) by simp
qed

lemma poll_from_perm:
  assumes "mset (take i po) = mset [0..<i]" "length po = n" "i \<le> n" "n < 2 ^ 32"
  shows "mset (poll_from n i r po) = mset [0..<n]"
  using assms
proof (induction n i r po rule: poll_from.induct)
  case (1 n i r po)
  show ?case
  proof (cases "i < n")
    case True
    obtain j r' where j: "fastrandn (i + 1) r = (j, r')" by (cases "fastrandn (i + 1) r")
    have le: "j \<le> i" using fastrandn_less [of "i + 1" r] j 1(5) True by simp
    have "mset (take (i + 1) (po[i := po ! j, j := i])) = mset [0..<i + 1]"
      by (rule poll_step) (use 1(2,3) True le in auto)
    then have "mset (poll_from n (i + 1) r' (po[i := po ! j, j := i])) = mset [0..<n]"
      using 1(1) [OF True j [symmetric] refl refl] 1(3,5) True by simp
    then show ?thesis using j True by (subst poll_from.simps) simp
  next
    case False
    then show ?thesis using 1(2-4) by (subst poll_from.simps) simp
  qed
qed

lemma poll_order_perm: "n < 2 ^ 32 \<Longrightarrow> mset (poll_order n r) = mset [0..<n]"
proof (cases "n = 0")
  case True
  then show ?thesis by (simp add: poll_order_def poll_from.simps)
next
  case False
  assume "n < 2 ^ 32"
  then show ?thesis unfolding poll_order_def
    by (intro poll_from_perm) (use False in \<open>auto simp: take_Suc_conv_app_nth\<close>)
qed


subsection \<open>The lock order is sorted\<close>

text \<open>The first \<open>m\<close> entries are a heap, the largest key at the root; \<open>heap_but\<close>: but for the one at \<open>j\<close>.\<close>

definition par :: "nat \<Rightarrow> nat" where
  "par k = (k - 1) div 2"

definition heap :: "(nat \<Rightarrow> nat) \<Rightarrow> nat list \<Rightarrow> nat \<Rightarrow> bool" where
  "heap f xs m \<longleftrightarrow> (\<forall>k. 0 < k \<and> k < m \<longrightarrow> f (xs ! k) \<le> f (xs ! par k))"

lemma par_less: "0 < k \<Longrightarrow> par k < k"
  by (simp add: par_def)

lemma heapD: "heap f xs m \<Longrightarrow> 0 < k \<Longrightarrow> k < m \<Longrightarrow> f (xs ! k) \<le> f (xs ! par k)"
  by (simp add: heap_def)

lemma heap_root: "heap f xs m \<Longrightarrow> k < m \<Longrightarrow> f (xs ! k) \<le> f (xs ! 0)"
proof (induction k rule: less_induct)
  case (less k)
  show ?case
  proof (cases "k = 0")
    case False
    then have "f (xs ! par k) \<le> f (xs ! 0)" using less par_less [of k] by simp
    then show ?thesis using heapD [OF less.prems(1) _ less.prems(2)] False by (meson le_trans neq0_conv)
  qed simp
qed

lemma fill_swap:
  assumes "j < length xs" "p < length xs" "j \<noteq> p"
  shows "mset (xs[j := xs ! p, p := x]) = mset (xs[j := x])"
proof -
  have "xs[j := xs ! p, p := x] = (xs[j := x])[p := (xs[j := x]) ! j, j := (xs[j := x]) ! p]"
    using assms by (auto simp: list_eq_iff_nth_eq nth_upds)
  also have "mset \<dots> = mset (xs[j := x])" by (rule mset_swap) (use assms in simp_all)
  finally show ?thesis .
qed

lemma up_hole_heap:
  assumes "up_hole sc c xs j = (ys, i)" "j < m" "m \<le> length xs" "sortkey c = key_of sc x"
    "\<And>k. 0 < k \<Longrightarrow> k < m \<Longrightarrow> k \<noteq> j \<Longrightarrow> key_of sc (xs[j := x] ! k) \<le> key_of sc (xs[j := x] ! par k)"
    "\<And>k. 0 < k \<Longrightarrow> k < m \<Longrightarrow> 0 < j \<Longrightarrow> par k = j \<Longrightarrow> key_of sc (xs[j := x] ! k) \<le> key_of sc (xs[j := x] ! par j)"
  shows "heap (key_of sc) (ys[i := x]) m \<and> mset (ys[i := x]) = mset (xs[j := x]) \<and> length ys = length xs \<and> i \<le> j \<and>
    (\<forall>k. m \<le> k \<longrightarrow> ys[i := x] ! k = xs ! k)"
  using assms
proof (induction sc c xs j arbitrary: ys i rule: up_hole.induct)
  case (1 sc c xs j)
  note h = 1(6) and h2 = 1(7)
  let ?p = "par j"
  show ?case
  proof (cases "0 < j \<and> key_of sc (xs ! ?p) < sortkey c")
    case False
    then have ys: "ys = xs" "i = j" using 1(2) by (auto simp: up_hole.simps [of sc c xs j] par_def)
    have "key_of sc (xs[j := x] ! k) \<le> key_of sc (xs[j := x] ! par k)" if "0 < k" "k < m" for k
    proof (cases "k = j")
      case True
      then have "key_of sc x \<le> key_of sc (xs ! ?p)" using False that(1) 1(5) by auto
      then show ?thesis using True that 1(3,4) par_less [of j] by (simp add: nth_upds)
    qed (use h that in blast)
    then show ?thesis using ys 1(3) by (auto simp: heap_def nth_upds)
  next
    case True
    let ?ys = "xs[j := xs ! ?p]"
    have p: "?p < j" "?p < length xs" "j < length xs" using par_less [of j] True 1(3,4) by auto
    have rec: "up_hole sc c ?ys ?p = (ys, i)" using 1(2) True by (simp add: up_hole.simps [of sc c xs j] par_def Let_def)
    have lt: "key_of sc (xs ! ?p) < key_of sc x" using True 1(5) by simp
    have at: "?ys[?p := x] ! k = (if k = j then xs ! ?p else if k = ?p then x else xs ! k)" for k
      using p by (auto simp: nth_upds)
    have old: "xs[j := x] ! k = (if k = j then x else xs ! k)" for k using p by (auto simp: nth_upds)
    have A: "key_of sc (?ys[?p := x] ! k) \<le> key_of sc (?ys[?p := x] ! par k)" if k: "0 < k" "k < m" "k \<noteq> ?p" for k
    proof (cases "k = j")
      case True
      then show ?thesis using lt p at by simp
    next
      case False
      have o: "key_of sc (xs ! k) \<le> key_of sc (xs[j := x] ! par k)" using h [OF k(1,2) False] False old by simp
      show ?thesis
      proof (cases "par k = j")
        case True
        then show ?thesis using h2 [OF k(1,2) _ True] False k(3) at old p by (simp add: \<open>0 < j \<and> _\<close>)
      next
        case pj: False
        then show ?thesis using o False k(3) at old lt by (auto split: if_splits)
      qed
    qed
    have B: "key_of sc (?ys[?p := x] ! k) \<le> key_of sc (?ys[?p := x] ! par ?p)" if k: "0 < k" "k < m" "0 < ?p" "par k = ?p" for k
    proof -
      have pp: "par ?p < ?p" using par_less [OF k(3)] .
      have 1: "key_of sc (xs ! ?p) \<le> key_of sc (xs ! par ?p)" using h [OF k(3)] p pp 1(3) old by simp
      have "k \<noteq> ?p" using k(4) pp by auto
      moreover have "key_of sc (xs ! k) \<le> key_of sc (xs ! ?p)" if "k \<noteq> j" using h [OF k(1,2) that] that k(4) old p by simp
      ultimately show ?thesis using 1 at pp p by (auto intro: le_trans)
    qed
    have cond: "0 < j \<and> key_of sc (xs ! ((j - 1) div 2)) < sortkey c" using True by (simp add: par_def)
    have "heap (key_of sc) (ys[i := x]) m \<and> mset (ys[i := x]) = mset (?ys[?p := x]) \<and> length ys = length ?ys \<and> i \<le> ?p \<and>
      (\<forall>k. m \<le> k \<longrightarrow> ys[i := x] ! k = ?ys ! k)"
      by (rule 1(1) [OF cond refl, folded par_def]) (use rec p 1(3-5) A B in auto)
    moreover have "mset (?ys[?p := x]) = mset (xs[j := x])" by (rule fill_swap) (use p in auto)
    ultimately show ?thesis using p 1(3) by (auto simp: nth_upds)
  qed
qed

lemma child_cases: "par k = j \<Longrightarrow> 0 < k \<Longrightarrow> k = j * 2 + 1 \<or> k = j * 2 + 2"
  by (auto simp: par_def)

lemma down_hole_heap:
  assumes "down_hole sc c m xs j = (ys, i)" "j < length xs" "m \<le> length xs" "sortkey c = key_of sc x" "j < m \<or> m = 0"
    "\<And>k. 0 < k \<Longrightarrow> k < m \<Longrightarrow> par k \<noteq> j \<Longrightarrow> key_of sc (xs[j := x] ! k) \<le> key_of sc (xs[j := x] ! par k)"
    "\<And>k. 0 < k \<Longrightarrow> k < m \<Longrightarrow> 0 < j \<Longrightarrow> par k = j \<Longrightarrow> key_of sc (xs[j := x] ! k) \<le> key_of sc (xs[j := x] ! par j)"
  shows "heap (key_of sc) (ys[i := x]) m \<and> mset (ys[i := x]) = mset (xs[j := x]) \<and> length ys = length xs \<and>
    (i = j \<or> i < m) \<and> (\<forall>k. m \<le> k \<longrightarrow> ys[i := x] ! k = xs[j := x] ! k)"
  using assms
proof (induction sc c m xs j arbitrary: ys i rule: down_hole.induct)
  case (1 sc c m xs j)
  note h = 1(7) and h2 = 1(8)
  define b where "b = (if j * 2 + 1 + 1 < m \<and> key_of sc (xs ! (j * 2 + 1)) < key_of sc (xs ! (j * 2 + 1 + 1)) then j * 2 + 1 + 1 else j * 2 + 1)"
  have old: "xs[j := x] ! k = (if k = j then x else xs ! k)" for k using 1(3) by (auto simp: nth_upds)
  have un: "down_hole sc c m xs j =
    (if m \<le> j * 2 + 1 then (xs, j) else if sortkey c < key_of sc (xs ! b) then down_hole sc c m (xs[j := xs ! b]) b else (xs, j))"
    by (subst down_hole.simps) (simp only: Let_def b_def)
  show ?case
  proof (cases "j * 2 + 1 < m \<and> sortkey c < key_of sc (xs ! b)")
    case False
    then have ys: "ys = xs" "i = j"
      using 1(2) un by (auto split: if_splits)
    have "key_of sc (xs[j := x] ! k) \<le> key_of sc (xs[j := x] ! par k)" if k: "0 < k" "k < m" for k
    proof (cases "par k = j")
      case True
      then have kk: "k = j * 2 + 1 \<or> k = j * 2 + 2" using child_cases k(1) by blast
      have "key_of sc (xs ! b) \<le> key_of sc x" using False 1(5) k(2) kk by auto
      moreover have "key_of sc (xs ! k) \<le> key_of sc (xs ! b)" using kk k(2) by (auto simp: b_def)
      ultimately show ?thesis using True par_less [OF k(1)] old by (auto intro: le_trans)
    qed (use h k in blast)
    then show ?thesis using ys by (auto simp: heap_def)
  next
    case True
    let ?ys = "xs[j := xs ! b]"
    have b: "j < b" "b < m" "par b = j" "b < length xs" using True 1(4) by (auto simp: b_def par_def)
    have rec: "down_hole sc c m ?ys b = (ys, i)"
      using 1(2) True un by simp
    have lt: "key_of sc x < key_of sc (xs ! b)" using True 1(5) by simp
    have at: "?ys[b := x] ! k = (if k = j then xs ! b else if k = b then x else xs ! k)" for k
      using b by (auto simp: nth_upds)
    have A: "key_of sc (?ys[b := x] ! k) \<le> key_of sc (?ys[b := x] ! par k)" if k: "0 < k" "k < m" "par k \<noteq> b" for k
    proof (cases "par k = j")
      case True
      then have kk: "k = j * 2 + 1 \<or> k = j * 2 + 2" using child_cases k(1) by blast
      then have "key_of sc (xs ! k) \<le> key_of sc (xs ! b)" using k(2) by (auto simp: b_def)
      then show ?thesis using True par_less [OF k(1)] at lt by auto
    next
      case False
      have o: "key_of sc (xs[j := x] ! k) \<le> key_of sc (xs ! par k)" using h [OF k(1,2) False] False old by simp
      show ?thesis
      proof (cases "k = j")
        case True
        have "0 < j" using k(1) True by simp
        then have "key_of sc (xs ! b) \<le> key_of sc (xs[j := x] ! par j)" using h2 [OF _ b(2) _ b(3)] b(1) old by simp
        then show ?thesis using True at False k(3) old by simp
      next
        case kj: False
        have "k \<noteq> b" using False b(3) by auto
        then show ?thesis using o kj old at False k(3) by simp
      qed
    qed
    have B: "key_of sc (?ys[b := x] ! k) \<le> key_of sc (?ys[b := x] ! par b)" if k: "0 < k" "k < m" "0 < b" "par k = b" for k
    proof -
      have "par k \<noteq> j" "k \<noteq> j" "k \<noteq> b" using k(4) b(1) par_less [OF k(1)] by auto
      then have "key_of sc (xs ! k) \<le> key_of sc (xs ! b)" using h [OF k(1,2)] old k(4) b(1) by simp
      then show ?thesis using at b(3) \<open>k \<noteq> j\<close> \<open>k \<noteq> b\<close> by simp
    qed
    have c1: "\<not> m \<le> j * 2 + 1" and c2: "sortkey c < key_of sc (xs ! b)" using True by simp_all
    have "heap (key_of sc) (ys[i := x]) m \<and> mset (ys[i := x]) = mset (?ys[b := x]) \<and> length ys = length ?ys \<and>
      (i = b \<or> i < m) \<and> (\<forall>k. m \<le> k \<longrightarrow> ys[i := x] ! k = ?ys[b := x] ! k)"
      by (rule 1(1) [OF refl c1 b_def c2]) (use rec b 1(3-5) A B in auto)
    moreover have "mset (?ys[b := x]) = mset (xs[j := x])" by (rule fill_swap) (use b 1(3) in auto)
    ultimately show ?thesis using b old at by auto
  qed
qed

lemma heap_in_step:
  assumes "heap (key_of sc) xs i" "i < length xs" "i < length po" "mset (take i xs) = mset (take i po)"
  shows "heap (key_of sc) (heap_in sc po i xs) (i + 1) \<and> mset (take (i + 1) (heap_in sc po i xs)) = mset (take (i + 1) po) \<and>
    length (heap_in sc po i xs) = length xs"
proof -
  let ?x = "po ! i"
  obtain ys j where u: "up_hole sc (sc_c (sc ! ?x)) xs i = (ys, j)" by fastforce
  have r: "heap_in sc po i xs = ys[j := ?x]" using u by (simp add: heap_in_def)
  have "heap (key_of sc) (ys[j := ?x]) (i + 1) \<and> mset (ys[j := ?x]) = mset (xs[i := ?x]) \<and> length ys = length xs \<and> j \<le> i \<and>
    (\<forall>k. i + 1 \<le> k \<longrightarrow> ys[j := ?x] ! k = xs ! k)"
  proof (rule up_hole_heap [OF u])
    fix k
    assume k: "0 < k" "k < i + 1"
    show "key_of sc (xs[i := ?x] ! k) \<le> key_of sc (xs[i := ?x] ! par k)" if "k \<noteq> i"
      using heapD [OF assms(1) k(1)] k that par_less [OF k(1)] by (simp add: nth_upds)
    show "key_of sc (xs[i := ?x] ! k) \<le> key_of sc (xs[i := ?x] ! par i)" if "par k = i"
      using par_less [OF k(1)] k(2) that by simp
  qed (use assms in \<open>auto simp: key_of_def\<close>)
  moreover from this have "drop (i + 1) (ys[j := ?x]) = drop (i + 1) xs" "length ys = length xs"
    by (auto simp: list_eq_iff_nth_eq)
  moreover have "mset (take (i + 1) zs) + mset (drop (i + 1) zs) = mset zs" for zs :: "nat list"
    by (metis append_take_drop_id mset_append)
  ultimately have "mset (take (i + 1) (ys[j := ?x])) = mset (take (i + 1) (xs[i := ?x]))"
    by (metis add_right_cancel drop_update_cancel less_add_one)
  also have "\<dots> = mset (take (i + 1) po)" using assms(2-4) by (simp add: take_Suc_conv_app_nth)
  finally show ?thesis
    using \<open>heap _ _ _ \<and> _\<close> r by simp
qed

lemma heap_ins:
  "m \<le> length xs \<Longrightarrow> length xs = length po \<Longrightarrow>
   heap (key_of sc) (fold (heap_in sc po) [0..<m] xs) m \<and> mset (take m (fold (heap_in sc po) [0..<m] xs)) = mset (take m po) \<and>
   length (fold (heap_in sc po) [0..<m] xs) = length xs"
proof (induction m)
  case 0
  then show ?case by (simp add: heap_def)
next
  case (Suc m)
  then show ?case using heap_in_step [of sc "fold (heap_in sc po) [0..<m] xs" m po] by simp
qed

text \<open>Above \<open>m\<close> the entries are sorted, and not smaller than those below.\<close>

definition sorted_from :: "(nat \<Rightarrow> nat) \<Rightarrow> nat list \<Rightarrow> nat \<Rightarrow> bool" where
  "sorted_from f xs m \<longleftrightarrow> (\<forall>a b. a < b \<and> m \<le> b \<and> b < length xs \<longrightarrow> f (xs ! a) \<le> f (xs ! b))"

lemma heap_out_step:
  assumes "heap (key_of sc) xs (i + 1)" "i < length xs" "sorted_from (key_of sc) xs (i + 1)"
  shows "heap (key_of sc) (heap_out sc i xs) i \<and> mset (heap_out sc i xs) = mset xs \<and> sorted_from (key_of sc) (heap_out sc i xs) i"
proof -
  let ?x = "xs ! i" and ?xs = "xs[i := xs ! 0]"
  obtain ys j where d: "down_hole sc (sc_c (sc ! ?x)) i ?xs 0 = (ys, j)" by fastforce
  have r: "heap_out sc i xs = ys[j := ?x]" using d by (simp add: heap_out_def Let_def)
  have at: "?xs[0 := ?x] ! k = (if k = 0 then ?x else if k = i then xs ! 0 else xs ! k)" for k
    using assms(2) by (auto simp: nth_upds)
  have *: "heap (key_of sc) (ys[j := ?x]) i \<and> mset (ys[j := ?x]) = mset (?xs[0 := ?x]) \<and> length ys = length ?xs \<and>
    (j = 0 \<or> j < i) \<and> (\<forall>k. i \<le> k \<longrightarrow> ys[j := ?x] ! k = ?xs[0 := ?x] ! k)"
  proof (rule down_hole_heap [OF d])
    fix k
    assume k: "0 < k" "k < i" "par k \<noteq> 0"
    then show "key_of sc (?xs[0 := ?x] ! k) \<le> key_of sc (?xs[0 := ?x] ! par k)"
      using heapD [OF assms(1) k(1)] par_less [OF k(1)] at by simp
  qed (use assms in \<open>auto simp: key_of_def\<close>)
  have m: "mset (?xs[0 := ?x]) = mset xs"
  proof (cases "i = 0")
    case False
    have "0 < length xs" using assms(2) by (rule le_less_trans [OF le0])
    from mset_swap [OF this assms(2)] show ?thesis .
  qed simp
  have hi: "ys[j := ?x] ! k = (if k = i then xs ! 0 else xs ! k)" if "i \<le> k" for k
  proof -
    have "ys[j := ?x] ! k = ?xs[0 := ?x] ! k" using * that by blast
    then show ?thesis using at [of k] that by (cases "k = 0") auto
  qed
  have len: "length (ys[j := ?x]) = length xs" using * by simp
  define zs where "zs = ys[j := ?x]"
  define ws where "ws = ?xs[0 := ?x]"
  have "drop i zs = drop i ws" unfolding zs_def ws_def using * by (auto simp: list_eq_iff_nth_eq)
  moreover have "mset zs = mset ws" unfolding zs_def ws_def using * by blast
  moreover have "mset (take i vs) + mset (drop i vs) = mset vs" for vs :: "nat list"
    by (metis append_take_drop_id mset_append)
  ultimately have "mset (take i zs) = mset (take i ws)" by (metis add_right_cancel)
  then have "mset (take i (ys[j := ?x])) = mset (take i (?xs[0 := ?x]))" unfolding zs_def ws_def .
  then have pre: "set (take i (ys[j := ?x])) = set (take i (?xs[0 := ?x]))" by (metis set_mset_mset)
  have low: "\<exists>c \<le> i. ys[j := ?x] ! a = xs ! c" if "a < i" for a
  proof -
    have "ys[j := ?x] ! a \<in> set (take i (ys[j := ?x]))" using that len assms(2) by (auto simp: in_set_conv_nth intro!: exI [of _ a])
    then obtain k where "k < i" "ys[j := ?x] ! a = ?xs[0 := ?x] ! k" unfolding pre by (auto simp: in_set_conv_nth)
    then show ?thesis using at [of k] by (cases "k = 0") (auto intro: exI [of _ i] exI [of _ k])
  qed
  have "key_of sc (ys[j := ?x] ! a) \<le> key_of sc (ys[j := ?x] ! b)" if ab: "a < b" "i \<le> b" "b < length xs" for a b
  proof (cases "b = i")
    case True
    obtain c where "c \<le> i" "ys[j := ?x] ! a = xs ! c" using low [of a] ab True by auto
    then show ?thesis using heap_root [OF assms(1), of c] hi [of b] True by simp
  next
    case False
    then have b: "i + 1 \<le> b" "ys[j := ?x] ! b = xs ! b" using hi [of b] ab by auto
    have le: "key_of sc (xs ! c) \<le> key_of sc (xs ! b)" if "c < b" for c
      using assms(3) that b(1) ab(3) unfolding sorted_from_def by blast
    show ?thesis
    proof (cases "a < i")
      case True
      then obtain c where "c \<le> i" "ys[j := ?x] ! a = xs ! c" using low by auto
      then show ?thesis using le [of c] b by simp
    next
      case na: False
      then have "ys[j := ?x] ! a = xs ! 0 \<or> ys[j := ?x] ! a = xs ! a" using hi [of a] by auto
      then show ?thesis using le [of 0] le [of a] b ab by auto
    qed
  qed
  then show ?thesis using * m r len by (auto simp: sorted_from_def)
qed

lemma heap_outs:
  "m \<le> length xs \<Longrightarrow> heap (key_of sc) xs m \<Longrightarrow> sorted_from (key_of sc) xs m \<Longrightarrow>
   mset (fold (heap_out sc) (rev [0..<m]) xs) = mset xs \<and> sorted_from (key_of sc) (fold (heap_out sc) (rev [0..<m]) xs) 0"
proof (induction m arbitrary: xs)
  case 0
  then show ?case by simp
next
  case (Suc m)
  have s: "heap (key_of sc) (heap_out sc m xs) m" "mset (heap_out sc m xs) = mset xs" "sorted_from (key_of sc) (heap_out sc m xs) m"
    using heap_out_step [of sc xs m] Suc.prems by simp_all
  then have "m \<le> length (heap_out sc m xs)" using Suc.prems(1) by (metis Suc_leD size_mset)
  then show ?case using Suc.IH [OF _ s(1,3)] s(2) by simp
qed

lemma lock_order_sorts:
  assumes "length po = length sc"
  shows "mset (lock_order sc po) = mset po \<and> sorted (map (key_of sc) (lock_order sc po))"
proof -
  define xs where "xs = fold (heap_in sc po) [0..<length sc] (replicate (length sc) 0)"
  have "heap (key_of sc) xs (length sc) \<and> mset (take (length sc) xs) = mset (take (length sc) po) \<and> length xs = length (replicate (length sc) (0::nat))"
    unfolding xs_def by (rule heap_ins) (use assms in simp_all)
  then have h: "heap (key_of sc) xs (length sc)" "mset (take (length sc) xs) = mset (take (length sc) po)" "length xs = length sc"
    by (blast, blast, simp)
  then have m: "mset xs = mset po" using assms by (metis order_refl take_all)
  have "sorted_from (key_of sc) xs (length sc)" using h(3) by (simp add: sorted_from_def)
  then have "mset (lock_order sc po) = mset po \<and> sorted_from (key_of sc) (lock_order sc po) 0"
    using heap_outs [of "length sc" xs sc] h m by (simp add: lock_order_def Let_def xs_def [symmetric])
  then show ?thesis by (auto simp: sorted_from_def sorted_iff_nth_mono_less)
qed


subsection \<open>Every channel is locked once\<close>

text \<open>Over addresses in order, the nil ones first.\<close>

lemma sel_lock_sorted:
  assumes "sorted (map (\<lambda>x. sc_c (sc ! x)) xs)" "\<forall>x \<in> set xs. c \<le> sc_c (sc ! x)"
  shows "sorted_wrt (<) (sel_lock sc c xs) \<and> set (sel_lock sc c xs) = (\<lambda>x. sc_c (sc ! x)) ` set xs - {0, c} \<and>
    (\<forall>a \<in> set (sel_lock sc c xs). c < a)"
  using assms
proof (induction sc c xs rule: sel_lock.induct)
  case (2 sc c x xs)
  let ?c = "sc_c (sc ! x)"
  show ?case
  proof (cases "?c \<noteq> 0 \<and> ?c \<noteq> c")
    case True
    have "sorted_wrt (<) (sel_lock sc ?c xs) \<and> set (sel_lock sc ?c xs) = (\<lambda>x. sc_c (sc ! x)) ` set xs - {0, ?c} \<and>
      (\<forall>a \<in> set (sel_lock sc ?c xs). ?c < a)"
      by (rule 2(1)) (use True 2(3,4) in auto)
    moreover have "c < ?c" using True 2(4) by (simp add: le_neq_implies_less)
    moreover have "\<forall>y \<in> set xs. c < sc_c (sc ! y)" using 2(3) calculation(2) by auto
    ultimately show ?thesis using True by (auto simp: Let_def)
  next
    case False
    have "sorted_wrt (<) (sel_lock sc c xs) \<and> set (sel_lock sc c xs) = (\<lambda>x. sc_c (sc ! x)) ` set xs - {0, c} \<and>
      (\<forall>a \<in> set (sel_lock sc c xs). c < a)"
      by (rule 2(2)) (use False 2(3,4) in auto)
    then show ?thesis using False by (auto simp: Let_def)
  qed
qed simp

lemma sel_unlock_desc:
  assumes "sorted_wrt (\<ge>) (map (\<lambda>x. sc_c (sc ! x)) xs)"
  shows "sorted_wrt (>) (sel_unlock sc xs) \<and> set (sel_unlock sc xs) = (\<lambda>x. sc_c (sc ! x)) ` set xs - {0}"
  using assms
proof (induction sc xs rule: sel_unlock.induct)
  case (2 sc x xs)
  let ?c = "sc_c (sc ! x)" and ?f = "\<lambda>x. sc_c (sc ! x)"
  consider (nil) "?c = 0" | (same) "?c \<noteq> 0" "xs \<noteq> []" "?c = ?f (hd xs)" | (new) "?c \<noteq> 0" "xs = [] \<or> ?c \<noteq> ?f (hd xs)" by blast
  then show ?case
  proof cases
    case nil
    then have "\<forall>y \<in> set xs. ?f y = 0" using 2(3) by simp
    then show ?thesis using nil by auto
  next
    case same
    then show ?thesis using 2(1) [OF refl] 2(3) by (cases xs) auto
  next
    case new
    have i: "sorted_wrt (>) (sel_unlock sc xs)" "set (sel_unlock sc xs) = ?f ` set xs - {0}" using 2(2) [OF refl] 2(3) new by auto
    have "\<forall>y \<in> set xs. ?f y < ?c"
    proof (cases xs)
      case (Cons y ys)
      then have "?f y < ?c" using 2(3) new by (simp add: le_neq_implies_less)
      then show ?thesis using 2(3) Cons by auto
    qed simp
    then show ?thesis using new i by auto
  qed
qed simp

lemma park_unlock_sorted:
  assumes "sorted cs" "\<forall>a \<in> set cs. c \<le> a \<and> a \<noteq> 0"
  shows "sorted_wrt (<) (park_unlock c cs) \<and> set (park_unlock c cs) = insert c (set cs) - {0} \<and> (\<forall>a \<in> set (park_unlock c cs). c \<le> a)"
  using assms
proof (induction c cs rule: park_unlock.induct)
  case (2 c a cs)
  have "sorted_wrt (<) (park_unlock a cs) \<and> set (park_unlock a cs) = insert a (set cs) - {0} \<and> (\<forall>b \<in> set (park_unlock a cs). a \<le> b)"
  proof -
    have p: "sorted cs" "\<forall>b \<in> set cs. a \<le> b \<and> b \<noteq> 0" using 2(3,4) by auto
    show ?thesis by (cases "a \<noteq> c \<and> c \<noteq> 0") (rule 2(1) [OF _ p] 2(2) [OF _ p]; assumption)+
  qed
  then have r: "sorted_wrt (<) (park_unlock a cs)" "set (park_unlock a cs) = insert a (set cs) - {0}" "\<forall>b \<in> set (park_unlock a cs). a \<le> b"
    by blast+
  have le: "c \<le> a" "a \<noteq> 0" using 2(4) by simp_all
  show ?case
  proof (cases "a \<noteq> c \<and> c \<noteq> 0")
    case True
    then have "c < a" using le by simp
    then have "\<forall>b \<in> set (park_unlock a cs). c < b" using r(3) by (meson order_less_le_trans)
    moreover have "park_unlock c (a # cs) = c # park_unlock a cs" using True by simp
    ultimately show ?thesis using True r(1,2) le by (simp add: insert_Diff_if less_imp_le)
  next
    case False
    then have "park_unlock c (a # cs) = park_unlock a cs" by simp
    moreover have "\<forall>b \<in> set (park_unlock a cs). c \<le> b" using r(3) le(1) by (meson order_trans)
    moreover have "insert c (set (a # cs)) - {0} = insert a (set cs) - {0}" using False by auto
    ultimately show ?thesis using r(1,2) by simp
  qed
qed simp

lemma strict_unique: "sorted_wrt (<) xs \<Longrightarrow> sorted_wrt (<) ys \<Longrightarrow> set xs = set ys \<Longrightarrow> xs = (ys :: nat list)"
  by (simp add: strict_sorted_equal)

lemma locks_agree:
  assumes "sorted (map (key_of sc) lo)"
  shows "sorted_wrt (<) (sellock sc lo)" "set (sellock sc lo) = (\<lambda>x. sc_c (sc ! x)) ` set lo - {0}"
    "selunlock sc lo = rev (sellock sc lo)"
    "\<forall>x \<in> set lo. sc_kind (sc ! x) = caseNil \<longleftrightarrow> sc_c (sc ! x) = 0 \<Longrightarrow> selparkcommit sc lo = sellock sc lo"
proof -
  let ?f = "\<lambda>x. sc_c (sc ! x)"
  have s: "sorted (map ?f lo)" using assms(1) by (simp add: key_of_def [abs_def] sortkey_def)
  show 1: "sorted_wrt (<) (sellock sc lo)" "set (sellock sc lo) = ?f ` set lo - {0}"
    using sel_lock_sorted [OF s] by (simp_all add: sellock_def)
  have "sorted_wrt (\<ge>) (map ?f (rev lo))" using s by (simp add: rev_map [symmetric] sorted_wrt_rev)
  then have u: "sorted_wrt (>) (selunlock sc lo)" "set (selunlock sc lo) = ?f ` set lo - {0}"
    using sel_unlock_desc [of sc "rev lo"] by (simp_all add: selunlock_def)
  have "rev (selunlock sc lo) = sellock sc lo"
    by (rule strict_unique) (use u 1 in \<open>simp_all add: sorted_wrt_rev\<close>)
  then show "selunlock sc lo = rev (sellock sc lo)" by (metis rev_rev_ident)
  assume k: "\<forall>x \<in> set lo. sc_kind (sc ! x) = caseNil \<longleftrightarrow> sc_c (sc ! x) = 0"
  let ?cs = "map ?f (filter (\<lambda>x. sc_kind (sc ! x) \<noteq> caseNil) lo)"
  have "sorted ?cs" using s by (simp add: sorted_map sorted_wrt_filter)
  moreover have "set ?cs = ?f ` set lo - {0}" using k by auto
  ultimately have "sorted_wrt (<) (selparkcommit sc lo)" "set (selparkcommit sc lo) = ?f ` set lo - {0}"
    using park_unlock_sorted [of ?cs 0] by (auto simp: selparkcommit_def)
  then show "selparkcommit sc lo = sellock sc lo" using strict_unique 1 by simp
qed

text \<open>
  Goroutines that lock in the order of addresses: one that needs the highest of the next addresses
  finds it free, so some goroutine can go on.
\<close>

lemma ascending_locks_progress:
  assumes "finite G" "G \<noteq> {}" "\<And>g. g \<in> G \<Longrightarrow> sorted_wrt (<) (ls g) \<and> n g < length (ls g)"
  shows "\<exists>g \<in> G. \<forall>h \<in> G. ls g ! n g \<notin> set (take (n h) (ls h) :: nat list)"
proof -
  let ?S = "(\<lambda>g. ls g ! n g) ` G"
  have "Max ?S \<in> ?S" using assms(1,2) by simp
  then obtain g where g: "g \<in> G" "ls g ! n g = Max ?S" by auto
  have "ls g ! n g \<notin> set (take (n h) (ls h))" if h: "h \<in> G" for h
  proof
    assume "ls g ! n g \<in> set (take (n h) (ls h))"
    then obtain i where "i < n h" "ls h ! i = ls g ! n g" by (auto simp: in_set_conv_nth)
    then have "ls g ! n g < ls h ! n h" using assms(3) [OF h] by (metis sorted_wrt_nth_less)
    moreover have "ls h ! n h \<le> Max ?S" using h assms(1) by simp
    ultimately show False using g(2) by simp
  qed
  then show ?thesis using g(1) by blast
qed

end
