(* ===== verification/GoSelect.thy ===== *)
theory GoSelect
  imports GoChan GoSelectOrder
begin

text \<open>
  \<open>src/src/runtime/select.go\<close>: \<open>selectgo\<close> over any number of channels. The channels are a store by
  address; what one goroutine does to one channel is done to the view of that channel, the
  \<open>chan_world\<close> of GoChan. Each of the two stretches of \<open>selectgo\<close> that holds the locks of all its
  channels, from the call to parking or returning and from being woken on, is one step.
\<close>

subsection \<open>Goroutines and channels\<close>

text \<open>What \<open>selectgo\<close> has on its stack: its cases and their two orders.\<close>

record 'v sel_frame =
  s_cases :: "'v scase list"
  s_poll :: "nat list"
  s_lock :: "nat list"

text \<open>
  A goroutine is in an operation on a channel or past it; past a \<open>select\<close>, with the channel, the
  index and the result of the case chosen; parked in a \<open>select\<close>; or woken there by an operation on
  a channel, with the case that \<open>gp.param\<close> is of, if it is not nil, and what it was given.
\<close>

datatype 'v sel_pc =
    OnChan nat "'v chan_pc"
  | SelRet nat nat "'v chan_ret"
  | SelWait "'v sel_frame"
  | SelWake nat "nat option" "'v option" "'v sel_frame"

record 'v sel_world =
  chans :: "nat \<Rightarrow> 'v hchan"
  gos :: "'v sel_pc list"
  taken :: "nat \<Rightarrow> 'v list"
  given :: "nat \<Rightarrow> 'v list"

text \<open>What is seen of a goroutine, and of the world, from the channel at \<open>a\<close>.\<close>

fun pc_view :: "nat \<Rightarrow> 'v sel_pc \<Rightarrow> 'v chan_pc" where
  "pc_view a (OnChan b p) = (if b = a then p else ChRet NoCall)"
| "pc_view a (SelRet b i r) = (if b = a then ChRet r else ChRet NoCall)"
| "pc_view a (SelWait f) = SelParked False"
| "pc_view a (SelWake b i x f) = (if b = a then SelWoken i x else SelParked True)"

definition view :: "nat \<Rightarrow> 'v sel_world \<Rightarrow> 'v chan_world" where
  "view a w = \<lparr>ch = chans w a, pcs = map (pc_view a) (gos w), accepted = taken w a, delivered = given w a\<rparr>"

text \<open>A goroutine after a step on the channel at \<open>a\<close> has left it where its view says.\<close>

definition put_pc :: "nat \<Rightarrow> 'v sel_pc \<Rightarrow> 'v chan_pc \<Rightarrow> 'v sel_pc" where
  "put_pc a m p =
     (if p = pc_view a m then m
      else case m of
             SelWait f \<Rightarrow> (case p of SelWoken i x \<Rightarrow> SelWake a i x f | _ \<Rightarrow> m)
           | _ \<Rightarrow> OnChan a p)"

definition put_view :: "nat \<Rightarrow> 'v chan_world \<Rightarrow> 'v sel_world \<Rightarrow> 'v sel_world" where
  "put_view a c w =
     w\<lparr>chans := (chans w)(a := ch c), gos := map2 (put_pc a) (gos w) (pcs c),
       taken := (taken w)(a := accepted c), given := (given w)(a := delivered c)\<rparr>"

definition set_go :: "nat \<Rightarrow> 'v sel_pc \<Rightarrow> 'v sel_world \<Rightarrow> 'v sel_world" where
  "set_go g m w = w\<lparr>gos := (gos w)[g := m]\<rparr>"

subsection \<open>Pass 1: something already waiting\<close>

text \<open>One case on its channel; whether it is ready, and then it is done.\<close>

definition sel_recv :: "nat \<Rightarrow> 'v chan_world \<Rightarrow> bool \<times> 'v chan_world" where
  "sel_recv g w =
     (let c = ch w
      in case dequeue (pcs w) (sendq c) of
           (Some sg, q) \<Rightarrow> (case recv sg (w\<lparr>ch := c\<lparr>sendq := q\<rparr>\<rparr>) of (v, w) \<Rightarrow> (True, goto g (ChRet (Got v)) w))
         | (None, q) \<Rightarrow>
             let c = c\<lparr>sendq := q\<rparr>
             in if 0 < qcount c
                then case take_buf c of
                       (v, c) \<Rightarrow> (True, goto g (ChRet (Got v)) (w\<lparr>ch := c, delivered := delivered w @ [v]\<rparr>))
                else if closed c then (True, goto g (ChRet GotZero) (w\<lparr>ch := c\<rparr>))
                else (False, w\<lparr>ch := c\<rparr>))"

definition sel_send :: "nat \<Rightarrow> 'v \<Rightarrow> 'v chan_world \<Rightarrow> bool \<times> 'v chan_world" where
  "sel_send g v w =
     (let c = ch w
      in if closed c then (True, goto g (ChPanic SendOnClosed) w)
         else case dequeue (pcs w) (recvq c) of
                (Some sg, q) \<Rightarrow> (True, goto g (ChRet Sent) (send sg v (w\<lparr>ch := c\<lparr>recvq := q\<rparr>\<rparr>)))
              | (None, q) \<Rightarrow>
                  let c = c\<lparr>recvq := q\<rparr>
                  in if qcount c < dataqsiz c
                     then (True, goto g (ChRet Sent) (w\<lparr>ch := put_buf v c, accepted := accepted w @ [v]\<rparr>))
                     else (False, w\<lparr>ch := c\<rparr>))"

definition sel_ret :: "nat \<Rightarrow> nat \<Rightarrow> 'v chan_pc \<Rightarrow> 'v sel_pc" where
  "sel_ret a i p = (case p of ChRet r \<Rightarrow> SelRet a i r | _ \<Rightarrow> OnChan a p)"

definition sel_try :: "nat \<Rightarrow> 'v scase \<Rightarrow> 'v chan_world \<Rightarrow> bool \<times> 'v chan_world" where
  "sel_try g cas w = (if sc_kind cas = caseRecv then sel_recv g w else sel_send g (the (sc_elem cas)) w)"

text \<open>The cases in poll order; also the index of a default seen.\<close>

fun sel_poll :: "nat \<Rightarrow> 'v scase list \<Rightarrow> nat list \<Rightarrow> nat option \<Rightarrow> 'v sel_world \<Rightarrow> bool \<times> nat option \<times> 'v sel_world" where
  "sel_poll g scases [] dfl w = (False, dfl, w)"
| "sel_poll g scases (casi # order) dfl w =
     (let cas = scases ! casi; a = sc_c cas
      in if sc_kind cas = caseNil then sel_poll g scases order dfl w
         else if sc_kind cas = caseDefault then sel_poll g scases order (Some casi) w
         else case sel_try g cas (view a w) of
                (ready, c) \<Rightarrow>
                  if ready then (True, dfl, set_go g (sel_ret a casi (pcs c ! g)) (put_view a c w))
                  else sel_poll g scases order dfl (put_view a c w))"

subsection \<open>Pass 2: enqueue on all channels\<close>

definition sel_enqueue :: "nat \<Rightarrow> 'v scase list \<Rightarrow> nat \<Rightarrow> 'v sel_world \<Rightarrow> 'v sel_world" where
  "sel_enqueue g scases casi w =
     (let cas = scases ! casi; a = sc_c cas; c = chans w a
      in case sc_kind cas of
           caseRecv \<Rightarrow> w\<lparr>chans := (chans w)(a := c\<lparr>recvq := enqueue (sel_sudog g None casi) (recvq c)\<rparr>)\<rparr>
         | caseSend \<Rightarrow> w\<lparr>chans := (chans w)(a := c\<lparr>sendq := enqueue (sel_sudog g (sc_elem cas) casi) (sendq c)\<rparr>)\<rparr>
         | _ \<Rightarrow> w)"

definition sel_park :: "nat \<Rightarrow> 'v sel_frame \<Rightarrow> 'v sel_world \<Rightarrow> 'v sel_world" where
  "sel_park g f w = set_go g (SelWait f) (fold (sel_enqueue g (s_cases f)) (s_lock f) w)"

text \<open>From the label \<open>loop\<close>.\<close>

definition sel_loop :: "nat \<Rightarrow> 'v sel_frame \<Rightarrow> 'v sel_world \<Rightarrow> 'v sel_world" where
  "sel_loop g f w =
     (case sel_poll g (s_cases f) (s_poll f) None w of
        (True, dfl, w) \<Rightarrow> w
      | (False, Some i, w) \<Rightarrow> set_go g (SelRet 0 i NotReady) w
      | (False, None, w) \<Rightarrow> sel_park g f w)"

definition selectgo :: "nat \<Rightarrow> rand_state \<Rightarrow> 'v scase list \<Rightarrow> 'v sel_world \<Rightarrow> 'v sel_world" where
  "selectgo g r scases w =
     (let scases = map nil_case scases;
          pollorder = poll_order (length scases) r;
          lockorder = lock_order scases pollorder
      in sel_loop g \<lparr>s_cases = scases, s_poll = pollorder, s_lock = lockorder\<rparr> w)"

subsection \<open>Pass 3: woken\<close>

definition dequeueSudoG :: "'v sudog \<Rightarrow> 'v sudog list \<Rightarrow> 'v sudog list" where
  "dequeueSudoG sgp q = filter (\<lambda>sg. \<not> (sg_g sg = sg_g sgp \<and> isSelect sg \<and> sg_case sg = sg_case sgp)) q"

definition sel_dequeue :: "nat \<Rightarrow> 'v scase list \<Rightarrow> nat option \<Rightarrow> nat \<Rightarrow> 'v sel_world \<Rightarrow> 'v sel_world" where
  "sel_dequeue g scases param casi w =
     (let k = scases ! casi; a = sc_c k; c = chans w a; sg = sel_sudog g (sc_elem k) casi
      in if sc_kind k = caseNil \<or> param = Some casi then w
         else if sc_kind k = caseSend then w\<lparr>chans := (chans w)(a := c\<lparr>sendq := dequeueSudoG sg (sendq c)\<rparr>)\<rparr>
         else w\<lparr>chans := (chans w)(a := c\<lparr>recvq := dequeueSudoG sg (recvq c)\<rparr>)\<rparr>)"

text \<open>From \<open>gopark\<close> on; with \<open>param\<close> nil a channel was closed, and back to \<open>loop\<close>.\<close>

definition sel_resume :: "nat \<Rightarrow> nat \<Rightarrow> nat option \<Rightarrow> 'v option \<Rightarrow> 'v sel_frame \<Rightarrow> 'v sel_world \<Rightarrow> 'v sel_world" where
  "sel_resume g b param x f w =
     (let w = fold (sel_dequeue g (s_cases f) param) (s_lock f) w
      in case param of
           Some i \<Rightarrow> set_go g (SelRet b i (if sc_kind (s_cases f ! i) = caseRecv then Got (the x) else Sent)) w
         | None \<Rightarrow> sel_loop g f (set_go g (SelRet 0 0 NoCall) w))"

subsection \<open>Through reflection\<close>

datatype select_dir = selectSend | selectRecv | selectDefault

record 'v runtime_select =
  rs_dir :: select_dir
  rs_ch :: nat
  rs_val :: "'v option"

definition reflect_case :: "'v runtime_select \<Rightarrow> 'v scase" where
  "reflect_case rc =
     (case rs_dir rc of
        selectDefault \<Rightarrow> \<lparr>sc_c = 0, sc_elem = None, sc_kind = caseDefault\<rparr>
      | selectSend \<Rightarrow> \<lparr>sc_c = rs_ch rc, sc_elem = rs_val rc, sc_kind = caseSend\<rparr>
      | selectRecv \<Rightarrow> \<lparr>sc_c = rs_ch rc, sc_elem = rs_val rc, sc_kind = caseRecv\<rparr>)"

definition reflect_rselect :: "nat \<Rightarrow> rand_state \<Rightarrow> 'v runtime_select list \<Rightarrow> 'v sel_world \<Rightarrow> 'v sel_world" where
  "reflect_rselect g r cases w =
     (if cases = [] then set_go g (OnChan 0 ParkedForever) w else selectgo g r (map reflect_case cases) w)"

subsection \<open>Steps\<close>

fun at_rest :: "'v sel_pc \<Rightarrow> bool" where
  "at_rest (OnChan b (ChRet r)) = True"
| "at_rest (SelRet b i r) = True"
| "at_rest m = False"

text \<open>The cases the compiler or reflection hands over.\<close>

definition case_ok :: "'v scase \<Rightarrow> bool" where
  "case_ok cas \<longleftrightarrow>
     sc_kind cas \<noteq> caseNil \<and> (sc_kind cas = caseDefault \<longrightarrow> sc_c cas = 0) \<and> (sc_kind cas = caseSend \<longrightarrow> sc_elem cas \<noteq> None)"

inductive sel_step :: "'v sel_world \<Rightarrow> nat \<Rightarrow> 'v sel_world \<Rightarrow> bool" where
  s_op:
    "a \<noteq> 0 \<Longrightarrow> g < length (gos w) \<Longrightarrow> at_rest (gos w ! g) \<or> (\<exists>p. gos w ! g = OnChan a p) \<Longrightarrow>
     chan_op (view a w) g c \<Longrightarrow> sel_step w g (set_go g (OnChan a (pcs c ! g)) (put_view a c w))"
| s_select:
    "g < length (gos w) \<Longrightarrow> at_rest (gos w ! g) \<Longrightarrow> \<forall>cas \<in> set cases. case_ok cas \<Longrightarrow> length cases \<le> 2 ^ 16 \<Longrightarrow>
     sel_step w g (selectgo g r cases w)"
| s_resume:
    "g < length (gos w) \<Longrightarrow> gos w ! g = SelWake b param x f \<Longrightarrow> sel_step w g (sel_resume g b param x f w)"

definition sel_init :: "nat \<Rightarrow> (nat \<Rightarrow> 'v hchan) \<Rightarrow> 'v sel_world" where
  "sel_init n cs = \<lparr>chans = cs, gos = replicate n (OnChan 0 (ChRet NoCall)), taken = (\<lambda>a. []), given = (\<lambda>a. [])\<rparr>"

inductive sel_run :: "nat \<Rightarrow> (nat \<Rightarrow> 'v hchan) \<Rightarrow> 'v sel_world \<Rightarrow> bool" for n cs where
  sel_start: "sel_run n cs (sel_init n cs)"
| sel_next: "sel_run n cs w \<Longrightarrow> sel_step w g w' \<Longrightarrow> sel_run n cs w'"

end
