(* ===== verification/GoChanInv.thy ===== *)
theory GoChanInv
  imports GoChan
begin

text \<open>
  The ring of a channel as a list, the two queues of waiting goroutines, and the invariant of a
  channel every step keeps.
\<close>

lemma nth_upd: "xs[i := x] ! j = (if i = j \<and> i < length xs then x else xs ! j)"
  by (cases "i < length xs") (auto simp: list_update_beyond)

subsection \<open>The ring\<close>

definition ring :: "'v hchan \<Rightarrow> 'v list" where
  "ring c = map (\<lambda>i. the (buf c ! ((recvx c + i) mod dataqsiz c))) [0..<qcount c]"

definition ring_ok :: "'v hchan \<Rightarrow> bool" where
  "ring_ok c \<longleftrightarrow> length (buf c) = dataqsiz c \<and> qcount c \<le> dataqsiz c \<and>
     (0 < dataqsiz c \<longrightarrow> recvx c < dataqsiz c \<and> sendx c = (recvx c + qcount c) mod dataqsiz c)"

lemma next_index_mod: "i < dataqsiz c \<Longrightarrow> next_index c i = (i + 1) mod dataqsiz c"
  by (simp add: next_index_def)

lemma mod_shift_inj:
  assumes "(a + i) mod n = (a + j) mod n" "i < n" "j < (n :: nat)"
  shows "i = j"
proof -
  have *: "y = x" if "(a + x) mod n = (a + y) mod n" "x \<le> y" "y < n" for x y
  proof -
    have "n dvd y - x" using that(1,2) mod_eq_dvd_iff_nat [of "a + x" "a + y" n] by simp
    moreover have "y - x < n" using that(3) by simp
    ultimately have "y - x = 0" using nat_dvd_not_less by blast
    then show ?thesis using that(2) by simp
  qed
  show ?thesis
  proof (cases "i \<le> j")
    case True
    then show ?thesis using * [OF assms(1) True assms(3)] by simp
  next
    case False
    then show ?thesis using * [OF assms(1) [symmetric] _ assms(2)] by simp
  qed
qed

lemma ring_put:
  assumes "ring_ok c" "qcount c < dataqsiz c"
  shows "ring_ok (put_buf v c)" "ring (put_buf v c) = ring c @ [v]"
proof -
  let ?n = "dataqsiz c"
  have s: "sendx c = (recvx c + qcount c) mod ?n" "recvx c < ?n" "length (buf c) = ?n" "sendx c < ?n"
    using assms by (auto simp: ring_ok_def)
  have "(sendx c + 1) mod ?n = (recvx c + (qcount c + 1)) mod ?n" by (simp add: s(1) mod_simps)
  then show "ring_ok (put_buf v c)"
    using assms s next_index_mod [OF s(4)] by (simp add: ring_ok_def put_buf_def)
  have ne: "sendx c \<noteq> (recvx c + i) mod ?n" if "i < qcount c" for i
    using mod_shift_inj [of "recvx c" i ?n "qcount c"] that assms(2) s(1) by auto
  have "ring (put_buf v c) = map (\<lambda>i. the ((buf c)[sendx c := Some v] ! ((recvx c + i) mod ?n))) [0..<qcount c] @ [v]"
    using s(3,4) by (simp add: ring_def put_buf_def s(1) [symmetric])
  also have "\<dots> = ring c @ [v]" using ne by (simp add: ring_def)
  finally show "ring (put_buf v c) = ring c @ [v]" .
qed

lemma ring_take:
  assumes "ring_ok c" "0 < qcount c" "take_buf c = (v, c')"
  shows "ring_ok c'" "ring c = v # ring c'" "qcount c' = qcount c - 1" "dataqsiz c' = dataqsiz c"
    "closed c' = closed c" "recvq c' = recvq c" "sendq c' = sendq c"
proof -
  let ?n = "dataqsiz c"
  have s: "sendx c = (recvx c + qcount c) mod ?n" "recvx c < ?n" "length (buf c) = ?n" "qcount c \<le> ?n"
    using assms by (auto simp: ring_ok_def)
  have v: "v = the (buf c ! recvx c)"
    and c': "c' = c\<lparr>buf := (buf c)[recvx c := None], recvx := (recvx c + 1) mod ?n, qcount := qcount c - 1\<rparr>"
    using assms(3) next_index_mod [OF s(2)] by (auto simp: take_buf_def)
  show "qcount c' = qcount c - 1" "dataqsiz c' = dataqsiz c" "closed c' = closed c" "recvq c' = recvq c" "sendq c' = sendq c"
    by (simp_all add: c')
  obtain k where k: "qcount c = Suc k" using assms(2) gr0_implies_Suc by blast
  have "((recvx c + 1) mod ?n + (qcount c - 1)) mod ?n = (recvx c + qcount c) mod ?n"
    by (simp add: k mod_simps)
  then show "ring_ok c'" using s by (simp add: ring_ok_def c')
  have ne: "recvx c \<noteq> (recvx c + Suc i) mod ?n" if "i < qcount c - 1" for i
  proof -
    have "Suc i < ?n" using that s(4) by linarith
    then show ?thesis using mod_shift_inj [of "recvx c" "Suc i" ?n 0] s(2) by auto
  qed
  have idx: "((recvx c + 1) mod ?n + i) mod ?n = (recvx c + Suc i) mod ?n" for i by (simp add: mod_simps)
  have "ring c' = map (\<lambda>i. the (buf c ! ((recvx c + Suc i) mod ?n))) [0..<qcount c - 1]"
    unfolding ring_def by (rule map_cong) (use ne idx in \<open>auto simp: c'\<close>)
  moreover have "[0..<qcount c] = 0 # map Suc [0..<qcount c - 1]"
    using assms(2) by (metis Suc_diff_1 map_Suc_upt upt_conv_Cons)
  ultimately show "ring c = v # ring c'" using s v by (simp add: ring_def)
qed

text \<open>Taking from a full ring and putting at once: the same slot.\<close>

lemma full_rotate:
  assumes "ring_ok c" "qcount c = dataqsiz c" "0 < dataqsiz c"
  shows "c\<lparr>buf := (buf c)[recvx c := Some e], recvx := next_index c (recvx c), sendx := next_index c (recvx c)\<rparr> =
    put_buf e (snd (take_buf c))"
  using assms by (simp add: ring_ok_def put_buf_def take_buf_def next_index_def)

subsection \<open>A queue of waiting goroutines\<close>

fun is_sel :: "'v chan_pc \<Rightarrow> bool" where
  "is_sel (SelParked d) = True"
| "is_sel (SelWoken i x) = True"
| "is_sel p = False"

text \<open>A goroutine that waits nowhere.\<close>

fun off :: "'v chan_pc \<Rightarrow> bool" where
  "off SendParked = False"
| "off RecvParked = False"
| "off (SelParked d) = False"
| "off (SelWoken i x) = False"
| "off p = True"

text \<open>
  Every waiter is parked where its queue says, once; and every goroutine parked there is in the
  queue. A \<open>select\<close> leaves its entries behind until it runs.
\<close>

definition q_ok :: "'v chan_pc list \<Rightarrow> 'v chan_pc \<Rightarrow> 'v sudog list \<Rightarrow> bool" where
  "q_ok ps pk q \<longleftrightarrow>
     (\<forall>sg \<in> set q. sg_g sg < length ps \<and> (if isSelect sg then is_sel (ps ! sg_g sg) else ps ! sg_g sg = pk)) \<and>
     distinct (map sg_g (filter (\<lambda>sg. \<not> isSelect sg) q)) \<and> (\<forall>g < length ps. ps ! g = pk \<longrightarrow> g \<in> sg_g ` set q)"

definition waits :: "'v chan_pc list \<Rightarrow> 'v sudog list \<Rightarrow> bool" where
  "waits ps q \<longleftrightarrow> list_ex (wakeable ps) q"

definition park_pc :: "'v chan_pc \<Rightarrow> bool" where
  "park_pc pk \<longleftrightarrow> pk = RecvParked \<or> pk = SendParked"

lemma park_simps: "park_pc pk \<Longrightarrow> \<not> off pk \<and> \<not> is_sel pk"
  by (auto simp: park_pc_def)

lemma off_sel: "off p \<Longrightarrow> \<not> is_sel p" "park_pc pk \<Longrightarrow> off p \<Longrightarrow> p \<noteq> pk"
  by (cases p; auto simp: park_pc_def)+

lemma q_ok_absent:
  assumes "q_ok ps pk q" "park_pc pk" "off (ps ! g)" "sg \<in> set q"
  shows "g \<noteq> sg_g sg"
  using assms off_sel(1) [OF assms(3)] off_sel(2) [OF assms(2,3)] by (auto simp: q_ok_def split: if_splits)

lemma q_ok_goto:
  assumes "q_ok ps pk q" "park_pc pk" "off (ps ! g)" "p \<noteq> pk"
  shows "q_ok (ps[g := p]) pk q"
  using q_ok_absent [OF assms(1-3)] assms(1,4) by (auto simp: q_ok_def nth_upd)

lemma q_ok_enqueue:
  assumes "q_ok ps pk q" "park_pc pk" "off (ps ! g)" "g < length ps" "sg_g sg = g" "if isSelect sg then is_sel p else p = pk"
  shows "q_ok (ps[g := p]) pk (enqueue sg q)"
proof -
  have ab: "g \<noteq> sg_g s" if "s \<in> set q" for s using q_ok_absent [OF assms(1-3) that] .
  then show ?thesis using assms by (auto simp: q_ok_def enqueue_def nth_upd)
qed

lemma dequeue_None: "dequeue ps q = (None, q') \<Longrightarrow> q' = [] \<and> \<not> waits ps q"
  by (induction ps q rule: dequeue.induct) (auto simp: waits_def split: if_splits)

lemma dequeue_Some:
  "dequeue ps q = (Some sg, q') \<Longrightarrow> wakeable ps sg \<and> sg \<in> set q \<and> (\<exists>pre. q = pre @ sg # q')"
  by (induction ps q rule: dequeue.induct) (auto split: if_splits intro: exI [of _ "_ # _"])

lemma q_ok_none:
  assumes "q_ok ps pk q" "park_pc pk" "\<not> waits ps q"
  shows "q_ok ps pk []"
proof -
  have "ps ! g \<noteq> pk" if "g < length ps" for g
  proof
    assume p: "ps ! g = pk"
    then have "g \<in> sg_g ` set q" using assms(1) that by (simp add: q_ok_def)
    then obtain sg where sg: "sg \<in> set q" "sg_g sg = g" by blast
    then have "\<not> isSelect sg" using assms(1) p park_simps [OF assms(2)] by (auto simp: q_ok_def)
    then show False using assms(3) sg(1) by (auto simp: waits_def list_ex_iff wakeable_def)
  qed
  then show ?thesis by (auto simp: q_ok_def)
qed

text \<open>The first wakeable waiter is taken off its queue and woken: its own queue, and the other one.\<close>

lemma dropped_select:
  assumes "dequeue ps q = (Some sg, q')" "s \<in> set q" "s \<notin> set q'" "s \<noteq> sg"
  shows "isSelect s"
  using assms by (induction ps q rule: dequeue.induct) (auto simp: wakeable_def split: if_splits)

lemma q_ok_dequeue:
  assumes q: "q_ok ps pk q" and pk: "park_pc pk" and d: "dequeue ps q = (Some sg, q')"
    and p: "p \<noteq> pk" "isSelect sg \<Longrightarrow> is_sel p"
  shows "q_ok (ps[sg_g sg := p]) pk q'"
proof -
  obtain pre where pre: "q = pre @ sg # q'" using dequeue_Some [OF d] by blast
  have at: "if isSelect s then is_sel (ps ! sg_g s) else ps ! sg_g s = pk" if "s \<in> set q" for s using q that by (auto simp: q_ok_def)
  have ab: "isSelect sg \<and> isSelect s" if "s \<in> set q'" "sg_g s = sg_g sg" for s
  proof -
    have s: "s \<in> set q" "sg \<in> set q" using pre that(1) by simp_all
    then have eq: "isSelect s = isSelect sg" using at [OF s(1)] at [OF s(2)] that(2) park_simps [OF pk] by (auto split: if_splits)
    have "isSelect sg"
    proof (rule ccontr)
      assume n: "\<not> isSelect sg"
      then have "sg_g sg \<notin> sg_g ` set (filter (\<lambda>sg. \<not> isSelect sg) q')" using q pre by (simp add: q_ok_def)
      then show False using that eq n imageI [of s "{x \<in> set q'. \<not> isSelect x}" sg_g] by simp
    qed
    then show ?thesis using eq by simp
  qed
  have "g \<in> sg_g ` set q'" if g: "g < length ps" "ps[sg_g sg := p] ! g = pk" for g
  proof -
    have ng: "g \<noteq> sg_g sg" using g p(1) by auto
    then have pg: "ps ! g = pk" using g by simp
    then have "g \<in> sg_g ` set q" using q g(1) by (simp add: q_ok_def)
    then obtain s where s: "s \<in> set q" "sg_g s = g" by blast
    have "\<not> isSelect s" using q s pg park_simps [OF pk] by (auto simp: q_ok_def)
    then have "s \<in> set q'" using dropped_select [OF d s(1)] s(2) ng by auto
    then show ?thesis using s(2) by blast
  qed
  moreover have "sg_g s < length ps \<and> (if isSelect s then is_sel (ps[sg_g sg := p] ! sg_g s) else ps[sg_g sg := p] ! sg_g s = pk)"
    if "s \<in> set q'" for s
    using q pre ab [OF that] p(2) that by (cases "sg_g s = sg_g sg") (auto simp: q_ok_def nth_upd)
  moreover have "distinct (map sg_g (filter (\<lambda>sg. \<not> isSelect sg) q'))"
    using q pre by (auto simp: q_ok_def split: if_splits)
  ultimately show ?thesis by (auto simp: q_ok_def)
qed

lemma q_ok_woken:
  assumes q: "q_ok ps pk q" and q2: "q_ok ps pk2 q2" and pk: "park_pc pk" "park_pc pk2" "pk \<noteq> pk2" and sg: "sg \<in> set q"
    and p: "if isSelect sg then is_sel p else off p"
  shows "q_ok (ps[sg_g sg := p]) pk2 q2"
proof -
  have at: "if isSelect sg then is_sel (ps ! sg_g sg) else ps ! sg_g sg = pk"
    using q sg by (auto simp: q_ok_def)
  have np: "p \<noteq> pk2" using p park_simps [OF pk(2)] by (auto split: if_splits)
  have "isSelect s \<and> is_sel p" if "s \<in> set q2" "sg_g s = sg_g sg" for s
  proof -
    have "if isSelect s then is_sel (ps ! sg_g sg) else ps ! sg_g sg = pk2" using q2 that by (auto simp: q_ok_def)
    then show ?thesis using at p pk park_simps by (auto split: if_splits)
  qed
  then show ?thesis using q2 np by (auto simp: q_ok_def nth_upd)
qed

lemma q_ok_leave:
  assumes "q_ok ps pk q" "park_pc pk" "off p" "ps ! g \<noteq> pk"
  shows "q_ok (ps[g := p]) pk (filter (\<lambda>sg. sg_g sg \<noteq> g) q)"
proof -
  have "filter (\<lambda>sg. \<not> isSelect sg) (filter (\<lambda>sg. sg_g sg \<noteq> g) q) = filter (\<lambda>sg. sg_g sg \<noteq> g) (filter (\<lambda>sg. \<not> isSelect sg) q)"
    by (simp add: conj_commute)
  then have "distinct (map sg_g (filter (\<lambda>sg. \<not> isSelect sg) (filter (\<lambda>sg. sg_g sg \<noteq> g) q)))"
    using assms(1) by (simp only: q_ok_def distinct_map_filter)
  then show ?thesis using assms(1,4) off_sel(2) [OF assms(2,3)] by (fastforce simp: q_ok_def nth_upd)
qed

subsection \<open>The invariant\<close>

text \<open>The queues are not both in use, but for one goroutine that waits in both on an unbuffered channel.\<close>

definition paired :: "nat \<Rightarrow> 'v sudog list \<Rightarrow> 'v sudog list \<Rightarrow> bool" where
  "paired n rq sq \<longleftrightarrow> rq = [] \<or> sq = [] \<or> n = 0 \<and> (\<exists>g. \<forall>sg \<in> set rq \<union> set sq. sg_g sg = g)"

definition pc_fine :: "bool \<Rightarrow> 'v chan_pc \<Rightarrow> bool" where
  "pc_fine shut p \<longleftrightarrow> (p = SendWoken False \<or> p = RecvWoken None \<or> (\<exists>e. p = ChPanic e) \<longrightarrow> shut) \<and> (\<forall>e. p \<noteq> ChThrow e)"

definition chan_inv :: "'v chan_world \<Rightarrow> bool" where
  "chan_inv w \<longleftrightarrow>
     ring_ok (ch w) \<and> accepted w = delivered w @ ring (ch w) \<and>
     q_ok (pcs w) RecvParked (recvq (ch w)) \<and> q_ok (pcs w) SendParked (sendq (ch w)) \<and>
     (\<forall>sg \<in> set (sendq (ch w)). sg_elem sg \<noteq> None) \<and>
     (recvq (ch w) \<noteq> [] \<longrightarrow> qcount (ch w) = 0) \<and>
     (sendq (ch w) \<noteq> [] \<longrightarrow> qcount (ch w) = dataqsiz (ch w)) \<and>
     paired (dataqsiz (ch w)) (recvq (ch w)) (sendq (ch w)) \<and>
     (closed (ch w) \<longrightarrow> recvq (ch w) = [] \<and> sendq (ch w) = []) \<and>
     (\<forall>p \<in> set (pcs w). pc_fine (closed (ch w)) p)"

lemma chan_invD:
  assumes "chan_inv w"
  shows "ring_ok (ch w)" "accepted w = delivered w @ ring (ch w)" "q_ok (pcs w) RecvParked (recvq (ch w))"
    "q_ok (pcs w) SendParked (sendq (ch w))" "\<forall>sg \<in> set (sendq (ch w)). sg_elem sg \<noteq> None"
    "recvq (ch w) \<noteq> [] \<Longrightarrow> qcount (ch w) = 0" "sendq (ch w) \<noteq> [] \<Longrightarrow> qcount (ch w) = dataqsiz (ch w)"
    "paired (dataqsiz (ch w)) (recvq (ch w)) (sendq (ch w))" "closed (ch w) \<Longrightarrow> recvq (ch w) = [] \<and> sendq (ch w) = []"
    "\<forall>p \<in> set (pcs w). pc_fine (closed (ch w)) p"
  using assms by (simp_all add: chan_inv_def)

lemma parks [simp]: "park_pc RecvParked" "park_pc SendParked"
  by (simp_all add: park_pc_def)

lemma goto_simps [simp]:
  "ch (goto g p w) = ch w" "pcs (goto g p w) = (pcs w)[g := p]" "accepted (goto g p w) = accepted w" "delivered (goto g p w) = delivered w"
  by (simp_all add: goto_def)

lemma fine_upd: "\<forall>p \<in> set ps. pc_fine s p \<Longrightarrow> pc_fine s p \<Longrightarrow> \<forall>p \<in> set (ps[g := p]). pc_fine s p"
  using set_update_subset_insert [of ps g p] by auto

lemma paired_nil [simp]: "paired n [] sq" "paired n rq []" "\<not> waits ps []"
  by (simp_all add: paired_def waits_def)

lemma paired_less: "paired n rq sq \<Longrightarrow> set rq' \<subseteq> set rq \<Longrightarrow> set sq' \<subseteq> set sq \<Longrightarrow> paired n rq' sq'"
  unfolding paired_def by (elim disjE) (fastforce+)

lemma inv_goto:
  assumes i: "chan_inv w" and o: "off (pcs w ! g)" "off p" and f: "pc_fine (closed (ch w)) p" and g: "g < length (pcs w)"
  shows "chan_inv (goto g p w)"
proof -
  note I = chan_invD [OF i]
  have p: "p \<noteq> RecvParked" "p \<noteq> SendParked" using o(2) by auto
  note R = q_ok_goto [OF I(3) _ o(1) p(1)] and S = q_ok_goto [OF I(4) _ o(1) p(2)]
  show ?thesis using I R S fine_upd [OF I(10) f] by (simp add: chan_inv_def)
qed

text \<open>Waiters that are no longer wakeable may be dropped.\<close>

lemma inv_drop:
  assumes i: "chan_inv w"
  shows "\<not> waits (pcs w) (recvq (ch w)) \<Longrightarrow> chan_inv (w\<lparr>ch := (ch w)\<lparr>recvq := []\<rparr>\<rparr>)"
    "\<not> waits (pcs w) (sendq (ch w)) \<Longrightarrow> chan_inv (w\<lparr>ch := (ch w)\<lparr>sendq := []\<rparr>\<rparr>)"
  using chan_invD [OF i] q_ok_none [of "pcs w" RecvParked] q_ok_none [of "pcs w" SendParked]
  by (simp_all add: chan_inv_def ring_ok_def ring_def)

lemma recv_woken_simps [simp]: "recv_woken sg x \<noteq> RecvParked" "recv_woken sg x \<noteq> SelParked False"
    "if isSelect sg then is_sel (recv_woken sg x) else off (recv_woken sg x)" "pc_fine s (recv_woken sg (Some v))"
    "pc_fine True (recv_woken sg x)"
  by (simp_all add: recv_woken_def pc_fine_def)

lemma send_woken_simps [simp]: "send_woken sg b \<noteq> SendParked" "send_woken sg b \<noteq> SelParked False"
    "if isSelect sg then is_sel (send_woken sg b) else off (send_woken sg b)" "pc_fine s (send_woken sg True)"
    "pc_fine True (send_woken sg b)"
  by (simp_all add: send_woken_def pc_fine_def)

lemma deq_parts:
  assumes "dequeue ps q = (Some sg, q')"
  shows "waits ps q" "set q' \<subseteq> set q" "sg \<in> set q" "wakeable ps sg" "q \<noteq> []"
  using dequeue_Some [OF assms] by (auto simp: waits_def list_ex_iff)

lemma ring_cong: "ring (c\<lparr>recvq := q\<rparr>) = ring c" "ring_ok (c\<lparr>recvq := q\<rparr>) = ring_ok c" "ring (c\<lparr>sendq := q\<rparr>) = ring c"
    "ring_ok (c\<lparr>sendq := q\<rparr>) = ring_ok c"
  by (simp_all add: ring_def ring_ok_def)

lemma inv_send:
  assumes i: "chan_inv w" and d: "dequeue (pcs w) (recvq (ch w)) = (Some sg, q)"
  shows "chan_inv (send sg v (w\<lparr>ch := (ch w)\<lparr>recvq := q\<rparr>\<rparr>))"
proof -
  note I = chan_invD [OF i] and D = deq_parts [OF d]
  let ?p = "recv_woken sg (Some v)"
  have z: "qcount (ch w) = 0" by (rule I(6) [OF D(5)])
  have R: "q_ok ((pcs w)[sg_g sg := ?p]) RecvParked q" using q_ok_dequeue [OF I(3) _ d, of ?p] by simp
  have S: "q_ok ((pcs w)[sg_g sg := ?p]) SendParked (sendq (ch w))" using q_ok_woken [OF I(3,4) _ _ _ D(3), of ?p] by simp
  have "paired (dataqsiz (ch w)) q (sendq (ch w))" by (rule paired_less [OF I(8) D(2) subset_refl])
  then show ?thesis
    using I R S z fine_upd [OF I(10), of ?p "sg_g sg"] D(1)
    by (auto simp: chan_inv_def send_def ring_cong) (auto simp: ring_def)
qed

lemma inv_put:
  assumes i: "chan_inv w" and q: "recvq (ch w) = []" and lt: "qcount (ch w) < dataqsiz (ch w)"
  shows "chan_inv (w\<lparr>ch := put_buf v (ch w), accepted := accepted w @ [v]\<rparr>)"
proof -
  note I = chan_invD [OF i] and P = ring_put [OF chan_invD(1) [OF i] lt, of v]
  have "sendq (ch w) = []" using I(7) lt by auto
  then show ?thesis using I P q by (simp add: chan_inv_def put_buf_def)
qed

lemma inv_take:
  assumes i: "chan_inv w" and q: "sendq (ch w) = []" and lt: "0 < qcount (ch w)" and t: "take_buf (ch w) = (v, c)"
  shows "chan_inv (w\<lparr>ch := c, delivered := delivered w @ [v]\<rparr>)"
proof -
  note I = chan_invD [OF i] and T = ring_take [OF chan_invD(1) [OF i] lt t]
  have "recvq (ch w) = []" using I(6) lt by auto
  then show ?thesis using I T q by (simp add: chan_inv_def)
qed

lemma recv_shape:
  assumes i: "chan_inv w" and d: "dequeue (pcs w) (sendq (ch w)) = (Some sg, q)"
    and r: "recv sg (w\<lparr>ch := (ch w)\<lparr>sendq := q\<rparr>\<rparr>) = (v, w')"
  shows "\<exists>c. w' = (goto (sg_g sg) (send_woken sg True) w)\<lparr>ch := c, accepted := accepted w @ [the (sg_elem sg)], delivered := delivered w @ [v]\<rparr> \<and>
    ring_ok c \<and> v # ring c = ring (ch w) @ [the (sg_elem sg)] \<and> qcount c = qcount (ch w) \<and> dataqsiz c = dataqsiz (ch w) \<and>
    closed c = closed (ch w) \<and> recvq c = recvq (ch w) \<and> sendq c = q"
proof -
  note I = chan_invD [OF i] and D = deq_parts [OF d]
  let ?p = "send_woken sg True" and ?e = "the (sg_elem sg)" and ?c = "(ch w)\<lparr>sendq := q\<rparr>"
  have z: "qcount (ch w) = dataqsiz (ch w)" by (rule I(7) [OF D(5)])
  show ?thesis
  proof (cases "dataqsiz (ch w) = 0")
    case True
    then have "ring (ch w) = []" "ring_ok ?c" using z I(1) by (simp_all add: ring_def ring_cong)
    then show ?thesis using r True by (intro exI [of _ ?c]) (auto simp: recv_def Let_def ring_cong goto_def)
  next
    case False
    have rc: "ring_ok ?c" "qcount ?c = dataqsiz ?c" "0 < dataqsiz ?c" using z I(1) False by (simp_all add: ring_cong)
    obtain v' c1 where t: "take_buf ?c = (v', c1)" by fastforce
    note T = ring_take [OF rc(1) _ t]
    have lt: "qcount c1 < dataqsiz c1" "ring_ok c1" using T z False by auto
    note P = ring_put [OF lt(2,1), of ?e]
    have "v = v'" "w' = (goto (sg_g sg) ?p w)\<lparr>ch := put_buf ?e c1, accepted := accepted w @ [?e], delivered := delivered w @ [v]\<rparr>"
      using r False full_rotate [OF rc, of ?e] t by (auto simp: recv_def Let_def goto_def take_buf_def)
    moreover have "ring ?c = v' # ring c1" using T(2) rc by simp
    ultimately show ?thesis using T P rc z False
      by (intro exI [of _ "put_buf ?e c1"]) (auto simp: put_buf_def ring_cong)
  qed
qed

lemma recv_parts:
  assumes "chan_inv w" "dequeue (pcs w) (sendq (ch w)) = (Some sg, q)"
    "recv sg (w\<lparr>ch := (ch w)\<lparr>sendq := q\<rparr>\<rparr>) = (v, w')"
  shows "\<exists>e. ring (ch w) @ [e] = v # ring (ch w') \<and> accepted w' = accepted w @ [e] \<and> delivered w' = delivered w @ [v] \<and>
    dataqsiz (ch w') = dataqsiz (ch w)"
  using recv_shape [OF assms] by (force intro!: exI [of _ "the (sg_elem sg)"])

lemma inv_recv:
  assumes i: "chan_inv w" and d: "dequeue (pcs w) (sendq (ch w)) = (Some sg, q)"
    and r: "recv sg (w\<lparr>ch := (ch w)\<lparr>sendq := q\<rparr>\<rparr>) = (v, w')"
  shows "chan_inv w'" "pcs w' = (pcs w)[sg_g sg := send_woken sg True]" "closed (ch w') = closed (ch w)"
proof -
  note I = chan_invD [OF i] and D = deq_parts [OF d]
  let ?p = "send_woken sg True" and ?e = "the (sg_elem sg)"
  have z: "qcount (ch w) = dataqsiz (ch w)" by (rule I(7) [OF D(5)])
  have S: "q_ok ((pcs w)[sg_g sg := ?p]) SendParked q" using q_ok_dequeue [OF I(4) _ d, of ?p] by simp
  have R: "q_ok ((pcs w)[sg_g sg := ?p]) RecvParked (recvq (ch w))" using q_ok_woken [OF I(4,3) _ _ _ D(3), of ?p] by simp
  have m: "paired (dataqsiz (ch w)) (recvq (ch w)) q" by (rule paired_less [OF I(8) subset_refl D(2)])
  have nc: "\<not> closed (ch w)" using I(9) D(3) by auto
  obtain c where c: "w' = (goto (sg_g sg) ?p w)\<lparr>ch := c, accepted := accepted w @ [?e], delivered := delivered w @ [v]\<rparr>"
    "ring_ok c" "v # ring c = ring (ch w) @ [?e]" "qcount c = qcount (ch w)" "dataqsiz c = dataqsiz (ch w)"
    "closed c = closed (ch w)" "recvq c = recvq (ch w)" "sendq c = q" using recv_shape [OF i d r] by blast
  have h: "accepted w @ [?e] = (delivered w @ [v]) @ ring c" using I(2) c(3) by simp
  show "pcs w' = (pcs w)[sg_g sg := ?p]" "closed (ch w') = closed (ch w)" by (simp_all add: c)
  show "chan_inv w'"
    using I(5,6) D(2) R S m z nc h fine_upd [OF I(10), of ?p "sg_g sg"] c(2) unfolding c(1)
    by (auto simp: chan_inv_def c(4-8))
qed

end
