(* ===== verification/GoChanSteps.thy ===== *)
theory GoChanSteps
  imports GoChanInv
begin

text \<open>
  Every step of a goroutine on a channel, of \<open>src/src/runtime/chan.go\<close> or of a \<open>select\<close>'s
  environment, keeps the channel's invariant.
\<close>

subsection \<open>Blocking\<close>

lemma inv_park_recv:
  assumes i: "chan_inv w" and g: "off (pcs w ! g)" "g < length (pcs w)" and c: "\<not> closed (ch w)" "sendq (ch w) = []" "qcount (ch w) = 0"
  shows "chan_inv (goto g RecvParked
    (w\<lparr>ch := (ch w)\<lparr>recvq := enqueue \<lparr>sg_g = g, sg_elem = None, isSelect = False, sg_case = 0\<rparr> (recvq (ch w))\<rparr>\<rparr>))"
proof -
  note I = chan_invD [OF i]
  have "q_ok ((pcs w)[g := RecvParked]) RecvParked (enqueue \<lparr>sg_g = g, sg_elem = None, isSelect = False, sg_case = 0\<rparr> (recvq (ch w)))"
    by (rule q_ok_enqueue [OF I(3) _ g]) simp_all
  moreover have "q_ok ((pcs w)[g := RecvParked]) SendParked (sendq (ch w))"
    by (rule q_ok_goto [OF I(4) _ g(1)]) simp_all
  ultimately show ?thesis
    using I(1,2) c fine_upd [OF I(10), of RecvParked g] by (simp add: chan_inv_def ring_cong pc_fine_def)
qed

lemma inv_park_send:
  assumes i: "chan_inv w" and g: "off (pcs w ! g)" "g < length (pcs w)"
    and c: "\<not> closed (ch w)" "recvq (ch w) = []" "qcount (ch w) = dataqsiz (ch w)"
  shows "chan_inv (goto g SendParked
    (w\<lparr>ch := (ch w)\<lparr>sendq := enqueue \<lparr>sg_g = g, sg_elem = Some v, isSelect = False, sg_case = 0\<rparr> (sendq (ch w))\<rparr>\<rparr>))"
proof -
  note I = chan_invD [OF i]
  have "q_ok ((pcs w)[g := SendParked]) SendParked (enqueue \<lparr>sg_g = g, sg_elem = Some v, isSelect = False, sg_case = 0\<rparr> (sendq (ch w)))"
    by (rule q_ok_enqueue [OF I(4) _ g]) simp_all
  moreover have "q_ok ((pcs w)[g := SendParked]) RecvParked (recvq (ch w))"
    by (rule q_ok_goto [OF I(3) _ g(1)]) simp_all
  moreover have "\<forall>sg \<in> set (enqueue \<lparr>sg_g = g, sg_elem = Some v, isSelect = False, sg_case = 0\<rparr> (sendq (ch w))). sg_elem sg \<noteq> None"
    using I(5) by (simp add: enqueue_def)
  ultimately show ?thesis
    using I(1,2) c fine_upd [OF I(10), of SendParked g] by (simp add: chan_inv_def ring_cong pc_fine_def)
qed

subsection \<open>Sending and receiving\<close>

lemma inv_chansend:
  assumes i: "chan_inv w" and g: "off (pcs w ! g)" "g < length (pcs w)"
  shows "chan_inv (chansend g v block w)"
proof (cases "closed (ch w)")
  case True
  then show ?thesis using inv_goto [OF i g(1) _ _ g(2), of "ChPanic SendOnClosed"] by (simp add: chansend_def pc_fine_def)
next
  case nc: False
  note I = chan_invD [OF i]
  obtain s q where d: "dequeue (pcs w) (recvq (ch w)) = (s, q)" by fastforce
  show ?thesis
  proof (cases s)
    case (Some sg)
    note d = d [unfolded Some] and D = deq_parts [OF d [unfolded Some]]
    let ?w = "send sg v (w\<lparr>ch := (ch w)\<lparr>recvq := q\<rparr>\<rparr>)"
    have "g \<noteq> sg_g sg" using q_ok_absent [OF I(3) _ g(1) D(3)] by simp
    then have "off (pcs ?w ! g)" "g < length (pcs ?w)" using g by (simp_all add: send_def)
    then show ?thesis
      using inv_goto [OF inv_send [OF i d, of v], of g "ChRet Sent"] nc d by (simp add: chansend_def pc_fine_def)
  next
    case None
    have q: "q = []" and nw: "\<not> waits (pcs w) (recvq (ch w))" using dequeue_None d None by auto
    let ?w = "w\<lparr>ch := (ch w)\<lparr>recvq := []\<rparr>\<rparr>"
    have i': "chan_inv ?w" by (rule inv_drop(1) [OF i nw])
    consider (room) "qcount (ch w) < dataqsiz (ch w)" | (full_up) "qcount (ch w) = dataqsiz (ch w)"
      using I(1) by (meson ring_ok_def nat_less_le)
    then show ?thesis
    proof cases
      case room
      have "chan_inv (?w\<lparr>ch := put_buf v (ch ?w), accepted := accepted ?w @ [v]\<rparr>)"
        using inv_put [OF i', of v] room by simp
      from inv_goto [OF this, of g "ChRet Sent"] show ?thesis
        using g nc d None q room by (simp add: chansend_def pc_fine_def)
    next
      case full_up
      show ?thesis
      proof (cases block)
        case True
        then show ?thesis
          using inv_park_send [OF i', of g v] g nc d None q full_up by (simp add: chansend_def Let_def)
      next
        case False
        then show ?thesis
          using inv_goto [OF i', of g "ChRet NotSent"] g nc d None q full_up by (simp add: chansend_def pc_fine_def)
      qed
    qed
  qed
qed

lemma inv_chanrecv:
  assumes i: "chan_inv w" and g: "off (pcs w ! g)" "g < length (pcs w)"
  shows "chan_inv (chanrecv g block w)"
proof (cases "closed (ch w) \<and> qcount (ch w) = 0")
  case True
  then show ?thesis using inv_goto [OF i g(1) _ _ g(2), of "ChRet GotZero"] by (simp add: chanrecv_def pc_fine_def)
next
  case nc: False
  note I = chan_invD [OF i]
  obtain s q where d: "dequeue (pcs w) (sendq (ch w)) = (s, q)" by fastforce
  show ?thesis
  proof (cases s)
    case (Some sg)
    note d = d [unfolded Some] and D = deq_parts [OF d [unfolded Some]]
    obtain v w' where r: "recv sg (w\<lparr>ch := (ch w)\<lparr>sendq := q\<rparr>\<rparr>) = (v, w')" by fastforce
    note R = inv_recv [OF i d r]
    have "g \<noteq> sg_g sg" using q_ok_absent [OF I(4) _ g(1) D(3)] by simp
    then have "off (pcs w' ! g)" "g < length (pcs w')" using g by (simp_all add: R(2))
    then show ?thesis
      using inv_goto [OF R(1), of g "ChRet (Got v)"] nc d r by (auto simp: chanrecv_def Let_def pc_fine_def)
  next
    case None
    have q: "q = []" and nw: "\<not> waits (pcs w) (sendq (ch w))" using dequeue_None d None by auto
    let ?w = "w\<lparr>ch := (ch w)\<lparr>sendq := []\<rparr>\<rparr>"
    have i': "chan_inv ?w" by (rule inv_drop(2) [OF i nw])
    show ?thesis
    proof (cases "0 < qcount (ch w)")
      case True
      obtain v c where t: "take_buf (ch ?w) = (v, c)" by fastforce
      have "chan_inv (?w\<lparr>ch := c, delivered := delivered ?w @ [v]\<rparr>)"
        using inv_take [OF i' _ _ t] True by simp
      from inv_goto [OF this, of g "ChRet (Got v)"] show ?thesis
        using g nc d None q True t by (auto simp: chanrecv_def Let_def pc_fine_def)
    next
      case False
      then have open': "\<not> closed (ch w)" using nc by simp
      show ?thesis
      proof (cases block)
        case True
        then show ?thesis
          using inv_park_recv [OF i', of g] g open' d None q False by (simp add: chanrecv_def Let_def)
      next
        case nb: False
        then show ?thesis
          using inv_goto [OF i', of g "ChRet NotReady"] g open' d None q False by (simp add: chanrecv_def pc_fine_def)
      qed
    qed
  qed
qed

subsection \<open>Closing\<close>

lemma wake_all_length [simp]: "length (wake_all f q ps) = length ps"
  by (induction f q ps rule: wake_all.induct) auto

lemma wake_all_absent: "\<forall>sg \<in> set q. sg_g sg \<noteq> g \<Longrightarrow> wake_all f q ps ! g = ps ! g"
  by (induction f q ps rule: wake_all.induct) auto

lemma q_ok_tail: "q_ok ps pk (sg # q) \<Longrightarrow> park_pc pk \<Longrightarrow> \<not> wakeable ps sg \<Longrightarrow> q_ok ps pk q"
  using park_simps [of pk] by (auto simp: q_ok_def wakeable_def split: if_splits)

lemma wake_all_ok:
  assumes "q_ok ps pk q" "q_ok ps pk2 q2" "\<forall>p \<in> set ps. pc_fine True p" "park_pc pk" "park_pc pk2" "pk \<noteq> pk2"
    and f: "\<And>sg. if isSelect sg then is_sel (f sg) else off (f sg)" "\<And>sg. pc_fine True (f sg)"
  shows "q_ok (wake_all f q ps) pk [] \<and> q_ok (wake_all f q ps) pk2 q2 \<and> (\<forall>p \<in> set (wake_all f q ps). pc_fine True p)"
  using assms(1-3)
proof (induction q arbitrary: ps)
  case Nil
  then show ?case by simp
next
  case (Cons sg q)
  show ?case
  proof (cases "wakeable ps sg")
    case True
    let ?ps = "ps[sg_g sg := f sg]"
    have d: "dequeue ps (sg # q) = (Some sg, q)" using True by simp
    have ne: "f sg \<noteq> pk" using f(1) [of sg] park_simps [OF assms(4)] by (auto split: if_splits)
    have "q_ok ?ps pk q" by (rule q_ok_dequeue [OF Cons.prems(1) assms(4) d ne]) (use f(1) [of sg] in simp)
    moreover have "q_ok ?ps pk2 q2"
      by (rule q_ok_woken [OF Cons.prems(1,2) assms(4-6) _ f(1)]) simp
    ultimately show ?thesis using Cons.IH [of ?ps] fine_upd [OF Cons.prems(3) f(2)] True by simp
  next
    case False
    then show ?thesis using Cons.IH [of ps] q_ok_tail [OF Cons.prems(1) assms(4)] Cons.prems(2,3) by simp
  qed
qed

lemma inv_closechan:
  assumes i: "chan_inv w" and g: "off (pcs w ! g)" "g < length (pcs w)"
  shows "chan_inv (closechan g w)"
proof (cases "closed (ch w)")
  case True
  then show ?thesis using inv_goto [OF i g(1) _ _ g(2), of "ChPanic CloseOfClosed"] by (simp add: closechan_def pc_fine_def)
next
  case False
  note I = chan_invD [OF i]
  define p1 where "p1 = wake_all (\<lambda>sg. recv_woken sg None) (recvq (ch w)) (pcs w)"
  define p2 where "p2 = wake_all (\<lambda>sg. send_woken sg False) (sendq (ch w)) p1"
  let ?w = "w\<lparr>ch := (ch w)\<lparr>closed := True, recvq := [], sendq := []\<rparr>, pcs := p2\<rparr>"
  have fine: "\<forall>p \<in> set (pcs w). pc_fine True p" using I(10) by (auto simp: pc_fine_def)
  have 1: "q_ok p1 RecvParked []" "q_ok p1 SendParked (sendq (ch w))" "\<forall>p \<in> set p1. pc_fine True p"
    using wake_all_ok [OF I(3,4) fine, of "\<lambda>sg. recv_woken sg None"] by (simp_all add: p1_def)
  have 2: "q_ok p2 SendParked []" "q_ok p2 RecvParked []" "\<forall>p \<in> set p2. pc_fine True p"
    using wake_all_ok [OF 1(2,1,3), of "\<lambda>sg. send_woken sg False"] by (simp_all add: p2_def)
  have "ring ((ch w)\<lparr>closed := True, recvq := [], sendq := []\<rparr>) = ring (ch w)"
    "ring_ok ((ch w)\<lparr>closed := True, recvq := [], sendq := []\<rparr>)" using I(1) by (simp_all add: ring_def ring_ok_def)
  then have inv: "chan_inv ?w" using I(2) 2 by (simp add: chan_inv_def)
  have "\<forall>sg \<in> set (recvq (ch w)). sg_g sg \<noteq> g" "\<forall>sg \<in> set (sendq (ch w)). sg_g sg \<noteq> g"
    using q_ok_absent [OF I(3) _ g(1)] q_ok_absent [OF I(4) _ g(1)] by fastforce+
  then have "off (p2 ! g)" using g(1) by (simp add: p2_def p1_def wake_all_absent)
  moreover have "g < length p2" using g(2) by (simp add: p2_def p1_def)
  ultimately have "chan_inv (goto g (ChRet Closed) ?w)" using inv_goto [OF inv, of g "ChRet Closed"] by (simp add: pc_fine_def)
  moreover have "closechan g w = goto g (ChRet Closed) ?w" using False by (simp add: closechan_def p1_def p2_def Let_def)
  ultimately show ?thesis by simp
qed

subsection \<open>A \<open>select\<close>\<close>

lemma q_ok_sel: "q_ok ps pk q \<Longrightarrow> park_pc pk \<Longrightarrow> is_sel (ps ! g) \<Longrightarrow> is_sel p \<Longrightarrow> q_ok (ps[g := p]) pk q"
  using park_simps [of pk] by (auto simp: q_ok_def nth_upd)

lemma inv_elsewhere:
  assumes i: "chan_inv w" and g: "pcs w ! g = SelParked False" "g < length (pcs w)"
  shows "chan_inv (goto g (SelParked True) w)"
proof -
  note I = chan_invD [OF i]
  let ?ps = "(pcs w)[g := SelParked True]"
  have "q_ok ?ps RecvParked (recvq (ch w))" "q_ok ?ps SendParked (sendq (ch w))"
    using q_ok_sel [OF I(3)] q_ok_sel [OF I(4)] g by simp_all
  then show ?thesis using I fine_upd [OF I(10), of "SelParked True" g] by (simp add: chan_inv_def pc_fine_def)
qed

lemma inv_leave:
  assumes i: "chan_inv w" and g: "is_sel (pcs w ! g)" "g < length (pcs w)"
  shows "chan_inv (select_leave g w)"
proof -
  note I = chan_invD [OF i]
  define rq where "rq = filter (\<lambda>sg. sg_g sg \<noteq> g) (recvq (ch w))"
  define sq where "sq = filter (\<lambda>sg. sg_g sg \<noteq> g) (sendq (ch w))"
  define p where "p = ChRet (left_ret (pcs w ! g))"
  have p: "off p" "pc_fine (closed (ch w)) p" by (simp_all add: p_def pc_fine_def)
  let ?ps = "(pcs w)[g := p]"
  have ne: "pcs w ! g \<noteq> RecvParked" "pcs w ! g \<noteq> SendParked" using g(1) by auto
  have sub: "set rq \<subseteq> set (recvq (ch w))" "set sq \<subseteq> set (sendq (ch w))" by (auto simp: rq_def sq_def)
  have R: "q_ok ?ps RecvParked rq" unfolding rq_def by (rule q_ok_leave [OF I(3) _ p(1) ne(1)]) simp
  have S: "q_ok ?ps SendParked sq" unfolding sq_def by (rule q_ok_leave [OF I(4) _ p(1) ne(2)]) simp
  have m: "paired (dataqsiz (ch w)) rq sq" by (rule paired_less [OF I(8) sub])
  have e: "rq \<noteq> [] \<Longrightarrow> recvq (ch w) \<noteq> []" "sq \<noteq> [] \<Longrightarrow> sendq (ch w) \<noteq> []" by (auto simp: rq_def sq_def)
  have "closed (ch w) \<Longrightarrow> rq = [] \<and> sq = []" using I(9) by (simp add: rq_def sq_def)
  moreover have "ring ((ch w)\<lparr>recvq := rq, sendq := sq\<rparr>) = ring (ch w)" "ring_ok ((ch w)\<lparr>recvq := rq, sendq := sq\<rparr>)"
    using I(1) by (simp_all add: ring_def ring_ok_def)
  ultimately have "chan_inv (goto g p (w\<lparr>ch := (ch w)\<lparr>recvq := rq, sendq := sq\<rparr>\<rparr>))"
    using I(1,2,5-7) R S m e sub fine_upd [OF I(10) p(2), of g] by (auto simp: chan_inv_def)
  then show ?thesis by (simp add: select_leave_def rq_def sq_def p_def)
qed

lemma dequeue_unready: "\<not> waits ps q \<Longrightarrow> dequeue ps q = (None, [])"
  by (induction ps q rule: dequeue.induct) (auto simp: waits_def)

lemma unready:
  assumes "chan_inv w"
  shows "\<not> recv_ready w \<Longrightarrow> \<not> closed (ch w) \<and> qcount (ch w) = 0 \<and> \<not> waits (pcs w) (sendq (ch w))"
    "\<not> send_ready w \<Longrightarrow> \<not> closed (ch w) \<and> qcount (ch w) = dataqsiz (ch w) \<and> \<not> waits (pcs w) (recvq (ch w))"
  using chan_invD(1) [OF assms] by (auto simp: recv_ready_def send_ready_def waits_def ring_ok_def)

lemma inv_look:
  assumes "chan_inv w"
  shows "\<not> recv_ready w \<Longrightarrow> chan_inv (look_recv w)" "\<not> send_ready w \<Longrightarrow> chan_inv (look_send w)"
  using inv_drop [OF assms] unready [OF assms] by (simp_all add: look_recv_def look_send_def dequeue_unready)

text \<open>The entries of a \<open>select\<close> are put in one after the other.\<close>

lemma q_ok_enqueues:
  assumes "q_ok ps pk q" "park_pc pk" "off (ps ! g)" "g < length ps" "\<forall>sg \<in> set es. sg_g sg = g \<and> isSelect sg" "is_sel p"
  shows "q_ok (ps[g := p]) pk (q @ es)"
proof -
  have "p \<noteq> pk" using assms(2,6) park_simps by blast
  then have q: "q_ok (ps[g := p]) pk q" using q_ok_goto [OF assms(1-3)] by simp
  have "filter (\<lambda>sg. \<not> isSelect sg) es = []" using assms(5) by (simp add: filter_empty_conv)
  then show ?thesis using q assms(4-6) by (auto simp: q_ok_def)
qed

lemma fold_enqueue: "fold (\<lambda>x. enqueue (f x)) xs q = q @ map f xs"
  by (induction xs arbitrary: q) (simp_all add: enqueue_def)

lemma select_park_eq:
  "select_park g rs ss w = goto g (SelParked False)
     (w\<lparr>ch := (ch w)\<lparr>recvq := recvq (ch w) @ map (sel_sudog g None) rs,
                      sendq := sendq (ch w) @ map (\<lambda>(i, v). sel_sudog g (Some v) i) ss\<rparr>\<rparr>)"
proof -
  have "fold (\<lambda>(i, v). enqueue (sel_sudog g (Some v) i)) ss q = q @ map (\<lambda>(i, v). sel_sudog g (Some v) i) ss" for q
    using fold_enqueue [of "\<lambda>(i, v). sel_sudog g (Some v) i" ss q] by (simp add: case_prod_unfold)
  then show ?thesis by (simp add: select_park_def fold_enqueue)
qed

lemma inv_select_park:
  assumes i: "chan_inv w" and g: "off (pcs w ! g)" "g < length (pcs w)"
    and r: "rs \<noteq> [] \<Longrightarrow> \<not> recv_ready w \<and> sendq (ch w) = []" and x: "ss \<noteq> [] \<Longrightarrow> \<not> send_ready w \<and> recvq (ch w) = []"
  shows "chan_inv (select_park g rs ss w)"
proof -
  note I = chan_invD [OF i] and U = unready [OF i]
  define rq where "rq = recvq (ch w) @ map (sel_sudog g None) rs"
  define sq where "sq = sendq (ch w) @ map (\<lambda>(i, v). sel_sudog g (Some v) i) ss"
  let ?ps = "(pcs w)[g := SelParked False]"
  have R: "q_ok ?ps RecvParked rq"
    unfolding rq_def by (rule q_ok_enqueues [OF I(3) _ g]) (auto simp: sel_sudog_def)
  have S: "q_ok ?ps SendParked sq"
    unfolding sq_def by (rule q_ok_enqueues [OF I(4) _ g]) (auto simp: sel_sudog_def)
  have "paired (dataqsiz (ch w)) rq sq"
  proof (cases "rs \<noteq> [] \<and> ss \<noteq> []")
    case True
    then have "recvq (ch w) = []" "sendq (ch w) = []" "dataqsiz (ch w) = 0" using r x U by auto
    then show ?thesis by (auto simp: paired_def rq_def sq_def sel_sudog_def)
  next
    case False
    then consider "rs = []" "ss = []" | "rs \<noteq> []" "ss = []" | "rs = []" "ss \<noteq> []" by blast
    then show ?thesis
    proof cases
      case 1
      then show ?thesis using I(8) by (simp add: rq_def sq_def)
    next
      case 2
      then show ?thesis using r by (simp add: sq_def)
    next
      case 3
      then show ?thesis using x by (simp add: rq_def)
    qed
  qed
  moreover have "rq \<noteq> [] \<Longrightarrow> qcount (ch w) = 0" "sq \<noteq> [] \<Longrightarrow> qcount (ch w) = dataqsiz (ch w)"
    using r x U I(6,7) by (auto simp: rq_def sq_def)
  moreover have "\<forall>sg \<in> set sq. sg_elem sg \<noteq> None" using I(5) by (auto simp: sq_def sel_sudog_def)
  moreover have "ring ((ch w)\<lparr>recvq := rq, sendq := sq\<rparr>) = ring (ch w)" "ring_ok ((ch w)\<lparr>recvq := rq, sendq := sq\<rparr>)"
    using I(1) by (simp_all add: ring_def ring_ok_def)
  moreover have "closed (ch w) \<Longrightarrow> rq = [] \<and> sq = []" using I(9) r x U by (auto simp: rq_def sq_def)
  ultimately have "chan_inv (goto g (SelParked False) (w\<lparr>ch := (ch w)\<lparr>recvq := rq, sendq := sq\<rparr>\<rparr>))"
    using I(2) R S fine_upd [OF I(10), of "SelParked False" g] by (simp add: chan_inv_def pc_fine_def)
  then show ?thesis unfolding select_park_eq rq_def sq_def .
qed

subsection \<open>Runs\<close>

lemma pc_fine_at: "chan_inv w \<Longrightarrow> g < length (pcs w) \<Longrightarrow> pc_fine (closed (ch w)) (pcs w ! g)"
  using chan_invD(10) by fastforce

lemma chan_op_inv:
  assumes "chan_op w g w'" "chan_inv w"
  shows "chan_inv w'"
  using assms
proof cases
  case (c_send_resumed b)
  then have "\<not> b \<Longrightarrow> closed (ch w)" using pc_fine_at [OF assms(2)] by (fastforce simp: pc_fine_def)
  then show ?thesis using c_send_resumed assms(2) by (auto simp: send_resumed_def pc_fine_def intro!: inv_goto)
qed (use assms(2) in \<open>auto simp: nbsend_open_def nbsend_full_def nbrecv_empty_def nbrecv_open_def recv_resumed_def pc_fine_def
      intro!: inv_goto inv_chansend inv_chanrecv inv_closechan\<close>)

lemma chan_step_inv:
  assumes "chan_step w g w'" "chan_inv w"
  shows "chan_inv w'"
  using assms(1)
proof cases
  case c_op
  then show ?thesis by (rule chan_op_inv [OF _ assms(2)])
next
  case c_leave
  then have "is_sel (pcs w ! g)" by auto
  then show ?thesis using inv_leave [OF assms(2)] c_leave by simp
next
  case (c_select r rs ss)
  then show ?thesis using inv_select_park [OF assms(2), of g rs ss] by simp
next
  case (c_other r)
  then show ?thesis using inv_goto [OF assms(2)] by (simp add: pc_fine_def)
qed (use assms(2) in \<open>auto intro: inv_look inv_elsewhere\<close>)

text \<open>What \<open>makechan\<close> returns.\<close>

definition fresh_chan :: "'v hchan \<Rightarrow> bool" where
  "fresh_chan c \<longleftrightarrow> (\<exists>n. c = \<lparr>qcount = 0, dataqsiz = n, buf = replicate n None, closed = False,
      sendx = 0, recvx = 0, recvq = [], sendq = []\<rparr>)"

lemma makechan_fresh: "makechan maxAlloc e sz = Inr c \<Longrightarrow> fresh_chan c"
  by (auto simp: makechan_def fresh_chan_def Let_def split: if_splits)

lemma chan_init_inv: "fresh_chan c \<Longrightarrow> chan_inv (chan_init n c)"
  by (auto simp: fresh_chan_def chan_init_def chan_inv_def ring_ok_def ring_def q_ok_def pc_fine_def)

lemma chan_run_inv: "chan_run n c w \<Longrightarrow> fresh_chan c \<Longrightarrow> chan_inv w"
  by (induction rule: chan_run.induct) (auto intro: chan_init_inv chan_step_inv)

lemma chan_steps_run: "chan_steps w w' \<Longrightarrow> chan_run n c w \<Longrightarrow> chan_run n c w'"
  by (induction rule: chan_steps.induct) (auto intro: chan_run.chan_next)

end
