(* ===== verification/GoSelectView.thy ===== *)
theory GoSelectView
  imports GoSelect GoChanSteps
begin

text \<open>
  What an operation on one channel does to goroutines that wait in a \<open>select\<close>, and what it looks
  like from the channels it is not on.
\<close>

subsection \<open>The effect of an operation\<close>

definition sels :: "'v sudog list \<Rightarrow> 'v sudog list" where
  "sels q = filter isSelect q"

text \<open>
  A goroutine is where it was, has left the channel's own queue, or has been woken from a \<open>select\<close>: by
  an entry of its that is gone from the queue of receivers, or of senders, or by the close.
\<close>

definition repositioned :: "bool \<Rightarrow> 'v sudog list \<Rightarrow> 'v sudog list \<Rightarrow> nat \<Rightarrow> 'v chan_pc \<Rightarrow> 'v chan_pc \<Rightarrow> bool" where
  "repositioned shut rp sp h p p' \<longleftrightarrow>
     p' = p \<or> p = RecvParked \<or> p = SendParked \<or>
     p = SelParked False \<and>
       ((\<exists>sg \<in> set rp. sg_g sg = h \<and> (\<exists>v. p' = SelWoken (Some (sg_case sg)) (Some v))) \<or>
        (\<exists>sg \<in> set sp. sg_g sg = h \<and> p' = SelWoken (Some (sg_case sg)) None) \<or>
        shut \<and> p' = SelWoken None None \<and> (\<exists>sg \<in> set rp \<union> set sp. sg_g sg = h))"

definition eff_by :: "'v sudog list \<Rightarrow> 'v sudog list \<Rightarrow> nat \<Rightarrow> 'v chan_world \<Rightarrow> 'v chan_world \<Rightarrow> bool" where
  "eff_by rp sp g w w' \<longleftrightarrow>
     sels (recvq (ch w)) = rp @ sels (recvq (ch w')) \<and> sels (sendq (ch w)) = sp @ sels (sendq (ch w')) \<and>
     (\<forall>sg \<in> set rp \<union> set sp. pcs w' ! sg_g sg \<noteq> SelParked False) \<and>
     length (pcs w') = length (pcs w) \<and> (closed (ch w) \<longrightarrow> closed (ch w')) \<and>
     (\<forall>h < length (pcs w). h \<noteq> g \<longrightarrow> repositioned (closed (ch w')) rp sp h (pcs w ! h) (pcs w' ! h))"

definition eff :: "nat \<Rightarrow> 'v chan_world \<Rightarrow> 'v chan_world \<Rightarrow> bool" where
  "eff g w w' \<longleftrightarrow> (\<exists>rp sp. eff_by rp sp g w w')"

lemma effI: "eff_by rp sp g w w' \<Longrightarrow> eff g w w'"
  by (auto simp: eff_def)

lemma repositioned_same [simp]: "repositioned shut rp sp h p p"
  by (simp add: repositioned_def)

lemma eff_only:
  assumes "sels (recvq (ch w')) = sels (recvq (ch w))" "sels (sendq (ch w')) = sels (sendq (ch w))" "pcs w' = (pcs w)[g := p]"
    "closed (ch w) \<longrightarrow> closed (ch w')"
  shows "eff g w w'"
  by (rule effI [of "[]" "[]"]) (use assms in \<open>simp add: eff_by_def\<close>)

lemma eff_goto: "eff g w (goto g p w)"
  by (rule eff_only) simp_all

lemma dequeue_sels:
  "dequeue ps q = (s, q') \<Longrightarrow> \<exists>pre. sels q = pre @ sels q' \<and> (\<forall>x \<in> set pre. s = Some x \<or> \<not> wakeable ps x) \<and>
     (\<forall>sg. s = Some sg \<longrightarrow> isSelect sg \<longrightarrow> sg \<in> set pre)"
proof (induction ps q arbitrary: s q' rule: dequeue.induct)
  case (1 ps)
  then show ?case by (auto simp: sels_def)
next
  case (2 ps sgp q)
  show ?case
  proof (cases "wakeable ps sgp")
    case True
    then have "s = Some sgp" "q' = q" using 2(2) by auto
    then show ?thesis by (intro exI [of _ "if isSelect sgp then [sgp] else []"]) (auto simp: sels_def)
  next
    case False
    then have d: "dequeue ps q = (s, q')" and sel: "isSelect sgp" using 2(2) by (auto simp: wakeable_def)
    from 2(1) [OF False d] obtain pre where "sels q = pre @ sels q'" "\<forall>x \<in> set pre. s = Some x \<or> \<not> wakeable ps x"
      "\<forall>sg. s = Some sg \<longrightarrow> isSelect sg \<longrightarrow> sg \<in> set pre" by blast
    then show ?thesis using False sel by (intro exI [of _ "sgp # pre"]) (auto simp: sels_def)
  qed
qed

lemma dequeue_None_sels:
  "dequeue ps q = (None, q') \<Longrightarrow> q' = [] \<and> (\<forall>x \<in> set (sels q). \<not> wakeable ps x)"
  using dequeue_None [of ps q q'] by (auto simp: waits_def sels_def list_ex_iff)

lemma not_wakeable: "isSelect x \<Longrightarrow> \<not> wakeable ps x \<Longrightarrow> ps ! sg_g x \<noteq> SelParked False"
  by (auto simp: wakeable_def)

lemma wakeable_at:
  assumes "q_ok ps pk q" "sg \<in> set q" "wakeable ps sg"
  shows "ps ! sg_g sg = (if isSelect sg then SelParked False else pk)"
  using assms by (auto simp: q_ok_def wakeable_def split: chan_pc.splits if_splits)

lemma sels_in: "x \<in> set (sels q) \<longleftrightarrow> x \<in> set q \<and> isSelect x"
  by (auto simp: sels_def)

lemma eff_send:
  assumes i: "chan_inv w" and d: "dequeue (pcs w) (recvq (ch w)) = (Some sg, q)" and p: "p \<noteq> SelParked False"
    and w': "recvq (ch w') = q" "sendq (ch w') = sendq (ch w)" "pcs w' = ((pcs w)[sg_g sg := recv_woken sg (Some v)])[g := p]"
      "closed (ch w') = closed (ch w)"
  shows "eff g w w'"
proof -
  note D = deq_parts [OF d]
  obtain pre where pre: "sels (recvq (ch w)) = pre @ sels q" "\<forall>x \<in> set pre. sg = x \<or> \<not> wakeable (pcs w) x"
    "isSelect sg \<Longrightarrow> sg \<in> set pre" using dequeue_sels [OF d] by auto
  have lt: "sg_g x < length (pcs w)" if "x \<in> set (recvq (ch w))" for x using chan_invD(3) [OF i] that by (simp add: q_ok_def)
  have "pcs w' ! sg_g x \<noteq> SelParked False" if "x \<in> set pre" for x
  proof -
    have x: "x \<in> set (recvq (ch w))" "isSelect x" using pre(1) that sels_in [of x "recvq (ch w)"] by auto
    then show ?thesis using pre(2) that not_wakeable [of x "pcs w"] p lt [OF x(1)] w'(3) by (auto simp: nth_upd)
  qed
  moreover have "repositioned b pre [] h (pcs w ! h) (pcs w' ! h)" if "h < length (pcs w)" "h \<noteq> g" for b h
    using wakeable_at [OF chan_invD(3) [OF i] D(3,4)] that pre(3) w'(3) by (auto simp: repositioned_def nth_upd recv_woken_def)
  ultimately show ?thesis by (intro effI [of pre "[]"]) (use pre(1) w' in \<open>simp add: eff_by_def\<close>)
qed

lemma eff_recv:
  assumes i: "chan_inv w" and d: "dequeue (pcs w) (sendq (ch w)) = (Some sg, q)" and p: "p \<noteq> SelParked False"
    and w': "recvq (ch w') = recvq (ch w)" "sendq (ch w') = q" "pcs w' = ((pcs w)[sg_g sg := send_woken sg True])[g := p]"
      "closed (ch w') = closed (ch w)"
  shows "eff g w w'"
proof -
  note D = deq_parts [OF d]
  obtain pre where pre: "sels (sendq (ch w)) = pre @ sels q" "\<forall>x \<in> set pre. sg = x \<or> \<not> wakeable (pcs w) x"
    "isSelect sg \<Longrightarrow> sg \<in> set pre" using dequeue_sels [OF d] by auto
  have lt: "sg_g x < length (pcs w)" if "x \<in> set (sendq (ch w))" for x using chan_invD(4) [OF i] that by (simp add: q_ok_def)
  have "pcs w' ! sg_g x \<noteq> SelParked False" if "x \<in> set pre" for x
  proof -
    have x: "x \<in> set (sendq (ch w))" "isSelect x" using pre(1) that sels_in [of x "sendq (ch w)"] by auto
    then show ?thesis using pre(2) that not_wakeable [of x "pcs w"] p lt [OF x(1)] w'(3) by (auto simp: nth_upd)
  qed
  moreover have "repositioned b [] pre h (pcs w ! h) (pcs w' ! h)" if "h < length (pcs w)" "h \<noteq> g" for b h
    using wakeable_at [OF chan_invD(4) [OF i] D(3,4)] that pre(3) w'(3) by (auto simp: repositioned_def nth_upd send_woken_def)
  ultimately show ?thesis by (intro effI [of "[]" pre]) (use pre(1) w' in \<open>simp add: eff_by_def\<close>)
qed

text \<open>No live waiter: the queue is emptied, and nobody in it is parked.\<close>

lemma eff_drop:
  assumes "chan_inv w" "\<not> waits (pcs w) (recvq (ch w)) \<and> recvq (ch w') = [] \<and> sels (sendq (ch w')) = sels (sendq (ch w)) \<or>
      \<not> waits (pcs w) (sendq (ch w)) \<and> sendq (ch w') = [] \<and> sels (recvq (ch w')) = sels (recvq (ch w))"
    "pcs w' = (pcs w)[g := p]" "p \<noteq> SelParked False" "closed (ch w') = closed (ch w)"
  shows "eff g w w'"
proof -
  have np: "pcs w' ! sg_g x \<noteq> SelParked False" if "x \<in> set (sels q)" "\<not> waits (pcs w) q" for x q
    using that assms(3,4) not_wakeable [of x "pcs w"] by (auto simp: waits_def list_ex_iff sels_in nth_upd)
  from assms(2) show ?thesis
  proof
    assume c: "\<not> waits (pcs w) (recvq (ch w)) \<and> recvq (ch w') = [] \<and> sels (sendq (ch w')) = sels (sendq (ch w))"
    then show ?thesis
      by (intro effI [of "sels (recvq (ch w))" "[]"]) (use np assms(3,5) in \<open>auto simp: eff_by_def sels_def\<close>)
  next
    assume c: "\<not> waits (pcs w) (sendq (ch w)) \<and> sendq (ch w') = [] \<and> sels (recvq (ch w')) = sels (recvq (ch w))"
    then show ?thesis
      by (intro effI [of "[]" "sels (sendq (ch w))"]) (use np assms(3,5) in \<open>auto simp: eff_by_def sels_def\<close>)
  qed
qed

lemma sels_enqueue [simp]: "\<not> isSelect sg \<Longrightarrow> sels (enqueue sg q) = sels q"
  by (simp add: sels_def enqueue_def)

lemma put_buf_simps [simp]:
  "recvq (put_buf v c) = recvq c" "sendq (put_buf v c) = sendq c" "closed (put_buf v c) = closed c"
  by (simp_all add: put_buf_def)

lemma take_buf_simps:
  "take_buf c = (v, c') \<Longrightarrow> recvq c' = recvq c \<and> sendq c' = sendq c \<and> closed c' = closed c"
  by (auto simp: take_buf_def)

lemma chansend_eff:
  assumes i: "chan_inv w"
  shows "eff g w (chansend g v block w)"
proof (cases "closed (ch w)")
  case True
  then show ?thesis by (simp add: chansend_def eff_goto)
next
  case nc: False
  obtain s q where d: "dequeue (pcs w) (recvq (ch w)) = (s, q)" by fastforce
  show ?thesis
  proof (cases s)
    case (Some sg)
    show ?thesis
      by (rule eff_send [OF i d [unfolded Some], where p = "ChRet Sent" and v = v]) (use nc d Some in \<open>simp_all add: chansend_def send_def\<close>)
  next
    case None
    have q: "q = []" "\<not> waits (pcs w) (recvq (ch w))" using dequeue_None d None by auto
    define p :: "'a chan_pc" where "p = (if qcount (ch w) < dataqsiz (ch w) then ChRet Sent else if block then SendParked else ChRet NotSent)"
    show ?thesis
      by (rule eff_drop [OF i, where p = p]) (use q nc d None in \<open>auto simp: chansend_def Let_def p_def\<close>)
  qed
qed

lemma chanrecv_eff:
  assumes i: "chan_inv w"
  shows "eff g w (chanrecv g block w)"
proof (cases "closed (ch w) \<and> qcount (ch w) = 0")
  case True
  then show ?thesis by (simp add: chanrecv_def eff_goto)
next
  case nc: False
  obtain s q where d: "dequeue (pcs w) (sendq (ch w)) = (s, q)" by fastforce
  show ?thesis
  proof (cases s)
    case (Some sg)
    obtain v w1 where r: "recv sg (w\<lparr>ch := (ch w)\<lparr>sendq := q\<rparr>\<rparr>) = (v, w1)" by fastforce
    obtain c where c: "w1 = (goto (sg_g sg) (send_woken sg True) w)\<lparr>ch := c, accepted := accepted w @ [the (sg_elem sg)], delivered := delivered w @ [v]\<rparr>"
      "closed c = closed (ch w)" "recvq c = recvq (ch w)" "sendq c = q"
      using recv_shape [OF i d [unfolded Some] r] by blast
    show ?thesis
      by (rule eff_recv [OF i d [unfolded Some], where p = "ChRet (Got v)"]) (use nc d Some r c in \<open>auto simp: chanrecv_def Let_def\<close>)
  next
    case None
    have q: "q = []" "\<not> waits (pcs w) (sendq (ch w))" using dequeue_None d None by auto
    obtain v c where t: "take_buf ((ch w)\<lparr>sendq := q\<rparr>) = (v, c)" by fastforce
    note T = take_buf_simps [OF t]
    define p where "p = (if 0 < qcount (ch w) then ChRet (Got v) else if block then RecvParked else ChRet NotReady)"
    show ?thesis
      by (rule eff_drop [OF i, where p = p]) (use q nc d None t T in \<open>auto simp: chanrecv_def Let_def p_def\<close>)
  qed
qed

lemma wake_all_at:
  "(\<And>sg. f sg \<noteq> SelParked False) \<Longrightarrow> h < length ps \<Longrightarrow>
   wake_all f q ps ! h = ps ! h \<or> (\<exists>sg \<in> set q. sg_g sg = h \<and> wakeable ps sg \<and> wake_all f q ps ! h = f sg)"
proof (induction f q ps rule: wake_all.induct)
  case (2 f sg q ps)
  show ?case
  proof (cases "wakeable ps sg")
    case True
    let ?ps = "ps[sg_g sg := f sg]"
    have "wake_all f q ?ps ! h = ?ps ! h \<or> (\<exists>s \<in> set q. sg_g s = h \<and> wakeable ?ps s \<and> wake_all f q ?ps ! h = f s)"
      using 2(1) [OF 2(2)] 2(3) True by simp
    moreover have "wakeable ps s" if "sg_g s = h" "wakeable ?ps s" for s
      using that 2(2) [of sg] 2(3) by (cases "sg_g sg = h") (auto simp: wakeable_def split: chan_pc.splits)
    ultimately show ?thesis using True by (cases "sg_g sg = h") (auto simp: nth_upd split: if_splits)
  next
    case False
    then show ?thesis using 2 by auto
  qed
qed simp

lemma wake_all_sel:
  "(\<And>sg. f sg \<noteq> SelParked False) \<Longrightarrow> sg \<in> set q \<Longrightarrow> isSelect sg \<Longrightarrow> sg_g sg < length ps \<Longrightarrow> wake_all f q ps ! sg_g sg \<noteq> SelParked False"
proof (induction f q ps rule: wake_all.induct)
  case (2 f s q ps)
  have keep: "wake_all f q xs ! h \<noteq> SelParked False" if "xs ! h \<noteq> SelParked False" "h < length xs" for xs h
    using wake_all_at [of f h xs q, OF 2(2) that(2)] that(1) 2(2) by metis
  show ?case
  proof (cases "sg = s")
    case True
    then show ?thesis using keep [of "ps[sg_g s := f s]" "sg_g s"] keep [of ps "sg_g s"] 2(2) 2(4,5) not_wakeable [of s ps]
      by (auto simp: nth_upd)
  next
    case False
    then show ?thesis using 2 by (auto split: if_splits)
  qed
qed simp

lemma closechan_eff:
  assumes i: "chan_inv w"
  shows "eff g w (closechan g w)"
proof (cases "closed (ch w)")
  case True
  then show ?thesis by (simp add: closechan_def eff_goto)
next
  case False
  note I = chan_invD [OF i]
  define f :: "'a sudog \<Rightarrow> 'a chan_pc" where "f = (\<lambda>sg. recv_woken sg None)"
  define f' :: "'a sudog \<Rightarrow> 'a chan_pc" where "f' = (\<lambda>sg. send_woken sg False)"
  have f: "f sg \<noteq> SelParked False" "f' sg \<noteq> SelParked False" for sg by (simp_all add: f_def f'_def)
  define p1 where "p1 = wake_all f (recvq (ch w)) (pcs w)"
  define p2 where "p2 = wake_all f' (sendq (ch w)) p1"
  have len: "length p1 = length (pcs w)" "length p2 = length (pcs w)" by (simp_all add: p1_def p2_def)
  let ?w = "closechan g w"
  have w: "pcs ?w = p2[g := ChRet Closed]" "recvq (ch ?w) = []" "sendq (ch ?w) = []" "closed (ch ?w)"
    using False by (simp_all add: closechan_def Let_def p1_def p2_def f_def f'_def)
  have fine: "\<forall>p \<in> set (pcs w). pc_fine True p" using I(10) by (auto simp: pc_fine_def)
  have ok1: "q_ok p1 SendParked (sendq (ch w))"
    using wake_all_ok [OF I(3,4) fine, of f] by (simp add: p1_def f_def)
  have at1: "p1 ! h = pcs w ! h \<or> (\<exists>sg \<in> set (recvq (ch w)). sg_g sg = h \<and> wakeable (pcs w) sg \<and> p1 ! h = f sg)" if "h < length (pcs w)" for h
    using wake_all_at [of f h "pcs w" "recvq (ch w)"] f that by (simp add: p1_def)
  have at2: "p2 ! h = p1 ! h \<or> (\<exists>sg \<in> set (sendq (ch w)). sg_g sg = h \<and> wakeable p1 sg \<and> p2 ! h = f' sg)" if "h < length (pcs w)" for h
    using wake_all_at [of f' h p1 "sendq (ch w)"] f that len by (simp add: p2_def)
  have "repositioned True (sels (recvq (ch w))) (sels (sendq (ch w))) h (pcs w ! h) (p2 ! h)" if h: "h < length (pcs w)" for h
  proof (cases "p2 ! h = p1 ! h")
    case eq: True
    show ?thesis
    proof (cases "p1 ! h = pcs w ! h")
      case False
      then obtain sg where sg: "sg \<in> set (recvq (ch w))" "sg_g sg = h" "wakeable (pcs w) sg" "p1 ! h = f sg" using at1 [OF h] by blast
      then show ?thesis using eq wakeable_at [OF I(3) sg(1,3)] by (auto simp: repositioned_def f_def recv_woken_def sels_in)
    qed (use eq in simp)
  next
    case False
    then obtain sg where sg: "sg \<in> set (sendq (ch w))" "sg_g sg = h" "wakeable p1 sg" "p2 ! h = f' sg" using at2 [OF h] by blast
    have p1: "p1 ! h = (if isSelect sg then SelParked False else SendParked)" using wakeable_at [OF ok1 sg(1,3)] sg(2) by simp
    then have "p1 ! h = pcs w ! h" using at1 [OF h] by (auto simp: f_def recv_woken_def split: if_splits)
    then show ?thesis using p1 sg by (auto simp: repositioned_def f'_def send_woken_def sels_in)
  qed
  moreover have "p2 ! sg_g x \<noteq> SelParked False" if "x \<in> set (sels (recvq (ch w))) \<union> set (sels (sendq (ch w)))" for x
  proof -
    have lt: "sg_g x < length (pcs w)" using that I(3,4) by (auto simp: sels_in q_ok_def)
    show ?thesis
    proof (cases "x \<in> set (sendq (ch w))")
      case True
      then show ?thesis using wake_all_sel [of f' x "sendq (ch w)" p1] f that lt len by (auto simp: p2_def sels_in)
    next
      case False
      then have "p1 ! sg_g x \<noteq> SelParked False" using wake_all_sel [of f x "recvq (ch w)" "pcs w"] f that lt by (auto simp: p1_def sels_in)
      then show ?thesis using at2 [OF lt] f(2) by metis
    qed
  qed
  ultimately have "eff_by (sels (recvq (ch w))) (sels (sendq (ch w))) g w ?w"
    using w len by (auto simp: eff_by_def sels_def nth_upd)
  then show ?thesis by (rule effI)
qed

lemma chan_op_eff:
  assumes "chan_op w g w'" "chan_inv w"
  shows "eff g w w'"
  using assms(1) by cases (use assms(2) in \<open>auto simp: nbsend_open_def nbsend_full_def nbrecv_empty_def nbrecv_open_def
    send_resumed_def recv_resumed_def intro: eff_goto chansend_eff chanrecv_eff closechan_eff\<close>)

end
