(* ===== verification/GoSelectInv.thy ===== *)
theory GoSelectInv
  imports GoSelectView
begin

text \<open>
  The invariant of goroutines in \<open>select\<close>s over many channels, kept by an operation on one of them;
  and the operation seen from the other channels.
\<close>

subsection \<open>One channel and the others\<close>

lemma view_simps [simp]: "ch (view a w) = chans w a" "pcs (view a w) = map (pc_view a) (gos w)" "accepted (view a w) = taken w a"
    "delivered (view a w) = given w a"
  by (simp_all add: view_def)

lemma put_view_simps [simp]: "chans (put_view a c w) = (chans w)(a := ch c)" "taken (put_view a c w) = (taken w)(a := accepted c)"
    "given (put_view a c w) = (given w)(a := delivered c)"
  by (simp_all add: put_view_def)

lemma set_go_simps [simp]: "chans (set_go g m w) = chans w" "taken (set_go g m w) = taken w" "given (set_go g m w) = given w"
    "gos (set_go g m w) = (gos w)[g := m]"
  by (simp_all add: set_go_def)

lemma put_view_gos: "length (pcs c) = length (gos w) \<Longrightarrow> length (gos (put_view a c w)) = length (gos w)"
    "length (pcs c) = length (gos w) \<Longrightarrow> h < length (gos w) \<Longrightarrow> gos (put_view a c w) ! h = put_pc a (gos w ! h) (pcs c ! h)"
  by (simp_all add: put_view_def)

lemma repositioned_view: "repositioned shut rp sp h (pc_view a m) p \<Longrightarrow> pc_view a (put_pc a m p) = p"
  by (cases m) (auto simp: repositioned_def put_pc_def split: if_splits)

lemma repositioned_other: "repositioned shut rp sp h (pc_view a m) p \<Longrightarrow> a \<noteq> b \<Longrightarrow>
    pc_view b (put_pc a m p) = pc_view b m \<or> pc_view b m = SelParked False \<and> pc_view b (put_pc a m p) = SelParked True"
  by (cases m) (auto simp: repositioned_def put_pc_def split: if_splits)

lemma effD:
  assumes "eff g (view a w) c"
  shows "length (pcs c) = length (gos w)" "closed (chans w a) \<Longrightarrow> closed (ch c)"
    "\<exists>rp sp. \<forall>h < length (gos w). h \<noteq> g \<longrightarrow> repositioned (closed (ch c)) rp sp h (pc_view a (gos w ! h)) (pcs c ! h)"
  using assms by (auto simp: eff_def eff_by_def)

lemma view_back:
  assumes "eff g (view a w) c" "g < length (gos w)" "pc_view a m = pcs c ! g"
  shows "view a (set_go g m (put_view a c w)) = c"
proof -
  have "map (pc_view a) (gos (set_go g m (put_view a c w))) = pcs c"
  proof (rule nth_equalityI)
    fix h
    assume h: "h < length (map (pc_view a) (gos (set_go g m (put_view a c w))))"
    then have "h < length (gos w)" using effD(1) [OF assms(1)] by (simp add: put_view_gos)
    then show "map (pc_view a) (gos (set_go g m (put_view a c w))) ! h = pcs c ! h"
      using effD(1,3) [OF assms(1)] assms(2,3) by (cases "h = g") (auto simp: put_view_gos repositioned_view)
  qed (use effD(1) [OF assms(1)] in \<open>simp add: put_view_gos\<close>)
  then show ?thesis by (simp add: view_def)
qed

lemma chan_steps_trans: "chan_steps w' w'' \<Longrightarrow> chan_steps w w' \<Longrightarrow> chan_steps w w''"
  by (induction rule: chan_steps.induct) (auto intro: chan_steps.intros)

lemma one_step: "chan_step w g w' \<Longrightarrow> chan_steps w w'"
  by (rule more_steps [OF no_step])

lemma chan_steps_inv: "chan_steps w w' \<Longrightarrow> chan_inv w \<Longrightarrow> chan_inv w'"
  by (induction rule: chan_steps.induct) (auto intro: chan_step_inv)

text \<open>Goroutines that are won by another channel, or go on to something else, one after the other.\<close>

definition aside :: "'v chan_pc \<Rightarrow> 'v chan_pc \<Rightarrow> bool" where
  "aside p p' \<longleftrightarrow> p' = p \<or> p = SelParked False \<and> p' = SelParked True \<or> (\<exists>r. p = ChRet r) \<and> p' = ChRet NoCall"

lemma aside_steps:
  assumes "length ps = length (pcs w)" "\<And>h. h < length ps \<Longrightarrow> aside (pcs w ! h) (ps ! h)"
  shows "chan_steps w (w\<lparr>pcs := ps\<rparr>)"
proof -
  have "chan_steps w (w\<lparr>pcs := take k ps @ drop k (pcs w)\<rparr>)" if "k \<le> length ps" for k
    using that
  proof (induction k)
    case 0
    then show ?case by (simp add: no_step)
  next
    case (Suc k)
    let ?w = "w\<lparr>pcs := take k ps @ drop k (pcs w)\<rparr>"
    have k: "k < length ps" "pcs ?w ! k = pcs w ! k" "k < length (pcs ?w)" using Suc.prems assms(1) by (simp_all add: nth_append)
    have "take (Suc k) ps @ drop (Suc k) (pcs w) = (pcs ?w)[k := ps ! k]"
      using k(1) assms(1) by (simp add: take_Suc_conv_app_nth list_update_append Cons_nth_drop_Suc [symmetric])
    then have to: "w\<lparr>pcs := take (Suc k) ps @ drop (Suc k) (pcs w)\<rparr> = goto k (ps ! k) ?w" by (simp add: goto_def)
    from assms(2) [OF k(1)] consider (same) "ps ! k = pcs w ! k" | (won) "pcs w ! k = SelParked False" "ps ! k = SelParked True" |
      (on) r where "pcs w ! k = ChRet r" "ps ! k = ChRet NoCall" by (auto simp: aside_def)
    then have "chan_steps ?w (goto k (ps ! k) ?w)"
    proof cases
      case same
      then have "goto k (ps ! k) ?w = ?w" using k(2) by (simp add: goto_def list_update_same_conv [OF k(3)] del: chan_world.simps)
          (metis chan_world.surjective chan_world.update_convs(2) k(2) list_update_id)
      then show ?thesis by (simp add: no_step)
    next
      case won
      have "chan_step ?w k (goto k (SelParked True) ?w)" by (rule c_elsewhere [OF k(3)]) (use k(2) won in simp)
      then show ?thesis using won one_step by simp
    next
      case on
      have "chan_step ?w k (goto k (ChRet NoCall) ?w)" by (rule c_other [OF k(3)]) (use k(2) on in simp)
      then show ?thesis using on one_step by simp
    qed
    then show ?case using Suc to chan_steps_trans by force
  qed
  from this [of "length ps"] show ?thesis using assms(1) by simp
qed

lemma view_other:
  assumes e: "eff g (view a w) c" and g: "g < length (gos w)" and ab: "a \<noteq> b"
    and m: "m = gos w ! g \<or> pc_view b m = ChRet NoCall \<and> (\<exists>r. pc_view b (gos w ! g) = ChRet r)"
  shows "chan_steps (view b w) (view b (set_go g m (put_view a c w)))"
proof -
  let ?w = "set_go g m (put_view a c w)"
  have "view b ?w = (view b w)\<lparr>pcs := pcs (view b ?w)\<rparr>" using ab by (simp add: view_def)
  moreover have "chan_steps (view b w) ((view b w)\<lparr>pcs := pcs (view b ?w)\<rparr>)"
  proof (rule aside_steps)
    show l: "length (pcs (view b ?w)) = length (pcs (view b w))" using effD(1) [OF e] by (simp add: put_view_gos)
    fix h
    assume "h < length (pcs (view b ?w))"
    then have h: "h < length (gos w)" using l by simp
    show "aside (pcs (view b w) ! h) (pcs (view b ?w) ! h)"
    proof (cases "h = g")
      case True
      then show ?thesis using m g effD(1) [OF e] by (auto simp: aside_def put_view_gos)
    next
      case False
      obtain rp sp where "repositioned (closed (ch c)) rp sp h (pc_view a (gos w ! h)) (pcs c ! h)" using effD(3) [OF e] h False by blast
      then show ?thesis using repositioned_other [OF _ ab] h False effD(1) [OF e] by (fastforce simp: aside_def put_view_gos)
    qed
  qed
  ultimately show ?thesis by simp
qed

subsection \<open>The invariant\<close>

definition frame_ok :: "'v sel_frame \<Rightarrow> bool" where
  "frame_ok f \<longleftrightarrow>
     mset (s_poll f) = mset [0..<length (s_cases f)] \<and> mset (s_lock f) = mset [0..<length (s_cases f)] \<and>
     (\<forall>cas \<in> set (s_cases f). (sc_c cas = 0 \<longleftrightarrow> sc_kind cas = caseNil \<or> sc_kind cas = caseDefault) \<and>
        (sc_kind cas = caseSend \<longrightarrow> sc_elem cas \<noteq> None))"

definition no_default :: "'v sel_frame \<Rightarrow> bool" where
  "no_default f \<longleftrightarrow> (\<forall>cas \<in> set (s_cases f). sc_kind cas \<noteq> caseDefault)"

text \<open>Case \<open>k\<close> is on the channel at \<open>a\<close>, of that kind.\<close>

definition on_chan :: "'v sel_frame \<Rightarrow> nat \<Rightarrow> case_kind \<Rightarrow> nat \<Rightarrow> bool" where
  "on_chan f a kd k \<longleftrightarrow> k < length (s_cases f) \<and> sc_c (s_cases f ! k) = a \<and> sc_kind (s_cases f ! k) = kd"

text \<open>The goroutine an entry of a queue is of: it is parked in a \<open>select\<close> with that case, or woken by another.\<close>

fun owns :: "'v sel_pc \<Rightarrow> nat \<Rightarrow> case_kind \<Rightarrow> nat \<Rightarrow> bool" where
  "owns (SelWait f) a kd k = on_chan f a kd k"
| "owns (SelWake b i x f) a kd k = (on_chan f a kd k \<and> i \<noteq> Some k)"
| "owns m a kd k = False"

definition sel_key :: "'v sudog \<Rightarrow> nat \<times> nat" where
  "sel_key sg = (sg_g sg, sg_case sg)"

definition entries_ok :: "'v sel_pc list \<Rightarrow> nat \<Rightarrow> case_kind \<Rightarrow> 'v sudog list \<Rightarrow> bool" where
  "entries_ok ms a kd q \<longleftrightarrow>
     (\<forall>sg \<in> set (sels q). sg_g sg < length ms \<and> owns (ms ! sg_g sg) a kd (sg_case sg)) \<and> distinct (map sel_key (sels q))"

text \<open>A parked goroutine is in the queues of all its cases; a woken one has the case that was served, or a closed channel.\<close>

fun go_ok :: "(nat \<Rightarrow> 'v hchan) \<Rightarrow> nat \<Rightarrow> 'v sel_pc \<Rightarrow> bool" where
  "go_ok cs g (SelWait f) \<longleftrightarrow> frame_ok f \<and> no_default f \<and>
     (\<forall>k a. (on_chan f a caseRecv k \<longrightarrow> sel_sudog g None k \<in> set (recvq (cs a))) \<and>
            (on_chan f a caseSend k \<longrightarrow> sel_sudog g (sc_elem (s_cases f ! k)) k \<in> set (sendq (cs a))))"
| "go_ok cs g (SelWake b i x f) \<longleftrightarrow> frame_ok f \<and> no_default f \<and> b \<noteq> 0 \<and>
     (case i of Some k \<Rightarrow> on_chan f b caseRecv k \<and> x \<noteq> None \<or> on_chan f b caseSend k \<and> x = None
      | None \<Rightarrow> x = None \<and> closed (cs b) \<and> (\<exists>k kd. on_chan f b kd k))"
| "go_ok cs g m \<longleftrightarrow> True"

definition sel_inv :: "'v sel_world \<Rightarrow> bool" where
  "sel_inv w \<longleftrightarrow>
     (\<forall>a. a \<noteq> 0 \<longrightarrow> chan_inv (view a w) \<and> entries_ok (gos w) a caseRecv (recvq (chans w a)) \<and>
        entries_ok (gos w) a caseSend (sendq (chans w a))) \<and>
     (\<forall>g < length (gos w). go_ok (chans w) g (gos w ! g))"

lemma sel_invD:
  assumes "sel_inv w"
  shows "a \<noteq> 0 \<Longrightarrow> chan_inv (view a w)" "a \<noteq> 0 \<Longrightarrow> entries_ok (gos w) a caseRecv (recvq (chans w a))"
    "a \<noteq> 0 \<Longrightarrow> entries_ok (gos w) a caseSend (sendq (chans w a))" "g < length (gos w) \<Longrightarrow> go_ok (chans w) g (gos w ! g)"
  using assms by (auto simp: sel_inv_def)

text \<open>Not in a \<open>select\<close>.\<close>

fun unsel :: "'v sel_pc \<Rightarrow> bool" where
  "unsel (SelWait f) = False"
| "unsel (SelWake b i x f) = False"
| "unsel m = True"

lemma unsel_simps: "unsel m \<Longrightarrow> \<not> owns m a kd k" "unsel m \<Longrightarrow> go_ok cs g m"
  by (cases m; simp)+

lemma put_pc_cases:
  assumes "repositioned shut rp sp h (pc_view a m) p"
  shows "put_pc a m p = m \<or> (unsel m \<and> unsel (put_pc a m p)) \<or>
    (\<exists>f i x. m = SelWait f \<and> put_pc a m p = SelWake a i x f \<and>
      ((\<exists>sg \<in> set rp. sg_g sg = h \<and> i = Some (sg_case sg) \<and> x \<noteq> None) \<or> (\<exists>sg \<in> set sp. sg_g sg = h \<and> i = Some (sg_case sg) \<and> x = None) \<or>
       shut \<and> i = None \<and> x = None \<and> (\<exists>sg \<in> set rp \<union> set sp. sg_g sg = h)))"
  using assms by (cases m) (auto simp: repositioned_def put_pc_def split: if_splits)

text \<open>A step on the channel at \<open>a\<close> by a goroutine that is not in a \<open>select\<close>.\<close>

lemma sel_inv_put:
  assumes i: "sel_inv w" and a: "a \<noteq> 0" and e: "eff g (view a w) c" and c: "chan_inv c" and g: "g < length (gos w)"
    and u: "unsel (gos w ! g)" "unsel m" and m: "pc_view a m = pcs c ! g"
    and o: "\<And>b. b \<noteq> a \<Longrightarrow> m = gos w ! g \<or> pc_view b m = ChRet NoCall \<and> (\<exists>r. pc_view b (gos w ! g) = ChRet r)"
  shows "sel_inv (set_go g m (put_view a c w))" "b \<noteq> a \<Longrightarrow> chan_steps (view b w) (view b (set_go g m (put_view a c w)))"
proof -
  let ?w = "set_go g m (put_view a c w)"
  obtain rp sp where eb: "eff_by rp sp g (view a w) c" using e by (auto simp: eff_def)
  have E: "sels (recvq (chans w a)) = rp @ sels (recvq (ch c))" "sels (sendq (chans w a)) = sp @ sels (sendq (ch c))"
    "\<And>sg. sg \<in> set rp \<union> set sp \<Longrightarrow> pcs c ! sg_g sg \<noteq> SelParked False"
    "\<And>h. h < length (gos w) \<Longrightarrow> h \<noteq> g \<Longrightarrow> repositioned (closed (ch c)) rp sp h (pc_view a (gos w ! h)) (pcs c ! h)"
    using eb by (auto simp: eff_by_def)
  note len = effD(1) [OF e]
  have L: "length (gos ?w) = length (gos w)" using len by (simp add: put_view_gos)
  have at: "gos ?w ! h = (if h = g then m else put_pc a (gos w ! h) (pcs c ! h))" if "h < length (gos w)" for h
    using that g len by (simp add: put_view_gos)
  have va: "view a ?w = c" by (rule view_back [OF e g m])
  show oth: "chan_steps (view b w) (view b ?w)" if "b \<noteq> a" for b
    using view_other [OF e g _ o] that by auto
  have ci: "chan_inv (view b ?w)" if "b \<noteq> 0" for b
    using va c chan_steps_inv [OF oth] sel_invD(1) [OF i that] by (cases "b = a") auto
  have R: "\<And>sg. sg \<in> set (sels (recvq (chans w a))) \<Longrightarrow> sg_g sg < length (gos w) \<and> owns (gos w ! sg_g sg) a caseRecv (sg_case sg)"
    "distinct (map sel_key (sels (recvq (chans w a))))" using sel_invD(2) [OF i a] by (auto simp: entries_ok_def)
  have S: "\<And>sg. sg \<in> set (sels (sendq (chans w a))) \<Longrightarrow> sg_g sg < length (gos w) \<and> owns (gos w ! sg_g sg) a caseSend (sg_case sg)"
    "distinct (map sel_key (sels (sendq (chans w a))))" using sel_invD(3) [OF i a] by (auto simp: entries_ok_def)
  have rp: "\<And>sg. sg \<in> set rp \<Longrightarrow> owns (gos w ! sg_g sg) a caseRecv (sg_case sg)" using R(1) E(1) by auto
  have sp: "\<And>sg. sg \<in> set sp \<Longrightarrow> owns (gos w ! sg_g sg) a caseSend (sg_case sg)" using S(1) E(2) by auto
  text \<open>Owners stay owners, of what is left.\<close>
  have own: "owns (gos ?w ! h) b kd k"
    if h: "h < length (gos w)" "owns (gos w ! h) b kd k"
      and k: "b = a \<longrightarrow> (kd = caseRecv \<longrightarrow> (\<forall>sg \<in> set rp. sg_g sg = h \<longrightarrow> sg_case sg \<noteq> k)) \<and> (kd = caseSend \<longrightarrow> (\<forall>sg \<in> set sp. sg_g sg = h \<longrightarrow> sg_case sg \<noteq> k))"
    for h b kd k
  proof -
    have hg: "h \<noteq> g" using h(2) u(1) unsel_simps(1) by auto
    from put_pc_cases [OF E(4) [OF h(1) hg]] consider "put_pc a (gos w ! h) (pcs c ! h) = gos w ! h" | "unsel (gos w ! h)" |
      f i x where "gos w ! h = SelWait f" "put_pc a (gos w ! h) (pcs c ! h) = SelWake a i x f"
      "(\<exists>sg \<in> set rp. sg_g sg = h \<and> i = Some (sg_case sg)) \<or> (\<exists>sg \<in> set sp. sg_g sg = h \<and> i = Some (sg_case sg)) \<or> i = None" by blast
    then show ?thesis
    proof cases
      case 1
      then show ?thesis using h at [OF h(1)] hg by simp
    next
      case 2
      then show ?thesis using h(2) unsel_simps(1) by blast
    next
      case (3 f i x)
      have f: "on_chan f b kd k" using 3(1) h(2) by simp
      have "i \<noteq> Some k"
      proof
        assume "i = Some k"
        then consider sg where "sg \<in> set rp" "sg_g sg = h" "sg_case sg = k" | sg where "sg \<in> set sp" "sg_g sg = h" "sg_case sg = k"
          using 3(3) by auto
        then show False
        proof cases
          case (1 sg)
          then have "on_chan f a caseRecv k" using rp [OF 1(1)] 3(1) by simp
          then show False using f k 1 by (auto simp: on_chan_def)
        next
          case (2 sg)
          then have "on_chan f a caseSend k" using sp [OF 2(1)] 3(1) by simp
          then show False using f k 2 by (auto simp: on_chan_def)
        qed
      qed
      then show ?thesis using 3 h at [OF h(1)] hg by simp
    qed
  qed
  have ent: "entries_ok (gos ?w) b caseRecv (recvq (chans ?w b)) \<and> entries_ok (gos ?w) b caseSend (sendq (chans ?w b))" if b: "b \<noteq> 0" for b
  proof (cases "b = a")
    case True
    have "sg_g sg < length (gos ?w) \<and> owns (gos ?w ! sg_g sg) a caseRecv (sg_case sg)" if sg: "sg \<in> set (sels (recvq (ch c)))" for sg
    proof -
      have in_q: "sg \<in> set (sels (recvq (chans w a)))" using E(1) sg by simp
      have "sel_key s \<noteq> sel_key sg" if "s \<in> set rp" for s using R(2) E(1) sg that by force
      then have "\<forall>s \<in> set rp. sg_g s = sg_g sg \<longrightarrow> sg_case s \<noteq> sg_case sg" by (auto simp: sel_key_def)
      then show ?thesis using R(1) [OF in_q] own [of "sg_g sg" a caseRecv "sg_case sg"] L by simp
    qed
    moreover have "sg_g sg < length (gos ?w) \<and> owns (gos ?w ! sg_g sg) a caseSend (sg_case sg)" if sg: "sg \<in> set (sels (sendq (ch c)))" for sg
    proof -
      have in_q: "sg \<in> set (sels (sendq (chans w a)))" using E(2) sg by simp
      have "sel_key s \<noteq> sel_key sg" if "s \<in> set sp" for s using S(2) E(2) sg that by force
      then have "\<forall>s \<in> set sp. sg_g s = sg_g sg \<longrightarrow> sg_case s \<noteq> sg_case sg" by (auto simp: sel_key_def)
      then show ?thesis using S(1) [OF in_q] own [of "sg_g sg" a caseSend "sg_case sg"] L by simp
    qed
    moreover have "distinct (map sel_key (sels (recvq (ch c))))" "distinct (map sel_key (sels (sendq (ch c))))"
      using R(2) S(2) E(1,2) by simp_all
    ultimately show ?thesis using True by (simp add: entries_ok_def)
  next
    case False
    then show ?thesis using sel_invD(2,3) [OF i b] L own by (auto simp: entries_ok_def)
  qed
  have "go_ok (chans ?w) h (gos ?w ! h)" if h: "h < length (gos w)" for h
  proof (cases "h = g")
    case True
    then show ?thesis using at [OF h] u(2) unsel_simps(2) by auto
  next
    case hg: False
    note gh = sel_invD(4) [OF i h]
    from put_pc_cases [OF E(4) [OF h hg]] consider (same) "put_pc a (gos w ! h) (pcs c ! h) = gos w ! h" | (un) "unsel (put_pc a (gos w ! h) (pcs c ! h))" |
      (wake) f i x where "gos w ! h = SelWait f" "put_pc a (gos w ! h) (pcs c ! h) = SelWake a i x f"
      "(\<exists>sg \<in> set rp. sg_g sg = h \<and> i = Some (sg_case sg) \<and> x \<noteq> None) \<or> (\<exists>sg \<in> set sp. sg_g sg = h \<and> i = Some (sg_case sg) \<and> x = None) \<or>
       closed (ch c) \<and> i = None \<and> x = None \<and> (\<exists>sg \<in> set rp \<union> set sp. sg_g sg = h)" by blast
    then show ?thesis
    proof cases
      case un
      then show ?thesis using at [OF h] hg unsel_simps(2) by simp
    next
      case wake
      have "frame_ok f" "no_default f" using gh wake(1) by auto
      then show ?thesis using wake a at [OF h] hg rp sp by (fastforce split: option.splits)
    next
      case same
      show ?thesis
      proof (cases "gos w ! h")
        case (SelWait f)
        have pc: "pcs c ! h = SelParked False" using repositioned_view [OF E(4) [OF h hg]] same SelWait by simp
        have keep: "x \<in> set (recvq (ch c))" if "x \<in> set (recvq (chans w a))" "isSelect x" "sg_g x = h" for x
          using that E(1,3) pc sels_in [of x] by (metis UnI1 Un_iff set_append)
        have keep': "x \<in> set (sendq (ch c))" if "x \<in> set (sendq (chans w a))" "isSelect x" "sg_g x = h" for x
          using that E(2,3) pc sels_in [of x] by (metis UnI2 Un_iff set_append)
        show ?thesis
          using gh SelWait same at [OF h] hg keep keep' by (auto simp: sel_sudog_def)
      next
        case (SelWake b i x f)
        then show ?thesis using gh same at [OF h] hg effD(2) [OF e] by (auto split: option.splits)
      qed (use same at [OF h] hg in simp_all)
    qed
  qed
  then show "sel_inv ?w" using ci ent L by (simp add: sel_inv_def)
qed

end
