(* ===== verification/GoSelectPass.thy ===== *)
theory GoSelectPass
  imports GoSelectInv
begin

text \<open>
  The three passes of \<open>selectgo\<close>: each is, for every channel, some steps of that channel's world, and
  keeps the invariant.
\<close>

subsection \<open>One case\<close>

lemma sel_recv_sim:
  assumes i: "chan_inv w" and r: "sel_recv g w = (ready, w')"
  shows "ready \<Longrightarrow> w' = chanrecv g True w" "\<not> ready \<Longrightarrow> \<not> recv_ready w \<and> w' = look_recv w \<and> sendq (ch w') = []"
proof -
  note I = chan_invD [OF i]
  obtain s q where d: "dequeue (pcs w) (sendq (ch w)) = (s, q)" by fastforce
  have "(ready \<longrightarrow> w' = chanrecv g True w) \<and> (\<not> ready \<longrightarrow> \<not> recv_ready w \<and> w' = look_recv w \<and> sendq (ch w') = [])"
  proof (cases s)
    case (Some sg)
    then have "\<not> closed (ch w)" using I(9) deq_parts(3) [of "pcs w" "sendq (ch w)" sg q] d by auto
    then show ?thesis using r d Some by (auto simp: sel_recv_def chanrecv_def Let_def split: prod.splits)
  next
    case None
    have q: "q = []" "\<not> waits (pcs w) (sendq (ch w))" using dequeue_None d None by auto
    show ?thesis
    proof (cases "0 < qcount (ch w)")
      case True
      then show ?thesis using r d None by (auto simp: sel_recv_def chanrecv_def Let_def split: prod.splits)
    next
      case False
      show ?thesis
      proof (cases "closed (ch w)")
        case True
        then have "w\<lparr>ch := (ch w)\<lparr>sendq := []\<rparr>\<rparr> = w" using I(9) by simp
        then show ?thesis using r d None False True q by (auto simp: sel_recv_def chanrecv_def Let_def)
      next
        case op: False
        then show ?thesis using r d None False q
          by (auto simp: sel_recv_def look_recv_def recv_ready_def waits_def Let_def)
      qed
    qed
  qed
  then show "ready \<Longrightarrow> w' = chanrecv g True w" "\<not> ready \<Longrightarrow> \<not> recv_ready w \<and> w' = look_recv w \<and> sendq (ch w') = []" by blast+
qed

lemma sel_send_sim:
  assumes r: "sel_send g v w = (ready, w')" and i: "chan_inv w"
  shows "ready \<Longrightarrow> w' = chansend g v True w" "\<not> ready \<Longrightarrow> \<not> send_ready w \<and> w' = look_send w \<and> recvq (ch w') = []"
proof -
  obtain s q where d: "dequeue (pcs w) (recvq (ch w)) = (s, q)" by fastforce
  have "(ready \<longrightarrow> w' = chansend g v True w) \<and> (\<not> ready \<longrightarrow> \<not> send_ready w \<and> w' = look_send w \<and> recvq (ch w') = [])"
  proof (cases s)
    case (Some sg)
    then show ?thesis using r d by (auto simp: sel_send_def chansend_def Let_def split: if_splits)
  next
    case None
    have "q = []" "\<not> waits (pcs w) (recvq (ch w))" using dequeue_None d None by auto
    then show ?thesis using r d None
      by (auto simp: sel_send_def chansend_def look_send_def send_ready_def waits_def Let_def split: if_splits)
  qed
  then show "ready \<Longrightarrow> w' = chansend g v True w" "\<not> ready \<Longrightarrow> \<not> send_ready w \<and> w' = look_send w \<and> recvq (ch w') = []" by blast+
qed

definition is_op :: "'v scase \<Rightarrow> bool" where
  "is_op cas \<longleftrightarrow> sc_kind cas = caseRecv \<or> sc_kind cas = caseSend"

text \<open>The case cannot go on, and no stale waiter is in its way.\<close>

definition unready_case :: "'v sel_world \<Rightarrow> 'v scase \<Rightarrow> bool" where
  "unready_case w cas \<longleftrightarrow>
     (sc_kind cas = caseRecv \<longrightarrow> \<not> recv_ready (view (sc_c cas) w) \<and> sendq (chans w (sc_c cas)) = []) \<and>
     (sc_kind cas = caseSend \<longrightarrow> \<not> send_ready (view (sc_c cas) w) \<and> recvq (chans w (sc_c cas)) = [])"

definition case_ready :: "'v sel_world \<Rightarrow> 'v scase \<Rightarrow> bool" where
  "case_ready w cas \<longleftrightarrow>
     sc_kind cas = caseRecv \<and> recv_ready (view (sc_c cas) w) \<or> sc_kind cas = caseSend \<and> send_ready (view (sc_c cas) w)"

lemma unready_not_ready: "unready_case w cas \<Longrightarrow> \<not> case_ready w cas"
  by (auto simp: unready_case_def case_ready_def)

lemma at_rest_view: "at_rest m \<Longrightarrow> \<exists>r. pc_view a m = ChRet r" "at_rest m \<Longrightarrow> unsel m"
  by (cases m rule: at_rest.cases; auto)+

lemma off_ret [simp]: "off (ChRet r)"
  by simp

lemma look_eff:
  assumes "chan_inv w"
  shows "\<not> recv_ready w \<Longrightarrow> pcs w ! g \<noteq> SelParked False \<Longrightarrow> eff g w (look_recv w)"
    "\<not> send_ready w \<Longrightarrow> pcs w ! g \<noteq> SelParked False \<Longrightarrow> eff g w (look_send w)"
proof -
  show "eff g w (look_recv w)" if "\<not> recv_ready w" "pcs w ! g \<noteq> SelParked False"
    using unready(1) [OF assms that(1)] that(2)
    by (intro eff_drop [OF assms, where p = "pcs w ! g"]) (simp_all add: look_recv_def dequeue_unready)
  show "eff g w (look_send w)" if "\<not> send_ready w" "pcs w ! g \<noteq> SelParked False"
    using unready(2) [OF assms that(1)] that(2)
    by (intro eff_drop [OF assms, where p = "pcs w ! g"]) (simp_all add: look_send_def dequeue_unready)
qed

lemma put_view_idle: "pcs c = pcs (view a w) \<Longrightarrow> gos (put_view a c w) = gos w"
  by (auto simp: put_view_def put_pc_def list_eq_iff_nth_eq)

lemma set_go_idle: "gos w ! g = m \<Longrightarrow> set_go g m w = w"
  by (auto simp: set_go_def)

lemma look_pcs [simp]: "pcs (look_recv w) = pcs w" "pcs (look_send w) = pcs w"
  by (simp_all add: look_recv_def look_send_def)

lemma view_look: "pcs c = pcs (view a w) \<Longrightarrow> accepted c = taken w a \<Longrightarrow> delivered c = given w a \<Longrightarrow> b \<noteq> a \<Longrightarrow> view b (put_view a c w) = view b w"
  using put_view_idle [of c a w] by (simp add: view_def)

lemma view_look_same: "pcs c = pcs (view a w) \<Longrightarrow> view a (put_view a c w) = c"
  using put_view_idle [of c a w] by (simp add: view_def)

text \<open>Looking at a case that is not ready makes no other ready, nor stops it from being.\<close>

lemma look_ready:
  assumes "c = look_recv (view a w) \<and> \<not> recv_ready (view a w) \<or> c = look_send (view a w) \<and> \<not> send_ready (view a w)"
  shows "case_ready (put_view a c w) cas = case_ready w cas"
proof (cases "sc_c cas = a")
  case True
  have "pcs c = pcs (view a w)" using assms by auto
  then have "view a (put_view a c w) = c" by (rule view_look_same)
  moreover have "recv_ready (look_recv v) = recv_ready v" "send_ready (look_recv v) = send_ready v" if "\<not> recv_ready v" for v :: "'a chan_world"
    using that by (auto simp: look_recv_def recv_ready_def send_ready_def dequeue_unready waits_def)
  moreover have "recv_ready (look_send v) = recv_ready v" "send_ready (look_send v) = send_ready v" if "\<not> send_ready v" for v :: "'a chan_world"
    using that by (auto simp: look_send_def recv_ready_def send_ready_def dequeue_unready waits_def)
  ultimately show ?thesis using assms True by (auto simp: case_ready_def)
next
  case False
  have "view (sc_c cas) (put_view a c w) = view (sc_c cas) w"
    by (rule view_look) (use assms False in \<open>auto simp: look_recv_def look_send_def\<close>)
  then show ?thesis by (simp add: case_ready_def)
qed

lemma look_keeps:
  assumes "c = look_recv (view a w) \<or> c = look_send (view a w)" "unready_case w cas"
  shows "unready_case (put_view a c w) cas"
proof (cases "sc_c cas = a")
  case True
  have "pcs c = pcs (view a w)" using assms(1) by auto
  then have v: "view a (put_view a c w) = c" by (rule view_look_same)
  then have "chans (put_view a c w) a = ch c" by simp
  then show ?thesis using assms True v
    by (auto simp: unready_case_def look_recv_def look_send_def recv_ready_def send_ready_def)
next
  case False
  have "view (sc_c cas) (put_view a c w) = view (sc_c cas) w"
    by (rule view_look) (use assms(1) False in \<open>auto simp: look_recv_def look_send_def\<close>)
  then show ?thesis using assms(2) False by (simp add: unready_case_def)
qed

lemma try_unready:
  assumes i: "sel_inv w" and a: "sc_c cas \<noteq> 0" and op: "is_op cas" and g: "g < length (gos w)" "at_rest (gos w ! g)"
    and t: "sel_try g cas (view (sc_c cas) w) = (False, c)"
  shows "sel_inv (put_view (sc_c cas) c w)" "gos (put_view (sc_c cas) c w) = gos w" "unready_case (put_view (sc_c cas) c w) cas"
    "c = look_recv (view (sc_c cas) w) \<and> \<not> recv_ready (view (sc_c cas) w) \<or> c = look_send (view (sc_c cas) w) \<and> \<not> send_ready (view (sc_c cas) w)"
    "b \<noteq> 0 \<Longrightarrow> chan_steps (view b w) (view b (put_view (sc_c cas) c w))"
proof -
  let ?a = "sc_c cas" and ?v = "view (sc_c cas) w"
  have ci: "chan_inv ?v" by (rule sel_invD(1) [OF i a])
  have np: "pcs ?v ! g \<noteq> SelParked False" using at_rest_view(1) [OF g(2), of ?a] g(1) by auto
  have c: "sc_kind cas = caseRecv \<and> \<not> recv_ready ?v \<and> c = look_recv ?v \<and> sendq (ch c) = [] \<or>
    sc_kind cas = caseSend \<and> \<not> send_ready ?v \<and> c = look_send ?v \<and> recvq (ch c) = []"
    using sel_recv_sim(2) [OF ci, of g False c] sel_send_sim(2) [OF _ ci, of g "the (sc_elem cas)" False c] t op
    by (auto simp: sel_try_def is_op_def)
  then show look: "c = look_recv ?v \<and> \<not> recv_ready ?v \<or> c = look_send ?v \<and> \<not> send_ready ?v" by blast
  then have pcs: "pcs c = pcs ?v" by auto
  show gos: "gos (put_view ?a c w) = gos w" by (rule put_view_idle [OF pcs])
  have eff: "eff g ?v c" using c look_eff [OF ci _ np] by auto
  have cc: "chan_inv c" using c inv_look [OF ci] by auto
  have st: "chan_step ?v g c" using c by (auto intro: c_look_recv c_look_send)
  have w: "set_go g (gos w ! g) (put_view ?a c w) = put_view ?a c w" by (rule set_go_idle) (simp add: gos)
  have pv: "pc_view ?a (gos w ! g) = pcs c ! g" using pcs g(1) by simp
  have u: "unsel (gos w ! g)" using at_rest_view(2) [OF g(2)] .
  show "sel_inv (put_view ?a c w)"
    using sel_inv_put(1) [OF i a eff cc g(1) u u pv] w by simp
  show "chan_steps (view b w) (view b (put_view ?a c w))" if "b \<noteq> 0"
    using view_look_same [OF pcs] view_look [OF pcs, of b] look one_step [OF st]
    by (cases "b = ?a") (auto simp: look_recv_def look_send_def no_step)
  have v: "view ?a (put_view ?a c w) = c" by (rule view_look_same [OF pcs])
  then have "chans (put_view ?a c w) ?a = ch c" by simp
  then show "unready_case (put_view ?a c w) cas" using c v
    by (auto simp: unready_case_def look_recv_def look_send_def recv_ready_def send_ready_def)
qed

text \<open>A case that is ready is done as \<open>chanrecv\<close> and \<open>chansend\<close> do it.\<close>

lemma chansend_at:
  "chan_inv w \<Longrightarrow> off (pcs w ! g) \<Longrightarrow> g < length (pcs w) \<Longrightarrow> sel_send g v w = (True, w') \<Longrightarrow>
   pcs w' ! g = ChRet Sent \<or> closed (ch w) \<and> pcs w' ! g = ChPanic SendOnClosed"
  by (auto simp: sel_send_def send_def Let_def split: if_splits prod.splits option.splits)

lemma chanrecv_at:
  "chan_inv w \<Longrightarrow> g < length (pcs w) \<Longrightarrow> sel_recv g w = (True, w') \<Longrightarrow>
   (\<exists>v. pcs w' ! g = ChRet (Got v)) \<or> pcs w' ! g = ChRet GotZero"
  by (auto simp: sel_recv_def Let_def recv_def split: if_splits prod.splits option.splits)

text \<open>What a goroutine that did the case \<open>i\<close> has.\<close>

definition done_case :: "'v scase list \<Rightarrow> nat \<Rightarrow> 'v sel_pc \<Rightarrow> bool" where
  "done_case sc i m \<longleftrightarrow>
     (sc_kind (sc ! i) = caseRecv \<and> ((\<exists>v. m = SelRet (sc_c (sc ! i)) i (Got v)) \<or> m = SelRet (sc_c (sc ! i)) i GotZero)) \<or>
     (sc_kind (sc ! i) = caseSend \<and> (m = SelRet (sc_c (sc ! i)) i Sent \<or> m = OnChan (sc_c (sc ! i)) (ChPanic SendOnClosed)))"

lemma sel_try_ready:
  assumes "is_op cas" "sel_try g cas (view (sc_c cas) w) = (True, c)"
  shows "case_ready w cas"
  using assms dequeue_unready [of "pcs (view (sc_c cas) w)" "sendq (chans w (sc_c cas))"]
    dequeue_unready [of "pcs (view (sc_c cas) w)" "recvq (chans w (sc_c cas))"]
  by (auto simp: is_op_def sel_try_def case_ready_def sel_recv_def sel_send_def recv_ready_def send_ready_def waits_def Let_def split: if_splits)

lemma try_ready:
  fixes sc :: "'v scase list"
  assumes i: "sel_inv w" and a: "sc_c (sc ! k) \<noteq> 0" and op: "is_op (sc ! k)" and g: "g < length (gos w)" "at_rest (gos w ! g)"
    and t: "sel_try g (sc ! k) (view (sc_c (sc ! k)) w) = (True, c)"
  shows "sel_inv (set_go g (sel_ret (sc_c (sc ! k)) k (pcs c ! g)) (put_view (sc_c (sc ! k)) c w))"
    "done_case sc k (sel_ret (sc_c (sc ! k)) k (pcs c ! g))"
    "b \<noteq> 0 \<Longrightarrow> chan_steps (view b w) (view b (set_go g (sel_ret (sc_c (sc ! k)) k (pcs c ! g)) (put_view (sc_c (sc ! k)) c w)))"
    "length (gos (set_go g (sel_ret (sc_c (sc ! k)) k (pcs c ! g)) (put_view (sc_c (sc ! k)) c w))) = length (gos w)"
proof -
  let ?a = "sc_c (sc ! k)" and ?v = "view (sc_c (sc ! k)) w" and ?m = "sel_ret (sc_c (sc ! k)) k (pcs c ! g)"
  have ci: "chan_inv ?v" by (rule sel_invD(1) [OF i a])
  obtain r where r: "pc_view ?a (gos w ! g) = ChRet r" using at_rest_view(1) [OF g(2)] by blast
  have g': "g < length (pcs ?v)" "pcs ?v ! g = ChRet r" using g(1) r by simp_all
  have off: "off (pcs ?v ! g)" using g'(2) by simp
  consider (recv) "sc_kind (sc ! k) = caseRecv" "sel_recv g ?v = (True, c)" |
    (send) "sc_kind (sc ! k) = caseSend" "sel_send g (the (sc_elem (sc ! k))) ?v = (True, c)"
    using t op by (auto simp: sel_try_def is_op_def)
  then have both: "chan_op ?v g c \<and> (sc_kind (sc ! k) = caseRecv \<and> ((\<exists>v. pcs c ! g = ChRet (Got v)) \<or> pcs c ! g = ChRet GotZero) \<or>
      sc_kind (sc ! k) = caseSend \<and> (pcs c ! g = ChRet Sent \<or> pcs c ! g = ChPanic SendOnClosed))"
  proof cases
    case recv
    then show ?thesis using sel_recv_sim(1) [OF ci recv(2)] c_recv [OF g'] chanrecv_at [OF ci g'(1) recv(2)] by simp
  next
    case send
    then show ?thesis using sel_send_sim(1) [OF send(2) ci] c_send [OF g'] chansend_at [OF ci off g'(1) send(2)] by auto
  qed
  then have opn: "chan_op ?v g c" by blast
  from both have res: "sc_kind (sc ! k) = caseRecv \<and> ((\<exists>v. pcs c ! g = ChRet (Got v)) \<or> pcs c ! g = ChRet GotZero) \<or>
      sc_kind (sc ! k) = caseSend \<and> (pcs c ! g = ChRet Sent \<or> pcs c ! g = ChPanic SendOnClosed)" by blast
  show d: "done_case sc k ?m" using res by (auto simp: done_case_def sel_ret_def)
  have eff: "eff g ?v c" by (rule chan_op_eff [OF opn ci])
  have cc: "chan_inv c" by (rule chan_op_inv [OF opn ci])
  have pv: "pc_view ?a ?m = pcs c ! g" using res by (auto simp: sel_ret_def)
  have o: "pc_view b ?m = ChRet NoCall" if "b \<noteq> ?a" for b using that res by (auto simp: sel_ret_def)
  have u: "unsel (gos w ! g)" "unsel ?m" using at_rest_view(2) [OF g(2)] res by (auto simp: sel_ret_def)
  show "sel_inv (set_go g ?m (put_view ?a c w))"
    by (rule sel_inv_put(1) [OF i a eff cc g(1) u pv]) (use o at_rest_view(1) [OF g(2)] in blast)
  have "chan_steps (view b w) (view b (set_go g ?m (put_view ?a c w)))" if "b \<noteq> ?a"
    by (rule sel_inv_put(2) [OF i a eff cc g(1) u pv _ that]) (use o at_rest_view(1) [OF g(2)] in blast)
  moreover have "chan_steps ?v (view ?a (set_go g ?m (put_view ?a c w)))"
    using view_back [OF eff g(1) pv] one_step [OF c_op [OF opn]] by simp
  ultimately show "chan_steps (view b w) (view b (set_go g ?m (put_view ?a c w)))" by (cases "b = ?a") auto
  show "length (gos (set_go g ?m (put_view ?a c w))) = length (gos w)" using effD(1) [OF eff] by (simp add: put_view_gos)
qed

subsection \<open>Pass 1\<close>

definition cases_ok :: "'v scase list \<Rightarrow> bool" where
  "cases_ok sc \<longleftrightarrow> (\<forall>cas \<in> set sc. (sc_c cas = 0 \<longleftrightarrow> sc_kind cas = caseNil \<or> sc_kind cas = caseDefault) \<and>
     (sc_kind cas = caseSend \<longrightarrow> sc_elem cas \<noteq> None))"

text \<open>Either a case is done, or the world is as it was, no case is ready and the default is known.\<close>

definition polled :: "nat \<Rightarrow> 'v scase list \<Rightarrow> nat list \<Rightarrow> nat option \<Rightarrow> 'v sel_world \<Rightarrow> bool \<Rightarrow> nat option \<Rightarrow> 'v sel_world \<Rightarrow> bool" where
  "polled g sc order dfl w ready dfl' w' \<longleftrightarrow>
     sel_inv w' \<and> length (gos w') = length (gos w) \<and> (\<forall>b. b \<noteq> 0 \<longrightarrow> chan_steps (view b w) (view b w')) \<and>
     (if ready then \<exists>k \<in> set order. done_case sc k (gos w' ! g) \<and> case_ready w (sc ! k)
      else (\<forall>cas. case_ready w' cas = case_ready w cas) \<and> gos w' = gos w \<and> (\<forall>k \<in> set order. unready_case w' (sc ! k)) \<and> (\<forall>cas. unready_case w cas \<longrightarrow> unready_case w' cas) \<and>
        (dfl' = None \<longleftrightarrow> dfl = None \<and> (\<forall>k \<in> set order. sc_kind (sc ! k) \<noteq> caseDefault)) \<and>
        (\<forall>k. dfl' = Some k \<longrightarrow> dfl = Some k \<or> k \<in> set order \<and> sc_kind (sc ! k) = caseDefault))"

lemma sel_poll_polled:
  assumes "sel_poll g sc order dfl w = (ready, dfl', w')" "sel_inv w" "g < length (gos w)" "at_rest (gos w ! g)" "cases_ok sc"
    "\<forall>k \<in> set order. k < length sc"
  shows "polled g sc order dfl w ready dfl' w'"
  using assms
proof (induction g sc order dfl w rule: sel_poll.induct)
  case (1 g sc dfl w)
  then show ?case by (auto simp: polled_def intro: no_step)
next
  case (2 g sc k order dfl w)
  let ?cas = "sc ! k"
  let ?a = "sc_c ?cas"
  have ck: "?a = 0 \<longleftrightarrow> sc_kind ?cas = caseNil \<or> sc_kind ?cas = caseDefault" using 2(8,9) by (auto simp: cases_ok_def)
  have k': "\<forall>k \<in> set order. k < length sc" using 2(9) by simp
  consider (nil) "sc_kind ?cas = caseNil" | (default) "sc_kind ?cas = caseDefault" | (op) "sc_kind ?cas \<noteq> caseNil" "sc_kind ?cas \<noteq> caseDefault"
    by blast
  then show ?case
  proof cases
    case nil
    then have "sel_poll g sc order dfl w = (ready, dfl', w')" using 2(4) by simp
    from 2(1) [OF refl refl nil this 2(5-8) k'] show ?thesis using nil by (auto simp: polled_def unready_case_def)
  next
    case default
    then have n: "sc_kind ?cas \<noteq> caseNil" by simp
    have "sel_poll g sc order (Some k) w = (ready, dfl', w')" using 2(4) default by simp
    from 2(2) [OF refl refl n default this 2(5-8) k'] show ?thesis using default by (auto simp: polled_def unready_case_def)
  next
    case op
    have a: "?a \<noteq> 0" "is_op ?cas" using op ck by (auto simp: is_op_def) (metis case_kind.exhaust)
    obtain b c where t: "sel_try g ?cas (view ?a w) = (b, c)" by fastforce
    show ?thesis
    proof (cases b)
      case True
      have t: "sel_try g ?cas (view ?a w) = (True, c)" using t True by simp
      have w': "ready" "w' = set_go g (sel_ret ?a k (pcs c ! g)) (put_view ?a c w)" using 2(4) op t True by (auto simp: Let_def)
      note T = try_ready [OF 2(5) a 2(6,7) t]
      have "gos w' ! g = sel_ret ?a k (pcs c ! g)" using T(4) w'(2) 2(6) by simp
      then show ?thesis using T w' sel_try_ready [OF a(2) t] by (auto simp: polled_def)
    next
      case False
      have t: "sel_try g ?cas (view ?a w) = (False, c)" using t False by simp
      note T = try_unready [OF 2(5) a 2(6,7) t]
      let ?w = "put_view ?a c w"
      have rec: "sel_poll g sc order dfl ?w = (ready, dfl', w')" using 2(4) op t by simp
      have P: "polled g sc order dfl ?w ready dfl' w'"
        by (rule 2(3) [OF refl refl op t [symmetric] _ rec]) (use T 2(6-8) k' in simp_all)
      have keep: "unready_case w cas \<Longrightarrow> unready_case ?w cas" for cas by (rule look_keeps [of _ ?a]) (use T(4) in blast)
      have same: "case_ready ?w cas = case_ready w cas" for cas by (rule look_ready [OF T(4)])
      have base: "sel_inv w'" "length (gos w') = length (gos w)" using P T(2) by (simp_all add: polled_def)
      have steps: "chan_steps (view b w) (view b w')" if "b \<noteq> 0" for b
        using P T(5) [OF that] that chan_steps_trans unfolding polled_def by blast
      show ?thesis
      proof (cases ready)
        case True
        then show ?thesis using P base steps same by (simp add: polled_def)
      next
        case nr: False
        then have Q: "gos w' = gos ?w" "\<forall>k \<in> set order. unready_case w' (sc ! k)" "\<forall>cas. unready_case ?w cas \<longrightarrow> unready_case w' cas"
          "dfl' = None \<longleftrightarrow> dfl = None \<and> (\<forall>k \<in> set order. sc_kind (sc ! k) \<noteq> caseDefault)"
          "\<forall>k. dfl' = Some k \<longrightarrow> dfl = Some k \<or> k \<in> set order \<and> sc_kind (sc ! k) = caseDefault"
          "\<forall>cas. case_ready w' cas = case_ready ?w cas"
          using P by (simp_all add: polled_def)
        have "gos w' = gos w" using Q(1) T(2) by simp
        moreover have "\<forall>k \<in> set (k # order). unready_case w' (sc ! k)" using Q(2,3) T(3) by simp
        moreover have "\<forall>cas. unready_case w cas \<longrightarrow> unready_case w' cas" using Q(3) keep by blast
        moreover have "dfl' = None \<longleftrightarrow> dfl = None \<and> (\<forall>k \<in> set (k # order). sc_kind (sc ! k) \<noteq> caseDefault)" using Q(4) op(2) by simp
        moreover have "\<forall>j. dfl' = Some j \<longrightarrow> dfl = Some j \<or> j \<in> set (k # order) \<and> sc_kind (sc ! j) = caseDefault" using Q(5) by auto
        moreover have "\<forall>cas. case_ready w' cas = case_ready w cas" using Q(6) same by simp
        ultimately show ?thesis using base steps nr unfolding polled_def by simp
      qed
    qed
  qed
qed

end
