(* ===== verification/GoSelectSteps.thy ===== *)
theory GoSelectSteps
  imports GoSelectPass
begin

text \<open>
  Parking, waking and the whole of \<open>selectgo\<close> as steps of every channel; every step of the program
  keeps the invariant.
\<close>

subsection \<open>Pass 2\<close>

definition recv_on :: "'v scase list \<Rightarrow> nat \<Rightarrow> nat \<Rightarrow> bool" where
  "recv_on sc a i \<longleftrightarrow> sc_kind (sc ! i) = caseRecv \<and> sc_c (sc ! i) = a"

definition send_on :: "'v scase list \<Rightarrow> nat \<Rightarrow> nat \<Rightarrow> bool" where
  "send_on sc a i \<longleftrightarrow> sc_kind (sc ! i) = caseSend \<and> sc_c (sc ! i) = a"

lemma enqueue_fold:
  "fold (sel_enqueue g sc) lo w = w\<lparr>chans := (\<lambda>a. (chans w a)\<lparr>
     recvq := recvq (chans w a) @ map (sel_sudog g None) (filter (recv_on sc a) lo),
     sendq := sendq (chans w a) @ map (\<lambda>i. sel_sudog g (sc_elem (sc ! i)) i) (filter (send_on sc a) lo)\<rparr>)\<rparr>"
proof (induction lo arbitrary: w)
  case (Cons i lo)
  show ?case
    unfolding fold_simps Cons.IH
    by (cases "sc_kind (sc ! i)")
      (simp_all add: sel_enqueue_def Let_def enqueue_def recv_on_def [of sc _ i] send_on_def [of sc _ i] fun_eq_iff)
qed simp

lemma frame_sets:
  assumes "frame_ok f"
  shows "set (s_poll f) = {0..<length (s_cases f)}" "set (s_lock f) = {0..<length (s_cases f)}" "distinct (s_lock f)" "cases_ok (s_cases f)"
proof -
  have m: "mset (s_poll f) = mset [0..<length (s_cases f)]" "mset (s_lock f) = mset [0..<length (s_cases f)]"
    using assms by (simp_all add: frame_ok_def)
  then show "set (s_poll f) = {0..<length (s_cases f)}" "set (s_lock f) = {0..<length (s_cases f)}"
    by (metis set_mset_mset set_upt)+
  show "distinct (s_lock f)" using m(2) by (metis distinct_upt mset_eq_imp_distinct_iff)
  show "cases_ok (s_cases f)" using assms by (simp add: frame_ok_def cases_ok_def)
qed

lemma park_view:
  assumes "frame_ok f"
  shows "view a (sel_park g f w) = select_park g (filter (recv_on (s_cases f) a) (s_lock f))
     (map (\<lambda>i. (i, the (sc_elem (s_cases f ! i)))) (filter (send_on (s_cases f) a) (s_lock f))) (view a w)"
proof -
  have "map (\<lambda>i. sel_sudog g (sc_elem (s_cases f ! i)) i) (filter (send_on (s_cases f) a) (s_lock f)) =
    map ((\<lambda>(i, v). sel_sudog g (Some v) i) \<circ> (\<lambda>i. (i, the (sc_elem (s_cases f ! i))))) (filter (send_on (s_cases f) a) (s_lock f))"
    using assms frame_sets(2) [OF assms] by (intro map_cong) (auto simp: frame_ok_def send_on_def)
  then show ?thesis
    by (simp add: sel_park_def enqueue_fold select_park_eq view_def goto_def set_go_def map_update)
qed

lemma sels_append [simp]: "sels (xs @ ys) = sels xs @ sels ys"
  by (simp add: sels_def)

lemma sels_sudogs: "(\<And>i. isSelect (h i)) \<Longrightarrow> sels (map h is) = map h is"
  by (simp add: sels_def filter_id_conv)

text \<open>A goroutine's new entries.\<close>

lemma entries_park:
  assumes "entries_ok ms a kd q" "unsel (ms ! g)" "g < length ms" "distinct is" "\<And>i. i \<in> set is \<Longrightarrow> on_chan f a kd i"
    "\<And>i. isSelect (h i) \<and> sg_g (h i) = g \<and> sg_case (h i) = i"
  shows "entries_ok (ms[g := SelWait f]) a kd (q @ map h is)"
proof -
  have old: "sg_g sg \<noteq> g" "g \<noteq> sg_g sg" if "sg \<in> set (sels q)" for sg
    using assms(1) that unsel_simps(1) [OF assms(2), of a kd "sg_case sg"] by (auto simp: entries_ok_def)
  have "sels (map h is) = map h is" by (rule sels_sudogs) (use assms(6) in blast)
  moreover have "distinct (map sel_key (map h is))" using assms(4,6) by (auto simp: distinct_map sel_key_def inj_on_def comp_def)
  moreover have "sel_key ` set (sels q) \<inter> sel_key ` h ` set is = {}" using old assms(6) by (auto simp: sel_key_def)
  ultimately show ?thesis using assms(1,3,5,6) old by (auto simp: entries_ok_def)
qed

lemma go_ok_more:
  assumes "go_ok cs g m" "\<And>a. set (recvq (cs a)) \<subseteq> set (recvq (cs' a))" "\<And>a. set (sendq (cs a)) \<subseteq> set (sendq (cs' a))"
    "\<And>a. closed (cs a) \<Longrightarrow> closed (cs' a)"
  shows "go_ok cs' g m"
  using assms by (cases m) (fastforce split: option.splits)+

lemma sel_park_sim:
  assumes i: "sel_inv w" and g: "g < length (gos w)" "at_rest (gos w ! g)" and f: "frame_ok f" "no_default f"
    and un: "\<And>k. k < length (s_cases f) \<Longrightarrow> unready_case w (s_cases f ! k)"
  shows "sel_inv (sel_park g f w)" "a \<noteq> 0 \<Longrightarrow> chan_steps (view a w) (view a (sel_park g f w))"
    "gos (sel_park g f w) = (gos w)[g := SelWait f]"
proof -
  let ?w = "sel_park g f w" and ?sc = "s_cases f"
  note F = frame_sets [OF f(1)]
  show gos: "gos ?w = (gos w)[g := SelWait f]" by (simp add: sel_park_def enqueue_fold)
  have q: "chans ?w a = (chans w a)\<lparr>
     recvq := recvq (chans w a) @ map (sel_sudog g None) (filter (recv_on ?sc a) (s_lock f)),
     sendq := sendq (chans w a) @ map (\<lambda>i. sel_sudog g (sc_elem (?sc ! i)) i) (filter (send_on ?sc a) (s_lock f))\<rparr>" for a
    by (simp add: sel_park_def enqueue_fold)
  have st: "chan_step (view a w) g (view a ?w)" if a: "a \<noteq> 0" for a
  proof -
    obtain r where r: "pc_view a (gos w ! g) = ChRet r" using at_rest_view(1) [OF g(2)] by blast
    have rs: "\<not> recv_ready (view a w) \<and> sendq (chans w a) = []" if ne: "filter (recv_on ?sc a) (s_lock f) \<noteq> []"
    proof -
      obtain k where "k \<in> set (s_lock f)" "recv_on ?sc a k" using ne by (auto simp: filter_empty_conv)
      then show ?thesis using un [of k] F(2) by (auto simp: recv_on_def unready_case_def)
    qed
    have ss: "\<not> send_ready (view a w) \<and> recvq (chans w a) = []" if ne: "filter (send_on ?sc a) (s_lock f) \<noteq> []"
    proof -
      obtain k where "k \<in> set (s_lock f)" "send_on ?sc a k" using ne by (auto simp: filter_empty_conv)
      then show ?thesis using un [of k] F(2) by (auto simp: send_on_def unready_case_def)
    qed
    show ?thesis unfolding park_view [OF f(1)]
      by (rule c_select [where r = r]) (use g(1) r rs ss in auto)
  qed
  then show "a \<noteq> 0 \<Longrightarrow> chan_steps (view a w) (view a ?w)" using one_step by blast
  have u: "unsel (gos w ! g)" by (rule at_rest_view(2) [OF g(2)])
  have "entries_ok (gos ?w) a caseRecv (recvq (chans ?w a)) \<and> entries_ok (gos ?w) a caseSend (sendq (chans ?w a))" if "a \<noteq> 0" for a
    unfolding gos q
    using entries_park [OF sel_invD(2) [OF i that] u g(1), of "filter (recv_on ?sc a) (s_lock f)" f "sel_sudog g None"]
      entries_park [OF sel_invD(3) [OF i that] u g(1), of "filter (send_on ?sc a) (s_lock f)" f "\<lambda>i. sel_sudog g (sc_elem (?sc ! i)) i"] F
    by (simp add: on_chan_def recv_on_def send_on_def sel_sudog_def)
  moreover have "chan_inv (view a ?w)" if "a \<noteq> 0" for a by (rule chan_step_inv [OF st [OF that] sel_invD(1) [OF i that]])
  moreover have "go_ok (chans ?w) h (gos ?w ! h)" if h: "h < length (gos w)" for h
  proof (cases "h = g")
    case True
    then show ?thesis using f F g(1) by (auto simp: gos q on_chan_def recv_on_def send_on_def)
  next
    case False
    then show ?thesis using go_ok_more [OF sel_invD(4) [OF i h], of "chans ?w"] by (simp add: gos q)
  qed
  ultimately show "sel_inv ?w" by (simp add: sel_inv_def gos)
qed

subsection \<open>Pass 3\<close>

definition served :: "'v scase list \<Rightarrow> nat option \<Rightarrow> nat \<Rightarrow> bool \<Rightarrow> nat list \<Rightarrow> nat \<Rightarrow> 'v sudog \<Rightarrow> bool" where
  "served sc param a sd lo g sg \<longleftrightarrow> sg_g sg = g \<and> isSelect sg \<and>
     (\<exists>i \<in> set lo. sc_kind (sc ! i) \<noteq> caseNil \<and> (sc_kind (sc ! i) = caseSend) = sd \<and> sc_c (sc ! i) = a \<and> param \<noteq> Some i \<and> sg_case sg = i)"

lemma dequeue_fold:
  "fold (sel_dequeue g sc param) lo w = w\<lparr>chans := (\<lambda>a. (chans w a)\<lparr>
     recvq := filter (\<lambda>sg. \<not> served sc param a False lo g sg) (recvq (chans w a)),
     sendq := filter (\<lambda>sg. \<not> served sc param a True lo g sg) (sendq (chans w a))\<rparr>)\<rparr>"
proof (induction lo arbitrary: w)
  case Nil
  then show ?case by (simp add: served_def)
next
  case (Cons i lo)
  let ?k = "sc ! i"
  let ?c = "sc_c ?k"
  have sv: "served sc param a b (i # lo) g sg \<longleftrightarrow> served sc param a b lo g sg \<or>
    (sc_kind ?k \<noteq> caseNil \<and> (sc_kind ?k = caseSend) = b \<and> ?c = a \<and> param \<noteq> Some i \<and> sg_g sg = g \<and> isSelect sg \<and> sg_case sg = i)" for a b sg
    by (auto simp: served_def)
  have away: "served sc param a b (i # lo) g = served sc param a b lo g"
    if "sc_kind ?k = caseNil \<or> param = Some i \<or> (sc_kind ?k = caseSend) \<noteq> b \<or> a \<noteq> ?c" for a b
    using that by (auto simp: sv fun_eq_iff)
  have here: "filter (\<lambda>sg. \<not> served sc param ?c b lo g sg) (dequeueSudoG (sel_sudog g x i) q) = filter (\<lambda>sg. \<not> served sc param ?c b (i # lo) g sg) q"
    if "sc_kind ?k \<noteq> caseNil" "param \<noteq> Some i" "(sc_kind ?k = caseSend) = b" for b x q
    using that by (auto simp: dequeueSudoG_def sel_sudog_def sv intro!: filter_cong)
  let ?R = "\<lambda>a xs. filter (\<lambda>sg. \<not> served sc param a False xs g sg)" and ?S = "\<lambda>a xs. filter (\<lambda>sg. \<not> served sc param a True xs g sg)"
  define w1 where "w1 = sel_dequeue g sc param i w"
  have w1: "w1 = w\<lparr>chans := chans w1\<rparr>" by (simp add: w1_def sel_dequeue_def Let_def)
  have "(chans w1 a)\<lparr>recvq := ?R a lo (recvq (chans w1 a)), sendq := ?S a lo (sendq (chans w1 a))\<rparr> =
    (chans w a)\<lparr>recvq := ?R a (i # lo) (recvq (chans w a)), sendq := ?S a (i # lo) (sendq (chans w a))\<rparr>" for a
  proof (cases "sc_kind ?k = caseNil \<or> param = Some i \<or> a \<noteq> ?c")
    case True
    then have "chans w1 a = chans w a" by (auto simp: w1_def sel_dequeue_def Let_def)
    moreover have "served sc param a b (i # lo) g = served sc param a b lo g" for b by (rule away) (use True in blast)
    ultimately show ?thesis by simp
  next
    case False
    then have f: "sc_kind ?k \<noteq> caseNil" "param \<noteq> Some i" "a = ?c" by simp_all
    show ?thesis
    proof (cases "sc_kind ?k = caseSend")
      case True
      then have "chans w1 a = (chans w a)\<lparr>sendq := dequeueSudoG (sel_sudog g (sc_elem ?k) i) (sendq (chans w a))\<rparr>"
        using f by (simp add: w1_def sel_dequeue_def Let_def)
      then show ?thesis using here [OF f(1,2), of True] away [of False a] f(3) True by simp
    next
      case ns: False
      then have "chans w1 a = (chans w a)\<lparr>recvq := dequeueSudoG (sel_sudog g (sc_elem ?k) i) (recvq (chans w a))\<rparr>"
        using f by (simp add: w1_def sel_dequeue_def Let_def)
      then show ?thesis using here [OF f(1,2), of False] away [of True a] f(3) ns by simp
    qed
  qed
  moreover have "fold (sel_dequeue g sc param) (i # lo) w = w\<lparr>chans := (\<lambda>a. (chans w1 a)\<lparr>
     recvq := ?R a lo (recvq (chans w1 a)), sendq := ?S a lo (sendq (chans w1 a))\<rparr>)\<rparr>"
    unfolding fold_simps w1_def [symmetric] Cons.IH by (subst w1) simp
  ultimately show ?case by simp
qed

lemma dequeue_gos [simp]: "gos (fold (sel_dequeue g sc param) lo w) = gos w"
  by (simp add: dequeue_fold)

lemma served_all:
  assumes i: "sel_inv w" and a: "a \<noteq> 0" and g: "g < length (gos w)" "gos w ! g = SelWake b param x f"
  shows "filter (\<lambda>sg. \<not> served (s_cases f) param a False (s_lock f) g sg) (recvq (chans w a)) = filter (\<lambda>sg. sg_g sg \<noteq> g) (recvq (chans w a))"
    "filter (\<lambda>sg. \<not> served (s_cases f) param a True (s_lock f) g sg) (sendq (chans w a)) = filter (\<lambda>sg. sg_g sg \<noteq> g) (sendq (chans w a))"
proof -
  have F: "set (s_lock f) = {0..<length (s_cases f)}" using sel_invD(4) [OF i g(1)] g(2) frame_sets(2) by auto
  note C = chan_invD [OF sel_invD(1) [OF i a]]
  have pv: "is_sel (pc_view a (gos w ! g))" using g(2) by simp
  have sel: "isSelect sg" if "sg \<in> set q" "q_ok (pcs (view a w)) pk q" "park_pc pk" "sg_g sg = g" for sg q pk
    using that pv g(1) park_simps [OF that(3)] by (auto simp: q_ok_def split: if_splits)
  have o: "owns (gos w ! g) a caseRecv (sg_case sg)" if "sg \<in> set (recvq (chans w a))" "sg_g sg = g" for sg
    using sel_invD(2) [OF i a] that sel [of sg "recvq (chans w a)" RecvParked] C(3) by (auto simp: entries_ok_def sels_in)
  have o': "owns (gos w ! g) a caseSend (sg_case sg)" if "sg \<in> set (sendq (chans w a))" "sg_g sg = g" for sg
    using sel_invD(3) [OF i a] that sel [of sg "sendq (chans w a)" SendParked] C(4) by (auto simp: entries_ok_def sels_in)
  show "filter (\<lambda>sg. \<not> served (s_cases f) param a False (s_lock f) g sg) (recvq (chans w a)) = filter (\<lambda>sg. sg_g sg \<noteq> g) (recvq (chans w a))"
    by (rule filter_cong [OF refl]) (use o g(2) F sel C(3) in \<open>auto simp: served_def on_chan_def\<close>)
  show "filter (\<lambda>sg. \<not> served (s_cases f) param a True (s_lock f) g sg) (sendq (chans w a)) = filter (\<lambda>sg. sg_g sg \<noteq> g) (sendq (chans w a))"
    by (rule filter_cong [OF refl]) (use o' g(2) F sel C(4) in \<open>auto simp: served_def on_chan_def\<close>)
qed

lemma leave_sim:
  assumes i: "sel_inv w" and g: "g < length (gos w)" "gos w ! g = SelWake b param x f" and m: "unsel m"
    "\<forall>a. a \<noteq> 0 \<longrightarrow> pc_view a m = ChRet (left_ret (pc_view a (gos w ! g)))"
  shows "sel_inv (set_go g m (fold (sel_dequeue g (s_cases f) param) (s_lock f) w))"
    "a \<noteq> 0 \<Longrightarrow> chan_steps (view a w) (view a (set_go g m (fold (sel_dequeue g (s_cases f) param) (s_lock f) w)))"
proof -
  let ?w = "set_go g m (fold (sel_dequeue g (s_cases f) param) (s_lock f) w)"
  have gos: "gos ?w = (gos w)[g := m]" by (simp add: dequeue_fold)
  have q: "chans ?w a = (chans w a)\<lparr>recvq := filter (\<lambda>sg. sg_g sg \<noteq> g) (recvq (chans w a)), sendq := filter (\<lambda>sg. sg_g sg \<noteq> g) (sendq (chans w a))\<rparr>"
    if "a \<noteq> 0" for a using served_all [OF i that g] by (simp add: dequeue_fold)
  have v: "view a ?w = select_leave g (view a w)" if "a \<noteq> 0" for a
    using q [OF that] m(2) that g(1) by (simp add: view_def select_leave_def goto_def gos map_update dequeue_fold)
  have st: "chan_step (view a w) g (view a ?w)" if "a \<noteq> 0" for a
    unfolding v [OF that] by (rule c_leave) (use g in auto)
  then show "a \<noteq> 0 \<Longrightarrow> chan_steps (view a w) (view a ?w)" using one_step by blast
  have ent: "entries_ok ((gos w)[g := m]) a kd (filter (\<lambda>sg. sg_g sg \<noteq> g) es)" if "entries_ok (gos w) a kd es" for a kd es
  proof -
    have "sels (filter (\<lambda>sg. sg_g sg \<noteq> g) es) = filter (\<lambda>sg. sg_g sg \<noteq> g) (sels es)" by (simp add: sels_def conj_commute)
    then show ?thesis using that by (auto simp: entries_ok_def distinct_map_filter)
  qed
  have "go_ok (chans ?w) h (gos ?w ! h)" if h: "h < length (gos w)" for h
  proof (cases "h = g")
    case True
    then show ?thesis using unsel_simps(2) [OF m(1)] h by (simp add: dequeue_fold)
  next
    case hg: False
    note gh = sel_invD(4) [OF i h]
    show ?thesis
    proof (cases "gos w ! h")
      case (SelWait f')
      then have ok: "frame_ok f'" "no_default f'" using gh by auto
      have nz: "a \<noteq> 0" if "on_chan f' a caseRecv k \<or> on_chan f' a caseSend k" for a k
      proof -
        have "s_cases f' ! k \<in> set (s_cases f')" using that by (auto simp: on_chan_def)
        then show ?thesis using ok(1) that by (auto simp: frame_ok_def on_chan_def)
      qed
      have "gos ?w ! h = SelWait f'" unfolding gos using hg SelWait by simp
      moreover have "sel_sudog h None k \<in> set (recvq (chans ?w a))" if "on_chan f' a caseRecv k" for k a
        using q [OF nz, of a k] that gh SelWait hg by (simp add: sel_sudog_def)
      moreover have "sel_sudog h (sc_elem (s_cases f' ! k)) k \<in> set (sendq (chans ?w a))" if "on_chan f' a caseSend k" for k a
        using q [OF nz, of a k] that gh SelWait hg by (simp add: sel_sudog_def)
      ultimately show ?thesis using ok by simp
    next
      case (SelWake b' i' x' f')
      have "gos ?w ! h = SelWake b' i' x' f'" unfolding gos using hg SelWake by simp
      then show ?thesis using gh SelWake q by (auto split: option.splits)
    qed (use hg in \<open>simp_all add: dequeue_fold\<close>)
  qed
  moreover have "chan_inv (view a ?w)" if "a \<noteq> 0" for a by (rule chan_step_inv [OF st [OF that] sel_invD(1) [OF i that]])
  moreover have "entries_ok (gos ?w) a caseRecv (recvq (chans ?w a)) \<and> entries_ok (gos ?w) a caseSend (sendq (chans ?w a))" if "a \<noteq> 0" for a
    unfolding gos using ent [OF sel_invD(2) [OF i that]] ent [OF sel_invD(3) [OF i that]] q [OF that] by simp
  ultimately show "sel_inv ?w" by (simp add: sel_inv_def gos)
qed

subsection \<open>The whole of \<open>selectgo\<close>\<close>

text \<open>
  How \<open>loop\<close> ends: a case that was ready is done, in the channel it is on; none was, and the default
  is taken; or none was, there is no default, and the goroutine is parked.
\<close>

definition select_end :: "'v sel_frame \<Rightarrow> 'v sel_world \<Rightarrow> 'v sel_pc \<Rightarrow> bool" where
  "select_end f w m \<longleftrightarrow>
     (\<exists>k < length (s_cases f). done_case (s_cases f) k m \<and> case_ready w (s_cases f ! k)) \<or>
     (\<forall>cas \<in> set (s_cases f). \<not> case_ready w cas) \<and>
       ((\<exists>k < length (s_cases f). sc_kind (s_cases f ! k) = caseDefault \<and> m = SelRet 0 k NotReady) \<or>
        no_default f \<and> m = SelWait f)"

lemma set_rest_sim:
  assumes i: "sel_inv w" and g: "g < length (gos w)" "at_rest (gos w ! g)" and m: "unsel m" "\<And>a. a \<noteq> 0 \<Longrightarrow> pc_view a m = ChRet NoCall"
  shows "sel_inv (set_go g m w)" "a \<noteq> 0 \<Longrightarrow> chan_steps (view a w) (view a (set_go g m w))"
proof -
  have v: "view a (set_go g m w) = goto g (ChRet NoCall) (view a w)" if "a \<noteq> 0" for a
    using m(2) [OF that] by (simp add: view_def goto_def map_update)
  have st: "chan_step (view a w) g (view a (set_go g m w))" if a: "a \<noteq> 0" for a
  proof -
    obtain r where "pc_view a (gos w ! g) = ChRet r" using at_rest_view(1) [OF g(2)] by blast
    then show ?thesis unfolding v [OF a] by (intro c_other) (use g(1) in simp_all)
  qed
  then show "a \<noteq> 0 \<Longrightarrow> chan_steps (view a w) (view a (set_go g m w))" using one_step by blast
  have u: "unsel (gos w ! g)" by (rule at_rest_view(2) [OF g(2)])
  have ent: "entries_ok ((gos w)[g := m]) a kd q" if "entries_ok (gos w) a kd q" for a kd q
    using that unsel_simps(1) [OF u] by (auto simp: entries_ok_def nth_upds)
  have "go_ok (chans w) h ((gos w)[g := m] ! h)" if "h < length (gos w)" for h
    using sel_invD(4) [OF i that] unsel_simps(2) [OF m(1)] by (auto simp: nth_upds)
  moreover have "chan_inv (view a (set_go g m w))" if "a \<noteq> 0" for a by (rule chan_step_inv [OF st [OF that] sel_invD(1) [OF i that]])
  ultimately show "sel_inv (set_go g m w)" using sel_invD(2,3) [OF i] ent by (simp add: sel_inv_def)
qed

lemma sel_loop_sim:
  assumes i: "sel_inv w" and g: "g < length (gos w)" "at_rest (gos w ! g)" and f: "frame_ok f"
  shows "sel_inv (sel_loop g f w)" "a \<noteq> 0 \<Longrightarrow> chan_steps (view a w) (view a (sel_loop g f w))"
    "length (gos (sel_loop g f w)) = length (gos w)" "select_end f w (gos (sel_loop g f w) ! g)"
proof -
  note F = frame_sets [OF f]
  let ?sc = "s_cases f" and ?w = "sel_loop g f w"
  obtain b d w1 where p: "sel_poll g ?sc (s_poll f) None w = (b, d, w1)" by (metis prod_cases3)
  have ord: "\<forall>k \<in> set (s_poll f). k < length ?sc" using F(1) by simp
  note P = sel_poll_polled [OF p i g F(4) ord, unfolded polled_def]
  have base: "sel_inv w1" "length (gos w1) = length (gos w)" "\<And>b. b \<noteq> 0 \<Longrightarrow> chan_steps (view b w) (view b w1)" using P by blast+
  have "sel_inv ?w \<and> (\<forall>a. a \<noteq> 0 \<longrightarrow> chan_steps (view a w) (view a ?w)) \<and> length (gos ?w) = length (gos w) \<and> select_end f w (gos ?w ! g)"
  proof (cases b)
    case True
    then have "?w = w1" using p by (simp add: sel_loop_def)
    moreover have "\<exists>k < length ?sc. done_case ?sc k (gos w1 ! g) \<and> case_ready w (?sc ! k)" using P True ord by auto
    ultimately show ?thesis using base by (simp add: select_end_def)
  next
    case False
    have N: "gos w1 = gos w" "\<forall>k < length ?sc. unready_case w1 (?sc ! k)" "\<forall>cas. case_ready w1 cas = case_ready w cas"
      "d = None \<longleftrightarrow> (\<forall>k < length ?sc. sc_kind (?sc ! k) \<noteq> caseDefault)" "\<forall>k. d = Some k \<longrightarrow> k < length ?sc \<and> sc_kind (?sc ! k) = caseDefault"
      using P False F(1) by auto
    have nr: "\<forall>cas \<in> set ?sc. \<not> case_ready w cas" using N(2,3) unready_not_ready by (metis in_set_conv_nth)
    have g1: "g < length (gos w1)" "at_rest (gos w1 ! g)" using g N(1) by simp_all
    show ?thesis
    proof (cases d)
      case (Some k)
      then have w: "?w = set_go g (SelRet 0 k NotReady) w1" using p False by (simp add: sel_loop_def)
      note R = set_rest_sim [OF base(1) g1, of "SelRet 0 k NotReady"]
      have "select_end f w (gos ?w ! g)" using w nr N(5) Some g1 by (auto simp: select_end_def)
      then show ?thesis using R w base(2) chan_steps_trans base(3) by simp blast
    next
      case None
      then have w: "?w = sel_park g f w1" using p False by (simp add: sel_loop_def)
      have nd: "no_default f" using N(4) None unfolding no_default_def by (metis in_set_conv_nth)
      note K = sel_park_sim [OF base(1) g1 f nd N(2) [rule_format]]
      have "select_end f w (gos ?w ! g)" using w nr nd K(3) g1 by (simp add: select_end_def)
      then show ?thesis using K w base(2) chan_steps_trans base(3) by simp blast
    qed
  qed
  then show "sel_inv ?w" "a \<noteq> 0 \<Longrightarrow> chan_steps (view a w) (view a ?w)" "length (gos ?w) = length (gos w)" "select_end f w (gos ?w ! g)" by blast+
qed

text \<open>The frame \<open>selectgo\<close> builds.\<close>

definition frame_of :: "rand_state \<Rightarrow> 'v scase list \<Rightarrow> 'v sel_frame" where
  "frame_of r scases = (let sc = map nil_case scases; po = poll_order (length sc) r
     in \<lparr>s_cases = sc, s_poll = po, s_lock = lock_order sc po\<rparr>)"

lemma selectgo_loop: "selectgo g r scases w = sel_loop g (frame_of r scases) w"
  by (simp add: selectgo_def frame_of_def Let_def)

lemma frame_of_ok:
  assumes "\<forall>cas \<in> set scases. case_ok cas" "length scases \<le> 2 ^ 16"
  shows "frame_ok (frame_of r scases)"
proof -
  let ?sc = "map nil_case scases"
  have po: "mset (poll_order (length ?sc) r) = mset [0..<length ?sc]" by (rule poll_order_perm) (use assms(2) in simp)
  then have "length (poll_order (length ?sc) r) = length ?sc" by (metis length_upt minus_nat.diff_0 size_mset)
  then have "mset (lock_order ?sc (poll_order (length ?sc) r)) = mset [0..<length ?sc]"
    using lock_order_sorts [of "poll_order (length ?sc) r" ?sc] po by simp
  then show ?thesis using assms(1) po by (auto simp: frame_ok_def frame_of_def Let_def nil_case_def case_ok_def)
qed

text \<open>Woken by a close, \<open>loop\<close> finds the channel closed.\<close>

lemma sel_resume_sim:
  assumes i: "sel_inv w" and g: "g < length (gos w)" "gos w ! g = SelWake b param x f"
  shows "sel_inv (sel_resume g b param x f w)" "a \<noteq> 0 \<Longrightarrow> chan_steps (view a w) (view a (sel_resume g b param x f w))"
    "length (gos (sel_resume g b param x f w)) = length (gos w)"
    "\<exists>k < length (s_cases f). done_case (s_cases f) k (gos (sel_resume g b param x f w) ! g)"
proof -
  let ?w = "sel_resume g b param x f w" and ?sc = "s_cases f"
  have ok: "go_ok (chans w) g (SelWake b param x f)" using sel_invD(4) [OF i g(1)] g(2) by simp
  then have f: "frame_ok f" "b \<noteq> 0" by auto
  have "sel_inv ?w \<and> (\<forall>a. a \<noteq> 0 \<longrightarrow> chan_steps (view a w) (view a ?w)) \<and> length (gos ?w) = length (gos w) \<and>
    (\<exists>k < length ?sc. done_case ?sc k (gos ?w ! g))"
  proof (cases param)
    case (Some k)
    let ?m = "SelRet b k (if sc_kind (?sc ! k) = caseRecv then Got (the x) else Sent)"
    have k: "on_chan f b caseRecv k \<and> x \<noteq> None \<or> on_chan f b caseSend k \<and> x = None" using ok Some by simp
    have w: "?w = set_go g ?m (fold (sel_dequeue g ?sc param) (s_lock f) w)" using Some by (simp add: sel_resume_def)
    have u: "unsel ?m" and pv: "\<forall>a. a \<noteq> 0 \<longrightarrow> pc_view a ?m = ChRet (left_ret (pc_view a (gos w ! g)))"
      using k g(2) Some by (auto simp: left_ret_def on_chan_def)
    note L = leave_sim [OF i g u pv]
    moreover have "gos ?w = (gos w)[g := ?m]" using w by (simp add: dequeue_fold)
    moreover have "done_case ?sc k ?m" using k by (auto simp: done_case_def on_chan_def)
    moreover have "k < length ?sc" using k by (auto simp: on_chan_def)
    ultimately show ?thesis using w g(1) by auto
  next
    case None
    let ?w1 = "set_go g (SelRet 0 0 NoCall) (fold (sel_dequeue g ?sc param) (s_lock f) w)"
    have w: "?w = sel_loop g f ?w1" using None by (simp add: sel_resume_def)
    have gos: "gos ?w1 = (gos w)[g := SelRet 0 0 NoCall]" by (simp add: dequeue_fold)
    have u: "unsel (SelRet 0 0 NoCall)"
      and pv: "\<forall>a. a \<noteq> 0 \<longrightarrow> pc_view a (SelRet 0 0 NoCall) = ChRet (left_ret (pc_view a (gos w ! g)))"
      using g(2) None by (auto simp: left_ret_def)
    note L = leave_sim [OF i g u pv]
    have g1: "g < length (gos ?w1)" "at_rest (gos ?w1 ! g)" using g(1) gos by simp_all
    note S = sel_loop_sim [OF L(1) g1 f(1)]
    obtain k kd where k: "on_chan f b kd k" "closed (chans w b)" using ok None by auto
    have kk: "k < length ?sc" "sc_c (?sc ! k) = b" using k(1) by (auto simp: on_chan_def)
    have "?sc ! k \<in> set ?sc" using kk(1) by simp
    then have kd: "sc_kind (?sc ! k) \<noteq> caseNil" "sc_kind (?sc ! k) \<noteq> caseDefault" using f kk(2) by (auto simp: frame_ok_def)
    have "closed (chans ?w1 b)" using k(2) by (simp add: dequeue_fold)
    then have "case_ready ?w1 (?sc ! k)"
      using kd kk(2) by (cases "sc_kind (?sc ! k)") (auto simp: case_ready_def recv_ready_def send_ready_def)
    then have "\<exists>k < length ?sc. done_case ?sc k (gos ?w ! g)"
      using S(4) \<open>?sc ! k \<in> set ?sc\<close> unfolding w select_end_def by auto
    moreover have "chan_steps (view a w) (view a ?w)" if "a \<noteq> 0" for a
      using chan_steps_trans [OF S(2) [OF that] L(2) [OF that]] unfolding w .
    moreover have "length (gos ?w) = length (gos w)" using S(3) gos unfolding w by simp
    ultimately show ?thesis using S(1) unfolding w by blast
  qed
  then show "sel_inv ?w" "a \<noteq> 0 \<Longrightarrow> chan_steps (view a w) (view a ?w)" "length (gos ?w) = length (gos w)"
    "\<exists>k < length ?sc. done_case ?sc k (gos ?w ! g)" by blast+
qed

subsection \<open>Every step\<close>

lemma sel_step_sim:
  assumes "sel_step w g w'" "sel_inv w"
  shows "sel_inv w' \<and> length (gos w') = length (gos w) \<and> (\<forall>a. a \<noteq> 0 \<longrightarrow> chan_steps (view a w) (view a w'))"
  using assms(1)
proof cases
  case (s_op a c)
  note ci = sel_invD(1) [OF assms(2) s_op(2)]
  note e = chan_op_eff [OF s_op(5) ci]
  let ?m = "OnChan a (pcs c ! g)"
  have u: "unsel (gos w ! g)" "unsel ?m" using s_op(4) at_rest_view(2) by auto
  have o: "?m = gos w ! g \<or> pc_view b ?m = ChRet NoCall \<and> (\<exists>r. pc_view b (gos w ! g) = ChRet r)" if "b \<noteq> a" for b
    using that s_op(4) at_rest_view(1) [of "gos w ! g" b] by auto
  have pv: "pc_view a ?m = pcs c ! g" by simp
  note P = sel_inv_put [OF assms(2) s_op(2) e chan_op_inv [OF s_op(5) ci] s_op(3) u pv o]
  have "view a w' = c" unfolding s_op(1) by (rule view_back [OF e s_op(3) pv])
  then have "chan_steps (view a w) (view a w')" using one_step [OF c_op [OF s_op(5)]] by simp
  then have "chan_steps (view b w) (view b w')" for b using P(2) [of b] s_op(1) by (cases "b = a") auto
  moreover have "length (gos w') = length (gos w)" using effD(1) [OF e] s_op(1) by (simp add: put_view_gos)
  ultimately show ?thesis using P(1) s_op(1) by simp
next
  case (s_select cases r)
  note f = frame_of_ok [OF s_select(4,5), of r]
  show ?thesis using sel_loop_sim [OF assms(2) s_select(2,3) f] s_select(1) by (simp add: selectgo_loop)
next
  case (s_resume b param x f)
  then show ?thesis using sel_resume_sim [OF assms(2) s_resume(2,3)] by simp
qed

lemma sel_init_inv:
  assumes "\<And>a. a \<noteq> 0 \<Longrightarrow> fresh_chan (cs a)"
  shows "sel_inv (sel_init n cs)"
proof -
  have v: "view a (sel_init n cs) = chan_init n (cs a)" for a
    by (simp add: view_def sel_init_def chan_init_def)
  have "entries_ok ms a kd (recvq (cs a)) \<and> entries_ok ms a kd (sendq (cs a))" if "a \<noteq> 0" for ms :: "'a sel_pc list" and a kd
    using assms [OF that] by (auto simp: fresh_chan_def entries_ok_def sels_def)
  then show ?thesis using chan_init_inv [OF assms] v by (simp add: sel_inv_def) (simp add: sel_init_def)
qed

lemma sel_run_sim:
  assumes "sel_run n cs w" "\<And>a. a \<noteq> 0 \<Longrightarrow> fresh_chan (cs a)"
  shows "sel_inv w \<and> length (gos w) = n \<and> (\<forall>a. a \<noteq> 0 \<longrightarrow> chan_run n (cs a) (view a w))"
  using assms(1)
proof (induction rule: sel_run.induct)
  case sel_start
  have "view a (sel_init n cs) = chan_init n (cs a)" for a by (simp add: view_def sel_init_def chan_init_def)
  then show ?case using sel_init_inv [of cs n, OF assms(2)] by (auto simp: sel_init_def intro: chan_start)
next
  case (sel_next w g w')
  then show ?case using sel_step_sim [of w g w'] chan_steps_run by blast
qed

end
