(* ===== verification/GoChanRuns.thy ===== *)
theory GoChanRuns
  imports GoChanSteps
begin

text \<open>
  What the goroutines on a channel of \<open>src/src/runtime/chan.go\<close> can rely on: the channel is a
  bounded queue, nobody waits for what is there, and a receiver is told of the close last.
\<close>

subsection \<open>A bounded queue\<close>

text \<open>
  The elements of the channel and whether it is closed; a step takes \<open>inp\<close> in and gives \<open>out\<close>
  away. An unbuffered channel only passes elements on.
\<close>

inductive fifo_step :: "nat \<Rightarrow> 'v list \<times> bool \<Rightarrow> 'v list \<Rightarrow> 'v list \<Rightarrow> 'v list \<times> bool \<Rightarrow> bool" for n where
  f_skip: "fifo_step n (q, s) [] [] (q, s)"
| f_put: "length q < n \<Longrightarrow> fifo_step n (q, False) [v] [] (q @ [v], False)"
| f_take: "fifo_step n (v # q, s) [] [v] (q, s)"
| f_pass: "fifo_step n ([], False) [v] [v] ([], False)"
| f_rotate: "length q + 1 = n \<Longrightarrow> fifo_step n (v # q, False) [e] [v] (q @ [e], False)"
| f_close: "fifo_step n (q, False) [] [] (q, True)"

definition chan_abs :: "'v chan_world \<Rightarrow> 'v list \<times> bool" where
  "chan_abs w = (ring (ch w), closed (ch w))"

text \<open>The element a goroutine was given and still has in its hands.\<close>

definition got :: "'v chan_pc \<Rightarrow> 'v option" where
  "got p = (case p of ChRet (Got v) \<Rightarrow> Some v | RecvWoken x \<Rightarrow> x | SelWoken i x \<Rightarrow> x | _ \<Rightarrow> None)"

text \<open>The elements given away in a step are in the hands of one goroutine, the others get none.\<close>

definition handed :: "'v chan_world \<Rightarrow> 'v list \<Rightarrow> 'v chan_world \<Rightarrow> bool" where
  "handed w out w' \<longleftrightarrow>
     (case out of [] \<Rightarrow> \<forall>h < length (pcs w). got (pcs w' ! h) = None \<or> got (pcs w' ! h) = got (pcs w ! h)
      | v # _ \<Rightarrow> \<exists>g < length (pcs w). got (pcs w' ! g) = Some v \<and>
          (\<forall>h < length (pcs w). h \<noteq> g \<longrightarrow> got (pcs w' ! h) = None \<or> got (pcs w' ! h) = got (pcs w ! h)))"

text \<open>One step, as the queue sees it.\<close>

definition fifo_view :: "'v chan_world \<Rightarrow> 'v chan_world \<Rightarrow> bool" where
  "fifo_view w w' \<longleftrightarrow>
     (\<exists>inp out. fifo_step (dataqsiz (ch w)) (chan_abs w) inp out (chan_abs w') \<and>
        accepted w' = accepted w @ inp \<and> delivered w' = delivered w @ out \<and> handed w out w') \<and>
     dataqsiz (ch w') = dataqsiz (ch w) \<and> length (pcs w') = length (pcs w)"

lemma viewI:
  assumes "fifo_step (dataqsiz (ch w)) (chan_abs w) inp out (chan_abs w')" "accepted w' = accepted w @ inp"
    "delivered w' = delivered w @ out" "handed w out w'" "dataqsiz (ch w') = dataqsiz (ch w)" "length (pcs w') = length (pcs w)"
  shows "fifo_view w w'"
  using assms unfolding fifo_view_def by blast

lemma view_skip:
  assumes "ring (ch w') = ring (ch w)" "closed (ch w') = closed (ch w)" "accepted w' = accepted w" "delivered w' = delivered w"
    "dataqsiz (ch w') = dataqsiz (ch w)" "pcs w' = (pcs w)[g := p]" "got p = None \<or> got p = got (pcs w ! g)"
  shows "fifo_view w w'"
proof (rule viewI)
  show "fifo_step (dataqsiz (ch w)) (chan_abs w) [] [] (chan_abs w')" using assms(1,2) by (simp add: chan_abs_def f_skip)
qed (use assms in \<open>auto simp: handed_def nth_upd\<close>)

lemma view_goto: "got p = None \<or> got p = got (pcs w ! g) \<Longrightarrow> fifo_view w (goto g p w)"
  by (rule view_skip) simp_all

lemma ring_length [simp]: "length (ring c) = qcount c"
  by (simp add: ring_def)

lemma got_simps [simp]: "got (recv_woken sg x) = x" "got (send_woken sg b) = None"
    "got (ChRet (Got v)) = Some v" "got (ChRet Sent) = None" "got (ChRet NotSent) = None"
  by (simp_all add: recv_woken_def send_woken_def got_def)

lemma chansend_view:
  assumes i: "chan_inv w" and g: "off (pcs w ! g)" "g < length (pcs w)"
  shows "fifo_view w (chansend g v block w)"
proof (cases "closed (ch w)")
  case True
  then show ?thesis by (simp add: chansend_def view_goto got_def)
next
  case nc: False
  note I = chan_invD [OF i]
  obtain s q where d: "dequeue (pcs w) (recvq (ch w)) = (s, q)" by fastforce
  show ?thesis
  proof (cases s)
    case (Some sg)
    note d = d [unfolded Some] and D = deq_parts [OF d [unfolded Some]]
    have z: "ring (ch w) = []" using I(6) [OF D(5)] by (simp add: ring_def)
    have ne: "g \<noteq> sg_g sg" using q_ok_absent [OF I(3) _ g(1) D(3)] by simp
    have lt: "sg_g sg < length (pcs w)" using I(3) D(3) by (simp add: q_ok_def)
    show ?thesis
    proof (rule viewI)
      show "fifo_step (dataqsiz (ch w)) (chan_abs w) [v] [v] (chan_abs (chansend g v block w))"
        using nc d z by (simp add: chansend_def send_def chan_abs_def ring_cong f_pass)
      have "got (pcs (chansend g v block w) ! sg_g sg) = Some v"
        "\<forall>h < length (pcs w). h \<noteq> sg_g sg \<longrightarrow> got (pcs (chansend g v block w) ! h) = None \<or> got (pcs (chansend g v block w) ! h) = got (pcs w ! h)"
        using nc d ne lt by (auto simp: chansend_def send_def nth_upd)
      then show "handed w [v] (chansend g v block w)" using lt by (auto simp: handed_def)
    qed (use nc d in \<open>simp_all add: chansend_def send_def\<close>)
  next
    case None
    show ?thesis
    proof (cases "qcount (ch w) < dataqsiz (ch w)")
      case True
      have P: "ring (put_buf v ((ch w)\<lparr>recvq := q\<rparr>)) = ring (ch w) @ [v]"
        using ring_put(2) [of "(ch w)\<lparr>recvq := q\<rparr>" v] I(1) True by (simp add: ring_cong)
      define c where "c = put_buf v ((ch w)\<lparr>recvq := q\<rparr>)"
      have c: "closed c = closed (ch w)" "dataqsiz c = dataqsiz (ch w)" "ring c = ring (ch w) @ [v]"
        using P by (simp_all add: c_def) (simp_all add: put_buf_def)
      have eq: "chansend g v block w = goto g (ChRet Sent) (w\<lparr>ch := c, accepted := accepted w @ [v]\<rparr>)"
        using nc d None True by (simp add: chansend_def Let_def c_def)
      show ?thesis
      proof (rule viewI)
        show "fifo_step (dataqsiz (ch w)) (chan_abs w) [v] [] (chan_abs (chansend g v block w))"
          using eq c nc True f_put [of "ring (ch w)" "dataqsiz (ch w)" v] by (simp add: chan_abs_def)
        show "handed w [] (chansend g v block w)" using eq by (auto simp: handed_def nth_upd)
      qed (use eq c in simp_all)
    next
      case False
      show ?thesis
        by (rule view_skip [where g = g and p = "if block then SendParked else ChRet NotSent"])
          (use nc d None False in \<open>simp_all add: chansend_def Let_def ring_cong got_def\<close>)
    qed
  qed
qed

lemma chanrecv_view:
  assumes i: "chan_inv w" and g: "off (pcs w ! g)" "g < length (pcs w)"
  shows "fifo_view w (chanrecv g block w)"
proof (cases "closed (ch w) \<and> qcount (ch w) = 0")
  case True
  then show ?thesis by (simp add: chanrecv_def view_goto got_def)
next
  case nc: False
  note I = chan_invD [OF i]
  obtain s q where d: "dequeue (pcs w) (sendq (ch w)) = (s, q)" by fastforce
  show ?thesis
  proof (cases s)
    case (Some sg)
    note d = d [unfolded Some] and D = deq_parts [OF d [unfolded Some]]
    obtain v w1 where r: "recv sg (w\<lparr>ch := (ch w)\<lparr>sendq := q\<rparr>\<rparr>) = (v, w1)" by fastforce
    obtain e where e: "ring (ch w) @ [e] = v # ring (ch w1)" "accepted w1 = accepted w @ [e]" "delivered w1 = delivered w @ [v]"
      "dataqsiz (ch w1) = dataqsiz (ch w)"
      using recv_parts [OF i d r] by blast
    note R = inv_recv [OF i d r]
    have op: "\<not> closed (ch w)" using I(9) D(3) by auto
    have z: "qcount (ch w) = dataqsiz (ch w)" by (rule I(7) [OF D(5)])
    have ne: "g \<noteq> sg_g sg" using q_ok_absent [OF I(4) _ g(1) D(3)] by simp
    have eq: "chanrecv g block w = goto g (ChRet (Got v)) w1" using op d r by (auto simp: chanrecv_def Let_def)
    show ?thesis
    proof (rule viewI)
      show "fifo_step (dataqsiz (ch w)) (chan_abs w) [e] [v] (chan_abs (chanrecv g block w))"
      proof (cases "ring (ch w)")
        case Nil
        then show ?thesis using e(1) eq op R(3) f_pass by (simp add: chan_abs_def)
      next
        case (Cons a l)
        then have "v = a" "ring (ch w1) = l @ [e]" "length l + 1 = dataqsiz (ch w)"
          using e(1) z ring_length [of "ch w"] by auto
        then show ?thesis using Cons eq op R(3) f_rotate [of l] by (simp add: chan_abs_def)
      qed
      show "handed w [v] (chanrecv g block w)"
        using g(2) eq R(2) by (auto simp: handed_def nth_upd got_def [of "ChRet _"] intro!: exI [of _ g])
    qed (use eq e R(2) in simp_all)
  next
    case None
    show ?thesis
    proof (cases "0 < qcount (ch w)")
      case True
      obtain v c where t: "take_buf ((ch w)\<lparr>sendq := q\<rparr>) = (v, c)" by fastforce
      have T: "ring (ch w) = v # ring c" "closed c = closed (ch w)" "dataqsiz c = dataqsiz (ch w)"
        using ring_take [OF _ _ t] I(1) True by (simp_all add: ring_cong)
      have eq: "chanrecv g block w = goto g (ChRet (Got v)) (w\<lparr>ch := c, delivered := delivered w @ [v]\<rparr>)"
        using nc d None True t by (simp add: chanrecv_def Let_def)
      show ?thesis
      proof (rule viewI)
        show "fifo_step (dataqsiz (ch w)) (chan_abs w) [] [v] (chan_abs (chanrecv g block w))"
          using eq T f_take by (simp add: chan_abs_def)
        show "handed w [v] (chanrecv g block w)"
          using g(2) eq by (auto simp: handed_def nth_upd got_def intro!: exI [of _ g])
      qed (use eq T in simp_all)
    next
      case False
      show ?thesis
        by (rule view_skip [where g = g and p = "if block then RecvParked else ChRet NotReady"])
          (use nc d None False in \<open>simp_all add: chanrecv_def Let_def ring_cong got_def\<close>)
    qed
  qed
qed

lemma wake_all_got:
  "(\<And>sg. got (f sg) = None) \<Longrightarrow> got (wake_all f q ps ! h) = None \<or> got (wake_all f q ps ! h) = got (ps ! h)"
proof (induction f q ps rule: wake_all.induct)
  case (2 f sg q ps)
  show ?case
  proof (cases "wakeable ps sg")
    case True
    then show ?thesis using 2(1) [OF 2(2)] 2(2) by (auto simp: nth_upd split: if_splits)
  qed (use 2 in simp)
qed simp

lemma closechan_view:
  assumes "chan_inv w" "off (pcs w ! g)" "g < length (pcs w)"
  shows "fifo_view w (closechan g w)"
proof (cases "closed (ch w)")
  case True
  then show ?thesis by (simp add: closechan_def view_goto got_def)
next
  case False
  define p1 where "p1 = wake_all (\<lambda>sg. recv_woken sg None) (recvq (ch w)) (pcs w)"
  define p2 where "p2 = wake_all (\<lambda>sg. send_woken sg False) (sendq (ch w)) p1"
  have eq: "closechan g w = goto g (ChRet Closed) (w\<lparr>ch := (ch w)\<lparr>closed := True, recvq := [], sendq := []\<rparr>, pcs := p2\<rparr>)"
    using False by (simp add: closechan_def p1_def p2_def Let_def)
  have len: "length p2 = length (pcs w)" by (simp add: p1_def p2_def)
  have "got (p2 ! h) = None \<or> got (p2 ! h) = got (p1 ! h)" "got (p1 ! h) = None \<or> got (p1 ! h) = got (pcs w ! h)" for h
    unfolding p2_def p1_def by (rule wake_all_got; simp)+
  then have gots: "got (p2 ! h) = None \<or> got (p2 ! h) = got (pcs w ! h)" for h by metis
  have r: "ring ((ch w)\<lparr>closed := True, recvq := [], sendq := []\<rparr>) = ring (ch w)" by (simp add: ring_def)
  show ?thesis
  proof (rule viewI)
    show "fifo_step (dataqsiz (ch w)) (chan_abs w) [] [] (chan_abs (closechan g w))"
      using eq False r f_close by (simp add: chan_abs_def)
    show "handed w [] (closechan g w)" using eq gots by (auto simp: handed_def nth_upd got_def [of "ChRet _"])
  qed (use eq len in simp_all)
qed

lemma chan_op_view:
  assumes "chan_op w g w'" "chan_inv w"
  shows "fifo_view w w'"
  using assms(1)
proof cases
  case (c_recv_resumed x)
  then show ?thesis by (auto simp: recv_resumed_def got_def split: option.splits intro!: view_goto)
qed (use assms(2) in \<open>auto simp: nbsend_open_def nbsend_full_def nbrecv_empty_def nbrecv_open_def send_resumed_def
      got_def intro!: view_goto chansend_view chanrecv_view closechan_view\<close>)

lemma view_same:
  "ring (ch w') = ring (ch w) \<Longrightarrow> closed (ch w') = closed (ch w) \<Longrightarrow> accepted w' = accepted w \<Longrightarrow> delivered w' = delivered w \<Longrightarrow>
   dataqsiz (ch w') = dataqsiz (ch w) \<Longrightarrow> pcs w' = pcs w \<Longrightarrow> fifo_view w w'"
  using view_skip [of w' w 0 "pcs w ! 0"] by simp

lemma chan_step_view:
  assumes "chan_step w g w'" "chan_inv w"
  shows "fifo_view w w'"
  using assms(1)
proof cases
  case c_op
  then show ?thesis by (rule chan_op_view [OF _ assms(2)])
next
  case c_look_recv
  then show ?thesis by (intro view_same) (simp_all add: look_recv_def ring_def)
next
  case c_look_send
  then show ?thesis by (intro view_same) (simp_all add: look_send_def ring_def)
next
  case (c_select r rs ss)
  then show ?thesis
    by (intro view_skip [where g = g and p = "SelParked False"]) (simp_all add: select_park_eq ring_def got_def)
next
  case c_leave
  have "got (ChRet (left_ret (pcs w ! g))) = None \<or> got (ChRet (left_ret (pcs w ! g))) = got (pcs w ! g)"
    by (auto simp: got_def left_ret_def split: chan_pc.splits option.splits)
  then show ?thesis
    unfolding c_leave(1) by (intro view_skip [where g = g and p = "ChRet (left_ret (pcs w ! g))"]) (simp_all add: select_leave_def ring_def)
qed (auto simp: got_def intro!: view_goto)

subsection \<open>What a user of a channel relies on\<close>

text \<open>
  Something that holds elements: what a step gives away and then holds is what it held and took in,
  in that order. Over any number of steps, then, nothing is lost, made up or overtaken.
\<close>

locale lossless =
  fixes ok :: "'s \<Rightarrow> bool" and step :: "'s \<Rightarrow> 's \<Rightarrow> bool" and inside took gave :: "'s \<Rightarrow> 'v list"
  assumes keep: "ok s \<Longrightarrow> step s s' \<Longrightarrow> ok s'"
    and law: "ok s \<Longrightarrow> step s s' \<Longrightarrow>
      \<exists>inp out. took s' = took s @ inp \<and> gave s' = gave s @ out \<and> out @ inside s' = inside s @ inp"
begin

lemma law_many:
  assumes "step\<^sup>*\<^sup>* s s'" "ok s"
  shows "ok s' \<and> (\<exists>inp out. took s' = took s @ inp \<and> gave s' = gave s @ out \<and> out @ inside s' = inside s @ inp)"
  using assms
proof (induction rule: rtranclp_induct)
  case base
  then show ?case by simp
next
  case (step s1 s2)
  then obtain i1 o1 where 1: "ok s1" "took s1 = took s @ i1" "gave s1 = gave s @ o1" "o1 @ inside s1 = inside s @ i1" by blast
  obtain i2 o2 where 2: "took s2 = took s1 @ i2" "gave s2 = gave s1 @ o2" "o2 @ inside s2 = inside s1 @ i2" using law [OF 1(1) step(2)] by blast
  have "(o1 @ o2) @ inside s2 = inside s @ i1 @ i2" using 1(4) 2(3) by (metis append.assoc)
  then show ?case using 1 2 keep [OF 1(1) step(2)] by auto
qed

lemma in_order: "step\<^sup>*\<^sup>* s s' \<Longrightarrow> ok s \<Longrightarrow> took s = gave s @ inside s \<Longrightarrow> took s' = gave s' @ inside s'"
  using law_many [of s s'] by auto

end

lemma fifo_law: "fifo_step n (q, s) inp out (q', s') \<Longrightarrow> out @ q' = q @ inp"
  by (cases rule: fifo_step.cases) auto

interpretation chan_queue: lossless chan_inv "\<lambda>w w'. \<exists>g. chan_step w g w'" "\<lambda>w. ring (ch w)" accepted delivered
proof
  fix w w' :: "'a chan_world"
  assume i: "chan_inv w" and s: "\<exists>g. chan_step w g w'"
  then show "chan_inv w'" using chan_step_inv by blast
  obtain g where "chan_step w g w'" using s by blast
  then show "\<exists>inp out. accepted w' = accepted w @ inp \<and> delivered w' = delivered w @ out \<and> out @ ring (ch w') = ring (ch w) @ inp"
    using chan_step_view [OF _ i] by (fastforce simp: fifo_view_def chan_abs_def dest: fifo_law)
qed

lemma chan_steps_star: "chan_steps w w' \<Longrightarrow> (\<lambda>w w'. \<exists>g. chan_step w g w')\<^sup>*\<^sup>* w w'"
  by (induction rule: chan_steps.induct) (auto intro: rtranclp.rtrancl_into_rtrancl)

lemma paired_select:
  assumes "q_ok ps RecvParked rq" "q_ok ps SendParked sq" "paired n rq sq"
  shows "rq = [] \<or> sq = [] \<or> n = 0 \<and> (\<exists>g. \<forall>sg \<in> set rq \<union> set sq. sg_g sg = g \<and> isSelect sg)"
proof (cases "rq = [] \<or> sq = []")
  case False
  then obtain g where g: "n = 0" "\<forall>sg \<in> set rq \<union> set sq. sg_g sg = g" using assms(3) by (auto simp: paired_def)
  have r: "\<forall>sg \<in> set rq. if isSelect sg then is_sel (ps ! g) else ps ! g = RecvParked"
    and s: "\<forall>sg \<in> set sq. if isSelect sg then is_sel (ps ! g) else ps ! g = SendParked"
    using assms(1,2) g(2) by (auto simp: q_ok_def)
  obtain a b where "a \<in> set rq" "b \<in> set sq" using False by (metis last_in_set)
  then have "is_sel (ps ! g)" using r s by (auto split: if_splits)
  then show ?thesis using r s g by (auto split: if_splits)
qed blast

lemma chan_run_shape:
  "chan_run n c w \<Longrightarrow> fresh_chan c \<Longrightarrow> dataqsiz (ch w) = dataqsiz c \<and> length (pcs w) = n"
proof (induction rule: chan_run.induct)
  case chan_start
  then show ?case by (simp add: chan_init_def)
next
  case (chan_next w g w')
  then show ?case using chan_step_view [OF _ chan_run_inv] by (force simp: fifo_view_def)
qed

lemma makechan_dataqsiz: "makechan maxAlloc e sz = Inr c \<Longrightarrow> dataqsiz c = nat sz"
  by (auto simp: makechan_def Let_def split: if_splits)

text \<open>
  C3: every step of the goroutines on a channel \<open>makechan\<close> has made, sending, receiving, closing
  or in a \<open>select\<close>, is a step of a queue bounded by the size asked for: what it takes in goes to
  the back, what it gives away comes from the front and is in the hands of one goroutine, a closed
  queue takes nothing in and stays closed; and at all times the elements accepted are those
  delivered, in the same order, and then those in the ring.
\<close>

theorem channel_implements_queue:
  assumes "makechan maxAlloc e sz = Inr c" "chan_run n c w" "chan_step w g w'"
  shows "(\<exists>inp out. fifo_step (nat sz) (chan_abs w) inp out (chan_abs w') \<and> accepted w' = accepted w @ inp \<and>
      delivered w' = delivered w @ out \<and> handed w out w') \<and>
    accepted w = delivered w @ ring (ch w) \<and> length (ring (ch w)) \<le> nat sz"
proof -
  note f = makechan_fresh [OF assms(1)]
  note i = chan_run_inv [OF assms(2) f]
  have d: "dataqsiz (ch w) = nat sz" using chan_run_shape [OF assms(2) f] makechan_dataqsiz [OF assms(1)] by simp
  show ?thesis
    using chan_step_view [OF assms(3) i] chan_invD(1,2) [OF i] d by (simp add: fifo_view_def ring_ok_def)
qed

text \<open>A channel for two elements.\<close>

definition two_chan :: "nat hchan" where
  "two_chan = \<lparr>qcount = 0, dataqsiz = 2, buf = [None, None], closed = False, sendx = 0, recvx = 0, recvq = [], sendq = []\<rparr>"

text \<open>An element of a machine word.\<close>

definition word_elem :: elem_type where
  "word_elem = \<lparr>elem_size = 8, elem_align = 8\<rparr>"

lemma two_chan_made: "makechan 281474976710656 word_elem 2 = Inr two_chan"
proof -
  have "replicate (nat 2) None = [None, None :: nat option]" by (simp add: numeral_2_eq_2)
  then show ?thesis by (simp add: makechan_def word_elem_def maxAlign_def two_chan_def hchanSize_def u64_def)
qed

theorem channel_implements_queue_witness:
  "makechan 281474976710656 word_elem 2 = Inr two_chan \<and> accepted (chansend 0 7 True (chan_init 1 two_chan)) = [7] \<and>
   (\<exists>inp out. fifo_step 2 ([], False) inp out (chan_abs (chansend 0 7 True (chan_init 1 two_chan))) \<and> [7] = inp \<and> [] = out)"
proof -
  let ?w = "chan_init 1 two_chan"
  have s: "chan_step ?w 0 (chansend 0 7 True ?w)" by (rule c_op, rule c_send [of _ _ NoCall]) (simp_all add: chan_init_def)
  have a: "accepted (chansend 0 7 True ?w) = [7]" "delivered (chansend 0 7 True ?w) = []" "chan_abs ?w = ([], False)"
    by (simp_all add: chansend_def chan_init_def two_chan_def chan_abs_def ring_def)
  then show ?thesis
    using channel_implements_queue [OF two_chan_made chan_start s] by (auto simp: two_chan_made chan_init_def)
qed

subsection \<open>The invariants of the file\<close>

text \<open>
  C20: on a channel \<open>makechan\<close> has made the two queues of waiters are not both in use, except on an
  unbuffered channel by one goroutine in a \<open>select\<close>; on a buffered one no receiver is in the queue
  while there are elements, and no sender while there is room; nobody is in a queue of a closed
  channel; and the indices of the ring are in bounds.
\<close>

theorem channel_invariants_hold:
  assumes "makechan maxAlloc e sz = Inr c" "chan_run n c w"
  shows "(recvq (ch w) = [] \<or> sendq (ch w) = [] \<or>
      dataqsiz (ch w) = 0 \<and> (\<exists>g. \<forall>sg \<in> set (recvq (ch w)) \<union> set (sendq (ch w)). sg_g sg = g \<and> isSelect sg)) \<and>
    (0 < qcount (ch w) \<longrightarrow> recvq (ch w) = []) \<and> (qcount (ch w) < dataqsiz (ch w) \<longrightarrow> sendq (ch w) = []) \<and>
    (closed (ch w) \<longrightarrow> recvq (ch w) = [] \<and> sendq (ch w) = []) \<and>
    dataqsiz (ch w) = nat sz \<and> qcount (ch w) \<le> nat sz \<and> length (buf (ch w)) = nat sz \<and>
    (0 < sz \<longrightarrow> recvx (ch w) < nat sz \<and> sendx (ch w) = (recvx (ch w) + qcount (ch w)) mod nat sz)"
proof -
  note f = makechan_fresh [OF assms(1)]
  note i = chan_run_inv [OF assms(2) f]
  note I = chan_invD [OF i]
  have d: "dataqsiz (ch w) = nat sz" using chan_run_shape [OF assms(2) f] makechan_dataqsiz [OF assms(1)] by simp
  have "recvq (ch w) = [] \<or> sendq (ch w) = [] \<or>
      dataqsiz (ch w) = 0 \<and> (\<exists>g. \<forall>sg \<in> set (recvq (ch w)) \<union> set (sendq (ch w)). sg_g sg = g \<and> isSelect sg)"
    using paired_select [OF I(3,4,8)] by blast
  moreover have "0 < qcount (ch w) \<longrightarrow> recvq (ch w) = []" "qcount (ch w) < dataqsiz (ch w) \<longrightarrow> sendq (ch w) = []"
    using I(6,7) by fastforce+
  ultimately show ?thesis using I(1,9) d by (auto simp: ring_ok_def)
qed

theorem channel_invariants_hold_witness:
  "length (buf (ch (chansend 0 7 True (chan_init 1 two_chan)))) = 2 \<and> sendq (ch (chansend 0 7 True (chan_init 1 two_chan))) = []"
proof -
  let ?w = "chan_init 1 two_chan"
  have s: "chan_step ?w 0 (chansend 0 7 True ?w)" by (rule c_op, rule c_send [of _ _ NoCall]) (simp_all add: chan_init_def)
  have q: "qcount (ch (chansend 0 7 True ?w)) = 1"
    by (simp add: chansend_def chan_init_def two_chan_def put_buf_def)
  show ?thesis using channel_invariants_hold [OF two_chan_made chan_next [OF chan_start s]] q by simp
qed

subsection \<open>Nobody waits for what is there\<close>

lemma parked_in_queue:
  assumes "q_ok ps pk q" "park_pc pk" "g < length ps" "ps ! g = pk"
  shows "\<exists>sg \<in> set q. sg_g sg = g \<and> \<not> isSelect sg \<and> wakeable ps sg"
proof -
  obtain sg where sg: "sg \<in> set q" "sg_g sg = g" using assms(1,3,4) by (force simp: q_ok_def)
  then have "\<not> isSelect sg" using assms(1,4) park_simps [OF assms(2)] by (auto simp: q_ok_def)
  then show ?thesis using sg by (auto simp: wakeable_def)
qed

lemma q_ok_alone:
  assumes "q_ok ps pk q" "park_pc pk" "sg \<in> set q" "\<not> isSelect sg" "s \<in> set q" "sg_g s = sg_g sg"
  shows "s = sg"
proof -
  have "ps ! sg_g sg = pk" using assms(1,3,4) by (auto simp: q_ok_def)
  then have "\<not> isSelect s" using assms(1,5,6) park_simps [OF assms(2)] by (auto simp: q_ok_def split: if_splits)
  then show ?thesis using assms by (auto simp: q_ok_def distinct_map inj_on_def)
qed

lemma wake_all_wakes:
  "sg \<in> set q \<Longrightarrow> \<not> isSelect sg \<Longrightarrow> \<forall>s \<in> set q. sg_g s = sg_g sg \<longrightarrow> s = sg \<Longrightarrow> sg_g sg < length ps \<Longrightarrow>
   wake_all f q ps ! sg_g sg = f sg"
proof (induction f q ps rule: wake_all.induct)
  case (2 f s q ps)
  show ?case
  proof (cases "sg \<in> set q")
    case True
    then show ?thesis using 2(1) 2(3-5) by simp
  next
    case False
    then have "sg = s" "\<forall>s' \<in> set q. sg_g s' \<noteq> sg_g sg" using 2(2,4) by auto
    then show ?thesis using 2(3,5) by (simp add: wake_all_absent wakeable_def)
  qed
qed simp

lemma dequeue_wakeable: "waits ps q \<Longrightarrow> \<exists>sg q'. dequeue ps q = (Some sg, q')"
  by (induction ps q rule: dequeue.induct) (auto simp: waits_def)

lemma recv_blocked:
  assumes i: "chan_inv w" and g: "g < length (pcs w)" "pcs w ! g = RecvParked"
  shows "\<not> closed (ch w) \<and> ring (ch w) = [] \<and> \<not> waits (pcs w) (sendq (ch w))"
    "pcs w ! h = ChRet r \<Longrightarrow> h < length (pcs w) \<Longrightarrow> pcs (chansend h v block w) ! h = ChRet Sent"
    "pcs w ! h = ChRet r \<Longrightarrow> pcs (closechan h w) ! g = RecvWoken None"
proof -
  note I = chan_invD [OF i]
  obtain sg where sg: "sg \<in> set (recvq (ch w))" "sg_g sg = g" "\<not> isSelect sg" "wakeable (pcs w) sg"
    using parked_in_queue [OF I(3) _ g] by auto
  have w: "waits (pcs w) (recvq (ch w))" using sg by (auto simp: waits_def list_ex_iff)
  have nc: "\<not> closed (ch w)" using I(9) sg(1) by auto
  have q: "recvq (ch w) \<noteq> []" using sg(1) by auto
  have ne: "sg_g s \<noteq> g" if "s \<in> set (sendq (ch w))" for s
    using I(4) that g(2) by (auto simp: q_ok_def split: if_splits)
  have "\<not> waits (pcs w) (sendq (ch w))"
    using I(8) sg ne by (fastforce simp: paired_def waits_def list_ex_iff)
  then show "\<not> closed (ch w) \<and> ring (ch w) = [] \<and> \<not> waits (pcs w) (sendq (ch w))"
    using nc I(6) [OF q] by (simp add: ring_def)
  show "pcs (chansend h v block w) ! h = ChRet Sent" if h: "pcs w ! h = ChRet r" "h < length (pcs w)"
  proof -
    obtain s q where "dequeue (pcs w) (recvq (ch w)) = (Some s, q)" using dequeue_wakeable [OF w] by blast
    then show ?thesis using nc h by (simp add: chansend_def send_def)
  qed
  show "pcs (closechan h w) ! g = RecvWoken None" if h: "pcs w ! h = ChRet r"
  proof -
    have "h \<noteq> g" using h g(2) by auto
    moreover have "wake_all (\<lambda>sg. recv_woken sg None) (recvq (ch w)) (pcs w) ! g = RecvWoken None"
      using wake_all_wakes [OF sg(1,3), of "pcs w" "\<lambda>sg. recv_woken sg None"] q_ok_alone [OF I(3) _ sg(1,3)] sg(2,3) g(1)
      by (simp add: recv_woken_def)
    ultimately show ?thesis using nc ne by (simp add: closechan_def Let_def wake_all_absent)
  qed
qed

lemma send_blocked:
  assumes i: "chan_inv w" and g: "g < length (pcs w)" "pcs w ! g = SendParked"
  shows "\<not> closed (ch w) \<and> length (ring (ch w)) = dataqsiz (ch w) \<and> \<not> waits (pcs w) (recvq (ch w))"
    "pcs w ! h = ChRet r \<Longrightarrow> h < length (pcs w) \<Longrightarrow> \<exists>x. pcs (chanrecv h block w) ! h = ChRet (Got x)"
    "pcs w ! h = ChRet r \<Longrightarrow> pcs (closechan h w) ! g = SendWoken False"
proof -
  note I = chan_invD [OF i]
  obtain sg where sg: "sg \<in> set (sendq (ch w))" "sg_g sg = g" "\<not> isSelect sg" "wakeable (pcs w) sg"
    using parked_in_queue [OF I(4) _ g] by auto
  have w: "waits (pcs w) (sendq (ch w))" using sg by (auto simp: waits_def list_ex_iff)
  have nc: "\<not> closed (ch w)" using I(9) sg(1) by auto
  have q: "sendq (ch w) \<noteq> []" using sg(1) by auto
  have ne: "sg_g s \<noteq> g" if "s \<in> set (recvq (ch w))" for s
    using I(3) that g(2) by (auto simp: q_ok_def split: if_splits)
  have "\<not> waits (pcs w) (recvq (ch w))"
    using I(8) sg ne by (fastforce simp: paired_def waits_def list_ex_iff)
  then show "\<not> closed (ch w) \<and> length (ring (ch w)) = dataqsiz (ch w) \<and> \<not> waits (pcs w) (recvq (ch w))"
    using nc I(7) [OF q] by simp
  show "\<exists>x. pcs (chanrecv h block w) ! h = ChRet (Got x)" if h: "pcs w ! h = ChRet r" "h < length (pcs w)"
  proof -
    obtain s q where d: "dequeue (pcs w) (sendq (ch w)) = (Some s, q)" using dequeue_wakeable [OF w] by blast
    obtain x w1 where r: "recv s (w\<lparr>ch := (ch w)\<lparr>sendq := q\<rparr>\<rparr>) = (x, w1)" by fastforce
    show ?thesis using nc h d r inv_recv(2) [OF i d r] by (simp add: chanrecv_def Let_def)
  qed
  show "pcs (closechan h w) ! g = SendWoken False" if h: "pcs w ! h = ChRet r"
  proof -
    have hg: "h \<noteq> g" using h g(2) by auto
    let ?ps = "wake_all (\<lambda>sg. recv_woken sg None) (recvq (ch w)) (pcs w)"
    have "wake_all (\<lambda>sg. send_woken sg False) (sendq (ch w)) ?ps ! g = SendWoken False"
      using wake_all_wakes [OF sg(1,3), of ?ps "\<lambda>sg. send_woken sg False"] q_ok_alone [OF I(4) _ sg(1,3)] sg(2,3) g(1)
      by (simp add: send_woken_def)
    then show ?thesis using nc hg by (simp add: closechan_def Let_def)
  qed
qed

text \<open>
  C4: a goroutine parked in \<open>chanrecv\<close> waits on a channel that is open and empty with no sender
  to be served, and one parked in \<open>chansend\<close> on one that is open and full with no receiver; the
  next goroutine that sends, or receives, does so at once, and one that closes the channel wakes
  them, the receiver with nothing, the sender to panic.
\<close>

theorem nobody_waits_in_vain:
  assumes "makechan maxAlloc e sz = Inr c" "chan_run n c w" "g < n" "h < n" "pcs w ! h = ChRet r"
  shows "(pcs w ! g = RecvParked \<longrightarrow>
      \<not> closed (ch w) \<and> ring (ch w) = [] \<and> \<not> waits (pcs w) (sendq (ch w)) \<and>
      pcs (chansend h v True w) ! h = ChRet Sent \<and> pcs (closechan h w) ! g = RecvWoken None) \<and>
    (pcs w ! g = SendParked \<longrightarrow>
      \<not> closed (ch w) \<and> length (ring (ch w)) = nat sz \<and> \<not> waits (pcs w) (recvq (ch w)) \<and>
      (\<exists>x. pcs (chanrecv h True w) ! h = ChRet (Got x)) \<and> pcs (closechan h w) ! g = SendWoken False)"
proof -
  note f = makechan_fresh [OF assms(1)]
  note i = chan_run_inv [OF assms(2) f]
  have d: "dataqsiz (ch w) = nat sz" "length (pcs w) = n"
    using chan_run_shape [OF assms(2) f] makechan_dataqsiz [OF assms(1)] by simp_all
  show ?thesis
    using recv_blocked [OF i, of g] send_blocked [OF i, of g] assms(3-5) d by auto
qed

theorem nobody_waits_in_vain_witness:
  "pcs (chanrecv 0 True (chan_init 2 two_chan)) ! 0 = RecvParked \<and>
   pcs (chansend 1 7 True (chanrecv 0 True (chan_init 2 two_chan))) ! 1 = ChRet Sent \<and>
   pcs (closechan 1 (chanrecv 0 True (chan_init 2 two_chan))) ! 0 = RecvWoken None"
proof -
  let ?w = "chan_init 2 two_chan"
  have s: "chan_step ?w 0 (chanrecv 0 True ?w)" by (rule c_op, rule c_recv [of _ _ NoCall]) (simp_all add: chan_init_def)
  have a: "pcs (chanrecv 0 True ?w) = [RecvParked, ChRet NoCall]"
    by (simp add: chanrecv_def chan_init_def two_chan_def numeral_2_eq_2)
  show ?thesis
    using nobody_waits_in_vain [OF two_chan_made chan_next [OF chan_start s], of 0 1 NoCall 7] a by simp
qed

end
