(* ===== verification/GoChanClose.thy ===== *)
theory GoChanClose
  imports GoChanRuns
begin

text \<open>
  What closing a channel of \<open>src/src/runtime/chan.go\<close> means to the goroutines on it, and the two
  fast paths of the operations that do not block, whose reads are not under the lock.
\<close>

subsection \<open>The zero value\<close>

text \<open>A goroutine that was told the channel is closed and has nothing for it.\<close>

definition told :: "'v chan_pc \<Rightarrow> bool" where
  "told p \<longleftrightarrow> p = ChRet GotZero \<or> p = RecvWoken None"

definition drained :: "'v chan_world \<Rightarrow> bool" where
  "drained w \<longleftrightarrow> closed (ch w) \<and> qcount (ch w) = 0"

definition told_ok :: "'v chan_world \<Rightarrow> bool" where
  "told_ok w \<longleftrightarrow> (\<forall>g < length (pcs w). told (pcs w ! g) \<longrightarrow> drained w)"

lemma drained_stays:
  assumes "fifo_view w w'" "drained w"
  shows "drained w'"
proof -
  have d: "ring (ch w) = []" "closed (ch w)" using assms(2) by (simp_all add: drained_def ring_def)
  obtain inp out where "fifo_step (dataqsiz (ch w)) (chan_abs w) inp out (chan_abs w')"
    using assms(1) by (auto simp: fifo_view_def)
  then have "chan_abs w' = ([], True)" using d by (cases rule: fifo_step.cases) (auto simp: chan_abs_def)
  then show ?thesis using ring_length [of "ch w'"] by (auto simp: drained_def chan_abs_def)
qed

lemma told_step:
  assumes "told_ok w" "fifo_view w w'" "\<And>g. g < length (pcs w) \<Longrightarrow> told (pcs w' ! g) \<Longrightarrow> told (pcs w ! g) \<or> drained w'"
  shows "told_ok w'"
  using assms drained_stays [OF assms(2)] by (fastforce simp: told_ok_def fifo_view_def)

lemma told_simps [simp]:
  "\<not> told (recv_woken sg (Some v))" "\<not> told (send_woken sg b)" "told (ChRet r) = (r = GotZero)" "\<not> told SendParked" "\<not> told RecvParked"
  "\<not> told (ChPanic e)" "\<not> told (ChThrow e)" "\<not> told (NbSendOpen v)" "\<not> told (NbSendLock v)" "\<not> told NbRecvEmpty" "\<not> told NbRecvLock"
  "\<not> told (SelParked d)"
  by (simp_all add: told_def recv_woken_def send_woken_def)

lemma told_goto: "told ((pcs w)[g := p] ! h) \<Longrightarrow> \<not> told p \<Longrightarrow> told (pcs w ! h)"
  by (auto simp: nth_upd split: if_splits)

lemma told_chansend: "told (pcs (chansend g v block w) ! h) \<Longrightarrow> told (pcs w ! h)"
  by (auto simp: chansend_def send_def Let_def nth_upd split: if_splits prod.splits option.splits)

lemma recv_pcs: "pcs (snd (recv sg w)) = (pcs w)[sg_g sg := send_woken sg True]"
  by (simp add: recv_def Let_def split: prod.split)

lemma told_chanrecv: "told (pcs (chanrecv g block w) ! h) \<Longrightarrow> told (pcs w ! h) \<or> drained (chanrecv g block w)"
proof (cases "closed (ch w) \<and> qcount (ch w) = 0")
  case True
  then show ?thesis by (simp add: chanrecv_def drained_def)
next
  case nc: False
  assume t: "told (pcs (chanrecv g block w) ! h)"
  obtain s q where d: "dequeue (pcs w) (sendq (ch w)) = (s, q)" by fastforce
  show ?thesis
  proof (cases s)
    case (Some sg)
    obtain v w1 where r: "recv sg (w\<lparr>ch := (ch w)\<lparr>sendq := q\<rparr>\<rparr>) = (v, w1)" by fastforce
    then have "pcs w1 = (pcs w)[sg_g sg := send_woken sg True]"
      using recv_pcs [of sg "w\<lparr>ch := (ch w)\<lparr>sendq := q\<rparr>\<rparr>"] by simp
    then show ?thesis using t nc d Some r by (auto simp: chanrecv_def Let_def nth_upd split: if_splits)
  next
    case None
    then show ?thesis using t nc d
      by (auto simp: chanrecv_def Let_def nth_upd split: if_splits prod.splits)
  qed
qed

lemma wake_all_in: "p \<in> set (wake_all f q ps) \<Longrightarrow> p \<in> set ps \<or> (\<exists>sg. p = f sg)"
proof (induction f q ps rule: wake_all.induct)
  case (2 f sg q ps)
  then show ?case using set_update_subset_insert [of ps "sg_g sg" "f sg"] by (auto split: if_splits)
qed simp

lemma wake_all_told:
  "(\<And>sg. \<not> told (f sg)) \<Longrightarrow> told (wake_all f q ps ! h) \<Longrightarrow> told (ps ! h)"
proof (induction f q ps rule: wake_all.induct)
  case (2 f sg q ps)
  show ?case
  proof (cases "wakeable ps sg")
    case True
    then have "told (ps[sg_g sg := f sg] ! h)" using 2(1) [OF 2(2)] 2(3) by simp
    then show ?thesis using 2(2) by (auto simp: nth_upd split: if_splits)
  qed (use 2 in simp)
qed simp

lemma wake_all_none: "\<not> waits ps q \<Longrightarrow> wake_all f q ps = ps"
  by (induction f q ps rule: wake_all.induct) (auto simp: waits_def)

lemma told_closechan:
  assumes i: "chan_inv w" and t: "told (pcs (closechan g w) ! h)"
  shows "told (pcs w ! h) \<or> drained (closechan g w)"
proof (cases "closed (ch w)")
  case True
  then show ?thesis using t by (auto simp: closechan_def nth_upd split: if_splits)
next
  case False
  let ?p1 = "wake_all (\<lambda>sg. recv_woken sg None) (recvq (ch w)) (pcs w)"
  show ?thesis
  proof (cases "waits (pcs w) (recvq (ch w))")
    case True
    then have "recvq (ch w) \<noteq> []" by (auto simp: waits_def)
    then show ?thesis using chan_invD(6) [OF i] False by (simp add: drained_def closechan_def Let_def)
  next
    case nw: False
    have "told (wake_all (\<lambda>sg. send_woken sg False) (sendq (ch w)) (pcs w) ! h)"
      using t False wake_all_none [OF nw] by (auto simp: closechan_def Let_def nth_upd split: if_splits)
    then show ?thesis using wake_all_told [of "\<lambda>sg. send_woken sg False"] told_simps(2) by blast
  qed
qed

lemma chan_op_told:
  assumes s: "chan_op w g w'" and i: "chan_inv w" and t: "told_ok w"
  shows "told_ok w'"
proof (rule told_step [OF t chan_op_view [OF s i]])
  fix h
  assume h: "h < length (pcs w)" "told (pcs w' ! h)"
  from s show "told (pcs w ! h) \<or> drained w'"
  proof cases
    case (c_send r v)
    then show ?thesis using h(2) told_chansend by auto
  next
    case (c_nbsend_lock v)
    then show ?thesis using h(2) told_chansend by auto
  next
    case (c_recv r)
    then show ?thesis using h(2) told_chanrecv [of _ _ w h] by auto
  next
    case c_nbrecv_lock
    then show ?thesis using h(2) told_chanrecv [of _ _ w h] by auto
  next
    case (c_close r)
    then show ?thesis using h(2) told_closechan [OF i] by auto
  next
    case (c_recv_resumed x)
    then have "drained w" if "x = None" using t that by (auto simp: told_ok_def told_def)
    then show ?thesis using c_recv_resumed h
      by (cases x) (auto simp: recv_resumed_def drained_def nth_upd split: if_splits)
  qed (use h in \<open>auto simp: nbsend_open_def nbsend_full_def nbrecv_empty_def nbrecv_open_def send_resumed_def Let_def nth_upd split: if_splits\<close>)
qed

lemma chan_step_told:
  assumes s: "chan_step w g w'" and i: "chan_inv w" and t: "told_ok w"
  shows "told_ok w'"
  using s
proof cases
  case c_op
  then show ?thesis by (rule chan_op_told [OF _ i t])
next
  case (c_select r rs ss)
  show ?thesis by (rule told_step [OF t chan_step_view [OF s i]]) (use c_select in \<open>auto simp: select_park_eq nth_upd split: if_splits\<close>)
next
  case c_leave
  have "left_ret (pcs w ! g) \<noteq> GotZero" by (auto simp: left_ret_def split: chan_pc.splits option.splits)
  then show ?thesis
    by (intro told_step [OF t chan_step_view [OF s i]]) (use c_leave in \<open>auto simp: select_leave_def nth_upd split: if_splits\<close>)
qed (rule told_step [OF t chan_step_view [OF s i]]; auto simp: look_recv_def look_send_def nth_upd split: if_splits)+

lemma chan_run_told: "chan_run n c w \<Longrightarrow> fresh_chan c \<Longrightarrow> told_ok w"
proof (induction rule: chan_run.induct)
  case chan_start
  then show ?case by (simp add: told_ok_def chan_init_def)
next
  case (chan_next w g w')
  then show ?case using chan_step_told [OF _ chan_run_inv] by blast
qed

text \<open>
  C19: on a channel made by \<open>makechan\<close> no goroutine throws, so none is woken without a reason; one
  panics, or is woken to panic, only when the channel is closed; and one receives the zero value
  only when it is closed and every element accepted has been delivered.
\<close>

theorem close_comes_last:
  assumes "makechan maxAlloc e sz = Inr c" "chan_run n c w" "g < n"
  shows "(\<forall>x. pcs w ! g \<noteq> ChThrow x) \<and>
    (\<forall>x. pcs w ! g = ChPanic x \<or> pcs w ! g = SendWoken False \<longrightarrow> closed (ch w)) \<and>
    (pcs w ! g = ChRet GotZero \<or> pcs w ! g = RecvWoken None \<longrightarrow> closed (ch w) \<and> accepted w = delivered w)"
proof -
  note f = makechan_fresh [OF assms(1)]
  note i = chan_run_inv [OF assms(2) f]
  have g: "g < length (pcs w)" using chan_run_shape [OF assms(2) f] assms(3) by simp
  have "accepted w = delivered w" if "drained w"
    using chan_invD(2) [OF i] that by (simp add: drained_def ring_def)
  then show ?thesis
    using pc_fine_at [OF i g] chan_run_told [OF assms(2) f] g by (auto simp: pc_fine_def told_ok_def told_def drained_def)
qed

theorem close_comes_last_witness:
  "pcs (chanrecv 0 True (closechan 0 (chan_init 1 two_chan))) ! 0 = ChRet GotZero \<and>
   closed (ch (chanrecv 0 True (closechan 0 (chan_init 1 two_chan))))"
proof -
  let ?w = "chan_init 1 two_chan"
  let ?w1 = "closechan 0 ?w"
  have s1: "chan_step ?w 0 ?w1" by (rule c_op, rule c_close [of _ _ NoCall]) (simp_all add: chan_init_def)
  have p1: "pcs ?w1 = [ChRet Closed]" by (simp add: closechan_def chan_init_def two_chan_def)
  have s2: "chan_step ?w1 0 (chanrecv 0 True ?w1)" by (rule c_op, rule c_recv [of _ _ Closed]) (unfold p1, simp_all)
  have "pcs (chanrecv 0 True ?w1) = [ChRet GotZero]"
    by (simp add: closechan_def chanrecv_def chan_init_def two_chan_def)
  then show ?thesis
    using close_comes_last [OF two_chan_made chan_next [OF chan_next [OF chan_start s1] s2], of 0] by simp
qed

subsection \<open>The fast paths\<close>

lemma closed_step:
  assumes "chan_step w g w'" "chan_inv w" "closed (ch w)"
  shows "closed (ch w')"
proof -
  obtain inp out where "fifo_step (dataqsiz (ch w)) (chan_abs w) inp out (chan_abs w')"
    using chan_step_view [OF assms(1,2)] by (auto simp: fifo_view_def)
  then show ?thesis using assms(3) by (cases rule: fifo_step.cases) (auto simp: chan_abs_def)
qed

lemma chan_steps_open:
  "chan_steps w w' \<Longrightarrow> chan_inv w \<Longrightarrow> chan_inv w' \<and> (closed (ch w) \<longrightarrow> closed (ch w'))"
  by (induction rule: chan_steps.induct) (auto intro: chan_step_inv closed_step)

text \<open>
  A receive that does not block reads that the channel is empty and later that it is open: when it
  read the first, the operation under the lock would have answered the same.
\<close>

lemma nbrecv_fast_path:
  assumes "makechan maxAlloc e sz = Inr c" "chan_run n c w" "chan_steps w w'" "g < n"
    "chan_empty (ch w)" "pcs (nbrecv_open g w') ! g = ChRet NotReady"
  shows "pcs (chanrecv g False w) ! g = ChRet NotReady"
proof -
  note f = makechan_fresh [OF assms(1)]
  note i = chan_run_inv [OF assms(2) f]
  have len: "length (pcs w) = n" "length (pcs w') = n"
    using chan_run_shape [OF assms(2) f] chan_run_shape [OF chan_steps_run [OF assms(3,2)] f] by simp_all
  have "\<not> closed (ch w')" using assms(4,6) len by (auto simp: nbrecv_open_def split: if_splits)
  then have op: "\<not> closed (ch w)" using chan_steps_open [OF assms(3) i] by blast
  have z: "qcount (ch w) = 0" using assms(5) chan_invD(1) [OF i] by (auto simp: chan_empty_def ring_ok_def)
  have "dequeue (pcs w) (sendq (ch w)) = (None, [])"
  proof (cases "dataqsiz (ch w) = 0")
    case True
    then show ?thesis using assms(5) by (simp add: chan_empty_def)
  next
    case False
    then have nw: "\<not> waits (pcs w) (sendq (ch w))" using chan_invD(7) [OF i] z by (cases "sendq (ch w)") auto
    obtain s q where d: "dequeue (pcs w) (sendq (ch w)) = (s, q)" by fastforce
    then have "s = None" using nw deq_parts(1) [of "pcs w" "sendq (ch w)"] by (cases s) auto
    then show ?thesis using d dequeue_None by blast
  qed
  then show ?thesis using op z assms(4) len by (simp add: chanrecv_def Let_def)
qed

text \<open>
  The send has no such moment: with a receiver parked on an unbuffered channel it reads that the
  channel is open, the channel is closed, which empties the queue of receivers, and it reads an
  empty queue. It answers that it cannot proceed, though under the lock it would have sent its
  element at any moment before the close, and panicked at any moment after.
\<close>

definition handoff :: "nat hchan" where
  "handoff = \<lparr>qcount = 0, dataqsiz = 0, buf = [], closed = False, sendx = 0, recvx = 0, recvq = [], sendq = []\<rparr>"

lemma nbsend_fast_path_misses:
  "\<exists>w0 w1 w2. makechan 281474976710656 word_elem 0 = Inr handoff \<and> chan_run 3 handoff w0 \<and>
     chan_step w0 1 w1 \<and> w1 = nbsend_open 1 7 w0 \<and> chan_step w1 2 w2 \<and> w2 = closechan 2 w1 \<and>
     pcs (nbsend_full 1 7 w2) ! 1 = ChRet NotSent \<and>
     pcs (chansend 1 7 False w0) ! 1 = ChRet Sent \<and> pcs (chansend 1 7 False w1) ! 1 = ChRet Sent \<and>
     pcs (chansend 1 7 False w2) ! 1 = ChPanic SendOnClosed"
proof -
  let ?i = "chan_init 3 handoff"
  have i: "?i = \<lparr>ch = handoff, pcs = [ChRet NoCall, ChRet NoCall, ChRet NoCall], accepted = [], delivered = []\<rparr>"
    by (simp add: chan_init_def numeral_3_eq_3)
  define w0 where "w0 = chanrecv 0 True ?i"
  define w1 where "w1 = nbsend_open 1 7 w0"
  define w2 where "w2 = closechan 2 w1"
  have w0: "w0 = \<lparr>ch = handoff\<lparr>recvq := [\<lparr>sg_g = 0, sg_elem = None, isSelect = False, sg_case = 0\<rparr>]\<rparr>,
      pcs = [RecvParked, ChRet NoCall, ChRet NoCall], accepted = [], delivered = []\<rparr>"
    unfolding w0_def i by (simp add: chanrecv_def Let_def handoff_def goto_def enqueue_def)
  have w1: "w1 = w0\<lparr>pcs := [RecvParked, NbSendOpen 7, ChRet NoCall]\<rparr>"
    by (simp add: w1_def w0 nbsend_open_def goto_def handoff_def)
  have w2: "w2 = \<lparr>ch = handoff\<lparr>closed := True\<rparr>, pcs = [RecvWoken None, NbSendOpen 7, ChRet Closed], accepted = [], delivered = []\<rparr>"
    by (simp add: w2_def w1 w0 closechan_def goto_def handoff_def wakeable_def recv_woken_def)
  have "chan_step ?i 0 w0" unfolding w0_def by (rule c_op, rule c_recv [of _ _ NoCall]) (simp_all add: i)
  then have "chan_run 3 handoff w0" using chan_next [OF chan_start] by blast
  moreover have "chan_step w0 1 w1" unfolding w1_def by (rule c_op, rule c_nbsend [of _ _ NoCall]) (simp_all add: w0)
  moreover have "chan_step w1 2 w2" unfolding w2_def by (rule c_op, rule c_close [of _ _ NoCall]) (simp_all add: w1)
  moreover have "pcs (nbsend_full 1 7 w2) ! 1 = ChRet NotSent" "pcs (chansend 1 7 False w2) ! 1 = ChPanic SendOnClosed"
    by (simp_all add: w2 nbsend_full_def chansend_def handoff_def chan_full_def)
  moreover have "pcs (chansend 1 7 False w0) ! 1 = ChRet Sent" "pcs (chansend 1 7 False w1) ! 1 = ChRet Sent"
    by (simp_all add: w1 w0 chansend_def send_def handoff_def wakeable_def)
  moreover have "makechan 281474976710656 word_elem 0 = Inr handoff"
    by (simp add: makechan_def word_elem_def maxAlign_def handoff_def hchanSize_def u64_def)
  ultimately show ?thesis using w1_def w2_def by blast
qed

end
