(* ===== verification/GoSelectRuns.thy ===== *)
theory GoSelectRuns
  imports GoSelectSteps GoChanClose
begin

text \<open>
  Programs that use \<open>select\<close> over any number of channels (\<open>src/src/runtime/select.go\<close>): each channel
  is what it is alone, a \<open>select\<close> does one case that is ready, a parked one misses nothing, and the
  locks are taken in one order.
\<close>

subsection \<open>Each channel alone\<close>

interpretation select_queue: lossless "\<lambda>w. sel_inv w \<and> a \<noteq> 0" "\<lambda>w w'. \<exists>g. sel_step w g w'" "\<lambda>w. ring (chans w a)"
    "\<lambda>w. taken w a" "\<lambda>w. given w a" for a
proof
  fix w w' :: "'a sel_world"
  assume i: "sel_inv w \<and> a \<noteq> 0" and s: "\<exists>g. sel_step w g w'"
  then have sim: "sel_inv w'" "chan_steps (view a w) (view a w')" using sel_step_sim by blast+
  then show "sel_inv w' \<and> a \<noteq> 0" using i by blast
  have "chan_inv (view a w)" using i sel_invD(1) by blast
  from chan_queue.law_many [OF chan_steps_star [OF sim(2)] this]
  show "\<exists>inp out. taken w' a = taken w a @ inp \<and> given w' a = given w a @ out \<and> out @ ring (chans w' a) = ring (chans w a) @ inp"
    by simp
qed

lemma sel_run_star: "sel_run n cs w \<Longrightarrow> (\<lambda>w w'. \<exists>g. sel_step w g w')\<^sup>*\<^sup>* (sel_init n cs) w"
  by (induction rule: sel_run.induct) (auto intro: rtranclp.rtrancl_into_rtrancl)

text \<open>
  C5: in a program of goroutines that operate on channels and \<open>select\<close> over them, every channel, seen
  for itself, goes through a run of its own operations, as GoChan has them; so it is a bounded queue
  that gives out in order what it took in.
\<close>

theorem selects_leave_channels_intact:
  assumes "sel_run n cs w" "\<And>b. makechan maxAlloc e (sz b) = Inr (cs b)" "a \<noteq> 0"
  shows "chan_run n (cs a) (view a w) \<and> taken w a = given w a @ ring (chans w a) \<and> length (ring (chans w a)) \<le> nat (sz a)"
proof -
  note f = makechan_fresh [OF assms(2)]
  have r: "chan_run n (cs a) (view a w)" using sel_run_sim [OF assms(1) f] assms(3) by blast
  have "dataqsiz (chans w a) = nat (sz a)" using chan_run_shape [OF r f] makechan_dataqsiz [OF assms(2)] by simp
  then have "length (ring (chans w a)) \<le> nat (sz a)" using chan_invD(1) [OF chan_run_inv [OF r f]] by (simp add: ring_ok_def)
  moreover have "ring (chans (sel_init n cs) a) = []" using f [of a] by (auto simp: sel_init_def fresh_chan_def ring_def)
  then have "taken w a = given w a @ ring (chans w a)"
    using select_queue.in_order [OF sel_run_star [OF assms(1)], of a] sel_init_inv [of cs n, OF f] assms(3) by (simp add: sel_init_def)
  ultimately show ?thesis using r by simp
qed

text \<open>One goroutine that can send on the channel at 1, for two elements.\<close>

definition one_send :: "nat scase list" where
  "one_send = [\<lparr>sc_c = 1, sc_elem = Some 7, sc_kind = caseSend\<rparr>]"

definition one_recv :: "nat scase list" where
  "one_recv = [\<lparr>sc_c = 1, sc_elem = None, sc_kind = caseRecv\<rparr>]"

lemma one_ok: "\<forall>cas \<in> set one_send. case_ok cas" "\<forall>cas \<in> set one_recv. case_ok cas" "length one_send \<le> 2 ^ 16" "length one_recv \<le> 2 ^ 16"
  by (simp_all add: one_send_def one_recv_def case_ok_def)

lemma one_run:
  assumes "\<forall>cas \<in> set cases. case_ok cas" "length cases \<le> 2 ^ 16"
  shows "sel_run 1 (\<lambda>a. two_chan) (selectgo 0 r cases (sel_init 1 (\<lambda>a. two_chan)))"
  by (rule sel_next [OF sel_start s_select]) (use assms in \<open>simp_all add: sel_init_def\<close>)

theorem selects_leave_channels_intact_witness:
  "chan_run 1 two_chan (view 1 (selectgo 0 (0, 0) one_send (sel_init 1 (\<lambda>a. two_chan))))"
  using selects_leave_channels_intact [OF one_run [OF one_ok(1,3), of "(0, 0)"] two_chan_made, of 1] by simp

subsection \<open>One case that is ready\<close>

text \<open>
  C17: \<open>selectgo\<close> does one case that is ready, on its channel and with its index: a receive gets an
  element or the zero value, a send is accepted or panics; if no case is ready it takes the default
  if there is one, and parks otherwise.
\<close>

theorem selectgo_does_a_ready_case:
  assumes "sel_run n cs w" "\<And>b. makechan maxAlloc e (sz b) = Inr (cs b)" "g < n" "at_rest (gos w ! g)"
    "\<forall>cas \<in> set cases. case_ok cas" "length cases \<le> 2 ^ 16"
  shows "(\<exists>k < length cases. case_ready w (nil_case (cases ! k)) \<and> done_case (map nil_case cases) k (gos (selectgo g r cases w) ! g)) \<or>
    (\<forall>k < length cases. \<not> case_ready w (nil_case (cases ! k))) \<and>
      ((\<exists>k < length cases. sc_kind (cases ! k) = caseDefault \<and> gos (selectgo g r cases w) ! g = SelRet 0 k NotReady) \<or>
       (\<forall>k < length cases. sc_kind (cases ! k) \<noteq> caseDefault) \<and> (\<exists>f. s_cases f = map nil_case cases \<and> gos (selectgo g r cases w) ! g = SelWait f))"
proof -
  have i: "sel_inv w" "length (gos w) = n" using sel_run_sim [OF assms(1) makechan_fresh [OF assms(2)]] by blast+
  let ?f = "frame_of r cases"
  have c: "s_cases ?f = map nil_case cases" by (simp add: frame_of_def Let_def)
  have kd: "sc_kind (nil_case cas) = caseDefault \<longleftrightarrow> sc_kind cas = caseDefault" for cas :: "'a scase" by (simp add: nil_case_def)
  have "select_end ?f w (gos (selectgo g r cases w) ! g)"
    using sel_loop_sim(4) [OF i(1) _ assms(4) frame_of_ok [OF assms(5,6)]] assms(3) i(2) by (simp add: selectgo_loop)
  then show ?thesis using kd by (fastforce simp: select_end_def no_default_def c all_set_conv_all_nth)
qed

theorem selectgo_does_a_ready_case_witness:
  "gos (selectgo 0 (0, 0) one_send (sel_init 1 (\<lambda>a. two_chan))) ! 0 \<in> {SelRet 1 0 Sent, OnChan 1 (ChPanic SendOnClosed)}"
proof -
  let ?w = "sel_init 1 (\<lambda>a. two_chan)"
  have rest: "at_rest (gos ?w ! 0)" by (simp add: sel_init_def)
  have ready: "case_ready ?w (nil_case (one_send ! 0))"
    by (simp add: case_ready_def one_send_def nil_case_def send_ready_def sel_init_def two_chan_def)
  show ?thesis
    using selectgo_does_a_ready_case [OF sel_start two_chan_made zero_less_one rest one_ok(1,3), of "(0, 0)"] ready
    by (auto simp: one_send_def done_case_def nil_case_def)
qed

subsection \<open>Nothing is missed\<close>

lemma paired_one: "paired n rq sq \<Longrightarrow> x \<in> set rq \<Longrightarrow> y \<in> set sq \<Longrightarrow> sg_g x = sg_g y"
  by (auto simp: paired_def)

text \<open>
  C6: while a goroutine is parked in a \<open>select\<close>, a channel it wants to receive from is open and empty
  and nobody else waits to send on it, and one it wants to send on is open and full and nobody else
  waits to receive; and once woken it does a case and is not parked again.
\<close>

theorem parked_select_misses_nothing:
  assumes "sel_run n cs w" "\<And>b. makechan maxAlloc e (sz b) = Inr (cs b)" "g < n"
  shows "(\<forall>f k. gos w ! g = SelWait f \<longrightarrow> k < length (s_cases f) \<longrightarrow>
      (let cas = s_cases f ! k; c = chans w (sc_c cas)
       in (sc_kind cas = caseRecv \<longrightarrow> \<not> closed c \<and> ring c = [] \<and> (\<forall>sg \<in> set (sendq c). sg_g sg = g)) \<and>
          (sc_kind cas = caseSend \<longrightarrow> \<not> closed c \<and> qcount c = dataqsiz c \<and> (\<forall>sg \<in> set (recvq c). sg_g sg = g)))) \<and>
    (\<forall>b i x f. gos w ! g = SelWake b i x f \<longrightarrow> (\<exists>k < length (s_cases f). done_case (s_cases f) k (gos (sel_resume g b i x f w) ! g)))"
proof -
  have i: "sel_inv w" "length (gos w) = n" using sel_run_sim [OF assms(1) makechan_fresh [OF assms(2)]] by blast+
  have g: "g < length (gos w)" using i(2) assms(3) by simp
  have r: "\<not> closed (chans w a) \<and> ring (chans w a) = [] \<and> (\<forall>sg \<in> set (sendq (chans w a)). sg_g sg = g)"
    if "gos w ! g = SelWait f" "on_chan f a caseRecv k" "a \<noteq> 0" for f a k
  proof -
    have m: "sel_sudog g None k \<in> set (recvq (chans w a))" using sel_invD(4) [OF i(1) g] that(1,2) by simp
    then have ne: "recvq (chans w a) \<noteq> []" by auto
    note C = chan_invD [OF sel_invD(1) [OF i(1) that(3)]]
    have "\<forall>sg \<in> set (sendq (chans w a)). sg_g sg = g" using paired_one [of _ "recvq (chans w a)"] C(8) m by (force simp: sel_sudog_def)
    then show ?thesis using C(6,9) ne by (auto simp: ring_def)
  qed
  have s: "\<not> closed (chans w a) \<and> qcount (chans w a) = dataqsiz (chans w a) \<and> (\<forall>sg \<in> set (recvq (chans w a)). sg_g sg = g)"
    if "gos w ! g = SelWait f" "on_chan f a caseSend k" "a \<noteq> 0" for f a k
  proof -
    have m: "sel_sudog g (sc_elem (s_cases f ! k)) k \<in> set (sendq (chans w a))" using sel_invD(4) [OF i(1) g] that(1,2) by simp
    then have ne: "sendq (chans w a) \<noteq> []" by auto
    note C = chan_invD [OF sel_invD(1) [OF i(1) that(3)]]
    have "\<forall>sg \<in> set (recvq (chans w a)). sg_g sg = g" using paired_one [of _ _ "sendq (chans w a)"] C(8) m by (force simp: sel_sudog_def)
    then show ?thesis using C(7,9) ne by auto
  qed
  have "sc_c (s_cases f ! k) \<noteq> 0" if "gos w ! g = SelWait f" "k < length (s_cases f)" "sc_kind (s_cases f ! k) = caseRecv \<or> sc_kind (s_cases f ! k) = caseSend" for f k
  proof -
    have "frame_ok f" using sel_invD(4) [OF i(1) g] that(1) by simp
    then show ?thesis using that(2,3) by (auto simp: frame_ok_def all_set_conv_all_nth)
  qed
  then show ?thesis using r s sel_resume_sim(4) [OF i(1) g] by (auto simp: Let_def on_chan_def)
qed

theorem parked_select_misses_nothing_witness:
  "\<exists>f. gos (selectgo 0 (0, 0) one_recv (sel_init 1 (\<lambda>a. two_chan))) ! 0 = SelWait f \<and>
     \<not> closed (chans (selectgo 0 (0, 0) one_recv (sel_init 1 (\<lambda>a. two_chan))) 1)"
proof -
  let ?w = "sel_init 1 (\<lambda>a. two_chan)"
  let ?w' = "selectgo 0 (0, 0) one_recv ?w"
  have i: "sel_inv ?w" by (rule sel_init_inv) (rule makechan_fresh [OF two_chan_made])
  have c: "s_cases (frame_of (0, 0) one_recv) = one_recv" by (simp add: frame_of_def Let_def one_recv_def nil_case_def)
  have nr: "\<forall>cas \<in> set one_recv. \<not> case_ready ?w cas"
    by (simp add: case_ready_def one_recv_def recv_ready_def sel_init_def two_chan_def)
  have "select_end (frame_of (0, 0) one_recv) ?w (gos ?w' ! 0)"
    unfolding selectgo_loop by (rule sel_loop_sim(4) [OF i _ _ frame_of_ok [OF one_ok(2,4)]]) (simp_all add: sel_init_def)
  then have m: "gos ?w' ! 0 = SelWait (frame_of (0, 0) one_recv)"
    using nr c by (auto simp: select_end_def one_recv_def)
  have k: "0 < length (s_cases (frame_of (0, 0) one_recv))" "s_cases (frame_of (0, 0) one_recv) ! 0 = \<lparr>sc_c = 1, sc_elem = None, sc_kind = caseRecv\<rparr>"
    unfolding c by (simp_all add: one_recv_def)
  let ?f = "frame_of (0, 0) one_recv"
  note T = conjunct1 [OF parked_select_misses_nothing [OF one_run [OF one_ok(2,4), of "(0, 0)"] two_chan_made zero_less_one]]
  note C = T [THEN spec [of _ ?f], THEN spec [of _ 0], THEN mp, OF m, THEN mp, OF k(1), unfolded Let_def k(2) scase.select_convs]
  have "\<not> closed (chans ?w' 1)" using C by blast
  then show ?thesis using m by blast
qed

subsection \<open>The locks\<close>

definition select_locks :: "rand_state \<Rightarrow> 'v scase list \<Rightarrow> nat list" where
  "select_locks r cases =
     (let sc = map nil_case cases in sellock sc (lock_order sc (poll_order (length sc) r)))"

lemma image_nth: "(\<lambda>x. f (xs ! x)) ` {0..<length xs} = f ` set xs"
  unfolding set_conv_nth by (auto intro!: imageI)

lemma select_orders:
  fixes r :: rand_state
  assumes "length cases \<le> 2 ^ 16"
  defines "sc \<equiv> map nil_case cases"
  defines "po \<equiv> poll_order (length sc) r"
  shows "mset po = mset [0..<length sc]" "mset (lock_order sc po) = mset [0..<length sc]" "sorted (map (key_of sc) (lock_order sc po))"
proof -
  show po: "mset po = mset [0..<length sc]" unfolding po_def sc_def by (rule poll_order_perm) (use assms(1) in simp)
  then have "length po = length sc" by (metis length_upt minus_nat.diff_0 size_mset)
  then show "mset (lock_order sc po) = mset [0..<length sc]" "sorted (map (key_of sc) (lock_order sc po))"
    using lock_order_sorts [of po sc] po by simp_all
qed

text \<open>
  C16: the order \<open>selectgo\<close> polls its cases in is a permutation of them, and so is the order it locks
  in, sorted by the address of the channel; \<open>sellock\<close> locks every channel once, in ascending order,
  \<open>selunlock\<close> unlocks the same ones in the opposite order, and \<open>selparkcommit\<close> does too.
\<close>

theorem select_locks_each_channel_once:
  assumes "\<forall>cas \<in> set cases. case_ok cas" "length cases \<le> 2 ^ 16"
  shows "let sc = map nil_case cases; po = poll_order (length sc) r; lo = lock_order sc po
    in mset po = mset [0..<length cases] \<and> mset lo = mset [0..<length cases] \<and> sorted (map (key_of sc) lo) \<and>
       sorted_wrt (<) (sellock sc lo) \<and> set (sellock sc lo) = sc_c ` set cases - {0} \<and> selunlock sc lo = rev (sellock sc lo) \<and>
       ((\<forall>cas \<in> set cases. sc_kind cas \<noteq> caseDefault) \<longrightarrow> selparkcommit sc lo = sellock sc lo)"
proof -
  define sc where "sc = map nil_case cases"
  define lo where "lo = lock_order sc (poll_order (length sc) r)"
  note O = select_orders [OF assms(2), of r, folded sc_def, folded lo_def]
  have len: "length sc = length cases" by (simp add: sc_def)
  have set_lo: "set lo = {0..<length sc}" using O(2) by (metis set_mset_mset set_upt)
  have c: "sc_c (nil_case cas) = sc_c cas" for cas :: "'a scase" by (simp add: nil_case_def)
  have "(\<lambda>x. sc_c (sc ! x)) ` set lo = sc_c ` set sc" unfolding set_lo by (rule image_nth)
  also have "\<dots> = sc_c ` set cases" unfolding sc_def by (simp add: image_image c)
  finally have chans: "(\<lambda>x. sc_c (sc ! x)) ` set lo = sc_c ` set cases" .
  have "sc_kind (sc ! x) = caseNil \<longleftrightarrow> sc_c (sc ! x) = 0" if "\<forall>cas \<in> set cases. sc_kind cas \<noteq> caseDefault" "x \<in> set lo" for x
  proof -
    have "cases ! x \<in> set cases" "sc ! x = nil_case (cases ! x)" using that(2) set_lo len by (simp_all add: sc_def)
    then show ?thesis using that(1) assms(1) by (auto simp: nil_case_def case_ok_def)
  qed
  then show ?thesis
    using O locks_agree [OF O(3)] chans len unfolding sc_def [symmetric] lo_def [symmetric] Let_def by simp
qed

theorem select_locks_each_channel_once_witness:
  "sellock (map nil_case one_send) (lock_order (map nil_case one_send) (poll_order 1 (0, 0))) = [1]"
proof -
  let ?l = "sellock (map nil_case one_send) (lock_order (map nil_case one_send) (poll_order 1 (0, 0)))"
  have len: "length (map nil_case one_send) = 1" by (simp add: one_send_def)
  note T = select_locks_each_channel_once [OF one_ok(1,3), of "(0, 0)", unfolded Let_def len]
  have "sorted_wrt (<) ?l" using T by blast
  moreover have "set ?l = sc_c ` set one_send - {0}" using T by blast
  moreover have "sc_c ` set one_send - {0} = {1}" by (simp add: one_send_def)
  ultimately show ?thesis by (intro strict_unique) simp_all
qed

text \<open>
  C18: goroutines in \<open>select\<close>s over the same channels cannot deadlock on the locks: of any that all want
  one more lock, there is one whose next lock none of them holds.
\<close>

theorem select_locks_never_deadlock:
  assumes "finite G" "G \<noteq> {}" "\<And>g. g \<in> G \<Longrightarrow> (\<forall>cas \<in> set (cs g). case_ok cas) \<and> length (cs g) \<le> 2 ^ 16 \<and> n g < length (select_locks (r g) (cs g))"
  shows "\<exists>g \<in> G. \<forall>h \<in> G. select_locks (r g) (cs g) ! n g \<notin> set (take (n h) (select_locks (r h) (cs h)))"
proof (rule ascending_locks_progress [OF assms(1,2)])
  fix g
  assume g: "g \<in> G"
  have "sorted_wrt (<) (select_locks (r g) (cs g))"
    unfolding select_locks_def Let_def by (rule locks_agree(1) [OF select_orders(3)]) (use assms(3) [OF g] in simp)
  then show "sorted_wrt (<) (select_locks (r g) (cs g)) \<and> n g < length (select_locks (r g) (cs g))" using assms(3) [OF g] by simp
qed

definition two_sends :: "nat \<Rightarrow> nat scase list" where
  "two_sends g = map (\<lambda>a. \<lparr>sc_c = a, sc_elem = Some 7, sc_kind = caseSend\<rparr>) (if g = 0 then [1, 2] else [2, 1])"

lemma two_locks: "select_locks (0, 0) (two_sends g) = [1, 2]"
proof -
  have len: "length (two_sends g) \<le> 2 ^ 16" by (simp add: two_sends_def)
  let ?sc = "map nil_case (two_sends g)"
  let ?lo = "lock_order ?sc (poll_order (length ?sc) (0, 0))"
  note O = select_orders [OF len, of "(0, 0)"]
  have "set ?lo = {0..<length ?sc}" using O(2) by (metis set_mset_mset set_upt)
  then have "(\<lambda>x. sc_c (?sc ! x)) ` set ?lo = sc_c ` set ?sc" using image_nth [of sc_c ?sc] by simp
  then have "set (select_locks (0, 0) (two_sends g)) = sc_c ` set ?sc - {0}"
    using locks_agree(2) [OF O(3)] by (simp add: select_locks_def Let_def)
  also have "\<dots> = {1, 2}" by (auto simp: two_sends_def nil_case_def)
  finally have "set (select_locks (0, 0) (two_sends g)) = {1, 2}" .
  moreover have "sorted_wrt (<) (select_locks (0, 0) (two_sends g))"
    unfolding select_locks_def Let_def by (rule locks_agree(1) [OF O(3)])
  ultimately show ?thesis by (intro strict_unique) simp_all
qed

theorem select_locks_never_deadlock_witness:
  "\<exists>g \<in> {0, 1}. \<forall>h \<in> {0, 1 :: nat}. select_locks (0, 0) (two_sends g) ! g \<notin> set (take h (select_locks (0, 0) (two_sends h)))"
  by (rule select_locks_never_deadlock [of "{0, 1}" two_sends "\<lambda>g. g" "\<lambda>g. (0, 0)"])
    (use two_locks in \<open>auto simp: two_sends_def case_ok_def\<close>)

end
