(* ===== verification/Spec2Isabelle.thy ===== *)
theory Spec2Isabelle
  imports RateBound CronRun CronChain HystrixRuns HystrixStream GoContextRuns GoWaitGroup GoOnce GoMapRuns GoSelectRuns
begin

text \<open>
  Verification development for the Go libraries kept under src/: the token-bucket limiter (src/rate), the cron library
  (src/robfig/cron/v3), the latency and fault-tolerance library hystrix-go (src/hystrix-go), and the parts of the Go
  standard library (src/src, an annotated copy) whose behaviour their correctness rests on.

  \<^bold>\<open>The parts and how they interact.\<close> A limiter turns elapsed time into tokens with the floats and instants of
  package time. The cron parser splits texts with package strings and reads numbers with strconv into bit sets; the search
  for the next activation walks the calendar of package time; the runner keeps entries sorted with package sort, sleeps until
  the first is due, starts jobs through a chain of wrappers and takes additions and removals. A hystrix execution asks the
  circuit of its name whether it may run, takes a ticket of the circuit's pool, races the user's function against a timer and a
  context, reports its events to the circuit's metrics and gives the ticket back; the metrics are rolling counters and
  timings, read to open the circuit and to publish a stream of events. Below them are the packages they wait and cancel with:
  contexts, and the mutex, the wait group and the once of package sync; and the language's maps and channels, of package runtime.

  \<^bold>\<open>Shared layer.\<close> Prelude: integers at their width (\<open>i64\<close>, \<open>u64\<close>, \<open>u32\<close>), Go's division. GoFloat: \<open>float64\<close>
  as rationals rounded to nearest even, with infinities and NaN; the conversion of a float out of range of an integer is a
  parameter \<open>plat\<close>, as Go leaves it to the platform. GoTime: time.go and zoneinfo.go, instants with an optional monotonic
  reading, locations, the civil calendar. GoInstant, GoCalendar, Civil: the same as numbers: an instant is a count of
  nanoseconds, a date a number of days. GoStrings, GoDuration: strings.go, strconv/atoi.go, time.ParseDuration.
  GoSort, GoQuickSort: sort.go, \<open>sort.Sort\<close> whole over a list that stands for the data behind the interface; the locale
  \<open>less_contract\<close> is what a caller's \<open>Less\<close> must promise, interpreted for integers and for the runner's entries.

  \<^bold>\<open>rate.\<close> Rate: rate.go, a \<open>limiter\<close> record and one definition per method (\<open>advance\<close>, \<open>reserveN\<close>, \<open>CancelAt\<close>,
  \<open>WaitN\<close> in its stages). RateBound: what is granted over a stretch of calls against burst and rate, rounding included, for
  limits that refill the burst within the range of a \<open>Duration\<close> and clocks that are not set; cancellation, deadlines.

  \<^bold>\<open>cron.\<close> CronSpec: parser.go, the bit sets as 64-bit words, errors as values, a panic as an error of its own. CronNext:
  \<open>SpecSchedule.Next\<close> of spec.go as a machine over the code's labels and loops, iterated without a bound: \<open>None\<close> is a search
  that does not end. CronSearch: in a zone of a fixed offset the search ends, because every turn moves the instant forward or a
  field to its start, and finds the first matching second or none within five years; and zones with daylight saving time, one
  where a missing midnight is handled, one where it makes \<open>Next\<close> answer the wrong day, one where it makes it miss a day, one
  where the search does not end. CronRun: cron.go, the record of the runner, its events, options and the chain.
  CronChain: chain.go as step relations, the format strings of logger.go.

  \<^bold>\<open>hystrix-go.\<close> Rolling, RollingTiming: rolling/*.go, Go maps as association lists in the order a loop visits them; both
  refine a timed history, and \<open>Add\<close> is also given in its atomic parts. HystrixSettings: settings.go. HystrixMetrics:
  metrics.go and metric_collector/*.go; the locale \<open>metric_source\<close> is what the exchange asks of its first collector, interpreted
  on the default one. HystrixPool: pool.go, pool_metrics.go; the locale \<open>ticket_pool\<close> is what an execution asks of its
  pool. HystrixCircuit: circuit.go, circuits in a store with the map of names to addresses; \<open>test_step\<close> interleaves the parts
  of \<open>allowSingleTest\<close>, \<open>get_step\<close> those of \<open>GetCircuit\<close>. HystrixCommand: hystrix.go, an execution as a record with the program
  counters of its two goroutines and its caller, \<open>returnOnce\<close> as the list of actions its body has left, and the step relation of all
  executions on one circuit. HystrixRuns: the runs of that relation. HystrixStream: eventstream.go.

  \<^bold>\<open>context and sync.\<close> GoContext: context.go, the contexts in a store by address with channels and pending timers, one
  definition per function and method. GoContextTree, GoContextInv: the tree of embedded contexts and the invariant every call keeps;
  the recursion of \<open>cancel\<close> gets the number of contexts as fuel, enough because a child is younger than its parent.
  GoContextRuns: the runs of calls and timers; the locale \<open>cancellation\<close> is what a caller relies on, interpreted on the store.
  GoThreads: sums over goroutines. GoWaitGroup, GoMutex, GoMutexRuns, GoOnce: waitgroup.go, mutex.go, once.go as step relations
  over the program counters of any number of goroutines, one atomic operation a step, the state words at their width (the number of
  goroutines stays below the room the word has for waiters); the locale \<open>mutual_exclusion\<close> is what \<open>Once\<close> asks of its
  mutex, interpreted on the model of \<open>Mutex\<close>.

  \<^bold>\<open>runtime.\<close> GoMap: map.go, a bucket with its overflow buckets as one list of cells, the header as a record, the hash function a
  parameter. GoMapCells: one chain of cells, what looking up, storing and deleting do to it. GoMapGrow, GoMapInv: one old bucket
  evacuated, the invariant of a map that may be growing. GoMapOps, GoMapRuns: every operation keeps it and acts as on a finite map; the
  locale \<open>finite_map\<close> is what a program relies on when it uses a map, interpreted on the code's operations. The jumps back to
  \<open>again\<close> get two as fuel: after one growth there is room, because a map with fewer than four old buckets is evacuated at once.
  GoChan: chan.go, a channel with the program counters of the goroutines on it, one step for each stretch under the channel's lock and
  for each read of a fast path; what goroutines in a \<open>select\<close> do to it are steps of its environment. GoChanInv, GoChanSteps: the ring
  as a list, the two queues of waiters, the invariant every step keeps. GoChanRuns, GoChanClose: its runs, as those of a bounded
  queue; who waits and who is woken; what closing means; what the fast paths may miss. The locale \<open>lossless\<close> is what a user of a
  channel relies on, interpreted on the channel and on each channel of a program with \<open>select\<close>s. GoRand: \<open>fastrand\<close>.
  GoSelectOrder, GoSelect: select.go, the poll and lock orders, the locks, and \<open>selectgo\<close> over a store of channels; an operation on
  one channel acts on that channel's view of the world. GoSelectView, GoSelectInv, GoSelectPass, GoSelectSteps: what it does to
  the other channels, the invariant of parked and woken goroutines, and that each pass is, for every channel, steps that GoChan has.
  GoSelectRuns: what follows for whole programs. Up to 65536 cases, as the code's index type allows.

  \<^bold>\<open>What the lemmas show.\<close> For each component: an invariant of its state kept by every operation (tokens within the
  burst, distinct entry ids, bit sets in bounds, at most ten buckets, tickets in one place, the stages of a body), what each
  operation returns on every branch, a refinement where the contract is simpler than the code (a rolling counter is a history, a
  client's stream a lossy queue, a sort the sorted permutation), and for what can wait or loop that it ends (the schedule
  search, the depth of quicksort, at most twenty steps of an execution and never stuck). Where the code departs from its
  comments the departure is a theorem too.

  \<^bold>\<open>Time and concurrency.\<close> A reading of the clock is an argument, one for each call of \<open>time.Now\<close>; a function from call sites
  to readings where there are many. An operation under one lock is a step. Where the code gives a lock back in the middle, or
  uses an atomic, the parts are steps and any interleaving is allowed, with these exceptions, each one step: a call on contexts
  (the mutexes of package context are left out, so nothing is said of blocking), \<open>AllowRequest\<close> and \<open>ReportEvent\<close> inside an
  execution, the registration of a stream, and, in the history a rolling timing stands for, \<open>Add\<close>. Fields named as history in a record are never read by a
  step.

  \<^bold>\<open>Not modelled.\<close> Loading zone files, layouts and the formatting of times; writing to logs, HTTP and JSON; the stable
  sort; a panic of a user's function in an execution (it ends the program) and operations of a user's own collector; a
  \<open>Flush\<close> while executions run (they keep the circuit they got); contexts implemented outside package context; the order of the
  queue behind a semaphore; iteration over a map; the Go compiler, tools and the rest of the runtime.
\<close>

end
